(* ===== verification/Its_Prelude.thy ===== *)
theory Its_Prelude imports Main "HOL-Library.Multiset" begin

text \<open>
  What every component theory shares: the error values of the C++ code, their sequencing,
  32-bit signed wrap-around, and the two ordered containers of the code
  (\<open>std::set\<close> and \<open>std::multiset\<close> with the address order of hash-consed pointers) with the
  interface their clients rely on.
\<close>

section \<open>Collections of facts\<close>

named_theorems res_simps \<open>rewriting with error results\<close>
named_theorems sem_simps \<open>the reference semantics of expressions\<close>
named_theorems order_simps \<open>contents of ordered containers\<close>

section \<open>Errors as values\<close>

text \<open>
  \<open>Throw\<close> is a C++ \<open>throw\<close> with its message. \<open>Undefined\<close> is an operation for which the compiled
  code has no value to continue with (division overflow, a shift by a width that does not
  exist, a dereference of something that is not an object). \<open>Abort\<close> ends the process: a failed
  \<open>assert\<close> (the build keeps assertions) or \<open>exit\<close> with an error status.
\<close>

datatype cxx_error = Throw string | Undefined string | Abort string

type_synonym 'a res = "cxx_error + 'a"

definition rbind :: "'a res \<Rightarrow> ('a \<Rightarrow> 'b res) \<Rightarrow> 'b res" where
  "rbind m f = (case m of Inl e \<Rightarrow> Inl e | Inr x \<Rightarrow> f x)"

lemma rbind_Inl [simp, res_simps]: "rbind (Inl e) f = Inl e"
  by (simp add: rbind_def)

lemma rbind_Inr [simp, res_simps]: "rbind (Inr x) f = f x"
  by (simp add: rbind_def)

lemma rbind_eq_Inr_iff [res_simps]: "rbind m f = Inr y \<longleftrightarrow> (\<exists>x. m = Inr x \<and> f x = Inr y)"
  by (cases m) simp_all

lemma rbind_InrE:
  assumes "rbind m f = Inr y"
  obtains x where "m = Inr x" "f x = Inr y"
  using assms by (cases m) simp_all

text \<open>A sequence of operations on the elements of a list, stopping at the first error.\<close>

fun rmap :: "('a \<Rightarrow> 'b res) \<Rightarrow> 'a list \<Rightarrow> 'b list res" where
  "rmap f [] = Inr []"
| "rmap f (x # xs) = rbind (f x) (\<lambda>y. rbind (rmap f xs) (\<lambda>ys. Inr (y # ys)))"

lemma rmap_eq_Inr_iff [res_simps]: "rmap f xs = Inr ys \<longleftrightarrow> list_all2 (\<lambda>x y. f x = Inr y) xs ys"
proof (induction xs arbitrary: ys)
  case (Cons x xs)
  then show ?case by (auto simp: rbind_eq_Inr_iff list_all2_Cons1)
qed auto

lemma list_all2_in_set1: "list_all2 P xs ys \<Longrightarrow> x \<in> set xs \<Longrightarrow> \<exists>y\<in>set ys. P x y"
  by (induction xs ys rule: list_all2_induct) auto

lemma list_all2_in_set2: "list_all2 P xs ys \<Longrightarrow> y \<in> set ys \<Longrightarrow> \<exists>x\<in>set xs. P x y"
  by (induction xs ys rule: list_all2_induct) auto

lemma rmap_fundef_cong [fundef_cong]:
  "xs = ys \<Longrightarrow> (\<And>x. x \<in> set ys \<Longrightarrow> f x = g x) \<Longrightarrow> rmap f xs = rmap g ys"
proof (induction xs arbitrary: ys)
  case (Cons x xs)
  then show ?case by (cases ys) auto
qed simp

lemma rmap_total: "(\<And>x. x \<in> set xs \<Longrightarrow> \<exists>y. f x = Inr y) \<Longrightarrow> \<exists>ys. rmap f xs = Inr ys"
  by (induction xs) (force simp: rbind_eq_Inr_iff)+

lemma UN_rmap:
  assumes "rmap f xs = Inr ks" and "\<And>x k. x \<in> set xs \<Longrightarrow> f x = Inr k \<Longrightarrow> G k = F x"
  shows "(\<Union>k\<in>set ks. G k) = (\<Union>x\<in>set xs. F x)"
  using assms
proof (induction xs arbitrary: ks)
  case (Cons x xs)
  then obtain k ks' where "f x = Inr k" "rmap f xs = Inr ks'" "ks = k # ks'"
    by (auto simp: rbind_eq_Inr_iff simp del: rmap_eq_Inr_iff)
  moreover from this have "G k = F x" using Cons.prems(2) by simp
  moreover have "(\<Union>k\<in>set ks'. G k) = (\<Union>x\<in>set xs. F x)"
    using Cons calculation by (intro Cons.IH) auto
  ultimately show ?case by simp
qed simp

text \<open>A loop that carries a state, stopped by the first error.\<close>

fun rfold :: "('a \<Rightarrow> 's \<Rightarrow> 's res) \<Rightarrow> 'a list \<Rightarrow> 's \<Rightarrow> 's res" where
  "rfold f [] s = Inr s"
| "rfold f (x # xs) s = rbind (f x s) (rfold f xs)"

lemma rfold_inv:
  assumes "\<And>ys x s. (\<exists>zs. xs = ys @ x # zs) \<Longrightarrow> P ys s \<Longrightarrow> \<exists>t. f x s = Inr t \<and> P (ys @ [x]) t" and "P [] s"
  shows "\<exists>t. rfold f xs s = Inr t \<and> P xs t"
proof -
  have "\<exists>t. rfold f zs s = Inr t \<and> P xs t" if "xs = ys @ zs" "P ys s" for ys zs s
    using that
  proof (induction zs arbitrary: ys s)
    case (Cons z zs)
    then obtain t where t: "f z s = Inr t" "P (ys @ [z]) t" using assms(1) by blast
    with Cons.IH [of "ys @ [z]" t] Cons.prems(1) show ?case by simp
  qed simp
  from this [of "[]" xs s] assms(2) show ?thesis by simp
qed

text \<open>\<open>std::map::insert\<close> (an existing entry stays), \<open>m[k] = v\<close>.\<close>

definition map_insert :: "'k \<Rightarrow> 'v \<Rightarrow> ('k \<times> 'v) list \<Rightarrow> ('k \<times> 'v) list" where
  "map_insert k v m = (if k \<in> fst ` set m then m else m @ [(k, v)])"

definition map_assign :: "'k \<Rightarrow> 'v \<Rightarrow> ('k \<times> 'v) list \<Rightarrow> ('k \<times> 'v) list" where
  "map_assign k v m = (k, v) # filter (\<lambda>p. fst p \<noteq> k) m"

lemma map_of_map_insert: "map_of (map_insert k v m) x = (if map_of m x = None \<and> x = k then Some v else map_of m x)"
proof (cases "map_of m k")
  case None
  then have "k \<notin> fst ` set m" by (simp add: map_of_eq_None_iff)
  then show ?thesis using None by (simp add: map_insert_def map_add_def split: option.split)
next
  case (Some w)
  then have "k \<in> fst ` set m" by (metis map_of_eq_None_iff option.distinct(1))
  then show ?thesis using Some by (auto simp: map_insert_def)
qed

lemma map_of_map_assign: "map_of (map_assign k v m) x = (if x = k then Some v else map_of m x)"
  unfolding map_assign_def by (induction m) auto

section \<open>32-bit signed integers\<close>

text \<open>
  The C++ \<open>int\<close> is kept as an HOL integer; \<open>wrap32\<close> is what a 32-bit two's complement
  register holds after an operation.
\<close>

definition INT_MAX :: int where "INT_MAX = 2147483647"
definition INT_MIN :: int where "INT_MIN = - 2147483648"

definition int32 :: "int \<Rightarrow> bool" where
  "int32 x \<longleftrightarrow> INT_MIN \<le> x \<and> x \<le> INT_MAX"

definition wrap32 :: "int \<Rightarrow> int" where
  "wrap32 x = (x + 2147483648) mod 4294967296 - 2147483648"

lemma wrap32_int32 [simp]: "int32 (wrap32 x)"
proof -
  have "0 \<le> (x + 2147483648) mod 4294967296" "(x + 2147483648) mod 4294967296 < 4294967296"
    by (rule pos_mod_sign pos_mod_bound, simp)+
  then show ?thesis
    unfolding int32_def wrap32_def INT_MIN_def INT_MAX_def by linarith
qed

lemma wrap32_id [simp]: "int32 x \<Longrightarrow> wrap32 x = x"
  by (simp add: int32_def wrap32_def INT_MIN_def INT_MAX_def mod_pos_pos_trivial)

lemma wrap32_eq_iff: "wrap32 x = wrap32 y \<longleftrightarrow> x mod 4294967296 = y mod 4294967296"
  by (simp add: wrap32_def mod_eq_dvd_iff)

text \<open>\<open>to_string\<close> of \<open>its/Naming.hh\<close> on integers.\<close>

fun show_nat :: "nat \<Rightarrow> string" where
  "show_nat n =
     (if n < 10 then [char_of (48 + n)] else show_nat (n div 10) @ [char_of (48 + n mod 10)])"

declare show_nat.simps [simp del]

definition show_int :: "int \<Rightarrow> string" where
  "show_int i = (if i < 0 then CHR ''-'' # show_nat (nat (- i)) else show_nat (nat i))"

section \<open>C string functions\<close>

text \<open>\<open>find_last_of\<close> (one character), \<open>npos\<close> being \<open>None\<close>.\<close>

fun find_last_of :: "string \<Rightarrow> char \<Rightarrow> nat option" where
  "find_last_of [] c = None"
| "find_last_of (x # xs) c =
     (case find_last_of xs c of
        Some i \<Rightarrow> Some (Suc i)
      | None \<Rightarrow> if x = c then Some 0 else None)"

text \<open>\<open>sscanf (s, "%d", &index)\<close>: leading white space, a sign, digits; \<open>None\<close> when nothing is read.\<close>

definition is_space :: "char \<Rightarrow> bool" where
  "is_space c = (c \<in> {CHR '' '', CHR 0x09, CHR 0x0A, CHR 0x0B, CHR 0x0C, CHR 0x0D})"

definition digit_val :: "char \<Rightarrow> nat option" where
  "digit_val c = (let n = of_char c in if 48 \<le> n \<and> n \<le> 57 then Some (n - 48) else None)"

fun scan_digits :: "string \<Rightarrow> nat \<Rightarrow> nat" where
  "scan_digits [] acc = acc"
| "scan_digits (c # cs) acc =
     (case digit_val c of None \<Rightarrow> acc | Some d \<Rightarrow> scan_digits cs (10 * acc + d))"

fun scan_unsigned :: "string \<Rightarrow> nat option" where
  "scan_unsigned [] = None"
| "scan_unsigned (c # cs) = (case digit_val c of None \<Rightarrow> None | Some d \<Rightarrow> Some (scan_digits cs d))"

definition scan_int :: "string \<Rightarrow> int option" where
  "scan_int s =
     (case dropWhile is_space s of
        [] \<Rightarrow> None
      | c # cs \<Rightarrow>
          if c = CHR ''-'' then map_option (\<lambda>n. - int n) (scan_unsigned cs)
          else if c = CHR ''+'' then map_option int (scan_unsigned cs)
          else map_option int (scan_unsigned (c # cs)))"

lemma find_last_of_less: "find_last_of xs c = Some p \<Longrightarrow> p < length xs"
  by (induction xs arbitrary: p) (auto split: option.splits if_splits)

lemma find_last_of_None_iff: "find_last_of xs c = None \<longleftrightarrow> c \<notin> set xs"
  by (induction xs) (auto split: option.splits)

lemma digit_val_char_of: "n < 10 \<Longrightarrow> digit_val (char_of (48 + n)) = Some n"
  by (simp add: digit_val_def Let_def of_char_of)

lemma scan_digits_show_nat: "scan_digits (show_nat n @ cs) acc = scan_digits cs (acc * 10 ^ length (show_nat n) + n)"
proof (induction n arbitrary: acc cs rule: show_nat.induct)
  case (1 n)
  show ?case
  proof (cases "n < 10")
    case True
    then show ?thesis by (simp add: show_nat.simps [of n] digit_val_char_of mult.commute)
  next
    case False
    then have n: "show_nat n = show_nat (n div 10) @ [char_of (48 + n mod 10)]"
      by (simp add: show_nat.simps [of n])
    have "scan_digits (show_nat n @ cs) acc
        = scan_digits ([char_of (48 + n mod 10)] @ cs) (acc * 10 ^ length (show_nat (n div 10)) + n div 10)"
      unfolding n append_assoc by (rule "1.IH" [OF False])
    also have "\<dots> = scan_digits cs (10 * (acc * 10 ^ length (show_nat (n div 10)) + n div 10) + n mod 10)"
      by (simp add: digit_val_char_of)
    also have "10 * (acc * 10 ^ length (show_nat (n div 10)) + n div 10) + n mod 10
        = acc * 10 ^ length (show_nat n) + n"
      by (simp add: n algebra_simps)
    finally show ?thesis .
  qed
qed

lemma show_nat_Cons: "\<exists>(d::nat) cs. show_nat n = char_of (48 + d) # cs \<and> d < 10"
proof (induction n rule: show_nat.induct)
  case (1 n)
  show ?case
  proof (cases "n < 10")
    case True
    then show ?thesis by (intro exI [of _ n] exI [of _ "[]"]) (simp add: show_nat.simps [of n])
  next
    case False
    with 1 obtain d :: nat and cs where "show_nat (n div 10) = char_of (48 + d) # cs" "d < 10" by blast
    with False show ?thesis
      by (intro exI [of _ d] exI [of _ "cs @ [char_of (48 + n mod 10)]"]) (simp add: show_nat.simps [of n])
  qed
qed

lemma scan_unsigned_show_nat:
  assumes "\<And>c cs'. cs = c # cs' \<Longrightarrow> digit_val c = None"
  shows "scan_unsigned (show_nat n @ cs) = Some n"
proof -
  obtain d :: nat and ds where d: "show_nat n = char_of (48 + d) # ds" "d < 10" using show_nat_Cons by blast
  have "scan_digits cs m = m" for m using assms by (cases cs) auto
  then have "scan_digits (show_nat n @ cs) 0 = n" by (simp add: scan_digits_show_nat)
  with d show ?thesis by (simp add: digit_val_char_of)
qed

text \<open>Reading back a number that was printed, up to a character that is not a digit.\<close>

lemma scan_int_show_int:
  assumes "\<And>c cs'. cs = c # cs' \<Longrightarrow> digit_val c = None"
  shows "scan_int (show_int i @ cs) = Some i"
proof (cases "i < 0")
  case True
  have "\<not> is_space (CHR ''-'')" by (simp add: is_space_def)
  with True scan_unsigned_show_nat [of cs "nat (- i)"] assms show ?thesis
    by (simp add: show_int_def scan_int_def)
next
  case False
  obtain d :: nat and ds where d: "show_nat (nat i) = char_of (48 + d) # ds" "d < 10" using show_nat_Cons by blast
  have "of_char (char_of (48 + d) :: char) = 48 + d" using d(2) by (simp add: of_char_of)
  then have c: "\<not> is_space (char_of (48 + d))" "char_of (48 + d) \<noteq> CHR ''-''" "char_of (48 + d) \<noteq> CHR ''+''"
    using d(2) by (auto simp: is_space_def dest!: arg_cong [where f = "of_char :: char \<Rightarrow> nat"])
  with False scan_unsigned_show_nat [of cs "nat i"] assms d(1) show ?thesis
    by (simp add: show_int_def scan_int_def)
qed

section \<open>Ordered containers of hash-consed pointers\<close>

text \<open>
  A \<open>std::multiset\<close> or \<open>std::set\<close> iterates in the order of its \<open>less\<close>, which for expressions is
  the order of addresses (\<open>concrete < other.concrete\<close>). Which of two expressions has the smaller
  address is decided by the memory allocator at run time, so \<open>lt\<close> is a parameter. The unique
  table stores one object per structure, so equal pointers are equal terms: the \<open>std::set\<close> drops an
  element exactly when an equal term is present.
\<close>

fun ms_insert :: "('a \<Rightarrow> 'a \<Rightarrow> bool) \<Rightarrow> 'a \<Rightarrow> 'a list \<Rightarrow> 'a list" where
  "ms_insert lt x [] = [x]"
| "ms_insert lt x (y # ys) = (if lt x y then x # y # ys else y # ms_insert lt x ys)"

definition set_insert :: "('a \<Rightarrow> 'a \<Rightarrow> bool) \<Rightarrow> 'a \<Rightarrow> 'a list \<Rightarrow> 'a list" where
  "set_insert lt x xs = (if x \<in> set xs then xs else ms_insert lt x xs)"

text \<open>\<open>std::set_union\<close> of two sorted ranges, which keeps one copy of a common element.\<close>

fun set_union :: "('a \<Rightarrow> 'a \<Rightarrow> bool) \<Rightarrow> 'a list \<Rightarrow> 'a list \<Rightarrow> 'a list" where
  "set_union lt [] ys = ys"
| "set_union lt xs [] = xs"
| "set_union lt (x # xs) (y # ys) =
     (if x = y then x # set_union lt xs ys
      else if lt x y then x # set_union lt xs (y # ys)
      else y # set_union lt (x # xs) ys)"

text \<open>What a client relies on: the elements after an insertion, and their multiplicities.\<close>

locale element_container =
  fixes ins :: "'a \<Rightarrow> 'c \<Rightarrow> 'c"
    and elems :: "'c \<Rightarrow> 'a set"
  assumes elems_ins: "elems (ins x c) = insert x (elems c)"
begin

lemma elems_fold: "elems (fold ins xs c) = set xs \<union> elems c"
  by (induction xs arbitrary: c) (auto simp: elems_ins)

lemma ball_elems_fold:
  "(\<forall>x\<in>elems (fold ins xs c). P x) \<longleftrightarrow> (\<forall>x\<in>set xs. P x) \<and> (\<forall>x\<in>elems c. P x)"
  by (auto simp: elems_fold)

end

locale bag_container = element_container ins elems
  for ins :: "'a \<Rightarrow> 'c \<Rightarrow> 'c" and elems :: "'c \<Rightarrow> 'a set" +
  fixes bag :: "'c \<Rightarrow> 'a multiset"
  assumes bag_ins: "bag (ins x c) = add_mset x (bag c)"
begin

lemma bag_fold: "bag (fold ins xs c) = mset xs + bag c"
  by (induction xs arbitrary: c) (auto simp: bag_ins)

end

lemma set_ms_insert [order_simps, simp]: "set (ms_insert lt x xs) = insert x (set xs)"
  by (induction xs) auto

lemma mset_ms_insert [order_simps, simp]: "mset (ms_insert lt x xs) = add_mset x (mset xs)"
  by (induction xs) auto

lemma length_ms_insert [simp]: "length (ms_insert lt x xs) = Suc (length xs)"
  by (induction xs) auto

lemma ms_insert_not_Nil [simp]: "ms_insert lt x xs \<noteq> []"
  by (cases xs) auto

lemma set_set_insert [order_simps, simp]: "set (set_insert lt x xs) = insert x (set xs)"
  by (auto simp: set_insert_def)

lemma set_set_union [order_simps, simp]: "set (set_union lt xs ys) = set xs \<union> set ys"
  by (induction lt xs ys rule: set_union.induct) auto

lemma set_insert_not_Nil [simp]: "set_insert lt x xs \<noteq> []"
  by (auto simp: set_insert_def)

interpretation stl_multiset: bag_container "ms_insert lt" set mset for lt
  by unfold_locales simp_all

interpretation stl_set: element_container "set_insert lt" set for lt
  by unfold_locales simp

text \<open>A multiset mapped by any function, whatever the order of the target.\<close>

lemma sum_list_fold_ms_insert:
  "sum_list (map f (fold (ms_insert lt) xs ys)) = sum_list (map f xs) + sum_list (map f ys)"
  for f :: "'a \<Rightarrow> 'b::comm_monoid_add"
proof -
  have "sum_mset (image_mset f (mset (fold (ms_insert lt) xs ys)))
      = sum_mset (image_mset f (mset xs + mset ys))"
    by (simp add: stl_multiset.bag_fold)
  then show ?thesis by (simp flip: mset_map sum_mset_sum_list)
qed

lemma mset_map_ms_insert [simp]: "mset (map f (ms_insert lt x xs)) = add_mset (f x) (mset (map f xs))"
  by simp

text \<open>Weights: insertion in a multiset adds the weight of the element, in a set at most that.\<close>

lemma sum_list_ms_insert [simp]:
  "sum_list (map f (ms_insert lt x xs)) = f x + sum_list (map f xs)"
  for f :: "'a \<Rightarrow> 'b::comm_monoid_add"
  by (induction xs) (auto simp: add_ac)

lemma sum_list_set_insert_le:
  "sum_list (map f (set_insert lt x xs)) \<le> f x + sum_list (map f xs)" for f :: "'a \<Rightarrow> nat"
  by (auto simp: set_insert_def)

lemma sum_list_fold_set_insert_le:
  "sum_list (map f (fold (set_insert lt) xs ys)) \<le> sum_list (map f xs) + sum_list (map f ys)"
  for f :: "'a \<Rightarrow> nat"
proof (induction xs arbitrary: ys)
  case (Cons x xs)
  show ?case
    using Cons.IH [of "set_insert lt x ys"] sum_list_set_insert_le [of f lt x ys] by simp
qed simp

end
