(* ===== verification/Gal_Syntax.thy ===== *)
theory Gal_Syntax imports Its_Prelude begin

text \<open>
  The parametric expressions of \<open>its/gal/PIntExpression.cpp\<close> and \<open>its/gal/PBoolExpression.cpp\<close>:
  their kinds, the expression trees, the constants packed into tagged pointers, the constant
  evaluation of each operator on 32-bit integers, and the factory functions that build nodes.
\<close>

section \<open>Kinds of expressions\<close>

datatype IntExprType =
  INTCONST | VAR | PLUS | MULT | MINUS | DIV | MOD | POW | BITAND | BITOR | BITXOR | WRAPBOOL
| LSHIFT | RSHIFT | ARRAY | CONSTARRAY | INTNDEF | BITCOMP

datatype BoolExprType =
  BOOLCONST | BOOLVAR | OR | AND | NOT | EQ | NEQ | LT | GT | LEQ | GEQ | BOOLNDEF

text \<open>The concrete subclasses of \<open>NaryIntExpr\<close>, \<open>UnaryIntExpr\<close>, \<open>BinaryIntExpr\<close>, \<open>NaryBoolExpr\<close> and
  \<open>BinaryBoolComp\<close>, with the kind each returns from \<open>getType\<close>.\<close>

datatype NaryIntClass = PlusExpr | MultExpr
datatype UnaryIntClass = BitCompExpr
datatype BinaryIntClass =
  MinusExpr | DivExpr | ModExpr | PowExpr | BitAndExpr | BitOrExpr | BitXorExpr
| BitLshiftExpr | BitRshiftExpr
datatype NaryBoolClass = OrExpr | AndExpr
datatype BoolCompClass = BoolEq | BoolNeq | BoolGeq | BoolLeq | BoolLt | BoolGt

fun nary_type :: "NaryIntClass \<Rightarrow> IntExprType" where
  "nary_type PlusExpr = PLUS"
| "nary_type MultExpr = MULT"

fun unary_type :: "UnaryIntClass \<Rightarrow> IntExprType" where
  "unary_type BitCompExpr = BITCOMP"

fun binary_type :: "BinaryIntClass \<Rightarrow> IntExprType" where
  "binary_type MinusExpr = MINUS"
| "binary_type DivExpr = DIV"
| "binary_type ModExpr = MOD"
| "binary_type PowExpr = POW"
| "binary_type BitAndExpr = BITAND"
| "binary_type BitOrExpr = BITOR"
| "binary_type BitXorExpr = BITXOR"
| "binary_type BitLshiftExpr = LSHIFT"
| "binary_type BitRshiftExpr = RSHIFT"

fun nbool_type :: "NaryBoolClass \<Rightarrow> BoolExprType" where
  "nbool_type OrExpr = OR"
| "nbool_type AndExpr = AND"

fun comp_type :: "BoolCompClass \<Rightarrow> BoolExprType" where
  "comp_type BoolEq = EQ"
| "comp_type BoolNeq = NEQ"
| "comp_type BoolGeq = GEQ"
| "comp_type BoolLeq = LEQ"
| "comp_type BoolLt = LT"
| "comp_type BoolGt = GT"

section \<open>Expression trees\<close>

text \<open>
  \<open>ConstTag t\<close> is a \<open>PIntExpression\<close> whose pointer is not an address but the tagged constant \<open>t\<close>
  (the class \<open>ConstExpr\<close> of the source is never instantiated). The parameters of an n-ary integer
  expression are a multiset, those of an n-ary Boolean expression a set, both in address order.
  Variables are indexes into an environment kept elsewhere; \<open>ArrayVarExpr v i l\<close> is \<open>v[i]\<close> in an array
  of \<open>l\<close> cells and \<open>ArrayConstExpr v i\<close> the cell \<open>v[i]\<close>.
\<close>

datatype pint =
  VarExpr int
| ConstTag int
| NDefExpr
| WrapBoolExpr pbool
| ArrayVarExpr int pint int
| ArrayConstExpr int int
| NaryIntExpr NaryIntClass "pint list"
| UnaryIntExpr UnaryIntClass pint
| BinaryIntExpr BinaryIntClass pint pint
and pbool =
  NaryBoolExpr NaryBoolClass "pbool list"
| BinaryBoolComp BoolCompClass pint pint
| NotExpr pbool
| BoolConstExpr bool
| BoolNDefExpr

text \<open>The address orders \<open>PIntExpression::less\<close> and \<open>PBoolExpression::operator<\<close>.\<close>

record heap_order =
  iless :: "pint \<Rightarrow> pint \<Rightarrow> bool"
  bless :: "pbool \<Rightarrow> pbool \<Rightarrow> bool"

fun int_getType :: "pint \<Rightarrow> IntExprType" where
  "int_getType (VarExpr v) = VAR"
| "int_getType (ConstTag t) = INTCONST"
| "int_getType NDefExpr = INTNDEF"
| "int_getType (WrapBoolExpr b) = WRAPBOOL"
| "int_getType (ArrayVarExpr v i l) = ARRAY"
| "int_getType (ArrayConstExpr v i) = CONSTARRAY"
| "int_getType (NaryIntExpr k ps) = nary_type k"
| "int_getType (UnaryIntExpr k e) = unary_type k"
| "int_getType (BinaryIntExpr k l r) = binary_type k"

fun bool_getType :: "pbool \<Rightarrow> BoolExprType" where
  "bool_getType (NaryBoolExpr k ps) = nbool_type k"
| "bool_getType (BinaryBoolComp k l r) = comp_type k"
| "bool_getType (NotExpr b) = NOT"
| "bool_getType (BoolConstExpr c) = BOOLCONST"
| "bool_getType BoolNDefExpr = BOOLNDEF"

section \<open>Constants in tagged pointers\<close>

text \<open>
  \<open>PIntExpression (int cst)\<close>: the absolute value shifted left by two, the sign in bit 1, bit 0 set,
  computed in 32-bit \<open>int\<close> and read back as \<open>unsigned int\<close>. The products and sums overflow for
  large constants, which the compiled code wraps.
\<close>

definition tag_const :: "int \<Rightarrow> int" where
  "tag_const cst =
     (let isneg = (if cst < 0 then 2 else 0);
          c = (if isneg \<noteq> 0 then wrap32 (- cst) else cst);
          c' = wrap32 (wrap32 (c * 4) + isneg + 1)
      in c' mod 4294967296)"

text \<open>\<open>PIntExpression::getValue\<close> on a tagged pointer.\<close>

definition untag_const :: "int \<Rightarrow> int" where
  "untag_const val =
     (let isneg = val mod 4 \<ge> 2;
          cst = wrap32 (val div 4)
      in if isneg then wrap32 (- cst) else cst)"

definition createConstant :: "int \<Rightarrow> pint" where
  "createConstant v = ConstTag (tag_const v)"

fun int_getValue :: "pint \<Rightarrow> int res" where
  "int_getValue (ConstTag t) = Inr (untag_const t)"
| "int_getValue (VarExpr v) = Inr (- 1)"
| "int_getValue NDefExpr = Inr 0"
| "int_getValue (ArrayConstExpr v i) = Inr i"
| "int_getValue e = Inl (Throw ''Do not call getValue on non constant int expressions.'')"

fun int_getVariable :: "pint \<Rightarrow> int res" where
  "int_getVariable (VarExpr v) = Inr v"
| "int_getVariable (ArrayConstExpr v i) = Inr v"
| "int_getVariable (ConstTag t) = Inl (Undefined ''dereference of a tagged constant'')"
| "int_getVariable e =
     Inl (Throw ''Do not call getVariable on non constant var expr or var int expressions.'')"

fun bool_getValue :: "pbool \<Rightarrow> bool res" where
  "bool_getValue (BoolConstExpr c) = Inr c"
| "bool_getValue b = Inl (Throw ''Do not call getValue on non constant Boolean expressions.'')"

section \<open>Operators on constants\<close>

text \<open>
  \<open>INT_MAX\<close> is the code's \<open>TOP\<close>, the value it uses for an undefined result. Signed overflow of
  \<open>-\<close> and \<open>*\<close> wraps, as the compiled code does; what traps or has no value is \<open>Undefined\<close>.
\<close>

abbreviation TOP :: int where "TOP \<equiv> INT_MAX"

definition PlusExpr_constEval :: "int \<Rightarrow> int \<Rightarrow> int res" where
  "PlusExpr_constEval i j =
     (if i = TOP \<or> j = TOP then Inr TOP
      else if \<not> int32 (i + j) then Inl (Throw ''Addition caused an overflow error.'')
      else Inr (i + j))"

definition MultExpr_constEval :: "int \<Rightarrow> int \<Rightarrow> int res" where
  "MultExpr_constEval i j = (if i = TOP \<or> j = TOP then Inr TOP else Inr (wrap32 (i * j)))"

definition BitCompExpr_constEval :: "int \<Rightarrow> int" where
  "BitCompExpr_constEval i = (if i = TOP then TOP else ring_bit_operations_class.not i)"

definition MinusExpr_constEval :: "int \<Rightarrow> int \<Rightarrow> int res" where
  "MinusExpr_constEval i j = (if i = TOP \<or> j = TOP then Inr TOP else Inr (wrap32 (i - j)))"

text \<open>C++ division truncates towards zero; \<open>INT_MIN / -1\<close> traps.\<close>

definition c_div :: "int \<Rightarrow> int \<Rightarrow> int" where
  "c_div i j = sgn i * sgn j * (\<bar>i\<bar> div \<bar>j\<bar>)"

definition c_mod :: "int \<Rightarrow> int \<Rightarrow> int" where
  "c_mod i j = i - j * c_div i j"

definition DivExpr_constEval :: "int \<Rightarrow> int \<Rightarrow> int res" where
  "DivExpr_constEval i j =
     (if i = TOP \<or> j = TOP \<or> j = 0 then Inr TOP
      else if i = INT_MIN \<and> j = - 1 then Inl (Undefined ''division overflow'')
      else Inr (c_div i j))"

definition ModExpr_constEval :: "int \<Rightarrow> int \<Rightarrow> int res" where
  "ModExpr_constEval i j =
     (if i = TOP \<or> j = TOP \<or> j = 0 then Inr TOP
      else if i = INT_MIN \<and> j = - 1 then Inl (Undefined ''division overflow'')
      else Inr (c_mod i j))"

text \<open>
  \<open>int(pow(i,j))\<close>: the floating-point power, exact where it is an \<open>int\<close>, truncated towards zero.
  Infinite results and results outside \<open>int\<close> have no conversion.
\<close>

definition PowExpr_constEval :: "int \<Rightarrow> int \<Rightarrow> int res" where
  "PowExpr_constEval i j =
     (if i = TOP \<or> j = TOP then Inr TOP
      else if j \<ge> 0 then
        (if int32 (i ^ nat j) then Inr (i ^ nat j) else Inl (Undefined ''double to int conversion''))
      else if i = 0 then Inl (Undefined ''double to int conversion'')
      else if i = 1 \<or> i = - 1 then Inr (i ^ nat (- j))
      else Inr 0)"

definition BitAndExpr_constEval :: "int \<Rightarrow> int \<Rightarrow> int res" where
  "BitAndExpr_constEval i j =
     (if i = TOP \<or> j = TOP then Inr TOP else Inr (semiring_bit_operations_class.and i j))"

definition BitOrExpr_constEval :: "int \<Rightarrow> int \<Rightarrow> int res" where
  "BitOrExpr_constEval i j =
     (if i = TOP \<or> j = TOP then Inr TOP else Inr (semiring_bit_operations_class.or i j))"

definition BitXorExpr_constEval :: "int \<Rightarrow> int \<Rightarrow> int res" where
  "BitXorExpr_constEval i j =
     (if i = TOP \<or> j = TOP then Inr TOP else Inr (semiring_bit_operations_class.xor i j))"

definition BitLshiftExpr_constEval :: "int \<Rightarrow> int \<Rightarrow> int res" where
  "BitLshiftExpr_constEval i j =
     (if i = TOP \<or> j = TOP then Inr TOP
      else if j < 0 \<or> 32 \<le> j then Inl (Undefined ''shift width'')
      else Inr (wrap32 (i * 2 ^ nat j)))"

definition BitRshiftExpr_constEval :: "int \<Rightarrow> int \<Rightarrow> int res" where
  "BitRshiftExpr_constEval i j =
     (if i = TOP \<or> j = TOP then Inr TOP
      else if j < 0 \<or> 32 \<le> j then Inl (Undefined ''shift width'')
      else Inr (i div 2 ^ nat j))"

fun nary_constEval :: "NaryIntClass \<Rightarrow> int \<Rightarrow> int \<Rightarrow> int res" where
  "nary_constEval PlusExpr i j = PlusExpr_constEval i j"
| "nary_constEval MultExpr i j = MultExpr_constEval i j"

fun getNeutralElement :: "NaryIntClass \<Rightarrow> int" where
  "getNeutralElement PlusExpr = 0"
| "getNeutralElement MultExpr = 1"

fun unary_constEval :: "UnaryIntClass \<Rightarrow> int \<Rightarrow> int" where
  "unary_constEval BitCompExpr i = BitCompExpr_constEval i"

fun binary_constEval :: "BinaryIntClass \<Rightarrow> int \<Rightarrow> int \<Rightarrow> int res" where
  "binary_constEval MinusExpr i j = MinusExpr_constEval i j"
| "binary_constEval DivExpr i j = DivExpr_constEval i j"
| "binary_constEval ModExpr i j = ModExpr_constEval i j"
| "binary_constEval PowExpr i j = PowExpr_constEval i j"
| "binary_constEval BitAndExpr i j = BitAndExpr_constEval i j"
| "binary_constEval BitOrExpr i j = BitOrExpr_constEval i j"
| "binary_constEval BitXorExpr i j = BitXorExpr_constEval i j"
| "binary_constEval BitLshiftExpr i j = BitLshiftExpr_constEval i j"
| "binary_constEval BitRshiftExpr i j = BitRshiftExpr_constEval i j"

definition BoolEq_constEval :: "int \<Rightarrow> int \<Rightarrow> bool" where
  "BoolEq_constEval i j = (if i = TOP \<or> j = TOP then False else i = j)"

definition BoolNeq_constEval :: "int \<Rightarrow> int \<Rightarrow> bool" where
  "BoolNeq_constEval i j = (if i = TOP \<or> j = TOP then False else i \<noteq> j)"

definition BoolGeq_constEval :: "int \<Rightarrow> int \<Rightarrow> bool" where
  "BoolGeq_constEval i j = (if i = TOP \<or> j = TOP then False else i \<ge> j)"

definition BoolLeq_constEval :: "int \<Rightarrow> int \<Rightarrow> bool" where
  "BoolLeq_constEval i j = (if i = TOP \<or> j = TOP then False else i \<le> j)"

definition BoolLt_constEval :: "int \<Rightarrow> int \<Rightarrow> bool" where
  "BoolLt_constEval i j = (if i = TOP \<or> j = TOP then False else i < j)"

definition BoolGt_constEval :: "int \<Rightarrow> int \<Rightarrow> bool" where
  "BoolGt_constEval i j = (if i = TOP \<or> j = TOP then False else i > j)"

fun comp_constEval :: "BoolCompClass \<Rightarrow> int \<Rightarrow> int \<Rightarrow> bool" where
  "comp_constEval BoolEq i j = BoolEq_constEval i j"
| "comp_constEval BoolNeq i j = BoolNeq_constEval i j"
| "comp_constEval BoolGeq i j = BoolGeq_constEval i j"
| "comp_constEval BoolLeq i j = BoolLeq_constEval i j"
| "comp_constEval BoolLt i j = BoolLt_constEval i j"
| "comp_constEval BoolGt i j = BoolGt_constEval i j"

end
