(* ===== verification/Gal_Factory.thy ===== *)
theory Gal_Factory imports Gal_Syntax begin

text \<open>
  The node factories \<open>PIntExpressionFactory\<close> and \<open>PBoolExpressionFactory\<close>, with the errors they
  throw on a kind that is not an operator of their arity.
\<close>

section \<open>Integer expressions\<close>

fun int_type_code :: "IntExprType \<Rightarrow> nat" where
  "int_type_code INTCONST = 0" | "int_type_code VAR = 1" | "int_type_code PLUS = 2"
| "int_type_code MULT = 3" | "int_type_code MINUS = 4" | "int_type_code DIV = 5"
| "int_type_code MOD = 6" | "int_type_code POW = 7" | "int_type_code BITAND = 8"
| "int_type_code BITOR = 9" | "int_type_code BITXOR = 10" | "int_type_code WRAPBOOL = 11"
| "int_type_code LSHIFT = 12" | "int_type_code RSHIFT = 13" | "int_type_code ARRAY = 14"
| "int_type_code CONSTARRAY = 15" | "int_type_code INTNDEF = 16" | "int_type_code BITCOMP = 17"

fun bool_type_code :: "BoolExprType \<Rightarrow> nat" where
  "bool_type_code BOOLCONST = 0" | "bool_type_code BOOLVAR = 1" | "bool_type_code OR = 2"
| "bool_type_code AND = 3" | "bool_type_code NOT = 4" | "bool_type_code EQ = 5"
| "bool_type_code NEQ = 6" | "bool_type_code LT = 7" | "bool_type_code GT = 8"
| "bool_type_code LEQ = 9" | "bool_type_code GEQ = 10" | "bool_type_code BOOLNDEF = 11"

text \<open>\<open>getParams\<close>: only n-ary expressions have any; a tagged constant answers the empty multiset, the others assert.\<close>

fun int_getParams :: "pint \<Rightarrow> pint list res" where
  "int_getParams (NaryIntExpr k ps) = Inr ps"
| "int_getParams (ConstTag t) = Inr []"
| "int_getParams e = Inl (Abort ''assert(false)'')"

text \<open>
  \<open>createNary\<close>: the loop flattens parameters of the same kind into a fresh multiset \<open>pp\<close> and stops at
  the first undefined parameter (\<open>None\<close>). The node is then built from \<open>params\<close>, not from \<open>pp\<close>.
\<close>

fun createNary_scan ::
  "heap_order \<Rightarrow> IntExprType \<Rightarrow> pint list \<Rightarrow> pint list \<Rightarrow> pint list option res" where
  "createNary_scan A type [] pp = Inr (Some pp)"
| "createNary_scan A type (it # its) pp =
     (if int_getType it = type
      then rbind (int_getParams it) (\<lambda>ps. createNary_scan A type its (fold (ms_insert (iless A)) ps pp))
      else if int_getType it = INTNDEF then Inr None
      else createNary_scan A type its (ms_insert (iless A) it pp))"

definition int_createNary :: "heap_order \<Rightarrow> IntExprType \<Rightarrow> pint list \<Rightarrow> pint res" where
  "int_createNary A type params =
     rbind (createNary_scan A type params []) (\<lambda>scan.
       case scan of
         None \<Rightarrow> Inr NDefExpr
       | Some pp \<Rightarrow>
           (case type of
              PLUS \<Rightarrow> Inr (NaryIntExpr PlusExpr params)
            | MULT \<Rightarrow> Inr (NaryIntExpr MultExpr params)
            | _ \<Rightarrow> Inl (Throw (''Operator '' @ show_nat (int_type_code type) @ '' is not N-ary''))))"

definition int_createUnary :: "IntExprType \<Rightarrow> pint \<Rightarrow> pint res" where
  "int_createUnary type p =
     (if int_getType p = INTNDEF then Inr NDefExpr
      else (case type of
              BITCOMP \<Rightarrow> Inr (UnaryIntExpr BitCompExpr p)
            | _ \<Rightarrow> Inl (Throw (''Operator '' @ show_nat (int_type_code type) @ '' is not unary''))))"

definition int_createBinary :: "heap_order \<Rightarrow> IntExprType \<Rightarrow> pint \<Rightarrow> pint \<Rightarrow> pint res" where
  "int_createBinary A type l r =
     (if int_getType l = INTNDEF \<or> int_getType r = INTNDEF then Inr NDefExpr
      else (case type of
              MINUS \<Rightarrow> Inr (BinaryIntExpr MinusExpr l r)
            | DIV \<Rightarrow> Inr (BinaryIntExpr DivExpr l r)
            | MOD \<Rightarrow> Inr (BinaryIntExpr ModExpr l r)
            | POW \<Rightarrow> Inr (BinaryIntExpr PowExpr l r)
            | BITAND \<Rightarrow> Inr (BinaryIntExpr BitAndExpr l r)
            | BITOR \<Rightarrow> Inr (BinaryIntExpr BitOrExpr l r)
            | BITXOR \<Rightarrow> Inr (BinaryIntExpr BitXorExpr l r)
            | LSHIFT \<Rightarrow> Inr (BinaryIntExpr BitLshiftExpr l r)
            | RSHIFT \<Rightarrow> Inr (BinaryIntExpr BitRshiftExpr l r)
            | PLUS \<Rightarrow> int_createNary A type (ms_insert (iless A) r (ms_insert (iless A) l []))
            | MULT \<Rightarrow> int_createNary A type (ms_insert (iless A) r (ms_insert (iless A) l []))
            | _ \<Rightarrow> Inl (Throw (''Operator '' @ show_nat (int_type_code type) @ '' is not binary''))))"

definition createArrayAccess :: "int \<Rightarrow> pint \<Rightarrow> int \<Rightarrow> pint" where
  "createArrayAccess v index limit =
     (case index of
        ConstTag t \<Rightarrow>
          (let ival = untag_const t
           in if ival < 0 \<or> ival \<ge> limit then NDefExpr else ArrayConstExpr v ival)
      | _ \<Rightarrow> ArrayVarExpr v index limit)"

section \<open>Boolean expressions\<close>

fun bool_params :: "pbool \<Rightarrow> pbool list" where
  "bool_params (NaryBoolExpr k ps) = ps"
| "bool_params b = []"

text \<open>\<open>fuse_internals\<close>: the parameters of the same kind are taken out, in order, and replaced by their
  own parameters.\<close>

definition fuse_internals :: "heap_order \<Rightarrow> BoolExprType \<Rightarrow> pbool list \<Rightarrow> pbool list" where
  "fuse_internals A type params =
     (let totreat = filter (\<lambda>b. bool_getType b = type) params;
          kept = filter (\<lambda>b. bool_getType b \<noteq> type) params
      in fold (\<lambda>t ps. fold (set_insert (bless A)) (bool_params t) ps) totreat kept)"

fun bool_node :: "BoolExprType \<Rightarrow> pbool list \<Rightarrow> pbool res" where
  "bool_node OR params = Inr (NaryBoolExpr OrExpr params)"
| "bool_node AND params = Inr (NaryBoolExpr AndExpr params)"
| "bool_node type params =
     Inl (Throw (''Operator '' @ show_nat (bool_type_code type) @ '' is not an N-ary bool op''))"

definition bool_createNary :: "heap_order \<Rightarrow> BoolExprType \<Rightarrow> pbool list \<Rightarrow> pbool res" where
  "bool_createNary A type params =
     (case params of
        [e] \<Rightarrow> Inr e
      | _ \<Rightarrow> bool_node type (fuse_internals A type params))"

definition bool_createBinary ::
  "heap_order \<Rightarrow> BoolExprType \<Rightarrow> pbool \<Rightarrow> pbool \<Rightarrow> pbool res" where
  "bool_createBinary A type l r =
     (if bool_getType l \<noteq> type \<and> bool_getType r \<noteq> type \<and> l = r then Inr l
      else
        let params =
          (if bool_getType l \<noteq> type \<and> bool_getType r \<noteq> type
           then (if bless A l r then [l, r] else [r, l])
           else if bool_getType l = type \<and> bool_getType r = type
           then set_union (bless A) (bool_params l) (bool_params r)
           else if bool_getType l = type
           then set_union (bless A) (bool_params l) [r]
           else set_union (bless A) (bool_params r) [l])
        in (case params of [e] \<Rightarrow> Inr e | _ \<Rightarrow> bool_node type params))"

definition createComparison :: "BoolExprType \<Rightarrow> pint \<Rightarrow> pint \<Rightarrow> pbool res" where
  "createComparison type l r =
     (if int_getType l = INTNDEF \<or> int_getType r = INTNDEF then Inr BoolNDefExpr
      else (case type of
              EQ \<Rightarrow> Inr (BinaryBoolComp BoolEq l r)
            | NEQ \<Rightarrow> Inr (BinaryBoolComp BoolNeq l r)
            | GEQ \<Rightarrow> Inr (BinaryBoolComp BoolGeq l r)
            | LEQ \<Rightarrow> Inr (BinaryBoolComp BoolLeq l r)
            | LT \<Rightarrow> Inr (BinaryBoolComp BoolLt l r)
            | GT \<Rightarrow> Inr (BinaryBoolComp BoolGt l r)
            | _ \<Rightarrow> Inl (Throw ''not a binary comparison operator !'')))"

section \<open>Nodes rebuilt with their own kind\<close>

text \<open>
  The methods of a class rebuild a node with \<open>this->getType()\<close>. For these kinds the factory never
  throws, so the result is read with \<open>projr\<close>.
\<close>

definition nary_node :: "heap_order \<Rightarrow> NaryIntClass \<Rightarrow> pint list \<Rightarrow> pint" where
  "nary_node A k ps = projr (int_createNary A (nary_type k) ps)"

definition unary_node :: "UnaryIntClass \<Rightarrow> pint \<Rightarrow> pint" where
  "unary_node k e = projr (int_createUnary (unary_type k) e)"

definition binary_node :: "heap_order \<Rightarrow> BinaryIntClass \<Rightarrow> pint \<Rightarrow> pint \<Rightarrow> pint" where
  "binary_node A k l r = projr (int_createBinary A (binary_type k) l r)"

definition nbool_node :: "heap_order \<Rightarrow> NaryBoolClass \<Rightarrow> pbool list \<Rightarrow> pbool" where
  "nbool_node A k ps = projr (bool_createNary A (nbool_type k) ps)"

definition comp_node :: "BoolCompClass \<Rightarrow> pint \<Rightarrow> pint \<Rightarrow> pbool" where
  "comp_node k l r = projr (createComparison (comp_type k) l r)"

lemma nary_type_neq [simp]:
  "nary_type k \<noteq> INTNDEF" "nary_type k \<noteq> INTCONST" "INTNDEF \<noteq> nary_type k" "INTCONST \<noteq> nary_type k"
  by (cases k; simp)+

lemma unary_type_neq [simp]:
  "unary_type k \<noteq> INTNDEF" "unary_type k \<noteq> INTCONST" "INTNDEF \<noteq> unary_type k" "INTCONST \<noteq> unary_type k"
  by (cases k; simp)+

lemma binary_type_neq [simp]:
  "binary_type k \<noteq> INTNDEF" "binary_type k \<noteq> INTCONST"
  "INTNDEF \<noteq> binary_type k" "INTCONST \<noteq> binary_type k"
  by (cases k; simp)+

lemma int_getType_NDef_iff [simp]: "int_getType e = INTNDEF \<longleftrightarrow> e = NDefExpr"
  by (cases e) auto

lemma int_getType_const_iff: "int_getType e = INTCONST \<longleftrightarrow> (\<exists>t. e = ConstTag t)"
  by (cases e) auto

lemma nary_getParams: "int_getType e = nary_type k \<Longrightarrow> \<exists>ps. int_getParams e = Inr ps"
  by (cases e; cases k) (auto split: UnaryIntClass.splits BinaryIntClass.splits elim: unary_type.elims binary_type.elims)

lemma createNary_scan_class:
  "\<exists>r. createNary_scan A (nary_type k) ps pp = Inr r \<and> (r = None \<longleftrightarrow> NDefExpr \<in> set ps)"
proof (induction ps arbitrary: pp)
  case (Cons e ps)
  show ?case
  proof (cases "int_getType e = nary_type k")
    case True
    then have "e \<noteq> NDefExpr" by auto
    moreover obtain qs where "int_getParams e = Inr qs" using nary_getParams [OF True] by blast
    ultimately show ?thesis using True Cons.IH [of "fold (ms_insert (iless A)) qs pp"] by auto
  qed (use Cons.IH in auto)
qed simp

lemma int_createNary_class:
  "int_createNary A (nary_type k) ps =
     Inr (if NDefExpr \<in> set ps then NDefExpr else NaryIntExpr k ps)"
  using createNary_scan_class [of A k ps "[]"]
  by (cases k) (auto simp: int_createNary_def split: option.splits)

lemma int_createUnary_class:
  "int_createUnary (unary_type k) e = Inr (if e = NDefExpr then NDefExpr else UnaryIntExpr k e)"
  by (cases k) (auto simp: int_createUnary_def)

lemma int_createBinary_class:
  "int_createBinary A (binary_type k) l r =
     Inr (if l = NDefExpr \<or> r = NDefExpr then NDefExpr else BinaryIntExpr k l r)"
  by (cases k) (auto simp: int_createBinary_def)

lemma bool_node_class: "bool_node (nbool_type k) ps = Inr (NaryBoolExpr k ps)"
  by (cases k) auto

lemma bool_createNary_class:
  "bool_createNary A (nbool_type k) ps =
     Inr (case ps of [e] \<Rightarrow> e | _ \<Rightarrow> NaryBoolExpr k (fuse_internals A (nbool_type k) ps))"
  by (auto simp: bool_createNary_def bool_node_class split: list.splits)

lemma createComparison_class:
  "createComparison (comp_type k) l r =
     Inr (if l = NDefExpr \<or> r = NDefExpr then BoolNDefExpr else BinaryBoolComp k l r)"
  by (cases k) (auto simp: createComparison_def)

lemmas factory_class [res_simps] =
  int_createNary_class int_createUnary_class int_createBinary_class bool_createNary_class
  createComparison_class

lemma nary_node_eq: "nary_node A k ps = (if NDefExpr \<in> set ps then NDefExpr else NaryIntExpr k ps)"
  by (simp add: nary_node_def res_simps)

lemma unary_node_eq: "unary_node k e = (if e = NDefExpr then NDefExpr else UnaryIntExpr k e)"
  by (simp add: unary_node_def res_simps)

lemma binary_node_eq:
  "binary_node A k l r = (if l = NDefExpr \<or> r = NDefExpr then NDefExpr else BinaryIntExpr k l r)"
  by (simp add: binary_node_def res_simps)

lemma nbool_node_eq:
  "nbool_node A k ps =
     (case ps of [e] \<Rightarrow> e | _ \<Rightarrow> NaryBoolExpr k (fuse_internals A (nbool_type k) ps))"
  by (simp add: nbool_node_def res_simps)

lemma comp_node_eq:
  "comp_node k l r = (if l = NDefExpr \<or> r = NDefExpr then BoolNDefExpr else BinaryBoolComp k l r)"
  by (simp add: comp_node_def res_simps)

lemmas node_simps = nary_node_eq unary_node_eq binary_node_eq nbool_node_eq comp_node_eq

end
