(* ===== verification/Gal_Support.thy ===== *)
theory Gal_Support imports Gal_Factory begin

text \<open>
  Structural operations on parametric expressions: which variables an expression mentions
  (\<open>isSupport\<close>, \<open>getSupport\<close>), the extraction of sub-expressions (\<open>getFirstSubExpr\<close>,
  \<open>getSubExprExcept\<close>) and the renaming of variable indexes (\<open>reindexVariables\<close>). One definition per
  class method that does work, and a dispatching function that plays the virtual call.
\<close>

section \<open>isSupport\<close>

fun isSupport_int :: "int \<Rightarrow> int \<Rightarrow> pint \<Rightarrow> bool"
  and isSupport_bool :: "int \<Rightarrow> int \<Rightarrow> pbool \<Rightarrow> bool" where
  "isSupport_int v tid (VarExpr x) = (x = v)"
| "isSupport_int v tid (ConstTag t) = False"
| "isSupport_int v tid NDefExpr = False"
| "isSupport_int v tid (WrapBoolExpr b) = isSupport_bool v tid b"
| "isSupport_int v tid (ArrayVarExpr a i l) = (a = v \<or> isSupport_int v tid i)"
| "isSupport_int v tid (ArrayConstExpr a i) = (a = v \<and> tid = i)"
| "isSupport_int v tid (NaryIntExpr k ps) = list_ex (isSupport_int v tid) ps"
| "isSupport_int v tid (UnaryIntExpr k e) = isSupport_int v tid e"
| "isSupport_int v tid (BinaryIntExpr k l r) = (isSupport_int v tid l \<or> isSupport_int v tid r)"
| "isSupport_bool v tid (NaryBoolExpr k ps) = list_ex (isSupport_bool v tid) ps"
| "isSupport_bool v tid (BinaryBoolComp k l r) = (isSupport_int v tid l \<or> isSupport_int v tid r)"
| "isSupport_bool v tid (NotExpr b) = isSupport_bool v tid b"
| "isSupport_bool v tid (BoolConstExpr c) = False"
| "isSupport_bool v tid BoolNDefExpr = False"

section \<open>getSupport\<close>

text \<open>\<open>getSupport(mark)\<close> writes \<open>true\<close> at the index of every variable; a write outside \<open>mark\<close>, which C++
  leaves undefined, changes nothing here (no lemma below uses one).\<close>

fun getSupport_int :: "pint \<Rightarrow> bool list \<Rightarrow> bool list"
  and getSupport_bool :: "pbool \<Rightarrow> bool list \<Rightarrow> bool list" where
  "getSupport_int (VarExpr x) mark = mark[nat x := True]"
| "getSupport_int (ConstTag t) mark = mark"
| "getSupport_int NDefExpr mark = mark"
| "getSupport_int (WrapBoolExpr b) mark = getSupport_bool b mark"
| "getSupport_int (ArrayVarExpr a i l) mark = getSupport_int i (mark[nat a := True])"
| "getSupport_int (ArrayConstExpr a i) mark = mark[nat a := True]"
| "getSupport_int (NaryIntExpr k ps) mark = fold (\<lambda>p m. getSupport_int p m) ps mark"
| "getSupport_int (UnaryIntExpr k e) mark = getSupport_int e mark"
| "getSupport_int (BinaryIntExpr k l r) mark = getSupport_int r (getSupport_int l mark)"
| "getSupport_bool (NaryBoolExpr k ps) mark = fold (\<lambda>p m. getSupport_bool p m) ps mark"
| "getSupport_bool (BinaryBoolComp k l r) mark = getSupport_int r (getSupport_int l mark)"
| "getSupport_bool (NotExpr b) mark = getSupport_bool b mark"
| "getSupport_bool (BoolConstExpr c) mark = mark"
| "getSupport_bool BoolNDefExpr mark = mark"

text \<open>The set of variable indexes, the abstract reading of the marks.\<close>

fun vars_int :: "pint \<Rightarrow> int set" and vars_bool :: "pbool \<Rightarrow> int set" where
  "vars_int (VarExpr x) = {x}"
| "vars_int (ConstTag t) = {}"
| "vars_int NDefExpr = {}"
| "vars_int (WrapBoolExpr b) = vars_bool b"
| "vars_int (ArrayVarExpr a i l) = insert a (vars_int i)"
| "vars_int (ArrayConstExpr a i) = {a}"
| "vars_int (NaryIntExpr k ps) = (\<Union>p\<in>set ps. vars_int p)"
| "vars_int (UnaryIntExpr k e) = vars_int e"
| "vars_int (BinaryIntExpr k l r) = vars_int l \<union> vars_int r"
| "vars_bool (NaryBoolExpr k ps) = (\<Union>p\<in>set ps. vars_bool p)"
| "vars_bool (BinaryBoolComp k l r) = vars_int l \<union> vars_int r"
| "vars_bool (NotExpr b) = vars_bool b"
| "vars_bool (BoolConstExpr c) = {}"
| "vars_bool BoolNDefExpr = {}"

section \<open>getFirstSubExpr\<close>

text \<open>The loops of the n-ary classes: the first parameter whose own answer differs from \<open>stop\<close>.\<close>

fun NaryIntExpr_getFirstSubExpr :: "pint \<Rightarrow> (pint \<times> pint) list \<Rightarrow> pint" where
  "NaryIntExpr_getFirstSubExpr this [] = this"
| "NaryIntExpr_getFirstSubExpr this ((it, tmp) # xs) =
     (if tmp \<noteq> it then tmp else NaryIntExpr_getFirstSubExpr this xs)"

definition UnaryIntExpr_getFirstSubExpr :: "pint \<Rightarrow> pint \<Rightarrow> pint \<Rightarrow> pint" where
  "UnaryIntExpr_getFirstSubExpr this arg tmp = (if tmp \<noteq> arg then tmp else this)"

definition BinaryIntExpr_getFirstSubExpr ::
  "pint \<Rightarrow> pint \<Rightarrow> pint \<Rightarrow> pint \<Rightarrow> pint \<Rightarrow> pint" where
  "BinaryIntExpr_getFirstSubExpr this left ltmp right rtmp =
     (if ltmp \<noteq> left then ltmp else if rtmp \<noteq> right then rtmp else this)"

fun NaryBoolExpr_getFirstSubExpr :: "pint list \<Rightarrow> pint" where
  "NaryBoolExpr_getFirstSubExpr [] = createConstant 0"
| "NaryBoolExpr_getFirstSubExpr (tmp # xs) =
     (if tmp \<noteq> createConstant 0 then tmp else NaryBoolExpr_getFirstSubExpr xs)"

definition BinaryBoolComp_getFirstSubExpr :: "pint \<Rightarrow> pint \<Rightarrow> pint \<Rightarrow> pint \<Rightarrow> pint" where
  "BinaryBoolComp_getFirstSubExpr left ltmp right rtmp =
     (if ltmp \<noteq> left then ltmp else if rtmp \<noteq> right then rtmp else createConstant 0)"

fun getFirstSubExpr_int :: "pint \<Rightarrow> pint" and getFirstSubExpr_bool :: "pbool \<Rightarrow> pint" where
  "getFirstSubExpr_int (VarExpr x) = VarExpr x"
| "getFirstSubExpr_int (ConstTag t) = ConstTag t"
| "getFirstSubExpr_int NDefExpr = NDefExpr"
| "getFirstSubExpr_int (WrapBoolExpr b) = getFirstSubExpr_bool b"
| "getFirstSubExpr_int (ArrayVarExpr a i l) = i"
| "getFirstSubExpr_int (ArrayConstExpr a i) = ArrayConstExpr a i"
| "getFirstSubExpr_int (NaryIntExpr k ps) =
     NaryIntExpr_getFirstSubExpr (NaryIntExpr k ps) (map (\<lambda>p. (p, getFirstSubExpr_int p)) ps)"
| "getFirstSubExpr_int (UnaryIntExpr k e) =
     UnaryIntExpr_getFirstSubExpr (UnaryIntExpr k e) e (getFirstSubExpr_int e)"
| "getFirstSubExpr_int (BinaryIntExpr k l r) =
     BinaryIntExpr_getFirstSubExpr (BinaryIntExpr k l r)
       l (getFirstSubExpr_int l) r (getFirstSubExpr_int r)"
| "getFirstSubExpr_bool (NaryBoolExpr k ps) =
     NaryBoolExpr_getFirstSubExpr (map getFirstSubExpr_bool ps)"
| "getFirstSubExpr_bool (BinaryBoolComp k l r) =
     BinaryBoolComp_getFirstSubExpr l (getFirstSubExpr_int l) r (getFirstSubExpr_int r)"
| "getFirstSubExpr_bool (NotExpr b) = getFirstSubExpr_bool b"
| "getFirstSubExpr_bool (BoolConstExpr c) = createConstant 0"
| "getFirstSubExpr_bool BoolNDefExpr = createConstant 0"

section \<open>getSubExprExcept\<close>

text \<open>Each list entry: a parameter, whether it mentions the target, and its own answer.\<close>

fun nary_except_loop :: "(pint \<times> bool \<times> pint) list \<Rightarrow> pint option" where
  "nary_except_loop [] = None"
| "nary_except_loop ((it, supp, sub) # xs) =
     (if supp then (if sub \<noteq> it then Some sub else nary_except_loop xs)
      else if int_getType it \<noteq> INTCONST then Some it
      else nary_except_loop xs)"

definition NaryIntExpr_getSubExprExcept :: "pint \<Rightarrow> (pint \<times> bool \<times> pint) list \<Rightarrow> pint" where
  "NaryIntExpr_getSubExprExcept this xs =
     (if \<not> list_ex (\<lambda>(it, supp, sub). supp) xs then this
      else case nary_except_loop xs of Some e \<Rightarrow> e | None \<Rightarrow> this)"

definition UnaryIntExpr_getSubExprExcept :: "pint \<Rightarrow> pint \<Rightarrow> bool \<Rightarrow> pint \<Rightarrow> pint" where
  "UnaryIntExpr_getSubExprExcept this arg supp sub =
     (if \<not> supp then this
      else if sub \<noteq> arg then sub
      else if int_getType arg \<noteq> INTCONST then arg
      else this)"

definition BinaryIntExpr_getSubExprExcept ::
  "pint \<Rightarrow> pint \<Rightarrow> bool \<Rightarrow> pint \<Rightarrow> pint \<Rightarrow> bool \<Rightarrow> pint \<Rightarrow> pint" where
  "BinaryIntExpr_getSubExprExcept this left lsupp lsub right rsupp rsub =
     (if \<not> lsupp \<and> \<not> rsupp then this
      else if lsupp then
        (if lsub \<noteq> left then lsub else if int_getType left \<noteq> INTCONST then left else this)
      else
        (if rsub \<noteq> right then rsub else if int_getType right \<noteq> INTCONST then right else this))"

definition ArrayVarExpr_getSubExprExcept :: "pint \<Rightarrow> pint \<Rightarrow> bool \<Rightarrow> pint \<Rightarrow> pint" where
  "ArrayVarExpr_getSubExprExcept this index supp sub =
     (if supp then (if sub = index then this else sub) else this)"

definition WrapBoolExpr_getSubExprExcept :: "pint \<Rightarrow> bool \<Rightarrow> pint \<Rightarrow> pint" where
  "WrapBoolExpr_getSubExprExcept this supp sub =
     (if supp then (if sub \<noteq> this then sub else this) else this)"

fun nbool_except_loop :: "(pbool \<times> bool \<times> pint) list \<Rightarrow> pint option" where
  "nbool_except_loop [] = None"
| "nbool_except_loop ((it, supp, sub) # xs) =
     (if supp then (if sub \<noteq> WrapBoolExpr it then Some sub else nbool_except_loop xs)
      else if bool_getType it \<noteq> BOOLCONST then Some (WrapBoolExpr it)
      else nbool_except_loop xs)"

definition NaryBoolExpr_getSubExprExcept :: "pbool \<Rightarrow> (pbool \<times> bool \<times> pint) list \<Rightarrow> pint" where
  "NaryBoolExpr_getSubExprExcept this xs =
     (if \<not> list_ex (\<lambda>(it, supp, sub). supp) xs then WrapBoolExpr this
      else case nbool_except_loop xs of Some e \<Rightarrow> e | None \<Rightarrow> WrapBoolExpr this)"

text \<open>The conversion \<open>PBoolExpression (const PIntExpression &)\<close>: compare with 1.\<close>

definition bool_of_int_expr :: "pint \<Rightarrow> pbool" where
  "bool_of_int_expr e = projr (createComparison EQ e (createConstant 1))"

text \<open>\<open>wrapBoolExpr(left)\<close> converts the integer operand to a Boolean expression first.\<close>

definition BinaryBoolComp_getSubExprExcept ::
  "pbool \<Rightarrow> pint \<Rightarrow> bool \<Rightarrow> pint \<Rightarrow> pint \<Rightarrow> bool \<Rightarrow> pint \<Rightarrow> pint" where
  "BinaryBoolComp_getSubExprExcept this left lsupp lsub right rsupp rsub =
     (if \<not> lsupp \<and> \<not> rsupp then WrapBoolExpr this
      else if lsupp then
        (let lwrap = WrapBoolExpr (bool_of_int_expr left)
         in if lsub \<noteq> lwrap then lsub
            else if int_getType left \<noteq> INTCONST then lwrap else WrapBoolExpr this)
      else
        (let rwrap = WrapBoolExpr (bool_of_int_expr right)
         in if rsub \<noteq> rwrap then rsub
            else if int_getType right \<noteq> INTCONST then rwrap else WrapBoolExpr this))"

definition NotExpr_getSubExprExcept :: "pbool \<Rightarrow> pbool \<Rightarrow> bool \<Rightarrow> pint \<Rightarrow> pint" where
  "NotExpr_getSubExprExcept this exp supp sub =
     (if supp \<and> sub \<noteq> WrapBoolExpr exp then sub else WrapBoolExpr this)"

fun getSubExprExcept_int :: "int \<Rightarrow> int \<Rightarrow> pint \<Rightarrow> pint"
  and getSubExprExcept_bool :: "int \<Rightarrow> int \<Rightarrow> pbool \<Rightarrow> pint" where
  "getSubExprExcept_int v tid (VarExpr x) = VarExpr x"
| "getSubExprExcept_int v tid (ConstTag t) = ConstTag t"
| "getSubExprExcept_int v tid NDefExpr = NDefExpr"
| "getSubExprExcept_int v tid (WrapBoolExpr b) =
     WrapBoolExpr_getSubExprExcept (WrapBoolExpr b)
       (isSupport_bool v tid b) (getSubExprExcept_bool v tid b)"
| "getSubExprExcept_int v tid (ArrayVarExpr a i l) =
     ArrayVarExpr_getSubExprExcept (ArrayVarExpr a i l) i
       (isSupport_int v tid i) (getSubExprExcept_int v tid i)"
| "getSubExprExcept_int v tid (ArrayConstExpr a i) = ArrayConstExpr a i"
| "getSubExprExcept_int v tid (NaryIntExpr k ps) =
     NaryIntExpr_getSubExprExcept (NaryIntExpr k ps)
       (map (\<lambda>p. (p, isSupport_int v tid p, getSubExprExcept_int v tid p)) ps)"
| "getSubExprExcept_int v tid (UnaryIntExpr k e) =
     UnaryIntExpr_getSubExprExcept (UnaryIntExpr k e) e
       (isSupport_int v tid e) (getSubExprExcept_int v tid e)"
| "getSubExprExcept_int v tid (BinaryIntExpr k l r) =
     BinaryIntExpr_getSubExprExcept (BinaryIntExpr k l r)
       l (isSupport_int v tid l) (getSubExprExcept_int v tid l)
       r (isSupport_int v tid r) (getSubExprExcept_int v tid r)"
| "getSubExprExcept_bool v tid (NaryBoolExpr k ps) =
     NaryBoolExpr_getSubExprExcept (NaryBoolExpr k ps)
       (map (\<lambda>p. (p, isSupport_bool v tid p, getSubExprExcept_bool v tid p)) ps)"
| "getSubExprExcept_bool v tid (BinaryBoolComp k l r) =
     BinaryBoolComp_getSubExprExcept (BinaryBoolComp k l r)
       l (isSupport_int v tid l) (getSubExprExcept_int v tid l)
       r (isSupport_int v tid r) (getSubExprExcept_int v tid r)"
| "getSubExprExcept_bool v tid (NotExpr b) =
     NotExpr_getSubExprExcept (NotExpr b) b (isSupport_bool v tid b) (getSubExprExcept_bool v tid b)"
| "getSubExprExcept_bool v tid (BoolConstExpr c) = WrapBoolExpr (BoolConstExpr c)"
| "getSubExprExcept_bool v tid BoolNDefExpr = WrapBoolExpr BoolNDefExpr"

section \<open>reindexVariables\<close>

text \<open>\<open>newindexes[varIndex]\<close> is \<open>!\<close>, unspecified outside the vector as in C++.\<close>

definition VarExpr_reindexVariables :: "int list \<Rightarrow> int \<Rightarrow> pint" where
  "VarExpr_reindexVariables newindexes varIndex =
     (let newind = newindexes ! nat varIndex
      in if newind \<noteq> varIndex then VarExpr newind else VarExpr varIndex)"

definition ArrayVarExpr_reindexVariables :: "int list \<Rightarrow> int \<Rightarrow> pint \<Rightarrow> int \<Rightarrow> pint" where
  "ArrayVarExpr_reindexVariables newindex var index limit =
     createArrayAccess (newindex ! nat var) index limit"

definition ArrayConstExpr_reindexVariables :: "int list \<Rightarrow> int \<Rightarrow> int \<Rightarrow> pint" where
  "ArrayConstExpr_reindexVariables newindex var index =
     createArrayAccess (newindex ! nat var) (createConstant index) (wrap32 (index + 1))"

definition NaryIntExpr_reindexVariables :: "heap_order \<Rightarrow> NaryIntClass \<Rightarrow> pint list \<Rightarrow> pint" where
  "NaryIntExpr_reindexVariables A k params = nary_node A k (fold (ms_insert (iless A)) params [])"

definition NaryBoolExpr_reindexVariables ::
  "heap_order \<Rightarrow> NaryBoolClass \<Rightarrow> pbool list \<Rightarrow> pbool" where
  "NaryBoolExpr_reindexVariables A k params =
     nbool_node A k (fold (set_insert (bless A)) params [])"

fun reindex_int :: "heap_order \<Rightarrow> int list \<Rightarrow> pint \<Rightarrow> pint"
  and reindex_bool :: "heap_order \<Rightarrow> int list \<Rightarrow> pbool \<Rightarrow> pbool" where
  "reindex_int A ix (VarExpr x) = VarExpr_reindexVariables ix x"
| "reindex_int A ix (ConstTag t) = ConstTag t"
| "reindex_int A ix NDefExpr = NDefExpr"
| "reindex_int A ix (WrapBoolExpr b) = WrapBoolExpr (reindex_bool A ix b)"
| "reindex_int A ix (ArrayVarExpr a i l) =
     ArrayVarExpr_reindexVariables ix a (reindex_int A ix i) l"
| "reindex_int A ix (ArrayConstExpr a i) = ArrayConstExpr_reindexVariables ix a i"
| "reindex_int A ix (NaryIntExpr k ps) =
     NaryIntExpr_reindexVariables A k (map (reindex_int A ix) ps)"
| "reindex_int A ix (UnaryIntExpr k e) = unary_node k (reindex_int A ix e)"
| "reindex_int A ix (BinaryIntExpr k l r) =
     binary_node A k (reindex_int A ix l) (reindex_int A ix r)"
| "reindex_bool A ix (NaryBoolExpr k ps) =
     NaryBoolExpr_reindexVariables A k (map (reindex_bool A ix) ps)"
| "reindex_bool A ix (BinaryBoolComp k l r) =
     comp_node k (reindex_int A ix l) (reindex_int A ix r)"
| "reindex_bool A ix (NotExpr b) = NotExpr (reindex_bool A ix b)"
| "reindex_bool A ix (BoolConstExpr c) = BoolConstExpr c"
| "reindex_bool A ix BoolNDefExpr = BoolNDefExpr"

section \<open>Marks and variables\<close>

lemma length_getSupport [simp]:
  "length (getSupport_int e m) = length m"
  "length (getSupport_bool b m) = length m"
proof (induction e m and b m rule: getSupport_int_getSupport_bool.induct)
  case (7 k ps mark)
  have "length (fold getSupport_int qs m) = length m" if "set qs \<subseteq> set ps" for qs m
    using that 7 by (induction qs arbitrary: m) auto
  then show ?case by simp
next
  case (10 k ps mark)
  have "length (fold getSupport_bool qs m) = length m" if "set qs \<subseteq> set ps" for qs m
    using that 10 by (induction qs arbitrary: m) auto
  then show ?case by simp
qed simp_all

end
