(* ===== verification/Gal_Eval.thy ===== *)
theory Gal_Eval imports Gal_Support begin

text \<open>
  \<open>pushNegations\<close> and \<open>eval\<close>, the simplifier of GAL expressions. One definition per class method,
  taking what the recursive calls on the operands returned, and the dispatching functions
  \<open>push_neg\<close>, \<open>eval_int\<close> and \<open>eval_bool\<close>. The last section shows that the simplifier never
  makes an expression larger, hence that \<open>NaryBoolExpr::eval\<close>, which evaluates the negation of an
  operand it has already evaluated, terminates.
\<close>

section \<open>pushNegations\<close>

fun dual_class :: "NaryBoolClass \<Rightarrow> NaryBoolClass" where
  "dual_class OrExpr = AndExpr"
| "dual_class AndExpr = OrExpr"

fun neg_comp :: "BoolCompClass \<Rightarrow> BoolCompClass" where
  "neg_comp BoolEq = BoolNeq"
| "neg_comp BoolNeq = BoolEq"
| "neg_comp BoolLt = BoolGeq"
| "neg_comp BoolGt = BoolLeq"
| "neg_comp BoolGeq = BoolLt"
| "neg_comp BoolLeq = BoolGt"

definition NotPusher_visitNary ::
  "heap_order \<Rightarrow> bool \<Rightarrow> NaryBoolClass \<Rightarrow> pbool list \<Rightarrow> pbool" where
  "NotPusher_visitNary A neg k children =
     (let toadd = fold (set_insert (bless A)) children []
      in if \<not> neg then nbool_node A k toadd else nbool_node A (dual_class k) toadd)"

definition NotPusher_visitComp :: "bool \<Rightarrow> BoolCompClass \<Rightarrow> pint \<Rightarrow> pint \<Rightarrow> pbool" where
  "NotPusher_visitComp neg k l r = (if \<not> neg then comp_node k l r else comp_node (neg_comp k) l r)"

fun push_neg :: "heap_order \<Rightarrow> bool \<Rightarrow> pbool \<Rightarrow> pbool" where
  "push_neg A neg (NaryBoolExpr k ps) = NotPusher_visitNary A neg k (map (push_neg A neg) ps)"
| "push_neg A neg (BinaryBoolComp k l r) = NotPusher_visitComp neg k l r"
| "push_neg A neg (NotExpr b) = push_neg A (\<not> neg) b"
| "push_neg A neg (BoolConstExpr c) = (if neg then BoolConstExpr (\<not> c) else BoolConstExpr c)"
| "push_neg A neg BoolNDefExpr = BoolNDefExpr"

definition pushNegations :: "heap_order \<Rightarrow> pbool \<Rightarrow> pbool" where
  "pushNegations A b = push_neg A False b"

section \<open>eval, class by class\<close>

text \<open>\<open>NaryIntExpr::eval\<close>. The loop answers \<open>None\<close> for the early return of the undefined expression;
  the evaluation of a later operand is not reached then.\<close>

fun nary_loop ::
  "heap_order \<Rightarrow> NaryIntClass \<Rightarrow> pint res list \<Rightarrow> int \<Rightarrow> pint list \<Rightarrow> (int \<times> pint list) option res"
where
  "nary_loop A k [] constant p = Inr (Some (constant, p))"
| "nary_loop A k (r # rs) constant p =
     rbind r (\<lambda>e. case e of
         ConstTag t \<Rightarrow>
           rbind (nary_constEval k constant (untag_const t)) (\<lambda>c. nary_loop A k rs c p)
       | NDefExpr \<Rightarrow> Inr None
       | _ \<Rightarrow> nary_loop A k rs constant (ms_insert (iless A) e p))"

text \<open>What follows the loop: the folded constant joins the operands unless it is neutral.\<close>

definition nary_params :: "heap_order \<Rightarrow> NaryIntClass \<Rightarrow> int \<Rightarrow> pint list \<Rightarrow> pint list" where
  "nary_params A k constant p =
     (if constant \<noteq> getNeutralElement k \<or> p = []
      then ms_insert (iless A) (createConstant constant) p else p)"

definition NaryIntExpr_eval :: "heap_order \<Rightarrow> NaryIntClass \<Rightarrow> pint res list \<Rightarrow> pint res" where
  "NaryIntExpr_eval A k rs =
     rbind (nary_loop A k rs (getNeutralElement k) []) (\<lambda>out.
       case out of
         None \<Rightarrow> Inr NDefExpr
       | Some (constant, p) \<Rightarrow>
           (case nary_params A k constant p of
              [e] \<Rightarrow> Inr e
            | ps \<Rightarrow> int_createNary A (nary_type k) ps))"

definition UnaryIntExpr_eval :: "UnaryIntClass \<Rightarrow> pint res \<Rightarrow> pint res" where
  "UnaryIntExpr_eval k r =
     rbind r (\<lambda>l. case l of
         ConstTag t \<Rightarrow> Inr (createConstant (unary_constEval k (untag_const t)))
       | NDefExpr \<Rightarrow> Inr NDefExpr
       | _ \<Rightarrow> int_createUnary (unary_type k) l)"

definition BinaryIntExpr_eval ::
  "heap_order \<Rightarrow> BinaryIntClass \<Rightarrow> pint res \<Rightarrow> pint res \<Rightarrow> pint res" where
  "BinaryIntExpr_eval A k rl rr =
     rbind rl (\<lambda>l. rbind rr (\<lambda>r.
       case (l, r) of
         (ConstTag t1, ConstTag t2) \<Rightarrow>
           rbind (binary_constEval k (untag_const t1) (untag_const t2)) (\<lambda>c. Inr (createConstant c))
       | _ \<Rightarrow>
           if int_getType l = INTNDEF \<or> int_getType r = INTNDEF then Inr NDefExpr
           else int_createBinary A (binary_type k) l r))"

definition ArrayVarExpr_eval :: "int \<Rightarrow> pint \<Rightarrow> int \<Rightarrow> pint res \<Rightarrow> pint res" where
  "ArrayVarExpr_eval var index limit r =
     rbind r (\<lambda>indeval.
       if indeval = index then Inr (ArrayVarExpr var index limit)
       else Inr (createArrayAccess var indeval limit))"

text \<open>The end of \<open>WrapBoolExpr::eval\<close> and \<open>WrapBoolExpr::setAssertion\<close>.\<close>

fun wrap_result :: "pbool \<Rightarrow> pint" where
  "wrap_result (BoolConstExpr c) = (if c then createConstant 1 else createConstant 0)"
| "wrap_result BoolNDefExpr = NDefExpr"
| "wrap_result bb = WrapBoolExpr bb"

definition WrapBoolExpr_eval :: "heap_order \<Rightarrow> pbool res \<Rightarrow> pint res" where
  "WrapBoolExpr_eval A r = rbind r (\<lambda>b. Inr (wrap_result (pushNegations A b)))"

definition BinaryBoolComp_eval :: "BoolCompClass \<Rightarrow> pint res \<Rightarrow> pint res \<Rightarrow> pbool res" where
  "BinaryBoolComp_eval k rl rr =
     rbind rl (\<lambda>l. rbind rr (\<lambda>r.
       case (l, r) of
         (ConstTag t1, ConstTag t2) \<Rightarrow>
           Inr (BoolConstExpr (comp_constEval k (untag_const t1) (untag_const t2)))
       | _ \<Rightarrow>
           if int_getType l = INTNDEF \<or> int_getType r = INTNDEF then Inr BoolNDefExpr
           else createComparison (comp_type k) l r))"

definition NotExpr_eval :: "pbool res \<Rightarrow> pbool res" where
  "NotExpr_eval r =
     rbind r (\<lambda>e. case e of
         BoolConstExpr c \<Rightarrow> Inr (BoolConstExpr (\<not> c))
       | BoolNDefExpr \<Rightarrow> Inr BoolNDefExpr
       | _ \<Rightarrow> Inr (NotExpr e))"

text \<open>\<open>NaryBoolExpr::eval\<close>. The loop answers \<open>Inl e\<close> for an early return of the absorbing constant.\<close>

fun nbool_loop ::
  "heap_order \<Rightarrow> NaryBoolClass \<Rightarrow> pbool res list \<Rightarrow> pbool list \<Rightarrow> bool \<Rightarrow>
   (pbool + pbool list \<times> bool) res"
where
  "nbool_loop A k [] p hasNDef = Inr (Inr (p, hasNDef))"
| "nbool_loop A k (r # rs) p hasNDef =
     rbind r (\<lambda>e. case e of
         BoolConstExpr val \<Rightarrow>
           if (k = AndExpr \<and> \<not> val) \<or> (k = OrExpr \<and> val) then Inr (Inl e)
           else nbool_loop A k rs p hasNDef
       | BoolNDefExpr \<Rightarrow> nbool_loop A k rs p True
       | _ \<Rightarrow> nbool_loop A k rs (set_insert (bless A) e p) hasNDef)"

text \<open>\<open>noteval e\<close> stands for \<open>createNot(e).eval()\<close>.\<close>

definition nbool_finish ::
  "heap_order \<Rightarrow> NaryBoolClass \<Rightarrow> (pbool \<Rightarrow> pbool res) \<Rightarrow> pbool list \<Rightarrow> bool \<Rightarrow> pbool res" where
  "nbool_finish A k noteval p hasNDef =
     (if hasNDef \<and> k = AndExpr then Inr BoolNDefExpr
      else if p = [] then Inr (BoolConstExpr (k \<noteq> OrExpr))
      else if length p = 1 then Inr (hd p)
      else if length p = 2 then
        rbind (noteval (last p)) (\<lambda>n.
          if hd p = n then Inr (BoolConstExpr (k = OrExpr))
          else bool_createNary A (nbool_type k) p)
      else bool_createNary A (nbool_type k) p)"

definition NaryBoolExpr_eval ::
  "heap_order \<Rightarrow> NaryBoolClass \<Rightarrow> pbool res list \<Rightarrow> (pbool \<Rightarrow> pbool res) \<Rightarrow> pbool res" where
  "NaryBoolExpr_eval A k rs noteval =
     rbind (nbool_loop A k rs [] False) (\<lambda>out.
       case out of
         Inl e \<Rightarrow> Inr e
       | Inr (p, hasNDef) \<Rightarrow> nbool_finish A k noteval p hasNDef)"

section \<open>eval\<close>

fun isize :: "pint \<Rightarrow> nat" and bsize :: "pbool \<Rightarrow> nat" where
  "isize (VarExpr x) = 1"
| "isize (ConstTag t) = 1"
| "isize NDefExpr = 1"
| "isize (WrapBoolExpr b) = Suc (bsize b)"
| "isize (ArrayVarExpr a i l) = Suc (isize i)"
| "isize (ArrayConstExpr a i) = 1"
| "isize (NaryIntExpr k ps) = Suc (sum_list (map isize ps))"
| "isize (UnaryIntExpr k e) = Suc (isize e)"
| "isize (BinaryIntExpr k l r) = Suc (isize l + isize r)"
| "bsize (NaryBoolExpr k ps) = Suc (sum_list (map bsize ps))"
| "bsize (BinaryBoolComp k l r) = Suc (isize l + isize r)"
| "bsize (NotExpr b) = Suc (bsize b)"
| "bsize (BoolConstExpr c) = 1"
| "bsize BoolNDefExpr = 1"

text \<open>
  The recursive call inside \<open>noteval\<close> is on the negation of a result, not on a sub-term. The test on
  \<open>bsize\<close> makes the termination argument part of the definition; \<open>eval_bool_Nary\<close> below shows
  that it always holds where the call is made.
\<close>

function (sequential) eval_int :: "heap_order \<Rightarrow> pint \<Rightarrow> pint res"
  and eval_bool :: "heap_order \<Rightarrow> pbool \<Rightarrow> pbool res" where
  "eval_int A (VarExpr x) = Inr (VarExpr x)"
| "eval_int A (ConstTag t) = Inr (ConstTag t)"
| "eval_int A NDefExpr = Inr NDefExpr"
| "eval_int A (WrapBoolExpr b) = WrapBoolExpr_eval A (eval_bool A b)"
| "eval_int A (ArrayVarExpr a i l) = ArrayVarExpr_eval a i l (eval_int A i)"
| "eval_int A (ArrayConstExpr a i) = Inr (ArrayConstExpr a i)"
| "eval_int A (NaryIntExpr k ps) = NaryIntExpr_eval A k (map (eval_int A) ps)"
| "eval_int A (UnaryIntExpr k e) = UnaryIntExpr_eval k (eval_int A e)"
| "eval_int A (BinaryIntExpr k l r) = BinaryIntExpr_eval A k (eval_int A l) (eval_int A r)"
| "eval_bool A (NaryBoolExpr k ps) =
     NaryBoolExpr_eval A k (map (eval_bool A) ps)
       (\<lambda>e. if bsize (NotExpr e) < bsize (NaryBoolExpr k ps) then eval_bool A (NotExpr e)
            else Inl (Undefined ''not reached''))"
| "eval_bool A (BinaryBoolComp k l r) = BinaryBoolComp_eval k (eval_int A l) (eval_int A r)"
| "eval_bool A (NotExpr b) = NotExpr_eval (eval_bool A b)"
| "eval_bool A (BoolConstExpr c) = Inr (BoolConstExpr c)"
| "eval_bool A BoolNDefExpr = Inr BoolNDefExpr"
  by pat_completeness auto
termination
  by (relation "measure (\<lambda>x. case x of Inl (A, e) \<Rightarrow> isize e | Inr (A, b) \<Rightarrow> bsize b)")
     (auto simp: less_Suc_eq_le intro: member_le_sum_list)

section \<open>The simplifier does not make expressions larger\<close>

lemma size_pos [simp]: "Suc 0 \<le> isize e" "Suc 0 \<le> bsize b"
  by (cases e; simp) (cases b; simp)

lemma sum_bool_params_le: "sum_list (map bsize (bool_params t)) \<le> bsize t"
  by (cases t) auto

lemma fuse_internals_size: "sum_list (map bsize (fuse_internals A T ps)) \<le> sum_list (map bsize ps)"
proof -
  have fold_le: "sum_list (map bsize (fold (\<lambda>t q. fold (set_insert (bless A)) (bool_params t) q) ts qs))
      \<le> sum_list (map bsize ts) + sum_list (map bsize qs)" for ts qs
  proof (induction ts arbitrary: qs)
    case (Cons t ts)
    show ?case
      using Cons.IH [of "fold (set_insert (bless A)) (bool_params t) qs"]
        sum_list_fold_set_insert_le [of bsize "bless A" "bool_params t" qs] sum_bool_params_le [of t]
      by simp
  qed simp
  have "sum_list (map bsize (filter (\<lambda>b. bool_getType b = T) ps))
      + sum_list (map bsize (filter (\<lambda>b. bool_getType b \<noteq> T) ps)) = sum_list (map bsize ps)"
    by (induction ps) auto
  then show ?thesis
    using fold_le [of "filter (\<lambda>b. bool_getType b = T) ps" "filter (\<lambda>b. bool_getType b \<noteq> T) ps"]
    by (simp add: fuse_internals_def)
qed

lemma nbool_node_size: "bsize (nbool_node A k ps) \<le> Suc (sum_list (map bsize ps))"
  using fuse_internals_size [of A "nbool_type k" ps]
  by (auto simp: nbool_node_eq split: list.splits)

lemma comp_node_size: "bsize (comp_node k l r) \<le> Suc (isize l + isize r)"
  by (simp add: comp_node_eq)

lemma nary_node_size: "isize (nary_node A k ps) \<le> Suc (sum_list (map isize ps))"
  by (simp add: nary_node_eq)

lemma push_neg_size: "bsize (push_neg A neg b) \<le> bsize b"
proof (induction A neg b rule: push_neg.induct)
  case (1 A neg k ps)
  have "sum_list (map bsize (map (push_neg A neg) ps)) \<le> sum_list (map bsize ps)"
    using 1 by (simp add: sum_list_mono)
  moreover have "sum_list (map bsize (fold (set_insert (bless A)) (map (push_neg A neg) ps) []))
      \<le> sum_list (map bsize (map (push_neg A neg) ps))"
    using sum_list_fold_set_insert_le [of bsize "bless A" "map (push_neg A neg) ps" "[]"] by simp
  ultimately have le: "Suc (sum_list (map bsize (fold (set_insert (bless A)) (map (push_neg A neg) ps) [])))
      \<le> bsize (NaryBoolExpr k ps)"
    by simp
  show ?case
    by (simp only: push_neg.simps NotPusher_visitNary_def Let_def split: if_split)
       (blast intro: order_trans [OF nbool_node_size le])
qed (auto simp: NotPusher_visitComp_def comp_node_size)

text \<open>The weight of a result, 0 for an error.\<close>

fun rsize :: "('a \<Rightarrow> nat) \<Rightarrow> 'a res \<Rightarrow> nat" where
  "rsize f (Inl e) = 0"
| "rsize f (Inr x) = f x"

lemma nary_loop_size:
  "nary_loop A k rs c p = Inr (Some (c', p')) \<Longrightarrow>
   sum_list (map isize p') + (if c' \<noteq> c then 1 else 0) \<le> sum_list (map isize p) + sum_list (map (rsize isize) rs)"
proof (induction rs arbitrary: c p)
  case (Cons r rs)
  from Cons.prems obtain e where r: "r = Inr e" by (cases r) auto
  show ?case
  proof (cases e)
    case (ConstTag t)
    with Cons.prems r obtain c1 where
      "nary_constEval k c (untag_const t) = Inr c1" "nary_loop A k rs c1 p = Inr (Some (c', p'))"
      by (auto elim: rbind_InrE)
    with Cons.IH [of c1 p] r ConstTag show ?thesis by (auto split: if_splits)
  qed (use Cons r in \<open>auto split: if_splits\<close>, (use Cons.IH in fastforce)+)
qed simp

lemma NaryIntExpr_eval_size:
  assumes "NaryIntExpr_eval A k rs = Inr e"
  shows "isize e \<le> Suc (sum_list (map (rsize isize) rs))"
proof -
  from assms obtain out where out: "nary_loop A k rs (getNeutralElement k) [] = Inr out"
    and e: "(case out of None \<Rightarrow> Inr NDefExpr
       | Some (constant, p) \<Rightarrow>
           (case nary_params A k constant p of [e] \<Rightarrow> Inr e
            | ps \<Rightarrow> int_createNary A (nary_type k) ps)) = Inr e"
    unfolding NaryIntExpr_eval_def by (rule rbind_InrE)
  show ?thesis
  proof (cases out)
    case None
    with e show ?thesis by simp
  next
    case (Some cp)
    obtain c p where cp: "cp = (c, p)" by (cases cp)
    note le = nary_loop_size [OF out [unfolded Some cp]]
    show ?thesis
    proof (cases "p = []")
      case True
      with e Some cp show ?thesis by (auto simp: nary_params_def createConstant_def)
    next
      case False
      with le have "sum_list (map isize (nary_params A k c p)) \<le> sum_list (map (rsize isize) rs)"
        by (auto simp: nary_params_def createConstant_def split: if_splits)
      with e Some cp show ?thesis
        by (auto simp: res_simps split: list.splits if_splits)
    qed
  qed
qed

lemma nbool_loop_size:
  "nbool_loop A k rs p h = Inr (Inr (p', h')) \<Longrightarrow>
   sum_list (map bsize p') \<le> sum_list (map bsize p) + sum_list (map (rsize bsize) rs)"
proof (induction rs arbitrary: p h)
  case (Cons r rs)
  from Cons.prems obtain e where r: "r = Inr e" by (cases r) auto
  have ins: "sum_list (map bsize (set_insert (bless A) e p)) \<le> bsize e + sum_list (map bsize p)"
    by (rule sum_list_set_insert_le)
  show ?case
    using Cons.prems r Cons.IH [of "set_insert (bless A) e p" h] Cons.IH [of p h] Cons.IH [of p True] ins
    by (cases e) (auto split: if_splits)
qed simp

lemma nbool_loop_early:
  "nbool_loop A k rs p h = Inr (Inl e) \<Longrightarrow> \<exists>c. e = BoolConstExpr c"
  by (induction rs arbitrary: p h)
     (auto elim!: rbind_InrE split: pbool.splits if_splits)

text \<open>The two congruences: only the last remaining operand is ever negated and evaluated again.\<close>

lemma nbool_finish_cong:
  assumes "length p = 2 \<Longrightarrow> f (last p) = g (last p)"
  shows "nbool_finish A k f p h = nbool_finish A k g p h"
  using assms by (simp add: nbool_finish_def)

lemma nbool_finish_size:
  assumes "nbool_finish A k f p h = Inr b"
  shows "bsize b \<le> Suc (sum_list (map bsize p))"
  using assms nbool_node_size [of A k p]
  by (auto simp: nbool_finish_def nbool_node_def res_simps length_Suc_conv split: if_splits elim!: rbind_InrE)

lemma NaryBoolExpr_eval_cong:
  assumes "\<And>x. Suc (bsize x) \<le> sum_list (map (rsize bsize) rs) \<Longrightarrow> f x = g x"
  shows "NaryBoolExpr_eval A k rs f = NaryBoolExpr_eval A k rs g"
proof -
  have "nbool_finish A k f p h = nbool_finish A k g p h"
    if "nbool_loop A k rs [] False = Inr (Inr (p, h))" for p h
  proof (rule nbool_finish_cong)
    assume "length p = 2"
    then obtain a b where p: "p = [a, b]" by (auto simp: length_Suc_conv numeral_2_eq_2)
    with nbool_loop_size [OF that] have "bsize a + bsize b \<le> sum_list (map (rsize bsize) rs)"
      by simp
    then have "Suc (bsize b) \<le> sum_list (map (rsize bsize) rs)"
      using size_pos(2) [of a] by linarith
    then show "f (last p) = g (last p)" using assms p by simp
  qed
  then show ?thesis
    by (cases "nbool_loop A k rs [] False") (auto simp: NaryBoolExpr_eval_def split: sum.splits)
qed

lemma NaryBoolExpr_eval_size:
  assumes "NaryBoolExpr_eval A k rs f = Inr b"
  shows "bsize b \<le> Suc (sum_list (map (rsize bsize) rs))"
proof -
  from assms obtain out where out: "nbool_loop A k rs [] False = Inr out"
    and b: "(case out of Inl e \<Rightarrow> Inr e | Inr (p, h) \<Rightarrow> nbool_finish A k f p h) = Inr b"
    unfolding NaryBoolExpr_eval_def by (rule rbind_InrE)
  show ?thesis
  proof (cases out)
    case (Inl e)
    with out b show ?thesis by (auto dest: nbool_loop_early)
  next
    case (Inr ph)
    obtain p h where "ph = (p, h)" by (cases ph)
    with Inr out b show ?thesis
      using nbool_loop_size [of A k rs "[]" False p h] nbool_finish_size [of A k f p h b] by fastforce
  qed
qed

lemma wrap_result_size: "isize (wrap_result b) \<le> Suc (bsize b)"
  by (cases b) (auto simp: createConstant_def)

lemma sum_rsize_map_le:
  assumes "\<And>x y. x \<in> set xs \<Longrightarrow> g x = Inr y \<Longrightarrow> f y \<le> f' x"
  shows "sum_list (map (rsize f) (map g xs)) \<le> sum_list (map f' xs)"
proof -
  have "rsize f (g x) \<le> f' x" if "x \<in> set xs" for x
    using assms [OF that] by (cases "g x") auto
  then show ?thesis by (simp add: sum_list_mono o_def)
qed

lemma BinaryIntExpr_eval_size:
  "BinaryIntExpr_eval A k (Inr l) (Inr r) = Inr e \<Longrightarrow> isize e \<le> Suc (isize l + isize r)"
  by (auto simp: BinaryIntExpr_eval_def res_simps createConstant_def split: pint.splits if_splits)

lemma BinaryBoolComp_eval_size:
  "BinaryBoolComp_eval k (Inr l) (Inr r) = Inr b \<Longrightarrow> bsize b \<le> Suc (isize l + isize r)"
  by (auto simp: BinaryBoolComp_eval_def res_simps split: pint.splits if_splits)

lemma eval_size:
  "eval_int A e = Inr e' \<Longrightarrow> isize e' \<le> isize e"
  "eval_bool A b = Inr b' \<Longrightarrow> bsize b' \<le> bsize b"
proof (induction A e and A b arbitrary: e' and b' rule: eval_int_eval_bool.induct)
  case (4 A b)
  then obtain b1 where "eval_bool A b = Inr b1" "e' = wrap_result (pushNegations A b1)"
    by (auto simp: WrapBoolExpr_eval_def elim: rbind_InrE)
  with 4 wrap_result_size [of "pushNegations A b1"] push_neg_size [of A False b1]
  show ?case by (fastforce simp: pushNegations_def)
next
  case (5 A a i l)
  from "5.prems" obtain i' where i': "eval_int A i = Inr i'"
    by (auto simp: ArrayVarExpr_eval_def elim!: rbind_InrE)
  with 5 have "isize i' \<le> isize i" by simp
  with "5.prems" i' show ?case
    by (auto simp: ArrayVarExpr_eval_def createArrayAccess_def Let_def split: if_splits pint.splits)
next
  case (7 A k ps)
  have "sum_list (map (rsize isize) (map (eval_int A) ps)) \<le> sum_list (map isize ps)"
    by (rule sum_rsize_map_le) (use 7 in blast)
  then show ?case
    using NaryIntExpr_eval_size [of A k "map (eval_int A) ps" e'] "7.prems" by simp
next
  case (8 A k e)
  from "8.prems" obtain l where l: "eval_int A e = Inr l"
    by (auto simp: UnaryIntExpr_eval_def elim!: rbind_InrE)
  with 8 have "isize l \<le> isize e" by simp
  with "8.prems" l show ?case
    by (auto simp: UnaryIntExpr_eval_def res_simps createConstant_def split: pint.splits if_splits)
next
  case (9 A k l r)
  then obtain l' r' where lr: "eval_int A l = Inr l'" "eval_int A r = Inr r'"
    by (auto simp: BinaryIntExpr_eval_def elim!: rbind_InrE)
  with 9 have "isize l' \<le> isize l" "isize r' \<le> isize r" by auto
  with "9.prems" lr BinaryIntExpr_eval_size [of A k l' r' e'] show ?case by simp
next
  case (10 A k ps)
  have "sum_list (map (rsize bsize) (map (eval_bool A) ps)) \<le> sum_list (map bsize ps)"
    by (rule sum_rsize_map_le) (use 10 in blast)
  then show ?case
    using NaryBoolExpr_eval_size [of A k "map (eval_bool A) ps" _ b'] "10.prems" by fastforce
next
  case (11 A k l r)
  then obtain l' r' where lr: "eval_int A l = Inr l'" "eval_int A r = Inr r'"
    by (auto simp: BinaryBoolComp_eval_def elim!: rbind_InrE)
  with 11 have "isize l' \<le> isize l" "isize r' \<le> isize r" by auto
  with "11.prems" lr BinaryBoolComp_eval_size [of k l' r' b'] show ?case by simp
next
  case (12 A b)
  from "12.prems" obtain b1 where b1: "eval_bool A b = Inr b1"
    by (auto simp: NotExpr_eval_def elim!: rbind_InrE)
  with 12 have "bsize b1 \<le> bsize b" by simp
  with "12.prems" b1 show ?case
    by (auto simp: NotExpr_eval_def split: pbool.splits)
qed auto

text \<open>The equation of the source, without the termination test.\<close>

lemma eval_bool_Nary:
  "eval_bool A (NaryBoolExpr k ps) =
     NaryBoolExpr_eval A k (map (eval_bool A) ps) (\<lambda>e. eval_bool A (NotExpr e))"
proof -
  have "sum_list (map (rsize bsize) (map (eval_bool A) ps)) \<le> sum_list (map bsize ps)"
    by (rule sum_rsize_map_le) (rule eval_size)
  then show ?thesis
    unfolding eval_bool.simps(1) by (intro NaryBoolExpr_eval_cong) auto
qed

declare eval_bool.simps(1) [simp del]
declare eval_bool_Nary [simp]

end
