(* ===== verification/Gal_Assert.thy ===== *)
theory Gal_Assert imports Gal_Eval begin

text \<open>
  Assertions \<open>lhs := rhs\<close> (\<open>PAssertion\<close>) and partial resolution of an expression under an assertion
  (\<open>operator&\<close>, \<open>setAssertion\<close>): occurrences of \<open>lhs\<close> are replaced and constants folded on the way.
\<close>

record PAssertion =
  pfirst :: pint
  psecond :: pint

definition PAssertion_getValue :: "PAssertion \<Rightarrow> pint \<Rightarrow> pint" where
  "PAssertion_getValue a v = (if v = pfirst a then psecond a else v)"

section \<open>setAssertion, class by class\<close>

definition NaryIntExpr_setAssertion ::
  "heap_order \<Rightarrow> NaryIntClass \<Rightarrow> PAssertion \<Rightarrow> pint res list \<Rightarrow> pint res" where
  "NaryIntExpr_setAssertion A k a rs =
     rbind (nary_loop A k rs (getNeutralElement k) []) (\<lambda>out.
       case out of
         None \<Rightarrow> Inr NDefExpr
       | Some (constant, p) \<Rightarrow>
           (case nary_params A k constant p of
              [e] \<Rightarrow> Inr e
            | ps \<Rightarrow> rbind (int_createNary A (nary_type k) ps) (\<lambda>e. Inr (PAssertion_getValue a e))))"

definition UnaryIntExpr_setAssertion :: "UnaryIntClass \<Rightarrow> PAssertion \<Rightarrow> pint res \<Rightarrow> pint res" where
  "UnaryIntExpr_setAssertion k a r =
     rbind r (\<lambda>na. case na of
         ConstTag t \<Rightarrow> Inr (createConstant (unary_constEval k (untag_const t)))
       | NDefExpr \<Rightarrow> Inr NDefExpr
       | _ \<Rightarrow> rbind (int_createUnary (unary_type k) na) (\<lambda>e. Inr (PAssertion_getValue a e)))"

definition BinaryIntExpr_setAssertion ::
  "heap_order \<Rightarrow> BinaryIntClass \<Rightarrow> PAssertion \<Rightarrow> pint res \<Rightarrow> pint res \<Rightarrow> pint res" where
  "BinaryIntExpr_setAssertion A k a rl rr =
     rbind rl (\<lambda>l. rbind rr (\<lambda>r.
       case (l, r) of
         (ConstTag t1, ConstTag t2) \<Rightarrow>
           rbind (binary_constEval k (untag_const t1) (untag_const t2)) (\<lambda>c. Inr (createConstant c))
       | _ \<Rightarrow>
           if int_getType l = INTNDEF \<or> int_getType r = INTNDEF then Inr NDefExpr
           else rbind (int_createBinary A (binary_type k) l r)
                  (\<lambda>e. Inr (PAssertion_getValue a e))))"

definition ArrayVarExpr_setAssertion ::
  "int \<Rightarrow> int \<Rightarrow> PAssertion \<Rightarrow> pint res \<Rightarrow> pint res" where
  "ArrayVarExpr_setAssertion var limit a r =
     rbind r (\<lambda>tmp. Inr (PAssertion_getValue a (createArrayAccess var tmp limit)))"

definition WrapBoolExpr_setAssertion :: "pbool res \<Rightarrow> pint res" where
  "WrapBoolExpr_setAssertion r = rbind r (\<lambda>bb. Inr (wrap_result bb))"

definition BinaryBoolComp_setAssertion :: "BoolCompClass \<Rightarrow> pint res \<Rightarrow> pint res \<Rightarrow> pbool res" where
  "BinaryBoolComp_setAssertion k rl rr =
     rbind rl (\<lambda>l. rbind rr (\<lambda>r.
       case (l, r) of
         (ConstTag t1, ConstTag t2) \<Rightarrow>
           Inr (BoolConstExpr (comp_constEval k (untag_const t1) (untag_const t2)))
       | _ \<Rightarrow>
           if int_getType l = INTNDEF \<or> int_getType r = INTNDEF then Inr BoolNDefExpr
           else createComparison (comp_type k) l r))"

definition NotExpr_setAssertion :: "pbool res \<Rightarrow> pbool res" where
  "NotExpr_setAssertion r =
     rbind r (\<lambda>e. case e of
         BoolConstExpr c \<Rightarrow> Inr (BoolConstExpr (\<not> c))
       | BoolNDefExpr \<Rightarrow> Inr BoolNDefExpr
       | _ \<Rightarrow> Inr (NotExpr e))"

text \<open>\<open>NaryBoolExpr::setAssertion\<close>: each entry is an operand and its resolution. The loop answers
  \<open>Inl aa\<close> for an early return, or the operands kept, \<open>isUpd\<close> and \<open>isNDef\<close>.\<close>

fun nbool_assert_loop ::
  "heap_order \<Rightarrow> NaryBoolClass \<Rightarrow> (pbool \<times> pbool res) list \<Rightarrow> pbool list \<Rightarrow> bool \<Rightarrow> bool \<Rightarrow>
   (pbool + pbool list \<times> bool \<times> bool) res"
where
  "nbool_assert_loop A k [] p isUpd isNDef = Inr (Inr (p, isUpd, isNDef))"
| "nbool_assert_loop A k ((it, r) # xs) p isUpd isNDef =
     rbind r (\<lambda>aa. case aa of
         BoolConstExpr val \<Rightarrow>
           if (k = AndExpr \<and> \<not> val) \<or> (k = OrExpr \<and> val) then Inr (Inl aa)
           else nbool_assert_loop A k xs p True isNDef
       | BoolNDefExpr \<Rightarrow> nbool_assert_loop A k xs p True True
       | _ \<Rightarrow> nbool_assert_loop A k xs (set_insert (bless A) aa p) (isUpd \<or> aa \<noteq> it) isNDef)"

definition NaryBoolExpr_setAssertion ::
  "heap_order \<Rightarrow> NaryBoolClass \<Rightarrow> pbool \<Rightarrow> (pbool \<times> pbool res) list \<Rightarrow> pbool res" where
  "NaryBoolExpr_setAssertion A k this xs =
     rbind (nbool_assert_loop A k xs [] False False) (\<lambda>out.
       case out of
         Inl aa \<Rightarrow> Inr aa
       | Inr (p, isUpd, isNDef) \<Rightarrow>
           if isNDef \<and> k = AndExpr then Inr BoolNDefExpr
           else if isUpd then rbind (bool_createNary A (nbool_type k) p) (eval_bool A)
           else Inr this)"

section \<open>operator&\<close>

fun assert_int :: "heap_order \<Rightarrow> PAssertion \<Rightarrow> pint \<Rightarrow> pint res"
  and assert_bool :: "heap_order \<Rightarrow> PAssertion \<Rightarrow> pbool \<Rightarrow> pbool res" where
  "assert_int A a (VarExpr x) = Inr (PAssertion_getValue a (VarExpr x))"
| "assert_int A a (ConstTag t) = Inr (ConstTag t)"
| "assert_int A a NDefExpr = Inr (PAssertion_getValue a NDefExpr)"
| "assert_int A a (WrapBoolExpr b) = WrapBoolExpr_setAssertion (assert_bool A a b)"
| "assert_int A a (ArrayVarExpr v i l) = ArrayVarExpr_setAssertion v l a (assert_int A a i)"
| "assert_int A a (ArrayConstExpr v i) = Inr (PAssertion_getValue a (ArrayConstExpr v i))"
| "assert_int A a (NaryIntExpr k ps) = NaryIntExpr_setAssertion A k a (map (assert_int A a) ps)"
| "assert_int A a (UnaryIntExpr k e) = UnaryIntExpr_setAssertion k a (assert_int A a e)"
| "assert_int A a (BinaryIntExpr k l r) =
     BinaryIntExpr_setAssertion A k a (assert_int A a l) (assert_int A a r)"
| "assert_bool A a (NaryBoolExpr k ps) =
     NaryBoolExpr_setAssertion A k (NaryBoolExpr k ps) (map (\<lambda>p. (p, assert_bool A a p)) ps)"
| "assert_bool A a (BinaryBoolComp k l r) =
     BinaryBoolComp_setAssertion k (assert_int A a l) (assert_int A a r)"
| "assert_bool A a (NotExpr b) = NotExpr_setAssertion (assert_bool A a b)"
| "assert_bool A a (BoolConstExpr c) = Inr (BoolConstExpr c)"
| "assert_bool A a BoolNDefExpr = Inr BoolNDefExpr"

text \<open>\<open>PAssertion::operator&\<close>: the other assertion resolves the right-hand side.\<close>

definition PAssertion_and :: "heap_order \<Rightarrow> PAssertion \<Rightarrow> PAssertion \<Rightarrow> PAssertion res" where
  "PAssertion_and A a other =
     rbind (assert_int A other (psecond a)) (\<lambda>e.
       rbind (eval_int A e) (\<lambda>e'. Inr \<lparr>pfirst = pfirst a, psecond = e'\<rparr>))"

definition PAssertion_isSupport :: "int \<Rightarrow> int \<Rightarrow> PAssertion \<Rightarrow> bool" where
  "PAssertion_isSupport v tid a = (isSupport_int v tid (pfirst a) \<or> isSupport_int v tid (psecond a))"

end
