(* ===== verification/Gal_Semantics.thy ===== *)
theory Gal_Semantics imports Gal_Assert begin

text \<open>
  The reference semantics of parametric expressions: the integer an expression denotes under a
  valuation, or \<open>None\<close> where it has no well-defined value (an array index out of bounds, a
  division by zero, an intermediate result that a tagged constant cannot hold). Then what the
  factories do to it.
\<close>

section \<open>Which integers a tagged constant can hold\<close>

definition taggable :: "int \<Rightarrow> bool" where
  "taggable c \<longleftrightarrow> \<bar>c\<bar> < 1073741824"

definition chk :: "int \<Rightarrow> int option" where
  "chk c = (if taggable c then Some c else None)"

lemma chk_eq_Some [sem_simps]: "chk c = Some v \<longleftrightarrow> v = c \<and> taggable c"
  by (auto simp: chk_def)

lemma untag_tag_small:
  assumes "taggable c"
  shows "untag_const (tag_const c) = c"
proof -
  have w: "wrap32 x = x" if "\<bar>x\<bar> < 1073741824" for x
    using that by (intro wrap32_id) (auto simp: int32_def INT_MIN_def INT_MAX_def)
  have m: "wrap32 (wrap32 (x * 4) + y) mod 4294967296 = 4 * x + y"
    if "0 \<le> x" "x < 1073741824" "0 \<le> y" "y < 4" for x y
  proof -
    have "wrap32 (wrap32 (x * 4) + y) mod 4294967296 = (wrap32 (x * 4) + y) mod 4294967296"
      by (metis wrap32_eq_iff wrap32_id wrap32_int32)
    also have "\<dots> = (wrap32 (x * 4) mod 4294967296 + y) mod 4294967296"
      by (simp add: mod_add_left_eq)
    also have "wrap32 (x * 4) mod 4294967296 = (x * 4) mod 4294967296"
      by (metis wrap32_eq_iff wrap32_id wrap32_int32)
    finally show ?thesis using that by (simp add: mod_add_left_eq mod_pos_pos_trivial)
  qed
  show ?thesis
  proof (cases "c < 0")
    case True
    then have "tag_const c = 4 * (- c) + 3"
      using m [of "- c" 3] w [of "- c"] assms
      by (simp add: tag_const_def taggable_def add.assoc)
    then have "tag_const c mod 4 = 3" "tag_const c div 4 = - c"
      by presburger+
    then show ?thesis
      using True w [of "- c"] w [of c] assms by (simp add: untag_const_def taggable_def)
  next
    case False
    then have "tag_const c = 4 * c + 1"
      using m [of c 1] assms by (simp add: tag_const_def taggable_def)
    then have "tag_const c mod 4 = 1" "tag_const c div 4 = c"
      by presburger+
    then show ?thesis
      using False w [of c] assms by (simp add: untag_const_def taggable_def)
  qed
qed

section \<open>The semantics\<close>

text \<open>A valuation gives a value to each variable index and to each cell of each array.\<close>

record valuation =
  scalar :: "int \<Rightarrow> int"
  cell :: "int \<Rightarrow> int \<Rightarrow> int"

text \<open>
  A sum or product of operands is well-defined when no way of bracketing or ordering it leaves the
  range: the sum of the absolute values (the product of the absolute values, zeros counted as
  one) is in range.
\<close>

fun nary_sem :: "NaryIntClass \<Rightarrow> int list \<Rightarrow> int option" where
  "nary_sem PlusExpr vs =
     (if sum_list (map abs vs) < 1073741824 then Some (sum_list vs) else None)"
| "nary_sem MultExpr vs =
     (if prod_list (map (\<lambda>v. max 1 \<bar>v\<bar>) vs) < 1073741824 then Some (prod_list vs) else None)"

definition unary_sem :: "UnaryIntClass \<Rightarrow> int \<Rightarrow> int option" where
  "unary_sem k i = chk (unary_constEval k i)"

definition binary_sem :: "BinaryIntClass \<Rightarrow> int \<Rightarrow> int \<Rightarrow> int option" where
  "binary_sem k i j = (case binary_constEval k i j of Inl e \<Rightarrow> None | Inr c \<Rightarrow> chk c)"

fun comp_sem :: "BoolCompClass \<Rightarrow> int \<Rightarrow> int \<Rightarrow> bool" where
  "comp_sem BoolEq i j = (i = j)"
| "comp_sem BoolNeq i j = (i \<noteq> j)"
| "comp_sem BoolGeq i j = (i \<ge> j)"
| "comp_sem BoolLeq i j = (i \<le> j)"
| "comp_sem BoolLt i j = (i < j)"
| "comp_sem BoolGt i j = (i > j)"

definition cell_sem :: "valuation \<Rightarrow> int \<Rightarrow> int \<Rightarrow> int option \<Rightarrow> int option" where
  "cell_sem \<sigma> a l r =
     (case r of None \<Rightarrow> None | Some k \<Rightarrow> if 0 \<le> k \<and> k < l then chk (cell \<sigma> a k) else None)"

definition lift_list :: "('a list \<Rightarrow> 'b option) \<Rightarrow> 'a option list \<Rightarrow> 'b option" where
  "lift_list f xs = (if None \<in> set xs then None else f (map the xs))"

definition nbool_sem :: "NaryBoolClass \<Rightarrow> bool option list \<Rightarrow> bool option" where
  "nbool_sem k xs =
     (if None \<in> set xs then None
      else Some (case k of AndExpr \<Rightarrow> Some False \<notin> set xs | OrExpr \<Rightarrow> Some True \<in> set xs))"

definition bin_opt :: "('a \<Rightarrow> 'a \<Rightarrow> 'b option) \<Rightarrow> 'a option \<Rightarrow> 'a option \<Rightarrow> 'b option" where
  "bin_opt f x y = (case x of None \<Rightarrow> None | Some i \<Rightarrow> (case y of None \<Rightarrow> None | Some j \<Rightarrow> f i j))"

fun isem :: "valuation \<Rightarrow> pint \<Rightarrow> int option" and bsem :: "valuation \<Rightarrow> pbool \<Rightarrow> bool option" where
  "isem \<sigma> (VarExpr x) = chk (scalar \<sigma> x)"
| "isem \<sigma> (ConstTag t) = chk (untag_const t)"
| "isem \<sigma> NDefExpr = None"
| "isem \<sigma> (WrapBoolExpr b) = map_option (\<lambda>c. if c then 1 else 0) (bsem \<sigma> b)"
| "isem \<sigma> (ArrayVarExpr a i l) = cell_sem \<sigma> a l (isem \<sigma> i)"
| "isem \<sigma> (ArrayConstExpr a i) = chk (cell \<sigma> a i)"
| "isem \<sigma> (NaryIntExpr k ps) = lift_list (nary_sem k) (map (isem \<sigma>) ps)"
| "isem \<sigma> (UnaryIntExpr k e) = Option.bind (isem \<sigma> e) (unary_sem k)"
| "isem \<sigma> (BinaryIntExpr k l r) = bin_opt (binary_sem k) (isem \<sigma> l) (isem \<sigma> r)"
| "bsem \<sigma> (NaryBoolExpr k ps) = nbool_sem k (map (bsem \<sigma>) ps)"
| "bsem \<sigma> (BinaryBoolComp k l r) = bin_opt (\<lambda>i j. Some (comp_sem k i j)) (isem \<sigma> l) (isem \<sigma> r)"
| "bsem \<sigma> (NotExpr b) = map_option Not (bsem \<sigma> b)"
| "bsem \<sigma> (BoolConstExpr c) = Some c"
| "bsem \<sigma> BoolNDefExpr = None"

lemma bin_opt_eq_Some [sem_simps]:
  "bin_opt f x y = Some z \<longleftrightarrow> (\<exists>i j. x = Some i \<and> y = Some j \<and> f i j = Some z)"
  by (auto simp: bin_opt_def split: option.splits)

lemma cell_sem_eq_Some [sem_simps]:
  "cell_sem \<sigma> a l r = Some v \<longleftrightarrow>
     (\<exists>k. r = Some k \<and> 0 \<le> k \<and> k < l \<and> v = cell \<sigma> a k \<and> taggable (cell \<sigma> a k))"
  by (auto simp: cell_sem_def sem_simps split: option.splits)

lemma unary_sem_eq_Some [sem_simps]:
  "unary_sem k i = Some v \<longleftrightarrow> v = unary_constEval k i \<and> taggable v"
  by (auto simp: unary_sem_def sem_simps)

lemma binary_sem_eq_Some [sem_simps]:
  "binary_sem k i j = Some v \<longleftrightarrow> binary_constEval k i j = Inr v \<and> taggable v"
  by (auto simp: binary_sem_def sem_simps split: sum.splits)

lemma lift_list_eq_Some [sem_simps]:
  "lift_list f xs = Some v \<longleftrightarrow> None \<notin> set xs \<and> f (map the xs) = Some v"
  by (simp add: lift_list_def)

lemma nary_sem_taggable: "nary_sem k vs = Some v \<Longrightarrow> taggable v"
proof (cases k)
  case PlusExpr
  moreover have "\<bar>sum_list vs\<bar> \<le> sum_list (map abs vs)" by (rule sum_list_abs)
  ultimately show "nary_sem k vs = Some v \<Longrightarrow> ?thesis"
    by (auto simp: taggable_def split: if_splits)
next
  case MultExpr
  moreover have "\<bar>prod_list vs\<bar> \<le> prod_list (map (\<lambda>v. max 1 \<bar>v\<bar>) vs)"
    by (induction vs) (auto simp: abs_mult intro!: mult_mono)
  ultimately show "nary_sem k vs = Some v \<Longrightarrow> ?thesis"
    by (auto simp: taggable_def split: if_splits)
qed

text \<open>Every value of the semantics is one a tagged constant can hold.\<close>

lemma isem_taggable: "isem \<sigma> e = Some v \<Longrightarrow> taggable v"
  by (cases e) (auto simp: sem_simps bind_eq_Some_conv taggable_def
       dest: nary_sem_taggable [unfolded taggable_def])

lemma isem_createConstant: "taggable c \<Longrightarrow> isem \<sigma> (createConstant c) = Some c"
  by (simp add: createConstant_def untag_tag_small chk_def)

section \<open>Semantics of rebuilt nodes\<close>

lemma nbool_sem_None_iff [sem_simps]: "nbool_sem k xs = None \<longleftrightarrow> None \<in> set xs"
  by (simp add: nbool_sem_def)

lemma nbool_sem_eq_Some [sem_simps]:
  "nbool_sem AndExpr xs = Some c \<longleftrightarrow> None \<notin> set xs \<and> (c \<longleftrightarrow> Some False \<notin> set xs)"
  "nbool_sem OrExpr xs = Some c \<longleftrightarrow> None \<notin> set xs \<and> (c \<longleftrightarrow> Some True \<in> set xs)"
  by (auto simp: nbool_sem_def)

text \<open>A three-valued result is determined by when it is undefined and when it is absorbing.\<close>

lemma image_iff_eq: "x \<in> f ` S \<longleftrightarrow> (\<exists>y\<in>S. f y = x)"
  by blast

lemma nbool_map_None: "nbool_sem k (map f ps) = None \<longleftrightarrow> (\<exists>b\<in>set ps. f b = None)"
  by (simp add: nbool_sem_def image_iff_eq)

lemma nbool_map_absorb:
  "nbool_sem k (map f ps) = Some (k = OrExpr) \<longleftrightarrow>
     (\<forall>b\<in>set ps. f b \<noteq> None) \<and> (\<exists>b\<in>set ps. f b = Some (k = OrExpr))"
  by (cases k) (simp_all add: nbool_sem_def image_iff_eq)

lemma bool_option_eqI:
  "(x = None \<longleftrightarrow> y = None) \<Longrightarrow> (x = Some z \<longleftrightarrow> y = Some z) \<Longrightarrow> x = y" for x y :: "bool option"
  by (cases x; cases y; cases z) auto

lemma nbool_sem_set_cong: "set xs = set ys \<Longrightarrow> nbool_sem k xs = nbool_sem k ys"
  by (cases k) (simp_all add: nbool_sem_def)

lemma nary_of_type: "bool_getType b = nbool_type k \<Longrightarrow> b = NaryBoolExpr k (bool_params b)"
proof (cases b)
  case (NaryBoolExpr k' ps)
  then show "bool_getType b = nbool_type k \<Longrightarrow> ?thesis" by (cases k; cases k') simp_all
next
  case (BinaryBoolComp k' l r)
  then show "bool_getType b = nbool_type k \<Longrightarrow> ?thesis" by (cases k; cases k') simp_all
qed (cases k; simp)+

text \<open>Flattening nested operands of the same kind does not change the value.\<close>

lemma bsem_fuse:
  "bsem \<sigma> (NaryBoolExpr k (fuse_internals A (nbool_type k) ps)) = bsem \<sigma> (NaryBoolExpr k ps)"
proof -
  have elems: "set (fold (\<lambda>t q. fold (set_insert (bless A)) (bool_params t) q) ts qs)
      = (\<Union>t\<in>set ts. set (bool_params t)) \<union> set qs" for ts qs
    by (induction ts arbitrary: qs) (auto simp: stl_set.elems_fold)
  define kept where "kept = {b \<in> set ps. bool_getType b \<noteq> nbool_type k}"
  define fused where "fused = {b \<in> set ps. bool_getType b = nbool_type k}"
  have fuse: "set (fuse_internals A (nbool_type k) ps) = (\<Union>t\<in>fused. set (bool_params t)) \<union> kept"
    by (auto simp: fuse_internals_def Let_def elems kept_def fused_def)
  have ps: "set ps = fused \<union> kept" by (auto simp: kept_def fused_def)
  have sem: "bsem \<sigma> b = nbool_sem k (map (bsem \<sigma>) (bool_params b))" if "b \<in> fused" for b
    using nary_of_type [of b k] that bsem.simps(1) [of \<sigma> k "bool_params b"]
    by (simp add: fused_def)
  have none: "bsem \<sigma> b = None \<longleftrightarrow> (\<exists>q\<in>set (bool_params b). bsem \<sigma> q = None)" if "b \<in> fused" for b
    unfolding sem [OF that] by (rule nbool_map_None)
  have absorb: "bsem \<sigma> b = Some (k = OrExpr) \<longleftrightarrow> (\<forall>q\<in>set (bool_params b). bsem \<sigma> q \<noteq> None)
      \<and> (\<exists>q\<in>set (bool_params b). bsem \<sigma> q = Some (k = OrExpr))" if "b \<in> fused" for b
    unfolding sem [OF that] by (rule nbool_map_absorb)
  show ?thesis
  proof (rule bool_option_eqI [where z = "k = OrExpr"])
    show "bsem \<sigma> (NaryBoolExpr k (fuse_internals A (nbool_type k) ps)) = None
        \<longleftrightarrow> bsem \<sigma> (NaryBoolExpr k ps) = None"
      unfolding bsem.simps nbool_map_None fuse ps using none by blast
    show "bsem \<sigma> (NaryBoolExpr k (fuse_internals A (nbool_type k) ps)) = Some (k = OrExpr)
        \<longleftrightarrow> bsem \<sigma> (NaryBoolExpr k ps) = Some (k = OrExpr)"
      unfolding bsem.simps nbool_map_absorb fuse ps
    proof (rule conj_cong)
      show "(\<forall>b\<in>(\<Union>t\<in>fused. set (bool_params t)) \<union> kept. bsem \<sigma> b \<noteq> None)
          \<longleftrightarrow> (\<forall>b\<in>fused \<union> kept. bsem \<sigma> b \<noteq> None)"
        unfolding ball_Un ball_UN using none by metis
      assume defined: "\<forall>b\<in>fused \<union> kept. bsem \<sigma> b \<noteq> None"
      have "(\<exists>q\<in>set (bool_params b). bsem \<sigma> q = Some (k = OrExpr)) \<longleftrightarrow> bsem \<sigma> b = Some (k = OrExpr)"
        if b: "b \<in> fused" for b
      proof -
        from defined b have "bsem \<sigma> b \<noteq> None" by blast
        with none [OF b] have "\<forall>q\<in>set (bool_params b). bsem \<sigma> q \<noteq> None" by simp
        with absorb [OF b] show ?thesis by simp
      qed
      then show "(\<exists>b\<in>(\<Union>t\<in>fused. set (bool_params t)) \<union> kept. bsem \<sigma> b = Some (k = OrExpr))
          \<longleftrightarrow> (\<exists>b\<in>fused \<union> kept. bsem \<sigma> b = Some (k = OrExpr))"
        unfolding bex_Un bex_UN by blast
    qed
  qed
qed

lemma bsem_nbool_node: "bsem \<sigma> (nbool_node A k ps) = bsem \<sigma> (NaryBoolExpr k ps)"
proof (cases "\<exists>e. ps = [e]")
  case True
  then obtain e where "ps = [e]" by blast
  then show ?thesis
    by (cases k; cases "bsem \<sigma> e") (auto simp: nbool_node_eq nbool_sem_def)
next
  case False
  then have "nbool_node A k ps = NaryBoolExpr k (fuse_internals A (nbool_type k) ps)"
    by (auto simp: nbool_node_eq split: list.splits)
  then show ?thesis by (simp only: bsem_fuse)
qed

lemma bsem_nbool_node_set:
  "set ps = set qs \<Longrightarrow> bsem \<sigma> (nbool_node A k ps) = bsem \<sigma> (NaryBoolExpr k qs)"
  unfolding bsem_nbool_node bsem.simps by (rule nbool_sem_set_cong) simp

lemma bsem_comp_node: "bsem \<sigma> (comp_node k l r) = bsem \<sigma> (BinaryBoolComp k l r)"
  by (auto simp: comp_node_eq bin_opt_def split: option.splits)

lemma isem_nary_node: "isem \<sigma> (nary_node A k ps) = isem \<sigma> (NaryIntExpr k ps)"
  by (auto simp: nary_node_eq lift_list_def image_iff_eq intro!: bexI [of _ NDefExpr])

lemma isem_unary_node: "isem \<sigma> (unary_node k e) = isem \<sigma> (UnaryIntExpr k e)"
  by (auto simp: unary_node_eq)

lemma isem_binary_node: "isem \<sigma> (binary_node A k l r) = isem \<sigma> (BinaryIntExpr k l r)"
  by (auto simp: binary_node_eq bin_opt_def split: option.splits)

lemma nary_sem_mset_cong:
  assumes "mset vs = mset ws"
  shows "nary_sem k vs = nary_sem k ws"
proof (cases k)
  case PlusExpr
  have "sum_list (map f vs) = sum_list (map f ws)" for f :: "int \<Rightarrow> int"
    using assms by (metis mset_map sum_mset_sum_list)
  from this [of abs] this [of "\<lambda>v. v"] PlusExpr show ?thesis by simp
next
  case MultExpr
  have "prod_list (map f vs) = prod_list (map f ws)" for f :: "int \<Rightarrow> int"
    using assms by (metis mset_map prod_mset_prod_list)
  from this [of "\<lambda>v. max 1 \<bar>v\<bar>"] this [of "\<lambda>v. v"] MultExpr show ?thesis by simp
qed

text \<open>The order of the operands of an n-ary expression does not matter.\<close>

lemma isem_Nary_mset_cong:
  assumes "mset ps = mset qs"
  shows "isem \<sigma> (NaryIntExpr k ps) = isem \<sigma> (NaryIntExpr k qs)"
proof -
  have "set ps = set qs" using assms by (rule mset_eq_setD)
  moreover have "mset (map the (map (isem \<sigma>) ps)) = mset (map the (map (isem \<sigma>) qs))"
    using assms by simp
  ultimately show ?thesis
    using nary_sem_mset_cong [of "map the (map (isem \<sigma>) ps)" "map the (map (isem \<sigma>) qs)" k]
    by (simp add: lift_list_def)
qed

lemma isem_createArrayAccess:
  "isem \<sigma> (ArrayVarExpr a i l) = Some v \<Longrightarrow> isem \<sigma> (createArrayAccess a i l) = Some v"
  by (cases i) (auto simp: createArrayAccess_def sem_simps Let_def chk_def split: if_splits)

lemma isem_wrap_result:
  "bsem \<sigma> b = Some c \<Longrightarrow> isem \<sigma> (wrap_result b) = Some (if c then 1 else 0)"
  by (cases b) (auto simp: isem_createConstant taggable_def)

section \<open>Semantics of constant operators\<close>

lemma taggable_not_TOP: "taggable v \<Longrightarrow> v \<noteq> TOP"
  by (auto simp: taggable_def INT_MAX_def)

lemma comp_constEval_sem:
  "taggable i \<Longrightarrow> taggable j \<Longrightarrow> comp_constEval k i j = comp_sem k i j"
  by (cases k)
     (auto simp: BoolEq_constEval_def BoolNeq_constEval_def BoolGeq_constEval_def
       BoolLeq_constEval_def BoolLt_constEval_def BoolGt_constEval_def dest: taggable_not_TOP)

lemma comp_sem_neg: "comp_sem (neg_comp k) i j \<longleftrightarrow> \<not> comp_sem k i j"
  by (cases k) auto

lemma plus_constEval_small:
  "\<bar>i\<bar> + \<bar>j\<bar> < 1073741824 \<Longrightarrow> nary_constEval PlusExpr i j = Inr (i + j)"
  by (auto simp: PlusExpr_constEval_def INT_MAX_def int32_def INT_MIN_def)

lemma mult_constEval_small:
  assumes "max 1 \<bar>i\<bar> * max 1 \<bar>j\<bar> < 1073741824"
  shows "nary_constEval MultExpr i j = Inr (i * j)"
proof -
  define a where "a = max 1 \<bar>i\<bar>"
  define b where "b = max 1 \<bar>j\<bar>"
  have ab: "1 \<le> a" "1 \<le> b" "\<bar>i\<bar> \<le> a" "\<bar>j\<bar> \<le> b" by (simp_all add: a_def b_def)
  have "a * 1 \<le> a * b" "1 * b \<le> a * b" using ab by (intro mult_mono; simp)+
  moreover have "\<bar>i * j\<bar> \<le> a * b" unfolding abs_mult using ab by (intro mult_mono) auto
  moreover have "a * b < 1073741824" using assms by (simp only: a_def b_def)
  ultimately have "\<bar>i\<bar> < 1073741824" "\<bar>j\<bar> < 1073741824" "\<bar>i * j\<bar> < 1073741824"
    using ab by linarith+
  then show ?thesis
    by (auto simp: MultExpr_constEval_def INT_MAX_def int32_def INT_MIN_def intro!: wrap32_id)
qed

end
