(* ===== verification/Gal_Sound.thy ===== *)
theory Gal_Sound imports Gal_Semantics begin

text \<open>
  Soundness of the simplifier: \<open>pushNegations\<close>, \<open>eval\<close>, \<open>operator&\<close> and \<open>reindexVariables\<close> keep every
  value the reference semantics defines, and return normally (no throw, no undefined operation)
  wherever it does.
\<close>

section \<open>Folding constants into an n-ary expression\<close>

text \<open>
  What \<open>NaryIntExpr::eval\<close> needs of an n-ary operator \<open>f\<close>: it is a commutative monoid, the constant
  evaluation computes it while weights stay in range, and weights are subadditive, so that any
  reordering of the operands stays in range.
\<close>

locale constant_folding =
  fixes k :: NaryIntClass
    and f :: "int \<Rightarrow> int \<Rightarrow> int" and u :: int
    and comb :: "int \<Rightarrow> int \<Rightarrow> int" and wu :: int and wt :: "int \<Rightarrow> int"
  assumes sem: "nary_sem k vs =
      (if foldr (\<lambda>v w. comb (wt v) w) vs wu < 1073741824 then Some (foldr f vs u) else None)"
    and neutral: "getNeutralElement k = u"
    and f_assoc: "f (f a b) c = f a (f b c)" and f_comm: "f a b = f b a" and f_unit: "f u a = a"
    and comb_assoc: "comb (comb a b) c = comb a (comb b c)" and comb_comm: "comb a b = comb b a"
    and comb_unit: "comb wu a = a"
    and comb_mono: "wu \<le> a \<Longrightarrow> a \<le> a' \<Longrightarrow> wu \<le> b \<Longrightarrow> b \<le> b' \<Longrightarrow> comb a b \<le> comb a' b'"
    and wt_ge: "wu \<le> wt a" and wt_unit: "wt u = wu"
    and wt_f: "wt (f a b) \<le> comb (wt a) (wt b)"
    and abs_le_wt: "\<bar>a\<bar> \<le> wt a"
    and ceval: "comb (wt a) (wt b) < 1073741824 \<Longrightarrow> nary_constEval k a b = Inr (f a b)"
begin

definition V :: "int list \<Rightarrow> int" where "V vs = foldr f vs u"
definition W :: "int list \<Rightarrow> int" where "W vs = foldr (\<lambda>v w. comb (wt v) w) vs wu"

lemma V_simps [simp]: "V [] = u" "V (v # vs) = f v (V vs)"
  by (simp_all add: V_def)

lemma W_simps [simp]: "W [] = wu" "W (v # vs) = comb (wt v) (W vs)"
  by (simp_all add: W_def)

lemma sem_VW: "nary_sem k vs = (if W vs < 1073741824 then Some (V vs) else None)"
  by (simp add: sem V_def W_def)

lemma f_left_comm: "f a (f b c) = f b (f a c)"
  by (metis f_assoc f_comm)

lemma comb_left_comm: "comb a (comb b c) = comb b (comb a c)"
  by (metis comb_assoc comb_comm)

lemma comb_ge: "wu \<le> a \<Longrightarrow> wu \<le> b \<Longrightarrow> a \<le> comb a b"
  by (metis comb_comm comb_mono comb_unit order_refl)

lemma W_ge: "wu \<le> W vs"
proof (induction vs)
  case (Cons v vs)
  have "wt v \<le> comb (wt v) (W vs)" by (rule comb_ge [OF wt_ge Cons.IH])
  then show ?case using wt_ge [of v] by simp
qed simp

lemma V_ms_insert: "V (map g (ms_insert lt x xs)) = f (g x) (V (map g xs))"
  by (induction xs) (auto simp: f_left_comm)

lemma W_ms_insert: "W (map g (ms_insert lt x xs)) = comb (wt (g x)) (W (map g xs))"
  by (induction xs) (auto simp: comb_left_comm)

text \<open>The loop: the operands \<open>rs\<close> have the values \<open>vs\<close>; \<open>c\<close> is the constant so far, \<open>p\<close> the operands kept.\<close>

lemma nary_loop_sound:
  assumes "list_all2 (\<lambda>r v. \<exists>e. r = Inr e \<and> isem \<sigma> e = Some v) rs vs"
    and "\<forall>e\<in>set p. isem \<sigma> e \<noteq> None"
    and "comb (wt c) (comb (W (map (the \<circ> isem \<sigma>) p)) (W vs)) < 1073741824"
  shows "\<exists>c' p'. nary_loop A k rs c p = Inr (Some (c', p')) \<and> (\<forall>e\<in>set p'. isem \<sigma> e \<noteq> None)
      \<and> f c' (V (map (the \<circ> isem \<sigma>) p')) = f c (f (V (map (the \<circ> isem \<sigma>) p)) (V vs))
      \<and> comb (wt c') (W (map (the \<circ> isem \<sigma>) p'))
          \<le> comb (wt c) (comb (W (map (the \<circ> isem \<sigma>) p)) (W vs))"
  using assms
proof (induction rs arbitrary: vs c p)
  case Nil
  then show ?case by (simp add: f_comm [of _ u] f_unit comb_comm [of _ wu] comb_unit)
next
  case (Cons r rs)
  from Cons.prems(1) obtain v vs' e where vs: "vs = v # vs'" and r: "r = Inr e"
    and e: "isem \<sigma> e = Some v"
    and rest: "list_all2 (\<lambda>r v. \<exists>e. r = Inr e \<and> isem \<sigma> e = Some v) rs vs'"
    by (auto simp: list_all2_Cons1)
  let ?P = "W (map (the \<circ> isem \<sigma>) p)"
  show ?case
  proof (cases "\<exists>t. e = ConstTag t")
    case True
    then obtain t where t: "e = ConstTag t" by blast
    with e have v: "untag_const t = v" by (simp add: sem_simps)
    have total: "comb (wt c) (comb ?P (W vs)) = comb (comb (wt c) (wt v)) (comb ?P (W vs'))"
      by (simp add: vs comb_assoc comb_left_comm)
    have ge: "wu \<le> comb (wt c) (wt v)" "wu \<le> comb ?P (W vs')"
      using order_trans [OF wt_ge comb_ge [OF wt_ge wt_ge]] order_trans [OF W_ge comb_ge [OF W_ge W_ge]]
      by simp_all
    have "comb (wt c) (wt v) < 1073741824"
      using comb_ge [OF ge] Cons.prems(3) total by linarith
    then have step: "nary_loop A k (r # rs) c p = nary_loop A k rs (f c v) p"
      by (simp add: r t v ceval)
    have le: "comb (wt (f c v)) (comb ?P (W vs')) \<le> comb (wt c) (comb ?P (W vs))"
      unfolding total by (intro comb_mono wt_f wt_ge ge order_refl)
    have "comb (wt (f c v)) (comb ?P (W vs')) < 1073741824"
      using le Cons.prems(3) by linarith
    from Cons.IH [OF rest Cons.prems(2) this] obtain c' p'
      where ih: "nary_loop A k rs (f c v) p = Inr (Some (c', p'))" "\<forall>e\<in>set p'. isem \<sigma> e \<noteq> None"
        "f c' (V (map (the \<circ> isem \<sigma>) p')) = f (f c v) (f (V (map (the \<circ> isem \<sigma>) p)) (V vs'))"
        "comb (wt c') (W (map (the \<circ> isem \<sigma>) p')) \<le> comb (wt (f c v)) (comb ?P (W vs'))"
      by blast
    have "f (f c v) (f (V (map (the \<circ> isem \<sigma>) p)) (V vs'))
        = f c (f (V (map (the \<circ> isem \<sigma>) p)) (V vs))"
      by (simp add: vs f_assoc f_left_comm)
    with ih(3) have "f c' (V (map (the \<circ> isem \<sigma>) p')) = f c (f (V (map (the \<circ> isem \<sigma>) p)) (V vs))"
      by (rule trans)
    with ih(1,2) order_trans [OF ih(4) le] show ?thesis unfolding step by blast
  next
    case False
    with e have step: "nary_loop A k (r # rs) c p = nary_loop A k rs c (ms_insert (iless A) e p)"
      by (cases e) (auto simp: r)
    have "\<forall>e\<in>set (ms_insert (iless A) e p). isem \<sigma> e \<noteq> None"
      using Cons.prems(2) e by auto
    from Cons.IH [OF rest this, of c] Cons.prems(3) show ?thesis
      unfolding step vs
      by (simp add: V_ms_insert W_ms_insert e f_assoc f_left_comm comb_assoc comb_left_comm)
  qed
qed

lemma nary_params_sound:
  assumes "nary_sem k vs = Some v"
    and "list_all2 (\<lambda>r v. \<exists>e. r = Inr e \<and> isem \<sigma> e = Some v) rs vs"
  shows "\<exists>c p. nary_loop A k rs (getNeutralElement k) [] = Inr (Some (c, p))
      \<and> isem \<sigma> (NaryIntExpr k (nary_params A k c p)) = Some v \<and> taggable c"
proof -
  from assms(1) have W: "W vs < 1073741824" and v: "v = V vs"
    by (auto simp: sem_VW split: if_splits)
  then obtain c p where loop: "nary_loop A k rs u [] = Inr (Some (c, p))"
    and p: "\<forall>e\<in>set p. isem \<sigma> e \<noteq> None"
    and val: "f c (V (map (the \<circ> isem \<sigma>) p)) = V vs"
    and le: "comb (wt c) (W (map (the \<circ> isem \<sigma>) p)) \<le> W vs"
    using nary_loop_sound [OF assms(2), of "[]" u A] by (auto simp: f_unit comb_unit wt_unit)
  have small: "comb (wt c) (W (map (the \<circ> isem \<sigma>) p)) < 1073741824"
    using le W by simp
  then have "taggable c"
    using comb_ge [OF wt_ge [of c] W_ge [of "map (the \<circ> isem \<sigma>) p"]] abs_le_wt [of c]
    by (simp add: taggable_def)
  then have const: "isem \<sigma> (createConstant c) = Some c" by (rule isem_createConstant)
  have "None \<notin> set (map (isem \<sigma>) p)" using p by (simp add: image_iff_eq)
  then have none: "None \<notin> set (map (isem \<sigma>) (nary_params A k c p))"
    using const by (auto simp: nary_params_def)
  have "map the (map (isem \<sigma>) ps) = map (the \<circ> isem \<sigma>) ps" for ps by simp
  moreover have "V (map (the \<circ> isem \<sigma>) (nary_params A k c p)) = V vs"
    using val const
    by (auto simp: nary_params_def neutral f_unit V_ms_insert [of "the \<circ> isem \<sigma>"])
  moreover have "W (map (the \<circ> isem \<sigma>) (nary_params A k c p)) < 1073741824"
    using small const
    by (auto simp: nary_params_def neutral comb_unit wt_unit W_ms_insert [of "the \<circ> isem \<sigma>"])
  ultimately have "isem \<sigma> (NaryIntExpr k (nary_params A k c p)) = Some v"
    using none by (simp only: isem.simps lift_list_def sem_VW v if_False if_True)
  with loop \<open>taggable c\<close> show ?thesis by (auto simp: neutral)
qed

end

interpretation plus: constant_folding PlusExpr "(+)" 0 "(+)" 0 abs
proof
  show "nary_sem PlusExpr vs =
      (if foldr (\<lambda>v w. \<bar>v\<bar> + w) vs 0 < 1073741824 then Some (foldr (+) vs 0) else None)" for vs
  proof -
    have "foldr (\<lambda>v w. \<bar>v\<bar> + w) vs 0 = sum_list (map abs vs)" by (induction vs) auto
    moreover have "foldr (+) vs 0 = sum_list vs" by (induction vs) auto
    ultimately show ?thesis by simp
  qed
  show "\<bar>a\<bar> + \<bar>b\<bar> < 1073741824 \<Longrightarrow> nary_constEval PlusExpr a b = Inr (a + b)" for a b
    by (rule plus_constEval_small)
qed auto

interpretation mult: constant_folding MultExpr "(*)" 1 "(*)" 1 "\<lambda>v. max 1 \<bar>v\<bar>"
proof
  show "nary_sem MultExpr vs =
      (if foldr (\<lambda>v w. max 1 \<bar>v\<bar> * w) vs 1 < 1073741824 then Some (foldr (*) vs 1) else None)" for vs
  proof -
    have "foldr (\<lambda>v w. max 1 \<bar>v\<bar> * w) vs 1 = prod_list (map (\<lambda>v. max 1 \<bar>v\<bar>) vs)"
      by (induction vs) auto
    moreover have "foldr (*) vs 1 = prod_list vs" by (induction vs) auto
    ultimately show ?thesis by simp
  qed
  show "max 1 \<bar>a * b\<bar> \<le> max 1 \<bar>a\<bar> * max 1 \<bar>b\<bar>" for a b :: int
    using mult_mono [of 1 "max 1 \<bar>a\<bar>" 1 "max 1 \<bar>b\<bar>"] mult_mono [of "\<bar>a\<bar>" "max 1 \<bar>a\<bar>" "\<bar>b\<bar>" "max 1 \<bar>b\<bar>"]
    by (simp add: abs_mult)
  show "1 \<le> a \<Longrightarrow> a \<le> a' \<Longrightarrow> 1 \<le> b \<Longrightarrow> b \<le> b' \<Longrightarrow> a * b \<le> a' * b'" for a a' b b' :: int
    by (rule mult_mono) auto
  show "max 1 \<bar>a\<bar> * max 1 \<bar>b\<bar> < 1073741824 \<Longrightarrow> nary_constEval MultExpr a b = Inr (a * b)" for a b
    by (rule mult_constEval_small)
qed (auto simp: mult_ac)

lemma nary_fold_sound:
  assumes "nary_sem k vs = Some v"
    and "list_all2 (\<lambda>r v. \<exists>e. r = Inr e \<and> isem \<sigma> e = Some v) rs vs"
  shows "\<exists>c p. nary_loop A k rs (getNeutralElement k) [] = Inr (Some (c, p))
      \<and> isem \<sigma> (NaryIntExpr k (nary_params A k c p)) = Some v \<and> taggable c"
  using assms plus.nary_params_sound mult.nary_params_sound by (cases k) blast+

section \<open>pushNegations\<close>

lemma bsem_NaryBool_fold:
  "bsem \<sigma> (nbool_node A k (fold (set_insert (bless A)) ps [])) = bsem \<sigma> (NaryBoolExpr k ps)"
  by (rule bsem_nbool_node_set) (simp add: stl_set.elems_fold)

lemma Some_map_Not_iff [simp]: "Some c = map_option Not x \<longleftrightarrow> x = Some (\<not> c)"
  by (cases x) auto

lemma nbool_sem_dual:
  "nbool_sem (dual_class k) (map (map_option Not) xs) = map_option Not (nbool_sem k xs)"
  by (cases k) (auto simp: nbool_sem_def image_iff)

lemma bsem_push_neg:
  "bsem \<sigma> (push_neg A neg b) = map_option (\<lambda>c. if neg then \<not> c else c) (bsem \<sigma> b)"
proof (induction A neg b rule: push_neg.induct)
  case (1 A neg k ps)
  have ops: "map (bsem \<sigma>) (map (push_neg A neg) ps)
      = (if neg then map (map_option Not) (map (bsem \<sigma>) ps) else map (bsem \<sigma>) ps)"
    using 1 by (auto simp: option.map_ident)
  show ?case
    unfolding push_neg.simps NotPusher_visitNary_def Let_def if_distrib [of "bsem \<sigma>"]
      bsem_NaryBool_fold bsem.simps(1) ops
    by (simp only: nbool_sem_dual option.map_ident if_True if_False not_True_eq_False
        not_False_eq_True split: if_split)
      (simp add: option.map_ident)
next
  case (2 A neg k l r)
  then show ?case
    by (auto simp: NotPusher_visitComp_def bsem_comp_node comp_sem_neg bin_opt_def
        split: option.splits)
next
  case (3 A neg b)
  then show ?case by (cases "bsem \<sigma> b") auto
qed auto

lemma bsem_pushNegations: "bsem \<sigma> (pushNegations A b) = bsem \<sigma> b"
  by (simp add: pushNegations_def bsem_push_neg option.map_ident)

section \<open>eval, class by class\<close>

abbreviation idef :: "valuation \<Rightarrow> pint res \<Rightarrow> int \<Rightarrow> bool" where
  "idef \<sigma> r v \<equiv> \<exists>e. r = Inr e \<and> isem \<sigma> e = Some v"

abbreviation bdef :: "valuation \<Rightarrow> pbool res \<Rightarrow> bool \<Rightarrow> bool" where
  "bdef \<sigma> r c \<equiv> \<exists>b. r = Inr b \<and> bsem \<sigma> b = Some c"

lemma isem_NDefExpr_iff [simp]: "isem \<sigma> NDefExpr \<noteq> Some v" "bsem \<sigma> BoolNDefExpr \<noteq> Some c"
  by simp_all

lemma idef_ConstTag: "isem \<sigma> (ConstTag t) = Some v \<longleftrightarrow> untag_const t = v \<and> taggable v"
  by (auto simp: sem_simps)

lemma isem_Nary_single:
  "isem \<sigma> (NaryIntExpr k [e]) = Some v \<Longrightarrow> isem \<sigma> e = Some v"
  by (cases k) (auto simp: sem_simps split: if_splits)

text \<open>A single operand is returned as it is, several make a node.\<close>

lemma isem_nary_result:
  assumes "isem \<sigma> (NaryIntExpr k ps) = Some v"
  shows "idef \<sigma> (case ps of [e] \<Rightarrow> Inr e | _ \<Rightarrow> int_createNary A (nary_type k) ps) v"
proof (cases "\<exists>e. ps = [e]")
  case True
  with assms isem_Nary_single show ?thesis by auto
next
  case False
  have "isem \<sigma> (nary_node A k ps) = Some v" using assms by (simp add: isem_nary_node)
  moreover have "int_createNary A (nary_type k) ps = Inr (nary_node A k ps)"
    by (simp add: nary_node_eq int_createNary_class)
  ultimately show ?thesis using False by (auto split: list.splits)
qed

lemma NaryIntExpr_eval_sound:
  assumes "nary_sem k vs = Some v" "list_all2 (idef \<sigma>) rs vs"
  shows "idef \<sigma> (NaryIntExpr_eval A k rs) v"
proof -
  obtain c p where "nary_loop A k rs (getNeutralElement k) [] = Inr (Some (c, p))"
    and "isem \<sigma> (NaryIntExpr k (nary_params A k c p)) = Some v"
    using nary_fold_sound [OF assms] by blast
  then show ?thesis
    using isem_nary_result [of \<sigma> k "nary_params A k c p" v A]
    by (auto simp: NaryIntExpr_eval_def split: list.splits)
qed

lemma UnaryIntExpr_eval_sound:
  assumes "unary_sem k i = Some v" "idef \<sigma> r i"
  shows "idef \<sigma> (UnaryIntExpr_eval k r) v"
proof -
  from assms(2) obtain l where l: "r = Inr l" "isem \<sigma> l = Some i" by blast
  have "int_createUnary (unary_type k) l = Inr (unary_node k l)"
    by (simp add: unary_node_eq int_createUnary_class)
  moreover have "isem \<sigma> (unary_node k l) = Some v"
    using l assms(1) by (simp add: isem_unary_node)
  ultimately show ?thesis
    using l assms(1)
    by (cases l) (auto simp: UnaryIntExpr_eval_def idef_ConstTag sem_simps intro!: isem_createConstant)
qed

lemma BinaryIntExpr_eval_sound:
  assumes "binary_sem k i j = Some v" "idef \<sigma> rl i" "idef \<sigma> rr j"
  shows "idef \<sigma> (BinaryIntExpr_eval A k rl rr) v"
proof -
  from assms(2,3) obtain l r where lr: "rl = Inr l" "isem \<sigma> l = Some i" "rr = Inr r" "isem \<sigma> r = Some j"
    by blast
  have node: "int_createBinary A (binary_type k) l r = Inr (binary_node A k l r)"
    by (simp add: binary_node_eq int_createBinary_class)
  have sem: "isem \<sigma> (binary_node A k l r) = Some v"
    using lr assms(1) by (simp add: isem_binary_node bin_opt_def)
  have ndef: "l \<noteq> NDefExpr" "r \<noteq> NDefExpr" using lr by auto
  show ?thesis
  proof (cases "\<exists>t1 t2. l = ConstTag t1 \<and> r = ConstTag t2")
    case True
    with lr assms(1) show ?thesis
      by (auto simp: BinaryIntExpr_eval_def idef_ConstTag sem_simps intro!: isem_createConstant)
  next
    case False
    with ndef node have "BinaryIntExpr_eval A k rl rr = Inr (binary_node A k l r)"
      by (auto simp: BinaryIntExpr_eval_def lr split: pint.splits)
    with sem show ?thesis by blast
  qed
qed

lemma BinaryBoolComp_eval_sound:
  assumes "idef \<sigma> rl i" "idef \<sigma> rr j"
  shows "bdef \<sigma> (BinaryBoolComp_eval k rl rr) (comp_sem k i j)"
proof -
  from assms obtain l r where lr: "rl = Inr l" "isem \<sigma> l = Some i" "rr = Inr r" "isem \<sigma> r = Some j"
    by blast
  have node: "createComparison (comp_type k) l r = Inr (comp_node k l r)"
    by (simp add: comp_node_eq createComparison_class)
  have sem: "bsem \<sigma> (comp_node k l r) = Some (comp_sem k i j)"
    using lr by (simp add: bsem_comp_node bin_opt_def)
  have ndef: "l \<noteq> NDefExpr" "r \<noteq> NDefExpr" using lr by auto
  show ?thesis
  proof (cases "\<exists>t1 t2. l = ConstTag t1 \<and> r = ConstTag t2")
    case True
    with lr show ?thesis
      by (auto simp: BinaryBoolComp_eval_def comp_constEval_sem sem_simps)
  next
    case False
    with ndef node have "BinaryBoolComp_eval k rl rr = Inr (comp_node k l r)"
      by (auto simp: BinaryBoolComp_eval_def lr split: pint.splits)
    with sem show ?thesis by blast
  qed
qed

lemma ArrayVarExpr_eval_sound:
  assumes "cell_sem \<sigma> a l (Some j) = Some v" "isem \<sigma> i = Some j" "idef \<sigma> r j"
  shows "idef \<sigma> (ArrayVarExpr_eval a i l r) v"
  using assms isem_createArrayAccess by (auto simp: ArrayVarExpr_eval_def)

lemma WrapBoolExpr_eval_sound:
  assumes "bdef \<sigma> r c"
  shows "idef \<sigma> (WrapBoolExpr_eval A r) (if c then 1 else 0)"
  using assms isem_wrap_result [of \<sigma> _ c] by (auto simp: WrapBoolExpr_eval_def bsem_pushNegations)

lemma NotExpr_eval_sound: "bdef \<sigma> r c \<Longrightarrow> bdef \<sigma> (NotExpr_eval r) (\<not> c)"
  by (auto simp: NotExpr_eval_def split: pbool.splits)

text \<open>
  \<open>NaryBoolExpr::eval\<close>: operands equal to the neutral constant are dropped, the absorbing constant
  decides the result, and two operands of which one evaluates to the negation of the other are
  absorbed as well.
\<close>

lemma nbool_loop_sound:
  assumes "list_all2 (bdef \<sigma>) rs cs" "\<forall>b\<in>set p. bsem \<sigma> b \<noteq> None"
  shows "(\<exists>e. nbool_loop A k rs p h = Inr (Inl e) \<and> bsem \<sigma> e = Some (k = OrExpr) \<and> (k = OrExpr) \<in> set cs)
    \<or> (\<exists>p'. nbool_loop A k rs p h = Inr (Inr (p', h)) \<and> (\<forall>b\<in>set p'. bsem \<sigma> b \<noteq> None)
         \<and> nbool_sem k (map (bsem \<sigma>) p') = nbool_sem k (map (bsem \<sigma>) p @ map Some cs))"
  using assms
proof (induction rs arbitrary: cs p)
  case (Cons r rs)
  from Cons.prems(1) obtain c cs' e where cs: "cs = c # cs'" and r: "r = Inr e"
    and e: "bsem \<sigma> e = Some c" and rest: "list_all2 (bdef \<sigma>) rs cs'"
    by (auto simp: list_all2_Cons1)
  show ?case
  proof (cases "\<exists>val. e = BoolConstExpr val")
    case True
    with e have val: "e = BoolConstExpr c" by auto
    have "nbool_sem k (map (bsem \<sigma>) p @ map Some cs) = nbool_sem k (map (bsem \<sigma>) p @ map Some cs')"
      if "c \<noteq> (k = OrExpr)"
      using that by (cases k) (auto simp: nbool_sem_def cs)
    with Cons.IH [OF rest Cons.prems(2)] val e show ?thesis
      by (cases "c = (k = OrExpr)") (cases k; auto simp: r cs)+
  next
    case False
    let ?q = "set_insert (bless A) e p"
    have q: "\<forall>b\<in>set ?q. bsem \<sigma> b \<noteq> None" using Cons.prems(2) e by auto
    have "nbool_sem k (map (bsem \<sigma>) ?q @ map Some cs') = nbool_sem k (map (bsem \<sigma>) p @ map Some cs)"
      by (rule nbool_sem_set_cong) (auto simp: cs e)
    moreover have "nbool_loop A k (r # rs) p h = nbool_loop A k rs ?q h"
      using False e by (cases e) (auto simp: r)
    ultimately show ?thesis using Cons.IH [OF rest q] by (auto simp: cs)
  qed
qed simp

lemma nbool_finish_sound:
  assumes sem: "nbool_sem k (map (bsem \<sigma>) p) = Some c"
    and noteval: "\<And>b d. b \<in> set p \<Longrightarrow> length p = 2 \<Longrightarrow> bsem \<sigma> b = Some d \<Longrightarrow> bdef \<sigma> (f b) (\<not> d)"
  shows "bdef \<sigma> (nbool_finish A k f p False) c"
proof -
  have node: "bool_createNary A (nbool_type k) p = Inr (nbool_node A k p)"
    by (simp add: nbool_node_eq bool_createNary_class)
  have val: "bsem \<sigma> (nbool_node A k p) = Some c" using sem by (simp add: bsem_nbool_node)
  consider "p = []" | b where "p = [b]" | a b where "p = [a, b]" | "length p > 2"
    by (cases p; cases "tl p"; cases "tl (tl p)") auto
  then show ?thesis
  proof cases
    case 1
    with sem show ?thesis by (cases k) (auto simp: nbool_finish_def nbool_sem_def)
  next
    case (2 b)
    with sem show ?thesis
      by (cases k; cases "bsem \<sigma> b") (auto simp: nbool_finish_def nbool_sem_def split: if_splits)
  next
    case (3 a b)
    with sem obtain d d' where ab: "bsem \<sigma> a = Some d'" "bsem \<sigma> b = Some d"
      by (cases "bsem \<sigma> a"; cases "bsem \<sigma> b") (auto simp: nbool_sem_def)
    have "bdef \<sigma> (f b) (\<not> d)" by (rule noteval) (simp_all add: 3 ab)
    then obtain n where n: "f b = Inr n" "bsem \<sigma> n = Some (\<not> d)" by blast
    have "c = (k = OrExpr)" if "a = n"
      using sem 3 ab n that by (cases k) (auto simp: nbool_sem_def)
    with 3 n node val show ?thesis by (auto simp: nbool_finish_def)
  next
    case 4
    with node val show ?thesis by (auto simp: nbool_finish_def)
  qed
qed

lemma NaryBoolExpr_eval_sound:
  assumes "nbool_sem k (map Some cs) = Some c" "list_all2 (bdef \<sigma>) rs cs"
    and "\<And>p b d. nbool_loop A k rs [] False = Inr (Inr (p, False)) \<Longrightarrow> b \<in> set p \<Longrightarrow> length p = 2
      \<Longrightarrow> bsem \<sigma> b = Some d \<Longrightarrow> bdef \<sigma> (f b) (\<not> d)"
  shows "bdef \<sigma> (NaryBoolExpr_eval A k rs f) c"
proof -
  consider (early) e where "nbool_loop A k rs [] False = Inr (Inl e)" "bsem \<sigma> e = Some (k = OrExpr)"
      "(k = OrExpr) \<in> set cs"
    | (all) p where "nbool_loop A k rs [] False = Inr (Inr (p, False))"
      "nbool_sem k (map (bsem \<sigma>) p) = nbool_sem k (map Some cs)"
    using nbool_loop_sound [OF assms(2), of "[]" A k False] by auto
  then show ?thesis
  proof cases
    case early
    then have "c = (k = OrExpr)"
      using assms(1) by (cases k) (auto simp: nbool_sem_def image_iff)
    with early show ?thesis by (auto simp: NaryBoolExpr_eval_def)
  next
    case (all p)
    have "bdef \<sigma> (nbool_finish A k f p False) c"
      using all assms(1,3) by (intro nbool_finish_sound) auto
    with all show ?thesis by (auto simp: NaryBoolExpr_eval_def)
  qed
qed

section \<open>eval\<close>

lemma list_all2_map_the:
  assumes "None \<notin> set (map g ps)" "\<And>p v. p \<in> set ps \<Longrightarrow> g p = Some v \<Longrightarrow> P (f p) v"
  shows "list_all2 P (map f ps) (map the (map g ps))"
  using assms by (induction ps) auto

lemma eval_sound_both:
  "isem \<sigma> e = Some v \<Longrightarrow> idef \<sigma> (eval_int A e) v"
  "bsem \<sigma> b = Some c \<Longrightarrow> bdef \<sigma> (eval_bool A b) c"
proof (induction A e and A b arbitrary: v and c rule: eval_int_eval_bool.induct)
  case (4 A b)
  then obtain c where "bsem \<sigma> b = Some c" "v = (if c then 1 else 0)" by auto
  with 4 WrapBoolExpr_eval_sound show ?case by simp
next
  case (5 A a i l)
  then obtain j where "isem \<sigma> i = Some j" by (auto simp: sem_simps)
  with 5 show ?case by (auto intro!: ArrayVarExpr_eval_sound)
next
  case (7 A k ps)
  from "7.prems" have none: "None \<notin> set (map (isem \<sigma>) ps)"
    and sem: "nary_sem k (map the (map (isem \<sigma>) ps)) = Some v"
    by (simp_all add: sem_simps)
  have "list_all2 (idef \<sigma>) (map (eval_int A) ps) (map the (map (isem \<sigma>) ps))"
    by (rule list_all2_map_the [OF none]) (rule "7.IH")
  from NaryIntExpr_eval_sound [OF sem this] show ?case by simp
next
  case (8 A k e)
  then obtain i where "isem \<sigma> e = Some i" "unary_sem k i = Some v" by (auto simp: bind_eq_Some_conv)
  with 8 UnaryIntExpr_eval_sound show ?case by simp
next
  case (9 A k l r)
  then obtain i j where "isem \<sigma> l = Some i" "isem \<sigma> r = Some j" "binary_sem k i j = Some v"
    by (auto simp: bin_opt_eq_Some)
  with 9 BinaryIntExpr_eval_sound show ?case by simp
next
  case (10 A k ps)
  from "10.prems" have none: "None \<notin> set (map (bsem \<sigma>) ps)"
    by (auto simp: nbool_sem_def split: if_splits)
  have ops: "map (bsem \<sigma>) ps = map Some (map the (map (bsem \<sigma>) ps))"
    using none by (induction ps) auto
  have sem: "nbool_sem k (map Some (map the (map (bsem \<sigma>) ps))) = Some c"
    using "10.prems" unfolding ops [symmetric] by simp
  have all: "list_all2 (bdef \<sigma>) (map (eval_bool A) ps) (map the (map (bsem \<sigma>) ps))"
    by (rule list_all2_map_the [OF none]) (rule "10.IH")
  have le: "sum_list (map (rsize bsize) (map (eval_bool A) ps)) \<le> sum_list (map bsize ps)"
    by (rule sum_rsize_map_le) (rule eval_size)
  show ?case
    unfolding eval_bool_Nary
  proof (rule NaryBoolExpr_eval_sound [OF sem all])
    fix p b d
    assume loop: "nbool_loop A k (map (eval_bool A) ps) [] False = Inr (Inr (p, False))"
      and p: "b \<in> set p" "length p = 2" and d: "bsem \<sigma> b = Some d"
    then obtain x y where xy: "p = [x, y]" by (auto simp: length_Suc_conv numeral_2_eq_2)
    then have "bsize x + bsize y \<le> sum_list (map bsize ps)"
      using order_trans [OF nbool_loop_size [OF loop]] le by simp
    moreover have "bsize b = bsize x \<or> bsize b = bsize y" using p xy by auto
    ultimately have "Suc (bsize b) \<le> sum_list (map bsize ps)"
      using size_pos(2) [of x] size_pos(2) [of y] by arith
    then have "bsize (NotExpr b) < bsize (NaryBoolExpr k ps)" by simp
    with "10.IH"(2) d show "bdef \<sigma> (eval_bool A (NotExpr b)) (\<not> d)" by simp
  qed
next
  case (11 A k l r)
  then obtain i j where "isem \<sigma> l = Some i" "isem \<sigma> r = Some j" "c = comp_sem k i j"
    by (auto simp: bin_opt_eq_Some)
  with 11 BinaryBoolComp_eval_sound show ?case by simp
next
  case (12 A b)
  then obtain d where "bsem \<sigma> b = Some d" "c = (\<not> d)" by auto
  with 12 NotExpr_eval_sound show ?case by simp
qed auto

end
