(* ===== verification/Gal_Rewrite.thy ===== *)
theory Gal_Rewrite imports Gal_Sound begin

text \<open>
  What the other rewriting operations do to the value of an expression: partial resolution under an
  assertion (\<open>operator&\<close>) and renaming of variables (\<open>reindexVariables\<close>); which variables matter to
  the value, and what \<open>eval\<close> answers when there are none.
\<close>

section \<open>operator&\<close>

lemma isem_getValue:
  assumes "isem \<sigma> (pfirst a) = isem \<sigma> (psecond a)"
  shows "isem \<sigma> (PAssertion_getValue a e) = isem \<sigma> e"
  using assms by (simp add: PAssertion_getValue_def)

text \<open>The loop of \<open>setAssertion\<close> computes what the loop of \<open>eval\<close> does, and whether anything changed.\<close>

lemma nbool_assert_loop_eq:
  "nbool_loop A k (map snd xs) p h =
     (case nbool_assert_loop A k xs p u h of
        Inl e \<Rightarrow> Inl e
      | Inr (Inl b) \<Rightarrow> Inr (Inl b)
      | Inr (Inr (p', u', h')) \<Rightarrow> Inr (Inr (p', h')))"
proof (induction xs arbitrary: p u h)
  case (Cons x xs)
  obtain it r where x: "x = (it, r)" by (cases x)
  show ?case
  proof (cases r)
    case (Inr b)
    with x Cons.IH show ?thesis by (cases b) simp_all
  qed (simp add: x)
qed simp

text \<open>Each step of \<open>setAssertion\<close> is the step of \<open>eval\<close> followed by a lookup of the rebuilt node.\<close>

lemma NaryIntExpr_setAssertion_sound:
  assumes holds: "isem \<sigma> (pfirst a) = isem \<sigma> (psecond a)"
    and "nary_sem k vs = Some v" "list_all2 (idef \<sigma>) rs vs"
  shows "idef \<sigma> (NaryIntExpr_setAssertion A k a rs) v"
proof -
  obtain c p where loop: "nary_loop A k rs (getNeutralElement k) [] = Inr (Some (c, p))"
    and sem: "isem \<sigma> (NaryIntExpr k (nary_params A k c p)) = Some v"
    using nary_fold_sound [OF assms(2,3)] by blast
  have node: "int_createNary A (nary_type k) ps = Inr (nary_node A k ps)" for ps
    by (simp add: nary_node_eq int_createNary_class)
  from sem have "isem \<sigma> (PAssertion_getValue a (nary_node A k (nary_params A k c p))) = Some v"
    by (simp add: isem_getValue [OF holds] isem_nary_node)
  with loop sem isem_Nary_single show ?thesis
    by (auto simp: NaryIntExpr_setAssertion_def node split: list.splits)
qed

lemma UnaryIntExpr_setAssertion_sound:
  assumes holds: "isem \<sigma> (pfirst a) = isem \<sigma> (psecond a)"
    and "unary_sem k i = Some v" "idef \<sigma> r i"
  shows "idef \<sigma> (UnaryIntExpr_setAssertion k a r) v"
proof -
  have "UnaryIntExpr_setAssertion k a r = UnaryIntExpr_eval k r
      \<or> (\<exists>e. UnaryIntExpr_eval k r = Inr e \<and> UnaryIntExpr_setAssertion k a r = Inr (PAssertion_getValue a e))"
    using assms(3)
    by (auto simp: UnaryIntExpr_setAssertion_def UnaryIntExpr_eval_def int_createUnary_class split: pint.splits)
  with UnaryIntExpr_eval_sound [OF assms(2,3)] show ?thesis by (auto simp: isem_getValue [OF holds])
qed

lemma BinaryIntExpr_setAssertion_sound:
  assumes holds: "isem \<sigma> (pfirst a) = isem \<sigma> (psecond a)"
    and "binary_sem k i j = Some v" "idef \<sigma> rl i" "idef \<sigma> rr j"
  shows "idef \<sigma> (BinaryIntExpr_setAssertion A k a rl rr) v"
proof -
  have "BinaryIntExpr_setAssertion A k a rl rr = BinaryIntExpr_eval A k rl rr
      \<or> (\<exists>e. BinaryIntExpr_eval A k rl rr = Inr e
           \<and> BinaryIntExpr_setAssertion A k a rl rr = Inr (PAssertion_getValue a e))"
    using assms(3,4)
    by (auto simp: BinaryIntExpr_setAssertion_def BinaryIntExpr_eval_def int_createBinary_class
        split: pint.splits)
  with BinaryIntExpr_eval_sound [OF assms(2-4), of A] show ?thesis by (auto simp: isem_getValue [OF holds])
qed

lemma ArrayVarExpr_setAssertion_sound:
  assumes holds: "isem \<sigma> (pfirst a) = isem \<sigma> (psecond a)"
    and "cell_sem \<sigma> x l (Some j) = Some v" "idef \<sigma> r j"
  shows "idef \<sigma> (ArrayVarExpr_setAssertion x l a r) v"
  using assms(2,3) isem_createArrayAccess
  by (auto simp: ArrayVarExpr_setAssertion_def isem_getValue [OF holds])

lemma comp_setAssertion_eval: "BinaryBoolComp_setAssertion = BinaryBoolComp_eval"
  by (intro ext) (simp add: BinaryBoolComp_setAssertion_def BinaryBoolComp_eval_def)

lemma not_setAssertion_eval: "NotExpr_setAssertion = NotExpr_eval"
  by (intro ext) (simp add: NotExpr_setAssertion_def NotExpr_eval_def)

lemma WrapBoolExpr_setAssertion_sound:
  "bdef \<sigma> r c \<Longrightarrow> idef \<sigma> (WrapBoolExpr_setAssertion r) (if c then 1 else 0)"
  using isem_wrap_result [of \<sigma> _ c] by (auto simp: WrapBoolExpr_setAssertion_def)

lemma NaryBoolExpr_setAssertion_sound:
  assumes sem: "nbool_sem k (map Some cs) = Some c" and ops: "list_all2 (bdef \<sigma>) (map snd xs) cs"
    and self: "bsem \<sigma> self = Some c"
  shows "bdef \<sigma> (NaryBoolExpr_setAssertion A k self xs) c"
proof -
  consider (early) e where "nbool_assert_loop A k xs [] False False = Inr (Inl e)"
      "bsem \<sigma> e = Some (k = OrExpr)" "(k = OrExpr) \<in> set cs"
    | (all) p u where "nbool_assert_loop A k xs [] False False = Inr (Inr (p, u, False))"
      "nbool_sem k (map (bsem \<sigma>) p) = nbool_sem k (map Some cs)"
    using nbool_loop_sound [OF ops, of "[]" A k False]
      nbool_assert_loop_eq [of A k xs "[]" False False]
    by (auto split: sum.splits prod.splits)
  then show ?thesis
  proof cases
    case early
    then have "c = (k = OrExpr)" using sem by (cases k) (auto simp: nbool_sem_def image_iff)
    with early show ?thesis by (auto simp: NaryBoolExpr_setAssertion_def)
  next
    case (all p u)
    have "bsem \<sigma> (nbool_node A k p) = Some c" using all sem by (simp add: bsem_nbool_node)
    then have "bdef \<sigma> (eval_bool A (nbool_node A k p)) c" by (rule eval_sound_both)
    moreover have "bool_createNary A (nbool_type k) p = Inr (nbool_node A k p)"
      by (simp add: nbool_node_eq bool_createNary_class)
    ultimately show ?thesis
      using all self by (auto simp: NaryBoolExpr_setAssertion_def)
  qed
qed

lemma assert_sound_both:
  "isem \<sigma> (pfirst a) = isem \<sigma> (psecond a) \<Longrightarrow> isem \<sigma> e = Some v \<Longrightarrow> idef \<sigma> (assert_int A a e) v"
  "isem \<sigma> (pfirst a) = isem \<sigma> (psecond a) \<Longrightarrow> bsem \<sigma> b = Some c \<Longrightarrow> bdef \<sigma> (assert_bool A a b) c"
proof (induction A a e and A a b arbitrary: v and c rule: assert_int_assert_bool.induct)
  case (4 A a b)
  then obtain c where "bsem \<sigma> b = Some c" "v = (if c then 1 else 0)" by auto
  with 4 WrapBoolExpr_setAssertion_sound show ?case by simp
next
  case (5 A a x i l)
  then obtain j where "isem \<sigma> i = Some j" by (auto simp: sem_simps)
  with 5 ArrayVarExpr_setAssertion_sound show ?case by simp
next
  case (7 A a k ps)
  from "7.prems"(2) have none: "None \<notin> set (map (isem \<sigma>) ps)"
    and sem: "nary_sem k (map the (map (isem \<sigma>) ps)) = Some v"
    by (simp_all add: sem_simps)
  have "list_all2 (idef \<sigma>) (map (assert_int A a) ps) (map the (map (isem \<sigma>) ps))"
    by (rule list_all2_map_the [OF none]) (rule "7.IH" [OF _ "7.prems"(1)])
  from NaryIntExpr_setAssertion_sound [OF "7.prems"(1) sem this] show ?case by simp
next
  case (8 A a k e)
  then obtain i where "isem \<sigma> e = Some i" "unary_sem k i = Some v" by (auto simp: bind_eq_Some_conv)
  with 8 UnaryIntExpr_setAssertion_sound show ?case by simp
next
  case (9 A a k l r)
  then obtain i j where "isem \<sigma> l = Some i" "isem \<sigma> r = Some j" "binary_sem k i j = Some v"
    by (auto simp: bin_opt_eq_Some)
  with 9 BinaryIntExpr_setAssertion_sound show ?case by simp
next
  case (10 A a k ps)
  from "10.prems"(2) have none: "None \<notin> set (map (bsem \<sigma>) ps)"
    by (auto simp: nbool_sem_def split: if_splits)
  have ops: "map (bsem \<sigma>) ps = map Some (map the (map (bsem \<sigma>) ps))"
    using none by (induction ps) auto
  have sem: "nbool_sem k (map Some (map the (map (bsem \<sigma>) ps))) = Some c"
    using "10.prems"(2) unfolding ops [symmetric] by simp
  have "list_all2 (bdef \<sigma>) (map snd (map (\<lambda>p. (p, assert_bool A a p)) ps)) (map the (map (bsem \<sigma>) ps))"
    unfolding map_map o_def snd_conv
    by (rule list_all2_map_the [OF none, unfolded map_map o_def]) (rule "10.IH" [OF _ "10.prems"(1)])
  from NaryBoolExpr_setAssertion_sound [OF sem this "10.prems"(2)] show ?case by simp
next
  case (11 A a k l r)
  then obtain i j where "isem \<sigma> l = Some i" "isem \<sigma> r = Some j" "c = comp_sem k i j"
    by (auto simp: bin_opt_eq_Some)
  with 11 BinaryBoolComp_eval_sound show ?case by (simp add: comp_setAssertion_eval)
next
  case (12 A a b)
  then obtain d where "bsem \<sigma> b = Some d" "c = (\<not> d)" by auto
  with 12 NotExpr_eval_sound show ?case by (simp add: not_setAssertion_eval)
qed (auto simp: isem_getValue)

section \<open>Which variables matter\<close>

lemma sem_coincidence:
  "(\<And>x. x \<in> vars_int e \<Longrightarrow> scalar \<sigma> x = scalar \<tau> x \<and> cell \<sigma> x = cell \<tau> x) \<Longrightarrow> isem \<sigma> e = isem \<tau> e"
  "(\<And>x. x \<in> vars_bool b \<Longrightarrow> scalar \<sigma> x = scalar \<tau> x \<and> cell \<sigma> x = cell \<tau> x) \<Longrightarrow> bsem \<sigma> b = bsem \<tau> b"
proof (induction \<sigma> e and \<sigma> b rule: isem_bsem.induct)
  case (7 \<sigma> k ps)
  have "map (isem \<sigma>) ps = map (isem \<tau>) ps" using 7 by (intro map_cong) auto
  then show ?case by (simp only: isem.simps)
next
  case (10 \<sigma> k ps)
  have "map (bsem \<sigma>) ps = map (bsem \<tau>) ps" using 10 by (intro map_cong) auto
  then show ?case by (simp only: bsem.simps)
next
  case (5 \<sigma> a i l)
  have "isem \<sigma> i = isem \<tau> i" "cell \<sigma> a = cell \<tau> a" using 5 by simp_all
  then show ?case by (cases "isem \<tau> i") (simp_all add: cell_sem_def)
qed auto

text \<open>\<open>getSupport\<close> marks the variables of the expression, in addition to what was marked.\<close>

lemma fold_marks:
  assumes "\<And>p m. p \<in> set ps \<Longrightarrow> length m = n \<Longrightarrow> length (g p m) = n \<and> (g p m ! i \<longleftrightarrow> m ! i \<or> P p)"
    and "length m = n"
  shows "fold g ps m ! i \<longleftrightarrow> m ! i \<or> (\<exists>p\<in>set ps. P p)"
  using assms
proof (induction ps arbitrary: m)
  case (Cons p ps)
  then have "length (g p m) = n" "g p m ! i \<longleftrightarrow> m ! i \<or> P p" by auto
  with Cons show ?case by auto
qed simp

lemma nat_eq_iff_int: "0 \<le> x \<Longrightarrow> nat x = i \<longleftrightarrow> int i = x"
  by auto

lemma getSupport_marks:
  "\<forall>x\<in>vars_int e. 0 \<le> x \<and> x < int (length m) \<Longrightarrow> i < length m
    \<Longrightarrow> getSupport_int e m ! i \<longleftrightarrow> m ! i \<or> int i \<in> vars_int e"
  "\<forall>x\<in>vars_bool b. 0 \<le> x \<and> x < int (length m) \<Longrightarrow> i < length m
    \<Longrightarrow> getSupport_bool b m ! i \<longleftrightarrow> m ! i \<or> int i \<in> vars_bool b"
proof (induction e m and b m rule: getSupport_int_getSupport_bool.induct)
  case (7 k ps m)
  have "fold getSupport_int ps m ! i \<longleftrightarrow> m ! i \<or> (\<exists>p\<in>set ps. int i \<in> vars_int p)"
    by (rule fold_marks [where n = "length m"]) (use 7 in auto)
  then show ?case by simp
next
  case (10 k ps m)
  have "fold getSupport_bool ps m ! i \<longleftrightarrow> m ! i \<or> (\<exists>p\<in>set ps. int i \<in> vars_bool p)"
    by (rule fold_marks [where n = "length m"]) (use 10 in auto)
  then show ?case by simp
qed (auto simp: nth_list_update split: if_splits)

lemma isSupport_vars:
  "isSupport_int v tid e \<Longrightarrow> v \<in> vars_int e"
  "isSupport_bool v tid b \<Longrightarrow> v \<in> vars_bool b"
  by (induction v tid e and v tid b rule: isSupport_int_isSupport_bool.induct)
     (auto simp: list_ex_iff)

section \<open>reindexVariables\<close>

text \<open>A cell \<open>v[i]\<close> stays a cell when renamed if its index is one a tagged constant can hold.\<close>

fun cells_int :: "pint \<Rightarrow> bool" and cells_bool :: "pbool \<Rightarrow> bool" where
  "cells_int (ArrayConstExpr a i) \<longleftrightarrow> 0 \<le> i \<and> taggable i"
| "cells_int (WrapBoolExpr b) \<longleftrightarrow> cells_bool b"
| "cells_int (ArrayVarExpr a i l) \<longleftrightarrow> cells_int i"
| "cells_int (NaryIntExpr k ps) \<longleftrightarrow> list_all cells_int ps"
| "cells_int (UnaryIntExpr k e) \<longleftrightarrow> cells_int e"
| "cells_int (BinaryIntExpr k l r) \<longleftrightarrow> cells_int l \<and> cells_int r"
| "cells_int e \<longleftrightarrow> True"
| "cells_bool (NaryBoolExpr k ps) \<longleftrightarrow> list_all cells_bool ps"
| "cells_bool (BinaryBoolComp k l r) \<longleftrightarrow> cells_int l \<and> cells_int r"
| "cells_bool (NotExpr b) \<longleftrightarrow> cells_bool b"
| "cells_bool b \<longleftrightarrow> True"

definition renamed :: "valuation \<Rightarrow> int list \<Rightarrow> valuation \<Rightarrow> int set \<Rightarrow> bool" where
  "renamed \<sigma> ix \<tau> X \<longleftrightarrow>
     (\<forall>x\<in>X. scalar \<tau> (ix ! nat x) = scalar \<sigma> x \<and> cell \<tau> (ix ! nat x) = cell \<sigma> x)"

lemma renamed_Un [simp]: "renamed \<sigma> ix \<tau> (X \<union> Y) \<longleftrightarrow> renamed \<sigma> ix \<tau> X \<and> renamed \<sigma> ix \<tau> Y"
  by (auto simp: renamed_def)

lemma renamed_insert [simp]:
  "renamed \<sigma> ix \<tau> (insert x X) \<longleftrightarrow>
     scalar \<tau> (ix ! nat x) = scalar \<sigma> x \<and> cell \<tau> (ix ! nat x) = cell \<sigma> x \<and> renamed \<sigma> ix \<tau> X"
  by (auto simp: renamed_def)

lemma renamed_UN [simp]: "renamed \<sigma> ix \<tau> (\<Union>p\<in>S. f p) \<longleftrightarrow> (\<forall>p\<in>S. renamed \<sigma> ix \<tau> (f p))"
  by (auto simp: renamed_def)

lemma isem_nary_reindex:
  "isem \<sigma> (NaryIntExpr_reindexVariables A k ps) = isem \<sigma> (NaryIntExpr k ps)"
  unfolding NaryIntExpr_reindexVariables_def isem_nary_node
  by (rule isem_Nary_mset_cong) (simp add: stl_multiset.bag_fold)

lemma bsem_nary_reindex:
  "bsem \<sigma> (NaryBoolExpr_reindexVariables A k ps) = bsem \<sigma> (NaryBoolExpr k ps)"
  unfolding NaryBoolExpr_reindexVariables_def by (rule bsem_NaryBool_fold)

lemma isem_cell_reindex:
  assumes "0 \<le> i" "taggable i"
  shows "isem \<tau> (ArrayConstExpr_reindexVariables ix a i) = chk (cell \<tau> (ix ! nat a) i)"
  using assms
  by (simp add: ArrayConstExpr_reindexVariables_def createArrayAccess_def createConstant_def
      untag_tag_small taggable_def int32_def INT_MIN_def INT_MAX_def)

lemma list_all2_sem_map:
  "(\<And>p v. p \<in> set ps \<Longrightarrow> g p = Some v \<Longrightarrow> h (f p) = Some v) \<Longrightarrow> None \<notin> set (map g ps)
    \<Longrightarrow> map h (map f ps) = map g ps"
proof -
  assume hf: "\<And>p v. p \<in> set ps \<Longrightarrow> g p = Some v \<Longrightarrow> h (f p) = Some v" and none: "None \<notin> set (map g ps)"
  have "h (f p) = g p" if "p \<in> set ps" for p
    using hf [OF that] none that by (cases "g p") (auto simp: image_iff)
  then show ?thesis by simp
qed

lemma reindex_sound:
  "renamed \<sigma> ix \<tau> (vars_int e) \<Longrightarrow> cells_int e \<Longrightarrow> isem \<sigma> e = Some v
    \<Longrightarrow> isem \<tau> (reindex_int A ix e) = Some v"
  "renamed \<sigma> ix \<tau> (vars_bool b) \<Longrightarrow> cells_bool b \<Longrightarrow> bsem \<sigma> b = Some c
    \<Longrightarrow> bsem \<tau> (reindex_bool A ix b) = Some c"
proof (induction A ix e and A ix b arbitrary: v and c rule: reindex_int_reindex_bool.induct)
  case (1 A ix x)
  then show ?case by (auto simp: VarExpr_reindexVariables_def Let_def)
next
  case (5 A ix a i l)
  then show ?case
    by (auto simp: ArrayVarExpr_reindexVariables_def sem_simps intro!: isem_createArrayAccess)
next
  case (7 A ix k ps)
  from "7.prems"(3) have none: "None \<notin> set (map (isem \<sigma>) ps)" by (simp add: sem_simps)
  have "map (isem \<tau>) (map (reindex_int A ix) ps) = map (isem \<sigma>) ps"
    using "7.prems" by (intro list_all2_sem_map [OF _ none] "7.IH") (auto simp: list_all_iff)
  with "7.prems"(3) show ?case by (simp only: reindex_int.simps isem_nary_reindex isem.simps)
next
  case (8 A ix k e)
  then show ?case by (auto simp: isem_unary_node bind_eq_Some_conv)
next
  case (9 A ix k l r)
  then show ?case by (auto simp: isem_binary_node bin_opt_eq_Some)
next
  case (10 A ix k ps)
  from "10.prems"(3) have none: "None \<notin> set (map (bsem \<sigma>) ps)"
    by (auto simp: nbool_sem_def split: if_splits)
  have "map (bsem \<tau>) (map (reindex_bool A ix) ps) = map (bsem \<sigma>) ps"
    using "10.prems" by (intro list_all2_sem_map [OF _ none] "10.IH") (auto simp: list_all_iff)
  with "10.prems"(3) show ?case by (simp only: reindex_bool.simps bsem_nary_reindex bsem.simps)
next
  case (11 A ix k l r)
  then show ?case by (auto simp: bsem_comp_node bin_opt_eq_Some)
next
  case (6 A ix a i)
  then show ?case by (simp add: isem_cell_reindex)
next
  case (4 A ix b)
  then obtain d where "bsem \<sigma> b = Some d" "v = (if d then 1 else 0)" by auto
  with 4 show ?case by simp
next
  case (12 A ix b)
  then obtain d where "bsem \<sigma> b = Some d" "c = (\<not> d)" by auto
  with 12 show ?case by simp
qed simp_all

section \<open>Expressions without variables\<close>

lemma nary_loop_consts:
  "nary_loop A k rs c [] = Inr (Some (c', p)) \<Longrightarrow> \<forall>r\<in>set rs. \<exists>t. r = Inr (ConstTag t) \<Longrightarrow> p = []"
  by (induction rs arbitrary: c) (auto elim!: rbind_InrE)

lemma nbool_loop_consts:
  "nbool_loop A k rs [] h = Inr (Inr (p, h')) \<Longrightarrow> \<forall>r\<in>set rs. \<exists>c. r = Inr (BoolConstExpr c) \<Longrightarrow> p = []"
  by (induction rs) (auto split: if_splits)

lemma NaryIntExpr_eval_consts:
  assumes "NaryIntExpr_eval A k rs = Inr e" "\<forall>r\<in>set rs. \<exists>t. r = Inr (ConstTag t)"
    and "isem \<sigma> e = Some v"
  shows "\<exists>t. e = ConstTag t"
proof -
  from assms(1) obtain out where out: "nary_loop A k rs (getNeutralElement k) [] = Inr out"
    and e: "(case out of None \<Rightarrow> Inr NDefExpr
       | Some (constant, p) \<Rightarrow>
           (case nary_params A k constant p of [e] \<Rightarrow> Inr e
            | ps \<Rightarrow> int_createNary A (nary_type k) ps)) = Inr e"
    unfolding NaryIntExpr_eval_def by (rule rbind_InrE)
  show ?thesis
  proof (cases out)
    case None
    with e assms(3) show ?thesis by auto
  next
    case (Some cp)
    obtain c p where "cp = (c, p)" by (cases cp)
    moreover from this Some out assms(2) have "p = []" using nary_loop_consts by blast
    ultimately show ?thesis using e Some by (auto simp: nary_params_def createConstant_def)
  qed
qed

lemma NaryBoolExpr_eval_consts:
  assumes "NaryBoolExpr_eval A k rs f = Inr b" "\<forall>r\<in>set rs. \<exists>c. r = Inr (BoolConstExpr c)"
    and "bsem \<sigma> b = Some d"
  shows "\<exists>c. b = BoolConstExpr c"
proof -
  from assms(1) obtain out where out: "nbool_loop A k rs [] False = Inr out"
    and b: "(case out of Inl e \<Rightarrow> Inr e | Inr (p, h) \<Rightarrow> nbool_finish A k f p h) = Inr b"
    unfolding NaryBoolExpr_eval_def by (rule rbind_InrE)
  show ?thesis
  proof (cases out)
    case (Inl e)
    with out b show ?thesis by (auto dest: nbool_loop_early)
  next
    case (Inr ph)
    obtain p h where "ph = (p, h)" by (cases ph)
    moreover from this Inr out assms(2) have "p = []" using nbool_loop_consts by blast
    ultimately show ?thesis using b Inr assms(3) by (auto simp: nbool_finish_def split: if_splits)
  qed
qed

lemma eval_closed:
  "isem \<sigma> e = Some v \<Longrightarrow> vars_int e = {} \<Longrightarrow> \<exists>t. eval_int A e = Inr (ConstTag t)"
  "bsem \<sigma> b = Some d \<Longrightarrow> vars_bool b = {} \<Longrightarrow> \<exists>c. eval_bool A b = Inr (BoolConstExpr c)"
proof (induction \<sigma> e and \<sigma> b arbitrary: v and d rule: isem_bsem.induct)
  case (4 \<sigma> b)
  then obtain c where "eval_bool A b = Inr (BoolConstExpr c)" by auto
  then show ?case by (simp add: WrapBoolExpr_eval_def pushNegations_def createConstant_def)
next
  case (7 \<sigma> k ps)
  have "\<forall>r\<in>set (map (eval_int A) ps). \<exists>t. r = Inr (ConstTag t)"
    using 7 by (force simp: sem_simps image_iff_eq)
  with eval_sound_both(1) [OF "7.prems"(1), of A] show ?case
    using NaryIntExpr_eval_consts [of A k "map (eval_int A) ps" _ \<sigma> v] by fastforce
next
  case (8 \<sigma> k e)
  then obtain i where "isem \<sigma> e = Some i" by (auto simp: bind_eq_Some_conv)
  with 8 obtain t where "eval_int A e = Inr (ConstTag t)" by auto
  then show ?case by (simp add: UnaryIntExpr_eval_def createConstant_def)
next
  case (9 \<sigma> k l r)
  from "9.prems"(1) obtain i j where ij: "isem \<sigma> l = Some i" "isem \<sigma> r = Some j"
    by (auto simp: bin_opt_eq_Some)
  with 9 obtain t u where lr: "eval_int A l = Inr (ConstTag t)" "eval_int A r = Inr (ConstTag u)"
    by fastforce
  with eval_sound_both(1) [OF "9.prems"(1), of A] show ?case
    by (auto simp: BinaryIntExpr_eval_def createConstant_def elim!: rbind_InrE)
next
  case (10 \<sigma> k ps)
  have "\<forall>r\<in>set (map (eval_bool A) ps). \<exists>c. r = Inr (BoolConstExpr c)"
    using 10 by (force simp: nbool_sem_def image_iff_eq split: if_splits)
  with eval_sound_both(2) [OF "10.prems"(1), of A] show ?case
    using NaryBoolExpr_eval_consts [of A k "map (eval_bool A) ps" _ _ \<sigma> d] by fastforce
next
  case (11 \<sigma> k l r)
  from "11.prems"(1) obtain i j where ij: "isem \<sigma> l = Some i" "isem \<sigma> r = Some j"
    by (auto simp: bin_opt_eq_Some)
  with 11 obtain t u where "eval_int A l = Inr (ConstTag t)" "eval_int A r = Inr (ConstTag u)"
    by fastforce
  then show ?case by (simp add: BinaryBoolComp_eval_def)
next
  case (12 \<sigma> b)
  then obtain c where "eval_bool A b = Inr (BoolConstExpr c)" by auto
  then show ?case by (simp add: NotExpr_eval_def)
qed simp_all

end
