(* ===== verification/Gal_Env.thy ===== *)
theory Gal_Env imports Gal_Rewrite begin

text \<open>
  Environments (\<open>its/gal/Environment.hpp\<close>): the list of global variable indexes that gives the
  variables \<open>0, 1, ...\<close> of a parametric expression their meaning. The merge of two environments,
  the alignment of an expression on a larger one (\<open>normalize\<close>), and the removal of unused entries
  (\<open>gc\<close>); then: all of them keep the value of the expression.
\<close>

type_synonym env = "int list"

section \<open>The operations\<close>

fun indexOf :: "int \<Rightarrow> env \<Rightarrow> int" where
  "indexOf name [] = - 1"
| "indexOf name (x # xs) =
     (if x = name then 0 else (let i = indexOf name xs in if i = - 1 then - 1 else i + 1))"

text \<open>The loop of \<open>supersets\<close> runs while neither list is exhausted; both tests for an exhausted
  list are inside it.\<close>

fun supersets :: "env \<Rightarrow> env \<Rightarrow> bool" where
  "supersets (a # as) (b # bs) =
     (if a = b then supersets as bs
      else if a > b then False
      else supersets as (b # bs))"
| "supersets as bs = True"

fun sorted_union :: "env \<Rightarrow> env \<Rightarrow> env" where
  "sorted_union [] [] = []"
| "sorted_union [] (b # bs) = b # sorted_union [] bs"
| "sorted_union (a # as) [] = a # sorted_union as []"
| "sorted_union (a # as) (b # bs) =
     (if b < a then b # sorted_union (a # as) bs
      else if a < b then a # sorted_union as (b # bs)
      else a # sorted_union as bs)"

text \<open>\<open>reindex\<close>: the new index of each entry, and whether one of them moved.\<close>

fun reindex_loop :: "env \<Rightarrow> env \<Rightarrow> int \<Rightarrow> bool \<Rightarrow> int list \<times> bool" where
  "reindex_loop [] newenv cnt shouldRewrite = ([], shouldRewrite)"
| "reindex_loop (x # xs) newenv cnt shouldRewrite =
     (let i = indexOf x newenv;
          (res, rw) = reindex_loop xs newenv (cnt + 1) (shouldRewrite \<or> cnt \<noteq> i)
      in (i # res, rw))"

definition reindex :: "env \<Rightarrow> env \<Rightarrow> bool \<Rightarrow> int list \<times> bool" where
  "reindex oldenv newenv shouldRewrite = reindex_loop oldenv newenv 0 shouldRewrite"

text \<open>\<open>gc\<close>: the entries kept, the permutation (\<open>-1\<close> for a dropped entry), and whether to reindex.\<close>

fun gc_loop :: "env \<Rightarrow> bool list \<Rightarrow> int \<Rightarrow> int \<Rightarrow> env \<times> int list \<times> bool" where
  "gc_loop (x # xs) (m # ms) i pos =
     (if m
      then (let (newenv, perm, shouldreindex) = gc_loop xs ms (i + 1) (pos + 1)
            in (x # newenv, pos # perm, i \<noteq> pos \<or> shouldreindex))
      else (let (newenv, perm, shouldreindex) = gc_loop xs ms (i + 1) pos
            in (newenv, - 1 # perm, shouldreindex)))"
| "gc_loop xs ms i pos = ([], [], False)"

text \<open>The template \<open>gc<T>\<close>: \<open>getSupport\<close> and \<open>reindexVariables\<close> are those of the expression type.\<close>

definition gc ::
  "('e \<Rightarrow> bool list \<Rightarrow> bool list) \<Rightarrow> (int list \<Rightarrow> 'e \<Rightarrow> 'e) \<Rightarrow> 'e \<Rightarrow> env \<Rightarrow> 'e \<times> env" where
  "gc getSupport reindexVariables expr env =
     (let mark = getSupport expr (replicate (length env) False);
          (newenv, perm, shouldreindex) = gc_loop env mark 0 0
      in (if shouldreindex then reindexVariables perm expr else expr, newenv))"

text \<open>The template \<open>normalize<Expr, PExpr>\<close>.\<close>

definition normalize :: "(int list \<Rightarrow> 'e \<Rightarrow> 'e) \<Rightarrow> 'e \<Rightarrow> env \<Rightarrow> env \<Rightarrow> 'e" where
  "normalize reindexVariables expr env unione =
     (let (reindexl, rwl) = reindex env unione False
      in if rwl then reindexVariables reindexl expr else expr)"

section \<open>Environments as sorted sets\<close>

text \<open>Every environment the factories build is strictly increasing.\<close>

abbreviation env_ok :: "env \<Rightarrow> bool" where
  "env_ok \<equiv> sorted_wrt (<)"

lemma set_sorted_union [simp]: "set (sorted_union a b) = set a \<union> set b"
  by (induction a b rule: sorted_union.induct) auto

lemma sorted_union_ok: "env_ok a \<Longrightarrow> env_ok b \<Longrightarrow> env_ok (sorted_union a b)"
proof (induction a b rule: sorted_union.induct)
  case (4 a as b bs)
  then show ?case by (cases b a rule: linorder_cases) (fastforce simp: less_imp_neq)+
qed auto

lemma sorted_union_Nil [simp]: "sorted_union [] b = b" "sorted_union a [] = a"
proof -
  show "sorted_union [] b = b" by (induction b) simp_all
  show "sorted_union a [] = a" by (induction a) simp_all
qed

text \<open>What \<open>supersets\<close> decides: entries of \<open>b\<close> beyond the last entry of \<open>a\<close> are not looked for.\<close>

lemma supersets_iff:
  "env_ok a \<Longrightarrow> env_ok b \<Longrightarrow> supersets a b \<longleftrightarrow> (\<forall>x\<in>set b. x \<in> set a \<or> (\<forall>y\<in>set a. y < x))"
proof (induction a b rule: supersets.induct)
  case (1 a as b bs)
  have bs: "\<forall>x\<in>set bs. b < x" and as: "\<forall>y\<in>set as. a < y" using "1.prems" by simp_all
  show ?case
  proof (cases a b rule: linorder_cases)
    case less
    then have "\<forall>x\<in>set (b # bs). a < x" using bs by auto
    moreover have "supersets as (b # bs) \<longleftrightarrow> (\<forall>x\<in>set (b # bs). x \<in> set as \<or> (\<forall>y\<in>set as. y < x))"
      using "1.IH"(2) "1.prems" less by simp
    ultimately show ?thesis using less by (simp only: supersets.simps) (metis (no_types, lifting)
          less_irrefl not_less_iff_gr_or_eq set_ConsD list.set_intros(2) list.set_intros(1))
  next
    case equal
    have "supersets as bs \<longleftrightarrow> (\<forall>x\<in>set bs. x \<in> set as \<or> (\<forall>y\<in>set as. y < x))"
      using "1.IH"(1) "1.prems" equal by simp
    with equal bs show ?thesis by auto
  next
    case greater
    then have "b \<notin> set (a # as)" "\<not> a < b" using as by auto
    with greater show ?thesis by auto
  qed
qed auto

lemma supersets_complete: "env_ok a \<Longrightarrow> env_ok b \<Longrightarrow> set b \<subseteq> set a \<Longrightarrow> supersets a b"
  by (auto simp: supersets_iff)

section \<open>Indexes\<close>

lemma indexOf_cases:
  "indexOf x xs = - 1 \<and> x \<notin> set xs \<or> 0 \<le> indexOf x xs \<and> indexOf x xs < int (length xs) \<and> xs ! nat (indexOf x xs) = x"
  by (induction xs) (auto simp: Let_def nat_add_distrib)

lemma indexOf_mem:
  assumes "x \<in> set xs"
  shows "0 \<le> indexOf x xs" "indexOf x xs < int (length xs)" "xs ! nat (indexOf x xs) = x"
  using assms indexOf_cases [of x xs] by auto

lemma indexOf_None_iff: "indexOf x xs = - 1 \<longleftrightarrow> x \<notin> set xs"
proof
  assume "x \<notin> set xs"
  moreover have "nat (indexOf x xs) < length xs" if "0 \<le> indexOf x xs" "indexOf x xs < int (length xs)"
    using that by linarith
  ultimately show "indexOf x xs = - 1" using indexOf_cases [of x xs] nth_mem by metis
next
  assume "indexOf x xs = - 1"
  then show "x \<notin> set xs" using indexOf_mem(1) [of x xs] by linarith
qed

lemma reindex_loop_eq:
  "reindex_loop xs newenv cnt rw =
     (map (\<lambda>x. indexOf x newenv) xs, rw \<or> (\<exists>j<length xs. cnt + int j \<noteq> indexOf (xs ! j) newenv))"
proof (induction xs arbitrary: cnt rw)
  case (Cons x xs)
  show ?case
    by (simp add: Cons.IH Let_def Ex_less_Suc2 nth_Cons' algebra_simps)
qed simp

lemma nth_Cons_nat: "0 < k \<Longrightarrow> (x # xs) ! nat k = xs ! nat (k - 1)" for k :: int
  by (simp add: nth_Cons' nat_diff_distrib')

lemma gc_loop_spec:
  assumes "length ms = length xs" "gc_loop xs ms i pos = (newenv, perm, s)"
  shows "length perm = length xs"
    and "newenv = map fst (filter snd (zip xs ms))"
    and "j < length xs \<Longrightarrow> ms ! j \<Longrightarrow> pos \<le> perm ! j \<and> perm ! j < pos + int (length newenv)
      \<and> newenv ! nat (perm ! j - pos) = xs ! j"
    and "\<not> s \<Longrightarrow> j < length xs \<Longrightarrow> ms ! j \<Longrightarrow> perm ! j = i + int j"
proof -
  have "length perm = length xs \<and> newenv = map fst (filter snd (zip xs ms))
    \<and> (\<forall>j<length xs. ms ! j \<longrightarrow> pos \<le> perm ! j \<and> perm ! j < pos + int (length newenv)
        \<and> newenv ! nat (perm ! j - pos) = xs ! j)
    \<and> (\<not> s \<longrightarrow> (\<forall>j<length xs. ms ! j \<longrightarrow> perm ! j = i + int j))"
    using assms
  proof (induction xs ms i pos arbitrary: newenv perm s rule: gc_loop.induct)
    case (1 x xs m ms i pos)
    show ?case
    proof (cases m)
      case True
      obtain e p t where rec: "gc_loop xs ms (i + 1) (pos + 1) = (e, p, t)" by (metis prod_cases3)
      have "length ms = length xs" using "1.prems"(1) by simp
      note IH = "1.IH"(1) [OF True this rec]
      have len: "length p = length xs" and e: "e = map fst (filter snd (zip xs ms))"
        and new: "\<forall>j<length xs. ms ! j \<longrightarrow> pos + 1 \<le> p ! j \<and> p ! j < pos + 1 + int (length e)
          \<and> e ! nat (p ! j - (pos + 1)) = xs ! j"
        and same: "\<not> t \<longrightarrow> (\<forall>j<length xs. ms ! j \<longrightarrow> p ! j = i + 1 + int j)"
        using IH "1.prems"(1) by blast+
      have out: "newenv = x # e" "perm = pos # p" "s \<longleftrightarrow> i \<noteq> pos \<or> t"
        using "1.prems"(2) True rec by auto
      have "(x # e) ! nat (p ! j - pos) = xs ! j" if "j < length xs" "ms ! j" for j
      proof -
        have "0 < p ! j - pos" using new [rule_format, OF that] by linarith
        then have "(x # e) ! nat (p ! j - pos) = e ! nat (p ! j - pos - 1)" by (rule nth_Cons_nat)
        also have "p ! j - pos - 1 = p ! j - (pos + 1)" by simp
        also have "e ! nat (p ! j - (pos + 1)) = xs ! j" using new [rule_format, OF that] by (elim conjE)
        finally show ?thesis .
      qed
      note nth = this
      have "\<forall>j<length (x # xs). (m # ms) ! j \<longrightarrow> pos \<le> perm ! j
          \<and> perm ! j < pos + int (length newenv) \<and> newenv ! nat (perm ! j - pos) = (x # xs) ! j"
      proof (intro allI impI)
        fix j
        assume j: "j < length (x # xs)" "(m # ms) ! j"
        show "pos \<le> perm ! j \<and> perm ! j < pos + int (length newenv)
          \<and> newenv ! nat (perm ! j - pos) = (x # xs) ! j"
        proof (cases j)
          case (Suc k)
          with j have k: "k < length xs" "ms ! k" by simp_all
          with new have "pos + 1 \<le> p ! k" "p ! k < pos + 1 + int (length e)" by blast+
          with nth [OF k] Suc show ?thesis unfolding out by simp
        qed (simp add: out)
      qed
      moreover have "\<not> s \<longrightarrow> (\<forall>j<length (x # xs). (m # ms) ! j \<longrightarrow> perm ! j = i + int j)"
        unfolding out using same by (auto simp: All_less_Suc2)
      ultimately show ?thesis using len e True out by simp
    next
      case False
      obtain e p t where rec: "gc_loop xs ms (i + 1) pos = (e, p, t)" by (metis prod_cases3)
      note IH = "1.IH"(2) [OF False _ rec]
      show ?thesis
        using "1.prems" False rec IH by (auto simp: All_less_Suc2 algebra_simps)
    qed
  qed auto
  then show "length perm = length xs" "newenv = map fst (filter snd (zip xs ms))"
    "j < length xs \<Longrightarrow> ms ! j \<Longrightarrow> pos \<le> perm ! j \<and> perm ! j < pos + int (length newenv)
      \<and> newenv ! nat (perm ! j - pos) = xs ! j"
    "\<not> s \<Longrightarrow> j < length xs \<Longrightarrow> ms ! j \<Longrightarrow> perm ! j = i + int j"
    by blast+
qed

end
