(* ===== verification/Gal_Wf.thy ===== *)
theory Gal_Wf imports Gal_Env begin

text \<open>
  The invariant of parametric expressions: variables are indexes into an environment of \<open>n\<close> entries,
  tags are 32-bit patterns, cells have an index that a tagged constant can hold. Every operation of
  the simplifier keeps it.
\<close>

fun wf_int :: "int \<Rightarrow> pint \<Rightarrow> bool" and wf_bool :: "int \<Rightarrow> pbool \<Rightarrow> bool" where
  "wf_int n (VarExpr x) \<longleftrightarrow> 0 \<le> x \<and> x < n"
| "wf_int n (ConstTag t) \<longleftrightarrow> 0 \<le> t \<and> t < 4294967296"
| "wf_int n NDefExpr \<longleftrightarrow> True"
| "wf_int n (WrapBoolExpr b) \<longleftrightarrow> wf_bool n b"
| "wf_int n (ArrayVarExpr a i l) \<longleftrightarrow> 0 \<le> a \<and> a < n \<and> wf_int n i"
| "wf_int n (ArrayConstExpr a i) \<longleftrightarrow> 0 \<le> a \<and> a < n \<and> 0 \<le> i \<and> taggable i"
| "wf_int n (NaryIntExpr k ps) \<longleftrightarrow> list_all (wf_int n) ps"
| "wf_int n (UnaryIntExpr k e) \<longleftrightarrow> wf_int n e"
| "wf_int n (BinaryIntExpr k l r) \<longleftrightarrow> wf_int n l \<and> wf_int n r"
| "wf_bool n (NaryBoolExpr k ps) \<longleftrightarrow> list_all (wf_bool n) ps"
| "wf_bool n (BinaryBoolComp k l r) \<longleftrightarrow> wf_int n l \<and> wf_int n r"
| "wf_bool n (NotExpr b) \<longleftrightarrow> wf_bool n b"
| "wf_bool n (BoolConstExpr c) \<longleftrightarrow> True"
| "wf_bool n BoolNDefExpr \<longleftrightarrow> True"

lemma wf_vars:
  "wf_int n e \<Longrightarrow> \<forall>x\<in>vars_int e. 0 \<le> x \<and> x < n"
  "wf_bool n b \<Longrightarrow> \<forall>x\<in>vars_bool b. 0 \<le> x \<and> x < n"
  by (induction n e and n b rule: wf_int_wf_bool.induct) (auto simp: list_all_iff)

lemma wf_cells:
  "wf_int n e \<Longrightarrow> cells_int e"
  "wf_bool n b \<Longrightarrow> cells_bool b"
  by (induction n e and n b rule: wf_int_wf_bool.induct) (auto simp: list_all_iff)

section \<open>Constants and nodes\<close>

lemma wf_createConstant [simp]: "wf_int n (createConstant c)"
  by (simp add: createConstant_def tag_const_def Let_def)

lemma taggable_untag: "0 \<le> t \<Longrightarrow> t < 4294967296 \<Longrightarrow> taggable (untag_const t)"
proof -
  assume t: "0 \<le> t" "t < 4294967296"
  then have "0 \<le> t div 4" "t div 4 < 1073741824" by auto
  moreover from this have "wrap32 (t div 4) = t div 4" "wrap32 (- (t div 4)) = - (t div 4)"
    by (intro wrap32_id; simp add: int32_def INT_MIN_def INT_MAX_def)+
  ultimately show ?thesis by (simp add: untag_const_def taggable_def Let_def)
qed

lemma wf_createArrayAccess:
  "0 \<le> a \<Longrightarrow> a < n \<Longrightarrow> wf_int n i \<Longrightarrow> wf_int n (createArrayAccess a i l)"
  by (cases i) (auto simp: createArrayAccess_def Let_def taggable_untag)

lemma wf_wrap_result: "wf_bool n b \<Longrightarrow> wf_int n (wrap_result b)"
  by (cases b) auto

lemma list_all_ms_insert [simp]: "list_all P (ms_insert lt x xs) \<longleftrightarrow> P x \<and> list_all P xs"
  by (auto simp: list_all_iff)

lemma list_all_set_insert [simp]: "list_all P (set_insert lt x xs) \<longleftrightarrow> P x \<and> list_all P xs"
  by (auto simp: list_all_iff)

lemma list_all_fold_set_insert [simp]:
  "list_all P (fold (set_insert lt) xs ys) \<longleftrightarrow> list_all P xs \<and> list_all P ys"
  by (auto simp: list_all_iff stl_set.elems_fold)

lemma list_all_fold_ms_insert [simp]:
  "list_all P (fold (ms_insert lt) xs ys) \<longleftrightarrow> list_all P xs \<and> list_all P ys"
  by (auto simp: list_all_iff stl_multiset.elems_fold)

lemma wf_bool_params: "wf_bool n b \<Longrightarrow> list_all (wf_bool n) (bool_params b)"
  by (cases b) auto

lemma wf_fuse_internals:
  assumes "list_all (wf_bool n) ps"
  shows "list_all (wf_bool n) (fuse_internals A T ps)"
proof -
  have "list_all (wf_bool n) (fold (\<lambda>t q. fold (set_insert (bless A)) (bool_params t) q) ts qs)"
    if "list_all (wf_bool n) ts" "list_all (wf_bool n) qs" for ts qs
    using that by (induction ts arbitrary: qs) (auto simp: wf_bool_params)
  moreover have "list_all (wf_bool n) (filter P ps)" for P
    using assms by (auto simp: list_all_iff)
  ultimately show ?thesis by (simp add: fuse_internals_def)
qed

lemma wf_nodes:
  "list_all (wf_int n) ps \<Longrightarrow> wf_int n (nary_node A k ps)"
  "wf_int n e \<Longrightarrow> wf_int n (unary_node k1 e)"
  "wf_int n l \<Longrightarrow> wf_int n r \<Longrightarrow> wf_int n (binary_node A k2 l r)"
  "list_all (wf_bool n) bs \<Longrightarrow> wf_bool n (nbool_node A k3 bs)"
  "wf_int n l \<Longrightarrow> wf_int n r \<Longrightarrow> wf_bool n (comp_node k4 l r)"
  by (auto simp: node_simps wf_fuse_internals split: list.splits)

lemma wf_push_neg: "wf_bool n b \<Longrightarrow> wf_bool n (push_neg A neg b)"
proof (induction A neg b rule: push_neg.induct)
  case (1 A neg k ps)
  then have "list_all (wf_bool n) (map (push_neg A neg) ps)" by (auto simp: list_all_iff)
  then have "list_all (wf_bool n) (fold (set_insert (bless A)) (map (push_neg A neg) ps) [])"
    by (simp only: list_all_fold_set_insert list.pred_inject simp_thms)
  then show ?case
    by (simp only: push_neg.simps NotPusher_visitNary_def Let_def wf_nodes(4) split: if_split) simp
qed (auto simp: NotPusher_visitComp_def wf_nodes)

section \<open>eval and setAssertion\<close>

fun wf_ires :: "int \<Rightarrow> pint res \<Rightarrow> bool" where
  "wf_ires n (Inl err) \<longleftrightarrow> True"
| "wf_ires n (Inr e) \<longleftrightarrow> wf_int n e"

fun wf_bres :: "int \<Rightarrow> pbool res \<Rightarrow> bool" where
  "wf_bres n (Inl err) \<longleftrightarrow> True"
| "wf_bres n (Inr b) \<longleftrightarrow> wf_bool n b"

lemma wf_iresI: "(\<And>e. r = Inr e \<Longrightarrow> wf_int n e) \<Longrightarrow> wf_ires n r"
  by (cases r) simp_all

lemma wf_bresI: "(\<And>b. r = Inr b \<Longrightarrow> wf_bool n b) \<Longrightarrow> wf_bres n r"
  by (cases r) simp_all

lemma wf_nary_loop:
  "nary_loop A k rs c p = Inr (Some (c', p')) \<Longrightarrow> \<forall>r\<in>set rs. wf_ires n r \<Longrightarrow> list_all (wf_int n) p
    \<Longrightarrow> list_all (wf_int n) p'"
proof (induction rs arbitrary: c p)
  case (Cons r rs)
  then obtain e where r: "r = Inr e" by (cases r) auto
  show ?case
  proof (cases "\<exists>t. e = ConstTag t")
    case True
    with Cons r show ?thesis by (auto elim!: rbind_InrE)
  next
    case False
    with Cons.prems r have "nary_loop A k rs c (ms_insert (iless A) e p) = Inr (Some (c', p'))"
      by (cases e) auto
    with Cons r show ?thesis by auto
  qed
qed simp

lemma wf_nary_params: "list_all (wf_int n) p \<Longrightarrow> list_all (wf_int n) (nary_params A k c p)"
  by (simp add: nary_params_def)

lemma wf_nary_result:
  assumes "(case ps of [e] \<Rightarrow> Inr e | _ \<Rightarrow> int_createNary A (nary_type k) ps) = Inr e"
    and "list_all (wf_int n) ps"
  shows "wf_int n e"
  using assms wf_nodes(1) [of n ps A k]
  by (auto simp: int_createNary_class nary_node_eq split: list.splits)

lemma NaryIntExpr_eval_cases:
  assumes "NaryIntExpr_eval A k rs = Inr e"
  obtains "e = NDefExpr"
    | c p where "nary_loop A k rs (getNeutralElement k) [] = Inr (Some (c, p))"
      "(case nary_params A k c p of [e] \<Rightarrow> Inr e
        | _ \<Rightarrow> int_createNary A (nary_type k) (nary_params A k c p)) = Inr e"
proof -
  from assms obtain out where out: "nary_loop A k rs (getNeutralElement k) [] = Inr out"
    and e: "(case out of None \<Rightarrow> Inr NDefExpr
       | Some (constant, p) \<Rightarrow>
           (case nary_params A k constant p of [e] \<Rightarrow> Inr e
            | ps \<Rightarrow> int_createNary A (nary_type k) ps)) = Inr e"
    unfolding NaryIntExpr_eval_def by (rule rbind_InrE)
  show thesis
  proof (cases out)
    case None
    with e that(1) show ?thesis by simp
  next
    case (Some cp)
    obtain c p where "cp = (c, p)" by (cases cp)
    with Some out e that(2) show ?thesis by (auto split: list.splits)
  qed
qed

lemma wf_NaryIntExpr_eval:
  assumes "\<forall>r\<in>set rs. wf_ires n r"
  shows "wf_ires n (NaryIntExpr_eval A k rs)"
proof (rule wf_iresI)
  fix e
  assume "NaryIntExpr_eval A k rs = Inr e"
  then show "wf_int n e"
  proof (cases rule: NaryIntExpr_eval_cases)
    case (2 c p)
    have "list_all (wf_int n) p" using wf_nary_loop [OF 2(1) assms] by simp
    from wf_nary_result [OF 2(2) wf_nary_params [OF this]] show ?thesis .
  qed simp
qed

lemma wf_UnaryIntExpr_eval: "wf_ires n r \<Longrightarrow> wf_ires n (UnaryIntExpr_eval k r)"
  by (cases r) (auto simp: UnaryIntExpr_eval_def int_createUnary_class split: pint.splits)

lemma BinaryIntExpr_eval_cases:
  assumes "BinaryIntExpr_eval A k (Inr l) (Inr r) = Inr e"
  shows "e = binary_node A k l r \<or> (\<exists>c. e = createConstant c)"
proof (cases "\<exists>t1 t2. l = ConstTag t1 \<and> r = ConstTag t2")
  case True
  with assms show ?thesis by (auto simp: BinaryIntExpr_eval_def elim!: rbind_InrE)
next
  case False
  then have "BinaryIntExpr_eval A k (Inr l) (Inr r) =
      (if l = NDefExpr \<or> r = NDefExpr then Inr NDefExpr else int_createBinary A (binary_type k) l r)"
    by (cases l; cases r) (simp_all add: BinaryIntExpr_eval_def)
  with assms show ?thesis by (auto simp: int_createBinary_class binary_node_eq split: if_splits)
qed

lemma wf_BinaryIntExpr_eval:
  assumes "wf_ires n rl" "wf_ires n rr"
  shows "wf_ires n (BinaryIntExpr_eval A k rl rr)"
proof (rule wf_iresI)
  fix e
  assume e: "BinaryIntExpr_eval A k rl rr = Inr e"
  then obtain l r where lr: "rl = Inr l" "rr = Inr r"
    by (auto simp: BinaryIntExpr_eval_def elim!: rbind_InrE)
  have "wf_int n (binary_node A k l r)" using assms lr by (simp add: wf_nodes)
  with BinaryIntExpr_eval_cases [OF e [unfolded lr]] show "wf_int n e" by auto
qed

lemma BinaryBoolComp_eval_cases:
  assumes "BinaryBoolComp_eval k (Inr l) (Inr r) = Inr b"
  shows "b = comp_node k l r \<or> (\<exists>c. b = BoolConstExpr c)"
proof (cases "\<exists>t1 t2. l = ConstTag t1 \<and> r = ConstTag t2")
  case True
  with assms show ?thesis by (auto simp: BinaryBoolComp_eval_def elim!: rbind_InrE)
next
  case False
  then have "BinaryBoolComp_eval k (Inr l) (Inr r) =
      (if l = NDefExpr \<or> r = NDefExpr then Inr BoolNDefExpr else createComparison (comp_type k) l r)"
    by (cases l; cases r) (simp_all add: BinaryBoolComp_eval_def)
  with assms show ?thesis by (auto simp: createComparison_class comp_node_eq split: if_splits)
qed

lemma wf_BinaryBoolComp_eval:
  assumes "wf_ires n rl" "wf_ires n rr"
  shows "wf_bres n (BinaryBoolComp_eval k rl rr)"
proof (rule wf_bresI)
  fix b
  assume b: "BinaryBoolComp_eval k rl rr = Inr b"
  then obtain l r where lr: "rl = Inr l" "rr = Inr r"
    by (auto simp: BinaryBoolComp_eval_def elim!: rbind_InrE)
  have "wf_bool n (comp_node k l r)" using assms lr by (simp add: wf_nodes)
  with BinaryBoolComp_eval_cases [OF b [unfolded lr]] show "wf_bool n b" by auto
qed

lemma wf_nbool_loop:
  "nbool_loop A k rs p h = Inr (Inr (p', h')) \<Longrightarrow> \<forall>r\<in>set rs. wf_bres n r \<Longrightarrow> list_all (wf_bool n) p
    \<Longrightarrow> list_all (wf_bool n) p'"
proof (induction rs arbitrary: p h)
  case (Cons r rs)
  then obtain b where r: "r = Inr b" by (cases r) auto
  with Cons show ?case by (cases b) (auto split: if_splits)
qed simp

lemma nbool_finish_cases:
  assumes "nbool_finish A k f p h = Inr b"
  shows "(\<exists>c. b = BoolConstExpr c) \<or> b = BoolNDefExpr \<or> p \<noteq> [] \<and> b = hd p \<or> b = nbool_node A k p"
proof -
  have "bool_createNary A (nbool_type k) p = Inr (nbool_node A k p)"
    by (simp add: bool_createNary_class nbool_node_eq)
  with assms show ?thesis
    by (simp add: nbool_finish_def split: if_splits) (auto elim!: rbind_InrE split: if_splits)
qed

lemma wf_NaryBoolExpr_eval:
  assumes "\<forall>r\<in>set rs. wf_bres n r"
  shows "wf_bres n (NaryBoolExpr_eval A k rs f)"
proof (rule wf_bresI)
  fix b
  assume "NaryBoolExpr_eval A k rs f = Inr b"
  then obtain out where out: "nbool_loop A k rs [] False = Inr out"
    and b: "(case out of Inl e \<Rightarrow> Inr e | Inr (p, h) \<Rightarrow> nbool_finish A k f p h) = Inr b"
    unfolding NaryBoolExpr_eval_def by (rule rbind_InrE)
  show "wf_bool n b"
  proof (cases out)
    case (Inl e)
    with out b show ?thesis by (auto dest: nbool_loop_early)
  next
    case (Inr ph)
    obtain p h where "ph = (p, h)" by (cases ph)
    with Inr out b have "nbool_finish A k f p h = Inr b" "list_all (wf_bool n) p"
      using wf_nbool_loop [of A k rs "[]" False p h n] assms by auto
    then show ?thesis
      using nbool_finish_cases [of A k f p h b] wf_nodes(4) [of n p A k] by (auto simp: list_all_iff)
  qed
qed

lemma wf_WrapBoolExpr_eval: "wf_bres n r \<Longrightarrow> wf_ires n (WrapBoolExpr_eval A r)"
  by (cases r) (simp_all add: WrapBoolExpr_eval_def pushNegations_def wf_push_neg wf_wrap_result)

lemma wf_ArrayVarExpr_eval:
  "0 \<le> a \<Longrightarrow> a < n \<Longrightarrow> wf_int n i \<Longrightarrow> wf_ires n r \<Longrightarrow> wf_ires n (ArrayVarExpr_eval a i l r)"
  by (cases r) (simp_all add: ArrayVarExpr_eval_def wf_createArrayAccess)

lemma wf_NotExpr_eval: "wf_bres n r \<Longrightarrow> wf_bres n (NotExpr_eval r)"
  by (cases r) (auto simp: NotExpr_eval_def split: pbool.splits)

lemma wf_eval:
  "wf_int n e \<Longrightarrow> wf_ires n (eval_int A e)"
  "wf_bool n b \<Longrightarrow> wf_bres n (eval_bool A b)"
proof (induction n e and n b rule: wf_int_wf_bool.induct)
  case (7 n k ps)
  then have "\<forall>r\<in>set (map (eval_int A) ps). wf_ires n r" by (simp add: list_all_iff)
  from wf_NaryIntExpr_eval [OF this] show ?case by simp
next
  case (10 n k ps)
  then have "\<forall>r\<in>set (map (eval_bool A) ps). wf_bres n r" by (simp add: list_all_iff)
  from wf_NaryBoolExpr_eval [OF this] show ?case by simp
next
  case (4 n b)
  then show ?case unfolding eval_int.simps by (intro wf_WrapBoolExpr_eval) simp
next
  case (5 n a i l)
  then show ?case unfolding eval_int.simps by (intro wf_ArrayVarExpr_eval) simp_all
next
  case (8 n k e)
  then show ?case unfolding eval_int.simps by (intro wf_UnaryIntExpr_eval) simp
next
  case (9 n k l r)
  then show ?case unfolding eval_int.simps by (intro wf_BinaryIntExpr_eval) simp_all
next
  case (11 n k l r)
  then show ?case unfolding eval_bool.simps by (intro wf_BinaryBoolComp_eval) simp_all
next
  case (12 n b)
  then show ?case unfolding eval_bool.simps by (intro wf_NotExpr_eval) simp
qed auto

section \<open>setAssertion\<close>

lemma wf_getValue:
  "wf_int n (psecond a) \<Longrightarrow> wf_int n e \<Longrightarrow> wf_int n (PAssertion_getValue a e)"
  by (simp add: PAssertion_getValue_def)

text \<open>Each \<open>setAssertion\<close> answers what \<open>eval\<close> does, possibly looked up in the assertion.\<close>

lemma nary_setAssertion_eval:
  assumes "NaryIntExpr_setAssertion A k a rs = Inr e"
  shows "\<exists>e'. NaryIntExpr_eval A k rs = Inr e' \<and> (e = e' \<or> e = PAssertion_getValue a e')"
proof -
  from assms obtain out where out: "nary_loop A k rs (getNeutralElement k) [] = Inr out"
    and e: "(case out of None \<Rightarrow> Inr NDefExpr
       | Some (constant, p) \<Rightarrow>
           (case nary_params A k constant p of [e] \<Rightarrow> Inr e
            | ps \<Rightarrow> rbind (int_createNary A (nary_type k) ps) (\<lambda>e. Inr (PAssertion_getValue a e)))) = Inr e"
    unfolding NaryIntExpr_setAssertion_def by (rule rbind_InrE)
  show ?thesis
  proof (cases out)
    case None
    with out e show ?thesis by (simp add: NaryIntExpr_eval_def)
  next
    case (Some cp)
    obtain c p where "cp = (c, p)" by (cases cp)
    with Some out e show ?thesis
      by (auto simp: NaryIntExpr_eval_def int_createNary_class split: list.splits)
  qed
qed

lemma unary_setAssertion_eval:
  "UnaryIntExpr_setAssertion k a r = Inr e
    \<Longrightarrow> \<exists>e'. UnaryIntExpr_eval k r = Inr e' \<and> (e = e' \<or> e = PAssertion_getValue a e')"
  by (cases r) (auto simp: UnaryIntExpr_setAssertion_def UnaryIntExpr_eval_def int_createUnary_class
      split: pint.splits)

lemma binary_setAssertion_eval:
  assumes "BinaryIntExpr_setAssertion A k a rl rr = Inr e"
  shows "\<exists>e'. BinaryIntExpr_eval A k rl rr = Inr e' \<and> (e = e' \<or> e = PAssertion_getValue a e')"
proof -
  from assms obtain l r where lr: "rl = Inr l" "rr = Inr r"
    by (auto simp: BinaryIntExpr_setAssertion_def elim!: rbind_InrE)
  show ?thesis
  proof (cases "\<exists>t1 t2. l = ConstTag t1 \<and> r = ConstTag t2")
    case True
    with assms lr show ?thesis by (auto simp: BinaryIntExpr_setAssertion_def BinaryIntExpr_eval_def)
  next
    case False
    then have "BinaryIntExpr_setAssertion A k a rl rr = (if l = NDefExpr \<or> r = NDefExpr then Inr NDefExpr
        else rbind (int_createBinary A (binary_type k) l r) (\<lambda>e. Inr (PAssertion_getValue a e)))"
      "BinaryIntExpr_eval A k rl rr = (if l = NDefExpr \<or> r = NDefExpr then Inr NDefExpr
        else int_createBinary A (binary_type k) l r)"
      by (cases l; cases r; simp add: lr BinaryIntExpr_setAssertion_def BinaryIntExpr_eval_def)+
    with assms show ?thesis by (auto simp: int_createBinary_class split: if_splits)
  qed
qed

lemma wf_looked_up:
  assumes "wf_int n (psecond a)" "wf_ires n r"
    and "\<And>e. s = Inr e \<Longrightarrow> \<exists>e'. r = Inr e' \<and> (e = e' \<or> e = PAssertion_getValue a e')"
  shows "wf_ires n s"
  using assms wf_getValue [OF assms(1)] by (cases s) fastforce+

lemma wf_nbool_assert_loop:
  assumes "nbool_assert_loop A k xs p u h = Inr (Inr (p', u', h'))" "\<forall>x\<in>set xs. wf_bres n (snd x)"
    and "list_all (wf_bool n) p"
  shows "list_all (wf_bool n) p'"
proof (rule wf_nbool_loop)
  show "nbool_loop A k (map snd xs) p h = Inr (Inr (p', h'))"
    using assms(1) nbool_assert_loop_eq [of A k xs p h u] by simp
  show "\<forall>r\<in>set (map snd xs). wf_bres n r" using assms(2) by simp
qed (rule assms(3))

lemma nbool_assert_loop_early:
  assumes "nbool_assert_loop A k xs p u h = Inr (Inl b)"
  shows "\<exists>c. b = BoolConstExpr c"
  using assms nbool_assert_loop_eq [of A k xs p h u] nbool_loop_early [of A k "map snd xs" p h b] by simp

lemma wf_NaryBoolExpr_setAssertion:
  assumes "\<forall>x\<in>set xs. wf_bres n (snd x)" "wf_bool n self"
  shows "wf_bres n (NaryBoolExpr_setAssertion A k self xs)"
proof (rule wf_bresI)
  fix b
  assume "NaryBoolExpr_setAssertion A k self xs = Inr b"
  then obtain out where out: "nbool_assert_loop A k xs [] False False = Inr out"
    and b: "(case out of Inl aa \<Rightarrow> Inr aa
       | Inr (p, isUpd, isNDef) \<Rightarrow>
           if isNDef \<and> k = AndExpr then Inr BoolNDefExpr
           else if isUpd then rbind (bool_createNary A (nbool_type k) p) (eval_bool A)
           else Inr self) = Inr b"
    unfolding NaryBoolExpr_setAssertion_def by (rule rbind_InrE)
  show "wf_bool n b"
  proof (cases out)
    case (Inl aa)
    with out b show ?thesis by (auto dest: nbool_assert_loop_early)
  next
    case (Inr t)
    obtain p u h where t: "t = (p, u, h)" by (metis prod_cases3)
    have "list_all (wf_bool n) p"
      using wf_nbool_assert_loop [OF out [unfolded Inr t] assms(1)] by simp
    then have "wf_bool n (nbool_node A k p)" by (rule wf_nodes)
    from wf_eval(2) [OF this, of A] have "wf_bres n (eval_bool A (nbool_node A k p))" .
    moreover have "bool_createNary A (nbool_type k) p = Inr (nbool_node A k p)"
      by (simp add: bool_createNary_class nbool_node_eq)
    ultimately show ?thesis
      using b assms(2) unfolding Inr t by (simp split: if_splits)
  qed
qed

lemma wf_assert:
  "wf_int n (psecond a) \<Longrightarrow> wf_int n e \<Longrightarrow> wf_ires n (assert_int A a e)"
  "wf_int n (psecond a) \<Longrightarrow> wf_bool n b \<Longrightarrow> wf_bres n (assert_bool A a b)"
proof (induction n e and n b rule: wf_int_wf_bool.induct)
  case (4 n b)
  then show ?case by (cases "assert_bool A a b") (simp_all add: WrapBoolExpr_setAssertion_def wf_wrap_result)
next
  case (5 n x i l)
  then show ?case
    by (cases "assert_int A a i")
       (simp_all add: ArrayVarExpr_setAssertion_def wf_createArrayAccess wf_getValue)
next
  case (7 n k ps)
  then have "\<forall>r\<in>set (map (assert_int A a) ps). wf_ires n r" by (simp add: list_all_iff)
  from wf_looked_up [OF "7.prems"(1) wf_NaryIntExpr_eval [OF this, of A k] nary_setAssertion_eval]
  show ?case by simp
next
  case (8 n k e)
  then have "wf_ires n (assert_int A a e)" by simp
  from wf_looked_up [OF "8.prems"(1) wf_UnaryIntExpr_eval [OF this, of k] unary_setAssertion_eval]
  show ?case by simp
next
  case (9 n k l r)
  then have "wf_ires n (assert_int A a l)" "wf_ires n (assert_int A a r)" by simp_all
  from wf_looked_up [OF "9.prems"(1) wf_BinaryIntExpr_eval [OF this, of A k] binary_setAssertion_eval]
  show ?case by simp
next
  case (10 n k ps)
  then have "\<forall>x\<in>set (map (\<lambda>p. (p, assert_bool A a p)) ps). wf_bres n (snd x)" by (simp add: list_all_iff)
  from wf_NaryBoolExpr_setAssertion [OF this "10.prems"(2)] show ?case by simp
next
  case (11 n k l r)
  then have "wf_ires n (assert_int A a l)" "wf_ires n (assert_int A a r)" by simp_all
  from wf_BinaryBoolComp_eval [OF this] show ?case by (simp add: comp_setAssertion_eval)
next
  case (12 n b)
  then have "wf_bres n (assert_bool A a b)" by simp
  from wf_NotExpr_eval [OF this] show ?case by (simp add: not_setAssertion_eval)
qed (simp_all add: wf_getValue)

section \<open>Renaming and sub-expressions\<close>

lemma wf_reindex:
  "wf_int n e \<Longrightarrow> \<forall>x\<in>vars_int e. 0 \<le> ix ! nat x \<and> ix ! nat x < m \<Longrightarrow> wf_int m (reindex_int A ix e)"
  "wf_bool n b \<Longrightarrow> \<forall>x\<in>vars_bool b. 0 \<le> ix ! nat x \<and> ix ! nat x < m \<Longrightarrow> wf_bool m (reindex_bool A ix b)"
proof (induction n e and n b rule: wf_int_wf_bool.induct)
  case (1 n x)
  then show ?case by (auto simp: VarExpr_reindexVariables_def Let_def)
next
  case (5 n a i l)
  then show ?case by (auto simp: ArrayVarExpr_reindexVariables_def intro!: wf_createArrayAccess)
next
  case (6 n a i)
  then show ?case by (auto simp: ArrayConstExpr_reindexVariables_def intro!: wf_createArrayAccess)
next
  case (7 n k ps)
  then have "list_all (wf_int m) (map (reindex_int A ix) ps)" by (simp add: list_all_iff)
  then show ?case by (simp add: NaryIntExpr_reindexVariables_def wf_nodes del: list.pred_map)
next
  case (10 n k ps)
  then have "list_all (wf_bool m) (map (reindex_bool A ix) ps)" by (simp add: list_all_iff)
  then show ?case by (simp add: NaryBoolExpr_reindexVariables_def wf_nodes del: list.pred_map)
qed (simp_all add: wf_nodes)

lemma nary_first_cases:
  "NaryIntExpr_getFirstSubExpr this xs = this \<or> (\<exists>x\<in>set xs. NaryIntExpr_getFirstSubExpr this xs = snd x)"
  by (induction this xs rule: NaryIntExpr_getFirstSubExpr.induct) auto

lemma nbool_first_cases:
  "NaryBoolExpr_getFirstSubExpr xs = createConstant 0 \<or> NaryBoolExpr_getFirstSubExpr xs \<in> set xs"
  by (induction xs) auto

lemma wf_getFirstSubExpr:
  "wf_int n e \<Longrightarrow> wf_int n (getFirstSubExpr_int e)"
  "wf_bool n b \<Longrightarrow> wf_int n (getFirstSubExpr_bool b)"
proof (induction n e and n b rule: wf_int_wf_bool.induct)
  case (7 n k ps)
  then show ?case
    using nary_first_cases [of "NaryIntExpr k ps" "map (\<lambda>p. (p, getFirstSubExpr_int p)) ps"]
    by (auto simp: list_all_iff)
next
  case (10 n k ps)
  then show ?case
    using nbool_first_cases [of "map getFirstSubExpr_bool ps"] by (auto simp: list_all_iff)
qed (auto simp: UnaryIntExpr_getFirstSubExpr_def BinaryIntExpr_getFirstSubExpr_def
      BinaryBoolComp_getFirstSubExpr_def)

section \<open>Expressions under an environment\<close>

text \<open>The valuation of the parameters \<open>0, 1, ...\<close> that an environment makes of a global one.\<close>

definition env_val :: "valuation \<Rightarrow> env \<Rightarrow> valuation" where
  "env_val \<gamma> env = \<lparr>scalar = (\<lambda>i. scalar \<gamma> (env ! nat i)), cell = (\<lambda>i. cell \<gamma> (env ! nat i))\<rparr>"

lemma env_val_sel [simp]:
  "scalar (env_val \<gamma> env) i = scalar \<gamma> (env ! nat i)"
  "cell (env_val \<gamma> env) i = cell \<gamma> (env ! nat i)"
  by (simp_all add: env_val_def)

lemma reindex_nth:
  assumes "set env \<subseteq> set unione" "0 \<le> x" "x < int (length env)"
  shows "fst (reindex env unione f) ! nat x = indexOf (env ! nat x) unione"
    and "env ! nat x \<in> set unione"
  using assms by (auto simp: reindex_def reindex_loop_eq nat_less_iff)

lemma reindex_range:
  assumes "set env \<subseteq> set unione" "0 \<le> x" "x < int (length env)"
  shows "0 \<le> fst (reindex env unione f) ! nat x \<and> fst (reindex env unione f) ! nat x < int (length unione)"
  using reindex_nth [OF assms] indexOf_mem by metis

lemma renamed_reindex:
  assumes "set env \<subseteq> set unione" "\<forall>x\<in>X. 0 \<le> x \<and> x < int (length env)"
  shows "renamed (env_val \<gamma> env) (fst (reindex env unione f)) (env_val \<gamma> unione) X"
  unfolding renamed_def
proof
  fix x
  assume "x \<in> X"
  with assms(2) have x: "0 \<le> x" "x < int (length env)" by auto
  have "unione ! nat (fst (reindex env unione f) ! nat x) = env ! nat x"
    unfolding reindex_nth(1) [OF assms(1) x] by (rule indexOf_mem(3) [OF reindex_nth(2) [OF assms(1) x]])
  then show "scalar (env_val \<gamma> unione) (fst (reindex env unione f) ! nat x) = scalar (env_val \<gamma> env) x
      \<and> cell (env_val \<gamma> unione) (fst (reindex env unione f) ! nat x) = cell (env_val \<gamma> env) x"
    by simp
qed

text \<open>When nothing moved, the indexes are the same in both environments.\<close>

lemma reindex_still:
  assumes "\<not> snd (reindex env unione False)" "set env \<subseteq> set unione" "0 \<le> x" "x < int (length env)"
  shows "x < int (length unione)" "unione ! nat x = env ! nat x"
proof -
  have "\<forall>j<length env. int j = indexOf (env ! j) unione"
    using assms(1) by (simp add: reindex_def reindex_loop_eq)
  moreover have "nat x < length env" "int (nat x) = x" using assms(3,4) by auto
  ultimately have x: "indexOf (env ! nat x) unione = x" by metis
  have "env ! nat x \<in> set unione" by (rule reindex_nth(2) [OF assms(2-4)])
  from indexOf_mem(2,3) [OF this] show "x < int (length unione)" "unione ! nat x = env ! nat x"
    unfolding x .
qed

lemma wf_int_mono:
  "wf_int n e \<Longrightarrow> \<forall>x\<in>vars_int e. x < m \<Longrightarrow> wf_int m e"
  "wf_bool n b \<Longrightarrow> \<forall>x\<in>vars_bool b. x < m \<Longrightarrow> wf_bool m b"
  by (induction n e and n b rule: wf_int_wf_bool.induct) (auto simp: list_all_iff)

text \<open>What the templates \<open>gc\<close> and \<open>normalize\<close> rely on in an expression type.\<close>

locale parametric_expr =
  fixes getSupport :: "'e \<Rightarrow> bool list \<Rightarrow> bool list"
    and reindexVariables :: "int list \<Rightarrow> 'e \<Rightarrow> 'e"
    and vars :: "'e \<Rightarrow> int set"
    and wf :: "int \<Rightarrow> 'e \<Rightarrow> bool"
    and sem :: "valuation \<Rightarrow> 'e \<Rightarrow> 'v option"
  assumes vars_range: "wf n e \<Longrightarrow> \<forall>x\<in>vars e. 0 \<le> x \<and> x < n"
    and wf_mono: "wf n e \<Longrightarrow> \<forall>x\<in>vars e. x < m \<Longrightarrow> wf m e"
    and wf_renamed: "wf n e \<Longrightarrow> \<forall>x\<in>vars e. 0 \<le> ix ! nat x \<and> ix ! nat x < m \<Longrightarrow> wf m (reindexVariables ix e)"
    and sem_renamed: "wf n e \<Longrightarrow> renamed \<sigma> ix \<tau> (vars e) \<Longrightarrow> sem \<sigma> e = Some v
      \<Longrightarrow> sem \<tau> (reindexVariables ix e) = Some v"
    and sem_agree: "(\<And>x. x \<in> vars e \<Longrightarrow> scalar \<sigma> x = scalar \<tau> x \<and> cell \<sigma> x = cell \<tau> x) \<Longrightarrow> sem \<sigma> e = sem \<tau> e"
    and marks: "\<forall>x\<in>vars e. 0 \<le> x \<and> x < int (length mark) \<Longrightarrow> i < length mark
      \<Longrightarrow> getSupport e mark ! i \<longleftrightarrow> mark ! i \<or> int i \<in> vars e"
    and marks_length: "length (getSupport e mark) = length mark"
begin

lemma normalize_sound:
  assumes "wf (int (length env)) e" "set env \<subseteq> set unione"
  shows "wf (int (length unione)) (normalize reindexVariables e env unione)
    \<and> (sem (env_val \<gamma> env) e = Some v \<longrightarrow> sem (env_val \<gamma> unione) (normalize reindexVariables e env unione) = Some v)"
proof -
  note range = vars_range [OF assms(1)]
  obtain ix rw where ix: "reindex env unione False = (ix, rw)" by (cases "reindex env unione False")
  show ?thesis
  proof (cases rw)
    case True
    have "renamed (env_val \<gamma> env) ix (env_val \<gamma> unione) (vars e)"
      using renamed_reindex [OF assms(2) range, of \<gamma> False] by (simp add: ix)
    moreover have "\<forall>x\<in>vars e. 0 \<le> ix ! nat x \<and> ix ! nat x < int (length unione)"
      using reindex_range [OF assms(2), of _ False] range by (simp add: ix)
    ultimately show ?thesis
      using True sem_renamed [OF assms(1)] wf_renamed [OF assms(1)] by (simp add: normalize_def ix)
  next
    case False
    have "\<forall>x\<in>vars e. x < int (length unione) \<and> unione ! nat x = env ! nat x"
      using reindex_still [of env unione] assms(2) range False by (simp add: ix)
    with False show ?thesis
      using sem_agree [of e "env_val \<gamma> env" "env_val \<gamma> unione"] wf_mono [OF assms(1)]
      by (simp add: normalize_def ix)
  qed
qed

text \<open>\<open>gc\<close> keeps exactly the entries of the variables that occur.\<close>

lemma gc_sound:
  assumes "wf (int (length env)) e" "gc getSupport reindexVariables e env = (e', env')"
  shows "env_ok env \<Longrightarrow> env_ok env'"
    and "set env' = (\<lambda>x. env ! nat x) ` vars e"
    and "wf (int (length env')) e'"
    and "sem (env_val \<gamma> env) e = Some v \<Longrightarrow> sem (env_val \<gamma> env') e' = Some v"
proof -
  note range = vars_range [OF assms(1)]
  define mark where "mark = getSupport e (replicate (length env) False)"
  have len: "length mark = length env" by (simp add: mark_def marks_length)
  have mark: "mark ! i \<longleftrightarrow> int i \<in> vars e" if "i < length env" for i
    using marks [of e "replicate (length env) False" i] range that by (simp add: mark_def)
  obtain perm s where loop: "gc_loop env mark 0 0 = (env', perm, s)"
    and e': "e' = (if s then reindexVariables perm e else e)"
    using assms(2) by (auto simp: gc_def mark_def split: prod.splits)
  note spec = gc_loop_spec [OF len loop]
  have kept: "env' = map fst (filter snd (zip env mark))" by (rule spec(2))
  show "env_ok env'" if "env_ok env"
  proof -
    have "sorted_wrt (\<lambda>p q. fst p < fst q) (zip env mark)"
      using that by (simp add: sorted_wrt_iff_nth_less)
    then show ?thesis unfolding kept sorted_wrt_map by (rule sorted_wrt_filter)
  qed
  have "set env' = {env ! i | i. i < length env \<and> mark ! i}"
    unfolding kept using len by (force simp: set_zip)
  also have "\<dots> = (\<lambda>x. env ! nat x) ` vars e"
    using mark range by (force simp: nat_less_iff)
  finally show "set env' = (\<lambda>x. env ! nat x) ` vars e" .
  have entry: "0 \<le> perm ! nat x \<and> perm ! nat x < int (length env') \<and> env' ! nat (perm ! nat x) = env ! nat x"
    if "x \<in> vars e" for x
    using spec(3) [of "nat x"] range mark [of "nat x"] that by (simp add: nat_less_iff)
  have "wf (int (length env')) e' \<and> (sem (env_val \<gamma> env) e = Some v \<longrightarrow> sem (env_val \<gamma> env') e' = Some v)"
  proof (cases s)
    case True
    have "renamed (env_val \<gamma> env) perm (env_val \<gamma> env') (vars e)"
      using entry by (simp add: renamed_def)
    with True entry show ?thesis
      using sem_renamed [OF assms(1)] wf_renamed [OF assms(1)] by (simp add: e')
  next
    case False
    have same: "x < int (length env') \<and> env' ! nat x = env ! nat x" if "x \<in> vars e" for x
    proof -
      have "perm ! nat x = x"
        using spec(4) [OF False, of "nat x"] range mark [of "nat x"] that by (simp add: nat_less_iff)
      with entry [OF that] show ?thesis by simp
    qed
    then have "sem (env_val \<gamma> env) e = sem (env_val \<gamma> env') e"
      by (intro sem_agree) simp
    with same wf_mono [OF assms(1)] False show ?thesis by (simp add: e')
  qed
  then show "wf (int (length env')) e'"
    "sem (env_val \<gamma> env) e = Some v \<Longrightarrow> sem (env_val \<gamma> env') e' = Some v"
    by blast+
qed

end

interpretation pint_expr: parametric_expr getSupport_int "reindex_int A" vars_int wf_int isem for A
proof
  show "wf_int n e \<Longrightarrow> \<forall>x\<in>vars_int e. 0 \<le> x \<and> x < n" for n e by (rule wf_vars)
  show "wf_int n e \<Longrightarrow> renamed \<sigma> ix \<tau> (vars_int e) \<Longrightarrow> isem \<sigma> e = Some v
      \<Longrightarrow> isem \<tau> (reindex_int A ix e) = Some v" for n e \<sigma> ix \<tau> v
    using reindex_sound(1) wf_cells(1) by blast
qed (auto intro: wf_int_mono wf_reindex sem_coincidence simp: getSupport_marks)

interpretation pbool_expr: parametric_expr getSupport_bool "reindex_bool A" vars_bool wf_bool bsem for A
proof
  show "wf_bool n e \<Longrightarrow> \<forall>x\<in>vars_bool e. 0 \<le> x \<and> x < n" for n e by (rule wf_vars)
  show "wf_bool n e \<Longrightarrow> renamed \<sigma> ix \<tau> (vars_bool e) \<Longrightarrow> bsem \<sigma> e = Some v
      \<Longrightarrow> bsem \<tau> (reindex_bool A ix e) = Some v" for n e \<sigma> ix \<tau> v
    using reindex_sound(2) wf_cells(2) by blast
qed (auto intro: wf_int_mono wf_reindex sem_coincidence simp: getSupport_marks)

end
