(* ===== verification/Gal_IntExpr.thy ===== *)
theory Gal_IntExpr imports Gal_Wf begin

text \<open>
  The expressions the rest of the tool manipulates (\<open>its/gal/IntExpression.cpp\<close>): a parametric
  expression with the environment that names its variables. A constant has no environment: its value
  is packed into the pointer. The global tables of the factory (variable names and variable
  expressions) are an explicit state.
\<close>

section \<open>Data\<close>

datatype IntExpression = IConst int | IExpr pint env

datatype BoolExpression = BExpr pbool env

record Assertion =
  assertion :: PAssertion
  aenv :: env

definition getValueFromConcrete :: "int \<Rightarrow> int" where
  "getValueFromConcrete concrete =
     (let val = concrete;
          isneg = val mod 4 \<ge> 2;
          cst = wrap32 (val div 4)
      in if isneg then wrap32 (- cst) else cst)"

definition setConcreteFromValue :: "int \<Rightarrow> int" where
  "setConcreteFromValue cst =
     (let isneg = (if cst < 0 then 2 else 0);
          c = (if isneg \<noteq> 0 then wrap32 (- cst) else cst)
      in wrap32 (wrap32 (c * 4) + isneg + 1) mod 4294967296)"

lemma concrete_tag: "setConcreteFromValue = tag_const" "getValueFromConcrete = untag_const"
  by (intro ext; simp add: setConcreteFromValue_def tag_const_def getValueFromConcrete_def
      untag_const_def Let_def)+

fun getExpr :: "IntExpression \<Rightarrow> pint" where
  "getExpr (IExpr e env) = e"
| "getExpr (IConst t) = createConstant (getValueFromConcrete t)"

fun getEnv :: "IntExpression \<Rightarrow> env" where
  "getEnv (IExpr e env) = env"
| "getEnv (IConst t) = []"

fun IntExpression_getType :: "IntExpression \<Rightarrow> IntExprType" where
  "IntExpression_getType (IExpr e env) = int_getType e"
| "IntExpression_getType (IConst t) = INTCONST"

fun IntExpression_getValue :: "IntExpression \<Rightarrow> int res" where
  "IntExpression_getValue (IExpr e env) = int_getValue e"
| "IntExpression_getValue (IConst t) = Inr (getValueFromConcrete t)"

fun bgetExpr :: "BoolExpression \<Rightarrow> pbool" where
  "bgetExpr (BExpr b env) = b"

fun bgetEnv :: "BoolExpression \<Rightarrow> env" where
  "bgetEnv (BExpr b env) = env"

definition gc_int :: "heap_order \<Rightarrow> pint \<Rightarrow> env \<Rightarrow> pint \<times> env" where
  "gc_int A = gc getSupport_int (reindex_int A)"

definition gc_bool :: "heap_order \<Rightarrow> pbool \<Rightarrow> env \<Rightarrow> pbool \<times> env" where
  "gc_bool A = gc getSupport_bool (reindex_bool A)"

definition norm_int :: "heap_order \<Rightarrow> pint \<Rightarrow> env \<Rightarrow> env \<Rightarrow> pint" where
  "norm_int A = normalize (reindex_int A)"

definition norm_bool :: "heap_order \<Rightarrow> pbool \<Rightarrow> env \<Rightarrow> env \<Rightarrow> pbool" where
  "norm_bool A = normalize (reindex_bool A)"

text \<open>\<open>normalize<Expr, PExpr> (expr, unione)\<close>, with the expression's own parts.\<close>

abbreviation nrm :: "heap_order \<Rightarrow> IntExpression \<Rightarrow> env \<Rightarrow> pint" where
  "nrm A e unione \<equiv> norm_int A (getExpr e) (getEnv e) unione"

abbreviation bnrm :: "heap_order \<Rightarrow> BoolExpression \<Rightarrow> env \<Rightarrow> pbool" where
  "bnrm A b unione \<equiv> norm_bool A (bgetExpr b) (bgetEnv b) unione"

definition mk_int :: "pint \<times> env \<Rightarrow> IntExpression" where
  "mk_int p = IExpr (fst p) (snd p)"

definition mk_bool :: "pbool \<times> env \<Rightarrow> BoolExpression" where
  "mk_bool p = BExpr (fst p) (snd p)"

section \<open>Operations on integer expressions\<close>

fun IntExpression_eval :: "heap_order \<Rightarrow> IntExpression \<Rightarrow> IntExpression res" where
  "IntExpression_eval A (IConst t) = Inr (IConst t)"
| "IntExpression_eval A (IExpr expr env) =
     rbind (eval_int A expr) (\<lambda>newexpr.
       if newexpr = expr then Inr (IExpr expr env)
       else Inr (mk_int (gc_int A newexpr env)))"

fun IntExpression_setAssertion :: "heap_order \<Rightarrow> Assertion \<Rightarrow> IntExpression \<Rightarrow> IntExpression res" where
  "IntExpression_setAssertion A a (IConst t) = Inr (IConst t)"
| "IntExpression_setAssertion A a (IExpr expr env) =
     (if \<not> supersets env (aenv a) then Inr (IExpr expr env)
      else
        let unione = sorted_union (aenv a) env;
            ex = norm_int A expr env unione;
            aa = norm_int A (pfirst (assertion a)) (aenv a) unione;
            aaprime = norm_int A (psecond (assertion a)) (aenv a) unione
        in rbind (assert_int A \<lparr>pfirst = aa, psecond = aaprime\<rparr> ex) (\<lambda>ex'.
             Inr (mk_int (gc_int A ex' unione))))"

text \<open>\<open>v.getEnv()[v.getExpr().getVariable()]\<close>, the global index of a variable or of the array of a cell;
  anything else fails the assertion before it.\<close>

definition var_global :: "IntExpression \<Rightarrow> int res" where
  "var_global v =
     (if IntExpression_getType v = VAR \<or> IntExpression_getType v = CONSTARRAY
      then rbind (int_getVariable (getExpr v)) (\<lambda>x. Inr (getEnv v ! nat x))
      else Inl (Abort ''assert (v.getType() == VAR || v.getType() == CONSTARRAY)''))"

fun IntExpression_isSupport :: "IntExpression \<Rightarrow> IntExpression \<Rightarrow> bool res" where
  "IntExpression_isSupport v (IConst t) = Inr False"
| "IntExpression_isSupport v (IExpr expr env) =
     rbind (var_global v) (\<lambda>g.
       let id = indexOf g env
       in if id = - 1 then Inr False
          else rbind (int_getValue (getExpr v)) (\<lambda>tid. Inr (isSupport_int id tid expr)))"

fun IntExpression_getFirstSubExpr :: "heap_order \<Rightarrow> IntExpression \<Rightarrow> IntExpression" where
  "IntExpression_getFirstSubExpr A (IConst t) = IConst t"
| "IntExpression_getFirstSubExpr A (IExpr expr env) =
     (let newexpr = getFirstSubExpr_int expr
      in if expr = newexpr then IExpr expr env else mk_int (gc_int A newexpr env))"

text \<open>A target that is neither a variable nor a cell fails an assertion.\<close>

fun IntExpression_getSubExprExcept :: "heap_order \<Rightarrow> IntExpression \<Rightarrow> IntExpression \<Rightarrow> IntExpression res" where
  "IntExpression_getSubExprExcept A var (IConst t) = Inr (IConst t)"
| "IntExpression_getSubExprExcept A var (IExpr expr env) =
     (let unione = sorted_union (getEnv var) env;
          varx = nrm A var unione
      in rbind
           (case varx of
              VarExpr x \<Rightarrow> Inr (getSubExprExcept_int x (- 1) expr)
            | ArrayConstExpr x i \<Rightarrow> Inr (getSubExprExcept_int x i expr)
            | _ \<Rightarrow> Inl (Abort ''assert(false)''))
           (\<lambda>newexpr.
              if expr = newexpr then Inr (IExpr expr env) else Inr (mk_int (gc_int A newexpr unione))))"

section \<open>Assertions\<close>

definition Assertion_of :: "heap_order \<Rightarrow> IntExpression \<Rightarrow> IntExpression \<Rightarrow> Assertion" where
  "Assertion_of A var val =
     (let env = sorted_union (getEnv var) (getEnv val)
      in \<lparr>assertion = \<lparr>pfirst = nrm A var env, psecond = nrm A val env\<rparr>, aenv = env\<rparr>)"

definition createIntExpression :: "heap_order \<Rightarrow> pint \<Rightarrow> env \<Rightarrow> IntExpression" where
  "createIntExpression A pie env =
     (case pie of
        ConstTag t \<Rightarrow> IConst (setConcreteFromValue (untag_const t))
      | _ \<Rightarrow> mk_int (gc_int A pie env))"

definition getLeftHandSide :: "heap_order \<Rightarrow> Assertion \<Rightarrow> IntExpression" where
  "getLeftHandSide A a = createIntExpression A (pfirst (assertion a)) (aenv a)"

definition getRightHandSide :: "heap_order \<Rightarrow> Assertion \<Rightarrow> IntExpression" where
  "getRightHandSide A a = createIntExpression A (psecond (assertion a)) (aenv a)"

definition Assertion_and :: "heap_order \<Rightarrow> Assertion \<Rightarrow> Assertion \<Rightarrow> Assertion res" where
  "Assertion_and A this other =
     (let unione = sorted_union (aenv this) (aenv other);
          a = norm_int A (pfirst (assertion this)) (aenv this) unione;
          aprime = norm_int A (psecond (assertion this)) (aenv this) unione;
          b = norm_int A (pfirst (assertion other)) (aenv other) unione;
          bprime = norm_int A (psecond (assertion other)) (aenv other) unione
      in rbind (PAssertion_and A \<lparr>pfirst = a, psecond = aprime\<rparr> \<lparr>pfirst = b, psecond = bprime\<rparr>) (\<lambda>p.
           Inr \<lparr>assertion = p, aenv = unione\<rparr>))"

section \<open>The factory\<close>

text \<open>
  \<open>it->concrete->getEnv()\<close> is a call on the storage object, which a constant does not have; nor is
  there one for the operand of \<open>createUnary\<close>.
\<close>

fun concrete_getEnv :: "IntExpression \<Rightarrow> env res" where
  "concrete_getEnv (IExpr e env) = Inr env"
| "concrete_getEnv (IConst t) = Inl (Undefined ''dereference of a tagged constant'')"

fun nary_union :: "IntExpression list \<Rightarrow> env \<Rightarrow> env res" where
  "nary_union [] unione = Inr unione"
| "nary_union (it # its) unione =
     rbind (concrete_getEnv it) (\<lambda>env. nary_union its (sorted_union unione env))"

definition createNary :: "heap_order \<Rightarrow> IntExprType \<Rightarrow> IntExpression list \<Rightarrow> IntExpression res" where
  "createNary A type params =
     rbind (nary_union params []) (\<lambda>unione.
       let pparams = fold (\<lambda>it ps. ms_insert (iless A) (nrm A it unione) ps) params []
       in rbind (int_createNary A type pparams) (\<lambda>e. Inr (IExpr e unione)))"

definition createBinary ::
  "heap_order \<Rightarrow> IntExprType \<Rightarrow> IntExpression \<Rightarrow> IntExpression \<Rightarrow> IntExpression res" where
  "createBinary A type l r =
     (let unione = sorted_union (getEnv l) (getEnv r)
      in rbind (int_createBinary A type (nrm A l unione) (nrm A r unione)) (\<lambda>e. Inr (IExpr e unione)))"

definition createUnary :: "heap_order \<Rightarrow> IntExprType \<Rightarrow> IntExpression \<Rightarrow> IntExpression res" where
  "createUnary A type p =
     rbind (concrete_getEnv p) (\<lambda>unione.
       rbind (int_createUnary type (nrm A p unione)) (\<lambda>e. Inr (IExpr e unione)))"

definition createIConstant :: "int \<Rightarrow> IntExpression" where
  "createIConstant v = IConst (setConcreteFromValue v)"

text \<open>\<open>createArrayAccess\<close> once the array variable has been created.\<close>

definition array_access ::
  "heap_order \<Rightarrow> IntExpression \<Rightarrow> IntExpression \<Rightarrow> int \<Rightarrow> IntExpression res" where
  "array_access A var index limit =
     (let unione = sorted_union (getEnv var) (getEnv index)
      in rbind (int_getVariable (nrm A var unione)) (\<lambda>x.
           Inr (IExpr (createArrayAccess x (nrm A index unione) limit) unione)))"

definition wrapBoolExpr :: "BoolExpression \<Rightarrow> IntExpression" where
  "wrapBoolExpr b = IExpr (WrapBoolExpr (bgetExpr b)) (bgetEnv b)"

section \<open>Boolean expressions\<close>

fun BoolExpression_eval :: "heap_order \<Rightarrow> BoolExpression \<Rightarrow> BoolExpression res" where
  "BoolExpression_eval A (BExpr expr env) =
     rbind (eval_bool A expr) (\<lambda>newexpr.
       if newexpr = expr then Inr (BExpr expr env)
       else Inr (mk_bool (gc_bool A newexpr env)))"

fun BoolExpression_setAssertion :: "heap_order \<Rightarrow> Assertion \<Rightarrow> BoolExpression \<Rightarrow> BoolExpression res" where
  "BoolExpression_setAssertion A a (BExpr expr env) =
     (if \<not> supersets env (aenv a) then Inr (BExpr expr env)
      else
        let unione = sorted_union (aenv a) env;
            ex = norm_bool A expr env unione;
            aa = norm_int A (pfirst (assertion a)) (aenv a) unione;
            aaprime = norm_int A (psecond (assertion a)) (aenv a) unione
        in rbind (assert_bool A \<lparr>pfirst = aa, psecond = aaprime\<rparr> ex) (\<lambda>ex'.
             Inr (mk_bool (gc_bool A ex' unione))))"

fun BoolExpression_isSupport :: "IntExpression \<Rightarrow> BoolExpression \<Rightarrow> bool res" where
  "BoolExpression_isSupport v (BExpr expr env) =
     rbind (var_global v) (\<lambda>g.
       let id = indexOf g env
       in if id = - 1 then Inr False
          else rbind (int_getValue (getExpr v)) (\<lambda>tid. Inr (isSupport_bool id tid expr)))"

fun BoolExpression_getFirstSubExpr :: "heap_order \<Rightarrow> BoolExpression \<Rightarrow> IntExpression" where
  "BoolExpression_getFirstSubExpr A (BExpr expr env) =
     mk_int (gc_int A (getFirstSubExpr_bool expr) env)"

definition BoolExpression_pushNegations :: "heap_order \<Rightarrow> BoolExpression \<Rightarrow> BoolExpression" where
  "BoolExpression_pushNegations A b = BExpr (pushNegations A (bgetExpr b)) (bgetEnv b)"

definition createBoolNary :: "heap_order \<Rightarrow> BoolExprType \<Rightarrow> BoolExpression list \<Rightarrow> BoolExpression res" where
  "createBoolNary A type params =
     (let unione = fold (\<lambda>it u. sorted_union u (bgetEnv it)) params [];
          pparams = fold (\<lambda>it ps. set_insert (bless A) (bnrm A it unione) ps) params []
      in rbind (bool_createNary A type pparams) (\<lambda>b. Inr (BExpr b unione)))"

definition createBoolBinary ::
  "heap_order \<Rightarrow> BoolExprType \<Rightarrow> BoolExpression \<Rightarrow> BoolExpression \<Rightarrow> BoolExpression res" where
  "createBoolBinary A type l r =
     (let unione = sorted_union (bgetEnv l) (bgetEnv r)
      in rbind (bool_createBinary A type (bnrm A l unione) (bnrm A r unione)) (\<lambda>b. Inr (BExpr b unione)))"

definition createNot :: "BoolExpression \<Rightarrow> BoolExpression" where
  "createNot e = BExpr (NotExpr (bgetExpr e)) (bgetEnv e)"

definition createBConstant :: "bool \<Rightarrow> BoolExpression" where
  "createBConstant b = BExpr (BoolConstExpr b) []"

definition createBComparison ::
  "heap_order \<Rightarrow> BoolExprType \<Rightarrow> IntExpression \<Rightarrow> IntExpression \<Rightarrow> BoolExpression res" where
  "createBComparison A type l r =
     (let unione = sorted_union (getEnv l) (getEnv r)
      in rbind (createComparison type (nrm A l unione) (nrm A r unione)) (\<lambda>b. Inr (BExpr b unione)))"

text \<open>\<open>BoolExpression (const IntExpression &)\<close>: compare to 1.\<close>

definition BoolExpression_of_int :: "heap_order \<Rightarrow> IntExpression \<Rightarrow> BoolExpression res" where
  "BoolExpression_of_int A expr = createBComparison A EQ expr (createIConstant 1)"

definition createBoolExpression :: "pbool \<Rightarrow> env \<Rightarrow> BoolExpression" where
  "createBoolExpression pbe env = BExpr pbe env"

end
