(* ===== verification/Gal_IntSound.thy ===== *)
theory Gal_IntSound imports Gal_IntExpr begin

text \<open>
  What expressions denote under a valuation of the global variables, the invariant of an expression
  with its environment, and what every operation of \<open>IntExpression\<close> and \<open>BoolExpression\<close> does to both.
\<close>

section \<open>Denotation and invariant\<close>

fun denote :: "valuation \<Rightarrow> IntExpression \<Rightarrow> int option" where
  "denote \<gamma> (IConst t) = chk (untag_const t)"
| "denote \<gamma> (IExpr e env) = isem (env_val \<gamma> env) e"

fun bdenote :: "valuation \<Rightarrow> BoolExpression \<Rightarrow> bool option" where
  "bdenote \<gamma> (BExpr b env) = bsem (env_val \<gamma> env) b"

fun ie_ok :: "IntExpression \<Rightarrow> bool" where
  "ie_ok (IConst t) \<longleftrightarrow> 0 \<le> t \<and> t < 4294967296"
| "ie_ok (IExpr e env) \<longleftrightarrow> env_ok env \<and> wf_int (int (length env)) e"

fun be_ok :: "BoolExpression \<Rightarrow> bool" where
  "be_ok (BExpr b env) \<longleftrightarrow> env_ok env \<and> wf_bool (int (length env)) b"

definition as_ok :: "Assertion \<Rightarrow> bool" where
  "as_ok a \<longleftrightarrow> env_ok (aenv a) \<and> wf_int (int (length (aenv a))) (pfirst (assertion a))
     \<and> wf_int (int (length (aenv a))) (psecond (assertion a))"

text \<open>The assertion \<open>lhs := rhs\<close> holds when both sides have the same value.\<close>

definition as_holds :: "valuation \<Rightarrow> Assertion \<Rightarrow> bool" where
  "as_holds \<gamma> a \<longleftrightarrow> (\<exists>w. isem (env_val \<gamma> (aenv a)) (pfirst (assertion a)) = Some w
     \<and> isem (env_val \<gamma> (aenv a)) (psecond (assertion a)) = Some w)"

lemma ie_ok_parts: "ie_ok e \<Longrightarrow> env_ok (getEnv e) \<and> wf_int (int (length (getEnv e))) (getExpr e)"
  by (cases e) auto

lemma be_ok_parts: "be_ok b \<Longrightarrow> env_ok (bgetEnv b) \<and> wf_bool (int (length (bgetEnv b))) (bgetExpr b)"
  by (cases b) auto

lemma isem_getExpr: "ie_ok e \<Longrightarrow> isem (env_val \<gamma> (getEnv e)) (getExpr e) = denote \<gamma> e"
  by (cases e) (auto simp: concrete_tag taggable_untag createConstant_def untag_tag_small)

lemma bsem_bgetExpr: "bsem (env_val \<gamma> (bgetEnv b)) (bgetExpr b) = bdenote \<gamma> b"
  by (cases b) simp

lemma norm_int_sound:
  assumes "wf_int (int (length env)) e" "set env \<subseteq> set unione"
  shows "wf_int (int (length unione)) (norm_int A e env unione)"
    and "isem (env_val \<gamma> env) e = Some v \<Longrightarrow> isem (env_val \<gamma> unione) (norm_int A e env unione) = Some v"
  using pint_expr.normalize_sound [OF assms] by (auto simp: norm_int_def)

lemma norm_bool_sound:
  assumes "wf_bool (int (length env)) b" "set env \<subseteq> set unione"
  shows "wf_bool (int (length unione)) (norm_bool A b env unione)"
    and "bsem (env_val \<gamma> env) b = Some c \<Longrightarrow> bsem (env_val \<gamma> unione) (norm_bool A b env unione) = Some c"
  using pbool_expr.normalize_sound [OF assms] by (auto simp: norm_bool_def)

lemma nrm_sound:
  assumes "ie_ok e" "set (getEnv e) \<subseteq> set unione"
  shows "wf_int (int (length unione)) (nrm A e unione)"
    and "denote \<gamma> e = Some v \<Longrightarrow> isem (env_val \<gamma> unione) (nrm A e unione) = Some v"
  using norm_int_sound [of "getEnv e" "getExpr e" unione] ie_ok_parts [OF assms(1)] assms(2)
    isem_getExpr [OF assms(1)] by auto

lemma bnrm_sound:
  assumes "be_ok b" "set (bgetEnv b) \<subseteq> set unione"
  shows "wf_bool (int (length unione)) (bnrm A b unione)"
    and "bdenote \<gamma> b = Some c \<Longrightarrow> bsem (env_val \<gamma> unione) (bnrm A b unione) = Some c"
  using norm_bool_sound [of "bgetEnv b" "bgetExpr b" unione] be_ok_parts [OF assms(1)] assms(2)
    bsem_bgetExpr by auto

lemma mk_int_gc_sound:
  assumes "wf_int (int (length env)) e" "env_ok env"
  shows "ie_ok (mk_int (gc_int A e env))"
    and "isem (env_val \<gamma> env) e = Some v \<Longrightarrow> denote \<gamma> (mk_int (gc_int A e env)) = Some v"
    and "set (getEnv (mk_int (gc_int A e env))) = (\<lambda>x. env ! nat x) ` vars_int e"
proof -
  obtain e' env' where gc: "gc getSupport_int (reindex_int A) e env = (e', env')"
    by (cases "gc getSupport_int (reindex_int A) e env")
  note sound = pint_expr.gc_sound [OF assms(1) gc]
  show "ie_ok (mk_int (gc_int A e env))"
    using sound(1,3) assms(2) by (simp add: gc_int_def gc mk_int_def)
  show "isem (env_val \<gamma> env) e = Some v \<Longrightarrow> denote \<gamma> (mk_int (gc_int A e env)) = Some v"
    using sound(4) by (simp add: gc_int_def gc mk_int_def)
  show "set (getEnv (mk_int (gc_int A e env))) = (\<lambda>x. env ! nat x) ` vars_int e"
    using sound(2) by (simp add: gc_int_def gc mk_int_def)
qed

lemma mk_bool_gc_sound:
  assumes "wf_bool (int (length env)) b" "env_ok env"
  shows "be_ok (mk_bool (gc_bool A b env))"
    and "bsem (env_val \<gamma> env) b = Some c \<Longrightarrow> bdenote \<gamma> (mk_bool (gc_bool A b env)) = Some c"
proof -
  obtain b' env' where gc: "gc getSupport_bool (reindex_bool A) b env = (b', env')"
    by (cases "gc getSupport_bool (reindex_bool A) b env")
  note sound = pbool_expr.gc_sound [OF assms(1) gc]
  show "be_ok (mk_bool (gc_bool A b env))"
    using sound(1,3) assms(2) by (simp add: gc_bool_def gc mk_bool_def)
  show "bsem (env_val \<gamma> env) b = Some c \<Longrightarrow> bdenote \<gamma> (mk_bool (gc_bool A b env)) = Some c"
    using sound(4) by (simp add: gc_bool_def gc mk_bool_def)
qed

section \<open>eval\<close>

lemma IntExpression_eval_ok:
  assumes "ie_ok e" "IntExpression_eval A e = Inr e'"
  shows "ie_ok e'"
proof (cases e)
  case (IExpr expr env)
  with assms(2) obtain n where n: "eval_int A expr = Inr n"
    and e': "e' = (if n = expr then IExpr expr env else mk_int (gc_int A n env))"
    by (auto elim!: rbind_InrE split: if_splits)
  have "wf_int (int (length env)) n" using wf_eval(1) [of "int (length env)" expr A] assms(1) n IExpr by simp
  then show ?thesis using mk_int_gc_sound(1) assms(1) IExpr by (simp add: e')
qed (use assms in auto)

lemma IntExpression_eval_denote:
  assumes "ie_ok e" "denote \<gamma> e = Some v"
  shows "\<exists>e'. IntExpression_eval A e = Inr e' \<and> denote \<gamma> e' = Some v"
proof (cases e)
  case (IExpr expr env)
  with assms(2) obtain n where n: "eval_int A expr = Inr n" "isem (env_val \<gamma> env) n = Some v"
    using eval_sound_both(1) [of "env_val \<gamma> env" expr v A] by auto
  moreover have "wf_int (int (length env)) n"
    using wf_eval(1) [of "int (length env)" expr A] assms(1) n IExpr by simp
  ultimately show ?thesis
    using IExpr assms mk_int_gc_sound(2) [of env n \<gamma> v A] by auto
qed (use assms in auto)

lemma BoolExpression_eval_ok:
  assumes "be_ok b" "BoolExpression_eval A b = Inr b'"
  shows "be_ok b'"
proof (cases b)
  case (BExpr expr env)
  with assms(2) obtain n where n: "eval_bool A expr = Inr n"
    and b': "b' = (if n = expr then BExpr expr env else mk_bool (gc_bool A n env))"
    by (auto elim!: rbind_InrE split: if_splits)
  have "wf_bool (int (length env)) n" using wf_eval(2) [of "int (length env)" expr A] assms(1) n BExpr by simp
  then show ?thesis using mk_bool_gc_sound(1) assms(1) BExpr by (simp add: b')
qed

lemma BoolExpression_eval_denote:
  assumes "be_ok b" "bdenote \<gamma> b = Some c"
  shows "\<exists>b'. BoolExpression_eval A b = Inr b' \<and> bdenote \<gamma> b' = Some c"
proof (cases b)
  case (BExpr expr env)
  with assms(2) obtain n where n: "eval_bool A expr = Inr n" "bsem (env_val \<gamma> env) n = Some c"
    using eval_sound_both(2) [of "env_val \<gamma> env" expr c A] by auto
  moreover have "wf_bool (int (length env)) n"
    using wf_eval(2) [of "int (length env)" expr A] assms(1) n BExpr by simp
  ultimately show ?thesis
    using BExpr assms mk_bool_gc_sound(2) [of env n \<gamma> c A] by auto
qed

section \<open>Assertions\<close>

lemma Assertion_of_sound:
  assumes "ie_ok var" "ie_ok val"
  shows "as_ok (Assertion_of A var val)"
    and "denote \<gamma> var = Some w \<Longrightarrow> denote \<gamma> val = Some w \<Longrightarrow> as_holds \<gamma> (Assertion_of A var val)"
proof -
  have sub: "set (getEnv var) \<subseteq> set (sorted_union (getEnv var) (getEnv val))"
    "set (getEnv val) \<subseteq> set (sorted_union (getEnv var) (getEnv val))" by simp_all
  show "as_ok (Assertion_of A var val)"
    using nrm_sound(1) [OF assms(1) sub(1)] nrm_sound(1) [OF assms(2) sub(2)]
      ie_ok_parts [OF assms(1)] ie_ok_parts [OF assms(2)]
    by (simp add: as_ok_def Assertion_of_def Let_def sorted_union_ok)
  show "denote \<gamma> var = Some w \<Longrightarrow> denote \<gamma> val = Some w \<Longrightarrow> as_holds \<gamma> (Assertion_of A var val)"
    using nrm_sound(2) [OF assms(1) sub(1)] nrm_sound(2) [OF assms(2) sub(2)]
    by (simp add: as_holds_def Assertion_of_def Let_def)
qed

text \<open>The two sides of an assertion, aligned on a larger environment.\<close>

lemma assertion_aligned:
  assumes "as_ok a" "set (aenv a) \<subseteq> set unione"
  shows "wf_int (int (length unione)) (norm_int A (psecond (assertion a)) (aenv a) unione)"
    and "as_holds \<gamma> a \<Longrightarrow> isem (env_val \<gamma> unione) (norm_int A (pfirst (assertion a)) (aenv a) unione)
      = isem (env_val \<gamma> unione) (norm_int A (psecond (assertion a)) (aenv a) unione)"
  using assms norm_int_sound(1) [of "aenv a" "psecond (assertion a)" unione]
    norm_int_sound(2) [of "aenv a" "psecond (assertion a)" unione]
    norm_int_sound(2) [of "aenv a" "pfirst (assertion a)" unione]
  by (auto simp: as_ok_def as_holds_def)

lemma IntExpression_setAssertion_denote:
  assumes "ie_ok e" "as_ok a" "as_holds \<gamma> a" "denote \<gamma> e = Some v"
  shows "\<exists>e'. IntExpression_setAssertion A a e = Inr e' \<and> ie_ok e' \<and> denote \<gamma> e' = Some v"
proof (cases e)
  case (IExpr expr env)
  show ?thesis
  proof (cases "supersets env (aenv a)")
    case True
    define unione where "unione = sorted_union (aenv a) env"
    define pa where "pa = \<lparr>pfirst = norm_int A (pfirst (assertion a)) (aenv a) unione,
        psecond = norm_int A (psecond (assertion a)) (aenv a) unione\<rparr>"
    have sub: "set (aenv a) \<subseteq> set unione" "set env \<subseteq> set unione" by (simp_all add: unione_def)
    have ok: "env_ok unione" using assms(1,2) IExpr by (simp add: unione_def as_ok_def sorted_union_ok)
    have expr: "wf_int (int (length env)) expr" "isem (env_val \<gamma> env) expr = Some v"
      using assms(1,4) IExpr by auto
    note aligned = assertion_aligned [where A = A, OF assms(2) sub(1)]
    note ex = norm_int_sound [where A = A, OF expr(1) sub(2)]
    obtain x where x: "assert_int A pa (norm_int A expr env unione) = Inr x"
      "isem (env_val \<gamma> unione) x = Some v"
      using assert_sound_both(1) [of "env_val \<gamma> unione" pa _ v A] aligned(2) [OF assms(3)] ex(2) [OF expr(2)]
      by (auto simp: pa_def)
    have "wf_int (int (length unione)) x"
      using wf_assert(1) [of "int (length unione)" pa "norm_int A expr env unione" A] aligned(1) ex(1) x
      by (simp add: pa_def)
    with x True IExpr mk_int_gc_sound [OF this ok] show ?thesis
      by (simp add: Let_def flip: unione_def pa_def)
  qed (use assms IExpr in auto)
qed (use assms in auto)

lemma BoolExpression_setAssertion_denote:
  assumes "be_ok b" "as_ok a" "as_holds \<gamma> a" "bdenote \<gamma> b = Some c"
  shows "\<exists>b'. BoolExpression_setAssertion A a b = Inr b' \<and> be_ok b' \<and> bdenote \<gamma> b' = Some c"
proof (cases b)
  case (BExpr expr env)
  show ?thesis
  proof (cases "supersets env (aenv a)")
    case True
    define unione where "unione = sorted_union (aenv a) env"
    define pa where "pa = \<lparr>pfirst = norm_int A (pfirst (assertion a)) (aenv a) unione,
        psecond = norm_int A (psecond (assertion a)) (aenv a) unione\<rparr>"
    have sub: "set (aenv a) \<subseteq> set unione" "set env \<subseteq> set unione" by (simp_all add: unione_def)
    have ok: "env_ok unione" using assms(1,2) BExpr by (simp add: unione_def as_ok_def sorted_union_ok)
    have expr: "wf_bool (int (length env)) expr" "bsem (env_val \<gamma> env) expr = Some c"
      using assms(1,4) BExpr by auto
    note aligned = assertion_aligned [where A = A, OF assms(2) sub(1)]
    note ex = norm_bool_sound [where A = A, OF expr(1) sub(2)]
    obtain x where x: "assert_bool A pa (norm_bool A expr env unione) = Inr x"
      "bsem (env_val \<gamma> unione) x = Some c"
      using assert_sound_both(2) [of "env_val \<gamma> unione" pa _ c A] aligned(2) [OF assms(3)] ex(2) [OF expr(2)]
      by (auto simp: pa_def)
    have "wf_bool (int (length unione)) x"
      using wf_assert(2) [of "int (length unione)" pa "norm_bool A expr env unione" A] aligned(1) ex(1) x
      by (simp add: pa_def)
    with x True BExpr mk_bool_gc_sound [OF this ok] show ?thesis
      by (simp add: Let_def flip: unione_def pa_def)
  qed (use assms BExpr in auto)
qed

section \<open>Composing assertions\<close>

lemma PAssertion_and_sound:
  assumes "isem \<sigma> (pfirst b) = isem \<sigma> (psecond b)" "isem \<sigma> (psecond a) = Some w"
  shows "\<exists>c. PAssertion_and A a b = Inr c \<and> pfirst c = pfirst a \<and> isem \<sigma> (psecond c) = Some w"
proof -
  obtain e where e: "assert_int A b (psecond a) = Inr e" "isem \<sigma> e = Some w"
    using assert_sound_both(1) [OF assms] by blast
  obtain e' where "eval_int A e = Inr e'" "isem \<sigma> e' = Some w"
    using eval_sound_both(1) [OF e(2)] by blast
  with e show ?thesis by (simp add: PAssertion_and_def)
qed

lemma PAssertion_and_wf:
  assumes "wf_int n (pfirst a)" "wf_int n (psecond a)" "wf_int n (psecond b)" "PAssertion_and A a b = Inr c"
  shows "wf_int n (pfirst c) \<and> wf_int n (psecond c)"
proof -
  obtain e e' where "assert_int A b (psecond a) = Inr e" "eval_int A e = Inr e'"
    "c = \<lparr>pfirst = pfirst a, psecond = e'\<rparr>"
    using assms(4) by (auto simp: PAssertion_and_def elim!: rbind_InrE)
  with assms(1-3) wf_assert(1) [OF assms(3,2), of A] wf_eval(1) [of n e A] show ?thesis by simp
qed

lemma Assertion_and_sound:
  assumes ok: "as_ok a" "as_ok b" and holds: "as_holds \<gamma> a" "as_holds \<gamma> b"
  shows "\<exists>c. Assertion_and A a b = Inr c \<and> as_ok c \<and> as_holds \<gamma> c"
proof -
  define u where "u = sorted_union (aenv a) (aenv b)"
  have sub: "set (aenv a) \<subseteq> set u" "set (aenv b) \<subseteq> set u" by (simp_all add: u_def)
  have env: "env_ok u" using ok by (simp add: u_def as_ok_def sorted_union_ok)
  define pa where "pa = \<lparr>pfirst = norm_int A (pfirst (assertion a)) (aenv a) u,
      psecond = norm_int A (psecond (assertion a)) (aenv a) u\<rparr>"
  define pb where "pb = \<lparr>pfirst = norm_int A (pfirst (assertion b)) (aenv b) u,
      psecond = norm_int A (psecond (assertion b)) (aenv b) u\<rparr>"
  obtain w where w: "isem (env_val \<gamma> u) (pfirst pa) = Some w" "isem (env_val \<gamma> u) (psecond pa) = Some w"
    using holds(1) ok(1) norm_int_sound(2) [OF _ sub(1), where A = A]
    by (auto simp: as_holds_def as_ok_def pa_def)
  obtain x where x: "isem (env_val \<gamma> u) (pfirst pb) = Some x" "isem (env_val \<gamma> u) (psecond pb) = Some x"
    using holds(2) ok(2) norm_int_sound(2) [OF _ sub(2), where A = A]
    by (auto simp: as_holds_def as_ok_def pb_def)
  obtain c where c: "PAssertion_and A pa pb = Inr c" "pfirst c = pfirst pa"
    "isem (env_val \<gamma> u) (psecond c) = Some w"
    using PAssertion_and_sound [of "env_val \<gamma> u" pb pa w A] w x by auto
  have "wf_int (int (length u)) (pfirst c) \<and> wf_int (int (length u)) (psecond c)"
    using ok norm_int_sound(1) [OF _ sub(1), where A = A] norm_int_sound(1) [OF _ sub(2), where A = A]
    by (intro PAssertion_and_wf [OF _ _ _ c(1)]) (auto simp: as_ok_def pa_def pb_def)
  with c w(1) env have "as_ok \<lparr>assertion = c, aenv = u\<rparr>" "as_holds \<gamma> \<lparr>assertion = c, aenv = u\<rparr>"
    by (auto simp: as_ok_def as_holds_def)
  moreover have "Assertion_and A a b = Inr \<lparr>assertion = c, aenv = u\<rparr>"
    by (simp add: Assertion_and_def Let_def c(1) flip: u_def pa_def pb_def)
  ultimately show ?thesis by blast
qed

section \<open>The factory\<close>

lemma createIConstant_sound:
  "ie_ok (createIConstant c)" "taggable c \<Longrightarrow> denote \<gamma> (createIConstant c) = Some c"
  by (simp_all add: createIConstant_def concrete_tag untag_tag_small chk_def)
     (simp add: tag_const_def Let_def)

lemma int_createBinary_sound:
  assumes "wf_int n l" "wf_int n r" "isem \<sigma> l = Some i" "isem \<sigma> r = Some j"
  shows "binary_sem k i j = Some v
      \<Longrightarrow> \<exists>e. int_createBinary A (binary_type k) l r = Inr e \<and> wf_int n e \<and> isem \<sigma> e = Some v"
    and "nary_sem k' [i, j] = Some v
      \<Longrightarrow> \<exists>e. int_createBinary A (nary_type k') l r = Inr e \<and> wf_int n e \<and> isem \<sigma> e = Some v"
proof -
  have ndef: "l \<noteq> NDefExpr" "r \<noteq> NDefExpr" using assms by auto
  show "binary_sem k i j = Some v
      \<Longrightarrow> \<exists>e. int_createBinary A (binary_type k) l r = Inr e \<and> wf_int n e \<and> isem \<sigma> e = Some v"
    using assms ndef by (simp add: int_createBinary_class bin_opt_def)
  have "int_createBinary A (nary_type k') l r
      = int_createNary A (nary_type k') (ms_insert (iless A) r (ms_insert (iless A) l []))"
    using ndef by (cases k') (simp_all add: int_createBinary_def)
  moreover have "isem \<sigma> (NaryIntExpr k' (ms_insert (iless A) r [l])) = isem \<sigma> (NaryIntExpr k' [l, r])"
    by (rule isem_Nary_mset_cong) simp
  ultimately show "nary_sem k' [i, j] = Some v
      \<Longrightarrow> \<exists>e. int_createBinary A (nary_type k') l r = Inr e \<and> wf_int n e \<and> isem \<sigma> e = Some v"
    using assms ndef by (simp add: int_createNary_class lift_list_def)
qed

lemma createBinary_sound:
  assumes ok: "ie_ok l" "ie_ok r" and val: "denote \<gamma> l = Some i" "denote \<gamma> r = Some j"
  shows "binary_sem k i j = Some v
      \<Longrightarrow> \<exists>e. createBinary A (binary_type k) l r = Inr e \<and> ie_ok e \<and> denote \<gamma> e = Some v"
    and "nary_sem k' [i, j] = Some v
      \<Longrightarrow> \<exists>e. createBinary A (nary_type k') l r = Inr e \<and> ie_ok e \<and> denote \<gamma> e = Some v"
proof -
  define u where "u = sorted_union (getEnv l) (getEnv r)"
  have env: "env_ok u" using ok [THEN ie_ok_parts] by (simp add: u_def sorted_union_ok)
  have sub: "set (getEnv l) \<subseteq> set u" "set (getEnv r) \<subseteq> set u" by (simp_all add: u_def)
  note sound = int_createBinary_sound [where A = A,
      OF nrm_sound(1) [where A = A, OF ok(1) sub(1)] nrm_sound(1) [where A = A, OF ok(2) sub(2)]
        nrm_sound(2) [where A = A, OF ok(1) sub(1) val(1)] nrm_sound(2) [where A = A, OF ok(2) sub(2) val(2)]]
  show "binary_sem k i j = Some v
      \<Longrightarrow> \<exists>e. createBinary A (binary_type k) l r = Inr e \<and> ie_ok e \<and> denote \<gamma> e = Some v"
    using sound(1) [of k v] env by (auto simp: createBinary_def Let_def simp flip: u_def)
  show "nary_sem k' [i, j] = Some v
      \<Longrightarrow> \<exists>e. createBinary A (nary_type k') l r = Inr e \<and> ie_ok e \<and> denote \<gamma> e = Some v"
    using sound(2) [of k' v] env by (auto simp: createBinary_def Let_def simp flip: u_def)
qed

lemma createUnary_sound:
  assumes "ie_ok (IExpr x env)" "denote \<gamma> (IExpr x env) = Some i" "unary_sem k i = Some v"
  shows "\<exists>e. createUnary A (unary_type k) (IExpr x env) = Inr e \<and> ie_ok e \<and> denote \<gamma> e = Some v"
proof -
  have n: "wf_int (int (length env)) (norm_int A x env env)"
    "isem (env_val \<gamma> env) (norm_int A x env env) = Some i"
    using norm_int_sound [of env x env] assms by auto
  then have "norm_int A x env env \<noteq> NDefExpr" by auto
  with n assms show ?thesis by (simp add: createUnary_def int_createUnary_class)
qed

lemma nary_union_IExpr:
  assumes "\<forall>p\<in>set params. \<exists>e env. p = IExpr e env" "\<forall>p\<in>set params. ie_ok p" "env_ok u"
  shows "\<exists>un. nary_union params u = Inr un \<and> env_ok un \<and> set un = set u \<union> (\<Union>p\<in>set params. set (getEnv p))"
  using assms
proof (induction params arbitrary: u)
  case (Cons p params)
  then obtain e env where p: "p = IExpr e env" by auto
  with Cons.prems have "env_ok (sorted_union u env)" by (simp add: sorted_union_ok)
  with Cons.IH [of "sorted_union u env"] Cons.prems show ?case by (auto simp: p)
qed simp

lemma mset_fold_insert_map: "mset (fold (\<lambda>x ps. ms_insert lt (f x) ps) xs ys) = mset (map f xs) + mset ys"
  by (induction xs arbitrary: ys) auto

lemma set_fold_insert_map: "set (fold (\<lambda>x ps. set_insert lt (f x) ps) xs ys) = f ` set xs \<union> set ys"
  by (induction xs arbitrary: ys) auto

lemma createNary_sound:
  assumes shape: "\<forall>p\<in>set params. \<exists>e env. p = IExpr e env" and ok: "\<forall>p\<in>set params. ie_ok p"
    and val: "map (denote \<gamma>) params = map Some vs" and sem: "nary_sem k vs = Some v"
  shows "\<exists>e. createNary A (nary_type k) params = Inr e \<and> ie_ok e \<and> denote \<gamma> e = Some v"
proof -
  obtain u where u: "nary_union params [] = Inr u" "env_ok u" "\<forall>p\<in>set params. set (getEnv p) \<subseteq> set u"
    using nary_union_IExpr [OF shape ok, of "[]"] by auto
  define ps where "ps = fold (\<lambda>it ps. ms_insert (iless A) (nrm A it u) ps) params []"
  have ms: "mset ps = mset (map (\<lambda>p. nrm A p u) params)"
    by (simp add: ps_def mset_fold_insert_map)
  have opval: "isem (env_val \<gamma> u) (nrm A p u) = denote \<gamma> p \<and> denote \<gamma> p \<noteq> None" if "p \<in> set params" for p
  proof -
    have "denote \<gamma> p \<in> Some ` set vs" using val that by (metis image_set image_eqI list.set_map)
    then obtain w where "denote \<gamma> p = Some w" by blast
    with that ok u(3) nrm_sound(2) [of p u \<gamma> w A] show ?thesis by simp
  qed
  have "map (isem (env_val \<gamma> u)) (map (\<lambda>p. nrm A p u) params) = map (denote \<gamma>) params"
    using opval by simp
  then have vals: "map (isem (env_val \<gamma> u)) (map (\<lambda>p. nrm A p u) params) = map Some vs"
    unfolding val .
  have "isem (env_val \<gamma> u) (NaryIntExpr k ps) = isem (env_val \<gamma> u) (NaryIntExpr k (map (\<lambda>p. nrm A p u) params))"
    by (rule isem_Nary_mset_cong [OF ms])
  also have "\<dots> = lift_list (nary_sem k) (map Some vs)"
    using vals by (simp only: isem.simps)
  also have "\<dots> = Some v" using sem by (simp add: lift_list_def o_def image_iff)
  finally have val': "isem (env_val \<gamma> u) (NaryIntExpr k ps) = Some v" .
  have elems: "set ps = (\<lambda>p. nrm A p u) ` set params" using mset_eq_setD [OF ms] by simp
  have "list_all (wf_int (int (length u))) ps"
    unfolding list_all_iff elems using ok u(3) nrm_sound(1) by blast
  moreover have "NDefExpr \<notin> set ps"
    unfolding elems using opval isem_NDefExpr_iff(1) by (metis (no_types, lifting) imageE option.collapse)
  ultimately show ?thesis
    using val' u by (simp add: createNary_def int_createNary_class flip: ps_def)
qed

section \<open>Boolean expressions\<close>

lemma createBComparison_sound:
  assumes ok: "ie_ok l" "ie_ok r" and val: "denote \<gamma> l = Some i" "denote \<gamma> r = Some j"
  shows "\<exists>b. createBComparison A (comp_type k) l r = Inr b \<and> be_ok b \<and> bdenote \<gamma> b = Some (comp_sem k i j)"
proof -
  define u where "u = sorted_union (getEnv l) (getEnv r)"
  have env: "env_ok u" using ok [THEN ie_ok_parts] by (simp add: u_def sorted_union_ok)
  have sub: "set (getEnv l) \<subseteq> set u" "set (getEnv r) \<subseteq> set u" by (simp_all add: u_def)
  note l = nrm_sound [where A = A, OF ok(1) sub(1)] and r = nrm_sound [where A = A, OF ok(2) sub(2)]
  have "nrm A l u \<noteq> NDefExpr" "nrm A r u \<noteq> NDefExpr" using l(2) [OF val(1)] r(2) [OF val(2)] by auto
  with l r val env show ?thesis
    by (simp add: createBComparison_def Let_def createComparison_class bin_opt_def flip: u_def)
qed

text \<open>Two operands, each flattened when it is of the same kind already.\<close>

definition two_params :: "heap_order \<Rightarrow> BoolExprType \<Rightarrow> pbool \<Rightarrow> pbool \<Rightarrow> pbool list" where
  "two_params A type l r =
     (if bool_getType l \<noteq> type \<and> bool_getType r \<noteq> type
      then (if bless A l r then [l, r] else [r, l])
      else if bool_getType l = type \<and> bool_getType r = type
      then set_union (bless A) (bool_params l) (bool_params r)
      else if bool_getType l = type then set_union (bless A) (bool_params l) [r]
      else set_union (bless A) (bool_params r) [l])"

lemma bsem_params_or_self:
  "nbool_sem k (map (bsem \<sigma>) (if bool_getType b = nbool_type k then bool_params b else [b])) = bsem \<sigma> b"
proof (cases "bool_getType b = nbool_type k")
  case True
  then show ?thesis using nary_of_type [of b k] bsem.simps(1) [of \<sigma> k "bool_params b"] by simp
next
  case False
  then show ?thesis by (cases k; cases "bsem \<sigma> b") (auto simp: nbool_sem_def)
qed

lemma nbool_sem_append:
  "nbool_sem k (xs @ ys) = nbool_sem k [nbool_sem k xs, nbool_sem k ys]"
  by (cases k) (auto simp: nbool_sem_def)

lemma bool_createBinary_sound:
  assumes "bsem \<sigma> l = Some c" "bsem \<sigma> r = Some d" "wf_bool n l" "wf_bool n r"
  shows "\<exists>b. bool_createBinary A (nbool_type k) l r = Inr b \<and> wf_bool n b
    \<and> bsem \<sigma> b = nbool_sem k [Some c, Some d]"
proof (cases "bool_getType l \<noteq> nbool_type k \<and> bool_getType r \<noteq> nbool_type k \<and> l = r")
  case True
  then have "bool_createBinary A (nbool_type k) l r = Inr l" by (simp add: bool_createBinary_def)
  with True assms show ?thesis by (cases k) (auto simp: nbool_sem_def)
next
  case False
  define ps where "ps = two_params A (nbool_type k) l r"
  let ?flat = "\<lambda>b. if bool_getType b = nbool_type k then bool_params b else [b]"
  have elems: "set ps = set (?flat l @ ?flat r)" by (auto simp: ps_def two_params_def)
  then have "nbool_sem k (map (bsem \<sigma>) ps) = nbool_sem k (map (bsem \<sigma>) (?flat l @ ?flat r))"
    by (intro nbool_sem_set_cong) (simp only: set_map)
  also have "\<dots> = nbool_sem k [Some c, Some d]"
    unfolding map_append by (subst nbool_sem_append) (simp only: bsem_params_or_self assms)
  finally have sem: "nbool_sem k (map (bsem \<sigma>) ps) = nbool_sem k [Some c, Some d]" .
  have wf: "list_all (wf_bool n) ps"
    using assms(3,4) wf_bool_params by (auto simp: list_all_iff elems)
  have res: "bool_createBinary A (nbool_type k) l r
      = (case ps of [e] \<Rightarrow> Inr e | _ \<Rightarrow> Inr (NaryBoolExpr k ps))"
    using False unfolding bool_createBinary_def ps_def two_params_def Let_def bool_node_class
    by (simp only: if_False)
  show ?thesis
  proof (cases "\<exists>e. ps = [e]")
    case True
    then obtain e where e: "ps = [e]" by blast
    with sem have "bsem \<sigma> e = nbool_sem k [Some c, Some d]"
      by (cases k; cases "bsem \<sigma> e") (auto simp: nbool_sem_def)
    with res wf e show ?thesis by simp
  next
    case False
    then have "bool_createBinary A (nbool_type k) l r = Inr (NaryBoolExpr k ps)"
      unfolding res by (auto split: list.splits)
    with sem wf show ?thesis by simp
  qed
qed

lemma createBoolBinary_sound:
  assumes ok: "be_ok l" "be_ok r" and val: "bdenote \<gamma> l = Some c" "bdenote \<gamma> r = Some d"
  shows "\<exists>b. createBoolBinary A (nbool_type k) l r = Inr b \<and> be_ok b
    \<and> bdenote \<gamma> b = nbool_sem k [Some c, Some d]"
proof -
  define u where "u = sorted_union (bgetEnv l) (bgetEnv r)"
  have env: "env_ok u" using ok [THEN be_ok_parts] by (simp add: u_def sorted_union_ok)
  have sub: "set (bgetEnv l) \<subseteq> set u" "set (bgetEnv r) \<subseteq> set u" by (simp_all add: u_def)
  note l = bnrm_sound [where A = A, OF ok(1) sub(1)] and r = bnrm_sound [where A = A, OF ok(2) sub(2)]
  show ?thesis
    using bool_createBinary_sound [OF l(2) [OF val(1)] r(2) [OF val(2)] l(1) r(1), of A k] env
    by (auto simp: createBoolBinary_def Let_def simp flip: u_def)
qed

lemma bool_union_ok:
  "\<forall>p\<in>set params. be_ok p \<Longrightarrow> env_ok u \<Longrightarrow>
     env_ok (fold (\<lambda>it u. sorted_union u (bgetEnv it)) params u)
     \<and> set (fold (\<lambda>it u. sorted_union u (bgetEnv it)) params u) = set u \<union> (\<Union>p\<in>set params. set (bgetEnv p))"
proof (induction params arbitrary: u)
  case (Cons p params)
  then have "env_ok (sorted_union u (bgetEnv p))" using be_ok_parts [of p] by (simp add: sorted_union_ok)
  with Cons.IH [of "sorted_union u (bgetEnv p)"] Cons.prems show ?case by auto
qed simp

lemma createBoolNary_sound:
  assumes ok: "\<forall>p\<in>set params. be_ok p" and val: "\<forall>p\<in>set params. bdenote \<gamma> p \<noteq> None"
  shows "\<exists>b. createBoolNary A (nbool_type k) params = Inr b \<and> be_ok b
    \<and> bdenote \<gamma> b = nbool_sem k (map (bdenote \<gamma>) params)"
proof -
  define u where "u = fold (\<lambda>it u. sorted_union u (bgetEnv it)) params []"
  have u: "env_ok u" "\<forall>p\<in>set params. set (bgetEnv p) \<subseteq> set u"
    using bool_union_ok [OF ok, of "[]"] by (auto simp: u_def)
  define ps where "ps = fold (\<lambda>it ps. set_insert (bless A) (bnrm A it u) ps) params []"
  have elems: "set ps = (\<lambda>p. bnrm A p u) ` set params" by (simp add: ps_def set_fold_insert_map)
  have opval: "bsem (env_val \<gamma> u) (bnrm A p u) = bdenote \<gamma> p" if "p \<in> set params" for p
    using bnrm_sound(2) [of p u \<gamma> _ A] ok u(2) val that by fastforce
  have "set (map (bsem (env_val \<gamma> u)) ps) = set (map (bdenote \<gamma>) params)"
    using opval by (auto simp: elems image_iff)
  then have "bsem (env_val \<gamma> u) (nbool_node A k ps) = nbool_sem k (map (bdenote \<gamma>) params)"
    unfolding bsem_nbool_node bsem.simps by (rule nbool_sem_set_cong)
  moreover have "wf_bool (int (length u)) (nbool_node A k ps)"
    by (rule wf_nodes) (use ok u(2) bnrm_sound(1) in \<open>auto simp: list_all_iff elems\<close>)
  moreover have "bool_createNary A (nbool_type k) ps = Inr (nbool_node A k ps)"
    by (simp add: bool_createNary_class nbool_node_eq)
  ultimately show ?thesis using u(1) by (simp add: createBoolNary_def Let_def flip: u_def ps_def)
qed

lemma createNot_sound: "bdenote \<gamma> b = Some c \<Longrightarrow> bdenote \<gamma> (createNot b) = Some (\<not> c)"
  by (cases b) (simp add: createNot_def)

lemma wrapBoolExpr_sound: "bdenote \<gamma> b = Some c \<Longrightarrow> denote \<gamma> (wrapBoolExpr b) = Some (if c then 1 else 0)"
  by (cases b) (simp add: wrapBoolExpr_def)

lemma BoolExpression_pushNegations_sound:
  "bdenote \<gamma> (BoolExpression_pushNegations A b) = bdenote \<gamma> b"
  by (cases b) (simp add: BoolExpression_pushNegations_def bsem_pushNegations)

section \<open>Which variables an expression depends on\<close>

lemma denote_coincidence:
  assumes "ie_ok e" "\<forall>g\<in>set (getEnv e). scalar \<gamma> g = scalar \<delta> g \<and> cell \<gamma> g = cell \<delta> g"
  shows "denote \<gamma> e = denote \<delta> e"
proof (cases e)
  case (IExpr x env)
  have "env ! nat y \<in> set env" if "y \<in> vars_int x" for y
    using wf_vars(1) [of "int (length env)" x] assms(1) IExpr that by (auto simp: nat_less_iff)
  with assms(2) IExpr show ?thesis
    by (auto intro!: sem_coincidence(1))
qed simp

end
