(* ===== verification/Gal_Canon.thy ===== *)
theory Gal_Canon imports Gal_IntSound begin

text \<open>
  The form in which \<open>eval\<close> and \<open>operator&\<close> leave an integer expression (constants folded, operands in
  address order), what it mentions, and how a resolution step makes it smaller. This is what the
  termination of the symbolic evaluation in \<open>ExprHom.cpp\<close> rests on. Addresses are a strict total order.
\<close>

section \<open>Strict total orders and sorted lists\<close>

definition linear_less :: "('a \<Rightarrow> 'a \<Rightarrow> bool) \<Rightarrow> bool" where
  "linear_less lt \<longleftrightarrow> (\<forall>x. \<not> lt x x) \<and> (\<forall>x y z. lt x y \<longrightarrow> lt y z \<longrightarrow> lt x z) \<and> (\<forall>x y. x \<noteq> y \<longrightarrow> lt x y \<or> lt y x)"

definition ascending :: "('a \<Rightarrow> 'a \<Rightarrow> bool) \<Rightarrow> 'a list \<Rightarrow> bool" where
  "ascending lt xs \<longleftrightarrow> sorted_wrt (\<lambda>x y. \<not> lt y x) xs"

lemma ascending_simps [simp]:
  "ascending lt []" "ascending lt (x # xs) \<longleftrightarrow> (\<forall>y\<in>set xs. \<not> lt y x) \<and> ascending lt xs"
  by (simp_all add: ascending_def)

lemma ascending_filter: "ascending lt xs \<Longrightarrow> ascending lt (filter P xs)"
  by (simp add: ascending_def sorted_wrt_filter)

lemma ascending_ms_insert: "linear_less lt \<Longrightarrow> ascending lt xs \<Longrightarrow> ascending lt (ms_insert lt x xs)"
proof (induction xs)
  case (Cons y ys)
  have irr: "\<not> lt z z" and tr: "lt z x \<Longrightarrow> lt x y \<Longrightarrow> lt z y" for z
    using Cons.prems(1) unfolding linear_less_def by blast+
  have asym: "lt x y \<Longrightarrow> \<not> lt y x"
    using Cons.prems(1) unfolding linear_less_def by blast
  show ?case using Cons.IH Cons.prems asym tr by auto
qed simp

lemma ascending_fold_insert:
  "linear_less lt \<Longrightarrow> ascending lt ys \<Longrightarrow> ascending lt (fold (ms_insert lt) xs ys)"
  by (induction xs arbitrary: ys) (simp_all add: ascending_ms_insert)

lemma ascending_unique:
  assumes lin: "linear_less lt"
  shows "ascending lt xs \<Longrightarrow> ascending lt ys \<Longrightarrow> mset xs = mset ys \<Longrightarrow> xs = ys"
proof (induction xs arbitrary: ys)
  case (Cons x xs)
  then obtain y zs where ys: "ys = y # zs" by (cases ys) auto
  have "x = y"
  proof (rule ccontr)
    assume neq: "x \<noteq> y"
    have "set (x # xs) = set (y # zs)" using Cons.prems(3) ys by (metis set_mset_mset)
    then have "x \<in> set zs" "y \<in> set xs" using neq by auto
    then have "\<not> lt x y" "\<not> lt y x" using Cons.prems ys by auto
    with neq lin show False unfolding linear_less_def by blast
  qed
  with Cons ys show ?case by simp
qed simp

lemma fold_insert_ascending:
  assumes "linear_less lt" "ascending lt xs"
  shows "fold (ms_insert lt) xs [] = xs"
  by (rule ascending_unique [OF assms(1) _ assms(2)])
     (simp_all add: assms ascending_fold_insert stl_multiset.bag_fold)

lemma fold_insert_map:
  assumes "linear_less lt"
  shows "fold (ms_insert lt) (map f (fold (ms_insert lt) (map g xs) [])) [] = fold (ms_insert lt) (map (f \<circ> g) xs) []"
  by (rule ascending_unique [OF assms])
     (simp_all add: assms ascending_fold_insert stl_multiset.bag_fold multiset.map_comp)

section \<open>What an expression mentions\<close>

datatype loc = Scalar int | Cell int int

text \<open>The variables and cells that occur as such, the accesses \<open>(array, size)\<close> whose index is not known,
  and all cells these can reach.\<close>

fun leaves :: "pint \<Rightarrow> loc set" where
  "leaves (VarExpr x) = {Scalar x}"
| "leaves (ArrayConstExpr a i) = {Cell a i}"
| "leaves (ArrayVarExpr a i l) = leaves i"
| "leaves (NaryIntExpr k ps) = (\<Union>p\<in>set ps. leaves p)"
| "leaves (UnaryIntExpr k e) = leaves e"
| "leaves (BinaryIntExpr k l r) = leaves l \<union> leaves r"
| "leaves e = {}"

fun accesses :: "pint \<Rightarrow> (int \<times> int) set" where
  "accesses (ArrayVarExpr a i l) = insert (a, l) (accesses i)"
| "accesses (NaryIntExpr k ps) = (\<Union>p\<in>set ps. accesses p)"
| "accesses (UnaryIntExpr k e) = accesses e"
| "accesses (BinaryIntExpr k l r) = accesses l \<union> accesses r"
| "accesses e = {}"

fun indexes :: "pint \<Rightarrow> pint set" where
  "indexes (ArrayVarExpr a i l) = insert i (indexes i)"
| "indexes (NaryIntExpr k ps) = (\<Union>p\<in>set ps. indexes p)"
| "indexes (UnaryIntExpr k e) = indexes e"
| "indexes (BinaryIntExpr k l r) = indexes l \<union> indexes r"
| "indexes e = {}"

definition mentions :: "pint \<Rightarrow> loc set" where
  "mentions e = leaves e \<union> {Cell a k | a k. \<exists>l. (a, l) \<in> accesses e \<and> 0 \<le> k \<and> k < l}"

section \<open>Canonical expressions\<close>

fun is_const :: "pint \<Rightarrow> bool" where
  "is_const (ConstTag t) \<longleftrightarrow> True"
| "is_const e \<longleftrightarrow> False"

lemma is_const_iff: "is_const e \<longleftrightarrow> (\<exists>t. e = ConstTag t)"
  by (cases e) auto

text \<open>No operand of type \<open>bool\<close> (\<open>WrapBoolExpr\<close>), no undefined one, at most one constant in a sum or product.\<close>

fun canon :: "heap_order \<Rightarrow> pint \<Rightarrow> bool" where
  "canon A (VarExpr x) \<longleftrightarrow> True"
| "canon A (ConstTag t) \<longleftrightarrow> taggable (untag_const t) \<and> tag_const (untag_const t) = t"
| "canon A NDefExpr \<longleftrightarrow> False"
| "canon A (WrapBoolExpr b) \<longleftrightarrow> False"
| "canon A (ArrayVarExpr a i l) \<longleftrightarrow> canon A i \<and> \<not> is_const i"
| "canon A (ArrayConstExpr a i) \<longleftrightarrow> True"
| "canon A (NaryIntExpr k ps) \<longleftrightarrow> 2 \<le> length ps \<and> ascending (iless A) ps \<and> length (filter is_const ps) \<le> 1
     \<and> createConstant (getNeutralElement k) \<notin> set ps \<and> (\<forall>p\<in>set ps. canon A p)"
| "canon A (UnaryIntExpr k e) \<longleftrightarrow> canon A e \<and> \<not> is_const e"
| "canon A (BinaryIntExpr k l r) \<longleftrightarrow> canon A l \<and> canon A r \<and> \<not> (is_const l \<and> is_const r)"

lemma canon_createConstant: "taggable c \<Longrightarrow> canon A (createConstant c)"
  by (simp add: createConstant_def untag_tag_small)

lemma createConstant_inj: "taggable c \<Longrightarrow> taggable d \<Longrightarrow> createConstant c = createConstant d \<longleftrightarrow> c = d"
  by (metis createConstant_def pint.inject(2) untag_tag_small)

lemma const_mentions [simp]:
  "leaves (createConstant c) = {}" "accesses (createConstant c) = {}" "isize (createConstant c) = 1"
  "is_const (createConstant c)" "vars_int (createConstant c) = {}"
  by (simp_all add: createConstant_def)

lemma taggable_neutral: "taggable (getNeutralElement k)"
  by (cases k) (simp_all add: taggable_def)

text \<open>What comes out of a step compared with what went in.\<close>

definition no_more :: "pint \<Rightarrow> pint set \<Rightarrow> bool" where
  "no_more e es \<longleftrightarrow> leaves e \<subseteq> (\<Union>x\<in>es. leaves x) \<and> accesses e \<subseteq> (\<Union>x\<in>es. accesses x)"

lemma no_more_const [simp]: "no_more (createConstant c) es"
  by (simp add: no_more_def)

section \<open>Nodes rebuilt from canonical operands\<close>

lemma nary_loop_parts:
  "nary_loop A k (map Inr es) c p = Inr (Some (c', p')) \<Longrightarrow>
     p' = fold (ms_insert (iless A)) (filter (\<lambda>e. \<not> is_const e) es) p
     \<and> (filter is_const es = [] \<longrightarrow> c' = c)"
proof (induction es arbitrary: c p)
  case (Cons e es)
  show ?case
  proof (cases e)
    case (ConstTag t)
    with Cons.prems obtain c1 where "nary_loop A k (map Inr es) c1 p = Inr (Some (c', p'))"
      by (auto elim!: rbind_InrE)
    from Cons.IH [OF this] ConstTag show ?thesis by simp
  qed (use Cons in auto)
qed simp

lemma nary_params_canon:
  assumes lin: "linear_less (iless A)" and es: "\<forall>e\<in>set es. canon A e" and c: "taggable c"
    and p: "p = fold (ms_insert (iless A)) (filter (\<lambda>e. \<not> is_const e) es) []"
    and e: "(case nary_params A k c p of [e] \<Rightarrow> Inr e
        | _ \<Rightarrow> int_createNary A (nary_type k) (nary_params A k c p)) = Inr e"
  shows "canon A e \<and> no_more e (set es)"
proof -
  have set_p: "set p = {e \<in> set es. \<not> is_const e}" by (auto simp: p stl_multiset.elems_fold)
  have asc: "ascending (iless A) p" by (simp add: p ascending_fold_insert [OF lin])
  define ps where "ps = nary_params A k c p"
  have set_ps: "set ps \<subseteq> insert (createConstant c) (set p)" by (auto simp: ps_def nary_params_def)
  have canon_ps: "\<forall>x\<in>set ps. canon A x"
    using set_ps set_p es canon_createConstant [OF c] by auto
  have more: "\<forall>x\<in>set ps. no_more x (set es)"
    using set_ps set_p by (fastforce simp: no_more_def)
  have none: "filter is_const p = []" using set_p by (simp add: filter_empty_conv)
  show ?thesis
  proof (cases "\<exists>x. ps = [x]")
    case True
    then obtain x where "ps = [x]" by blast
    with e canon_ps more show ?thesis by (simp add: ps_def)
  next
    case False
    then have "e = nary_node A k ps"
      using e by (auto simp: ps_def nary_node_eq int_createNary_class split: list.splits)
    moreover have "NDefExpr \<notin> set ps" using canon_ps by auto
    ultimately have e: "e = NaryIntExpr k ps" by (simp add: nary_node_eq)
    have "ps \<noteq> []" by (simp add: ps_def nary_params_def)
    with False have "2 \<le> length ps" by (cases ps rule: list.exhaust; cases "tl ps") auto
    moreover have "ascending (iless A) ps"
      using asc by (simp add: ps_def nary_params_def ascending_ms_insert [OF lin])
    moreover have "length (filter is_const ps) \<le> 1"
    proof -
      have "filter_mset is_const (mset p) = {#}" using none by (metis mset.simps(1) mset_filter)
      note nil = this
      have "size (filter_mset is_const (mset ps)) \<le> 1" by (simp add: ps_def nary_params_def nil)
      then show ?thesis by (metis mset_filter size_mset)
    qed
    moreover have "createConstant (getNeutralElement k) \<notin> set ps"
    proof (cases "c \<noteq> getNeutralElement k \<or> p = []")
      case True
      show ?thesis
      proof (cases "p = []")
        case True
        then have "ps = [createConstant c]" by (simp add: ps_def nary_params_def)
        with False show ?thesis by simp
      next
        case nonempty: False
        have "createConstant (getNeutralElement k) \<notin> set p" using set_p by auto
        with True nonempty show ?thesis
          by (auto simp: ps_def nary_params_def createConstant_inj [OF taggable_neutral c])
      qed
    next
      case False
      then show ?thesis using set_p by (auto simp: ps_def nary_params_def)
    qed
    ultimately have "canon A e" using canon_ps by (simp add: e)
    moreover have "no_more e (set es)" using more by (auto simp: e no_more_def)
    ultimately show ?thesis by simp
  qed
qed

section \<open>Resolution leaves what it does not concern\<close>

lemma neutral_constEval: "taggable c \<Longrightarrow> nary_constEval k (getNeutralElement k) c = Inr c"
  by (cases k) (auto simp: PlusExpr_constEval_def MultExpr_constEval_def INT_MAX_def INT_MIN_def taggable_def int32_def
      intro!: wrap32_id)

lemma nary_loop_no_const:
  "filter is_const es = [] \<Longrightarrow> NDefExpr \<notin> set es \<Longrightarrow>
     nary_loop A k (map Inr es) c p = Inr (Some (c, fold (ms_insert (iless A)) es p))"
proof (induction es arbitrary: p)
  case (Cons e es)
  then show ?case by (cases e) (auto split: if_splits)
qed simp

lemma nary_loop_canon:
  "filter is_const es = [ConstTag t] \<Longrightarrow> NDefExpr \<notin> set es \<Longrightarrow> taggable (untag_const t) \<Longrightarrow>
     nary_loop A k (map Inr es) (getNeutralElement k) p
       = Inr (Some (untag_const t, fold (ms_insert (iless A)) (filter (\<lambda>e. \<not> is_const e) es) p))"
proof (induction es arbitrary: p)
  case (Cons e es)
  show ?case
  proof (cases "is_const e")
    case True
    with Cons.prems have e: "e = ConstTag t" "filter is_const es = []" by auto
    then have "filter (\<lambda>e. \<not> is_const e) es = es" by (simp add: filter_empty_conv filter_id_conv)
    with e Cons.prems show ?thesis by (simp add: neutral_constEval nary_loop_no_const)
  next
    case False
    with Cons show ?thesis by (cases e) auto
  qed
qed simp

lemma nary_same:
  assumes lin: "linear_less (iless A)" and canon: "canon A (NaryIntExpr k ps)"
  shows "\<exists>c p. nary_loop A k (map Inr ps) (getNeutralElement k) [] = Inr (Some (c, p)) \<and> nary_params A k c p = ps"
proof -
  from canon have asc: "ascending (iless A) ps" and two: "2 \<le> length ps"
    and ndef: "NDefExpr \<notin> set ps" and neutral: "createConstant (getNeutralElement k) \<notin> set ps"
    by auto
  show ?thesis
  proof (cases "filter is_const ps")
    case Nil
    have "nary_params A k (getNeutralElement k) ps = ps" using two by (auto simp: nary_params_def)
    with nary_loop_no_const [OF Nil ndef] fold_insert_ascending [OF lin asc] show ?thesis by metis
  next
    case (Cons e es)
    with canon have one: "filter is_const ps = [e]" by simp
    then have "e \<in> set ps \<and> is_const e" by (metis list.set_intros(1) mem_Collect_eq set_filter)
    then obtain t where t: "e = ConstTag t" "e \<in> set ps" by (auto simp: is_const_iff)
    with canon have tag: "taggable (untag_const t)" "tag_const (untag_const t) = t" by auto
    then have e: "createConstant (untag_const t) = e" by (simp add: createConstant_def t)
    define q where "q = filter (\<lambda>e. \<not> is_const e) ps"
    have q: "fold (ms_insert (iless A)) q [] = q"
      by (rule fold_insert_ascending [OF lin]) (simp add: q_def ascending_filter asc)
    have "untag_const t \<noteq> getNeutralElement k" using neutral t e by metis
    then have "nary_params A k (untag_const t) q = ms_insert (iless A) e q" by (simp add: nary_params_def e)
    moreover have "\<dots> = ps"
    proof (rule ascending_unique [OF lin _ asc])
      show "ascending (iless A) (ms_insert (iless A) e q)"
        by (intro ascending_ms_insert lin) (simp add: q_def ascending_filter asc)
      have "mset ps = mset (filter is_const ps) + mset q" by (simp add: q_def flip: multiset_partition)
      then show "mset (ms_insert (iless A) e q) = mset ps" by (simp add: one)
    qed
    ultimately have "nary_params A k (untag_const t) q = ps" by simp
    with nary_loop_canon [OF one [unfolded t(1)] ndef tag(1), of A k "[]"] q show ?thesis by (auto simp: q_def)
  qed
qed

lemma nary_setAssertion_two:
  assumes "nary_loop A k rs (getNeutralElement k) [] = Inr (Some (c, p))" "nary_params A k c p = ps"
    and "NDefExpr \<notin> set ps" "2 \<le> length ps"
  shows "NaryIntExpr_setAssertion A k a rs = Inr (PAssertion_getValue a (NaryIntExpr k ps))"
proof -
  obtain x y zs where "ps = x # y # zs" using assms(4) by (metis Suc_le_length_iff numeral_2_eq_2)
  with assms show ?thesis by (simp add: NaryIntExpr_setAssertion_def int_createNary_class)
qed

lemma getValue_smaller: "isize e < isize (pfirst a) \<Longrightarrow> PAssertion_getValue a e = e"
  by (auto simp: PAssertion_getValue_def)

fun leaf :: "pint \<Rightarrow> loc set" where
  "leaf (VarExpr x) = {Scalar x}"
| "leaf (ArrayConstExpr a i) = {Cell a i}"
| "leaf e = {}"

text \<open>An expression that is not larger than the left-hand side is that side or stays.\<close>

lemma assert_not_larger:
  "linear_less (iless A) \<Longrightarrow> canon A e \<Longrightarrow> isize e \<le> isize (pfirst a) \<Longrightarrow> \<not> is_const e \<Longrightarrow>
     assert_int A a e = Inr (PAssertion_getValue a e)"
proof (induction A e rule: canon.induct)
  case (5 A x i l)
  then have "assert_int A a i = Inr i" by (simp add: getValue_smaller)
  moreover have "createArrayAccess x i l = ArrayVarExpr x i l" using 5 by (cases i) (auto simp: createArrayAccess_def)
  ultimately show ?case by (simp add: ArrayVarExpr_setAssertion_def)
next
  case (7 A k ps)
  have "assert_int A a p = Inr p" if p: "p \<in> set ps" for p
  proof (cases "is_const p")
    case False
    have "isize p \<le> sum_list (map isize ps)" using p by (simp add: member_le_sum_list)
    with 7 p False show ?thesis by (simp add: getValue_smaller)
  qed (auto simp: is_const_iff)
  then have args: "map (assert_int A a) ps = map Inr ps" by simp
  obtain c p where loop: "nary_loop A k (map Inr ps) (getNeutralElement k) [] = Inr (Some (c, p))"
    "nary_params A k c p = ps" using nary_same [OF "7.prems"(1,2)] by blast
  have "NDefExpr \<notin> set ps" "2 \<le> length ps" using "7.prems"(2) by auto
  from nary_setAssertion_two [OF loop this, of a] show ?case by (simp only: assert_int.simps args)
next
  case (8 A k e)
  then have "assert_int A a e = Inr e" by (simp add: getValue_smaller)
  with 8 show ?case by (cases e) (auto simp: UnaryIntExpr_setAssertion_def int_createUnary_class)
next
  case (9 A k l r)
  have "assert_int A a l = Inr l" using 9 by (cases "is_const l") (auto simp: getValue_smaller is_const_iff)
  moreover have "assert_int A a r = Inr r" using 9 by (cases "is_const r") (auto simp: getValue_smaller is_const_iff)
  ultimately show ?case using 9 by (cases l; cases r) (auto simp: BinaryIntExpr_setAssertion_def int_createBinary_class)
qed simp_all

text \<open>An assertion on a variable or cell that does not occur changes nothing.\<close>

lemma not_first: "leaf (pfirst a) = {l} \<Longrightarrow> l \<notin> leaf e \<Longrightarrow> PAssertion_getValue a e = e"
  by (auto simp: PAssertion_getValue_def)

lemma assert_no_occurrence:
  "linear_less (iless A) \<Longrightarrow> canon A e \<Longrightarrow> leaf (pfirst a) = {l} \<Longrightarrow> l \<notin> leaves e \<Longrightarrow> assert_int A a e = Inr e"
proof (induction A e rule: canon.induct)
  case (1 A x)
  then show ?case by (auto simp: not_first)
next
  case (6 A x i)
  then show ?case by (auto simp: not_first)
next
  case (5 A x i m)
  have "createArrayAccess x i m = ArrayVarExpr x i m" using 5 by (cases i) (auto simp: createArrayAccess_def)
  with 5 show ?case by (auto simp: ArrayVarExpr_setAssertion_def not_first)
next
  case (7 A k ps)
  then have args: "map (assert_int A a) ps = map Inr ps" by simp
  obtain c p where loop: "nary_loop A k (map Inr ps) (getNeutralElement k) [] = Inr (Some (c, p))"
    "nary_params A k c p = ps" using nary_same [OF "7.prems"(1,2)] by blast
  have "NDefExpr \<notin> set ps" "2 \<le> length ps" using "7.prems"(2) by auto
  from nary_setAssertion_two [OF loop this, of a] "7.prems"(3) show ?case
    by (simp only: assert_int.simps args) (auto simp: not_first)
next
  case (8 A k e)
  then show ?case by (cases e) (auto simp: UnaryIntExpr_setAssertion_def int_createUnary_class not_first)
next
  case (9 A k e f)
  then show ?case
    by (cases e; cases f) (auto simp: BinaryIntExpr_setAssertion_def int_createBinary_class not_first)
qed auto

lemma disjoint_mono: "A \<inter> B = {} \<Longrightarrow> C \<subseteq> B \<Longrightarrow> A \<inter> C = {}"
  by blast

section \<open>A resolution step\<close>

text \<open>What \<open>e & a\<close> is when \<open>a\<close> gives a constant: nothing new is mentioned, the left-hand side is gone, and
  an unknown index that was resolved makes the expression smaller.\<close>

definition resolves :: "heap_order \<Rightarrow> PAssertion \<Rightarrow> pint \<Rightarrow> pint \<Rightarrow> bool" where
  "resolves A a e e' \<longleftrightarrow> canon A e' \<and> isize e' \<le> isize e \<and> leaves e' \<subseteq> mentions e \<and> accesses e' \<subseteq> accesses e
     \<and> leaf (pfirst a) \<inter> leaves e' = {} \<and> (pfirst a \<in> indexes e \<longrightarrow> isize e' < isize e)"

lemma indexes_size: "i \<in> indexes e \<Longrightarrow> isize i < isize e"
proof (induction e rule: indexes.induct)
  case (2 k ps)
  then obtain p where "p \<in> set ps" "isize i < isize p" by auto
  moreover from this have "isize p \<le> sum_list (map isize ps)" by (simp add: member_le_sum_list)
  ultimately show ?case by simp
qed auto

lemma resolves_const: "taggable c \<Longrightarrow> resolves A a e (createConstant c)"
  using indexes_size [of "pfirst a" e] size_pos(1) [of "pfirst a"] size_pos(1) [of e]
  by (auto simp: resolves_def canon_createConstant Suc_le_eq simp del: size_pos)

lemma resolves_getValue:
  assumes "r \<noteq> pfirst a \<Longrightarrow> resolves A a e r" "psecond a = createConstant c" "taggable c"
  shows "resolves A a e (PAssertion_getValue a r)"
  using assms resolves_const [OF assms(3)] by (simp add: PAssertion_getValue_def)

lemma mentions_simps [simp]:
  "mentions (VarExpr x) = {Scalar x}" "mentions (ArrayConstExpr x y) = {Cell x y}"
  "mentions (NaryIntExpr k ps) = (\<Union>p\<in>set ps. mentions p)"
  "mentions (UnaryIntExpr k1 e) = mentions e"
  "mentions (BinaryIntExpr k2 l r) = mentions l \<union> mentions r"
  "mentions (ArrayVarExpr x i m) = {Cell x j | j. 0 \<le> j \<and> j < m} \<union> mentions i"
  by (auto simp: mentions_def)

lemma resolves_nary:
  assumes lin: "linear_less (iless A)" and rel: "list_all2 (resolves A a) ps es"
    and r: "NaryIntExpr_eval A k (map Inr es) = Inr r" "r \<noteq> NDefExpr"
    and c: "\<And>c p. nary_loop A k (map Inr es) (getNeutralElement k) [] = Inr (Some (c, p)) \<Longrightarrow> taggable c"
  shows "resolves A a (NaryIntExpr k ps) r"
proof -
  have canon: "\<forall>e\<in>set es. canon A e" using list_all2_in_set2 [OF rel] by (auto simp: resolves_def)
  from r obtain c p where loop: "nary_loop A k (map Inr es) (getNeutralElement k) [] = Inr (Some (c, p))"
    and node: "(case nary_params A k c p of [e] \<Rightarrow> Inr e
        | _ \<Rightarrow> int_createNary A (nary_type k) (nary_params A k c p)) = Inr r"
    by (elim NaryIntExpr_eval_cases) auto
  from nary_loop_parts [OF loop] nary_params_canon [OF lin canon c [OF loop] _ node]
  have "canon A r" and more: "no_more r (set es)" by auto
  moreover have "isize r \<le> Suc (sum_list (map isize es))"
    using NaryIntExpr_eval_size [OF r(1)] by (simp add: comp_def)
  moreover have "sum_list (map isize es) \<le> sum_list (map isize ps)"
    using rel by (induction ps es rule: list_all2_induct) (auto simp: resolves_def)
  moreover have "sum_list (map isize es) < sum_list (map isize ps)" if "\<exists>p\<in>set ps. pfirst a \<in> indexes p"
  proof -
    from that obtain ps1 q ps2 where ps: "ps = ps1 @ q # ps2" "pfirst a \<in> indexes q" by (metis split_list)
    with rel obtain es1 f es2 where es: "es = es1 @ f # es2" "list_all2 (resolves A a) ps1 es1"
      "resolves A a q f" "list_all2 (resolves A a) ps2 es2" by (auto simp: list_all2_append1 list_all2_Cons1)
    have "sum_list (map isize ys) \<le> sum_list (map isize xs)" if "list_all2 (resolves A a) xs ys" for xs ys
      using that by (induction xs ys rule: list_all2_induct) (auto simp: resolves_def)
    from this [OF es(2)] this [OF es(4)] es(3) ps(2) show ?thesis by (simp add: ps es resolves_def)
  qed
  moreover have "leaves r \<subseteq> (\<Union>p\<in>set ps. mentions p) \<and> accesses r \<subseteq> (\<Union>p\<in>set ps. accesses p)
    \<and> leaf (pfirst a) \<inter> leaves r = {}"
  proof -
    have es: "\<exists>p\<in>set ps. leaves e \<subseteq> mentions p \<and> accesses e \<subseteq> accesses p \<and> leaf (pfirst a) \<inter> leaves e = {}"
      if "e \<in> set es" for e using list_all2_in_set2 [OF rel that] by (auto simp: resolves_def)
    have "leaves r \<subseteq> (\<Union>e\<in>set es. leaves e)" "accesses r \<subseteq> (\<Union>e\<in>set es. accesses e)"
      using more by (simp_all add: no_more_def)
    moreover have "(\<Union>e\<in>set es. leaves e) \<subseteq> (\<Union>p\<in>set ps. mentions p)"
    proof (rule UN_least)
      fix e assume "e \<in> set es"
      from es [OF this] obtain p where "p \<in> set ps" "leaves e \<subseteq> mentions p" by blast
      then show "leaves e \<subseteq> (\<Union>p\<in>set ps. mentions p)" by auto
    qed
    moreover have "(\<Union>e\<in>set es. accesses e) \<subseteq> (\<Union>p\<in>set ps. accesses p)"
    proof (rule UN_least)
      fix e assume "e \<in> set es"
      from es [OF this] obtain p where "p \<in> set ps" "accesses e \<subseteq> accesses p" by blast
      then show "accesses e \<subseteq> (\<Union>p\<in>set ps. accesses p)" by auto
    qed
    moreover have "\<forall>e\<in>set es. leaf (pfirst a) \<inter> leaves e = {}" using es by blast
    then have "leaf (pfirst a) \<inter> (\<Union>e\<in>set es. leaves e) = {}" by (simp add: Int_UN_distrib)
    ultimately show ?thesis by (meson disjoint_mono order_trans)
  qed
  ultimately show ?thesis by (fastforce simp: resolves_def)
qed

lemma isem_getValue_const:
  assumes "taggable c" "psecond a = createConstant c" "isem \<sigma> (pfirst a) = Some c" "isem \<sigma> e = Some v"
  shows "isem \<sigma> (PAssertion_getValue a e) = Some v"
  using assms by (auto simp: PAssertion_getValue_def isem_createConstant)

lemma assert_step:
  assumes a: "taggable c" "psecond a = createConstant c" "isem \<sigma> (pfirst a) = Some c"
  shows "linear_less (iless A) \<Longrightarrow> canon A e \<Longrightarrow> isem \<sigma> e = Some v \<Longrightarrow>
     \<exists>e'. assert_int A a e = Inr e' \<and> isem \<sigma> e' = Some v \<and> resolves A a e e'"
proof (induction A e arbitrary: v rule: canon.induct)
  case (1 A x)
  have "resolves A a (VarExpr x) (PAssertion_getValue a (VarExpr x))"
    by (rule resolves_getValue [OF _ a(2,1)]) (cases "pfirst a"; auto simp: resolves_def)
  with isem_getValue_const [OF a "1.prems"(3)] show ?case by auto
next
  case (2 A t)
  then show ?case by (cases "pfirst a") (auto simp: resolves_def)
next
  case (6 A x i)
  have "resolves A a (ArrayConstExpr x i) (PAssertion_getValue a (ArrayConstExpr x i))"
    by (rule resolves_getValue [OF _ a(2,1)]) (cases "pfirst a"; auto simp: resolves_def)
  with isem_getValue_const [OF a "6.prems"(3)] show ?case by auto
next
  case (5 A x i l)
  then obtain j where j: "isem \<sigma> i = Some j" "0 \<le> j" "j < l" "v = cell \<sigma> x j" "taggable v"
    by (auto simp: sem_simps)
  with 5 obtain i' where i': "assert_int A a i = Inr i'" "isem \<sigma> i' = Some j" "resolves A a i i'" by auto
  define acc where "acc = createArrayAccess x i' l"
  have assert: "assert_int A a (ArrayVarExpr x i l) = Inr (PAssertion_getValue a acc)"
    by (simp add: i'(1) ArrayVarExpr_setAssertion_def acc_def)
  have const: "acc = ArrayConstExpr x j" if "is_const i'"
  proof -
    from that i'(2) obtain t where "i' = ConstTag t" "untag_const t = j" by (auto simp: is_const_iff chk_def split: if_splits)
    with j(2,3) show ?thesis by (simp add: acc_def createArrayAccess_def)
  qed
  have var: "acc = ArrayVarExpr x i' l" if "\<not> is_const i'"
    using that by (cases i') (simp_all add: acc_def createArrayAccess_def)
  have "isem \<sigma> acc = Some v"
    using const var j by (cases "is_const i'") (simp_all add: cell_sem_def i'(2) chk_def)
  then have sem: "isem \<sigma> (PAssertion_getValue a acc) = Some v" by (rule isem_getValue_const [OF a])
  have "resolves A a (ArrayVarExpr x i l) acc" if neq: "acc \<noteq> pfirst a"
  proof (cases "is_const i'")
    case True
    have "0 < isize i" by (rule Suc_le_lessD) simp
    with True const neq j(2,3) show ?thesis by (cases "pfirst a") (auto simp: resolves_def Suc_le_eq)
  next
    case False
    then have acc: "acc = ArrayVarExpr x i' l" by (rule var)
    have "pfirst a \<noteq> i"
    proof
      assume "pfirst a = i"
      with assert_not_larger [OF "5.prems"(1), of i a] "5.prems"(2) i'(1) have "i' = createConstant c"
        by (simp add: PAssertion_getValue_def a)
      with False show False by simp
    qed
    with i'(3) False show ?thesis by (auto simp: acc resolves_def)
  qed
  from resolves_getValue [OF this a(2,1)] assert sem show ?case by blast
next
  case (7 A k ps)
  define vs where "vs = map (the \<circ> isem \<sigma>) ps"
  from "7.prems"(3) have vs: "nary_sem k vs = Some v" "vs = map (the \<circ> isem \<sigma>) ps" "\<forall>p\<in>set ps. isem \<sigma> p \<noteq> None"
    by (auto simp: sem_simps vs_def comp_def image_iff_eq)
  have "\<exists>e'. assert_int A a p = Inr e' \<and> isem \<sigma> e' = isem \<sigma> p \<and> resolves A a p e'" if "p \<in> set ps" for p
    using "7.IH" [OF that "7.prems"(1)] "7.prems"(2) vs(3) that by (metis canon.simps(7) option.collapse)
  then obtain f where f: "\<forall>p\<in>set ps. assert_int A a p = Inr (f p) \<and> isem \<sigma> (f p) = isem \<sigma> p \<and> resolves A a p (f p)"
    by metis
  then have args: "map (assert_int A a) ps = map Inr (map f ps)" by simp
  have rel: "list_all2 (resolves A a) ps (map f ps)" using f by (simp add: list_all2_conv_all_nth)
  have sems: "list_all2 (idef \<sigma>) (map Inr (map f ps)) vs"
    using f vs(2,3) by (simp add: list_all2_conv_all_nth)
  obtain r where r: "NaryIntExpr_eval A k (map Inr (map f ps)) = Inr r" "isem \<sigma> r = Some v"
    using NaryIntExpr_eval_sound [OF vs(1) sems] by blast
  have tag: "taggable c'" if "nary_loop A k (map Inr (map f ps)) (getNeutralElement k) [] = Inr (Some (c', p'))" for c' p'
    using nary_fold_sound [OF vs(1) sems, of A] that by auto
  have "r \<noteq> NDefExpr" using r(2) by auto
  from resolves_nary [OF "7.prems"(1) rel r(1) this tag] have res: "resolves A a (NaryIntExpr k ps) r" .
  obtain e' where e': "assert_int A a (NaryIntExpr k ps) = Inr e'" "isem \<sigma> e' = Some v"
    using assert_sound_both(1) [of \<sigma> a "NaryIntExpr k ps" v A] "7.prems"(3) a by (auto simp: isem_createConstant)
  with nary_setAssertion_eval [of A k a "map Inr (map f ps)" e'] r(1)
  have "e' = r \<or> e' = PAssertion_getValue a r" by (simp only: assert_int.simps args) auto
  with res resolves_getValue [OF _ a(2,1)] e' show ?case by blast
next
  case (8 A k e)
  then obtain i where i: "isem \<sigma> e = Some i" "unary_sem k i = Some v" by (auto simp: bind_eq_Some_conv)
  with 8 obtain x where x: "assert_int A a e = Inr x" "isem \<sigma> x = Some i" "resolves A a e x" by auto
  obtain e' where e': "assert_int A a (UnaryIntExpr k e) = Inr e'" "isem \<sigma> e' = Some v"
    using assert_sound_both(1) [of \<sigma> a "UnaryIntExpr k e" v A] "8.prems"(3) a by (auto simp: isem_createConstant)
  obtain r where r: "UnaryIntExpr_eval k (Inr x) = Inr r" "e' = r \<or> e' = PAssertion_getValue a r"
    using e'(1) unary_setAssertion_eval [of k a "Inr x" e'] by (auto simp: x(1))
  have "resolves A a (UnaryIntExpr k e) r"
  proof (cases "is_const x")
    case True
    then have "r = createConstant (unary_constEval k i)"
      using r(1) x(2) by (auto simp: is_const_iff UnaryIntExpr_eval_def sem_simps)
    with i(2) show ?thesis by (auto simp: sem_simps resolves_const)
  next
    case False
    then have "r = UnaryIntExpr k x"
      using r(1) x(2) by (cases x) (auto simp: UnaryIntExpr_eval_def int_createUnary_class)
    with False x(3) show ?thesis by (auto simp: resolves_def)
  qed
  with r(2) resolves_getValue [OF _ a(2,1)] e' show ?case by blast
next
  case (9 A k l r)
  then obtain i j where ij: "isem \<sigma> l = Some i" "isem \<sigma> r = Some j" "binary_sem k i j = Some v" by (auto simp: sem_simps)
  obtain x where x: "assert_int A a l = Inr x" "isem \<sigma> x = Some i" "resolves A a l x" using 9 ij by auto
  obtain y where y: "assert_int A a r = Inr y" "isem \<sigma> y = Some j" "resolves A a r y" using 9 ij by auto
  obtain e' where e': "assert_int A a (BinaryIntExpr k l r) = Inr e'" "isem \<sigma> e' = Some v"
    using assert_sound_both(1) [of \<sigma> a "BinaryIntExpr k l r" v A] "9.prems"(3) a by (auto simp: isem_createConstant)
  obtain z where z: "BinaryIntExpr_eval A k (Inr x) (Inr y) = Inr z" "e' = z \<or> e' = PAssertion_getValue a z"
    using e'(1) binary_setAssertion_eval [of A k a "Inr x" "Inr y" e'] by (auto simp: x(1) y(1))
  have "resolves A a (BinaryIntExpr k l r) z"
  proof (cases "is_const x \<and> is_const y")
    case True
    then have "Inr z = map_sum id createConstant (binary_constEval k i j)"
      using z(1) x(2) y(2) by (auto simp: is_const_iff BinaryIntExpr_eval_def sem_simps rbind_def split: sum.splits)
    with ij(3) show ?thesis by (auto simp: sem_simps resolves_const)
  next
    case False
    have "x \<noteq> NDefExpr" "y \<noteq> NDefExpr" using x(2) y(2) by auto
    then have "z = BinaryIntExpr k x y"
      using False z(1) by (cases x; cases y) (auto simp: BinaryIntExpr_eval_def int_createBinary_class)
    with False x(3) y(3) show ?thesis by (auto simp: resolves_def)
  qed
  with z(2) resolves_getValue [OF _ a(2,1)] e' show ?case by blast
qed simp_all

end
