(* ===== verification/Gal_Rename.thy ===== *)
theory Gal_Rename imports Gal_Canon begin

text \<open>
  An expression under an environment, read over the global variables: what \<open>normalize\<close> and \<open>gc\<close> do to
  a canonical expression is a renaming, so the global reading of an expression, its size and what it
  mentions do not depend on the environment it happens to carry.
\<close>

section \<open>Renaming\<close>

fun rename :: "heap_order \<Rightarrow> (int \<Rightarrow> int) \<Rightarrow> pint \<Rightarrow> pint" where
  "rename A f (VarExpr x) = VarExpr (f x)"
| "rename A f (ArrayVarExpr a i l) = ArrayVarExpr (f a) (rename A f i) l"
| "rename A f (ArrayConstExpr a i) = ArrayConstExpr (f a) i"
| "rename A f (NaryIntExpr k ps) = NaryIntExpr k (fold (ms_insert (iless A)) (map (rename A f) ps) [])"
| "rename A f (UnaryIntExpr k e) = UnaryIntExpr k (rename A f e)"
| "rename A f (BinaryIntExpr k l r) = BinaryIntExpr k (rename A f l) (rename A f r)"
| "rename A f e = e"

fun rename_loc :: "(int \<Rightarrow> int) \<Rightarrow> loc \<Rightarrow> loc" where
  "rename_loc f (Scalar x) = Scalar (f x)"
| "rename_loc f (Cell a k) = Cell (f a) k"

lemma rename_const_iff [simp]:
  "is_const (rename A f e) \<longleftrightarrow> is_const e" "rename A f e = NDefExpr \<longleftrightarrow> e = NDefExpr"
  "rename A f e = ConstTag t \<longleftrightarrow> e = ConstTag t" "rename A f e = createConstant c \<longleftrightarrow> e = createConstant c"
  "createConstant c = rename A f e \<longleftrightarrow> e = createConstant c" "NDefExpr = rename A f e \<longleftrightarrow> e = NDefExpr"
  by (cases e; auto simp: createConstant_def)+

lemma rename_createConstant [simp]: "rename A f (createConstant c) = createConstant c"
  by (simp add: createConstant_def)

lemma mset_rename_params:
  "mset (fold (ms_insert lt) xs []) = mset xs"
  by (simp add: stl_multiset.bag_fold)

lemma set_fold_params [simp]: "set (fold (ms_insert lt) xs []) = set xs"
  by (simp add: stl_multiset.elems_fold)

lemma length_fold_params [simp]: "length (fold (ms_insert lt) xs []) = length xs"
  by (metis mset_rename_params size_mset)

lemma sum_list_fold_params: "sum_list (map f (fold (ms_insert lt) xs [])) = sum_list (map f xs)" for f :: "'a \<Rightarrow> nat"
  by (metis mset_map mset_rename_params sum_mset_sum_list)

lemma isize_rename [simp]: "isize (rename A f e) = isize e"
proof (induction A f e rule: rename.induct)
  case (4 A f k ps)
  then have "map isize (map (rename A f) ps) = map isize ps" by simp
  then show ?case by (simp only: rename.simps isize.simps sum_list_fold_params)
qed simp_all

lemma leaves_rename: "leaves (rename A f e) = rename_loc f ` leaves e"
  by (induction A f e rule: rename.induct) (auto simp: image_iff)

lemma accesses_rename: "accesses (rename A f e) = map_prod f id ` accesses e"
  by (induction A f e rule: rename.induct) (force simp: image_iff)+

lemma indexes_rename: "indexes (rename A f e) = rename A f ` indexes e"
  by (induction A f e rule: rename.induct) (force simp: image_iff)+

lemma mentions_rename: "mentions (rename A f e) = rename_loc f ` mentions e"
  unfolding mentions_def leaves_rename accesses_rename by (force simp: image_iff)

lemma length_filter_mset: "mset xs = mset ys \<Longrightarrow> length (filter P xs) = length (filter P ys)"
  by (metis mset_filter size_mset)

lemma canon_rename:
  "linear_less (iless A) \<Longrightarrow> canon A e \<Longrightarrow> canon A (rename A f e)"
proof (induction A e rule: canon.induct)
  case (7 A k ps)
  have "length (filter is_const (fold (ms_insert (iless A)) (map (rename A f) ps) []))
      = length (filter is_const (map (rename A f) ps))"
    by (rule length_filter_mset) (rule mset_rename_params)
  also have "\<dots> = length (filter is_const ps)" by (simp add: filter_map o_def)
  finally show ?case using 7 by (auto simp: ascending_fold_insert image_iff)
qed simp_all

lemma rename_cong: "(\<And>x. x \<in> vars_int e \<Longrightarrow> f x = g x) \<Longrightarrow> canon A e \<Longrightarrow> rename A f e = rename A g e"
proof (induction A e rule: canon.induct)
  case (7 A k ps)
  then have "map (rename A f) ps = map (rename A g) ps" by auto
  then show ?case by (simp only: rename.simps)
qed auto

lemma rename_rename:
  "linear_less (iless A) \<Longrightarrow> rename A f (rename A g e) = rename A (f \<circ> g) e"
proof (induction A g e rule: rename.induct)
  case (4 A g k ps)
  have "map (rename A f \<circ> rename A g) ps = map (rename A (f \<circ> g)) ps" using 4 by (simp add: o_def)
  then show ?case by (simp only: rename.simps fold_insert_map [OF "4.prems"])
qed simp_all

lemma rename_id:
  "linear_less (iless A) \<Longrightarrow> (\<And>x. x \<in> vars_int e \<Longrightarrow> f x = x) \<Longrightarrow> canon A e \<Longrightarrow> rename A f e = e"
proof (induction A e rule: canon.induct)
  case (7 A k ps)
  then have "map (rename A f) ps = ps" by (auto intro!: map_idI)
  with 7 show ?case by (simp only: rename.simps canon.simps fold_insert_ascending)
qed auto

text \<open>Renaming a valuation the other way.\<close>

definition val_at :: "valuation \<Rightarrow> (int \<Rightarrow> int) \<Rightarrow> valuation" where
  "val_at \<gamma> f = \<lparr>scalar = (\<lambda>x. scalar \<gamma> (f x)), cell = (\<lambda>x. cell \<gamma> (f x))\<rparr>"

lemma isem_rename: "canon A e \<Longrightarrow> isem \<gamma> (rename A f e) = isem (val_at \<gamma> f) e"
proof (induction A e rule: canon.induct)
  case (7 A k ps)
  have "isem \<gamma> (NaryIntExpr k (fold (ms_insert (iless A)) (map (rename A f) ps) []))
      = isem \<gamma> (NaryIntExpr k (map (rename A f) ps))"
    by (rule isem_Nary_mset_cong) (rule mset_rename_params)
  moreover have "map (isem \<gamma>) (map (rename A f) ps) = map (isem (val_at \<gamma> f)) ps" using 7 by simp
  ultimately show ?case by (simp only: rename.simps isem.simps)
qed (auto simp: val_at_def cell_sem_def split: option.splits)

lemma env_val_at: "env_val \<gamma> env = val_at \<gamma> (\<lambda>x. env ! nat x)"
  by (simp add: env_val_def val_at_def)

section \<open>reindexVariables, normalize and gc are renamings\<close>

lemma wrap32_Suc_taggable: "taggable i \<Longrightarrow> wrap32 (i + 1) = i + 1"
  by (intro wrap32_id) (auto simp: int32_def taggable_def INT_MIN_def INT_MAX_def)

lemma access_const: "0 \<le> i \<Longrightarrow> taggable i \<Longrightarrow> createArrayAccess a (createConstant i) (wrap32 (i + 1)) = ArrayConstExpr a i"
  by (simp add: createArrayAccess_def createConstant_def untag_tag_small wrap32_Suc_taggable)

lemma access_var: "\<not> is_const i \<Longrightarrow> createArrayAccess a i l = ArrayVarExpr a i l"
  by (cases i) (simp_all add: createArrayAccess_def)

lemma canon_no_ndef: "canon A e \<Longrightarrow> e \<noteq> NDefExpr"
  by auto

lemma reindex_rename: "canon A e \<Longrightarrow> wf_int n e \<Longrightarrow> reindex_int A ix e = rename A (\<lambda>x. ix ! nat x) e"
proof (induction A e rule: canon.induct)
  case (5 A a i l)
  then show ?case by (simp add: ArrayVarExpr_reindexVariables_def access_var)
next
  case (6 A a i)
  then show ?case by (simp add: ArrayConstExpr_reindexVariables_def access_const)
next
  case (7 A k ps)
  have params: "map (reindex_int A ix) ps = map (rename A (\<lambda>x. ix ! nat x)) ps" using 7 by (auto simp: list_all_iff)
  have "NDefExpr \<notin> set (map (rename A (\<lambda>x. ix ! nat x)) ps)" using "7.prems" by (auto simp: image_iff dest: sym)
  then show ?case
    by (simp only: reindex_int.simps params NaryIntExpr_reindexVariables_def nary_node_eq set_fold_params
        if_False rename.simps)
next
  case (8 A k e)
  then show ?case by (auto simp: unary_node_eq dest: canon_no_ndef)
next
  case (9 A k l r)
  then show ?case by (auto simp: binary_node_eq dest: canon_no_ndef)
qed (auto simp: VarExpr_reindexVariables_def Let_def)

lemma norm_rename:
  assumes "linear_less (iless A)" "canon A e" "wf_int (int (length env)) e"
  shows "norm_int A e env u = rename A (\<lambda>x. indexOf (env ! nat x) u) e"
proof -
  have range: "nat x < length env" "int (nat x) = x" if "x \<in> vars_int e" for x
    using wf_vars(1) [OF assms(3)] that by (auto simp: nat_less_iff)
  show ?thesis
  proof (cases "snd (reindex env u False)")
    case True
    then have "norm_int A e env u = reindex_int A (map (\<lambda>x. indexOf x u) env) e"
      by (simp add: norm_int_def normalize_def reindex_def reindex_loop_eq split: prod.splits)
    also have "\<dots> = rename A (\<lambda>x. indexOf (env ! nat x) u) e"
      unfolding reindex_rename [OF assms(2,3)] by (rule rename_cong) (simp_all add: range assms(2))
    finally show ?thesis .
  next
    case False
    then have "\<forall>j<length env. int j = indexOf (env ! j) u" by (simp add: reindex_def reindex_loop_eq)
    then have "indexOf (env ! nat x) u = x" if "x \<in> vars_int e" for x using range [OF that] by metis
    with False assms(1,2) show ?thesis
      by (cases "reindex env u False") (simp add: norm_int_def normalize_def rename_id)
  qed
qed

lemma indexOf_nth: "distinct xs \<Longrightarrow> i < length xs \<Longrightarrow> indexOf (xs ! i) xs = int i"
  using indexOf_mem [of "xs ! i" xs] nth_eq_iff_index_eq [of xs "nat (indexOf (xs ! i) xs)" i] by auto

lemma env_ok_distinct: "env_ok env \<Longrightarrow> distinct env"
  by (induction env) auto

text \<open>What \<open>gc\<close> does to the indexes of any kind of expression.\<close>

context parametric_expr begin

lemma gc_perm:
  assumes wf: "wf (int (length env)) e" and env: "env_ok env"
  obtains env' perm s where "gc getSupport reindexVariables e env = (if s then reindexVariables perm e else e, env')"
    "env_ok env'" "set env' = (\<lambda>x. env ! nat x) ` vars e" "\<And>x. x \<in> vars e \<Longrightarrow> perm ! nat x = indexOf (env ! nat x) env'"
    "\<And>x. \<not> s \<Longrightarrow> x \<in> vars e \<Longrightarrow> indexOf (env ! nat x) env' = x"
proof -
  have range: "nat x < length env" "int (nat x) = x" if "x \<in> vars e" for x
    using vars_range [OF wf] that by (auto simp: nat_less_iff)
  define mark where "mark = getSupport e (replicate (length env) False)"
  have len: "length mark = length env" by (simp add: mark_def marks_length)
  have mark: "mark ! nat x" if "x \<in> vars e" for x
    using marks [of e "replicate (length env) False" "nat x"] range [OF that] vars_range [OF wf] that by (simp add: mark_def)
  obtain env' perm s where loop: "gc_loop env mark 0 0 = (env', perm, s)" by (metis prod_cases3)
  have gc: "gc getSupport reindexVariables e env = (if s then reindexVariables perm e else e, env')"
    by (simp add: gc_def loop flip: mark_def)
  from gc_sound [OF wf gc] env have env': "env_ok env'" "set env' = (\<lambda>x. env ! nat x) ` vars e" by auto
  have perm: "perm ! nat x = indexOf (env ! nat x) env'" if "x \<in> vars e" for x
  proof -
    have p: "0 \<le> perm ! nat x" "perm ! nat x < int (length env')" "env' ! nat (perm ! nat x) = env ! nat x"
      using gc_loop_spec(3) [OF len loop range(1) [OF that] mark [OF that]] by simp_all
    have "indexOf (env' ! nat (perm ! nat x)) env' = int (nat (perm ! nat x))"
      by (rule indexOf_nth [OF env_ok_distinct [OF env'(1)]]) (use p in linarith)
    with p show ?thesis by simp
  qed
  have "indexOf (env ! nat x) env' = x" if "\<not> s" "x \<in> vars e" for x
    using gc_loop_spec(4) [OF len loop _ range(1) [OF that(2)] mark [OF that(2)]] perm [OF that(2)] range(2) [OF that(2)] that(1)
    by simp
  with gc env' perm show thesis by (rule that)
qed

end

lemma gc_rename:
  assumes "linear_less (iless A)" "canon A e" "wf_int (int (length env)) e" "env_ok env"
  shows "\<exists>env'. gc_int A e env = (rename A (\<lambda>x. indexOf (env ! nat x) env') e, env')
    \<and> env_ok env' \<and> set env' = (\<lambda>x. env ! nat x) ` vars_int e"
proof -
  obtain env' perm s where gc: "gc_int A e env = (if s then reindex_int A perm e else e, env')"
    "env_ok env'" "set env' = (\<lambda>x. env ! nat x) ` vars_int e" "\<And>x. x \<in> vars_int e \<Longrightarrow> perm ! nat x = indexOf (env ! nat x) env'"
    "\<And>x. \<not> s \<Longrightarrow> x \<in> vars_int e \<Longrightarrow> indexOf (env ! nat x) env' = x"
    by (rule pint_expr.gc_perm [OF assms(3,4), of A]) (simp add: gc_int_def)
  have "(if s then reindex_int A perm e else e) = rename A (\<lambda>x. indexOf (env ! nat x) env') e"
    unfolding reindex_rename [OF assms(2,3)] using gc(4,5) assms(1,2) by (simp add: rename_id cong: rename_cong)
  with gc(1-3) show ?thesis by auto
qed

section \<open>Comparisons\<close>

lemma comp_node_canon: "canon A x \<Longrightarrow> canon A y \<Longrightarrow> comp_node k x y = BinaryBoolComp k x y"
  by (auto simp: comp_node_eq)

lemma norm_comp:
  assumes lin: "linear_less (iless A)" and x: "canon A x" "wf_int (int (length env)) x" and y: "canon A y" "wf_int (int (length env)) y"
  shows "norm_bool A (BinaryBoolComp k x y) env u = BinaryBoolComp k (norm_int A x env u) (norm_int A y env u)"
proof -
  have "canon A (reindex_int A ix x)" "canon A (reindex_int A ix y)" for ix
    using x y by (simp_all add: reindex_rename canon_rename [OF lin])
  then show ?thesis by (simp add: norm_bool_def norm_int_def normalize_def comp_node_canon [of A] split: prod.splits)
qed

lemma gc_comp:
  assumes lin: "linear_less (iless A)" and x: "canon A x" "wf_int (int (length env)) x"
    and y: "canon A y" "wf_int (int (length env)) y" and env: "env_ok env"
  shows "\<exists>env'. gc_bool A (BinaryBoolComp k x y) env
      = (BinaryBoolComp k (rename A (\<lambda>i. indexOf (env ! nat i) env') x) (rename A (\<lambda>i. indexOf (env ! nat i) env') y), env')
    \<and> env_ok env' \<and> set env' = (\<lambda>i. env ! nat i) ` (vars_int x \<union> vars_int y)"
proof -
  have wf: "wf_bool (int (length env)) (BinaryBoolComp k x y)" using x(2) y(2) by simp
  obtain env' perm s where gc: "gc_bool A (BinaryBoolComp k x y) env
      = (if s then reindex_bool A perm (BinaryBoolComp k x y) else BinaryBoolComp k x y, env')"
    "env_ok env'" "set env' = (\<lambda>i. env ! nat i) ` vars_bool (BinaryBoolComp k x y)"
    "\<And>i. i \<in> vars_bool (BinaryBoolComp k x y) \<Longrightarrow> perm ! nat i = indexOf (env ! nat i) env'"
    "\<And>i. \<not> s \<Longrightarrow> i \<in> vars_bool (BinaryBoolComp k x y) \<Longrightarrow> indexOf (env ! nat i) env' = i"
    by (rule pbool_expr.gc_perm [OF wf env, of A]) (simp add: gc_bool_def)
  define f where "f = (\<lambda>i. indexOf (env ! nat i) env')"
  have "(if s then reindex_int A perm e else e) = rename A f e" if "canon A e" "wf_int (int (length env)) e" "vars_int e \<subseteq> vars_int x \<union> vars_int y" for e
    unfolding reindex_rename [OF that(1,2)] using gc(4,5) that lin by (simp add: rename_id f_def subset_iff cong: rename_cong)
  from this [OF x] this [OF y] gc(1-3) x(1) y(1) show ?thesis
    by (auto simp: reindex_rename [OF x] reindex_rename [OF y] comp_node_canon [of A] canon_rename [OF lin] simp flip: f_def split: if_splits)
qed

end
