(* ===== verification/Gal_Resolve.thy ===== *)
theory Gal_Resolve imports Gal_Rename begin

text \<open>
  The global reading of an \<open>IntExpression\<close> and one resolution step \<open>r & [lhs := constant]\<close> in its terms;
  which sub-expression \<open>getFirstSubExpr\<close> finds; which locations decide the value of an expression.
\<close>

section \<open>Locations\<close>

fun look :: "valuation \<Rightarrow> loc \<Rightarrow> int" where
  "look \<gamma> (Scalar g) = scalar \<gamma> g"
| "look \<gamma> (Cell a k) = cell \<gamma> a k"

fun put :: "loc \<Rightarrow> int \<Rightarrow> valuation \<Rightarrow> valuation" where
  "put (Scalar g) v \<gamma> = \<gamma>\<lparr>scalar := (scalar \<gamma>)(g := v)\<rparr>"
| "put (Cell a k) v \<gamma> = \<gamma>\<lparr>cell := (cell \<gamma>)(a := (cell \<gamma> a)(k := v))\<rparr>"

lemma look_put: "look (put l v \<gamma>) m = (if m = l then v else look \<gamma> m)"
  by (cases l; cases m) auto

lemma isem_mentions:
  "canon A e \<Longrightarrow> (\<And>l. l \<in> mentions e \<Longrightarrow> look \<gamma> l = look \<delta> l) \<Longrightarrow> isem \<gamma> e = isem \<delta> e"
proof (induction A e rule: canon.induct)
  case (1 A x)
  from "1.prems"(2) [of "Scalar x"] show ?case by simp
next
  case (6 A a i)
  from "6.prems"(2) [of "Cell a i"] show ?case by simp
next
  case (5 A a i l)
  have "isem \<gamma> i = isem \<delta> i" using 5 by auto
  moreover have "cell \<gamma> a k = cell \<delta> a k" if "0 \<le> k" "k < l" for k
    using "5.prems"(2) [of "Cell a k"] that by auto
  ultimately show ?case by (auto simp: cell_sem_def split: option.splits)
next
  case (7 A k ps)
  then have "map (isem \<gamma>) ps = map (isem \<delta>) ps" by auto
  then show ?case by (simp only: isem.simps)
qed auto

lemma leaves_nonempty: "canon A e \<Longrightarrow> \<not> is_const e \<Longrightarrow> leaves e \<noteq> {}"
proof (induction A e rule: canon.induct)
  case (7 A k ps)
  have "\<exists>p\<in>set ps. \<not> is_const p"
  proof (rule ccontr)
    assume "\<not> (\<exists>p\<in>set ps. \<not> is_const p)"
    then have "filter is_const ps = ps" by (simp add: filter_id_conv)
    with "7.prems"(1) show False by auto
  qed
  with 7 show ?case by fastforce
qed auto

lemma leaves_mentions: "leaves e \<subseteq> mentions e"
  by (auto simp: mentions_def)

section \<open>Index expressions\<close>

lemma index_facts:
  "i \<in> indexes e \<Longrightarrow> canon A e \<Longrightarrow>
     canon A i \<and> \<not> is_const i \<and> vars_int i \<subseteq> vars_int e \<and> leaves i \<subseteq> leaves e \<and> accesses i \<subseteq> accesses e
     \<and> (isem \<gamma> e \<noteq> None \<longrightarrow> isem \<gamma> i \<noteq> None)"
proof (induction e rule: indexes.induct)
  case (1 a j l)
  then show ?case by (auto simp: cell_sem_def split: option.splits)
next
  case (2 k ps)
  then obtain p where p: "p \<in> set ps" "i \<in> indexes p" by auto
  with 2 have *: "canon A i \<and> \<not> is_const i \<and> vars_int i \<subseteq> vars_int p \<and> leaves i \<subseteq> leaves p
      \<and> accesses i \<subseteq> accesses p \<and> (isem \<gamma> p \<noteq> None \<longrightarrow> isem \<gamma> i \<noteq> None)" by auto
  moreover have "isem \<gamma> (NaryIntExpr k ps) \<noteq> None \<longrightarrow> isem \<gamma> p \<noteq> None"
    using p(1) by (auto simp: sem_simps image_iff_eq)
  ultimately show ?case using p(1) by (simp only: vars_int.simps leaves.simps accesses.simps) blast
next
  case (4 k l r)
  then show ?case by (auto simp: bin_opt_def split: option.splits)
qed (auto simp: bind_eq_Some_conv)

lemma index_mentions: "i \<in> indexes e \<Longrightarrow> canon A e \<Longrightarrow> mentions i \<subseteq> mentions e"
  using index_facts [of i e A] unfolding mentions_def by blast

lemma indexes_accesses: "indexes e = {} \<longleftrightarrow> accesses e = {}"
  by (induction e rule: indexes.induct) auto

lemma wf_index: "i \<in> indexes e \<Longrightarrow> wf_int n e \<Longrightarrow> wf_int n i"
  by (induction e rule: indexes.induct) (auto simp: list_all_iff)

lemma first_nary:
  "(\<And>p. p \<in> set ps \<Longrightarrow> indexes p \<noteq> {} \<Longrightarrow> f p \<in> indexes p) \<Longrightarrow> (\<And>p. p \<in> set ps \<Longrightarrow> indexes p = {} \<Longrightarrow> f p = p) \<Longrightarrow>
     (\<exists>p\<in>set ps. indexes p \<noteq> {}) \<Longrightarrow> NaryIntExpr_getFirstSubExpr this (map (\<lambda>p. (p, f p)) ps) \<in> (\<Union>p\<in>set ps. indexes p)"
proof (induction ps)
  case (Cons p ps)
  show ?case
  proof (cases "indexes p = {}")
    case False
    with Cons.prems(1) have "f p \<in> indexes p" by simp
    moreover from indexes_size [OF this] have "f p \<noteq> p" by auto
    ultimately show ?thesis by simp
  qed (use Cons in simp)
qed simp

lemma first_same: "(\<And>p. p \<in> set ps \<Longrightarrow> f p = p) \<Longrightarrow> NaryIntExpr_getFirstSubExpr this (map (\<lambda>p. (p, f p)) ps) = this"
  by (induction ps) auto

lemma getFirstSubExpr_index:
  "canon A e \<Longrightarrow> (indexes e \<noteq> {} \<longrightarrow> getFirstSubExpr_int e \<in> indexes e) \<and> (indexes e = {} \<longrightarrow> getFirstSubExpr_int e = e)"
proof (induction A e rule: canon.induct)
  case (7 A k ps)
  then have "indexes p \<noteq> {} \<longrightarrow> getFirstSubExpr_int p \<in> indexes p" "indexes p = {} \<longrightarrow> getFirstSubExpr_int p = p"
    if "p \<in> set ps" for p using that by auto
  with first_nary [of ps getFirstSubExpr_int "NaryIntExpr k ps"]
    first_same [of ps getFirstSubExpr_int "NaryIntExpr k ps"] show ?case by auto
next
  case (8 A k e)
  then show ?case using indexes_size [of "getFirstSubExpr_int e" e] by (auto simp: UnaryIntExpr_getFirstSubExpr_def)
next
  case (9 A k l r)
  then show ?case
    using indexes_size [of "getFirstSubExpr_int l" l] indexes_size [of "getFirstSubExpr_int r" r]
    by (auto simp: BinaryIntExpr_getFirstSubExpr_def)
qed auto

section \<open>The global reading\<close>

definition gx :: "heap_order \<Rightarrow> IntExpression \<Rightarrow> pint" where
  "gx A e = rename A (\<lambda>x. getEnv e ! nat x) (getExpr e)"

definition good :: "heap_order \<Rightarrow> IntExpression \<Rightarrow> bool" where
  "good A e \<longleftrightarrow> ie_ok e \<and> canon A (getExpr e) \<and> set (getEnv e) = (\<lambda>i. getEnv e ! nat i) ` vars_int (getExpr e)"

text \<open>Without the condition that every entry of the environment is used.\<close>

definition fits :: "heap_order \<Rightarrow> IntExpression \<Rightarrow> bool" where
  "fits A e \<longleftrightarrow> ie_ok e \<and> canon A (getExpr e)"

lemma good_fits: "good A e \<Longrightarrow> fits A e"
  by (simp add: good_def fits_def)

lemma getExpr_IConst: "ie_ok (IConst t) \<Longrightarrow> taggable (untag_const t) \<and> getExpr (IConst t) = createConstant (untag_const t)"
  by (simp add: concrete_tag taggable_untag)

lemma good_IConst [simp]: "good A (IConst t) \<longleftrightarrow> ie_ok (IConst t)"
  using getExpr_IConst [of t] by (auto simp: good_def canon_createConstant)

lemma fits_parts: "fits A e \<Longrightarrow> env_ok (getEnv e) \<and> wf_int (int (length (getEnv e))) (getExpr e) \<and> canon A (getExpr e)"
  using ie_ok_parts by (auto simp: fits_def)

lemmas good_parts = fits_parts [OF good_fits]

lemma fits_canon: "linear_less (iless A) \<Longrightarrow> fits A e \<Longrightarrow> canon A (gx A e)"
  by (simp add: gx_def fits_def canon_rename)

lemmas canon_gx = fits_canon [OF _ good_fits]

lemma fits_denote: "fits A e \<Longrightarrow> denote \<gamma> e = isem \<gamma> (gx A e)"
proof -
  assume fits: "fits A e"
  then have "denote \<gamma> e = isem (env_val \<gamma> (getEnv e)) (getExpr e)" by (simp add: fits_def isem_getExpr)
  also have "\<dots> = isem \<gamma> (gx A e)" using fits by (simp add: gx_def env_val_at isem_rename fits_def)
  finally show ?thesis .
qed

lemmas denote_gx = fits_denote [OF good_fits]

lemma getType_gx: "good A e \<Longrightarrow> IntExpression_getType e = INTCONST \<longleftrightarrow> is_const (gx A e)"
proof (cases e)
  case (IExpr x env)
  then show ?thesis by (cases x) (auto simp: gx_def)
qed (simp add: gx_def)

definition const_val :: "IntExpression \<Rightarrow> int option" where
  "const_val e = (if IntExpression_getType e = INTCONST then Some (projr (IntExpression_getValue e)) else None)"

lemma const_val_gx:
  assumes "good A e"
  shows "const_val e = Some c \<longleftrightarrow> gx A e = createConstant c \<and> taggable c"
    and "const_val e = Some c \<Longrightarrow> IntExpression_getType e = INTCONST \<and> IntExpression_getValue e = Inr c"
proof -
  show "const_val e = Some c \<longleftrightarrow> gx A e = createConstant c \<and> taggable c"
  proof (cases e)
    case (IExpr x env)
    with assms show ?thesis by (cases x) (auto simp: const_val_def gx_def good_def createConstant_def untag_tag_small)
  next
    case (IConst t)
    with assms getExpr_IConst [of t] show ?thesis
      by (auto simp: const_val_def gx_def concrete_tag createConstant_inj)
  qed
  show "const_val e = Some c \<Longrightarrow> IntExpression_getType e = INTCONST \<and> IntExpression_getValue e = Inr c"
  proof (cases e)
    case (IExpr x env)
    then show "const_val e = Some c \<Longrightarrow> ?thesis" by (cases x) (auto simp: const_val_def)
  qed (auto simp: const_val_def)
qed

lemma const_val_denote: "good A e \<Longrightarrow> const_val e = Some c \<Longrightarrow> denote \<gamma> e = Some c"
  by (simp add: const_val_gx(1) denote_gx isem_createConstant)

lemma const_of_gx: "linear_less (iless A) \<Longrightarrow> good A e \<Longrightarrow> is_const (gx A e) \<Longrightarrow> \<exists>c. const_val e = Some c"
  by (simp add: const_val_def getType_gx)

lemma createIConstant_good: "taggable c \<Longrightarrow> good A (createIConstant c) \<and> const_val (createIConstant c) = Some c"
proof -
  assume "taggable c"
  moreover have "0 \<le> tag_const c" "tag_const c < 4294967296" by (simp_all add: tag_const_def Let_def)
  ultimately show ?thesis by (simp add: createIConstant_def concrete_tag const_val_def untag_tag_small)
qed

lemma vars_rename: "canon A e \<Longrightarrow> vars_int (rename A f e) = f ` vars_int e"
  by (induction A e rule: canon.induct) (auto simp: image_iff)

text \<open>The parts of an expression on a larger environment, and back.\<close>

lemma gx_mk_gc:
  assumes "linear_less (iless A)" "canon A x" "wf_int (int (length env)) x" "env_ok env"
  shows "good A (mk_int (gc_int A x env))" and "gx A (mk_int (gc_int A x env)) = rename A (\<lambda>i. env ! nat i) x"
    and "set (getEnv (mk_int (gc_int A x env))) = (\<lambda>i. env ! nat i) ` vars_int x"
proof -
  obtain env' where gc: "gc_int A x env = (rename A (\<lambda>i. indexOf (env ! nat i) env') x, env')"
    "env_ok env'" "set env' = (\<lambda>i. env ! nat i) ` vars_int x" using gc_rename [OF assms] by blast
  have entry: "env' ! nat (indexOf (env ! nat i) env') = env ! nat i" if "i \<in> vars_int x" for i
    by (rule indexOf_mem(3)) (use gc(3) that in auto)
  then have "set env' = (\<lambda>i. env' ! nat i) ` vars_int (rename A (\<lambda>i. indexOf (env ! nat i) env') x)"
    by (simp add: vars_rename [OF assms(2)] image_image gc(3))
  then show "good A (mk_int (gc_int A x env))"
    using mk_int_gc_sound(1) [OF assms(3,4), of A] canon_rename [OF assms(1,2)] by (simp add: good_def mk_int_def gc(1))
  show "gx A (mk_int (gc_int A x env)) = rename A (\<lambda>i. env ! nat i) x"
    using assms(1,2) entry by (simp add: gx_def mk_int_def gc rename_rename) (rule rename_cong, simp_all)
  show "set (getEnv (mk_int (gc_int A x env))) = (\<lambda>i. env ! nat i) ` vars_int x" by (simp add: mk_int_def gc)
qed

lemma fits_nrm:
  assumes "linear_less (iless A)" "fits A e" "set (getEnv e) \<subseteq> set u"
  shows "canon A (nrm A e u)" and "wf_int (int (length u)) (nrm A e u)"
    and "rename A (\<lambda>i. u ! nat i) (nrm A e u) = gx A e" and "nrm A e u = rename A (\<lambda>g. indexOf g u) (gx A e)"
proof -
  note e = fits_parts [OF assms(2)]
  have nrm: "nrm A e u = rename A (\<lambda>i. indexOf (getEnv e ! nat i) u) (getExpr e)"
    using norm_rename assms(1) e by blast
  then show "canon A (nrm A e u)" using canon_rename assms(1) e by simp
  show "wf_int (int (length u)) (nrm A e u)" using nrm_sound(1) assms(2,3) by (simp add: fits_def)
  have "u ! nat (indexOf (getEnv e ! nat i) u) = getEnv e ! nat i" if "i \<in> vars_int (getExpr e)" for i
  proof (rule indexOf_mem(3))
    from wf_vars(1) e that have "nat i < length (getEnv e)" by (fastforce simp: nat_less_iff)
    then show "getEnv e ! nat i \<in> set u" using assms(3) by (meson nth_mem subsetD)
  qed
  then show "rename A (\<lambda>i. u ! nat i) (nrm A e u) = gx A e"
    using assms(1) e by (simp add: nrm rename_rename gx_def) (rule rename_cong, simp_all)
  show "nrm A e u = rename A (\<lambda>g. indexOf g u) (gx A e)"
    using assms(1) by (simp add: nrm gx_def rename_rename o_def)
qed

lemmas gx_nrm = fits_nrm [OF _ good_fits]

section \<open>One resolution step\<close>

lemma leaf_rename: "leaf (rename A f e) = rename_loc f ` leaf e"
  by (cases e) auto

fun loc_var :: "loc \<Rightarrow> int" where
  "loc_var (Scalar x) = x"
| "loc_var (Cell a k) = a"

lemma leaf_var: "l \<in> leaf e \<Longrightarrow> loc_var l \<in> vars_int e"
  by (cases e) auto

lemma leaves_var: "l \<in> leaves e \<Longrightarrow> loc_var l \<in> vars_int e"
  by (induction e rule: leaves.induct) auto

lemma rename_loc_inj: "rename_loc f l = rename_loc f m \<Longrightarrow> inj_on f X \<Longrightarrow> loc_var l \<in> X \<Longrightarrow> loc_var m \<in> X \<Longrightarrow> l = m"
  by (cases l; cases m) (auto dest: inj_onD)

lemma rename_inj:
  assumes "linear_less (iless A)" "canon A e" "canon A d" "inj_on f X" "vars_int e \<subseteq> X" "vars_int d \<subseteq> X"
    and eq: "rename A f e = rename A f d"
  shows "e = d"
proof -
  have inv: "rename A (inv_into X f) (rename A f x) = x" if "canon A x" "vars_int x \<subseteq> X" for x
  proof -
    have "(inv_into X f \<circ> f) y = y" if "y \<in> vars_int x" for y
      using \<open>vars_int x \<subseteq> X\<close> that assms(4) by auto
    then show ?thesis using that(1) assms(1) by (simp add: rename_rename rename_id)
  qed
  from inv [of e] inv [of d] assms show ?thesis by metis
qed

lemma resolves_rename:
  assumes lin: "linear_less (iless A)" and inj: "inj_on f X"
    and a: "canon A (pfirst a)" "vars_int (pfirst a) \<subseteq> X" and e: "canon A e" "vars_int e \<subseteq> X" "vars_int e' \<subseteq> X"
    and res: "resolves A a e e'" and b: "pfirst b = rename A f (pfirst a)"
  shows "resolves A b (rename A f e) (rename A f e')"
proof -
  have "leaf (pfirst b) \<inter> leaves (rename A f e') = {}"
  proof -
    have "l = m" if "l \<in> leaf (pfirst a)" "m \<in> leaves e'" "rename_loc f l = rename_loc f m" for l m
      using rename_loc_inj [OF that(3) inj] leaf_var [OF that(1)] leaves_var [OF that(2)] a(2) e(3) by blast
    with res show ?thesis by (fastforce simp: b leaf_rename leaves_rename resolves_def)
  qed
  moreover have "isize (rename A f e') < isize (rename A f e)" if "pfirst b \<in> indexes (rename A f e)"
  proof -
    from that obtain i where i: "i \<in> indexes e" "rename A f (pfirst a) = rename A f i"
      by (auto simp: b indexes_rename)
    have "canon A i" "vars_int i \<subseteq> X" using index_facts [OF i(1) e(1)] e(2) by (blast, blast)
    from rename_inj [OF lin a(1) this(1) inj a(2) this(2) i(2)] i(1) have "pfirst a \<in> indexes e" by simp
    with res show ?thesis by (simp add: resolves_def)
  qed
  ultimately show ?thesis
    using res unfolding resolves_def leaves_rename accesses_rename mentions_rename isize_rename
    by (simp add: canon_rename [OF lin] image_mono)
qed

text \<open>The assertion \<open>lhs := constant\<close> on the variables of \<open>u\<close>.\<close>

lemma norm_again:
  assumes "linear_less (iless A)" "good A e" "set (getEnv e) \<subseteq> set w" "set w \<subseteq> set u"
  shows "norm_int A (nrm A e w) w u = nrm A e u"
proof -
  note e = good_parts [OF assms(2)]
  have range: "getEnv e ! nat i \<in> set w" if "i \<in> vars_int (getExpr e)" for i
  proof -
    from wf_vars(1) e that have "nat i < length (getEnv e)" by (fastforce simp: nat_less_iff)
    with assms(3) show ?thesis by (meson nth_mem subsetD)
  qed
  have "norm_int A (nrm A e w) w u = rename A (\<lambda>x. indexOf (w ! nat x) u) (nrm A e w)"
    using norm_rename [OF assms(1) gx_nrm(1,2) [OF assms(1-3)]] .
  also have "\<dots> = rename A (\<lambda>i. indexOf (w ! nat (indexOf (getEnv e ! nat i) w)) u) (getExpr e)"
    using norm_rename [OF assms(1), of "getExpr e" "getEnv e" w] e assms(1) by (simp add: rename_rename o_def)
  also have "\<dots> = rename A (\<lambda>i. indexOf (getEnv e ! nat i) u) (getExpr e)"
    by (rule rename_cong) (use range indexOf_mem(3) e in auto)
  also have "\<dots> = nrm A e u" using norm_rename [OF assms(1), of "getExpr e" "getEnv e" u] e by simp
  finally show ?thesis .
qed

abbreviation const_assertion :: "pint \<Rightarrow> int \<Rightarrow> PAssertion" where
  "const_assertion x c \<equiv> \<lparr>pfirst = x, psecond = createConstant c\<rparr>"

lemma env_inj: "env_ok env \<Longrightarrow> inj_on (\<lambda>i. env ! nat i) {0..<int (length env)}"
  by (rule inj_onI) (use env_ok_distinct in \<open>auto simp: nth_eq_iff_index_eq nat_less_iff\<close>)

text \<open>An assertion \<open>lhs := constant\<close>, aligned on an environment that has the variables of its left-hand side.\<close>

lemma assertion_const:
  assumes lin: "linear_less (iless A)" and L: "good A L" "set (getEnv L) \<subseteq> set u" and K: "good A K" "const_val K = Some c"
  shows "aenv (Assertion_of A L K) = getEnv L"
    "norm_int A (pfirst (assertion (Assertion_of A L K))) (getEnv L) u = nrm A L u"
    "norm_int A (psecond (assertion (Assertion_of A L K))) (getEnv L) u = createConstant c" "taggable c"
proof -
  have gK: "gx A K = createConstant c" "taggable c" using const_val_gx(1) [OF K(1)] K(2) by blast+
  then have "is_const (getExpr K)" by (simp add: gx_def createConstant_def)
  with K(1) have K3: "getEnv K = []" by (auto simp: good_def is_const_iff)
  have as: "aenv (Assertion_of A L K) = getEnv L" "assertion (Assertion_of A L K) = \<lparr>pfirst = nrm A L (getEnv L), psecond = nrm A K (getEnv L)\<rparr>"
    by (simp_all add: Assertion_of_def Let_def K3)
  then show "aenv (Assertion_of A L K) = getEnv L" by simp
  show "norm_int A (pfirst (assertion (Assertion_of A L K))) (getEnv L) u = nrm A L u"
    using norm_again [OF lin L(1) order_refl L(2)] by (simp add: as)
  have "nrm A K w = createConstant c" for w using gx_nrm(4) [OF lin K(1), of w] by (simp add: K3 gK)
  moreover have "norm_int A (createConstant c) (getEnv L) u = createConstant c"
    by (simp add: norm_int_def normalize_def createConstant_def split: prod.splits)
  ultimately show "norm_int A (psecond (assertion (Assertion_of A L K))) (getEnv L) u = createConstant c" by (simp add: as)
  show "taggable c" by (rule gK)
qed

lemma setAssertion_parts:
  assumes lin: "linear_less (iless A)" and r: "fits A (IExpr x env)" and L: "good A L" "supersets env (getEnv L)"
    and K: "good A K" "const_val K = Some c"
  defines "u \<equiv> sorted_union (getEnv L) env"
  shows "IntExpression_setAssertion A (Assertion_of A L K) (IExpr x env)
      = rbind (assert_int A (const_assertion (nrm A L u) c) (nrm A (IExpr x env) u)) (\<lambda>x'. Inr (mk_int (gc_int A x' u)))"
    and "set (getEnv L) \<subseteq> set u" "set env \<subseteq> set u" "env_ok u"
proof -
  show sub: "set (getEnv L) \<subseteq> set u" "set env \<subseteq> set u" by (simp_all add: u_def)
  show "env_ok u" using good_parts [OF L(1)] fits_parts [OF r] by (simp add: u_def sorted_union_ok)
  show "IntExpression_setAssertion A (Assertion_of A L K) (IExpr x env)
      = rbind (assert_int A (const_assertion (nrm A L u) c) (nrm A (IExpr x env) u)) (\<lambda>x'. Inr (mk_int (gc_int A x' u)))"
    using assertion_const [OF lin L(1) sub(1) K] L(2) by (simp add: Let_def flip: u_def)
qed

lemma fits_isem_nrm:
  assumes "linear_less (iless A)" "fits A e" "set (getEnv e) \<subseteq> set u"
  shows "isem (env_val \<gamma> u) (nrm A e u) = denote \<gamma> e"
  using isem_rename [OF fits_nrm(1) [OF assms], of \<gamma> "\<lambda>i. u ! nat i"] fits_nrm(3) [OF assms] fits_denote [OF assms(2), of \<gamma>]
  by (simp add: env_val_at)

lemmas isem_nrm = fits_isem_nrm [OF _ good_fits]

lemma gx_rewrap:
  assumes lin: "linear_less (iless A)" and x': "canon A x'" "wf_int (int (length u)) x'" "env_ok u"
  shows "denote \<gamma> (mk_int (gc_int A x' u)) = isem (env_val \<gamma> u) x'"
  using gx_mk_gc [OF lin x'] x'(1) by (simp add: denote_gx env_val_at isem_rename)

lemma vars_in_range: "wf_int (int (length u)) y \<Longrightarrow> vars_int y \<subseteq> {0..<int (length u)}"
  using wf_vars(1) by fastforce

text \<open>The assertion on the parts of an expression, aligned on the variables of \<open>u\<close>.\<close>

lemma fits_assert:
  assumes lin: "linear_less (iless A)" and u: "env_ok u" "set (getEnv L) \<subseteq> set u" "set (getEnv r) \<subseteq> set u"
    and r: "fits A r" and L: "good A L" and c: "taggable c" and den: "denote \<gamma> L = Some c" "denote \<gamma> r = Some v"
  shows "\<exists>x'. assert_int A (const_assertion (nrm A L u) c) (nrm A r u) = Inr x' \<and> isem (env_val \<gamma> u) x' = Some v
    \<and> canon A x' \<and> wf_int (int (length u)) x'
    \<and> resolves A (const_assertion (gx A L) c) (gx A r) (rename A (\<lambda>i. u ! nat i) x')"
proof -
  note rx = fits_nrm [OF lin r u(3)] and Lx = gx_nrm [OF lin L u(2)]
  obtain x' where x': "assert_int A (const_assertion (nrm A L u) c) (nrm A r u) = Inr x'"
    "isem (env_val \<gamma> u) x' = Some v" "resolves A (const_assertion (nrm A L u) c) (nrm A r u) x'"
    using assert_step [OF c, of "const_assertion (nrm A L u) c" "env_val \<gamma> u", OF _ _ lin rx(1)]
      isem_nrm [OF lin L u(2), of \<gamma>] fits_isem_nrm [OF lin r u(3), of \<gamma>] den by auto
  have wf': "wf_int (int (length u)) x'"
    using wf_assert(1) [of "int (length u)" "const_assertion (nrm A L u) c" "nrm A r u" A] rx(2) x'(1) by simp
  have "resolves A (const_assertion (gx A L) c) (rename A (\<lambda>i. u ! nat i) (nrm A r u)) (rename A (\<lambda>i. u ! nat i) x')"
    by (rule resolves_rename [OF lin env_inj [OF u(1)] _ _ rx(1) vars_in_range [OF rx(2)] vars_in_range [OF wf'] x'(3)])
       (use Lx vars_in_range in auto)
  with x' wf' show ?thesis by (simp add: rx(3) resolves_def)
qed

lemma fits_step:
  assumes lin: "linear_less (iless A)" and r: "fits A r" and L: "good A L" "supersets (getEnv r) (getEnv L)"
    and K: "good A K" "const_val K = Some c" and den: "denote \<gamma> L = Some c" "denote \<gamma> r = Some v"
  shows "\<exists>r'. IntExpression_setAssertion A (Assertion_of A L K) r = Inr r' \<and> good A r' \<and> denote \<gamma> r' = Some v
    \<and> resolves A (const_assertion (gx A L) c) (gx A r) (gx A r')"
proof (cases r)
  case (IConst t)
  obtain k where k: "gx A r = createConstant k" "taggable k" using getExpr_IConst [of t] r IConst by (auto simp: gx_def fits_def)
  then have "resolves A (const_assertion (gx A L) c) (gx A r) (gx A r)" by (simp only: resolves_const)
  moreover have "IntExpression_setAssertion A (Assertion_of A L K) r = Inr r" by (simp add: IConst)
  moreover have "good A r" using r by (simp add: IConst fits_def)
  ultimately show ?thesis using den(2) by blast
next
  case (IExpr x env)
  define u where "u = sorted_union (getEnv L) env"
  note parts = setAssertion_parts [OF lin _ L(1) _ K, of x env, folded u_def]
  have parts: "IntExpression_setAssertion A (Assertion_of A L K) r
      = rbind (assert_int A (const_assertion (nrm A L u) c) (nrm A r u)) (\<lambda>x'. Inr (mk_int (gc_int A x' u)))"
    "set (getEnv L) \<subseteq> set u" "set (getEnv r) \<subseteq> set u" "env_ok u"
    using parts r L(2) IExpr by auto
  have c: "taggable c" by (rule assertion_const(4) [OF lin L(1) parts(2) K])
  from fits_assert [OF lin parts(4,2,3) r L(1) c den] obtain x' where
    x': "assert_int A (const_assertion (nrm A L u) c) (nrm A r u) = Inr x'" "isem (env_val \<gamma> u) x' = Some v"
      "canon A x'" "wf_int (int (length u)) x'" "resolves A (const_assertion (gx A L) c) (gx A r) (rename A (\<lambda>i. u ! nat i) x')" by blast
  note gc = gx_mk_gc [OF lin x'(3,4) parts(4)]
  have "denote \<gamma> (mk_int (gc_int A x' u)) = Some v" using gx_rewrap [OF lin x'(3,4) parts(4)] x'(2) by simp
  with parts(1) x'(1,5) gc(1) show ?thesis by (auto simp: gc(2))
qed

lemmas setAssertion_step = fits_step [OF _ good_fits]

text \<open>Without any assumption on the environments: the expression may stay as it is.\<close>

lemma setAssertion_any:
  assumes lin: "linear_less (iless A)" and r: "good A r" and L: "good A L"
    and K: "good A K" "const_val K = Some c" and den: "denote \<gamma> L = Some c" "denote \<gamma> r = Some v"
  shows "\<exists>r'. IntExpression_setAssertion A (Assertion_of A L K) r = Inr r' \<and> good A r' \<and> denote \<gamma> r' = Some v
    \<and> mentions (gx A r') \<subseteq> mentions (gx A r) \<and> isize (gx A r') \<le> isize (gx A r)"
proof (cases "supersets (getEnv r) (getEnv L)")
  case True
  from setAssertion_step [OF lin r L True K den] show ?thesis by (fastforce simp: resolves_def mentions_def)
next
  case False
  have "aenv (Assertion_of A L K) = getEnv L" by (rule assertion_const(1) [OF lin L order_refl K])
  with False have "IntExpression_setAssertion A (Assertion_of A L K) r = Inr r" by (cases r) simp_all
  with r den(2) show ?thesis by blast
qed

end
