(* ===== verification/Gal_Names.thy ===== *)
theory Gal_Names imports Gal_IntSound begin

text \<open>
  Variable names: \<open>Variable\<close> (\<open>its/gal/Variable.cpp\<close>) splits the name of an array cell, and the
  factory of \<open>IntExpression.cpp\<close> keeps two global tables, from names to indexes (\<open>var_names\<close>) and from
  variables to their expressions (\<open>var_expr\<close>).
\<close>

section \<open>Splitting names\<close>

record Variable =
  vname :: string
  aname :: string
  vindex :: int

text \<open>
  The constructor. \<open>substr (pos + 1, n)\<close> takes a length, and is given the position of the closing
  bracket: it reads at least to that bracket. A number outside \<open>int\<close> has no defined conversion.
\<close>

definition Variable_of :: "string \<Rightarrow> Variable res" where
  "Variable_of name =
     (let pos = find_last_of name (CHR ''['');
          aname = (case pos of None \<Rightarrow> name | Some p \<Rightarrow> take p name);
          start = (case pos of None \<Rightarrow> 0 | Some p \<Rightarrow> Suc p);
          nstr = (case find_last_of name (CHR '']'') of
                    None \<Rightarrow> drop start name
                  | Some n \<Rightarrow> take n (drop start name))
      in case scan_int nstr of
           None \<Rightarrow> Inr \<lparr>vname = name, aname = aname, vindex = - 1\<rparr>
         | Some i \<Rightarrow>
             if int32 i then Inr \<lparr>vname = name, aname = aname, vindex = i\<rparr>
             else Inl (Undefined ''sscanf overflow''))"

section \<open>The tables\<close>

record factory =
  var_names :: "(string \<times> int) list"
  var_expr :: "(string \<times> IntExpression) list"

definition empty_factory :: factory where
  "empty_factory = \<lparr>var_names = [], var_expr = []\<rparr>"

text \<open>\<open>insert\<close> of a \<open>std::map\<close> keeps an entry that is already there.\<close>

definition getVarIndex :: "string \<Rightarrow> factory \<Rightarrow> int \<times> factory" where
  "getVarIndex v s =
     (let nb = int (length (var_names s))
      in case map_of (var_names s) v of
           Some i \<Rightarrow> (i, s)
         | None \<Rightarrow> (nb, s\<lparr>var_names := var_names s @ [(v, nb)]\<rparr>))"

text \<open>\<open>getVar\<close> searches the table for the index; not finding it fails an assertion.\<close>

fun getVar_scan :: "(string \<times> int) list \<Rightarrow> int \<Rightarrow> string res" where
  "getVar_scan [] i = Inl (Abort ''assert(false)'')"
| "getVar_scan ((name, j) # xs) i = (if j = i then Inr name else getVar_scan xs i)"

definition getVar :: "factory \<Rightarrow> int \<Rightarrow> string res" where
  "getVar s i = getVar_scan (var_names s) i"

definition simple_variable :: "string \<Rightarrow> factory \<Rightarrow> IntExpression \<times> factory" where
  "simple_variable name s =
     (let (vari, s1) = getVarIndex name s in (IExpr (VarExpr 0) [vari], s1))"

definition remember :: "string \<Rightarrow> IntExpression \<Rightarrow> factory \<Rightarrow> factory" where
  "remember name e s = s\<lparr>var_expr := (name, e) # filter (\<lambda>p. fst p \<noteq> name) (var_expr s)\<rparr>"

lemma aname_shorter:
  "Variable_of name = Inr v \<Longrightarrow> aname v \<noteq> name \<Longrightarrow> length (aname v) < length name"
  using find_last_of_less [of name "CHR ''[''"]
  by (auto simp: Variable_of_def Let_def split: option.splits if_splits)

lemma Variable_of_vname: "Variable_of name = Inr v \<Longrightarrow> vname v = name"
  by (auto simp: Variable_of_def Let_def split: option.splits if_splits)

text \<open>
  \<open>createVariable\<close> and \<open>createArrayAccess\<close> call each other: the variable of a cell is an access to the
  array, whose own variable has a shorter name. The test on the length is that termination argument.
\<close>

function createVariable :: "heap_order \<Rightarrow> string \<Rightarrow> factory \<Rightarrow> (IntExpression \<times> factory) res" where
  "createVariable A name s =
     (case map_of (var_expr s) name of
        Some e \<Rightarrow> Inr (e, s)
      | None \<Rightarrow>
          (case Variable_of name of
             Inl err \<Rightarrow> Inl err
           | Inr v \<Rightarrow>
               if aname v \<noteq> name \<and> length (aname v) < length name then
                 rbind (createVariable A (aname v) s) (\<lambda>(var, s1).
                   rbind (array_access A var (createIConstant (vindex v)) (wrap32 (vindex v + 1))) (\<lambda>res.
                     Inr (res, remember name res s1)))
               else
                 (let (res, s1) = simple_variable name s in Inr (res, remember name res s1))))"
  by pat_completeness auto
termination
  by (relation "measure (\<lambda>(A, name, s). length name)") auto

declare createVariable.simps [simp del]

text \<open>The equation of the source, without the test on the length.\<close>

lemma createVariable_eq:
  "createVariable A name s =
     (case map_of (var_expr s) name of
        Some e \<Rightarrow> Inr (e, s)
      | None \<Rightarrow>
          rbind (Variable_of name) (\<lambda>v.
            if aname v \<noteq> name then
              rbind (createVariable A (aname v) s) (\<lambda>(var, s1).
                rbind (array_access A var (createIConstant (vindex v)) (wrap32 (vindex v + 1))) (\<lambda>res.
                  Inr (res, remember name res s1)))
            else (let (res, s1) = simple_variable name s in Inr (res, remember name res s1))))"
  using aname_shorter [of name]
  by (subst createVariable.simps) (auto simp: rbind_def split: option.split sum.split)

definition createArrayAccess_named ::
  "heap_order \<Rightarrow> string \<Rightarrow> IntExpression \<Rightarrow> int \<Rightarrow> factory \<Rightarrow> (IntExpression \<times> factory) res" where
  "createArrayAccess_named A v index limit s =
     rbind (createVariable A v s) (\<lambda>(var, s1).
       rbind (array_access A var index limit) (\<lambda>res. Inr (res, s1)))"

text \<open>The constructor \<open>IntExpression (const Variable & var)\<close> does not look at brackets.\<close>

definition IntExpression_of_var :: "string \<Rightarrow> factory \<Rightarrow> IntExpression \<times> factory" where
  "IntExpression_of_var name s = simple_variable name s"

definition createAssertion_var ::
  "heap_order \<Rightarrow> string \<Rightarrow> IntExpression \<Rightarrow> factory \<Rightarrow> (Assertion \<times> factory) res" where
  "createAssertion_var A v e s =
     rbind (createVariable A v s) (\<lambda>(var, s1). Inr (Assertion_of A var e, s1))"

text \<open>\<open>IntExpression::getName\<close>\<close>

definition getName :: "factory \<Rightarrow> IntExpression \<Rightarrow> string res" where
  "getName s e =
     (case e of
        IExpr (VarExpr x) env \<Rightarrow> getVar s (env ! nat x)
      | IExpr (ArrayConstExpr x i) env \<Rightarrow>
          rbind (getVar s (env ! nat x)) (\<lambda>n. Inr (n @ ''['' @ show_int i @ '']''))
      | _ \<Rightarrow> Inl (Throw ''Do not call getName on non Variable type int expressions.''))"

text \<open>\<open>getSupport\<close>: the names of the entries of the environment; a constant has no storage object.\<close>

fun names_of :: "factory \<Rightarrow> env \<Rightarrow> string set res" where
  "names_of s [] = Inr {}"
| "names_of s (g # gs) = rbind (getVar s g) (\<lambda>n. rbind (names_of s gs) (\<lambda>ns. Inr (insert n ns)))"

definition IntExpression_getSupport :: "factory \<Rightarrow> IntExpression \<Rightarrow> string set res" where
  "IntExpression_getSupport s e = rbind (concrete_getEnv e) (names_of s)"

definition BoolExpression_getSupport :: "factory \<Rightarrow> BoolExpression \<Rightarrow> string set res" where
  "BoolExpression_getSupport s b = names_of s (bgetEnv b)"

section \<open>The invariant of the tables\<close>

text \<open>Names and indexes are in bijection, the indexes being \<open>0, 1, ...\<close> in order of creation.\<close>

definition names_ok :: "factory \<Rightarrow> bool" where
  "names_ok s \<longleftrightarrow> distinct (map fst (var_names s))
     \<and> map snd (var_names s) = map int [0..<length (var_names s)]"

lemma getVarIndex_ok:
  assumes "names_ok s" "getVarIndex v s = (i, s')"
  shows "names_ok s'" "(v, i) \<in> set (var_names s')" "0 \<le> i" "i < int (length (var_names s'))"
    and "\<exists>new. var_names s' = var_names s @ new" "var_expr s' = var_expr s"
proof -
  have len: "map_of (var_names s) v = Some i \<Longrightarrow> 0 \<le> i \<and> i < int (length (var_names s))" for i
  proof -
    assume "map_of (var_names s) v = Some i"
    then have "i \<in> set (map snd (var_names s))" by (metis in_set_zipE map_of_SomeD zip_map_fst_snd)
    with assms(1) have "i \<in> set (map int [0..<length (var_names s)])" unfolding names_ok_def by metis
    then show ?thesis by auto
  qed
  show "names_ok s'" "(v, i) \<in> set (var_names s')" "0 \<le> i" "i < int (length (var_names s'))"
    "\<exists>new. var_names s' = var_names s @ new" "var_expr s' = var_expr s"
    using assms len
    by (auto simp: getVarIndex_def names_ok_def Let_def map_of_eq_None_iff dest: map_of_SomeD split: option.splits)
qed

lemma getVar_scan_found:
  "distinct (map snd xs) \<Longrightarrow> (name, i) \<in> set xs \<Longrightarrow> getVar_scan xs i = Inr name"
  by (induction xs) (auto simp: rev_image_eqI)

lemma getVar_found:
  assumes "names_ok s" "(name, i) \<in> set (var_names s)"
  shows "getVar s i = Inr name"
  using assms getVar_scan_found [of "var_names s" name i]
  by (simp add: names_ok_def getVar_def distinct_map inj_on_def)

text \<open>Every variable gets one index, and every index names the variable it was given to.\<close>

lemma getVar_getVarIndex:
  "names_ok s \<Longrightarrow> getVarIndex v s = (i, s') \<Longrightarrow> getVar s' i = Inr v"
  by (metis getVarIndex_ok(1,2) getVar_found)

lemma getVar_extends:
  assumes "names_ok s'" "var_names s' = var_names s @ new" "getVar s i = Inr n"
  shows "getVar s' i = Inr n"
proof -
  have "getVar_scan xs i = Inr n \<Longrightarrow> (n, i) \<in> set xs" for xs
    by (induction xs) (auto split: if_splits)
  then have "(n, i) \<in> set (var_names s')" using assms(2,3) by (simp add: getVar_def)
  with assms(1) show ?thesis by (rule getVar_found)
qed

text \<open>
  The expression of a variable without brackets is its global index, that of a cell the access to
  the array's index at the number between the brackets.
\<close>

definition entry_ok :: "(string \<times> int) list \<Rightarrow> string \<Rightarrow> IntExpression \<Rightarrow> bool" where
  "entry_ok names n e \<longleftrightarrow>
     (CHR ''['' \<notin> set n \<longrightarrow> (\<exists>i. (n, i) \<in> set names \<and> e = IExpr (VarExpr 0) [i]))
     \<and> (\<forall>v. Variable_of n = Inr v \<longrightarrow> aname v \<noteq> n \<longrightarrow> CHR ''['' \<notin> set (aname v) \<longrightarrow> 0 \<le> vindex v
          \<longrightarrow> taggable (vindex v)
          \<longrightarrow> (\<exists>i. (aname v, i) \<in> set names \<and> e = IExpr (ArrayConstExpr 0 (vindex v)) [i]))"

definition factory_ok :: "factory \<Rightarrow> bool" where
  "factory_ok s \<longleftrightarrow> names_ok s \<and> (\<forall>(n, e)\<in>set (var_expr s). entry_ok (var_names s) n e)"

lemma aname_no_bracket:
  assumes "Variable_of n = Inr v"
  shows "aname v = n \<longleftrightarrow> CHR ''['' \<notin> set n"
proof (cases "find_last_of n (CHR ''['')")
  case None
  with assms show ?thesis
    using find_last_of_None_iff [of n "CHR ''[''"]
    by (auto simp: Variable_of_def Let_def split: option.splits if_splits)
next
  case (Some p)
  then have "length (take p n) < length n" using find_last_of_less by fastforce
  moreover have "aname v = take p n"
    using assms Some by (auto simp: Variable_of_def Let_def split: option.splits if_splits)
  ultimately show ?thesis using Some find_last_of_None_iff [of n "CHR ''[''"] by fastforce
qed

lemma entry_ok_mono: "entry_ok names n e \<Longrightarrow> set names \<subseteq> set names' \<Longrightarrow> entry_ok names' n e"
proof -
  assume e: "entry_ok names n e" and sub: "set names \<subseteq> set names'"
  have "\<exists>i. (n, i) \<in> set names' \<and> e = IExpr (VarExpr 0) [i]" if "CHR ''['' \<notin> set n"
    using e sub that unfolding entry_ok_def by (elim conjE impE) auto
  moreover have "\<exists>i. (aname v, i) \<in> set names' \<and> e = IExpr (ArrayConstExpr 0 (vindex v)) [i]"
    if "Variable_of n = Inr v" "aname v \<noteq> n" "CHR ''['' \<notin> set (aname v)" "0 \<le> vindex v" "taggable (vindex v)" for v
  proof -
    from e that obtain i where "(aname v, i) \<in> set names" "e = IExpr (ArrayConstExpr 0 (vindex v)) [i]"
      unfolding entry_ok_def by metis
    with sub show ?thesis by auto
  qed
  ultimately show ?thesis unfolding entry_ok_def by simp
qed

lemma array_access_cell:
  assumes "0 \<le> k" "taggable k"
  shows "array_access A (IExpr (VarExpr 0) [i]) (createIConstant k) (wrap32 (k + 1))
    = Inr (IExpr (ArrayConstExpr 0 k) [i])"
proof -
  have k: "wrap32 (k + 1) = k + 1"
    using assms by (intro wrap32_id) (simp add: int32_def INT_MIN_def INT_MAX_def taggable_def)
  show ?thesis
    using assms
    by (simp add: array_access_def createIConstant_def norm_int_def normalize_def reindex_def Let_def
        concrete_tag untag_tag_small createConstant_def createArrayAccess_def k)
qed

lemma factory_ok_remember:
  assumes "factory_ok s" "entry_ok (var_names s) n e"
  shows "factory_ok (remember n e s)"
  using assms by (auto simp: factory_ok_def remember_def names_ok_def)

lemma simple_variable_ok:
  assumes "factory_ok s" "simple_variable n s = (e, s')"
  shows "factory_ok s'" "set (var_names s) \<subseteq> set (var_names s')" "\<exists>i. (n, i) \<in> set (var_names s') \<and> e = IExpr (VarExpr 0) [i]"
proof -
  obtain i where i: "getVarIndex n s = (i, s')" "e = IExpr (VarExpr 0) [i]"
    using assms(2) by (auto simp: simple_variable_def split: prod.splits)
  have names: "names_ok s" using assms(1) by (simp add: factory_ok_def)
  note ok = getVarIndex_ok [OF names i(1)]
  show sub: "set (var_names s) \<subseteq> set (var_names s')" using ok(5) by auto
  show "\<exists>i. (n, i) \<in> set (var_names s') \<and> e = IExpr (VarExpr 0) [i]" using ok(2) i(2) by blast
  show "factory_ok s'"
    using assms(1) ok(1,6) entry_ok_mono [OF _ sub] by (auto simp: factory_ok_def)
qed

lemma createVariable_ok:
  "factory_ok s \<Longrightarrow> createVariable A n s = Inr (e, s')
    \<Longrightarrow> factory_ok s' \<and> set (var_names s) \<subseteq> set (var_names s') \<and> entry_ok (var_names s') n e"
proof (induction A n s arbitrary: e s' rule: createVariable.induct)
  case (1 A n s)
  show ?case
  proof (cases "map_of (var_expr s) n")
    case (Some e0)
    then have "e = e0" "s' = s" using "1.prems"(2) by (auto simp: createVariable_eq [of A n s])
    with Some "1.prems"(1) show ?thesis by (auto simp: factory_ok_def dest: map_of_SomeD)
  next
    case None
    with "1.prems"(2) obtain v where v: "Variable_of n = Inr v"
      by (auto simp: createVariable_eq [of A n s] elim!: rbind_InrE)
    show ?thesis
    proof (cases "aname v = n")
      case True
      then obtain s1 where s1: "simple_variable n s = (e, s1)" "s' = remember n e s1"
        using "1.prems"(2) None v
        by (cases "simple_variable n s") (auto simp: createVariable_eq [of A n s] simple_variable_def
            split: prod.splits)
      note ok = simple_variable_ok [OF "1.prems"(1) s1(1)]
      have "entry_ok (var_names s1) n e"
        using ok(3) v True by (auto simp: entry_ok_def)
      with ok(1) have "factory_ok s'" unfolding s1(2) by (rule factory_ok_remember)
      with ok(2) \<open>entry_ok (var_names s1) n e\<close> show ?thesis by (simp add: s1(2) remember_def)
    next
      case False
      from v False have short: "length (aname v) < length n" by (rule aname_shorter)
      obtain var s1 where rec: "createVariable A (aname v) s = Inr (var, s1)"
        and acc: "array_access A var (createIConstant (vindex v)) (wrap32 (vindex v + 1)) = Inr e"
        and s': "s' = remember n e s1"
        using "1.prems"(2) None v False
        by (auto simp: createVariable_eq [of A n s] elim!: rbind_InrE)
      have IH: "factory_ok s1" "set (var_names s) \<subseteq> set (var_names s1)" "entry_ok (var_names s1) (aname v) var"
        using "1.IH" [OF None v _ "1.prems"(1) rec] False short by auto
      have "entry_ok (var_names s1) n e"
        unfolding entry_ok_def
      proof (intro conjI allI impI)
        assume "CHR ''['' \<notin> set n"
        with aname_no_bracket [OF v] False show "\<exists>i. (n, i) \<in> set (var_names s1) \<and> e = IExpr (VarExpr 0) [i]"
          by simp
      next
        fix v'
        assume "Variable_of n = Inr v'" "CHR ''['' \<notin> set (aname v')" "0 \<le> vindex v'" "taggable (vindex v')"
        with v IH(3) obtain i where "(aname v, i) \<in> set (var_names s1)" "var = IExpr (VarExpr 0) [i]" "v' = v"
          by (auto simp: entry_ok_def)
        with acc array_access_cell [of "vindex v" A i] \<open>0 \<le> vindex v'\<close> \<open>taggable (vindex v')\<close>
        show "\<exists>i. (aname v', i) \<in> set (var_names s1) \<and> e = IExpr (ArrayConstExpr 0 (vindex v')) [i]"
          by auto
      qed
      with IH factory_ok_remember [OF IH(1)] show ?thesis by (simp add: s' remember_def)
    qed
  qed
qed

section \<open>Names round trip\<close>

lemma getName_createVariable:
  assumes "factory_ok s" "createVariable A n s = Inr (e, s')" "CHR ''['' \<notin> set n"
  shows "getName s' e = Inr n"
proof -
  from createVariable_ok [OF assms(1,2)] assms(3) obtain i where
    "(n, i) \<in> set (var_names s')" "e = IExpr (VarExpr 0) [i]" "factory_ok s'"
    by (auto simp: entry_ok_def)
  then show ?thesis by (simp add: getName_def getVar_found factory_ok_def)
qed

lemma find_last_of_append: "c \<notin> set ys \<Longrightarrow> find_last_of (xs @ c # ys) c = Some (length xs)"
  using find_last_of_None_iff [of ys c] by (induction xs) auto

lemma show_int_no_bracket: "CHR '']'' \<notin> set (show_int k)" "CHR ''['' \<notin> set (show_int k)"
proof -
  have "c \<noteq> CHR '']'' \<and> c \<noteq> CHR ''[''" if "c \<in> set (show_nat n)" for c n
    using that
  proof (induction n rule: show_nat.induct)
    case (1 n)
    have "char_of (48 + m) \<noteq> CHR '']'' \<and> char_of (48 + m) \<noteq> CHR ''[''" if "m < 10" for m :: nat
    proof -
      have "digit_val (CHR '']'') = None" "digit_val (CHR ''['') = None" by (simp_all add: digit_val_def)
      with digit_val_char_of [OF that] show ?thesis by (metis option.distinct(1))
    qed
    with 1 show ?case by (cases "n < 10") (auto simp: show_nat.simps [of n])
  qed
  then show "CHR '']'' \<notin> set (show_int k)" "CHR ''['' \<notin> set (show_int k)"
    by (auto simp: show_int_def split: if_splits)
qed

text \<open>The name of a cell is split at its brackets.\<close>

lemma Variable_of_cell:
  assumes "CHR ''['' \<notin> set a" "int32 k"
  shows "Variable_of (a @ ''['' @ show_int k @ '']'')
    = Inr \<lparr>vname = a @ ''['' @ show_int k @ '']'', aname = a, vindex = k\<rparr>"
proof -
  let ?n = "a @ CHR ''['' # show_int k @ '']''"
  have open_br: "find_last_of ?n (CHR ''['') = Some (length a)"
    using show_int_no_bracket(2) by (intro find_last_of_append) auto
  have "find_last_of ((a @ CHR ''['' # show_int k) @ CHR '']'' # []) (CHR '']'') = Some (length (a @ CHR ''['' # show_int k))"
    by (rule find_last_of_append) simp
  then have close_br: "find_last_of ?n (CHR '']'') = Some (Suc (length a + length (show_int k)))" by simp
  have digits: "scan_int (show_int k @ '']'') = Some k"
    by (rule scan_int_show_int) (auto simp: digit_val_def)
  show ?thesis
    using open_br close_br digits assms(2) by (simp add: Variable_of_def Let_def)
qed

section \<open>The names of variables\<close>

definition label_ok :: "string \<Rightarrow> bool" where
  "label_ok n \<longleftrightarrow> CHR ''['' \<notin> set n
     \<or> (\<exists>a k. n = a @ ''['' @ show_int k @ '']'' \<and> CHR ''['' \<notin> set a \<and> 0 \<le> k \<and> taggable k)"

lemma entry_cases:
  assumes "entry_ok names n e" "label_ok n"
  obtains (plain) i where "(n, i) \<in> set names" "e = IExpr (VarExpr 0) [i]"
  | (cell) a k i where "n = a @ ''['' @ show_int k @ '']''" "(a, i) \<in> set names" "e = IExpr (ArrayConstExpr 0 k) [i]" "0 \<le> k" "taggable k"
  using assms(2) unfolding label_ok_def
proof
  assume "CHR ''['' \<notin> set n"
  with assms(1) plain show thesis by (auto simp: entry_ok_def)
next
  assume "\<exists>a k. n = a @ ''['' @ show_int k @ '']'' \<and> CHR ''['' \<notin> set a \<and> 0 \<le> k \<and> taggable k"
  then obtain a k where n: "n = a @ ''['' @ show_int k @ '']''" "CHR ''['' \<notin> set a" "0 \<le> k" "taggable k" by blast
  then have "Variable_of n = Inr \<lparr>vname = n, aname = a, vindex = k\<rparr>"
    using Variable_of_cell [of a k] by (simp add: taggable_def int32_def INT_MIN_def INT_MAX_def)
  with assms(1) n obtain i where "(a, i) \<in> set names" "e = IExpr (ArrayConstExpr 0 k) [i]"
    unfolding entry_ok_def by fastforce
  with n(1,3,4) show thesis by (intro cell)
qed

lemma getName_entry:
  assumes "factory_ok s" "entry_ok (var_names s) n e" "label_ok n"
  shows "getName s e = Inr n"
  using assms(2,3)
proof (cases rule: entry_cases)
  case (plain i)
  then show ?thesis using assms(1) by (simp add: getName_def getVar_found factory_ok_def)
next
  case (cell a k i)
  then show ?thesis using assms(1) by (simp add: getName_def getVar_found factory_ok_def)
qed

end
