(* ===== verification/Hom_Interface.thy ===== *)
theory Hom_Interface imports Its_Prelude begin

text \<open>
  What the code uses of the decision diagram library (libDDD, which is not part of the sources): the
  homomorphisms \<open>GHom\<close> and \<open>GShom\<close> with their operators, the basic homomorphisms of
  \<open>ddd/Hom_Basic.hh\<close>, and \<open>localApply\<close>. They are parameters: a record of operations and a function
  \<open>app\<close> that says what a homomorphism does to a set of states. The locales state the documented
  behaviour of the library; their interpretation on set transformers shows that it can be had.
\<close>

section \<open>Operations\<close>

text \<open>The functions \<open>GHom (*) (int, int)\<close> that are passed around.\<close>

datatype hom_fun =
  varEqState | varNeqState | varGtState | varLtState | varLeqState | varGeqState
| postPlace | setVarConst

record 'h hom_ops =
  Hid :: 'h
  Hnull :: 'h
  Hcomp :: "'h \<Rightarrow> 'h \<Rightarrow> 'h"
  Hor :: "'h \<Rightarrow> 'h \<Rightarrow> 'h"
  Hadd :: "'h list \<Rightarrow> 'h"
  Hnot :: "'h \<Rightarrow> 'h"
  Hite :: "'h \<Rightarrow> 'h \<Rightarrow> 'h \<Rightarrow> 'h"
  Hselector :: "'h \<Rightarrow> bool"

text \<open>The test a selector of \<open>Hom_Basic.hh\<close> makes on the value of its variable.\<close>

fun hom_test :: "hom_fun \<Rightarrow> int \<Rightarrow> int \<Rightarrow> bool" where
  "hom_test varEqState x k = (x = k)"
| "hom_test varNeqState x k = (x \<noteq> k)"
| "hom_test varGtState x k = (x > k)"
| "hom_test varLtState x k = (x < k)"
| "hom_test varLeqState x k = (x \<le> k)"
| "hom_test varGeqState x k = (x \<ge> k)"
| "hom_test postPlace x k = True"
| "hom_test setVarConst x k = True"

text \<open>
  The value it leaves; \<open>postPlace\<close> is \<open>incVar\<close> (\<open>Hom_PlaceArcs.hh\<close>). The type \<open>DDD::val_t\<close> of the values is
  not part of the sources, and its width is chosen when the library is built: values are unbounded integers
  here. The laws of \<open>ddd_library\<close> are those of runs in which every marking and clock fits into \<open>val_t\<close>.
\<close>

fun hom_value :: "hom_fun \<Rightarrow> int \<Rightarrow> int \<Rightarrow> int" where
  "hom_value postPlace x k = x + k"
| "hom_value setVarConst x k = k"
| "hom_value f x k = x"

section \<open>Documented behaviour\<close>

text \<open>A homomorphism is linear; \<open>f & g\<close> applies \<open>g\<close> first; a selector keeps or drops states.\<close>

locale hom_algebra =
  fixes ops :: "'h hom_ops" and app :: "'h \<Rightarrow> 'st set \<Rightarrow> 'st set"
  assumes app_linear: "app h S = (\<Union>s\<in>S. app h {s})"
    and app_id: "app (Hid ops) S = S"
    and app_null: "app (Hnull ops) S = {}"
    and app_comp: "app (Hcomp ops f g) S = app f (app g S)"
    and app_or: "app (Hor ops f g) S = app f S \<union> app g S"
    and app_add: "app (Hadd ops hs) S = (\<Union>h\<in>set hs. app h S)"
    and app_not: "(\<And>T. app h T \<subseteq> T) \<Longrightarrow> app (Hnot ops h) S = S - app h S"
    and app_ite: "(\<And>T. app c T \<subseteq> T) \<Longrightarrow> app (Hite ops c t f) S = app t (app c S) \<union> app f (S - app c S)"
    and app_selector: "Hselector ops h \<Longrightarrow> app h S \<subseteq> S"
begin

lemma app_empty: "app h {} = {}"
  by (subst app_linear) simp

lemma app_Un: "app h (S \<union> T) = app h S \<union> app h T"
  by (subst (1 2 3) app_linear) blast

lemma app_UN: "app h (\<Union>i\<in>I. F i) = (\<Union>i\<in>I. app h (F i))"
proof -
  have "app h (\<Union>i\<in>I. F i) = (\<Union>s\<in>(\<Union>i\<in>I. F i). app h {s})" by (rule app_linear)
  also have "\<dots> = (\<Union>i\<in>I. \<Union>s\<in>F i. app h {s})" by blast
  also have "\<dots> = (\<Union>i\<in>I. app h (F i))" by (simp only: app_linear [symmetric])
  finally show ?thesis .
qed

text \<open>A test on states given by its answer on single states.\<close>

definition tests :: "'h \<Rightarrow> ('st \<Rightarrow> bool) \<Rightarrow> bool" where
  "tests h P \<longleftrightarrow> (\<forall>S. app h S = {s \<in> S. P s})"

lemma tests_id: "tests (Hid ops) (\<lambda>s. True)"
  by (simp add: tests_def app_id)

lemma tests_comp: "tests f P \<Longrightarrow> tests g Q \<Longrightarrow> tests (Hcomp ops f g) (\<lambda>s. Q s \<and> P s)"
  by (auto simp: tests_def app_comp)

lemma tests_or: "tests f P \<Longrightarrow> tests g Q \<Longrightarrow> tests (Hor ops f g) (\<lambda>s. P s \<or> Q s)"
  by (auto simp: tests_def app_or)

lemma tests_not: "tests f P \<Longrightarrow> tests (Hnot ops f) (\<lambda>s. \<not> P s)"
  unfolding tests_def by (subst app_not) auto

lemma tests_add: "list_all2 tests hs Ps \<Longrightarrow> tests (Hadd ops hs) (\<lambda>s. \<exists>P\<in>set Ps. P s)"
proof -
  assume all: "list_all2 tests hs Ps"
  have "(\<Union>h\<in>set hs. app h S) = {s \<in> S. \<exists>P\<in>set Ps. P s}" for S
    using all by (induction hs Ps rule: list_all2_induct) (auto simp: tests_def)
  then show ?thesis by (simp add: tests_def app_add)
qed

lemma tests_ite:
  "tests c P \<Longrightarrow> app (Hite ops c t f) S = app t {s \<in> S. P s} \<union> app f {s \<in> S. \<not> P s}"
  unfolding tests_def by (subst app_ite) (auto simp: set_diff_eq intro!: arg_cong2 [where f = "(\<union>)"] arg_cong [where f = "app f"])

end

text \<open>Homomorphisms on the variables of one level: \<open>getHom foo var val\<close> is the basic one on \<open>var\<close>.\<close>

locale petri_hom = hom_algebra ops app
  for ops :: "'h hom_ops" and app :: "'h \<Rightarrow> 'st set \<Rightarrow> 'st set" +
  fixes getHom :: "hom_fun \<Rightarrow> int \<Rightarrow> int \<Rightarrow> 'h"
    and rd :: "'st \<Rightarrow> int \<Rightarrow> int" and wr :: "'st \<Rightarrow> int \<Rightarrow> int \<Rightarrow> 'st"
  assumes app_getHom: "app (getHom foo v k) S =
      (\<lambda>s. wr s v (hom_value foo (rd s v) k)) ` {s \<in> S. hom_test foo (rd s v) k}"
    and rd_wr: "rd (wr s v k) w = (if w = v then k else rd s w)"
    and wr_rd: "wr s v (rd s v) = s"
begin

lemma tests_getHom:
  "foo \<notin> {postPlace, setVarConst} \<Longrightarrow> tests (getHom foo v k) (\<lambda>s. hom_test foo (rd s v) k)"
proof -
  assume "foo \<notin> {postPlace, setVarConst}"
  then have "hom_value foo x k = x" for x by (cases foo) auto
  then show ?thesis by (simp add: tests_def app_getHom wr_rd)
qed

lemma app_postPlace: "app (getHom postPlace v k) S = (\<lambda>s. wr s v (rd s v + k)) ` S"
  by (simp add: app_getHom)

lemma app_setVarConst: "app (getHom setVarConst v k) S = (\<lambda>s. wr s v k) ` S"
  by (simp add: app_getHom)

end

text \<open>
  The two levels of the library: a path of a DDD assigns an integer to each variable, a path of an
  SDD assigns to each variable a path of a DDD. \<open>localApply h v\<close> applies \<open>h\<close> to the label of \<open>v\<close>.
\<close>

type_synonym ddd_path = "int \<Rightarrow> int"
type_synonym sdd_path = "int \<Rightarrow> ddd_path"

locale ddd_library =
  g: hom_algebra gops gapp + s: hom_algebra sops sapp
  for gops :: "'g hom_ops" and gapp :: "'g \<Rightarrow> ddd_path set \<Rightarrow> ddd_path set"
    and sops :: "'s hom_ops" and sapp :: "'s \<Rightarrow> sdd_path set \<Rightarrow> sdd_path set" +
  fixes gprim :: "hom_fun \<Rightarrow> int \<Rightarrow> int \<Rightarrow> 'g" and localApply :: "'g \<Rightarrow> int \<Rightarrow> 's"
  assumes gapp_prim: "gapp (gprim foo v k) S =
      (\<lambda>d. d(v := hom_value foo (d v) k)) ` {d \<in> S. hom_test foo (d v) k}"
    and sapp_local: "sapp (localApply h v) T = (\<Union>s\<in>T. (\<lambda>d. s(v := d)) ` gapp h {s v})"

section \<open>Both encodings of a state\<close>

text \<open>
  \<open>TPNetSemantics\<close> is specialised to \<open>GHom\<close> (one SDD variable \<open>DEFAULT_VAR\<close> labelled by a DDD over the
  places) and to \<open>GShom\<close> (one SDD variable per place, labelled by a DDD over \<open>DEFAULT_VAR\<close>).
\<close>

abbreviation (input) DEFAULT_VAR :: int where "DEFAULT_VAR \<equiv> 0"

definition ddd_getHom :: "(hom_fun \<Rightarrow> int \<Rightarrow> int \<Rightarrow> 'g) \<Rightarrow> hom_fun \<Rightarrow> int \<Rightarrow> int \<Rightarrow> 'g" where
  "ddd_getHom gprim foo var val = gprim foo var val"

definition sdd_getHom ::
  "(hom_fun \<Rightarrow> int \<Rightarrow> int \<Rightarrow> 'g) \<Rightarrow> ('g \<Rightarrow> int \<Rightarrow> 's) \<Rightarrow> hom_fun \<Rightarrow> int \<Rightarrow> int \<Rightarrow> 's" where
  "sdd_getHom gprim localApply foo var val = localApply (gprim foo DEFAULT_VAR val) var"

definition ddd_encapsulate :: "('g \<Rightarrow> int \<Rightarrow> 's) \<Rightarrow> 'g \<Rightarrow> 's" where
  "ddd_encapsulate localApply h = localApply h DEFAULT_VAR"

definition sdd_encapsulate :: "'s \<Rightarrow> 's" where
  "sdd_encapsulate h = h"

sublocale ddd_library \<subseteq> ddd: petri_hom gops gapp "ddd_getHom gprim" "\<lambda>d. d" "\<lambda>d v k. d(v := k)"
  by unfold_locales (auto simp: ddd_getHom_def gapp_prim)

sublocale ddd_library \<subseteq> sdd: petri_hom sops sapp "sdd_getHom gprim localApply"
    "\<lambda>s v. s v DEFAULT_VAR" "\<lambda>s v k. s(v := (s v)(DEFAULT_VAR := k))"
proof
  show "sapp (sdd_getHom gprim localApply foo v k) S =
      (\<lambda>s. s(v := (s v)(DEFAULT_VAR := hom_value foo (s v DEFAULT_VAR) k))) `
        {s \<in> S. hom_test foo (s v DEFAULT_VAR) k}" for foo v k S
    by (auto simp: sdd_getHom_def sapp_local gapp_prim)
qed auto

section \<open>The library on sets of paths\<close>

text \<open>Homomorphisms are linear: each is given by its images of single states.\<close>

definition lin :: "('st \<Rightarrow> 'st set) \<Rightarrow> 'st set \<Rightarrow> 'st set" where
  "lin f S = (\<Union>s\<in>S. f s)"

definition lin_ops :: "('st \<Rightarrow> 'st set) hom_ops" where
  "lin_ops =
     \<lparr>Hid = (\<lambda>s. {s}), Hnull = (\<lambda>s. {}), Hcomp = (\<lambda>f g s. lin f (g s)), Hor = (\<lambda>f g s. f s \<union> g s),
      Hadd = (\<lambda>hs s. \<Union>h\<in>set hs. h s), Hnot = (\<lambda>h s. {s} - h s),
      Hite = (\<lambda>c t f s. lin t (c s) \<union> lin f ({s} - c s)), Hselector = (\<lambda>h. \<forall>s. h s \<subseteq> {s})\<rparr>"

definition lin_prim :: "hom_fun \<Rightarrow> int \<Rightarrow> int \<Rightarrow> ddd_path \<Rightarrow> ddd_path set" where
  "lin_prim foo v k d = (if hom_test foo (d v) k then {d(v := hom_value foo (d v) k)} else {})"

definition lin_local :: "(ddd_path \<Rightarrow> ddd_path set) \<Rightarrow> int \<Rightarrow> sdd_path \<Rightarrow> sdd_path set" where
  "lin_local h v s = (\<lambda>d. s(v := d)) ` h (s v)"

interpretation lin_algebra: hom_algebra "lin_ops :: ('st \<Rightarrow> 'st set) hom_ops" lin
proof
  show "lin (Hnot lin_ops h) S = S - lin h S" if "\<And>T. lin h T \<subseteq> T" for h S
  proof -
    have "h s \<subseteq> {s}" for s using that [of "{s}"] by (simp add: lin_def)
    then show ?thesis by (fastforce simp: lin_def lin_ops_def)
  qed
  show "lin (Hite lin_ops c t f) S = lin t (lin c S) \<union> lin f (S - lin c S)" if "\<And>T. lin c T \<subseteq> T" for c t f S
  proof -
    have "c s \<subseteq> {s}" for s using that [of "{s}"] by (simp add: lin_def)
    then show ?thesis by (fastforce simp: lin_def lin_ops_def)
  qed
qed (fastforce simp: lin_def lin_ops_def)+

interpretation lin_library: ddd_library lin_ops lin lin_ops lin lin_prim lin_local
  by unfold_locales (auto simp: lin_def lin_prim_def lin_local_def)

end
