(* ===== verification/Var_Order.thy ===== *)
theory Var_Order imports Its_Prelude begin

text \<open>
  Variable orders (\<open>its/Ordering.cpp\<close>): a bijection between variable names and indexes, kept in a
  \<open>std::map\<close> from names to indexes. The list holds the entries of the map; indexes are unique in
  every order the code builds, so the order in which \<open>getLabel\<close> visits them does not matter.
\<close>

type_synonym labels = "string list"
type_synonym varorder = "(string \<times> int) list"

section \<open>Operations\<close>

definition getIndex :: "varorder \<Rightarrow> string \<Rightarrow> int" where
  "getIndex vo l = (case map_of vo l of None \<Rightarrow> - 1 | Some i \<Rightarrow> i)"

fun getLabel :: "varorder \<Rightarrow> int \<Rightarrow> string" where
  "getLabel [] index = ''''"
| "getLabel ((l, i) # vo) index = (if i = index then l else getLabel vo index)"

fun setFromCollection_loop :: "labels \<Rightarrow> int \<Rightarrow> varorder \<Rightarrow> varorder res" where
  "setFromCollection_loop [] i indexes = Inr indexes"
| "setFromCollection_loop (v # vs) i indexes =
     (if v \<in> fst ` set indexes then Inl (Abort ''assert(false)'')
      else setFromCollection_loop vs (i + 1) (indexes @ [(v, i)]))"

definition setFromCollection :: "labels \<Rightarrow> varorder res" where
  "setFromCollection vars = setFromCollection_loop vars 0 []"

text \<open>\<open>addVariable\<close> answers whether the entry was added.\<close>

definition addVariable :: "varorder \<Rightarrow> string \<Rightarrow> int \<Rightarrow> varorder \<times> bool" where
  "addVariable vo var index =
     (if getLabel vo index \<noteq> '''' \<or> getIndex vo var \<noteq> - 1 then (vo, False)
      else (vo @ [(var, index)], True))"

text \<open>\<open>updateOrder\<close>: a name that is unknown stops it; then the names given become the order.\<close>

definition updateOrder :: "varorder \<Rightarrow> labels \<Rightarrow> (varorder \<times> bool) res" where
  "updateOrder vo vars =
     (if list_ex (\<lambda>v. getIndex vo v = - 1) vars then Inr (vo, False)
      else rbind (setFromCollection vars) (\<lambda>vo'. Inr (vo', True)))"

definition vo_size :: "varorder \<Rightarrow> nat" where
  "vo_size vo = length vo"

section \<open>The invariant\<close>

definition vo_ok :: "varorder \<Rightarrow> bool" where
  "vo_ok vo \<longleftrightarrow> distinct (map fst vo) \<and> distinct (map snd vo) \<and> (\<forall>i\<in>snd ` set vo. 0 \<le> i)"

lemma getIndex_mem: "vo_ok vo \<Longrightarrow> (l, i) \<in> set vo \<Longrightarrow> getIndex vo l = i"
  by (simp add: getIndex_def vo_ok_def)

lemma getIndex_None: "vo_ok vo \<Longrightarrow> getIndex vo l = - 1 \<longleftrightarrow> l \<notin> fst ` set vo"
proof -
  assume ok: "vo_ok vo"
  have "map_of vo l \<noteq> Some (- 1)"
  proof
    assume "map_of vo l = Some (- 1)"
    then have "(l, - 1) \<in> set vo" by (rule map_of_SomeD)
    with ok show False by (force simp: vo_ok_def)
  qed
  then show ?thesis
    by (cases "map_of vo l") (auto simp: getIndex_def map_of_eq_None_iff [symmetric] dest: map_of_SomeD
        simp: rev_image_eqI)
qed

lemma getLabel_mem: "distinct (map snd vo) \<Longrightarrow> (l, i) \<in> set vo \<Longrightarrow> getLabel vo i = l"
  by (induction vo i rule: getLabel.induct) (auto simp: rev_image_eqI)

lemma getLabel_none: "i \<notin> snd ` set vo \<Longrightarrow> getLabel vo i = ''''"
  by (induction vo i rule: getLabel.induct) auto

lemma setFromCollection_loop_eq:
  "setFromCollection_loop vs i indexes =
     (if distinct vs \<and> set vs \<inter> fst ` set indexes = {}
      then Inr (indexes @ zip vs (map (\<lambda>j. i + int j) [0..<length vs]))
      else Inl (Abort ''assert(false)''))"
proof (induction vs arbitrary: i indexes)
  case (Cons v vs)
  have "map (\<lambda>j. i + int j) [0..<length (v # vs)] = i # map (\<lambda>j. i + 1 + int j) [0..<length vs]"
    unfolding length_Cons upt_conv_Cons [OF zero_less_Suc]
    by (simp add: map_Suc_upt [symmetric] del: map_Suc_upt upt_Suc)
  then show ?case by (auto simp: Cons.IH)
qed simp

lemma setFromCollection_eq:
  "setFromCollection vs =
     (if distinct vs then Inr (zip vs (map int [0..<length vs])) else Inl (Abort ''assert(false)''))"
  by (simp add: setFromCollection_def setFromCollection_loop_eq)

lemma order_of_ok:
  assumes "setFromCollection vs = Inr vo"
  shows "vo_ok vo" "map fst vo = vs" "map snd vo = map int [0..<length vs]"
proof -
  from assms have vs: "distinct vs" and vo: "vo = zip vs (map int [0..<length vs])"
    by (simp_all add: setFromCollection_eq split: if_splits)
  show names: "map fst vo = vs" and indexes: "map snd vo = map int [0..<length vs]"
    by (simp_all add: vo)
  have "snd ` set vo = set (map int [0..<length vs])" by (simp only: indexes [symmetric] set_map)
  then show "vo_ok vo" using vs by (simp add: vo_ok_def names indexes distinct_map)
qed

text \<open>Names and indexes are inverse to each other.\<close>

lemma order_roundtrip:
  assumes "setFromCollection vs = Inr vo" "i < length vs"
  shows "getIndex vo (vs ! i) = int i" "getLabel vo (int i) = vs ! i"
proof -
  have vo: "vo = zip vs (map int [0..<length vs])"
    using assms(1) by (simp add: setFromCollection_eq split: if_splits)
  have "(vs ! i, int i) \<in> set vo"
    unfolding vo using assms(2) by (force simp: set_zip)
  with order_of_ok(1) [OF assms(1)] show "getIndex vo (vs ! i) = int i" "getLabel vo (int i) = vs ! i"
    by (auto simp: getIndex_mem getLabel_mem vo_ok_def)
qed

lemma updateOrder_ok:
  assumes "vo_ok vo" "updateOrder vo vars = Inr (vo', b)"
  shows "vo_ok vo'" "b \<longleftrightarrow> set vars \<subseteq> fst ` set vo" "b \<Longrightarrow> map fst vo' = vars"
  using assms order_of_ok [of vars vo'] getIndex_None [OF assms(1)]
  by (auto simp: updateOrder_def list_ex_iff split: if_splits elim!: rbind_InrE)

lemma addVariable_ok:
  assumes "vo_ok vo" "0 \<le> index" "'''' \<notin> fst ` set vo" "addVariable vo var index = (vo', b)"
  shows "vo_ok vo'" "b \<longleftrightarrow> index \<notin> snd ` set vo \<and> var \<notin> fst ` set vo" "b \<Longrightarrow> getIndex vo' var = index"
    and "\<And>l. l \<noteq> var \<Longrightarrow> getIndex vo' l = getIndex vo l"
proof -
  have free: "getLabel vo index = '''' \<longleftrightarrow> index \<notin> snd ` set vo"
    using getLabel_none [of index vo] getLabel_mem [of vo _ index] assms(1,3)
    by (auto simp: vo_ok_def image_iff)
  note none = getIndex_None [OF assms(1), of var]
  have vo': "vo' = (if b then vo @ [(var, index)] else vo)"
    and b: "b \<longleftrightarrow> index \<notin> snd ` set vo \<and> var \<notin> fst ` set vo"
    using assms(4) free none by (auto simp: addVariable_def split: if_splits)
  show "b \<longleftrightarrow> index \<notin> snd ` set vo \<and> var \<notin> fst ` set vo" by (rule b)
  show ok: "vo_ok vo'" using assms(1,2) vo' b by (auto simp: vo_ok_def)
  show "getIndex vo' var = index" if b using getIndex_mem [OF ok, of var index] vo' that by simp
  show "getIndex vo' l = getIndex vo l" if "l \<noteq> var" for l
    using vo' that by (simp add: getIndex_def map_add_def split: option.split)
qed

text \<open>
  The names given to \<open>updateOrder\<close> need not be a permutation of the current ones: a proper subset is
  accepted, and the variables it leaves out lose their index.
\<close>

lemma updateOrder_drops_variables:
  "updateOrder [(''a'', 0), (''b'', 1)] [''b''] = Inr ([(''b'', 0)], True)"
  "getIndex [(''b'', 0)] ''a'' = - 1"
  by (simp_all add: updateOrder_def setFromCollection_eq getIndex_def)

end
