(* ===== verification/Gal_Hom.thy ===== *)
theory Gal_Hom imports Gal_Resolve Gal_Names Hom_Interface Var_Order begin

text \<open>
  The homomorphisms of GAL expressions (\<open>its/gal/ExprHom.cpp\<close>, \<open>its/gal/GALOrder.hh\<close>): the value of an
  expression on every path of a decision diagram (\<open>query\<close>), assignments and predicates. The decision
  diagram library (libDDD) is a parameter: nodes, their construction and the application of
  homomorphisms. The recursion of the code goes down the diagram and into sub-expressions; here it is
  bounded by a fuel argument, whose exhaustion stands for a recursion or a loop without end. The cache in
  front of \<open>queryEval\<close> keeps what \<open>queryEval\<close> answers.
\<close>

section \<open>The variables of the diagram\<close>

record GalOrder =
  go_map :: "IntExpression list"
  array_size :: "(string \<times> int) list"

definition note_cell :: "Variable \<Rightarrow> (string \<times> int) list \<Rightarrow> (string \<times> int) list" where
  "note_cell v m =
     (case map_of m (aname v) of
        Some k \<Rightarrow> if vindex v > k then map_assign (aname v) (vindex v) m else m
      | None \<Rightarrow> map_assign (aname v) (vindex v) m)"

text \<open>The constructor: the expressions of the labels \<open>0, 1, ...\<close> and the largest index of each array.\<close>

definition GalOrder_step ::
  "heap_order \<Rightarrow> varorder \<Rightarrow> nat \<Rightarrow> GalOrder \<times> factory \<Rightarrow> (GalOrder \<times> factory) res" where
  "GalOrder_step A vo i s =
     rbind (Variable_of (getLabel vo (int i))) (\<lambda>v.
       rbind (createVariable A (vname v) (snd s)) (\<lambda>(mi, f).
         Inr (\<lparr>go_map = go_map (fst s) @ [mi],
               array_size = (if IntExpression_getType mi = CONSTARRAY then note_cell v (array_size (fst s))
                             else array_size (fst s))\<rparr>, f)))"

definition GalOrder_of :: "heap_order \<Rightarrow> varorder \<Rightarrow> factory \<Rightarrow> (GalOrder \<times> factory) res" where
  "GalOrder_of A vo f = rfold (GalOrder_step A vo) [0..<vo_size vo] (\<lparr>go_map = [], array_size = []\<rparr>, f)"

text \<open>\<open>map_.find (index)->second\<close>.\<close>

definition go_getVar :: "GalOrder \<Rightarrow> int \<Rightarrow> IntExpression res" where
  "go_getVar vo i =
     (if 0 \<le> i \<and> nat i < length (go_map vo) then Inr (go_map vo ! nat i)
      else Inl (Undefined ''dereference of map_.end()''))"

definition isValidAddress :: "GalOrder \<Rightarrow> string \<Rightarrow> int \<Rightarrow> bool res" where
  "isValidAddress vo arr i =
     (case map_of (array_size vo) arr of
        None \<Rightarrow> Inl (Abort ''assert (it != array_size.end ())'')
      | Some k \<Rightarrow> Inr (k \<ge> i \<and> i \<ge> 0))"

fun getIndex_scan :: "IntExpression list \<Rightarrow> IntExpression \<Rightarrow> int \<Rightarrow> int res" where
  "getIndex_scan [] v i = Inl (Abort ''assert (false)'')"
| "getIndex_scan (x # xs) v i = (if x = v then Inr i else getIndex_scan xs v (i + 1))"

definition go_getIndex :: "GalOrder \<Rightarrow> IntExpression \<Rightarrow> int res" where
  "go_getIndex vo v = getIndex_scan (go_map vo) v 0"

section \<open>The library\<close>

text \<open>
  Nodes: \<open>dd_arcs\<close> are the (value, child) pairs an iterator visits, \<open>dd_node\<close> is \<open>GDDD (var, val, child)\<close>,
  \<open>dd_add\<close> is \<open>DED::add\<close> and \<open>val_cast\<close> the conversion to \<open>DDD::val_t\<close>. \<open>info_add\<close> and \<open>tmp_add\<close> are \<open>add\<close> of
  the two instances of \<open>AdditiveMap\<close>. \<open>expr_less\<close> is the address order of \<open>IntExpression\<close>. \<open>hom_of\<close> makes a
  homomorphism of the methods \<open>skip_variable\<close> and \<open>eval\<close> of a class derived from \<open>_GHom\<close>, \<open>hom_select\<close> of
  a selector's, which also gives \<open>has_image\<close> and \<open>negate\<close>.
\<close>

type_synonym 'd info = "(IntExpression \<times> 'd) list"
type_synonym 'd tmp_info = "((IntExpression \<times> IntExpression) \<times> 'd) list"
type_synonym skip = "int \<Rightarrow> bool res"

record ('d, 'h) dd_lib =
  dd_null :: 'd
  dd_one :: 'd
  dd_top :: 'd
  dd_variable :: "'d \<Rightarrow> int"
  dd_arcs :: "'d \<Rightarrow> (int \<times> 'd) list"
  dd_node :: "int \<Rightarrow> int \<Rightarrow> 'd \<Rightarrow> 'd"
  dd_add :: "'d list \<Rightarrow> 'd"
  computeDomain :: "int \<Rightarrow> 'd \<Rightarrow> 'd"
  val_cast :: "int \<Rightarrow> int"
  info_add :: "IntExpression \<Rightarrow> 'd \<Rightarrow> 'd info \<Rightarrow> 'd info"
  tmp_add :: "IntExpression \<times> IntExpression \<Rightarrow> 'd \<Rightarrow> 'd tmp_info \<Rightarrow> 'd tmp_info"
  expr_less :: "IntExpression \<Rightarrow> IntExpression \<Rightarrow> bool"
  hops :: "'h hom_ops"
  hom_ccompose :: "'h list \<Rightarrow> 'h"
  hom_fixpoint :: "'h \<Rightarrow> 'h"
  hom_prim :: "hom_fun \<Rightarrow> int \<Rightarrow> int \<Rightarrow> 'h"
  hom_cmp_var :: "BoolCompClass \<Rightarrow> int \<Rightarrow> int \<Rightarrow> 'h"
  hom_of :: "skip \<Rightarrow> ('d \<Rightarrow> 'd res) \<Rightarrow> 'h"
  hom_select :: "skip \<Rightarrow> ('d \<Rightarrow> 'd res) \<Rightarrow> ('d \<Rightarrow> 'd res) \<Rightarrow> 'h res \<Rightarrow> 'h"
  hom_app :: "'h \<Rightarrow> 'd \<Rightarrow> 'd res"
  hom_image :: "'h \<Rightarrow> 'd \<Rightarrow> 'd res"
  base_image :: "skip \<Rightarrow> ('d \<Rightarrow> 'd res) \<Rightarrow> 'd \<Rightarrow> 'd res"

definition no_fuel :: "'a res" where
  "no_fuel = Inl (Undefined ''recursion without end'')"

text \<open>\<open>IntExpressionFactory::createAssertion (curv, IntExpressionFactory::createConstant (vl))\<close>\<close>

abbreviation edge_assertion :: "heap_order \<Rightarrow> IntExpression \<Rightarrow> int \<Rightarrow> Assertion" where
  "edge_assertion A curv vl \<equiv> Assertion_of A curv (createIConstant vl)"

section \<open>query\<close>

text \<open>One edge \<open>(vl, child)\<close> of the node of an element \<open>(e, rr)\<close> of \<open>tosolve\<close>.\<close>

definition query_edge ::
  "('d, 'h) dd_lib \<Rightarrow> heap_order \<Rightarrow> (IntExpression \<Rightarrow> 'd \<Rightarrow> 'd info res) \<Rightarrow> int \<Rightarrow> IntExpression \<Rightarrow>
   IntExpression \<Rightarrow> IntExpression \<Rightarrow> int \<times> 'd \<Rightarrow> 'd info \<times> 'd tmp_info \<Rightarrow> ('d info \<times> 'd tmp_info) res" where
  "query_edge lib A qry vr curv e rr edge s =
     (let (vl, child) = edge; (res, remain) = s
      in rbind (IntExpression_isSupport curv rr) (\<lambda>r_support.
         rbind (if r_support then IntExpression_setAssertion A (edge_assertion A curv vl) rr else Inr rr) (\<lambda>r.
         if IntExpression_getType r = INTCONST then Inr (info_add lib r (dd_node lib vr vl child) res, remain)
         else rbind (IntExpression_isSupport curv r) (\<lambda>again.
           if again then
             let sub_expr = IntExpression_getFirstSubExpr A r
             in rbind (qry sub_expr (dd_node lib vr vl child)) (\<lambda>rhssolved.
                rbind (rfold (\<lambda>(k, d) m.
                    rbind (IntExpression_setAssertion A (Assertion_of A sub_expr k) r) (\<lambda>r'.
                      Inr (tmp_add lib (e, r') d m))) rhssolved remain) (\<lambda>remain'.
                Inr (res, remain')))
           else rbind (qry r child) (\<lambda>rhssolved.
             Inr (fold (\<lambda>(k, d). info_add lib k (dd_node lib vr vl d)) rhssolved res, remain))))))"

definition query_element ::
  "('d, 'h) dd_lib \<Rightarrow> heap_order \<Rightarrow> (IntExpression \<Rightarrow> 'd \<Rightarrow> 'd info res) \<Rightarrow> int \<Rightarrow> IntExpression \<Rightarrow>
   IntExpression \<Rightarrow> (IntExpression \<times> IntExpression) \<times> 'd \<Rightarrow> 'd info \<times> 'd tmp_info \<Rightarrow> ('d info \<times> 'd tmp_info) res" where
  "query_element lib A qry vr curv e elem =
     rfold (query_edge lib A qry vr curv e (snd (fst elem))) (dd_arcs lib (snd elem))"

fun query_loop ::
  "('d, 'h) dd_lib \<Rightarrow> heap_order \<Rightarrow> (IntExpression \<Rightarrow> 'd \<Rightarrow> 'd info res) \<Rightarrow> int \<Rightarrow> IntExpression \<Rightarrow>
   IntExpression \<Rightarrow> nat \<Rightarrow> 'd tmp_info \<Rightarrow> 'd info \<Rightarrow> 'd info res" where
  "query_loop lib A qry vr curv e 0 remain res = (if remain = [] then Inr res else no_fuel)"
| "query_loop lib A qry vr curv e (Suc n) remain res =
     (if remain = [] then Inr res
      else rbind (rfold (query_element lib A qry vr curv e) remain (res, [])) (\<lambda>(res', remain').
        query_loop lib A qry vr curv e n remain' res'))"

definition queryEval ::
  "('d, 'h) dd_lib \<Rightarrow> heap_order \<Rightarrow> GalOrder \<Rightarrow> nat \<Rightarrow> (IntExpression \<Rightarrow> 'd \<Rightarrow> 'd info res) \<Rightarrow>
   IntExpression \<Rightarrow> 'd \<Rightarrow> 'd info res" where
  "queryEval lib A vo n qry e d =
     (let vr = dd_variable lib d
      in rbind (go_getVar vo vr) (\<lambda>curv.
         query_loop lib A qry vr curv e n (tmp_add lib (e, e) d []) []))"

primrec query ::
  "('d, 'h) dd_lib \<Rightarrow> heap_order \<Rightarrow> GalOrder \<Rightarrow> nat \<Rightarrow> IntExpression \<Rightarrow> 'd \<Rightarrow> 'd info res" where
  "query lib A vo 0 = (\<lambda>e d. no_fuel)"
| "query lib A vo (Suc n) = (\<lambda>e d. queryEval lib A vo n (query lib A vo n) e d)"

section \<open>Assignments\<close>

text \<open>\<open>GHom::get_range\<close>, the same loop in each class.\<close>

definition get_range :: "GalOrder \<Rightarrow> skip \<Rightarrow> int list res" where
  "get_range vo skip_variable =
     rfold (\<lambda>i toret. rbind (skip_variable (int i)) (\<lambda>s. Inr (if \<not> s then toret @ [int i] else toret)))
       [0..<length (go_map vo)] []"

text \<open>\<open>vo->size () <= vr\<close> compares as unsigned.\<close>

definition out_of_order :: "GalOrder \<Rightarrow> int \<Rightarrow> bool" where
  "out_of_order vo vr \<longleftrightarrow> vr < 0 \<or> length (go_map vo) \<le> nat vr"

definition Assign_skip :: "GalOrder \<Rightarrow> IntExpression \<Rightarrow> IntExpression \<Rightarrow> skip" where
  "Assign_skip vo var expr vr =
     (if out_of_order vo vr then Inr True
      else rbind (go_getVar vo vr) (\<lambda>curv.
        rbind (IntExpression_isSupport curv var) (\<lambda>s.
          if s then Inr False else rbind (IntExpression_isSupport curv expr) (\<lambda>t. Inr (\<not> t)))))"

definition overflow_message :: string where
  "overflow_message = ''Overflow error when processing assignment. Please recompile libDDD with larger DDD::val_t definition.''"

text \<open>The nodes one edge adds to the result; \<open>assign v e\<close> is \<open>assignExpr (v, e, vo, isIncrement)\<close>.\<close>

definition Assign_edge ::
  "('d, 'h) dd_lib \<Rightarrow> heap_order \<Rightarrow> (IntExpression \<Rightarrow> 'd \<Rightarrow> 'd info res) \<Rightarrow> (IntExpression \<Rightarrow> IntExpression \<Rightarrow> 'h res) \<Rightarrow>
   IntExpression \<Rightarrow> IntExpression \<Rightarrow> bool \<Rightarrow> int \<Rightarrow> IntExpression \<Rightarrow> int \<times> 'd \<Rightarrow> 'd list res" where
  "Assign_edge lib A qry assign var expr isIncrement vr curv edge =
     (let (vl, child) = edge; assertion = edge_assertion A curv vl; here = dd_node lib vr vl child
      in rbind (IntExpression_isSupport curv expr) (\<lambda>expr_support.
         rbind (if IntExpression_getType var = ARRAY then IntExpression_isSupport curv var else Inr False) (\<lambda>var_support.
         rbind (if expr_support then IntExpression_setAssertion A assertion expr else Inr expr) (\<lambda>e.
         rbind (if var_support then IntExpression_setAssertion A assertion var else Inr var) (\<lambda>v.
         if v = curv then
           (if IntExpression_getType e = INTCONST then
              rbind (IntExpression_getValue e) (\<lambda>k.
                let sum = (if isIncrement then wrap32 (k + vl) else k); newvalue = val_cast lib sum
                in if newvalue \<noteq> sum then Inl (Throw overflow_message) else Inr [dd_node lib vr newvalue child])
            else rbind (qry e here) (\<lambda>rhssolved.
              rmap (\<lambda>(k, d). rbind (assign v k) (\<lambda>h. hom_app lib h d)) rhssolved))
         else rbind (if IntExpression_getType v = ARRAY then IntExpression_isSupport curv v else Inr False) (\<lambda>nested.
           if nested then
             let sub_expr = IntExpression_getFirstSubExpr A v
             in rbind (qry sub_expr here) (\<lambda>rhssolved.
                rmap (\<lambda>(k, d). let ass_tmp = Assertion_of A sub_expr k in
                  rbind (IntExpression_setAssertion A ass_tmp v) (\<lambda>v'.
                  rbind (IntExpression_setAssertion A ass_tmp e) (\<lambda>e'.
                  rbind (assign v' e') (\<lambda>h. hom_app lib h d)))) rhssolved)
           else rbind (IntExpression_isSupport curv e) (\<lambda>unresolved.
             if unresolved then
               let sub_expr = IntExpression_getFirstSubExpr A e
               in rbind (qry sub_expr here) (\<lambda>rhssolved.
                  rmap (\<lambda>(k, d).
                    rbind (IntExpression_setAssertion A (Assertion_of A sub_expr k) e) (\<lambda>e'.
                    rbind (assign v e') (\<lambda>h. hom_app lib h d))) rhssolved)
             else rbind (assign v e) (\<lambda>h. rbind (hom_app lib h child) (\<lambda>c. Inr [dd_node lib vr vl c])))))))))"

text \<open>On \<open>GDDD::one\<close> an error is printed and the path is lost.\<close>

definition Assign_eval ::
  "('d, 'h) dd_lib \<Rightarrow> heap_order \<Rightarrow> GalOrder \<Rightarrow> (IntExpression \<Rightarrow> 'd \<Rightarrow> 'd info res) \<Rightarrow>
   (IntExpression \<Rightarrow> IntExpression \<Rightarrow> 'h res) \<Rightarrow> IntExpression \<Rightarrow> IntExpression \<Rightarrow> bool \<Rightarrow> 'd \<Rightarrow> 'd res" where
  "Assign_eval lib A vo qry assign var expr isIncrement d =
     (if d = dd_null lib \<or> d = dd_one lib then Inr (dd_null lib)
      else if d = dd_top lib then Inr (dd_top lib)
      else let vr = dd_variable lib d
        in rbind (go_getVar vo vr) (\<lambda>curv.
           rbind (rmap (Assign_edge lib A qry assign var expr isIncrement vr curv) (dd_arcs lib d)) (\<lambda>res.
             Inr (dd_add lib (concat res)))))"

primrec assignExpr ::
  "('d, 'h) dd_lib \<Rightarrow> heap_order \<Rightarrow> GalOrder \<Rightarrow> bool \<Rightarrow> nat \<Rightarrow> IntExpression \<Rightarrow> IntExpression \<Rightarrow> 'h res" where
  "assignExpr lib A vo isIncrement 0 = (\<lambda>var val. no_fuel)"
| "assignExpr lib A vo isIncrement (Suc n) = (\<lambda>var val.
     if IntExpression_getType var = INTNDEF \<or> IntExpression_getType val = INTNDEF then Inr (Hnull (hops lib))
     else if IntExpression_getType var \<notin> {VAR, ARRAY, CONSTARRAY}
     then Inl (Abort ''assert(var.getType() == VAR || var.getType() == ARRAY || var.getType() == CONSTARRAY)'')
     else Inr (hom_of lib (Assign_skip vo var val)
       (Assign_eval lib A vo (query lib A vo n) (assignExpr lib A vo isIncrement n) var val isIncrement)))"

definition incrExpr ::
  "('d, 'h) dd_lib \<Rightarrow> heap_order \<Rightarrow> GalOrder \<Rightarrow> nat \<Rightarrow> IntExpression \<Rightarrow> IntExpression \<Rightarrow> 'h res" where
  "incrExpr lib A vo n var expr = assignExpr lib A vo True n var expr"

end
