(* ===== verification/Gal_Query.thy ===== *)
theory Gal_Query imports Gal_Hom begin

text \<open>
  The contract of the decision diagram library, the variables of an order as locations, and: \<open>query\<close>
  splits the paths of a diagram by the value of the expression, with a fuel that depends on the number of
  variables and the size of the expression.
\<close>

section \<open>The order as locations\<close>

fun eloc :: "IntExpression \<Rightarrow> loc option" where
  "eloc (IExpr (VarExpr x) [g]) = (if x = 0 then Some (Scalar g) else None)"
| "eloc (IExpr (ArrayConstExpr x k) [g]) = (if x = 0 then Some (Cell g k) else None)"
| "eloc e = None"

abbreviation locs :: "GalOrder \<Rightarrow> loc list" where
  "locs vo \<equiv> map (the \<circ> eloc) (go_map vo)"

text \<open>Every variable is a plain one or a cell, none twice, and no plain variable has the name of an array.\<close>

definition order_ok :: "GalOrder \<Rightarrow> bool" where
  "order_ok vo \<longleftrightarrow> (\<forall>e\<in>set (go_map vo). ie_ok e \<and> eloc e \<noteq> None) \<and> distinct (locs vo)
     \<and> (\<forall>g k. Scalar g \<in> set (locs vo) \<longrightarrow> Cell g k \<notin> set (locs vo))"

definition upto :: "GalOrder \<Rightarrow> nat \<Rightarrow> loc set" where
  "upto vo n = set (take n (locs vo))"

lemma eloc_cases:
  assumes "eloc e = Some l"
  obtains g where "e = IExpr (VarExpr 0) [g]" "l = Scalar g" | g k where "e = IExpr (ArrayConstExpr 0 k) [g]" "l = Cell g k"
  using assms by (cases e rule: eloc.cases) (auto split: if_splits)

lemma eloc_gx:
  assumes "eloc e = Some l" "ie_ok e"
  shows "good A e" "leaf (gx A e) = {l}" "denote \<gamma> e = chk (look \<gamma> l)" "set (getEnv e) = {loc_var l}"
    "IntExpression_getType e \<in> {VAR, CONSTARRAY}"
  using assms by (auto elim!: eloc_cases simp: good_def gx_def denote_gx)

lemma eloc_inj: "eloc e = Some l \<Longrightarrow> eloc d = Some l \<Longrightarrow> e = d"
  by (auto elim!: eloc_cases)

text \<open>What \<open>isSupport\<close> of a variable looks for.\<close>

fun touches :: "loc \<Rightarrow> pint \<Rightarrow> bool" where
  "touches (Scalar g) e \<longleftrightarrow> Scalar g \<in> leaves e \<or> (\<exists>m. (g, m) \<in> accesses e)"
| "touches (Cell g k) e \<longleftrightarrow> Scalar g \<in> leaves e \<or> Cell g k \<in> leaves e \<or> (\<exists>m. (g, m) \<in> accesses e)"

lemma isSupport_leaves:
  "canon A e \<Longrightarrow> isSupport_int v tid e \<longleftrightarrow> Scalar v \<in> leaves e \<or> Cell v tid \<in> leaves e \<or> (\<exists>m. (v, m) \<in> accesses e)"
  by (induction A e rule: canon.induct) (auto simp: list_ex_iff)

lemma wf_leaves_cell: "wf_int n e \<Longrightarrow> Cell a k \<in> leaves e \<Longrightarrow> 0 \<le> k"
  by (induction e rule: leaves.induct) (auto simp: list_all_iff)

lemma accesses_var: "(a, m) \<in> accesses e \<Longrightarrow> a \<in> vars_int e"
  by (induction e rule: accesses.induct) auto

lemma fits_touches:
  assumes "eloc v = Some l" "ie_ok v" "fits A e"
  shows "IntExpression_isSupport v e = Inr (touches l (gx A e))"
    and "touches l (gx A e) \<Longrightarrow> set (getEnv v) \<subseteq> set (getEnv e)"
proof -
  define g where "g = loc_var l"
  have g: "var_global v = Inr g" "set (getEnv v) = {g}"
    using assms(1) by (auto elim!: eloc_cases simp: var_global_def g_def)
  define tid where "tid = (case l of Scalar x \<Rightarrow> - 1 | Cell a k \<Rightarrow> k)"
  have tid: "int_getValue (getExpr v) = Inr tid" using assms(1) by (auto elim!: eloc_cases simp: tid_def)
  have "IntExpression_isSupport v e = Inr (touches l (gx A e))
    \<and> (touches l (gx A e) \<longrightarrow> set (getEnv v) \<subseteq> set (getEnv e))"
  proof (cases e)
    case (IConst t)
    with assms(3) getExpr_IConst [of t] show ?thesis by (cases l) (auto simp: gx_def)
  next
    case (IExpr x env)
    with fits_parts [OF assms(3)] have x: "env_ok env" "wf_int (int (length env)) x" "canon A x" by auto
    define i where "i = indexOf g env"
    have ren: "env ! nat y = g \<longleftrightarrow> y = i \<and> i \<noteq> - 1" if "y \<in> vars_int x" for y
    proof -
      have y: "0 \<le> y" "nat y < length env" using wf_vars(1) [OF x(2)] that by (auto simp: nat_less_iff)
      show ?thesis
      proof
        assume "env ! nat y = g"
        with indexOf_nth [OF env_ok_distinct [OF x(1)] y(2)] y(1) show "y = i \<and> i \<noteq> - 1" by (simp add: i_def)
      next
        assume "y = i \<and> i \<noteq> - 1"
        with indexOf_cases [of g env] show "env ! nat y = g" by (auto simp: i_def)
      qed
    qed
    have leaf: "Scalar g \<in> leaves (gx A e) \<longleftrightarrow> i \<noteq> - 1 \<and> Scalar i \<in> leaves x"
      "Cell g k \<in> leaves (gx A e) \<longleftrightarrow> i \<noteq> - 1 \<and> Cell i k \<in> leaves x"
      "(\<exists>m. (g, m) \<in> accesses (gx A e)) \<longleftrightarrow> i \<noteq> - 1 \<and> (\<exists>m. (i, m) \<in> accesses x)" for k
    proof -
      have "Scalar g = rename_loc f d \<longleftrightarrow> (\<exists>y. d = Scalar y \<and> f y = g)"
        "Cell g k = rename_loc f d \<longleftrightarrow> (\<exists>y. d = Cell y k \<and> f y = g)" for f d
        by (cases d; auto)+
      note loc = this
      show "Scalar g \<in> leaves (gx A e) \<longleftrightarrow> i \<noteq> - 1 \<and> Scalar i \<in> leaves x"
        using ren leaves_var [of _ x] by (fastforce simp: gx_def IExpr leaves_rename image_iff loc)
      show "Cell g k \<in> leaves (gx A e) \<longleftrightarrow> i \<noteq> - 1 \<and> Cell i k \<in> leaves x"
        using ren leaves_var [of _ x] by (fastforce simp: gx_def IExpr leaves_rename image_iff loc)
      show "(\<exists>m. (g, m) \<in> accesses (gx A e)) \<longleftrightarrow> i \<noteq> - 1 \<and> (\<exists>m. (i, m) \<in> accesses x)"
        using ren accesses_var [of _ _ x] by (force simp: gx_def IExpr accesses_rename image_iff)
    qed
    have "Cell i (- 1) \<notin> leaves x" using wf_leaves_cell [OF x(2), of i "- 1"] by auto
    then have "touches l (gx A e) \<longleftrightarrow> i \<noteq> - 1 \<and> isSupport_int i tid x"
      using isSupport_leaves [OF x(3), of i tid] leaf
      by (cases l) (auto simp: g_def tid_def)
    moreover have "i \<noteq> - 1 \<longleftrightarrow> g \<in> set env" using indexOf_None_iff [of g env] by (simp add: i_def)
    ultimately show ?thesis by (auto simp: IExpr g tid Let_def simp flip: i_def)
  qed
  then show "IntExpression_isSupport v e = Inr (touches l (gx A e))"
    "touches l (gx A e) \<Longrightarrow> set (getEnv v) \<subseteq> set (getEnv e)" by auto
qed

lemmas isSupport_touches = fits_touches [OF _ _ good_fits]

section \<open>Diagrams over the first variables of the order\<close>

text \<open>
  \<open>dd_level lib n d\<close>: \<open>d\<close> is not null and each of its paths has the variables \<open>n - 1, ..., 0\<close>, with values a
  tagged constant can hold. A path is the list of the values of the variables \<open>0, ..., n - 1\<close>.
\<close>

fun dd_level :: "('d, 'h) dd_lib \<Rightarrow> nat \<Rightarrow> 'd \<Rightarrow> bool" where
  "dd_level lib 0 d \<longleftrightarrow> d = dd_one lib"
| "dd_level lib (Suc n) d \<longleftrightarrow> d \<notin> {dd_null lib, dd_one lib, dd_top lib} \<and> dd_variable lib d = int n
     \<and> dd_arcs lib d \<noteq> [] \<and> (\<forall>e\<in>set (dd_arcs lib d). taggable (fst e) \<and> dd_level lib n (snd e))"

fun dd_paths :: "('d, 'h) dd_lib \<Rightarrow> nat \<Rightarrow> 'd \<Rightarrow> int list set" where
  "dd_paths lib 0 d = (if d = dd_one lib then {[]} else {})"
| "dd_paths lib (Suc n) d =
     (if d = dd_null lib then {} else \<Union>e\<in>set (dd_arcs lib d). (\<lambda>p. p @ [fst e]) ` dd_paths lib n (snd e))"

definition level0 :: "('d, 'h) dd_lib \<Rightarrow> nat \<Rightarrow> 'd \<Rightarrow> bool" where
  "level0 lib n d \<longleftrightarrow> d = dd_null lib \<or> dd_level lib n d"

lemma dd_paths_length: "p \<in> dd_paths lib n d \<Longrightarrow> length p = n"
  by (induction n arbitrary: d p) (auto split: if_splits)

lemma dd_paths_nonempty: "dd_level lib n d \<Longrightarrow> dd_paths lib n d \<noteq> {}"
proof (induction n arbitrary: d)
  case (Suc n)
  then obtain e where "e \<in> set (dd_arcs lib d)" "dd_level lib n (snd e)" by (cases "dd_arcs lib d") auto
  with Suc show ?case by fastforce
qed simp

text \<open>The valuations that give the variables of the order the values of a path.\<close>

text \<open>The values on a path are those a tagged constant can hold.\<close>

lemma level_taggable: "dd_level lib n d \<Longrightarrow> p \<in> dd_paths lib n d \<Longrightarrow> x \<in> set p \<Longrightarrow> taggable x"
proof (induction n arbitrary: d p)
  case (Suc n)
  then obtain e q where e: "e \<in> set (dd_arcs lib d)" "p = q @ [fst e]" "q \<in> dd_paths lib n (snd e)" by (auto split: if_splits)
  with Suc.prems Suc.IH [of "snd e" q] show ?case by (auto split: if_splits)
qed (auto split: if_splits)

definition agrees :: "GalOrder \<Rightarrow> nat \<Rightarrow> int list \<Rightarrow> valuation \<Rightarrow> bool" where
  "agrees vo n p \<gamma> \<longleftrightarrow> (\<forall>k<n. look \<gamma> (locs vo ! k) = p ! k)"

lemma agrees_Suc:
  "length p = n \<Longrightarrow> agrees vo (Suc n) (p @ [x]) \<gamma> \<longleftrightarrow> agrees vo n p \<gamma> \<and> look \<gamma> (locs vo ! n) = x"
  by (auto simp: agrees_def less_Suc_eq nth_append)

lemma agrees_put:
  assumes "order_ok vo" "n < length (go_map vo)" "agrees vo n p \<gamma>"
  shows "agrees vo n p (put (locs vo ! n) x \<gamma>)"
proof -
  have "locs vo ! k \<noteq> locs vo ! n" if "k < n" for k
    using assms(1,2) that by (simp add: order_ok_def nth_eq_iff_index_eq del: nth_map)
  with assms(3) show ?thesis by (simp add: agrees_def look_put del: nth_map)
qed

lemma agrees_ex: "order_ok vo \<Longrightarrow> n \<le> length (go_map vo) \<Longrightarrow> length p = n \<Longrightarrow> \<exists>\<gamma>. agrees vo n p \<gamma>"
proof (induction n arbitrary: p)
  case (Suc n)
  from Suc.prems(3) obtain q x where p: "p = q @ [x]" "length q = n" by (metis length_Suc_conv_rev)
  with Suc obtain \<gamma> where "agrees vo n q \<gamma>" by auto
  with Suc.prems p have "agrees vo (Suc n) p (put (locs vo ! n) x \<gamma>)"
    by (simp add: agrees_Suc agrees_put look_put del: nth_map)
  then show ?case by blast
qed (auto simp: agrees_def)

lemma upto_Suc: "n < length (go_map vo) \<Longrightarrow> upto vo (Suc n) = insert (locs vo ! n) (upto vo n)"
  by (simp add: upto_def take_Suc_conv_app_nth del: nth_map)

text \<open>\<open>paths_of n m\<close>: the keys of the entries of a map with the paths of their nodes.\<close>

definition paths_of :: "('d, 'h) dd_lib \<Rightarrow> nat \<Rightarrow> ('k \<times> 'd) list \<Rightarrow> ('k \<times> int list) set" where
  "paths_of lib n m = (\<Union>(k, d)\<in>set m. Pair k ` dd_paths lib n d)"

definition levels :: "('d, 'h) dd_lib \<Rightarrow> nat \<Rightarrow> ('k \<times> 'd) list \<Rightarrow> bool" where
  "levels lib n m \<longleftrightarrow> (\<forall>x\<in>set m. dd_level lib n (snd x))"

lemma levels_simps [simp]: "levels lib n []" "levels lib n (x # m) \<longleftrightarrow> dd_level lib n (snd x) \<and> levels lib n m"
  by (simp_all add: levels_def)

lemma paths_of_simps [simp]:
  "paths_of lib n [] = {}" "paths_of lib n (x # m) = Pair (fst x) ` dd_paths lib n (snd x) \<union> paths_of lib n m"
  by (auto simp: paths_of_def)

locale dd_nodes =
  fixes lib :: "('d, 'h) dd_lib"
  assumes terminals: "dd_null lib \<noteq> dd_one lib" "dd_null lib \<noteq> dd_top lib" "dd_one lib \<noteq> dd_top lib"
    and node_level: "dd_level lib n c \<Longrightarrow> taggable v \<Longrightarrow> dd_level lib (Suc n) (dd_node lib (int n) v c)"
    and node_paths: "dd_level lib n c \<Longrightarrow> dd_paths lib (Suc n) (dd_node lib (int n) v c) = (\<lambda>p. p @ [v]) ` dd_paths lib n c"
    and node_null: "dd_node lib i v (dd_null lib) = dd_null lib"
    and add_level: "(\<And>d. d \<in> set ds \<Longrightarrow> level0 lib n d) \<Longrightarrow> level0 lib n (dd_add lib ds)"
    and add_paths: "(\<And>d. d \<in> set ds \<Longrightarrow> level0 lib n d) \<Longrightarrow> dd_paths lib n (dd_add lib ds) = (\<Union>d\<in>set ds. dd_paths lib n d)"
    and info_add: "levels lib n m \<Longrightarrow> dd_level lib n d \<Longrightarrow> levels lib n (info_add lib k d m)
      \<and> paths_of lib n (info_add lib k d m) = paths_of lib n m \<union> Pair k ` dd_paths lib n d"
    and tmp_add: "levels lib n t \<Longrightarrow> dd_level lib n d \<Longrightarrow> levels lib n (tmp_add lib kk d t)
      \<and> paths_of lib n (tmp_add lib kk d t) = paths_of lib n t \<union> Pair kk ` dd_paths lib n d"

text \<open>\<open>e\<close> has the value \<open>v\<close> in every state that continues the path \<open>p\<close>.\<close>

definition value_on :: "GalOrder \<Rightarrow> nat \<Rightarrow> int list \<Rightarrow> IntExpression \<Rightarrow> int \<Rightarrow> bool" where
  "value_on vo n p e v \<longleftrightarrow> (\<forall>\<gamma>. agrees vo n p \<gamma> \<longrightarrow> denote \<gamma> e = Some v)"

text \<open>What \<open>query\<close> may be asked, and what it answers.\<close>

definition askable :: "('d, 'h) dd_lib \<Rightarrow> heap_order \<Rightarrow> GalOrder \<Rightarrow> nat \<Rightarrow> IntExpression \<Rightarrow> 'd \<Rightarrow> bool" where
  "askable lib A vo n e d \<longleftrightarrow> good A e \<and> mentions (gx A e) \<subseteq> upto vo n \<and> n \<le> length (go_map vo)
     \<and> dd_level lib n d \<and> (\<forall>p\<in>dd_paths lib n d. \<exists>v. value_on vo n p e v)"

definition solved :: "heap_order \<Rightarrow> GalOrder \<Rightarrow> nat \<Rightarrow> IntExpression \<Rightarrow> (IntExpression \<times> int list) set \<Rightarrow> bool" where
  "solved A vo n e R \<longleftrightarrow> (\<forall>(k, p)\<in>R. good A k \<and> (\<exists>v. const_val k = Some v \<and> value_on vo n p e v))"

definition answers :: "('d, 'h) dd_lib \<Rightarrow> heap_order \<Rightarrow> GalOrder \<Rightarrow> nat \<Rightarrow> IntExpression \<Rightarrow> 'd \<Rightarrow> 'd info \<Rightarrow> bool" where
  "answers lib A vo n e d m \<longleftrightarrow> levels lib n m \<and> solved A vo n e (paths_of lib n m)
     \<and> snd ` paths_of lib n m = dd_paths lib n d"

text \<open>Elements of the worklist: smaller than \<open>b\<close>, and as good as \<open>e\<close> on their paths.\<close>

definition pending ::
  "heap_order \<Rightarrow> GalOrder \<Rightarrow> nat \<Rightarrow> IntExpression \<Rightarrow> nat \<Rightarrow> ((IntExpression \<times> IntExpression) \<times> int list) set \<Rightarrow> bool" where
  "pending A vo n e b T \<longleftrightarrow> (\<forall>((e0, r), p)\<in>T. good A r \<and> mentions (gx A r) \<subseteq> upto vo n \<and> isize (gx A r) < b
     \<and> (\<exists>v. value_on vo n p r v \<and> value_on vo n p e v))"

lemma solved_Un [simp]: "solved A vo n e (R \<union> S) \<longleftrightarrow> solved A vo n e R \<and> solved A vo n e S"
  unfolding solved_def by blast

lemma pending_Un [simp]: "pending A vo n e b (T \<union> U) \<longleftrightarrow> pending A vo n e b T \<and> pending A vo n e b U"
  unfolding pending_def by blast

lemma pending_mono: "pending A vo n e b T \<Longrightarrow> b \<le> c \<Longrightarrow> pending A vo n e c T"
  unfolding pending_def by fastforce

lemma value_on_const: "good A k \<Longrightarrow> const_val k = Some v \<Longrightarrow> value_on vo n p k v"
  by (simp add: value_on_def const_val_denote)

lemma in_paths_of: "(k, d) \<in> set m \<Longrightarrow> p \<in> dd_paths lib n d \<Longrightarrow> (k, p) \<in> paths_of lib n m"
  by (force simp: paths_of_def)

lemma paths_ofE:
  assumes "(k, p) \<in> paths_of lib n m"
  obtains d where "(k, d) \<in> set m" "p \<in> dd_paths lib n d"
  using assms by (auto simp: paths_of_def)

lemma value_on_unique:
  assumes "order_ok vo" "n \<le> length (go_map vo)" "length p = n" "value_on vo n p e v" "value_on vo n p e w"
  shows "v = w"
  using agrees_ex [OF assms(1-3)] assms(4,5) by (auto simp: value_on_def)

text \<open>A value that does not depend on the last variable of a path.\<close>

lemma fits_butlast:
  assumes "linear_less (iless A)" "order_ok vo" "n < length (go_map vo)" "length p = n" "fits A e"
    and "mentions (gx A e) \<subseteq> upto vo n" "value_on vo (Suc n) (p @ [x]) e v"
  shows "value_on vo n p e v"
  unfolding value_on_def
proof (intro allI impI)
  fix \<gamma>
  assume \<gamma>: "agrees vo n p \<gamma>"
  let ?\<gamma> = "put (locs vo ! n) x \<gamma>"
  have "agrees vo (Suc n) (p @ [x]) ?\<gamma>"
    using agrees_put [OF assms(2,3) \<gamma>] assms(4) by (simp add: agrees_Suc look_put del: nth_map)
  with assms(7) have "denote ?\<gamma> e = Some v" by (simp add: value_on_def)
  moreover have "locs vo ! n \<notin> upto vo n"
  proof -
    have "distinct (locs vo)" "n < length (locs vo)" using assms(2,3) by (auto simp: order_ok_def)
    then show ?thesis by (auto simp: upto_def in_set_conv_nth nth_eq_iff_index_eq simp del: nth_map)
  qed
  with assms(6) have "isem ?\<gamma> (gx A e) = isem \<gamma> (gx A e)"
    by (intro isem_mentions [OF fits_canon [OF assms(1,5)]]) (auto simp: look_put simp del: nth_map)
  ultimately show "denote \<gamma> e = Some v" by (simp add: fits_denote [OF assms(5)])
qed

lemmas value_on_butlast = fits_butlast [OF _ _ _ _ good_fits]

lemma value_on_append: "length p = n \<Longrightarrow> value_on vo n p e v \<Longrightarrow> value_on vo (Suc n) (p @ [x]) e v"
  by (simp add: value_on_def agrees_Suc)

context dd_nodes begin

section \<open>The two maps of a query\<close>

lemma fold_info:
  "levels lib n m \<Longrightarrow> taggable vl \<Longrightarrow> levels lib (Suc n) res \<Longrightarrow>
     levels lib (Suc n) (fold (\<lambda>(k, d). info_add lib k (dd_node lib (int n) vl d)) m res)
     \<and> paths_of lib (Suc n) (fold (\<lambda>(k, d). info_add lib k (dd_node lib (int n) vl d)) m res)
       = paths_of lib (Suc n) res \<union> (\<lambda>(k, p). (k, p @ [vl])) ` paths_of lib n m"
proof (induction m arbitrary: res)
  case (Cons x m)
  obtain k d where x: "x = (k, d)" by (cases x)
  with Cons.prems(1) have d: "dd_level lib n d" "levels lib n m" by auto
  note node = node_level [OF d(1) Cons.prems(2)] node_paths [OF d(1), of vl]
  define r where "r = info_add lib k (dd_node lib (int n) vl d) res"
  have r: "levels lib (Suc n) r" "paths_of lib (Suc n) r = paths_of lib (Suc n) res \<union> Pair k ` (\<lambda>p. p @ [vl]) ` dd_paths lib n d"
    using info_add [OF Cons.prems(3) node(1), of k] node(2) by (simp_all add: r_def)
  from Cons.IH [OF d(2) Cons.prems(2) r(1)] r(2) show ?case
    by (simp add: x image_Un image_image Un_assoc del: dd_paths.simps flip: r_def)
qed simp

lemma fold_tmp:
  "levels lib n m \<Longrightarrow> (\<And>x. x \<in> set m \<Longrightarrow> f (fst x) = Inr (g (fst x))) \<Longrightarrow> levels lib n t \<Longrightarrow>
     \<exists>t'. rfold (\<lambda>(k, d) m. rbind (f k) (\<lambda>r'. Inr (tmp_add lib (e, r') d m))) m t = Inr t' \<and> levels lib n t'
       \<and> paths_of lib n t' = paths_of lib n t \<union> (\<lambda>(k, p). ((e, g k), p)) ` paths_of lib n m"
proof (induction m arbitrary: t)
  case (Cons x m)
  obtain k d where x: "x = (k, d)" by (cases x)
  with Cons.prems(1) Cons.prems(2) [of x] have d: "dd_level lib n d" "levels lib n m" "f k = Inr (g k)" by auto
  define r where "r = tmp_add lib (e, g k) d t"
  have r: "levels lib n r" "paths_of lib n r = paths_of lib n t \<union> Pair (e, g k) ` dd_paths lib n d"
    using tmp_add [OF Cons.prems(3) d(1), of "(e, g k)"] by (simp_all add: r_def)
  from Cons.IH [OF d(2) _ r(1)] r(2) Cons.prems(2) show ?case
    by (simp add: x d(3) image_Un image_image Un_assoc flip: r_def)
qed simp

end

end
