(* ===== verification/Gal_Query_Sound.thy ===== *)
theory Gal_Query_Sound imports Gal_Query begin

text \<open>
  \<open>query\<close> is correct: an edge, an element of the worklist, the loop, the recursion.
\<close>

section \<open>One assertion\<close>

lemma fits_value:
  assumes lin: "linear_less (iless A)" and r: "fits A r" and L: "good A L" "set (getEnv L) \<subseteq> set (getEnv r)"
    and K: "good A K" "const_val K = Some c" and ex: "\<exists>\<gamma>. P \<gamma>"
    and den: "\<And>\<gamma>. P \<gamma> \<Longrightarrow> denote \<gamma> L = Some c \<and> denote \<gamma> r = Some v"
  shows "\<exists>r'. IntExpression_setAssertion A (Assertion_of A L K) r = Inr r' \<and> good A r'
    \<and> (\<forall>\<gamma>. P \<gamma> \<longrightarrow> denote \<gamma> r' = Some v) \<and> resolves A (const_assertion (gx A L) c) (gx A r) (gx A r')"
proof -
  have "supersets (getEnv r) (getEnv L)" using L good_parts [OF L(1)] fits_parts [OF r] by (simp add: supersets_complete)
  note step = fits_step [OF lin r L(1) this K]
  from ex obtain \<gamma> where "P \<gamma>" by blast
  with step [of \<gamma> v] den obtain r' where r': "IntExpression_setAssertion A (Assertion_of A L K) r = Inr r'" "good A r'"
    "resolves A (const_assertion (gx A L) c) (gx A r) (gx A r')" by blast
  moreover have "denote \<gamma> r' = Some v" if "P \<gamma>" for \<gamma>
    using step [of \<gamma> v] den [OF that] r'(1) by auto
  ultimately show ?thesis by blast
qed

lemmas setAssertion_value = fits_value [OF _ good_fits]

lemma resolves_mentions: "resolves A a e e' \<Longrightarrow> mentions e' \<subseteq> mentions e"
  unfolding resolves_def mentions_def by blast

section \<open>The current variable\<close>

lemma order_var:
  assumes "order_ok vo" "n < length (go_map vo)"
  shows "eloc (go_map vo ! n) = Some (locs vo ! n)" "ie_ok (go_map vo ! n)"
    "go_getVar vo (int n) = Inr (go_map vo ! n)"
  using assms by (auto simp: order_ok_def go_getVar_def)

lemma touched_only:
  assumes "mentions e \<subseteq> upto vo (Suc n)" "n < length (go_map vo)" "\<not> touches (locs vo ! n) e"
  shows "mentions e \<subseteq> upto vo n"
proof
  fix l assume "l \<in> mentions e"
  moreover have "locs vo ! n \<notin> mentions e"
    using assms(3) by (cases "locs vo ! n") (auto simp: mentions_def simp del: nth_map)
  ultimately show "l \<in> upto vo n" using assms(1) upto_Suc [OF assms(2)] by auto
qed

text \<open>Once the current variable has been substituted, what still looks for it is an access.\<close>

lemma still_touched:
  assumes "order_ok vo" "n < length (go_map vo)" "mentions e \<subseteq> upto vo (Suc n)" "locs vo ! n \<notin> leaves e" "touches (locs vo ! n) e"
  shows "accesses e \<noteq> {}"
proof (cases "locs vo ! n")
  case (Scalar g)
  with assms(4,5) show ?thesis by (auto simp del: nth_map)
next
  case (Cell g k)
  have "Cell g k \<in> set (locs vo)" using Cell assms(2) by (metis length_map nth_mem)
  then have "Scalar g \<notin> set (locs vo)" using assms(1) unfolding order_ok_def by blast
  then have "Scalar g \<notin> leaves e" using assms(3) leaves_mentions by (fastforce simp: upto_def dest: in_set_takeD)
  with Cell assms(4,5) show ?thesis by (auto simp del: nth_map)
qed

lemma getFirstSubExpr_sub:
  assumes lin: "linear_less (iless A)" and r: "good A r" and acc: "accesses (gx A r) \<noteq> {}"
  defines "s \<equiv> IntExpression_getFirstSubExpr A r"
  shows "good A s" "gx A s \<in> indexes (gx A r)" "set (getEnv s) \<subseteq> set (getEnv r)"
proof -
  obtain x env where x: "r = IExpr x env" using acc by (cases r) (auto simp: gx_def createConstant_def)
  note e = good_parts [OF r, unfolded x, simplified]
  have "indexes x \<noteq> {}" using acc indexes_accesses by (auto simp: gx_def x accesses_rename)
  then have i: "getFirstSubExpr_int x \<in> indexes x" using getFirstSubExpr_index [of A x] e by blast
  from indexes_size [OF this] have neq: "x \<noteq> getFirstSubExpr_int x" by auto
  have "canon A (getFirstSubExpr_int x)" "wf_int (int (length env)) (getFirstSubExpr_int x)"
    using index_facts [OF i, of A undefined] wf_index [OF i] e by auto
  note gc = gx_mk_gc [OF lin this]
  have s: "s = mk_int (gc_int A (getFirstSubExpr_int x) env)" using neq by (simp add: s_def x Let_def)
  show "good A s" "gx A s \<in> indexes (gx A r)" using gc i e by (auto simp: s x gx_def indexes_rename)
  have "vars_int (getFirstSubExpr_int x) \<subseteq> vars_int x" using index_facts [OF i, of A undefined] e by blast
  then have "nat y < length env" if "y \<in> vars_int (getFirstSubExpr_int x)" for y
    using wf_vars(1) [of "int (length env)" x] e that by (auto simp: nat_less_iff)
  then show "set (getEnv s) \<subseteq> set (getEnv r)" using gc(3) e by (auto simp: s x)
qed

text \<open>What the value of an arc does to an expression, on the paths \<open>q @ [vl]\<close> for \<open>q\<close> in \<open>P\<close>.\<close>

lemma edge_assert:
  assumes lin: "linear_less (iless A)" and vo: "order_ok vo" "n < length (go_map vo)" and rr: "good A rr"
    and P: "P \<noteq> {}" "\<And>p. p \<in> P \<Longrightarrow> length p = n" and vl: "taggable vl"
    and vals: "\<And>p. p \<in> P \<Longrightarrow> \<exists>v. value_on vo (Suc n) (p @ [vl]) rr v"
  obtains r where "(if touches (locs vo ! n) (gx A rr)
      then IntExpression_setAssertion A (edge_assertion A (go_map vo ! n) vl) rr else Inr rr) = Inr r"
    "good A r" "isize (gx A r) \<le> isize (gx A rr)" "mentions (gx A r) \<subseteq> mentions (gx A rr)"
    "\<And>p v. p \<in> P \<Longrightarrow> value_on vo (Suc n) (p @ [vl]) rr v \<Longrightarrow> value_on vo (Suc n) (p @ [vl]) r v"
    "locs vo ! n \<notin> leaves (gx A r)" "is_const (gx A rr) \<Longrightarrow> r = rr"
proof (cases "touches (locs vo ! n) (gx A rr)")
  case False
  have "locs vo ! n \<notin> leaves (gx A rr)" using False by (cases "locs vo ! n") auto
  with False rr that show ?thesis by auto
next
  case True
  have not_const: "\<not> is_const (gx A rr)" using True by (cases "locs vo ! n") (auto simp: is_const_iff)
  define curv where "curv = go_map vo ! n"
  define l where "l = locs vo ! n"
  note var = order_var [OF vo, folded curv_def l_def] and True = True [folded l_def]
  note K = createIConstant_good [OF vl, of A]
  have step: "\<exists>r'. IntExpression_setAssertion A (edge_assertion A curv vl) rr = Inr r' \<and> good A r'
      \<and> value_on vo (Suc n) (p @ [vl]) r' v \<and> resolves A (const_assertion (gx A curv) vl) (gx A rr) (gx A r')"
    if p: "p \<in> P" and v: "value_on vo (Suc n) (p @ [vl]) rr v" for p v
    unfolding value_on_def
  proof (rule setAssertion_value [OF lin rr(1) eloc_gx(1) [OF var(1,2)] isSupport_touches(2) [OF var(1,2) rr(1) True]])
    show "\<exists>\<gamma>. agrees vo (Suc n) (p @ [vl]) \<gamma>" using agrees_ex [OF vo(1), of "Suc n"] vo(2) P(2) [OF p] by simp
    show "denote \<gamma> curv = Some vl \<and> denote \<gamma> rr = Some v" if "agrees vo (Suc n) (p @ [vl]) \<gamma>" for \<gamma>
    proof -
      have "look \<gamma> l = vl" using that P(2) [OF p] by (simp add: agrees_Suc l_def)
      then show ?thesis using that v eloc_gx(3) [OF var(1,2), of \<gamma>] vl by (simp add: value_on_def chk_def)
    qed
  qed (use K in auto)
  from P(1) vals obtain p v where "p \<in> P" "value_on vo (Suc n) (p @ [vl]) rr v" by blast
  from step [OF this] obtain r where r: "IntExpression_setAssertion A (edge_assertion A curv vl) rr = Inr r" "good A r"
    "resolves A (const_assertion (gx A curv) vl) (gx A rr) (gx A r)" by blast
  show ?thesis
  proof (rule that [of r])
    show "value_on vo (Suc n) (p @ [vl]) r v" if "p \<in> P" "value_on vo (Suc n) (p @ [vl]) rr v" for p v
      using step [OF that] r(1) by auto
    show "locs vo ! n \<notin> leaves (gx A r)" using r(3) eloc_gx(2) [OF var(1,2), of A] by (auto simp: resolves_def l_def)
  qed (use True r resolves_mentions [OF r(3)] not_const in \<open>auto simp: resolves_def l_def curv_def\<close>)
qed

text \<open>Two valuations that agree on a path give the same value.\<close>

lemma agrees_isem:
  assumes "canon A e" "mentions e \<subseteq> upto vo n" "agrees vo n p \<gamma>" "agrees vo n p \<delta>"
  shows "isem \<gamma> e = isem \<delta> e"
proof (rule isem_mentions [OF assms(1)])
  fix m assume "m \<in> mentions e"
  then have "m \<in> upto vo n" using assms(2) by blast
  then obtain k where "k < n" "m = locs vo ! k" by (auto simp: upto_def in_set_conv_nth simp del: nth_map)
  with assms(3,4) show "look \<gamma> m = look \<delta> m" by (simp add: agrees_def)
qed

lemma fits_index_value:
  assumes lin: "linear_less (iless A)" and vo: "order_ok vo" "n \<le> length (go_map vo)" "length p = n"
    and r: "fits A r" "mentions (gx A r) \<subseteq> upto vo n" "value_on vo n p r v"
    and s: "good A s" "gx A s \<in> indexes (gx A r)"
  shows "\<exists>w. value_on vo n p s w"
proof -
  note canon = fits_canon [OF lin r(1)]
  obtain \<gamma> where \<gamma>: "agrees vo n p \<gamma>" using agrees_ex [OF vo] by blast
  with r have "isem \<gamma> (gx A r) \<noteq> None" by (auto simp: value_on_def fits_denote [OF r(1)])
  then obtain w where w: "isem \<gamma> (gx A s) = Some w" using index_facts [OF s(2) canon, of \<gamma>] by blast
  have "mentions (gx A s) \<subseteq> upto vo n" using index_mentions [OF s(2) canon] r(2) by blast
  then have "denote \<delta> s = Some w" if "agrees vo n p \<delta>" for \<delta>
    using agrees_isem [OF canon_gx [OF lin s(1)] _ \<gamma> that] w by (simp add: denote_gx [OF s(1)])
  then show ?thesis unfolding value_on_def by blast
qed

lemmas index_value = fits_index_value [OF _ _ _ _ good_fits]

text \<open>The two maps grow by solved and smaller pending entries for the paths \<open>P\<close>.\<close>

definition advances ::
  "('d, 'h) dd_lib \<Rightarrow> heap_order \<Rightarrow> GalOrder \<Rightarrow> nat \<Rightarrow> IntExpression \<Rightarrow> nat \<Rightarrow> int list set \<Rightarrow>
   'd info \<times> 'd tmp_info \<Rightarrow> 'd info \<times> 'd tmp_info \<Rightarrow> bool" where
  "advances lib A vo n e b P s s' \<longleftrightarrow> levels lib n (fst s') \<and> levels lib n (snd s')
     \<and> (\<exists>R T. paths_of lib n (fst s') = paths_of lib n (fst s) \<union> R \<and> paths_of lib n (snd s') = paths_of lib n (snd s) \<union> T
         \<and> solved A vo n e R \<and> pending A vo n e b T \<and> snd ` R \<union> snd ` T = P)"

lemma advancesI:
  assumes "levels lib n res'" "levels lib n remain'" "paths_of lib n res' = paths_of lib n res \<union> R"
    "paths_of lib n remain' = paths_of lib n remain \<union> T" "solved A vo n e R" "pending A vo n e b T" "snd ` R \<union> snd ` T = P"
  shows "advances lib A vo n e b P (res, remain) (res', remain')"
  unfolding advances_def using assms by auto

lemma advances_refl: "levels lib n (fst s) \<Longrightarrow> levels lib n (snd s) \<Longrightarrow> advances lib A vo n e b {} s s"
  unfolding advances_def by (auto simp: solved_def pending_def intro!: exI [of _ "{}"])

lemma advances_trans:
  assumes "advances lib A vo n e b P s t" "advances lib A vo n e b Q t u"
  shows "advances lib A vo n e b (P \<union> Q) s u"
proof -
  from assms obtain R T R' T' where st: "paths_of lib n (fst t) = paths_of lib n (fst s) \<union> R"
    "paths_of lib n (snd t) = paths_of lib n (snd s) \<union> T" "solved A vo n e R" "pending A vo n e b T" and P: "snd ` R \<union> snd ` T = P"
    and tu: "paths_of lib n (fst u) = paths_of lib n (fst t) \<union> R'" "paths_of lib n (snd u) = paths_of lib n (snd t) \<union> T'"
    "solved A vo n e R'" "pending A vo n e b T'" "levels lib n (fst u)" "levels lib n (snd u)" and Q: "snd ` R' \<union> snd ` T' = Q"
    using assms unfolding advances_def by (elim exE conjE)
  have "snd ` (R \<union> R') \<union> snd ` (T \<union> T') = P \<union> Q" unfolding image_Un P [symmetric] Q [symmetric] by blast
  with st tu show ?thesis
    unfolding advances_def by (intro conjI exI [of _ "R \<union> R'"] exI [of _ "T \<union> T'"]) (simp_all add: Un_assoc)
qed

lemma advances_mono:
  assumes "advances lib A vo n e b P s t" "b \<le> c"
  shows "advances lib A vo n e c P s t"
proof -
  from assms(1) obtain R T where RT: "paths_of lib n (fst t) = paths_of lib n (fst s) \<union> R"
    "paths_of lib n (snd t) = paths_of lib n (snd s) \<union> T" "solved A vo n e R" "pending A vo n e b T" "snd ` R \<union> snd ` T = P"
    and lev: "levels lib n (fst t)" "levels lib n (snd t)"
    unfolding advances_def by (elim conjE exE)
  note RT(1,2,3) pending_mono [OF RT(4) assms(2)] RT(5)
  with lev show ?thesis unfolding advances_def by (intro conjI exI [of _ R] exI [of _ T])
qed

definition query_fuel :: "nat \<Rightarrow> nat \<Rightarrow> nat \<Rightarrow> nat" where
  "query_fuel b n s = n * (b + 2) + s + 1"

context dd_nodes begin

section \<open>One edge\<close>

lemma edge_step:
  assumes lin: "linear_less (iless A)" and vo: "order_ok vo" "n < length (go_map vo)"
    and rr: "good A rr" "mentions (gx A rr) \<subseteq> upto vo (Suc n)"
    and child: "dd_level lib n child" "taggable vl"
    and vals: "\<And>p. p \<in> dd_paths lib n child \<Longrightarrow> \<exists>v. value_on vo (Suc n) (p @ [vl]) rr v \<and> value_on vo (Suc n) (p @ [vl]) e v"
    and down: "\<And>r. askable lib A vo n r child \<Longrightarrow> \<not> is_const (gx A r) \<Longrightarrow> isize (gx A r) \<le> isize (gx A rr) \<Longrightarrow>
      \<exists>m. qry r child = Inr m \<and> answers lib A vo n r child m"
    and here: "\<And>s. askable lib A vo (Suc n) s (dd_node lib (int n) vl child) \<Longrightarrow> isize (gx A s) < isize (gx A rr) \<Longrightarrow>
      \<exists>m. qry s (dd_node lib (int n) vl child) = Inr m \<and> answers lib A vo (Suc n) s (dd_node lib (int n) vl child) m"
    and state: "levels lib (Suc n) res" "levels lib (Suc n) remain"
  shows "\<exists>s. query_edge lib A qry (int n) (go_map vo ! n) e rr (vl, child) (res, remain) = Inr s
    \<and> advances lib A vo (Suc n) e (isize (gx A rr)) ((\<lambda>p. p @ [vl]) ` dd_paths lib n child) (res, remain) s"
proof -
  define curv where "curv = go_map vo ! n"
  define l where "l = locs vo ! n"
  note var = order_var [OF vo, folded curv_def l_def]
  note node = node_level [OF child] node_paths [OF child(1), of vl]
  have len: "length p = n" if "p \<in> dd_paths lib n child" for p using dd_paths_length [OF that] .
  have "\<exists>v. value_on vo (Suc n) (p @ [vl]) rr v" if "p \<in> dd_paths lib n child" for p using vals [OF that] by blast
  from edge_assert [OF lin vo rr(1) dd_paths_nonempty [OF child(1)] len child(2) this, folded curv_def l_def]
  obtain r where r: "(if touches l (gx A rr) then IntExpression_setAssertion A (edge_assertion A curv vl) rr else Inr rr) = Inr r"
    "good A r" "isize (gx A r) \<le> isize (gx A rr)" "mentions (gx A r) \<subseteq> mentions (gx A rr)"
    "\<And>p v. p \<in> dd_paths lib n child \<Longrightarrow> value_on vo (Suc n) (p @ [vl]) rr v \<Longrightarrow> value_on vo (Suc n) (p @ [vl]) r v"
    "l \<notin> leaves (gx A r)" by metis
  have rv: "\<exists>v. value_on vo (Suc n) (p @ [vl]) r v \<and> value_on vo (Suc n) (p @ [vl]) e v" if "p \<in> dd_paths lib n child" for p
    using vals [OF that] r(5) [OF that] by blast
  have rm: "mentions (gx A r) \<subseteq> upto vo (Suc n)" using r(4) rr(2) by blast
  note supp = isSupport_touches(1) [OF var(1,2)]
  have edge: "query_edge lib A qry (int n) curv e rr (vl, child) (res, remain) =
     (if IntExpression_getType r = INTCONST then Inr (info_add lib r (dd_node lib (int n) vl child) res, remain)
      else if touches l (gx A r) then
        rbind (qry (IntExpression_getFirstSubExpr A r) (dd_node lib (int n) vl child)) (\<lambda>rhssolved.
        rbind (rfold (\<lambda>(k, d) m. rbind (IntExpression_setAssertion A (Assertion_of A (IntExpression_getFirstSubExpr A r) k) r)
          (\<lambda>r'. Inr (tmp_add lib (e, r') d m))) rhssolved remain) (\<lambda>remain'. Inr (res, remain')))
      else rbind (qry r child) (\<lambda>rhssolved.
             Inr (fold (\<lambda>(k, d). info_add lib k (dd_node lib (int n) vl d)) rhssolved res, remain)))"
    using r(1) by (simp add: query_edge_def supp [OF rr(1)] supp [OF r(2)] Let_def)
  consider "is_const (gx A r)" | "\<not> is_const (gx A r)" "touches l (gx A r)" | "\<not> is_const (gx A r)" "\<not> touches l (gx A r)" by blast
  then show ?thesis
  proof cases
    case 1
    from const_of_gx [OF lin r(2) 1] obtain c where c: "const_val r = Some c" by blast
    note add = info_add [OF state(1) node(1), of r]
    have "value_on vo (Suc n) (p @ [vl]) e c" if p: "p \<in> dd_paths lib n child" for p
    proof -
      from rv [OF p] obtain v where v: "value_on vo (Suc n) (p @ [vl]) r v" "value_on vo (Suc n) (p @ [vl]) e v" by blast
      have "v = c"
        by (rule value_on_unique [OF vo(1) _ _ v(1) value_on_const [OF r(2) c]]) (use vo(2) len [OF p] in simp_all)
      with v(2) show ?thesis by simp
    qed
    then have "solved A vo (Suc n) e (Pair r ` dd_paths lib (Suc n) (dd_node lib (int n) vl child))"
      unfolding solved_def node(2) using r(2) c by blast
    moreover have "query_edge lib A qry (int n) curv e rr (vl, child) (res, remain)
        = Inr (info_add lib r (dd_node lib (int n) vl child) res, remain)"
      using 1 by (simp add: edge getType_gx [OF r(2)])
    moreover have "snd ` Pair r ` dd_paths lib (Suc n) (dd_node lib (int n) vl child) = (\<lambda>p. p @ [vl]) ` dd_paths lib n child"
      unfolding image_image snd_conv node(2) by simp
    ultimately show ?thesis using add state(2) unfolding curv_def
      by (intro exI [of _ "(info_add lib r (dd_node lib (int n) vl child) res, remain)"] conjI
          advancesI [where R = "Pair r ` dd_paths lib (Suc n) (dd_node lib (int n) vl child)" and T = "{}"])
         (simp_all add: pending_def)
  next
    case 2
    define s where "s = IntExpression_getFirstSubExpr A r"
    have "accesses (gx A r) \<noteq> {}" by (rule still_touched [OF vo rm]) (use r(6) 2(2) in \<open>simp_all add: l_def\<close>)
    note s = getFirstSubExpr_sub [OF lin r(2) this, folded s_def]
    note canon = canon_gx [OF lin r(2)]
    have small: "isize (gx A s) < isize (gx A r)" by (rule indexes_size [OF s(2)])
    have sv: "\<exists>w. value_on vo (Suc n) (p @ [vl]) s w" if p: "p \<in> dd_paths lib n child" for p
    proof -
      obtain v where "value_on vo (Suc n) (p @ [vl]) r v" using rv [OF p] by blast
      then show ?thesis using index_value [OF lin vo(1) _ _ r(2) rm _ s(1,2)] vo(2) len [OF p] by simp
    qed
    have "askable lib A vo (Suc n) s (dd_node lib (int n) vl child)"
      unfolding askable_def using s(1) index_mentions [OF s(2) canon] rm node vo(2) sv by auto
    from here [OF this] small r(3) obtain m where m: "qry s (dd_node lib (int n) vl child) = Inr m"
      "answers lib A vo (Suc n) s (dd_node lib (int n) vl child) m" by auto
    have step: "\<exists>r'. IntExpression_setAssertion A (Assertion_of A s k) r = Inr r' \<and> good A r'
        \<and> value_on vo (Suc n) p r' v \<and> resolves A (const_assertion (gx A s) w) (gx A r) (gx A r')"
      if "good A k" "const_val k = Some w" "value_on vo (Suc n) p s w" "value_on vo (Suc n) p r v" "length p = Suc n" for k w p v
      unfolding value_on_def
    proof (rule setAssertion_value [OF lin r(2) s(1,3) that(1,2)])
      show "\<exists>\<gamma>. agrees vo (Suc n) p \<gamma>" using agrees_ex [OF vo(1)] vo(2) that(5) by simp
      show "denote \<gamma> s = Some w \<and> denote \<gamma> r = Some v" if "agrees vo (Suc n) p \<gamma>" for \<gamma>
        using that \<open>value_on vo (Suc n) p s w\<close> \<open>value_on vo (Suc n) p r v\<close> by (simp add: value_on_def)
    qed
    have entry: "\<exists>r' v. IntExpression_setAssertion A (Assertion_of A s k) r = Inr r' \<and> good A r' \<and> value_on vo (Suc n) p r' v
        \<and> value_on vo (Suc n) p e v \<and> mentions (gx A r') \<subseteq> upto vo (Suc n) \<and> isize (gx A r') < isize (gx A rr)"
      if kp: "(k, p) \<in> paths_of lib (Suc n) m" for k p
    proof -
      obtain w where k: "good A k" "const_val k = Some w" "value_on vo (Suc n) p s w"
        using m(2) kp by (fastforce simp: answers_def solved_def)
      have "p \<in> dd_paths lib (Suc n) (dd_node lib (int n) vl child)"
        using m(2) kp unfolding answers_def by (metis imageI snd_conv)
      then obtain q where q: "p = q @ [vl]" "q \<in> dd_paths lib n child" by (auto simp: node(2) simp del: dd_paths.simps)
      then obtain v where v: "value_on vo (Suc n) p r v" "value_on vo (Suc n) p e v" using rv by blast
      from step [OF k v(1)] q len obtain r' where r': "IntExpression_setAssertion A (Assertion_of A s k) r = Inr r'" "good A r'"
        "value_on vo (Suc n) p r' v" "resolves A (const_assertion (gx A s) w) (gx A r) (gx A r')" by auto
      moreover have "isize (gx A r') < isize (gx A r)" using r'(4) s(2) by (simp add: resolves_def)
      ultimately show ?thesis using v(2) resolves_mentions [OF r'(4)] rm r(3) by fastforce
    qed
    have lev: "levels lib (Suc n) m" using m(2) by (simp add: answers_def)
    have fine: "IntExpression_setAssertion A (Assertion_of A s (fst x)) r
        = Inr (projr (IntExpression_setAssertion A (Assertion_of A s (fst x)) r))" if "x \<in> set m" for x
    proof -
      obtain k d where x: "x = (k, d)" by (cases x)
      have "dd_level lib (Suc n) d" using lev that x by (auto simp: levels_def)
      from dd_paths_nonempty [OF this] obtain p where "p \<in> dd_paths lib (Suc n) d" by blast
      from entry [OF in_paths_of] that x this show ?thesis by fastforce
    qed
    obtain t where t: "rfold (\<lambda>(k, d) m. rbind (IntExpression_setAssertion A (Assertion_of A s k) r)
        (\<lambda>r'. Inr (tmp_add lib (e, r') d m))) m remain = Inr t" "levels lib (Suc n) t"
      "paths_of lib (Suc n) t = paths_of lib (Suc n) remain
        \<union> (\<lambda>(k, p). ((e, projr (IntExpression_setAssertion A (Assertion_of A s k) r)), p)) ` paths_of lib (Suc n) m"
      using fold_tmp [where f = "\<lambda>k. IntExpression_setAssertion A (Assertion_of A s k) r"
          and g = "\<lambda>k. projr (IntExpression_setAssertion A (Assertion_of A s k) r)", OF lev fine state(2), of e] by blast
    define T where "T = (\<lambda>(k, p). ((e, projr (IntExpression_setAssertion A (Assertion_of A s k) r)), p)) ` paths_of lib (Suc n) m"
    have "pending A vo (Suc n) e (isize (gx A rr)) T"
      unfolding pending_def T_def using entry by fastforce
    moreover have "snd ` T = (\<lambda>p. p @ [vl]) ` dd_paths lib n child"
    proof -
      have "snd ` T = snd ` paths_of lib (Suc n) m" by (simp add: T_def image_image case_prod_unfold)
      with m(2) show ?thesis by (simp only: answers_def node(2))
    qed
    moreover have "query_edge lib A qry (int n) curv e rr (vl, child) (res, remain) = Inr (res, t)"
      using 2 by (simp add: edge getType_gx [OF r(2)] m(1) t(1) flip: s_def)
    ultimately show ?thesis using state(1) t(2,3) unfolding curv_def T_def [symmetric]
      by (intro exI [of _ "(res, t)"] conjI advancesI [where R = "{}" and T = T]) (simp_all add: solved_def)
  next
    case 3
    have rm: "mentions (gx A r) \<subseteq> upto vo n" using touched_only [OF rm vo(2)] 3(2) by (simp add: l_def)
    have rn: "value_on vo n p r v" if "p \<in> dd_paths lib n child" "value_on vo (Suc n) (p @ [vl]) r v" for p v
      using value_on_butlast [OF lin vo len r(2) rm] that by blast
    have "askable lib A vo n r child"
      unfolding askable_def using r(2) rm vo(2) child(1) rv rn by (meson less_imp_le)
    from down [OF this 3(1) r(3)] obtain m where m: "qry r child = Inr m" "answers lib A vo n r child m" by blast
    have lev: "levels lib n m" using m(2) by (simp add: answers_def)
    define R where "R = (\<lambda>(k, p). (k, p @ [vl])) ` paths_of lib n m"
    note res' = fold_info [OF lev child(2) state(1), folded R_def]
    have "solved A vo (Suc n) e R"
      unfolding solved_def
    proof (clarsimp simp: R_def)
      fix k p
      assume kp: "(k, p) \<in> paths_of lib n m"
      then have p: "p \<in> dd_paths lib n child" using m(2) unfolding answers_def by (metis imageI snd_conv)
      obtain w where k: "good A k" "const_val k = Some w" "value_on vo n p r w"
        using m(2) kp by (fastforce simp: answers_def solved_def)
      obtain v where v: "value_on vo (Suc n) (p @ [vl]) r v" "value_on vo (Suc n) (p @ [vl]) e v" using rv [OF p] by blast
      have "v = w" using value_on_unique [OF vo(1), of n p r v w] vo(2) len [OF p] rn [OF p v(1)] k(3) by simp
      with k v show "good A k \<and> (\<exists>v. const_val k = Some v \<and> value_on vo (Suc n) (p @ [vl]) e v)" by blast
    qed
    moreover have "snd ` R = (\<lambda>p. p @ [vl]) ` dd_paths lib n child"
    proof -
      have "snd ` R = (\<lambda>p. p @ [vl]) ` snd ` paths_of lib n m" by (simp add: R_def image_image case_prod_unfold)
      with m(2) show ?thesis by (simp only: answers_def)
    qed
    moreover have "query_edge lib A qry (int n) curv e rr (vl, child) (res, remain)
        = Inr (fold (\<lambda>(k, d). info_add lib k (dd_node lib (int n) vl d)) m res, remain)"
      using 3 by (simp add: edge getType_gx [OF r(2)] m(1))
    ultimately show ?thesis using state(2) res' unfolding curv_def
      by (intro exI [of _ "(fold (\<lambda>(k, d). info_add lib k (dd_node lib (int n) vl d)) m res, remain)"] conjI
          advancesI [where R = R and T = "{}"]) (simp_all add: pending_def)
  qed
qed

section \<open>The worklist\<close>

lemma element_step:
  assumes lin: "linear_less (iless A)" and vo: "order_ok vo" "n < length (go_map vo)"
    and r: "good A r" "mentions (gx A r) \<subseteq> upto vo (Suc n)" and d: "dd_level lib (Suc n) d"
    and vals: "\<And>p. p \<in> dd_paths lib (Suc n) d \<Longrightarrow> \<exists>v. value_on vo (Suc n) p r v \<and> value_on vo (Suc n) p e v"
    and down: "\<And>r' c. askable lib A vo n r' c \<Longrightarrow> \<not> is_const (gx A r') \<Longrightarrow> isize (gx A r') \<le> isize (gx A r) \<Longrightarrow>
      \<exists>m. qry r' c = Inr m \<and> answers lib A vo n r' c m"
    and here: "\<And>s c. askable lib A vo (Suc n) s c \<Longrightarrow> isize (gx A s) < isize (gx A r) \<Longrightarrow>
      \<exists>m. qry s c = Inr m \<and> answers lib A vo (Suc n) s c m"
    and state: "levels lib (Suc n) (fst s)" "levels lib (Suc n) (snd s)"
  shows "\<exists>t. query_element lib A qry (int n) (go_map vo ! n) e ((e0, r), d) s = Inr t
    \<and> advances lib A vo (Suc n) e (isize (gx A r)) (dd_paths lib (Suc n) d) s t"
proof -
  let ?P = "\<lambda>es. \<Union>x\<in>set es. (\<lambda>p. p @ [fst x]) ` dd_paths lib n (snd x)"
  have all: "?P (dd_arcs lib d) = dd_paths lib (Suc n) d" using d by simp
  have "\<exists>t. rfold (query_edge lib A qry (int n) (go_map vo ! n) e r) (dd_arcs lib d) s = Inr t
      \<and> advances lib A vo (Suc n) e (isize (gx A r)) (?P (dd_arcs lib d)) s t"
  proof (rule rfold_inv [where P = "\<lambda>es t. advances lib A vo (Suc n) e (isize (gx A r)) (?P es) s t"])
    fix ys x t
    assume "\<exists>zs. dd_arcs lib d = ys @ x # zs" and adv: "advances lib A vo (Suc n) e (isize (gx A r)) (?P ys) s t"
    then have x: "x \<in> set (dd_arcs lib d)" by auto
    then have c: "dd_level lib n (snd x)" "taggable (fst x)" using d by auto
    have "\<exists>u. query_edge lib A qry (int n) (go_map vo ! n) e r (fst x, snd x) (fst t, snd t) = Inr u
        \<and> advances lib A vo (Suc n) e (isize (gx A r)) ((\<lambda>p. p @ [fst x]) ` dd_paths lib n (snd x)) (fst t, snd t) u"
    proof (rule edge_step [OF lin vo r c _ down here])
      show "\<exists>v. value_on vo (Suc n) (p @ [fst x]) r v \<and> value_on vo (Suc n) (p @ [fst x]) e v"
        if "p \<in> dd_paths lib n (snd x)" for p
        by (rule vals) (use that x all in blast)
      show "levels lib (Suc n) (fst t)" "levels lib (Suc n) (snd t)" using adv by (auto simp: advances_def)
    qed
    then obtain u where "query_edge lib A qry (int n) (go_map vo ! n) e r x t = Inr u"
      "advances lib A vo (Suc n) e (isize (gx A r)) ((\<lambda>p. p @ [fst x]) ` dd_paths lib n (snd x)) t u" by auto
    with advances_trans [OF adv this(2)]
    show "\<exists>u. query_edge lib A qry (int n) (go_map vo ! n) e r x t = Inr u
        \<and> advances lib A vo (Suc n) e (isize (gx A r)) (?P (ys @ [x])) s u" by (simp add: Un_commute)
  qed (use advances_refl [OF state] in simp)
  then show ?thesis by (simp only: query_element_def fst_conv snd_conv all)
qed

lemma query_loop_sound:
  assumes lin: "linear_less (iless A)" and vo: "order_ok vo" "n < length (go_map vo)"
    and down: "\<And>r' c. askable lib A vo n r' c \<Longrightarrow> \<not> is_const (gx A r') \<Longrightarrow> isize (gx A r') < b \<Longrightarrow>
      \<exists>m. qry r' c = Inr m \<and> answers lib A vo n r' c m"
    and here: "\<And>s c. askable lib A vo (Suc n) s c \<Longrightarrow> Suc (isize (gx A s)) < b \<Longrightarrow>
      \<exists>m. qry s c = Inr m \<and> answers lib A vo (Suc n) s c m"
  shows "k \<le> b \<Longrightarrow> k \<le> fuel \<Longrightarrow> levels lib (Suc n) res \<Longrightarrow> levels lib (Suc n) remain \<Longrightarrow>
      pending A vo (Suc n) e k (paths_of lib (Suc n) remain) \<Longrightarrow>
     \<exists>res' R. query_loop lib A qry (int n) (go_map vo ! n) e fuel remain res = Inr res' \<and> levels lib (Suc n) res'
       \<and> paths_of lib (Suc n) res' = paths_of lib (Suc n) res \<union> R \<and> solved A vo (Suc n) e R
       \<and> snd ` R = snd ` paths_of lib (Suc n) remain"
proof (induction fuel arbitrary: k remain res)
  case (0 k remain res)
  have "remain = []"
  proof (cases remain)
    case (Cons x t)
    obtain e0 r d where x: "x = ((e0, r), d)" by (metis prod.collapse)
    then have "dd_level lib (Suc n) d" using 0 Cons by (simp del: dd_level.simps)
    from dd_paths_nonempty [OF this] obtain p where "p \<in> dd_paths lib (Suc n) d" by blast
    with 0 x Cons show ?thesis by (auto simp: pending_def simp del: dd_paths.simps)
  qed
  with 0 show ?case by (intro exI [of _ res] exI [of _ "{}"]) (simp add: solved_def)
next
  case (Suc fuel k remain res)
  show ?case
  proof (cases "remain = []")
    case True
    with Suc.prems show ?thesis by (intro exI [of _ res] exI [of _ "{}"]) (simp add: solved_def)
  next
    case False
    let ?P = "\<lambda>es. \<Union>x\<in>set es. dd_paths lib (Suc n) (snd x)"
    have all: "?P remain = snd ` paths_of lib (Suc n) remain" by (force simp: paths_of_def simp del: dd_paths.simps)
    have "\<exists>t. rfold (query_element lib A qry (int n) (go_map vo ! n) e) remain (res, []) = Inr t
        \<and> advances lib A vo (Suc n) e (k - 1) (?P remain) (res, []) t"
    proof (rule rfold_inv [where P = "\<lambda>es t. advances lib A vo (Suc n) e (k - 1) (?P es) (res, []) t"])
      fix ys x t
      assume "\<exists>zs. remain = ys @ x # zs" and adv: "advances lib A vo (Suc n) e (k - 1) (?P ys) (res, []) t"
      then have x: "x \<in> set remain" by auto
      obtain e0 r d where xx: "x = ((e0, r), d)" by (metis prod.collapse)
      have d: "dd_level lib (Suc n) d" using Suc.prems(4) x xx by (force simp: levels_def simp del: dd_level.simps)
      have fine: "good A r \<and> mentions (gx A r) \<subseteq> upto vo (Suc n) \<and> isize (gx A r) < k
          \<and> (\<exists>v. value_on vo (Suc n) p r v \<and> value_on vo (Suc n) p e v)" if "p \<in> dd_paths lib (Suc n) d" for p
        using Suc.prems(5) in_paths_of [OF x [unfolded xx] that] unfolding pending_def by fastforce
      from dd_paths_nonempty [OF d] fine have r: "good A r" "mentions (gx A r) \<subseteq> upto vo (Suc n)" "isize (gx A r) < k" by auto
      have "\<exists>u. query_element lib A qry (int n) (go_map vo ! n) e ((e0, r), d) t = Inr u
          \<and> advances lib A vo (Suc n) e (isize (gx A r)) (dd_paths lib (Suc n) d) t u"
      proof (rule element_step [OF lin vo r(1,2) d _ down here])
        show "\<exists>v. value_on vo (Suc n) p r v \<and> value_on vo (Suc n) p e v" if "p \<in> dd_paths lib (Suc n) d" for p
          using fine [OF that] by blast
        show "levels lib (Suc n) (fst t)" "levels lib (Suc n) (snd t)" using adv by (auto simp: advances_def)
      qed (use r(3) Suc.prems(1) in linarith)+
      then obtain u where "query_element lib A qry (int n) (go_map vo ! n) e x t = Inr u"
        "advances lib A vo (Suc n) e (isize (gx A r)) (dd_paths lib (Suc n) d) t u" by (auto simp: xx)
      with advances_trans [OF adv advances_mono [OF this(2)], of ] r(3)
      show "\<exists>u. query_element lib A qry (int n) (go_map vo ! n) e x t = Inr u
          \<and> advances lib A vo (Suc n) e (k - 1) (?P (ys @ [x])) (res, []) u"
        by (auto simp: xx Un_commute simp del: dd_paths.simps)
    qed (use advances_refl [of lib "Suc n" "(res, [])"] Suc.prems(3) in simp)
    then obtain res1 remain1 where t: "rfold (query_element lib A qry (int n) (go_map vo ! n) e) remain (res, []) = Inr (res1, remain1)"
      and adv: "advances lib A vo (Suc n) e (k - 1) (?P remain) (res, []) (res1, remain1)" by auto
    from adv obtain R T where lev: "levels lib (Suc n) res1" "levels lib (Suc n) remain1"
      and R: "paths_of lib (Suc n) res1 = paths_of lib (Suc n) res \<union> R" "solved A vo (Suc n) e R"
      and T: "paths_of lib (Suc n) remain1 = T" "pending A vo (Suc n) e (k - 1) T" and P: "snd ` R \<union> snd ` T = ?P remain"
      by (auto simp: advances_def)
    have "k - 1 \<le> b" "k - 1 \<le> fuel" using Suc.prems(1,2) by auto
    from Suc.IH [OF this lev] T obtain res' R' where
      "query_loop lib A qry (int n) (go_map vo ! n) e fuel remain1 res1 = Inr res'" "levels lib (Suc n) res'"
      "paths_of lib (Suc n) res' = paths_of lib (Suc n) res1 \<union> R'" "solved A vo (Suc n) e R'" "snd ` R' = snd ` T" by blast
    with False t R P all show ?thesis
      by (intro exI [of _ res'] exI [of _ "R \<union> R'"]) (simp add: Un_assoc image_Un)
  qed
qed

section \<open>The recursion\<close>

lemma query_sound:
  assumes lin: "linear_less (iless A)" and vo: "order_ok vo"
  shows "askable lib A vo n e d \<Longrightarrow> 0 < n \<or> \<not> is_const (gx A e) \<Longrightarrow> isize (gx A e) \<le> b \<Longrightarrow>
     query_fuel b n (isize (gx A e)) \<le> fuel \<Longrightarrow> \<exists>m. query lib A vo fuel e d = Inr m \<and> answers lib A vo n e d m"
proof (induction fuel arbitrary: n e d)
  case 0
  then show ?case by (simp add: query_fuel_def)
next
  case (Suc fuel n0 e d)
  from Suc.prems(1) have e: "good A e" "mentions (gx A e) \<subseteq> upto vo n0" "n0 \<le> length (go_map vo)" "dd_level lib n0 d"
    by (simp_all add: askable_def)
  have "n0 \<noteq> 0"
  proof
    assume "n0 = 0"
    with e(2) leaves_mentions have "leaves (gx A e) = {}" by (fastforce simp: upto_def)
    with leaves_nonempty [OF canon_gx [OF lin e(1)]] Suc.prems(2) \<open>n0 = 0\<close> show False by blast
  qed
  then obtain n where n: "n0 = Suc n" by (cases n0) auto
  define k where "k = Suc (isize (gx A e))"
  have fuel: "n * (b + 2) + b + 2 + isize (gx A e) \<le> fuel" using Suc.prems(4) by (simp add: query_fuel_def n)
  note init = tmp_add [of "Suc n" "[]" d "(e, e)"]
  have "dd_variable lib d = int n" "n < length (go_map vo)" using e n by auto
  note var = order_var [OF vo this(2)] this
  have "\<exists>res' R. query_loop lib A (query lib A vo fuel) (int n) (go_map vo ! n) e fuel (tmp_add lib (e, e) d []) [] = Inr res'
      \<and> levels lib (Suc n) res' \<and> paths_of lib (Suc n) res' = paths_of lib (Suc n) [] \<union> R \<and> solved A vo (Suc n) e R
      \<and> snd ` R = snd ` paths_of lib (Suc n) (tmp_add lib (e, e) d [])"
  proof (rule query_loop_sound [OF lin vo var(5)])
    show "\<exists>m. query lib A vo fuel r c = Inr m \<and> answers lib A vo n r c m"
      if "askable lib A vo n r c" "\<not> is_const (gx A r)" "isize (gx A r) < k" for r c
      using Suc.IH [OF that(1)] that(2,3) Suc.prems(3) fuel by (simp add: query_fuel_def k_def)
    show "\<exists>m. query lib A vo fuel s c = Inr m \<and> answers lib A vo (Suc n) s c m"
      if "askable lib A vo (Suc n) s c" "Suc (isize (gx A s)) < k" for s c
      using Suc.IH [OF that(1)] that(2) Suc.prems(3) fuel by (simp add: query_fuel_def k_def)
    show "pending A vo (Suc n) e k (paths_of lib (Suc n) (tmp_add lib (e, e) d []))"
      using init e Suc.prems(1) by (auto simp: n pending_def k_def askable_def simp del: dd_level.simps dd_paths.simps)
    show "levels lib (Suc n) (tmp_add lib (e, e) d [])" using init e n by simp
  qed (use fuel Suc.prems(3) in \<open>simp_all add: k_def\<close>)
  then obtain m where m: "query_loop lib A (query lib A vo fuel) (int n) (go_map vo ! n) e fuel (tmp_add lib (e, e) d []) [] = Inr m"
    "levels lib (Suc n) m" "solved A vo (Suc n) e (paths_of lib (Suc n) m)"
    "snd ` paths_of lib (Suc n) m = snd ` paths_of lib (Suc n) (tmp_add lib (e, e) d [])" by auto
  have "snd ` paths_of lib (Suc n) (tmp_add lib (e, e) d []) = dd_paths lib (Suc n) d"
    using init e n by (simp add: image_image del: dd_paths.simps)
  with m show ?case
    by (intro exI [of _ m]) (simp add: queryEval_def Let_def var n answers_def)
qed

end

end
