(* ===== verification/Gal_Assign.thy ===== *)
theory Gal_Assign imports Gal_Query_Sound begin

text \<open>
  \<open>assignExpr\<close> computes the update of every state of a diagram: the left-hand side (a variable, a cell, or
  an array access whose index is resolved on the way) and the value are evaluated on the path, and the
  path with the new value is in the result. The index must not read the array that is written.
\<close>

section \<open>Resolving the left-hand side\<close>

text \<open>What the left-hand side designates.\<close>

fun target :: "valuation \<Rightarrow> pint \<Rightarrow> loc option" where
  "target \<gamma> (VarExpr g) = Some (Scalar g)"
| "target \<gamma> (ArrayConstExpr a k) = Some (Cell a k)"
| "target \<gamma> (ArrayVarExpr a i l) =
     (case isem \<gamma> i of None \<Rightarrow> None | Some k \<Rightarrow> if 0 \<le> k \<and> k < l then Some (Cell a k) else None)"
| "target \<gamma> e = None"

definition free_of :: "int \<Rightarrow> pint \<Rightarrow> bool" where
  "free_of a e \<longleftrightarrow> Scalar a \<notin> leaves e \<and> (\<forall>k. Cell a k \<notin> leaves e) \<and> (\<forall>m. (a, m) \<notin> accesses e)"

lemma free_of_mono: "free_of a e \<Longrightarrow> leaves e' \<subseteq> mentions e \<Longrightarrow> accesses e' \<subseteq> accesses e \<Longrightarrow> free_of a e'"
  unfolding free_of_def mentions_def by blast

fun is_access_to :: "int \<Rightarrow> pint \<Rightarrow> bool" where
  "is_access_to a (ArrayConstExpr b k) \<longleftrightarrow> a = b"
| "is_access_to a (ArrayVarExpr b i l) \<longleftrightarrow> a = b"
| "is_access_to a e \<longleftrightarrow> False"

lemma is_access_rename:
  assumes "inj_on f X" "a \<in> X" "vars_int e \<subseteq> X"
  shows "is_access_to (f a) (rename A f e) \<longleftrightarrow> is_access_to a e"
  using assms by (cases e) (auto dest: inj_onD)

lemma indexOf_inj: "inj_on (\<lambda>g. indexOf g u) (set u)"
  by (rule inj_onI) (metis indexOf_mem(3))

lemma gx_vars: "good A e \<Longrightarrow> vars_int (gx A e) = set (getEnv e)"
  by (simp add: good_def gx_def vars_rename)

lemma setAssertion_lhs:
  assumes lin: "linear_less (iless A)" and r: "good A r" "gx A r = ArrayVarExpr a i m"
    and L: "good A L" "supersets (getEnv r) (getEnv L)" and K: "good A K" "const_val K = Some c"
    and other: "(\<exists>l. leaf (gx A L) = {l} \<and> l \<notin> leaves i) \<or> \<not> is_access_to a (gx A L)"
    and den: "denote \<gamma> L = Some c" "isem \<gamma> i = Some k" "0 \<le> k" "k < m"
  shows "\<exists>r' i'. IntExpression_setAssertion A (Assertion_of A L K) r = Inr r' \<and> good A r' \<and> isem \<gamma> i' = Some k
    \<and> resolves A (const_assertion (gx A L) c) i i' \<and> gx A r' = (if is_const i' then ArrayConstExpr a k else ArrayVarExpr a i' m)
    \<and> (gx A L = i \<longrightarrow> is_const i')"
proof -
  obtain x env where IExpr: "r = IExpr x env" using r(2) getExpr_IConst r(1) by (cases r) (auto simp: gx_def createConstant_def)
  define u where "u = sorted_union (getEnv L) env"
  have parts: "IntExpression_setAssertion A (Assertion_of A L K) r
      = rbind (assert_int A (const_assertion (nrm A L u) c) (nrm A r u)) (\<lambda>x'. Inr (mk_int (gc_int A x' u)))"
    "set (getEnv L) \<subseteq> set u" "set (getEnv r) \<subseteq> set u" "env_ok u"
    using setAssertion_parts [OF lin good_fits L(1) _ K, of x env, folded u_def] r L(2) IExpr by auto
  define f where "f = (\<lambda>g. indexOf g u)"
  note rx = gx_nrm [OF lin r(1) parts(3)] and Lx = gx_nrm [OF lin L(1) parts(2)]
  have nr: "nrm A r u = ArrayVarExpr (f a) (rename A f i) m" using rx(4) r(2) by (simp add: f_def)
  define i0 where "i0 = rename A f i"
  have ci: "canon A i" "\<not> is_const i" using canon_gx [OF lin r(1)] r(2) by auto
  have vars: "a \<in> set u" "vars_int i \<subseteq> set u" "vars_int (gx A L) \<subseteq> set u"
    using gx_vars [OF r(1)] gx_vars [OF L(1)] parts(2,3) r(2) by auto
  have undo: "u ! nat (f g) = g" if "g \<in> set u" for g using indexOf_mem(3) [OF that] by (simp add: f_def)
  have i0: "canon A i0" "wf_int (int (length u)) i0" "\<not> is_const i0"
    using rx(1,2) by (auto simp: nr i0_def)
  have ren_i: "rename A (\<lambda>j. u ! nat j) i0 = i"
    using lin ci(1) vars(2) undo by (auto simp: i0_def rename_rename intro!: rename_id)
  have c: "taggable c" by (rule assertion_const(4) [OF lin L(1) parts(2) K])
  let ?as = "const_assertion (nrm A L u) c"
  have "isem (env_val \<gamma> u) i0 = Some k"
    using den(2) isem_rename [OF i0(1), of \<gamma> "\<lambda>j. u ! nat j"] ren_i by (simp add: env_val_at)
  then obtain i1 where i1: "assert_int A ?as i0 = Inr i1" "isem (env_val \<gamma> u) i1 = Some k" "resolves A ?as i0 i1"
    using assert_step [OF c, of ?as "env_val \<gamma> u", OF _ _ lin i0(1)] isem_nrm [OF lin L(1) parts(2), of \<gamma>] den by auto
  have ci1: "canon A i1" using i1(3) by (simp add: resolves_def)
  define acc where "acc = createArrayAccess (f a) i1 m"
  have acc: "acc = (if is_const i1 then ArrayConstExpr (f a) k else ArrayVarExpr (f a) i1 m)"
  proof (cases "is_const i1")
    case True
    with i1(2) obtain t where "i1 = ConstTag t" "untag_const t = k" by (auto simp: is_const_iff sem_simps)
    with den(3,4) show ?thesis by (simp add: acc_def createArrayAccess_def)
  qed (simp add: acc_def access_var)
  have keep: "PAssertion_getValue ?as acc = acc"
  proof -
    have "acc \<noteq> nrm A L u"
      using other
    proof
      assume "\<exists>l. leaf (gx A L) = {l} \<and> l \<notin> leaves i"
      then obtain l where l: "leaf (gx A L) = {l}" "l \<notin> leaves i" by blast
      have leaf: "leaf (nrm A L u) = {rename_loc f l}" using l(1) by (simp add: Lx(4) leaf_rename f_def)
      have "rename_loc f l \<notin> leaves i0"
      proof
        assume "rename_loc f l \<in> leaves i0"
        then obtain d where "d \<in> leaves i" "rename_loc f d = rename_loc f l" by (auto simp: i0_def leaves_rename)
        with rename_loc_inj [OF this(2) indexOf_inj [of u, folded f_def]] leaves_var [of d i] leaf_var [of l "gx A L"] l vars
        show False by auto
      qed
      from assert_no_occurrence [OF lin i0(1) _ this, of ?as] leaf i1(1) have "i1 = i0" by simp
      with acc i0(3) leaf show ?thesis by (cases "nrm A L u") auto
    next
      assume "\<not> is_access_to a (gx A L)"
      then have "\<not> is_access_to (f a) (nrm A L u)"
        using is_access_rename [OF indexOf_inj [of u, folded f_def] vars(1,3), of A] by (simp add: Lx(4) f_def)
      moreover have "is_access_to (f a) acc" by (simp add: acc)
      ultimately show ?thesis by metis
    qed
    then show ?thesis by (simp add: PAssertion_getValue_def)
  qed
  have assert: "assert_int A ?as (nrm A r u) = Inr acc"
    using i1(1) keep by (simp add: nr ArrayVarExpr_setAssertion_def acc_def flip: i0_def)
  have wf_acc: "wf_int (int (length u)) acc"
    using wf_assert(1) [of "int (length u)" ?as "nrm A r u" A] rx(2) assert by simp
  have canon_acc: "canon A acc" using ci1 by (simp add: acc)
  note gc = gx_mk_gc [OF lin canon_acc wf_acc parts(4)]
  define i' where "i' = rename A (\<lambda>j. u ! nat j) i1"
  have wf1: "wf_int (int (length u)) i1"
    using wf_assert(1) [of "int (length u)" ?as i0 A] i0(2) i1(1) by simp
  have "resolves A (const_assertion (gx A L) c) (rename A (\<lambda>j. u ! nat j) i0) i'"
    unfolding i'_def
    by (rule resolves_rename [OF lin env_inj [OF parts(4)] _ _ i0(1) vars_in_range [OF i0(2)] vars_in_range [OF wf1] i1(3)])
       (use Lx vars_in_range in auto)
  moreover have "isem \<gamma> i' = Some k" using i1(2) ci1 by (simp add: i'_def isem_rename env_val_at)
  moreover have "gx A (mk_int (gc_int A acc u)) = (if is_const i' then ArrayConstExpr a k else ArrayVarExpr a i' m)"
    using undo [OF vars(1)] unfolding gc(2) by (simp add: acc i'_def)
  moreover have "is_const i'" if "gx A L = i"
  proof -
    have "nrm A L u = i0" using that by (simp add: Lx(4) i0_def f_def)
    then have "assert_int A ?as i0 = Inr (createConstant c)"
      using assert_not_larger [OF lin i0(1) _ i0(3), of ?as] by (simp add: PAssertion_getValue_def)
    with i1(1) have "i1 = createConstant c" by simp
    then show ?thesis by (simp add: i'_def)
  qed
  ultimately show ?thesis using parts(1) assert gc(1) ren_i by (intro exI [of _ "mk_int (gc_int A acc u)"] exI [of _ i']) simp
qed

section \<open>Left-hand sides\<close>

definition lhs_ok :: "heap_order \<Rightarrow> GalOrder \<Rightarrow> nat \<Rightarrow> IntExpression \<Rightarrow> bool" where
  "lhs_ok A vo n v \<longleftrightarrow> good A v \<and> mentions (gx A v) \<subseteq> upto vo n
     \<and> (eloc v \<noteq> None \<or> (\<exists>a i m. gx A v = ArrayVarExpr a i m \<and> free_of a i))"

lemma good_eloc:
  assumes "good A v" "gx A v = ArrayConstExpr a k"
  shows "eloc v = Some (Cell a k)"
proof (cases v)
  case (IConst t)
  with assms getExpr_IConst [of t] show ?thesis by (auto simp: gx_def createConstant_def good_def)
next
  case (IExpr x env)
  note e = good_parts [OF assms(1), unfolded IExpr, simplified]
  from assms(2) obtain b where x: "x = ArrayConstExpr b k" "env ! nat b = a" by (cases x) (auto simp: gx_def IExpr)
  have "set env = {a}" using gx_vars [OF assms(1)] assms(2) IExpr by simp
  moreover from this have "length env = Suc 0" using distinct_card [OF env_ok_distinct, of env] e by simp
  then obtain y where "env = [y]" by (auto simp: length_Suc_conv)
  ultimately have "env = [a]" by simp
  moreover from this have "b = 0" using e x(1) by simp
  ultimately show ?thesis by (simp add: IExpr x(1))
qed

lemma operator_type: "nary_type k \<noteq> ARRAY" "unary_type k1 \<noteq> ARRAY" "binary_type k2 \<noteq> ARRAY"
  by (cases k, simp_all) (cases k1, simp_all, (cases k2, simp_all)?)

lemma getType_ARRAY: "IntExpression_getType v = ARRAY \<longleftrightarrow> (\<exists>a i m. gx A v = ArrayVarExpr a i m)"
proof (cases v)
  case (IExpr x env)
  then show ?thesis by (cases x) (auto simp: gx_def operator_type)
qed (simp add: gx_def createConstant_def)

lemma lhs_cases:
  assumes "lhs_ok A vo n v"
  obtains (fixed) l where "eloc v = Some l" "leaf (gx A v) = {l}" "\<And>\<gamma>. target \<gamma> (gx A v) = Some l"
      "IntExpression_getType v \<noteq> ARRAY" "IntExpression_getType v \<in> {VAR, CONSTARRAY}" "ie_ok v"
  | (access) a i m where "gx A v = ArrayVarExpr a i m" "free_of a i" "canon A i \<or> \<not> linear_less (iless A)"
      "IntExpression_getType v = ARRAY" "eloc v = None"
proof (cases "eloc v")
  case (Some l)
  have ok: "ie_ok v" using assms by (simp add: lhs_ok_def good_def)
  note g = eloc_gx [OF Some ok]
  show thesis
  proof (rule fixed [OF Some _ _ _ _ ok])
    show "leaf (gx A v) = {l}" by (rule g(2))
    show "target \<gamma> (gx A v) = Some l" for \<gamma> using g(2) [of A] by (cases "gx A v") auto
  qed (use Some in \<open>auto elim!: eloc_cases\<close>)
next
  case None
  with assms obtain a i m where acc: "gx A v = ArrayVarExpr a i m" "free_of a i" by (auto simp: lhs_ok_def)
  have "canon A i \<or> \<not> linear_less (iless A)" using canon_gx [of A v] assms acc(1) by (auto simp: lhs_ok_def)
  with acc None show thesis using access getType_ARRAY by blast
qed

lemma target_mentions: "target \<gamma> e = Some l \<Longrightarrow> l \<in> mentions e"
  by (cases e) (auto split: option.splits if_splits)

text \<open>The left-hand side designates \<open>l\<close> on the path \<open>p\<close>.\<close>

definition target_on :: "heap_order \<Rightarrow> GalOrder \<Rightarrow> nat \<Rightarrow> int list \<Rightarrow> IntExpression \<Rightarrow> loc \<Rightarrow> bool" where
  "target_on A vo n p v l \<longleftrightarrow> (\<forall>\<gamma>. agrees vo n p \<gamma> \<longrightarrow> target \<gamma> (gx A v) = Some l)"

lemma target_cong:
  assumes "canon A e" "mentions e \<subseteq> upto vo n" "agrees vo n p \<gamma>" "agrees vo n p \<delta>"
  shows "target \<gamma> e = target \<delta> e"
  using assms agrees_isem [of A _ vo n p \<gamma> \<delta>] by (cases e) auto

lemma agrees_append: "length p = n \<Longrightarrow> agrees vo (Suc n) (p @ [x]) \<gamma> \<Longrightarrow> agrees vo n p \<gamma>"
  by (simp add: agrees_Suc)

lemma agrees_extend:
  assumes "order_ok vo" "n < length (go_map vo)" "length p = n" "agrees vo n p \<gamma>"
  shows "agrees vo (Suc n) (p @ [x]) (put (locs vo ! n) x \<gamma>)"
  using agrees_put [OF assms(1,2,4)] assms(3) by (simp add: agrees_Suc look_put del: nth_map)

lemma target_on_append:
  assumes "linear_less (iless A)" "order_ok vo" "n < length (go_map vo)" "length p = n" "good A v" "mentions (gx A v) \<subseteq> upto vo n"
  shows "target_on A vo (Suc n) (p @ [x]) v l \<longleftrightarrow> target_on A vo n p v l"
proof
  assume l: "target_on A vo (Suc n) (p @ [x]) v l"
  show "target_on A vo n p v l"
    unfolding target_on_def
  proof (intro allI impI)
    fix \<gamma> assume \<gamma>: "agrees vo n p \<gamma>"
    note ext = agrees_extend [OF assms(2-4) \<gamma>, of x]
    from l ext have "target (put (locs vo ! n) x \<gamma>) (gx A v) = Some l" unfolding target_on_def by blast
    then show "target \<gamma> (gx A v) = Some l"
      using target_cong [OF canon_gx [OF assms(1,5)] assms(6) \<gamma> agrees_append [OF assms(4) ext]] by simp
  qed
qed (use assms(4) agrees_append in \<open>fastforce simp: target_on_def\<close>)

lemma value_on_append_iff:
  assumes "linear_less (iless A)" "order_ok vo" "n < length (go_map vo)" "length p = n" "good A e" "mentions (gx A e) \<subseteq> upto vo n"
  shows "value_on vo (Suc n) (p @ [x]) e v \<longleftrightarrow> value_on vo n p e v"
  using value_on_butlast [OF assms] value_on_append [OF assms(4)] by blast

section \<open>What an assignment does to a path\<close>

definition stores :: "('d, 'h) dd_lib \<Rightarrow> bool \<Rightarrow> int \<Rightarrow> int \<Rightarrow> int \<Rightarrow> bool" where
  "stores lib inc x old w \<longleftrightarrow> w = (if inc then wrap32 (x + old) else x) \<and> val_cast lib w = w \<and> taggable w"

definition writes ::
  "('d, 'h) dd_lib \<Rightarrow> heap_order \<Rightarrow> GalOrder \<Rightarrow> bool \<Rightarrow> nat \<Rightarrow> IntExpression \<Rightarrow> IntExpression \<Rightarrow> int list \<Rightarrow> int list \<Rightarrow> bool" where
  "writes lib A vo inc n var e p q \<longleftrightarrow> (\<exists>j x w. j < n \<and> target_on A vo n p var (locs vo ! j) \<and> value_on vo n p e x
     \<and> stores lib inc x (p ! j) w \<and> q = p[j := w])"

definition assignable ::
  "('d, 'h) dd_lib \<Rightarrow> heap_order \<Rightarrow> GalOrder \<Rightarrow> bool \<Rightarrow> nat \<Rightarrow> IntExpression \<Rightarrow> IntExpression \<Rightarrow> 'd \<Rightarrow> bool" where
  "assignable lib A vo inc n var e d \<longleftrightarrow> lhs_ok A vo n var \<and> good A e \<and> mentions (gx A e) \<subseteq> upto vo n
     \<and> n \<le> length (go_map vo) \<and> dd_level lib n d \<and> (\<forall>p\<in>dd_paths lib n d. \<exists>q. writes lib A vo inc n var e p q)"

definition written ::
  "('d, 'h) dd_lib \<Rightarrow> heap_order \<Rightarrow> GalOrder \<Rightarrow> bool \<Rightarrow> nat \<Rightarrow> IntExpression \<Rightarrow> IntExpression \<Rightarrow> int list set \<Rightarrow> int list set" where
  "written lib A vo inc n var e P = {q. \<exists>p\<in>P. writes lib A vo inc n var e p q}"

lemma written_UN: "written lib A vo inc n var e (\<Union>i\<in>I. P i) = (\<Union>i\<in>I. written lib A vo inc n var e (P i))"
  by (auto simp: written_def)

lemma locs_inj: "order_ok vo \<Longrightarrow> j < length (go_map vo) \<Longrightarrow> k < length (go_map vo) \<Longrightarrow> locs vo ! j = locs vo ! k \<Longrightarrow> j = k"
  by (simp add: order_ok_def nth_eq_iff_index_eq del: nth_map)

lemma upto_nth: "l \<in> upto vo n \<Longrightarrow> \<exists>k<n. l = locs vo ! k"
  by (auto simp: upto_def in_set_conv_nth simp del: nth_map)

lemma writes_append:
  assumes lin: "linear_less (iless A)" and vo: "order_ok vo" "n < length (go_map vo)" "length p = n"
    and var: "good A var" "mentions (gx A var) \<subseteq> upto vo n" and e: "good A e" "mentions (gx A e) \<subseteq> upto vo n"
  shows "writes lib A vo inc (Suc n) var e (p @ [x]) q \<longleftrightarrow> (\<exists>p'. writes lib A vo inc n var e p p' \<and> q = p' @ [x])"
proof
  assume "writes lib A vo inc (Suc n) var e (p @ [x]) q"
  then obtain j y w where w: "j < Suc n" "target_on A vo (Suc n) (p @ [x]) var (locs vo ! j)" "value_on vo (Suc n) (p @ [x]) e y"
    "stores lib inc y ((p @ [x]) ! j) w" "q = (p @ [x])[j := w]" by (auto simp: writes_def)
  have t: "target_on A vo n p var (locs vo ! j)" using w(2) target_on_append [OF lin vo var] by blast
  have "length p = n" by (rule vo(3))
  then obtain \<gamma> where "agrees vo n p \<gamma>" using agrees_ex [OF vo(1), of n p] vo(2) by auto
  with t have "locs vo ! j \<in> upto vo n" using target_mentions var(2) unfolding target_on_def by blast
  then obtain k where "k < n" "locs vo ! j = locs vo ! k" using upto_nth by blast
  then have j: "j < n" using locs_inj [OF vo(1), of j k] w(1) vo(2) by simp
  then have "writes lib A vo inc n var e p (p[j := w])"
    unfolding writes_def
  proof (intro exI conjI)
    show "value_on vo n p e y" using w(3) value_on_append_iff [OF lin vo e] by blast
    show "stores lib inc y (p ! j) w" using w(4) j vo(3) by (simp add: nth_append)
  qed (rule j t refl)+
  with j w(5) vo(3) show "\<exists>p'. writes lib A vo inc n var e p p' \<and> q = p' @ [x]" by (auto simp: list_update_append)
next
  assume "\<exists>p'. writes lib A vo inc n var e p p' \<and> q = p' @ [x]"
  then obtain j y w where w: "j < n" "target_on A vo n p var (locs vo ! j)" "value_on vo n p e y" "stores lib inc y (p ! j) w"
    "q = p[j := w] @ [x]" by (auto simp: writes_def)
  then show "writes lib A vo inc (Suc n) var e (p @ [x]) q"
    unfolding writes_def
  proof (intro exI conjI)
    show "target_on A vo (Suc n) (p @ [x]) var (locs vo ! j)" using w(2) target_on_append [OF lin vo var] by blast
    show "value_on vo (Suc n) (p @ [x]) e y" using w(3) value_on_append_iff [OF lin vo e] by blast
    show "stores lib inc y ((p @ [x]) ! j) w" using w(1,4) vo(3) by (simp add: nth_append)
    show "j < Suc n" using w(1) by simp
    show "q = (p @ [x])[j := w]" using w(1,5) vo(3) by (simp add: list_update_append)
  qed
qed

lemma written_append:
  assumes "linear_less (iless A)" "order_ok vo" "n < length (go_map vo)" "\<And>p. p \<in> P \<Longrightarrow> length p = n"
    "good A var" "mentions (gx A var) \<subseteq> upto vo n" "good A e" "mentions (gx A e) \<subseteq> upto vo n"
  shows "written lib A vo inc (Suc n) var e ((\<lambda>p. p @ [x]) ` P) = (\<lambda>p. p @ [x]) ` written lib A vo inc n var e P"
proof -
  note step = writes_append [OF assms(1-3) assms(4) assms(5-8)]
  have "written lib A vo inc (Suc n) var e ((\<lambda>p. p @ [x]) ` P) = {q. \<exists>p\<in>P. writes lib A vo inc (Suc n) var e (p @ [x]) q}"
    by (simp add: written_def)
  also have "\<dots> = {q. \<exists>p\<in>P. \<exists>p'. writes lib A vo inc n var e p p' \<and> q = p' @ [x]}" using step by (intro Collect_cong bex_cong) simp_all
  also have "\<dots> = (\<lambda>p. p @ [x]) ` written lib A vo inc n var e P" unfolding written_def by blast
  finally show ?thesis .
qed

text \<open>Both sides may be replaced by what designates the same location and has the same value.\<close>

lemma target_on_unique:
  assumes "order_ok vo" "n \<le> length (go_map vo)" "length p = n" "target_on A vo n p e v" "target_on A vo n p e w"
  shows "v = w"
  using agrees_ex [OF assms(1-3)] assms(4,5) unfolding target_on_def by (metis option.inject)

lemma writes_cong:
  assumes "order_ok vo" "n \<le> length (go_map vo)" "length p = n"
    and "\<And>l. target_on A vo n p var l \<Longrightarrow> target_on A vo n p v l" "\<And>x. value_on vo n p expr x \<Longrightarrow> value_on vo n p e x"
    and "writes lib A vo inc n var expr p q0"
  shows "writes lib A vo inc n v e p q \<longleftrightarrow> writes lib A vo inc n var expr p q"
proof -
  from assms(6) obtain l x where lx: "target_on A vo n p var l" "value_on vo n p expr x" by (auto simp: writes_def)
  have "target_on A vo n p v k \<longleftrightarrow> target_on A vo n p var k" for k
    using assms(4) lx(1) target_on_unique [OF assms(1-3)] by blast
  moreover have "value_on vo n p e y \<longleftrightarrow> value_on vo n p expr y" for y
    using assms(5) lx(2) value_on_unique [OF assms(1-3)] by blast
  ultimately show ?thesis by (simp add: writes_def)
qed

end
