(* ===== verification/Gal_Assign_Sound.thy ===== *)
theory Gal_Assign_Sound imports Gal_Assign begin

text \<open>
  \<open>assignExpr\<close> is correct: the contract of \<open>GHom::operator()\<close>, one edge of an assignment, the recursion.
\<close>

section \<open>Applying a homomorphism\<close>

text \<open>\<open>skip_variable\<close> tells the library to go to the children of a node and rebuild it.\<close>

locale dd_homs = dd_nodes lib for lib :: "('d, 'h) dd_lib" +
  assumes app_eval: "d \<in> {dd_null lib, dd_one lib, dd_top lib} \<or> skip (dd_variable lib d) = Inr False \<Longrightarrow>
      hom_app lib (hom_of lib skip ev) d = ev d"
    and app_skip: "d \<notin> {dd_null lib, dd_one lib, dd_top lib} \<Longrightarrow> skip (dd_variable lib d) = Inr True \<Longrightarrow>
      hom_app lib (hom_of lib skip ev) d =
        rbind (rmap (\<lambda>(x, c). rbind (hom_app lib (hom_of lib skip ev) c) (\<lambda>c'. Inr (dd_node lib (dd_variable lib d) x c')))
          (dd_arcs lib d)) (\<lambda>ds. Inr (dd_add lib ds))"

section \<open>Assertions on the left-hand side\<close>

lemma gx_first_index:
  assumes lin: "linear_less (iless A)" and v: "good A v" "gx A v = ArrayVarExpr a i m"
  shows "gx A (IntExpression_getFirstSubExpr A v) = i"
proof -
  obtain x env where x: "v = IExpr x env" using v by (cases v) (auto simp: gx_def createConstant_def)
  note e = good_parts [OF v(1), unfolded x, simplified]
  from v(2) obtain b j where j: "x = ArrayVarExpr b j m" "rename A (\<lambda>y. env ! nat y) j = i"
    by (cases x) (auto simp: gx_def x)
  have "canon A j" "wf_int (int (length env)) j" using e j(1) by auto
  from gx_mk_gc(2) [OF lin this] e j indexes_size [of j x] show ?thesis by (auto simp: x Let_def)
qed

lemma lhs_assert:
  assumes lin: "linear_less (iless A)" and vo: "order_ok vo" "n \<le> length (go_map vo)"
    and v: "lhs_ok A vo n var" "gx A var = ArrayVarExpr a i m"
    and L: "good A L" "set (getEnv L) \<subseteq> set (getEnv var)" and K: "good A K" "const_val K = Some c"
    and other: "(\<exists>l. leaf (gx A L) = {l} \<and> l \<notin> leaves i) \<or> \<not> is_access_to a (gx A L)"
    and P: "P \<noteq> {}" "\<And>p. p \<in> P \<Longrightarrow> length p = n \<and> value_on vo n p L c \<and> (\<exists>l. target_on A vo n p var l)"
  shows "\<exists>v. IntExpression_setAssertion A (Assertion_of A L K) var = Inr v \<and> lhs_ok A vo n v \<and> isize (gx A v) \<le> isize (gx A var)
    \<and> (gx A L = i \<longrightarrow> isize (gx A v) < isize (gx A var)) \<and> (\<forall>p\<in>P. \<forall>l. target_on A vo n p var l \<longrightarrow> target_on A vo n p v l)"
proof -
  have good: "good A var" and ment: "mentions (gx A var) \<subseteq> upto vo n" and free: "free_of a i"
    using v by (auto simp: lhs_ok_def elim!: eloc_cases) (auto simp: gx_def)
  have ci: "canon A i" "\<not> is_const i" using canon_gx [OF lin good] v(2) by auto
  have sup: "supersets (getEnv var) (getEnv L)" using L good_parts [OF L(1)] good_parts [OF good] by (simp add: supersets_complete)
  have step: "\<exists>v i'. IntExpression_setAssertion A (Assertion_of A L K) var = Inr v \<and> good A v \<and> isem \<gamma> i' = Some k
      \<and> resolves A (const_assertion (gx A L) c) i i' \<and> gx A v = (if is_const i' then ArrayConstExpr a k else ArrayVarExpr a i' m)
      \<and> (gx A L = i \<longrightarrow> is_const i') \<and> l = Cell a k \<and> 0 \<le> k \<and> k < m"
    if p: "p \<in> P" "target_on A vo n p var l" and \<gamma>: "agrees vo n p \<gamma>" and k: "isem \<gamma> i = Some k" for p l \<gamma> k
  proof -
    from p \<gamma> k v(2) have l: "l = Cell a k" "0 \<le> k" "k < m" by (auto simp: target_on_def split: if_splits)
    have "denote \<gamma> L = Some c" using P(2) [OF p(1)] \<gamma> by (simp add: value_on_def)
    from setAssertion_lhs [OF lin good v(2) L(1) sup K other this k l(2,3)] l show ?thesis by blast
  qed
  have val: "\<exists>k. isem \<gamma> i = Some k" if "target_on A vo n p var l" "agrees vo n p \<gamma>" for p l \<gamma>
    using that v(2) by (auto simp: target_on_def split: option.splits)
  from P obtain p l where p: "p \<in> P" "target_on A vo n p var l" by blast
  then obtain \<gamma> where \<gamma>: "agrees vo n p \<gamma>" using agrees_ex [OF vo] P(2) by blast
  obtain k where k: "isem \<gamma> i = Some k" using val [OF p(2) \<gamma>] by blast
  from step [OF p \<gamma> k] obtain w i' where w: "IntExpression_setAssertion A (Assertion_of A L K) var = Inr w" "good A w"
    "resolves A (const_assertion (gx A L) c) i i'" "gx A w = (if is_const i' then ArrayConstExpr a k else ArrayVarExpr a i' m)"
    "gx A L = i \<longrightarrow> is_const i'" "0 \<le> k" "k < m" by blast
  have "lhs_ok A vo n w"
  proof (cases "is_const i'")
    case True
    then have "gx A w = ArrayConstExpr a k" using w(4) by simp
    with good_eloc [OF w(2) this] w ment v(2) show ?thesis by (auto simp: lhs_ok_def)
  next
    case False
    then have "gx A w = ArrayVarExpr a i' m" using w(4) by simp
    moreover have "mentions i' \<subseteq> mentions i" by (rule resolves_mentions [OF w(3)])
    moreover have "free_of a i'" by (rule free_of_mono [OF free]) (use w(3) in \<open>auto simp: resolves_def\<close>)
    ultimately show ?thesis using w(2) ment v(2) by (auto simp: lhs_ok_def)
  qed
  moreover have "isize (gx A w) \<le> isize (gx A var)" "gx A L = i \<longrightarrow> isize (gx A w) < isize (gx A var)"
  proof -
    have "0 < isize i" by (rule Suc_le_lessD) simp
    with w(3-5) v(2) show "isize (gx A w) \<le> isize (gx A var)" "gx A L = i \<longrightarrow> isize (gx A w) < isize (gx A var)"
      by (auto simp: resolves_def)
  qed
  moreover have "target_on A vo n q w l'" if q: "q \<in> P" "target_on A vo n q var l'" for q l'
    unfolding target_on_def
  proof (intro allI impI)
    fix \<delta> assume \<delta>: "agrees vo n q \<delta>"
    obtain k' where k': "isem \<delta> i = Some k'" using val [OF q(2) \<delta>] by blast
    from step [OF q \<delta> k'] w(1) obtain i'' where "isem \<delta> i'' = Some k'" "l' = Cell a k'" "0 \<le> k'" "k' < m"
      "gx A w = (if is_const i'' then ArrayConstExpr a k' else ArrayVarExpr a i'' m)" by auto
    then show "target \<delta> (gx A w) = Some l'" by simp
  qed
  ultimately show ?thesis using w(1) by blast
qed

lemma edge_lhs:
  assumes lin: "linear_less (iless A)" and vo: "order_ok vo" "n < length (go_map vo)" and v: "lhs_ok A vo (Suc n) var"
    and P: "P \<noteq> {}" "\<And>p. p \<in> P \<Longrightarrow> length p = n" and vl: "taggable vl"
    and vals: "\<And>p. p \<in> P \<Longrightarrow> \<exists>l. target_on A vo (Suc n) (p @ [vl]) var l"
  obtains w where "(if IntExpression_getType var = ARRAY \<and> touches (locs vo ! n) (gx A var)
      then IntExpression_setAssertion A (edge_assertion A (go_map vo ! n) vl) var else Inr var) = Inr w"
    "lhs_ok A vo (Suc n) w" "isize (gx A w) \<le> isize (gx A var)"
    "\<And>p l. p \<in> P \<Longrightarrow> target_on A vo (Suc n) (p @ [vl]) var l \<Longrightarrow> target_on A vo (Suc n) (p @ [vl]) w l"
proof (cases "IntExpression_getType var = ARRAY \<and> touches (locs vo ! n) (gx A var)")
  case False
  with v that show ?thesis by auto
next
  case True
  then obtain a i m where acc: "gx A var = ArrayVarExpr a i m" using getType_ARRAY by blast
  have good: "good A var" and free: "free_of a i"
    using v acc by (auto simp: lhs_ok_def elim!: eloc_cases) (auto simp: gx_def)
  note o = order_var [OF vo] and K = createIConstant_good [OF vl, of A]
  note curv = eloc_gx [OF o(1,2)]
  have "isSupport": "set (getEnv (go_map vo ! n)) \<subseteq> set (getEnv var)"
    by (rule isSupport_touches(2) [OF o(1,2) good]) (use True in simp)
  have other: "(\<exists>l. leaf (gx A (go_map vo ! n)) = {l} \<and> l \<notin> leaves i) \<or> \<not> is_access_to a (gx A (go_map vo ! n))"
  proof -
    define l where "l = locs vo ! n"
    have "leaf (gx A (go_map vo ! n)) = {l}" using curv(2) [of A] by (simp only: l_def)
    with free show ?thesis by (cases "gx A (go_map vo ! n)") (auto simp: free_of_def)
  qed
  have "\<exists>w. IntExpression_setAssertion A (edge_assertion A (go_map vo ! n) vl) var = Inr w \<and> lhs_ok A vo (Suc n) w
      \<and> isize (gx A w) \<le> isize (gx A var) \<and> (gx A (go_map vo ! n) = i \<longrightarrow> isize (gx A w) < isize (gx A var))
      \<and> (\<forall>p\<in>(\<lambda>p. p @ [vl]) ` P. \<forall>l. target_on A vo (Suc n) p var l \<longrightarrow> target_on A vo (Suc n) p w l)"
  proof (rule lhs_assert [OF lin vo(1) _ v acc curv(1) isSupport _ _ other])
    show "length p = Suc n \<and> value_on vo (Suc n) p (go_map vo ! n) vl \<and> (\<exists>l. target_on A vo (Suc n) p var l)"
      if p: "p \<in> (\<lambda>p. p @ [vl]) ` P" for p
    proof -
      obtain q where q: "q \<in> P" "p = q @ [vl]" using p by blast
      have "denote \<gamma> (go_map vo ! n) = Some vl" if "agrees vo (Suc n) p \<gamma>" for \<gamma>
        using that P(2) [OF q(1)] curv(3) [of \<gamma>] vl by (simp add: q(2) agrees_Suc chk_def del: nth_map)
      with vals [OF q(1)] P(2) [OF q(1)] q(2) show ?thesis by (simp add: value_on_def)
    qed
  qed (use vo K P in auto)
  with that True show ?thesis by auto
qed

section \<open>One edge\<close>

text \<open>What is left to resolve in an assignment.\<close>

definition unresolved :: "heap_order \<Rightarrow> IntExpression \<Rightarrow> IntExpression \<Rightarrow> nat" where
  "unresolved A v e = isize (gx A v) + (if is_const (gx A e) then 0 else isize (gx A e))"

text \<open>The homomorphism \<open>h\<close> maps \<open>d\<close> to the paths of \<open>Q\<close>.\<close>

definition yields :: "('d, 'h) dd_lib \<Rightarrow> nat \<Rightarrow> 'h res \<Rightarrow> 'd \<Rightarrow> int list set \<Rightarrow> bool" where
  "yields lib n h d Q \<longleftrightarrow> (\<exists>d'. rbind h (\<lambda>h. hom_app lib h d) = Inr d' \<and> level0 lib n d' \<and> dd_paths lib n d' = Q)"

lemma rmap_union:
  "(\<And>x. x \<in> set xs \<Longrightarrow> \<exists>ds. f x = Inr ds \<and> (\<forall>d\<in>set ds. level0 lib n d) \<and> (\<Union>d\<in>set ds. dd_paths lib n d) = W x) \<Longrightarrow>
     \<exists>dss. rmap f xs = Inr dss \<and> (\<forall>d\<in>set (concat dss). level0 lib n d)
       \<and> (\<Union>d\<in>set (concat dss). dd_paths lib n d) = (\<Union>x\<in>set xs. W x)"
proof (induction xs)
  case (Cons x xs)
  obtain ds where ds: "f x = Inr ds" "\<forall>d\<in>set ds. level0 lib n d" "(\<Union>d\<in>set ds. dd_paths lib n d) = W x"
    using Cons.prems [of x] by auto
  obtain dss where dss: "rmap f xs = Inr dss" "\<forall>d\<in>set (concat dss). level0 lib n d"
    "(\<Union>d\<in>set (concat dss). dd_paths lib n d) = (\<Union>x\<in>set xs. W x)"
    using Cons.IH Cons.prems by (metis list.set_intros(2))
  from ds dss show ?case by (intro exI [of _ "ds # dss"]) (simp add: UN_Un ball_Un del: rmap_eq_Inr_iff)
qed simp

lemma rmap_single:
  assumes "rmap (\<lambda>x. rbind (f x) (\<lambda>d. Inr [d])) xs = Inr dss"
  shows "rmap f xs = Inr (concat dss)"
  using assms
proof (induction xs arbitrary: dss)
  case (Cons x xs)
  then obtain d dss' where "f x = Inr d" "rmap (\<lambda>x. rbind (f x) (\<lambda>d. Inr [d])) xs = Inr dss'" "dss = [d] # dss'"
    by (auto simp: rbind_eq_Inr_iff simp del: rmap_eq_Inr_iff)
  with Cons.IH [of dss'] show ?case by simp
qed simp

lemma rmap_yields:
  assumes "\<And>x. x \<in> set xs \<Longrightarrow> \<exists>d. f x = Inr d \<and> level0 lib n d \<and> dd_paths lib n d = W x"
  shows "\<exists>ds. rmap f xs = Inr ds \<and> (\<forall>d\<in>set ds. level0 lib n d) \<and> (\<Union>d\<in>set ds. dd_paths lib n d) = (\<Union>x\<in>set xs. W x)"
proof -
  have "\<exists>dss. rmap (\<lambda>x. rbind (f x) (\<lambda>d. Inr [d])) xs = Inr dss \<and> (\<forall>d\<in>set (concat dss). level0 lib n d)
       \<and> (\<Union>d\<in>set (concat dss). dd_paths lib n d) = (\<Union>x\<in>set xs. W x)"
  proof (rule rmap_union)
    fix x assume "x \<in> set xs"
    from assms [OF this] obtain d where "f x = Inr d" "level0 lib n d" "dd_paths lib n d = W x" by blast
    then show "\<exists>ds. rbind (f x) (\<lambda>d. Inr [d]) = Inr ds \<and> (\<forall>d\<in>set ds. level0 lib n d) \<and> (\<Union>d\<in>set ds. dd_paths lib n d) = W x"
      by (intro exI [of _ "[d]"]) simp
  qed
  then obtain dss where "rmap (\<lambda>x. rbind (f x) (\<lambda>d. Inr [d])) xs = Inr dss" "\<forall>d\<in>set (concat dss). level0 lib n d"
    "(\<Union>d\<in>set (concat dss). dd_paths lib n d) = (\<Union>x\<in>set xs. W x)" by blast
  with rmap_single [OF this(1)] show ?thesis by blast
qed

text \<open>The answers to a query, each treated by an assignment that has the same effect on its paths.\<close>

lemma answers_written:
  assumes "answers lib A vo n e d m"
  shows "(\<Union>x\<in>set m. written lib A vo inc n v r (dd_paths lib n (snd x))) = written lib A vo inc n v r (dd_paths lib n d)"
proof -
  have "(\<Union>x\<in>set m. dd_paths lib n (snd x)) = snd ` paths_of lib n m" by (force simp: paths_of_def)
  with assms show ?thesis by (simp add: answers_def flip: written_UN)
qed

lemma answers_entry:
  assumes "answers lib A vo n e d m" "(k, d') \<in> set m"
  obtains w where "good A k" "const_val k = Some w" "dd_level lib n d'" "dd_paths lib n d' \<subseteq> dd_paths lib n d"
    "\<And>p. p \<in> dd_paths lib n d' \<Longrightarrow> value_on vo n p e w"
proof -
  have d': "dd_level lib n d'" using assms by (force simp: answers_def levels_def)
  obtain p where p: "p \<in> dd_paths lib n d'" using dd_paths_nonempty [OF d'] by blast
  have fine: "good A k \<and> (\<exists>v. const_val k = Some v \<and> value_on vo n p e v)" if "p \<in> dd_paths lib n d'" for p
    using assms in_paths_of [OF assms(2) that] by (fastforce simp: answers_def solved_def)
  from fine [OF p] obtain w where w: "good A k" "const_val k = Some w" by blast
  moreover have "dd_paths lib n d' \<subseteq> dd_paths lib n d"
    using assms in_paths_of [OF assms(2)] unfolding answers_def by (metis imageI snd_conv subsetI)
  moreover have "value_on vo n p e w" if "p \<in> dd_paths lib n d'" for p using fine [OF that] w(2) by auto
  ultimately show thesis using that d' by blast
qed

lemma const_unresolved: "good A k \<Longrightarrow> const_val k = Some w \<Longrightarrow> unresolved A v k = isize (gx A v) \<and> mentions (gx A k) = {}"
  using const_val_gx(1) [of A k w] by (auto simp: unresolved_def mentions_def)

text \<open>An answer of a query, substituted in an expression.\<close>

lemma assert_on:
  assumes lin: "linear_less (iless A)" and vo: "order_ok vo" "n \<le> length (go_map vo)"
    and e: "good A e" and s: "good A s" and k: "good A k" "const_val k = Some w"
    and P: "P \<noteq> {}" "\<And>p. p \<in> P \<Longrightarrow> length p = n \<and> value_on vo n p s w \<and> (\<exists>x. value_on vo n p e x)"
  shows "\<exists>e'. IntExpression_setAssertion A (Assertion_of A s k) e = Inr e' \<and> good A e' \<and> mentions (gx A e') \<subseteq> mentions (gx A e)
    \<and> isize (gx A e') \<le> isize (gx A e) \<and> (is_const (gx A e) \<longrightarrow> is_const (gx A e'))
    \<and> (gx A s \<in> indexes (gx A e) \<and> set (getEnv s) \<subseteq> set (getEnv e) \<longrightarrow> isize (gx A e') < isize (gx A e))
    \<and> (\<forall>p\<in>P. \<forall>x. value_on vo n p e x \<longrightarrow> value_on vo n p e' x)"
proof -
  have step: "\<exists>e'. IntExpression_setAssertion A (Assertion_of A s k) e = Inr e' \<and> good A e' \<and> mentions (gx A e') \<subseteq> mentions (gx A e)
    \<and> isize (gx A e') \<le> isize (gx A e) \<and> denote \<gamma> e' = Some x"
    if "p \<in> P" "value_on vo n p e x" "agrees vo n p \<gamma>" for p x \<gamma>
    using setAssertion_any [OF lin e s k, of \<gamma> x] P(2) [OF that(1)] that by (auto simp: value_on_def)
  from P obtain p x where px: "p \<in> P" "value_on vo n p e x" by blast
  with agrees_ex [OF vo] P(2) obtain \<gamma> where \<gamma>: "agrees vo n p \<gamma>" by blast
  from step [OF px \<gamma>] obtain e' where e': "IntExpression_setAssertion A (Assertion_of A s k) e = Inr e'" "good A e'"
    "mentions (gx A e') \<subseteq> mentions (gx A e)" "isize (gx A e') \<le> isize (gx A e)" by blast
  have "is_const (gx A e')" if "is_const (gx A e)"
  proof -
    have "mentions (gx A e) = {}" using that by (auto simp: is_const_iff mentions_def)
    then have "leaves (gx A e') = {}" using e'(3) leaves_mentions by blast
    then show ?thesis using leaves_nonempty [OF canon_gx [OF lin e'(2)]] by blast
  qed
  moreover have "isize (gx A e') < isize (gx A e)" if i: "gx A s \<in> indexes (gx A e)" "set (getEnv s) \<subseteq> set (getEnv e)"
  proof -
    have "supersets (getEnv e) (getEnv s)" using s good_parts [OF s] good_parts [OF e] i(2) by (simp add: supersets_complete)
    from setAssertion_step [OF lin e s this k, of \<gamma> x] px \<gamma> P(2) [OF px(1)] e'(1) i(1)
    show ?thesis by (auto simp: value_on_def resolves_def)
  qed
  moreover have "value_on vo n q e' y" if "q \<in> P" "value_on vo n q e y" for q y
    using step [OF that] e'(1) by (auto simp: value_on_def)
  ultimately show ?thesis using e' by blast
qed

lemma stores_const: "stores lib inc x old w \<Longrightarrow>
    (let sum = (if inc then wrap32 (x + old) else x); newvalue = val_cast lib sum
     in if newvalue \<noteq> sum then Inl (Throw overflow_message) else Inr [dd_node lib vr newvalue child]) = Inr [dd_node lib vr w child]"
  by (auto simp: stores_def Let_def)

definition assign_fuel :: "nat \<Rightarrow> nat \<Rightarrow> nat \<Rightarrow> nat" where
  "assign_fuel b n s = n * (b + 2) + s + 2"

context dd_homs begin

lemma node_level0:
  assumes "level0 lib n c" "taggable vl"
  shows "level0 lib (Suc n) (dd_node lib (int n) vl c)"
    and "dd_paths lib (Suc n) (dd_node lib (int n) vl c) = (\<lambda>p. p @ [vl]) ` dd_paths lib n c"
proof -
  have null: "dd_paths lib n (dd_null lib) = {}" for n using terminals by (cases n) auto
  show "level0 lib (Suc n) (dd_node lib (int n) vl c)" using assms node_level [OF _ assms(2)] node_null
    by (auto simp: level0_def simp del: dd_level.simps)
  show "dd_paths lib (Suc n) (dd_node lib (int n) vl c) = (\<lambda>p. p @ [vl]) ` dd_paths lib n c"
    using assms(1) node_paths node_null null by (auto simp: level0_def simp del: dd_level.simps dd_paths.simps)
qed

lemma assign_edge:
  assumes lin: "linear_less (iless A)" and vo: "order_ok vo" "n < length (go_map vo)"
    and var: "lhs_ok A vo (Suc n) var" and expr: "good A expr" "mentions (gx A expr) \<subseteq> upto vo (Suc n)"
    and child: "dd_level lib n child" "taggable vl"
    and vals: "\<And>p. p \<in> dd_paths lib n child \<Longrightarrow> \<exists>q. writes lib A vo inc (Suc n) var expr (p @ [vl]) q"
    and query: "\<And>s d. askable lib A vo (Suc n) s d \<Longrightarrow> isize (gx A s) \<le> unresolved A var expr \<Longrightarrow>
      \<exists>m. qry s d = Inr m \<and> answers lib A vo (Suc n) s d m"
    and here: "\<And>v e d. assignable lib A vo inc (Suc n) v e d \<Longrightarrow> unresolved A v e < unresolved A var expr \<Longrightarrow>
      yields lib (Suc n) (asg v e) d (written lib A vo inc (Suc n) v e (dd_paths lib (Suc n) d))"
    and down: "\<And>v e. assignable lib A vo inc n v e child \<Longrightarrow> unresolved A v e \<le> unresolved A var expr \<Longrightarrow>
      yields lib n (asg v e) child (written lib A vo inc n v e (dd_paths lib n child))"
  shows "\<exists>ds. Assign_edge lib A qry asg var expr inc (int n) (go_map vo ! n) (vl, child) = Inr ds
    \<and> (\<forall>d\<in>set ds. level0 lib (Suc n) d)
    \<and> (\<Union>d\<in>set ds. dd_paths lib (Suc n) d) = written lib A vo inc (Suc n) var expr ((\<lambda>p. p @ [vl]) ` dd_paths lib n child)"
proof -
  define curv where "curv = go_map vo ! n"
  define l where "l = locs vo ! n"
  define P where "P = dd_paths lib n child"
  define nd where "nd = dd_node lib (int n) vl child"
  define W where "W = (\<lambda>v e. written lib A vo inc (Suc n) v e)"
  note o = order_var [OF vo, folded curv_def l_def]
  have node: "dd_level lib (Suc n) nd" "dd_paths lib (Suc n) nd = (\<lambda>p. p @ [vl]) ` P"
    using node_level [OF child] node_paths [OF child(1), of vl] by (simp_all add: nd_def P_def)
  have P: "P \<noteq> {}" "length p = n" if "p \<in> P" for p
    using that dd_paths_length by (auto simp: P_def)
  have P0: "P \<noteq> {}" using dd_paths_nonempty [OF child(1)] by (simp add: P_def)
  have Sn: "Suc n \<le> length (go_map vo)" using vo(2) by simp
  have Q: "\<exists>q. writes lib A vo inc (Suc n) var expr p q" "length p = Suc n" if "p \<in> dd_paths lib (Suc n) nd" for p
    using that vals P(2) unfolding node(2) P_def by auto
  have tv: "\<exists>t. target_on A vo (Suc n) (p @ [vl]) var t" "\<exists>x. value_on vo (Suc n) (p @ [vl]) expr x" if "p \<in> P" for p
    using vals [of p] that by (auto simp: P_def writes_def)
  obtain e where e: "(if touches l (gx A expr) then IntExpression_setAssertion A (edge_assertion A curv vl) expr else Inr expr) = Inr e"
    "good A e" "isize (gx A e) \<le> isize (gx A expr)" "mentions (gx A e) \<subseteq> mentions (gx A expr)"
    "\<And>p v. p \<in> P \<Longrightarrow> value_on vo (Suc n) (p @ [vl]) expr v \<Longrightarrow> value_on vo (Suc n) (p @ [vl]) e v"
    "l \<notin> leaves (gx A e)" "is_const (gx A expr) \<Longrightarrow> expr = e"
    using edge_assert [OF lin vo expr(1) P0 P(2) child(2) tv(2), folded curv_def l_def] by metis
  obtain v where v: "(if IntExpression_getType var = ARRAY \<and> touches l (gx A var)
      then IntExpression_setAssertion A (edge_assertion A curv vl) var else Inr var) = Inr v"
    "lhs_ok A vo (Suc n) v" "isize (gx A v) \<le> isize (gx A var)"
    "\<And>p t. p \<in> P \<Longrightarrow> target_on A vo (Suc n) (p @ [vl]) var t \<Longrightarrow> target_on A vo (Suc n) (p @ [vl]) v t"
    using edge_lhs [OF lin vo var P0 P(2) child(2) tv(1), folded curv_def l_def] by metis
  have em: "mentions (gx A e) \<subseteq> upto vo (Suc n)" using e(4) expr(2) by blast
  have less: "unresolved A v e \<le> unresolved A var expr" using e(3,7) v(3) by (auto simp: unresolved_def)
  have good: "good A v" and goodvar: "good A var" using v(2) var by (simp_all add: lhs_ok_def)
  text \<open>the simplified sides do the same\<close>
  have same: "writes lib A vo inc (Suc n) v e p q \<longleftrightarrow> writes lib A vo inc (Suc n) var expr p q"
    if p: "p \<in> dd_paths lib (Suc n) nd" for p q
  proof -
    from Q [OF p] obtain q0 where q0: "writes lib A vo inc (Suc n) var expr p q0" by blast
    from p obtain p' where p': "p = p' @ [vl]" "p' \<in> P" by (auto simp: node(2) simp del: dd_paths.simps)
    show ?thesis
      by (rule writes_cong [OF vo(1) Sn Q(2) [OF p] _ _ q0]) (use p' v(4) e(5) in auto)
  qed
  have goal: "W v e (dd_paths lib (Suc n) nd) = W var expr ((\<lambda>p. p @ [vl]) ` P)"
    unfolding W_def written_def using same by (auto simp: node(2) simp del: dd_paths.simps)
  have Qve: "\<exists>q. writes lib A vo inc (Suc n) v e p q" if "p \<in> dd_paths lib (Suc n) nd" for p using Q(1) [OF that] same [OF that] by blast
  note supp = isSupport_touches(1) [OF o(1,2)]
  text \<open>the answers of a query on this edge, each assigned\<close>
  have solve: "\<exists>ds. rmap g m = Inr ds \<and> (\<forall>d\<in>set ds. level0 lib (Suc n) d)
      \<and> (\<Union>d\<in>set ds. dd_paths lib (Suc n) d) = W v e (dd_paths lib (Suc n) nd)"
    if m: "answers lib A vo (Suc n) s nd m"
      and g: "\<And>k w d. good A k \<Longrightarrow> const_val k = Some w \<Longrightarrow> dd_level lib (Suc n) d \<Longrightarrow> dd_paths lib (Suc n) d \<subseteq> dd_paths lib (Suc n) nd
        \<Longrightarrow> (\<And>p. p \<in> dd_paths lib (Suc n) d \<Longrightarrow> value_on vo (Suc n) p s w) \<Longrightarrow>
        \<exists>v' e'. g (k, d) = rbind (asg v' e') (\<lambda>h. hom_app lib h d) \<and> lhs_ok A vo (Suc n) v' \<and> good A e' \<and> mentions (gx A e') \<subseteq> upto vo (Suc n)
          \<and> unresolved A v' e' < unresolved A v e
          \<and> (\<forall>p\<in>dd_paths lib (Suc n) d. (\<forall>t. target_on A vo (Suc n) p v t \<longrightarrow> target_on A vo (Suc n) p v' t)
               \<and> (\<forall>x. value_on vo (Suc n) p e x \<longrightarrow> value_on vo (Suc n) p e' x))"
    for g m s
  proof -
    have "\<exists>ds. rmap g m = Inr ds \<and> (\<forall>d\<in>set ds. level0 lib (Suc n) d)
        \<and> (\<Union>d\<in>set ds. dd_paths lib (Suc n) d) = (\<Union>x\<in>set m. W v e (dd_paths lib (Suc n) (snd x)))"
    proof (rule rmap_yields)
      fix x assume x: "x \<in> set m"
      obtain k d where kd: "x = (k, d)" by (cases x)
      from answers_entry [OF m x [unfolded kd]] obtain w where w: "good A k" "const_val k = Some w" "dd_level lib (Suc n) d"
        "dd_paths lib (Suc n) d \<subseteq> dd_paths lib (Suc n) nd" "\<And>p. p \<in> dd_paths lib (Suc n) d \<Longrightarrow> value_on vo (Suc n) p s w" by blast
      from g [OF w] obtain v' e' where ve: "g (k, d) = rbind (asg v' e') (\<lambda>h. hom_app lib h d)" "lhs_ok A vo (Suc n) v'" "good A e'"
        "mentions (gx A e') \<subseteq> upto vo (Suc n)" "unresolved A v' e' < unresolved A v e"
        "\<And>p t. p \<in> dd_paths lib (Suc n) d \<Longrightarrow> target_on A vo (Suc n) p v t \<Longrightarrow> target_on A vo (Suc n) p v' t"
        "\<And>p x. p \<in> dd_paths lib (Suc n) d \<Longrightarrow> value_on vo (Suc n) p e x \<Longrightarrow> value_on vo (Suc n) p e' x" by blast
      have eq: "writes lib A vo inc (Suc n) v' e' p q \<longleftrightarrow> writes lib A vo inc (Suc n) v e p q" if p: "p \<in> dd_paths lib (Suc n) d" for p q
      proof -
        have "p \<in> dd_paths lib (Suc n) nd" using p w(4) by blast
        from Qve [OF this] obtain q0 where "writes lib A vo inc (Suc n) v e p q0" by blast
        from writes_cong [OF vo(1) Sn dd_paths_length [OF p] ve(6) [OF p] ve(7) [OF p] this] show ?thesis by blast
      qed
      have "assignable lib A vo inc (Suc n) v' e' d"
        unfolding assignable_def using ve(2-4) Sn w(3,4) Qve eq by blast
      from here [OF this] ve(5) less have "yields lib (Suc n) (asg v' e') d (written lib A vo inc (Suc n) v' e' (dd_paths lib (Suc n) d))" by simp
      moreover have "written lib A vo inc (Suc n) v' e' (dd_paths lib (Suc n) d) = W v e (dd_paths lib (Suc n) d)"
        using eq by (auto simp: written_def W_def)
      ultimately show "\<exists>d. g x = Inr d \<and> level0 lib (Suc n) d \<and> dd_paths lib (Suc n) d = W v e (dd_paths lib (Suc n) (snd x))"
        using ve(1) by (simp add: kd yields_def)
    qed
    then show ?thesis unfolding W_def answers_written [OF m] .
  qed
  have ask: "\<exists>m. qry s nd = Inr m \<and> answers lib A vo (Suc n) s nd m"
    if "good A s" "mentions (gx A s) \<subseteq> upto vo (Suc n)" "isize (gx A s) \<le> unresolved A v e"
      "\<And>p. p \<in> dd_paths lib (Suc n) nd \<Longrightarrow> \<exists>x. value_on vo (Suc n) p s x" for s
  proof (rule query)
    show "askable lib A vo (Suc n) s nd" unfolding askable_def using that(1,2,4) Sn node(1) by blast
    show "isize (gx A s) \<le> unresolved A var expr" using that(3) less by linarith
  qed
  have has: "(if IntExpression_getType x = ARRAY then IntExpression_isSupport curv x else Inr False)
      = Inr (IntExpression_getType x = ARRAY \<and> touches l (gx A x))" if "good A x" for x
    by (simp add: supp [OF that])
  define sv where "sv = IntExpression_getFirstSubExpr A v"
  define se where "se = IntExpression_getFirstSubExpr A e"
  have edge: "Assign_edge lib A qry asg var expr inc (int n) curv (vl, child) =
     (if v = curv then
        if IntExpression_getType e = INTCONST then
          rbind (IntExpression_getValue e) (\<lambda>k.
            let sum = (if inc then wrap32 (k + vl) else k); newvalue = val_cast lib sum
            in if newvalue \<noteq> sum then Inl (Throw overflow_message) else Inr [dd_node lib (int n) newvalue child])
        else rbind (qry e nd) (rmap (\<lambda>(k, d). rbind (asg v k) (\<lambda>h. hom_app lib h d)))
      else if IntExpression_getType v = ARRAY \<and> touches l (gx A v) then
        rbind (qry sv nd) (rmap (\<lambda>(k, d).
          rbind (IntExpression_setAssertion A (Assertion_of A sv k) v) (\<lambda>v'.
          rbind (IntExpression_setAssertion A (Assertion_of A sv k) e) (\<lambda>e'.
          rbind (asg v' e') (\<lambda>h. hom_app lib h d)))))
      else if touches l (gx A e) then
        rbind (qry se nd) (rmap (\<lambda>(k, d).
          rbind (IntExpression_setAssertion A (Assertion_of A se k) e) (\<lambda>e'.
          rbind (asg v e') (\<lambda>h. hom_app lib h d))))
      else rbind (asg v e) (\<lambda>h. rbind (hom_app lib h child) (\<lambda>c. Inr [dd_node lib (int n) vl c])))"
    unfolding Assign_edge_def
    by (simp only: Let_def prod.case supp [OF expr(1)] supp [OF e(2)] has [OF goodvar] has [OF good] rbind_Inr e(1) v(1)
        sv_def se_def nd_def)
  have rest: "\<exists>ds. Assign_edge lib A qry asg var expr inc (int n) curv (vl, child) = Inr ds \<and> (\<forall>d\<in>set ds. level0 lib (Suc n) d)
    \<and> (\<Union>d\<in>set ds. dd_paths lib (Suc n) d) = W v e (dd_paths lib (Suc n) nd)"
  proof -
    consider (hit) "v = curv" "is_const (gx A e)" | (rhs) "v = curv" "\<not> is_const (gx A e)"
      | (nested) "v \<noteq> curv" "IntExpression_getType v = ARRAY" "touches l (gx A v)"
      | (unresolved) "v \<noteq> curv" "\<not> (IntExpression_getType v = ARRAY \<and> touches l (gx A v))" "touches l (gx A e)"
      | (pass) "v \<noteq> curv" "\<not> (IntExpression_getType v = ARRAY \<and> touches l (gx A v))" "\<not> touches l (gx A e)" by blast
    then show ?thesis
    proof cases
      case hit
      from const_of_gx [OF lin e(2) hit(2)] obtain c where c: "const_val e = Some c" by blast
      have tl: "target_on A vo (Suc n) p v l" for p
        using eloc_gx(2) [OF o(1,2), of A] by (cases "gx A curv") (auto simp: target_on_def hit(1))
      have w: "\<exists>w. stores lib inc c vl w \<and> q = p @ [w]" if p: "p \<in> P" and q: "writes lib A vo inc (Suc n) v e (p @ [vl]) q" for p q
      proof -
        from q obtain j x w where j: "j < Suc n" "target_on A vo (Suc n) (p @ [vl]) v (locs vo ! j)" "value_on vo (Suc n) (p @ [vl]) e x"
          "stores lib inc x ((p @ [vl]) ! j) w" "q = (p @ [vl])[j := w]" by (auto simp: writes_def)
        have len: "length (p @ [vl]) = Suc n" using P(2) [OF p] by simp
        from target_on_unique [OF vo(1) Sn len j(2) tl] have "locs vo ! j = locs vo ! n" by (simp only: l_def)
        then have "j = n" using locs_inj [OF vo(1), of j n] j(1) vo(2) by simp
        moreover have "x = c" by (rule value_on_unique [OF vo(1) Sn len j(3) value_on_const [OF e(2) c]])
        ultimately show ?thesis using j(4,5) P(2) [OF p] by auto
      qed
      from P0 obtain p0 where p0: "p0 \<in> P" by blast
      have Qve': "\<exists>q. writes lib A vo inc (Suc n) v e (p @ [vl]) q" if "p \<in> P" for p using Qve [of "p @ [vl]"] that node(2) by auto
      from Qve' [OF p0] w [OF p0] obtain k where k: "stores lib inc c vl k" by blast
      have unique: "k' = k" if "stores lib inc c vl k'" for k' using that k by (simp add: stores_def)
      have new: "W v e (dd_paths lib (Suc n) nd) = (\<lambda>p. p @ [k]) ` P"
      proof -
        have "writes lib A vo inc (Suc n) v e (p @ [vl]) q \<longleftrightarrow> q = p @ [k]" if "p \<in> P" for p q
          using w [OF that] Qve' [OF that] unique by metis
        then show ?thesis unfolding W_def written_def node(2) by auto
      qed
      note const = const_val_gx(2) [OF e(2) c]
      have "Assign_edge lib A qry asg var expr inc (int n) curv (vl, child) = Inr [dd_node lib (int n) k child]"
        unfolding edge using hit(1) const stores_const [OF k] by (simp add: Let_def)
      moreover have "taggable k" using k unfolding stores_def by blast
      ultimately show ?thesis using node_level [OF child(1)] node_paths [OF child(1), of k] new
        by (simp add: level0_def P_def del: dd_level.simps dd_paths.simps)
    next
      case rhs
      have small: "isize (gx A e) \<le> unresolved A v e" using rhs(2) by (simp add: unresolved_def)
      have vals: "\<exists>x. value_on vo (Suc n) p e x" if "p \<in> dd_paths lib (Suc n) nd" for p using Qve [OF that] by (auto simp: writes_def)
      from ask [OF e(2) em small vals] obtain m where m: "qry e nd = Inr m" "answers lib A vo (Suc n) e nd m" by blast
      have pos: "0 < isize (gx A e)" by (rule Suc_le_lessD) simp
      have "\<exists>ds. rmap (\<lambda>(k, d). rbind (asg v k) (\<lambda>h. hom_app lib h d)) m = Inr ds \<and> (\<forall>d\<in>set ds. level0 lib (Suc n) d)
          \<and> (\<Union>d\<in>set ds. dd_paths lib (Suc n) d) = W v e (dd_paths lib (Suc n) nd)"
      proof (rule solve [OF m(2)])
        fix k w d assume k: "good A k" "const_val k = Some w" "dd_paths lib (Suc n) d \<subseteq> dd_paths lib (Suc n) nd"
          "\<And>p. p \<in> dd_paths lib (Suc n) d \<Longrightarrow> value_on vo (Suc n) p e w"
        have "value_on vo (Suc n) p k x" if "p \<in> dd_paths lib (Suc n) d" "value_on vo (Suc n) p e x" for p x
          using value_on_unique [OF vo(1) Sn dd_paths_length [OF that(1)] that(2) k(4) [OF that(1)]] value_on_const [OF k(1,2)] by simp
        moreover have "unresolved A v k < unresolved A v e"
          using const_unresolved [OF k(1,2), of v] rhs(2) pos by (simp add: unresolved_def)
        ultimately show "\<exists>v' e'. (case (k, d) of (k, d) \<Rightarrow> rbind (asg v k) (\<lambda>h. hom_app lib h d)) = rbind (asg v' e') (\<lambda>h. hom_app lib h d)
            \<and> lhs_ok A vo (Suc n) v' \<and> good A e' \<and> mentions (gx A e') \<subseteq> upto vo (Suc n) \<and> unresolved A v' e' < unresolved A v e
            \<and> (\<forall>p\<in>dd_paths lib (Suc n) d. (\<forall>t. target_on A vo (Suc n) p v t \<longrightarrow> target_on A vo (Suc n) p v' t)
               \<and> (\<forall>x. value_on vo (Suc n) p e x \<longrightarrow> value_on vo (Suc n) p e' x))"
          using v(2) k(1) const_unresolved [OF k(1,2)] by (intro exI [of _ v] exI [of _ k]) simp
      qed
      then show ?thesis unfolding edge using rhs m(1) getType_gx [OF e(2)] by simp
    next
      case nested
      from nested(2) obtain a i m where acc: "gx A v = ArrayVarExpr a i m" using getType_ARRAY by blast
      have "accesses (gx A v) \<noteq> {}" by (simp add: acc)
      note s = getFirstSubExpr_sub [OF lin good this, folded sv_def]
      have i: "gx A sv = i" unfolding sv_def by (rule gx_first_index [OF lin good acc])
      have free: "free_of a i" using v(2) acc nested by (auto simp: lhs_ok_def getType_ARRAY elim!: eloc_cases)
      note canon = canon_gx [OF lin good]
      have im: "mentions i \<subseteq> upto vo (Suc n)" using index_mentions [OF s(2) canon] v(2) by (auto simp: i lhs_ok_def)
      have vals: "\<exists>x. value_on vo (Suc n) p sv x" if pp: "p \<in> dd_paths lib (Suc n) nd" for p
      proof -
        from Qve [OF pp] obtain t where t: "target_on A vo (Suc n) p v t" by (auto simp: writes_def)
        obtain \<gamma> where \<gamma>: "agrees vo (Suc n) p \<gamma>" using agrees_ex [OF vo(1) Sn dd_paths_length [OF pp]] by blast
        with t obtain x where x: "isem \<gamma> i = Some x" by (auto simp: target_on_def acc split: option.splits)
        have "isem \<delta> i = Some x" if "agrees vo (Suc n) p \<delta>" for \<delta>
          using agrees_isem [OF _ im \<gamma> that, of A] canon_gx [OF lin s(1)] x by (simp add: i)
        then show ?thesis by (auto simp: value_on_def denote_gx [OF s(1)] i)
      qed
      have "isize (gx A sv) \<le> unresolved A v e" by (simp add: unresolved_def acc i)
      from ask [OF s(1) _ this vals] im obtain m where m: "qry sv nd = Inr m" "answers lib A vo (Suc n) sv nd m" by (auto simp: i)
      have other: "\<not> is_access_to a (gx A sv)" using free by (cases i) (auto simp: i free_of_def)
      have "\<exists>ds. rmap (\<lambda>(k, d). rbind (IntExpression_setAssertion A (Assertion_of A sv k) v) (\<lambda>v'.
            rbind (IntExpression_setAssertion A (Assertion_of A sv k) e) (\<lambda>e'. rbind (asg v' e') (\<lambda>h. hom_app lib h d)))) m = Inr ds
          \<and> (\<forall>d\<in>set ds. level0 lib (Suc n) d) \<and> (\<Union>d\<in>set ds. dd_paths lib (Suc n) d) = W v e (dd_paths lib (Suc n) nd)"
      proof (rule solve [OF m(2)])
        fix k w d assume k: "good A k" "const_val k = Some w" and d: "dd_level lib (Suc n) d"
          "dd_paths lib (Suc n) d \<subseteq> dd_paths lib (Suc n) nd" "\<And>p. p \<in> dd_paths lib (Suc n) d \<Longrightarrow> value_on vo (Suc n) p sv w"
        have fine: "length p = Suc n \<and> value_on vo (Suc n) p sv w \<and> (\<exists>t. target_on A vo (Suc n) p v t) \<and> (\<exists>x. value_on vo (Suc n) p e x)"
          if "p \<in> dd_paths lib (Suc n) d" for p using dd_paths_length [OF that] d(3) [OF that] Qve d(2) that by (fastforce simp: writes_def)
        note P = dd_paths_nonempty [OF d(1)]
        from lhs_assert [OF lin vo(1) Sn v(2) acc s(1,3) k _ P] other fine obtain v' where v':
          "IntExpression_setAssertion A (Assertion_of A sv k) v = Inr v'" "lhs_ok A vo (Suc n) v'" "isize (gx A v') < isize (gx A v)"
          "\<forall>p\<in>dd_paths lib (Suc n) d. \<forall>t. target_on A vo (Suc n) p v t \<longrightarrow> target_on A vo (Suc n) p v' t" unfolding i by blast
        from assert_on [OF lin vo(1) Sn e(2) s(1) k P] fine obtain e' where e':
          "IntExpression_setAssertion A (Assertion_of A sv k) e = Inr e'" "good A e'" "mentions (gx A e') \<subseteq> mentions (gx A e)"
          "isize (gx A e') \<le> isize (gx A e)" "is_const (gx A e) \<longrightarrow> is_const (gx A e')"
          "\<forall>p\<in>dd_paths lib (Suc n) d. \<forall>x. value_on vo (Suc n) p e x \<longrightarrow> value_on vo (Suc n) p e' x" by blast
        have "unresolved A v' e' < unresolved A v e" using v'(3) e'(4,5) by (auto simp: unresolved_def)
        with v' e' em show "\<exists>v' e'. (case (k, d) of (k, d) \<Rightarrow> rbind (IntExpression_setAssertion A (Assertion_of A sv k) v) (\<lambda>v'.
            rbind (IntExpression_setAssertion A (Assertion_of A sv k) e) (\<lambda>e'. rbind (asg v' e') (\<lambda>h. hom_app lib h d))))
              = rbind (asg v' e') (\<lambda>h. hom_app lib h d) \<and> lhs_ok A vo (Suc n) v' \<and> good A e' \<and> mentions (gx A e') \<subseteq> upto vo (Suc n) \<and> unresolved A v' e' < unresolved A v e
            \<and> (\<forall>p\<in>dd_paths lib (Suc n) d. (\<forall>t. target_on A vo (Suc n) p v t \<longrightarrow> target_on A vo (Suc n) p v' t)
               \<and> (\<forall>x. value_on vo (Suc n) p e x \<longrightarrow> value_on vo (Suc n) p e' x))"
          by (intro exI [of _ v'] exI [of _ e']) auto
      qed
      then show ?thesis unfolding edge using nested m(1) by simp
    next
      case unresolved
      have "accesses (gx A e) \<noteq> {}" by (rule still_touched [OF vo em]) (use e(6) unresolved(3) in \<open>simp_all add: l_def\<close>)
      note s = getFirstSubExpr_sub [OF lin e(2) this, folded se_def]
      have sm: "mentions (gx A se) \<subseteq> upto vo (Suc n)" using index_mentions [OF s(2) canon_gx [OF lin e(2)]] em by blast
      have small: "isize (gx A se) < isize (gx A e)" by (rule indexes_size [OF s(2)])
      have nonconst: "\<not> is_const (gx A e)" using s(2) by (auto simp: is_const_iff)
      have vals: "\<exists>x. value_on vo (Suc n) p se x" if p: "p \<in> dd_paths lib (Suc n) nd" for p
      proof -
        from Qve [OF p] obtain x where "value_on vo (Suc n) p e x" by (auto simp: writes_def)
        then show ?thesis using index_value [OF lin vo(1) Sn dd_paths_length [OF p] e(2) em _ s(1,2)] by blast
      qed
      have "isize (gx A se) \<le> unresolved A v e" using small nonconst by (simp add: unresolved_def)
      from ask [OF s(1) sm this vals] obtain m where m: "qry se nd = Inr m" "answers lib A vo (Suc n) se nd m" by blast
      have "\<exists>ds. rmap (\<lambda>(k, d). rbind (IntExpression_setAssertion A (Assertion_of A se k) e) (\<lambda>e'.
            rbind (asg v e') (\<lambda>h. hom_app lib h d))) m = Inr ds
          \<and> (\<forall>d\<in>set ds. level0 lib (Suc n) d) \<and> (\<Union>d\<in>set ds. dd_paths lib (Suc n) d) = W v e (dd_paths lib (Suc n) nd)"
      proof (rule solve [OF m(2)])
        fix k w d assume k: "good A k" "const_val k = Some w" and d: "dd_level lib (Suc n) d"
          "dd_paths lib (Suc n) d \<subseteq> dd_paths lib (Suc n) nd" "\<And>p. p \<in> dd_paths lib (Suc n) d \<Longrightarrow> value_on vo (Suc n) p se w"
        have fine: "length p = Suc n \<and> value_on vo (Suc n) p se w \<and> (\<exists>x. value_on vo (Suc n) p e x)"
          if "p \<in> dd_paths lib (Suc n) d" for p using dd_paths_length [OF that] d(3) [OF that] Qve d(2) that by (fastforce simp: writes_def)
        from assert_on [OF lin vo(1) Sn e(2) s(1) k dd_paths_nonempty [OF d(1)]] fine s(2,3) obtain e' where e':
          "IntExpression_setAssertion A (Assertion_of A se k) e = Inr e'" "good A e'" "mentions (gx A e') \<subseteq> mentions (gx A e)"
          "isize (gx A e') < isize (gx A e)"
          "\<forall>p\<in>dd_paths lib (Suc n) d. \<forall>x. value_on vo (Suc n) p e x \<longrightarrow> value_on vo (Suc n) p e' x" by blast
        have "unresolved A v e' < unresolved A v e" using e'(4) nonconst by (auto simp: unresolved_def)
        with v(2) e' em show "\<exists>v' e'. (case (k, d) of (k, d) \<Rightarrow> rbind (IntExpression_setAssertion A (Assertion_of A se k) e) (\<lambda>e'.
            rbind (asg v e') (\<lambda>h. hom_app lib h d))) = rbind (asg v' e') (\<lambda>h. hom_app lib h d) \<and> lhs_ok A vo (Suc n) v' \<and> good A e' \<and> mentions (gx A e') \<subseteq> upto vo (Suc n) \<and> unresolved A v' e' < unresolved A v e
            \<and> (\<forall>p\<in>dd_paths lib (Suc n) d. (\<forall>t. target_on A vo (Suc n) p v t \<longrightarrow> target_on A vo (Suc n) p v' t)
               \<and> (\<forall>x. value_on vo (Suc n) p e x \<longrightarrow> value_on vo (Suc n) p e' x))"
          by (intro exI [of _ v] exI [of _ e']) auto
      qed
      then show ?thesis unfolding edge using unresolved m(1) by auto
    next
      case pass
      have em': "mentions (gx A e) \<subseteq> upto vo n" by (rule touched_only [OF em vo(2)]) (use pass(3) in \<open>simp add: l_def\<close>)
      have vm: "mentions (gx A v) \<subseteq> upto vo n"
      proof (cases "eloc v")
        case (Some l')
        with v(2) have ok: "ie_ok v" by (simp add: lhs_ok_def good_def)
        have ne: "l' \<noteq> l" using Some pass(1) eloc_inj o(1) by blast
        have ment: "mentions (gx A v) = {l'}" using eloc_gx(2) [OF Some ok, of A] by (cases "gx A v") (auto simp: mentions_def)
        with v(2) have "l' \<in> upto vo (Suc n)" by (simp add: lhs_ok_def)
        with ne have "l' \<in> upto vo n" by (simp add: upto_Suc [OF vo(2)] l_def)
        with ment show ?thesis by simp
      next
        case None
        with v(2) have "IntExpression_getType v = ARRAY" unfolding lhs_ok_def getType_ARRAY [of v A] by blast
        with pass(2) have "\<not> touches l (gx A v)" by blast
        then show ?thesis using touched_only [of "gx A v" vo n] v(2) vo(2) by (simp add: lhs_ok_def l_def)
      qed
      have lhs: "lhs_ok A vo n v" using v(2) vm by (simp add: lhs_ok_def)
      have lift: "\<exists>q. writes lib A vo inc n v e p q" if p: "p \<in> P" for p
      proof -
        have "p @ [vl] \<in> dd_paths lib (Suc n) nd" using p by (simp add: node(2) del: dd_paths.simps)
        from Qve [OF this] show ?thesis using writes_append [OF lin vo P(2) [OF p] good vm e(2) em'] by blast
      qed
      have "assignable lib A vo inc n v e child"
        unfolding assignable_def using lhs e(2) em' vo(2) child(1) lift by (simp add: P_def)
      from down [OF this less] obtain c where c: "rbind (asg v e) (\<lambda>h. hom_app lib h child) = Inr c" "level0 lib n c"
        "dd_paths lib n c = written lib A vo inc n v e P" by (auto simp: yields_def P_def)
      have "Assign_edge lib A qry asg var expr inc (int n) curv (vl, child) = Inr [dd_node lib (int n) vl c]"
        unfolding edge using pass c(1) by (auto simp: rbind_eq_Inr_iff)
      moreover note node_level0 [OF c(2) child(2)]
      moreover have "W v e (dd_paths lib (Suc n) nd) = (\<lambda>p. p @ [vl]) ` written lib A vo inc n v e P"
        unfolding W_def node(2) by (rule written_append [OF lin vo P(2) good vm e(2) em'])
      ultimately show ?thesis using c(3) by (simp del: dd_paths.simps)
    qed
  qed
  then show ?thesis using goal unfolding W_def P_def curv_def by simp
qed

section \<open>The recursion\<close>

lemma assign_apply:
  assumes lin: "linear_less (iless A)" and vo: "order_ok vo"
    and query: "\<And>n s d. askable lib A vo n s d \<Longrightarrow> query_fuel b n (isize (gx A s)) \<le> m \<Longrightarrow> isize (gx A s) \<le> b \<Longrightarrow> 0 < n \<Longrightarrow>
      \<exists>r. qry s d = Inr r \<and> answers lib A vo n s d r"
    and asg: "\<And>n v e d. assignable lib A vo inc n v e d \<Longrightarrow> unresolved A v e \<le> b \<Longrightarrow>
      assign_fuel b n (unresolved A v e) \<le> m \<Longrightarrow>
      yields lib n (asg v e) d (written lib A vo inc n v e (dd_paths lib n d))"
    and b: "unresolved A var e \<le> b"
  shows "assignable lib A vo inc n var e d \<Longrightarrow> assign_fuel b n (unresolved A var e) \<le> Suc m \<Longrightarrow>
    yields lib n (Inr (hom_of lib (Assign_skip vo var e) (Assign_eval lib A vo qry asg var e inc))) d
      (written lib A vo inc n var e (dd_paths lib n d))"
proof (induction n arbitrary: d)
  case 0
  then have d: "dd_level lib 0 d" and w: "\<forall>p\<in>dd_paths lib 0 d. \<exists>q. writes lib A vo inc 0 var e p q"
    unfolding assignable_def by blast+
  from dd_paths_nonempty [OF d] w show ?case by (auto simp: writes_def)
next
  case (Suc n)
  define h where "h = hom_of lib (Assign_skip vo var e) (Assign_eval lib A vo qry asg var e inc)"
  define l where "l = locs vo ! n"
  from Suc.prems(1) have var: "lhs_ok A vo (Suc n) var" and e: "good A e" "mentions (gx A e) \<subseteq> upto vo (Suc n)"
    and n: "n < length (go_map vo)" and d: "dd_level lib (Suc n) d"
    and writes: "\<And>p. p \<in> dd_paths lib (Suc n) d \<Longrightarrow> \<exists>q. writes lib A vo inc (Suc n) var e p q"
    by (auto simp: assignable_def simp del: dd_level.simps dd_paths.simps)
  have good: "good A var" and vm: "mentions (gx A var) \<subseteq> upto vo (Suc n)" using var by (simp_all add: lhs_ok_def)
  have node: "d \<notin> {dd_null lib, dd_one lib, dd_top lib}" "dd_variable lib d = int n" using d by simp_all
  have arc: "taggable x \<and> dd_level lib n c" if "(x, c) \<in> set (dd_arcs lib d)" for x c using d that by auto
  have paths: "dd_paths lib (Suc n) d = (\<Union>x\<in>set (dd_arcs lib d). (\<lambda>p. p @ [fst x]) ` dd_paths lib n (snd x))" using node(1) by simp
  note o = order_var [OF vo n]
  note supp = isSupport_touches(1) [OF o(1,2)]
  have skip: "Assign_skip vo var e (dd_variable lib d) = Inr (\<not> touches l (gx A var) \<and> \<not> touches l (gx A e))"
    using n by (simp add: Assign_skip_def out_of_order_def node(2) o(3) supp [OF good] supp [OF e(1)] l_def)
  have add: "yields lib (Suc n) (Inr h) d (written lib A vo inc (Suc n) var e (dd_paths lib (Suc n) d))"
    if ds: "hom_app lib h d = Inr (dd_add lib ds)" "\<forall>d\<in>set ds. level0 lib (Suc n) d"
      "(\<Union>d\<in>set ds. dd_paths lib (Suc n) d)
        = (\<Union>x\<in>set (dd_arcs lib d). written lib A vo inc (Suc n) var e ((\<lambda>p. p @ [fst x]) ` dd_paths lib n (snd x)))" for ds
    using add_level [of ds "Suc n"] add_paths [of ds "Suc n"] ds
    by (simp add: yields_def paths written_UN del: dd_paths.simps)
  show ?case
  proof (cases "\<not> touches l (gx A var) \<and> \<not> touches l (gx A e)")
    case True
    have vm': "mentions (gx A var) \<subseteq> upto vo n" "mentions (gx A e) \<subseteq> upto vo n"
      using touched_only [OF vm n] touched_only [OF e(2) n] True by (simp_all add: l_def)
    note app = writes_append [OF lin vo n _ good vm'(1) e(1) vm'(2)]
    have each: "\<exists>c'. (case x of (v, c) \<Rightarrow> rbind (hom_app lib h c) (\<lambda>c'. Inr (dd_node lib (dd_variable lib d) v c'))) = Inr c'
        \<and> level0 lib (Suc n) c'
        \<and> dd_paths lib (Suc n) c' = written lib A vo inc (Suc n) var e ((\<lambda>p. p @ [fst x]) ` dd_paths lib n (snd x))"
      if x: "x \<in> set (dd_arcs lib d)" for x
    proof -
      obtain v c where vc: "x = (v, c)" by (cases x)
      note a = arc [OF x [unfolded vc]]
      have "\<exists>q. writes lib A vo inc n var e p q" if p: "p \<in> dd_paths lib n c" for p
      proof -
        have "p @ [v] \<in> dd_paths lib (Suc n) d" unfolding paths using x p by (force simp: vc)
        from writes [OF this] app [OF dd_paths_length [OF p]] show ?thesis by blast
      qed
      then have "assignable lib A vo inc n var e c"
        using var vm' e(1) n a by (simp add: assignable_def lhs_ok_def)
      from Suc.IH [OF this] Suc.prems(2) obtain c' where c': "hom_app lib h c = Inr c'" "level0 lib n c'"
        "dd_paths lib n c' = written lib A vo inc n var e (dd_paths lib n c)"
        by (auto simp: yields_def assign_fuel_def simp flip: h_def)
      note node_level0 [OF c'(2) conjunct1 [OF a]]
      moreover have "written lib A vo inc (Suc n) var e ((\<lambda>p. p @ [v]) ` dd_paths lib n c)
          = (\<lambda>p. p @ [v]) ` written lib A vo inc n var e (dd_paths lib n c)"
        by (rule written_append [OF lin vo n dd_paths_length good vm'(1) e(1) vm'(2)])
      ultimately show ?thesis using c'(1,3) by (simp add: vc node(2) del: dd_paths.simps)
    qed
    have "\<exists>ds. rmap (\<lambda>(v, c). rbind (hom_app lib h c) (\<lambda>c'. Inr (dd_node lib (dd_variable lib d) v c'))) (dd_arcs lib d) = Inr ds
        \<and> (\<forall>d\<in>set ds. level0 lib (Suc n) d) \<and> (\<Union>d\<in>set ds. dd_paths lib (Suc n) d)
        = (\<Union>x\<in>set (dd_arcs lib d). written lib A vo inc (Suc n) var e ((\<lambda>p. p @ [fst x]) ` dd_paths lib n (snd x)))"
      by (rule rmap_yields) (rule each)
    then obtain ds where ds: "rmap (\<lambda>(v, c). rbind (hom_app lib h c) (\<lambda>c'. Inr (dd_node lib (dd_variable lib d) v c')))
        (dd_arcs lib d) = Inr ds" "\<forall>d\<in>set ds. level0 lib (Suc n) d" "(\<Union>d\<in>set ds. dd_paths lib (Suc n) d)
        = (\<Union>x\<in>set (dd_arcs lib d). written lib A vo inc (Suc n) var e ((\<lambda>p. p @ [fst x]) ` dd_paths lib n (snd x)))" by blast
    have "hom_app lib h d = Inr (dd_add lib ds)"
      using app_skip [OF node(1), of "Assign_skip vo var e" "Assign_eval lib A vo qry asg var e inc"] skip True ds(1)
      by (simp flip: h_def)
    from add [OF this ds(2,3)] show ?thesis by (simp add: h_def)
  next
    case False
    have each: "\<exists>ds. Assign_edge lib A qry asg var e inc (int n) (go_map vo ! n) x = Inr ds \<and> (\<forall>d\<in>set ds. level0 lib (Suc n) d)
        \<and> (\<Union>d\<in>set ds. dd_paths lib (Suc n) d) = written lib A vo inc (Suc n) var e ((\<lambda>p. p @ [fst x]) ` dd_paths lib n (snd x))"
      if x: "x \<in> set (dd_arcs lib d)" for x
    proof -
      obtain v c where vc: "x = (v, c)" by (cases x)
      note a = arc [OF x [unfolded vc]]
      show ?thesis
        unfolding vc fst_conv snd_conv
      proof (rule assign_edge [OF lin vo n var e conjunct2 [OF a] conjunct1 [OF a]])
        show "\<exists>q. writes lib A vo inc (Suc n) var e (p @ [v]) q" if "p \<in> dd_paths lib n c" for p
          by (rule writes) (use that x in \<open>force simp: paths vc simp del: dd_paths.simps\<close>)
        show "\<exists>r. qry s d = Inr r \<and> answers lib A vo (Suc n) s d r"
          if "askable lib A vo (Suc n) s d" "isize (gx A s) \<le> unresolved A var e" for s d
          by (rule query [OF that(1)]) (use that(2) b Suc.prems(2) in \<open>auto simp: query_fuel_def assign_fuel_def\<close>)
        show "yields lib (Suc n) (asg v e') d (written lib A vo inc (Suc n) v e' (dd_paths lib (Suc n) d))"
          if "assignable lib A vo inc (Suc n) v e' d" "unresolved A v e' < unresolved A var e" for v e' d
          by (rule asg [OF that(1)]) (use that(2) b Suc.prems(2) in \<open>auto simp: assign_fuel_def\<close>)
        show "yields lib n (asg v e') c (written lib A vo inc n v e' (dd_paths lib n c))"
          if "assignable lib A vo inc n v e' c" "unresolved A v e' \<le> unresolved A var e" for v e'
          by (rule asg [OF that(1)]) (use that(2) b Suc.prems(2) in \<open>auto simp: assign_fuel_def\<close>)
      qed
    qed
    have "\<exists>dss. rmap (Assign_edge lib A qry asg var e inc (int n) (go_map vo ! n)) (dd_arcs lib d) = Inr dss
        \<and> (\<forall>d\<in>set (concat dss). level0 lib (Suc n) d) \<and> (\<Union>d\<in>set (concat dss). dd_paths lib (Suc n) d)
        = (\<Union>x\<in>set (dd_arcs lib d). written lib A vo inc (Suc n) var e ((\<lambda>p. p @ [fst x]) ` dd_paths lib n (snd x)))"
      by (rule rmap_union) (rule each)
    then obtain dss where dss: "rmap (Assign_edge lib A qry asg var e inc (int n) (go_map vo ! n)) (dd_arcs lib d) = Inr dss"
      "\<forall>d\<in>set (concat dss). level0 lib (Suc n) d" "(\<Union>d\<in>set (concat dss). dd_paths lib (Suc n) d)
        = (\<Union>x\<in>set (dd_arcs lib d). written lib A vo inc (Suc n) var e ((\<lambda>p. p @ [fst x]) ` dd_paths lib n (snd x)))" by blast
    have "skip_no": "d \<in> {dd_null lib, dd_one lib, dd_top lib} \<or> Assign_skip vo var e (dd_variable lib d) = Inr False"
      using skip False by simp
    have "hom_app lib h d = Inr (dd_add lib (concat dss))"
      using app_eval [where skip = "Assign_skip vo var e", OF skip_no, of "Assign_eval lib A vo qry asg var e inc"] node dss(1) o(3)
      by (simp add: Assign_eval_def flip: h_def)
    from add [OF this dss(2,3)] show ?thesis by (simp add: h_def)
  qed
qed

theorem assign_sound:
  assumes lin: "linear_less (iless A)" and vo: "order_ok vo"
  shows "assignable lib A vo inc n var e d \<Longrightarrow> unresolved A var e \<le> b \<Longrightarrow> assign_fuel b n (unresolved A var e) \<le> fuel \<Longrightarrow>
    yields lib n (assignExpr lib A vo inc fuel var e) d (written lib A vo inc n var e (dd_paths lib n d))"
proof (induction fuel arbitrary: n var e d)
  case 0
  then show ?case by (simp add: assign_fuel_def)
next
  case (Suc m)
  have "lhs_ok A vo n var" using Suc.prems(1) by (simp add: assignable_def)
  then have "IntExpression_getType var \<in> {VAR, ARRAY, CONSTARRAY}" by (cases rule: lhs_cases) auto
  moreover have "IntExpression_getType e \<noteq> INTNDEF"
  proof
    assume "IntExpression_getType e = INTNDEF"
    then have undefined: "denote \<gamma> e = None" for \<gamma>
      using operator_type by (cases e; cases "getExpr e") (auto simp: sem_simps)
    have "dd_level lib n d" "n \<le> length (go_map vo)" using Suc.prems(1) by (simp_all add: assignable_def)
    from dd_paths_nonempty [OF this(1)] obtain p where p: "p \<in> dd_paths lib n d" by blast
    with Suc.prems(1) obtain x where "value_on vo n p e x" by (auto simp: assignable_def writes_def)
    with agrees_ex [OF vo \<open>n \<le> length (go_map vo)\<close> dd_paths_length [OF p]] undefined show False by (auto simp: value_on_def)
  qed
  ultimately have "assignExpr lib A vo inc (Suc m) var e = Inr (hom_of lib (Assign_skip vo var e)
      (Assign_eval lib A vo (query lib A vo m) (assignExpr lib A vo inc m) var e inc))" by auto
  moreover have "yields lib n (Inr (hom_of lib (Assign_skip vo var e)
      (Assign_eval lib A vo (query lib A vo m) (assignExpr lib A vo inc m) var e inc))) d (written lib A vo inc n var e (dd_paths lib n d))"
    by (rule assign_apply [OF lin vo query_sound [OF lin vo] Suc.IH Suc.prems(2,1,3)]) auto
  ultimately show ?case by simp
qed

end

end
