(* ===== verification/Gal_Diagram.thy ===== *)
theory Gal_Diagram imports Gal_Assign_Sound "HOL-Library.While_Combinator" begin

text \<open>
  Decision diagrams as trees, and their homomorphisms as functions: an instance of the library, which shows
  that its contract can be met and on which the code can be run.
\<close>

section \<open>Diagrams\<close>

datatype diag = DNull | DOne | DTop | DNode int "(int \<times> diag) list"

text \<open>The union of two diagrams; the arcs of a node are merged by their values.\<close>

fun join :: "diag \<Rightarrow> diag \<Rightarrow> diag" and merge :: "(int \<times> diag) list \<Rightarrow> (int \<times> diag) list \<Rightarrow> (int \<times> diag) list" where
  "join DNull d = d"
| "join DOne d = (if d = DNull \<or> d = DOne then DOne else DTop)"
| "join DTop d = DTop"
| "join (DNode i as) d =
     (case d of DNull \<Rightarrow> DNode i as | DNode j bs \<Rightarrow> if i = j then DNode i (merge as bs) else DTop | _ \<Rightarrow> DTop)"
| "merge [] bs = bs"
| "merge (a # as) bs =
     (case bs of [] \<Rightarrow> a # as
      | b # bs' \<Rightarrow>
          if fst a < fst b then a # merge as bs
          else if fst b < fst a then b # merge (a # as) bs'
          else (fst a, join (snd a) (snd b)) # merge as bs')"

definition djoin :: "diag list \<Rightarrow> diag" where
  "djoin ds = fold (\<lambda>d a. join a d) ds DNull"

definition dnode :: "int \<Rightarrow> int \<Rightarrow> diag \<Rightarrow> diag" where
  "dnode i v c = (if c = DNull then DNull else DNode i [(v, c)])"

fun dvar :: "diag \<Rightarrow> int" where
  "dvar (DNode i as) = i"
| "dvar d = - 1"

fun darcs :: "diag \<Rightarrow> (int \<times> diag) list" where
  "darcs (DNode i as) = as"
| "darcs d = []"

fun dvalues :: "int \<Rightarrow> diag \<Rightarrow> int list" where
  "dvalues i (DNode j as) = (if i = j then map fst as else concat (map (\<lambda>a. dvalues i (snd a)) as))"
| "dvalues i d = []"

text \<open>The paths of a diagram, a diagram of one path, the difference of two diagrams.\<close>

fun dpaths :: "diag \<Rightarrow> int list list" where
  "dpaths (DNode i as) = concat (map (\<lambda>a. map (\<lambda>p. p @ [fst a]) (dpaths (snd a))) as)"
| "dpaths DOne = [[]]"
| "dpaths d = []"

definition path_diag :: "int list \<Rightarrow> diag" where
  "path_diag p = fold (\<lambda>(i, v). dnode (int i) v) (enumerate 0 p) DOne"

definition minus_diag :: "diag \<Rightarrow> diag \<Rightarrow> diag" where
  "minus_diag c d = djoin (map path_diag (filter (\<lambda>p. p \<notin> set (dpaths d)) (dpaths c)))"

section \<open>Homomorphisms\<close>

text \<open>A homomorphism: whether it is a selector, what it computes; a selector made by \<open>hom_select\<close> has its own negation.\<close>

datatype dhom = DHom bool "diag \<Rightarrow> diag res" | DSelect "diag \<Rightarrow> diag res" "dhom res"

fun selects :: "dhom \<Rightarrow> bool" where
  "selects (DHom s f) = s"
| "selects (DSelect f neg) = True"

fun dfun :: "dhom \<Rightarrow> diag \<Rightarrow> diag res" where
  "dfun (DHom s f) = f"
| "dfun (DSelect f neg) = f"

fun dnot :: "dhom \<Rightarrow> dhom" where
  "dnot (DHom s f) = DHom True (\<lambda>d. rbind (f d) (\<lambda>x. Inr (minus_diag d x)))"
| "dnot (DSelect f neg) = (case neg of Inl e \<Rightarrow> DHom True (\<lambda>d. Inl e) | Inr g \<Rightarrow> g)"

fun dapp :: "skip \<Rightarrow> (diag \<Rightarrow> diag res) \<Rightarrow> diag \<Rightarrow> diag res" where
  "dapp skip ev (DNode i as) =
     (case skip i of
        Inl e \<Rightarrow> Inl e
      | Inr s \<Rightarrow>
          if s then rbind (rmap (\<lambda>a. rbind (dapp skip ev (snd a)) (\<lambda>c. Inr (dnode i (fst a) c))) as) (\<lambda>ds. Inr (djoin ds))
          else ev (DNode i as))"
| "dapp skip ev d = ev d"

text \<open>The first path of the image.\<close>

fun first_path :: "diag \<Rightarrow> diag" where
  "first_path (DNode i (a # as)) = DNode i [(fst a, first_path (snd a))]"
| "first_path d = d"

text \<open>The iteration until the paths do not change.\<close>

definition changes :: "(diag \<Rightarrow> diag res) \<Rightarrow> diag res \<Rightarrow> bool" where
  "changes f s = (case s of Inl e \<Rightarrow> False | Inr x \<Rightarrow> (case f x of Inl e \<Rightarrow> True | Inr y \<Rightarrow> set (dpaths y) \<noteq> set (dpaths x)))"

definition iterate :: "(diag \<Rightarrow> diag res) \<Rightarrow> diag \<Rightarrow> diag res" where
  "iterate f d = (case while_option (changes f) (\<lambda>s. rbind s f) (Inr d) of None \<Rightarrow> no_fuel | Some s \<Rightarrow> s)"

definition dprim :: "(int \<Rightarrow> bool) \<Rightarrow> (int \<Rightarrow> int) \<Rightarrow> int \<Rightarrow> diag \<Rightarrow> diag res" where
  "dprim test upd v = dapp (\<lambda>i. Inr (i \<noteq> v))
     (\<lambda>d. if dvar d = v then Inr (djoin (map (\<lambda>a. dnode v (upd (fst a)) (snd a)) (filter (\<lambda>a. test (fst a)) (darcs d)))) else Inr d)"

text \<open>A comparison of two variables: the first value fixes the test of the second.\<close>

definition dcmp :: "BoolCompClass \<Rightarrow> int \<Rightarrow> int \<Rightarrow> diag \<Rightarrow> diag res" where
  "dcmp k v w d =
     (let u = (if v < w then w else v)
      in dapp (\<lambda>i. Inr (i \<noteq> u))
        (\<lambda>d. if dvar d \<noteq> u then Inr d
             else rbind (rmap (\<lambda>a.
               if v = w then Inr (if comp_sem k (fst a) (fst a) then dnode u (fst a) (snd a) else DNull)
               else rbind (if v < w then dprim (\<lambda>x. comp_sem k x (fst a)) id v (snd a)
                           else dprim (\<lambda>y. comp_sem k (fst a) y) id w (snd a)) (\<lambda>c. Inr (dnode u (fst a) c))) (darcs d))
               (\<lambda>ds. Inr (djoin ds))) d)"

section \<open>The instance\<close>

definition diag_hops :: "dhom hom_ops" where
  "diag_hops = \<lparr>Hid = DHom True Inr, Hnull = DHom True (\<lambda>d. Inr DNull),
     Hcomp = \<lambda>f g. DHom (selects f \<and> selects g) (\<lambda>d. rbind (dfun g d) (dfun f)),
     Hor = \<lambda>f g. DHom (selects f \<and> selects g) (\<lambda>d. rbind (dfun f d) (\<lambda>x. rbind (dfun g d) (\<lambda>y. Inr (join x y)))),
     Hadd = \<lambda>hs. DHom (list_all selects hs) (\<lambda>d. rbind (rmap (\<lambda>h. dfun h d) hs) (\<lambda>ds. Inr (djoin ds))),
     Hnot = dnot,
     Hite = \<lambda>c t f. DHom (selects t \<and> selects f) (\<lambda>d. rbind (dfun c d) (\<lambda>x. rbind (dfun t x) (\<lambda>y.
       rbind (dfun f (minus_diag d x)) (\<lambda>z. Inr (join y z))))),
     Hselector = selects\<rparr>"

definition diag_lib :: "(diag, dhom) dd_lib" where
  "diag_lib = \<lparr>dd_null = DNull, dd_one = DOne, dd_top = DTop, dd_variable = dvar, dd_arcs = darcs, dd_node = dnode, dd_add = djoin,
     computeDomain = \<lambda>v d. djoin (map (\<lambda>x. dnode v x DOne) (dvalues v d)),
     val_cast = \<lambda>x. (x + 32768) mod 65536 - 32768,
     info_add = \<lambda>k d m. m @ [(k, d)], tmp_add = \<lambda>k d m. m @ [(k, d)],
     expr_less = \<lambda>x y. ord_class.lexordp (getEnv x) (getEnv y),
     hops = diag_hops,
     hom_ccompose = \<lambda>hs. fold (Hcomp diag_hops) hs (Hid diag_hops),
     hom_fixpoint = \<lambda>h. DHom (selects h) (iterate (dfun h)),
     hom_prim = \<lambda>f v k. DHom (f \<notin> {postPlace, setVarConst}) (dprim (\<lambda>x. hom_test f x k) (\<lambda>x. hom_value f x k) v),
     hom_cmp_var = \<lambda>k v w. DHom True (dcmp k v w),
     hom_of = \<lambda>skip ev. DHom False (dapp skip ev),
     hom_select = \<lambda>skip ev image neg. DSelect (dapp skip ev) neg,
     hom_app = dfun,
     hom_image = \<lambda>h d. rbind (dfun h d) (\<lambda>x. Inr (first_path x)),
     base_image = \<lambda>skip ev d. rbind (dapp skip ev d) (\<lambda>x. Inr (first_path x))\<rparr>"

lemma diag_lib_simps [simp]:
  "dd_null diag_lib = DNull" "dd_one diag_lib = DOne" "dd_top diag_lib = DTop" "dd_variable diag_lib = dvar"
  "dd_arcs diag_lib = darcs" "dd_node diag_lib = dnode" "dd_add diag_lib = djoin"
  "hom_app diag_lib = dfun" "hom_of diag_lib skip ev = DHom False (dapp skip ev)"
  "info_add diag_lib k d i = i @ [(k, d)]" "tmp_add diag_lib kk d t = t @ [(kk, d)]"
  by (simp_all add: diag_lib_def)

section \<open>The contract holds\<close>

lemma level_node [simp]:
  "dd_level diag_lib (Suc n) d \<longleftrightarrow>
     (\<exists>as. d = DNode (int n) as \<and> as \<noteq> [] \<and> (\<forall>a\<in>set as. taggable (fst a) \<and> dd_level diag_lib n (snd a)))"
  by (cases d) auto

declare dd_level.simps(2) [simp del]

abbreviation arcs_ok :: "nat \<Rightarrow> (int \<times> diag) list \<Rightarrow> bool" where
  "arcs_ok k as \<equiv> \<forall>a\<in>set as. taggable (fst a) \<and> dd_level diag_lib k (snd a)"

abbreviation arcs_paths :: "nat \<Rightarrow> (int \<times> diag) list \<Rightarrow> int list set" where
  "arcs_paths k as \<equiv> \<Union>a\<in>set as. (\<lambda>p. p @ [fst a]) ` dd_paths diag_lib k (snd a)"

lemma paths_node: "dd_paths diag_lib (Suc n) (DNode i as) = (\<Union>a\<in>set as. (\<lambda>p. p @ [fst a]) ` dd_paths diag_lib n (snd a))"
  by simp

lemma paths_null [simp]: "dd_paths diag_lib n DNull = {}"
  by (cases n) auto

lemma join_level:
  "dd_level diag_lib n c \<Longrightarrow> dd_level diag_lib n d \<Longrightarrow>
     dd_level diag_lib n (join c d) \<and> dd_paths diag_lib n (join c d) = dd_paths diag_lib n c \<union> dd_paths diag_lib n d"
  "arcs_ok k as \<Longrightarrow>
     arcs_ok k bs \<Longrightarrow>
     arcs_ok k (merge as bs) \<and> (as \<noteq> [] \<longrightarrow> merge as bs \<noteq> [])
     \<and> arcs_paths k (merge as bs) = arcs_paths k as \<union> arcs_paths k bs"
proof (induction c d and as bs arbitrary: n and k rule: join_merge.induct)
  case (2 d)
  then show ?case by (cases n) auto
next
  case (4 i as d)
  then obtain l bs where n: "n = Suc l" "d = DNode (int l) bs" "i = int l" by (cases n) auto
  then have ok: "arcs_ok l as" "arcs_ok l bs" and ne: "as \<noteq> []" using "4.prems" by simp_all
  from "4.IH" [OF n(2,3) ok] ne show ?case by (simp add: n dd_paths.simps)
next
  case (6 a as bs)
  show ?case
  proof (cases bs)
    case (Cons b bs')
    have ok: "taggable (fst a)" "dd_level diag_lib k (snd a)" "arcs_ok k as" "arcs_ok k bs" using "6.prems" by auto
    have bs': "arcs_ok k bs'" using ok(4) Cons by simp
    consider "fst a < fst b" | "fst b < fst a" | "fst a = fst b" by linarith
    then show ?thesis
    proof cases
      case 1
      note ih = "6.IH"(1) [OF Cons 1 ok(3,4)]
      note conjunct1 [OF ih] conjunct2 [OF conjunct2 [OF ih]]
      moreover have "merge (a # as) bs = a # merge as bs" by (simp add: Cons 1)
      ultimately show ?thesis using ok by (simp add: Un_assoc)
    next
      case 2
      then have "\<not> fst a < fst b" by simp
      note ih = "6.IH"(2) [OF Cons this 2 "6.prems"(1) bs']
      note conjunct1 [OF ih] conjunct2 [OF conjunct2 [OF ih]]
      moreover have "merge (a # as) bs = b # merge (a # as) bs'" using 2 by (simp add: Cons)
      moreover have "arcs_paths k bs = arcs_paths k [b] \<union> arcs_paths k bs'" "arcs_ok k [b]" using ok(4) by (simp_all add: Cons)
      ultimately show ?thesis by (simp add: Un_ac del: merge.simps)
    next
      case 3
      then have no: "\<not> fst a < fst b" "\<not> fst b < fst a" by simp_all
      note ih = "6.IH"(4) [OF Cons no ok(3) bs']
      note conjunct1 [OF ih] conjunct2 [OF conjunct2 [OF ih]]
      moreover have "dd_level diag_lib k (join (snd a) (snd b)) \<and> dd_paths diag_lib k (join (snd a) (snd b))
          = dd_paths diag_lib k (snd a) \<union> dd_paths diag_lib k (snd b)"
        by (rule "6.IH"(3) [OF Cons no]) (use ok Cons in auto)
      moreover have "merge (a # as) bs = (fst a, join (snd a) (snd b)) # merge as bs'" using 3 by (simp add: Cons)
      moreover have "arcs_paths k bs = arcs_paths k [b] \<union> arcs_paths k bs'" by (simp add: Cons)
      ultimately show ?thesis using ok(1) 3 by (simp add: image_Un Un_ac del: merge.simps)
    qed
  qed (use 6 in simp)
next
  case (1 d)
  then show ?case by (cases n) simp_all
next
  case (3 d)
  then show ?case by (cases n) simp_all
next
  case (5 bs)
  then show ?case by simp
qed

lemma join_null [simp]: "join d DNull = d"
  by (cases d) auto

lemma djoin_level:
  "(\<And>d. d \<in> set ds \<Longrightarrow> level0 diag_lib n d) \<Longrightarrow>
     level0 diag_lib n (djoin ds) \<and> dd_paths diag_lib n (djoin ds) = (\<Union>d\<in>set ds. dd_paths diag_lib n d)"
proof -
  have "(\<And>d. d \<in> set ds \<Longrightarrow> level0 diag_lib n d) \<Longrightarrow> level0 diag_lib n a \<Longrightarrow>
     level0 diag_lib n (fold (\<lambda>d a. join a d) ds a)
     \<and> dd_paths diag_lib n (fold (\<lambda>d a. join a d) ds a) = dd_paths diag_lib n a \<union> (\<Union>d\<in>set ds. dd_paths diag_lib n d)" for a
  proof (induction ds arbitrary: a)
    case (Cons d ds)
    have "level0 diag_lib n d" using Cons.prems(1) by simp
    then have "level0 diag_lib n (join a d)
        \<and> dd_paths diag_lib n (join a d) = dd_paths diag_lib n a \<union> dd_paths diag_lib n d"
      using Cons.prems(2) join_level(1) [of n a d] by (auto simp: level0_def simp del: level_node)
    with Cons.IH [of "join a d"] Cons.prems(1) show ?case by (simp add: Un_assoc)
  qed simp
  from this [of DNull] show "(\<And>d. d \<in> set ds \<Longrightarrow> level0 diag_lib n d) \<Longrightarrow> ?thesis" by (simp add: djoin_def level0_def)
qed

interpretation diag: dd_nodes diag_lib
proof
  fix n c v assume c: "dd_level diag_lib n c"
  have c0: "c \<noteq> DNull" using c by (cases n) auto
  show "dd_paths diag_lib (Suc n) (dd_node diag_lib (int n) v c) = (\<lambda>p. p @ [v]) ` dd_paths diag_lib n c"
    using c0 by (simp add: dnode_def)
  show "dd_level diag_lib (Suc n) (dd_node diag_lib (int n) v c)" if "taggable v"
    using c c0 that by (simp add: dnode_def)
qed (use djoin_level in \<open>auto simp: dnode_def paths_of_def levels_def\<close>)

interpretation diag: dd_homs diag_lib
proof
  fix d :: diag and skip ev
  show "hom_app diag_lib (hom_of diag_lib skip ev) d = ev d"
    if "d \<in> {dd_null diag_lib, dd_one diag_lib, dd_top diag_lib} \<or> skip (dd_variable diag_lib d) = Inr False"
    using that by (cases d) auto
  show "hom_app diag_lib (hom_of diag_lib skip ev) d
      = rbind (rmap (\<lambda>(x, c). rbind (hom_app diag_lib (hom_of diag_lib skip ev) c)
          (\<lambda>c'. Inr (dd_node diag_lib (dd_variable diag_lib d) x c'))) (dd_arcs diag_lib d))
        (\<lambda>ds. Inr (dd_add diag_lib ds))"
    if "d \<notin> {dd_null diag_lib, dd_one diag_lib, dd_top diag_lib}" "skip (dd_variable diag_lib d) = Inr True"
    using that by (cases d) (auto simp: case_prod_unfold)
qed

end
