(* ===== verification/Gal_Select.thy ===== *)
theory Gal_Select imports Gal_Hom begin

text \<open>
  Guards as selectors and synchronous assignments (\<open>its/gal/ExprHom.cpp\<close>): \<open>predicate\<close> with the visitor
  \<open>PredHomBuilder\<close> and the class \<open>_Predicate\<close>, \<open>syncAssignExpr\<close> with the class \<open>_SyncAssign\<close>.
\<close>

section \<open>Predicates\<close>

definition Predicate_skip :: "GalOrder \<Rightarrow> BoolExpression \<Rightarrow> skip" where
  "Predicate_skip vo expr vr =
     (if out_of_order vo vr then Inr True
      else rbind (go_getVar vo vr) (\<lambda>curv. rbind (BoolExpression_isSupport curv expr) (\<lambda>s. Inr (\<not> s))))"

text \<open>On \<open>GDDD::one\<close>: an expression that is not a constant is reported and the path is dropped.\<close>

definition Predicate_one :: "('d, 'h) dd_lib \<Rightarrow> heap_order \<Rightarrow> BoolExpression \<Rightarrow> 'd res" where
  "Predicate_one lib A expr =
     rbind (BoolExpression_eval A expr) (\<lambda>r.
       if bool_getType (bgetExpr r) = BOOLCONST
       then rbind (bool_getValue (bgetExpr r)) (\<lambda>b. Inr (if b then dd_one lib else dd_null lib))
       else Inr (dd_null lib))"

text \<open>The expression on the current edge.\<close>

definition Predicate_simplify :: "heap_order \<Rightarrow> BoolExpression \<Rightarrow> IntExpression \<Rightarrow> int \<Rightarrow> BoolExpression res" where
  "Predicate_simplify A expr curv vl =
     rbind (BoolExpression_isSupport curv expr) (\<lambda>expr_support.
       if expr_support then BoolExpression_setAssertion A (edge_assertion A curv vl) expr else Inr expr)"

definition Predicate_edge ::
  "('d, 'h) dd_lib \<Rightarrow> heap_order \<Rightarrow> (IntExpression \<Rightarrow> 'd \<Rightarrow> 'd info res) \<Rightarrow> (BoolExpression \<Rightarrow> 'h res) \<Rightarrow>
   BoolExpression \<Rightarrow> int \<Rightarrow> IntExpression \<Rightarrow> int \<times> 'd \<Rightarrow> 'd list res" where
  "Predicate_edge lib A qry pred expr vr curv edge =
     (let (vl, child) = edge
      in rbind (Predicate_simplify A expr curv vl) (\<lambda>e.
         if bool_getType (bgetExpr e) = BOOLNDEF then Inr []
         else if bool_getType (bgetExpr e) = BOOLCONST then
           rbind (bool_getValue (bgetExpr e)) (\<lambda>b. Inr (if b then [dd_node lib vr vl child] else []))
         else rbind (BoolExpression_isSupport curv e) (\<lambda>again.
           if again then
             let sub_expr = BoolExpression_getFirstSubExpr A e
             in rbind (qry sub_expr (dd_node lib vr vl child)) (\<lambda>rhssolved.
                rmap (\<lambda>(k, d).
                  rbind (BoolExpression_setAssertion A (Assertion_of A sub_expr k) e) (\<lambda>e'.
                  rbind (pred e') (\<lambda>h. hom_app lib h d))) rhssolved)
           else rbind (pred e) (\<lambda>h. rbind (hom_app lib h child) (\<lambda>c. Inr [dd_node lib vr vl c])))))"

definition Predicate_eval ::
  "('d, 'h) dd_lib \<Rightarrow> heap_order \<Rightarrow> GalOrder \<Rightarrow> (IntExpression \<Rightarrow> 'd \<Rightarrow> 'd info res) \<Rightarrow> (BoolExpression \<Rightarrow> 'h res) \<Rightarrow>
   BoolExpression \<Rightarrow> 'd \<Rightarrow> 'd res" where
  "Predicate_eval lib A vo qry pred expr d =
     (if d = dd_null lib then Inr (dd_null lib)
      else if d = dd_one lib then Predicate_one lib A expr
      else if d = dd_top lib then Inr (dd_top lib)
      else let vr = dd_variable lib d
        in rbind (go_getVar vo vr) (\<lambda>curv.
           rbind (rmap (Predicate_edge lib A qry pred expr vr curv) (dd_arcs lib d)) (\<lambda>res.
             Inr (dd_add lib (concat res)))))"

text \<open>\<open>has_image\<close> returns the first path it finds; an array access not resolved yet falls back on \<open>_GHom::has_image\<close>.\<close>

fun Predicate_image_scan ::
  "('d, 'h) dd_lib \<Rightarrow> heap_order \<Rightarrow> 'd res \<Rightarrow> (BoolExpression \<Rightarrow> 'h res) \<Rightarrow>
   BoolExpression \<Rightarrow> int \<Rightarrow> IntExpression \<Rightarrow> (int \<times> 'd) list \<Rightarrow> 'd res" where
  "Predicate_image_scan lib A base pred expr vr curv [] = Inr (dd_null lib)"
| "Predicate_image_scan lib A base pred expr vr curv ((vl, child) # edges) =
     rbind (Predicate_simplify A expr curv vl) (\<lambda>e.
       if bool_getType (bgetExpr e) = BOOLCONST then
         rbind (bool_getValue (bgetExpr e)) (\<lambda>b.
           if b then Inr (dd_node lib vr vl child) else Predicate_image_scan lib A base pred expr vr curv edges)
       else rbind (BoolExpression_isSupport curv e) (\<lambda>again.
         if again then base
         else rbind (pred e) (\<lambda>h. rbind (hom_image lib h child) (\<lambda>c.
           if c \<noteq> dd_null lib then Inr (dd_node lib vr vl c)
           else Predicate_image_scan lib A base pred expr vr curv edges))))"

definition Predicate_image ::
  "('d, 'h) dd_lib \<Rightarrow> heap_order \<Rightarrow> GalOrder \<Rightarrow> (IntExpression \<Rightarrow> 'd \<Rightarrow> 'd info res) \<Rightarrow> (BoolExpression \<Rightarrow> 'h res) \<Rightarrow>
   BoolExpression \<Rightarrow> 'd \<Rightarrow> 'd res" where
  "Predicate_image lib A vo qry pred expr d =
     (if d = dd_null lib then Inr (dd_null lib)
      else if d = dd_one lib then Predicate_one lib A expr
      else if d = dd_top lib then Inr (dd_top lib)
      else let vr = dd_variable lib d
        in rbind (go_getVar vo vr) (\<lambda>curv.
           Predicate_image_scan lib A
             (base_image lib (Predicate_skip vo expr) (Predicate_eval lib A vo qry pred expr) d) pred expr vr curv (dd_arcs lib d)))"

definition Predicate_negate :: "heap_order \<Rightarrow> (BoolExpression \<Rightarrow> 'h res) \<Rightarrow> BoolExpression \<Rightarrow> 'h res" where
  "Predicate_negate A pred expr = pred (BoolExpression_pushNegations A (createNot expr))"

definition Predicate ::
  "('d, 'h) dd_lib \<Rightarrow> heap_order \<Rightarrow> GalOrder \<Rightarrow> (IntExpression \<Rightarrow> 'd \<Rightarrow> 'd info res) \<Rightarrow> (BoolExpression \<Rightarrow> 'h res) \<Rightarrow>
   BoolExpression \<Rightarrow> 'h" where
  "Predicate lib A vo qry pred expr =
     hom_select lib (Predicate_skip vo expr) (Predicate_eval lib A vo qry pred expr)
       (Predicate_image lib A vo qry pred expr) (Predicate_negate A pred expr)"

section \<open>PredHomBuilder\<close>

text \<open>\<open>mk\<close> builds a \<open>_Predicate\<close>. The switches of \<open>visitBinaryBoolComp\<close>.\<close>

fun var_cmp_state :: "BoolCompClass \<Rightarrow> hom_fun" where
  "var_cmp_state BoolEq = varEqState"
| "var_cmp_state BoolNeq = varNeqState"
| "var_cmp_state BoolLt = varLtState"
| "var_cmp_state BoolGt = varGtState"
| "var_cmp_state BoolLeq = varLeqState"
| "var_cmp_state BoolGeq = varGeqState"

definition visitBinaryBoolComp ::
  "('d, 'h) dd_lib \<Rightarrow> heap_order \<Rightarrow> GalOrder \<Rightarrow> (BoolExpression \<Rightarrow> 'h) \<Rightarrow> env \<Rightarrow> BoolCompClass \<Rightarrow> pint \<Rightarrow> pint \<Rightarrow> 'h res" where
  "visitBinaryBoolComp lib A vo mk env k l r =
     (let general = rbind (createComparison (comp_type k) l r) (\<lambda>b. Inr (mk (createBoolExpression b env)))
      in if int_getType l = VAR \<or> int_getType l = CONSTARRAY then
           rbind (go_getIndex vo (createIntExpression A l env)) (\<lambda>var.
             if int_getType r = INTCONST then
               rbind (int_getValue r) (\<lambda>val. Inr (hom_prim lib (var_cmp_state k) var val))
             else if int_getType r = VAR \<or> int_getType r = CONSTARRAY then
               rbind (go_getIndex vo (createIntExpression A r env)) (\<lambda>var2. Inr (hom_cmp_var lib k var var2))
             else general)
         else general)"

fun PredHomBuilder ::
  "('d, 'h) dd_lib \<Rightarrow> heap_order \<Rightarrow> GalOrder \<Rightarrow> (BoolExpression \<Rightarrow> 'h) \<Rightarrow> env \<Rightarrow> pbool \<Rightarrow> 'h res" where
  "PredHomBuilder lib A vo mk env (NaryBoolExpr k ps) =
     rbind (rmap (PredHomBuilder lib A vo mk env) ps) (\<lambda>toadd.
       Inr (if k = OrExpr then Hadd (hops lib) toadd else hom_ccompose lib toadd))"
| "PredHomBuilder lib A vo mk env (BinaryBoolComp k l r) = visitBinaryBoolComp lib A vo mk env k l r"
| "PredHomBuilder lib A vo mk env (NotExpr b) =
     rbind (PredHomBuilder lib A vo mk env b) (\<lambda>h. Inr (Hnot (hops lib) h))"
| "PredHomBuilder lib A vo mk env (BoolConstExpr v) = Inr (if v then Hid (hops lib) else Hnull (hops lib))"
| "PredHomBuilder lib A vo mk env BoolNDefExpr = Inr (Hnull (hops lib))"

primrec predicate :: "('d, 'h) dd_lib \<Rightarrow> heap_order \<Rightarrow> GalOrder \<Rightarrow> nat \<Rightarrow> BoolExpression \<Rightarrow> 'h res" where
  "predicate lib A vo 0 = (\<lambda>e. no_fuel)"
| "predicate lib A vo (Suc n) = (\<lambda>e.
     PredHomBuilder lib A vo (Predicate lib A vo (query lib A vo n) (predicate lib A vo n)) (bgetEnv e) (bgetExpr e))"

section \<open>Synchronous assignments\<close>

type_synonym assignments = "(IntExpression \<times> IntExpression) list"

text \<open>\<open>notbefore x y\<close>: \<open>x\<close> is read by \<open>y\<close>.\<close>

definition notbefore :: "IntExpression \<times> IntExpression \<Rightarrow> IntExpression \<times> IntExpression \<Rightarrow> bool res" where
  "notbefore x y = IntExpression_isSupport (fst x) (snd y)"

definition sync_matrix :: "assignments \<Rightarrow> bool list list res" where
  "sync_matrix as =
     rmap (\<lambda>i. rmap (\<lambda>j. if i = j then Inr True else notbefore (as ! i) (as ! j)) [0..<length as]) [0..<length as]"

text \<open>The closure, in place.\<close>

definition closure_entry :: "nat \<Rightarrow> nat \<Rightarrow> nat \<Rightarrow> bool list list \<Rightarrow> bool list list" where
  "closure_entry k i j m = m[i := (m ! i)[j := m ! i ! j \<or> m ! i ! k \<and> m ! k ! j]]"

definition sync_closure :: "nat \<Rightarrow> bool list list \<Rightarrow> bool list list" where
  "sync_closure n m = fold (\<lambda>k. fold (\<lambda>i. fold (closure_entry k i) [0..<n]) [0..<n]) [0..<n] m"

text \<open>The component of \<open>i\<close> among the assignments that are not done.\<close>

definition scc_step ::
  "assignments \<Rightarrow> bool list list \<Rightarrow> nat \<Rightarrow> nat \<Rightarrow> assignments \<times> bool list \<Rightarrow> assignments \<times> bool list" where
  "scc_step as m i j s =
     (if \<not> snd s ! j \<and> m ! i ! j \<and> m ! j ! i then (fst s @ [as ! j], (snd s)[j := True]) else s)"

definition insert_blob :: "bool list list \<Rightarrow> nat \<Rightarrow> assignments \<Rightarrow> (nat \<times> assignments) list \<Rightarrow> (nat \<times> assignments) list" where
  "insert_blob m i scc blobs =
     takeWhile (\<lambda>p. m ! i ! fst p) blobs @ (i, scc) # dropWhile (\<lambda>p. m ! i ! fst p) blobs"

definition blob_step ::
  "assignments \<Rightarrow> bool list list \<Rightarrow> nat \<Rightarrow> (nat \<times> assignments) list \<times> bool list \<Rightarrow> (nat \<times> assignments) list \<times> bool list" where
  "blob_step as m i s =
     (if snd s ! i then s
      else let (scc, done') = fold (scc_step as m i) [i..<length as] ([], snd s)
           in (insert_blob m i scc (fst s), done'))"

definition sync_blobs :: "assignments \<Rightarrow> bool list list \<Rightarrow> (nat \<times> assignments) list" where
  "sync_blobs as m = fst (fold (blob_step as m) [0..<length as] ([], replicate (length as) False))"

text \<open>\<open>std::sort\<close> by the address of the left-hand sides.\<close>

definition sort_assignments :: "('d, 'h) dd_lib \<Rightarrow> assignments \<Rightarrow> assignments" where
  "sort_assignments lib as = fold (ms_insert (\<lambda>x y. expr_less lib (fst x) (fst y))) as []"

definition SyncAssign_eval ::
  "('d, 'h) dd_lib \<Rightarrow> heap_order \<Rightarrow> (IntExpression \<Rightarrow> 'd \<Rightarrow> 'd info res) \<Rightarrow> (assignments \<Rightarrow> 'h res) \<Rightarrow> assignments \<Rightarrow> 'd \<Rightarrow> 'd res" where
  "SyncAssign_eval lib A qry sync as d =
     (let tores = fst (hd as)
      in rbind (qry tores d) (\<lambda>lhssolved.
         rbind (rmap (\<lambda>(k, node).
           rbind (rmap (\<lambda>(v, e). rbind (IntExpression_setAssertion A (Assertion_of A tores k) e) (\<lambda>e'. Inr (v, e'))) as)
             (\<lambda>new_assignment. rbind (sync new_assignment) (\<lambda>h. hom_app lib h node))) lhssolved) (\<lambda>res.
         Inr (dd_add lib res))))"

text \<open>\<open>_SyncAssign\<close> keeps the default \<open>skip_variable\<close>, which skips nothing.\<close>

definition SyncAssign ::
  "('d, 'h) dd_lib \<Rightarrow> heap_order \<Rightarrow> (IntExpression \<Rightarrow> 'd \<Rightarrow> 'd info res) \<Rightarrow> (assignments \<Rightarrow> 'h res) \<Rightarrow> assignments \<Rightarrow> 'h" where
  "SyncAssign lib A qry sync as = hom_of lib (\<lambda>vr. Inr False) (SyncAssign_eval lib A qry sync (sort_assignments lib as))"

definition blob_hom ::
  "(IntExpression \<Rightarrow> IntExpression \<Rightarrow> 'h res) \<Rightarrow> (assignments \<Rightarrow> 'h) \<Rightarrow> assignments \<Rightarrow> 'h res" where
  "blob_hom assign sync scc =
     (if length scc = 1 then assign (fst (scc ! 0)) (snd (scc ! 0)) else Inr (sync scc))"

primrec syncAssignExpr :: "('d, 'h) dd_lib \<Rightarrow> heap_order \<Rightarrow> GalOrder \<Rightarrow> nat \<Rightarrow> assignments \<Rightarrow> 'h res" where
  "syncAssignExpr lib A vo 0 = (\<lambda>as. no_fuel)"
| "syncAssignExpr lib A vo (Suc n) = (\<lambda>as.
     if as = [] then Inr (Hid (hops lib))
     else if length as = 1 then assignExpr lib A vo False n (fst (as ! 0)) (snd (as ! 0))
     else rbind (sync_matrix as) (\<lambda>m.
       rfold (\<lambda>p res. rbind (blob_hom (assignExpr lib A vo False n)
           (SyncAssign lib A (query lib A vo n) (syncAssignExpr lib A vo n)) (snd p)) (\<lambda>h. Inr (Hcomp (hops lib) h res)))
         (sync_blobs as (sync_closure (length as) m)) (Hid (hops lib))))"

end
