(* ===== verification/Gal_Compare.thy ===== *)
theory Gal_Compare imports Gal_Select Gal_Assign_Sound begin

text \<open>
  Comparisons on a path of a diagram: what \<open>operator&\<close>, \<open>isSupport\<close> and \<open>getFirstSubExpr\<close> do to the two
  sides of a comparison. These are the expressions a \<open>_Predicate\<close> holds.
\<close>

section \<open>The sides of a comparison\<close>

fun left_side :: "BoolExpression \<Rightarrow> IntExpression" where
  "left_side (BExpr (BinaryBoolComp k x y) env) = IExpr x env"
| "left_side b = IConst 0"

fun right_side :: "BoolExpression \<Rightarrow> IntExpression" where
  "right_side (BExpr (BinaryBoolComp k x y) env) = IExpr y env"
| "right_side b = IConst 0"

definition comparison :: "heap_order \<Rightarrow> BoolCompClass \<Rightarrow> BoolExpression \<Rightarrow> bool" where
  "comparison A k b \<longleftrightarrow> (\<exists>x y env. b = BExpr (BinaryBoolComp k x y) env) \<and> fits A (left_side b) \<and> fits A (right_side b)"

abbreviation lgx :: "heap_order \<Rightarrow> BoolExpression \<Rightarrow> pint" where
  "lgx A b \<equiv> gx A (left_side b)"

abbreviation rgx :: "heap_order \<Rightarrow> BoolExpression \<Rightarrow> pint" where
  "rgx A b \<equiv> gx A (right_side b)"

definition csize :: "heap_order \<Rightarrow> BoolExpression \<Rightarrow> nat" where
  "csize A b = isize (lgx A b) + isize (rgx A b)"

definition cmentions :: "heap_order \<Rightarrow> BoolExpression \<Rightarrow> loc set" where
  "cmentions A b = mentions (lgx A b) \<union> mentions (rgx A b)"

definition ctouches :: "heap_order \<Rightarrow> loc \<Rightarrow> BoolExpression \<Rightarrow> bool" where
  "ctouches A l b \<longleftrightarrow> touches l (lgx A b) \<or> touches l (rgx A b)"

lemma comparison_denote:
  "comparison A k b \<Longrightarrow> bdenote \<gamma> b
     = bin_opt (\<lambda>i j. Some (comp_sem k i j)) (denote \<gamma> (left_side b)) (denote \<gamma> (right_side b))"
  by (auto simp: comparison_def)

lemma comparison_env: "comparison A k b \<Longrightarrow> getEnv (left_side b) = bgetEnv b \<and> getEnv (right_side b) = bgetEnv b"
  by (auto simp: comparison_def)

lemma comparison_isSupport:
  assumes "eloc v = Some l" "ie_ok v" "comparison A k b"
  shows "BoolExpression_isSupport v b = Inr (ctouches A l b)"
    and "ctouches A l b \<Longrightarrow> set (getEnv v) \<subseteq> set (bgetEnv b)"
proof -
  from assms(3) obtain x y env where b: "b = BExpr (BinaryBoolComp k x y) env" and
    fits: "fits A (left_side b)" "fits A (right_side b)" by (auto simp: comparison_def)
  note L = fits_touches [OF assms(1,2) fits(1)] and R = fits_touches [OF assms(1,2) fits(2)]
  have g: "var_global v = Inr (loc_var l)" using assms(1) by (auto elim!: eloc_cases simp: var_global_def)
  obtain t where t: "int_getValue (getExpr v) = Inr t" using assms(1) by (auto elim!: eloc_cases)
  show "BoolExpression_isSupport v b = Inr (ctouches A l b)"
    using L(1) R(1) unfolding ctouches_def b by (auto simp: g t Let_def split: if_splits)
  show "ctouches A l b \<Longrightarrow> set (getEnv v) \<subseteq> set (bgetEnv b)"
    using L(2) R(2) comparison_env [OF assms(3)] by (auto simp: ctouches_def)
qed

section \<open>One assertion\<close>

text \<open>A result of \<open>operator&\<close>: a constant, or a comparison with simpler sides.\<close>

definition simpler :: "heap_order \<Rightarrow> BoolCompClass \<Rightarrow> IntExpression \<Rightarrow> int \<Rightarrow> BoolExpression \<Rightarrow> BoolExpression \<Rightarrow> bool" where
  "simpler A k L c b b' \<longleftrightarrow> comparison A k b'
     \<and> resolves A (const_assertion (gx A L) c) (lgx A b) (lgx A b') \<and> resolves A (const_assertion (gx A L) c) (rgx A b) (rgx A b')"

lemma comparison_assert:
  assumes lin: "linear_less (iless A)" and b: "comparison A k b" and L: "good A L" "supersets (bgetEnv b) (getEnv L)"
    and K: "good A K" "const_val K = Some c" and den: "denote \<gamma> L = Some c" "bdenote \<gamma> b = Some t"
  shows "\<exists>b'. BoolExpression_setAssertion A (Assertion_of A L K) b = Inr b' \<and> bdenote \<gamma> b' = Some t
    \<and> (bgetExpr b' = BoolConstExpr t \<or> simpler A k L c b b')"
proof -
  from b obtain x y env where bb: "b = BExpr (BinaryBoolComp k x y) env" and
    fits: "fits A (IExpr x env)" "fits A (IExpr y env)" by (auto simp: comparison_def)
  note fx = fits_parts [OF fits(1), simplified] and fy = fits_parts [OF fits(2), simplified]
  from den(2) obtain i j where ij: "denote \<gamma> (IExpr x env) = Some i" "denote \<gamma> (IExpr y env) = Some j" "t = comp_sem k i j"
    by (auto simp: bb sem_simps)
  define u where "u = sorted_union (getEnv L) env"
  have u: "env_ok u" "set (getEnv L) \<subseteq> set u" "set env \<subseteq> set u"
    using good_parts [OF L(1)] fx by (simp_all add: u_def sorted_union_ok)
  note as = assertion_const [OF lin L(1) u(2) K]
  obtain x' where x': "assert_int A (const_assertion (nrm A L u) c) (norm_int A x env u) = Inr x'" "isem (env_val \<gamma> u) x' = Some i"
    "canon A x'" "wf_int (int (length u)) x'" "resolves A (const_assertion (gx A L) c) (gx A (IExpr x env)) (rename A (\<lambda>i. u ! nat i) x')"
    using fits_assert [OF lin u(1,2) _ fits(1) L(1) as(4) den(1) ij(1)] u(3) by auto
  obtain y' where y': "assert_int A (const_assertion (nrm A L u) c) (norm_int A y env u) = Inr y'" "isem (env_val \<gamma> u) y' = Some j"
    "canon A y'" "wf_int (int (length u)) y'" "resolves A (const_assertion (gx A L) c) (gx A (IExpr y env)) (rename A (\<lambda>i. u ! nat i) y')"
    using fits_assert [OF lin u(1,2) _ fits(2) L(1) as(4) den(1) ij(2)] u(3) by auto
  define z where "z = (if is_const x' \<and> is_const y' then BoolConstExpr t else BinaryBoolComp k x' y')"
  have set: "BoolExpression_setAssertion A (Assertion_of A L K) b
      = rbind (BinaryBoolComp_setAssertion k (Inr x') (Inr y')) (\<lambda>b'. Inr (mk_bool (gc_bool A b' u)))"
    using L(2) as(1-3) norm_comp [OF lin, of x env y k u] fx fy x'(1) y'(1) by (simp add: bb Let_def flip: u_def)
  have comp: "BinaryBoolComp_setAssertion k (Inr x') (Inr y') = Inr z"
  proof (cases "is_const x' \<and> is_const y'")
    case True
    then obtain s s' where "x' = ConstTag s" "y' = ConstTag s'" by (auto simp: is_const_iff)
    moreover from this x'(2) y'(2) have "untag_const s = i" "untag_const s' = j" "taggable i" "taggable j" by (auto simp: sem_simps)
    ultimately show ?thesis using ij(3) by (simp add: BinaryBoolComp_setAssertion_def z_def comp_constEval_sem)
  next
    case False
    have "x' \<noteq> NDefExpr" "y' \<noteq> NDefExpr" using x'(3) y'(3) by auto
    with False show ?thesis
      by (cases x'; cases y') (auto simp: BinaryBoolComp_setAssertion_def z_def createComparison_class)
  qed
  show ?thesis
  proof (cases "is_const x' \<and> is_const y'")
    case True
    then have z: "z = BoolConstExpr t" by (simp add: z_def)
    have "fst (gc_bool A (BoolConstExpr t) u) = BoolConstExpr t" by (simp add: gc_bool_def gc_def split: prod.splits)
    then show ?thesis using set comp z by (cases "gc_bool A z u") (auto simp: mk_bool_def)
  next
    case False
    then have z: "z = BinaryBoolComp k x' y'" by (simp add: z_def)
    obtain env' where gc: "gc_bool A z u = (BinaryBoolComp k (rename A (\<lambda>i. indexOf (u ! nat i) env') x')
        (rename A (\<lambda>i. indexOf (u ! nat i) env') y'), env')" "env_ok env'" "set env' = (\<lambda>i. u ! nat i) ` (vars_int x' \<union> vars_int y')"
      using gc_comp [OF lin x'(3,4) y'(3,4) u(1), of k] unfolding z by blast
    define f where "f = (\<lambda>i. indexOf (u ! nat i) env')"
    have entry: "env' ! nat (f i) = u ! nat i" if "i \<in> vars_int x' \<union> vars_int y'" for i
      unfolding f_def by (rule indexOf_mem(3)) (use gc(3) that in auto)
    have gx: "gx A (IExpr (rename A f e) env') = rename A (\<lambda>i. u ! nat i) e" if "canon A e" "vars_int e \<subseteq> vars_int x' \<union> vars_int y'" for e
      using entry that lin by (auto simp: gx_def rename_rename intro!: rename_cong)
    note ok = mk_bool_gc_sound [OF _ u(1)]
    have wfz: "wf_bool (int (length u)) z" using x'(4) y'(4) by (simp add: z)
    from ok(1) [OF wfz, of A] have "wf_int (int (length env')) (rename A f x')" "wf_int (int (length env')) (rename A f y')"
      by (simp_all add: mk_bool_def gc(1) f_def)
    then have fits': "fits A (IExpr (rename A f x') env')" "fits A (IExpr (rename A f y') env')"
      using gc(2) x'(3) y'(3) by (simp_all add: fits_def canon_rename [OF lin])
    have "bdenote \<gamma> (mk_bool (gc_bool A z u)) = Some t"
      by (rule ok(2) [OF wfz]) (use x'(2) y'(2) ij(3) in \<open>simp add: z sem_simps\<close>)
    moreover have "simpler A k L c b (mk_bool (gc_bool A z u))"
      using fits' gx [OF x'(3)] gx [OF y'(3)] x'(5) y'(5)
      by (simp add: simpler_def comparison_def mk_bool_def gc(1) bb flip: f_def)
    ultimately show ?thesis using set comp by simp
  qed
qed

section \<open>On the paths of a diagram\<close>

definition decided :: "GalOrder \<Rightarrow> nat \<Rightarrow> int list \<Rightarrow> BoolExpression \<Rightarrow> bool \<Rightarrow> bool" where
  "decided vo n p b t \<longleftrightarrow> (\<forall>\<gamma>. agrees vo n p \<gamma> \<longrightarrow> bdenote \<gamma> b = Some t)"

lemma decided_unique:
  assumes "order_ok vo" "n \<le> length (go_map vo)" "length p = n" "decided vo n p b t" "decided vo n p b t'"
  shows "t = t'"
  using agrees_ex [OF assms(1-3)] assms(4,5) by (auto simp: decided_def)

lemma bdenote_agrees:
  assumes lin: "linear_less (iless A)" and b: "comparison A k b" "cmentions A b \<subseteq> upto vo n" and "agrees vo n p \<gamma>" "agrees vo n p \<delta>"
  shows "denote \<gamma> (left_side b) = denote \<delta> (left_side b)" "denote \<gamma> (right_side b) = denote \<delta> (right_side b)"
    "bdenote \<gamma> b = bdenote \<delta> b"
proof -
  have fits: "fits A (left_side b)" "fits A (right_side b)" using b(1) by (simp_all add: comparison_def)
  note side = agrees_isem [OF fits_canon [OF lin] _ assms(4,5)]
  show "denote \<gamma> (left_side b) = denote \<delta> (left_side b)" "denote \<gamma> (right_side b) = denote \<delta> (right_side b)"
    using side [OF fits(1)] side [OF fits(2)] fits_denote [OF fits(1)] fits_denote [OF fits(2)] b(2) by (auto simp: cmentions_def)
  then show "bdenote \<gamma> b = bdenote \<delta> b" by (simp add: comparison_denote [OF b(1)])
qed

lemma decided_sides:
  assumes lin: "linear_less (iless A)" and vo: "order_ok vo" "n \<le> length (go_map vo)" "length p = n"
    and b: "comparison A k b" "cmentions A b \<subseteq> upto vo n" "decided vo n p b t"
  shows "\<exists>i j. value_on vo n p (left_side b) i \<and> value_on vo n p (right_side b) j \<and> t = comp_sem k i j"
proof -
  obtain \<gamma> where \<gamma>: "agrees vo n p \<gamma>" using agrees_ex [OF vo] by blast
  with b(3) obtain i j where ij: "denote \<gamma> (left_side b) = Some i" "denote \<gamma> (right_side b) = Some j" "t = comp_sem k i j"
    by (auto simp: decided_def comparison_denote [OF b(1)] sem_simps)
  have "value_on vo n p (left_side b) i" "value_on vo n p (right_side b) j"
    using bdenote_agrees(1,2) [OF lin b(1,2) \<gamma>] ij by (auto simp: value_on_def)
  with ij(3) show ?thesis by blast
qed

lemma decided_append_iff:
  assumes lin: "linear_less (iless A)" and vo: "order_ok vo" "n < length (go_map vo)" "length p = n"
    and b: "comparison A k b" "cmentions A b \<subseteq> upto vo n"
  shows "decided vo (Suc n) (p @ [x]) b t \<longleftrightarrow> decided vo n p b t"
proof
  assume d: "decided vo (Suc n) (p @ [x]) b t"
  show "decided vo n p b t"
    unfolding decided_def
  proof (intro allI impI)
    fix \<gamma> assume \<gamma>: "agrees vo n p \<gamma>"
    note ext = agrees_extend [OF vo \<gamma>, of x]
    with d have "bdenote (put (locs vo ! n) x \<gamma>) b = Some t" unfolding decided_def by blast
    then show "bdenote \<gamma> b = Some t" using bdenote_agrees(3) [OF lin b agrees_append [OF vo(3) ext] \<gamma>] by simp
  qed
qed (use vo(3) agrees_append in \<open>fastforce simp: decided_def\<close>)

lemma simpler_facts:
  assumes "simpler A k L c b b'"
  shows "csize A b' \<le> csize A b" "cmentions A b' \<subseteq> cmentions A b"
    "leaf (gx A L) \<inter> (leaves (lgx A b') \<union> leaves (rgx A b')) = {}"
    "gx A L \<in> indexes (lgx A b) \<union> indexes (rgx A b) \<Longrightarrow> csize A b' < csize A b"
proof -
  note r = assms [unfolded simpler_def resolves_def, simplified]
  show "csize A b' \<le> csize A b" using r by (simp add: csize_def add_mono)
  show "cmentions A b' \<subseteq> cmentions A b" using r unfolding cmentions_def mentions_def by blast
  show "leaf (gx A L) \<inter> (leaves (lgx A b') \<union> leaves (rgx A b')) = {}" using r by blast
  show "gx A L \<in> indexes (lgx A b) \<union> indexes (rgx A b) \<Longrightarrow> csize A b' < csize A b"
    using r by (auto simp: csize_def add_less_le_mono add_le_less_mono)
qed

text \<open>The same result on all paths of \<open>P\<close>.\<close>

lemma comparison_on:
  assumes lin: "linear_less (iless A)" and vo: "order_ok vo" "n \<le> length (go_map vo)" and b: "comparison A k b"
    and L: "good A L" "set (getEnv L) \<subseteq> set (bgetEnv b)" and K: "good A K" "const_val K = Some c"
    and P: "P \<noteq> {}" "\<And>p. p \<in> P \<Longrightarrow> length p = n \<and> value_on vo n p L c \<and> (\<exists>t. decided vo n p b t)"
  obtains b' where "BoolExpression_setAssertion A (Assertion_of A L K) b = Inr b'"
    "(\<exists>t. bgetExpr b' = BoolConstExpr t \<and> (\<forall>p\<in>P. decided vo n p b t))
     \<or> simpler A k L c b b' \<and> (\<forall>p\<in>P. \<forall>t. decided vo n p b t \<longrightarrow> decided vo n p b' t)"
proof -
  have "supersets (bgetEnv b) (getEnv L)"
    using L good_parts [OF L(1)] fits_parts [of A "left_side b"] b comparison_env [OF b] by (auto simp: supersets_complete comparison_def)
  note step = comparison_assert [OF lin b L(1) this K]
  have step: "\<exists>b'. BoolExpression_setAssertion A (Assertion_of A L K) b = Inr b' \<and> bdenote \<gamma> b' = Some t
      \<and> (bgetExpr b' = BoolConstExpr t \<or> simpler A k L c b b')"
    if "p \<in> P" "decided vo n p b t" "agrees vo n p \<gamma>" for p t \<gamma>
    using step [of \<gamma> t] P(2) [OF that(1)] that by (auto simp: value_on_def decided_def)
  from P obtain p0 t0 where p0: "p0 \<in> P" "decided vo n p0 b t0" by blast
  with agrees_ex [OF vo] P(2) obtain \<gamma>0 where \<gamma>0: "agrees vo n p0 \<gamma>0" by blast
  from step [OF p0 \<gamma>0] obtain b' where b': "BoolExpression_setAssertion A (Assertion_of A L K) b = Inr b'"
    "bgetExpr b' = BoolConstExpr t0 \<or> simpler A k L c b b'" by blast
  have same: "bdenote \<gamma> b' = Some t" if "p \<in> P" "decided vo n p b t" "agrees vo n p \<gamma>" for p t \<gamma>
    using step [OF that] b'(1) by auto
  show thesis
  proof (rule that [OF b'(1)], cases "simpler A k L c b b'")
    case True
    then show "(\<exists>t. bgetExpr b' = BoolConstExpr t \<and> (\<forall>p\<in>P. decided vo n p b t))
      \<or> simpler A k L c b b' \<and> (\<forall>p\<in>P. \<forall>t. decided vo n p b t \<longrightarrow> decided vo n p b' t)"
      using same unfolding decided_def by blast
  next
    case False
    with b'(2) have const: "bgetExpr b' = BoolConstExpr t0" by blast
    have "decided vo n p b t0" if p: "p \<in> P" for p
    proof -
      from P(2) [OF p] obtain t where t: "decided vo n p b t" and "length p = n" by blast
      with agrees_ex [OF vo] obtain \<gamma> where "agrees vo n p \<gamma>" by blast
      from same [OF p t this] const have "t = t0" by (cases b') auto
      with t show ?thesis by simp
    qed
    with const show "(\<exists>t. bgetExpr b' = BoolConstExpr t \<and> (\<forall>p\<in>P. decided vo n p b t))
      \<or> simpler A k L c b b' \<and> (\<forall>p\<in>P. \<forall>t. decided vo n p b t \<longrightarrow> decided vo n p b' t)" by blast
  qed
qed

lemma comparison_sub:
  assumes lin: "linear_less (iless A)" and b: "comparison A k b" and acc: "accesses (lgx A b) \<noteq> {} \<or> accesses (rgx A b) \<noteq> {}"
  defines "s \<equiv> BoolExpression_getFirstSubExpr A b"
  shows "good A s" "gx A s \<in> indexes (lgx A b) \<union> indexes (rgx A b)" "set (getEnv s) \<subseteq> set (bgetEnv b)"
proof -
  from b obtain x y env where bb: "b = BExpr (BinaryBoolComp k x y) env" and fits: "fits A (IExpr x env)" "fits A (IExpr y env)"
    by (auto simp: comparison_def)
  note fx = fits_parts [OF fits(1), simplified] and fy = fits_parts [OF fits(2), simplified]
  define i where "i = BinaryBoolComp_getFirstSubExpr x (getFirstSubExpr_int x) y (getFirstSubExpr_int y)"
  have ne: "indexes x \<noteq> {} \<or> indexes y \<noteq> {}"
    using acc indexes_accesses by (auto simp: bb gx_def accesses_rename)
  have i: "i \<in> indexes x \<or> i \<in> indexes y"
  proof (cases "indexes x = {}")
    case True
    with getFirstSubExpr_index [of A x] fx have "getFirstSubExpr_int x = x" by blast
    moreover from True ne have "getFirstSubExpr_int y \<in> indexes y" using getFirstSubExpr_index [of A y] fy by blast
    moreover from indexes_size [OF this] have "getFirstSubExpr_int y \<noteq> y" by auto
    ultimately show ?thesis by (simp add: i_def BinaryBoolComp_getFirstSubExpr_def)
  next
    case False
    then have "getFirstSubExpr_int x \<in> indexes x" using getFirstSubExpr_index [of A x] fx by blast
    moreover from indexes_size [OF this] have "getFirstSubExpr_int x \<noteq> x" by auto
    ultimately show ?thesis by (simp add: i_def BinaryBoolComp_getFirstSubExpr_def)
  qed
  have sub: "canon A i \<and> wf_int (int (length env)) i"
    using i index_facts [of i _ A undefined] wf_index fx fy by blast
  have s: "s = mk_int (gc_int A i env)" by (simp add: s_def bb i_def)
  note gc = gx_mk_gc [OF lin conjunct1 [OF sub] conjunct2 [OF sub]]
  show "good A s" using gc(1) fx by (simp add: s)
  show "gx A s \<in> indexes (lgx A b) \<union> indexes (rgx A b)"
    using gc(2) fx i by (auto simp: s bb gx_def indexes_rename)
  have "nat v < length env" if "v \<in> vars_int i" for v
    using wf_vars(1) [OF conjunct2 [OF sub]] that by (auto simp: nat_less_iff)
  then show "set (getEnv s) \<subseteq> set (bgetEnv b)" using gc(3) fx by (auto simp: s bb)
qed

end
