(* ===== verification/Gal_Select_Sound.thy ===== *)
theory Gal_Select_Sound imports Gal_Compare begin

text \<open>
  \<open>predicate\<close> is correct: it keeps the paths on which the guard holds. Conjunctions and disjunctions of
  comparisons, which is what \<open>pushNegations\<close> leaves, and their negations, which \<open>negate\<close> answers.
\<close>

section \<open>Selectors\<close>

text \<open>On the diagrams with paths in \<open>Q\<close>, \<open>h\<close> keeps the paths that satisfy \<open>P\<close>.\<close>

definition keeps :: "('d, 'h) dd_lib \<Rightarrow> nat \<Rightarrow> 'h \<Rightarrow> int list set \<Rightarrow> (int list \<Rightarrow> bool) \<Rightarrow> bool" where
  "keeps lib n h Q P \<longleftrightarrow> (\<forall>d. level0 lib n d \<and> dd_paths lib n d \<subseteq> Q \<longrightarrow>
     (\<exists>d'. hom_app lib h d = Inr d' \<and> level0 lib n d' \<and> dd_paths lib n d' = {p \<in> dd_paths lib n d. P p}))"

lemma keepsD:
  assumes "keeps lib n h Q P" "level0 lib n d" "dd_paths lib n d \<subseteq> Q"
  shows "\<exists>d'. hom_app lib h d = Inr d' \<and> level0 lib n d' \<and> dd_paths lib n d' = {p \<in> dd_paths lib n d. P p}"
  using assms unfolding keeps_def by blast

lemma keeps_cong:
  assumes "keeps lib n h Q P" "\<And>p. p \<in> Q \<Longrightarrow> P p \<longleftrightarrow> P' p"
  shows "keeps lib n h Q P'"
  unfolding keeps_def
proof (intro allI impI)
  fix d assume d: "level0 lib n d \<and> dd_paths lib n d \<subseteq> Q"
  then have "{p \<in> dd_paths lib n d. P p} = {p \<in> dd_paths lib n d. P' p}" using assms(2) by blast
  with keepsD [OF assms(1), of d] d
  show "\<exists>d'. hom_app lib h d = Inr d' \<and> level0 lib n d' \<and> dd_paths lib n d' = {p \<in> dd_paths lib n d. P' p}" by simp
qed

lemma keeps_mono: "keeps lib n h Q P \<Longrightarrow> R \<subseteq> Q \<Longrightarrow> keeps lib n h R P"
  unfolding keeps_def by blast

text \<open>\<open>h\<close> keeps the paths that satisfy \<open>P\<close>, and can be negated \<open>k\<close> times.\<close>

primrec negatable :: "('d, 'h) dd_lib \<Rightarrow> nat \<Rightarrow> nat \<Rightarrow> 'h \<Rightarrow> int list set \<Rightarrow> (int list \<Rightarrow> bool) \<Rightarrow> bool" where
  "negatable lib n 0 h Q P \<longleftrightarrow> keeps lib n h Q P"
| "negatable lib n (Suc k) h Q P \<longleftrightarrow> keeps lib n h Q P \<and> negatable lib n k (Hnot (hops lib) h) Q (\<lambda>p. \<not> P p)"

lemma negatable_keeps: "negatable lib n k h Q P \<Longrightarrow> keeps lib n h Q P"
  by (cases k) simp_all

lemma negatable_cong:
  "negatable lib n k h Q P \<Longrightarrow> (\<And>p. p \<in> Q \<Longrightarrow> P p \<longleftrightarrow> P' p) \<Longrightarrow> negatable lib n k h Q P'"
proof (induction k arbitrary: h P P')
  case (Suc k)
  then have "keeps lib n h Q P'" by (auto intro: keeps_cong)
  moreover have "negatable lib n k (Hnot (hops lib) h) Q (\<lambda>p. \<not> P' p)"
    by (rule Suc.IH [where P = "\<lambda>p. \<not> P p"]) (use Suc.prems in auto)
  ultimately show ?case by simp
qed (auto intro: keeps_cong)

lemma list_all2_negatable: "list_all2 (\<lambda>h P. negatable lib n k h Q P) hs Ps \<Longrightarrow> list_all2 (\<lambda>h P. keeps lib n h Q P) hs Ps"
  by (erule list_all2_mono) (rule negatable_keeps)

text \<open>
  A homomorphism made by \<open>hom_select\<close> is applied like the others; its negation is what its method \<open>negate\<close>
  answers. The selectors of \<open>Hom_Basic.hh\<close> test one variable or compare two, \<open>GHom::add\<close> and \<open>GHom::ccompose\<close> of
  selectors are disjunction and conjunction. The library negates these when it can negate their parts.
\<close>

locale dd_selectors = dd_homs lib for lib :: "('d, 'h) dd_lib" +
  assumes select_eval: "d \<in> {dd_null lib, dd_one lib, dd_top lib} \<or> skip (dd_variable lib d) = Inr False \<Longrightarrow>
      hom_app lib (hom_select lib skip ev img neg) d = ev d"
    and select_skip: "d \<notin> {dd_null lib, dd_one lib, dd_top lib} \<Longrightarrow> skip (dd_variable lib d) = Inr True \<Longrightarrow>
      hom_app lib (hom_select lib skip ev img neg) d =
        rbind (rmap (\<lambda>(x, c). rbind (hom_app lib (hom_select lib skip ev img neg) c)
          (\<lambda>c'. Inr (dd_node lib (dd_variable lib d) x c'))) (dd_arcs lib d)) (\<lambda>ds. Inr (dd_add lib ds))"
    and select_not: "Hnot (hops lib) (hom_select lib skip ev img (Inr g)) = g"
    and sel_id: "negatable lib n r (Hid (hops lib)) Q (\<lambda>p. True)"
    and sel_null: "negatable lib n r (Hnull (hops lib)) Q (\<lambda>p. False)"
    and sel_add: "list_all2 (\<lambda>h P. negatable lib n r h Q P) hs Ps \<Longrightarrow> negatable lib n r (Hadd (hops lib) hs) Q (\<lambda>p. \<exists>P\<in>set Ps. P p)"
    and sel_ccompose: "list_all2 (\<lambda>h P. negatable lib n r h Q P) hs Ps \<Longrightarrow> negatable lib n r (hom_ccompose lib hs) Q (\<lambda>p. \<forall>P\<in>set Ps. P p)"
    and sel_prim: "v < n \<Longrightarrow> f \<notin> {postPlace, setVarConst} \<Longrightarrow> negatable lib n r (hom_prim lib f (int v) x) Q (\<lambda>p. hom_test f (p ! v) x)"
    and sel_cmp: "v < n \<Longrightarrow> w < n \<Longrightarrow> negatable lib n r (hom_cmp_var lib k (int v) (int w)) Q (\<lambda>p. comp_sem k (p ! v) (p ! w))"

section \<open>A comparison on one edge\<close>

lemma bool_const_type [simp]: "bgetExpr b = BoolConstExpr t \<Longrightarrow> bool_getType (bgetExpr b) = BOOLCONST \<and> bool_getValue (bgetExpr b) = Inr t"
  by simp

lemma comp_type_neq [simp]: "comp_type k \<noteq> BOOLCONST" "comp_type k \<noteq> BOOLNDEF"
  by (cases k; simp)+

lemma comparison_type: "comparison A k b \<Longrightarrow> bool_getType (bgetExpr b) \<noteq> BOOLCONST \<and> bool_getType (bgetExpr b) \<noteq> BOOLNDEF"
  by (auto simp: comparison_def)

lemma ctouches_only:
  assumes "cmentions A b \<subseteq> upto vo (Suc n)" "n < length (go_map vo)" "\<not> ctouches A (locs vo ! n) b"
  shows "cmentions A b \<subseteq> upto vo n"
  using assms touched_only [OF _ assms(2)] unfolding cmentions_def ctouches_def by blast

lemma edge_compare:
  assumes lin: "linear_less (iless A)" and vo: "order_ok vo" "n < length (go_map vo)" and b: "comparison A k b"
    and P: "P \<noteq> {}" "\<And>p. p \<in> P \<Longrightarrow> length p = n" and vl: "taggable vl"
    and vals: "\<And>p. p \<in> P \<Longrightarrow> \<exists>t. decided vo (Suc n) (p @ [vl]) b t"
  obtains e where "Predicate_simplify A b (go_map vo ! n) vl = Inr e"
    "(\<exists>t. bgetExpr e = BoolConstExpr t \<and> (\<forall>p\<in>P. decided vo (Suc n) (p @ [vl]) b t))
     \<or> comparison A k e \<and> csize A e \<le> csize A b \<and> cmentions A e \<subseteq> cmentions A b
       \<and> locs vo ! n \<notin> leaves (lgx A e) \<union> leaves (rgx A e)
       \<and> (\<forall>p\<in>P. \<forall>t. decided vo (Suc n) (p @ [vl]) b t \<longrightarrow> decided vo (Suc n) (p @ [vl]) e t)"
proof -
  define l where "l = locs vo ! n"
  define curv where "curv = go_map vo ! n"
  note o = order_var [OF vo, folded curv_def l_def]
  note supp = comparison_isSupport [OF o(1,2) b]
  show thesis
  proof (cases "ctouches A l b")
    case False
    then have "l \<notin> leaves (lgx A b) \<union> leaves (rgx A b)" by (cases l) (auto simp: ctouches_def)
    then show thesis using False b by (intro that [of b]) (auto simp: Predicate_simplify_def supp(1) simp flip: l_def curv_def)
  next
    case True
    note K = createIConstant_good [OF vl, of A] and curv = eloc_gx [OF o(1,2)]
    have Sn: "Suc n \<le> length (go_map vo)" using vo(2) by simp
    have fine: "length q = Suc n \<and> value_on vo (Suc n) q curv vl \<and> (\<exists>t. decided vo (Suc n) q b t)"
      if q: "q \<in> (\<lambda>p. p @ [vl]) ` P" for q
    proof -
      obtain p where p: "p \<in> P" "q = p @ [vl]" using q by blast
      have "denote \<gamma> curv = Some vl" if "agrees vo (Suc n) q \<gamma>" for \<gamma>
        using that P(2) [OF p(1)] curv(3) [of \<gamma>] vl by (simp add: p(2) agrees_Suc chk_def l_def del: nth_map)
      with vals [OF p(1)] P(2) [OF p(1)] p(2) show ?thesis by (simp add: value_on_def)
    qed
    from P(1) have ne: "(\<lambda>p. p @ [vl]) ` P \<noteq> {}" by simp
    obtain e where e: "BoolExpression_setAssertion A (edge_assertion A curv vl) b = Inr e"
      "(\<exists>t. bgetExpr e = BoolConstExpr t \<and> (\<forall>p\<in>(\<lambda>p. p @ [vl]) ` P. decided vo (Suc n) p b t))
       \<or> simpler A k curv vl b e \<and> (\<forall>p\<in>(\<lambda>p. p @ [vl]) ` P. \<forall>t. decided vo (Suc n) p b t \<longrightarrow> decided vo (Suc n) p e t)"
      by (rule comparison_on [OF lin vo(1) Sn b curv(1) supp(2) [OF True] conjunct1 [OF K] conjunct2 [OF K] ne fine])
    have simp: "Predicate_simplify A b (go_map vo ! n) vl = Inr e"
      using True e(1) by (simp add: Predicate_simplify_def supp(1) flip: curv_def)
    from e(2) show thesis
    proof (elim disjE conjE)
      assume s: "simpler A k curv vl b e" and d: "\<forall>p\<in>(\<lambda>p. p @ [vl]) ` P. \<forall>t. decided vo (Suc n) p b t \<longrightarrow> decided vo (Suc n) p e t"
      have "leaf (gx A curv) = {l}" by (rule curv(2))
      with simpler_facts [OF s] have "locs vo ! n \<notin> leaves (lgx A e) \<union> leaves (rgx A e)" by (auto simp: l_def simp del: nth_map)
      with s d simpler_facts(1,2) [OF s] show thesis by (intro that [OF simp]) (auto simp: simpler_def)
    qed (use that [OF simp] in auto)
  qed
qed

text \<open>The paths \<open>h\<close> is to keep.\<close>

abbreviation holds :: "GalOrder \<Rightarrow> nat \<Rightarrow> BoolExpression \<Rightarrow> int list set \<Rightarrow> int list set" where
  "holds vo n b S \<equiv> {p \<in> S. decided vo n p b True}"

context dd_selectors begin

lemma predicate_edge:
  assumes lin: "linear_less (iless A)" and vo: "order_ok vo" "n < length (go_map vo)"
    and b: "comparison A k b" "cmentions A b \<subseteq> upto vo (Suc n)" and child: "dd_level lib n child" "taggable vl"
    and vals: "\<And>p. p \<in> dd_paths lib n child \<Longrightarrow> \<exists>t. decided vo (Suc n) (p @ [vl]) b t"
    and query: "\<And>s d. askable lib A vo (Suc n) s d \<Longrightarrow> isize (gx A s) \<le> csize A b \<Longrightarrow>
      \<exists>m. qry s d = Inr m \<and> answers lib A vo (Suc n) s d m"
    and const: "\<And>e Q t. bgetExpr e = BoolConstExpr t \<Longrightarrow> \<exists>h. pred e = Inr h \<and> keeps lib (Suc n) h Q (\<lambda>p. t)"
    and here: "\<And>e Q. comparison A k e \<Longrightarrow> cmentions A e \<subseteq> upto vo (Suc n) \<Longrightarrow> csize A e < csize A b \<Longrightarrow>
      (\<And>p. p \<in> Q \<Longrightarrow> length p = Suc n \<and> (\<exists>t. decided vo (Suc n) p e t)) \<Longrightarrow>
      \<exists>h. pred e = Inr h \<and> keeps lib (Suc n) h Q (\<lambda>p. decided vo (Suc n) p e True)"
    and down: "\<And>e. comparison A k e \<Longrightarrow> cmentions A e \<subseteq> upto vo n \<Longrightarrow> csize A e \<le> csize A b \<Longrightarrow>
      (\<And>p. p \<in> dd_paths lib n child \<Longrightarrow> length p = n \<and> (\<exists>t. decided vo n p e t)) \<Longrightarrow>
      \<exists>h. pred e = Inr h \<and> keeps lib n h (dd_paths lib n child) (\<lambda>p. decided vo n p e True)"
  shows "\<exists>ds. Predicate_edge lib A qry pred b (int n) (go_map vo ! n) (vl, child) = Inr ds \<and> (\<forall>d\<in>set ds. level0 lib (Suc n) d)
    \<and> (\<Union>d\<in>set ds. dd_paths lib (Suc n) d) = holds vo (Suc n) b ((\<lambda>p. p @ [vl]) ` dd_paths lib n child)"
proof -
  define curv where "curv = go_map vo ! n"
  define l where "l = locs vo ! n"
  define P where "P = dd_paths lib n child"
  define nd where "nd = dd_node lib (int n) vl child"
  note o = order_var [OF vo, folded curv_def l_def]
  have node: "dd_level lib (Suc n) nd" "dd_paths lib (Suc n) nd = (\<lambda>p. p @ [vl]) ` P"
    using node_level [OF child] node_paths [OF child(1), of vl] by (simp_all add: nd_def P_def)
  have len: "length p = n" if "p \<in> P" for p using that dd_paths_length by (auto simp: P_def)
  have P0: "P \<noteq> {}" using dd_paths_nonempty [OF child(1)] by (simp add: P_def)
  have Sn: "Suc n \<le> length (go_map vo)" using vo(2) by simp
  have vals: "\<exists>t. decided vo (Suc n) (p @ [vl]) b t" if "p \<in> P" for p using vals that by (simp add: P_def)
  note unique = decided_unique [OF vo(1) Sn]
  obtain e where e: "Predicate_simplify A b curv vl = Inr e"
    "(\<exists>t. bgetExpr e = BoolConstExpr t \<and> (\<forall>p\<in>P. decided vo (Suc n) (p @ [vl]) b t))
     \<or> comparison A k e \<and> csize A e \<le> csize A b \<and> cmentions A e \<subseteq> cmentions A b \<and> l \<notin> leaves (lgx A e) \<union> leaves (rgx A e)
       \<and> (\<forall>p\<in>P. \<forall>t. decided vo (Suc n) (p @ [vl]) b t \<longrightarrow> decided vo (Suc n) (p @ [vl]) e t)"
    by (rule edge_compare [OF lin vo b(1) P0 len child(2) vals, folded curv_def l_def])
  show ?thesis
  proof (cases "\<exists>t. bgetExpr e = BoolConstExpr t \<and> (\<forall>p\<in>P. decided vo (Suc n) (p @ [vl]) b t)")
    case True
    then obtain t where t: "bgetExpr e = BoolConstExpr t" "\<And>p. p \<in> P \<Longrightarrow> decided vo (Suc n) (p @ [vl]) b t" by blast
    have "decided vo (Suc n) (p @ [vl]) b True \<longleftrightarrow> t" if p: "p \<in> P" for p
    proof
      have l: "length (p @ [vl]) = Suc n" using len [OF p] by simp
      show "t" if "decided vo (Suc n) (p @ [vl]) b True" using unique [OF l that t(2) [OF p]] by simp
      show "decided vo (Suc n) (p @ [vl]) b True" if t using t(2) [OF p] that by simp
    qed
    then have "holds vo (Suc n) b ((\<lambda>p. p @ [vl]) ` P) = (if t then (\<lambda>p. p @ [vl]) ` P else {})"
      by (cases t) auto
    moreover have "Predicate_edge lib A qry pred b (int n) curv (vl, child) = Inr (if t then [nd] else [])"
      using e(1) t(1) by (simp add: Predicate_edge_def nd_def)
    ultimately show ?thesis using node by (auto simp: level0_def P_def curv_def simp del: dd_level.simps dd_paths.simps)
  next
    case False
    with e(2) have ec: "comparison A k e" "csize A e \<le> csize A b" "cmentions A e \<subseteq> upto vo (Suc n)"
      and lf: "l \<notin> leaves (lgx A e) \<union> leaves (rgx A e)"
      and dec: "\<And>p t. p \<in> P \<Longrightarrow> decided vo (Suc n) (p @ [vl]) b t \<Longrightarrow> decided vo (Suc n) (p @ [vl]) e t" using b(2) by blast+
    have same: "decided vo (Suc n) (p @ [vl]) e True \<longleftrightarrow> decided vo (Suc n) (p @ [vl]) b True" if p: "p \<in> P" for p
    proof -
      from vals [OF p] obtain t where t: "decided vo (Suc n) (p @ [vl]) b t" by blast
      have "length (p @ [vl]) = Suc n" using len [OF p] by simp
      from unique [OF this] t dec [OF p t] show ?thesis by metis
    qed
    have decs: "length q = Suc n \<and> (\<exists>t. decided vo (Suc n) q e t)" if q: "q \<in> dd_paths lib (Suc n) nd" for q
      using q vals dec len unfolding node(2) by fastforce
    have goal: "holds vo (Suc n) e (dd_paths lib (Suc n) nd) = holds vo (Suc n) b ((\<lambda>p. p @ [vl]) ` P)"
      unfolding node(2) using same by auto
    note type = comparison_type [OF ec(1)] and supp = comparison_isSupport(1) [OF o(1,2) ec(1)]
    define s where "s = BoolExpression_getFirstSubExpr A e"
    have edge: "Predicate_edge lib A qry pred b (int n) curv (vl, child) =
        (if ctouches A l e then
           rbind (qry s nd) (rmap (\<lambda>(k, d).
             rbind (BoolExpression_setAssertion A (Assertion_of A s k) e) (\<lambda>e'. rbind (pred e') (\<lambda>h. hom_app lib h d))))
         else rbind (pred e) (\<lambda>h. rbind (hom_app lib h child) (\<lambda>c. Inr [dd_node lib (int n) vl c])))"
      using e(1) type by (simp add: Predicate_edge_def supp s_def nd_def Let_def)
    have "\<exists>ds. Predicate_edge lib A qry pred b (int n) curv (vl, child) = Inr ds \<and> (\<forall>d\<in>set ds. level0 lib (Suc n) d)
        \<and> (\<Union>d\<in>set ds. dd_paths lib (Suc n) d) = holds vo (Suc n) e (dd_paths lib (Suc n) nd)"
    proof (cases "ctouches A l e")
      case True
      have ms: "mentions (lgx A e) \<subseteq> upto vo (Suc n)" "mentions (rgx A e) \<subseteq> upto vo (Suc n)" using ec(3) by (simp_all add: cmentions_def)
      have fits: "fits A (left_side e)" "fits A (right_side e)" using ec(1) by (simp_all add: comparison_def)
      have "accesses (lgx A e) \<noteq> {} \<or> accesses (rgx A e) \<noteq> {}"
        using still_touched [OF vo ms(1)] still_touched [OF vo ms(2)] True lf unfolding ctouches_def l_def by blast
      note sub = comparison_sub [OF lin ec(1) this, folded s_def]
      have sm: "mentions (gx A s) \<subseteq> upto vo (Suc n)"
        using sub(2) index_mentions [of "gx A s" _ A] fits_canon [OF lin fits(1)] fits_canon [OF lin fits(2)] ms by blast
      have small: "isize (gx A s) < csize A e" using sub(2) indexes_size unfolding csize_def by fastforce
      have sval: "\<exists>w. value_on vo (Suc n) p s w" if p: "p \<in> dd_paths lib (Suc n) nd" for p
      proof -
        from decs [OF p] decided_sides [OF lin vo(1) Sn _ ec(1,3)] obtain i j where
          "value_on vo (Suc n) p (left_side e) i" "value_on vo (Suc n) p (right_side e) j" by blast
        with sub(2) fits_index_value [OF lin vo(1) Sn _ fits(1) ms(1) _ sub(1)] fits_index_value [OF lin vo(1) Sn _ fits(2) ms(2) _ sub(1)]
          decs [OF p] show ?thesis by blast
      qed
      have "askable lib A vo (Suc n) s nd" unfolding askable_def using sub(1) sm Sn node(1) sval by blast
      from query [OF this] small ec(2) obtain m where m: "qry s nd = Inr m" "answers lib A vo (Suc n) s nd m" by auto
      let ?f = "\<lambda>(k, d). rbind (BoolExpression_setAssertion A (Assertion_of A s k) e) (\<lambda>e'. rbind (pred e') (\<lambda>h. hom_app lib h d))"
      have "\<exists>ds. rmap ?f m = Inr ds \<and> (\<forall>d\<in>set ds. level0 lib (Suc n) d)
          \<and> (\<Union>d\<in>set ds. dd_paths lib (Suc n) d) = (\<Union>x\<in>set m. holds vo (Suc n) e (dd_paths lib (Suc n) (snd x)))"
      proof (rule rmap_yields)
        fix x assume x: "x \<in> set m"
        obtain a d where ad: "x = (a, d)" by (cases x)
        from answers_entry [OF m(2) x [unfolded ad]] obtain w where w: "good A a" "const_val a = Some w" "dd_level lib (Suc n) d"
          "dd_paths lib (Suc n) d \<subseteq> dd_paths lib (Suc n) nd" "\<And>p. p \<in> dd_paths lib (Suc n) d \<Longrightarrow> value_on vo (Suc n) p s w" by blast
        have fine: "length p = Suc n \<and> value_on vo (Suc n) p s w \<and> (\<exists>t. decided vo (Suc n) p e t)" if "p \<in> dd_paths lib (Suc n) d" for p
          using w(4,5) decs that by blast
        obtain e' where e': "BoolExpression_setAssertion A (Assertion_of A s a) e = Inr e'"
          "(\<exists>t. bgetExpr e' = BoolConstExpr t \<and> (\<forall>p\<in>dd_paths lib (Suc n) d. decided vo (Suc n) p e t))
           \<or> simpler A k s w e e' \<and> (\<forall>p\<in>dd_paths lib (Suc n) d. \<forall>t. decided vo (Suc n) p e t \<longrightarrow> decided vo (Suc n) p e' t)"
          by (rule comparison_on [OF lin vo(1) Sn ec(1) sub(1,3) w(1,2) dd_paths_nonempty [OF w(3)] fine])
        have "\<exists>h. pred e' = Inr h \<and> keeps lib (Suc n) h (dd_paths lib (Suc n) d) (\<lambda>p. decided vo (Suc n) p e True)"
          using e'(2)
        proof (elim disjE exE conjE)
          fix t assume t: "bgetExpr e' = BoolConstExpr t" "\<forall>p\<in>dd_paths lib (Suc n) d. decided vo (Suc n) p e t"
          have eq: "t \<longleftrightarrow> decided vo (Suc n) p e True" if "p \<in> dd_paths lib (Suc n) d" for p
            using unique [OF conjunct1 [OF fine [OF that]]] t(2) that by metis
          from const [OF t(1)] obtain h where h: "pred e' = Inr h" "keeps lib (Suc n) h (dd_paths lib (Suc n) d) (\<lambda>p. t)" by blast
          have "keeps lib (Suc n) h (dd_paths lib (Suc n) d) (\<lambda>p. decided vo (Suc n) p e True)"
            by (rule keeps_cong [OF h(2)]) (rule eq)
          with h(1) show ?thesis by blast
        next
          assume sr: "simpler A k s w e e'" and d': "\<forall>p\<in>dd_paths lib (Suc n) d. \<forall>t. decided vo (Suc n) p e t \<longrightarrow> decided vo (Suc n) p e' t"
          note facts = simpler_facts [OF sr]
          have "comparison A k e'" using sr by (simp add: simpler_def)
          moreover have "cmentions A e' \<subseteq> upto vo (Suc n)" using facts(2) ec(3) by blast
          moreover have "csize A e' < csize A b" using facts(4) [OF sub(2)] ec(2) by simp
          moreover have "length p = Suc n \<and> (\<exists>t. decided vo (Suc n) p e' t)" if "p \<in> dd_paths lib (Suc n) d" for p
            using fine [OF that] d' that by blast
          ultimately obtain h where
            h: "pred e' = Inr h" "keeps lib (Suc n) h (dd_paths lib (Suc n) d) (\<lambda>p. decided vo (Suc n) p e' True)" using here by meson
          have eq: "decided vo (Suc n) p e' True \<longleftrightarrow> decided vo (Suc n) p e True" if "p \<in> dd_paths lib (Suc n) d" for p
            using unique [OF conjunct1 [OF fine [OF that]]] fine [OF that] d' that by metis
          have "keeps lib (Suc n) h (dd_paths lib (Suc n) d) (\<lambda>p. decided vo (Suc n) p e True)"
            by (rule keeps_cong [OF h(2)]) (rule eq)
          with h(1) show ?thesis by blast
        qed
        then obtain h where h: "pred e' = Inr h" "keeps lib (Suc n) h (dd_paths lib (Suc n) d) (\<lambda>p. decided vo (Suc n) p e True)" by blast
        have "level0 lib (Suc n) d" using w(3) by (simp add: level0_def)
        from keepsD [OF h(2) this order_refl] h(1) e'(1)
        show "\<exists>d. ?f x = Inr d \<and> level0 lib (Suc n) d \<and> dd_paths lib (Suc n) d = holds vo (Suc n) e (dd_paths lib (Suc n) (snd x))"
          by (simp add: ad del: dd_paths.simps)
      qed
      moreover have "(\<Union>x\<in>set m. holds vo (Suc n) e (dd_paths lib (Suc n) (snd x))) = holds vo (Suc n) e (dd_paths lib (Suc n) nd)"
      proof -
        have "(\<Union>x\<in>set m. dd_paths lib (Suc n) (snd x)) = dd_paths lib (Suc n) nd"
          using m(2) unfolding answers_def paths_of_def by (force simp del: dd_paths.simps)
        then show ?thesis by blast
      qed
      ultimately show ?thesis unfolding edge using True m(1) by simp
    next
      case False
      have cm: "cmentions A e \<subseteq> upto vo n" using ctouches_only [OF ec(3) vo(2)] False by (simp add: l_def)
      note app = decided_append_iff [OF lin vo len ec(1) cm]
      have "length p = n \<and> (\<exists>t. decided vo n p e t)" if p: "p \<in> dd_paths lib n child" for p
      proof -
        have "p \<in> P" using p by (simp add: P_def)
        then show ?thesis using app vals [of p] dec len by blast
      qed
      from down [OF ec(1) cm ec(2) this] obtain h where h: "pred e = Inr h" "keeps lib n h P (\<lambda>p. decided vo n p e True)"
        by (auto simp: P_def)
      have "level0 lib n child" using child(1) by (simp add: level0_def)
      from keepsD [OF h(2) this] obtain c where c: "hom_app lib h child = Inr c" "level0 lib n c" "dd_paths lib n c = holds vo n e P"
        by (auto simp: P_def)
      have "(\<lambda>p. p @ [vl]) ` holds vo n e P = holds vo (Suc n) e ((\<lambda>p. p @ [vl]) ` P)" using app by auto
      with node_level0 [OF c(2) child(2)] c h(1) False show ?thesis
        unfolding edge node(2) by (simp del: dd_paths.simps)
    qed
    then show ?thesis unfolding goal by (simp add: P_def curv_def del: dd_level.simps dd_paths.simps)
  qed
qed

end

section \<open>A comparison on a diagram\<close>

lemma const_comparison:
  assumes lin: "linear_less (iless A)" and b: "comparison A k b" "cmentions A b \<subseteq> {}" and t: "bdenote \<gamma> b = Some t"
  shows "\<exists>r. BoolExpression_eval A b = Inr r \<and> bgetExpr r = BoolConstExpr t"
proof -
  from b(1) obtain x y env where bb: "b = BExpr (BinaryBoolComp k x y) env" and fits: "fits A (IExpr x env)" "fits A (IExpr y env)"
    by (auto simp: comparison_def)
  have "leaves (lgx A b) = {}" "leaves (rgx A b) = {}" using b(2) leaves_mentions unfolding cmentions_def by blast+
  then have "is_const (lgx A b)" "is_const (rgx A b)"
    using leaves_nonempty fits_canon [OF lin fits(1)] fits_canon [OF lin fits(2)] unfolding bb by fastforce+
  then obtain s s' where xy: "x = ConstTag s" "y = ConstTag s'" by (auto simp: bb gx_def is_const_iff)
  with t have t: "t = comp_constEval k (untag_const s) (untag_const s')" by (auto simp: bb sem_simps comp_constEval_sem)
  have "eval_bool A (BinaryBoolComp k x y) = Inr (BoolConstExpr t)" by (simp add: xy t BinaryBoolComp_eval_def)
  moreover have "fst (gc_bool A (BoolConstExpr t) env) = BoolConstExpr t" by (simp add: gc_bool_def gc_def split: prod.splits)
  ultimately show ?thesis by (cases "gc_bool A (BoolConstExpr t) env") (simp add: bb mk_bool_def)
qed

context dd_selectors begin

lemma predicate_apply:
  assumes lin: "linear_less (iless A)" and vo: "order_ok vo" and b: "comparison A k b" "csize A b \<le> B"
    and query: "\<And>n s d. askable lib A vo n s d \<Longrightarrow> query_fuel B n (isize (gx A s)) \<le> m \<Longrightarrow> isize (gx A s) \<le> B \<Longrightarrow> 0 < n \<Longrightarrow>
      \<exists>r. qry s d = Inr r \<and> answers lib A vo n s d r"
    and const: "\<And>e n Q t. bgetExpr e = BoolConstExpr t \<Longrightarrow> 0 < m \<Longrightarrow> \<exists>h. pred e = Inr h \<and> keeps lib n h Q (\<lambda>p. t)"
    and pred: "\<And>n e Q. comparison A k e \<Longrightarrow> cmentions A e \<subseteq> upto vo n \<Longrightarrow> n \<le> length (go_map vo) \<Longrightarrow> csize A e \<le> B \<Longrightarrow>
      assign_fuel B n (csize A e) \<le> m \<Longrightarrow> (\<And>p. p \<in> Q \<Longrightarrow> length p = n \<and> (\<exists>t. decided vo n p e t)) \<Longrightarrow>
      \<exists>h. pred e = Inr h \<and> keeps lib n h Q (\<lambda>p. decided vo n p e True)"
  shows "cmentions A b \<subseteq> upto vo n \<Longrightarrow> n \<le> length (go_map vo) \<Longrightarrow> assign_fuel B n (csize A b) \<le> Suc m \<Longrightarrow> level0 lib n d \<Longrightarrow>
    (\<And>p. p \<in> dd_paths lib n d \<Longrightarrow> \<exists>t. decided vo n p b t) \<Longrightarrow>
    \<exists>d'. hom_app lib (Predicate lib A vo qry pred b) d = Inr d' \<and> level0 lib n d' \<and> dd_paths lib n d' = holds vo n b (dd_paths lib n d)"
proof (induction n arbitrary: d)
  case (0 d)
  have "d = dd_null lib \<or> d = dd_one lib" using "0.prems"(4) by (simp add: level0_def)
  then show ?case
  proof
    assume d: "d = dd_null lib"
    then have "hom_app lib (Predicate lib A vo qry pred b) d = Inr (dd_null lib)"
      using select_eval [of d] by (simp add: Predicate_def Predicate_eval_def)
    then show ?thesis using terminals d by (simp add: level0_def)
  next
    assume d: "d = dd_one lib"
    then obtain t where t: "decided vo 0 [] b t" using "0.prems"(5) by auto
    then obtain \<gamma> where \<gamma>: "bdenote \<gamma> b = Some t" by (auto simp: decided_def agrees_def)
    have "cmentions A b \<subseteq> {}" using "0.prems"(1) by (simp add: upto_def)
    from const_comparison [OF lin b(1) this \<gamma>] obtain r where r: "BoolExpression_eval A b = Inr r" "bgetExpr r = BoolConstExpr t" by blast
    have "hom_app lib (Predicate lib A vo qry pred b) d = Inr (if t then dd_one lib else dd_null lib)"
      using select_eval [of d] terminals r by (simp add: d Predicate_def Predicate_eval_def Predicate_one_def)
    moreover have "decided vo 0 [] b True \<longleftrightarrow> t" using t \<gamma> by (auto simp: decided_def agrees_def)
    ultimately show ?thesis using terminals by (auto simp: d level0_def)
  qed
next
  case (Suc n d)
  define h where "h = Predicate lib A vo qry pred b"
  define l where "l = locs vo ! n"
  show ?case
  proof (cases "d = dd_null lib")
    case True
    then have "hom_app lib h d = Inr (dd_null lib)" using select_eval [of d] by (simp add: h_def Predicate_def Predicate_eval_def)
    then show ?thesis using True by (simp add: level0_def flip: h_def)
  next
    case False
    with Suc.prems(4) have d: "dd_level lib (Suc n) d" by (simp add: level0_def)
    have n: "n < length (go_map vo)" using Suc.prems(2) by simp
    have node: "d \<notin> {dd_null lib, dd_one lib, dd_top lib}" "dd_variable lib d = int n" using d by simp_all
    have arc: "taggable x \<and> dd_level lib n c" if "(x, c) \<in> set (dd_arcs lib d)" for x c using d that by auto
    have paths: "dd_paths lib (Suc n) d = (\<Union>x\<in>set (dd_arcs lib d). (\<lambda>p. p @ [fst x]) ` dd_paths lib n (snd x))" using node(1) by simp
    note o = order_var [OF vo n]
    have skip: "Predicate_skip vo b (dd_variable lib d) = Inr (\<not> ctouches A l b)"
      using n comparison_isSupport(1) [OF o(1,2) b(1)] by (simp add: Predicate_skip_def out_of_order_def node(2) o(3) l_def)
    let ?W = "\<lambda>x. holds vo (Suc n) b ((\<lambda>p. p @ [fst x]) ` dd_paths lib n (snd x))"
    have add: ?thesis
      if ds: "hom_app lib h d = Inr (dd_add lib ds)" "\<forall>d\<in>set ds. level0 lib (Suc n) d"
        "(\<Union>d\<in>set ds. dd_paths lib (Suc n) d) = (\<Union>x\<in>set (dd_arcs lib d). ?W x)" for ds
    proof -
      have "(\<Union>x\<in>set (dd_arcs lib d). ?W x) = holds vo (Suc n) b (dd_paths lib (Suc n) d)" unfolding paths by blast
      with add_level [of ds "Suc n"] add_paths [of ds "Suc n"] ds show ?thesis by (simp add: h_def del: dd_paths.simps)
    qed
    have dec: "\<exists>t. decided vo (Suc n) (p @ [v]) b t" if "(v, c) \<in> set (dd_arcs lib d)" "p \<in> dd_paths lib n c" for v c p
      by (rule Suc.prems(5)) (use that in \<open>force simp: paths simp del: dd_paths.simps\<close>)
    show ?thesis
    proof (cases "ctouches A l b")
      case False
      have cm: "cmentions A b \<subseteq> upto vo n" using ctouches_only [OF Suc.prems(1) n] False by (simp add: l_def)
      have each: "\<exists>c'. (case x of (v, c) \<Rightarrow> rbind (hom_app lib h c) (\<lambda>c'. Inr (dd_node lib (dd_variable lib d) v c'))) = Inr c'
          \<and> level0 lib (Suc n) c' \<and> dd_paths lib (Suc n) c' = ?W x"
        if x: "x \<in> set (dd_arcs lib d)" for x
      proof -
        obtain v c where vc: "x = (v, c)" by (cases x)
        note a = arc [OF x [unfolded vc]]
        have app: "decided vo (Suc n) (p @ [v]) b t \<longleftrightarrow> decided vo n p b t" if "p \<in> dd_paths lib n c" for p t
          by (rule decided_append_iff [OF lin vo n dd_paths_length [OF that] b(1) cm])
        have c0: "level0 lib n c" using a by (simp add: level0_def)
        have "assign_fuel B n (csize A b) \<le> Suc m" using Suc.prems(3) by (simp add: assign_fuel_def)
        from Suc.IH [OF cm _ this c0] dec [OF x [unfolded vc]] app n obtain c' where c': "hom_app lib h c = Inr c'" "level0 lib n c'"
          "dd_paths lib n c' = holds vo n b (dd_paths lib n c)" unfolding h_def by (metis less_imp_le)
        have "(\<lambda>p. p @ [v]) ` holds vo n b (dd_paths lib n c) = ?W x" using app by (auto simp: vc)
        with node_level0 [OF c'(2) conjunct1 [OF a]] c'(1,3) show ?thesis by (simp add: vc node(2) del: dd_paths.simps)
      qed
      have "\<exists>ds. rmap (\<lambda>(v, c). rbind (hom_app lib h c) (\<lambda>c'. Inr (dd_node lib (dd_variable lib d) v c'))) (dd_arcs lib d) = Inr ds
          \<and> (\<forall>d\<in>set ds. level0 lib (Suc n) d) \<and> (\<Union>d\<in>set ds. dd_paths lib (Suc n) d) = (\<Union>x\<in>set (dd_arcs lib d). ?W x)"
        by (rule rmap_yields) (rule each)
      then obtain ds where ds: "rmap (\<lambda>(v, c). rbind (hom_app lib h c) (\<lambda>c'. Inr (dd_node lib (dd_variable lib d) v c'))) (dd_arcs lib d) = Inr ds"
        "\<forall>d\<in>set ds. level0 lib (Suc n) d" "(\<Union>d\<in>set ds. dd_paths lib (Suc n) d) = (\<Union>x\<in>set (dd_arcs lib d). ?W x)" by blast
      have "hom_app lib h d = Inr (dd_add lib ds)"
        using select_skip [OF node(1), of "Predicate_skip vo b"] skip False ds(1) by (simp add: h_def Predicate_def)
      from add [OF this ds(2,3)] show ?thesis .
    next
      case True
      have m0: "0 < m" using Suc.prems(3) by (simp add: assign_fuel_def)
      have each: "\<exists>ds. Predicate_edge lib A qry pred b (int n) (go_map vo ! n) x = Inr ds \<and> (\<forall>d\<in>set ds. level0 lib (Suc n) d)
          \<and> (\<Union>d\<in>set ds. dd_paths lib (Suc n) d) = ?W x"
        if x: "x \<in> set (dd_arcs lib d)" for x
      proof -
        obtain v c where vc: "x = (v, c)" by (cases x)
        note a = arc [OF x [unfolded vc]]
        show ?thesis
          unfolding vc fst_conv snd_conv
        proof (rule predicate_edge [OF lin vo n b(1) Suc.prems(1) conjunct2 [OF a] conjunct1 [OF a] dec [OF x [unfolded vc]]])
          show "\<exists>r. qry s d = Inr r \<and> answers lib A vo (Suc n) s d r"
            if "askable lib A vo (Suc n) s d" "isize (gx A s) \<le> csize A b" for s d
            by (rule query [OF that(1)]) (use that(2) b(2) Suc.prems(3) in \<open>auto simp: query_fuel_def assign_fuel_def\<close>)
          show "\<exists>h. pred e = Inr h \<and> keeps lib (Suc n) h Q (\<lambda>p. t)" if "bgetExpr e = BoolConstExpr t" for e Q t
            by (rule const [OF that m0])
          show "\<exists>h. pred e = Inr h \<and> keeps lib (Suc n) h Q (\<lambda>p. decided vo (Suc n) p e True)"
            if "comparison A k e" "cmentions A e \<subseteq> upto vo (Suc n)" "csize A e < csize A b"
              "\<And>p. p \<in> Q \<Longrightarrow> length p = Suc n \<and> (\<exists>t. decided vo (Suc n) p e t)" for e Q
            by (rule pred [OF that(1,2) _ _ _ that(4)]) (use that(3) b(2) Suc.prems(2,3) in \<open>auto simp: assign_fuel_def\<close>)
          show "\<exists>h. pred e = Inr h \<and> keeps lib n h (dd_paths lib n c) (\<lambda>p. decided vo n p e True)"
            if "comparison A k e" "cmentions A e \<subseteq> upto vo n" "csize A e \<le> csize A b"
              "\<And>p. p \<in> dd_paths lib n c \<Longrightarrow> length p = n \<and> (\<exists>t. decided vo n p e t)" for e
            by (rule pred [OF that(1,2) _ _ _ that(4)]) (use that(3) b(2) Suc.prems(2,3) in \<open>auto simp: assign_fuel_def\<close>)
        qed
      qed
      have "\<exists>dss. rmap (Predicate_edge lib A qry pred b (int n) (go_map vo ! n)) (dd_arcs lib d) = Inr dss
          \<and> (\<forall>d\<in>set (concat dss). level0 lib (Suc n) d) \<and> (\<Union>d\<in>set (concat dss). dd_paths lib (Suc n) d) = (\<Union>x\<in>set (dd_arcs lib d). ?W x)"
        by (rule rmap_union) (rule each)
      then obtain dss where dss: "rmap (Predicate_edge lib A qry pred b (int n) (go_map vo ! n)) (dd_arcs lib d) = Inr dss"
        "\<forall>d\<in>set (concat dss). level0 lib (Suc n) d" "(\<Union>d\<in>set (concat dss). dd_paths lib (Suc n) d) = (\<Union>x\<in>set (dd_arcs lib d). ?W x)" by blast
      have "hom_app lib h d = Inr (dd_add lib (concat dss))"
        using select_eval [where skip = "Predicate_skip vo b" and d = d] skip True node dss(1) o(3)
        by (simp add: h_def Predicate_def Predicate_eval_def)
      from add [OF this dss(2,3)] show ?thesis .
    qed
  qed
qed

end

section \<open>The basic selectors\<close>

lemma getIndex_scan_nth:
  "distinct xs \<Longrightarrow> j < length xs \<Longrightarrow> getIndex_scan xs (xs ! j) i = Inr (i + int j)"
proof (induction xs arbitrary: i j)
  case (Cons x xs)
  show ?case
  proof (cases j)
    case (Suc l)
    have l: "l < length xs" "distinct xs" "x \<notin> set xs" using Cons.prems Suc by simp_all
    then have "x \<noteq> xs ! l" using nth_mem by metis
    with Cons.IH [OF l(2,1), of "i + 1"] Suc show ?thesis by simp
  qed simp
qed simp

lemma order_ok_distinct: "order_ok vo \<Longrightarrow> distinct (go_map vo)"
  unfolding order_ok_def by (metis distinct_map)

lemma operator_kind: "nary_type k \<notin> {VAR, CONSTARRAY, INTCONST}" "unary_type k1 \<notin> {VAR, CONSTARRAY, INTCONST}"
    "binary_type k2 \<notin> {VAR, CONSTARRAY, INTCONST}"
  by (cases k, simp_all) (cases k1, simp_all, (cases k2, simp_all)?)

text \<open>A side that is a variable or a cell, and its place in the order.\<close>

lemma side_index:
  assumes lin: "linear_less (iless A)" and vo: "order_ok vo" "n \<le> length (go_map vo)"
    and x: "fits A (IExpr x env)" "int_getType x = VAR \<or> int_getType x = CONSTARRAY" "mentions (gx A (IExpr x env)) \<subseteq> upto vo n"
  obtains j where "j < n" "go_getIndex vo (createIntExpression A x env) = Inr (int j)"
    "\<And>p v. length p = n \<Longrightarrow> value_on vo n p (IExpr x env) v \<Longrightarrow> v = p ! j"
proof -
  note fx = fits_parts [OF x(1), simplified]
  define l where "l = (case x of VarExpr i \<Rightarrow> Scalar (env ! nat i) | ArrayConstExpr i k \<Rightarrow> Cell (env ! nat i) k)"
  have kind: "(\<exists>i. x = VarExpr i) \<or> (\<exists>i k. x = ArrayConstExpr i k)"
    using x(2) operator_kind by (cases x) auto
  then have leaf: "leaf (gx A (IExpr x env)) = {l}" and gl: "gx A (IExpr x env) = (case l of Scalar g \<Rightarrow> VarExpr g | Cell g k \<Rightarrow> ArrayConstExpr g k)"
    by (auto simp: gx_def l_def)
  have "l \<in> mentions (gx A (IExpr x env))" using gl by (cases l) (auto simp: mentions_def)
  with x(3) obtain j where j: "j < n" "l = locs vo ! j" using upto_nth by blast
  define w where "w = createIntExpression A x env"
  have w: "w = mk_int (gc_int A x env)" using kind by (auto simp: w_def createIntExpression_def)
  have gw: "good A w" "gx A w = gx A (IExpr x env)"
    using gx_mk_gc(1,2) [OF lin, of x env] fx unfolding w by (auto simp: gx_def)
  have "eloc w = Some l"
  proof (cases l)
    case (Scalar g)
    obtain y env' where wy: "w = IExpr y env'" by (simp add: w mk_int_def)
    with gw(2) gl Scalar obtain i where i: "y = VarExpr i" "env' ! nat i = g" by (cases y) (auto simp: gx_def)
    have "set env' = {g}" using gx_vars [OF gw(1)] gw(2) gl Scalar wy by simp
    moreover have "length env' = Suc 0" using distinct_card [OF env_ok_distinct, of env'] good_parts [OF gw(1)] wy calculation by simp
    ultimately obtain z where "env' = [z]" "z = g" by (auto simp: length_Suc_conv)
    moreover from this have "i = 0" using good_parts [OF gw(1)] wy i(1) by simp
    ultimately show ?thesis by (simp add: wy i(1) Scalar)
  qed (use good_eloc [OF gw(1)] gw(2) gl in simp)
  moreover have "eloc (go_map vo ! j) = Some l" using order_var(1) [OF vo(1), of j] j vo(2) by simp
  ultimately have "w = go_map vo ! j" by (rule eloc_inj)
  then have idx: "go_getIndex vo w = Inr (int j)"
    using getIndex_scan_nth [OF order_ok_distinct [OF vo(1)], of j 0] j(1) vo(2) by (simp add: go_getIndex_def)
  show thesis
  proof (rule that [OF j(1)])
    show "go_getIndex vo (createIntExpression A x env) = Inr (int j)" using idx by (simp add: w_def)
    fix p v assume p: "length p = n" "value_on vo n p (IExpr x env) v"
    obtain \<gamma> where \<gamma>: "agrees vo n p \<gamma>" using agrees_ex [OF vo p(1)] by blast
    have "look \<gamma> l = p ! j" using \<gamma> j by (simp add: agrees_def)
    moreover have "isem \<gamma> (gx A (IExpr x env)) = Some v" using p(2) \<gamma> fits_denote [OF x(1), of \<gamma>] by (simp add: value_on_def)
    ultimately show "v = p ! j" using gl by (cases l) (auto simp: chk_eq_Some)
  qed
qed

lemma var_cmp_state_test: "hom_test (var_cmp_state k) x y = comp_sem k x y" "var_cmp_state k \<notin> {postPlace, setVarConst}"
  by (cases k; simp)+

context dd_selectors begin

lemma visit_sound:
  assumes lin: "linear_less (iless A)" and vo: "order_ok vo" "n \<le> length (go_map vo)"
    and b: "comparison A k (BExpr (BinaryBoolComp k x y) env)" "cmentions A (BExpr (BinaryBoolComp k x y) env) \<subseteq> upto vo n"
    and Q: "\<And>p. p \<in> Q \<Longrightarrow> length p = n \<and> (\<exists>t. decided vo n p (BExpr (BinaryBoolComp k x y) env) t)"
    and mk: "negatable lib n r (mk (BExpr (BinaryBoolComp k x y) env)) Q (\<lambda>p. decided vo n p (BExpr (BinaryBoolComp k x y) env) True)"
  shows "\<exists>h. visitBinaryBoolComp lib A vo mk env k x y = Inr h
    \<and> negatable lib n r h Q (\<lambda>p. decided vo n p (BExpr (BinaryBoolComp k x y) env) True)"
proof -
  define bb where "bb = BExpr (BinaryBoolComp k x y) env"
  have fits: "fits A (IExpr x env)" "fits A (IExpr y env)" using b(1) by (simp_all add: comparison_def)
  have ment: "mentions (gx A (IExpr x env)) \<subseteq> upto vo n" "mentions (gx A (IExpr y env)) \<subseteq> upto vo n" using b(2) by (simp_all add: cmentions_def)
  have ndef: "x \<noteq> NDefExpr" "y \<noteq> NDefExpr" using fits_parts [OF fits(1)] fits_parts [OF fits(2)] by auto
  let ?isvar = "\<lambda>e. int_getType e = VAR \<or> int_getType e = CONSTARRAY"
  have general: "visitBinaryBoolComp lib A vo mk env k x y = Inr (mk bb)"
    if "\<not> ?isvar x" using that ndef by (simp add: visitBinaryBoolComp_def createComparison_class createBoolExpression_def bb_def)
  have sides: "\<exists>i j. value_on vo n p (IExpr x env) i \<and> value_on vo n p (IExpr y env) j \<and> (decided vo n p bb True \<longleftrightarrow> comp_sem k i j)"
    if p: "p \<in> Q" for p
  proof -
    from Q [OF p] obtain t where t: "decided vo n p bb t" "length p = n" by (auto simp: bb_def)
    from decided_sides [OF lin vo t(2) b [folded bb_def] t(1)] obtain i j where
      ij: "value_on vo n p (IExpr x env) i" "value_on vo n p (IExpr y env) j" "t = comp_sem k i j" by (auto simp: bb_def)
    moreover have "decided vo n p bb True \<longleftrightarrow> t" using decided_unique [OF vo t(2,1)] t(1) by metis
    ultimately show ?thesis by blast
  qed
  show ?thesis
    unfolding bb_def [symmetric]
  proof (cases "?isvar x")
    case False
    with general mk show "\<exists>h. visitBinaryBoolComp lib A vo mk env k x y = Inr h \<and> negatable lib n r h Q (\<lambda>p. decided vo n p bb True)"
      by (simp add: bb_def)
  next
    case True
    obtain j where j: "j < n" "go_getIndex vo (createIntExpression A x env) = Inr (int j)"
      "\<And>p v. length p = n \<Longrightarrow> value_on vo n p (IExpr x env) v \<Longrightarrow> v = p ! j"
      by (rule side_index [OF lin vo fits(1) True ment(1)]) (rule that, assumption+)
    consider (const) "int_getType y = INTCONST" | (var) "?isvar y" | (other) "int_getType y \<noteq> INTCONST" "\<not> ?isvar y" by blast
    then show "\<exists>h. visitBinaryBoolComp lib A vo mk env k x y = Inr h \<and> negatable lib n r h Q (\<lambda>p. decided vo n p bb True)"
    proof cases
      case const
      then obtain s where y: "y = ConstTag s" using operator_kind by (cases y) auto
      have "visitBinaryBoolComp lib A vo mk env k x y = Inr (hom_prim lib (var_cmp_state k) (int j) (untag_const s))"
        using True j(2) by (simp add: visitBinaryBoolComp_def y)
      moreover have "negatable lib n r (hom_prim lib (var_cmp_state k) (int j) (untag_const s)) Q (\<lambda>p. decided vo n p bb True)"
      proof (rule negatable_cong [OF sel_prim [OF j(1) var_cmp_state_test(2)]])
        fix p assume p: "p \<in> Q"
        then have len: "length p = n" using Q by blast
        from sides [OF p] obtain a c where ac: "value_on vo n p (IExpr x env) a" "value_on vo n p (IExpr y env) c"
          "decided vo n p bb True \<longleftrightarrow> comp_sem k a c" by blast
        obtain \<gamma> where "agrees vo n p \<gamma>" using agrees_ex [OF vo len] by blast
        with ac(2) have "c = untag_const s" by (auto simp: value_on_def y chk_eq_Some)
        with ac j(3) [OF len ac(1)] show "hom_test (var_cmp_state k) (p ! j) (untag_const s) \<longleftrightarrow> decided vo n p bb True"
          by (simp add: var_cmp_state_test)
      qed
      ultimately show ?thesis by blast
    next
      case var
      then have nc: "int_getType y \<noteq> INTCONST" by auto
      obtain i where i: "i < n" "go_getIndex vo (createIntExpression A y env) = Inr (int i)"
        "\<And>p v. length p = n \<Longrightarrow> value_on vo n p (IExpr y env) v \<Longrightarrow> v = p ! i"
        by (rule side_index [OF lin vo fits(2) var ment(2)]) (rule that, assumption+)
      have "visitBinaryBoolComp lib A vo mk env k x y = Inr (hom_cmp_var lib k (int j) (int i))"
        using True var nc j(2) i(2) by (simp add: visitBinaryBoolComp_def)
      moreover have "negatable lib n r (hom_cmp_var lib k (int j) (int i)) Q (\<lambda>p. decided vo n p bb True)"
      proof (rule negatable_cong [OF sel_cmp [OF j(1) i(1)]])
        fix p assume p: "p \<in> Q"
        then have len: "length p = n" using Q by blast
        from sides [OF p] j(3) [OF len] i(3) [OF len] show "comp_sem k (p ! j) (p ! i) \<longleftrightarrow> decided vo n p bb True" by metis
      qed
      ultimately show ?thesis by blast
    next
      case other
      with True j(2) ndef have "visitBinaryBoolComp lib A vo mk env k x y = Inr (mk bb)"
        by (simp add: visitBinaryBoolComp_def createComparison_class createBoolExpression_def bb_def)
      with mk show ?thesis by (simp add: bb_def)
    qed
  qed
qed

section \<open>The recursion\<close>

lemma predicate_const:
  "bgetExpr e = BoolConstExpr t \<Longrightarrow> 0 < m \<Longrightarrow> \<exists>h. predicate lib A vo m e = Inr h \<and> keeps lib n h Q (\<lambda>p. t)"
  using sel_id [of n 0] sel_null [of n 0] by (cases m; cases t) simp_all

text \<open>\<open>negate\<close> of a comparison: the opposite comparison of the same sides.\<close>

lemma comparison_negate:
  assumes "comparison A k e"
  defines "e' \<equiv> BoolExpression_pushNegations A (createNot e)"
  shows "comparison A (neg_comp k) e'" "csize A e' = csize A e" "cmentions A e' = cmentions A e"
    and "bdenote \<gamma> e' = map_option Not (bdenote \<gamma> e)"
proof -
  from assms(1) obtain x y env where e: "e = BExpr (BinaryBoolComp k x y) env"
    and fits: "fits A (IExpr x env)" "fits A (IExpr y env)" by (auto simp: comparison_def)
  have "x \<noteq> NDefExpr" "y \<noteq> NDefExpr" using fits_parts [OF fits(1)] fits_parts [OF fits(2)] by auto
  then have e': "e' = BExpr (BinaryBoolComp (neg_comp k) x y) env"
    by (simp add: e'_def e createNot_def BoolExpression_pushNegations_def pushNegations_def NotPusher_visitComp_def comp_node_eq)
  show "comparison A (neg_comp k) e'" "csize A e' = csize A e" "cmentions A e' = cmentions A e"
    using fits by (simp_all add: e e' comparison_def csize_def cmentions_def)
  show "bdenote \<gamma> e' = map_option Not (bdenote \<gamma> e)" by (cases e) (simp add: e'_def BoolExpression_pushNegations_sound createNot_def)
qed

lemma predicate_comparison:
  assumes lin: "linear_less (iless A)" and vo: "order_ok vo"
  shows "comparison A k e \<Longrightarrow> cmentions A e \<subseteq> upto vo n \<Longrightarrow> n \<le> length (go_map vo) \<Longrightarrow> csize A e \<le> B \<Longrightarrow>
      assign_fuel B n (csize A e) + r \<le> m \<Longrightarrow> (\<And>p. p \<in> Q \<Longrightarrow> length p = n \<and> (\<exists>t. decided vo n p e t)) \<Longrightarrow>
      \<exists>h. predicate lib A vo m e = Inr h \<and> negatable lib n r h Q (\<lambda>p. decided vo n p e True)"
proof (induction m arbitrary: n e Q k r)
  case 0
  then show ?case by (simp add: assign_fuel_def)
next
  case (Suc m)
  define mk where "mk = Predicate lib A vo (query lib A vo m) (predicate lib A vo m)"
  from Suc.prems(1) obtain x y env where e: "e = BExpr (BinaryBoolComp k x y) env"
    by (auto simp: comparison_def)
  have fuel: "assign_fuel B n (csize A e) \<le> Suc m" using Suc.prems(5) by simp
  have keep: "keeps lib n (mk e) Q (\<lambda>p. decided vo n p e True)"
    unfolding keeps_def
  proof (intro allI impI, elim conjE)
    fix d assume d: "level0 lib n d" "dd_paths lib n d \<subseteq> Q"
    show "\<exists>d'. hom_app lib (mk e) d = Inr d' \<and> level0 lib n d' \<and> dd_paths lib n d' = holds vo n e (dd_paths lib n d)"
      unfolding mk_def
    proof (rule predicate_apply [OF lin vo Suc.prems(1,4) _ _ _ Suc.prems(2,3) fuel d(1)])
      show "\<exists>r. query lib A vo m s d = Inr r \<and> answers lib A vo n s d r"
        if "askable lib A vo n s d" "query_fuel B n (isize (gx A s)) \<le> m" "isize (gx A s) \<le> B" "0 < n" for n s d
        by (rule query_sound [OF lin vo that(1) _ that(3,2)]) (use that(4) in simp)
      show "\<exists>h. predicate lib A vo m e = Inr h \<and> keeps lib n h Q (\<lambda>p. t)" if "bgetExpr e = BoolConstExpr t" "0 < m" for e n Q t
        by (rule predicate_const [OF that])
      show "\<exists>t. decided vo n p e t" if "p \<in> dd_paths lib n d" for p using Suc.prems(6) d(2) that by blast
      show "\<exists>h. predicate lib A vo m e = Inr h \<and> keeps lib n h Q (\<lambda>p. decided vo n p e True)"
        if "comparison A k e" "cmentions A e \<subseteq> upto vo n" "n \<le> length (go_map vo)" "csize A e \<le> B" "assign_fuel B n (csize A e) \<le> m"
          "\<And>p. p \<in> Q \<Longrightarrow> length p = n \<and> (\<exists>t. decided vo n p e t)" for n e Q
        using Suc.IH [of k e n 0 Q] that by simp
    qed
  qed
  have "negatable lib n r (mk e) Q (\<lambda>p. decided vo n p e True)"
  proof (cases r)
    case (Suc s)
    define e' where "e' = BoolExpression_pushNegations A (createNot e)"
    note neg = comparison_negate [OF Suc.prems(1), folded e'_def]
    have same: "decided vo n p e' (\<not> t)" if "decided vo n p e t" for p t using that by (simp add: decided_def neg(4))
    have "\<exists>h. predicate lib A vo m e' = Inr h \<and> negatable lib n s h Q (\<lambda>p. decided vo n p e' True)"
    proof (rule Suc.IH [OF neg(1)])
      show "length p = n \<and> (\<exists>t. decided vo n p e' t)" if "p \<in> Q" for p using Suc.prems(6) [OF that] same by blast
    qed (use Suc.prems in \<open>simp_all add: neg(2,3) \<open>r = Suc s\<close>\<close>)
    then obtain g where g: "predicate lib A vo m e' = Inr g" "negatable lib n s g Q (\<lambda>p. decided vo n p e' True)" by blast
    then have "Hnot (hops lib) (mk e) = g" by (simp add: mk_def Predicate_def Predicate_negate_def select_not flip: e'_def)
    moreover have "decided vo n p e' True \<longleftrightarrow> \<not> decided vo n p e True" if p: "p \<in> Q" for p
    proof -
      from Suc.prems(6) [OF p] obtain t where t: "length p = n" "decided vo n p e t" by blast
      have "decided vo n p e True \<longleftrightarrow> t" using decided_unique [OF vo Suc.prems(3) t, of True] t(2) by (cases t) auto
      moreover have "decided vo n p e' True \<longleftrightarrow> \<not> t"
        using decided_unique [OF vo Suc.prems(3) t(1) same [OF t(2)], of True] same [OF t(2)] by (cases t) auto
      ultimately show ?thesis by simp
    qed
    ultimately show ?thesis using keep negatable_cong [OF g(2)] by (simp add: Suc)
  qed (use keep in simp)
  from visit_sound [where mk = mk, OF lin vo Suc.prems(3) Suc.prems(1,2,6) [unfolded e] this [unfolded e]]
  show ?case by (simp add: e mk_def)
qed

end

section \<open>Guards\<close>

text \<open>Boolean combinations of comparisons on the variables of the diagram, of size at most \<open>B\<close>, each negation counting one.\<close>

fun guard_ok :: "heap_order \<Rightarrow> GalOrder \<Rightarrow> nat \<Rightarrow> nat \<Rightarrow> env \<Rightarrow> pbool \<Rightarrow> bool" where
  "guard_ok A vo n B env (NaryBoolExpr k ps) \<longleftrightarrow> list_all (guard_ok A vo n B env) ps"
| "guard_ok A vo n B env (BinaryBoolComp k x y) \<longleftrightarrow> comparison A k (BExpr (BinaryBoolComp k x y) env)
     \<and> cmentions A (BExpr (BinaryBoolComp k x y) env) \<subseteq> upto vo n \<and> csize A (BExpr (BinaryBoolComp k x y) env) \<le> B"
| "guard_ok A vo n B env (BoolConstExpr c) \<longleftrightarrow> True"
| "guard_ok A vo n B env (NotExpr e) \<longleftrightarrow> 0 < B \<and> guard_ok A vo n (B - 1) env e"
| "guard_ok A vo n B env BoolNDefExpr \<longleftrightarrow> False"

lemma guard_induct:
  assumes "\<And>k ps. (\<And>e. e \<in> set ps \<Longrightarrow> P e) \<Longrightarrow> P (NaryBoolExpr k ps)" "\<And>k x y. P (BinaryBoolComp k x y)"
    "\<And>c. P (BoolConstExpr c)" "\<And>e. P e \<Longrightarrow> P (NotExpr e)" "P BoolNDefExpr"
  shows "P e"
proof -
  have "P e" for A :: heap_order and vo :: GalOrder and n B :: nat and env :: env
    by (induction A vo n B env e rule: guard_ok.induct) (use assms in blast)+
  then show ?thesis .
qed

lemma guard_agrees:
  assumes lin: "linear_less (iless A)" and "agrees vo n p \<gamma>" "agrees vo n p \<delta>"
  shows "guard_ok A vo n B env e \<Longrightarrow> bsem (env_val \<gamma> env) e = bsem (env_val \<delta> env) e"
proof (induction e arbitrary: B rule: guard_induct)
  case (1 k ps)
  have "bsem (env_val \<gamma> env) e = bsem (env_val \<delta> env) e" if "e \<in> set ps" for e
    by (rule "1.IH" [OF that]) (use "1.prems" that in \<open>auto simp: list_all_iff\<close>)
  then have "map (bsem (env_val \<gamma> env)) ps = map (bsem (env_val \<delta> env)) ps" by simp
  then show ?case by (simp only: bsem.simps)
next
  case (2 k x y)
  then have "comparison A k (BExpr (BinaryBoolComp k x y) env)" "cmentions A (BExpr (BinaryBoolComp k x y) env) \<subseteq> upto vo n" by simp_all
  from bdenote_agrees(3) [OF lin this assms(2,3)] show ?case by simp
next
  case (4 e)
  from "4.IH" [of "B - 1"] "4.prems" show ?case by simp
qed simp_all

lemma guard_decided:
  assumes lin: "linear_less (iless A)" and vo: "order_ok vo" "n \<le> length (go_map vo)" "length p = n" and e: "guard_ok A vo n B env e"
  shows "(\<exists>t. decided vo n p (BExpr e env) t) \<longleftrightarrow> (\<exists>\<gamma>. agrees vo n p \<gamma> \<and> bsem (env_val \<gamma> env) e \<noteq> None)"
    and "agrees vo n p \<gamma> \<Longrightarrow> decided vo n p (BExpr e env) t \<longleftrightarrow> bsem (env_val \<gamma> env) e = Some t"
proof -
  show one: "decided vo n p (BExpr e env) t \<longleftrightarrow> bsem (env_val \<gamma> env) e = Some t" if "agrees vo n p \<gamma>" for \<gamma> t
  proof
    assume "bsem (env_val \<gamma> env) e = Some t"
    then show "decided vo n p (BExpr e env) t" using guard_agrees [OF lin that _ e] by (simp add: decided_def)
  qed (use that in \<open>simp add: decided_def\<close>)
  show "(\<exists>t. decided vo n p (BExpr e env) t) \<longleftrightarrow> (\<exists>\<gamma>. agrees vo n p \<gamma> \<and> bsem (env_val \<gamma> env) e \<noteq> None)"
    using one agrees_ex [OF vo] by blast
qed

context dd_selectors begin

lemma builder_sound:
  fixes m :: nat
  assumes lin: "linear_less (iless A)" and vo: "order_ok vo" "n \<le> length (go_map vo)"
  defines "mk \<equiv> Predicate lib A vo (query lib A vo m) (predicate lib A vo m)"
  shows "guard_ok A vo n B env e \<Longrightarrow> (\<And>p. p \<in> Q \<Longrightarrow> length p = n \<and> (\<exists>t. decided vo n p (BExpr e env) t)) \<Longrightarrow>
     assign_fuel B n B + r \<le> Suc m \<Longrightarrow>
     \<exists>h. PredHomBuilder lib A vo mk env e = Inr h \<and> negatable lib n r h Q (\<lambda>p. decided vo n p (BExpr e env) True)"
proof (induction e arbitrary: B r rule: guard_induct)
  case (2 k x y)
  let ?b = "BExpr (BinaryBoolComp k x y) env"
  have "assign_fuel B n (csize A ?b) + r \<le> Suc m" using "2.prems"(1,3) by (simp add: assign_fuel_def)
  from predicate_comparison [OF lin vo(1) _ _ vo(2) _ this, of k Q] "2.prems"
  show ?case by (simp add: mk_def)
next
  case (3 c)
  have eq: "decided vo n p (BExpr (BoolConstExpr c) env) True \<longleftrightarrow> c" if p: "p \<in> Q" for p
  proof -
    obtain \<gamma> where "agrees vo n p \<gamma>" using agrees_ex [OF vo] "3.prems"(2) [OF p] by blast
    then show ?thesis by (auto simp: decided_def)
  qed
  have "negatable lib n r (if c then Hid (hops lib) else Hnull (hops lib)) Q (\<lambda>p. c)" using sel_id sel_null by (cases c) simp_all
  from negatable_cong [where P' = "\<lambda>p. decided vo n p (BExpr (BoolConstExpr c) env) True", OF this] eq show ?case by simp
next
  case (1 k ps)
  have part: "length p = n \<and> (\<exists>t. decided vo n p (BExpr e env) t)" if e: "e \<in> set ps" and p: "p \<in> Q" for e p
  proof -
    from "1.prems"(2) [OF p] have len: "length p = n" by blast
    have ok: "guard_ok A vo n B env e" using "1.prems"(1) e by (simp add: list_all_iff)
    from "1.prems"(2) [OF p] guard_decided(1) [OF lin vo len "1.prems"(1)] obtain \<gamma> where
      "agrees vo n p \<gamma>" "bsem (env_val \<gamma> env) (NaryBoolExpr k ps) \<noteq> None" by blast
    with e have "agrees vo n p \<gamma>" "bsem (env_val \<gamma> env) e \<noteq> None" by (auto simp: nbool_map_None)
    with len guard_decided(1) [OF lin vo len ok] show ?thesis by blast
  qed
  let ?P = "\<lambda>e p. decided vo n p (BExpr e env) True"
  have "\<exists>h. PredHomBuilder lib A vo mk env e = Inr h \<and> negatable lib n r h Q (?P e)" if "e \<in> set ps" for e
    by (rule "1.IH" [OF that _ part [OF that] "1.prems"(3)]) (use "1.prems"(1) that in \<open>simp_all add: list_all_iff\<close>)
  then have "\<exists>hs. rmap (PredHomBuilder lib A vo mk env) ps = Inr hs \<and> list_all2 (\<lambda>h P. negatable lib n r h Q P) hs (map ?P ps)"
  proof (induction ps)
    case (Cons e ps)
    from Cons.prems [of e] obtain h where "PredHomBuilder lib A vo mk env e = Inr h" "negatable lib n r h Q (?P e)" by auto
    moreover from Cons obtain hs where "rmap (PredHomBuilder lib A vo mk env) ps = Inr hs" "list_all2 (\<lambda>h P. negatable lib n r h Q P) hs (map ?P ps)" by auto
    ultimately show ?case by (intro exI [of _ "h # hs"]) (simp del: rmap_eq_Inr_iff)
  qed simp
  then obtain hs where hs: "rmap (PredHomBuilder lib A vo mk env) ps = Inr hs" "list_all2 (\<lambda>h P. negatable lib n r h Q P) hs (map ?P ps)" by blast
  have whole: "decided vo n p (BExpr (NaryBoolExpr k ps) env) True \<longleftrightarrow> (if k = OrExpr then \<exists>e\<in>set ps. ?P e p else \<forall>e\<in>set ps. ?P e p)"
    if p: "p \<in> Q" for p
  proof -
    from "1.prems"(2) [OF p] have len: "length p = n" by blast
    obtain \<gamma> where \<gamma>: "agrees vo n p \<gamma>" using agrees_ex [OF vo len] by blast
    have each: "bsem (env_val \<gamma> env) e \<noteq> None" "?P e p \<longleftrightarrow> bsem (env_val \<gamma> env) e = Some True" if "e \<in> set ps" for e
      using guard_decided(2) [OF lin vo len _ \<gamma>, of B env e] part [OF that p] "1.prems"(1) that by (auto simp: list_all_iff)
    have "decided vo n p (BExpr (NaryBoolExpr k ps) env) True \<longleftrightarrow> bsem (env_val \<gamma> env) (NaryBoolExpr k ps) = Some True"
      by (rule guard_decided(2) [OF lin vo len "1.prems"(1) \<gamma>])
    moreover have "bsem (env_val \<gamma> env) (NaryBoolExpr k ps) = Some (if k = OrExpr then \<exists>e\<in>set ps. ?P e p else \<forall>e\<in>set ps. ?P e p)"
    proof -
      have "bsem (env_val \<gamma> env) e = Some (?P e p)" if "e \<in> set ps" for e using each [OF that] by auto
      then have "map (bsem (env_val \<gamma> env)) ps = map (\<lambda>e. Some (?P e p)) ps" by simp
      then show ?thesis by (cases k) (auto simp: nbool_sem_def)
    qed
    ultimately show ?thesis by simp
  qed
  have "negatable lib n r (if k = OrExpr then Hadd (hops lib) hs else hom_ccompose lib hs) Q
      (\<lambda>p. if k = OrExpr then \<exists>e\<in>set ps. ?P e p else \<forall>e\<in>set ps. ?P e p)"
    using sel_add [OF hs(2)] sel_ccompose [OF hs(2)] by simp
  then have "negatable lib n r (if k = OrExpr then Hadd (hops lib) hs else hom_ccompose lib hs) Q
      (\<lambda>p. decided vo n p (BExpr (NaryBoolExpr k ps) env) True)"
    by (rule negatable_cong) (simp add: whole)
  with hs(1) show ?case by simp
next
  case (4 e)
  have part: "length p = n \<and> (\<exists>t. decided vo n p (BExpr e env) t)
      \<and> (decided vo n p (BExpr (NotExpr e) env) True \<longleftrightarrow> \<not> decided vo n p (BExpr e env) True)" if p: "p \<in> Q" for p
  proof -
    from "4.prems"(2) [OF p] have len: "length p = n" by blast
    obtain \<gamma> where \<gamma>: "agrees vo n p \<gamma>" using agrees_ex [OF vo len] by blast
    have ok: "guard_ok A vo n (B - 1) env e" using "4.prems"(1) by simp
    note whole = guard_decided(2) [OF lin vo len "4.prems"(1) \<gamma>] and sub = guard_decided(2) [OF lin vo len ok \<gamma>]
    from "4.prems"(2) [OF p] obtain t where "bsem (env_val \<gamma> env) (NotExpr e) = Some t" using whole by blast
    then have "bsem (env_val \<gamma> env) e = Some (\<not> t)" by auto
    with whole sub len show ?thesis by auto
  qed
  have "assign_fuel (B - 1) n (B - 1) + Suc r \<le> Suc m"
    using "4.prems"(1,3) by (cases B) (simp_all add: assign_fuel_def)
  with "4.IH" [of "B - 1" "Suc r"] "4.prems"(1) part obtain h where h: "PredHomBuilder lib A vo mk env e = Inr h"
    "negatable lib n (Suc r) h Q (\<lambda>p. decided vo n p (BExpr e env) True)" by auto
  then have "negatable lib n r (Hnot (hops lib) h) Q (\<lambda>p. \<not> decided vo n p (BExpr e env) True)" by simp
  from negatable_cong [OF this, of "\<lambda>p. decided vo n p (BExpr (NotExpr e) env) True"] part h(1)
  show ?case by simp
qed simp_all

lemma predicate_negatable:
  assumes "linear_less (iless A)" "order_ok vo" "n \<le> length (go_map vo)" "guard_ok A vo n B (bgetEnv b) (bgetExpr b)"
    and "assign_fuel B n B + r \<le> m" and Q: "\<And>p. p \<in> Q \<Longrightarrow> length p = n \<and> (\<exists>t. decided vo n p b t)"
  shows "\<exists>h. predicate lib A vo m b = Inr h \<and> negatable lib n r h Q (\<lambda>p. decided vo n p b True)"
proof (cases m)
  case (Suc l)
  have b: "b = BExpr (bgetExpr b) (bgetEnv b)" by (cases b) simp
  from builder_sound [OF assms(1-4), of Q r l] assms(5) Q show ?thesis by (subst (1 2) b) (simp add: Suc flip: b)
qed (use assms(5) in \<open>simp add: assign_fuel_def\<close>)

lemmas predicate_sound = predicate_negatable [where r = 0, unfolded negatable.simps(1) add_0_right]

end

end
