(* ===== verification/Gal_Diagram_Select.thy ===== *)
theory Gal_Diagram_Select imports Gal_Diagram Gal_Select_Sound begin

text \<open>
  The selectors of the instance: tests and comparisons of variables, disjunction and conjunction.
\<close>

declare dd_level.simps(2) [simp del]

lemma diag_lib_select_simps [simp]:
  "hom_select diag_lib skip ev img neg = DSelect (dapp skip ev) neg" "hops diag_lib = diag_hops"
  "hom_ccompose diag_lib hs = fold (Hcomp diag_hops) hs (Hid diag_hops)"
  "hom_prim diag_lib f v k = DHom (f \<notin> {postPlace, setVarConst}) (dprim (\<lambda>x. hom_test f x k) (\<lambda>x. hom_value f x k) v)"
  "hom_cmp_var diag_lib c v w = DHom True (dcmp c v w)"
  by (simp_all add: diag_lib_def)

abbreviation filters :: "nat \<Rightarrow> (diag \<Rightarrow> diag res) \<Rightarrow> diag \<Rightarrow> (int list \<Rightarrow> bool) \<Rightarrow> bool" where
  "filters n f d P \<equiv> \<exists>d'. f d = Inr d' \<and> level0 diag_lib n d' \<and> dd_paths diag_lib n d' = {p \<in> dd_paths diag_lib n d. P p}"

lemma level0_cases:
  assumes "level0 diag_lib (Suc n) d"
  obtains "d = DNull" | as where "d = DNode (int n) as" "as \<noteq> []" "arcs_ok n as"
  using assms by (auto simp: level0_def)

lemma dnode_level0:
  "level0 diag_lib n c \<Longrightarrow> taggable v \<Longrightarrow> level0 diag_lib (Suc n) (dnode (int n) v c)"
  "level0 diag_lib n c \<Longrightarrow> taggable v \<Longrightarrow> dd_paths diag_lib (Suc n) (dnode (int n) v c) = (\<lambda>p. p @ [v]) ` dd_paths diag_lib n c"
  using diag.node_level0 [of n c v] by simp_all

text \<open>Arc by arc, then joined.\<close>

lemma arcs_filters:
  assumes ok: "arcs_ok n as" and step: "\<And>a. a \<in> set as \<Longrightarrow> filters n (f a) (snd a) (\<lambda>p. P (p @ [fst a]))"
  shows "filters (Suc n) (\<lambda>d. rbind (rmap (\<lambda>a. rbind (f a (snd a)) (\<lambda>c. Inr (dnode (int n) (fst a) c))) as) (\<lambda>ds. Inr (djoin ds)))
    (DNode (int n) as) P"
proof -
  let ?W = "\<lambda>a. {q \<in> (\<lambda>p. p @ [fst a]) ` dd_paths diag_lib n (snd a). P q}"
  have "\<exists>ds. rmap (\<lambda>a. rbind (f a (snd a)) (\<lambda>c. Inr (dnode (int n) (fst a) c))) as = Inr ds
      \<and> (\<forall>d\<in>set ds. level0 diag_lib (Suc n) d) \<and> (\<Union>d\<in>set ds. dd_paths diag_lib (Suc n) d) = (\<Union>a\<in>set as. ?W a)"
  proof (rule rmap_yields)
    fix a assume a: "a \<in> set as"
    from step [OF a] obtain c where c: "f a (snd a) = Inr c" "level0 diag_lib n c"
      "dd_paths diag_lib n c = {p \<in> dd_paths diag_lib n (snd a). P (p @ [fst a])}" by blast
    have v: "taggable (fst a)" using ok a by blast
    have "(\<lambda>p. p @ [fst a]) ` {p \<in> dd_paths diag_lib n (snd a). P (p @ [fst a])} = ?W a" by blast
    with dnode_level0 [OF c(2) v] c(1,3)
    show "\<exists>d. rbind (f a (snd a)) (\<lambda>c. Inr (dnode (int n) (fst a) c)) = Inr d \<and> level0 diag_lib (Suc n) d
        \<and> dd_paths diag_lib (Suc n) d = ?W a" by (simp del: dd_paths.simps)
  qed
  then obtain ds where ds: "rmap (\<lambda>a. rbind (f a (snd a)) (\<lambda>c. Inr (dnode (int n) (fst a) c))) as = Inr ds"
    "\<forall>d\<in>set ds. level0 diag_lib (Suc n) d" "(\<Union>d\<in>set ds. dd_paths diag_lib (Suc n) d) = (\<Union>a\<in>set as. ?W a)" by blast
  have "(\<Union>a\<in>set as. ?W a) = {p \<in> dd_paths diag_lib (Suc n) (DNode (int n) as). P p}" unfolding paths_node by blast
  with ds djoin_level [of ds "Suc n"] show ?thesis by (simp del: dd_paths.simps)
qed

text \<open>A homomorphism that acts on the variable \<open>u\<close> and skips the others.\<close>

lemma dapp_filters:
  assumes null: "ev DNull = Inr DNull" and P: "\<And>p x. u < length p \<Longrightarrow> P (p @ [x]) \<longleftrightarrow> P p"
    and top: "\<And>as. as \<noteq> [] \<Longrightarrow> arcs_ok u as \<Longrightarrow> filters (Suc u) ev (DNode (int u) as) P"
  shows "u < n \<Longrightarrow> level0 diag_lib n d \<Longrightarrow> filters n (dapp (\<lambda>i. Inr (i \<noteq> int u)) ev) d P"
proof (induction n arbitrary: d)
  case (Suc n)
  from Suc.prems(2) show ?case
  proof (cases rule: level0_cases)
    case (2 as)
    show ?thesis
    proof (cases "n = u")
      case True
      with top [OF 2(2)] 2 show ?thesis by simp
    next
      case False
      with Suc.prems(1) have u: "u < n" by simp
      have "filters (Suc n) (\<lambda>d. rbind (rmap (\<lambda>a. rbind (dapp (\<lambda>i. Inr (i \<noteq> int u)) ev (snd a)) (\<lambda>c. Inr (dnode (int n) (fst a) c))) as)
          (\<lambda>ds. Inr (djoin ds))) (DNode (int n) as) P"
      proof (rule arcs_filters [OF 2(3)])
        fix a assume a: "a \<in> set as"
        then have "level0 diag_lib n (snd a)" using 2(3) by (simp add: level0_def)
        from Suc.IH [OF u this] obtain c where c: "dapp (\<lambda>i. Inr (i \<noteq> int u)) ev (snd a) = Inr c" "level0 diag_lib n c"
          "dd_paths diag_lib n c = {p \<in> dd_paths diag_lib n (snd a). P p}" by blast
        moreover have "P (p @ [fst a]) \<longleftrightarrow> P p" if "p \<in> dd_paths diag_lib n (snd a)" for p
          using P u dd_paths_length [OF that] by simp
        ultimately show "filters n (dapp (\<lambda>i. Inr (i \<noteq> int u)) ev) (snd a) (\<lambda>p. P (p @ [fst a]))" by (auto simp: conj_commute cong: conj_cong)
      qed
      with False 2(1) show ?thesis by simp
    qed
  qed (simp add: null level0_def)
qed simp

lemma dprim_filters:
  assumes upd: "\<And>x. upd x = x" and v: "v < n" "level0 diag_lib n d"
  shows "filters n (dprim test upd (int v)) d (\<lambda>p. test (p ! v))"
  unfolding dprim_def
proof (rule dapp_filters [OF _ _ _ v])
  fix as assume as: "as \<noteq> []" "arcs_ok v as"
  let ?ds = "map (\<lambda>a. dnode (int v) (upd (fst a)) (snd a)) (filter (\<lambda>a. test (fst a)) as)"
  have each: "level0 diag_lib (Suc v) (dnode (int v) (fst a) (snd a))
      \<and> dd_paths diag_lib (Suc v) (dnode (int v) (fst a) (snd a)) = (\<lambda>p. p @ [fst a]) ` dd_paths diag_lib v (snd a)"
    if "a \<in> set as" for a
    using dnode_level0 [of v "snd a" "fst a"] as(2) that by (simp add: level0_def del: dd_paths.simps)
  have level: "level0 diag_lib (Suc v) d" if "d \<in> set ?ds" for d using each upd that by auto
  have "(\<Union>d\<in>set ?ds. dd_paths diag_lib (Suc v) d) = {p \<in> dd_paths diag_lib (Suc v) (DNode (int v) as). test (p ! v)}"
  proof -
    have "(\<Union>d\<in>set ?ds. dd_paths diag_lib (Suc v) d)
        = (\<Union>a\<in>{a \<in> set as. test (fst a)}. (\<lambda>p. p @ [fst a]) ` dd_paths diag_lib v (snd a))"
      using each upd by (auto simp del: dd_paths.simps)
    also have "\<dots> = (\<Union>a\<in>set as. {q \<in> (\<lambda>p. p @ [fst a]) ` dd_paths diag_lib v (snd a). test (q ! v)})"
      using dd_paths_length [of _ "diag_lib" v] by (auto simp: nth_append)
    finally show ?thesis unfolding paths_node by blast
  qed
  with djoin_level [of ?ds "Suc v", OF level]
  show "filters (Suc v) (\<lambda>d. if dvar d = int v then Inr (djoin (map (\<lambda>a. dnode (int v) (upd (fst a)) (snd a))
      (filter (\<lambda>a. test (fst a)) (darcs d)))) else Inr d) (DNode (int v) as) (\<lambda>p. test (p ! v))" by (simp del: dd_paths.simps)
qed (simp_all add: nth_append)

lemma dcmp_filters:
  assumes v: "v < n" "w < n" "level0 diag_lib n d"
  shows "filters n (dcmp k (int v) (int w)) d (\<lambda>p. comp_sem k (p ! v) (p ! w))"
proof -
  define u where "u = max v w"
  have u: "u < n" "(if int v < int w then int w else int v) = int u" using v by (auto simp: u_def)
  show ?thesis
    unfolding dcmp_def u(2) Let_def
  proof (rule dapp_filters [OF _ _ _ u(1) v(3)])
    show "comp_sem k ((p @ [x]) ! v) ((p @ [x]) ! w) \<longleftrightarrow> comp_sem k (p ! v) (p ! w)" if "u < length p" for p x
      using that by (simp add: u_def nth_append)
    fix as assume as: "as \<noteq> []" "arcs_ok u as"
    define g where "g = (\<lambda>(a :: int \<times> diag) c. if v = w then Inr (if comp_sem k (fst a) (fst a) then c else DNull)
      else if int v < int w then dprim (\<lambda>x. comp_sem k x (fst a)) id (int v) c
      else dprim (\<lambda>y. comp_sem k (fst a) y) id (int w) c)"
    have fun_eq: "rmap (\<lambda>a. if int v = int w then Inr (if comp_sem k (fst a) (fst a) then dnode (int u) (fst a) (snd a) else DNull)
        else rbind (if int v < int w then dprim (\<lambda>x. comp_sem k x (fst a)) id (int v) (snd a)
          else dprim (\<lambda>y. comp_sem k (fst a) y) id (int w) (snd a)) (\<lambda>c. Inr (dnode (int u) (fst a) c))) as
        = rmap (\<lambda>a. rbind (g a (snd a)) (\<lambda>c. Inr (dnode (int u) (fst a) c))) as"
      by (rule rmap_fundef_cong) (auto simp: g_def dnode_def)
    have "filters (Suc u) (\<lambda>d. rbind (rmap (\<lambda>a. rbind (g a (snd a)) (\<lambda>c. Inr (dnode (int u) (fst a) c))) as) (\<lambda>ds. Inr (djoin ds)))
        (DNode (int u) as) (\<lambda>p. comp_sem k (p ! v) (p ! w))"
    proof (rule arcs_filters [OF as(2)])
      fix a assume a: "a \<in> set as"
      have c0: "level0 diag_lib u (snd a)" using a as(2) by (simp add: level0_def)
      have len: "length p = u" if "p \<in> dd_paths diag_lib u (snd a)" for p by (rule dd_paths_length [OF that])
      consider "v = w" | "v < w" | "w < v" by linarith
      then show "filters u (g a) (snd a) (\<lambda>p. comp_sem k ((p @ [fst a]) ! v) ((p @ [fst a]) ! w))"
      proof cases
        case 1
        then have "u = v" by (simp add: u_def)
        with 1 c0 len show ?thesis by (cases "comp_sem k (fst a) (fst a)") (auto simp: g_def nth_append level0_def)
      next
        case 2
        then have uw: "u = w" by (simp add: u_def)
        with 2 have "v < u" by simp
        from dprim_filters [where upd = id and test = "\<lambda>x. comp_sem k x (fst a)", OF _ this c0] 2 len
        show ?thesis by (auto simp: g_def nth_append uw cong: conj_cong)
      next
        case 3
        then have uv: "u = v" by (simp add: u_def)
        with 3 have "w < u" by simp
        from dprim_filters [where upd = id and test = "\<lambda>y. comp_sem k (fst a) y", OF _ this c0] 3 len
        show ?thesis by (auto simp: g_def nth_append uv cong: conj_cong)
      qed
    qed
    then show "filters (Suc u) (\<lambda>d. if dvar d \<noteq> int u then Inr d
        else rbind (rmap (\<lambda>a. if int v = int w then Inr (if comp_sem k (fst a) (fst a) then dnode (int u) (fst a) (snd a) else DNull)
          else rbind (if int v < int w then dprim (\<lambda>x. comp_sem k x (fst a)) id (int v) (snd a)
            else dprim (\<lambda>y. comp_sem k (fst a) y) id (int w) (snd a)) (\<lambda>c. Inr (dnode (int u) (fst a) c))) (darcs d))
          (\<lambda>ds. Inr (djoin ds))) (DNode (int u) as) (\<lambda>p. comp_sem k (p ! v) (p ! w))"
      by (simp only: dvar.simps darcs.simps fun_eq not_True_eq_False simp_thms if_False)
  qed simp
qed

lemma keeps_filters: "keeps diag_lib n h Q P \<longleftrightarrow>
    (\<forall>d. level0 diag_lib n d \<and> dd_paths diag_lib n d \<subseteq> Q \<longrightarrow> filters n (dfun h) d P)"
  by (simp add: keeps_def)

section \<open>Paths\<close>

lemma set_dpaths: "level0 diag_lib n d \<Longrightarrow> set (dpaths d) = dd_paths diag_lib n d"
proof (induction n arbitrary: d)
  case 0
  then show ?case by (auto simp: level0_def)
next
  case (Suc n)
  from Suc.prems show ?case
  proof (cases rule: level0_cases)
    case (2 as)
    have "set (dpaths (snd a)) = dd_paths diag_lib n (snd a)" if "a \<in> set as" for a
      using Suc.IH [of "snd a"] 2(3) that by (simp add: level0_def)
    then have "set (dpaths d) = (\<Union>a\<in>set as. (\<lambda>p. p @ [fst a]) ` dd_paths diag_lib n (snd a))"
      by (simp add: 2(1))
    then show ?thesis using paths_node [of n "int n" as] 2(1) by simp
  qed simp
qed

lemma path_diag_snoc: "path_diag (p @ [x]) = dnode (int (length p)) x (path_diag p)"
  by (simp add: path_diag_def enumerate_append_eq)

lemma path_diag_level:
  "(\<forall>x\<in>set p. taggable x) \<Longrightarrow> dd_level diag_lib (length p) (path_diag p) \<and> dd_paths diag_lib (length p) (path_diag p) = {p}"
proof (induction p rule: rev_induct)
  case (snoc x p)
  then have p: "dd_level diag_lib (length p) (path_diag p)" "dd_paths diag_lib (length p) (path_diag p) = {p}" by simp_all
  from diag.node_level [OF p(1), of x] diag.node_paths [OF p(1), of x] snoc.prems p(2)
  show ?case by (simp add: path_diag_snoc del: dd_paths.simps)
qed (simp add: path_diag_def)

lemma level0_taggable: "level0 diag_lib n d \<Longrightarrow> p \<in> dd_paths diag_lib n d \<Longrightarrow> x \<in> set p \<Longrightarrow> taggable x"
  using level_taggable [of diag_lib n d] by (auto simp: level0_def)

lemma minus_level:
  assumes c: "level0 diag_lib n c" and d: "level0 diag_lib n d"
  shows "level0 diag_lib n (minus_diag c d) \<and> dd_paths diag_lib n (minus_diag c d) = dd_paths diag_lib n c - dd_paths diag_lib n d"
proof -
  have each: "level0 diag_lib n (path_diag p) \<and> dd_paths diag_lib n (path_diag p) = {p}" if "p \<in> dd_paths diag_lib n c" for p
    using path_diag_level [of p] level0_taggable [OF c] dd_paths_length [OF that] that by (auto simp: level0_def)
  let ?ps = "filter (\<lambda>p. p \<notin> set (dpaths d)) (dpaths c)"
  have ps: "set ?ps = dd_paths diag_lib n c - dd_paths diag_lib n d" by (auto simp: set_dpaths [OF c] set_dpaths [OF d])
  have "level0 diag_lib n x" if "x \<in> set (map path_diag ?ps)" for x using that each ps by auto
  from djoin_level [of "map path_diag ?ps" n, OF this]
  have "level0 diag_lib n (minus_diag c d)" "dd_paths diag_lib n (minus_diag c d) = (\<Union>p\<in>set ?ps. dd_paths diag_lib n (path_diag p))"
    by (simp_all add: minus_diag_def)
  moreover have "(\<Union>p\<in>set ?ps. dd_paths diag_lib n (path_diag p)) = dd_paths diag_lib n c - dd_paths diag_lib n d"
    unfolding ps using each by auto
  ultimately show ?thesis by simp
qed

section \<open>The contract holds\<close>

text \<open>A selector of the library is negated any number of times.\<close>

lemma keeps_dnot: "keeps diag_lib n (DHom s f) Q P \<Longrightarrow> keeps diag_lib n (dnot (DHom s f)) Q (\<lambda>p. \<not> P p)"
  unfolding keeps_def
proof (intro allI impI, elim conjE)
  fix d assume h: "\<forall>d. level0 diag_lib n d \<and> dd_paths diag_lib n d \<subseteq> Q \<longrightarrow> filters n (hom_app diag_lib (DHom s f)) d P"
    and d: "level0 diag_lib n d" "dd_paths diag_lib n d \<subseteq> Q"
  then obtain c where c: "f d = Inr c" "level0 diag_lib n c" "dd_paths diag_lib n c = {p \<in> dd_paths diag_lib n d. P p}" by auto
  with minus_level [OF d(1) c(2)] show "filters n (hom_app diag_lib (dnot (DHom s f))) d (\<lambda>p. \<not> P p)" by auto
qed

lemma negatable_DHom: "keeps diag_lib n (DHom s f) Q P \<Longrightarrow> negatable diag_lib n r (DHom s f) Q P"
proof (induction r arbitrary: s f P)
  case (Suc r)
  have "negatable diag_lib n r (dnot (DHom s f)) Q (\<lambda>p. \<not> P p)" using Suc.IH keeps_dnot [OF Suc.prems] by simp
  with Suc.prems show ?case by (simp add: diag_hops_def)
qed simp

interpretation diag: dd_selectors diag_lib
proof
  fix d :: diag and skip ev img neg
  show "hom_app diag_lib (hom_select diag_lib skip ev img neg) d = ev d"
    if "d \<in> {dd_null diag_lib, dd_one diag_lib, dd_top diag_lib} \<or> skip (dd_variable diag_lib d) = Inr False"
    using that by (cases d) auto
  show "hom_app diag_lib (hom_select diag_lib skip ev img neg) d
      = rbind (rmap (\<lambda>(x, c). rbind (hom_app diag_lib (hom_select diag_lib skip ev img neg) c)
          (\<lambda>c'. Inr (dd_node diag_lib (dd_variable diag_lib d) x c'))) (dd_arcs diag_lib d))
        (\<lambda>ds. Inr (dd_add diag_lib ds))"
    if "d \<notin> {dd_null diag_lib, dd_one diag_lib, dd_top diag_lib}" "skip (dd_variable diag_lib d) = Inr True"
    using that by (cases d) (auto simp: case_prod_unfold)
next
  fix n r Q
  have "keeps diag_lib n (Hid (hops diag_lib)) Q (\<lambda>p. True)" by (simp add: keeps_def diag_hops_def)
  then show "negatable diag_lib n r (Hid (hops diag_lib)) Q (\<lambda>p. True)" by (simp add: diag_hops_def negatable_DHom)
  have "keeps diag_lib n (Hnull (hops diag_lib)) Q (\<lambda>p. False)" by (simp add: keeps_def diag_hops_def level0_def)
  then show "negatable diag_lib n r (Hnull (hops diag_lib)) Q (\<lambda>p. False)" by (simp add: diag_hops_def negatable_DHom)
next
  show "Hnot (hops diag_lib) (hom_select diag_lib skip ev img (Inr g)) = g" for skip ev img g by (simp add: diag_hops_def)
next
  fix n r Q Ps and hs :: "dhom list"
  assume "list_all2 (\<lambda>h P. negatable diag_lib n r h Q P) hs Ps"
  then have all: "list_all2 (\<lambda>h P. keeps diag_lib n h Q P) hs Ps" by (rule list_all2_negatable)
  have "keeps diag_lib n (Hadd (hops diag_lib) hs) Q (\<lambda>p. \<exists>P\<in>set Ps. P p)"
    unfolding keeps_def
  proof (intro allI impI, elim conjE)
    fix d assume d: "level0 diag_lib n d" "dd_paths diag_lib n d \<subseteq> Q"
    have "\<exists>ds. rmap (\<lambda>h. dfun h d) hs = Inr ds \<and> (\<forall>c\<in>set ds. level0 diag_lib n c)
        \<and> (\<Union>c\<in>set ds. dd_paths diag_lib n c) = {p \<in> dd_paths diag_lib n d. \<exists>P\<in>set Ps. P p}"
      using all
    proof (induction hs Ps rule: list_all2_induct)
      case (Cons h hs P Ps)
      then obtain ds where ds: "rmap (\<lambda>h. dfun h d) hs = Inr ds" "\<forall>c\<in>set ds. level0 diag_lib n c"
        "(\<Union>c\<in>set ds. dd_paths diag_lib n c) = {p \<in> dd_paths diag_lib n d. \<exists>P\<in>set Ps. P p}" by blast
      from keepsD [OF Cons.hyps(1) d] obtain c where "dfun h d = Inr c" "level0 diag_lib n c"
        "dd_paths diag_lib n c = {p \<in> dd_paths diag_lib n d. P p}" by auto
      with ds show ?case by (intro exI [of _ "c # ds"]) (auto simp del: rmap_eq_Inr_iff)
    qed simp
    then obtain ds where ds: "rmap (\<lambda>h. dfun h d) hs = Inr ds" "\<forall>c\<in>set ds. level0 diag_lib n c"
      "(\<Union>c\<in>set ds. dd_paths diag_lib n c) = {p \<in> dd_paths diag_lib n d. \<exists>P\<in>set Ps. P p}" by blast
    with djoin_level [of ds n] show "filters n (hom_app diag_lib (Hadd (hops diag_lib) hs)) d (\<lambda>p. \<exists>P\<in>set Ps. P p)"
      by (simp add: diag_hops_def del: rmap_eq_Inr_iff)
  qed
  then show "negatable diag_lib n r (Hadd (hops diag_lib) hs) Q (\<lambda>p. \<exists>P\<in>set Ps. P p)" by (simp add: diag_hops_def negatable_DHom)
next
  fix n r Q Ps and hs :: "dhom list"
  assume "list_all2 (\<lambda>h P. negatable diag_lib n r h Q P) hs Ps"
  then have all: "list_all2 (\<lambda>h P. keeps diag_lib n h Q P) hs Ps" by (rule list_all2_negatable)
  have whole: "keeps diag_lib n (fold (Hcomp diag_hops) hs h0) Q (\<lambda>p. P0 p \<and> (\<forall>P\<in>set Ps. P p))" if "keeps diag_lib n h0 Q P0" for h0 P0
    using all that
  proof (induction hs Ps arbitrary: h0 P0 rule: list_all2_induct)
    case (Cons h hs P Ps)
    have "keeps diag_lib n (Hcomp diag_hops h h0) Q (\<lambda>p. P0 p \<and> P p)"
      unfolding keeps_def
    proof (intro allI impI, elim conjE)
      fix d assume d: "level0 diag_lib n d" "dd_paths diag_lib n d \<subseteq> Q"
      from keepsD [OF Cons.prems d] obtain c where c: "dfun h0 d = Inr c" "level0 diag_lib n c"
        "dd_paths diag_lib n c = {p \<in> dd_paths diag_lib n d. P0 p}" by auto
      with d(2) have "dd_paths diag_lib n c \<subseteq> Q" by blast
      from keepsD [OF Cons.hyps(1) c(2) this] obtain e where "dfun h c = Inr e" "level0 diag_lib n e"
        "dd_paths diag_lib n e = {p \<in> dd_paths diag_lib n c. P p}" by auto
      with c show "filters n (hom_app diag_lib (Hcomp diag_hops h h0)) d (\<lambda>p. P0 p \<and> P p)"
        by (auto simp: diag_hops_def)
    qed
    from Cons.IH [OF this] show ?case by simp
  qed simp
  have "\<exists>s g. fold (Hcomp diag_hops) hs (DHom s0 f0) = DHom s g" for s0 f0
    by (induction hs arbitrary: s0 f0) (auto simp: diag_hops_def)
  from this [of True Inr] obtain s g where "hom_ccompose diag_lib hs = DHom s g" by (auto simp: diag_hops_def)
  moreover have "keeps diag_lib n (hom_ccompose diag_lib hs) Q (\<lambda>p. \<forall>P\<in>set Ps. P p)"
    using whole [of "Hid diag_hops" "\<lambda>p. True"] by (simp add: keeps_def diag_hops_def)
  ultimately show "negatable diag_lib n r (hom_ccompose diag_lib hs) Q (\<lambda>p. \<forall>P\<in>set Ps. P p)" by (simp add: negatable_DHom)
next
  fix v n r f x Q assume v: "(v :: nat) < n" and f: "f \<notin> {postPlace, setVarConst}"
  have "hom_value f y x = y" for y using f by (cases f) auto
  then have "keeps diag_lib n (hom_prim diag_lib f (int v) x) Q (\<lambda>p. hom_test f (p ! v) x)"
    unfolding keeps_filters diag_lib_select_simps dfun.simps
    by (intro allI impI, elim conjE) (rule dprim_filters [OF _ v])
  then show "negatable diag_lib n r (hom_prim diag_lib f (int v) x) Q (\<lambda>p. hom_test f (p ! v) x)" by (simp add: negatable_DHom)
next
  fix v n w k r Q assume "(v :: nat) < n" "w < n"
  then have "keeps diag_lib n (hom_cmp_var diag_lib k (int v) (int w)) Q (\<lambda>p. comp_sem k (p ! v) (p ! w))"
    using dcmp_filters by (simp add: keeps_def)
  then show "negatable diag_lib n r (hom_cmp_var diag_lib k (int v) (int w)) Q (\<lambda>p. comp_sem k (p ! v) (p ! w))" by (simp add: negatable_DHom)
qed

end
