(* ===== verification/Gal_System.thy ===== *)
theory Gal_System imports Gal_Names begin

text \<open>
  Systems of the Guarded Action Language: statements (\<open>its/gal/Statements.hh\<close>, \<open>Statements.cpp\<close>), guarded
  actions, initial values, arrays and systems (\<open>its/gal/GAL.hh\<close>, \<open>GAL.cpp\<close>). A sequence is its list of
  statements; copying and deleting statements has no counterpart.
\<close>

section \<open>Statements\<close>

datatype statement =
  Assignment IntExpression IntExpression
| SyncAssignment "(IntExpression \<times> IntExpression) list"
| IncrAssignment IntExpression IntExpression
| Sequence "statement list"
| Ite BoolExpression "statement list" "statement list"
| FixStatement "statement list"
| Call string
| AbortStatement

datatype StatementType =
  ASSIGN | SYNCASSIGN | SEQ | IfThenElse | FIXPOINT | CHOICE | CALL | ABORT | INCRASSIGN

fun statement_getType :: "statement \<Rightarrow> StatementType" where
  "statement_getType (Assignment v e) = ASSIGN"
| "statement_getType (SyncAssignment as) = SYNCASSIGN"
| "statement_getType (IncrAssignment v e) = INCRASSIGN"
| "statement_getType (Sequence ss) = SEQ"
| "statement_getType (Ite b ss ts) = IfThenElse"
| "statement_getType (FixStatement ss) = FIXPOINT"
| "statement_getType (Call l) = CALL"
| "statement_getType AbortStatement = ABORT"

text \<open>The constructors evaluate the expressions they are given, except that of a synchronous assignment.\<close>

definition Assignment_of :: "heap_order \<Rightarrow> IntExpression \<Rightarrow> IntExpression \<Rightarrow> statement res" where
  "Assignment_of A var expr =
     rbind (IntExpression_eval A var) (\<lambda>v. rbind (IntExpression_eval A expr) (\<lambda>e. Inr (Assignment v e)))"

definition IncrAssignment_of :: "heap_order \<Rightarrow> IntExpression \<Rightarrow> IntExpression \<Rightarrow> statement res" where
  "IncrAssignment_of A var expr =
     rbind (IntExpression_eval A var) (\<lambda>v. rbind (IntExpression_eval A expr) (\<lambda>e. Inr (IncrAssignment v e)))"

definition Ite_of :: "heap_order \<Rightarrow> BoolExpression \<Rightarrow> statement list \<Rightarrow> statement list \<Rightarrow> statement res" where
  "Ite_of A ccond iifTrue iifFalse = rbind (BoolExpression_eval A ccond) (\<lambda>b. Inr (Ite b iifTrue iifFalse))"

fun Ite_setCondition :: "heap_order \<Rightarrow> BoolExpression \<Rightarrow> statement \<Rightarrow> statement res" where
  "Ite_setCondition A e (Ite b ss ts) = rbind (BoolExpression_eval A e) (\<lambda>b'. Inr (Ite b' ss ts))"
| "Ite_setCondition A e s = Inr s"

definition Sequence_add :: "statement \<Rightarrow> statement list \<Rightarrow> statement list" where
  "Sequence_add s actions = actions @ [s]"

definition Sequence_prepend :: "statement \<Rightarrow> statement list \<Rightarrow> statement list" where
  "Sequence_prepend s actions = s # actions"

text \<open>\<open>SyncAssignment::operator&\<close>\<close>

definition SyncAssignment_and ::
  "heap_order \<Rightarrow> Assertion \<Rightarrow> (IntExpression \<times> IntExpression) list \<Rightarrow> (IntExpression \<times> IntExpression) list res" where
  "SyncAssignment_and A ass as =
     rmap (\<lambda>(v, e). rbind (IntExpression_setAssertion A ass e) (\<lambda>e1. rbind (IntExpression_eval A e1) (\<lambda>e2. Inr (v, e2)))) as"

text \<open>\<open>getSupport\<close>; a call is not followed.\<close>

definition pair_support :: "factory \<Rightarrow> IntExpression \<Rightarrow> IntExpression \<Rightarrow> string set res" where
  "pair_support f v e =
     rbind (IntExpression_getSupport f v) (\<lambda>result. rbind (IntExpression_getSupport f e) (\<lambda>tmp. Inr (result \<union> tmp)))"

fun statement_getSupport :: "factory \<Rightarrow> statement \<Rightarrow> string set res" where
  "statement_getSupport f (Assignment v e) = pair_support f v e"
| "statement_getSupport f (IncrAssignment v e) = pair_support f v e"
| "statement_getSupport f (SyncAssignment as) =
     rbind (rmap (\<lambda>(v, e). pair_support f v e) as) (\<lambda>tmps. Inr (\<Union>(set tmps)))"
| "statement_getSupport f (Sequence ss) = rbind (rmap (statement_getSupport f) ss) (\<lambda>tmps. Inr (\<Union>(set tmps)))"
| "statement_getSupport f (Ite b ss ts) =
     rbind (BoolExpression_getSupport f b) (\<lambda>c.
     rbind (rmap (statement_getSupport f) ss) (\<lambda>xs.
     rbind (rmap (statement_getSupport f) ts) (\<lambda>ys. Inr (c \<union> \<Union>(set xs) \<union> \<Union>(set ys)))))"
| "statement_getSupport f (FixStatement ss) = rbind (rmap (statement_getSupport f) ss) (\<lambda>tmps. Inr (\<Union>(set tmps)))"
| "statement_getSupport f (Call l) = Inr {}"
| "statement_getSupport f AbortStatement = Inr {}"

section \<open>Guarded actions\<close>

record GuardedAction =
  ga_name :: string
  ga_guard :: BoolExpression
  ga_actions :: "statement list"
  ga_label :: string

definition GuardedAction_of :: "string \<Rightarrow> GuardedAction" where
  "GuardedAction_of name = \<lparr>ga_name = name, ga_guard = createBConstant True, ga_actions = [], ga_label = ''''\<rparr>"

definition setGuard :: "heap_order \<Rightarrow> BoolExpression \<Rightarrow> GuardedAction \<Rightarrow> GuardedAction res" where
  "setGuard A guard g = rbind (BoolExpression_eval A guard) (\<lambda>b. Inr (g\<lparr>ga_guard := b\<rparr>))"

definition setLabel :: "string \<Rightarrow> GuardedAction \<Rightarrow> GuardedAction" where
  "setLabel lab g = g\<lparr>ga_label := lab\<rparr>"

definition GuardedAction_getSupport :: "factory \<Rightarrow> GuardedAction \<Rightarrow> string set res" where
  "GuardedAction_getSupport f g =
     rbind (BoolExpression_getSupport f (ga_guard g)) (\<lambda>result.
       rbind (statement_getSupport f (Sequence (ga_actions g))) (\<lambda>tmp. Inr (result \<union> tmp)))"

section \<open>Initial values\<close>

type_synonym GALState = "(string \<times> int) list"

definition setVarValue :: "string \<Rightarrow> int \<Rightarrow> GALState \<Rightarrow> GALState" where
  "setVarValue var val st = map_insert var val st"

definition getVarValue :: "GALState \<Rightarrow> string \<Rightarrow> int" where
  "getVarValue st var = (case map_of st var of Some v \<Rightarrow> v | None \<Rightarrow> - 1)"

section \<open>Arrays\<close>

record ArrayDeclaration =
  ad_vars :: "Variable list"
  ad_name :: string
  ad_size :: nat

definition cell_name :: "heap_order \<Rightarrow> string \<Rightarrow> int \<Rightarrow> int \<Rightarrow> factory \<Rightarrow> (Variable \<times> factory) res" where
  "cell_name A name i limit f =
     rbind (Variable_of name) (\<lambda>_.
     rbind (createArrayAccess_named A name (createIConstant i) limit f) (\<lambda>(e, f1).
     rbind (IntExpression_eval A e) (\<lambda>e'.
     rbind (getName f1 e') (\<lambda>n. rbind (Variable_of n) (\<lambda>v. Inr (v, f1))))))"

definition ArrayDeclaration_of :: "heap_order \<Rightarrow> string \<Rightarrow> nat \<Rightarrow> factory \<Rightarrow> (ArrayDeclaration \<times> factory) res" where
  "ArrayDeclaration_of A name sz f =
     rfold (\<lambda>i (ad, f). rbind (cell_name A name (int i) (int sz) f) (\<lambda>(v, f'). Inr (ad\<lparr>ad_vars := ad_vars ad @ [v]\<rparr>, f')))
       [0..<sz] (\<lparr>ad_vars = [], ad_name = name, ad_size = sz\<rparr>, f)"

section \<open>Systems\<close>

record GAL =
  gal_name :: string
  gal_variables :: "Variable list"
  gal_arrays :: "ArrayDeclaration list"
  gal_transitions :: "GuardedAction list"
  gal_init :: GALState
  gal_transient :: BoolExpression

definition GAL_of :: "string \<Rightarrow> GAL" where
  "GAL_of name =
     \<lparr>gal_name = name, gal_variables = [], gal_arrays = [], gal_transitions = [], gal_init = [],
      gal_transient = createBConstant False\<rparr>"

definition GAL_addVariable :: "Variable \<Rightarrow> int \<Rightarrow> GAL \<Rightarrow> GAL" where
  "GAL_addVariable var val g =
     g\<lparr>gal_variables := gal_variables g @ [var], gal_init := setVarValue (vname var) val (gal_init g)\<rparr>"

definition GAL_addArray :: "heap_order \<Rightarrow> string \<Rightarrow> int list \<Rightarrow> GAL \<Rightarrow> factory \<Rightarrow> (GAL \<times> factory) res" where
  "GAL_addArray A name vals g f =
     rbind (ArrayDeclaration_of A name (length vals) f) (\<lambda>(ad, f').
       Inr (g\<lparr>gal_arrays := gal_arrays g @ [ad],
              gal_init := fold (\<lambda>(v, x). setVarValue (vname v) x) (zip (ad_vars ad) vals) (gal_init g)\<rparr>, f'))"

definition GAL_addTransition :: "GuardedAction \<Rightarrow> GAL \<Rightarrow> GAL" where
  "GAL_addTransition act g = g\<lparr>gal_transitions := gal_transitions g @ [act]\<rparr>"

definition GAL_getVarValue :: "GAL \<Rightarrow> string \<Rightarrow> int" where
  "GAL_getVarValue g name = getVarValue (gal_init g) name"

definition setTransientPredicate :: "heap_order \<Rightarrow> BoolExpression \<Rightarrow> GAL \<Rightarrow> GAL res" where
  "setTransientPredicate A expr g = rbind (BoolExpression_eval A expr) (\<lambda>b. Inr (g\<lparr>gal_transient := b\<rparr>))"

end
