(* ===== verification/Type_Basics.thy ===== *)
theory Type_Basics imports Var_Order "HOL-Library.List_Lexorder" "HOL-Library.Char_ord" begin

text \<open>
  What every type has: a variable order and a default state (\<open>its/TypeBasics.cpp\<close>), and the cache put
  in front of it (\<open>its/TypeCacher.hh\<close>, \<open>its/TypeCacher.cpp\<close>). The virtual functions a type
  implements, \<open>getVarSet\<close> and \<open>getInitStates\<close> here, are arguments.
\<close>

section \<open>Orders and default states\<close>

record basics =
  vorder :: "varorder option"
  default_state :: string

definition TypeBasics_of :: basics where
  "TypeBasics_of = \<lparr>vorder = None, default_state = ''''\<rparr>"

text \<open>The order is built at the first use.\<close>

definition getVarOrder :: "labels \<Rightarrow> basics \<Rightarrow> (basics \<times> varorder) res" where
  "getVarOrder getVarSet b =
     (case vorder b of
        None \<Rightarrow> rbind (setFromCollection getVarSet) (\<lambda>vo. Inr (b\<lparr>vorder := Some vo\<rparr>, vo))
      | Some vo \<Rightarrow> Inr (b, vo))"

definition TypeBasics_setVarOrder :: "labels \<Rightarrow> labels \<Rightarrow> basics \<Rightarrow> (basics \<times> bool) res" where
  "TypeBasics_setVarOrder getVarSet vars b =
     rbind (getVarOrder getVarSet b) (\<lambda>(b', vo).
       rbind (updateOrder vo vars) (\<lambda>(vo', ok). Inr (b'\<lparr>vorder := Some vo'\<rparr>, ok)))"

text \<open>The names of the variables, the last of the order first.\<close>

definition TypeBasics_addFlatVarSet ::
  "labels \<Rightarrow> labels \<Rightarrow> string \<Rightarrow> basics \<Rightarrow> (basics \<times> labels) res" where
  "TypeBasics_addFlatVarSet getVarSet vars prefix b =
     rbind (getVarOrder getVarSet b) (\<lambda>(b', vo).
       Inr (b', fold (\<lambda>v vars. vars @ [prefix @ getLabel vo (int v)]) (rev [0..<vo_size vo]) vars))"

definition setDefaultState :: "labels \<Rightarrow> string \<Rightarrow> basics \<Rightarrow> basics \<times> bool" where
  "setDefaultState getInitStates def b =
     (if def \<in> set getInitStates then (b\<lparr>default_state := def\<rparr>, True) else (b, False))"

section \<open>The cache\<close>

text \<open>The functions of a type the cache forwards to; \<open>'c\<close> is the state of the type.\<close>

record ('c, 's, 'n) type_impl =
  t_getLocals :: "'c \<Rightarrow> 's res"
  t_getSuccs :: "labels \<Rightarrow> 'c \<Rightarrow> 's res"
  t_getState :: "string \<Rightarrow> 'c \<Rightarrow> 'n res"
  t_setVarOrder :: "labels \<Rightarrow> 'c \<Rightarrow> ('c \<times> bool) res"

record ('c, 's, 'n) cacher =
  concrete :: 'c
  state_cache :: "(string \<times> 'n) list"
  trans_keys :: "labels list"
  trans_vals :: "'s list"
  locals_cache :: 's

text \<open>\<open>unset\<close> is \<open>GSDD::top\<close>, which marks the absence of a cached value.\<close>

definition TypeCacher_of :: "'s \<Rightarrow> 'c \<Rightarrow> ('c, 's, 'n) cacher" where
  "TypeCacher_of unset c =
     \<lparr>concrete = c, state_cache = [], trans_keys = [], trans_vals = [], locals_cache = unset\<rparr>"

definition TypeCacher_setVarOrder ::
  "('c, 's, 'n) type_impl \<Rightarrow> 's \<Rightarrow> labels \<Rightarrow> ('c, 's, 'n) cacher \<Rightarrow> (('c, 's, 'n) cacher \<times> bool) res" where
  "TypeCacher_setVarOrder I unset vars c =
     rbind (t_setVarOrder I vars (concrete c)) (\<lambda>(c', ok).
       Inr (c\<lparr>state_cache := [], trans_vals := [], locals_cache := unset, concrete := c'\<rparr>, ok))"

definition TypeCacher_getLocals ::
  "('c, 's, 'n) type_impl \<Rightarrow> 's \<Rightarrow> ('c, 's, 'n) cacher \<Rightarrow> (('c, 's, 'n) cacher \<times> 's) res" where
  "TypeCacher_getLocals I unset c =
     (if locals_cache c = unset
      then rbind (t_getLocals I (concrete c)) (\<lambda>l. Inr (c\<lparr>locals_cache := l\<rparr>, l))
      else Inr (c, locals_cache c))"

fun find_key :: "labels \<Rightarrow> labels list \<Rightarrow> nat \<Rightarrow> nat option" where
  "find_key ctau [] i = None"
| "find_key ctau (k # ks) i = (if k = ctau then Some i else find_key ctau ks (Suc i))"

definition TypeCacher_getSuccs ::
  "('c, 's, 'n) type_impl \<Rightarrow> labels \<Rightarrow> ('c, 's, 'n) cacher \<Rightarrow> (('c, 's, 'n) cacher \<times> 's) res" where
  "TypeCacher_getSuccs I tau c =
     (let ctau = sort tau
      in case find_key ctau (trans_keys c) 0 of
           None \<Rightarrow>
             rbind (t_getSuccs I ctau (concrete c)) (\<lambda>r.
               Inr (c\<lparr>trans_keys := trans_keys c @ [ctau], trans_vals := trans_vals c @ [r]\<rparr>, r))
         | Some i \<Rightarrow>
             if i < length (trans_vals c) then Inr (c, trans_vals c ! i)
             else Inl (Undefined ''trans_vals[] out of range''))"

definition TypeCacher_getState ::
  "('c, 's, 'n) type_impl \<Rightarrow> string \<Rightarrow> ('c, 's, 'n) cacher \<Rightarrow> (('c, 's, 'n) cacher \<times> 'n) res" where
  "TypeCacher_getState I stateLabel c =
     (case map_of (state_cache c) stateLabel of
        None \<Rightarrow> rbind (t_getState I stateLabel (concrete c)) (\<lambda>r.
                  Inr (c\<lparr>state_cache := (stateLabel, r) # state_cache c\<rparr>, r))
      | Some r \<Rightarrow> Inr (c, r))"

section \<open>Orders\<close>

lemma fold_snoc_map: "fold (\<lambda>x acc. acc @ [f x]) xs acc = acc @ map f xs"
  by (induction xs arbitrary: acc) auto

lemma addFlatVarSet_order:
  assumes "setFromCollection vs = Inr vo" "vorder b = None \<and> getVarSet = vs \<or> vorder b = Some vo"
  shows "\<exists>b'. TypeBasics_addFlatVarSet getVarSet vars prefix b = Inr (b', vars @ map ((@) prefix) (rev vs))"
proof -
  have size: "vo_size vo = length vs" using order_of_ok(2) [OF assms(1)] by (metis length_map vo_size_def)
  have "\<exists>b'. getVarOrder getVarSet b = Inr (b', vo)" using assms by (auto simp: getVarOrder_def)
  moreover have "map (\<lambda>v. prefix @ getLabel vo (int v)) (rev [0..<length vs]) = map ((@) prefix) (rev vs)"
  proof -
    have "map (\<lambda>v. getLabel vo (int v)) [0..<length vs] = vs"
      using order_roundtrip(2) [OF assms(1)] by (intro nth_equalityI) auto
    then show ?thesis by (metis (mono_tags, lifting) map_map comp_apply map_eq_conv rev_map)
  qed
  ultimately show ?thesis by (auto simp: TypeBasics_addFlatVarSet_def fold_snoc_map size)
qed

section \<open>The invariant of the cache\<close>

text \<open>Every cached value is what the type would answer now.\<close>

definition cache_ok :: "('c, 's, 'n) type_impl \<Rightarrow> 's \<Rightarrow> ('c, 's, 'n) cacher \<Rightarrow> bool" where
  "cache_ok I unset c \<longleftrightarrow>
     (\<forall>(l, r)\<in>set (state_cache c). t_getState I l (concrete c) = Inr r)
     \<and> list_all2 (\<lambda>k r. t_getSuccs I k (concrete c) = Inr r) (trans_keys c) (trans_vals c)
     \<and> (locals_cache c = unset \<or> t_getLocals I (concrete c) = Inr (locals_cache c))"

lemma find_key_Some: "find_key k ks i = Some j \<Longrightarrow> i \<le> j \<and> j - i < length ks \<and> ks ! (j - i) = k"
  by (induction ks arbitrary: i) (fastforce split: if_splits simp: Suc_diff_le nth_Cons')+

lemma find_key_None: "find_key k ks i = None \<longleftrightarrow> k \<notin> set ks"
  by (induction ks arbitrary: i) auto

lemma cache_fresh: "cache_ok I unset (TypeCacher_of unset c)"
  by (simp add: cache_ok_def TypeCacher_of_def)

lemma getSuccs_cached:
  assumes "cache_ok I unset c" "TypeCacher_getSuccs I tau c = Inr (c', r)"
  shows "cache_ok I unset c'" "t_getSuccs I (sort tau) (concrete c) = Inr r" "concrete c' = concrete c"
proof -
  have vals: "list_all2 (\<lambda>k r. t_getSuccs I k (concrete c) = Inr r) (trans_keys c) (trans_vals c)"
    using assms(1) by (simp add: cache_ok_def)
  have "cache_ok I unset c' \<and> t_getSuccs I (sort tau) (concrete c) = Inr r \<and> concrete c' = concrete c"
  proof (cases "find_key (sort tau) (trans_keys c) 0")
    case None
    with assms show ?thesis
      by (auto simp: TypeCacher_getSuccs_def Let_def cache_ok_def rbind_def list_all2_appendI split: sum.splits)
  next
    case (Some i)
    then have i: "i < length (trans_keys c)" "trans_keys c ! i = sort tau"
      using find_key_Some [OF Some] by simp_all
    then have "t_getSuccs I (sort tau) (concrete c) = Inr (trans_vals c ! i)" "i < length (trans_vals c)"
      using list_all2_nthD [OF vals i(1)] list_all2_lengthD [OF vals] by simp_all
    with Some assms show ?thesis by (simp add: TypeCacher_getSuccs_def Let_def) blast
  qed
  then show "cache_ok I unset c'" "t_getSuccs I (sort tau) (concrete c) = Inr r" "concrete c' = concrete c" by auto
qed

lemma getState_cached:
  assumes "cache_ok I unset c" "TypeCacher_getState I l c = Inr (c', r)"
  shows "cache_ok I unset c'" "t_getState I l (concrete c) = Inr r" "concrete c' = concrete c"
proof -
  have "cache_ok I unset c' \<and> t_getState I l (concrete c) = Inr r \<and> concrete c' = concrete c"
    using assms by (auto simp: TypeCacher_getState_def cache_ok_def rbind_def dest!: map_of_SomeD
        split: option.splits sum.splits)
  then show "cache_ok I unset c'" "t_getState I l (concrete c) = Inr r" "concrete c' = concrete c" by auto
qed

lemma getLocals_cached:
  assumes "cache_ok I unset c" "TypeCacher_getLocals I unset c = Inr (c', r)"
  shows "cache_ok I unset c'" "t_getLocals I (concrete c) = Inr r" "concrete c' = concrete c"
proof -
  have "cache_ok I unset c' \<and> t_getLocals I (concrete c) = Inr r \<and> concrete c' = concrete c"
    using assms by (auto simp: TypeCacher_getLocals_def cache_ok_def rbind_def split: if_splits sum.splits)
  then show "cache_ok I unset c'" "t_getLocals I (concrete c) = Inr r" "concrete c' = concrete c" by auto
qed

text \<open>After \<open>setVarOrder\<close> the keys are still there, the values are not.\<close>

lemma key_kept:
  assumes "TypeCacher_getSuccs I tau c = Inr (c', r)"
  shows "find_key (sort tau) (trans_keys c') 0 \<noteq> None"
proof (cases "find_key (sort tau) (trans_keys c) 0")
  case None
  with assms obtain v where "c' = c\<lparr>trans_keys := trans_keys c @ [sort tau], trans_vals := v\<rparr>"
    by (auto simp: TypeCacher_getSuccs_def Let_def rbind_def split: sum.splits)
  then show ?thesis by (simp add: find_key_None)
next
  case (Some i)
  with assms show ?thesis by (simp add: TypeCacher_getSuccs_def Let_def split: if_splits)
qed

lemma stale_key:
  assumes "TypeCacher_getSuccs I tau c = Inr (c', r)" "TypeCacher_setVarOrder I unset vars c' = Inr (c'', ok)"
  shows "TypeCacher_getSuccs I tau c'' = Inl (Undefined ''trans_vals[] out of range'')"
  using key_kept [OF assms(1)] assms(2)
  by (auto simp: TypeCacher_setVarOrder_def TypeCacher_getSuccs_def rbind_def split: sum.splits)

end
