(* ===== verification/Petri_Net.thy ===== *)
theory Petri_Net imports Var_Order begin

text \<open>
  Petri nets with hyperarcs and clocks (\<open>its/petri/Arc.hh\<close>, \<open>Place.hh\<close>, \<open>PTransition.hh\<close>,
  \<open>Marking.hh\<close>, \<open>PNet.cpp\<close>, \<open>TPNet.cpp\<close>): the data and the operations that build a net.
\<close>

section \<open>Data\<close>

datatype ArcType = INPUT | OUTPUT | INHIBITOR | RESET | TEST

record ArcVal =
  av_place :: string
  av_val :: int

record Arc =
  arc_places :: "ArcVal list"
  arc_type :: ArcType

datatype Visibility = PUBLIC | PRIVATE

text \<open>\<open>lft = -1\<close> is an infinite latest firing time; the clock \<open>[0, inf]\<close> is no constraint.\<close>

abbreviation CLOCK_INFINITY :: int where "CLOCK_INFINITY \<equiv> - 1"

record TimeConstraint =
  eft :: int
  lft :: int

definition default_clock :: TimeConstraint where
  "default_clock = \<lparr>eft = 0, lft = CLOCK_INFINITY\<rparr>"

definition clock_isTimed :: "TimeConstraint \<Rightarrow> bool" where
  "clock_isTimed c \<longleftrightarrow> \<not> (eft c = 0 \<and> lft c = CLOCK_INFINITY)"

record PTransition =
  t_name :: string
  t_label :: string
  t_vis :: Visibility
  t_arcs :: "Arc list"
  t_clock :: TimeConstraint

text \<open>A marking maps some places to a number; the others have 0.\<close>

type_synonym Marking = "(string \<times> int) list"

record PNet =
  n_name :: string
  n_places :: "string list"
  n_trans :: "PTransition list"
  n_markings :: "(string \<times> Marking) list"

section \<open>Markings\<close>

text \<open>\<open>insert\<close> of a \<open>std::map\<close>: a place that has a value keeps it.\<close>

definition Marking_setMarking :: "string \<Rightarrow> int \<Rightarrow> Marking \<Rightarrow> Marking" where
  "Marking_setMarking pname value m = (if pname \<in> fst ` set m then m else m @ [(pname, value)])"

definition Marking_getMarking :: "Marking \<Rightarrow> string \<Rightarrow> int" where
  "Marking_getMarking m pname = (case map_of m pname of None \<Rightarrow> 0 | Some v \<Rightarrow> v)"

section \<open>Arcs and transitions\<close>

definition Arc_addPlace :: "string \<Rightarrow> int \<Rightarrow> Arc \<Rightarrow> Arc res" where
  "Arc_addPlace place valuation a =
     (if place = '''' then Inl (Abort ''assert (place != )'')
      else Inr (a\<lparr>arc_places := arc_places a @ [\<lparr>av_place = place, av_val = valuation\<rparr>]\<rparr>))"

definition Arc_of :: "ArcType \<Rightarrow> string \<Rightarrow> int \<Rightarrow> Arc res" where
  "Arc_of at place valuation = Arc_addPlace place valuation \<lparr>arc_places = [], arc_type = at\<rparr>"

definition PTransition_of :: "string \<Rightarrow> string \<Rightarrow> Visibility \<Rightarrow> PTransition" where
  "PTransition_of name label vis =
     \<lparr>t_name = name, t_label = label, t_vis = vis, t_arcs = [], t_clock = default_clock\<rparr>"

definition PTransition_addArc :: "Arc \<Rightarrow> PTransition \<Rightarrow> PTransition" where
  "PTransition_addArc a t = t\<lparr>t_arcs := t_arcs t @ [a]\<rparr>"

definition PTransition_addClock :: "int \<Rightarrow> int \<Rightarrow> PTransition \<Rightarrow> PTransition res" where
  "PTransition_addClock tmin tmax t =
     (if tmin \<le> tmax \<or> tmax = - 1 then Inr (t\<lparr>t_clock := \<lparr>eft = tmin, lft = tmax\<rparr>\<rparr>)
      else Inl (Abort ''assert(min <= max || max == -1)''))"

definition t_isTimed :: "PTransition \<Rightarrow> bool" where
  "t_isTimed t = clock_isTimed (t_clock t)"

section \<open>Building a net\<close>

definition PNet_of :: "string \<Rightarrow> PNet" where
  "PNet_of name = \<lparr>n_name = name, n_places = [], n_trans = [], n_markings = [(''init'', [])]\<rparr>"

text \<open>\<open>findName\<close> on the transitions.\<close>

fun find_trans :: "string \<Rightarrow> PTransition list \<Rightarrow> PTransition option" where
  "find_trans name [] = None"
| "find_trans name (t # ts) = (if t_name t = name then Some t else find_trans name ts)"

text \<open>The transition found is updated in place.\<close>

fun update_trans :: "string \<Rightarrow> (PTransition \<Rightarrow> PTransition) \<Rightarrow> PTransition list \<Rightarrow> PTransition list" where
  "update_trans name f [] = []"
| "update_trans name f (t # ts) = (if t_name t = name then f t # ts else t # update_trans name f ts)"

definition addPlace :: "string \<Rightarrow> PNet \<Rightarrow> PNet \<times> bool" where
  "addPlace pname n =
     (if pname \<in> set (n_places n) then (n, False)
      else (n\<lparr>n_places := n_places n @ [pname]\<rparr>, True))"

definition addTransition :: "string \<Rightarrow> string \<Rightarrow> Visibility \<Rightarrow> PNet \<Rightarrow> PNet \<times> bool" where
  "addTransition tname tlabel vis n =
     (case find_trans tname (n_trans n) of
        None \<Rightarrow> (n\<lparr>n_trans := n_trans n @ [PTransition_of tname tlabel vis]\<rparr>, True)
      | Some t \<Rightarrow> (n, False))"

definition addArc :: "string \<times> int \<Rightarrow> string \<Rightarrow> ArcType \<Rightarrow> PNet \<Rightarrow> (PNet \<times> bool) res" where
  "addArc av tname at n =
     (if fst av \<notin> set (n_places n) \<or> find_trans tname (n_trans n) = None then Inr (n, False)
      else rbind (Arc_of at (fst av) (snd av)) (\<lambda>a.
             Inr (n\<lparr>n_trans := update_trans tname (PTransition_addArc a) (n_trans n)\<rparr>, True)))"

fun add_places :: "(string \<times> int) list \<Rightarrow> Arc \<Rightarrow> Arc res" where
  "add_places [] a = Inr a"
| "add_places (av # avs) a = rbind (Arc_addPlace (fst av) (snd av) a) (add_places avs)"

definition addHArc :: "(string \<times> int) list \<Rightarrow> string \<Rightarrow> ArcType \<Rightarrow> PNet \<Rightarrow> (PNet \<times> bool) res" where
  "addHArc avs tname at n =
     (case avs of
        [] \<Rightarrow> Inr (n, False)
      | av # rest \<Rightarrow>
          if find_trans tname (n_trans n) = None then Inr (n, False)
          else if list_ex (\<lambda>p. fst p \<notin> set (n_places n)) avs then Inr (n, False)
          else rbind (Arc_of at (fst av) (snd av)) (\<lambda>a0.
                 rbind (add_places rest a0) (\<lambda>a.
                   Inr (n\<lparr>n_trans := update_trans tname (PTransition_addArc a) (n_trans n)\<rparr>, True))))"

text \<open>\<open>setMarking\<close> answers whether the state label is new.\<close>

definition setMarking :: "string \<Rightarrow> string \<Rightarrow> int \<Rightarrow> PNet \<Rightarrow> PNet \<times> bool" where
  "setMarking state place value n =
     (case map_of (n_markings n) state of
        None \<Rightarrow> (n\<lparr>n_markings := n_markings n @ [(state, Marking_setMarking place value [])]\<rparr>, True)
      | Some m \<Rightarrow>
          (n\<lparr>n_markings := map (\<lambda>(s, m'). (s, if s = state then Marking_setMarking place value m' else m'))
                             (n_markings n)\<rparr>, False))"

definition TPNet_of :: "string \<Rightarrow> PNet" where
  "TPNet_of name = fst (addTransition ''elapse'' ''elapse'' PUBLIC (PNet_of name))"

definition addClock :: "string \<Rightarrow> int \<Rightarrow> int \<Rightarrow> PNet \<Rightarrow> (PNet \<times> bool) res" where
  "addClock tname tmin tmax n =
     (if tmin = 0 \<and> tmax = CLOCK_INFINITY then Inr (n, False)
      else case find_trans tname (n_trans n) of
             None \<Rightarrow> Inr (n, False)
           | Some t \<Rightarrow>
               rbind (PTransition_addClock tmin tmax t) (\<lambda>t'.
                 Inr (n\<lparr>n_trans := update_trans tname (\<lambda>_. t') (n_trans n)\<rparr>, True)))"

definition clockName :: "string \<Rightarrow> string" where
  "clockName tname = ''__clock_'' @ tname"

section \<open>The invariant of a net\<close>

definition arc_ok :: "string list \<Rightarrow> Arc \<Rightarrow> bool" where
  "arc_ok places a \<longleftrightarrow> arc_places a \<noteq> [] \<and> (\<forall>av\<in>set (arc_places a). av_place av \<in> set places)"

definition clock_ok :: "TimeConstraint \<Rightarrow> bool" where
  "clock_ok c \<longleftrightarrow> eft c \<le> lft c \<or> lft c = CLOCK_INFINITY"

definition net_ok :: "PNet \<Rightarrow> bool" where
  "net_ok n \<longleftrightarrow> distinct (n_places n) \<and> distinct (map t_name (n_trans n))
     \<and> (\<forall>t\<in>set (n_trans n). (\<forall>a\<in>set (t_arcs t). arc_ok (n_places n) a) \<and> clock_ok (t_clock t))
     \<and> distinct (map fst (n_markings n)) \<and> (\<forall>(s, m)\<in>set (n_markings n). distinct (map fst m))"

lemma find_trans_None_iff: "find_trans name ts = None \<longleftrightarrow> name \<notin> t_name ` set ts"
  by (induction ts) auto

lemma find_trans_Some: "find_trans name ts = Some t \<Longrightarrow> t \<in> set ts \<and> t_name t = name"
  by (induction ts) (auto split: if_splits)

lemma update_trans_names:
  "(\<And>t. t_name t = name \<Longrightarrow> t_name (f t) = name) \<Longrightarrow> map t_name (update_trans name f ts) = map t_name ts"
  by (induction ts) auto

lemma update_trans_elem:
  "t \<in> set (update_trans name f ts) \<Longrightarrow> t \<in> set ts \<or> (\<exists>u\<in>set ts. t_name u = name \<and> t = f u)"
  by (induction ts) (auto split: if_splits)

lemma PNet_of_ok: "net_ok (PNet_of name)"
  by (simp add: net_ok_def PNet_of_def)

lemma addPlace_ok: "net_ok n \<Longrightarrow> net_ok (fst (addPlace p n))"
  by (auto simp: net_ok_def addPlace_def arc_ok_def)

lemma addTransition_ok: "net_ok n \<Longrightarrow> net_ok (fst (addTransition t l v n))"
  by (auto simp: net_ok_def addTransition_def PTransition_of_def find_trans_None_iff clock_ok_def
      default_clock_def split: option.splits)

lemma net_ok_update:
  assumes "net_ok n" and "\<And>t. t \<in> set (n_trans n) \<Longrightarrow> t_name t = name \<Longrightarrow> t_name (f t) = name
    \<and> (\<forall>a\<in>set (t_arcs (f t)). arc_ok (n_places n) a) \<and> clock_ok (t_clock (f t))"
  shows "net_ok (n\<lparr>n_trans := update_trans name f (n_trans n)\<rparr>)"
proof -
  have names: "map t_name (update_trans name f ts) = map t_name ts" if "set ts \<subseteq> set (n_trans n)" for ts
    using that assms(2) by (induction ts) auto
  then have "distinct (map t_name (update_trans name f (n_trans n)))"
    using assms(1) by (simp add: net_ok_def)
  moreover have "(\<forall>a\<in>set (t_arcs t). arc_ok (n_places n) a) \<and> clock_ok (t_clock t)"
    if "t \<in> set (update_trans name f (n_trans n))" for t
    using update_trans_elem [OF that]
  proof
    assume "t \<in> set (n_trans n)"
    with assms(1) show ?thesis by (simp add: net_ok_def)
  next
    assume "\<exists>u\<in>set (n_trans n). t_name u = name \<and> t = f u"
    with assms(2) show ?thesis by blast
  qed
  ultimately show ?thesis using assms(1) by (simp add: net_ok_def)
qed

lemma Arc_addPlace_ok:
  "Arc_addPlace p v a = Inr a' \<Longrightarrow> p \<in> set places \<Longrightarrow> (\<forall>av\<in>set (arc_places a). av_place av \<in> set places)
    \<Longrightarrow> arc_ok places a'"
  by (auto simp: Arc_addPlace_def arc_ok_def split: if_splits)

lemma add_places_ok:
  "add_places avs a = Inr a' \<Longrightarrow> (\<forall>p\<in>set avs. fst p \<in> set places) \<Longrightarrow> arc_ok places a \<Longrightarrow> arc_ok places a'"
proof (induction avs arbitrary: a)
  case (Cons av avs)
  then obtain b where "Arc_addPlace (fst av) (snd av) a = Inr b" "add_places avs b = Inr a'"
    by (auto elim: rbind_InrE)
  with Cons Arc_addPlace_ok [of "fst av" "snd av" a b places] show ?case by (auto simp: arc_ok_def)
qed simp

lemma addArc_ok:
  assumes "net_ok n" "addArc av t at n = Inr (n', b)"
  shows "net_ok n'" "b \<longleftrightarrow> fst av \<in> set (n_places n) \<and> t \<in> t_name ` set (n_trans n)"
proof -
  have "net_ok n' \<and> (b \<longleftrightarrow> fst av \<in> set (n_places n) \<and> t \<in> t_name ` set (n_trans n))"
  proof (cases "fst av \<notin> set (n_places n) \<or> find_trans t (n_trans n) = None")
    case True
    with assms show ?thesis by (auto simp: addArc_def find_trans_None_iff)
  next
    case False
    with assms(2) obtain a where a: "Arc_of at (fst av) (snd av) = Inr a" "b"
      "n' = n\<lparr>n_trans := update_trans t (PTransition_addArc a) (n_trans n)\<rparr>"
      by (auto simp: addArc_def elim!: rbind_InrE)
    have "arc_ok (n_places n) a"
      using Arc_addPlace_ok [of "fst av" "snd av" _ a "n_places n"] a(1) False by (auto simp: Arc_of_def)
    then have "net_ok n'"
      unfolding a(3) using assms(1)
      by (intro net_ok_update) (auto simp: PTransition_addArc_def net_ok_def)
    with a(2) False show ?thesis by (auto simp: find_trans_None_iff)
  qed
  then show "net_ok n'" "b \<longleftrightarrow> fst av \<in> set (n_places n) \<and> t \<in> t_name ` set (n_trans n)" by blast+
qed

lemma addHArc_ok:
  assumes "net_ok n" "addHArc avs t at n = Inr (n', b)"
  shows "net_ok n'" "b \<longleftrightarrow> avs \<noteq> [] \<and> t \<in> t_name ` set (n_trans n) \<and> (\<forall>p\<in>set avs. fst p \<in> set (n_places n))"
proof -
  have "net_ok n' \<and> (b \<longleftrightarrow> avs \<noteq> [] \<and> t \<in> t_name ` set (n_trans n) \<and> (\<forall>p\<in>set avs. fst p \<in> set (n_places n)))"
  proof (cases "avs = [] \<or> find_trans t (n_trans n) = None \<or> (\<exists>p\<in>set avs. fst p \<notin> set (n_places n))")
    case True
    with assms show ?thesis
      by (auto simp: addHArc_def find_trans_None_iff list_ex_iff split: list.splits if_splits)
  next
    case False
    then obtain av rest where avs: "avs = av # rest" by (cases avs) auto
    with False assms(2) obtain a0 a where a: "Arc_of at (fst av) (snd av) = Inr a0" "add_places rest a0 = Inr a"
      "b" "n' = n\<lparr>n_trans := update_trans t (PTransition_addArc a) (n_trans n)\<rparr>"
      by (auto simp: addHArc_def list_ex_iff elim!: rbind_InrE)
    have "arc_ok (n_places n) a0"
      using Arc_addPlace_ok [of "fst av" "snd av" _ a0 "n_places n"] a(1) False avs by (auto simp: Arc_of_def)
    with add_places_ok [OF a(2)] False avs have "arc_ok (n_places n) a" by auto
    then have "net_ok n'"
      unfolding a(4) using assms(1)
      by (intro net_ok_update) (auto simp: PTransition_addArc_def net_ok_def)
    with a(3) False show ?thesis by (auto simp: find_trans_None_iff)
  qed
  then show "net_ok n'"
    "b \<longleftrightarrow> avs \<noteq> [] \<and> t \<in> t_name ` set (n_trans n) \<and> (\<forall>p\<in>set avs. fst p \<in> set (n_places n))" by blast+
qed

lemma addClock_ok:
  assumes "net_ok n" "addClock t tmin tmax n = Inr (n', b)"
  shows "net_ok n'"
proof (cases "b")
  case True
  with assms(2) obtain u u' where "find_trans t (n_trans n) = Some u" "PTransition_addClock tmin tmax u = Inr u'"
    "n' = n\<lparr>n_trans := update_trans t (\<lambda>_. u') (n_trans n)\<rparr>"
    by (auto simp: addClock_def split: if_splits option.splits elim!: rbind_InrE)
  moreover from this have "t_name u' = t" "t_arcs u' = t_arcs u" "clock_ok (t_clock u')" "u \<in> set (n_trans n)"
    using find_trans_Some [of t "n_trans n" u]
    by (auto simp: PTransition_addClock_def clock_ok_def split: if_splits)
  moreover from this assms(1) have "\<forall>a\<in>set (t_arcs u'). arc_ok (n_places n) a" by (simp add: net_ok_def)
  ultimately show ?thesis by (simp add: net_ok_update [OF assms(1)])
next
  case False
  with assms show ?thesis by (auto simp: addClock_def split: if_splits option.splits elim!: rbind_InrE)
qed

lemma setMarking_ok: "net_ok n \<Longrightarrow> net_ok (fst (setMarking s p v n))"
  by (auto simp: net_ok_def setMarking_def Marking_setMarking_def map_of_eq_None_iff o_def case_prod_beta
      split: option.splits)

text \<open>The first value given to a place in a state is the one it keeps.\<close>

lemma getMarking_setMarking:
  "Marking_getMarking (Marking_setMarking p v m) q =
     (if q = p \<and> p \<notin> fst ` set m then v else Marking_getMarking m q)"
  using map_of_eq_None_iff [of m p]
  by (cases "map_of m p") (auto simp: Marking_getMarking_def Marking_setMarking_def map_add_def
      split: option.splits dest: map_of_SomeD)

end
