(* ===== verification/Petri_Semantics.thy ===== *)
theory Petri_Semantics imports Petri_Net Hom_Interface begin

text \<open>
  The translation of Petri nets to homomorphisms (\<open>its/petri/TPNetSemantics.hpp\<close>, \<open>PNetType.hh\<close>,
  \<open>TPNetType.hh\<close>). \<open>H\<close> are the operators of \<open>HomType\<close>, \<open>getHom\<close> the specialised member function,
  \<open>sH\<close> and \<open>enc\<close> the operators of \<open>Transition\<close> and \<open>encapsulate\<close>.
\<close>

type_synonym 'h basic_hom = "hom_fun \<Rightarrow> int \<Rightarrow> int \<Rightarrow> 'h"

section \<open>Arcs and transitions\<close>

definition getEnablerHom_arc :: "'h hom_ops \<Rightarrow> 'h basic_hom \<Rightarrow> varorder \<Rightarrow> Arc \<Rightarrow> 'h" where
  "getEnablerHom_arc H getHom pi a =
     (if arc_type a = OUTPUT \<or> arc_type a = RESET then Hid H
      else Hadd H (map (\<lambda>av.
             let val = av_val av; pindex = getIndex pi (av_place av)
             in if arc_type a = INHIBITOR then getHom varLeqState pindex (val - 1)
                else getHom varGtState pindex (val - 1)) (arc_places a)))"

definition getDisablerHom :: "'h hom_ops \<Rightarrow> 'h basic_hom \<Rightarrow> varorder \<Rightarrow> Arc \<Rightarrow> 'h" where
  "getDisablerHom H getHom pi a = Hnot H (getEnablerHom_arc H getHom pi a)"

definition getActionHom_arc :: "'h hom_ops \<Rightarrow> 'h basic_hom \<Rightarrow> varorder \<Rightarrow> Arc \<Rightarrow> 'h" where
  "getActionHom_arc H getHom pi a =
     (if arc_type a = INHIBITOR \<or> arc_type a = TEST then Hid H
      else Hadd H (map (\<lambda>av.
             let val = av_val av; pindex = getIndex pi (av_place av)
             in if arc_type a = INPUT then getHom postPlace pindex (- val)
                else if arc_type a = OUTPUT
                then Hcomp H (getHom varGtState pindex 0) (getHom postPlace pindex val)
                else getHom setVarConst pindex 0) (arc_places a)))"

text \<open>\<open>HomType res;\<close> is the identity; every arc is composed on the left.\<close>

definition getActionHom :: "'h hom_ops \<Rightarrow> 'h basic_hom \<Rightarrow> varorder \<Rightarrow> PTransition \<Rightarrow> 'h" where
  "getActionHom H getHom pi t =
     fold (\<lambda>a res. Hcomp H (getActionHom_arc H getHom pi a) res) (t_arcs t) (Hid H)"

definition getEnablerHom :: "'h hom_ops \<Rightarrow> 'h basic_hom \<Rightarrow> varorder \<Rightarrow> PTransition \<Rightarrow> 'h" where
  "getEnablerHom H getHom pi t =
     fold (\<lambda>a res. Hcomp H (getEnablerHom_arc H getHom pi a) res) (t_arcs t) (Hid H)"

definition getFullHom :: "'h hom_ops \<Rightarrow> 'h basic_hom \<Rightarrow> varorder \<Rightarrow> PTransition \<Rightarrow> 'h" where
  "getFullHom H getHom pi t = Hcomp H (getActionHom H getHom pi t) (getEnablerHom H getHom pi t)"

section \<open>Clocks\<close>

definition getOK :: "'h hom_ops \<Rightarrow> 'h basic_hom \<Rightarrow> TimeConstraint \<Rightarrow> int \<Rightarrow> 'h" where
  "getOK H getHom clock cvar =
     (if lft clock = 0 then Hid H
      else
        let h = (if lft clock \<noteq> - 1 then getHom varLeqState cvar (lft clock) else Hid H)
        in if eft clock > 0 then Hcomp H (getHom varGtState cvar (eft clock - 1)) h else h)"

definition getRZ :: "'h hom_ops \<Rightarrow> 'h basic_hom \<Rightarrow> TimeConstraint \<Rightarrow> int \<Rightarrow> 'h" where
  "getRZ H getHom clock cvar = (if lft clock = 0 then Hid H else getHom setVarConst cvar 0)"

definition getIncr :: "'h hom_ops \<Rightarrow> 'h basic_hom \<Rightarrow> TimeConstraint \<Rightarrow> int \<Rightarrow> 'h" where
  "getIncr H getHom clock cvar =
     (if lft clock = - 1 then
        (if eft clock = 0 then Hid H
         else Hite H (getHom varGtState cvar (eft clock - 1)) (Hid H) (getHom postPlace cvar 1))
      else if lft clock = 0 then Hnull H
      else Hcomp H (getHom postPlace cvar 1) (getHom varLeqState cvar (lft clock - 1)))"

section \<open>Initial states\<close>

record 'n node_ops =
  node_one :: 'n
  newNode :: "int \<Rightarrow> int \<Rightarrow> 'n"
  node_concat :: "'n \<Rightarrow> 'n \<Rightarrow> 'n"

definition getMarking :: "'n node_ops \<Rightarrow> Marking \<Rightarrow> varorder \<Rightarrow> 'n" where
  "getMarking N m vo =
     fold (\<lambda>i M0. node_concat N (newNode N (int i) (Marking_getMarking m (getLabel vo (int i)))) M0)
       [0..<vo_size vo] (node_one N)"

section \<open>Net types\<close>

definition PNet_getVarSet :: "PNet \<Rightarrow> labels" where
  "PNet_getVarSet n = n_places n"

definition TPNet_getVarSet :: "PNet \<Rightarrow> labels" where
  "TPNet_getVarSet n =
     map (\<lambda>t. clockName (t_name t)) (filter (\<lambda>t. t_isTimed t \<and> lft (t_clock t) \<noteq> 0) (n_trans n))
     @ PNet_getVarSet n"

definition getInitStates :: "PNet \<Rightarrow> labels" where
  "getInitStates n = map fst (n_markings n)"

definition getTransLabels :: "PNet \<Rightarrow> labels" where
  "getTransLabels n = map t_label (filter (\<lambda>t. t_vis t = PUBLIC) (n_trans n))"

definition getState :: "'n node_ops \<Rightarrow> ('n \<Rightarrow> 'sn) \<Rightarrow> PNet \<Rightarrow> varorder \<Rightarrow> string \<Rightarrow> 'sn res" where
  "getState N wrap n vo stateLabel =
     (case map_of (n_markings n) stateLabel of
        None \<Rightarrow> Inl (Abort ''assert(false)'')
      | Some m \<Rightarrow> Inr (wrap (getMarking N m vo)))"

definition PNet_getTransitionHom ::
  "'h hom_ops \<Rightarrow> 'h basic_hom \<Rightarrow> ('h \<Rightarrow> 's) \<Rightarrow> varorder \<Rightarrow> PTransition \<Rightarrow> 's" where
  "PNet_getTransitionHom H getHom enc vo t = enc (getFullHom H getHom vo t)"

definition TPNet_getTransitionHom ::
  "'h hom_ops \<Rightarrow> 'h basic_hom \<Rightarrow> ('h \<Rightarrow> 's) \<Rightarrow> varorder \<Rightarrow> PTransition \<Rightarrow> 's" where
  "TPNet_getTransitionHom H getHom enc vo t =
     (if \<not> t_isTimed t then PNet_getTransitionHom H getHom enc vo t
      else
        let cvar = getIndex vo (clockName (t_name t)); tc = t_clock t
        in enc (Hcomp H (Hcomp H (getFullHom H getHom vo t) (getRZ H getHom tc cvar))
             (getOK H getHom tc cvar)))"

text \<open>The two virtual functions the base class calls: the homomorphism of a transition and the reset
  of the clocks of disabled transitions.\<close>

definition getLocals :: "'s hom_ops \<Rightarrow> (PTransition \<Rightarrow> 's) \<Rightarrow> 's \<Rightarrow> PNet \<Rightarrow> 's" where
  "getLocals sH transHom resetDisabled n =
     (let locals = map (\<lambda>t. let ht = transHom t
                           in if \<not> Hselector sH ht then Hcomp sH resetDisabled ht else ht)
                     (filter (\<lambda>t. t_vis t = PRIVATE) (n_trans n))
      in if locals \<noteq> [] then Hadd sH locals else Hnull sH)"

definition getNamedLocals :: "'s hom_ops \<Rightarrow> (PTransition \<Rightarrow> 's) \<Rightarrow> 's \<Rightarrow> PNet \<Rightarrow> (string \<times> 's) list" where
  "getNamedLocals sH transHom resetDisabled n =
     map (\<lambda>t. let ht = transHom t
             in (t_name t, if \<not> Hselector sH ht then Hcomp sH resetDisabled ht else ht))
       (filter (\<lambda>t. t_vis t = PRIVATE) (n_trans n))"

text \<open>The union of the transitions with a label, and the composition over the labels of \<open>tau\<close>.\<close>

fun label_action :: "'s hom_ops \<Rightarrow> (PTransition \<Rightarrow> 's) \<Rightarrow> string \<Rightarrow> PTransition list \<Rightarrow> 's option \<Rightarrow> 's option" where
  "label_action sH transHom l [] acc = acc"
| "label_action sH transHom l (t # ts) acc =
     (if t_label t = l then
        label_action sH transHom l ts
          (Some (case acc of None \<Rightarrow> transHom t | Some h \<Rightarrow> Hor sH h (transHom t)))
      else label_action sH transHom l ts acc)"

fun getSuccs_loop :: "'s hom_ops \<Rightarrow> (PTransition \<Rightarrow> 's) \<Rightarrow> PTransition list \<Rightarrow> labels \<Rightarrow> 's \<Rightarrow> 's res" where
  "getSuccs_loop sH transHom ts [] resultTrans = Inr resultTrans"
| "getSuccs_loop sH transHom ts (l # ls) resultTrans =
     (case label_action sH transHom l ts None of
        None \<Rightarrow> Inl (Abort ''assert(false)'')
      | Some h \<Rightarrow> getSuccs_loop sH transHom ts ls (Hcomp sH h resultTrans))"

definition PNet_getSuccs :: "'s hom_ops \<Rightarrow> (PTransition \<Rightarrow> 's) \<Rightarrow> PNet \<Rightarrow> labels \<Rightarrow> 's res" where
  "PNet_getSuccs sH transHom n tau = getSuccs_loop sH transHom (n_trans n) tau (Hid sH)"

definition reset_step :: "'h hom_ops \<Rightarrow> 'h basic_hom \<Rightarrow> varorder \<Rightarrow> PTransition \<Rightarrow> 'h \<Rightarrow> 'h" where
  "reset_step H getHom vo t elapse =
     (if t_isTimed t \<and> lft (t_clock t) \<noteq> 0 then
        let cvar = getIndex vo (clockName (t_name t));
            timet = Hite H (getEnablerHom H getHom vo t) (Hid H) (getRZ H getHom (t_clock t) cvar)
        in Hcomp H elapse timet
      else elapse)"

definition getResetDisabled :: "'h hom_ops \<Rightarrow> 'h basic_hom \<Rightarrow> ('h \<Rightarrow> 's) \<Rightarrow> PNet \<Rightarrow> varorder \<Rightarrow> 's" where
  "getResetDisabled H getHom enc n vo = enc (fold (reset_step H getHom vo) (n_trans n) (Hid H))"

definition elapse_step :: "'h hom_ops \<Rightarrow> 'h basic_hom \<Rightarrow> varorder \<Rightarrow> PTransition \<Rightarrow> 'h \<Rightarrow> 'h" where
  "elapse_step H getHom vo t elapse =
     (if lft (t_clock t) = 0 then
        let timet = Hite H (getEnablerHom H getHom vo t) (getIncr H getHom (t_clock t) 0) (Hid H)
        in Hcomp H elapse timet
      else if t_isTimed t then
        let cvar = getIndex vo (clockName (t_name t));
            timet = Hite H (getEnablerHom H getHom vo t) (getIncr H getHom (t_clock t) cvar)
              (getRZ H getHom (t_clock t) cvar)
        in Hcomp H elapse timet
      else elapse)"

definition elapseHom :: "'h hom_ops \<Rightarrow> 'h basic_hom \<Rightarrow> PNet \<Rightarrow> varorder \<Rightarrow> 'h" where
  "elapseHom H getHom n vo = fold (elapse_step H getHom vo) (n_trans n) (Hid H)"

definition TPNet_getSuccs ::
  "'h hom_ops \<Rightarrow> 'h basic_hom \<Rightarrow> 's hom_ops \<Rightarrow> ('h \<Rightarrow> 's) \<Rightarrow> PNet \<Rightarrow> varorder \<Rightarrow> labels \<Rightarrow> 's res" where
  "TPNet_getSuccs H getHom sH enc n vo tau =
     (if tau = [''elapse''] then Inr (enc (elapseHom H getHom n vo))
      else rbind (PNet_getSuccs sH (TPNet_getTransitionHom H getHom enc vo) n tau) (\<lambda>ret.
             if \<not> Hselector sH ret then Inr (Hcomp sH (getResetDisabled H getHom enc n vo) ret)
             else Inr ret))"

section \<open>The token game\<close>

text \<open>What the translation should compute, on the values \<open>m\<close> of the variables.\<close>

definition arc_enabled :: "varorder \<Rightarrow> Arc \<Rightarrow> (int \<Rightarrow> int) \<Rightarrow> bool" where
  "arc_enabled pi a m \<longleftrightarrow>
     (case arc_type a of
        INHIBITOR \<Rightarrow> (\<exists>av\<in>set (arc_places a). m (getIndex pi (av_place av)) < av_val av)
      | INPUT \<Rightarrow> (\<exists>av\<in>set (arc_places a). m (getIndex pi (av_place av)) \<ge> av_val av)
      | TEST \<Rightarrow> (\<exists>av\<in>set (arc_places a). m (getIndex pi (av_place av)) \<ge> av_val av)
      | _ \<Rightarrow> True)"

definition t_enabled :: "varorder \<Rightarrow> PTransition \<Rightarrow> (int \<Rightarrow> int) \<Rightarrow> bool" where
  "t_enabled pi t m \<longleftrightarrow> (\<forall>a\<in>set (t_arcs t). arc_enabled pi a m)"

text \<open>The states an arc leads to; a hyperarc has one for each of its places.\<close>

definition arc_effects ::
  "('st \<Rightarrow> int \<Rightarrow> int) \<Rightarrow> ('st \<Rightarrow> int \<Rightarrow> int \<Rightarrow> 'st) \<Rightarrow> varorder \<Rightarrow> Arc \<Rightarrow> 'st \<Rightarrow> 'st set" where
  "arc_effects rd wr pi a s =
     (case arc_type a of
        INPUT \<Rightarrow> {wr s i (rd s i - av_val av) | av i. av \<in> set (arc_places a) \<and> i = getIndex pi (av_place av)}
      | OUTPUT \<Rightarrow> {wr s i (rd s i + av_val av) | av i. av \<in> set (arc_places a)
            \<and> i = getIndex pi (av_place av) \<and> rd s i + av_val av > 0}
      | RESET \<Rightarrow> {wr s i 0 | av i. av \<in> set (arc_places a) \<and> i = getIndex pi (av_place av)}
      | _ \<Rightarrow> {s})"

fun arcs_effects ::
  "('st \<Rightarrow> int \<Rightarrow> int) \<Rightarrow> ('st \<Rightarrow> int \<Rightarrow> int \<Rightarrow> 'st) \<Rightarrow> varorder \<Rightarrow> Arc list \<Rightarrow> 'st \<Rightarrow> 'st set" where
  "arcs_effects rd wr pi [] s = {s}"
| "arcs_effects rd wr pi (a # as) s = (\<Union>s'\<in>arc_effects rd wr pi a s. arcs_effects rd wr pi as s')"

context petri_hom begin

lemma tests_enabler_arc: "tests (getEnablerHom_arc ops getHom pi a) (\<lambda>s. arc_enabled pi a (rd s))"
proof -
  let ?f = "\<lambda>av. let val = av_val av; pindex = getIndex pi (av_place av)
      in if arc_type a = INHIBITOR then getHom varLeqState pindex (val - 1) else getHom varGtState pindex (val - 1)"
  let ?P = "\<lambda>av s. let val = av_val av; pindex = getIndex pi (av_place av)
      in if arc_type a = INHIBITOR then rd s pindex < val else rd s pindex \<ge> val"
  have one: "tests (?f av) (?P av)" for av
    using tests_getHom [of varLeqState "getIndex pi (av_place av)" "av_val av - 1"]
      tests_getHom [of varGtState "getIndex pi (av_place av)" "av_val av - 1"]
    by (simp add: Let_def tests_def zle_diff1_eq)
       (auto simp: not_less intro!: Collect_cong)
  have "tests (Hadd ops (map ?f (arc_places a))) (\<lambda>s. \<exists>P\<in>set (map ?P (arc_places a)). P s)"
    by (rule tests_add) (simp add: list_all2_conv_all_nth one)
  then show ?thesis
    using tests_id
    by (cases "arc_type a") (simp_all add: getEnablerHom_arc_def arc_enabled_def Let_def)
qed

lemma tests_fold_comp:
  "\<forall>a\<in>set as. tests (h a) (P a) \<Longrightarrow> tests res Q
    \<Longrightarrow> tests (fold (\<lambda>a res. Hcomp ops (h a) res) as res) (\<lambda>s. Q s \<and> (\<forall>a\<in>set as. P a s))"
proof (induction as arbitrary: res Q)
  case (Cons a as)
  then have "tests (Hcomp ops (h a) res) (\<lambda>s. Q s \<and> P a s)" by (intro tests_comp) auto
  from Cons.IH [OF _ this] Cons.prems(1) show ?case by (simp add: conj_assoc)
qed simp

text \<open>The enabling homomorphism selects the states where every arc is enabled.\<close>

lemma tests_enabler: "tests (getEnablerHom ops getHom pi t) (\<lambda>s. t_enabled pi t (rd s))"
  using tests_fold_comp [of "t_arcs t" "getEnablerHom_arc ops getHom pi" "\<lambda>a s. arc_enabled pi a (rd s)",
      OF _ tests_id] tests_enabler_arc
  by (simp add: getEnablerHom_def t_enabled_def)

lemma app_action_arc: "app (getActionHom_arc ops getHom pi a) S = (\<Union>s\<in>S. arc_effects rd wr pi a s)"
proof -
  have out: "app (Hcomp ops (getHom varGtState i 0) (getHom postPlace i v)) S
      = {wr s i (rd s i + v) | s. s \<in> S \<and> rd s i + v > 0}" for i v
    using tests_getHom [of varGtState i 0]
    by (auto simp: app_comp app_postPlace tests_def rd_wr)
  show ?thesis
    by (cases "arc_type a")
       (auto simp: getActionHom_arc_def arc_effects_def app_add Let_def app_id app_postPlace app_setVarConst out)
qed

lemma app_fold_action:
  "app (fold (\<lambda>a res. Hcomp ops (getActionHom_arc ops getHom pi a) res) as res) S
    = (\<Union>s\<in>app res S. arcs_effects rd wr pi as s)"
  by (induction as arbitrary: res) (simp_all add: app_comp app_action_arc)

text \<open>A transition: the enabled states, and what its arcs do to them in order.\<close>

lemma app_full:
  "app (getFullHom ops getHom pi t) S = (\<Union>s\<in>{s \<in> S. t_enabled pi t (rd s)}. arcs_effects rd wr pi (t_arcs t) s)"
  using tests_enabler
  by (simp add: getFullHom_def getActionHom_def app_comp app_fold_action app_id tests_def)

end

end
