(* ===== verification/Gal_Type.thy ===== *)
theory Gal_Type imports Gal_System Gal_Select Type_Basics Petri_Semantics begin

text \<open>
  The type of a GAL system (\<open>its/gal/GALType.hh\<close>, \<open>GALType.cpp\<close>): the homomorphisms of its statements, its
  local and labelled transitions, its states. As everywhere the diagram library is a parameter; \<open>n\<close> is
  the fuel of the homomorphisms of expressions, the recursion through calls has a fuel of its own.
\<close>

section \<open>The type\<close>

datatype orderHeuristicType =
  DEFAULT | FOLLOW | FOLLOW_HALF | FOLLOW_DOUBLE | FOLLOW_SQ | FOLLOW_DYN | FOLLOW_DYN_SQ | FOLLOW_FDYN | FOLLOW_FDYN_SQ
| SATUR | LEXICO

text \<open>\<open>stutterOnDeadlock\<close> has no value before \<open>setStutterOnDeadlock\<close>.\<close>

record GALType =
  gt_basics :: basics
  gt_gal :: GAL
  gt_stutter :: "bool option"
  gt_strat :: orderHeuristicType
  gt_go :: "GalOrder option"

definition GALType_of :: "GAL \<Rightarrow> GALType" where
  "GALType_of g = \<lparr>gt_basics = TypeBasics_of, gt_gal = g, gt_stutter = None, gt_strat = DEFAULT, gt_go = None\<rparr>"

definition setStutterOnDeadlock :: "bool \<Rightarrow> GALType \<Rightarrow> GALType" where
  "setStutterOnDeadlock s t = t\<lparr>gt_stutter := Some s\<rparr>"

definition setOrderStrategy :: "orderHeuristicType \<Rightarrow> GALType \<Rightarrow> GALType" where
  "setOrderStrategy s t = t\<lparr>gt_strat := s\<rparr>"

text \<open>\<open>force_heuristic\<close> is the parameter \<open>heur\<close>.\<close>

type_synonym heuristic = "GAL \<Rightarrow> orderHeuristicType \<Rightarrow> labels"

definition GALType_getVarSet :: "heuristic \<Rightarrow> GALType \<Rightarrow> labels" where
  "GALType_getVarSet heur t = heur (gt_gal t) (gt_strat t)"

definition GALType_getVarOrder :: "heuristic \<Rightarrow> GALType \<Rightarrow> (GALType \<times> varorder) res" where
  "GALType_getVarOrder heur t =
     rbind (getVarOrder (GALType_getVarSet heur t) (gt_basics t)) (\<lambda>(b, vo). Inr (t\<lparr>gt_basics := b\<rparr>, vo))"

definition getGalOrder :: "heuristic \<Rightarrow> heap_order \<Rightarrow> GALType \<Rightarrow> factory \<Rightarrow> (GalOrder \<times> GALType \<times> factory) res" where
  "getGalOrder heur A t f =
     (case gt_go t of
        Some go \<Rightarrow> Inr (go, t, f)
      | None \<Rightarrow>
          rbind (GALType_getVarOrder heur t) (\<lambda>(t', vo).
          rbind (GalOrder_of A vo f) (\<lambda>(go, f'). Inr (go, t'\<lparr>gt_go := Some go\<rparr>, f'))))"

definition GALType_setVarOrder :: "heuristic \<Rightarrow> labels \<Rightarrow> GALType \<Rightarrow> (GALType \<times> bool) res" where
  "GALType_setVarOrder heur ord t =
     rbind (TypeBasics_setVarOrder (GALType_getVarSet heur t) ord (gt_basics t)) (\<lambda>(b, ok).
       Inr (t\<lparr>gt_go := None, gt_basics := b\<rparr>, ok))"

definition GALType_getInitStates :: labels where
  "GALType_getInitStates = [''init'']"

definition GALType_getTransLabels :: "GAL \<Rightarrow> labels" where
  "GALType_getTransLabels g = map ga_label (gal_transitions g)"

definition GALType_getVarIndex :: "varorder \<Rightarrow> int list \<Rightarrow> string \<Rightarrow> int list" where
  "GALType_getVarIndex vo index name = index @ [0, getIndex vo name]"

section \<open>Statements\<close>

text \<open>
  What the construction of homomorphisms reads. The order and the expressions of the variables are built
  at their first use: an error in them is an error of the first statement that needs them.
\<close>

record gal_context =
  c_gal :: GAL
  c_vo :: "varorder res"
  c_go :: "GalOrder res"
  c_names :: factory

definition gal_context_of :: "heuristic \<Rightarrow> heap_order \<Rightarrow> GALType \<Rightarrow> factory \<Rightarrow> gal_context" where
  "gal_context_of heur A t f =
     \<lparr>c_gal = gt_gal t, c_vo = rbind (GALType_getVarOrder heur t) (\<lambda>(t', vo). Inr vo),
      c_go = rbind (getGalOrder heur A t f) (\<lambda>(go, s). Inr go),
      c_names = (case getGalOrder heur A t f of Inl e \<Rightarrow> f | Inr (go, t', f') \<Rightarrow> f')\<rparr>"

text \<open>\<open>context.getVarOrder()->getIndex(e.getName())\<close>\<close>

definition name_index :: "gal_context \<Rightarrow> IntExpression \<Rightarrow> int res" where
  "name_index C e = rbind (c_vo C) (\<lambda>vo. rbind (getName (c_names C) e) (\<lambda>n. Inr (getIndex vo n)))"

definition is_direct :: "IntExpression \<Rightarrow> IntExpression \<Rightarrow> bool" where
  "is_direct var expr \<longleftrightarrow>
     (IntExpression_getType var = VAR \<or> IntExpression_getType var = CONSTARRAY) \<and> IntExpression_getType expr = INTCONST"

definition visitAssign ::
  "('d, 'h) dd_lib \<Rightarrow> heap_order \<Rightarrow> nat \<Rightarrow> gal_context \<Rightarrow> IntExpression \<Rightarrow> IntExpression \<Rightarrow> 'h res" where
  "visitAssign lib A n C var expr =
     (if is_direct var expr then
        rbind (name_index C var) (\<lambda>i. rbind (IntExpression_getValue expr) (\<lambda>k. Inr (hom_prim lib setVarConst i k)))
      else rbind (c_go C) (\<lambda>go. assignExpr lib A go False n var expr))"

text \<open>\<open>incVar\<close> is \<open>postPlace\<close>.\<close>

definition visitIncrAssign ::
  "('d, 'h) dd_lib \<Rightarrow> heap_order \<Rightarrow> nat \<Rightarrow> gal_context \<Rightarrow> IntExpression \<Rightarrow> IntExpression \<Rightarrow> 'h res" where
  "visitIncrAssign lib A n C var expr =
     (if is_direct var expr then
        rbind (name_index C var) (\<lambda>i. rbind (IntExpression_getValue expr) (\<lambda>k. Inr (hom_prim lib postPlace i k)))
      else rbind (c_go C) (\<lambda>go. incrExpr lib A go n var expr))"

text \<open>\<open>HomBuilder\<close>; \<open>succs\<close> is \<open>getSuccsHom\<close>.\<close>

fun buildHom ::
  "('d, 'h) dd_lib \<Rightarrow> heap_order \<Rightarrow> nat \<Rightarrow> gal_context \<Rightarrow> (labels \<Rightarrow> 'h res) \<Rightarrow> statement \<Rightarrow> 'h res" where
  "buildHom lib A n C succs (Assignment v e) = visitAssign lib A n C v e"
| "buildHom lib A n C succs (SyncAssignment as) = rbind (c_go C) (\<lambda>go. syncAssignExpr lib A go n as)"
| "buildHom lib A n C succs (IncrAssignment v e) = visitIncrAssign lib A n C v e"
| "buildHom lib A n C succs (Sequence ss) =
     rbind (rmap (buildHom lib A n C succs) ss) (\<lambda>hs. Inr (fold (Hcomp (hops lib)) hs (Hid (hops lib))))"
| "buildHom lib A n C succs (Ite b ss ts) =
     rbind (c_go C) (\<lambda>go.
     rbind (predicate lib A go n b) (\<lambda>c.
     rbind (rmap (buildHom lib A n C succs) ss) (\<lambda>xs.
     rbind (rmap (buildHom lib A n C succs) ts) (\<lambda>ys.
       Inr (Hite (hops lib) c (fold (Hcomp (hops lib)) xs (Hid (hops lib))) (fold (Hcomp (hops lib)) ys (Hid (hops lib))))))))"
| "buildHom lib A n C succs (FixStatement ss) =
     rbind (rmap (buildHom lib A n C succs) ss) (\<lambda>hs.
       Inr (hom_fixpoint lib (fold (Hcomp (hops lib)) hs (Hid (hops lib)))))"
| "buildHom lib A n C succs (Call l) = succs [l]"
| "buildHom lib A n C succs AbortStatement = Inr (Hcomp (hops lib) (Hid (hops lib)) (Hnull (hops lib)))"

definition buildHom_action ::
  "('d, 'h) dd_lib \<Rightarrow> heap_order \<Rightarrow> nat \<Rightarrow> gal_context \<Rightarrow> (labels \<Rightarrow> 'h res) \<Rightarrow> GuardedAction \<Rightarrow> 'h res" where
  "buildHom_action lib A n C succs ga =
     rbind (BoolExpression_eval A (ga_guard ga)) (\<lambda>b.
     rbind (c_go C) (\<lambda>go.
     rbind (predicate lib A go n (BoolExpression_pushNegations A b)) (\<lambda>guard.
     rbind (buildHom lib A n C succs (Sequence (ga_actions ga))) (\<lambda>action.
       Inr (Hcomp (hops lib) action guard)))))"

section \<open>Transitions\<close>

text \<open>The sum over the transitions with a label; \<open>None\<close> stands for \<open>isFirstTrWithLabel\<close>.\<close>

definition labelAction ::
  "('d, 'h) dd_lib \<Rightarrow> (GuardedAction \<Rightarrow> 'h res) \<Rightarrow> string \<Rightarrow> GuardedAction list \<Rightarrow> 'h option res" where
  "labelAction lib build l ts =
     rfold (\<lambda>t acc.
       if ga_label t = l then
         rbind (build t) (\<lambda>h. Inr (Some (case acc of None \<Rightarrow> h | Some a \<Rightarrow> Hor (hops lib) a h)))
       else Inr acc) ts None"

primrec getSuccsHom ::
  "('d, 'h) dd_lib \<Rightarrow> heap_order \<Rightarrow> nat \<Rightarrow> gal_context \<Rightarrow> nat \<Rightarrow> labels \<Rightarrow> 'h res" where
  "getSuccsHom lib A n C 0 = (\<lambda>tau. no_fuel)"
| "getSuccsHom lib A n C (Suc depth) = (\<lambda>tau.
     rfold (\<lambda>l resultTrans.
         rbind (labelAction lib (buildHom_action lib A n C (getSuccsHom lib A n C depth)) l (gal_transitions (c_gal C))) (\<lambda>a.
           case a of
             None \<Rightarrow> Inl (Abort ''assert(false)'')
           | Some h \<Rightarrow> Inr (Hcomp (hops lib) h resultTrans)))
       tau (Hid (hops lib)))"

definition GALType_getSuccs ::
  "('d, 'h) dd_lib \<Rightarrow> ('h \<Rightarrow> int \<Rightarrow> 's) \<Rightarrow> heap_order \<Rightarrow> nat \<Rightarrow> gal_context \<Rightarrow> nat \<Rightarrow> labels \<Rightarrow> 's res" where
  "GALType_getSuccs lib localApply A n C depth tau =
     rbind (getSuccsHom lib A n C depth tau) (\<lambda>resultTrans. Inr (localApply resultTrans DEFAULT_VAR))"

text \<open>The conjunction of the negated guards, for stuttering.\<close>

definition stutter_predicate :: "heap_order \<Rightarrow> GuardedAction list \<Rightarrow> BoolExpression res" where
  "stutter_predicate A ts = rbind (createBoolNary A AND (map (\<lambda>t. createNot (ga_guard t)) ts)) (BoolExpression_eval A)"

text \<open>The steps of the transitions without label.\<close>

definition local_sum ::
  "('d, 'h) dd_lib \<Rightarrow> heap_order \<Rightarrow> nat \<Rightarrow> gal_context \<Rightarrow> nat \<Rightarrow> bool option \<Rightarrow> 'h res" where
  "local_sum lib A n C depth stutter =
     (let ts = filter (\<lambda>t. ga_label t = '''') (gal_transitions (c_gal C))
      in rbind (rmap (buildHom_action lib A n C (getSuccsHom lib A n C depth)) ts) (\<lambda>toadd.
         case stutter of
           None \<Rightarrow> Inl (Undefined ''stutterOnDeadlock is not initialised'')
         | Some s \<Rightarrow>
             rbind (if s then
                 rbind (stutter_predicate A ts) (\<lambda>b. rbind (c_go C) (\<lambda>go. rbind (predicate lib A go n b) (\<lambda>h. Inr [h])))
               else Inr []) (\<lambda>stutters.
               Inr (Hadd (hops lib) (toadd @ stutters)))))"

definition next_step ::
  "('d, 'h) dd_lib \<Rightarrow> heap_order \<Rightarrow> nat \<Rightarrow> gal_context \<Rightarrow> nat \<Rightarrow> bool option \<Rightarrow> 'h res" where
  "next_step lib A n C depth stutter =
     rbind (local_sum lib A n C depth stutter) (\<lambda>sum.
     rbind (BoolExpression_eval A (gal_transient (c_gal C))) (\<lambda>b.
     rbind (c_go C) (\<lambda>go.
     rbind (predicate lib A go n b) (\<lambda>transient.
       Inr (Hcomp (hops lib) (hom_fixpoint lib (Hite (hops lib) transient sum (Hid (hops lib)))) sum)))))"

definition GALType_getLocals ::
  "('d, 'h) dd_lib \<Rightarrow> ('h \<Rightarrow> int \<Rightarrow> 's) \<Rightarrow> heap_order \<Rightarrow> nat \<Rightarrow> gal_context \<Rightarrow> nat \<Rightarrow> bool option \<Rightarrow> 's res" where
  "GALType_getLocals lib localApply A n C depth stutter =
     rbind (next_step lib A n C depth stutter) (\<lambda>next. Inr (localApply next DEFAULT_VAR))"

definition GALType_getNamedLocals ::
  "('d, 'h) dd_lib \<Rightarrow> ('h \<Rightarrow> int \<Rightarrow> 's) \<Rightarrow> heap_order \<Rightarrow> nat \<Rightarrow> gal_context \<Rightarrow> nat \<Rightarrow> (string \<times> 's) list \<Rightarrow> (string \<times> 's) list res" where
  "GALType_getNamedLocals lib localApply A n C depth ntrans =
     rbind (rmap (\<lambda>t. rbind (buildHom_action lib A n C (getSuccsHom lib A n C depth) t) (\<lambda>h.
         Inr (ga_name t, localApply h DEFAULT_VAR))) (filter (\<lambda>t. ga_label t = '''') (gal_transitions (c_gal C))))
       (\<lambda>added. Inr (ntrans @ added))"

section \<open>States and predicates\<close>

definition initial_overflow :: string where
  "initial_overflow = ''Overflow error when converting initial marking. Please recompile libDDD with larger DDD::val_t definition.''"

definition GALType_getState ::
  "'n node_ops \<Rightarrow> (int \<Rightarrow> int) \<Rightarrow> (int \<Rightarrow> 'n \<Rightarrow> 'sn) \<Rightarrow> GAL \<Rightarrow> varorder \<Rightarrow> 'sn res" where
  "GALType_getState N cast state g vo =
     rbind (rfold (\<lambda>i M0.
         let mark = GAL_getVarValue g (getLabel vo (int i))
         in if cast mark \<noteq> mark then Inl (Throw initial_overflow)
            else Inr (node_concat N (newNode N (int i) (cast mark)) M0)) [0..<vo_size vo] (node_one N))
       (\<lambda>M0. Inr (state DEFAULT_VAR M0))"

text \<open>The product of the domains of the variables; \<open>label_of\<close> is the first label of a state.\<close>

definition GALType_getPotentialStates ::
  "('d, 'h) dd_lib \<Rightarrow> ('d \<Rightarrow> 'd \<Rightarrow> 'd) \<Rightarrow> (int \<Rightarrow> 'd \<Rightarrow> 'sn) \<Rightarrow> ('sn \<Rightarrow> 'd) \<Rightarrow> varorder \<Rightarrow> 'sn \<Rightarrow> 'sn" where
  "GALType_getPotentialStates lib concat_dd state label_of vo reachable =
     state DEFAULT_VAR (fold (\<lambda>i M0. concat_dd (computeDomain lib (int i) (label_of reachable)) M0) [0..<vo_size vo] (dd_one lib))"

text \<open>The indexes of the observed variables, from the top of the order.\<close>

definition observed :: "labels \<Rightarrow> varorder \<Rightarrow> int list" where
  "observed obs vo = filter (\<lambda>i. getLabel vo i \<in> set obs) (rev (map int [0..<vo_size vo]))"

text \<open>\<open>observeVars\<close> is a parameter; without observed variable the answer is the constant \<open>potential\<close>.\<close>

definition GALType_observe ::
  "(int list \<Rightarrow> 'd \<Rightarrow> 'h) \<Rightarrow> ('sn \<Rightarrow> 's) \<Rightarrow> ('h \<Rightarrow> int \<Rightarrow> 's) \<Rightarrow> ('sn \<Rightarrow> 'd) \<Rightarrow> varorder \<Rightarrow> labels \<Rightarrow> 'sn \<Rightarrow> 's" where
  "GALType_observe observeVars constant localApply label_of vo obs potential =
     (if obs = [] then constant potential else localApply (observeVars (observed obs vo) (label_of potential)) DEFAULT_VAR)"

text \<open>The parser of predicates is the parameter \<open>parse\<close>.\<close>

definition GALType_getPredicate ::
  "('d, 'h) dd_lib \<Rightarrow> ('h \<Rightarrow> int \<Rightarrow> 's) \<Rightarrow> heap_order \<Rightarrow> nat \<Rightarrow> gal_context \<Rightarrow> (string \<Rightarrow> GAL \<Rightarrow> BoolExpression res) \<Rightarrow> string \<Rightarrow> 's res" where
  "GALType_getPredicate lib localApply A n C parse pred =
     rbind (parse pred (c_gal C)) (\<lambda>b0.
     rbind (BoolExpression_eval A b0) (\<lambda>b.
     rbind (c_go C) (\<lambda>go.
     rbind (predicate lib A go n (BoolExpression_pushNegations A b)) (\<lambda>h. Inr (localApply h DEFAULT_VAR)))))"

end
