(* ===== verification/Gal_Steps.thy ===== *)
theory Gal_Steps imports Gal_Type Gal_Select_Sound begin

text \<open>
  What a GAL system does: a big-step semantics of statements on sets of states (the paths of diagrams), and
  the contract of the operators that compose homomorphisms.
\<close>

section \<open>Homomorphisms on sets of paths\<close>

definition maps :: "('d, 'h) dd_lib \<Rightarrow> nat \<Rightarrow> 'h \<Rightarrow> int list set \<Rightarrow> int list set \<Rightarrow> bool" where
  "maps lib n h S T \<longleftrightarrow> (\<forall>d. level0 lib n d \<and> dd_paths lib n d = S \<longrightarrow>
     (\<exists>d'. hom_app lib h d = Inr d' \<and> level0 lib n d' \<and> dd_paths lib n d' = T))"

lemma mapsI:
  "(\<And>d. level0 lib n d \<Longrightarrow> dd_paths lib n d = S \<Longrightarrow> \<exists>d'. hom_app lib h d = Inr d' \<and> level0 lib n d' \<and> dd_paths lib n d' = T)
     \<Longrightarrow> maps lib n h S T"
  by (simp add: maps_def)

lemma mapsD:
  assumes "maps lib n h S T" "level0 lib n d" "dd_paths lib n d = S"
  obtains d' where "hom_app lib h d = Inr d'" "level0 lib n d'" "dd_paths lib n d' = T"
  using assms unfolding maps_def by blast

lemma keeps_maps: "keeps lib n h Q P \<Longrightarrow> S \<subseteq> Q \<Longrightarrow> maps lib n h S {p \<in> S. P p}"
  unfolding keeps_def maps_def by blast

definition states :: "nat \<Rightarrow> int list set \<Rightarrow> bool" where
  "states n S \<longleftrightarrow> (\<forall>p\<in>S. length p = n \<and> (\<forall>x\<in>set p. taggable x))"

lemma maps_states: "(states n S \<Longrightarrow> maps lib n h S T) \<Longrightarrow> maps lib n h S T"
proof -
  assume m: "states n S \<Longrightarrow> maps lib n h S T"
  show ?thesis
    unfolding maps_def
  proof (intro allI impI, elim conjE)
    fix d assume d: "level0 lib n d" "dd_paths lib n d = S"
    have "states n S"
      unfolding states_def
    proof (intro ballI conjI)
      fix p assume p: "p \<in> S"
      show "length p = n" using dd_paths_length [of p lib n d] p d(2) by simp
      fix x assume x: "x \<in> set p"
      show "taggable x"
      proof (cases "dd_level lib n d")
        case True
        show ?thesis by (rule level_taggable [OF True _ x]) (use p d(2) in simp)
      next
        case False
        with d p x show ?thesis by (cases n) (auto simp: level0_def split: if_splits)
      qed
    qed
    from m [OF this] d show "\<exists>d'. hom_app lib h d = Inr d' \<and> level0 lib n d' \<and> dd_paths lib n d' = T"
      unfolding maps_def by blast
  qed
qed

section \<open>The contract of the operators\<close>

text \<open>\<open>fixpoint (h)\<close> applies \<open>h\<close> until the states do not change; \<open>ITE\<close> negates its condition.\<close>

locale dd_systems = dd_selectors lib for lib :: "('d, 'h) dd_lib" +
  assumes app_comp: "hom_app lib (Hcomp (hops lib) f g) d = rbind (hom_app lib g d) (hom_app lib f)"
    and maps_or: "maps lib n f S T \<Longrightarrow> maps lib n g S U \<Longrightarrow> maps lib n (Hor (hops lib) f g) S (T \<union> U)"
    and maps_add: "list_all2 (\<lambda>h T. maps lib n h S T) hs Ts \<Longrightarrow> maps lib n (Hadd (hops lib) hs) S (\<Union>(set Ts))"
    and maps_ite: "negatable lib n 1 c S P \<Longrightarrow> maps lib n t {p \<in> S. P p} T \<Longrightarrow> maps lib n f {p \<in> S. \<not> P p} U \<Longrightarrow>
      maps lib n (Hite (hops lib) c t f) S (T \<union> U)"
    and fix_stop: "maps lib n h S S \<Longrightarrow> maps lib n (hom_fixpoint lib h) S S"
    and fix_step: "maps lib n h S U \<Longrightarrow> U \<noteq> S \<Longrightarrow> maps lib n (hom_fixpoint lib h) U T \<Longrightarrow> maps lib n (hom_fixpoint lib h) S T"
    and maps_set: "v < n \<Longrightarrow> taggable k \<Longrightarrow> (S \<noteq> {} \<Longrightarrow> val_cast lib k = k) \<Longrightarrow>
      maps lib n (hom_prim lib setVarConst (int v) k) S ((\<lambda>p. p[v := k]) ` S)"
    and maps_inc: "v < n \<Longrightarrow> (\<And>p. p \<in> S \<Longrightarrow> taggable (p ! v + k) \<and> val_cast lib (p ! v + k) = p ! v + k) \<Longrightarrow>
      maps lib n (hom_prim lib postPlace (int v) k) S ((\<lambda>p. p[v := p ! v + k]) ` S)"
begin

lemma maps_id: "maps lib n (Hid (hops lib)) S S"
  using keeps_maps [OF negatable_keeps [OF sel_id [of n 0]], of S S] by simp

lemma maps_null: "maps lib n (Hnull (hops lib)) S {}"
  using keeps_maps [OF negatable_keeps [OF sel_null [of n 0]], of S S] by simp

lemma maps_comp: "maps lib n g S U \<Longrightarrow> maps lib n f U T \<Longrightarrow> maps lib n (Hcomp (hops lib) f g) S T"
proof (rule mapsI)
  fix d assume g: "maps lib n g S U" and f: "maps lib n f U T" and d: "level0 lib n d" "dd_paths lib n d = S"
  from mapsD [OF g d] obtain e where e: "hom_app lib g d = Inr e" "level0 lib n e" "dd_paths lib n e = U" .
  from mapsD [OF f e(2,3)] obtain d' where "hom_app lib f e = Inr d'" "level0 lib n d'" "dd_paths lib n d' = T" .
  with e(1) show "\<exists>d'. hom_app lib (Hcomp (hops lib) f g) d = Inr d' \<and> level0 lib n d' \<and> dd_paths lib n d' = T"
    by (simp add: app_comp)
qed

lemma maps_abort: "maps lib n (Hcomp (hops lib) (Hid (hops lib)) (Hnull (hops lib))) S {}"
  by (rule maps_comp [OF maps_null maps_id])

end

section \<open>Statements\<close>

text \<open>
  \<open>exec s S T\<close>: from the states \<open>S\<close> the statement leads to the states \<open>T\<close>. It has no answer when an
  expression has no value in a state, when a value does not fit into the diagram, or when a fixpoint is not
  reached. \<open>pick gs S T\<close>: each action fires in the states where its guard holds.
\<close>

inductive exec and execs and pick for lib :: "('d, 'h) dd_lib" and A :: heap_order and vo :: GalOrder and n :: nat
    and ts :: "GuardedAction list" where
  exec_assign: "(\<forall>p\<in>S. \<exists>q. writes lib A vo False n v e p q) \<Longrightarrow>
     exec lib A vo n ts (Assignment v e) S (written lib A vo False n v e S)"
| exec_incr: "(\<forall>p\<in>S. \<exists>q. writes lib A vo True n v e p q) \<Longrightarrow>
     exec lib A vo n ts (IncrAssignment v e) S (written lib A vo True n v e S)"
| exec_seq: "execs lib A vo n ts ss S T \<Longrightarrow> exec lib A vo n ts (Sequence ss) S T"
| exec_ite: "(\<forall>p\<in>S. \<exists>t. decided vo n p b t) \<Longrightarrow> execs lib A vo n ts xs {p \<in> S. decided vo n p b True} T \<Longrightarrow>
     execs lib A vo n ts ys {p \<in> S. \<not> decided vo n p b True} U \<Longrightarrow> exec lib A vo n ts (Ite b xs ys) S (T \<union> U)"
| exec_fix_stop: "execs lib A vo n ts ss S S \<Longrightarrow> exec lib A vo n ts (FixStatement ss) S S"
| exec_fix_step: "execs lib A vo n ts ss S U \<Longrightarrow> U \<noteq> S \<Longrightarrow> exec lib A vo n ts (FixStatement ss) U T \<Longrightarrow>
     exec lib A vo n ts (FixStatement ss) S T"
| exec_call: "pick lib A vo n ts (filter (\<lambda>t. ga_label t = l) ts) S T \<Longrightarrow> exec lib A vo n ts (Call l) S T"
| exec_abort: "exec lib A vo n ts AbortStatement S {}"
| execs_nil: "execs lib A vo n ts [] S S"
| execs_cons: "exec lib A vo n ts s S U \<Longrightarrow> execs lib A vo n ts ss U T \<Longrightarrow> execs lib A vo n ts (s # ss) S T"
| pick_nil: "pick lib A vo n ts [] S {}"
| pick_cons: "(\<forall>p\<in>S. \<exists>t. decided vo n p (ga_guard g) t) \<Longrightarrow>
     execs lib A vo n ts (ga_actions g) {p \<in> S. decided vo n p (ga_guard g) True} U \<Longrightarrow>
     pick lib A vo n ts gs S T \<Longrightarrow> pick lib A vo n ts (g # gs) S (U \<union> T)"

text \<open>A sequence of labels.\<close>

inductive fires for lib :: "('d, 'h) dd_lib" and A :: heap_order and vo :: GalOrder and n :: nat and ts :: "GuardedAction list" where
  fires_nil: "fires lib A vo n ts [] S S"
| fires_cons: "pick lib A vo n ts (filter (\<lambda>t. ga_label t = l) ts) S U \<Longrightarrow> fires lib A vo n ts tau U T \<Longrightarrow>
     fires lib A vo n ts (l # tau) S T"

text \<open>One local step: an action without label, or a pause in the states where none is enabled, if asked for.\<close>

definition local_step ::
  "('d, 'h) dd_lib \<Rightarrow> heap_order \<Rightarrow> GalOrder \<Rightarrow> nat \<Rightarrow> GuardedAction list \<Rightarrow> bool \<Rightarrow> int list set \<Rightarrow> int list set \<Rightarrow> bool" where
  "local_step lib A vo n ts stutter S U \<longleftrightarrow>
     (let local = filter (\<lambda>t. ga_label t = '''') ts
      in (\<forall>p\<in>S. \<forall>g\<in>set local. \<exists>t. decided vo n p (ga_guard g) t)
         \<and> (\<exists>T. pick lib A vo n ts local S T
              \<and> U = T \<union> (if stutter then {p \<in> S. \<forall>g\<in>set local. \<not> decided vo n p (ga_guard g) True} else {})))"

text \<open>The transient states go on with local steps until the states do not change.\<close>

inductive settles for step :: "int list set \<Rightarrow> int list set \<Rightarrow> bool" and vo :: GalOrder and n :: nat and b :: BoolExpression where
  settles_stop: "(\<forall>p\<in>S. \<exists>t. decided vo n p b t) \<Longrightarrow> step {p \<in> S. decided vo n p b True} U \<Longrightarrow>
     U \<union> {p \<in> S. \<not> decided vo n p b True} = S \<Longrightarrow> settles step vo n b S S"
| settles_step: "(\<forall>p\<in>S. \<exists>t. decided vo n p b t) \<Longrightarrow> step {p \<in> S. decided vo n p b True} U \<Longrightarrow>
     V = U \<union> {p \<in> S. \<not> decided vo n p b True} \<Longrightarrow> V \<noteq> S \<Longrightarrow> settles step vo n b V T \<Longrightarrow> settles step vo n b S T"

inductive_cases fires_ConsE: "fires lib A vo n ts (l # tau) S T"
inductive_cases pick_ConsE: "pick lib A vo n ts (g # gs) S T"
inductive_cases pick_NilE: "pick lib A vo n ts [] S T"
inductive_cases execs_NilE: "execs lib A vo n ts [] S T"

section \<open>Well-formed systems\<close>

text \<open>What \<open>assignExpr\<close> and \<open>predicate\<close> ask for, everywhere in a statement; synchronous assignments are not covered.\<close>

definition assign_ok :: "heap_order \<Rightarrow> GalOrder \<Rightarrow> nat \<Rightarrow> nat \<Rightarrow> IntExpression \<Rightarrow> IntExpression \<Rightarrow> bool" where
  "assign_ok A vo n B v e \<longleftrightarrow> lhs_ok A vo n v \<and> good A e \<and> mentions (gx A e) \<subseteq> upto vo n \<and> unresolved A v e \<le> B
     \<and> IntExpression_getType e \<noteq> INTNDEF"

fun stmt_ok :: "heap_order \<Rightarrow> GalOrder \<Rightarrow> nat \<Rightarrow> nat \<Rightarrow> statement \<Rightarrow> bool" where
  "stmt_ok A vo n B (Assignment v e) \<longleftrightarrow> assign_ok A vo n B v e"
| "stmt_ok A vo n B (SyncAssignment as) \<longleftrightarrow> False"
| "stmt_ok A vo n B (IncrAssignment v e) \<longleftrightarrow> assign_ok A vo n B v e"
| "stmt_ok A vo n B (Sequence ss) \<longleftrightarrow> list_all (stmt_ok A vo n B) ss"
| "stmt_ok A vo n B (Ite b xs ys) \<longleftrightarrow> guard_ok A vo n B (bgetEnv b) (NotExpr (bgetExpr b))
     \<and> list_all (stmt_ok A vo n B) xs \<and> list_all (stmt_ok A vo n B) ys"
| "stmt_ok A vo n B (FixStatement ss) \<longleftrightarrow> list_all (stmt_ok A vo n B) ss"
| "stmt_ok A vo n B (Call l) \<longleftrightarrow> True"
| "stmt_ok A vo n B AbortStatement \<longleftrightarrow> True"

text \<open>The predicate \<open>b\<close> once it is evaluated and prepared by \<open>f\<close>, which may push its negations down or negate it.\<close>

definition prepared :: "heap_order \<Rightarrow> GalOrder \<Rightarrow> nat \<Rightarrow> nat \<Rightarrow> (BoolExpression \<Rightarrow> BoolExpression) \<Rightarrow> BoolExpression \<Rightarrow> bool" where
  "prepared A vo n B f b \<longleftrightarrow> be_ok b
     \<and> (\<exists>b'. BoolExpression_eval A b = Inr b' \<and> guard_ok A vo n B (bgetEnv (f b')) (bgetExpr (f b')))"

definition action_ok :: "heap_order \<Rightarrow> GalOrder \<Rightarrow> nat \<Rightarrow> nat \<Rightarrow> GuardedAction \<Rightarrow> bool" where
  "action_ok A vo n B g \<longleftrightarrow> prepared A vo n B (BoolExpression_pushNegations A) (ga_guard g) \<and> list_all (stmt_ok A vo n B) (ga_actions g)"

text \<open>The transient states, which are also negated, and the conjunction for stuttering.\<close>

definition local_ok :: "heap_order \<Rightarrow> GalOrder \<Rightarrow> nat \<Rightarrow> nat \<Rightarrow> GAL \<Rightarrow> bool \<Rightarrow> bool" where
  "local_ok A vo n B g stutter \<longleftrightarrow> prepared A vo n B createNot (gal_transient g)
     \<and> (stutter \<longrightarrow> (\<exists>b. createBoolNary A AND (map (\<lambda>t. createNot (ga_guard t)) (filter (\<lambda>t. ga_label t = '''') (gal_transitions g))) = Inr b
          \<and> prepared A vo n B (\<lambda>b. b) b))"

text \<open>Calls go down in \<open>rank\<close>, to labels that exist.\<close>

fun called :: "statement \<Rightarrow> string set" where
  "called (Sequence ss) = (\<Union>s\<in>set ss. called s)"
| "called (Ite b xs ys) = (\<Union>s\<in>set xs. called s) \<union> (\<Union>s\<in>set ys. called s)"
| "called (FixStatement ss) = (\<Union>s\<in>set ss. called s)"
| "called (Call l) = {l}"
| "called s = {}"

definition calls_ok :: "(string \<Rightarrow> nat) \<Rightarrow> GuardedAction list \<Rightarrow> bool" where
  "calls_ok rank ts \<longleftrightarrow> (\<forall>g\<in>set ts. \<forall>l\<in>called (Sequence (ga_actions g)). l \<in> ga_label ` set ts \<and> rank l < rank (ga_label g))"

text \<open>Every variable of the diagram has one index, in the order and among the expressions.\<close>

definition context_ok :: "gal_context \<Rightarrow> GalOrder \<Rightarrow> bool" where
  "context_ok C vo \<longleftrightarrow> c_go C = Inr vo \<and> order_ok vo \<and> (\<forall>j < length (go_map vo). name_index C (go_map vo ! j) = Inr (int j))"

end
