(* ===== verification/Gal_Type_Sound.thy ===== *)
theory Gal_Type_Sound imports Gal_Steps begin

text \<open>
  The homomorphisms of a GAL system compute its semantics: assignments, guards, statements, the sums over
  labels, the local steps with their transient states.
\<close>

section \<open>Assignments\<close>

lemma loc_of_var:
  assumes "order_ok vo" "lhs_ok A vo n v" "n \<le> length (go_map vo)" "eloc v = Some l" "\<And>\<gamma>. target \<gamma> (gx A v) = Some l"
  obtains j where "j < n" "l = locs vo ! j" "v = go_map vo ! j"
proof -
  have "l \<in> mentions (gx A v)" by (rule target_mentions [OF assms(5)])
  with assms(2) have "l \<in> upto vo n" unfolding lhs_ok_def by blast
  then obtain j where j: "j < n" "l = locs vo ! j" using upto_nth by blast
  with assms(1,3) have "eloc (go_map vo ! j) = Some l" using order_var(1) [of vo j] by (simp del: nth_map)
  from eloc_inj [OF assms(4) this] j show thesis by (intro that) simp_all
qed

context dd_systems begin

lemma maps_assign:
  assumes lin: "linear_less (iless A)" and vo: "order_ok vo" "n \<le> length (go_map vo)" and ok: "assign_ok A vo n B v e"
    and fuel: "assign_fuel B n B \<le> m"
  shows "\<exists>h. assignExpr lib A vo inc m v e = Inr h
    \<and> (\<forall>S. (\<forall>p\<in>S. \<exists>q. writes lib A vo inc n v e p q) \<longrightarrow> maps lib n h S (written lib A vo inc n v e S))"
proof -
  obtain m' where m: "m = Suc m'" using fuel by (cases m) (auto simp: assign_fuel_def)
  have lhs: "lhs_ok A vo n v" and ndef: "IntExpression_getType e \<noteq> INTNDEF" using ok by (simp_all add: assign_ok_def)
  from lhs have "IntExpression_getType v \<in> {VAR, ARRAY, CONSTARRAY}" by (cases rule: lhs_cases) auto
  with ndef have eq: "assignExpr lib A vo inc m v e = Inr (hom_of lib (Assign_skip vo v e)
      (Assign_eval lib A vo (query lib A vo m') (assignExpr lib A vo inc m') v e inc))" (is "_ = Inr ?h")
    by (auto simp: m)
  have "maps lib n ?h S (written lib A vo inc n v e S)" if S: "\<forall>p\<in>S. \<exists>q. writes lib A vo inc n v e p q" for S
  proof (rule mapsI)
    fix d assume d: "level0 lib n d" "dd_paths lib n d = S"
    show "\<exists>d'. hom_app lib ?h d = Inr d' \<and> level0 lib n d' \<and> dd_paths lib n d' = written lib A vo inc n v e S"
    proof (cases "d = dd_null lib")
      case True
      then have "S = {}" using d(2) terminals(1) by (cases n) auto
      with True show ?thesis using app_eval [of d] terminals(1) by (cases n) (simp_all add: Assign_eval_def level0_def written_def)
    next
      case False
      with d have "assignable lib A vo inc n v e d" using ok S vo(2) by (auto simp: assignable_def assign_ok_def level0_def)
      moreover have "unresolved A v e \<le> B" "assign_fuel B n (unresolved A v e) \<le> m"
        using ok fuel by (simp_all add: assign_ok_def assign_fuel_def)
      ultimately have "yields lib n (assignExpr lib A vo inc m v e) d (written lib A vo inc n v e (dd_paths lib n d))"
        by (rule assign_sound [OF lin vo(1)])
      then show ?thesis by (simp add: yields_def eq d(2))
    qed
  qed
  with eq show ?thesis by blast
qed

text \<open>A constant assigned to a variable or a cell.\<close>

lemma direct_facts:
  assumes lin: "linear_less (iless A)" and C: "context_ok C vo" and n: "n \<le> length (go_map vo)" and ok: "assign_ok A vo n B v e"
    and direct: "is_direct v e"
  obtains j k where "j < n" "name_index C v = Inr (int j)" "IntExpression_getValue e = Inr k" "taggable k"
    "\<And>p. length p = n \<Longrightarrow> value_on vo n p e k" "\<And>p. target_on A vo n p v (locs vo ! j)"
proof -
  have vo: "order_ok vo" using C by (simp add: context_ok_def)
  have lhs: "lhs_ok A vo n v" and e: "good A e" using ok by (simp_all add: assign_ok_def)
  obtain k where k: "const_val e = Some k" using direct by (simp add: const_val_def is_direct_def)
  from lhs show thesis
  proof (cases rule: lhs_cases)
    case (fixed l)
    from loc_of_var [OF vo lhs n fixed(1,3)] obtain j where j: "j < n" "l = locs vo ! j" "v = go_map vo ! j" .
    show thesis
    proof (rule that [OF j(1)])
      show "name_index C v = Inr (int j)" using C j n by (simp add: context_ok_def)
      show "IntExpression_getValue e = Inr k" using const_val_gx(2) [OF e k] by simp
      show "taggable k" using const_val_gx(1) [OF e, of k] k by simp
      show "value_on vo n p e k" if "length p = n" for p by (rule value_on_const [OF e k])
      show "target_on A vo n p v (locs vo ! j)" for p using fixed(3) j(2) by (simp add: target_on_def)
    qed
  next
    case access
    then show thesis using direct by (auto simp: is_direct_def)
  qed
qed

lemma written_direct:
  assumes vo: "order_ok vo" "n \<le> length (go_map vo)" and S: "states n S" and j: "j < n"
    and facts: "\<And>p. length p = n \<Longrightarrow> value_on vo n p e k" "\<And>p. target_on A vo n p v (locs vo ! j)"
    and all: "\<forall>p\<in>S. \<exists>q. writes lib A vo inc n v e p q"
  shows "p \<in> S \<Longrightarrow> stores lib inc k (p ! j) (if inc then wrap32 (k + p ! j) else k)"
    and "written lib A vo inc n v e S = (\<lambda>p. p[j := if inc then wrap32 (k + p ! j) else k]) ` S"
proof -
  have iff: "writes lib A vo inc n v e p q \<longleftrightarrow> stores lib inc k (p ! j) (if inc then wrap32 (k + p ! j) else k)
      \<and> q = p[j := if inc then wrap32 (k + p ! j) else k]" if p: "p \<in> S" for p q
  proof
    have len: "length p = n" using S p by (simp add: states_def)
    assume "writes lib A vo inc n v e p q"
    then obtain i x w where w: "i < n" "target_on A vo n p v (locs vo ! i)" "value_on vo n p e x" "stores lib inc x (p ! i) w"
      "q = p[i := w]" by (auto simp: writes_def)
    have "locs vo ! i = locs vo ! j" by (rule target_on_unique [OF vo len w(2) facts(2)])
    then have "i = j" using locs_inj [OF vo(1)] w(1) j vo(2) by simp
    moreover have "x = k" by (rule value_on_unique [OF vo len w(3) facts(1) [OF len]])
    ultimately show "stores lib inc k (p ! j) (if inc then wrap32 (k + p ! j) else k) \<and> q = p[j := if inc then wrap32 (k + p ! j) else k]"
      using w(4,5) by (auto simp: stores_def split: if_splits)
  next
    have len: "length p = n" using S p by (simp add: states_def)
    assume "stores lib inc k (p ! j) (if inc then wrap32 (k + p ! j) else k) \<and> q = p[j := if inc then wrap32 (k + p ! j) else k]"
    then show "writes lib A vo inc n v e p q" using j facts(1) [OF len] facts(2) [of p] unfolding writes_def by blast
  qed
  show "p \<in> S \<Longrightarrow> stores lib inc k (p ! j) (if inc then wrap32 (k + p ! j) else k)" for p using iff all by blast
  with iff show "written lib A vo inc n v e S = (\<lambda>p. p[j := if inc then wrap32 (k + p ! j) else k]) ` S"
    unfolding written_def by blast
qed

lemma visitAssign_sound:
  assumes lin: "linear_less (iless A)" and C: "context_ok C vo" and n: "n \<le> length (go_map vo)" and ok: "assign_ok A vo n B v e"
    and fuel: "assign_fuel B n B \<le> m"
  shows "\<exists>h. visitAssign lib A m C v e = Inr h
    \<and> (\<forall>S. (\<forall>p\<in>S. \<exists>q. writes lib A vo False n v e p q) \<longrightarrow> maps lib n h S (written lib A vo False n v e S))"
proof (cases "is_direct v e")
  case True
  have vo: "order_ok vo" using C by (simp add: context_ok_def)
  obtain j k where f: "j < n" "name_index C v = Inr (int j)"
    "IntExpression_getValue e = Inr k" "taggable k" "\<And>p. length p = n \<Longrightarrow> value_on vo n p e k"
    "\<And>p. target_on A vo n p v (locs vo ! j)" using direct_facts [OF lin C n ok True] by blast
  have "maps lib n (hom_prim lib setVarConst (int j) k) S (written lib A vo False n v e S)"
    if S: "\<forall>p\<in>S. \<exists>q. writes lib A vo False n v e p q" for S
  proof (rule maps_states)
    assume st: "states n S"
    note w = written_direct [OF vo n st f(1,5,6) S, simplified]
    have "val_cast lib k = k" if "S \<noteq> {}" using w(1) that by (auto simp: stores_def)
    from maps_set [OF f(1,4) this] show "maps lib n (hom_prim lib setVarConst (int j) k) S (written lib A vo False n v e S)"
      by (simp add: w(2))
  qed
  with f(2,3) True show ?thesis by (simp add: visitAssign_def)
next
  case False
  have "order_ok vo" "c_go C = Inr vo" using C by (simp_all add: context_ok_def)
  with maps_assign [OF lin _ n ok fuel, of False] False show ?thesis by (simp add: visitAssign_def)
qed

lemma visitIncrAssign_sound:
  assumes lin: "linear_less (iless A)" and C: "context_ok C vo" and n: "n \<le> length (go_map vo)" and ok: "assign_ok A vo n B v e"
    and fuel: "assign_fuel B n B \<le> m"
  shows "\<exists>h. visitIncrAssign lib A m C v e = Inr h
    \<and> (\<forall>S. (\<forall>p\<in>S. \<exists>q. writes lib A vo True n v e p q) \<longrightarrow> maps lib n h S (written lib A vo True n v e S))"
proof (cases "is_direct v e")
  case True
  have vo: "order_ok vo" using C by (simp add: context_ok_def)
  obtain j k where f: "j < n" "name_index C v = Inr (int j)" "IntExpression_getValue e = Inr k" "taggable k"
    "\<And>p. length p = n \<Longrightarrow> value_on vo n p e k" "\<And>p. target_on A vo n p v (locs vo ! j)"
    using direct_facts [OF lin C n ok True] by blast
  have "maps lib n (hom_prim lib postPlace (int j) k) S (written lib A vo True n v e S)"
    if S: "\<forall>p\<in>S. \<exists>q. writes lib A vo True n v e p q" for S
  proof (rule maps_states)
    assume st: "states n S"
    note w = written_direct [OF vo n st f(1,5,6) S, simplified]
    have eq: "wrap32 (k + p ! j) = p ! j + k" if p: "p \<in> S" for p
    proof -
      have "taggable (p ! j)" using st p f(1) by (auto simp: states_def)
      with f(4) have "int32 (k + p ! j)" by (auto simp: taggable_def int32_def INT_MIN_def INT_MAX_def)
      then show ?thesis by (simp add: add.commute)
    qed
    have "taggable (p ! j + k) \<and> val_cast lib (p ! j + k) = p ! j + k" if p: "p \<in> S" for p
      using w(1) [OF p] eq [OF p] by (simp add: stores_def)
    from maps_inc [OF f(1) this] have "maps lib n (hom_prim lib postPlace (int j) k) S ((\<lambda>p. p[j := p ! j + k]) ` S)" .
    moreover have "(\<lambda>p. p[j := p ! j + k]) ` S = written lib A vo True n v e S" unfolding w(2) by (rule image_cong) (simp_all add: eq)
    ultimately show "maps lib n (hom_prim lib postPlace (int j) k) S (written lib A vo True n v e S)" by simp
  qed
  with f(2,3) True show ?thesis by (simp add: visitIncrAssign_def)
next
  case False
  have "order_ok vo" "c_go C = Inr vo" using C by (simp_all add: context_ok_def)
  with maps_assign [OF lin _ n ok fuel, of True] False show ?thesis by (simp add: visitIncrAssign_def incrExpr_def)
qed

section \<open>Guards\<close>

lemma prepared_predicate:
  assumes lin: "linear_less (iless A)" and vo: "order_ok vo" "n \<le> length (go_map vo)" and b: "prepared A vo n B f b"
    and f: "\<And>\<gamma> b. bdenote \<gamma> (f b) = bdenote \<gamma> b" and fuel: "assign_fuel B n B + r \<le> m"
  shows "\<exists>b' h. BoolExpression_eval A b = Inr b' \<and> predicate lib A vo m (f b') = Inr h
    \<and> (\<forall>Q. (\<forall>p\<in>Q. length p = n \<and> (\<exists>t. decided vo n p b t)) \<longrightarrow> negatable lib n r h Q (\<lambda>p. decided vo n p b True))"
proof -
  from b obtain b' where b': "be_ok b" "BoolExpression_eval A b = Inr b'" "guard_ok A vo n B (bgetEnv (f b')) (bgetExpr (f b'))"
    by (auto simp: prepared_def)
  obtain h where h: "predicate lib A vo m (f b') = Inr h"
    using predicate_negatable [OF lin vo b'(3) fuel, of "{}"] by auto
  have "negatable lib n r h Q (\<lambda>p. decided vo n p b True)" if Q: "\<forall>p\<in>Q. length p = n \<and> (\<exists>t. decided vo n p b t)" for Q
  proof -
    have same: "decided vo n p (f b') t" if "decided vo n p b t" for p t
      unfolding decided_def f
    proof (intro allI impI)
      fix \<gamma> assume "agrees vo n p \<gamma>"
      with that have "bdenote \<gamma> b = Some t" by (simp add: decided_def)
      from BoolExpression_eval_denote [OF b'(1) this, of A] b'(2) show "bdenote \<gamma> b' = Some t" by simp
    qed
    then have "length p = n \<and> (\<exists>t. decided vo n p (f b') t)" if "p \<in> Q" for p using Q that by blast
    from predicate_negatable [OF lin vo b'(3) fuel this] h have "negatable lib n r h Q (\<lambda>p. decided vo n p (f b') True)" by simp
    then show ?thesis
    proof (rule negatable_cong)
      fix p assume "p \<in> Q"
      with Q obtain t where t: "length p = n" "decided vo n p b t" by blast
      have "decided vo n p (f b') True \<longleftrightarrow> t"
        using decided_unique [OF vo t(1) same [OF t(2)], of True] same [OF t(2)] by (cases t) auto
      moreover have "decided vo n p b True \<longleftrightarrow> t" using decided_unique [OF vo t, of True] t(2) by (cases t) auto
      ultimately show "decided vo n p (f b') True \<longleftrightarrow> decided vo n p b True" by simp
    qed
  qed
  with b'(2) h show ?thesis by blast
qed

lemma prepared_negatable:
  assumes lin: "linear_less (iless A)" and vo: "order_ok vo" "n \<le> length (go_map vo)" and b: "prepared A vo n B createNot b"
    and fuel: "assign_fuel B n B \<le> m"
  shows "\<exists>b' h. BoolExpression_eval A b = Inr b' \<and> predicate lib A vo m b' = Inr h
    \<and> (\<forall>Q. (\<forall>p\<in>Q. length p = n \<and> (\<exists>t. decided vo n p b t)) \<longrightarrow> negatable lib n 1 h Q (\<lambda>p. decided vo n p b True))"
proof -
  from b have "0 < B" "prepared A vo n (B - 1) (\<lambda>b. b) b" by (auto simp: prepared_def createNot_def)
  moreover from this fuel have "assign_fuel (B - 1) n (B - 1) + 1 \<le> m" by (cases B) (simp_all add: assign_fuel_def)
  ultimately show ?thesis using prepared_predicate [OF lin vo, of "B - 1" "\<lambda>b. b" b 1] by simp
qed

section \<open>Sums\<close>

lemma maps_or_fold:
  "list_all2 (\<lambda>h T. maps lib n h S T) hs Ts \<Longrightarrow> maps lib n a S T \<Longrightarrow>
     maps lib n (fold (\<lambda>h a. Hor (hops lib) a h) hs a) S (T \<union> \<Union>(set Ts))"
proof (induction hs Ts arbitrary: a T rule: list_all2_induct)
  case (Cons h hs U Us)
  from Cons.IH [OF maps_or [OF Cons.prems Cons.hyps(1)]] show ?case by (simp add: Un_assoc)
qed simp

end

lemma fold_some: "fold (\<lambda>h acc. Some (case acc of None \<Rightarrow> h | Some a \<Rightarrow> Hor (hops lib) a h)) hs (Some a)
    = Some (fold (\<lambda>h a. Hor (hops lib) a h) hs a)"
  by (induction hs arbitrary: a) simp_all

lemma labelAction_eq:
  "labelAction lib build l ts = rbind (rmap build (filter (\<lambda>t. ga_label t = l) ts)) (\<lambda>hs.
     Inr (case hs of [] \<Rightarrow> None | h # hs' \<Rightarrow> Some (fold (\<lambda>h a. Hor (hops lib) a h) hs' h)))"
proof -
  let ?step = "\<lambda>t acc. if ga_label t = l then
      rbind (build t) (\<lambda>h. Inr (Some (case acc of None \<Rightarrow> h | Some a \<Rightarrow> Hor (hops lib) a h))) else Inr acc"
  have "rfold ?step ts acc = rbind (rmap build (filter (\<lambda>t. ga_label t = l) ts)) (\<lambda>hs.
      Inr (fold (\<lambda>h acc. Some (case acc of None \<Rightarrow> h | Some a \<Rightarrow> Hor (hops lib) a h)) hs acc))" for acc
  proof (induction ts arbitrary: acc)
    case (Cons t ts)
    show ?case by (cases "build t") (simp_all add: Cons.IH rbind_def split: sum.split)
  qed simp
  then show ?thesis unfolding labelAction_def
    by (cases "rmap build (filter (\<lambda>t. ga_label t = l) ts)") (simp_all add: fold_some split: list.split)
qed

section \<open>Statements\<close>

text \<open>Everything a system of transitions needs to be built and run with fuel \<open>m\<close>.\<close>

definition system_ok :: "heap_order \<Rightarrow> gal_context \<Rightarrow> GalOrder \<Rightarrow> nat \<Rightarrow> nat \<Rightarrow> nat \<Rightarrow> bool" where
  "system_ok A C vo n B m \<longleftrightarrow> linear_less (iless A) \<and> context_ok C vo \<and> n \<le> length (go_map vo) \<and> assign_fuel B n B \<le> m
     \<and> list_all (action_ok A vo n B) (gal_transitions (c_gal C))"

lemma system_okD:
  assumes "system_ok A C vo n B m"
  shows "linear_less (iless A)" "context_ok C vo" "order_ok vo" "n \<le> length (go_map vo)" "assign_fuel B n B \<le> m"
    "list_all (action_ok A vo n B) (gal_transitions (c_gal C))" "c_go C = Inr vo"
  using assms by (simp_all add: system_ok_def context_ok_def)

lemma list_all_filter: "list_all P xs \<Longrightarrow> list_all P (filter Q xs)"
  by (auto simp: list_all_iff)

context dd_systems begin

lemma getSuccsHom_one:
  assumes "getSuccsHom lib A m C depth [l] = Inr h"
  obtains depth' hs h' where "depth = Suc depth'"
    "rmap (buildHom_action lib A m C (getSuccsHom lib A m C depth')) (filter (\<lambda>t. ga_label t = l) (gal_transitions (c_gal C))) = Inr (h' # hs)"
    "h = Hcomp (hops lib) (fold (\<lambda>h a. Hor (hops lib) a h) hs h') (Hid (hops lib))"
proof (cases depth)
  case (Suc depth')
  show thesis
  proof (cases "rmap (buildHom_action lib A m C (getSuccsHom lib A m C depth')) (filter (\<lambda>t. ga_label t = l) (gal_transitions (c_gal C)))")
    case (Inl e)
    with assms Suc show ?thesis by (simp add: labelAction_eq)
  next
    case (Inr hs)
    show ?thesis
    proof (cases hs)
      case Nil
      with assms Suc Inr show ?thesis by (simp add: labelAction_eq)
    next
      case (Cons h' hs')
      with assms Suc Inr show ?thesis by (intro that [OF Suc Inr [unfolded Cons]]) (simp add: labelAction_eq)
    qed
  qed
qed (use assms in \<open>simp add: no_fuel_def\<close>)

lemma statements_sound:
  assumes sys: "system_ok A C vo n B m"
  defines "ts \<equiv> gal_transitions (c_gal C)"
  shows "exec lib A vo n ts s S T \<Longrightarrow> stmt_ok A vo n B s \<Longrightarrow>
      (\<And>depth h. buildHom lib A m C (getSuccsHom lib A m C depth) s = Inr h \<Longrightarrow> maps lib n h S T)"
    and "execs lib A vo n ts ss S T \<Longrightarrow> list_all (stmt_ok A vo n B) ss \<Longrightarrow>
      (\<And>depth hs h0 R. rmap (buildHom lib A m C (getSuccsHom lib A m C depth)) ss = Inr hs \<Longrightarrow> maps lib n h0 R S \<Longrightarrow>
        maps lib n (fold (Hcomp (hops lib)) hs h0) R T)"
    and "pick lib A vo n ts gs S T \<Longrightarrow> list_all (action_ok A vo n B) gs \<Longrightarrow>
      (\<And>depth hs. rmap (buildHom_action lib A m C (getSuccsHom lib A m C depth)) gs = Inr hs \<Longrightarrow>
        \<exists>Ts. list_all2 (\<lambda>h T. maps lib n h S T) hs Ts \<and> T = \<Union>(set Ts))"
proof (induction rule: exec_execs_pick.inducts)
  case (exec_assign S v e)
  note sy = system_okD [OF sys]
  from exec_assign.prems(1) have "assign_ok A vo n B v e" by simp
  from visitAssign_sound [OF sy(1,2,4) this sy(5)] exec_assign show ?case by auto
next
  case (exec_incr S v e)
  note sy = system_okD [OF sys]
  from exec_incr.prems(1) have "assign_ok A vo n B v e" by simp
  from visitIncrAssign_sound [OF sy(1,2,4) this sy(5)] exec_incr show ?case by auto
next
  case (exec_seq ss S T)
  then show ?case using maps_id by (auto simp: rbind_eq_Inr_iff simp del: rmap_eq_Inr_iff)
next
  case (exec_ite S b xs T ys U)
  note sy = system_okD [OF sys]
  from exec_ite.prems have ok: "0 < B \<and> guard_ok A vo n (B - 1) (bgetEnv b) (bgetExpr b)" "list_all (stmt_ok A vo n B) xs" "list_all (stmt_ok A vo n B) ys"
    by simp_all
  from exec_ite.prems(2) sy(7) obtain c hx hy where built: "predicate lib A vo m b = Inr c"
    "rmap (buildHom lib A m C (getSuccsHom lib A m C depth)) xs = Inr hx"
    "rmap (buildHom lib A m C (getSuccsHom lib A m C depth)) ys = Inr hy"
    and h: "h = Hite (hops lib) c (fold (Hcomp (hops lib)) hx (Hid (hops lib))) (fold (Hcomp (hops lib)) hy (Hid (hops lib)))"
    by (auto simp: rbind_eq_Inr_iff simp del: rmap_eq_Inr_iff)
  show ?case
  proof (rule maps_states)
    assume st: "states n S"
    have fuel: "assign_fuel (B - 1) n (B - 1) + 1 \<le> m" using ok(1) sy(5) by (cases B) (simp_all add: assign_fuel_def)
    have "\<exists>h. predicate lib A vo m b = Inr h \<and> negatable lib n 1 h S (\<lambda>p. decided vo n p b True)"
      by (rule predicate_negatable [OF sy(1,3,4) conjunct2 [OF ok(1)] fuel]) (use st exec_ite(1) in \<open>auto simp: states_def\<close>)
    then have "negatable lib n 1 c S (\<lambda>p. decided vo n p b True)" by (simp add: built(1))
    then show "maps lib n h S (T \<union> U)"
      unfolding h by (rule maps_ite [OF _ exec_ite.IH(3) [OF ok(2) built(2) maps_id] exec_ite.IH(5) [OF ok(3) built(3) maps_id]])
  qed
next
  case (exec_fix_stop ss S)
  then show ?case using maps_id fix_stop by (auto simp: rbind_eq_Inr_iff simp del: rmap_eq_Inr_iff)
next
  case (exec_fix_step ss S U T)
  from exec_fix_step.prems(2) obtain hs where built: "rmap (buildHom lib A m C (getSuccsHom lib A m C depth)) ss = Inr hs"
    and h: "h = hom_fixpoint lib (fold (Hcomp (hops lib)) hs (Hid (hops lib)))"
    by (auto simp: rbind_eq_Inr_iff simp del: rmap_eq_Inr_iff)
  have ok: "list_all (stmt_ok A vo n B) ss" using exec_fix_step.prems(1) by simp
  have "maps lib n (fold (Hcomp (hops lib)) hs (Hid (hops lib))) S U" by (rule exec_fix_step.IH(2) [OF ok built maps_id])
  moreover have "maps lib n h U T" by (rule exec_fix_step.IH(4) [OF exec_fix_step.prems])
  ultimately show ?case unfolding h by (rule fix_step [OF _ exec_fix_step.hyps])
next
  case (exec_call l S T)
  note sy = system_okD [OF sys]
  from exec_call.prems(2) have "getSuccsHom lib A m C depth [l] = Inr h" by simp
  then obtain depth' hs h' where built:
    "rmap (buildHom_action lib A m C (getSuccsHom lib A m C depth')) (filter (\<lambda>t. ga_label t = l) ts) = Inr (h' # hs)"
    and h: "h = Hcomp (hops lib) (fold (\<lambda>h a. Hor (hops lib) a h) hs h') (Hid (hops lib))"
    unfolding ts_def by (rule getSuccsHom_one)
  have "list_all (action_ok A vo n B) (filter (\<lambda>t. ga_label t = l) ts)" using sy(6) by (simp add: ts_def list_all_filter)
  from exec_call.IH(2) [OF this built] obtain Ts where "list_all2 (\<lambda>h T. maps lib n h S T) (h' # hs) Ts" "T = \<Union>(set Ts)" by blast
  then obtain T' Ts' where T: "maps lib n h' S T'" "list_all2 (\<lambda>h T. maps lib n h S T) hs Ts'" "T = T' \<union> \<Union>(set Ts')"
    by (auto simp: list_all2_Cons1)
  show ?case unfolding h T(3) by (rule maps_comp [OF maps_id maps_or_fold [OF T(2,1)]])
next
  case (exec_abort S)
  then show ?case using maps_abort by auto
next
  case (execs_nil S)
  then show ?case by simp
next
  case (execs_cons s S U ss T)
  from execs_cons.prems(1) have ok: "stmt_ok A vo n B s" "list_all (stmt_ok A vo n B) ss" by simp_all
  from execs_cons.prems(2) obtain h hs' where built: "buildHom lib A m C (getSuccsHom lib A m C depth) s = Inr h"
    "rmap (buildHom lib A m C (getSuccsHom lib A m C depth)) ss = Inr hs'" and hs: "hs = h # hs'"
    by (auto simp: rbind_eq_Inr_iff simp del: rmap_eq_Inr_iff)
  show ?case unfolding hs fold_simps
    by (rule execs_cons.IH(4) [OF ok(2) built(2) maps_comp [OF execs_cons.prems(3) execs_cons.IH(2) [OF ok(1) built(1)]]])
next
  case (pick_nil S)
  then show ?case by simp
next
  case (pick_cons S g U gs T)
  note sy = system_okD [OF sys]
  from pick_cons.prems(1) have "action_ok A vo n B g" and rest: "list_all (action_ok A vo n B) gs" by simp_all
  then have ok: "prepared A vo n B (BoolExpression_pushNegations A) (ga_guard g)" "list_all (stmt_ok A vo n B) (ga_actions g)"
    by (simp_all add: action_ok_def)
  obtain b c where b: "BoolExpression_eval A (ga_guard g) = Inr b" "predicate lib A vo m (BoolExpression_pushNegations A b) = Inr c"
    and keep: "\<forall>Q. (\<forall>p\<in>Q. length p = n \<and> (\<exists>t. decided vo n p (ga_guard g) t)) \<longrightarrow> keeps lib n c Q (\<lambda>p. decided vo n p (ga_guard g) True)"
    using prepared_predicate [OF sy(1,3,4) ok(1) BoolExpression_pushNegations_sound, of 0 m] sy(5) by auto
  from pick_cons.prems(2) b sy(7) obtain hs' ha where
    built: "rmap (buildHom lib A m C (getSuccsHom lib A m C depth)) (ga_actions g) = Inr ha"
      "rmap (buildHom_action lib A m C (getSuccsHom lib A m C depth)) gs = Inr hs'"
    and hs: "hs = Hcomp (hops lib) (fold (Hcomp (hops lib)) ha (Hid (hops lib))) c # hs'"
    by (auto simp: buildHom_action_def [of _ _ _ _ _ g] rbind_eq_Inr_iff simp del: rmap_eq_Inr_iff)
  have "maps lib n c S {p \<in> S. decided vo n p (ga_guard g) True}"
  proof (rule maps_states)
    assume "states n S"
    with pick_cons(1) keep have "keeps lib n c S (\<lambda>p. decided vo n p (ga_guard g) True)" by (simp add: states_def)
    then show "maps lib n c S {p \<in> S. decided vo n p (ga_guard g) True}" by (rule keeps_maps) simp
  qed
  from maps_comp [OF this pick_cons.IH(3) [OF ok(2) built(1) maps_id]]
  have "maps lib n (Hcomp (hops lib) (fold (Hcomp (hops lib)) ha (Hid (hops lib))) c) S U" .
  moreover obtain Ts where "list_all2 (\<lambda>h T. maps lib n h S T) hs' Ts" "T = \<Union>(set Ts)"
    using pick_cons.IH(5) [OF rest built(2)] by blast
  ultimately show ?case unfolding hs by (intro exI [of _ "U # Ts"]) simp
qed

section \<open>Labels\<close>

lemma picked_sum:
  assumes sys: "system_ok A C vo n B m" and gs: "set gs \<subseteq> set (gal_transitions (c_gal C))"
    and pick: "pick lib A vo n (gal_transitions (c_gal C)) gs S T"
    and built: "rmap (buildHom_action lib A m C (getSuccsHom lib A m C depth)) gs = Inr hs"
  obtains Ts where "list_all2 (\<lambda>h T. maps lib n h S T) hs Ts" "T = \<Union>(set Ts)"
proof -
  have "list_all (action_ok A vo n B) gs" using system_okD(6) [OF sys] gs by (auto simp: list_all_iff)
  from statements_sound(3) [OF sys pick this built] that show thesis by blast
qed

lemma labels_sound:
  assumes sys: "system_ok A C vo n B m"
  shows "fires lib A vo n (gal_transitions (c_gal C)) tau S T \<Longrightarrow> getSuccsHom lib A m C depth tau = Inr h \<Longrightarrow> maps lib n h S T"
proof (cases depth)
  case (Suc depth')
  let ?ts = "gal_transitions (c_gal C)" and ?build = "buildHom_action lib A m C (getSuccsHom lib A m C depth')"
  let ?step = "\<lambda>l resultTrans. rbind (labelAction lib ?build l ?ts) (\<lambda>a.
      case a of None \<Rightarrow> Inl (Abort ''assert(false)'') | Some h \<Rightarrow> Inr (Hcomp (hops lib) h resultTrans))"
  have "rfold ?step tau h0 = Inr h \<Longrightarrow> maps lib n h0 R S \<Longrightarrow> maps lib n h R T"
    if "fires lib A vo n ?ts tau S T" for R h0
    using that
  proof (induction arbitrary: h0 rule: fires.induct)
    case (fires_cons l S U tau T)
    obtain hs where hs: "rmap ?build (filter (\<lambda>t. ga_label t = l) ?ts) = Inr hs"
      using fires_cons.prems(1) by (cases "rmap ?build (filter (\<lambda>t. ga_label t = l) ?ts)") (simp_all add: labelAction_eq)
    with fires_cons.prems(1) obtain h' hs' where h': "hs = h' # hs'"
      "rfold ?step tau (Hcomp (hops lib) (fold (\<lambda>h a. Hor (hops lib) a h) hs' h') h0) = Inr h"
      by (cases hs) (simp_all add: labelAction_eq)
    obtain Ts where "list_all2 (\<lambda>h T. maps lib n h S T) hs Ts" "U = \<Union>(set Ts)"
      by (rule picked_sum [OF sys _ fires_cons.hyps(1) hs]) (use that in auto)
    then obtain T' Ts' where U: "maps lib n h' S T'" "list_all2 (\<lambda>h T. maps lib n h S T) hs' Ts'" "U = T' \<union> \<Union>(set Ts')"
      by (auto simp: h'(1) list_all2_Cons1)
    show ?case
      by (rule fires_cons.IH [OF h'(2)]) (rule maps_comp [OF fires_cons.prems(2)], unfold U(3), rule maps_or_fold [OF U(2,1)])
  qed simp
  then show "fires lib A vo n ?ts tau S T \<Longrightarrow> getSuccsHom lib A m C depth tau = Inr h \<Longrightarrow> maps lib n h S T"
    using maps_id by (simp add: Suc)
qed (simp add: no_fuel_def)

section \<open>Local steps\<close>

lemma stutter_sound:
  assumes sys: "system_ok A C vo n B m" and ok: "local_ok A vo n B (c_gal C) True"
  defines "local \<equiv> filter (\<lambda>t. ga_label t = '''') (gal_transitions (c_gal C))"
  obtains b h where "stutter_predicate A local = Inr b" "predicate lib A vo m b = Inr h"
    "\<forall>S. (\<forall>p\<in>S. \<forall>g\<in>set local. \<exists>t. decided vo n p (ga_guard g) t) \<longrightarrow>
      maps lib n h S {p \<in> S. \<forall>g\<in>set local. \<not> decided vo n p (ga_guard g) True}"
proof -
  note sy = system_okD [OF sys]
  from ok obtain b0 where b0: "createBoolNary A AND (map (\<lambda>t. createNot (ga_guard t)) local) = Inr b0" "prepared A vo n B (\<lambda>b. b) b0"
    by (auto simp: local_ok_def local_def)
  from prepared_predicate [OF sy(1,3,4) b0(2), of 0 m] sy(5) obtain b h where b: "BoolExpression_eval A b0 = Inr b" "predicate lib A vo m b = Inr h"
    and keep: "\<forall>Q. (\<forall>p\<in>Q. length p = n \<and> (\<exists>t. decided vo n p b0 t)) \<longrightarrow> keeps lib n h Q (\<lambda>p. decided vo n p b0 True)" by auto
  show thesis
  proof (rule that [OF _ b(2)])
    show "stutter_predicate A local = Inr b" using b0(1) b(1) by (simp add: stutter_predicate_def)
  next
    show "\<forall>S. (\<forall>p\<in>S. \<forall>g\<in>set local. \<exists>t. decided vo n p (ga_guard g) t) \<longrightarrow>
      maps lib n h S {p \<in> S. \<forall>g\<in>set local. \<not> decided vo n p (ga_guard g) True}"
    proof (intro allI impI)
      fix S assume dec: "\<forall>p\<in>S. \<forall>g\<in>set local. \<exists>t. decided vo n p (ga_guard g) t"
      show "maps lib n h S {p \<in> S. \<forall>g\<in>set local. \<not> decided vo n p (ga_guard g) True}"
      proof (rule maps_states)
        assume st: "states n S"
        have *: "decided vo n p b0 (\<forall>g\<in>set local. \<not> decided vo n p (ga_guard g) True)" if p: "p \<in> S" for p
          unfolding decided_def [of _ _ _ b0]
        proof (intro allI impI)
          fix \<gamma> assume \<gamma>: "agrees vo n p \<gamma>"
          have each: "bdenote \<gamma> (createNot (ga_guard g)) = Some (\<not> decided vo n p (ga_guard g) True)" if g: "g \<in> set local" for g
          proof -
            from dec p g obtain t where t: "decided vo n p (ga_guard g) t" by blast
            have "length p = n" using st p by (simp add: states_def)
            from decided_unique [OF sy(3,4) this t, of True] t have "decided vo n p (ga_guard g) True \<longleftrightarrow> t" by (cases t) auto
            moreover have "bdenote \<gamma> (ga_guard g) = Some t" using t \<gamma> by (simp add: decided_def)
            ultimately show ?thesis by (simp add: createNot_sound)
          qed
          have ok: "be_ok (createNot (ga_guard g))" if "g \<in> set local" for g
          proof -
            have "action_ok A vo n B g" using sy(6) that by (auto simp: list_all_iff local_def)
            then have "be_ok (ga_guard g)" by (simp add: action_ok_def prepared_def)
            then show ?thesis by (cases "ga_guard g") (simp add: createNot_def)
          qed
          have "\<exists>b. createBoolNary A (nbool_type AndExpr) (map (\<lambda>t. createNot (ga_guard t)) local) = Inr b \<and> be_ok b
              \<and> bdenote \<gamma> b = nbool_sem AndExpr (map (bdenote \<gamma>) (map (\<lambda>t. createNot (ga_guard t)) local))"
            by (rule createBoolNary_sound) (use each ok in auto)
          with b0(1) have "bdenote \<gamma> b0 = nbool_sem AndExpr (map (\<lambda>t. bdenote \<gamma> (createNot (ga_guard t))) local)"
            by (simp add: comp_def)
          also have "\<dots> = nbool_sem AndExpr (map (\<lambda>t. Some (\<not> decided vo n p (ga_guard t) True)) local)"
            using each by (intro arg_cong [where f = "nbool_sem AndExpr"] map_cong) simp_all
          also have "\<dots> = Some (\<forall>g\<in>set local. \<not> decided vo n p (ga_guard g) True)" by (auto simp: nbool_sem_eq_Some)
          finally show "bdenote \<gamma> b0 = Some (\<forall>g\<in>set local. \<not> decided vo n p (ga_guard g) True)" .
        qed
        have iff: "decided vo n p b0 True \<longleftrightarrow> (\<forall>g\<in>set local. \<not> decided vo n p (ga_guard g) True)" if p: "p \<in> S" for p
        proof -
          have "length p = n" using st p by (simp add: states_def)
          from decided_unique [OF sy(3,4) this * [OF p], of True] * [OF p] show ?thesis
            by (cases "\<forall>g\<in>set local. \<not> decided vo n p (ga_guard g) True") auto
        qed
        have "keeps lib n h S (\<lambda>p. decided vo n p b0 True)"
          by (rule mp [OF spec [OF keep]]) (use st * in \<open>auto simp: states_def\<close>)
        from keeps_maps [OF this order_refl] have "maps lib n h S {p \<in> S. decided vo n p b0 True}" .
        moreover have "{p \<in> S. decided vo n p b0 True} = {p \<in> S. \<forall>g\<in>set local. \<not> decided vo n p (ga_guard g) True}"
          using iff by blast
        ultimately show "maps lib n h S {p \<in> S. \<forall>g\<in>set local. \<not> decided vo n p (ga_guard g) True}" by simp
      qed
    qed
  qed
qed

lemma local_sum_sound:
  assumes sys: "system_ok A C vo n B m" and ok: "local_ok A vo n B (c_gal C) st"
    and built: "local_sum lib A m C depth (Some st) = Inr tot"
    and step: "local_step lib A vo n (gal_transitions (c_gal C)) st S U"
  shows "maps lib n tot S U"
proof -
  note sy = system_okD [OF sys]
  define local where "local = filter (\<lambda>t. ga_label t = '''') (gal_transitions (c_gal C))"
  let ?build = "buildHom_action lib A m C (getSuccsHom lib A m C depth)"
  from step obtain T where T: "\<forall>p\<in>S. \<forall>g\<in>set local. \<exists>t. decided vo n p (ga_guard g) t"
    "pick lib A vo n (gal_transitions (c_gal C)) local S T"
    "U = T \<union> (if st then {p \<in> S. \<forall>g\<in>set local. \<not> decided vo n p (ga_guard g) True} else {})"
    by (auto simp: local_step_def Let_def simp flip: local_def)
  obtain hs where hs: "rmap ?build local = Inr hs"
    using built by (cases "rmap ?build local") (simp_all add: local_sum_def flip: local_def)
  obtain Ts where Ts: "list_all2 (\<lambda>h T. maps lib n h S T) hs Ts" "T = \<Union>(set Ts)"
    by (rule picked_sum [OF sys _ T(2) hs]) (use that in \<open>auto simp: local_def\<close>)
  show ?thesis
  proof (cases st)
    case False
    with built hs have "tot = Hadd (hops lib) hs" by (simp add: local_sum_def flip: local_def)
    with maps_add [OF Ts(1)] Ts(2) T(3) False show ?thesis by simp
  next
    case True
    from ok True have st: "local_ok A vo n B (c_gal C) True" by simp
    obtain b h where b: "stutter_predicate A local = Inr b" "predicate lib A vo m b = Inr h"
      "\<forall>S. (\<forall>p\<in>S. \<forall>g\<in>set local. \<exists>t. decided vo n p (ga_guard g) t) \<longrightarrow>
        maps lib n h S {p \<in> S. \<forall>g\<in>set local. \<not> decided vo n p (ga_guard g) True}"
      by (rule stutter_sound [OF sys st, folded local_def])
    with built hs sy(7) True have tot: "tot = Hadd (hops lib) (hs @ [h])" by (simp add: local_sum_def flip: local_def)
    have "list_all2 (\<lambda>h T. maps lib n h S T) (hs @ [h]) (Ts @ [{p \<in> S. \<forall>g\<in>set local. \<not> decided vo n p (ga_guard g) True}])"
      using Ts(1) b(3) T(1) by (simp add: list_all2_appendI)
    from maps_add [OF this] show ?thesis by (simp add: tot Ts(2) T(3) True Un_commute)
  qed
qed

lemma next_step_sound:
  assumes sys: "system_ok A C vo n B m" and ok: "local_ok A vo n B (c_gal C) st"
    and built: "next_step lib A m C depth (Some st) = Inr h"
    and step: "local_step lib A vo n (gal_transitions (c_gal C)) st S U"
    and rest: "settles (local_step lib A vo n (gal_transitions (c_gal C)) st) vo n (gal_transient (c_gal C)) U T"
  shows "maps lib n h S T"
proof -
  note sy = system_okD [OF sys]
  define b where "b = gal_transient (c_gal C)"
  have "prepared A vo n B createNot b" using ok by (simp add: local_ok_def b_def)
  from prepared_negatable [OF sy(1,3,4) this sy(5)] obtain b' c where b': "BoolExpression_eval A b = Inr b'" "predicate lib A vo m b' = Inr c"
    and keep: "\<forall>Q. (\<forall>p\<in>Q. length p = n \<and> (\<exists>t. decided vo n p b t)) \<longrightarrow> negatable lib n 1 c Q (\<lambda>p. decided vo n p b True)" by blast
  from built obtain tot where tot: "local_sum lib A m C depth (Some st) = Inr tot"
    and h: "h = Hcomp (hops lib) (hom_fixpoint lib (Hite (hops lib) c tot (Hid (hops lib)))) tot"
    using b' sy(7) by (auto simp: next_step_def rbind_eq_Inr_iff b_def)
  let ?F = "Hite (hops lib) c tot (Hid (hops lib))"
  have once: "maps lib n ?F S (U \<union> {p \<in> S. \<not> decided vo n p b True})"
    if "\<forall>p\<in>S. \<exists>t. decided vo n p b t" "local_step lib A vo n (gal_transitions (c_gal C)) st {p \<in> S. decided vo n p b True} U" for S U
  proof (rule maps_states)
    assume "states n S"
    with that(1) keep have "negatable lib n 1 c S (\<lambda>p. decided vo n p b True)" by (simp add: states_def)
    then show "maps lib n ?F S (U \<union> {p \<in> S. \<not> decided vo n p b True})"
      by (rule maps_ite [OF _ local_sum_sound [OF sys ok tot that(2)] maps_id])
  qed
  have "maps lib n (hom_fixpoint lib ?F) U T"
    using rest unfolding b_def [symmetric]
  proof (induction rule: settles.induct)
    case (settles_stop S U)
    from once [OF settles_stop(1,2)] show ?case unfolding settles_stop(3) by (rule fix_stop)
  next
    case (settles_step S U V T)
    from once [OF settles_step.hyps(1,2)] have "maps lib n ?F S V" unfolding settles_step.hyps(3) .
    from fix_step [OF this settles_step.hyps(4) settles_step.IH] show ?case .
  qed
  then show ?thesis unfolding h by (rule maps_comp [OF local_sum_sound [OF sys ok tot step]])
qed

section \<open>The construction ends\<close>

lemma predicate_built:
  assumes sys: "system_ok A C vo n B m" and b: "guard_ok A vo n B (bgetEnv b) (NotExpr (bgetExpr b))"
  shows "\<exists>h. predicate lib A vo m b = Inr h"
proof -
  have "assign_fuel (B - 1) n (B - 1) \<le> m" using b system_okD(5) [OF sys] by (cases B) (simp_all add: assign_fuel_def)
  from predicate_sound [OF system_okD(1,3,4) [OF sys] _ this, of b "{}"] b show ?thesis by auto
qed

lemma list_built:
  assumes "\<And>s. s \<in> set ss \<Longrightarrow> stmt_ok A vo n B s \<Longrightarrow> (\<And>l. l \<in> called s \<Longrightarrow> \<exists>h. succs [l] = Inr h) \<Longrightarrow> \<exists>h. build s = Inr h"
    and "list_all (stmt_ok A vo n B) ss" "\<And>l. l \<in> (\<Union>s\<in>set ss. called s) \<Longrightarrow> \<exists>h. succs [l] = Inr h"
  shows "\<exists>hs. rmap build ss = Inr hs"
proof (rule rmap_total)
  fix s assume s: "s \<in> set ss"
  show "\<exists>h. build s = Inr h"
    by (rule assms(1) [OF s]) (use assms(2,3) s in \<open>auto simp: list_all_iff\<close>)
qed

lemma statement_built:
  assumes sys: "system_ok A C vo n B m"
  shows "stmt_ok A vo n B s \<Longrightarrow> (\<And>l. l \<in> called s \<Longrightarrow> \<exists>h. succs [l] = Inr h) \<Longrightarrow> \<exists>h. buildHom lib A m C succs s = Inr h"
proof (induction s)
  case (Assignment v e)
  note sy = system_okD [OF sys]
  from Assignment have "assign_ok A vo n B v e" by simp
  from visitAssign_sound [OF sy(1,2,4) this sy(5)] show ?case by auto
next
  case (IncrAssignment v e)
  note sy = system_okD [OF sys]
  from IncrAssignment have "assign_ok A vo n B v e" by simp
  from visitIncrAssign_sound [OF sy(1,2,4) this sy(5)] show ?case by auto
next
  case (Sequence ss)
  have "\<exists>hs. rmap (buildHom lib A m C succs) ss = Inr hs"
    by (rule list_built [where succs = succs, OF Sequence.IH]) (use Sequence.prems in auto)
  then show ?case by (auto simp del: rmap_eq_Inr_iff)
next
  case (Ite b xs ys)
  have "\<exists>hs. rmap (buildHom lib A m C succs) xs = Inr hs"
    by (rule list_built [where succs = succs, OF Ite.IH(1)]) (use Ite.prems in auto)
  moreover have "\<exists>hs. rmap (buildHom lib A m C succs) ys = Inr hs"
    by (rule list_built [where succs = succs, OF Ite.IH(2)]) (use Ite.prems in auto)
  moreover have "\<exists>h. predicate lib A vo m b = Inr h" using Ite.prems(1) by (intro predicate_built [OF sys]) simp_all
  ultimately show ?case using system_okD(7) [OF sys] by (auto simp del: rmap_eq_Inr_iff)
next
  case (FixStatement ss)
  have "\<exists>hs. rmap (buildHom lib A m C succs) ss = Inr hs"
    by (rule list_built [where succs = succs, OF FixStatement.IH]) (use FixStatement.prems in auto)
  then show ?case by (auto simp del: rmap_eq_Inr_iff)
qed simp_all

lemma action_built:
  assumes sys: "system_ok A C vo n B m" and g: "g \<in> set (gal_transitions (c_gal C))"
    and succs: "\<And>l. l \<in> called (Sequence (ga_actions g)) \<Longrightarrow> \<exists>h. succs [l] = Inr h"
  shows "\<exists>h. buildHom_action lib A m C succs g = Inr h"
proof -
  note sy = system_okD [OF sys]
  from sy(6) g have ok: "prepared A vo n B (BoolExpression_pushNegations A) (ga_guard g)" "stmt_ok A vo n B (Sequence (ga_actions g))"
    by (simp_all add: list_all_iff action_ok_def)
  from prepared_predicate [OF sy(1,3,4) ok(1) BoolExpression_pushNegations_sound, of 0 m] sy(5)
  obtain b c where "BoolExpression_eval A (ga_guard g) = Inr b" "predicate lib A vo m (BoolExpression_pushNegations A b) = Inr c" by auto
  moreover obtain a where "buildHom lib A m C succs (Sequence (ga_actions g)) = Inr a"
    using statement_built [where succs = succs, OF sys ok(2) succs] by blast
  ultimately show ?thesis using sy(7) by (simp add: buildHom_action_def)
qed

lemma labels_built:
  assumes sys: "system_ok A C vo n B m" and calls: "calls_ok rank (gal_transitions (c_gal C))"
  shows "0 < depth \<Longrightarrow> (\<And>l. l \<in> set tau \<Longrightarrow> l \<in> ga_label ` set (gal_transitions (c_gal C)) \<and> rank l < depth) \<Longrightarrow>
     \<exists>h. getSuccsHom lib A m C depth tau = Inr h"
proof (induction depth arbitrary: tau)
  case (Suc depth)
  let ?ts = "gal_transitions (c_gal C)" and ?build = "buildHom_action lib A m C (getSuccsHom lib A m C depth)"
  have one: "\<exists>h. labelAction lib ?build l ?ts = Inr (Some h)" if l: "l \<in> set tau" for l
  proof -
    have "\<exists>hs. rmap ?build (filter (\<lambda>t. ga_label t = l) ?ts) = Inr hs"
    proof (rule rmap_total)
      fix g assume "g \<in> set (filter (\<lambda>t. ga_label t = l) ?ts)"
      then have g: "g \<in> set ?ts" "ga_label g = l" by simp_all
      show "\<exists>h. ?build g = Inr h"
      proof (rule action_built [OF sys g(1)])
        fix k assume "k \<in> called (Sequence (ga_actions g))"
        then have "k \<in> ga_label ` set ?ts" "rank k < rank l" using calls g unfolding calls_ok_def by blast+
        moreover have "rank l < Suc depth" using Suc.prems(2) [OF l] by blast
        ultimately have "0 < depth" "k \<in> ga_label ` set ?ts \<and> rank k < depth" by auto
        then show "\<exists>h. getSuccsHom lib A m C depth [k] = Inr h" by (intro Suc.IH) auto
      qed
    qed
    then obtain hs where hs: "rmap ?build (filter (\<lambda>t. ga_label t = l) ?ts) = Inr hs" by blast
    moreover have "length hs = length (filter (\<lambda>t. ga_label t = l) ?ts)"
      using hs by (auto simp: rmap_eq_Inr_iff dest: list_all2_lengthD)
    moreover have "filter (\<lambda>t. ga_label t = l) ?ts \<noteq> []" using Suc.prems(2) [OF l] by (auto simp: filter_empty_conv)
    ultimately show ?thesis by (cases hs) (simp_all add: labelAction_eq)
  qed
  have "\<exists>h. rfold (\<lambda>l resultTrans. rbind (labelAction lib ?build l ?ts) (\<lambda>a.
      case a of None \<Rightarrow> Inl (Abort ''assert(false)'') | Some h \<Rightarrow> Inr (Hcomp (hops lib) h resultTrans))) ls h0 = Inr h"
    if "set ls \<subseteq> set tau" for ls h0
    using that
  proof (induction ls arbitrary: h0)
    case (Cons l ls)
    from Cons.prems obtain h where "labelAction lib ?build l ?ts = Inr (Some h)" using one [of l] by auto
    with Cons show ?case by simp
  qed simp
  from this [of tau] show ?case by simp
qed simp

lemma local_built:
  assumes sys: "system_ok A C vo n B m" and calls: "calls_ok rank (gal_transitions (c_gal C))"
    and depth: "rank '''' \<le> depth" "0 < depth" and g: "g \<in> set (gal_transitions (c_gal C))" "ga_label g = ''''"
  shows "\<exists>h. buildHom_action lib A m C (getSuccsHom lib A m C depth) g = Inr h"
proof (rule action_built [OF sys g(1)])
  fix k assume "k \<in> called (Sequence (ga_actions g))"
  then have "k \<in> ga_label ` set (gal_transitions (c_gal C))" "rank k < rank (ga_label g)"
    using calls g(1) unfolding calls_ok_def by blast+
  with g(2) depth show "\<exists>h. getSuccsHom lib A m C depth [k] = Inr h" by (intro labels_built [OF sys calls]) auto
qed

text \<open>A single transition.\<close>

lemma action_sound:
  assumes sys: "system_ok A C vo n B m" and g: "g \<in> set (gal_transitions (c_gal C))"
    and built: "buildHom_action lib A m C (getSuccsHom lib A m C depth) g = Inr h"
    and pick: "pick lib A vo n (gal_transitions (c_gal C)) [g] S T"
  shows "maps lib n h S T"
proof -
  have one: "rmap (buildHom_action lib A m C (getSuccsHom lib A m C depth)) [g] = Inr [h]" using built by simp
  have gs: "set [g] \<subseteq> set (gal_transitions (c_gal C))" using g by simp
  obtain Ts where "list_all2 (\<lambda>h T. maps lib n h S T) [h] Ts" "T = \<Union>(set Ts)"
    by (rule picked_sum [OF sys gs pick one])
  then show ?thesis by (auto simp: list_all2_Cons1)
qed

lemma named_built:
  assumes sys: "system_ok A C vo n B m" and calls: "calls_ok rank (gal_transitions (c_gal C))"
    and depth: "rank '''' \<le> depth" "0 < depth"
  defines "local \<equiv> filter (\<lambda>t. ga_label t = '''') (gal_transitions (c_gal C))"
  obtains hs where "GALType_getNamedLocals lib localApply A m C depth ntrans
      = Inr (ntrans @ map2 (\<lambda>g h. (ga_name g, localApply h DEFAULT_VAR)) local hs)"
    "list_all2 (\<lambda>g h. \<forall>S T. pick lib A vo n (gal_transitions (c_gal C)) [g] S T \<longrightarrow> maps lib n h S T) local hs"
proof -
  let ?build = "buildHom_action lib A m C (getSuccsHom lib A m C depth)"
  have named: "\<exists>hs. rmap (\<lambda>t. rbind (?build t) (\<lambda>h. Inr (ga_name t, localApply h DEFAULT_VAR))) gs
        = Inr (map2 (\<lambda>g h. (ga_name g, localApply h DEFAULT_VAR)) gs hs)
      \<and> list_all2 (\<lambda>g h. \<forall>S T. pick lib A vo n (gal_transitions (c_gal C)) [g] S T \<longrightarrow> maps lib n h S T) gs hs"
    if "\<And>g. g \<in> set gs \<Longrightarrow> g \<in> set (gal_transitions (c_gal C)) \<and> (\<exists>h. ?build g = Inr h)" for gs
    using that
  proof (induction gs)
    case (Cons g gs)
    then obtain hs where hs: "rmap (\<lambda>t. rbind (?build t) (\<lambda>h. Inr (ga_name t, localApply h DEFAULT_VAR))) gs
        = Inr (map2 (\<lambda>g h. (ga_name g, localApply h DEFAULT_VAR)) gs hs)"
      "list_all2 (\<lambda>g h. \<forall>S T. pick lib A vo n (gal_transitions (c_gal C)) [g] S T \<longrightarrow> maps lib n h S T) gs hs" by auto
    obtain h where h: "?build g = Inr h" and g: "g \<in> set (gal_transitions (c_gal C))" using Cons.prems [of g] by auto
    from action_sound [OF sys g h] hs h show ?case by (intro exI [of _ "h # hs"]) (simp del: rmap_eq_Inr_iff)
  qed simp
  have "g \<in> set (gal_transitions (c_gal C)) \<and> (\<exists>h. ?build g = Inr h)" if "g \<in> set local" for g
    using local_built [OF sys calls depth] that by (simp add: local_def)
  from named [of local, OF this] obtain hs where
    "rmap (\<lambda>t. rbind (?build t) (\<lambda>h. Inr (ga_name t, localApply h DEFAULT_VAR))) local
      = Inr (map2 (\<lambda>g h. (ga_name g, localApply h DEFAULT_VAR)) local hs)"
    "list_all2 (\<lambda>g h. \<forall>S T. pick lib A vo n (gal_transitions (c_gal C)) [g] S T \<longrightarrow> maps lib n h S T) local hs" by blast
  then show thesis
    by (intro that) (simp_all add: GALType_getNamedLocals_def del: rmap_eq_Inr_iff flip: local_def)
qed

lemma next_step_built:
  assumes sys: "system_ok A C vo n B m" and calls: "calls_ok rank (gal_transitions (c_gal C))" and ok: "local_ok A vo n B (c_gal C) st"
    and depth: "rank '''' \<le> depth" "0 < depth"
  shows "\<exists>h. next_step lib A m C depth (Some st) = Inr h"
proof -
  note sy = system_okD [OF sys]
  define local where "local = filter (\<lambda>t. ga_label t = '''') (gal_transitions (c_gal C))"
  have "\<exists>hs. rmap (buildHom_action lib A m C (getSuccsHom lib A m C depth)) local = Inr hs"
    by (rule rmap_total) (use local_built [OF sys calls depth] in \<open>simp add: local_def\<close>)
  then obtain hs where hs: "rmap (buildHom_action lib A m C (getSuccsHom lib A m C depth)) local = Inr hs" by blast
  have "\<exists>tot. local_sum lib A m C depth (Some st) = Inr tot"
  proof (cases st)
    case True
    with ok have st: "local_ok A vo n B (c_gal C) True" by simp
    obtain b h where "stutter_predicate A local = Inr b" "predicate lib A vo m b = Inr h"
      by (rule stutter_sound [OF sys st, folded local_def])
    with hs True sy(7) show ?thesis by (simp add: local_sum_def flip: local_def)
  qed (use hs in \<open>simp add: local_sum_def flip: local_def\<close>)
  moreover have "prepared A vo n B createNot (gal_transient (c_gal C))" using ok by (simp add: local_ok_def)
  from prepared_negatable [OF sy(1,3,4) this sy(5)] obtain b h where
    "BoolExpression_eval A (gal_transient (c_gal C)) = Inr b" "predicate lib A vo m b = Inr h" by auto
  ultimately show ?thesis using sy(7) by (auto simp: next_step_def)
qed

end

end
