(* ===== verification/Gal_Diagram_Type.thy ===== *)
theory Gal_Diagram_Type imports Gal_Diagram_Select Gal_Type_Sound begin

text \<open>
  The operators of the instance: composition, sums, choice, fixpoints and the two assignments of a constant.
\<close>

declare dd_level.simps(2) [simp del]

lemma diag_lib_system_simps [simp]:
  "hom_fixpoint diag_lib h = DHom (selects h) (iterate (dfun h))"
  "hom_prim diag_lib f v k = DHom (f \<notin> {postPlace, setVarConst}) (dprim (\<lambda>x. hom_test f x k) (\<lambda>x. hom_value f x k) v)"
  "val_cast diag_lib x = (x + 32768) mod 65536 - 32768"
  by (simp_all add: diag_lib_def)

lemma level0_states: "level0 diag_lib n d \<Longrightarrow> states n (dd_paths diag_lib n d)"
  using level_taggable [of diag_lib n d] by (auto simp: level0_def states_def dest: dd_paths_length)

section \<open>Assignments of a constant\<close>

text \<open>Arc by arc, when the values of the arcs stay.\<close>

lemma arcs_map:
  assumes ok: "arcs_ok n as" and f: "\<And>p x. length p = n \<Longrightarrow> f (p @ [x]) = g p @ [x]"
    and step: "\<And>a. a \<in> set as \<Longrightarrow> \<exists>c. h (snd a) = Inr c \<and> level0 diag_lib n c \<and> dd_paths diag_lib n c = g ` dd_paths diag_lib n (snd a)"
  shows "\<exists>d'. rbind (rmap (\<lambda>a. rbind (h (snd a)) (\<lambda>c. Inr (dnode (int n) (fst a) c))) as) (\<lambda>ds. Inr (djoin ds)) = Inr d'
    \<and> level0 diag_lib (Suc n) d' \<and> dd_paths diag_lib (Suc n) d' = f ` dd_paths diag_lib (Suc n) (DNode (int n) as)"
proof -
  let ?W = "\<lambda>a. f ` (\<lambda>p. p @ [fst a]) ` dd_paths diag_lib n (snd a)"
  have "\<exists>ds. rmap (\<lambda>a. rbind (h (snd a)) (\<lambda>c. Inr (dnode (int n) (fst a) c))) as = Inr ds
      \<and> (\<forall>d\<in>set ds. level0 diag_lib (Suc n) d) \<and> (\<Union>d\<in>set ds. dd_paths diag_lib (Suc n) d) = (\<Union>a\<in>set as. ?W a)"
  proof (rule rmap_yields)
    fix a assume a: "a \<in> set as"
    from step [OF a] obtain c where c: "h (snd a) = Inr c" "level0 diag_lib n c" "dd_paths diag_lib n c = g ` dd_paths diag_lib n (snd a)" by blast
    have v: "taggable (fst a)" using ok a by blast
    have "(\<lambda>p. p @ [fst a]) ` g ` dd_paths diag_lib n (snd a) = ?W a"
      unfolding image_image by (rule image_cong) (simp_all add: f dd_paths_length)
    with dnode_level0 [OF c(2) v] c(1,3)
    show "\<exists>d. rbind (h (snd a)) (\<lambda>c. Inr (dnode (int n) (fst a) c)) = Inr d \<and> level0 diag_lib (Suc n) d
        \<and> dd_paths diag_lib (Suc n) d = ?W a" by (simp del: dd_paths.simps)
  qed
  then obtain ds where ds: "rmap (\<lambda>a. rbind (h (snd a)) (\<lambda>c. Inr (dnode (int n) (fst a) c))) as = Inr ds"
    "\<forall>d\<in>set ds. level0 diag_lib (Suc n) d" "(\<Union>d\<in>set ds. dd_paths diag_lib (Suc n) d) = (\<Union>a\<in>set as. ?W a)" by blast
  have "(\<Union>a\<in>set as. ?W a) = f ` dd_paths diag_lib (Suc n) (DNode (int n) as)" unfolding paths_node image_UN ..
  with ds djoin_level [of ds "Suc n"] show ?thesis by (simp del: dd_paths.simps)
qed

lemma dprim_maps:
  assumes "u < n" "level0 diag_lib n d" "\<forall>p\<in>dd_paths diag_lib n d. taggable (upd (p ! u))"
  shows "\<exists>d'. dprim (\<lambda>x. True) upd (int u) d = Inr d' \<and> level0 diag_lib n d'
    \<and> dd_paths diag_lib n d' = (\<lambda>p. p[u := upd (p ! u)]) ` dd_paths diag_lib n d"
  using assms
proof (induction n arbitrary: d)
  case (Suc n)
  let ?f = "\<lambda>p. p[u := upd (p ! u)]"
  from Suc.prems(2) show ?case
  proof (cases rule: level0_cases)
    case 1
    then show ?thesis by (simp add: dprim_def level0_def)
  next
    case (2 as)
    have child: "\<forall>p\<in>dd_paths diag_lib n (snd a). taggable (upd ((p @ [fst a]) ! u))" if "a \<in> set as" for a
      using Suc.prems(3) that unfolding 2(1) paths_node by blast
    show ?thesis
    proof (cases "n = u")
      case True
      have tag: "taggable (upd (fst a))" if a: "a \<in> set as" for a
      proof -
        have "dd_level diag_lib n (snd a)" using 2(3) a by blast
        from dd_paths_nonempty [OF this] obtain p where "p \<in> dd_paths diag_lib n (snd a)" by blast
        with child [OF a] dd_paths_length [OF this] True show ?thesis by (force simp: nth_append)
      qed
      let ?ds = "map (\<lambda>a. dnode (int u) (upd (fst a)) (snd a)) as"
      have each: "level0 diag_lib (Suc u) (dnode (int u) (upd (fst a)) (snd a))
          \<and> dd_paths diag_lib (Suc u) (dnode (int u) (upd (fst a)) (snd a)) = (\<lambda>p. p @ [upd (fst a)]) ` dd_paths diag_lib u (snd a)"
        if "a \<in> set as" for a
        using dnode_level0 [of u "snd a" "upd (fst a)"] 2(3) tag [OF that] that True by (simp add: level0_def del: dd_paths.simps)
      have "(\<lambda>p. p @ [upd (fst a)]) ` dd_paths diag_lib u (snd a) = ?f ` (\<lambda>p. p @ [fst a]) ` dd_paths diag_lib u (snd a)" for a
        unfolding image_image by (rule image_cong) (auto simp: nth_append list_update_append dest: dd_paths_length)
      with each have "(\<Union>d\<in>set ?ds. dd_paths diag_lib (Suc u) d) = ?f ` dd_paths diag_lib (Suc n) d"
        unfolding 2(1) True paths_node image_UN by (simp del: dd_paths.simps)
      moreover have "level0 diag_lib (Suc u) d" if "d \<in> set ?ds" for d using each that by auto
      from djoin_level [of ?ds "Suc u", OF this]
      have "level0 diag_lib (Suc u) (djoin ?ds)" "dd_paths diag_lib (Suc u) (djoin ?ds) = (\<Union>d\<in>set ?ds. dd_paths diag_lib (Suc u) d)" by simp_all
      ultimately show ?thesis by (simp add: dprim_def 2(1) True del: dd_paths.simps)
    next
      case False
      with Suc.prems(1) have u: "u < n" by simp
      have "\<exists>d'. rbind (rmap (\<lambda>a. rbind (dprim (\<lambda>x. True) upd (int u) (snd a)) (\<lambda>c. Inr (dnode (int n) (fst a) c))) as) (\<lambda>ds. Inr (djoin ds)) = Inr d'
          \<and> level0 diag_lib (Suc n) d' \<and> dd_paths diag_lib (Suc n) d' = ?f ` dd_paths diag_lib (Suc n) (DNode (int n) as)"
      proof (rule arcs_map [OF 2(3), where g = ?f])
        show "?f (p @ [x]) = ?f p @ [x]" if "length p = n" for p x using that u by (simp add: nth_append list_update_append)
        fix a assume a: "a \<in> set as"
        have "\<forall>p\<in>dd_paths diag_lib n (snd a). taggable (upd (p ! u))" using child [OF a] u dd_paths_length [of _ diag_lib n "snd a"] by (force simp: nth_append)
        then show "\<exists>c. dprim (\<lambda>x. True) upd (int u) (snd a) = Inr c \<and> level0 diag_lib n c
            \<and> dd_paths diag_lib n c = ?f ` dd_paths diag_lib n (snd a)"
          using Suc.IH [OF u] 2(3) a by (simp add: level0_def)
      qed
      moreover have "dprim (\<lambda>x. True) upd (int u) (DNode (int n) as)
          = rbind (rmap (\<lambda>a. rbind (dprim (\<lambda>x. True) upd (int u) (snd a)) (\<lambda>c. Inr (dnode (int n) (fst a) c))) as) (\<lambda>ds. Inr (djoin ds))"
        using False by (simp add: dprim_def)
      ultimately show ?thesis by (simp add: 2(1) del: dd_paths.simps)
    qed
  qed
qed simp

section \<open>The contract holds\<close>

lemma join_level0:
  assumes "level0 diag_lib n x" "level0 diag_lib n y"
  shows "level0 diag_lib n (join x y) \<and> dd_paths diag_lib n (join x y) = dd_paths diag_lib n x \<union> dd_paths diag_lib n y"
proof -
  have "level0 diag_lib n d" if "d \<in> set [x, y]" for d using assms that by auto
  from djoin_level [of "[x, y]" n, OF this] show ?thesis by (simp add: djoin_def)
qed

lemma iterate_stop: "f d = Inr e \<Longrightarrow> set (dpaths e) = set (dpaths d) \<Longrightarrow> iterate f d = Inr d"
  by (subst iterate_def, subst while_option_unfold) (simp add: changes_def)

lemma iterate_step: "f d = Inr e \<Longrightarrow> set (dpaths e) \<noteq> set (dpaths d) \<Longrightarrow> iterate f d = iterate f e"
  by (subst iterate_def, subst while_option_unfold) (simp add: changes_def iterate_def)

interpretation diag: dd_systems diag_lib
proof
  show "hom_app diag_lib (Hcomp (hops diag_lib) f g) d = rbind (hom_app diag_lib g d) (hom_app diag_lib f)" for f g d
    by (simp add: diag_hops_def)
next
  fix n f g S T U assume f: "maps diag_lib n f S T" and g: "maps diag_lib n g S U"
  show "maps diag_lib n (Hor (hops diag_lib) f g) S (T \<union> U)"
  proof (rule mapsI)
    fix d assume d: "level0 diag_lib n d" "dd_paths diag_lib n d = S"
    from mapsD [OF f d] mapsD [OF g d] obtain x y where x: "dfun f d = Inr x" "level0 diag_lib n x" "dd_paths diag_lib n x = T"
      and y: "dfun g d = Inr y" "level0 diag_lib n y" "dd_paths diag_lib n y = U" by (metis diag_lib_simps(8))
    have "level0 diag_lib n (join x y) \<and> dd_paths diag_lib n (join x y) = T \<union> U"
      using join_level0 [OF x(2) y(2)] x y by simp
    with x(1) y(1) show "\<exists>d'. hom_app diag_lib (Hor (hops diag_lib) f g) d = Inr d' \<and> level0 diag_lib n d' \<and> dd_paths diag_lib n d' = T \<union> U"
      by (simp add: diag_hops_def)
  qed
next
  fix n S hs Ts assume all: "list_all2 (\<lambda>h T. maps diag_lib n h S T) hs Ts"
  show "maps diag_lib n (Hadd (hops diag_lib) hs) S (\<Union>(set Ts))"
  proof (rule mapsI)
    fix d assume d: "level0 diag_lib n d" "dd_paths diag_lib n d = S"
    have "\<exists>ds. rmap (\<lambda>h. dfun h d) hs = Inr ds \<and> (\<forall>c\<in>set ds. level0 diag_lib n c) \<and> (\<Union>c\<in>set ds. dd_paths diag_lib n c) = \<Union>(set Ts)"
      using all
    proof (induction hs Ts rule: list_all2_induct)
      case (Cons h hs T Ts)
      from mapsD [OF Cons.hyps(1) d] obtain c where "dfun h d = Inr c" "level0 diag_lib n c" "dd_paths diag_lib n c = T" by auto
      with Cons.IH show ?case by (auto simp del: rmap_eq_Inr_iff)
    qed simp
    then obtain ds where "rmap (\<lambda>h. dfun h d) hs = Inr ds" "\<forall>c\<in>set ds. level0 diag_lib n c" "(\<Union>c\<in>set ds. dd_paths diag_lib n c) = \<Union>(set Ts)" by blast
    with djoin_level [of ds n] show "\<exists>d'. hom_app diag_lib (Hadd (hops diag_lib) hs) d = Inr d' \<and> level0 diag_lib n d' \<and> dd_paths diag_lib n d' = \<Union>(set Ts)"
      by (simp add: diag_hops_def del: rmap_eq_Inr_iff)
  qed
next
  fix n c S P t T f U
  assume "negatable diag_lib n 1 c S P" and t: "maps diag_lib n t {p \<in> S. P p} T" and f: "maps diag_lib n f {p \<in> S. \<not> P p} U"
  show "maps diag_lib n (Hite (hops diag_lib) c t f) S (T \<union> U)"
  proof (rule mapsI)
    fix d assume d: "level0 diag_lib n d" "dd_paths diag_lib n d = S"
    from keepsD [OF negatable_keeps [OF \<open>negatable diag_lib n 1 c S P\<close>] d(1)] d(2) obtain x where x: "dfun c d = Inr x" "level0 diag_lib n x" "dd_paths diag_lib n x = {p \<in> S. P p}" by auto
    from mapsD [OF t x(2,3)] obtain y where y: "dfun t x = Inr y" "level0 diag_lib n y" "dd_paths diag_lib n y = T" by auto
    have "dd_paths diag_lib n (minus_diag d x) = {p \<in> S. \<not> P p}" using minus_level [OF d(1) x(2)] x(3) d(2) by auto
    with minus_level [OF d(1) x(2)] mapsD [OF f] obtain z where z: "dfun f (minus_diag d x) = Inr z" "level0 diag_lib n z" "dd_paths diag_lib n z = U"
      by (metis diag_lib_simps(8))
    have "level0 diag_lib n (join y z) \<and> dd_paths diag_lib n (join y z) = T \<union> U"
      using join_level0 [OF y(2) z(2)] y z by simp
    with x(1) y(1) z(1) show "\<exists>d'. hom_app diag_lib (Hite (hops diag_lib) c t f) d = Inr d' \<and> level0 diag_lib n d' \<and> dd_paths diag_lib n d' = T \<union> U"
      by (simp add: diag_hops_def)
  qed
next
  fix n h S assume h: "maps diag_lib n h S S"
  show "maps diag_lib n (hom_fixpoint diag_lib h) S S"
  proof (rule mapsI)
    fix d assume d: "level0 diag_lib n d" "dd_paths diag_lib n d = S"
    from mapsD [OF h d] obtain e where e: "dfun h d = Inr e" "level0 diag_lib n e" "dd_paths diag_lib n e = S" by auto
    have "iterate (dfun h) d = Inr d"
      by (rule iterate_stop [of _ _ e]) (use d e in \<open>simp_all add: set_dpaths [of n]\<close>)
    with d show "\<exists>d'. hom_app diag_lib (hom_fixpoint diag_lib h) d = Inr d' \<and> level0 diag_lib n d' \<and> dd_paths diag_lib n d' = S" by simp
  qed
next
  fix n h S U T assume h: "maps diag_lib n h S U" and ne: "U \<noteq> S" and rest: "maps diag_lib n (hom_fixpoint diag_lib h) U T"
  show "maps diag_lib n (hom_fixpoint diag_lib h) S T"
  proof (rule mapsI)
    fix d assume d: "level0 diag_lib n d" "dd_paths diag_lib n d = S"
    from mapsD [OF h d] obtain e where e: "dfun h d = Inr e" "level0 diag_lib n e" "dd_paths diag_lib n e = U" by auto
    have "iterate (dfun h) d = iterate (dfun h) e"
      by (rule iterate_step) (use d e ne in \<open>simp_all add: set_dpaths [of n]\<close>)
    with mapsD [OF rest e(2,3)] show "\<exists>d'. hom_app diag_lib (hom_fixpoint diag_lib h) d = Inr d' \<and> level0 diag_lib n d' \<and> dd_paths diag_lib n d' = T"
      by auto
  qed
next
  fix v n k S assume "(v :: nat) < n" "taggable k"
  then show "maps diag_lib n (hom_prim diag_lib setVarConst (int v) k) S ((\<lambda>p. p[v := k]) ` S)"
    using dprim_maps [of v n _ "\<lambda>x. k"] by (auto intro!: mapsI)
next
  fix v n S k assume v: "(v :: nat) < n" and k: "\<And>p. p \<in> S \<Longrightarrow> taggable (p ! v + k) \<and> val_cast diag_lib (p ! v + k) = p ! v + k"
  show "maps diag_lib n (hom_prim diag_lib postPlace (int v) k) S ((\<lambda>p. p[v := p ! v + k]) ` S)"
    using dprim_maps [of v n _ "\<lambda>x. x + k"] v k by (auto intro!: mapsI)
qed

end
