(* ===== verification/Gal_Order.thy ===== *)
theory Gal_Order imports Gal_Steps begin

text \<open>
  The order of a GAL type: when the names of the variables are names the factory can represent, the context
  in which homomorphisms are built gives each variable one index.
\<close>

definition labels_ok :: "labels \<Rightarrow> bool" where
  "labels_ok vs \<longleftrightarrow> distinct vs \<and> (\<forall>n\<in>set vs. label_ok n) \<and> (\<forall>n\<in>set vs. \<forall>k. n @ ''['' @ show_int k @ '']'' \<notin> set vs)"

text \<open>What the constructor of \<open>GalOrder\<close> leaves.\<close>

lemma GalOrder_entries:
  assumes vo: "setFromCollection vs = Inr vo" and f: "factory_ok f" and go: "GalOrder_of A vo f = Inr (go, f')"
  shows "factory_ok f' \<and> length (go_map go) = length vs \<and> (\<forall>i<length vs. entry_ok (var_names f') (vs ! i) (go_map go ! i))"
proof -
  let ?I = "\<lambda>j s. factory_ok (snd s) \<and> length (go_map (fst s)) = j
      \<and> (\<forall>i<j. entry_ok (var_names (snd s)) (vs ! i) (go_map (fst s) ! i))"
  have step: "?I (Suc j) t" if s: "?I j s" "j < length vs" and t: "GalOrder_step A vo j s = Inr t" for j s t
  proof -
    from t obtain v mi f1 where v: "Variable_of (getLabel vo (int j)) = Inr v" "createVariable A (vname v) (snd s) = Inr (mi, f1)"
      "go_map (fst t) = go_map (fst s) @ [mi]" "snd t = f1"
      by (auto simp: GalOrder_step_def rbind_eq_Inr_iff)
    have "vname v = vs ! j" using Variable_of_vname [OF v(1)] order_roundtrip(2) [OF vo s(2)] by simp
    with createVariable_ok [OF _ v(2)] s(1) have new: "factory_ok f1" "set (var_names (snd s)) \<subseteq> set (var_names f1)" "entry_ok (var_names f1) (vs ! j) mi"
      by auto
    have "entry_ok (var_names f1) (vs ! i) (go_map (fst t) ! i)" if "i < Suc j" for i
    proof (cases "i < j")
      case True
      with s(1) show ?thesis using entry_ok_mono [OF _ new(2)] by (simp add: v(3) nth_append)
    next
      case False
      with that have "i = j" by simp
      with s(1) new(3) show ?thesis by (simp add: v(3) nth_append)
    qed
    with new(1) s(1) v(3,4) show ?thesis by simp
  qed
  have fold: "rfold (GalOrder_step A vo) [j..<length vs] s = Inr t \<Longrightarrow> ?I j s \<Longrightarrow> j \<le> length vs \<Longrightarrow> ?I (length vs) t" for j s t
  proof (induction "length vs - j" arbitrary: j s)
    case (Suc k)
    then have j: "j < length vs" by simp
    from Suc.prems(1) j obtain u where u: "GalOrder_step A vo j s = Inr u" "rfold (GalOrder_step A vo) [Suc j..<length vs] u = Inr t"
      by (auto simp: upt_conv_Cons rbind_eq_Inr_iff)
    from Suc.hyps(1) [of "Suc j" u] Suc.hyps(2) u(2) step [OF Suc.prems(2) j u(1)] j show ?case by simp
  qed simp
  have "vo_size vo = length vs" using order_of_ok(2) [OF vo] by (metis length_map vo_size_def)
  with fold [of 0 "(\<lparr>go_map = [], array_size = []\<rparr>, f)" "(go, f')"] go f show ?thesis by (simp add: GalOrder_of_def)
qed

lemma entries_order_ok:
  assumes vs: "labels_ok vs" and f: "factory_ok f" and len: "length (go_map go) = length vs"
    and e: "\<And>i. i < length vs \<Longrightarrow> entry_ok (var_names f) (vs ! i) (go_map go ! i)"
  shows "order_ok go"
proof -
  have ok: "label_ok (vs ! i)" if "i < length vs" for i using vs that by (simp add: labels_ok_def)
  have name: "getName f (go_map go ! i) = Inr (vs ! i)" if "i < length vs" for i
    by (rule getName_entry [OF f e [OF that] ok [OF that]])
  have loc: "ie_ok (go_map go ! i) \<and> eloc (go_map go ! i) \<noteq> None" if "i < length vs" for i
    using e [OF that] ok [OF that] by (cases rule: entry_cases) auto
  have names: "names_ok f" using f by (simp add: factory_ok_def)
  have "distinct (locs go)"
    unfolding distinct_conv_nth
  proof (intro allI impI notI)
    fix i j assume ij: "i < length (locs go)" "j < length (locs go)" "i \<noteq> j" "locs go ! i = locs go ! j"
    then have lt: "i < length vs" "j < length vs" using len by simp_all
    with ij(4) loc len have "eloc (go_map go ! i) = eloc (go_map go ! j)" by (metis comp_apply nth_map option.expand)
    with loc [OF lt(1)] eloc_inj have "go_map go ! i = go_map go ! j" by (metis option.exhaust)
    with name [OF lt(1)] name [OF lt(2)] have "vs ! i = vs ! j" by simp
    with vs lt ij(3) show False by (simp add: labels_ok_def nth_eq_iff_index_eq)
  qed
  moreover have "Cell g k \<notin> set (locs go)" if scalar: "Scalar g \<in> set (locs go)" for g k
  proof
    assume "Cell g k \<in> set (locs go)"
    then obtain j where j: "j < length vs" "locs go ! j = Cell g k" using len by (auto simp: in_set_conv_nth)
    from scalar obtain i where i: "i < length vs" "locs go ! i = Scalar g" using len by (auto simp: in_set_conv_nth)
    from e [OF i(1)] ok [OF i(1)] have g: "(vs ! i, g) \<in> set (var_names f)"
      by (cases rule: entry_cases) (use i len in auto)
    from e [OF j(1)] ok [OF j(1)] obtain a m where a: "vs ! j = a @ ''['' @ show_int m @ '']''" "(a, g) \<in> set (var_names f)"
      by (cases rule: entry_cases) (use j len in auto)
    from getVar_found [OF names g] getVar_found [OF names a(2)] have "a = vs ! i" by simp
    with a(1) vs i(1) j(1) show False unfolding labels_ok_def by (metis nth_mem)
  qed
  ultimately show ?thesis using loc len by (auto simp: order_ok_def in_set_conv_nth)
qed

lemma context_of_ok:
  assumes new: "gt_go t = None" "vorder (gt_basics t) = None" and vs: "labels_ok (GALType_getVarSet heur t)" and f: "factory_ok f"
    and go: "getGalOrder heur A t f = Inr (go, t', f')"
  shows "context_ok (gal_context_of heur A t f) go"
proof -
  define vs where "vs = GALType_getVarSet heur t"
  obtain vo where vo: "setFromCollection vs = Inr vo" using vs by (simp add: setFromCollection_eq labels_ok_def vs_def)
  then have get: "GALType_getVarOrder heur t = Inr (t\<lparr>gt_basics := (gt_basics t)\<lparr>vorder := Some vo\<rparr>\<rparr>, vo)"
    using new(2) by (simp add: GALType_getVarOrder_def getVarOrder_def vs_def)
  with go new(1) have "GalOrder_of A vo f = Inr (go, f')" by (auto simp: getGalOrder_def rbind_eq_Inr_iff)
  from GalOrder_entries [OF vo f this] have e: "factory_ok f'" "length (go_map go) = length vs"
    "\<And>i. i < length vs \<Longrightarrow> entry_ok (var_names f') (vs ! i) (go_map go ! i)" by auto
  have C: "c_go (gal_context_of heur A t f) = Inr go" "c_vo (gal_context_of heur A t f) = Inr vo" "c_names (gal_context_of heur A t f) = f'"
    by (simp_all add: gal_context_of_def go get)
  have "name_index (gal_context_of heur A t f) (go_map go ! j) = Inr (int j)" if "j < length (go_map go)" for j
  proof -
    have j: "j < length vs" using that e(2) by simp
    have "label_ok (vs ! j)" using vs j by (simp add: labels_ok_def vs_def)
    from getName_entry [OF e(1) e(3) [OF j] this] order_roundtrip(1) [OF vo j] show ?thesis by (simp add: name_index_def C)
  qed
  moreover have "order_ok go" by (rule entries_order_ok [OF vs [folded vs_def] e(1,2,3)])
  ultimately show ?thesis by (simp add: context_ok_def C(1))
qed

end
