(* ===== verification/Gal_Props.thy ===== *)
theory Gal_Props imports Gal_Names begin

text \<open>
  The properties of GAL expressions. \<open>A\<close> is the address order of shared nodes, which is arbitrary;
  \<open>ie_ok\<close>, \<open>be_ok\<close> and \<open>as_ok\<close> are the invariants of expressions with their environment, \<open>denote\<close> and
  \<open>bdenote\<close> the reference semantics.
\<close>

text \<open>The order and the valuation of the examples.\<close>

definition insertion_order :: heap_order where
  "insertion_order = \<lparr>iless = (\<lambda>_ _. False), bless = (\<lambda>_ _. False)\<rparr>"

definition ramp :: valuation where
  "ramp = \<lparr>scalar = (\<lambda>x. x), cell = (\<lambda>a i. 10 * a + i)\<rparr>"

lemma ramp_sel [simp]: "scalar ramp x = x" "cell ramp a i = 10 * a + i"
  by (simp_all add: ramp_def)

lemmas sem_eval = chk_def taggable_def untag_const_def wrap32_def INT_MIN_def INT_MAX_def lift_list_def
  bin_opt_def cell_sem_def nbool_sem_def binary_sem_def unary_sem_def
  createConstant_def tag_const_def

section \<open>Simplification\<close>

text \<open>C15 (functional): \<open>IntExpression::eval\<close> of an expression that has a value succeeds, and its result
  is a well-formed expression with the same value.\<close>

theorem IntExpression_eval_correct:
  assumes "ie_ok e" "denote \<gamma> e = Some v"
  shows "\<exists>e'. IntExpression_eval A e = Inr e' \<and> ie_ok e' \<and> denote \<gamma> e' = Some v"
  using IntExpression_eval_denote [OF assms] IntExpression_eval_ok [OF assms(1)] by blast

definition sum_example :: IntExpression where
  "sum_example = IExpr (NaryIntExpr PlusExpr [ConstTag 9, VarExpr 1, ConstTag 13]) [4, 7]"

theorem IntExpression_eval_correct_witness:
  "\<exists>e'. IntExpression_eval insertion_order sum_example = Inr e' \<and> ie_ok e' \<and> denote ramp e' = Some 12"
  by (rule IntExpression_eval_correct) (simp_all add: sum_example_def sem_eval)

text \<open>C16 (functional): \<open>BoolExpression::eval\<close> of a well-formed expression that has a truth value succeeds, and
  its result is a well-formed expression with the same truth value.\<close>

theorem BoolExpression_eval_correct:
  assumes "be_ok b" "bdenote \<gamma> b = Some c"
  shows "\<exists>b'. BoolExpression_eval A b = Inr b' \<and> be_ok b' \<and> bdenote \<gamma> b' = Some c"
  using BoolExpression_eval_denote [OF assms] BoolExpression_eval_ok [OF assms(1)] by blast

definition guard_example :: BoolExpression where
  "guard_example = BExpr (NaryBoolExpr AndExpr [NotExpr (BinaryBoolComp BoolLt (VarExpr 0) (ConstTag 9)),
     BinaryBoolComp BoolEq (ArrayVarExpr 1 (BinaryIntExpr MinusExpr (VarExpr 0) (ConstTag 9)) 5) (ConstTag 289)]) [4, 7]"

lemma guard_example_ok: "be_ok guard_example" "bdenote ramp guard_example = Some True"
  by (simp_all add: guard_example_def sem_eval MinusExpr_constEval_def)

theorem BoolExpression_eval_correct_witness:
  "\<exists>b'. BoolExpression_eval insertion_order guard_example = Inr b' \<and> be_ok b' \<and> bdenote ramp b' = Some True"
  by (rule BoolExpression_eval_correct [OF guard_example_ok])

text \<open>\<open>IntExpression::operator&\<close>. Resolving an expression under an assertion
  \<open>lhs := rhs\<close> whose two sides agree in a state keeps the value of the expression in that state.\<close>

theorem IntExpression_setAssertion_correct:
  assumes "ie_ok e" "as_ok a" "as_holds \<gamma> a" "denote \<gamma> e = Some v"
  shows "\<exists>e'. IntExpression_setAssertion A a e = Inr e' \<and> ie_ok e' \<and> denote \<gamma> e' = Some v"
  by (rule IntExpression_setAssertion_denote [OF assms])

definition assert_example :: Assertion where
  "assert_example = \<lparr>assertion = \<lparr>pfirst = VarExpr 0, psecond = ConstTag 29\<rparr>, aenv = [7]\<rparr>"

lemma assert_example_ok: "as_ok assert_example" "as_holds ramp assert_example"
  by (simp_all add: assert_example_def as_ok_def as_holds_def sem_eval)

theorem IntExpression_setAssertion_correct_witness:
  "\<exists>e'. IntExpression_setAssertion insertion_order assert_example sum_example = Inr e' \<and> ie_ok e'
    \<and> denote ramp e' = Some 12"
  by (rule IntExpression_setAssertion_correct)
     (simp_all add: sum_example_def sem_eval assert_example_ok)

text \<open>C17 (functional): \<open>BoolExpression::operator&\<close>. Let the expression and the two sides of the assertion \<open>lhs
  := rhs\<close> be well formed over their environments, and take a state in which the assertion is true, both sides
  having the same value, and the expression has a truth value. Resolving the expression under the assertion
  succeeds, and its result is a well-formed expression with the same truth value in that state.\<close>

theorem BoolExpression_setAssertion_correct:
  assumes "be_ok b" "as_ok a" "as_holds \<gamma> a" "bdenote \<gamma> b = Some c"
  shows "\<exists>b'. BoolExpression_setAssertion A a b = Inr b' \<and> be_ok b' \<and> bdenote \<gamma> b' = Some c"
  by (rule BoolExpression_setAssertion_denote [OF assms])

theorem BoolExpression_setAssertion_correct_witness:
  "\<exists>b'. BoolExpression_setAssertion insertion_order assert_example guard_example = Inr b' \<and> be_ok b'
    \<and> bdenote ramp b' = Some True"
  by (rule BoolExpression_setAssertion_correct)
     (simp_all add: guard_example_ok assert_example_ok)

text \<open>\<open>Assertion::operator&\<close>. The composition of two assertions that hold in a state
  holds in that state.\<close>

theorem Assertion_and_correct:
  assumes "as_ok a" "as_ok b" "as_holds \<gamma> a" "as_holds \<gamma> b"
  shows "\<exists>c. Assertion_and A a b = Inr c \<and> as_ok c \<and> as_holds \<gamma> c"
  by (rule Assertion_and_sound [OF assms])

definition assert_example2 :: Assertion where
  "assert_example2 = \<lparr>assertion = \<lparr>pfirst = VarExpr 0, psecond = BinaryIntExpr MinusExpr (VarExpr 1) (ConstTag 13)\<rparr>,
     aenv = [4, 7]\<rparr>"

theorem Assertion_and_correct_witness:
  "\<exists>c. Assertion_and insertion_order assert_example2 assert_example = Inr c \<and> as_ok c \<and> as_holds ramp c"
  by (rule Assertion_and_correct)
     (simp_all add: assert_example_def assert_example2_def as_ok_def as_holds_def sem_eval MinusExpr_constEval_def)

text \<open>An expression without variables that has a value evaluates to that constant.\<close>

theorem eval_closed_constant:
  assumes "isem \<sigma> e = Some v" "vars_int e = {}"
  shows "\<exists>t. eval_int A e = Inr (ConstTag t) \<and> untag_const t = v"
proof -
  obtain t where t: "eval_int A e = Inr (ConstTag t)" using eval_closed(1) [OF assms] by blast
  with eval_sound_both(1) [OF assms(1), of A] show ?thesis by (simp add: chk_def split: if_splits)
qed

theorem eval_closed_constant_witness:
  "\<exists>t. eval_int insertion_order (BinaryIntExpr DivExpr (ConstTag 41) (WrapBoolExpr
     (BinaryBoolComp BoolGt (ConstTag 9) (ConstTag 5)))) = Inr (ConstTag t) \<and> untag_const t = 10"
  by (rule eval_closed_constant [where \<sigma> = ramp]) (simp_all add: sem_eval DivExpr_constEval_def c_div_def)

text \<open>No negation is left above a comparison.\<close>

fun negation_free :: "pbool \<Rightarrow> bool" where
  "negation_free (NaryBoolExpr k ps) \<longleftrightarrow> list_all negation_free ps"
| "negation_free (NotExpr b) \<longleftrightarrow> False"
| "negation_free b \<longleftrightarrow> True"

lemma negation_free_params: "negation_free b \<Longrightarrow> list_all negation_free (bool_params b)"
  by (cases b) auto

lemma negation_free_fuse:
  assumes "list_all negation_free ps"
  shows "list_all negation_free (fuse_internals A T ps)"
proof -
  have "list_all negation_free (fold (\<lambda>t q. fold (set_insert (bless A)) (bool_params t) q) ts qs)"
    if "list_all negation_free ts" "list_all negation_free qs" for ts qs
    using that by (induction ts arbitrary: qs) (auto simp: negation_free_params)
  moreover have "list_all negation_free (filter P ps)" for P
    using assms by (auto simp: list_all_iff)
  ultimately show ?thesis by (simp add: fuse_internals_def)
qed

lemma negation_free_node: "list_all negation_free ps \<Longrightarrow> negation_free (nbool_node A k ps)"
  by (auto simp: node_simps negation_free_fuse split: list.splits)

lemma negation_free_push: "negation_free (push_neg A neg b)"
proof (induction A neg b rule: push_neg.induct)
  case (1 A neg k ps)
  then have "list_all negation_free (map (push_neg A neg) ps)" by (auto simp: list_all_iff)
  then have "list_all negation_free (fold (set_insert (bless A)) (map (push_neg A neg) ps) [])"
    by (simp only: list_all_fold_set_insert list.pred_inject simp_thms)
  then show ?case
    by (simp only: push_neg.simps NotPusher_visitNary_def Let_def negation_free_node split: if_split) simp
qed (auto simp: NotPusher_visitComp_def node_simps)

text \<open>C18 (equivalence): \<open>pushNegations\<close> keeps the value of a Boolean expression, and leaves no negation
  above its comparisons.\<close>

theorem pushNegations_correct:
  "bsem \<sigma> (pushNegations A b) = bsem \<sigma> b \<and> negation_free (pushNegations A b)"
  by (simp add: bsem_pushNegations) (simp add: pushNegations_def negation_free_push)

text \<open>C19 (termination): \<open>eval\<close> of a Boolean expression that has a truth value ends, and returns an expression
  with the same truth value that is no larger. It calls itself on the negation of an operand it has already
  simplified; the model guards this call by a comparison of sizes, and the guard never fails: for every operator
  and all operands, with or without a value, the recursive equation of the source holds as it is written there.\<close>

theorem eval_returns:
  assumes "bsem \<sigma> b = Some c"
  shows "(\<exists>b'. eval_bool A b = Inr b' \<and> bsem \<sigma> b' = Some c \<and> bsize b' \<le> bsize b)
    \<and> (\<forall>k ps. eval_bool A (NaryBoolExpr k ps) = NaryBoolExpr_eval A k (map (eval_bool A) ps) (\<lambda>e. eval_bool A (NotExpr e)))"
  using eval_sound_both(2) [OF assms, of A] eval_size(2) [of A b] by auto

text \<open>Of two operands the constant is dropped and the other one stays.\<close>

definition eval_example :: pbool where
  "eval_example = NaryBoolExpr AndExpr [BoolConstExpr True, NotExpr (BinaryBoolComp BoolLt (VarExpr 5) (ConstTag 9))]"

theorem eval_returns_witness:
  "\<exists>b'. eval_bool insertion_order eval_example = Inr b' \<and> bsem ramp b' = Some True \<and> bsize b' \<le> 6"
proof -
  have "bsem ramp eval_example = Some True" by (simp add: eval_example_def sem_eval)
  moreover have "bsize eval_example = 6" by (simp add: eval_example_def)
  ultimately show ?thesis using eval_returns [of ramp eval_example True insertion_order] by simp
qed

section \<open>Environments\<close>

text \<open>C20 (functional): \<open>gc\<close> leaves exactly the global variables the expression uses in its environment,
  and does not change its value.\<close>

theorem gc_correct:
  assumes "wf_int (int (length env)) e" "env_ok env" "isem (env_val \<gamma> env) e = Some v"
  shows "ie_ok (mk_int (gc_int A e env)) \<and> denote \<gamma> (mk_int (gc_int A e env)) = Some v
    \<and> set (getEnv (mk_int (gc_int A e env))) = (\<lambda>x. env ! nat x) ` vars_int e"
  using mk_int_gc_sound [OF assms(1,2)] assms(3) by blast

theorem gc_correct_witness:
  "let e' = mk_int (gc_int insertion_order (BinaryIntExpr MinusExpr (VarExpr 2) (VarExpr 0)) [3, 5, 9])
   in ie_ok e' \<and> denote ramp e' = Some 6 \<and> set (getEnv e') = {3, 9}"
  using gc_correct [where env = "[3, 5, 9]" and e = "BinaryIntExpr MinusExpr (VarExpr 2) (VarExpr 0)"
      and \<gamma> = ramp and v = 6 and A = insertion_order]
  by (simp add: sem_eval MinusExpr_constEval_def insert_commute)

text \<open>\<open>supersets\<close> on two sorted environments. It answers true when the first contains
  the second, and also when the missing entries all come after the last entry of the first.\<close>

theorem supersets_characterised:
  assumes "env_ok a" "env_ok b"
  shows "supersets a b \<longleftrightarrow> (\<forall>x\<in>set b. x \<in> set a \<or> (\<forall>y\<in>set a. y < x))"
  by (rule supersets_iff [OF assms])

theorem supersets_characterised_witness:
  "supersets [1, 3] [3, 7] \<longleftrightarrow> (\<forall>x\<in>set [3, 7]. x \<in> set [1, 3] \<or> (\<forall>y\<in>set [1, 3]. y < (x::int)))"
  by (rule supersets_characterised) simp_all

section \<open>The factories\<close>

text \<open>\<open>IntExpressionFactory::createNary\<close> on operands that are no constants builds an
  expression over the union of their environments that denotes the sum or product.\<close>

theorem createNary_correct:
  assumes "\<forall>p\<in>set params. (\<exists>e env. p = IExpr e env) \<and> ie_ok p"
    and "map (denote \<gamma>) params = map Some vs" "nary_sem k vs = Some v"
  shows "\<exists>e. createNary A (nary_type k) params = Inr e \<and> ie_ok e \<and> denote \<gamma> e = Some v"
  using assms by (intro createNary_sound) auto

theorem createNary_correct_witness:
  "\<exists>e. createNary insertion_order MULT [IExpr (VarExpr 0) [6], IExpr (VarExpr 0) [2]] = Inr e \<and> ie_ok e
    \<and> denote ramp e = Some 12"
  using createNary_correct [where k = MultExpr and params = "[IExpr (VarExpr 0) [6], IExpr (VarExpr 0) [2]]"
      and \<gamma> = ramp and vs = "[6, 2]" and v = 12 and A = insertion_order]
  by (simp add: sem_eval)

text \<open>\<open>IntExpressionFactory::createBinary\<close>, for the nine binary operators.\<close>

theorem createBinary_correct:
  assumes "ie_ok l" "ie_ok r" "denote \<gamma> l = Some i" "denote \<gamma> r = Some j" "binary_sem k i j = Some v"
  shows "\<exists>e. createBinary A (binary_type k) l r = Inr e \<and> ie_ok e \<and> denote \<gamma> e = Some v"
  by (rule createBinary_sound(1) [OF assms])

theorem createBinary_correct_witness:
  "\<exists>e. createBinary insertion_order MOD (IExpr (VarExpr 0) [17]) (IConst 21) = Inr e \<and> ie_ok e
    \<and> denote ramp e = Some 2"
  using createBinary_correct [where k = ModExpr and l = "IExpr (VarExpr 0) [17]" and r = "IConst 21"
      and \<gamma> = ramp and i = 17 and j = 5 and v = 2 and A = insertion_order]
  by (simp add: sem_eval ModExpr_constEval_def c_mod_def c_div_def)

text \<open>\<open>BoolExpressionFactory::createComparison\<close>.\<close>

theorem createBComparison_correct:
  assumes "ie_ok l" "ie_ok r" "denote \<gamma> l = Some i" "denote \<gamma> r = Some j"
  shows "\<exists>b. createBComparison A (comp_type k) l r = Inr b \<and> be_ok b \<and> bdenote \<gamma> b = Some (comp_sem k i j)"
  by (rule createBComparison_sound [OF assms])

theorem createBComparison_correct_witness:
  "\<exists>b. createBComparison insertion_order LEQ (IExpr (VarExpr 0) [17]) (IConst 21) = Inr b \<and> be_ok b
    \<and> bdenote ramp b = Some False"
  using createBComparison_correct [where k = BoolLeq and l = "IExpr (VarExpr 0) [17]" and r = "IConst 21"
      and \<gamma> = ramp and i = 17 and j = 5 and A = insertion_order]
  by (simp add: sem_eval)

text \<open>\<open>BoolExpressionFactory::createNary\<close> denotes the conjunction or disjunction of its
  operands, nested operands of the same kind being flattened.\<close>

theorem createBoolNary_correct:
  assumes "\<forall>p\<in>set params. be_ok p \<and> bdenote \<gamma> p \<noteq> None"
  shows "\<exists>b. createBoolNary A (nbool_type k) params = Inr b \<and> be_ok b
    \<and> bdenote \<gamma> b = nbool_sem k (map (bdenote \<gamma>) params)"
  using assms by (intro createBoolNary_sound) auto

theorem createBoolNary_correct_witness:
  "\<exists>b. createBoolNary insertion_order OR [guard_example, createBConstant False] = Inr b \<and> be_ok b
    \<and> bdenote ramp b = Some True"
  using createBoolNary_correct [where k = OrExpr and params = "[guard_example, createBConstant False]"
      and \<gamma> = ramp and A = insertion_order]
  by (simp add: guard_example_ok createBConstant_def nbool_sem_def ex_bool_eq)

text \<open>C21 (bounds): a 32-bit integer survives being packed into a tagged pointer exactly when its absolute
  value is below 2^30.\<close>

theorem tagged_constant_range:
  assumes "int32 c"
  shows "getValueFromConcrete (setConcreteFromValue c) = c \<longleftrightarrow> \<bar>c\<bar> < 1073741824"
proof
  assume "getValueFromConcrete (setConcreteFromValue c) = c"
  moreover have "taggable (untag_const (tag_const c))"
    by (rule taggable_untag) (simp_all add: tag_const_def Let_def)
  ultimately show "\<bar>c\<bar> < 1073741824" by (simp add: concrete_tag taggable_def)
next
  assume "\<bar>c\<bar> < 1073741824"
  then show "getValueFromConcrete (setConcreteFromValue c) = c"
    by (simp add: concrete_tag untag_tag_small taggable_def)
qed

theorem tagged_constant_range_witness:
  "getValueFromConcrete (setConcreteFromValue 2147483647) \<noteq> 2147483647"
  using tagged_constant_range [of 2147483647] by (simp add: int32_def INT_MIN_def INT_MAX_def)

section \<open>Names\<close>

text \<open>The variable created for a name, or for the cell of an array at an index that a
  tagged constant can hold, has that name.\<close>

theorem getName_of_created:
  assumes "factory_ok s" "createVariable A n s = Inr (e, s')"
    and "CHR ''['' \<notin> set n \<or> (\<exists>a k. n = a @ ''['' @ show_int k @ '']'' \<and> CHR ''['' \<notin> set a \<and> 0 \<le> k \<and> taggable k)"
  shows "getName s' e = Inr n"
  using getName_entry createVariable_ok [OF assms(1,2)] assms(3) by (auto simp: label_ok_def)

lemma empty_factory_ok: "factory_ok empty_factory"
  by (simp add: factory_ok_def names_ok_def empty_factory_def)

lemma create_cell_example:
  "createVariable insertion_order ''tab[12]'' empty_factory = Inr (IExpr (ArrayConstExpr 0 12) [0],
     \<lparr>var_names = [(''tab'', 0)],
      var_expr = [(''tab[12]'', IExpr (ArrayConstExpr 0 12) [0]), (''tab'', IExpr (VarExpr 0) [0])]\<rparr>)"
  by code_simp

theorem getName_of_created_witness:
  "getName \<lparr>var_names = [(''tab'', 0)],
      var_expr = [(''tab[12]'', IExpr (ArrayConstExpr 0 12) [0]), (''tab'', IExpr (VarExpr 0) [0])]\<rparr>
     (IExpr (ArrayConstExpr 0 12) [0]) = Inr ''tab[12]''"
proof (rule getName_of_created [OF empty_factory_ok create_cell_example])
  have "''tab[12]'' = ''tab'' @ ''['' @ show_int 12 @ '']''" by code_simp
  then show "CHR ''['' \<notin> set ''tab[12]'' \<or> (\<exists>a k. ''tab[12]'' = a @ ''['' @ show_int k @ '']''
      \<and> CHR ''['' \<notin> set a \<and> 0 \<le> k \<and> taggable k)"
    by (intro disjI2 exI [of _ "''tab''"] exI [of _ 12]) (simp add: taggable_def)
qed

text \<open>Creating a variable keeps the tables of the factory consistent (names and indexes
  in bijection, every remembered expression the one its name stands for), and forgets no name.\<close>

theorem createVariable_invariant:
  assumes "factory_ok s" "createVariable A n s = Inr (e, s')"
  shows "factory_ok s' \<and> set (var_names s) \<subseteq> set (var_names s')"
  using createVariable_ok [OF assms] by blast

theorem createVariable_invariant_witness:
  "factory_ok \<lparr>var_names = [(''tab'', 0)],
     var_expr = [(''tab[12]'', IExpr (ArrayConstExpr 0 12) [0]), (''tab'', IExpr (VarExpr 0) [0])]\<rparr>
   \<and> set (var_names empty_factory) \<subseteq> set [(''tab'', 0)]"
  using createVariable_invariant [OF empty_factory_ok create_cell_example] by simp

section \<open>Observations on the code\<close>

text \<open>\<open>createNary\<close> flattens nested operands into a multiset it does not use.\<close>

lemma createNary_keeps_nesting:
  "int_createNary insertion_order PLUS [NaryIntExpr PlusExpr [VarExpr 0, VarExpr 1], VarExpr 2]
    = Inr (NaryIntExpr PlusExpr [NaryIntExpr PlusExpr [VarExpr 0, VarExpr 1], VarExpr 2])"
  by (simp add: int_createNary_def)

text \<open>A second index hides the first.\<close>

lemma second_index_wins:
  "createVariable insertion_order ''a[1][2]'' empty_factory
    = rbind (createVariable insertion_order ''a[1]'' empty_factory) (\<lambda>(e, s).
        Inr (IExpr (ArrayConstExpr 0 2) [0], remember ''a[1][2]'' (IExpr (ArrayConstExpr 0 2) [0]) s))"
  by code_simp

text \<open>The bit complement of a constant.\<close>

lemma complement_of_constant:
  "createUnary A BITCOMP (createIConstant 5) = Inl (Undefined ''dereference of a tagged constant'')"
  by (simp add: createUnary_def createIConstant_def)

text \<open>Division by zero yields the largest integer, which a tagged constant cannot hold.\<close>

lemma division_by_zero:
  "eval_int A (BinaryIntExpr DivExpr (createConstant 7) (createConstant 0)) = Inr (createConstant 2147483647)"
  "untag_const (tag_const 2147483647) = 1073741823"
  by (simp add: createConstant_def BinaryIntExpr_eval_def untag_tag_small taggable_def DivExpr_constEval_def
      INT_MAX_def INT_MIN_def) code_simp

end
