(* ===== verification/Gal_System_Wf.thy ===== *)
theory Gal_System_Wf imports Gal_System begin

text \<open>
  Well-formed GAL systems: expressions are well formed over their environments, variables and cells of
  arrays have initial values. Every system built by the operations of \<open>Gal_System\<close> is well formed.
\<close>

section \<open>Well-formed systems\<close>

fun stmt_wf :: "statement \<Rightarrow> bool" where
  "stmt_wf (Assignment v e) \<longleftrightarrow> ie_ok v \<and> ie_ok e"
| "stmt_wf (SyncAssignment as) \<longleftrightarrow> (\<forall>(v, e)\<in>set as. ie_ok v \<and> ie_ok e)"
| "stmt_wf (IncrAssignment v e) \<longleftrightarrow> ie_ok v \<and> ie_ok e"
| "stmt_wf (Sequence ss) \<longleftrightarrow> list_all stmt_wf ss"
| "stmt_wf (Ite b xs ys) \<longleftrightarrow> be_ok b \<and> list_all stmt_wf xs \<and> list_all stmt_wf ys"
| "stmt_wf (FixStatement ss) \<longleftrightarrow> list_all stmt_wf ss"
| "stmt_wf (Call l) \<longleftrightarrow> True"
| "stmt_wf AbortStatement \<longleftrightarrow> True"

definition action_wf :: "GuardedAction \<Rightarrow> bool" where
  "action_wf g \<longleftrightarrow> be_ok (ga_guard g) \<and> list_all stmt_wf (ga_actions g)"

definition valued :: "GALState \<Rightarrow> Variable list \<Rightarrow> bool" where
  "valued init vs \<longleftrightarrow> (\<forall>v\<in>set vs. vname v \<in> dom (map_of init))"

definition array_wf :: "GALState \<Rightarrow> ArrayDeclaration \<Rightarrow> bool" where
  "array_wf init ad \<longleftrightarrow> length (ad_vars ad) = ad_size ad \<and> valued init (ad_vars ad)"

definition gal_wf :: "GAL \<Rightarrow> bool" where
  "gal_wf g \<longleftrightarrow> list_all action_wf (gal_transitions g) \<and> be_ok (gal_transient g)
     \<and> valued (gal_init g) (gal_variables g) \<and> list_all (array_wf (gal_init g)) (gal_arrays g)"

section \<open>Construction\<close>

text \<open>The statements, actions and systems the constructors and setters build from well-formed expressions.\<close>

inductive stmt_built and stmts_built for A :: heap_order where
  assign_built: "ie_ok v \<Longrightarrow> ie_ok e \<Longrightarrow> Assignment_of A v e = Inr s \<Longrightarrow> stmt_built A s"
| incr_built: "ie_ok v \<Longrightarrow> ie_ok e \<Longrightarrow> IncrAssignment_of A v e = Inr s \<Longrightarrow> stmt_built A s"
| sync_built: "\<forall>(v, e)\<in>set as. ie_ok v \<and> ie_ok e \<Longrightarrow> stmt_built A (SyncAssignment as)"
| seq_built: "stmts_built A ss \<Longrightarrow> stmt_built A (Sequence ss)"
| ite_built: "be_ok b \<Longrightarrow> stmts_built A xs \<Longrightarrow> stmts_built A ys \<Longrightarrow> Ite_of A b xs ys = Inr s \<Longrightarrow> stmt_built A s"
| cond_built: "stmt_built A s \<Longrightarrow> be_ok b \<Longrightarrow> Ite_setCondition A b s = Inr s' \<Longrightarrow> stmt_built A s'"
| fix_built: "stmts_built A ss \<Longrightarrow> stmt_built A (FixStatement ss)"
| call_built: "stmt_built A (Call l)"
| abort_built: "stmt_built A AbortStatement"
| no_stmts: "stmts_built A []"
| add_built: "stmts_built A ss \<Longrightarrow> stmt_built A s \<Longrightarrow> stmts_built A (Sequence_add s ss)"
| prepend_built: "stmts_built A ss \<Longrightarrow> stmt_built A s \<Longrightarrow> stmts_built A (Sequence_prepend s ss)"

inductive action_built for A :: heap_order where
  new_action: "action_built A (GuardedAction_of name)"
| guard_built: "action_built A g \<Longrightarrow> be_ok b \<Longrightarrow> setGuard A b g = Inr g' \<Longrightarrow> action_built A g'"
| label_built: "action_built A g \<Longrightarrow> action_built A (setLabel l g)"
| body_built: "action_built A g \<Longrightarrow> stmt_built A s \<Longrightarrow> action_built A (g\<lparr>ga_actions := Sequence_add s (ga_actions g)\<rparr>)"

inductive gal_built for A :: heap_order where
  new_gal: "gal_built A (GAL_of name) f"
| var_built: "gal_built A g f \<Longrightarrow> gal_built A (GAL_addVariable v x g) f"
| array_built: "gal_built A g f \<Longrightarrow> GAL_addArray A name vals g f = Inr (g', f') \<Longrightarrow> gal_built A g' f'"
| trans_built: "gal_built A g f \<Longrightarrow> action_built A act \<Longrightarrow> gal_built A (GAL_addTransition act g) f"
| transient_built: "gal_built A g f \<Longrightarrow> be_ok b \<Longrightarrow> setTransientPredicate A b g = Inr g' \<Longrightarrow> gal_built A g' f"

section \<open>What is built is well formed\<close>

lemma Ite_setCondition_wf: "stmt_wf s \<Longrightarrow> be_ok b \<Longrightarrow> Ite_setCondition A b s = Inr s' \<Longrightarrow> stmt_wf s'"
  by (cases s) (auto simp: rbind_eq_Inr_iff dest: BoolExpression_eval_ok)

lemma stmt_built_wf: "stmt_built A s \<Longrightarrow> stmt_wf s" "stmts_built A ss \<Longrightarrow> list_all stmt_wf ss"
proof (induction rule: stmt_built_stmts_built.inducts)
  case (cond_built s b s')
  then show ?case by (blast intro: Ite_setCondition_wf)
qed (auto simp: Assignment_of_def IncrAssignment_of_def Ite_of_def Sequence_add_def Sequence_prepend_def rbind_eq_Inr_iff
    dest: IntExpression_eval_ok BoolExpression_eval_ok)

lemma action_built_wf: "action_built A g \<Longrightarrow> action_wf g"
  by (induction rule: action_built.induct)
     (auto simp: GuardedAction_of_def setGuard_def setLabel_def action_wf_def createBConstant_def Sequence_add_def rbind_eq_Inr_iff
       dest: BoolExpression_eval_ok stmt_built_wf)

lemma valued_setVarValue: "valued init vs \<Longrightarrow> valued (setVarValue n x init) vs"
  by (auto simp: valued_def setVarValue_def map_of_map_insert)

lemma valued_append [simp]: "valued init (vs @ ws) \<longleftrightarrow> valued init vs \<and> valued init ws"
  by (auto simp: valued_def)

lemma valued_fold:
  "valued init vs \<Longrightarrow> valued (fold (\<lambda>(v, x). setVarValue (vname v) x) ps init) vs"
  by (induction ps arbitrary: init) (auto intro: valued_setVarValue)

lemma valued_zip:
  "length vs = length xs \<Longrightarrow> valued (fold (\<lambda>(v, x). setVarValue (vname v) x) (zip vs xs) init) vs"
proof (induction vs xs arbitrary: init rule: list_induct2)
  case (Cons v vs x xs)
  have "valued (setVarValue (vname v) x init) [v]"
    by (auto simp: valued_def setVarValue_def map_of_map_insert)
  from valued_fold [OF this, of "zip vs xs"] Cons.IH [of "setVarValue (vname v) x init"] show ?case by (simp add: valued_def)
qed (simp add: valued_def)

lemma array_length:
  assumes "ArrayDeclaration_of A name n f = Inr (ad, f')"
  shows "length (ad_vars ad) = n" "ad_size ad = n"
proof -
  let ?step = "\<lambda>i (ad, f). rbind (cell_name A name (int i) (int n) f) (\<lambda>(v, f'). Inr (ad\<lparr>ad_vars := ad_vars ad @ [v]\<rparr>, f'))"
  have "length (ad_vars (fst t)) = length (ad_vars (fst s)) + length is \<and> ad_size (fst t) = ad_size (fst s)"
    if "rfold ?step is s = Inr t" for s t and "is" :: "nat list"
    using that
  proof (induction "is" arbitrary: s)
    case (Cons i "is")
    from Cons.prems obtain u where u: "?step i s = Inr u" "rfold ?step is u = Inr t" by (auto simp: rbind_eq_Inr_iff)
    from u(1) obtain v f' where "u = ((fst s)\<lparr>ad_vars := ad_vars (fst s) @ [v]\<rparr>, f')" by (cases s) (auto simp: rbind_eq_Inr_iff)
    with Cons.IH [OF u(2)] show ?case by simp
  qed simp
  from this [of "[0..<n]" _ "(ad, f')"] assms show "length (ad_vars ad) = n" "ad_size ad = n"
    by (simp_all add: ArrayDeclaration_of_def)
qed

lemma array_wf_fold: "array_wf init ad \<Longrightarrow> array_wf (fold (\<lambda>(v, x). setVarValue (vname v) x) ps init) ad"
  by (simp add: array_wf_def valued_fold)

lemma gal_built_wf: "gal_built A g f \<Longrightarrow> gal_wf g"
proof (induction rule: gal_built.induct)
  case (var_built g f v x)
  have "valued (setVarValue (vname v) x (gal_init g)) [v]" by (auto simp: valued_def setVarValue_def map_of_map_insert)
  with var_built.IH show ?case
    by (auto simp: gal_wf_def GAL_addVariable_def array_wf_def list_all_iff valued_setVarValue)
next
  case (array_built g f name vals g' f')
  from array_built.hyps(2) obtain ad where ad: "ArrayDeclaration_of A name (length vals) f = Inr (ad, f')"
    and g': "g' = g\<lparr>gal_arrays := gal_arrays g @ [ad],
      gal_init := fold (\<lambda>(v, x). setVarValue (vname v) x) (zip (ad_vars ad) vals) (gal_init g)\<rparr>"
    by (auto simp: GAL_addArray_def rbind_eq_Inr_iff)
  from array_length [OF ad] have "array_wf (gal_init g') ad" by (simp add: g' array_wf_def valued_zip)
  with array_built.IH show ?case by (auto simp: g' gal_wf_def list_all_iff valued_fold array_wf_fold)
qed (auto simp: gal_wf_def GAL_of_def valued_def createBConstant_def GAL_addTransition_def setTransientPredicate_def rbind_eq_Inr_iff
    action_built_wf dest: BoolExpression_eval_ok)

end
