(* ===== verification/Gal_Type_Props.thy ===== *)
theory Gal_Type_Props imports Gal_Diagram_Type Gal_Order Gal_Props Gal_System_Wf "HOL-Library.Countable" begin

text \<open>
  The properties of the symbolic operations on GAL expressions and systems, over every library that meets
  its contract, and their examples on the diagrams of \<open>Gal_Diagram\<close>.
\<close>

section \<open>The example\<close>

text \<open>An address order: the expressions are countable.\<close>

instance NaryIntClass :: countable
  by countable_datatype

instance UnaryIntClass :: countable
  by countable_datatype

instance BinaryIntClass :: countable
  by countable_datatype

instance NaryBoolClass :: countable
  by countable_datatype

instance BoolCompClass :: countable
  by countable_datatype

instance pint :: countable
  by countable_datatype

definition age_order :: heap_order where
  "age_order = \<lparr>iless = (\<lambda>x y. to_nat x < to_nat y), bless = (\<lambda>_ _. False)\<rparr>"

lemma age_order_linear: "linear_less (iless age_order)"
  by (auto simp: linear_less_def age_order_def) (metis linorder_neqE_nat to_nat_split)

text \<open>
  A system with an array \<open>t\<close> of two cells and a variable \<open>x\<close>. Its local transition fills a cell and calls
  the one that increments \<open>x\<close>; the states where \<open>x\<close> is one are transient.
\<close>

definition ex_cell :: IntExpression where
  "ex_cell = IExpr (ArrayVarExpr 0 (VarExpr 1) 2) [0, 1]"

definition ex_x :: IntExpression where
  "ex_x = IExpr (VarExpr 0) [1]"

definition ex_rest :: IntExpression where
  "ex_rest = IExpr (BinaryIntExpr MinusExpr (ConstTag 21) (VarExpr 0)) [1]"

definition ex_small :: BoolExpression where
  "ex_small = BExpr (BinaryBoolComp BoolLt (VarExpr 0) (ConstTag 9)) [1]"

definition ex_one :: BoolExpression where
  "ex_one = BExpr (BinaryBoolComp BoolEq (VarExpr 0) (ConstTag 5)) [1]"

definition ex_fill :: GuardedAction where
  "ex_fill = \<lparr>ga_name = ''fill'', ga_guard = ex_small, ga_actions = [Assignment ex_cell ex_rest, Call ''next''], ga_label = ''''\<rparr>"

definition ex_next :: GuardedAction where
  "ex_next = \<lparr>ga_name = ''next'', ga_guard = createBConstant True, ga_actions = [IncrAssignment ex_x (createIConstant 1)],
     ga_label = ''next''\<rparr>"

definition ex_gal :: GAL where
  "ex_gal = \<lparr>gal_name = ''ex'', gal_variables = [], gal_arrays = [], gal_transitions = [ex_fill, ex_next],
     gal_init = [(''t[0]'', 0), (''t[1]'', 0), (''x'', 0)], gal_transient = ex_one\<rparr>"

definition ex_order :: GalOrder where
  "ex_order = \<lparr>go_map = [IExpr (ArrayConstExpr 0 0) [0], IExpr (ArrayConstExpr 0 1) [0], ex_x], array_size = [(''t'', 1)]\<rparr>"

lemma ex_order_simps [simp]:
  "length (go_map ex_order) = 3" "locs ex_order = [Cell 0 0, Cell 0 1, Scalar 1]" "order_ok ex_order"
  by (auto simp: ex_order_def ex_x_def order_ok_def taggable_def)

lemmas ex_defs = ex_cell_def ex_x_def ex_rest_def ex_small_def ex_one_def

lemma agrees_3: "agrees ex_order 3 p \<gamma> \<longleftrightarrow> cell \<gamma> 0 0 = p ! 0 \<and> cell \<gamma> 0 1 = p ! 1 \<and> scalar \<gamma> 1 = p ! 2"
  by (auto simp: agrees_def numeral_eq_Suc less_Suc_eq simp del: nth_map)

lemma ex_one_const: "createIConstant 1 = IConst 5"
  by code_simp

lemma ex_good: "good age_order ex_cell" "good age_order ex_rest" "good age_order ex_x"
  by (simp_all add: good_def ex_defs taggable_def untag_const_def tag_const_def wrap32_def)

lemma ex_const_good: "good age_order (IConst 5)" "mentions (gx age_order (IConst 5)) = {}" "denote \<gamma> (IConst 5) = Some 1"
proof -
  have "getValueFromConcrete 5 = 1" by code_simp
  then show "good age_order (IConst 5)" "mentions (gx age_order (IConst 5)) = {}" "denote \<gamma> (IConst 5) = Some 1"
    using canon_createConstant [of 1 age_order] by (simp_all add: good_def gx_def mentions_def taggable_def concrete_tag chk_def)
qed

lemma ex_gx: "gx age_order ex_cell = ArrayVarExpr 0 (VarExpr 1) 2" "gx age_order ex_x = VarExpr 1"
  "gx age_order ex_rest = BinaryIntExpr MinusExpr (ConstTag 21) (VarExpr 1)"
  by (simp_all add: gx_def ex_defs)

lemma mentions_const [simp]: "mentions (ConstTag t) = {}"
  by (simp add: mentions_def)

lemma ex_upto: "upto ex_order 3 = {Cell 0 0, Cell 0 1, Scalar 1}"
  by (simp add: upto_def)

lemma ex_mentions:
  "mentions (gx age_order ex_cell) \<subseteq> upto ex_order 3" "mentions (gx age_order ex_rest) \<subseteq> upto ex_order 3"
  "mentions (gx age_order ex_x) \<subseteq> upto ex_order 3"
  by (auto simp: ex_gx ex_upto)

section \<open>Expressions\<close>

text \<open>C5 (functional): \<open>query\<close> on a diagram, for a canonical expression over its variables that has a value in
  each of its states, splits the diagram by this value: it answers diagrams which together have the same states,
  each with the value that the expression takes in its states. The fuel of the recursion need not exceed a bound
  in the size of the expression and the height of the diagram.\<close>

theorem query_correct:
  assumes "dd_nodes lib" "linear_less (iless A)" "order_ok vo" "askable lib A vo n e d" "0 < n \<or> \<not> is_const (gx A e)"
    and "query_fuel (isize (gx A e)) n (isize (gx A e)) \<le> fuel"
  shows "\<exists>m. query lib A vo fuel e d = Inr m \<and> answers lib A vo n e d m"
  by (rule dd_nodes.query_sound [OF assms(1-5) order_refl assms(6)])

lemma ex_diag: "dd_level diag_lib 3 (path_diag [a, b, c]) \<and> dd_paths diag_lib 3 (path_diag [a, b, c]) = {[a, b, c]}"
  if "taggable a" "taggable b" "taggable c"
  using that by (simp add: path_diag_def dnode_def numeral_3_eq_3 dd_paths.simps)

theorem query_correct_witness:
  "\<exists>m. query diag_lib age_order ex_order 30 ex_cell (path_diag [7, 8, 1]) = Inr m
     \<and> answers diag_lib age_order ex_order 3 ex_cell (path_diag [7, 8, 1]) m"
proof (rule query_correct [OF diag.dd_nodes_axioms age_order_linear ex_order_simps(3)])
  have "value_on ex_order 3 [7, 8, 1] ex_cell 8"
    by (auto simp: value_on_def agrees_3 ex_defs sem_eval cell_sem_def taggable_def)
  then show "askable diag_lib age_order ex_order 3 ex_cell (path_diag [7, 8, 1])"
    using ex_diag [of 7 8 1] ex_good(1) ex_mentions(1) by (auto simp: askable_def taggable_def)
  show "query_fuel (isize (gx age_order ex_cell)) 3 (isize (gx age_order ex_cell)) \<le> 30"
    by (simp add: query_fuel_def gx_def ex_defs)
qed simp

text \<open>C3 (refinement): over a library that behaves as documented, \<open>assignExpr\<close> and \<open>incrExpr\<close> write the value of
  the expression into the variable or the cell the left-hand side designates. Both expressions are canonical (as
  the simplifier leaves them, with no Boolean used as an integer) over variables of the diagram. The left-hand
  side is a variable, a cell, or an array access whose index does not mention the array that is written: for
  \<open>t[t[0]] := 7\<close> the code aborts, see \<open>own_index_aborts\<close>. And in every state of the diagram both the place and
  the value are defined, an index being within its array, and the new value fits into the diagram and into a
  tagged constant. Then the homomorphism is built, it maps the diagram to the one whose states are exactly those
  so written, and fuel that is linear in the height of the diagram and the sizes of the expressions is enough.\<close>

theorem assign_correct:
  assumes "dd_homs lib" "linear_less (iless A)" "order_ok vo" "assignable lib A vo inc n var e d"
    and "assign_fuel (unresolved A var e) n (unresolved A var e) \<le> fuel"
  shows "yields lib n (assignExpr lib A vo inc fuel var e) d (written lib A vo inc n var e (dd_paths lib n d))"
  by (rule dd_homs.assign_sound [OF assms(1-4) order_refl assms(5)])

lemma ex_state: "\<exists>\<gamma>. agrees ex_order 3 p \<gamma>"
  by (rule exI [of _ "\<lparr>scalar = (\<lambda>x. p ! 2), cell = (\<lambda>a i. p ! nat i)\<rparr>"]) (simp add: agrees_3)

lemma ex_value: "value_on ex_order 3 p ex_rest y \<longleftrightarrow> y = 5 - p ! 2" if "p ! 2 = 0 \<or> p ! 2 = 1"
  using that ex_state [of p]
  by (auto simp: value_on_def agrees_3 ex_rest_def sem_eval MinusExpr_constEval_def)

lemma ex_target: "target_on age_order ex_order 3 p ex_cell ([Cell 0 0, Cell 0 1, Scalar 1] ! j) \<longleftrightarrow> int j = p ! 2"
  if p: "p ! 2 = 0 \<or> p ! 2 = 1" and j: "j < 3"
proof -
  have "target \<gamma> (gx age_order ex_cell) = Some (Cell 0 (p ! 2))" if "agrees ex_order 3 p \<gamma>" for \<gamma>
    using p that by (auto simp: agrees_3 ex_gx chk_def taggable_def)
  with ex_state [of p] have "target_on age_order ex_order 3 p ex_cell ([Cell 0 0, Cell 0 1, Scalar 1] ! j) \<longleftrightarrow> [Cell 0 0, Cell 0 1, Scalar 1] ! j = Cell 0 (p ! 2)"
    by (auto simp: target_on_def)
  moreover have "j = 0 \<or> j = 1 \<or> j = 2" using j by linarith
  ultimately show ?thesis using p by auto
qed

lemma ex_fills:
  assumes "p ! 2 = 0 \<or> p ! 2 = 1"
  shows "writes diag_lib age_order ex_order False 3 ex_cell ex_rest p q \<longleftrightarrow> q = p[nat (p ! 2) := 5 - p ! 2]"
proof -
  have "writes diag_lib age_order ex_order False 3 ex_cell ex_rest p q \<longleftrightarrow> (\<exists>j<3. int j = p ! 2 \<and> q = p[j := 5 - p ! 2])"
    using assms by (auto simp: writes_def ex_value stores_def taggable_def ex_target cong: conj_cong)
  also have "\<dots> \<longleftrightarrow> q = p[nat (p ! 2) := 5 - p ! 2]"
    using assms by (auto simp: int_eq_iff)
  finally show ?thesis .
qed

lemma ex_lhs: "lhs_ok age_order ex_order 3 ex_cell" "lhs_ok age_order ex_order 3 ex_x"
  using ex_good ex_mentions by (auto simp: lhs_ok_def ex_gx free_of_def) (simp add: ex_x_def)

theorem assign_correct_witness:
  "yields diag_lib 3 (assignExpr diag_lib age_order ex_order False 60 ex_cell ex_rest) (path_diag [7, 8, 1]) {[7, 4, 1]}"
proof -
  have "assignable diag_lib age_order ex_order False 3 ex_cell ex_rest (path_diag [7, 8, 1])"
    using ex_diag [of 7 8 1] ex_good ex_mentions ex_lhs by (auto simp: assignable_def taggable_def ex_fills)
  moreover have "assign_fuel (unresolved age_order ex_cell ex_rest) 3 (unresolved age_order ex_cell ex_rest) \<le> 60"
    by (simp add: assign_fuel_def unresolved_def ex_gx)
  ultimately have "yields diag_lib 3 (assignExpr diag_lib age_order ex_order False 60 ex_cell ex_rest) (path_diag [7, 8, 1])
      (written diag_lib age_order ex_order False 3 ex_cell ex_rest (dd_paths diag_lib 3 (path_diag [7, 8, 1])))"
    by (rule assign_correct [OF diag.dd_homs_axioms age_order_linear ex_order_simps(3)])
  moreover have "dd_paths diag_lib 3 (path_diag [7, 8, 1]) = {[7, 8, 1]}" using ex_diag [of 7 8 1] by (simp add: taggable_def)
  ultimately show ?thesis by (simp add: written_def ex_fills)
qed

text \<open>C4 (refinement): \<open>predicate\<close> keeps exactly the states in which the Boolean expression is true: a
  combination of comparisons of canonical integer expressions over the variables of the diagram, by conjunction,
  disjunction and negation, that has a truth value in each state. Where the expression negates a comparison, it
  is the answer of \<open>_Predicate::negate\<close> that is applied.\<close>

theorem predicate_correct:
  assumes "dd_selectors lib" "linear_less (iless A)" "order_ok vo" "n \<le> length (go_map vo)"
    and "guard_ok A vo n B (bgetEnv b) (bgetExpr b)" "assign_fuel B n B \<le> fuel"
    and "\<forall>p\<in>Q. length p = n \<and> (\<exists>t. decided vo n p b t)"
  shows "\<exists>h. predicate lib A vo fuel b = Inr h \<and> keeps lib n h Q (\<lambda>p. decided vo n p b True)"
  using dd_selectors.predicate_sound [OF assms(1-6)] assms(7) by blast

lemma ex_guards: "guard_ok age_order ex_order 3 B (bgetEnv b) (bgetExpr b)"
  if "b \<in> {ex_small, ex_one, createBConstant True}" "B \<in> {19, 20}"
  using that ex_mentions(3)
  by (auto simp: ex_defs createBConstant_def comparison_def fits_def cmentions_def csize_def
      gx_def taggable_def untag_const_def tag_const_def wrap32_def)

lemma ex_decided:
  "decided ex_order 3 p ex_small t \<longleftrightarrow> t = (p ! 2 < 2)" "decided ex_order 3 p ex_one t \<longleftrightarrow> t = (p ! 2 = 1)"
  "decided ex_order 3 p (createBConstant True) t \<longleftrightarrow> t" if "p ! 2 \<in> {0, 1, 2}"
  using that ex_state [of p]
  by (auto simp: decided_def agrees_3 ex_small_def ex_one_def createBConstant_def sem_eval)

lemma ex_small_total: "p ! 2 \<in> {0, 1, 2} \<Longrightarrow> Ex (decided ex_order 3 p ex_small)"
  using ex_decided(1) by blast

theorem predicate_correct_witness:
  "\<exists>h. predicate diag_lib age_order ex_order 90 ex_small = Inr h
     \<and> keeps diag_lib 3 h {[7, 8, 1], [5, 5, 2]} (\<lambda>p. decided ex_order 3 p ex_small True)
     \<and> decided ex_order 3 [7, 8, 1] ex_small True \<and> \<not> decided ex_order 3 [5, 5, 2] ex_small True"
proof -
  have "assign_fuel 20 3 20 \<le> 90" by (simp add: assign_fuel_def)
  with predicate_correct [OF diag.dd_selectors_axioms age_order_linear ex_order_simps(3) _ ex_guards, of ex_small 20 90 "{[7, 8, 1], [5, 5, 2]}"]
  have "\<exists>h. predicate diag_lib age_order ex_order 90 ex_small = Inr h
      \<and> keeps diag_lib 3 h {[7, 8, 1], [5, 5, 2]} (\<lambda>p. decided ex_order 3 p ex_small True)"
    by (simp add: ex_small_total)
  then show ?thesis by (simp add: ex_decided)
qed

section \<open>Systems\<close>

text \<open>C1 (refinement): \<open>getSuccs\<close> of a GAL system without synchronous assignments, on which the code is wrong
  (see \<open>sync_order_wrong\<close>). Its statements are assignments, increments, sequences, conditionals, fixpoints,
  calls and aborts. Expressions are canonical (as the simplifier leaves them, with no Boolean used as an
  integer) over variables of the diagram; a left-hand side is a variable, a cell, or an array access whose index
  does not mention the array that is written (see \<open>own_index_aborts\<close>). Guards, once evaluated with their
  negations pushed down, and conditions are combinations of comparisons of canonical expressions. Each variable
  has one index, as \<open>getGalOrder\<close> gives it, the address order of expressions is linear, calls descend in rank to
  labels that exist, and the library behaves as documented. Then a depth above the ranks of the labels is enough
  to build the homomorphism of a sequence of labels that exist. It maps a set of states to the states the
  transitions with these labels lead to in turn, whenever the semantics \<open>fires\<close> defines them: it has no answer
  where a guard or a value is undefined, a value does not fit into the diagram, or a fixpoint is not reached.\<close>

theorem GALType_getSuccs_correct:
  assumes "dd_systems lib" "system_ok A C vo n B m" "calls_ok rank (gal_transitions (c_gal C))"
    and "0 < depth" "\<forall>l\<in>set tau. l \<in> ga_label ` set (gal_transitions (c_gal C)) \<and> rank l < depth"
  shows "\<exists>h. GALType_getSuccs lib localApply A m C depth tau = Inr (localApply h DEFAULT_VAR)
     \<and> (\<forall>S T. fires lib A vo n (gal_transitions (c_gal C)) tau S T \<longrightarrow> maps lib n h S T)"
proof -
  obtain h where h: "getSuccsHom lib A m C depth tau = Inr h"
    using dd_systems.labels_built [OF assms(1-4)] assms(5) by blast
  with dd_systems.labels_sound [OF assms(1,2) _ h] show ?thesis by (auto simp: GALType_getSuccs_def)
qed

text \<open>C2 (refinement): \<open>getLocals\<close> of a GAL system, under the conditions of \<open>getSuccs\<close>: no synchronous
  assignments, canonical expressions, left-hand sides whose index does not mention the array that is written,
  guards and conditions that are combinations of comparisons, calls that descend in rank to labels that exist, a
  linear address order, a library that behaves as documented. The transient predicate, and with stuttering the
  conjunction of the negated guards, are combinations of comparisons too once evaluated. The homomorphism is
  built, and maps a set of states to those its transitions without label lead to, states in which none is
  enabled pausing if stuttering is asked for, and goes on from the transient ones until the states do not
  change. This holds whenever the semantics \<open>local_step\<close> and \<open>settles\<close> define the states: guards and values are
  defined, values fit into the diagram, fixpoints are reached, and the iteration from the transient states
  stops.\<close>

theorem GALType_getLocals_correct:
  assumes "dd_systems lib" "system_ok A C vo n B m" "calls_ok rank (gal_transitions (c_gal C))" "local_ok A vo n B (c_gal C) stutter"
    and "rank '''' \<le> depth" "0 < depth"
  shows "\<exists>h. GALType_getLocals lib localApply A m C depth (Some stutter) = Inr (localApply h DEFAULT_VAR)
     \<and> (\<forall>S U T. local_step lib A vo n (gal_transitions (c_gal C)) stutter S U \<longrightarrow>
          settles (local_step lib A vo n (gal_transitions (c_gal C)) stutter) vo n (gal_transient (c_gal C)) U T \<longrightarrow> maps lib n h S T)"
proof -
  obtain h where h: "next_step lib A m C depth (Some stutter) = Inr h"
    using dd_systems.next_step_built [OF assms(1-6)] by blast
  with dd_systems.next_step_sound [OF assms(1,2,4) h] show ?thesis by (auto simp: GALType_getLocals_def)
qed

text \<open>C11 (refinement): \<open>getNamedLocals\<close> of a GAL system, under the conditions of \<open>getSuccs\<close>: no synchronous
  assignments, canonical expressions, left-hand sides whose index does not mention the array that is written,
  guards and conditions that are combinations of comparisons, calls that descend in rank to labels that exist, a
  linear address order, a library that behaves as documented. It appends to its argument one entry per
  transition without label, in the order of the system, under the name of the transition. The homomorphism of an
  entry makes the step of this transition alone from the states where its guard holds, whenever the semantics
  \<open>pick\<close> defines it (guards and values are defined and fit). Unlike \<open>getLocals\<close> it neither goes on from
  transient states nor pauses, see \<open>named_locals_ignore_transient\<close>.\<close>

theorem GALType_getNamedLocals_correct:
  assumes "dd_systems lib" "system_ok A C vo n B m" "calls_ok rank (gal_transitions (c_gal C))" "rank '''' \<le> depth" "0 < depth"
  shows "\<exists>hs. GALType_getNamedLocals lib localApply A m C depth ntrans
      = Inr (ntrans @ map2 (\<lambda>g h. (ga_name g, localApply h DEFAULT_VAR)) (filter (\<lambda>t. ga_label t = '''') (gal_transitions (c_gal C))) hs)
    \<and> list_all2 (\<lambda>g h. \<forall>S T. pick lib A vo n (gal_transitions (c_gal C)) [g] S T \<longrightarrow> maps lib n h S T)
        (filter (\<lambda>t. ga_label t = '''') (gal_transitions (c_gal C))) hs"
  by (rule dd_systems.named_built [OF assms, where localApply = localApply and ntrans = ntrans]) blast

section \<open>The order of the variables\<close>

text \<open>C6 (invariant): \<open>getGalOrder\<close> of a new type, over names the factory can represent, yields an order in which
  the variables have distinct places, and each has one index in the diagram.\<close>

theorem getGalOrder_correct:
  assumes "gt_go t = None" "vorder (gt_basics t) = None" "labels_ok (GALType_getVarSet heur t)" "factory_ok f"
    and "getGalOrder heur A t f = Inr (go, t', f')"
  shows "context_ok (gal_context_of heur A t f) go"
  by (rule context_of_ok [OF assms])

definition ex_heur :: heuristic where
  "ex_heur = (\<lambda>g s. [''t[0]'', ''t[1]'', ''x''])"

lemma ex_built: "case getGalOrder ex_heur A (GALType_of g) empty_factory of Inl e \<Rightarrow> False | Inr (go, t, f) \<Rightarrow> go = ex_order"
  by code_simp

lemma ex_labels_ok: "labels_ok [''t[0]'', ''t[1]'', ''x'']"
proof -
  have shown: "show_int 0 = ''0''" "show_int 1 = ''1''" by code_simp+
  have cell: "label_ok (''t['' @ show_int k @ '']'')" if "0 \<le> k" "taggable k" for k
    unfolding label_ok_def by (intro disjI2 exI [of _ "''t''"] exI [of _ k]) (simp add: that)
  have "label_ok ''t[0]''" "label_ok ''t[1]''" "label_ok ''x''"
    using cell [of 0] cell [of 1] by (simp_all add: shown taggable_def) (simp add: label_ok_def)
  then show ?thesis by (simp add: labels_ok_def)
qed

definition ex_context :: gal_context where
  "ex_context = gal_context_of ex_heur age_order (GALType_of ex_gal) empty_factory"

theorem getGalOrder_correct_witness: "context_ok ex_context ex_order"
proof -
  obtain t f where "getGalOrder ex_heur age_order (GALType_of ex_gal) empty_factory = Inr (ex_order, t, f)"
    using ex_built [of age_order ex_gal] by (cases "getGalOrder ex_heur age_order (GALType_of ex_gal) empty_factory") auto
  from getGalOrder_correct [OF _ _ _ empty_factory_ok this] show ?thesis
    using ex_labels_ok by (simp add: ex_context_def GALType_of_def TypeBasics_of_def GALType_getVarSet_def ex_heur_def)
qed

lemma ex_evals: "BoolExpression_eval A ex_small = Inr ex_small" "BoolExpression_eval A ex_one = Inr ex_one"
  "BoolExpression_eval A (createBConstant True) = Inr (createBConstant True)"
  "BoolExpression_pushNegations A ex_small = ex_small"
  "BoolExpression_pushNegations A (createBConstant True) = createBConstant True"
  by code_simp+

definition ex_busy :: BoolExpression where
  "ex_busy = BExpr (NotExpr (BinaryBoolComp BoolLt (VarExpr 0) (ConstTag 9))) [1]"

lemma ex_stutter: "createBoolNary A AND [createNot ex_small] = Inr ex_busy" "BoolExpression_eval A ex_busy = Inr ex_busy"
  by code_simp+

lemma ex_context_gal [simp]: "c_gal ex_context = ex_gal"
  by (simp add: ex_context_def gal_context_of_def GALType_of_def)

lemma ex_guards_ok: "guard_ok age_order ex_order 3 20 (bgetEnv ex_busy) (bgetExpr ex_busy)"
  using ex_guards [of ex_small 19] by (simp add: ex_busy_def ex_small_def)

lemma ex_incr_ok: "assign_ok age_order ex_order 3 20 ex_x (createIConstant 1)" "assign_ok age_order ex_order 3 20 ex_cell ex_rest"
  using ex_lhs ex_good ex_const_good ex_mentions
  by (auto simp: assign_ok_def ex_one_const unresolved_def ex_gx) (auto simp: gx_def ex_rest_def)

lemma ex_be_ok: "be_ok ex_small" "be_ok ex_one" "be_ok (createBConstant True)" "be_ok ex_busy"
  by (simp_all add: ex_defs ex_busy_def createBConstant_def)

lemma ex_system_ok: "system_ok age_order ex_context ex_order 3 20 90"
  using getGalOrder_correct_witness age_order_linear ex_guards ex_incr_ok ex_be_ok
  by (simp add: system_ok_def assign_fuel_def ex_gal_def ex_fill_def ex_next_def action_ok_def prepared_def ex_evals)

lemma createNot_parts: "bgetExpr (createNot b) = NotExpr (bgetExpr b)" "bgetEnv (createNot b) = bgetEnv b"
  by (simp_all add: createNot_def)

lemma ex_local_ok: "local_ok age_order ex_order 3 20 ex_gal True"
  using ex_guards ex_guards_ok ex_be_ok
  by (simp add: local_ok_def ex_gal_def ex_fill_def ex_next_def prepared_def createNot_parts ex_evals ex_stutter)

lemma ex_calls_ok: "calls_ok (\<lambda>l. if l = '''' then 1 else 0) (gal_transitions ex_gal)"
  by (simp add: calls_ok_def ex_gal_def ex_fill_def ex_next_def)

section \<open>The steps of the example\<close>

lemma ex_incs: "writes diag_lib age_order ex_order True 3 ex_x (createIConstant 1) p q \<longleftrightarrow> q = p[2 := p ! 2 + 1]" if "p ! 2 \<in> {0, 1}"
proof -
  have "target_on age_order ex_order 3 p ex_x ([Cell 0 0, Cell 0 1, Scalar 1] ! j) \<longleftrightarrow> [Cell 0 0, Cell 0 1, Scalar 1] ! j = Scalar 1" for j
    using ex_state [of p] by (auto simp: target_on_def ex_gx)
  moreover have "j < 3 \<Longrightarrow> [Cell 0 0, Cell 0 1, Scalar 1] ! j = Scalar 1 \<longleftrightarrow> j = 2" for j
    by (auto simp: numeral_eq_Suc less_Suc_eq)
  moreover have "value_on ex_order 3 p (createIConstant 1) x \<longleftrightarrow> x = 1" for x
    using ex_state [of p] ex_const_good(3) by (auto simp: value_on_def ex_one_const)
  ultimately show ?thesis using that
    by (auto simp: writes_def stores_def taggable_def wrap32_def cong: conj_cong)
qed

abbreviation ex_exec where
  "ex_exec \<equiv> exec diag_lib age_order ex_order 3 (gal_transitions ex_gal)"

abbreviation ex_execs where
  "ex_execs \<equiv> execs diag_lib age_order ex_order 3 (gal_transitions ex_gal)"

abbreviation ex_pick where
  "ex_pick \<equiv> pick diag_lib age_order ex_order 3 (gal_transitions ex_gal)"

lemma ex_exec_incr: "ex_exec (IncrAssignment ex_x (createIConstant 1)) S ((\<lambda>p. p[2 := p ! 2 + 1]) ` S)" if "\<forall>p\<in>S. p ! 2 \<in> {0, 1}"
proof -
  have "written diag_lib age_order ex_order True 3 ex_x (createIConstant 1) S = (\<lambda>p. p[2 := p ! 2 + 1]) ` S"
    using that by (auto simp: written_def ex_incs)
  with exec_incr [of S diag_lib age_order ex_order 3 ex_x "createIConstant 1" "gal_transitions ex_gal"] that ex_incs
  show ?thesis by (metis (no_types, lifting))
qed

lemma ex_exec_fill: "ex_exec (Assignment ex_cell ex_rest) S ((\<lambda>p. p[nat (p ! 2) := 5 - p ! 2]) ` S)" if "\<forall>p\<in>S. p ! 2 \<in> {0, 1}"
proof -
  have "written diag_lib age_order ex_order False 3 ex_cell ex_rest S = (\<lambda>p. p[nat (p ! 2) := 5 - p ! 2]) ` S"
    using that by (auto simp: written_def ex_fills)
  with exec_assign [of S diag_lib age_order ex_order 3 ex_cell ex_rest "gal_transitions ex_gal"] that ex_fills
  show ?thesis by (metis (no_types, lifting) insertE singletonD)
qed

lemma ex_pick_next: "ex_pick [ex_next] S ((\<lambda>p. p[2 := p ! 2 + 1]) ` S)" if "\<forall>p\<in>S. p ! 2 \<in> {0, 1}"
proof -
  have guard: "decided ex_order 3 p (ga_guard ex_next) t \<longleftrightarrow> t" if "p \<in> S" for p t
    using ex_decided(3) [of p] \<open>\<forall>p\<in>S. p ! 2 \<in> {0, 1}\<close> that by (auto simp: ex_next_def)
  have "{p \<in> S. decided ex_order 3 p (ga_guard ex_next) True} = S" using guard by blast
  with execs_cons [OF ex_exec_incr [OF that] execs_nil] have "ex_execs (ga_actions ex_next)
      {p \<in> S. decided ex_order 3 p (ga_guard ex_next) True} ((\<lambda>p. p[2 := p ! 2 + 1]) ` S)" by (simp add: ex_next_def)
  from pick_cons [OF _ this pick_nil] guard show ?thesis by auto
qed

text \<open>One step: the cell \<open>t[x]\<close> is filled and \<open>x\<close> incremented where \<open>x\<close> is small, the other states pause.\<close>

definition ex_move :: "int list \<Rightarrow> int list" where
  "ex_move p = (p[nat (p ! 2) := 5 - p ! 2])[2 := p ! 2 + 1]"

lemma ex_transitions:
  "filter (\<lambda>t. ga_label t = '''') (gal_transitions ex_gal) = [ex_fill]"
  "filter (\<lambda>t. ga_label t = ''next'') (gal_transitions ex_gal) = [ex_next]"
  by (simp_all add: ex_gal_def ex_fill_def ex_next_def)

lemma ex_fill_guard: "decided ex_order 3 p (ga_guard ex_fill) t \<longleftrightarrow> t = (p ! 2 < 2)" if "p ! 2 \<in> {0, 1, 2}"
  using ex_decided(1) [OF that] by (simp only: ex_fill_def GuardedAction.simps)

lemma ex_pick_fill: "ex_pick [ex_fill] S (ex_move ` {p \<in> S. p ! 2 < 2})" if S: "\<forall>p\<in>S. p ! 2 \<in> {0, 1, 2}"
proof -
  let ?S = "{p \<in> S. p ! 2 < 2}"
  let ?U = "(\<lambda>p. p[nat (p ! 2) := 5 - p ! 2]) ` ?S"
  note guard = ex_fill_guard [OF bspec [OF S]]
  then have sets: "{p \<in> S. decided ex_order 3 p (ga_guard ex_fill) True} = ?S" by (simp cong: conj_cong)
  have small: "p ! 2 \<in> {0, 1}" if "p \<in> ?S" for p
  proof -
    from that S have "p ! 2 \<in> {0, 1, 2}" "p ! 2 < 2" by blast+
    then show ?thesis by auto
  qed
  have u: "p[nat (p ! 2) := 5 - p ! 2] ! 2 = p ! 2" if "p \<in> ?S" for p
  proof -
    from small [OF that] have "nat (p ! 2) \<noteq> 2" by auto
    then show ?thesis by (rule nth_list_update_neq)
  qed
  have "\<forall>p\<in>?U. p ! 2 \<in> {0, 1}"
  proof
    fix q assume "q \<in> ?U"
    then obtain p where "p \<in> ?S" "q = p[nat (p ! 2) := 5 - p ! 2]" by blast
    with u [of p] small [of p] show "q ! 2 \<in> {0, 1}" by (simp only:)
  qed
  from exec_call [of diag_lib age_order ex_order 3 "gal_transitions ex_gal" "''next''", unfolded ex_transitions, OF ex_pick_next [OF this]]
  have call: "ex_exec (Call ''next'') ?U ((\<lambda>p. p[2 := p ! 2 + 1]) ` ?U)" .
  have "(\<lambda>p. p[2 := p ! 2 + 1]) ` ?U = ex_move ` ?S"
    unfolding image_image by (rule image_cong) (simp_all only: ex_move_def u)
  with call have call: "ex_exec (Call ''next'') ?U (ex_move ` ?S)" by simp
  have "ex_exec (Assignment ex_cell ex_rest) ?S ?U" by (rule ex_exec_fill) (use small in blast)
  from execs_cons [OF this execs_cons [OF call execs_nil]]
  have run: "ex_execs (ga_actions ex_fill) {p \<in> S. decided ex_order 3 p (ga_guard ex_fill) True} (ex_move ` ?S)"
    unfolding sets by (simp only: ex_fill_def GuardedAction.simps)
  have "\<forall>p\<in>S. \<exists>t. decided ex_order 3 p (ga_guard ex_fill) t" using guard by blast
  from pick_cons [OF this run pick_nil] show ?thesis by simp
qed

lemma ex_step: "local_step diag_lib age_order ex_order 3 (gal_transitions ex_gal) True S
    (ex_move ` {p \<in> S. p ! 2 < 2} \<union> {p \<in> S. \<not> p ! 2 < 2})" if S: "\<forall>p\<in>S. p ! 2 \<in> {0, 1, 2}"
proof -
  note guard = ex_fill_guard [OF bspec [OF S]]
  have "{p \<in> S. \<forall>g\<in>set [ex_fill]. \<not> decided ex_order 3 p (ga_guard g) True} = {p \<in> S. \<not> p ! 2 < 2}"
    by (simp add: guard cong: conj_cong)
  moreover have "\<exists>t. decided ex_order 3 p (ga_guard ex_fill) t" if "p \<in> S" for p using guard [OF that] by blast
  ultimately show ?thesis using ex_pick_fill [OF S] by (auto simp: local_step_def ex_transitions)
qed

text \<open>From \<open>[0, 0, 0]\<close>: the state after one transition is transient, and the second one ends.\<close>

lemma ex_two_steps:
  "local_step diag_lib age_order ex_order 3 (gal_transitions ex_gal) True {[0, 0, 0]} {[5, 0, 1]}"
  "settles (local_step diag_lib age_order ex_order 3 (gal_transitions ex_gal) True) ex_order 3 (gal_transient ex_gal) {[5, 0, 1]} {[5, 4, 2]}"
proof -
  let ?step = "local_step diag_lib age_order ex_order 3 (gal_transitions ex_gal) True"
  show "?step {[0, 0, 0]} {[5, 0, 1]}" using ex_step [of "{[0, 0, 0]}"] by (simp add: ex_move_def cong: conj_cong)
  have second: "?step {[5, 0, 1]} {[5, 4, 2]}" using ex_step [of "{[5, 0, 1]}"] by (simp add: ex_move_def cong: conj_cong)
  have none: "?step {} {}" using ex_step [of "{}"] by simp
  have transient: "decided ex_order 3 p (gal_transient ex_gal) t \<longleftrightarrow> t = (p ! 2 = 1)" if "p ! 2 \<in> {0, 1, 2}" for p t
    using ex_decided(2) [OF that] by (simp add: ex_gal_def)
  have "{p \<in> {[5, 4, 2]}. decided ex_order 3 p (gal_transient ex_gal) True} = {}" 
    "{p \<in> {[5, 4, 2]}. \<not> decided ex_order 3 p (gal_transient ex_gal) True} = {[5, 4, 2]}"
    "{p \<in> {[5, 0, 1]}. decided ex_order 3 p (gal_transient ex_gal) True} = {[5, 0, 1]}"
    "{p \<in> {[5, 0, 1]}. \<not> decided ex_order 3 p (gal_transient ex_gal) True} = {}"
    using transient by auto
  note parts = this
  have total: "\<forall>p\<in>{[5, 4, 2]}. \<exists>t. decided ex_order 3 p (gal_transient ex_gal) t"
    "\<forall>p\<in>{[5, 0, 1]}. \<exists>t. decided ex_order 3 p (gal_transient ex_gal) t" using transient by auto
  have "settles ?step ex_order 3 (gal_transient ex_gal) {[5, 4, 2]} {[5, 4, 2]}"
    by (rule settles_stop [OF total(1), where U = "{}"]) (simp_all only: parts none Un_empty_left)
  then show "settles ?step ex_order 3 (gal_transient ex_gal) {[5, 0, 1]} {[5, 4, 2]}"
    by (intro settles_step [OF total(2), where U = "{[5, 4, 2]}", OF _ refl]) (simp_all only: parts second Un_empty_right, simp)
qed

lemma ex_one_step: "ex_pick [ex_fill] {[0, 0, 0]} {[5, 0, 1]}"
  using ex_pick_fill [of "{[0, 0, 0]}"] by (simp add: ex_move_def cong: conj_cong)

lemma ex_fill_name: "ga_name ex_fill = ''fill''"
  by (simp add: ex_fill_def)

theorem GALType_getSuccs_correct_witness:
  "\<exists>h. GALType_getSuccs diag_lib Pair age_order 90 ex_context 1 [''next''] = Inr (h, DEFAULT_VAR)
     \<and> maps diag_lib 3 h {[5, 0, 0], [7, 8, 1]} {[5, 0, 1], [7, 8, 2]}"
proof -
  have "fires diag_lib age_order ex_order 3 (gal_transitions ex_gal) [''next''] {[5, 0, 0], [7, 8, 1]} {[5, 0, 1], [7, 8, 2]}"
    using fires_cons [OF _ fires_nil, of diag_lib age_order ex_order 3 "gal_transitions ex_gal" "''next''"]
      ex_pick_next [of "{[5, 0, 0], [7, 8, 1]}"]
    by (simp add: ex_gal_def ex_fill_def ex_next_def)
  with GALType_getSuccs_correct [OF diag.dd_systems_axioms ex_system_ok, of "\<lambda>l. if l = '''' then 1 else 0" 1 "[''next'']" Pair]
  show ?thesis using ex_calls_ok by (auto simp: ex_gal_def ex_fill_def ex_next_def)
qed

theorem GALType_getLocals_correct_witness:
  "\<exists>h. GALType_getLocals diag_lib Pair age_order 90 ex_context 1 (Some True) = Inr (h, DEFAULT_VAR)
     \<and> maps diag_lib 3 h {[0, 0, 0]} {[5, 4, 2]}"
proof -
  have "\<exists>h. GALType_getLocals diag_lib Pair age_order 90 ex_context 1 (Some True) = Inr (Pair h DEFAULT_VAR)
    \<and> (\<forall>S U T. local_step diag_lib age_order ex_order 3 (gal_transitions (c_gal ex_context)) True S U \<longrightarrow>
          settles (local_step diag_lib age_order ex_order 3 (gal_transitions (c_gal ex_context)) True) ex_order 3
            (gal_transient (c_gal ex_context)) U T \<longrightarrow> maps diag_lib 3 h S T)"
    by (rule GALType_getLocals_correct [OF diag.dd_systems_axioms ex_system_ok, where rank = "\<lambda>l. if l = '''' then 1 else 0"])
       (simp_all add: ex_calls_ok ex_local_ok)
  with ex_two_steps show ?thesis unfolding ex_context_gal by blast
qed

theorem GALType_getNamedLocals_correct_witness:
  "\<exists>h. GALType_getNamedLocals diag_lib Pair age_order 90 ex_context 1 [] = Inr [(''fill'', h, DEFAULT_VAR)]
     \<and> maps diag_lib 3 h {[0, 0, 0]} {[5, 0, 1]}"
proof -
  have "\<exists>hs. GALType_getNamedLocals diag_lib Pair age_order 90 ex_context 1 []
      = Inr ([] @ map2 (\<lambda>g h. (ga_name g, Pair h DEFAULT_VAR)) (filter (\<lambda>t. ga_label t = '''') (gal_transitions (c_gal ex_context))) hs)
    \<and> list_all2 (\<lambda>g h. \<forall>S T. pick diag_lib age_order ex_order 3 (gal_transitions (c_gal ex_context)) [g] S T \<longrightarrow> maps diag_lib 3 h S T)
        (filter (\<lambda>t. ga_label t = '''') (gal_transitions (c_gal ex_context))) hs"
    by (rule GALType_getNamedLocals_correct [OF diag.dd_systems_axioms ex_system_ok, where rank = "\<lambda>l. if l = '''' then 1 else 0"])
       (simp_all add: ex_calls_ok)
  with ex_one_step show ?thesis by (auto simp: ex_transitions list_all2_Cons1 ex_fill_name)
qed

section \<open>Construction of systems\<close>

text \<open>C7 (type): the operations that build a GAL system keep it well formed: every expression of a guard,
  statement or transient predicate is well formed over its environment, every array has its declared
  number of cells, and every variable and cell has an initial value.\<close>

theorem gal_construction_typed:
  assumes "gal_built A g f"
  shows "gal_wf g"
  by (rule gal_built_wf [OF assms])

definition ex_start :: GAL where
  "ex_start = GAL_addVariable \<lparr>vname = ''x'', aname = ''x'', vindex = - 1\<rparr> 0 (GAL_of ''g'')"

lemma ex_array: "case GAL_addArray A ''t'' [4, 7] ex_start empty_factory of Inl e \<Rightarrow> False
    | Inr (g, f) \<Rightarrow> gal_init g = [(''x'', 0), (''t[0]'', 4), (''t[1]'', 7)] \<and> map (length \<circ> ad_vars) (gal_arrays g) = [2]"
  by code_simp

theorem gal_construction_typed_witness:
  "case GAL_addArray insertion_order ''t'' [4, 7] ex_start empty_factory of Inl e \<Rightarrow> False
     | Inr (g, f) \<Rightarrow> gal_wf g \<and> map_of (gal_init g) ''t[1]'' = Some 7"
proof -
  have start: "gal_built insertion_order ex_start empty_factory"
    unfolding ex_start_def by (rule var_built [OF new_gal])
  show ?thesis
  proof (cases "GAL_addArray insertion_order ''t'' [4, 7] ex_start empty_factory")
    case (Inl e)
    with ex_array [of insertion_order] show ?thesis by simp
  next
    case (Inr r)
    then obtain g f where r: "r = (g, f)" by (cases r)
    from gal_construction_typed [OF array_built [OF start Inr [unfolded r]]] ex_array [of insertion_order] show ?thesis
      by (simp add: Inr r)
  qed
qed

section \<open>Observations on the code\<close>

text \<open>
  In \<open>{y := x; z := 1; x := 5}\<close> the assignment of \<open>x\<close> must come after that of \<open>y\<close>, which reads it. Its component is
  inserted before the first component it is not related to, that of \<open>z\<close>, and so before that of \<open>y\<close>.
\<close>

definition sync_example :: assignments where
  "sync_example = [(IExpr (VarExpr 0) [1], IExpr (VarExpr 0) [0]), (IExpr (VarExpr 0) [2], IConst 5), (IExpr (VarExpr 0) [0], IConst 21)]"

lemma sync_reads: "notbefore (sync_example ! i) (sync_example ! j) = Inr (i = 2 \<and> j = 0)" if "i < 3" "j < 3" "i \<noteq> j"
proof -
  from that have "i \<in> {0, 1, 2}" "j \<in> {0, 1, 2}" by auto
  with that(3) show ?thesis
    by (elim insertE emptyE) (simp_all, code_simp+)
qed

lemma sync_order_wrong:
  "notbefore (sync_example ! 2) (sync_example ! 0) = Inr True"
  "rbind (sync_matrix sync_example) (\<lambda>m. Inr (map fst (sync_blobs sync_example (sync_closure 3 m)))) = Inr [2, 1, 0]"
proof -
  show "notbefore (sync_example ! 2) (sync_example ! 0) = Inr True" using sync_reads [of 2 0] by simp
  let ?m = "[[True, False, False], [False, True, False], [True, False, True]]"
  have len: "length sync_example = 3" and upt: "[0..<3] = [0, 1, 2::nat]" by (simp_all add: sync_example_def upt_rec)
  have "sync_matrix sync_example = Inr ?m"
    using sync_reads [of 0 1] sync_reads [of 0 2] sync_reads [of 1 0] sync_reads [of 1 2] sync_reads [of 2 0] sync_reads [of 2 1]
    by (simp add: sync_matrix_def len upt del: rmap_eq_Inr_iff)
  moreover have "sync_closure 3 ?m = ?m" by (simp add: sync_closure_def upt closure_entry_def)
  moreover have "map fst (sync_blobs sync_example ?m) = [2, 1, 0]"
    by (simp add: sync_blobs_def len upt blob_step_def scc_step_def insert_blob_def numeral_eq_Suc upt_rec)
  ultimately show "rbind (sync_matrix sync_example) (\<lambda>m. Inr (map fst (sync_blobs sync_example (sync_closure 3 m)))) = Inr [2, 1, 0]"
    by simp
qed

text \<open>
  An assignment \<open>t[t[0]] := 7\<close>, whose index reads the array it writes: where \<open>t[0]\<close> is zero the left-hand side
  becomes a constant, on which the constructor aborts.
\<close>

definition own_index :: IntExpression where
  "own_index = IExpr (ArrayVarExpr 0 (ArrayConstExpr 0 0) 2) [0]"

lemma own_index_aborts:
  "rbind (assignExpr diag_lib insertion_order ex_order False 60 own_index (createIConstant 7)) (\<lambda>h. hom_app diag_lib h (path_diag [0, 0, 0]))
    = Inl (Abort ''assert(var.getType() == VAR || var.getType() == ARRAY || var.getType() == CONSTARRAY)'')"
  by code_simp

text \<open>
  The named transition of the example stops in a transient state, where the transition relation of the same
  system goes on: the union of the named transitions is not the relation.
\<close>

lemma named_locals_ignore_transient:
  "\<exists>h k. GALType_getNamedLocals diag_lib Pair age_order 90 ex_context 1 [] = Inr [(''fill'', h, DEFAULT_VAR)]
     \<and> GALType_getLocals diag_lib Pair age_order 90 ex_context 1 (Some True) = Inr (k, DEFAULT_VAR)
     \<and> maps diag_lib 3 h {[0, 0, 0]} {[5, 0, 1]} \<and> maps diag_lib 3 k {[0, 0, 0]} {[5, 4, 2]}"
proof -
  let ?rank = "\<lambda>l :: string. if l = '''' then 1 else 0 :: nat"
  have calls: "calls_ok ?rank (gal_transitions (c_gal ex_context))" and rank: "?rank '''' \<le> 1" "0 < (1 :: nat)"
    by (simp_all add: ex_calls_ok)
  obtain hs where hs: "GALType_getNamedLocals diag_lib Pair age_order 90 ex_context 1 []
      = Inr ([] @ map2 (\<lambda>g h. (ga_name g, Pair h DEFAULT_VAR)) [ex_fill] hs)"
    "list_all2 (\<lambda>g h. \<forall>S T. ex_pick [g] S T \<longrightarrow> maps diag_lib 3 h S T) [ex_fill] hs"
    by (rule diag.named_built [OF ex_system_ok calls rank, where localApply = Pair and ntrans = "[]", unfolded ex_context_gal ex_transitions])
  moreover obtain k where "next_step diag_lib age_order 90 ex_context 1 (Some True) = Inr k"
    using diag.next_step_built [OF ex_system_ok calls _ rank] ex_local_ok by auto
  moreover from diag.next_step_sound [OF ex_system_ok _ this] ex_two_steps ex_local_ok
  have "maps diag_lib 3 k {[0, 0, 0]} {[5, 4, 2]}" by simp
  ultimately show ?thesis using ex_one_step by (auto simp: list_all2_Cons1 ex_fill_name GALType_getLocals_def)
qed

text \<open>The labels of a system, that of its local transitions included, as many times as they occur.\<close>

lemma local_label_is_public: "'''' \<in> set (GALType_getTransLabels ex_gal)"
  by code_simp

text \<open>\<open>setVarValue\<close> keeps the first value of a variable.\<close>

lemma first_initial_value_kept: "getVarValue (setVarValue n y (setVarValue n x [])) n = x"
  by (simp add: getVarValue_def setVarValue_def map_insert_def)

text \<open>Without a call of \<open>setStutterOnDeadlock\<close> the test of \<open>getLocals\<close> reads an uninitialised member.\<close>

lemma stutter_not_initialised:
  "\<exists>e. GALType_getLocals lib localApply A n C depth (gt_stutter (GALType_of g)) = Inl e"
proof -
  have "\<exists>e. local_sum lib A n C depth None = Inl e"
    by (cases "rmap (buildHom_action lib A n C (getSuccsHom lib A n C depth)) (filter (\<lambda>t. ga_label t = '''') (gal_transitions (c_gal C)))")
       (auto simp: local_sum_def Let_def)
  then show ?thesis by (auto simp: GALType_getLocals_def next_step_def GALType_of_def)
qed

end
