(* ===== verification/Predicates.thy ===== *)
theory Predicates imports Var_Order Hom_Interface begin

text \<open>
  State predicates given as strings (\<open>its/TypeBasics.cpp\<close>): atomic comparisons of a variable with an
  integer, and their Boolean combinations. \<open>getPredicate\<close> works in place on the character array and
  cuts it with \<open>'\0'\<close>; no cut part is read again, so the model takes strings apart.
\<close>

section \<open>Atomic predicates\<close>

record AtomicPredicate =
  ap_var :: int
  ap_comp :: hom_fun
  ap_val :: int

definition is_comp_char :: "char \<Rightarrow> bool" where
  "is_comp_char c \<longleftrightarrow> c \<in> {CHR ''!'', CHR ''>'', CHR ''='', CHR ''<''}"

text \<open>The scanner: \<open>mode\<close> and the three strings.\<close>

fun scan_atomic :: "string \<Rightarrow> nat \<Rightarrow> string \<Rightarrow> string \<Rightarrow> string \<Rightarrow> string \<times> string \<times> string" where
  "scan_atomic [] mode var cmp val = (var, cmp, val)"
| "scan_atomic (c # cs) mode var cmp val =
     (if c = CHR '' '' then scan_atomic cs mode var cmp val
      else if mode = 0 then
        (if is_comp_char c then scan_atomic cs 1 var (cmp @ [c]) val
         else scan_atomic cs 0 (var @ [c]) cmp val)
      else if mode = 1 then
        (if is_comp_char c then scan_atomic cs 2 var (cmp @ [c]) val
         else scan_atomic cs 2 var cmp (val @ [c]))
      else scan_atomic cs mode var cmp (val @ [c]))"

definition comparison :: "string \<Rightarrow> hom_fun res" where
  "comparison cmp =
     (if cmp = ''='' then Inr varEqState
      else if cmp = ''!='' then Inr varNeqState
      else if cmp = ''>'' then Inr varGtState
      else if cmp = ''<'' then Inr varLtState
      else if cmp = ''<='' then Inr varLeqState
      else if cmp = ''>='' then Inr varGeqState
      else Inl (Abort ''exit(2)''))"

text \<open>
  \<open>sscanf\<close> answers 0 when the text does not start with a number, but \<open>EOF\<close> when there is no text:
  the test for 0 lets that through, with the initial value.
\<close>

definition scan_value :: "string \<Rightarrow> int res" where
  "scan_value val =
     (if dropWhile is_space val = [] then Inr 0
      else case scan_int val of
             None \<Rightarrow> Inl (Abort ''exit(2)'')
           | Some i \<Rightarrow> if int32 i then Inr i else Inl (Undefined ''sscanf overflow''))"

definition parseAtomicPredicate :: "varorder \<Rightarrow> string \<Rightarrow> AtomicPredicate res" where
  "parseAtomicPredicate vo predicate =
     (let (var, cmp, val) = scan_atomic predicate 0 '''' '''' '''';
          index = getIndex vo var
      in if index = - 1 then Inl (Abort ''exit(2)'')
         else rbind (comparison cmp) (\<lambda>foo.
                rbind (scan_value val) (\<lambda>value.
                  Inr \<lparr>ap_var = index, ap_comp = foo, ap_val = value\<rparr>)))"

section \<open>Boolean combinations\<close>

text \<open>\<open>strstr\<close>: the position of the first occurrence.\<close>

fun strstr :: "string \<Rightarrow> string \<Rightarrow> nat option" where
  "strstr [] pat = (if pat = [] then Some 0 else None)"
| "strstr (c # cs) pat =
     (if take (length pat) (c # cs) = pat then Some 0 else map_option Suc (strstr cs pat))"

text \<open>The scan for the closing parenthesis, \<open>opened\<close> of them being open.\<close>

fun closing_paren :: "string \<Rightarrow> nat \<Rightarrow> nat option" where
  "closing_paren [] opened = None"
| "closing_paren (c # cs) opened =
     (if c = CHR ''('' then map_option Suc (closing_paren cs (opened + 1))
      else if c = CHR '')'' then
        (if opened - 1 = 0 then Some 0 else map_option Suc (closing_paren cs (opened - 1)))
      else map_option Suc (closing_paren cs opened))"

lemma strstr_le: "strstr s pat = Some i \<Longrightarrow> i + length pat \<le> length s"
proof (induction s pat arbitrary: i rule: strstr.induct)
  case (2 c cs pat)
  show ?case
  proof (cases "take (length pat) (c # cs) = pat")
    case True
    then have "length (take (length pat) (c # cs)) = length pat" by simp
    then have "length pat \<le> length (c # cs)" by simp
    with True 2 show ?thesis by simp
  next
    case False
    with 2 show ?thesis by auto
  qed
qed (auto split: if_splits)

lemma closing_paren_less: "closing_paren s n = Some i \<Longrightarrow> i < length s"
  by (induction s n arbitrary: i rule: closing_paren.induct) (auto split: if_splits)

lemma strstr_pair:
  "Some x = strstr pred [a, b] \<Longrightarrow> x < length pred \<and> length pred - Suc (Suc x) < length pred"
  using strstr_le [of pred "[a, b]" x] by auto

lemma take_one_length: "take (Suc 0) pred = [c] \<Longrightarrow> length pred - Suc 0 < length pred"
  by (cases pred) auto

text \<open>\<open>atomic\<close> is the virtual call \<open>getAPredicate\<close> of the concrete type.\<close>

function getPredicate :: "'h hom_ops \<Rightarrow> (string \<Rightarrow> 'h res) \<Rightarrow> string \<Rightarrow> 'h res" where
  "getPredicate H atomic pred =
     (if pred = ''true'' then Inr (Hid H)
      else if pred = ''false'' then Inr (Hnull H)
      else if take 1 pred = ''!'' then
        (if take 1 (drop 1 pred) = ''('' then rbind (getPredicate H atomic (drop 1 pred)) (\<lambda>h. Inr (Hnot H h))
         else Inl (Abort ''exit(1)''))
      else if take 1 pred = ''('' then
        (case closing_paren (drop 1 pred) 1 of
           None \<Rightarrow> Inl (Abort ''exit(1)'')
         | Some n \<Rightarrow>
             (let inner = take n (drop 1 pred); rest = drop (n + 2) pred
              in rbind (getPredicate H atomic inner) (\<lambda>nested.
                   if rest = [] then Inr nested
                   else if take 2 rest = ''&&'' then
                     rbind (getPredicate H atomic (drop 2 rest)) (\<lambda>h. Inr (Hcomp H nested h))
                   else if take 2 rest = ''||'' then
                     rbind (getPredicate H atomic (drop 2 rest)) (\<lambda>h. Inr (Hor H nested h))
                   else Inl (Abort ''exit(1)''))))
      else
        (case (strstr pred ''&&'', strstr pred ''||'') of
           (None, None) \<Rightarrow> atomic pred
         | (Some a, None) \<Rightarrow>
             rbind (getPredicate H atomic (take a pred)) (\<lambda>left.
               rbind (getPredicate H atomic (drop (a + 2) pred)) (\<lambda>h. Inr (Hcomp H left h)))
         | (None, Some b) \<Rightarrow>
             rbind (getPredicate H atomic (take b pred)) (\<lambda>left.
               rbind (getPredicate H atomic (drop (b + 2) pred)) (\<lambda>h. Inr (Hor H left h)))
         | (Some a, Some b) \<Rightarrow>
             if a < b then
               rbind (getPredicate H atomic (take a pred)) (\<lambda>left.
                 rbind (getPredicate H atomic (drop (a + 2) pred)) (\<lambda>h. Inr (Hcomp H left h)))
             else
               rbind (getPredicate H atomic (take b pred)) (\<lambda>left.
                 rbind (getPredicate H atomic (drop (b + 2) pred)) (\<lambda>h. Inr (Hor H left h)))))"
  by pat_completeness auto
termination
  by (relation "measure (\<lambda>(H, atomic, pred). length pred)")
     (auto dest!: strstr_pair take_one_length dest: closing_paren_less)

declare getPredicate.simps [simp del]

text \<open>\<open>PNetTType::getAPredicate\<close>\<close>

definition getAPredicate ::
  "(hom_fun \<Rightarrow> int \<Rightarrow> int \<Rightarrow> 'h) \<Rightarrow> varorder \<Rightarrow> string \<Rightarrow> 'h res" where
  "getAPredicate getHom vo predicate =
     rbind (parseAtomicPredicate vo predicate) (\<lambda>p. Inr (getHom (ap_comp p) (ap_var p) (ap_val p)))"

section \<open>Written formulas\<close>

text \<open>Formulas and the way to write them that the parser reads back: parentheses around every operand.\<close>

datatype formula =
  Atom string hom_fun int
| FNot formula
| FAnd formula formula
| FOr formula formula

fun op_text :: "hom_fun \<Rightarrow> string" where
  "op_text varEqState = ''=''"
| "op_text varNeqState = ''!=''"
| "op_text varGtState = ''>''"
| "op_text varLtState = ''<''"
| "op_text varLeqState = ''<=''"
| "op_text varGeqState = ''>=''"
| "op_text f = ''''"

fun written :: "formula \<Rightarrow> string" where
  "written (Atom v f k) = v @ op_text f @ show_int k"
| "written (FNot x) = ''!('' @ written x @ '')''"
| "written (FAnd x y) = ''('' @ written x @ '')&&('' @ written y @ '')''"
| "written (FOr x y) = ''('' @ written x @ '')||('' @ written y @ '')''"

definition plain_name :: "string \<Rightarrow> bool" where
  "plain_name v \<longleftrightarrow> v \<noteq> [] \<and> (\<forall>c\<in>set v. \<not> is_comp_char c
     \<and> c \<notin> {CHR '' '', CHR ''('', CHR '')'', CHR ''&'', CHR ''|''})"

fun formula_ok :: "varorder \<Rightarrow> formula \<Rightarrow> bool" where
  "formula_ok vo (Atom v f k) \<longleftrightarrow> plain_name v \<and> v \<in> fst ` set vo \<and> int32 k \<and> f \<notin> {postPlace, setVarConst}"
| "formula_ok vo (FNot x) \<longleftrightarrow> formula_ok vo x"
| "formula_ok vo (FAnd x y) \<longleftrightarrow> formula_ok vo x \<and> formula_ok vo y"
| "formula_ok vo (FOr x y) \<longleftrightarrow> formula_ok vo x \<and> formula_ok vo y"

fun meaning :: "varorder \<Rightarrow> formula \<Rightarrow> (int \<Rightarrow> int) \<Rightarrow> bool" where
  "meaning vo (Atom v f k) m \<longleftrightarrow> hom_test f (m (getIndex vo v)) k"
| "meaning vo (FNot x) m \<longleftrightarrow> \<not> meaning vo x m"
| "meaning vo (FAnd x y) m \<longleftrightarrow> meaning vo x m \<and> meaning vo y m"
| "meaning vo (FOr x y) m \<longleftrightarrow> meaning vo x m \<or> meaning vo y m"

text \<open>The homomorphism a formula stands for.\<close>

fun hom_of :: "'h hom_ops \<Rightarrow> (hom_fun \<Rightarrow> int \<Rightarrow> int \<Rightarrow> 'h) \<Rightarrow> varorder \<Rightarrow> formula \<Rightarrow> 'h" where
  "hom_of H getHom vo (Atom v f k) = getHom f (getIndex vo v) k"
| "hom_of H getHom vo (FNot x) = Hnot H (hom_of H getHom vo x)"
| "hom_of H getHom vo (FAnd x y) = Hcomp H (hom_of H getHom vo x) (hom_of H getHom vo y)"
| "hom_of H getHom vo (FOr x y) = Hor H (hom_of H getHom vo x) (hom_of H getHom vo y)"

subsection \<open>Atoms\<close>

lemma scan_atomic_var:
  "\<forall>c\<in>set v. \<not> is_comp_char c \<and> c \<noteq> CHR '' '' \<Longrightarrow> scan_atomic (v @ cs) 0 a b d = scan_atomic cs 0 (a @ v) b d"
  by (induction v arbitrary: a) auto

lemma scan_atomic_val:
  "CHR '' '' \<notin> set w \<Longrightarrow> scan_atomic w 2 a b d = (a, b, d @ w)"
  by (induction w arbitrary: d) auto

definition is_digit :: "char \<Rightarrow> bool" where
  "is_digit c \<longleftrightarrow> digit_val c \<noteq> None"

lemma digit_char: "n < 10 \<Longrightarrow> is_digit (char_of (48 + n))" for n :: nat
  by (simp add: is_digit_def digit_val_char_of)

lemma digit_not_special:
  assumes "is_digit c"
  shows "\<not> is_space c" "\<not> is_comp_char c" "c \<notin> {CHR '' '', CHR ''('', CHR '')'', CHR ''&'', CHR ''|'', CHR ''!''}"
  using assms by (auto simp: is_digit_def is_space_def is_comp_char_def digit_val_def)

lemma show_nat_chars: "c \<in> set (show_nat n) \<Longrightarrow> is_digit c"
proof (induction n rule: show_nat.induct)
  case (1 n)
  then show ?case using digit_char by (cases "n < 10") (auto simp: show_nat.simps [of n])
qed

lemma show_int_chars: "c \<in> set (show_int k) \<Longrightarrow> c = CHR ''-'' \<or> is_digit c"
  by (auto simp: show_int_def show_nat_chars split: if_splits)

lemma show_int_head: "\<exists>c cs. show_int k = c # cs \<and> (c = CHR ''-'' \<or> is_digit c)"
proof -
  have "show_nat n \<noteq> []" for n using show_nat_Cons [of n] by auto
  then have "show_int k \<noteq> []" by (simp add: show_int_def)
  then obtain c cs where "show_int k = c # cs" by (cases "show_int k") auto
  with show_int_chars [of c k] show ?thesis by simp
qed

lemma scan_value_show_int: "int32 k \<Longrightarrow> scan_value (show_int k) = Inr k"
proof -
  assume k: "int32 k"
  obtain c cs where c: "show_int k = c # cs" "c = CHR ''-'' \<or> is_digit c" using show_int_head by blast
  then have "\<not> is_space c" using digit_not_special by (auto simp: is_space_def)
  with c have "dropWhile is_space (show_int k) \<noteq> []" by (simp del: dropWhile_eq_Nil_conv)
  moreover have "scan_int (show_int k) = Some k" using scan_int_show_int [of "[]" k] by simp
  ultimately show ?thesis using k by (simp add: scan_value_def del: dropWhile_eq_Nil_conv)
qed

lemma parse_atom:
  assumes "plain_name v" "vo_ok vo" "v \<in> fst ` set vo" "int32 k" "f \<notin> {postPlace, setVarConst}"
  shows "parseAtomicPredicate vo (v @ op_text f @ show_int k)
    = Inr \<lparr>ap_var = getIndex vo v, ap_comp = f, ap_val = k\<rparr>"
proof -
  have var: "\<forall>c\<in>set v. \<not> is_comp_char c \<and> c \<noteq> CHR '' ''" using assms(1) by (simp add: plain_name_def)
  have nospace: "CHR '' '' \<notin> set (show_int k)" using digit_not_special(3) by (auto dest: show_int_chars)
  obtain c cs where c: "show_int k = c # cs" "c = CHR ''-'' \<or> is_digit c" using show_int_head by blast
  then have cc: "\<not> is_comp_char c" "c \<noteq> CHR '' ''" using digit_not_special by (auto simp: is_comp_char_def)
  have "scan_atomic (op_text f @ show_int k) 0 v '''' '''' = (v, op_text f, show_int k)"
    using assms(5) c cc nospace scan_atomic_val [of "show_int k"] scan_atomic_val [of cs]
    by (cases f) (auto simp: is_comp_char_def)
  then have "scan_atomic (v @ op_text f @ show_int k) 0 '''' '''' '''' = (v, op_text f, show_int k)"
    using scan_atomic_var [OF var] by simp
  moreover have "comparison (op_text f) = Inr f" using assms(5) by (cases f) (simp_all add: comparison_def)
  moreover have "getIndex vo v \<noteq> - 1" using getIndex_None [OF assms(2)] assms(3) by simp
  ultimately show ?thesis by (simp add: parseAtomicPredicate_def scan_value_show_int assms(4))
qed

subsection \<open>Parentheses\<close>

definition neutral :: "string \<Rightarrow> bool" where
  "neutral s \<longleftrightarrow> (\<forall>t n. closing_paren (s @ t) (Suc n) = map_option ((+) (length s)) (closing_paren t (Suc n)))"

lemma neutral_plain: "CHR ''('' \<notin> set s \<Longrightarrow> CHR '')'' \<notin> set s \<Longrightarrow> neutral s"
  unfolding neutral_def
proof (induction s)
  case (Cons c s)
  then show ?case by (auto simp: option.map_comp o_def)
qed (simp add: option.map_ident_strong)

lemma neutral_append: "neutral a \<Longrightarrow> neutral b \<Longrightarrow> neutral (a @ b)"
  by (auto simp: neutral_def option.map_comp o_def add.assoc intro!: option.map_cong)

lemma neutral_paren: "neutral s \<Longrightarrow> neutral (''('' @ s @ '')'')"
  by (auto simp: neutral_def option.map_comp o_def intro!: option.map_cong)

lemma closing_neutral: "neutral s \<Longrightarrow> closing_paren (s @ CHR '')'' # rest) 1 = Some (length s)"
  by (simp add: neutral_def)

lemma getPredicate_paren:
  assumes "neutral s"
  shows "getPredicate H atomic (CHR ''('' # s @ CHR '')'' # rest) =
    rbind (getPredicate H atomic s) (\<lambda>nested.
      if rest = [] then Inr nested
      else if take 2 rest = ''&&'' then
        rbind (getPredicate H atomic (drop 2 rest)) (\<lambda>h. Inr (Hcomp H nested h))
      else if take 2 rest = ''||'' then
        rbind (getPredicate H atomic (drop 2 rest)) (\<lambda>h. Inr (Hor H nested h))
      else Inl (Abort ''exit(1)''))"
  using closing_neutral [OF assms, of rest] by (subst getPredicate.simps) simp

lemma getPredicate_not:
  "getPredicate H atomic (CHR ''!'' # CHR ''('' # s)
    = rbind (getPredicate H atomic (CHR ''('' # s)) (\<lambda>h. Inr (Hnot H h))"
  by (subst getPredicate.simps) simp

lemma strstr_absent: "CHR ''&'' \<notin> set s \<Longrightarrow> strstr s ''&&'' = None" "CHR ''|'' \<notin> set s \<Longrightarrow> strstr s ''||'' = None"
  by (induction s) (auto simp: take_Cons')

lemma getPredicate_atomic:
  assumes "s \<noteq> ''true''" "s \<noteq> ''false''" "take 1 s \<noteq> ''!''" "set s \<inter> {CHR ''('', CHR ''&'', CHR ''|''} = {}"
  shows "getPredicate H atomic s = atomic s"
proof -
  have "take 1 s \<noteq> ''(''" using assms(4) by (cases s) auto
  with assms strstr_absent [of s] show ?thesis by (subst getPredicate.simps) auto
qed

lemma atom_text:
  fixes k :: int
  assumes "plain_name v" "f \<notin> {postPlace, setVarConst}"
  defines "s \<equiv> v @ op_text f @ show_int k"
  shows "s \<noteq> ''true''" "s \<noteq> ''false''" "take 1 s \<noteq> ''!''"
    and "set s \<inter> {CHR ''('', CHR '')'', CHR ''&'', CHR ''|''} = {}"
proof -
  obtain c where c: "c \<in> set (op_text f)" "is_comp_char c"
    using assms(2) by (cases f) (auto simp: is_comp_char_def)
  then have "c \<in> set s" by (simp add: s_def)
  with c(2) show "s \<noteq> ''true''" "s \<noteq> ''false''" by (auto simp: is_comp_char_def)
  obtain d ds where "v = d # ds" "\<not> is_comp_char d"
    using assms(1) by (cases v) (auto simp: plain_name_def)
  then show "take 1 s \<noteq> ''!''" by (auto simp: s_def is_comp_char_def)
  have "set (op_text f) \<inter> {CHR ''('', CHR '')'', CHR ''&'', CHR ''|''} = {}" by (cases f) auto
  moreover have "set (show_int k) \<inter> {CHR ''('', CHR '')'', CHR ''&'', CHR ''|''} = {}"
    using digit_not_special(3) by (auto dest!: show_int_chars)
  moreover have "set v \<inter> {CHR ''('', CHR '')'', CHR ''&'', CHR ''|''} = {}"
    using assms(1) by (auto simp: plain_name_def)
  ultimately show "set s \<inter> {CHR ''('', CHR '')'', CHR ''&'', CHR ''|''} = {}" by (auto simp: s_def)
qed

lemma neutral_written: "formula_ok vo x \<Longrightarrow> neutral (written x)"
proof (induction x)
  case (Atom v f k)
  with atom_text(4) [of v f k] show ?case by (intro neutral_plain) auto
next
  case (FNot x)
  then have "neutral (''!'' @ ''('' @ written x @ '')'')"
    by (intro neutral_append neutral_paren neutral_plain [of "''!''"]) auto
  then show ?case by simp
next
  case (FAnd x y)
  then have "neutral ((''('' @ written x @ '')'') @ ''&&'' @ (''('' @ written y @ '')''))"
    by (intro neutral_append neutral_paren neutral_plain [of "''&&''"]) auto
  then show ?case by simp
next
  case (FOr x y)
  then have "neutral ((''('' @ written x @ '')'') @ ''||'' @ (''('' @ written y @ '')''))"
    by (intro neutral_append neutral_paren neutral_plain [of "''||''"]) auto
  then show ?case by simp
qed

text \<open>A written formula is parsed to the homomorphism it stands for.\<close>

lemma getPredicate_written:
  "formula_ok vo x \<Longrightarrow> vo_ok vo
    \<Longrightarrow> getPredicate H (getAPredicate getHom vo) (written x) = Inr (hom_of H getHom vo x)"
proof (induction x)
  case (Atom v f k)
  then have "getPredicate H (getAPredicate getHom vo) (written (Atom v f k))
      = getAPredicate getHom vo (v @ op_text f @ show_int k)"
    using atom_text [of v f k] by (subst getPredicate_atomic) auto
  also have "\<dots> = Inr (getHom f (getIndex vo v) k)" using Atom by (simp add: getAPredicate_def parse_atom)
  finally show ?case by simp
next
  case (FNot x)
  then show ?case
    using getPredicate_paren [OF neutral_written, of vo x H "getAPredicate getHom vo" "[]"]
    by (simp add: getPredicate_not)
next
  case (FAnd x y)
  then show ?case
    using getPredicate_paren [OF neutral_written, of vo x H "getAPredicate getHom vo" "''&&('' @ written y @ '')''"]
      getPredicate_paren [OF neutral_written, of vo y H "getAPredicate getHom vo" "[]"]
    by simp
next
  case (FOr x y)
  then show ?case
    using getPredicate_paren [OF neutral_written, of vo x H "getAPredicate getHom vo" "''||('' @ written y @ '')''"]
      getPredicate_paren [OF neutral_written, of vo y H "getAPredicate getHom vo" "[]"]
    by simp
qed

text \<open>The homomorphisms on the labelled variable \<open>DEFAULT_VAR\<close> of the DDD encoding.\<close>

definition ddd_encapsulated ::
  "(hom_fun \<Rightarrow> int \<Rightarrow> int \<Rightarrow> 'g) \<Rightarrow> ('g \<Rightarrow> int \<Rightarrow> 's) \<Rightarrow> hom_fun \<Rightarrow> int \<Rightarrow> int \<Rightarrow> 's" where
  "ddd_encapsulated gprim localApply foo var val = ddd_encapsulate localApply (ddd_getHom gprim foo var val)"

sublocale ddd_library \<subseteq> enc: petri_hom sops sapp "ddd_encapsulated gprim localApply"
    "\<lambda>s. s DEFAULT_VAR" "\<lambda>s v k. s(DEFAULT_VAR := (s DEFAULT_VAR)(v := k))"
proof
  show "sapp (ddd_encapsulated gprim localApply foo v k) S =
      (\<lambda>s. s(DEFAULT_VAR := (s DEFAULT_VAR)(v := hom_value foo (s DEFAULT_VAR v) k))) `
        {s \<in> S. hom_test foo (s DEFAULT_VAR v) k}" for foo v k S
    by (auto simp: ddd_encapsulated_def ddd_encapsulate_def ddd_getHom_def sapp_local gapp_prim)
qed auto

text \<open>It selects the states where the formula holds.\<close>

context petri_hom begin

lemma tests_hom_of:
  "formula_ok vo x \<Longrightarrow> tests (hom_of ops getHom vo x) (\<lambda>s. meaning vo x (rd s))"
proof (induction x)
  case (FAnd x y)
  then have "tests (Hcomp ops (hom_of ops getHom vo x) (hom_of ops getHom vo y))
      (\<lambda>s. meaning vo y (rd s) \<and> meaning vo x (rd s))"
    by (intro tests_comp) auto
  then show ?case by (simp add: conj_commute)
qed (auto intro: tests_getHom tests_not tests_or)

end

end
