(* ===== verification/Petri_Sound.thy ===== *)
theory Petri_Sound imports Petri_Semantics Predicates begin

text \<open>
  The token game of ordinary nets, and the clocks of time Petri nets: what firing and the passing of
  time do to the values of the variables, urgency, and the invariant of clock values.
\<close>

section \<open>Ordinary transitions\<close>

text \<open>The tokens the arcs of a kind move on a variable.\<close>

definition arc_tokens :: "varorder \<Rightarrow> Arc \<Rightarrow> int \<Rightarrow> int" where
  "arc_tokens pi a i = sum_list (map (\<lambda>av. if getIndex pi (av_place av) = i then av_val av else 0) (arc_places a))"

fun tokens :: "ArcType \<Rightarrow> varorder \<Rightarrow> Arc list \<Rightarrow> int \<Rightarrow> int" where
  "tokens k pi [] i = 0"
| "tokens k pi (a # as) i = (if arc_type a = k then arc_tokens pi a i else 0) + tokens k pi as i"

text \<open>No hyperarc, no reset, positive valuations on output arcs and none negative on input arcs.\<close>

definition ordinary_arc :: "Arc \<Rightarrow> bool" where
  "ordinary_arc a \<longleftrightarrow> (\<exists>av. arc_places a = [av] \<and> (arc_type a = INPUT \<longrightarrow> 0 \<le> av_val av)
     \<and> (arc_type a = OUTPUT \<longrightarrow> 0 < av_val av)) \<and> arc_type a \<noteq> RESET"

definition ordinary :: "PTransition \<Rightarrow> bool" where
  "ordinary t \<longleftrightarrow> (\<forall>a\<in>set (t_arcs t). ordinary_arc a)
     \<and> distinct (map (\<lambda>a. av_place (hd (arc_places a))) (filter (\<lambda>a. arc_type a = INPUT) (t_arcs t)))"

lemma tokens_nonneg: "\<forall>a\<in>set as. ordinary_arc a \<Longrightarrow> k \<in> {INPUT, OUTPUT} \<Longrightarrow> 0 \<le> tokens k pi as i"
  by (induction as) (auto simp: ordinary_arc_def arc_tokens_def)

text \<open>Arcs that find enough tokens move them, whatever their order.\<close>

lemma arcs_effects_ordinary:
  assumes "\<forall>a\<in>set as. ordinary_arc a" "\<forall>i. tokens INPUT pi as i \<le> m i"
  shows "arcs_effects (\<lambda>d. d) (\<lambda>d v k. d(v := k)) pi as m
    = {\<lambda>i. m i - tokens INPUT pi as i + tokens OUTPUT pi as i}"
  using assms
proof (induction as arbitrary: m)
  case (Cons a as)
  from Cons.prems(1) obtain av where a: "arc_places a = [av]" "arc_type a = INPUT \<longrightarrow> 0 \<le> av_val av"
    "arc_type a = OUTPUT \<longrightarrow> 0 < av_val av" "arc_type a \<noteq> RESET"
    by (auto simp: ordinary_arc_def)
  define j where "j = getIndex pi (av_place av)"
  have tok: "arc_tokens pi a i = (if j = i then av_val av else 0)" for i
    by (simp add: arc_tokens_def a(1) j_def)
  have rest: "\<forall>a\<in>set as. ordinary_arc a" using Cons.prems(1) by simp
  have nonneg: "0 \<le> tokens INPUT pi as i" for i using tokens_nonneg [OF rest] by simp
  have enough: "(if arc_type a = INPUT then arc_tokens pi a i else 0) + tokens INPUT pi as i \<le> m i" for i
    using Cons.prems(2) by simp
  show ?case
  proof (cases "arc_type a")
    case INPUT
    have "\<forall>i. tokens INPUT pi as i \<le> (m(j := m j - av_val av)) i"
    proof
      fix i show "tokens INPUT pi as i \<le> (m(j := m j - av_val av)) i"
        using enough [of i] INPUT by (cases "i = j") (simp_all add: tok)
    qed
    note IH = Cons.IH [OF rest this]
    have "arc_effects (\<lambda>d. d) (\<lambda>d v k. d(v := k)) pi a m = {m(j := m j - av_val av)}"
      using INPUT a(1) by (auto simp: arc_effects_def j_def)
    then show ?thesis by (simp only: arcs_effects.simps IH UN_insert UN_empty Un_empty_right)
        (auto simp: INPUT tok fun_eq_iff)
  next
    case OUTPUT
    have "\<forall>i. tokens INPUT pi as i \<le> (m(j := m j + av_val av)) i"
    proof
      fix i show "tokens INPUT pi as i \<le> (m(j := m j + av_val av)) i"
        using enough [of i] OUTPUT a(3) by (cases "i = j") simp_all
    qed
    note IH = Cons.IH [OF rest this]
    have "0 < m j + av_val av"
      using enough [of j] nonneg [of j] OUTPUT a(3) by simp
    then have "arc_effects (\<lambda>d. d) (\<lambda>d v k. d(v := k)) pi a m = {m(j := m j + av_val av)}"
      using OUTPUT a(1) by (auto simp: arc_effects_def j_def)
    then show ?thesis by (simp only: arcs_effects.simps IH UN_insert UN_empty Un_empty_right)
        (auto simp: OUTPUT tok fun_eq_iff)
  next
    case INHIBITOR
    with Cons.IH [OF rest, of m] Cons.prems(2) show ?thesis by (simp add: arc_effects_def)
  next
    case TEST
    with Cons.IH [OF rest, of m] Cons.prems(2) show ?thesis by (simp add: arc_effects_def)
  next
    case RESET
    with a show ?thesis by simp
  qed
qed simp

lemma tokens_le_enabled:
  assumes "\<forall>a\<in>set as. ordinary_arc a" "\<forall>a\<in>set as. arc_enabled pi a m" "\<forall>i. 0 \<le> m i"
    and "distinct (map (\<lambda>a. getIndex pi (av_place (hd (arc_places a)))) (filter (\<lambda>a. arc_type a = INPUT) as))"
  shows "tokens INPUT pi as i \<le> m i"
proof -
  have zero: "\<forall>a\<in>set as. ordinary_arc a
      \<Longrightarrow> \<forall>a\<in>set as. arc_type a = INPUT \<longrightarrow> getIndex pi (av_place (hd (arc_places a))) \<noteq> i
      \<Longrightarrow> tokens INPUT pi as i = 0" for as
    by (induction as) (auto simp: arc_tokens_def ordinary_arc_def)
  show ?thesis
    using assms
  proof (induction as)
    case (Cons a as)
    from Cons.prems(1) obtain av where av: "arc_places a = [av]" by (auto simp: ordinary_arc_def)
    show ?case
    proof (cases "arc_type a = INPUT \<and> getIndex pi (av_place av) = i")
      case True
      with Cons.prems(4) av
      have "\<forall>a\<in>set as. arc_type a = INPUT \<longrightarrow> getIndex pi (av_place (hd (arc_places a))) \<noteq> i"
        by force
      with zero [of as] Cons.prems(1) have "tokens INPUT pi as i = 0" by simp
      with True av Cons.prems(2) show ?thesis by (simp add: arc_tokens_def arc_enabled_def)
    next
      case False
      have "tokens INPUT pi as i \<le> m i"
        using Cons.prems by (intro Cons.IH) (auto split: if_splits)
      with False av show ?thesis by (auto simp: arc_tokens_def)
    qed
  qed simp
qed

lemma inj_index:
  assumes "setFromCollection vs = Inr vo" "a \<in> set vs" "b \<in> set vs" "getIndex vo a = getIndex vo b"
  shows "a = b"
  using order_roundtrip(2) [OF assms(1)] order_roundtrip(1) [OF assms(1)] assms(2-4)
  by (metis in_set_conv_nth)

section \<open>Firing\<close>

context ddd_library begin

text \<open>An ordinary transition takes the tokens of its input arcs and adds those of its output arcs.\<close>

lemma fire_ordinary:
  assumes order: "setFromCollection vs = Inr vo" "set (n_places n) \<subseteq> set vs"
    and n: "net_ok n" "t \<in> set (n_trans n)"
    and t: "ordinary t" and S: "\<forall>m\<in>S. \<forall>i. 0 \<le> m i"
  shows "gapp (getFullHom gops (ddd_getHom gprim) vo t) S
    = (\<lambda>m i. m i - tokens INPUT vo (t_arcs t) i + tokens OUTPUT vo (t_arcs t) i) ` {m \<in> S. t_enabled vo t m}"
proof -
  have "distinct (map (\<lambda>a. getIndex vo (av_place (hd (arc_places a)))) (filter (\<lambda>a. arc_type a = INPUT) (t_arcs t)))"
  proof -
    have "av_place (hd (arc_places a)) \<in> set vs" if "a \<in> set (t_arcs t)" for a
      using n that order(2) by (force simp: net_ok_def arc_ok_def)
    then have "inj_on (getIndex vo) ((\<lambda>a. av_place (hd (arc_places a))) ` {a \<in> set (t_arcs t). arc_type a = INPUT})"
      using inj_index [OF order(1)] by (auto simp: inj_on_def)
    with t show ?thesis
      using distinct_map [of "getIndex vo" "map (\<lambda>a. av_place (hd (arc_places a))) (filter (\<lambda>a. arc_type a = INPUT) (t_arcs t))"]
      by (simp add: ordinary_def o_def)
  qed
  then have "arcs_effects (\<lambda>d. d) (\<lambda>d v k. d(v := k)) vo (t_arcs t) m
      = {\<lambda>i. m i - tokens INPUT vo (t_arcs t) i + tokens OUTPUT vo (t_arcs t) i}"
    if "m \<in> S" "t_enabled vo t m" for m
    using that S t tokens_le_enabled [of "t_arcs t" vo m]
    by (intro arcs_effects_ordinary) (auto simp: ordinary_def t_enabled_def)
  then show ?thesis by (auto simp: ddd.app_full)
qed

end

section \<open>The two encodings of a marking\<close>

text \<open>The marking a path of an SDD over the places stands for.\<close>

definition marking_of :: "sdd_path \<Rightarrow> int \<Rightarrow> int" where
  "marking_of s v = s v DEFAULT_VAR"

lemma arc_effects_map:
  assumes "\<And>s v k. f (wr s v k) = wr' (f s) v k" "\<And>s v. rd' (f s) v = rd s v"
  shows "f ` arc_effects rd wr pi a s = arc_effects rd' wr' pi a (f s)"
proof -
  have image: "f ` {g x | x. P x} = {f (g x) | x. P x}" for g :: "ArcVal \<Rightarrow> _" and P by blast
  show ?thesis by (cases "arc_type a") (simp_all add: arc_effects_def image assms)
qed

lemma arcs_effects_map:
  assumes "\<And>s v k. f (wr s v k) = wr' (f s) v k" "\<And>s v. rd' (f s) v = rd s v"
  shows "f ` arcs_effects rd wr pi as s = arcs_effects rd' wr' pi as (f s)"
proof (induction as arbitrary: s)
  case (Cons a as)
  have "f ` arcs_effects rd wr pi (a # as) s = (\<Union>s'\<in>arc_effects rd wr pi a s. f ` arcs_effects rd wr pi as s')"
    by (simp add: image_UN)
  also have "\<dots> = (\<Union>s'\<in>f ` arc_effects rd wr pi a s. arcs_effects rd' wr' pi as s')"
    by (simp add: Cons.IH)
  finally show ?case by (simp add: arc_effects_map [where f = f and rd = rd and wr = wr, OF assms])
qed simp

context ddd_library begin

text \<open>Firing commutes with reading the marking off the SDD encoding.\<close>

lemma fire_encodings:
  "marking_of ` sapp (getFullHom sops (sdd_getHom gprim localApply) vo t) T
    = gapp (getFullHom gops (ddd_getHom gprim) vo t) (marking_of ` T)"
proof -
  have read: "(\<lambda>v. s v DEFAULT_VAR) = marking_of s" for s :: sdd_path by (simp add: marking_of_def fun_eq_iff)
  have eff: "marking_of ` arcs_effects (\<lambda>s v. s v DEFAULT_VAR) (\<lambda>s v k. s(v := (s v)(DEFAULT_VAR := k))) vo as s
      = arcs_effects (\<lambda>d. d) (\<lambda>d v k. d(v := k)) vo as (marking_of s)" for as s
    unfolding read by (rule arcs_effects_map) (simp_all add: marking_of_def fun_eq_iff)
  have "{m \<in> marking_of ` T. t_enabled vo t m} = marking_of ` {s \<in> T. t_enabled vo t (marking_of s)}" by auto
  then show ?thesis
    by (simp add: sdd.app_full ddd.app_full image_UN eff [unfolded read] read)
qed

end

section \<open>State predicates\<close>

context ddd_library begin

lemma predicate_selects:
  assumes vo: "setFromCollection vs = Inr vo" and x: "formula_ok vo x"
  shows "(\<exists>h. getPredicate sops (getAPredicate (ddd_encapsulated gprim localApply) vo) (written x) = Inr h
      \<and> sapp h T = {s \<in> T. meaning vo x (s DEFAULT_VAR)})
    \<and> (\<exists>h. getPredicate sops (getAPredicate (sdd_getHom gprim localApply) vo) (written x) = Inr h
      \<and> sapp h T = {s \<in> T. meaning vo x (marking_of s)})"
proof -
  have "sapp (hom_of sops (ddd_encapsulated gprim localApply) vo x) T = {s \<in> T. meaning vo x (s DEFAULT_VAR)}"
    using enc.tests_hom_of [OF x] by (simp add: s.tests_def)
  moreover have "sapp (hom_of sops (sdd_getHom gprim localApply) vo x) T = {s \<in> T. meaning vo x (marking_of s)}"
    using sdd.tests_hom_of [OF x] by (simp add: s.tests_def marking_of_def [abs_def])
  ultimately show ?thesis
    using getPredicate_written [OF x order_of_ok(1) [OF vo]] by blast
qed

end

section \<open>Successors of untimed nets\<close>

definition moved :: "varorder \<Rightarrow> PTransition \<Rightarrow> (int \<Rightarrow> int) \<Rightarrow> int \<Rightarrow> int" where
  "moved vo t m i = m i - tokens INPUT vo (t_arcs t) i + tokens OUTPUT vo (t_arcs t) i"

text \<open>The markings reached by firing one transition of each label in turn.\<close>

fun fire_labels :: "varorder \<Rightarrow> PTransition list \<Rightarrow> labels \<Rightarrow> (int \<Rightarrow> int) \<Rightarrow> (int \<Rightarrow> int) set" where
  "fire_labels vo ts [] m = {m}"
| "fire_labels vo ts (l # ls) m =
     (\<Union>t\<in>{t \<in> set ts. t_label t = l \<and> t_enabled vo t m}. fire_labels vo ts ls (moved vo t m))"

lemma index_distinct:
  assumes order: "setFromCollection vs = Inr vo" "set (n_places n) \<subseteq> set vs"
    and n: "net_ok n" "t \<in> set (n_trans n)" and t: "ordinary t"
  shows "distinct (map (\<lambda>a. getIndex vo (av_place (hd (arc_places a)))) (filter (\<lambda>a. arc_type a = INPUT) (t_arcs t)))"
proof -
  have "av_place (hd (arc_places a)) \<in> set vs" if "a \<in> set (t_arcs t)" for a
    using n that order(2) by (force simp: net_ok_def arc_ok_def)
  then have "inj_on (getIndex vo) ((\<lambda>a. av_place (hd (arc_places a))) ` {a \<in> set (t_arcs t). arc_type a = INPUT})"
    using inj_index [OF order(1)] by (auto simp: inj_on_def)
  with t show ?thesis
    using distinct_map [of "getIndex vo" "map (\<lambda>a. av_place (hd (arc_places a))) (filter (\<lambda>a. arc_type a = INPUT) (t_arcs t))"]
    by (simp add: ordinary_def o_def)
qed

lemma moved_nonneg:
  assumes order: "setFromCollection vs = Inr vo" "set (n_places n) \<subseteq> set vs"
    and n: "net_ok n" "t \<in> set (n_trans n)" and t: "ordinary t"
    and m: "t_enabled vo t m" "\<forall>i. 0 \<le> m i"
  shows "0 \<le> moved vo t m i"
proof -
  have "tokens INPUT vo (t_arcs t) i \<le> m i"
    using tokens_le_enabled index_distinct [OF order n t] t m by (auto simp: ordinary_def t_enabled_def)
  moreover have "0 \<le> tokens OUTPUT vo (t_arcs t) i"
    using t by (intro tokens_nonneg) (auto simp: ordinary_def)
  ultimately show ?thesis by (simp add: moved_def)
qed

context hom_algebra begin

lemma app_label_action:
  "label_action ops f l ts acc = r
    \<Longrightarrow> (r = None \<longleftrightarrow> acc = None \<and> l \<notin> t_label ` set ts)
      \<and> (\<forall>h. r = Some h \<longrightarrow> app h S = (case acc of None \<Rightarrow> {} | Some a \<Rightarrow> app a S)
          \<union> (\<Union>t\<in>{t \<in> set ts. t_label t = l}. app (f t) S))"
proof (induction ts arbitrary: acc)
  case (Cons t ts)
  show ?case
  proof (cases "t_label t = l")
    case True
    with Cons show ?thesis
      by (cases acc) (auto simp: app_or dest!: Cons.IH split: option.splits)
  next
    case False
    with Cons show ?thesis by auto
  qed
qed (auto split: option.split)

end

context ddd_library begin

lemma getSuccs_loop_sound:
  assumes order: "setFromCollection vs = Inr vo" "set (n_places n) \<subseteq> set vs" and n: "net_ok n"
    and ord: "\<forall>t\<in>set (n_trans n). ordinary t"
  shows "set tau \<subseteq> t_label ` set (n_trans n) \<Longrightarrow> \<forall>s\<in>sapp r T. \<forall>i. 0 \<le> s DEFAULT_VAR i
    \<Longrightarrow> \<exists>h. getSuccs_loop sops (PNet_getTransitionHom gops (ddd_getHom gprim) (ddd_encapsulate localApply) vo)
          (n_trans n) tau r = Inr h
      \<and> sapp h T = (\<Union>s\<in>sapp r T. (\<lambda>m. s(DEFAULT_VAR := m)) ` fire_labels vo (n_trans n) tau (s DEFAULT_VAR))"
proof (induction tau arbitrary: r)
  case Nil
  then show ?case by simp
next
  case (Cons l tau)
  let ?f = "PNet_getTransitionHom gops (ddd_getHom gprim) (ddd_encapsulate localApply) vo"
  let ?L = "{t \<in> set (n_trans n). t_label t = l}"
  from Cons.prems(1) obtain h where h: "label_action sops ?f l (n_trans n) None = Some h"
    using s.app_label_action [of ?f l "n_trans n" None "label_action sops ?f l (n_trans n) None"]
    by (cases "label_action sops ?f l (n_trans n) None") auto
  with s.app_label_action [of ?f l "n_trans n" None "Some h"]
  have app: "sapp h S = (\<Union>t\<in>?L. sapp (?f t) S)" for S by simp
  have fire: "sapp (?f t) (sapp r T) = (\<lambda>s. s(DEFAULT_VAR := moved vo t (s DEFAULT_VAR)))
      ` {s \<in> sapp r T. t_enabled vo t (s DEFAULT_VAR)}" if "t \<in> ?L" for t
  proof -
    have "gapp (getFullHom gops (ddd_getHom gprim) vo t) {m} = moved vo t ` {m' \<in> {m}. t_enabled vo t m'}"
      if "\<forall>i. 0 \<le> m i" for m
    proof -
      have "moved vo t = (\<lambda>m i. m i - tokens INPUT vo (t_arcs t) i + tokens OUTPUT vo (t_arcs t) i)"
        by (simp add: moved_def fun_eq_iff)
      then show ?thesis
        using \<open>t \<in> ?L\<close> ord that by (simp only:) (rule fire_ordinary [OF order n], auto)
    qed
    then have "sapp (?f t) (sapp r T) = (\<Union>s\<in>sapp r T. (\<lambda>d. s(DEFAULT_VAR := d))
        ` moved vo t ` {m' \<in> {s DEFAULT_VAR}. t_enabled vo t m'})"
      unfolding PNet_getTransitionHom_def ddd_encapsulate_def sapp_local using Cons.prems(2)
      by (intro SUP_cong refl arg_cong [where f = "image _"]) auto
    then show ?thesis by auto
  qed
  have step: "sapp (Hcomp sops h r) T = (\<Union>t\<in>?L. (\<lambda>s. s(DEFAULT_VAR := moved vo t (s DEFAULT_VAR)))
      ` {s \<in> sapp r T. t_enabled vo t (s DEFAULT_VAR)})"
    unfolding s.app_comp app by (intro SUP_cong refl fire)
  then have nonneg: "\<forall>s\<in>sapp (Hcomp sops h r) T. \<forall>i. 0 \<le> s DEFAULT_VAR i"
    using moved_nonneg [OF order n] ord Cons.prems(2) by fastforce
  have tau: "set tau \<subseteq> t_label ` set (n_trans n)" using Cons.prems(1) by simp
  from Cons.IH [OF tau nonneg] obtain h' where
    h': "getSuccs_loop sops ?f (n_trans n) tau (Hcomp sops h r) = Inr h'"
      "sapp h' T = (\<Union>s\<in>sapp (Hcomp sops h r) T. (\<lambda>m. s(DEFAULT_VAR := m)) ` fire_labels vo (n_trans n) tau (s DEFAULT_VAR))"
    by blast
  have "sapp h' T = (\<Union>s\<in>sapp r T. (\<lambda>m. s(DEFAULT_VAR := m)) ` fire_labels vo (n_trans n) (l # tau) (s DEFAULT_VAR))"
    unfolding h'(2) step by auto
  moreover have "getSuccs_loop sops ?f (n_trans n) (l # tau) r = Inr h'" using h h'(1) by simp
  ultimately show ?case by blast
qed

lemma PNet_getSuccs_sound:
  assumes order: "setFromCollection (PNet_getVarSet n) = Inr vo" and n: "net_ok n"
    and ord: "\<forall>t\<in>set (n_trans n). ordinary t" and tau: "set tau \<subseteq> t_label ` set (n_trans n)"
    and T: "\<forall>s\<in>T. \<forall>i. 0 \<le> s DEFAULT_VAR i"
  shows "\<exists>h. PNet_getSuccs sops (PNet_getTransitionHom gops (ddd_getHom gprim) (ddd_encapsulate localApply) vo) n tau = Inr h
    \<and> sapp h T = (\<Union>s\<in>T. (\<lambda>m. s(DEFAULT_VAR := m)) ` fire_labels vo (n_trans n) tau (s DEFAULT_VAR))"
  using getSuccs_loop_sound [OF order _ n ord tau, of "Hid sops" T] T
  by (simp add: PNet_getVarSet_def PNet_getSuccs_def s.app_id)

end

context ddd_library begin

lemma PNet_transition_sound:
  assumes order: "setFromCollection vs = Inr vo" "set (n_places n) \<subseteq> set vs"
    and n: "net_ok n" "t \<in> set (n_trans n)" "ordinary t" and T: "\<forall>s\<in>T. \<forall>i. 0 \<le> s DEFAULT_VAR i"
  shows "sapp (PNet_getTransitionHom gops (ddd_getHom gprim) (ddd_encapsulate localApply) vo t) T
    = (\<lambda>s. s(DEFAULT_VAR := moved vo t (s DEFAULT_VAR))) ` {s \<in> T. t_enabled vo t (s DEFAULT_VAR)}"
proof -
  have "gapp (getFullHom gops (ddd_getHom gprim) vo t) {m} = moved vo t ` {m' \<in> {m}. t_enabled vo t m'}"
    if "\<forall>i. 0 \<le> m i" for m
  proof -
    have "moved vo t = (\<lambda>m i. m i - tokens INPUT vo (t_arcs t) i + tokens OUTPUT vo (t_arcs t) i)"
      by (simp add: moved_def fun_eq_iff)
    then show ?thesis
      using n that by (simp only:) (rule fire_ordinary [OF order], auto)
  qed
  then have "sapp (PNet_getTransitionHom gops (ddd_getHom gprim) (ddd_encapsulate localApply) vo t) T
      = (\<Union>s\<in>T. (\<lambda>d. s(DEFAULT_VAR := d)) ` moved vo t ` {m' \<in> {s DEFAULT_VAR}. t_enabled vo t m'})"
    unfolding PNet_getTransitionHom_def ddd_encapsulate_def sapp_local using T
    by (intro SUP_cong refl arg_cong [where f = "image _"]) auto
  then show ?thesis by auto
qed

text \<open>The local successors: one private transition fires.\<close>

lemma getLocals_sound:
  assumes order: "setFromCollection (PNet_getVarSet n) = Inr vo" and n: "net_ok n"
    and ord: "\<forall>t\<in>set (n_trans n). ordinary t" and T: "\<forall>s\<in>T. \<forall>i. 0 \<le> s DEFAULT_VAR i"
  shows "sapp (getLocals sops (PNet_getTransitionHom gops (ddd_getHom gprim) (ddd_encapsulate localApply) vo) (Hid sops) n) T
    = {s(DEFAULT_VAR := moved vo t (s DEFAULT_VAR)) | s t. s \<in> T \<and> t \<in> set (n_trans n) \<and> t_vis t = PRIVATE
        \<and> t_enabled vo t (s DEFAULT_VAR)}"
proof -
  let ?f = "PNet_getTransitionHom gops (ddd_getHom gprim) (ddd_encapsulate localApply) vo"
  let ?ts = "filter (\<lambda>t. t_vis t = PRIVATE) (n_trans n)"
  have one: "sapp (if \<not> Hselector sops (?f t) then Hcomp sops (Hid sops) (?f t) else ?f t) T = sapp (?f t) T" for t
    by (simp add: s.app_comp s.app_id)
  have "sapp (getLocals sops ?f (Hid sops) n) T = (\<Union>t\<in>set ?ts. sapp (?f t) T)"
  proof (cases "?ts = []")
    case True
    then show ?thesis by (simp add: getLocals_def s.app_null del: set_filter)
  next
    case False
    then have "getLocals sops ?f (Hid sops) n
        = Hadd sops (map (\<lambda>t. if \<not> Hselector sops (?f t) then Hcomp sops (Hid sops) (?f t) else ?f t) ?ts)"
      by (simp add: getLocals_def Let_def)
    then show ?thesis by (simp only: s.app_add set_map image_image one)
  qed
  also have "\<dots> = (\<Union>t\<in>set ?ts. (\<lambda>s. s(DEFAULT_VAR := moved vo t (s DEFAULT_VAR)))
      ` {s \<in> T. t_enabled vo t (s DEFAULT_VAR)})"
    using ord T by (intro SUP_cong refl PNet_transition_sound [OF order _ n]) (auto simp: PNet_getVarSet_def)
  also have "\<dots> = {s(DEFAULT_VAR := moved vo t (s DEFAULT_VAR)) | s t. s \<in> T \<and> t \<in> set (n_trans n) \<and> t_vis t = PRIVATE
        \<and> t_enabled vo t (s DEFAULT_VAR)}"
    by auto
  finally show ?thesis .
qed

end

section \<open>Initial states\<close>

text \<open>The nodes the code builds are single paths: a sequence of assignments.\<close>

locale node_library =
  fixes N :: "'n node_ops" and path :: "'n \<Rightarrow> (int \<times> int) list"
  assumes path_one: "path (node_one N) = []"
    and path_new: "path (newNode N v k) = [(v, k)]"
    and path_concat: "path (node_concat N a b) = path a @ path b"
begin

lemma path_getMarking:
  "path (getMarking N m vo) = rev (map (\<lambda>i. (int i, Marking_getMarking m (getLabel vo (int i)))) [0..<vo_size vo])"
proof -
  have "path (fold (\<lambda>i M0. node_concat N (newNode N (int i) (Marking_getMarking m (getLabel vo (int i)))) M0) is M0)
      = rev (map (\<lambda>i. (int i, Marking_getMarking m (getLabel vo (int i)))) is) @ path M0" for "is" M0
    by (induction "is" arbitrary: M0) (simp_all add: path_new path_concat)
  then show ?thesis by (simp add: getMarking_def path_one)
qed

end

definition list_nodes :: "(int \<times> int) list node_ops" where
  "list_nodes = \<lparr>node_one = [], newNode = (\<lambda>v k. [(v, k)]), node_concat = (@)\<rparr>"

interpretation list_paths: node_library list_nodes "\<lambda>p. p"
  by unfold_locales (simp_all add: list_nodes_def)

section \<open>Negative markings\<close>

text \<open>The input arcs are tested one by one: two of them on a place take more than it has.\<close>

definition twice :: PTransition where
  "twice = \<lparr>t_name = ''t'', t_label = ''t'', t_vis = PUBLIC,
     t_arcs = [\<lparr>arc_places = [\<lparr>av_place = ''p'', av_val = 1\<rparr>], arc_type = INPUT\<rparr>,
               \<lparr>arc_places = [\<lparr>av_place = ''p'', av_val = 1\<rparr>], arc_type = INPUT\<rparr>],
     t_clock = default_clock\<rparr>"

lemma twice_goes_negative:
  "lin (getFullHom lin_ops (ddd_getHom lin_prim) [(''p'', 0)] twice) {(\<lambda>i. 0)(0 := 1)} = {(\<lambda>i. 0)(0 := - 1)}"
  unfolding lin_library.ddd.app_full
  by (auto simp: t_enabled_def twice_def arc_enabled_def getIndex_def arc_effects_def)

text \<open>An output arc tests that its place is not empty afterwards: an arc that adds no token blocks the transition.\<close>

definition adds_nothing :: PTransition where
  "adds_nothing = \<lparr>t_name = ''t'', t_label = ''t'', t_vis = PUBLIC,
     t_arcs = [\<lparr>arc_places = [\<lparr>av_place = ''p'', av_val = 0\<rparr>], arc_type = OUTPUT\<rparr>], t_clock = default_clock\<rparr>"

lemma zero_output_blocks:
  "t_enabled [(''p'', 0)] adds_nothing (\<lambda>i. 0)"
  "lin (getFullHom lin_ops (ddd_getHom lin_prim) [(''p'', 0)] adds_nothing) {\<lambda>i. 0} = {}"
  unfolding lin_library.ddd.app_full
  by (auto simp: t_enabled_def adds_nothing_def arc_enabled_def getIndex_def arc_effects_def)

end
