(* ===== verification/Petri_Clocks.thy ===== *)
theory Petri_Clocks imports Petri_Sound begin

text \<open>
  The clocks of time Petri nets: what the passing of time and the reset of disabled transitions do to
  the values of the variables, and the bounds of clock values.
\<close>

section \<open>Clock variables\<close>

definition has_clock :: "PTransition \<Rightarrow> bool" where
  "has_clock t \<longleftrightarrow> t_isTimed t \<and> lft (t_clock t) \<noteq> 0"

definition clock_var :: "varorder \<Rightarrow> PTransition \<Rightarrow> int" where
  "clock_var vo t = getIndex vo (clockName (t_name t))"

text \<open>The transition whose clock a variable is, if any.\<close>

definition clock_of :: "varorder \<Rightarrow> PTransition list \<Rightarrow> int \<Rightarrow> PTransition option" where
  "clock_of vo ts i = find (\<lambda>t. has_clock t \<and> clock_var vo t = i) ts"

text \<open>Time is stopped by an enabled transition that has reached its latest firing time.\<close>

definition urgent :: "varorder \<Rightarrow> PTransition \<Rightarrow> (int \<Rightarrow> int) \<Rightarrow> bool" where
  "urgent vo t m \<longleftrightarrow> t_enabled vo t m
     \<and> (lft (t_clock t) = 0 \<or> has_clock t \<and> lft (t_clock t) \<noteq> - 1 \<and> lft (t_clock t) \<le> m (clock_var vo t))"

definition elapse_value :: "varorder \<Rightarrow> (int \<Rightarrow> int) \<Rightarrow> PTransition \<Rightarrow> int" where
  "elapse_value vo m t =
     (if t_enabled vo t m then
        (if lft (t_clock t) = - 1 \<and> eft (t_clock t) \<le> m (clock_var vo t) then m (clock_var vo t)
         else m (clock_var vo t) + 1)
      else 0)"

definition reset_value :: "varorder \<Rightarrow> (int \<Rightarrow> int) \<Rightarrow> PTransition \<Rightarrow> int" where
  "reset_value vo m t = (if t_enabled vo t m then m (clock_var vo t) else 0)"

text \<open>All clocks at once.\<close>

definition update_clocks ::
  "(varorder \<Rightarrow> (int \<Rightarrow> int) \<Rightarrow> PTransition \<Rightarrow> int) \<Rightarrow> varorder \<Rightarrow> PTransition list \<Rightarrow> (int \<Rightarrow> int) \<Rightarrow> int \<Rightarrow> int" where
  "update_clocks val vo ts m i = (case clock_of vo ts i of None \<Rightarrow> m i | Some t \<Rightarrow> val vo m t)"

section \<open>One transition after the other\<close>

definition clock_step ::
  "(varorder \<Rightarrow> (int \<Rightarrow> int) \<Rightarrow> PTransition \<Rightarrow> int) \<Rightarrow> varorder \<Rightarrow> PTransition \<Rightarrow> (int \<Rightarrow> int) \<Rightarrow> int \<Rightarrow> int" where
  "clock_step val vo t m = (if has_clock t then m(clock_var vo t := val vo m t) else m)"

text \<open>Clocks are no places, and are different from each other.\<close>

definition clocks_apart :: "varorder \<Rightarrow> PTransition list \<Rightarrow> bool" where
  "clocks_apart vo ts \<longleftrightarrow>
     (\<forall>t\<in>set ts. \<forall>u\<in>set ts. has_clock u \<longrightarrow>
        (\<forall>a\<in>set (t_arcs t). \<forall>av\<in>set (arc_places a). getIndex vo (av_place av) \<noteq> clock_var vo u)
        \<and> (has_clock t \<and> clock_var vo t = clock_var vo u \<longrightarrow> t = u))"

lemma clocks_apart_place:
  "clocks_apart vo ts \<Longrightarrow> t \<in> set ts \<Longrightarrow> u \<in> set ts \<Longrightarrow> has_clock u \<Longrightarrow> a \<in> set (t_arcs t)
    \<Longrightarrow> av \<in> set (arc_places a) \<Longrightarrow> getIndex vo (av_place av) \<noteq> clock_var vo u"
  unfolding clocks_apart_def by blast

lemma clocks_apart_inj:
  "clocks_apart vo ts \<Longrightarrow> t \<in> set ts \<Longrightarrow> u \<in> set ts \<Longrightarrow> has_clock t \<Longrightarrow> has_clock u
    \<Longrightarrow> clock_var vo t = clock_var vo u \<Longrightarrow> t = u"
  unfolding clocks_apart_def by blast

lemma arc_enabled_upd:
  "\<forall>av\<in>set (arc_places a). getIndex vo (av_place av) \<noteq> c
    \<Longrightarrow> arc_enabled vo a (m(c := k)) = arc_enabled vo a m"
  by (auto simp: arc_enabled_def split: ArcType.split)

lemma t_enabled_upd:
  "clocks_apart vo ts \<Longrightarrow> t \<in> set ts \<Longrightarrow> u \<in> set ts \<Longrightarrow> has_clock u
    \<Longrightarrow> t_enabled vo t (m(clock_var vo u := k)) = t_enabled vo t m"
  by (auto simp: t_enabled_def clocks_apart_def arc_enabled_upd)

lemma clocks_apart_Cons: "clocks_apart vo (t # ts) \<Longrightarrow> clocks_apart vo ts"
  by (simp add: clocks_apart_def)

text \<open>Values that depend on the enabling of the transition and on its own clock.\<close>

definition local_value :: "(varorder \<Rightarrow> (int \<Rightarrow> int) \<Rightarrow> PTransition \<Rightarrow> int) \<Rightarrow> bool" where
  "local_value val \<longleftrightarrow> (\<forall>vo m m' t. t_enabled vo t m = t_enabled vo t m' \<longrightarrow> m (clock_var vo t) = m' (clock_var vo t)
     \<longrightarrow> val vo m t = val vo m' t)"

lemma local_values: "local_value elapse_value" "local_value reset_value"
  by (simp_all add: local_value_def elapse_value_def reset_value_def)

lemma clock_of_Cons:
  "clock_of vo (t # ts) i = (if has_clock t \<and> clock_var vo t = i then Some t else clock_of vo ts i)"
  by (simp add: clock_of_def)

lemma clock_of_Some: "clock_of vo ts i = Some t \<Longrightarrow> t \<in> set ts \<and> has_clock t \<and> clock_var vo t = i"
  by (induction ts) (auto simp: clock_of_def split: if_splits)

lemma clock_of_self:
  "clocks_apart vo ts \<Longrightarrow> t \<in> set ts \<Longrightarrow> has_clock t \<Longrightarrow> clock_of vo ts (clock_var vo t) = Some t"
proof -
  assume ap: "clocks_apart vo ts" and t: "t \<in> set ts" "has_clock t"
  have "find (\<lambda>u. has_clock u \<and> clock_var vo u = clock_var vo t) ts \<noteq> None"
    using t by (auto simp: find_None_iff)
  then obtain u where u: "clock_of vo ts (clock_var vo t) = Some u" by (auto simp: clock_of_def)
  from clock_of_Some [OF u] have "u = t" by (intro clocks_apart_inj [OF ap _ t(1) _ t(2)]) auto
  with u show ?thesis by simp
qed

lemma update_clocks_enabled:
  assumes "clocks_apart vo us" "set ts \<subseteq> set us" "t \<in> set us"
  shows "t_enabled vo t (update_clocks val vo ts m) = t_enabled vo t m"
proof -
  have "update_clocks val vo ts m (getIndex vo (av_place av)) = m (getIndex vo (av_place av))"
    if "a \<in> set (t_arcs t)" "av \<in> set (arc_places a)" for a av
  proof (cases "clock_of vo ts (getIndex vo (av_place av))")
    case (Some u)
    from clock_of_Some [OF this] assms(2)
    have u: "u \<in> set us" "has_clock u" "clock_var vo u = getIndex vo (av_place av)" by auto
    with clocks_apart_place [OF assms(1,3) u(1,2) that] show ?thesis by simp
  qed (simp add: update_clocks_def)
  then have "arc_enabled vo a (update_clocks val vo ts m) = arc_enabled vo a m" if "a \<in> set (t_arcs t)" for a
    using that by (auto simp: arc_enabled_def split: ArcType.split)
  then show ?thesis by (simp add: t_enabled_def)
qed

text \<open>The clock of a transition that is not among those updated is as before.\<close>

lemma update_clocks_other:
  assumes "clocks_apart vo (t # ts)" "t \<notin> set ts" "has_clock t"
  shows "update_clocks val vo ts m (clock_var vo t) = m (clock_var vo t)"
proof (cases "clock_of vo ts (clock_var vo t)")
  case (Some u)
  from clock_of_Some [OF this] have u: "u \<in> set ts" "has_clock u" "clock_var vo u = clock_var vo t" by auto
  have "u = t" using clocks_apart_inj [OF assms(1) _ _ u(2) assms(3) u(3)] u(1) by simp
  with u(1) assms(2) show ?thesis by simp
qed (simp add: update_clocks_def)

lemma clock_step_update:
  assumes "local_value val" "clocks_apart vo (t # ts)" "t \<notin> set ts"
  shows "clock_step val vo t (update_clocks val vo ts m) = update_clocks val vo (t # ts) m"
proof (cases "has_clock t")
  case True
  have "t_enabled vo t (update_clocks val vo ts m) = t_enabled vo t m"
    using assms(2) by (intro update_clocks_enabled [of vo "t # ts"]) auto
  then have "val vo (update_clocks val vo ts m) t = val vo m t"
    using assms(1) update_clocks_other [OF assms(2,3) True, of val m]
    unfolding local_value_def by blast
  with True show ?thesis
    by (auto simp: clock_step_def update_clocks_def clock_of_Cons fun_eq_iff)
next
  case False
  then show ?thesis by (auto simp: clock_step_def update_clocks_def clock_of_Cons fun_eq_iff)
qed

lemma urgent_update:
  assumes "clocks_apart vo (t # ts)" "t \<notin> set ts"
  shows "urgent vo t (update_clocks val vo ts m) = urgent vo t m"
proof -
  have "t_enabled vo t (update_clocks val vo ts m) = t_enabled vo t m"
    using assms(1) by (intro update_clocks_enabled [of vo "t # ts"]) auto
  then show ?thesis
    using update_clocks_other [OF assms] by (auto simp: urgent_def)
qed

text \<open>Steps that update one clock each, the last transition first, and drop some states.\<close>

lemma foldr_clock_steps:
  assumes "local_value val" "clocks_apart vo ts" "distinct ts"
    and step: "\<And>t T. t \<in> set ts \<Longrightarrow> step t T = clock_step val vo t ` {m \<in> T. b t \<longrightarrow> \<not> urgent vo t m}"
  shows "foldr step ts S = update_clocks val vo ts ` {m \<in> S. \<forall>t\<in>set ts. b t \<longrightarrow> \<not> urgent vo t m}"
  using assms
proof (induction ts)
  case Nil
  have "update_clocks val vo [] = (\<lambda>m. m)" by (simp add: update_clocks_def clock_of_def fun_eq_iff)
  then show ?case by simp
next
  case (Cons t ts)
  have t: "t \<notin> set ts" using Cons.prems(3) by simp
  have IH: "foldr step ts S = update_clocks val vo ts ` {m \<in> S. \<forall>t\<in>set ts. b t \<longrightarrow> \<not> urgent vo t m}"
    using Cons.prems clocks_apart_Cons [OF Cons.prems(2)] by (intro Cons.IH) auto
  have "step t (foldr step ts S)
      = clock_step val vo t ` {m \<in> foldr step ts S. b t \<longrightarrow> \<not> urgent vo t m}"
    using Cons.prems(4) [of t] by simp
  also have "\<dots> = update_clocks val vo (t # ts) ` {m \<in> S. \<forall>t\<in>set (t # ts). b t \<longrightarrow> \<not> urgent vo t m}"
  proof -
    have sets: "{m \<in> f ` A. P m} = f ` {m \<in> A. P (f m)}" for f :: "(int \<Rightarrow> int) \<Rightarrow> int \<Rightarrow> int" and A P by auto
    show ?thesis
      unfolding IH sets image_image clock_step_update [OF Cons.prems(1,2) t] urgent_update [OF Cons.prems(2) t]
      by (rule arg_cong [where f = "image _"]) auto
  qed
  finally show ?case by simp
qed

section \<open>Time Petri nets\<close>

lemma clockName_inj: "clockName a = clockName b \<longleftrightarrow> a = b"
  by (simp add: clockName_def)

lemma clocks_apart_net:
  assumes order: "setFromCollection (TPNet_getVarSet n) = Inr vo" and n: "net_ok n"
  shows "clocks_apart vo (n_trans n)"
proof -
  have clock: "clockName (t_name t) \<in> set (TPNet_getVarSet n)" if "t \<in> set (n_trans n)" "has_clock t" for t
    using that by (auto simp: TPNet_getVarSet_def has_clock_def)
  have place: "p \<in> set (TPNet_getVarSet n)" if "p \<in> set (n_places n)" for p
    using that by (simp add: TPNet_getVarSet_def PNet_getVarSet_def)
  have "distinct (TPNet_getVarSet n)"
    using order by (simp add: setFromCollection_eq split: if_splits)
  then have apart: "clockName (t_name t) \<notin> set (n_places n)" if "t \<in> set (n_trans n)" "has_clock t" for t
    using that by (auto simp: TPNet_getVarSet_def PNet_getVarSet_def has_clock_def)
  show ?thesis
    unfolding clocks_apart_def
  proof (intro ballI impI conjI)
    fix t u a av
    assume u: "u \<in> set (n_trans n)" "has_clock u" and a: "t \<in> set (n_trans n)" "a \<in> set (t_arcs t)" "av \<in> set (arc_places a)"
    have p: "av_place av \<in> set (n_places n)" using n a by (auto simp: net_ok_def arc_ok_def)
    show "getIndex vo (av_place av) \<noteq> clock_var vo u"
      using inj_index [OF order place [OF p] clock [OF u]] p apart [OF u] by (auto simp: clock_var_def)
  next
    fix t u
    assume t: "t \<in> set (n_trans n)" and u: "u \<in> set (n_trans n)" "has_clock u"
      and eq: "has_clock t \<and> clock_var vo t = clock_var vo u"
    have "t_name t = t_name u"
      using inj_index [OF order clock [OF t] clock [OF u]] eq by (simp add: clock_var_def clockName_inj)
    with n t u show "t = u" by (auto simp: net_ok_def distinct_map inj_on_def)
  qed
qed

lemma image_if: "{m \<in> A. P m} \<union> f ` {m \<in> A. \<not> P m} = (\<lambda>m. if P m then m else f m) ` A"
proof (rule set_eqI)
  fix x
  show "x \<in> {m \<in> A. P m} \<union> f ` {m \<in> A. \<not> P m} \<longleftrightarrow> x \<in> (\<lambda>m. if P m then m else f m) ` A"
    by (cases "x \<in> A \<and> P x") (auto intro: rev_image_eqI)
qed

context hom_algebra begin

lemma app_fold_before:
  "app (fold (\<lambda>t e. if c t then Hcomp ops e (h t) else e) ts e) S
    = app e (foldr (\<lambda>t S. if c t then app (h t) S else S) ts S)"
  by (induction ts arbitrary: e) (simp_all add: app_comp)

end

context ddd_library begin

abbreviation "dHom \<equiv> ddd_getHom gprim"

lemma elapse_step_app:
  assumes "has_clock t \<or> lft (t_clock t) = 0"
  shows "gapp (Hite gops (getEnablerHom gops dHom vo t)
        (getIncr gops dHom (t_clock t) (if lft (t_clock t) = 0 then 0 else clock_var vo t))
        (if lft (t_clock t) = 0 then Hid gops else getRZ gops dHom (t_clock t) (clock_var vo t))) T
    = clock_step elapse_value vo t ` {m \<in> T. \<not> urgent vo t m}"
proof (cases "lft (t_clock t) = 0")
  case True
  then have "clock_step elapse_value vo t = (\<lambda>m. m)" by (simp add: clock_step_def has_clock_def fun_eq_iff)
  with True show ?thesis
    unfolding g.tests_ite [OF ddd.tests_enabler]
    by (auto simp: getIncr_def urgent_def has_clock_def g.app_null g.app_id)
next
  case False
  with assms have timed: "has_clock t" by simp
  let ?c = "clock_var vo t"
  let ?en = "{m \<in> T. t_enabled vo t m}"
  have gt: "g.tests (dHom varGtState i k) (\<lambda>m. k < m i)" for i k
    using ddd.tests_getHom [of varGtState i k] by simp
  have le: "g.tests (dHom varLeqState i k) (\<lambda>m. m i \<le> k)" for i k
    using ddd.tests_getHom [of varLeqState i k] by simp
  have "gapp (getIncr gops dHom (t_clock t) ?c) ?en = clock_step elapse_value vo t ` {m \<in> ?en. \<not> urgent vo t m}"
  proof (cases "lft (t_clock t) = - 1")
    case True
    with timed have "eft (t_clock t) \<noteq> 0" by (auto simp: has_clock_def t_isTimed_def clock_isTimed_def)
    with True have "gapp (getIncr gops dHom (t_clock t) ?c) ?en
        = {m \<in> ?en. eft (t_clock t) \<le> m ?c} \<union> (\<lambda>m. m(?c := m ?c + 1)) ` {m \<in> ?en. \<not> eft (t_clock t) \<le> m ?c}"
      by (simp add: getIncr_def g.tests_ite [OF gt] g.app_id ddd.app_postPlace not_less zle_diff1_eq
          zless_imp_add1_zle not_le)
         (auto simp: not_less)
    also have "\<dots> = clock_step elapse_value vo t ` {m \<in> ?en. \<not> urgent vo t m}"
      unfolding image_if using True timed
      by (intro image_cong) (auto simp: clock_step_def elapse_value_def urgent_def)
    finally show ?thesis .
  next
    case False
    with \<open>lft (t_clock t) \<noteq> 0\<close> have "gapp (getIncr gops dHom (t_clock t) ?c) ?en
        = (\<lambda>m. m(?c := m ?c + 1)) ` {m \<in> ?en. m ?c < lft (t_clock t)}"
      using le [of ?c "lft (t_clock t) - 1"]
      by (simp add: getIncr_def g.app_comp ddd.app_postPlace g.tests_def zle_diff1_eq)
    also have "\<dots> = clock_step elapse_value vo t ` {m \<in> ?en. \<not> urgent vo t m}"
      using False timed \<open>lft (t_clock t) \<noteq> 0\<close>
      by (auto simp: clock_step_def elapse_value_def urgent_def image_iff)
    finally show ?thesis .
  qed
  moreover have "gapp (getRZ gops dHom (t_clock t) ?c) {m \<in> T. \<not> t_enabled vo t m}
      = clock_step elapse_value vo t ` {m \<in> T. \<not> t_enabled vo t m}"
    using False timed by (auto simp: getRZ_def ddd.app_setVarConst clock_step_def elapse_value_def image_iff)
  moreover have "{m \<in> T. \<not> urgent vo t m} = {m \<in> ?en. \<not> urgent vo t m} \<union> {m \<in> T. \<not> t_enabled vo t m}"
    by (auto simp: urgent_def)
  ultimately show ?thesis
    using False by (simp add: g.tests_ite [OF ddd.tests_enabler] image_Un)
qed

text \<open>The passing of one time unit.\<close>

lemma elapse_sound:
  assumes order: "setFromCollection (TPNet_getVarSet n) = Inr vo" and n: "net_ok n"
  shows "gapp (elapseHom gops dHom n vo) S
    = update_clocks elapse_value vo (n_trans n) ` {m \<in> S. \<forall>t\<in>set (n_trans n). \<not> urgent vo t m}"
proof -
  let ?h = "\<lambda>t. Hite gops (getEnablerHom gops dHom vo t)
        (getIncr gops dHom (t_clock t) (if lft (t_clock t) = 0 then 0 else clock_var vo t))
        (if lft (t_clock t) = 0 then Hid gops else getRZ gops dHom (t_clock t) (clock_var vo t))"
  let ?c = "\<lambda>t. has_clock t \<or> lft (t_clock t) = 0"
  have "elapse_step gops dHom vo = (\<lambda>t e. if ?c t then Hcomp gops e (?h t) else e)"
    by (auto simp: elapse_step_def has_clock_def clock_var_def Let_def fun_eq_iff)
  then have "gapp (elapseHom gops dHom n vo) S
      = foldr (\<lambda>t S. if ?c t then gapp (?h t) S else S) (n_trans n) S"
    by (simp add: elapseHom_def g.app_fold_before g.app_id)
  also have "\<dots> = update_clocks elapse_value vo (n_trans n)
      ` {m \<in> S. \<forall>t\<in>set (n_trans n). True \<longrightarrow> \<not> urgent vo t m}"
  proof (rule foldr_clock_steps [OF local_values(1) clocks_apart_net [OF order n]])
    show "distinct (n_trans n)" using n by (auto simp: net_ok_def distinct_map)
    show "(if ?c t then gapp (?h t) T else T) = clock_step elapse_value vo t ` {m \<in> T. True \<longrightarrow> \<not> urgent vo t m}"
      for t T
      using elapse_step_app [of t vo T]
      by (auto simp: clock_step_def urgent_def has_clock_def)
  qed
  finally show ?thesis by simp
qed

text \<open>The clocks of the transitions that are not enabled go back to 0.\<close>

lemma reset_sound:
  assumes order: "setFromCollection (TPNet_getVarSet n) = Inr vo" and n: "net_ok n"
  shows "gapp (fold (reset_step gops dHom vo) (n_trans n) (Hid gops)) S
    = update_clocks reset_value vo (n_trans n) ` S"
proof -
  let ?h = "\<lambda>t. Hite gops (getEnablerHom gops dHom vo t) (Hid gops) (getRZ gops dHom (t_clock t) (clock_var vo t))"
  have "reset_step gops dHom vo = (\<lambda>t e. if has_clock t then Hcomp gops e (?h t) else e)"
    by (auto simp: reset_step_def has_clock_def clock_var_def Let_def fun_eq_iff)
  then have "gapp (fold (reset_step gops dHom vo) (n_trans n) (Hid gops)) S
      = foldr (\<lambda>t S. if has_clock t then gapp (?h t) S else S) (n_trans n) S"
    by (simp add: g.app_fold_before g.app_id)
  also have "\<dots> = update_clocks reset_value vo (n_trans n)
      ` {m \<in> S. \<forall>t\<in>set (n_trans n). False \<longrightarrow> \<not> urgent vo t m}"
  proof (rule foldr_clock_steps [OF local_values(2) clocks_apart_net [OF order n]])
    show "distinct (n_trans n)" using n by (auto simp: net_ok_def distinct_map)
    show "(if has_clock t then gapp (?h t) T else T) = clock_step reset_value vo t ` {m \<in> T. False \<longrightarrow> \<not> urgent vo t m}"
      for t T
    proof (cases "has_clock t")
      case True
      then have "gapp (?h t) T = {m \<in> T. t_enabled vo t m} \<union> (\<lambda>m. m(clock_var vo t := 0)) ` {m \<in> T. \<not> t_enabled vo t m}"
        by (simp add: g.tests_ite [OF ddd.tests_enabler] g.app_id getRZ_def has_clock_def ddd.app_setVarConst)
      also have "\<dots> = clock_step reset_value vo t ` {m \<in> T. False \<longrightarrow> \<not> urgent vo t m}"
        unfolding image_if using True by (intro image_cong) (auto simp: clock_step_def reset_value_def)
      finally show ?thesis using True by simp
    qed (simp add: clock_step_def)
  qed
  finally show ?thesis by simp
qed

end

section \<open>Bounds of clocks\<close>

text \<open>A clock never passes its latest firing time, or the earliest one when there is no latest.\<close>

definition clock_in_bounds :: "TimeConstraint \<Rightarrow> int \<Rightarrow> bool" where
  "clock_in_bounds c k \<longleftrightarrow> 0 \<le> k \<and> k \<le> (if lft c = - 1 then max 0 (eft c) else max 0 (lft c))"

definition clocks_in_bounds :: "varorder \<Rightarrow> PTransition list \<Rightarrow> (int \<Rightarrow> int) \<Rightarrow> bool" where
  "clocks_in_bounds vo ts m \<longleftrightarrow> (\<forall>t\<in>set ts. has_clock t \<longrightarrow> clock_in_bounds (t_clock t) (m (clock_var vo t)))"

lemma update_clocks_self:
  "clocks_apart vo ts \<Longrightarrow> t \<in> set ts \<Longrightarrow> has_clock t \<Longrightarrow> update_clocks val vo ts m (clock_var vo t) = val vo m t"
  by (simp add: update_clocks_def clock_of_self)

lemma reset_keeps_bounds:
  "clocks_apart vo ts \<Longrightarrow> clocks_in_bounds vo ts m \<Longrightarrow> clocks_in_bounds vo ts (update_clocks reset_value vo ts m)"
  by (auto simp: clocks_in_bounds_def update_clocks_self reset_value_def clock_in_bounds_def)

lemma elapse_keeps_bounds:
  assumes "clocks_apart vo ts" "clocks_in_bounds vo ts m" "\<forall>t\<in>set ts. \<not> urgent vo t m"
  shows "clocks_in_bounds vo ts (update_clocks elapse_value vo ts m)"
  unfolding clocks_in_bounds_def
proof (intro ballI impI)
  fix t
  assume t: "t \<in> set ts" "has_clock t"
  with assms(2,3) have "clock_in_bounds (t_clock t) (m (clock_var vo t))" "\<not> urgent vo t m"
    by (auto simp: clocks_in_bounds_def)
  then show "clock_in_bounds (t_clock t) (update_clocks elapse_value vo ts m (clock_var vo t))"
    using t by (auto simp: update_clocks_self [OF assms(1) t] elapse_value_def clock_in_bounds_def urgent_def)
qed

end
