(* ===== verification/Petri_Timed.thy ===== *)
theory Petri_Timed imports Petri_Clocks begin

text \<open>
  Time Petri nets as a step relation on the values of the variables: a time unit passes, or a
  transition whose clock is in its interval fires and the clocks of the disabled transitions are
  reset. \<open>TPNetTType::getSuccs\<close> computes the successors of this relation.
\<close>

section \<open>The step relation\<close>

definition clock_fires :: "varorder \<Rightarrow> PTransition \<Rightarrow> (int \<Rightarrow> int) \<Rightarrow> bool" where
  "clock_fires vo t m \<longleftrightarrow> \<not> has_clock t
     \<or> eft (t_clock t) \<le> m (clock_var vo t)
       \<and> (lft (t_clock t) = - 1 \<or> m (clock_var vo t) \<le> lft (t_clock t))"

definition fired :: "varorder \<Rightarrow> PTransition \<Rightarrow> (int \<Rightarrow> int) \<Rightarrow> int \<Rightarrow> int" where
  "fired vo t m =
     (let m0 = (if has_clock t then m(clock_var vo t := 0) else m)
      in (\<lambda>i. m0 i - tokens INPUT vo (t_arcs t) i + tokens OUTPUT vo (t_arcs t) i))"

inductive tpn_step :: "varorder \<Rightarrow> PTransition list \<Rightarrow> (int \<Rightarrow> int) \<Rightarrow> string option \<Rightarrow> (int \<Rightarrow> int) \<Rightarrow> bool"
  for vo ts where
  elapse: "\<forall>t\<in>set ts. \<not> urgent vo t m \<Longrightarrow> tpn_step vo ts m None (update_clocks elapse_value vo ts m)"
| fire: "t \<in> set ts \<Longrightarrow> t_enabled vo t m \<Longrightarrow> clock_fires vo t m
    \<Longrightarrow> tpn_step vo ts m (Some (t_label t)) (update_clocks reset_value vo ts (fired vo t m))"

inductive_cases tpn_step_elapse [elim!]: "tpn_step vo ts m None m'"
inductive_cases tpn_step_fire [elim!]: "tpn_step vo ts m (Some l) m'"

inductive tpn_reach :: "varorder \<Rightarrow> PTransition list \<Rightarrow> (int \<Rightarrow> int) \<Rightarrow> (int \<Rightarrow> int) \<Rightarrow> bool"
  for vo ts m0 where
  init: "tpn_reach vo ts m0 m0"
| step: "tpn_reach vo ts m0 m \<Longrightarrow> tpn_step vo ts m l m' \<Longrightarrow> tpn_reach vo ts m0 m'"

section \<open>Invariants of reachable states\<close>

definition idle_clocks_zero :: "varorder \<Rightarrow> PTransition list \<Rightarrow> (int \<Rightarrow> int) \<Rightarrow> bool" where
  "idle_clocks_zero vo ts m \<longleftrightarrow>
     (\<forall>t\<in>set ts. has_clock t \<longrightarrow> \<not> t_enabled vo t m \<longrightarrow> m (clock_var vo t) = 0)"

definition ordinary_net :: "varorder \<Rightarrow> PTransition list \<Rightarrow> bool" where
  "ordinary_net vo ts \<longleftrightarrow> clocks_apart vo ts \<and> (\<forall>t\<in>set ts. ordinary t
     \<and> inj_on (getIndex vo) ((\<lambda>a. av_place (hd (arc_places a))) ` set (t_arcs t)))"

lemma tokens_clock:
  assumes "clocks_apart vo ts" "t \<in> set ts" "u \<in> set ts" "has_clock u" "set as \<subseteq> set (t_arcs t)"
  shows "tokens k vo as (clock_var vo u) = 0"
  using assms(5)
proof (induction as)
  case (Cons a as)
  have "getIndex vo (av_place av) \<noteq> clock_var vo u" if "av \<in> set (arc_places a)" for av
    using clocks_apart_place [OF assms(1-4) _ that] Cons.prems by simp
  then have "arc_tokens vo a (clock_var vo u) = 0"
    by (auto simp: arc_tokens_def sum_list_0 cong: map_cong)
  with Cons show ?case by simp
qed simp

lemma fired_clock:
  assumes "clocks_apart vo ts" "t \<in> set ts" "u \<in> set ts" "has_clock u"
  shows "fired vo t m (clock_var vo u) = (if has_clock t \<and> t = u then 0 else m (clock_var vo u))"
  using tokens_clock [OF assms order_refl] clocks_apart_inj [OF assms(1-3) _ assms(4)]
  by (auto simp: fired_def Let_def)

lemma fired_keeps_bounds:
  "clocks_apart vo ts \<Longrightarrow> clocks_in_bounds vo ts m \<Longrightarrow> t \<in> set ts \<Longrightarrow> clocks_in_bounds vo ts (fired vo t m)"
  by (auto simp: clocks_in_bounds_def fired_clock clock_in_bounds_def)

lemma tpn_step_bounds:
  "tpn_step vo ts m l m' \<Longrightarrow> clocks_apart vo ts \<Longrightarrow> clocks_in_bounds vo ts m \<Longrightarrow> clocks_in_bounds vo ts m'"
  by (induction rule: tpn_step.induct) (simp_all add: elapse_keeps_bounds reset_keeps_bounds fired_keeps_bounds)

lemma tpn_step_idle:
  "tpn_step vo ts m l m' \<Longrightarrow> clocks_apart vo ts \<Longrightarrow> idle_clocks_zero vo ts m'"
  by (induction rule: tpn_step.induct)
     (simp_all add: idle_clocks_zero_def update_clocks_self update_clocks_enabled [OF _ order_refl]
        elapse_value_def reset_value_def)

lemma tpn_reach_bounds:
  assumes "tpn_reach vo ts m0 m" "clocks_apart vo ts" "clocks_in_bounds vo ts m0"
  shows "clocks_in_bounds vo ts m"
  using assms by (induction rule: tpn_reach.induct) (auto intro: tpn_step_bounds)

lemma tpn_reach_idle:
  assumes "tpn_reach vo ts m0 m" "clocks_apart vo ts" "idle_clocks_zero vo ts m0"
  shows "idle_clocks_zero vo ts m"
  using assms by (induction rule: tpn_reach.induct) (auto intro: tpn_step_idle)

text \<open>Firing an enabled ordinary transition leaves no negative value.\<close>

lemma ordinary_tokens_le:
  assumes "ordinary_net vo ts" "t \<in> set ts" "t_enabled vo t m" "\<forall>i. 0 \<le> m i"
  shows "tokens INPUT vo (t_arcs t) i \<le> m i"
proof -
  let ?p = "\<lambda>a. av_place (hd (arc_places a))"
  from assms(1,2) have t: "ordinary t" and inj: "inj_on (getIndex vo) (?p ` set (t_arcs t))"
    by (auto simp: ordinary_net_def)
  have "distinct (map (getIndex vo) (map ?p (filter (\<lambda>a. arc_type a = INPUT) (t_arcs t))))"
    using t inj by (subst distinct_map) (auto simp: ordinary_def intro: inj_on_subset)
  with assms t show ?thesis
    by (intro tokens_le_enabled) (auto simp: ordinary_def t_enabled_def o_def)
qed

lemma fired_nonneg:
  assumes "ordinary_net vo ts" "t \<in> set ts" "t_enabled vo t m" "\<forall>i. 0 \<le> m i"
  shows "0 \<le> fired vo t m i"
proof -
  from assms(1,2) have ap: "clocks_apart vo ts" and t: "ordinary t" by (auto simp: ordinary_net_def)
  have "0 \<le> tokens OUTPUT vo (t_arcs t) i"
    using t by (intro tokens_nonneg) (auto simp: ordinary_def)
  moreover have "tokens INPUT vo (t_arcs t) (clock_var vo t) = 0" if "has_clock t"
    using tokens_clock [OF ap assms(2,2) that order_refl] .
  ultimately show ?thesis
    using ordinary_tokens_le [OF assms, of i] by (auto simp: fired_def Let_def)
qed

lemma update_clocks_nonneg:
  "\<forall>i. 0 \<le> m i \<Longrightarrow> val = elapse_value \<or> val = reset_value \<Longrightarrow> 0 \<le> update_clocks val vo ts m i"
  by (auto simp: update_clocks_def elapse_value_def reset_value_def split: option.split)

lemma tpn_reach_nonneg:
  assumes "tpn_reach vo ts m0 m" "ordinary_net vo ts" "\<forall>i. 0 \<le> m0 i"
  shows "0 \<le> m i"
  using assms
proof (induction arbitrary: i rule: tpn_reach.induct)
  case (step m l m')
  from step.hyps(2) show ?case
    using step.IH step.prems fired_nonneg by cases (auto intro!: update_clocks_nonneg)
qed simp

section \<open>The homomorphisms compute the successors\<close>

lemma ordinary_net_net:
  assumes order: "setFromCollection (TPNet_getVarSet n) = Inr vo" and n: "net_ok n"
    and t: "\<forall>t\<in>set (n_trans n). ordinary t"
  shows "ordinary_net vo (n_trans n)"
proof -
  have "inj_on (getIndex vo) ((\<lambda>a. av_place (hd (arc_places a))) ` set (t_arcs t))" if "t \<in> set (n_trans n)" for t
  proof -
    have "av_place (hd (arc_places a)) \<in> set (TPNet_getVarSet n)" if "a \<in> set (t_arcs t)" for a
      using n that \<open>t \<in> set (n_trans n)\<close>
      by (force simp: net_ok_def arc_ok_def TPNet_getVarSet_def PNet_getVarSet_def)
    then show ?thesis using inj_index [OF order] by (auto simp: inj_on_def)
  qed
  with t clocks_apart_net [OF order n] show ?thesis by (simp add: ordinary_net_def)
qed

lemma reset_clocks_idle:
  "idle_clocks_zero vo ts m \<Longrightarrow> update_clocks reset_value vo ts m = m"
  by (auto simp: update_clocks_def reset_value_def idle_clocks_zero_def fun_eq_iff
      dest!: clock_of_Some split: option.split)

context ddd_library begin

lemma sapp_local_map:
  assumes "\<And>d. gapp h {d} = f ` {m \<in> {d}. P m}"
  shows "sapp (localApply h v) T = (\<lambda>s. s(v := f (s v))) ` {s \<in> T. P (s v)}"
  unfolding sapp_local assms by auto

lemma getOK_app:
  assumes "\<forall>m\<in>S. \<forall>i. 0 \<le> m i" "t_isTimed t"
  shows "gapp (getOK gops dHom (t_clock t) (clock_var vo t)) S = {m \<in> S. clock_fires vo t m}"
proof -
  have "eft (t_clock t) \<le> 0 \<Longrightarrow> eft (t_clock t) \<le> m (clock_var vo t)" if "m \<in> S" for m
    using assms(1) that by (meson order_trans)
  then show ?thesis
    using ddd.tests_getHom [of varGtState "clock_var vo t" "eft (t_clock t) - 1"]
      ddd.tests_getHom [of varLeqState "clock_var vo t" "lft (t_clock t)"] assms(2)
    by (auto simp: getOK_def Let_def g.app_id g.app_comp g.tests_def clock_fires_def has_clock_def)
qed

lemma fire_timed:
  assumes order: "setFromCollection (TPNet_getVarSet n) = Inr vo" and n: "net_ok n" "t \<in> set (n_trans n)"
    and t: "ordinary t" and S: "\<forall>m\<in>S. \<forall>i. 0 \<le> m i" and that: "t_isTimed t"
  shows "gapp (Hcomp gops (Hcomp gops (getFullHom gops dHom vo t) (getRZ gops dHom (t_clock t) (clock_var vo t)))
      (getOK gops dHom (t_clock t) (clock_var vo t))) S
    = fired vo t ` {m \<in> S. t_enabled vo t m \<and> clock_fires vo t m}"
proof -
  let ?rz = "\<lambda>m. if has_clock t then m(clock_var vo t := 0) else m"
  have ap: "clocks_apart vo (n_trans n)" by (rule clocks_apart_net [OF order n(1)])
  have rz: "gapp (getRZ gops dHom (t_clock t) (clock_var vo t)) X = ?rz ` X" for X
    using that by (auto simp: getRZ_def g.app_id ddd.app_setVarConst has_clock_def)
  have places: "set (n_places n) \<subseteq> set (TPNet_getVarSet n)"
    by (auto simp: TPNet_getVarSet_def PNet_getVarSet_def)
  have en: "t_enabled vo t (?rz m) = t_enabled vo t m" for m
    using t_enabled_upd [OF ap n(2,2)] by simp
  let ?X = "?rz ` {m \<in> S. clock_fires vo t m}"
  have "gapp (getFullHom gops dHom vo t) ?X
      = (\<lambda>m i. m i - tokens INPUT vo (t_arcs t) i + tokens OUTPUT vo (t_arcs t) i) ` {m \<in> ?X. t_enabled vo t m}"
    using S by (intro fire_ordinary [OF order places n t]) auto
  also have "\<dots> = (\<lambda>m i. m i - tokens INPUT vo (t_arcs t) i + tokens OUTPUT vo (t_arcs t) i)
      ` ?rz ` {m \<in> S. t_enabled vo t m \<and> clock_fires vo t m}"
  proof -
    have "{m \<in> f ` A. P m} = f ` {m \<in> A. P (f m)}" for f :: "(int \<Rightarrow> int) \<Rightarrow> int \<Rightarrow> int" and A P by auto
    then show ?thesis by (simp only: en mem_Collect_eq conj_ac)
  qed
  also have "\<dots> = fired vo t ` {m \<in> S. t_enabled vo t m \<and> clock_fires vo t m}"
    by (simp add: image_image fired_def Let_def)
  finally show ?thesis
    using that by (simp add: g.app_comp getOK_app [OF S that] rz)
qed

lemma TPNet_transition_sound:
  assumes order: "setFromCollection (TPNet_getVarSet n) = Inr vo" and n: "net_ok n" "t \<in> set (n_trans n)"
    and t: "ordinary t" and T: "\<forall>s\<in>T. \<forall>i. 0 \<le> s DEFAULT_VAR i"
  shows "sapp (TPNet_getTransitionHom gops dHom (ddd_encapsulate localApply) vo t) T
    = (\<lambda>s. s(DEFAULT_VAR := fired vo t (s DEFAULT_VAR)))
        ` {s \<in> T. t_enabled vo t (s DEFAULT_VAR) \<and> clock_fires vo t (s DEFAULT_VAR)}"
proof -
  have places: "set (n_places n) \<subseteq> set (TPNet_getVarSet n)"
    by (auto simp: TPNet_getVarSet_def PNet_getVarSet_def)
  obtain h where h: "TPNet_getTransitionHom gops dHom (ddd_encapsulate localApply) vo t = localApply h DEFAULT_VAR"
    and app: "\<And>S. \<forall>m\<in>S. \<forall>i. 0 \<le> m i \<Longrightarrow> gapp h S = fired vo t ` {m \<in> S. t_enabled vo t m \<and> clock_fires vo t m}"
  proof (cases "t_isTimed t")
    case True
    with fire_timed [OF order n t _ True] that show ?thesis
      by (simp add: TPNet_getTransitionHom_def ddd_encapsulate_def Let_def clock_var_def)
  next
    case False
    with fire_ordinary [OF order places n t] that show ?thesis
      by (simp add: TPNet_getTransitionHom_def PNet_getTransitionHom_def ddd_encapsulate_def
          fired_def clock_fires_def has_clock_def)
  qed
  have "sapp (localApply h DEFAULT_VAR) T = (\<Union>s\<in>T. (\<lambda>d. s(DEFAULT_VAR := d)) `
      fired vo t ` {m \<in> {s DEFAULT_VAR}. t_enabled vo t m \<and> clock_fires vo t m})"
    unfolding sapp_local using T by (intro SUP_cong refl arg_cong [where f = "image _"] app) auto
  then show ?thesis unfolding h by auto
qed

text \<open>The successors of a set of states by one step of the relation.\<close>

lemma elapse_successors:
  assumes order: "setFromCollection (TPNet_getVarSet n) = Inr vo" and n: "net_ok n"
  obtains h where "TPNet_getSuccs gops dHom sops (ddd_encapsulate localApply) n vo [''elapse''] = Inr h"
    and "sapp h T = {s(DEFAULT_VAR := m') | s m'. s \<in> T \<and> tpn_step vo (n_trans n) (s DEFAULT_VAR) None m'}"
proof -
  have "sapp (localApply (elapseHom gops dHom n vo) DEFAULT_VAR) T
      = (\<lambda>s. s(DEFAULT_VAR := update_clocks elapse_value vo (n_trans n) (s DEFAULT_VAR)))
        ` {s \<in> T. \<forall>t\<in>set (n_trans n). \<not> urgent vo t (s DEFAULT_VAR)}"
    by (rule sapp_local_map) (rule elapse_sound [OF order n])
  also have "\<dots> = {s(DEFAULT_VAR := m') | s m'. s \<in> T \<and> tpn_step vo (n_trans n) (s DEFAULT_VAR) None m'}"
    by (auto intro: tpn_step.elapse)
  finally show ?thesis
    using that by (simp add: TPNet_getSuccs_def ddd_encapsulate_def)
qed

lemma label_hom:
  assumes order: "setFromCollection (TPNet_getVarSet n) = Inr vo" and n: "net_ok n"
    and t: "\<forall>t\<in>set (n_trans n). ordinary t" and l: "l \<in> t_label ` set (n_trans n)"
    and T: "\<forall>s\<in>T. \<forall>i. 0 \<le> s DEFAULT_VAR i"
  obtains h where "PNet_getSuccs sops (TPNet_getTransitionHom gops dHom (ddd_encapsulate localApply) vo) n [l] = Inr h"
    and "sapp h T = {s(DEFAULT_VAR := fired vo t (s DEFAULT_VAR)) | s t. s \<in> T \<and> t \<in> set (n_trans n)
      \<and> t_label t = l \<and> t_enabled vo t (s DEFAULT_VAR) \<and> clock_fires vo t (s DEFAULT_VAR)}"
proof -
  let ?f = "TPNet_getTransitionHom gops dHom (ddd_encapsulate localApply) vo"
  obtain h where h: "label_action sops ?f l (n_trans n) None = Some h"
    using s.app_label_action [of ?f l "n_trans n" None "label_action sops ?f l (n_trans n) None"] l
    by (cases "label_action sops ?f l (n_trans n) None") auto
  with s.app_label_action [of ?f l "n_trans n" None "Some h"]
  have app: "sapp h S = (\<Union>t\<in>{t \<in> set (n_trans n). t_label t = l}. sapp (?f t) S)" for S by simp
  have "sapp (Hcomp sops h (Hid sops)) T = (\<Union>t\<in>{t \<in> set (n_trans n). t_label t = l}.
      (\<lambda>s. s(DEFAULT_VAR := fired vo t (s DEFAULT_VAR)))
        ` {s \<in> T. t_enabled vo t (s DEFAULT_VAR) \<and> clock_fires vo t (s DEFAULT_VAR)})"
    unfolding s.app_comp s.app_id app using T t
    by (intro SUP_cong refl TPNet_transition_sound [OF order n]) auto
  then have "sapp (Hcomp sops h (Hid sops)) T = {s(DEFAULT_VAR := fired vo t (s DEFAULT_VAR)) | s t. s \<in> T \<and> t \<in> set (n_trans n)
      \<and> t_label t = l \<and> t_enabled vo t (s DEFAULT_VAR) \<and> clock_fires vo t (s DEFAULT_VAR)}"
    by auto
  with h that show ?thesis by (simp add: PNet_getSuccs_def)
qed

lemma reset_app:
  assumes order: "setFromCollection (TPNet_getVarSet n) = Inr vo" and n: "net_ok n"
  shows "sapp (getResetDisabled gops dHom (ddd_encapsulate localApply) n vo) T
    = (\<lambda>s. s(DEFAULT_VAR := update_clocks reset_value vo (n_trans n) (s DEFAULT_VAR))) ` T"
proof -
  have "gapp (fold (reset_step gops dHom vo) (n_trans n) (Hid gops)) {d}
      = update_clocks reset_value vo (n_trans n) ` {m \<in> {d}. True}" for d
    by (simp add: reset_sound [OF order n])
  from sapp_local_map [OF this] show ?thesis
    by (simp add: getResetDisabled_def ddd_encapsulate_def)
qed

lemma label_successors:
  assumes order: "setFromCollection (TPNet_getVarSet n) = Inr vo" and n: "net_ok n"
    and t: "\<forall>t\<in>set (n_trans n). ordinary t" and l: "l \<in> t_label ` set (n_trans n)" "l \<noteq> ''elapse''"
    and T: "\<forall>s\<in>T. (\<forall>i. 0 \<le> s DEFAULT_VAR i) \<and> idle_clocks_zero vo (n_trans n) (s DEFAULT_VAR)"
  obtains h where "TPNet_getSuccs gops dHom sops (ddd_encapsulate localApply) n vo [l] = Inr h"
    and "sapp h T = {s(DEFAULT_VAR := m') | s m'. s \<in> T \<and> tpn_step vo (n_trans n) (s DEFAULT_VAR) (Some l) m'}"
proof -
  let ?reset = "update_clocks reset_value vo (n_trans n)"
  let ?succ = "\<lambda>T. {s(DEFAULT_VAR := fired vo t (s DEFAULT_VAR)) | s t. s \<in> T \<and> t \<in> set (n_trans n)
      \<and> t_label t = l \<and> t_enabled vo t (s DEFAULT_VAR) \<and> clock_fires vo t (s DEFAULT_VAR)}"
  from T have nonneg: "\<forall>s\<in>T. \<forall>i. 0 \<le> s DEFAULT_VAR i" by blast
  obtain r where r: "PNet_getSuccs sops (TPNet_getTransitionHom gops dHom (ddd_encapsulate localApply) vo) n [l] = Inr r"
    and app: "sapp r T = ?succ T"
    by (rule label_hom [OF order n t l(1) nonneg])
  have steps: "{s(DEFAULT_VAR := m') | s m'. s \<in> T \<and> tpn_step vo (n_trans n) (s DEFAULT_VAR) (Some l) m'}
      = (\<lambda>s. s(DEFAULT_VAR := ?reset (s DEFAULT_VAR))) ` ?succ T"
    by (auto simp: image_iff intro: tpn_step.fire)
       (metis fun_upd_same fun_upd_upd, blast intro: tpn_step.fire)
  show ?thesis
  proof (cases "Hselector sops r")
    case True
    have "?reset (s DEFAULT_VAR) = s DEFAULT_VAR" if "s \<in> sapp r T" for s
      using s.app_selector [OF True, of T] that T reset_clocks_idle by blast
    then have "(\<lambda>s. s(DEFAULT_VAR := ?reset (s DEFAULT_VAR))) ` sapp r T = sapp r T"
      by (simp add: fun_upd_idem cong: image_cong)
    with True r l(2) that [of r] steps app show ?thesis by (simp add: TPNet_getSuccs_def)
  next
    case False
    with r l(2) that [of "Hcomp sops (getResetDisabled gops dHom (ddd_encapsulate localApply) n vo) r"] steps app
    show ?thesis by (simp add: TPNet_getSuccs_def s.app_comp reset_app [OF order n])
  qed
qed

end

section \<open>The states reached by applying the homomorphisms\<close>

text \<open>What the code builds for a net: \<open>getSuccs\<close> of every list of labels, \<open>elapse\<close> included, and \<open>getLocals\<close>.\<close>

definition TPNet_homs :: "'g hom_ops \<Rightarrow> 'g basic_hom \<Rightarrow> 's hom_ops \<Rightarrow> ('g \<Rightarrow> 's) \<Rightarrow> PNet \<Rightarrow> varorder \<Rightarrow> 's set" where
  "TPNet_homs H getHom sH enc n vo =
     insert (getLocals sH (TPNet_getTransitionHom H getHom enc vo) (getResetDisabled H getHom enc n vo) n)
       {h. \<exists>tau. TPNet_getSuccs H getHom sH enc n vo tau = Inr h}"

inductive hom_reach :: "('s \<Rightarrow> 'st set \<Rightarrow> 'st set) \<Rightarrow> 's set \<Rightarrow> 'st \<Rightarrow> 'st \<Rightarrow> bool" for app hs s0 where
  start: "hom_reach app hs s0 s0"
| further: "hom_reach app hs s0 s \<Longrightarrow> h \<in> hs \<Longrightarrow> s' \<in> app h {s} \<Longrightarrow> hom_reach app hs s0 s'"

lemma hom_reach_invariant:
  assumes "hom_reach app hs s0 s" "I s0" "\<And>h s s'. h \<in> hs \<Longrightarrow> I s \<Longrightarrow> s' \<in> app h {s} \<Longrightarrow> I s'"
  shows "I s"
  using assms(1)
proof induction
  case start
  show ?case by (rule assms(2))
next
  case (further s h s')
  from assms(3) [OF further.hyps(2) further.IH further.hyps(3)] show ?case .
qed

text \<open>The arcs of a transition do not touch clocks.\<close>

lemma arc_effects_clock:
  assumes "clocks_apart vo ts" "t \<in> set ts" "u \<in> set ts" "has_clock u" "a \<in> set (t_arcs t)"
    and "m' \<in> arc_effects (\<lambda>d. d) (\<lambda>d v k. d(v := k)) vo a m"
  shows "m' (clock_var vo u) = m (clock_var vo u)"
proof -
  have "clock_var vo u \<noteq> getIndex vo (av_place av)" if "av \<in> set (arc_places a)" for av
    using clocks_apart_place [OF assms(1-5) that] by simp
  with assms(6) show ?thesis by (cases "arc_type a") (auto simp: arc_effects_def)
qed

lemma arcs_effects_clock:
  assumes "clocks_apart vo ts" "t \<in> set ts" "u \<in> set ts" "has_clock u"
  shows "set as \<subseteq> set (t_arcs t) \<Longrightarrow> m' \<in> arcs_effects (\<lambda>d. d) (\<lambda>d v k. d(v := k)) vo as m
    \<Longrightarrow> m' (clock_var vo u) = m (clock_var vo u)"
proof (induction as arbitrary: m)
  case (Cons a as)
  then obtain m1 where "m1 \<in> arc_effects (\<lambda>d. d) (\<lambda>d v k. d(v := k)) vo a m"
    "m' \<in> arcs_effects (\<lambda>d. d) (\<lambda>d v k. d(v := k)) vo as m1" unfolding arcs_effects.simps by blast
  with Cons arc_effects_clock [OF assms, of a m1 m] show ?case by (simp del: fun_upd_apply)
qed simp

context ddd_library begin

lemma sapp_local_mem: "s' \<in> sapp (localApply h v) T \<longleftrightarrow> (\<exists>s\<in>T. \<exists>d\<in>gapp h {s v}. s' = s(v := d))"
  by (subst sapp_local) blast

lemma getOK_subset: "gapp (getOK gops dHom c v) S \<subseteq> S"
  using ddd.tests_getHom [of varGtState v "eft c - 1"] ddd.tests_getHom [of varLeqState v "lft c"]
  by (auto simp: getOK_def Let_def g.app_id g.app_comp g.tests_def)

text \<open>A transition changes at most its own clock, and sets it to 0.\<close>

lemma transition_clock:
  assumes ap: "clocks_apart vo ts" and t: "t \<in> set ts" and u: "u \<in> set ts" "has_clock u"
    and s': "s' \<in> sapp (TPNet_getTransitionHom gops dHom (ddd_encapsulate localApply) vo t) {s}"
  shows "s' DEFAULT_VAR (clock_var vo u) \<in> {0, s DEFAULT_VAR (clock_var vo u)}"
proof -
  let ?eff = "\<lambda>m. arcs_effects (\<lambda>d. d) (\<lambda>d v k. d(v := k)) vo (t_arcs t) m"
  note same = arcs_effects_clock [OF ap t u order_refl]
  show ?thesis
  proof (cases "t_isTimed t")
    case True
    let ?rz = "\<lambda>m. if lft (t_clock t) = 0 then m else m(clock_var vo t := 0)"
    have rz: "gapp (getRZ gops dHom (t_clock t) (clock_var vo t)) X = ?rz ` X" for X
      by (simp add: getRZ_def g.app_id ddd.app_setVarConst)
    have "s' \<in> sapp (localApply (Hcomp gops (Hcomp gops (getFullHom gops dHom vo t) (getRZ gops dHom (t_clock t) (clock_var vo t)))
        (getOK gops dHom (t_clock t) (clock_var vo t))) DEFAULT_VAR) {s}"
      using s' True by (simp add: TPNet_getTransitionHom_def ddd_encapsulate_def Let_def clock_var_def)
    then obtain d where d: "s' = s(DEFAULT_VAR := d)"
      "d \<in> gapp (getFullHom gops dHom vo t) (?rz ` gapp (getOK gops dHom (t_clock t) (clock_var vo t)) {s DEFAULT_VAR})"
      by (auto simp: sapp_local_mem g.app_comp rz simp del: fun_upd_apply)
    then have "d \<in> ?eff (?rz (s DEFAULT_VAR))"
      using getOK_subset [of "t_clock t" "clock_var vo t" "{s DEFAULT_VAR}"]
      by (fastforce simp: ddd.app_full simp del: fun_upd_apply)
    from same [OF this] d(1) show ?thesis by auto
  next
    case False
    then have "s' \<in> sapp (localApply (getFullHom gops dHom vo t) DEFAULT_VAR) {s}"
      using s' by (simp add: TPNet_getTransitionHom_def PNet_getTransitionHom_def ddd_encapsulate_def)
    then obtain d where "s' = s(DEFAULT_VAR := d)" "d \<in> ?eff (s DEFAULT_VAR)"
      by (auto simp: sapp_local_mem ddd.app_full simp del: fun_upd_apply)
    with same show ?thesis by simp
  qed
qed

text \<open>What every transition, the reset of clocks and the passing of time keep, all homomorphisms keep.\<close>

lemma mem_single: "s' \<in> sapp h T \<longleftrightarrow> (\<exists>s\<in>T. s' \<in> sapp h {s})"
  by (subst s.app_linear) blast

lemma label_action_keeps:
  assumes "label_action sops f l ts None = Some h" and "\<And>t. t \<in> set ts \<Longrightarrow> sapp (f t) T \<subseteq> I"
  shows "sapp h T \<subseteq> I"
  using s.app_label_action [OF assms(1), of T] assms(2) by auto

lemma getSuccs_keeps:
  assumes "getSuccs_loop sops f ts tau r = Inr h" "sapp r T \<subseteq> I" and "\<And>t S. t \<in> set ts \<Longrightarrow> S \<subseteq> I \<Longrightarrow> sapp (f t) S \<subseteq> I"
  shows "sapp h T \<subseteq> I"
  using assms(1,2)
proof (induction tau arbitrary: r)
  case (Cons l tau)
  then obtain k where k: "label_action sops f l ts None = Some k" "getSuccs_loop sops f ts tau (Hcomp sops k r) = Inr h"
    by (auto split: option.splits)
  have "sapp (Hcomp sops k r) T \<subseteq> I"
    unfolding s.app_comp by (rule label_action_keeps [OF k(1)]) (rule assms(3) [OF _ Cons.prems(2)])
  with Cons.IH [OF k(2)] show ?case by blast
qed simp

lemma homs_keep:
  assumes "h \<in> TPNet_homs gops dHom sops (ddd_encapsulate localApply) n vo" "T \<subseteq> I"
    and trans: "\<And>t S. t \<in> set (n_trans n) \<Longrightarrow> S \<subseteq> I
      \<Longrightarrow> sapp (TPNet_getTransitionHom gops dHom (ddd_encapsulate localApply) vo t) S \<subseteq> I"
    and reset: "\<And>S. S \<subseteq> I \<Longrightarrow> sapp (getResetDisabled gops dHom (ddd_encapsulate localApply) n vo) S \<subseteq> I"
    and elapse: "\<And>S. S \<subseteq> I \<Longrightarrow> sapp (localApply (elapseHom gops dHom n vo) DEFAULT_VAR) S \<subseteq> I"
  shows "sapp h T \<subseteq> I"
proof -
  let ?f = "TPNet_getTransitionHom gops dHom (ddd_encapsulate localApply) vo"
  let ?r = "getResetDisabled gops dHom (ddd_encapsulate localApply) n vo"
  consider (locals) "h = getLocals sops ?f ?r n"
    | (succs) tau where "TPNet_getSuccs gops dHom sops (ddd_encapsulate localApply) n vo tau = Inr h"
    using assms(1) by (auto simp: TPNet_homs_def)
  then show ?thesis
  proof cases
    case locals
    have one: "sapp (if \<not> Hselector sops (?f t) then Hcomp sops ?r (?f t) else ?f t) T \<subseteq> I" if "t \<in> set (n_trans n)" for t
      using trans [OF that assms(2)] reset by (simp add: s.app_comp)
    let ?hs = "map (\<lambda>t. if \<not> Hselector sops (?f t) then Hcomp sops ?r (?f t) else ?f t) (filter (\<lambda>t. t_vis t = PRIVATE) (n_trans n))"
    have "sapp (Hadd sops ?hs) T \<subseteq> I" unfolding s.app_add using one by (fastforce simp only: set_map set_filter)
    then show ?thesis by (simp add: locals getLocals_def Let_def s.app_null)
  next
    case succs
    show ?thesis
    proof (cases "tau = [''elapse'']")
      case True
      with succs have "h = localApply (elapseHom gops dHom n vo) DEFAULT_VAR"
        by (simp add: TPNet_getSuccs_def ddd_encapsulate_def)
      then show ?thesis using elapse [OF assms(2)] by simp
    next
      case False
      with succs obtain k where k: "getSuccs_loop sops ?f (n_trans n) tau (Hid sops) = Inr k"
        by (cases "getSuccs_loop sops ?f (n_trans n) tau (Hid sops)") (auto simp: TPNet_getSuccs_def PNet_getSuccs_def)
      with succs False have h: "h = (if \<not> Hselector sops k then Hcomp sops ?r k else k)"
        by (simp add: TPNet_getSuccs_def PNet_getSuccs_def split: if_splits)
      have "sapp k T \<subseteq> I" by (rule getSuccs_keeps [OF k _ trans]) (simp add: s.app_id assms(2))
      with h reset show ?thesis by (simp add: s.app_comp)
    qed
  qed
qed

lemma homs_keep_bounds:
  assumes order: "setFromCollection (TPNet_getVarSet n) = Inr vo" and n: "net_ok n"
    and h: "h \<in> TPNet_homs gops dHom sops (ddd_encapsulate localApply) n vo"
    and s: "clocks_in_bounds vo (n_trans n) (s DEFAULT_VAR)" "s' \<in> sapp h {s}"
  shows "clocks_in_bounds vo (n_trans n) (s' DEFAULT_VAR)"
proof -
  let ?I = "{s. clocks_in_bounds vo (n_trans n) (s DEFAULT_VAR)}"
  note ap = clocks_apart_net [OF order n]
  have "sapp h {s} \<subseteq> ?I"
  proof (rule homs_keep [OF h])
    fix t S assume t: "t \<in> set (n_trans n)" and S: "S \<subseteq> ?I"
    show "sapp (TPNet_getTransitionHom gops dHom (ddd_encapsulate localApply) vo t) S \<subseteq> ?I"
    proof (clarify)
      fix s' assume "s' \<in> sapp (TPNet_getTransitionHom gops dHom (ddd_encapsulate localApply) vo t) S"
      then obtain s where s: "s \<in> S" "s' \<in> sapp (TPNet_getTransitionHom gops dHom (ddd_encapsulate localApply) vo t) {s}"
        by (subst (asm) mem_single) blast
      then have "clocks_in_bounds vo (n_trans n) (s DEFAULT_VAR)" using S by blast
      then show "clocks_in_bounds vo (n_trans n) (s' DEFAULT_VAR)"
        using transition_clock [OF ap t _ _ s(2)] by (fastforce simp: clocks_in_bounds_def clock_in_bounds_def)
    qed
  next
    show "sapp (getResetDisabled gops dHom (ddd_encapsulate localApply) n vo) S \<subseteq> ?I" if "S \<subseteq> ?I" for S
      using that reset_keeps_bounds [OF ap] by (auto simp: reset_app [OF order n])
  next
    show "sapp (localApply (elapseHom gops dHom n vo) DEFAULT_VAR) S \<subseteq> ?I" if "S \<subseteq> ?I" for S
      using that elapse_keeps_bounds [OF ap] by (fastforce simp: sapp_local_mem elapse_sound [OF order n])
  qed (use s in simp)
  with s(2) show ?thesis by blast
qed

lemma homs_keep_nonneg:
  assumes order: "setFromCollection (TPNet_getVarSet n) = Inr vo" and n: "net_ok n"
    and ord: "\<forall>t\<in>set (n_trans n). ordinary t"
    and h: "h \<in> TPNet_homs gops dHom sops (ddd_encapsulate localApply) n vo"
    and s: "\<forall>i. 0 \<le> s DEFAULT_VAR i" "s' \<in> sapp h {s}"
  shows "0 \<le> s' DEFAULT_VAR i"
proof -
  let ?I = "{s :: sdd_path. \<forall>i. 0 \<le> s DEFAULT_VAR i}"
  have "sapp h {s} \<subseteq> ?I"
  proof (rule homs_keep [OF h])
    fix t S assume t: "t \<in> set (n_trans n)" and S: "S \<subseteq> ?I"
    then have "\<forall>s\<in>S. \<forall>i. 0 \<le> s DEFAULT_VAR i" by blast
    from TPNet_transition_sound [OF order n t bspec [OF ord t] this] S
      fired_nonneg [OF ordinary_net_net [OF order n ord] t]
    show "sapp (TPNet_getTransitionHom gops dHom (ddd_encapsulate localApply) vo t) S \<subseteq> ?I" by fastforce
  next
    show "sapp (getResetDisabled gops dHom (ddd_encapsulate localApply) n vo) S \<subseteq> ?I" if "S \<subseteq> ?I" for S
      using that update_clocks_nonneg [of _ reset_value] by (fastforce simp: reset_app [OF order n])
  next
    show "sapp (localApply (elapseHom gops dHom n vo) DEFAULT_VAR) S \<subseteq> ?I" if "S \<subseteq> ?I" for S
      using that update_clocks_nonneg [of _ elapse_value] by (fastforce simp: sapp_local_mem elapse_sound [OF order n])
  qed (use s in simp)
  with s(2) show ?thesis by blast
qed

end

end
