(* ===== verification/Petri_Props.thy ===== *)
theory Petri_Props imports Petri_Timed begin

text \<open>
  The properties of predicates, variable orders and Petri nets. A hypothesis \<open>ddd_library \<dots>\<close> is the
  documented behaviour of the decision diagram library (\<open>Hom_Interface\<close>); the witnesses take the
  library on sets of paths, \<open>lin_ops\<close>, \<open>lin\<close>, \<open>lin_prim\<close>, \<open>lin_local\<close>.
\<close>

section \<open>Variable orders\<close>

text \<open>C23 (roundtrip): in the order made from a list of names, \<open>getIndex\<close> and \<open>getLabel\<close> are inverse to
  each other, the names being numbered in the order given.\<close>

theorem order_bijection:
  assumes "setFromCollection vs = Inr vo" "i < length vs"
  shows "getIndex vo (vs ! i) = int i \<and> getLabel vo (getIndex vo (vs ! i)) = vs ! i"
  using order_roundtrip [OF assms] by simp

theorem order_bijection_witness:
  "getIndex [(''p'', 0), (''q'', 1)] (hd (tl [''p'', ''q''])) = 1
    \<and> getLabel [(''p'', 0), (''q'', 1)] 1 = ''q''"
  using order_bijection [of "[''p'', ''q'']" "[(''p'', 0), (''q'', 1)]" 1]
  by (simp add: setFromCollection_eq)

section \<open>Predicates\<close>

text \<open>C24 (roundtrip): a formula written with parentheses around its operands is parsed to a homomorphism
  that selects, in either encoding of states, exactly the states where the formula holds.\<close>

theorem getPredicate_selects:
  assumes lib: "ddd_library gops gapp sops sapp gprim localApply"
    and vo: "setFromCollection vs = Inr vo" and x: "formula_ok vo x"
  shows "(\<exists>h. getPredicate sops (getAPredicate (ddd_encapsulated gprim localApply) vo) (written x) = Inr h
      \<and> sapp h T = {s \<in> T. meaning vo x (s DEFAULT_VAR)})
    \<and> (\<exists>h. getPredicate sops (getAPredicate (sdd_getHom gprim localApply) vo) (written x) = Inr h
      \<and> sapp h T = {s \<in> T. meaning vo x (marking_of s)})"
  by (rule ddd_library.predicate_selects [OF lib vo x])

definition sample_formula :: formula where
  "sample_formula = FAnd (Atom ''p'' varGeqState 1) (FNot (Atom ''q'' varEqState (- 3)))"

lemma sample_order: "setFromCollection [''p'', ''q''] = Inr [(''p'', 0), (''q'', 1)]"
  by (simp add: setFromCollection_eq)

lemma sample_formula_ok: "formula_ok [(''p'', 0), (''q'', 1)] sample_formula"
  by (simp add: sample_formula_def plain_name_def is_comp_char_def int32_def INT_MIN_def INT_MAX_def)

theorem getPredicate_selects_witness:
  "(\<exists>h. getPredicate lin_ops (getAPredicate (ddd_encapsulated lin_prim lin_local) [(''p'', 0), (''q'', 1)])
        ''(p>=1)&&(!(q=-3))'' = Inr h
      \<and> lin h UNIV = {s. meaning [(''p'', 0), (''q'', 1)] sample_formula (s DEFAULT_VAR)})
    \<and> (\<exists>h. getPredicate lin_ops (getAPredicate (sdd_getHom lin_prim lin_local) [(''p'', 0), (''q'', 1)])
        ''(p>=1)&&(!(q=-3))'' = Inr h
      \<and> lin h UNIV = {s. meaning [(''p'', 0), (''q'', 1)] sample_formula (marking_of s)})"
proof -
  have "written sample_formula = ''(p>=1)&&(!(q=-3))''" by code_simp
  with getPredicate_selects [OF lin_library.ddd_library_axioms sample_order sample_formula_ok, of UNIV]
  show ?thesis by simp
qed

text \<open>The negation \<open>!\<close> applies to everything that follows it, not to the parenthesis
  after it: \<open>!(x)&&(y)\<close> is parsed as the negation of \<open>x && y\<close>.\<close>

theorem negation_scope:
  assumes "vo_ok vo" "formula_ok vo x" "formula_ok vo y"
  shows "getPredicate H (getAPredicate getHom vo) (''!('' @ written x @ '')&&('' @ written y @ '')'')
    = Inr (hom_of H getHom vo (FNot (FAnd x y)))"
  using getPredicate_written [of vo "FAnd x y" H getHom] assms
  by (simp add: getPredicate_not)

theorem negation_scope_witness:
  "getPredicate lin_ops (getAPredicate (ddd_encapsulated lin_prim lin_local) [(''p'', 0), (''q'', 1)])
     ''!(p>1)&&(q<2)''
   = Inr (hom_of lin_ops (ddd_encapsulated lin_prim lin_local) [(''p'', 0), (''q'', 1)]
       (FNot (FAnd (Atom ''p'' varGtState 1) (Atom ''q'' varLtState 2))))"
proof -
  have digits: "show_int 1 = ''1''" "show_int 2 = ''2''" by code_simp+
  show ?thesis
    using negation_scope [OF order_of_ok(1) [OF sample_order], of "Atom ''p'' varGtState 1"
      "Atom ''q'' varLtState 2" lin_ops "ddd_encapsulated lin_prim lin_local"]
    by (simp add: digits plain_name_def is_comp_char_def int32_def INT_MIN_def INT_MAX_def)
qed

section \<open>Building nets\<close>

text \<open>\<open>addHArc\<close> keeps the net well-formed, and answers true exactly when there is at
  least one place, all places exist and the transition exists.\<close>

theorem addHArc_correct:
  assumes "net_ok n" "addHArc avs t at n = Inr (n', b)"
  shows "net_ok n' \<and> (b \<longleftrightarrow> avs \<noteq> [] \<and> t \<in> t_name ` set (n_trans n) \<and> (\<forall>p\<in>set avs. fst p \<in> set (n_places n)))"
  using addHArc_ok [OF assms] by blast

definition small_net :: PNet where
  "small_net = \<lparr>n_name = ''m'', n_places = [''p'', ''q''],
     n_trans = [\<lparr>t_name = ''t'', t_label = ''go'', t_vis = PUBLIC,
       t_arcs = [\<lparr>arc_places = [\<lparr>av_place = ''p'', av_val = 1\<rparr>], arc_type = INPUT\<rparr>,
                 \<lparr>arc_places = [\<lparr>av_place = ''q'', av_val = 2\<rparr>], arc_type = OUTPUT\<rparr>],
       t_clock = \<lparr>eft = 1, lft = 2\<rparr>\<rparr>],
     n_markings = [(''init'', [(''p'', 1)])]\<rparr>"

lemma small_net_sel [simp]:
  "n_places small_net = [''p'', ''q'']" "n_markings small_net = [(''init'', [(''p'', 1)])]"
  by (simp_all add: small_net_def)

lemma small_net_ok: "net_ok small_net"
  by (simp add: net_ok_def small_net_def arc_ok_def clock_ok_def)

lemma small_net_ordinary: "\<forall>t\<in>set (n_trans small_net). ordinary t"
  by (simp add: small_net_def ordinary_def ordinary_arc_def)

lemma addHArc_unknown_place:
  "addHArc [(''p'', 1), (''r'', 1)] ''t'' INHIBITOR small_net = Inr (small_net, False)"
  by (simp add: addHArc_def small_net_def)

theorem addHArc_correct_witness:
  "net_ok small_net \<and> \<not> (\<forall>p\<in>set [(''p'', 1 :: int), (''r'', 1)]. fst p \<in> set (n_places small_net))"
  using addHArc_correct [OF small_net_ok addHArc_unknown_place] by (simp add: small_net_def)

text \<open>A place keeps the first number of tokens it is given in a state; places that are
  given none have 0.\<close>

theorem first_marking_kept:
  "Marking_getMarking (Marking_setMarking p v m) q = (if q = p \<and> p \<notin> fst ` set m then v else Marking_getMarking m q)"
  by (rule getMarking_setMarking)

section \<open>The token game\<close>

text \<open>C25 (refinement): \<open>PNetTType::getSuccs\<close>, over a library that behaves as documented. The net is built by
  the operations of its class, its variables are in the order made from the names of its places, and it is
  ordinary: every arc has one place, there is no reset arc, valuations are not negative on input arcs and
  positive on output arcs, and the input places of a transition are distinct. From states without negative
  values, the homomorphism of a sequence of labels that exist leads to the markings reached by firing one
  enabled transition of each label in turn. Markings are unbounded integers: nothing is said of values that
  \<open>DDD::val_t\<close> cannot hold. For other nets see \<open>twice_goes_negative\<close> and \<open>zero_output_blocks\<close>.\<close>

theorem PNet_getSuccs_correct:
  assumes lib: "ddd_library gops gapp sops sapp gprim localApply"
    and "setFromCollection (PNet_getVarSet n) = Inr vo" "net_ok n" "\<forall>t\<in>set (n_trans n). ordinary t"
    and "set tau \<subseteq> t_label ` set (n_trans n)" "\<forall>s\<in>T. \<forall>i. 0 \<le> s DEFAULT_VAR i"
  shows "\<exists>h. PNet_getSuccs sops (PNet_getTransitionHom gops (ddd_getHom gprim) (ddd_encapsulate localApply) vo) n tau = Inr h
    \<and> sapp h T = (\<Union>s\<in>T. (\<lambda>m. s(DEFAULT_VAR := m)) ` fire_labels vo (n_trans n) tau (s DEFAULT_VAR))"
  by (rule ddd_library.PNet_getSuccs_sound [OF assms])

abbreviation "small_vo \<equiv> [(''p'', 0::int), (''q'', 1)]"

definition one_token :: sdd_path where
  "one_token = (\<lambda>_. (\<lambda>_. 0)(0 := 1))"

theorem PNet_getSuccs_correct_witness:
  "\<exists>h. PNet_getSuccs lin_ops (PNet_getTransitionHom lin_ops (ddd_getHom lin_prim) (ddd_encapsulate lin_local) small_vo)
      small_net [''go''] = Inr h
    \<and> lin h {one_token} = (\<Union>s\<in>{one_token}. (\<lambda>m. s(DEFAULT_VAR := m))
        ` fire_labels small_vo (n_trans small_net) [''go''] (s DEFAULT_VAR))"
proof (rule PNet_getSuccs_correct [OF lin_library.ddd_library_axioms _ small_net_ok small_net_ordinary])
  show "setFromCollection (PNet_getVarSet small_net) = Inr small_vo"
    by (simp add: PNet_getVarSet_def sample_order)
qed (auto simp: small_net_def one_token_def)

text \<open>\<open>PNetTType::getLocals\<close> computes the successors by one private transition.\<close>

theorem getLocals_correct:
  assumes lib: "ddd_library gops gapp sops sapp gprim localApply"
    and "setFromCollection (PNet_getVarSet n) = Inr vo" "net_ok n" "\<forall>t\<in>set (n_trans n). ordinary t"
    and "\<forall>s\<in>T. \<forall>i. 0 \<le> s DEFAULT_VAR i"
  shows "sapp (getLocals sops (PNet_getTransitionHom gops (ddd_getHom gprim) (ddd_encapsulate localApply) vo) (Hid sops) n) T
    = {s(DEFAULT_VAR := moved vo t (s DEFAULT_VAR)) | s t. s \<in> T \<and> t \<in> set (n_trans n) \<and> t_vis t = PRIVATE
        \<and> t_enabled vo t (s DEFAULT_VAR)}"
  by (rule ddd_library.getLocals_sound [OF assms])

theorem getLocals_correct_witness:
  "lin (getLocals lin_ops (PNet_getTransitionHom lin_ops (ddd_getHom lin_prim) (ddd_encapsulate lin_local) small_vo)
     (Hid lin_ops) small_net) {one_token} = {}"
proof -
  have "lin (getLocals lin_ops (PNet_getTransitionHom lin_ops (ddd_getHom lin_prim) (ddd_encapsulate lin_local) small_vo)
      (Hid lin_ops) small_net) {one_token}
    = {s(DEFAULT_VAR := moved small_vo t (s DEFAULT_VAR)) | s t. s \<in> {one_token} \<and> t \<in> set (n_trans small_net)
        \<and> t_vis t = PRIVATE \<and> t_enabled small_vo t (s DEFAULT_VAR)}"
    by (rule getLocals_correct [OF lin_library.ddd_library_axioms _ small_net_ok small_net_ordinary])
       (simp_all add: PNet_getVarSet_def sample_order one_token_def)
  then show ?thesis by (simp add: small_net_def)
qed

text \<open>The two encodings of markings agree. Firing a transition on SDDs over the places
  and reading the markings off gives what firing it on a DDD over the places gives.\<close>

theorem encodings_agree:
  assumes "ddd_library gops gapp sops sapp gprim localApply"
  shows "marking_of ` sapp (getFullHom sops (sdd_getHom gprim localApply) vo t) T
    = gapp (getFullHom gops (ddd_getHom gprim) vo t) (marking_of ` T)"
  by (rule ddd_library.fire_encodings [OF assms])

theorem encodings_agree_witness:
  "marking_of ` lin (getFullHom lin_ops (sdd_getHom lin_prim lin_local) small_vo twice) UNIV
    = lin (getFullHom lin_ops (ddd_getHom lin_prim) small_vo twice) (range marking_of)"
  by (rule encodings_agree [OF lin_library.ddd_library_axioms])

text \<open>The node of an initial state assigns to every variable its initial marking, the
  last variable of the order on top.\<close>

theorem getMarking_correct:
  assumes "node_library N path" "setFromCollection vs = Inr vo"
  shows "path (getMarking N m vo) = rev (map (\<lambda>i. (int i, Marking_getMarking m (vs ! i))) [0..<length vs])"
proof -
  have "vo_size vo = length vs" using order_of_ok(2) [OF assms(2)] by (metis length_map vo_size_def)
  moreover have "map (\<lambda>i. (int i, Marking_getMarking m (getLabel vo (int i)))) [0..<length vs]
      = map (\<lambda>i. (int i, Marking_getMarking m (vs ! i))) [0..<length vs]"
    using order_roundtrip(2) [OF assms(2)] by simp
  ultimately show ?thesis by (simp add: node_library.path_getMarking [OF assms(1)])
qed

theorem getMarking_correct_witness:
  "getMarking list_nodes [(''q'', 4)] small_vo = [(1, 4), (0, 0)]"
  using getMarking_correct [OF list_paths.node_library_axioms sample_order, of "[(''q'', 4)]"]
  by (simp add: Marking_getMarking_def upt_rec)

section \<open>Time\<close>

lemma TPNet_elapse_sound:
  assumes "ddd_library gops gapp sops sapp gprim localApply"
    and "setFromCollection (TPNet_getVarSet n) = Inr vo" "net_ok n"
  shows "\<exists>h. TPNet_getSuccs gops (ddd_getHom gprim) sops (ddd_encapsulate localApply) n vo [''elapse''] = Inr h
    \<and> sapp h T = {s(DEFAULT_VAR := m') | s m'. s \<in> T \<and> tpn_step vo (n_trans n) (s DEFAULT_VAR) None m'}"
proof -
  obtain h where "TPNet_getSuccs gops (ddd_getHom gprim) sops (ddd_encapsulate localApply) n vo [''elapse''] = Inr h"
    and "sapp h T = {s(DEFAULT_VAR := m') | s m'. s \<in> T \<and> tpn_step vo (n_trans n) (s DEFAULT_VAR) None m'}"
    by (rule ddd_library.elapse_successors [OF assms])
  then show ?thesis by (intro exI [of _ h] conjI)
qed

text \<open>C26 (refinement): \<open>TPNetTType::getSuccs\<close> for the label \<open>elapse\<close> computes the states reached when one
  time unit passes: no enabled transition has reached its latest firing time, the clocks of enabled
  transitions advance (up to the earliest firing time when there is no latest one), the others are 0.\<close>

theorem TPNet_elapse_correct:
  assumes "ddd_library gops gapp sops sapp gprim localApply"
    and "setFromCollection (TPNet_getVarSet n) = Inr vo" "net_ok n"
  shows "\<exists>h. TPNet_getSuccs gops (ddd_getHom gprim) sops (ddd_encapsulate localApply) n vo [''elapse''] = Inr h
    \<and> sapp h T = {s(DEFAULT_VAR := m') | s m'. s \<in> T \<and> tpn_step vo (n_trans n) (s DEFAULT_VAR) None m'}"
  by (rule TPNet_elapse_sound [OF assms])

abbreviation "timed_vo \<equiv> [(''__clock_t'', 0::int), (''p'', 1), (''q'', 2)]"

lemma timed_order: "setFromCollection (TPNet_getVarSet small_net) = Inr timed_vo"
  by (simp add: setFromCollection_eq TPNet_getVarSet_def PNet_getVarSet_def small_net_def clockName_def
      t_isTimed_def clock_isTimed_def upt_rec)

theorem TPNet_elapse_correct_witness:
  "\<exists>h. TPNet_getSuccs lin_ops (ddd_getHom lin_prim) lin_ops (ddd_encapsulate lin_local) small_net timed_vo [''elapse''] = Inr h
    \<and> lin h {one_token} = {s(DEFAULT_VAR := m') | s m'. s \<in> {one_token}
        \<and> tpn_step timed_vo (n_trans small_net) (s DEFAULT_VAR) None m'}"
  by (rule TPNet_elapse_correct [OF lin_library.ddd_library_axioms timed_order small_net_ok])

text \<open>C27 (refinement): \<open>TPNetTType::getSuccs\<close> for one label that exists and is not \<open>elapse\<close>, over a library
  that behaves as documented. The net is built by the operations of its class, its variables are in the order
  made from the names of its clocks and places, which are distinct, and it is ordinary: every arc has one place,
  there is no reset arc, valuations are not negative on input arcs and positive on output arcs, and the input
  places of a transition are distinct. From states without negative values in which the clocks of disabled
  transitions are 0, the homomorphism leads to the states reached by firing an enabled transition with that
  label whose clock is in its interval, the clocks of the transitions then disabled being reset. Markings are
  unbounded integers.\<close>

theorem TPNet_label_correct:
  assumes "ddd_library gops gapp sops sapp gprim localApply"
    and "setFromCollection (TPNet_getVarSet n) = Inr vo" "net_ok n" "\<forall>t\<in>set (n_trans n). ordinary t"
    and "l \<in> t_label ` set (n_trans n)" "l \<noteq> ''elapse''"
    and "\<forall>s\<in>T. (\<forall>i. 0 \<le> s DEFAULT_VAR i) \<and> idle_clocks_zero vo (n_trans n) (s DEFAULT_VAR)"
  shows "\<exists>h. TPNet_getSuccs gops (ddd_getHom gprim) sops (ddd_encapsulate localApply) n vo [l] = Inr h
    \<and> sapp h T = {s(DEFAULT_VAR := m') | s m'. s \<in> T \<and> tpn_step vo (n_trans n) (s DEFAULT_VAR) (Some l) m'}"
proof -
  obtain h where "TPNet_getSuccs gops (ddd_getHom gprim) sops (ddd_encapsulate localApply) n vo [l] = Inr h"
    and "sapp h T = {s(DEFAULT_VAR := m') | s m'. s \<in> T \<and> tpn_step vo (n_trans n) (s DEFAULT_VAR) (Some l) m'}"
    by (rule ddd_library.label_successors [OF assms])
  then show ?thesis by (intro exI [of _ h] conjI)
qed

text \<open>A token in \<open>p\<close>, the clock at 1.\<close>

definition clock_state :: sdd_path where
  "clock_state = (\<lambda>_. (\<lambda>_. 0)(0 := 1, 1 := 1))"

theorem TPNet_label_correct_witness:
  "\<exists>h. TPNet_getSuccs lin_ops (ddd_getHom lin_prim) lin_ops (ddd_encapsulate lin_local) small_net timed_vo [''go''] = Inr h
    \<and> lin h {clock_state} = {s(DEFAULT_VAR := m') | s m'. s \<in> {clock_state}
        \<and> tpn_step timed_vo (n_trans small_net) (s DEFAULT_VAR) (Some ''go'') m'}"
  by (rule TPNet_label_correct [OF lin_library.ddd_library_axioms timed_order small_net_ok small_net_ordinary])
     (auto simp: small_net_def clock_state_def idle_clocks_zero_def t_enabled_def arc_enabled_def getIndex_def)

text \<open>C28 (invariant): whatever homomorphisms the code builds for a well-formed time Petri net whose clocks and
  places have distinct names (\<open>getLocals\<close>, and \<open>getSuccs\<close> of any labels, \<open>elapse\<close> included; hyperarcs, resets
  and inhibitors allowed) and in whatever order they are applied, from a state whose clocks are in their bounds
  they only lead to states where each clock is between 0 and the latest firing time of its transition (the
  earliest when there is no latest one).\<close>

theorem clocks_stay_in_bounds:
  assumes "ddd_library gops gapp sops sapp gprim localApply"
    and "setFromCollection (TPNet_getVarSet n) = Inr vo" "net_ok n"
    and "hom_reach sapp (TPNet_homs gops (ddd_getHom gprim) sops (ddd_encapsulate localApply) n vo) s0 s"
    and "clocks_in_bounds vo (n_trans n) (s0 DEFAULT_VAR)"
  shows "clocks_in_bounds vo (n_trans n) (s DEFAULT_VAR)"
proof (rule hom_reach_invariant [OF assms(4), where I = "\<lambda>s. clocks_in_bounds vo (n_trans n) (s DEFAULT_VAR)"])
  show "clocks_in_bounds vo (n_trans n) (s' DEFAULT_VAR)"
    if "h \<in> TPNet_homs gops (ddd_getHom gprim) sops (ddd_encapsulate localApply) n vo"
      "clocks_in_bounds vo (n_trans n) (s DEFAULT_VAR)" "s' \<in> sapp h {s}" for h s s'
    by (rule ddd_library.homs_keep_bounds [OF assms(1-3) that])
qed (rule assms(5))

text \<open>A token in \<open>p\<close> and the clock at 0, and one time unit later.\<close>

definition token_early :: sdd_path where
  "token_early = (\<lambda>_. (\<lambda>_. 0)(1 := 1))"

definition token_later :: sdd_path where
  "token_later = token_early(DEFAULT_VAR := (\<lambda>_. 0)(0 := 1, 1 := 1))"

lemma small_net_elapse:
  "hom_reach lin (TPNet_homs lin_ops (ddd_getHom lin_prim) lin_ops (ddd_encapsulate lin_local) small_net timed_vo)
     token_early token_later" (is "hom_reach _ ?hs _ _")
proof -
  have upd: "update_clocks elapse_value timed_vo (n_trans small_net) (token_early DEFAULT_VAR) = (\<lambda>_. 0)(0 := 1, 1 := 1)"
    by (simp add: small_net_def token_early_def update_clocks_def clock_of_def elapse_value_def t_enabled_def arc_enabled_def
        getIndex_def has_clock_def t_isTimed_def clock_isTimed_def clock_var_def clockName_def fun_eq_iff)
  have step: "tpn_step timed_vo (n_trans small_net) (token_early DEFAULT_VAR) None ((\<lambda>_. 0)(0 := 1, 1 := 1))"
    unfolding upd [symmetric]
    by (rule tpn_step.elapse) (simp add: small_net_def token_early_def urgent_def t_enabled_def arc_enabled_def getIndex_def
        has_clock_def clock_var_def clockName_def)
  have mem: "token_later \<in> {s(DEFAULT_VAR := m') | s m'. s \<in> {token_early} \<and> tpn_step timed_vo (n_trans small_net) (s DEFAULT_VAR) None m'}"
    unfolding token_later_def mem_Collect_eq using step by (intro exI conjI) (rule refl, rule singletonI)
  from TPNet_elapse_sound [OF lin_library.ddd_library_axioms timed_order small_net_ok, of "{token_early}"]
  obtain h where h: "TPNet_getSuccs lin_ops (ddd_getHom lin_prim) lin_ops (ddd_encapsulate lin_local) small_net timed_vo [''elapse''] = Inr h"
    "lin h {token_early} = {s(DEFAULT_VAR := m') | s m'. s \<in> {token_early} \<and> tpn_step timed_vo (n_trans small_net) (s DEFAULT_VAR) None m'}"
    by blast
  have "h \<in> ?hs" using h(1) unfolding TPNet_homs_def by blast
  moreover have "token_later \<in> lin h {token_early}" unfolding h(2) by (rule mem)
  moreover have "hom_reach lin ?hs token_early token_early" by (rule hom_reach.start)
  ultimately show ?thesis by (rule hom_reach.further [rotated])
qed

theorem clocks_stay_in_bounds_witness:
  "clocks_in_bounds timed_vo (n_trans small_net) (token_later DEFAULT_VAR)"
proof (rule clocks_stay_in_bounds [OF lin_library.ddd_library_axioms timed_order small_net_ok small_net_elapse])
  show "clocks_in_bounds timed_vo (n_trans small_net) (token_early DEFAULT_VAR)"
    by (simp add: clocks_in_bounds_def small_net_def token_early_def clock_var_def clockName_def getIndex_def clock_in_bounds_def)
qed

text \<open>C29 (safety): on a well-formed time Petri net whose clocks and places have distinct names and whose arcs
  have one place each, without resets, with distinct input places for each transition, non-negative valuations
  on input arcs and positive ones on output arcs, the homomorphisms the code builds (\<open>getLocals\<close>, and \<open>getSuccs\<close>
  of any labels, \<open>elapse\<close> included), applied in any order from a state without negative values, never lead to a
  state with a negative marking or clock. Markings are unbounded integers.\<close>

theorem markings_stay_nonnegative:
  assumes "ddd_library gops gapp sops sapp gprim localApply"
    and "setFromCollection (TPNet_getVarSet n) = Inr vo" "net_ok n" "\<forall>t\<in>set (n_trans n). ordinary t"
    and "hom_reach sapp (TPNet_homs gops (ddd_getHom gprim) sops (ddd_encapsulate localApply) n vo) s0 s"
    and "\<forall>i. 0 \<le> s0 DEFAULT_VAR i"
  shows "0 \<le> s DEFAULT_VAR i"
proof (rule spec [OF hom_reach_invariant [OF assms(5), where I = "\<lambda>s. \<forall>i. 0 \<le> s DEFAULT_VAR i"]])
  show "\<forall>i. 0 \<le> s' DEFAULT_VAR i"
    if "h \<in> TPNet_homs gops (ddd_getHom gprim) sops (ddd_encapsulate localApply) n vo"
      "\<forall>i. 0 \<le> s DEFAULT_VAR i" "s' \<in> sapp h {s}" for h s s'
    using ddd_library.homs_keep_nonneg [OF assms(1-4) that] by blast
qed (rule assms(6))

theorem markings_stay_nonnegative_witness:
  "0 \<le> token_later DEFAULT_VAR 1"
  by (rule markings_stay_nonnegative [OF lin_library.ddd_library_axioms timed_order small_net_ok small_net_ordinary small_net_elapse])
     (simp add: token_early_def)

end
