(* ===== verification/Composite.thy ===== *)
theory Composite imports Its_Prelude begin

text \<open>
  Composite types (\<open>its/composite/Composite.hh\<close>, \<open>Composite.cpp\<close>, \<open>CState.hh\<close>, \<open>Synchronization.hh\<close>,
  \<open>TComposite.hh\<close>): named instances of other types, synchronizations of their labels, and named
  states. A type is a pointer to an object of the model; \<open>'ty\<close> stands for it, and \<open>findType\<close>,
  \<open>getTransLabels\<close> for the calls on the model and on the type.
\<close>

section \<open>Data\<close>

type_synonym CState = "(string \<times> string) list"

definition setSubState :: "string \<Rightarrow> string \<Rightarrow> CState \<Rightarrow> CState" where
  "setSubState variable v s = map_insert variable v s"

definition getSubState :: "CState \<Rightarrow> string \<Rightarrow> string" where
  "getSubState s pname = (case map_of s pname of None \<Rightarrow> '''' | Some v \<Rightarrow> v)"

record Synchronization =
  sy_name :: string
  sy_label :: string
  sy_parts :: "(string \<times> string) list"

definition addPart :: "string \<Rightarrow> string \<Rightarrow> Synchronization \<Rightarrow> Synchronization" where
  "addPart subnet trLabel s = s\<lparr>sy_parts := sy_parts s @ [(subnet, trLabel)]\<rparr>"

record 'ty Composite =
  c_name :: string
  comps :: "(string \<times> 'ty) list"
  syncs :: "Synchronization list"
  cstates :: "(string \<times> CState) list"
  exposed :: "(string \<times> string) list"

definition Composite_of :: "string \<Rightarrow> 'ty Composite" where
  "Composite_of name = \<lparr>c_name = name, comps = [], syncs = [], cstates = [], exposed = []\<rparr>"

definition exposedIn :: "'ty Composite \<Rightarrow> string \<Rightarrow> string" where
  "exposedIn c varname = (case map_of (exposed c) varname of None \<Rightarrow> '''' | Some v \<Rightarrow> v)"

definition exposeVarIn :: "string \<Rightarrow> string \<Rightarrow> 'ty Composite \<Rightarrow> 'ty Composite" where
  "exposeVarIn varname compname c = c\<lparr>exposed := map_assign varname compname (exposed c)\<rparr>"

section \<open>Operations\<close>

text \<open>Each answers whether it succeeded.\<close>

definition addInstance ::
  "(string \<Rightarrow> 'ty option) \<Rightarrow> string \<Rightarrow> string \<Rightarrow> 'ty Composite \<Rightarrow> 'ty Composite \<times> bool" where
  "addInstance findType name type_name c =
     (case findType type_name of
        None \<Rightarrow> (c, False)
      | Some type \<Rightarrow>
          if map_of (comps c) name \<noteq> None then (c, False)
          else (c\<lparr>comps := comps c @ [(name, type)]\<rparr>, True))"

definition addSynchronization :: "string \<Rightarrow> string \<Rightarrow> 'ty Composite \<Rightarrow> 'ty Composite \<times> bool" where
  "addSynchronization sname slabel c =
     (if list_ex (\<lambda>s. sy_name s = sname) (syncs c) then (c, False)
      else (c\<lparr>syncs := syncs c @ [\<lparr>sy_name = sname, sy_label = slabel, sy_parts = []\<rparr>]\<rparr>, True))"

text \<open>The first synchronization with the name gets the part.\<close>

fun part_to :: "string \<Rightarrow> string \<Rightarrow> string \<Rightarrow> Synchronization list \<Rightarrow> Synchronization list" where
  "part_to sname subnetname tname [] = []"
| "part_to sname subnetname tname (s # ss) =
     (if sy_name s = sname then addPart subnetname tname s # ss
      else s # part_to sname subnetname tname ss)"

definition addSyncPart ::
  "('ty \<Rightarrow> string list) \<Rightarrow> string \<Rightarrow> string \<Rightarrow> string \<Rightarrow> 'ty Composite \<Rightarrow> 'ty Composite \<times> bool" where
  "addSyncPart getTransLabels sname subnetname tname c =
     (if \<not> list_ex (\<lambda>s. sy_name s = sname) (syncs c) then (c, False)
      else if subnetname = ''self'' then (c\<lparr>syncs := part_to sname subnetname tname (syncs c)\<rparr>, True)
      else
        case map_of (comps c) subnetname of
          None \<Rightarrow> (c, False)
        | Some subnet \<Rightarrow>
            if tname \<notin> set (getTransLabels subnet) then (c, False)
            else (c\<lparr>syncs := part_to sname subnetname tname (syncs c)\<rparr>, True))"

definition updateStateDef :: "string \<Rightarrow> string \<Rightarrow> string \<Rightarrow> 'ty Composite \<Rightarrow> 'ty Composite \<times> bool" where
  "updateStateDef state subnet substate c =
     (let ret = (map_of (cstates c) state = None);
          m = map_insert state [] (cstates c)
      in (c\<lparr>cstates := map (\<lambda>(n, s). (n, if n = state then setSubState subnet substate s else s)) m\<rparr>, ret))"

text \<open>\<open>TComposite\<close> adds every instance to the synchronization \<open>elapse\<close>.\<close>

definition TComposite_of :: "string \<Rightarrow> 'ty Composite" where
  "TComposite_of name = fst (addSynchronization ''elapse'' ''elapse'' (Composite_of name))"

definition TComposite_addInstance ::
  "(string \<Rightarrow> 'ty option) \<Rightarrow> ('ty \<Rightarrow> string list) \<Rightarrow> string \<Rightarrow> string \<Rightarrow> 'ty Composite \<Rightarrow> 'ty Composite \<times> bool" where
  "TComposite_addInstance findType getTransLabels name type_name c =
     (let (c', ok) = addInstance findType name type_name c
      in if ok then addSyncPart getTransLabels ''elapse'' name ''elapse'' c' else (c', False))"

section \<open>Well-formed composites\<close>

text \<open>
  Names are unique, and every part of a synchronization that is not \<open>self\<close> names an instance whose
  type offers the label.
\<close>

definition part_ok :: "('ty \<Rightarrow> string list) \<Rightarrow> (string \<times> 'ty) list \<Rightarrow> string \<times> string \<Rightarrow> bool" where
  "part_ok getTransLabels cs p \<longleftrightarrow>
     fst p = ''self'' \<or> (\<exists>ty. map_of cs (fst p) = Some ty \<and> snd p \<in> set (getTransLabels ty))"

definition composite_ok :: "('ty \<Rightarrow> string list) \<Rightarrow> 'ty Composite \<Rightarrow> bool" where
  "composite_ok getTransLabels c \<longleftrightarrow>
     distinct (map fst (comps c)) \<and> distinct (map sy_name (syncs c)) \<and> distinct (map fst (cstates c))
     \<and> (\<forall>s\<in>set (syncs c). \<forall>p\<in>set (sy_parts s). part_ok getTransLabels (comps c) p)"

lemma composite_ok_of: "composite_ok L (Composite_of name)"
  by (simp add: composite_ok_def Composite_of_def)

lemma part_ok_append: "part_ok L cs p \<Longrightarrow> part_ok L (cs @ ds) p"
  by (auto simp: part_ok_def)

lemma map_of_None_fst: "map_of m k = None \<longleftrightarrow> k \<notin> fst ` set m"
  by (rule map_of_eq_None_iff)

lemma addInstance_ok:
  assumes "composite_ok L c" "addInstance findType name ty_name c = (c', ok)"
  shows "composite_ok L c'"
    and "ok \<longleftrightarrow> findType ty_name \<noteq> None \<and> name \<notin> fst ` set (comps c)"
    and "comps c' = comps c @ (if ok then [(name, the (findType ty_name))] else [])"
proof -
  have "composite_ok L c' \<and> (ok \<longleftrightarrow> findType ty_name \<noteq> None \<and> name \<notin> fst ` set (comps c))
      \<and> comps c' = comps c @ (if ok then [(name, the (findType ty_name))] else [])"
  proof (cases "findType ty_name \<noteq> None \<and> name \<notin> fst ` set (comps c)")
    case True
    then have "(c', ok) = (c\<lparr>comps := comps c @ [(name, the (findType ty_name))]\<rparr>, True)"
      using assms(2) by (auto simp: addInstance_def map_of_None_fst)
    moreover have "\<forall>s\<in>set (syncs c). \<forall>p\<in>set (sy_parts s). part_ok L (comps c @ [(name, the (findType ty_name))]) p"
      using assms(1) part_ok_append unfolding composite_ok_def by metis
    ultimately show ?thesis using True assms(1) by (simp add: composite_ok_def)
  next
    case False
    then have "(c', ok) = (c, False)"
      using assms(2) by (auto simp: addInstance_def map_of_None_fst split: option.splits)
    then show ?thesis using False assms(1) by simp
  qed
  then show "composite_ok L c'" "ok \<longleftrightarrow> findType ty_name \<noteq> None \<and> name \<notin> fst ` set (comps c)"
    "comps c' = comps c @ (if ok then [(name, the (findType ty_name))] else [])" by auto
qed

lemma addSynchronization_ok:
  assumes "composite_ok L c" "addSynchronization sname slabel c = (c', ok)"
  shows "composite_ok L c'" and "ok \<longleftrightarrow> sname \<notin> sy_name ` set (syncs c)"
  using assms by (auto simp: addSynchronization_def composite_ok_def list_ex_iff split: if_splits)

lemma part_to_names [simp]: "map sy_name (part_to sname sub t ss) = map sy_name ss"
  by (induction ss) (auto simp: addPart_def)

lemma part_to_parts:
  "s \<in> set (part_to sname sub t ss) \<Longrightarrow> p \<in> set (sy_parts s) \<Longrightarrow>
     p = (sub, t) \<or> (\<exists>s'\<in>set ss. p \<in> set (sy_parts s'))"
  by (induction ss) (auto simp: addPart_def split: if_splits)

lemma addSyncPart_ok:
  assumes "composite_ok L c" "addSyncPart L sname sub t c = (c', ok)"
  shows "composite_ok L c'"
    and "ok \<longleftrightarrow> sname \<in> sy_name ` set (syncs c) \<and> part_ok L (comps c) (sub, t)"
    and "comps c' = comps c"
proof -
  have parts: "\<forall>s\<in>set (part_to sname sub t (syncs c)). \<forall>p\<in>set (sy_parts s). part_ok L (comps c) p"
    if "part_ok L (comps c) (sub, t)"
    using that assms(1) part_to_parts unfolding composite_ok_def by metis
  have "composite_ok L c' \<and> (ok \<longleftrightarrow> sname \<in> sy_name ` set (syncs c) \<and> part_ok L (comps c) (sub, t))
      \<and> comps c' = comps c"
  proof (cases "sname \<in> sy_name ` set (syncs c) \<and> part_ok L (comps c) (sub, t)")
    case True
    then have "(c', ok) = (c\<lparr>syncs := part_to sname sub t (syncs c)\<rparr>, True)"
      using assms(2) by (auto simp: addSyncPart_def part_ok_def list_ex_iff split: if_splits)
    then show ?thesis using True parts assms(1) by (simp add: composite_ok_def)
  next
    case False
    then have "(c', ok) = (c, False)"
      using assms(2) by (auto simp: addSyncPart_def part_ok_def list_ex_iff split: if_splits option.splits)
    then show ?thesis using False assms(1) by simp
  qed
  then show "composite_ok L c'" "ok \<longleftrightarrow> sname \<in> sy_name ` set (syncs c) \<and> part_ok L (comps c) (sub, t)"
    "comps c' = comps c" by auto
qed

lemma updateStateDef_ok:
  assumes "composite_ok L c" "updateStateDef st sub v c = (c', ok)"
  shows "composite_ok L c'"
    and "getSubState (the (map_of (cstates c') st)) sub
      = (case map_of (cstates c) st of None \<Rightarrow> v
         | Some s \<Rightarrow> if sub \<in> fst ` set s then getSubState s sub else v)"
proof -
  define m where "m = map_insert st [] (cstates c)"
  have c': "c' = c\<lparr>cstates := map (\<lambda>(n, s). (n, if n = st then setSubState sub v s else s)) m\<rparr>"
    using assms(2) by (simp add: updateStateDef_def m_def Let_def)
  have "map fst (map (\<lambda>(n, s). (n, if n = st then setSubState sub v s else s)) m) = map fst m" by (induction m) auto
  moreover have "distinct (map fst m)" using assms(1) by (auto simp: m_def map_insert_def composite_ok_def)
  moreover have "cstates c' = map (\<lambda>(n, s). (n, if n = st then setSubState sub v s else s)) m" by (simp add: c')
  ultimately have "distinct (map fst (cstates c'))" by (simp only:)
  then show "composite_ok L c'" using assms(1) by (simp add: c' composite_ok_def)
  have "map_of (map (\<lambda>(n, s). (n, if n = st then setSubState sub v s else s)) m) st
      = map_option (setSubState sub v) (map_of m st)" by (induction m) auto
  moreover have "map_of m st = Some (case map_of (cstates c) st of None \<Rightarrow> [] | Some s \<Rightarrow> s)"
    by (auto simp: m_def map_of_map_insert split: option.splits)
  moreover have "getSubState (setSubState sub v s) sub = (if sub \<in> fst ` set s then getSubState s sub else v)" for s
  proof -
    have "sub \<in> fst ` set s \<longleftrightarrow> map_of s sub \<noteq> None" by (simp add: map_of_None_fst)
    then show ?thesis
      by (cases "map_of s sub") (simp_all add: getSubState_def setSubState_def map_of_map_insert)
  qed
  ultimately show "getSubState (the (map_of (cstates c') st)) sub
      = (case map_of (cstates c) st of None \<Rightarrow> v
         | Some s \<Rightarrow> if sub \<in> fst ` set s then getSubState s sub else v)"
    by (simp add: c' split: option.split)
qed

text \<open>
  A timed composite answers false for an instance without \<open>elapse\<close>, although it has added it.
\<close>

lemma untimed_instance:
  assumes "findType ty_name = Some ty" "name \<notin> fst ` set (comps c)" "name \<noteq> ''self''" "''elapse'' \<notin> set (L ty)"
  shows "TComposite_addInstance findType L name ty_name c = (c\<lparr>comps := comps c @ [(name, ty)]\<rparr>, False)"
proof -
  have "map_of (comps c @ [(name, ty)]) name = Some ty"
    using assms(2) by (simp add: map_add_def map_of_None_fst [THEN iffD2] split: option.split)
  moreover have "addInstance findType name ty_name c = (c\<lparr>comps := comps c @ [(name, ty)]\<rparr>, True)"
    using assms(1,2) by (simp add: addInstance_def map_of_None_fst)
  ultimately show ?thesis
    using assms(3,4) by (simp add: TComposite_addInstance_def addSyncPart_def del: map_of_append)
qed

section \<open>Composites that are built\<close>

text \<open>Composites made by the operations that build them.\<close>

inductive built :: "('ty \<Rightarrow> string list) \<Rightarrow> (string \<Rightarrow> 'ty option) \<Rightarrow> 'ty Composite \<Rightarrow> bool" for L findType where
  new: "built L findType (Composite_of name)"
| timed: "built L findType (TComposite_of name)"
| inst: "built L findType c \<Longrightarrow> built L findType (fst (addInstance findType name type c))"
| timed_inst: "built L findType c \<Longrightarrow> built L findType (fst (TComposite_addInstance findType L name type c))"
| sync: "built L findType c \<Longrightarrow> built L findType (fst (addSynchronization name label c))"
| part: "built L findType c \<Longrightarrow> built L findType (fst (addSyncPart L sname sub t c))"
| state: "built L findType c \<Longrightarrow> built L findType (fst (updateStateDef st sub v c))"
| expose: "built L findType c \<Longrightarrow> built L findType (exposeVarIn var cname c)"

lemma operations_ok:
  assumes "composite_ok L c"
  shows "composite_ok L (fst (addInstance findType name type c))"
    and "composite_ok L (fst (addSynchronization name label c))"
    and "composite_ok L (fst (addSyncPart L sname sub t c))"
    and "composite_ok L (fst (updateStateDef st sub v c))"
  using addInstance_ok(1) [OF assms, OF prod.collapse [symmetric]]
    addSynchronization_ok(1) [OF assms, OF prod.collapse [symmetric]]
    addSyncPart_ok(1) [OF assms, OF prod.collapse [symmetric]]
    updateStateDef_ok(1) [OF assms, OF prod.collapse [symmetric]] by auto

lemma built_ok: "built L findType c \<Longrightarrow> composite_ok L c"
proof (induction rule: built.induct)
  case (timed name)
  show ?case unfolding TComposite_of_def by (intro operations_ok composite_ok_of)
next
  case (timed_inst c name type)
  obtain c' ok where eq: "addInstance findType name type c = (c', ok)" by fastforce
  have "composite_ok L c'" using operations_ok(1) [OF timed_inst.IH, of findType name type] eq by simp
  then show ?case using operations_ok(3) [of L c' "''elapse''" name "''elapse''"]
    by (simp add: TComposite_addInstance_def eq)
qed (auto simp: exposeVarIn_def composite_ok_of intro: operations_ok, simp add: composite_ok_def)

end
