(* ===== verification/Composite_Type.thy ===== *)
theory Composite_Type imports Composite Type_Basics Hom_Interface begin

text \<open>
  The type of a composite (\<open>its/composite/CompositeType.cpp\<close>): its labelled and local transitions, made
  from those of its instances. A state of a composite is an SDD with one variable per instance, the
  label of the variable being a set of states of the instance; with a single instance, the state of the
  composite is the state of the instance.
\<close>

section \<open>The types of instances\<close>

text \<open>What the code calls on \<open>instance->getType()\<close>; \<open>'h\<close> are \<open>Transition\<close>s, \<open>'n\<close> are \<open>State\<close>s.\<close>

record ('ty, 'h, 'n) its_type =
  ty_transLabels :: "'ty \<Rightarrow> labels"
  ty_getSuccs :: "'ty \<Rightarrow> labels \<Rightarrow> 'h res"
  ty_getLocals :: "'ty \<Rightarrow> 'h res"
  ty_getNamedLocals :: "'ty \<Rightarrow> (string \<times> 'h) list res"
  ty_getPredicate :: "'ty \<Rightarrow> string \<Rightarrow> 'h res"
  ty_getState :: "'ty \<Rightarrow> string \<Rightarrow> 'n res"
  ty_getVarIndex :: "'ty \<Rightarrow> int list \<Rightarrow> string \<Rightarrow> int list res"
  ty_addFlatVarSet :: "'ty \<Rightarrow> labels \<Rightarrow> string \<Rightarrow> labels res"

section \<open>Transitions\<close>

definition CompositeType_getInitStates :: "'ty Composite \<Rightarrow> labels" where
  "CompositeType_getInitStates c = map fst (cstates c)"

text \<open>The labels, in the order of a \<open>std::set<vLabel>\<close>.\<close>

definition CompositeType_getTransLabels :: "'ty Composite \<Rightarrow> labels" where
  "CompositeType_getTransLabels c = sort (remdups (map sy_label (syncs c)))"

definition skipLocalApply :: "('h \<Rightarrow> int \<Rightarrow> 'h) \<Rightarrow> 'ty Composite \<Rightarrow> 'h \<Rightarrow> int \<Rightarrow> 'h res" where
  "skipLocalApply localApply c h index =
     (if length (comps c) = 1 then (if index = 0 then Inr h else Inl (Abort ''assert(index == 0)''))
      else Inr (localApply h index))"

text \<open>One part of a synchronization; \<open>succs\<close> is \<open>getSuccs\<close> of the composite itself.\<close>

definition sync_part ::
  "('ty, 'h, 'n) its_type \<Rightarrow> ('h \<Rightarrow> int \<Rightarrow> 'h) \<Rightarrow> 'ty Composite \<Rightarrow> varorder \<Rightarrow> (labels \<Rightarrow> 'h res) \<Rightarrow>
     string \<times> string \<Rightarrow> 'h res" where
  "sync_part I localApply c vo succs part =
     (if fst part = ''self'' then succs [snd part]
      else
        case map_of (comps c) (fst part) of
          None \<Rightarrow> Inl (Undefined ''dereference of comps_.end()'')
        | Some ty \<Rightarrow>
            rbind (ty_getSuccs I ty [snd part]) (\<lambda>h. skipLocalApply localApply c h (getIndex vo (fst part))))"

fun parts_loop :: "'h hom_ops \<Rightarrow> (string \<times> string \<Rightarrow> 'h res) \<Rightarrow> (string \<times> string) list \<Rightarrow> 'h \<Rightarrow> 'h res" where
  "parts_loop H part [] hsync = Inr hsync"
| "parts_loop H part (p # ps) hsync = rbind (part p) (\<lambda>hpart. parts_loop H part ps (Hcomp H hpart hsync))"

definition getFullShom ::
  "'h hom_ops \<Rightarrow> ('ty, 'h, 'n) its_type \<Rightarrow> ('h \<Rightarrow> int \<Rightarrow> 'h) \<Rightarrow> 'ty Composite \<Rightarrow> varorder \<Rightarrow> (labels \<Rightarrow> 'h res) \<Rightarrow>
     Synchronization \<Rightarrow> 'h res" where
  "getFullShom H I localApply c vo succs sync =
     parts_loop H (sync_part I localApply c vo succs) (sy_parts sync) (Hid H)"

text \<open>One label of \<open>getSuccs\<close>, then the loop over the labels; an unknown one gives \<open>null\<close> at once.\<close>

fun labels_loop ::
  "'h hom_ops \<Rightarrow> (Synchronization \<Rightarrow> 'h res) \<Rightarrow> Synchronization list \<Rightarrow> labels \<Rightarrow> 'h \<Rightarrow> 'h res" where
  "labels_loop H full ss [] h = Inr h"
| "labels_loop H full ss (l # tau) h =
     rbind (rmap full (filter (\<lambda>s. sy_label s = l) ss)) (\<lambda>orSet.
       if orSet = [] then Inr (Hnull H) else labels_loop H full ss tau (Hcomp H (Hadd H orSet) h))"

text \<open>\<open>getSuccs\<close> and \<open>getFullShom\<close> call each other on \<open>self\<close> parts; \<open>depth\<close> is the number of nested calls
  the stack has room for.\<close>

fun CompositeType_getSuccs ::
  "nat \<Rightarrow> 'h hom_ops \<Rightarrow> ('ty, 'h, 'n) its_type \<Rightarrow> ('h \<Rightarrow> int \<Rightarrow> 'h) \<Rightarrow> 'ty Composite \<Rightarrow> varorder \<Rightarrow> labels \<Rightarrow> 'h res" where
  "CompositeType_getSuccs 0 H I localApply c vo tau = Inl (Undefined ''stack overflow'')"
| "CompositeType_getSuccs (Suc depth) H I localApply c vo tau =
     labels_loop H (getFullShom H I localApply c vo (CompositeType_getSuccs depth H I localApply c vo))
       (syncs c) tau (Hid H)"

definition instance_locals ::
  "('ty, 'h, 'n) its_type \<Rightarrow> ('h \<Rightarrow> int \<Rightarrow> 'h) \<Rightarrow> 'ty Composite \<Rightarrow> varorder \<Rightarrow> string \<times> 'ty \<Rightarrow> 'h res" where
  "instance_locals I localApply c vo inst =
     rbind (ty_getLocals I (snd inst)) (\<lambda>h. skipLocalApply localApply c h (getIndex vo (fst inst)))"

definition CompositeType_getLocals ::
  "nat \<Rightarrow> 'h hom_ops \<Rightarrow> ('ty, 'h, 'n) its_type \<Rightarrow> ('h \<Rightarrow> int \<Rightarrow> 'h) \<Rightarrow> 'ty Composite \<Rightarrow> varorder \<Rightarrow> 'h res" where
  "CompositeType_getLocals depth H I localApply c vo =
     rbind (rmap (getFullShom H I localApply c vo (CompositeType_getSuccs depth H I localApply c vo))
              (filter (\<lambda>s. sy_label s = '''') (syncs c))) (\<lambda>priv.
     rbind (rmap (instance_locals I localApply c vo) (comps c)) (\<lambda>subs.
       Inr (if priv @ subs \<noteq> [] then Hadd H (priv @ subs) else Hnull H)))"

definition instance_named ::
  "('ty, 'h, 'n) its_type \<Rightarrow> ('h \<Rightarrow> int \<Rightarrow> 'h) \<Rightarrow> 'ty Composite \<Rightarrow> varorder \<Rightarrow> string \<times> 'ty \<Rightarrow> (string \<times> 'h) list res" where
  "instance_named I localApply c vo inst =
     rbind (ty_getNamedLocals I (snd inst)) (\<lambda>loc.
       rmap (\<lambda>(n, h). rbind (skipLocalApply localApply c h (getIndex vo (fst inst)))
                        (\<lambda>h'. Inr (fst inst @ ''.'' @ n, h'))) loc)"

definition CompositeType_getNamedLocals ::
  "nat \<Rightarrow> 'h hom_ops \<Rightarrow> ('ty, 'h, 'n) its_type \<Rightarrow> ('h \<Rightarrow> int \<Rightarrow> 'h) \<Rightarrow> 'ty Composite \<Rightarrow> varorder \<Rightarrow> (string \<times> 'h) list res" where
  "CompositeType_getNamedLocals depth H I localApply c vo =
     rbind (rmap (\<lambda>s. rbind (getFullShom H I localApply c vo (CompositeType_getSuccs depth H I localApply c vo) s)
                        (\<lambda>h. Inr (sy_name s, h)))
              (filter (\<lambda>s. sy_label s = '''') (syncs c))) (\<lambda>priv.
     rbind (rmap (instance_named I localApply c vo) (comps c)) (\<lambda>subs. Inr (priv @ concat subs)))"

section \<open>States and names\<close>

text \<open>\<open>node i sub M0\<close> is \<open>GSDD (i, sub, M0)\<close>; \<open>one\<close> and \<open>null\<close> are the constants of \<open>State\<close>.\<close>

fun state_loop ::
  "(int \<Rightarrow> 'n \<Rightarrow> 'n \<Rightarrow> 'n) \<Rightarrow> ('ty, 'h, 'n) its_type \<Rightarrow> 'ty Composite \<Rightarrow> varorder \<Rightarrow> CState \<Rightarrow> nat list \<Rightarrow> 'n \<Rightarrow> 'n res" where
  "state_loop node I c vo s [] M0 = Inr M0"
| "state_loop node I c vo s (i # is) M0 =
     (let subname = getLabel vo (int i)
      in case map_of (comps c) subname of
           None \<Rightarrow> Inl (Undefined ''dereference of comps_.end()'')
         | Some ty \<Rightarrow>
             if length (comps c) = 1 then ty_getState I ty (getSubState s subname)
             else rbind (ty_getState I ty (getSubState s subname)) (\<lambda>n.
                    state_loop node I c vo s is (node (int i) n M0)))"

definition CompositeType_getState ::
  "(int \<Rightarrow> 'n \<Rightarrow> 'n \<Rightarrow> 'n) \<Rightarrow> 'n \<Rightarrow> 'n \<Rightarrow> ('ty, 'h, 'n) its_type \<Rightarrow> 'ty Composite \<Rightarrow> varorder \<Rightarrow> string \<Rightarrow> 'n res" where
  "CompositeType_getState node one null I c vo stateLabel =
     (case map_of (cstates c) stateLabel of
        None \<Rightarrow> Inr null
      | Some s \<Rightarrow> state_loop node I c vo s [0..<vo_size vo] one)"

text \<open>The part of a predicate before the first dot or comparison, and what follows.\<close>

fun split_scan :: "string \<Rightarrow> string \<times> string" where
  "split_scan [] = ([], [])"
| "split_scan (ch # cs) =
     (if ch = CHR ''.'' then ([], cs)
      else if ch \<in> {CHR ''='', CHR ''<'', CHR ''>'', CHR ''!''} then ([], ch # cs)
      else let (var, remain) = split_scan cs in (ch # var, remain))"

definition splitVar :: "'ty Composite \<Rightarrow> varorder \<Rightarrow> string \<Rightarrow> (string \<times> string) res" where
  "splitVar c vo predicate =
     (let (var, remain) = split_scan predicate
      in if getIndex vo var = - 1 then
           (let subcomp = exposedIn c var
            in if subcomp \<noteq> '''' then Inr (subcomp, var @ remain) else Inl (Abort ''exit(2)''))
         else Inr (var, remain))"

definition CompositeType_getAPredicate ::
  "'h hom_ops \<Rightarrow> ('ty, 'h, 'n) its_type \<Rightarrow> ('h \<Rightarrow> int \<Rightarrow> 'h) \<Rightarrow> 'ty Composite \<Rightarrow> varorder \<Rightarrow> string \<Rightarrow> 'h res" where
  "CompositeType_getAPredicate H I localApply c vo predicate =
     (if predicate = ''true'' then Inr (Hid H)
      else if predicate = ''false'' then Inr (Hnull H)
      else
        rbind (splitVar c vo predicate) (\<lambda>(var, remain).
          case map_of (comps c) var of
            None \<Rightarrow> Inl (Undefined ''dereference of comps_.end()'')
          | Some ty \<Rightarrow>
              rbind (ty_getPredicate I ty remain) (\<lambda>h. skipLocalApply localApply c h (getIndex vo var))))"

text \<open>\<open>getline (iss, var, '.')\<close>, then the rest of the line.\<close>

definition CompositeType_getVarIndex ::
  "('ty, 'h, 'n) its_type \<Rightarrow> 'ty Composite \<Rightarrow> varorder \<Rightarrow> int list \<Rightarrow> string \<Rightarrow> int list res" where
  "CompositeType_getVarIndex I c vo index vname =
     (let var = takeWhile (\<lambda>ch. ch \<noteq> CHR ''.'') vname;
          endOf = takeWhile (\<lambda>ch. ch \<noteq> CHR 0x0A) (tl (dropWhile (\<lambda>ch. ch \<noteq> CHR ''.'') vname));
          index' = (if length (comps c) \<noteq> 1 then index @ [getIndex vo var] else index)
      in case map_of (comps c) var of
           None \<Rightarrow> Inl (Undefined ''dereference of comps_.end()'')
         | Some ty \<Rightarrow> ty_getVarIndex I ty index' endOf)"

fun flat_loop :: "('ty, 'h, 'n) its_type \<Rightarrow> 'ty Composite \<Rightarrow> varorder \<Rightarrow> nat list \<Rightarrow> labels \<Rightarrow> labels res" where
  "flat_loop I c vo [] vars = Inr vars"
| "flat_loop I c vo (v # vs) vars =
     (let l = getLabel vo (int v)
      in case map_of (comps c) l of
           None \<Rightarrow> Inl (Undefined ''dereference of comps_.end()'')
         | Some ty \<Rightarrow> rbind (ty_addFlatVarSet I ty vars l) (flat_loop I c vo vs))"

definition CompositeType_addFlatVarSet ::
  "('ty, 'h, 'n) its_type \<Rightarrow> 'ty Composite \<Rightarrow> varorder \<Rightarrow> labels \<Rightarrow> string \<Rightarrow> labels res" where
  "CompositeType_addFlatVarSet I c vo vars prefix = flat_loop I c vo (rev [0..<vo_size vo]) vars"

end
