(* ===== verification/Composite_Sound.thy ===== *)
theory Composite_Sound imports Composite_Type begin

text \<open>
  What the transitions of a composite mean: the steps of its synchronizations, given as an inductive
  relation over the steps of its instances, and the proof that the homomorphisms compute them.
\<close>

section \<open>Steps\<close>

text \<open>The state of instance \<open>i\<close> in a state of the composite.\<close>

definition slot :: "('st \<Rightarrow> int \<Rightarrow> 'st) \<Rightarrow> 'ty Composite \<Rightarrow> 'st \<Rightarrow> int \<Rightarrow> 'st" where
  "slot rd c s i = (if length (comps c) = 1 then s else rd s i)"

definition fill :: "('st \<Rightarrow> int \<Rightarrow> 'st \<Rightarrow> 'st) \<Rightarrow> 'ty Composite \<Rightarrow> 'st \<Rightarrow> int \<Rightarrow> 'st \<Rightarrow> 'st" where
  "fill wr c s i d = (if length (comps c) = 1 then d else wr s i d)"

text \<open>
  \<open>lab ty l d d'\<close>: an instance of type \<open>ty\<close> goes from \<open>d\<close> to \<open>d'\<close> by the label \<open>l\<close>. The parts of a
  synchronization act one after the other; a part \<open>self\<close> is a step of the composite by that label.
\<close>

inductive parts_fire and label_fires
  for rd :: "'st \<Rightarrow> int \<Rightarrow> 'st" and wr :: "'st \<Rightarrow> int \<Rightarrow> 'st \<Rightarrow> 'st" and c :: "'ty Composite" and vo :: varorder
    and lab :: "'ty \<Rightarrow> string \<Rightarrow> 'st \<Rightarrow> 'st \<Rightarrow> bool" where
  none: "parts_fire rd wr c vo lab [] s s"
| self: "label_fires rd wr c vo lab tr s s1 \<Longrightarrow> parts_fire rd wr c vo lab ps s1 s2
    \<Longrightarrow> parts_fire rd wr c vo lab ((''self'', tr) # ps) s s2"
| inst: "sub \<noteq> ''self'' \<Longrightarrow> map_of (comps c) sub = Some ty \<Longrightarrow> lab ty tr (slot rd c s (getIndex vo sub)) d
    \<Longrightarrow> parts_fire rd wr c vo lab ps (fill wr c s (getIndex vo sub) d) s2
    \<Longrightarrow> parts_fire rd wr c vo lab ((sub, tr) # ps) s s2"
| label: "sy \<in> set (syncs c) \<Longrightarrow> sy_label sy = l \<Longrightarrow> parts_fire rd wr c vo lab (sy_parts sy) s s'
    \<Longrightarrow> label_fires rd wr c vo lab l s s'"

inductive_simps parts_fire_Nil [simp]: "parts_fire rd wr c vo lab [] s s'"
inductive_simps parts_fire_self: "parts_fire rd wr c vo lab ((''self'', tr) # ps) s s'"
inductive_simps parts_fire_Cons: "parts_fire rd wr c vo lab ((sub, tr) # ps) s s'"
inductive_simps label_fires_iff: "label_fires rd wr c vo lab l s s'"

text \<open>Steps one after the other.\<close>

fun chain :: "('a \<Rightarrow> 'st \<Rightarrow> 'st \<Rightarrow> bool) \<Rightarrow> 'a list \<Rightarrow> 'st \<Rightarrow> 'st \<Rightarrow> bool" where
  "chain step [] s s' \<longleftrightarrow> s' = s"
| "chain step (p # ps) s s' \<longleftrightarrow> (\<exists>s1. step p s s1 \<and> chain step ps s1 s')"

definition labels_fire ::
  "('st \<Rightarrow> int \<Rightarrow> 'st) \<Rightarrow> ('st \<Rightarrow> int \<Rightarrow> 'st \<Rightarrow> 'st) \<Rightarrow> 'ty Composite \<Rightarrow> varorder \<Rightarrow>
     ('ty \<Rightarrow> string \<Rightarrow> 'st \<Rightarrow> 'st \<Rightarrow> bool) \<Rightarrow> labels \<Rightarrow> 'st \<Rightarrow> 'st \<Rightarrow> bool" where
  "labels_fire rd wr c vo lab tau s s' \<longleftrightarrow> chain (label_fires rd wr c vo lab) tau s s'"

text \<open>One part as a step.\<close>

definition part_step ::
  "('st \<Rightarrow> int \<Rightarrow> 'st) \<Rightarrow> ('st \<Rightarrow> int \<Rightarrow> 'st \<Rightarrow> 'st) \<Rightarrow> 'ty Composite \<Rightarrow> varorder \<Rightarrow>
     ('ty \<Rightarrow> string \<Rightarrow> 'st \<Rightarrow> 'st \<Rightarrow> bool) \<Rightarrow> string \<times> string \<Rightarrow> 'st \<Rightarrow> 'st \<Rightarrow> bool" where
  "part_step rd wr c vo lab p s s' \<longleftrightarrow>
     (if fst p = ''self'' then label_fires rd wr c vo lab (snd p) s s'
      else \<exists>ty d. map_of (comps c) (fst p) = Some ty \<and> lab ty (snd p) (slot rd c s (getIndex vo (fst p))) d
             \<and> s' = fill wr c s (getIndex vo (fst p)) d)"

lemma parts_fire_chain: "parts_fire rd wr c vo lab ps s s' \<longleftrightarrow> chain (part_step rd wr c vo lab) ps s s'"
proof (induction ps arbitrary: s)
  case (Cons p ps)
  obtain sub tr where p: "p = (sub, tr)" by (cases p)
  have "part_step rd wr c vo lab (sub, tr) s s1 \<longleftrightarrow> sub = ''self'' \<and> label_fires rd wr c vo lab tr s s1
      \<or> sub \<noteq> ''self'' \<and> (\<exists>ty d. map_of (comps c) sub = Some ty \<and> lab ty tr (slot rd c s (getIndex vo sub)) d
          \<and> s1 = fill wr c s (getIndex vo sub) d)" for s1
    by (simp add: part_step_def)
  then have "parts_fire rd wr c vo lab ((sub, tr) # ps) s s'
      \<longleftrightarrow> (\<exists>s1. part_step rd wr c vo lab (sub, tr) s s1 \<and> parts_fire rd wr c vo lab ps s1 s')"
    unfolding parts_fire_Cons [of rd wr c vo lab sub] by (cases "sub = ''self''") auto
  then show ?case by (simp add: p Cons.IH)
qed auto

definition local_fires ::
  "('st \<Rightarrow> int \<Rightarrow> 'st) \<Rightarrow> ('st \<Rightarrow> int \<Rightarrow> 'st \<Rightarrow> 'st) \<Rightarrow> 'ty Composite \<Rightarrow> varorder \<Rightarrow>
     ('ty \<Rightarrow> string \<Rightarrow> 'st \<Rightarrow> 'st \<Rightarrow> bool) \<Rightarrow> ('ty \<Rightarrow> 'st \<Rightarrow> 'st \<Rightarrow> bool) \<Rightarrow> 'st \<Rightarrow> 'st \<Rightarrow> bool" where
  "local_fires rd wr c vo lab loc s s' \<longleftrightarrow>
     label_fires rd wr c vo lab '''' s s'
     \<or> (\<exists>p\<in>set (comps c). \<exists>d. loc (snd p) (slot rd c s (getIndex vo (fst p))) d
          \<and> s' = fill wr c s (getIndex vo (fst p)) d)"

text \<open>The labels of \<open>self\<close> parts do not call each other in a circle.\<close>

definition self_ranked :: "(string \<Rightarrow> nat) \<Rightarrow> 'ty Composite \<Rightarrow> bool" where
  "self_ranked rank c \<longleftrightarrow> (\<forall>sy\<in>set (syncs c). \<forall>p\<in>set (sy_parts sy).
     fst p = ''self'' \<longrightarrow> rank (snd p) < rank (sy_label sy))"

section \<open>The library and the types of the instances\<close>

locale sdd_levels = hom_algebra H app
  for H :: "'h hom_ops" and app :: "'h \<Rightarrow> 'st set \<Rightarrow> 'st set" +
  fixes localApply :: "'h \<Rightarrow> int \<Rightarrow> 'h" and rd :: "'st \<Rightarrow> int \<Rightarrow> 'st" and wr :: "'st \<Rightarrow> int \<Rightarrow> 'st \<Rightarrow> 'st"
  assumes app_local: "app (localApply h i) S = (\<Union>s\<in>S. wr s i ` app h {rd s i})"

text \<open>The contract of the types \<open>tys\<close>: their homomorphisms compute their steps.\<close>

locale its_contract = sdd_levels H app localApply rd wr
  for H :: "'h hom_ops" and app :: "'h \<Rightarrow> 'st set \<Rightarrow> 'st set" and localApply rd wr +
  fixes I :: "('ty, 'h, 'n) its_type" and lab :: "'ty \<Rightarrow> string \<Rightarrow> 'st \<Rightarrow> 'st \<Rightarrow> bool"
    and loc :: "'ty \<Rightarrow> 'st \<Rightarrow> 'st \<Rightarrow> bool" and tys :: "'ty set"
  assumes succs_contract: "ty \<in> tys \<Longrightarrow> l \<in> set (ty_transLabels I ty) \<Longrightarrow>
      \<exists>h. ty_getSuccs I ty [l] = Inr h \<and> (\<forall>S. app h S = {s'. \<exists>s\<in>S. lab ty l s s'})"
    and locals_contract: "ty \<in> tys \<Longrightarrow> \<exists>h. ty_getLocals I ty = Inr h \<and> (\<forall>S. app h S = {s'. \<exists>s\<in>S. loc ty s s'})"
    and named_contract: "ty \<in> tys \<Longrightarrow>
      \<exists>ns. ty_getNamedLocals I ty = Inr ns \<and> (\<forall>S. (\<Union>x\<in>set ns. app (snd x) S) = {s'. \<exists>s\<in>S. loc ty s s'})"
begin

lemma app_skip:
  assumes "skipLocalApply localApply c h i = Inr k"
  shows "app k S = {s'. \<exists>s\<in>S. \<exists>d\<in>app h {slot rd c s i}. s' = fill wr c s i d}"
proof (cases "length (comps c) = 1")
  case True
  then have "k = h" using assms by (simp add: skipLocalApply_def split: if_splits)
  moreover have "app h S = (\<Union>s\<in>S. app h {s})" by (rule app_linear)
  ultimately show ?thesis using True by (auto simp: slot_def fill_def)
next
  case False
  then have "k = localApply h i" using assms by (simp add: skipLocalApply_def)
  then show ?thesis using False by (auto simp: slot_def fill_def app_local)
qed

lemma app_parts_loop:
  assumes "parts_loop H part ps h0 = Inr h"
    and "\<And>p k. p \<in> set ps \<Longrightarrow> part p = Inr k \<Longrightarrow> \<forall>S. app k S = {s'. \<exists>s\<in>S. step p s s'}"
  shows "app h S = {s'. \<exists>s\<in>app h0 S. chain step ps s s'}"
  using assms
proof (induction ps arbitrary: h0)
  case (Cons p ps)
  then obtain k where k: "part p = Inr k" "parts_loop H part ps (Hcomp H k h0) = Inr h"
    by (auto simp: rbind_eq_Inr_iff)
  then have "app k T = {s'. \<exists>s\<in>T. step p s s'}" for T using Cons.prems(2) by (meson list.set_intros(1))
  with Cons.IH [OF k(2)] Cons.prems(2) show ?case by (auto simp: app_comp)
qed auto

text \<open>A sum of homomorphisms, each of which makes a step.\<close>

lemma app_all:
  assumes "rmap f xs = Inr ks"
    and "\<And>x k T. x \<in> set xs \<Longrightarrow> f x = Inr k \<Longrightarrow> app k T = {s'. \<exists>s\<in>T. step x s s'}"
  shows "(\<Union>k\<in>set ks. app k S) = {s'. \<exists>s\<in>S. \<exists>x\<in>set xs. step x s s'}"
  using UN_rmap [OF assms(1), of "\<lambda>k. app k S" "\<lambda>x. {s'. \<exists>s\<in>S. step x s s'}"] assms(2) by auto

text \<open>A synchronization fires its parts, when the labels of \<open>self\<close> parts are computed by \<open>succs\<close>.\<close>

lemma full_steps:
  assumes "getFullShom H I localApply c vo succs sy = Inr k"
    and ok: "composite_ok (ty_transLabels I) c" "snd ` set (comps c) \<subseteq> tys" "sy \<in> set (syncs c)"
    and self: "\<And>tr k T. succs [tr] = Inr k \<Longrightarrow> app k T = {s'. \<exists>s\<in>T. label_fires rd wr c vo lab tr s s'}"
  shows "app k T = {s'. \<exists>s\<in>T. parts_fire rd wr c vo lab (sy_parts sy) s s'}"
proof -
  have part: "app k T = {s'. \<exists>s\<in>T. part_step rd wr c vo lab p s s'}"
    if "sync_part I localApply c vo succs p = Inr k" "part_ok (ty_transLabels I) (comps c) p" for p k T
  proof (cases "fst p = ''self''")
    case True
    with that(1) self [of "snd p"] show ?thesis by (simp add: sync_part_def part_step_def)
  next
    case False
    with that(2) obtain ty where ty: "map_of (comps c) (fst p) = Some ty" "snd p \<in> set (ty_transLabels I ty)"
      by (auto simp: part_ok_def)
    moreover have "ty \<in> tys" using ty(1) ok(2) by (force dest: map_of_SomeD)
    ultimately obtain g where g: "ty_getSuccs I ty [snd p] = Inr g" "\<And>S. app g S = {s'. \<exists>s\<in>S. lab ty (snd p) s s'}"
      using succs_contract by blast
    with False ty(1) that(1) have "skipLocalApply localApply c g (getIndex vo (fst p)) = Inr k"
      by (simp add: sync_part_def)
    from app_skip [OF this] g(2) False ty(1) show ?thesis by (auto simp: part_step_def)
  qed
  have "part_ok (ty_transLabels I) (comps c) p" if "p \<in> set (sy_parts sy)" for p
    using that ok unfolding composite_ok_def by blast
  then show ?thesis
    using app_parts_loop [OF assms(1) [unfolded getFullShom_def], of "part_step rd wr c vo lab"] part
    by (simp add: app_id parts_fire_chain)
qed

text \<open>Whatever \<open>getSuccs\<close> answers computes the steps by the labels, in sequence.\<close>

lemma getSuccs_steps:
  assumes "CompositeType_getSuccs depth H I localApply c vo tau = Inr h"
    and "composite_ok (ty_transLabels I) c" and tys: "snd ` set (comps c) \<subseteq> tys"
  shows "app h S = {s'. \<exists>s\<in>S. labels_fire rd wr c vo lab tau s s'}"
  using assms(1,2)
proof (induction depth arbitrary: tau h S)
  case (Suc depth)
  define succs where "succs = CompositeType_getSuccs depth H I localApply c vo"
  define full where "full = getFullShom H I localApply c vo succs"
  have full: "app k T = {s'. \<exists>s\<in>T. parts_fire rd wr c vo lab (sy_parts sy) s s'}"
    if "full sy = Inr k" "sy \<in> set (syncs c)" for sy k T
    using that(1) [unfolded full_def]
  proof (rule full_steps [OF _ Suc.prems(2) tys that(2)])
    show "app g U = {s'. \<exists>s\<in>U. label_fires rd wr c vo lab tr s s'}" if "succs [tr] = Inr g" for tr g U
      using Suc.IH [OF that [unfolded succs_def] Suc.prems(2)] by (simp add: labels_fire_def)
  qed
  have sum: "app (Hadd H hs) T = {s'. \<exists>s\<in>T. label_fires rd wr c vo lab l s s'}"
    if "rmap full (filter (\<lambda>s. sy_label s = l) (syncs c)) = Inr hs" for l hs T
    using app_all [OF that, of "\<lambda>sy. parts_fire rd wr c vo lab (sy_parts sy)" T] full
    by (auto simp: app_add label_fires_iff)
  have "app h S = {s'. \<exists>s\<in>app h0 S. labels_fire rd wr c vo lab tau s s'}"
    if "labels_loop H full (syncs c) tau h0 = Inr h" for h0 h tau
    using that
  proof (induction tau arbitrary: h0)
    case (Cons l tau)
    then obtain hs where hs: "rmap full (filter (\<lambda>s. sy_label s = l) (syncs c)) = Inr hs"
      "(if hs = [] then Inr (Hnull H) else labels_loop H full (syncs c) tau (Hcomp H (Hadd H hs) h0)) = Inr h"
      by (auto simp: rbind_eq_Inr_iff)
    show ?case
    proof (cases "hs = []")
      case True
      then have "\<not> label_fires rd wr c vo lab l s s'" for s s'
        using sum [OF hs(1), of "{s}"] by (auto simp: app_add)
      with True hs(2) show ?thesis by (auto simp: app_null labels_fire_def)
    next
      case False
      with hs(2) Cons.IH have "app h S = {s'. \<exists>s\<in>app (Hcomp H (Hadd H hs) h0) S. labels_fire rd wr c vo lab tau s s'}" by simp
      then show ?thesis by (auto simp: app_comp sum [OF hs(1)] labels_fire_def)
    qed
  qed (auto simp: labels_fire_def)
  from this [of tau "Hid H" h] Suc.prems(1) show ?case by (simp add: full_def succs_def app_id)
qed simp

lemma skip_answers:
  assumes "setFromCollection vs = Inr vo" "set vs = fst ` set (comps c)" "sub \<in> set vs"
  shows "\<exists>k. skipLocalApply localApply c h (getIndex vo sub) = Inr k"
proof (cases "length (comps c) = 1")
  case True
  then obtain p where "comps c = [p]" by (cases "comps c") auto
  with assms(2,3) have sub: "set vs = {sub}" by auto
  have "distinct vs" using assms(1) by (simp add: setFromCollection_eq split: if_splits)
  then have "length vs = 1" using sub distinct_card [of vs] by simp
  with sub have "vs = [sub]" by (cases vs) auto
  with assms(1) have "getIndex vo sub = 0" using order_roundtrip(1) [of vs vo 0] by simp
  with True show ?thesis by (simp add: skipLocalApply_def)
qed (simp add: skipLocalApply_def)

lemma parts_answer:
  "(\<And>p. p \<in> set ps \<Longrightarrow> \<exists>k. part p = Inr k) \<Longrightarrow> \<exists>h. parts_loop H part ps h0 = Inr h"
proof (induction ps arbitrary: h0)
  case (Cons p ps)
  obtain k where "part p = Inr k" using Cons.prems [of p] by auto
  with Cons show ?case by (auto simp: rbind_eq_Inr_iff)
qed auto

lemma full_answers:
  assumes "composite_ok (ty_transLabels I) c" and tys: "snd ` set (comps c) \<subseteq> tys"
    and order: "setFromCollection vs = Inr vo" "set vs = fst ` set (comps c)" and sy: "sy \<in> set (syncs c)"
    and self: "\<And>tr. (''self'', tr) \<in> set (sy_parts sy) \<Longrightarrow> \<exists>h. succs [tr] = Inr h"
  shows "\<exists>h. getFullShom H I localApply c vo succs sy = Inr h"
  unfolding getFullShom_def
proof (rule parts_answer)
  fix p assume p: "p \<in> set (sy_parts sy)"
  show "\<exists>k. sync_part I localApply c vo succs p = Inr k"
  proof (cases "fst p = ''self''")
    case True
    then show ?thesis using self [of "snd p"] p by (auto simp: sync_part_def) (metis prod.collapse)
  next
    case False
    with sy p assms(1) obtain ty where ty: "map_of (comps c) (fst p) = Some ty" "snd p \<in> set (ty_transLabels I ty)"
      unfolding part_ok_def composite_ok_def by blast
    then have "fst p \<in> set vs" using order(2) by (metis fst_conv image_eqI map_of_SomeD)
    moreover have "ty \<in> tys" using ty(1) tys by (force dest: map_of_SomeD)
    ultimately show ?thesis
      using ty succs_contract [OF _ ty(2)] skip_answers [OF order] False
      by (auto simp: sync_part_def rbind_eq_Inr_iff)
  qed
qed

text \<open>
  It answers when the labels of \<open>self\<close> parts do not call each other in a circle, and the stack has room
  for the longest chain of calls.
\<close>

lemma getSuccs_answers:
  assumes "composite_ok (ty_transLabels I) c" and tys: "snd ` set (comps c) \<subseteq> tys"
    and "setFromCollection vs = Inr vo" "set vs = fst ` set (comps c)"
    and acyclic: "self_ranked rank c"
    and "\<And>l. l \<in> set tau \<Longrightarrow> rank l < depth" "0 < depth"
  shows "\<exists>h. CompositeType_getSuccs depth H I localApply c vo tau = Inr h"
  using assms(6,7)
proof (induction depth arbitrary: tau)
  case (Suc depth)
  define succs where "succs = CompositeType_getSuccs depth H I localApply c vo"
  have full: "\<exists>h. getFullShom H I localApply c vo succs sy = Inr h"
    if "sy \<in> set (syncs c)" "rank (sy_label sy) \<le> depth" for sy
  proof (rule full_answers [OF assms(1-4) that(1)])
    fix tr assume "(''self'', tr) \<in> set (sy_parts sy)"
    then have "rank tr < depth" using acyclic that unfolding self_ranked_def by fastforce
    then show "\<exists>h. succs [tr] = Inr h" using Suc.IH [of "[tr]"] by (simp add: succs_def)
  qed
  have "\<exists>h. labels_loop H (getFullShom H I localApply c vo succs) (syncs c) tau h0 = Inr h"
    if "\<And>l. l \<in> set tau \<Longrightarrow> rank l \<le> depth" for tau h0
    using that
  proof (induction tau arbitrary: h0)
    case (Cons l tau)
    have "\<exists>hs. rmap (getFullShom H I localApply c vo succs) (filter (\<lambda>s. sy_label s = l) (syncs c)) = Inr hs"
      using Cons.prems full by (intro rmap_total) auto
    then obtain hs where hs: "rmap (getFullShom H I localApply c vo succs) (filter (\<lambda>s. sy_label s = l) (syncs c)) = Inr hs" ..
    with Cons show ?case by (cases "hs = []") simp_all
  qed auto
  then show ?case using Suc.prems(1) by (simp add: succs_def less_Suc_eq_le)
qed simp

text \<open>\<open>getLocals\<close>: a private synchronization, or a local transition of an instance.\<close>

lemma getLocals_steps:
  assumes "CompositeType_getLocals depth H I localApply c vo = Inr h"
    and ok: "composite_ok (ty_transLabels I) c" "snd ` set (comps c) \<subseteq> tys"
  shows "app h S = {s'. \<exists>s\<in>S. local_fires rd wr c vo lab loc s s'}"
proof -
  define full where "full = getFullShom H I localApply c vo (CompositeType_getSuccs depth H I localApply c vo)"
  define ss where "ss = filter (\<lambda>s. sy_label s = '''') (syncs c)"
  obtain priv subs where priv: "rmap full ss = Inr priv"
    and subs: "rmap (instance_locals I localApply c vo) (comps c) = Inr subs"
    and h: "h = (if priv @ subs \<noteq> [] then Hadd H (priv @ subs) else Hnull H)"
    using assms(1) by (auto simp: CompositeType_getLocals_def full_def ss_def rbind_eq_Inr_iff)
  have "app k T = {s'. \<exists>s\<in>T. parts_fire rd wr c vo lab (sy_parts sy) s s'}"
    if "sy \<in> set ss" "full sy = Inr k" for sy k T
    using that(2) [unfolded full_def]
  proof (rule full_steps [OF _ ok])
    show "app g U = {s'. \<exists>s\<in>U. label_fires rd wr c vo lab tr s s'}"
      if "CompositeType_getSuccs depth H I localApply c vo [tr] = Inr g" for tr g U
      using getSuccs_steps [OF that ok] by (simp add: labels_fire_def)
  qed (use that(1) in \<open>simp add: ss_def\<close>)
  then have p: "(\<Union>k\<in>set priv. app k S) = {s'. \<exists>s\<in>S. \<exists>sy\<in>set ss. parts_fire rd wr c vo lab (sy_parts sy) s s'}"
    by (subst app_all [OF priv]) auto
  have "app k T = {s'. \<exists>s\<in>T. \<exists>d. loc (snd p) (slot rd c s (getIndex vo (fst p))) d
      \<and> s' = fill wr c s (getIndex vo (fst p)) d}"
    if "p \<in> set (comps c)" "instance_locals I localApply c vo p = Inr k" for p k T
  proof -
    have "snd p \<in> tys" using that(1) ok(2) by auto
    from locals_contract [OF this] obtain g where g: "ty_getLocals I (snd p) = Inr g"
      "\<And>S. app g S = {s'. \<exists>s\<in>S. loc (snd p) s s'}" by blast
    with that(2) have "skipLocalApply localApply c g (getIndex vo (fst p)) = Inr k"
      by (simp add: instance_locals_def)
    from app_skip [OF this, of T] show ?thesis by (auto simp: g(2))
  qed
  then have q: "(\<Union>k\<in>set subs. app k S) = {s'. \<exists>s\<in>S. \<exists>p\<in>set (comps c). \<exists>d. loc (snd p) (slot rd c s (getIndex vo (fst p))) d
      \<and> s' = fill wr c s (getIndex vo (fst p)) d}"
    by (subst app_all [OF subs]) auto
  have "app h S = (\<Union>k\<in>set priv. app k S) \<union> (\<Union>k\<in>set subs. app k S)"
    by (simp add: h app_add app_null UN_Un)
  moreover have "local_fires rd wr c vo lab loc s s' \<longleftrightarrow> (\<exists>sy\<in>set ss. parts_fire rd wr c vo lab (sy_parts sy) s s')
      \<or> (\<exists>p\<in>set (comps c). \<exists>d. loc (snd p) (slot rd c s (getIndex vo (fst p))) d
          \<and> s' = fill wr c s (getIndex vo (fst p)) d)" for s s'
    unfolding local_fires_def label_fires_iff ss_def by (simp only: set_filter mem_Collect_eq) blast
  ultimately show ?thesis by (simp only: p q bex_disj_distrib Collect_disj_eq)
qed

lemma fulls_answer:
  assumes "composite_ok (ty_transLabels I) c" "snd ` set (comps c) \<subseteq> tys"
    and "setFromCollection vs = Inr vo" "set vs = fst ` set (comps c)"
    and acyclic: "self_ranked rank c"
    and "\<And>sy. sy \<in> set (syncs c) \<Longrightarrow> rank (sy_label sy) < depth" "0 < depth" and sy: "sy \<in> set (syncs c)"
  shows "\<exists>h. getFullShom H I localApply c vo (CompositeType_getSuccs depth H I localApply c vo) sy = Inr h"
proof (rule full_answers [OF assms(1-4) sy])
  fix tr assume "(''self'', tr) \<in> set (sy_parts sy)"
  then have "rank tr < depth" using acyclic assms(6) sy unfolding self_ranked_def by fastforce
  then show "\<exists>h. CompositeType_getSuccs depth H I localApply c vo [tr] = Inr h"
    by (intro getSuccs_answers [OF assms(1-5) _ assms(7)]) simp
qed

lemma getLocals_answers:
  assumes "composite_ok (ty_transLabels I) c" "snd ` set (comps c) \<subseteq> tys"
    and "setFromCollection vs = Inr vo" "set vs = fst ` set (comps c)" "self_ranked rank c"
    and "\<And>sy. sy \<in> set (syncs c) \<Longrightarrow> rank (sy_label sy) < depth" "0 < depth"
  shows "\<exists>h. CompositeType_getLocals depth H I localApply c vo = Inr h"
    and "\<exists>ns. CompositeType_getNamedLocals depth H I localApply c vo = Inr ns"
proof -
  let ?full = "getFullShom H I localApply c vo (CompositeType_getSuccs depth H I localApply c vo)"
  let ?ss = "filter (\<lambda>s. sy_label s = []) (syncs c)"
  have full: "\<exists>h. ?full sy = Inr h" if "sy \<in> set ?ss" for sy
    using fulls_answer [OF assms] that by simp
  have inst: "snd p \<in> tys" "\<exists>k. skipLocalApply localApply c h (getIndex vo (fst p)) = Inr k"
    if "p \<in> set (comps c)" for p h
    using that assms(2,4) skip_answers [OF assms(3,4)] by auto
  have "\<exists>priv. rmap ?full ?ss = Inr priv" by (intro rmap_total full)
  moreover have "\<exists>subs. rmap (instance_locals I localApply c vo) (comps c) = Inr subs"
  proof (rule rmap_total)
    fix p assume "p \<in> set (comps c)"
    with inst locals_contract show "\<exists>y. instance_locals I localApply c vo p = Inr y"
      unfolding instance_locals_def by (metis rbind_Inr)
  qed
  ultimately show "\<exists>h. CompositeType_getLocals depth H I localApply c vo = Inr h"
    by (auto simp: CompositeType_getLocals_def)
  have "\<exists>priv. rmap (\<lambda>s. rbind (?full s) (\<lambda>h. Inr (sy_name s, h))) ?ss = Inr priv"
    using full by (intro rmap_total) (metis rbind_Inr)
  moreover have "\<exists>subs. rmap (instance_named I localApply c vo) (comps c) = Inr subs"
  proof (rule rmap_total)
    fix p assume p: "p \<in> set (comps c)"
    from named_contract [OF inst(1) [OF p]] obtain ls where ls: "ty_getNamedLocals I (snd p) = Inr ls" by blast
    have "\<exists>y. (case x of (n, h) \<Rightarrow> rbind (skipLocalApply localApply c h (getIndex vo (fst p)))
        (\<lambda>h'. Inr (fst p @ ''.'' @ n, h'))) = Inr y" for x
      using inst(2) [OF p, of "snd x"] by (auto split: prod.split)
    with ls show "\<exists>y. instance_named I localApply c vo p = Inr y"
      unfolding instance_named_def by (simp add: rmap_total del: rmap_eq_Inr_iff)
  qed
  ultimately show "\<exists>ns. CompositeType_getNamedLocals depth H I localApply c vo = Inr ns"
    by (auto simp: CompositeType_getNamedLocals_def)
qed

lemma UN_bex_swap: "(\<Union>x\<in>A. {s'. \<exists>s\<in>S. R x s s'}) = {s'. \<exists>s\<in>S. \<exists>x\<in>A. R x s s'}"
  by blast

text \<open>The named local transitions make the same steps, one by one.\<close>

lemma getNamedLocals_steps:
  assumes "CompositeType_getNamedLocals depth H I localApply c vo = Inr ns"
    and ok: "composite_ok (ty_transLabels I) c" "snd ` set (comps c) \<subseteq> tys"
  shows "(\<Union>x\<in>set ns. app (snd x) S) = {s'. \<exists>s\<in>S. local_fires rd wr c vo lab loc s s'}"
proof -
  define full where "full = getFullShom H I localApply c vo (CompositeType_getSuccs depth H I localApply c vo)"
  define ss where "ss = filter (\<lambda>s. sy_label s = []) (syncs c)"
  obtain priv subs where priv: "rmap (\<lambda>s. rbind (full s) (\<lambda>h. Inr (sy_name s, h))) ss = Inr priv"
    and subs: "rmap (instance_named I localApply c vo) (comps c) = Inr subs" and ns: "ns = priv @ concat subs"
    using assms(1) by (auto simp: CompositeType_getNamedLocals_def full_def ss_def rbind_eq_Inr_iff)
  have p: "(\<Union>x\<in>set priv. app (snd x) S) = (\<Union>sy\<in>set ss. {s'. \<exists>s\<in>S. parts_fire rd wr c vo lab (sy_parts sy) s s'})"
  proof (rule UN_rmap [OF priv])
    fix sy x assume sy: "sy \<in> set ss" and "rbind (full sy) (\<lambda>h. Inr (sy_name sy, h)) = Inr x"
    then have "full sy = Inr (snd x)" by (auto simp: rbind_eq_Inr_iff)
    then show "app (snd x) S = {s'. \<exists>s\<in>S. parts_fire rd wr c vo lab (sy_parts sy) s s'}"
      unfolding full_def
    proof (rule full_steps [OF _ ok])
      show "app g U = {s'. \<exists>s\<in>U. label_fires rd wr c vo lab tr s s'}"
        if "CompositeType_getSuccs depth H I localApply c vo [tr] = Inr g" for tr g U
        using getSuccs_steps [OF that ok] by (simp add: labels_fire_def)
    qed (use sy in \<open>simp add: ss_def\<close>)
  qed
  have q: "(\<Union>xs\<in>set subs. \<Union>x\<in>set xs. app (snd x) S)
      = (\<Union>p\<in>set (comps c). {s'. \<exists>s\<in>S. \<exists>d. loc (snd p) (slot rd c s (getIndex vo (fst p))) d
          \<and> s' = fill wr c s (getIndex vo (fst p)) d})"
  proof (rule UN_rmap [OF subs])
    fix p xs assume p: "p \<in> set (comps c)" and xs: "instance_named I localApply c vo p = Inr xs"
    have "snd p \<in> tys" using p ok(2) by auto
    from named_contract [OF this] obtain ls where ls: "ty_getNamedLocals I (snd p) = Inr ls"
      "\<And>S. (\<Union>x\<in>set ls. app (snd x) S) = {s'. \<exists>s\<in>S. loc (snd p) s s'}" by blast
    let ?i = "getIndex vo (fst p)"
    from xs ls(1) have rm: "rmap (\<lambda>(n, h). rbind (skipLocalApply localApply c h ?i) (\<lambda>h'. Inr (fst p @ ''.'' @ n, h'))) ls = Inr xs"
      by (simp add: instance_named_def)
    have "(\<Union>x\<in>set xs. app (snd x) S) = (\<Union>l\<in>set ls. {s'. \<exists>s\<in>S. \<exists>d\<in>app (snd l) {slot rd c s ?i}. s' = fill wr c s ?i d})"
    proof (rule UN_rmap [OF rm])
      fix l x
      assume "(case l of (n, h) \<Rightarrow> rbind (skipLocalApply localApply c h ?i) (\<lambda>h'. Inr (fst p @ ''.'' @ n, h'))) = Inr x"
      then have "skipLocalApply localApply c (snd l) ?i = Inr (snd x)" by (auto simp: rbind_eq_Inr_iff split: prod.splits)
      then show "app (snd x) S = {s'. \<exists>s\<in>S. \<exists>d\<in>app (snd l) {slot rd c s ?i}. s' = fill wr c s ?i d}" by (rule app_skip)
    qed
    also have "\<dots> = {s'. \<exists>s\<in>S. \<exists>d\<in>(\<Union>l\<in>set ls. app (snd l) {slot rd c s ?i}). s' = fill wr c s ?i d}" by blast
    finally show "(\<Union>x\<in>set xs. app (snd x) S) = {s'. \<exists>s\<in>S. \<exists>d. loc (snd p) (slot rd c s ?i) d \<and> s' = fill wr c s ?i d}"
      unfolding ls(2) by simp
  qed
  have "(\<Union>x\<in>set ns. app (snd x) S) = (\<Union>x\<in>set priv. app (snd x) S) \<union> (\<Union>xs\<in>set subs. \<Union>x\<in>set xs. app (snd x) S)"
    by (simp add: ns UN_Un)
  moreover have "local_fires rd wr c vo lab loc s s' \<longleftrightarrow> (\<exists>sy\<in>set ss. parts_fire rd wr c vo lab (sy_parts sy) s s')
      \<or> (\<exists>p\<in>set (comps c). \<exists>d. loc (snd p) (slot rd c s (getIndex vo (fst p))) d
          \<and> s' = fill wr c s (getIndex vo (fst p)) d)" for s s'
    unfolding local_fires_def label_fires_iff ss_def by (simp only: set_filter mem_Collect_eq) blast
  ultimately show ?thesis
    by (simp only: p q bex_disj_distrib Collect_disj_eq UN_bex_swap)
qed

end

end
