(* ===== verification/Its_Hierarchy.thy ===== *)
theory Its_Hierarchy imports Composite_Sound Petri_Sound begin

text \<open>
  Types built on types: the declared types of a model are numbered, and the instances of a composite are
  of types declared before it (\<open>findType\<close> only finds those). Every call on a type goes to its class; the
  contract of a type is kept at every level of the hierarchy.
\<close>

section \<open>The types of Petri nets\<close>

definition PNet_getVarIndex :: "varorder \<Rightarrow> int list \<Rightarrow> string \<Rightarrow> int list" where
  "PNet_getVarIndex vo index vname = index @ [DEFAULT_VAR, getIndex vo vname]"

text \<open>\<open>PNetTType<GHom>\<close> as a type; its order is the one of the places or one set by hand.\<close>

definition PNet_type ::
  "'g hom_ops \<Rightarrow> (hom_fun \<Rightarrow> int \<Rightarrow> int \<Rightarrow> 'g) \<Rightarrow> 's hom_ops \<Rightarrow> ('g \<Rightarrow> 's) \<Rightarrow> 'n node_ops \<Rightarrow> ('n \<Rightarrow> 'sn) \<Rightarrow>
     (PNet \<times> varorder, 's, 'sn) its_type" where
  "PNet_type gH getHom sH encapsulate N wrap =
     \<lparr>ty_transLabels = (\<lambda>(n, vo). getTransLabels n),
      ty_getSuccs = (\<lambda>(n, vo). PNet_getSuccs sH (PNet_getTransitionHom gH getHom encapsulate vo) n),
      ty_getLocals = (\<lambda>(n, vo). Inr (getLocals sH (PNet_getTransitionHom gH getHom encapsulate vo) (Hid sH) n)),
      ty_getNamedLocals = (\<lambda>(n, vo). Inr (getNamedLocals sH (PNet_getTransitionHom gH getHom encapsulate vo) (Hid sH) n)),
      ty_getPredicate = (\<lambda>(n, vo). getPredicate sH (getAPredicate (\<lambda>foo v k. encapsulate (getHom foo v k)) vo)),
      ty_getState = (\<lambda>(n, vo). getState N wrap n vo),
      ty_getVarIndex = (\<lambda>(n, vo) index vname. Inr (PNet_getVarIndex vo index vname)),
      ty_addFlatVarSet = (\<lambda>(n, vo) vars prefix.
        rbind (TypeBasics_addFlatVarSet (PNet_getVarSet n) vars prefix \<lparr>vorder = Some vo, default_state = ''''\<rparr>)
          (\<lambda>(_, vars'). Inr vars'))\<rparr>"

section \<open>Declared types\<close>

text \<open>A composite names its types by their number.\<close>

datatype 'lf type_def = Leaf 'lf | Comp "nat Composite" varorder

record ('h, 'n) sdd_ops =
  sdd_hom :: "'h hom_ops"
  sdd_local :: "'h \<Rightarrow> int \<Rightarrow> 'h"
  sdd_node :: "int \<Rightarrow> 'n \<Rightarrow> 'n \<Rightarrow> 'n"
  sdd_one :: 'n
  sdd_null :: 'n

definition no_type :: "(nat, 'h, 'n) its_type" where
  "no_type =
     \<lparr>ty_transLabels = (\<lambda>_. []), ty_getSuccs = (\<lambda>_ _. Inl (Undefined ''no type'')),
      ty_getLocals = (\<lambda>_. Inl (Undefined ''no type'')), ty_getNamedLocals = (\<lambda>_. Inl (Undefined ''no type'')),
      ty_getPredicate = (\<lambda>_ _. Inl (Undefined ''no type'')), ty_getState = (\<lambda>_ _. Inl (Undefined ''no type'')),
      ty_getVarIndex = (\<lambda>_ _ _. Inl (Undefined ''no type'')), ty_addFlatVarSet = (\<lambda>_ _ _. Inl (Undefined ''no type''))\<rparr>"

text \<open>The type \<open>n\<close> is added to the types \<open>I\<close> below it.\<close>

definition leaf_type :: "('lf, 'h, 'n) its_type \<Rightarrow> (nat, 'h, 'n) its_type \<Rightarrow> nat \<Rightarrow> 'lf \<Rightarrow> (nat, 'h, 'n) its_type" where
  "leaf_type L I n x =
     \<lparr>ty_transLabels = (ty_transLabels I)(n := ty_transLabels L x), ty_getSuccs = (ty_getSuccs I)(n := ty_getSuccs L x),
      ty_getLocals = (ty_getLocals I)(n := ty_getLocals L x),
      ty_getNamedLocals = (ty_getNamedLocals I)(n := ty_getNamedLocals L x),
      ty_getPredicate = (ty_getPredicate I)(n := ty_getPredicate L x), ty_getState = (ty_getState I)(n := ty_getState L x),
      ty_getVarIndex = (ty_getVarIndex I)(n := ty_getVarIndex L x),
      ty_addFlatVarSet = (ty_addFlatVarSet I)(n := ty_addFlatVarSet L x)\<rparr>"

definition composite_type ::
  "nat \<Rightarrow> ('h, 'n) sdd_ops \<Rightarrow> (nat, 'h, 'n) its_type \<Rightarrow> nat \<Rightarrow> nat Composite \<Rightarrow> varorder \<Rightarrow> (nat, 'h, 'n) its_type" where
  "composite_type depth D I n c vo =
     (let H = sdd_hom D; loc = sdd_local D
      in \<lparr>ty_transLabels = (ty_transLabels I)(n := CompositeType_getTransLabels c),
          ty_getSuccs = (ty_getSuccs I)(n := CompositeType_getSuccs depth H I loc c vo),
          ty_getLocals = (ty_getLocals I)(n := CompositeType_getLocals depth H I loc c vo),
          ty_getNamedLocals = (ty_getNamedLocals I)(n := CompositeType_getNamedLocals depth H I loc c vo),
          ty_getPredicate = (ty_getPredicate I)(n := getPredicate H (CompositeType_getAPredicate H I loc c vo)),
          ty_getState = (ty_getState I)(n := CompositeType_getState (sdd_node D) (sdd_one D) (sdd_null D) I c vo),
          ty_getVarIndex = (ty_getVarIndex I)(n := CompositeType_getVarIndex I c vo),
          ty_addFlatVarSet = (ty_addFlatVarSet I)(n := CompositeType_addFlatVarSet I c vo)\<rparr>)"

fun declared_types ::
  "nat \<Rightarrow> ('h, 'n) sdd_ops \<Rightarrow> ('lf, 'h, 'n) its_type \<Rightarrow> 'lf type_def list \<Rightarrow> nat \<Rightarrow> (nat, 'h, 'n) its_type" where
  "declared_types depth D L ts 0 = no_type"
| "declared_types depth D L ts (Suc n) =
     (case ts ! n of
        Leaf x \<Rightarrow> leaf_type L (declared_types depth D L ts n) n x
      | Comp c vo \<Rightarrow> composite_type depth D (declared_types depth D L ts n) n c vo)"

section \<open>Steps of declared types\<close>

fun declared_lab ::
  "('st \<Rightarrow> int \<Rightarrow> 'st) \<Rightarrow> ('st \<Rightarrow> int \<Rightarrow> 'st \<Rightarrow> 'st) \<Rightarrow> ('lf \<Rightarrow> string \<Rightarrow> 'st \<Rightarrow> 'st \<Rightarrow> bool) \<Rightarrow> 'lf type_def list \<Rightarrow> nat \<Rightarrow>
     nat \<Rightarrow> string \<Rightarrow> 'st \<Rightarrow> 'st \<Rightarrow> bool" where
  "declared_lab rd wr lab ts 0 = (\<lambda>_ _ _ _. False)"
| "declared_lab rd wr lab ts (Suc n) =
     (declared_lab rd wr lab ts n)(n :=
        (case ts ! n of
           Leaf x \<Rightarrow> lab x
         | Comp c vo \<Rightarrow> label_fires rd wr c vo (declared_lab rd wr lab ts n)))"

fun declared_loc ::
  "('st \<Rightarrow> int \<Rightarrow> 'st) \<Rightarrow> ('st \<Rightarrow> int \<Rightarrow> 'st \<Rightarrow> 'st) \<Rightarrow> ('lf \<Rightarrow> string \<Rightarrow> 'st \<Rightarrow> 'st \<Rightarrow> bool) \<Rightarrow> ('lf \<Rightarrow> 'st \<Rightarrow> 'st \<Rightarrow> bool) \<Rightarrow>
     'lf type_def list \<Rightarrow> nat \<Rightarrow> nat \<Rightarrow> 'st \<Rightarrow> 'st \<Rightarrow> bool" where
  "declared_loc rd wr lab loc ts 0 = (\<lambda>_ _ _. False)"
| "declared_loc rd wr lab loc ts (Suc n) =
     (declared_loc rd wr lab loc ts n)(n :=
        (case ts ! n of
           Leaf x \<Rightarrow> loc x
         | Comp c vo \<Rightarrow> local_fires rd wr c vo (declared_lab rd wr lab ts n) (declared_loc rd wr lab loc ts n)))"

text \<open>A declaration is sound over the types \<open>I\<close> before it, which are those below \<open>n\<close>.\<close>

fun declaration_ok :: "nat \<Rightarrow> (nat, 'h, 'n) its_type \<Rightarrow> nat \<Rightarrow> 'lf type_def \<Rightarrow> bool" where
  "declaration_ok depth I n (Leaf x) \<longleftrightarrow> True"
| "declaration_ok depth I n (Comp c vo) \<longleftrightarrow>
     composite_ok (ty_transLabels I) c \<and> snd ` set (comps c) \<subseteq> {..<n}
     \<and> (\<exists>vs. setFromCollection vs = Inr vo \<and> set vs = fst ` set (comps c))
     \<and> (\<exists>rank. self_ranked rank c \<and> (\<forall>sy\<in>set (syncs c). rank (sy_label sy) < depth)) \<and> 0 < depth"

lemma its_contract_intro:
  assumes "sdd_levels H app localApply rd wr"
    and "\<And>ty l. ty \<in> tys \<Longrightarrow> l \<in> set (ty_transLabels I ty) \<Longrightarrow>
      \<exists>h. ty_getSuccs I ty [l] = Inr h \<and> (\<forall>S. app h S = {s'. \<exists>s\<in>S. lab ty l s s'})"
    and "\<And>ty. ty \<in> tys \<Longrightarrow> \<exists>h. ty_getLocals I ty = Inr h \<and> (\<forall>S. app h S = {s'. \<exists>s\<in>S. loc ty s s'})"
    and "\<And>ty. ty \<in> tys \<Longrightarrow> \<exists>ns. ty_getNamedLocals I ty = Inr ns
      \<and> (\<forall>S. (\<Union>x\<in>set ns. app (snd x) S) = {s'. \<exists>s\<in>S. loc ty s s'})"
  shows "its_contract H app localApply rd wr I lab loc tys"
  using assms by (simp add: its_contract_def its_contract_axioms_def)

lemma label_in_syncs: "l \<in> set (CompositeType_getTransLabels c) \<longleftrightarrow> (\<exists>sy\<in>set (syncs c). sy_label sy = l)"
  by (auto simp: CompositeType_getTransLabels_def)

text \<open>A composite over types that keep the contract keeps it.\<close>

lemma composite_contract:
  assumes con: "its_contract H app localApply rd wr I lab loc {..<n}"
    and "declaration_ok depth I n (Comp c vo :: 'lf type_def)"
  shows "l \<in> set (CompositeType_getTransLabels c) \<Longrightarrow>
      \<exists>h. CompositeType_getSuccs depth H I localApply c vo [l] = Inr h
        \<and> (\<forall>S. app h S = {s'. \<exists>s\<in>S. label_fires rd wr c vo lab l s s'})"
    and "\<exists>h. CompositeType_getLocals depth H I localApply c vo = Inr h
        \<and> (\<forall>S. app h S = {s'. \<exists>s\<in>S. local_fires rd wr c vo lab loc s s'})"
    and "\<exists>ns. CompositeType_getNamedLocals depth H I localApply c vo = Inr ns
        \<and> (\<forall>S. (\<Union>x\<in>set ns. app (snd x) S) = {s'. \<exists>s\<in>S. local_fires rd wr c vo lab loc s s'})"
proof -
  obtain vs rank where ok: "composite_ok (ty_transLabels I) c" "snd ` set (comps c) \<subseteq> {..<n}"
    and vs: "setFromCollection vs = Inr vo" "set vs = fst ` set (comps c)"
    and rank: "self_ranked rank c" "\<And>sy. sy \<in> set (syncs c) \<Longrightarrow> rank (sy_label sy) < depth" "0 < depth"
    using assms(2) by auto
  obtain h where "CompositeType_getLocals depth H I localApply c vo = Inr h"
    using its_contract.getLocals_answers(1) [OF con ok vs rank] by auto
  with its_contract.getLocals_steps [OF con this ok]
  show "\<exists>h. CompositeType_getLocals depth H I localApply c vo = Inr h
        \<and> (\<forall>S. app h S = {s'. \<exists>s\<in>S. local_fires rd wr c vo lab loc s s'})" by auto
  obtain ns where "CompositeType_getNamedLocals depth H I localApply c vo = Inr ns"
    using its_contract.getLocals_answers(2) [OF con ok vs rank] by auto
  with its_contract.getNamedLocals_steps [OF con this ok]
  show "\<exists>ns. CompositeType_getNamedLocals depth H I localApply c vo = Inr ns
        \<and> (\<forall>S. (\<Union>x\<in>set ns. app (snd x) S) = {s'. \<exists>s\<in>S. local_fires rd wr c vo lab loc s s'})" by auto
  show "\<exists>h. CompositeType_getSuccs depth H I localApply c vo [l] = Inr h
        \<and> (\<forall>S. app h S = {s'. \<exists>s\<in>S. label_fires rd wr c vo lab l s s'})"
    if "l \<in> set (CompositeType_getTransLabels c)"
  proof -
    have "rank l < depth" using that rank(2) by (auto simp: label_in_syncs)
    then obtain h where h: "CompositeType_getSuccs depth H I localApply c vo [l] = Inr h"
      using its_contract.getSuccs_answers [OF con ok vs rank(1) _ rank(3), of "[l]"] by auto
    with its_contract.getSuccs_steps [OF con h ok] show ?thesis by (auto simp: labels_fire_def)
  qed
qed

text \<open>The contract at every level.\<close>

lemma declared_contract:
  assumes leaf: "its_contract (sdd_hom D) app (sdd_local D) rd wr L lab loc UNIV"
    and ok: "\<And>k. k < n \<Longrightarrow> declaration_ok depth (declared_types depth D L ts k) k (ts ! k)"
  shows "its_contract (sdd_hom D) app (sdd_local D) rd wr (declared_types depth D L ts n)
    (declared_lab rd wr lab ts n) (declared_loc rd wr lab loc ts n) {..<n}"
  using ok
proof (induction n)
  case 0
  from leaf show ?case by (intro its_contract_intro) (auto simp: its_contract_def)
next
  case (Suc n)
  then have con: "its_contract (sdd_hom D) app (sdd_local D) rd wr (declared_types depth D L ts n)
      (declared_lab rd wr lab ts n) (declared_loc rd wr lab loc ts n) {..<n}" by simp
  show ?case
  proof (rule its_contract_intro)
    show "sdd_levels (sdd_hom D) app (sdd_local D) rd wr" using leaf by (simp add: its_contract_def)
  next
    fix ty l
    assume ty: "ty \<in> {..<Suc n}" and l: "l \<in> set (ty_transLabels (declared_types depth D L ts (Suc n)) ty)"
    show "\<exists>h. ty_getSuccs (declared_types depth D L ts (Suc n)) ty [l] = Inr h
        \<and> (\<forall>S. app h S = {s'. \<exists>s\<in>S. declared_lab rd wr lab ts (Suc n) ty l s s'})"
    proof (cases "ts ! n")
      case (Leaf x)
      with ty l its_contract.succs_contract [OF leaf] its_contract.succs_contract [OF con] show ?thesis
        by (auto simp: leaf_type_def less_Suc_eq)
    next
      case (Comp c vo)
      with Suc.prems [of n] have "declaration_ok depth (declared_types depth D L ts n) n (Comp c vo :: 'lf type_def)" by simp
      from composite_contract(1) [OF con this] Comp ty l its_contract.succs_contract [OF con] show ?thesis
        by (auto simp: composite_type_def Let_def less_Suc_eq)
    qed
  next
    fix ty
    assume ty: "ty \<in> {..<Suc n}"
    show "\<exists>h. ty_getLocals (declared_types depth D L ts (Suc n)) ty = Inr h
        \<and> (\<forall>S. app h S = {s'. \<exists>s\<in>S. declared_loc rd wr lab loc ts (Suc n) ty s s'})"
    proof (cases "ts ! n")
      case (Leaf x)
      with ty its_contract.locals_contract [OF leaf] its_contract.locals_contract [OF con] show ?thesis
        by (auto simp: leaf_type_def less_Suc_eq)
    next
      case (Comp c vo)
      with Suc.prems [of n] have "declaration_ok depth (declared_types depth D L ts n) n (Comp c vo :: 'lf type_def)" by simp
      from composite_contract(2) [OF con this] Comp ty its_contract.locals_contract [OF con] show ?thesis
        by (auto simp: composite_type_def Let_def less_Suc_eq)
    qed
  next
    fix ty
    assume ty: "ty \<in> {..<Suc n}"
    show "\<exists>ns. ty_getNamedLocals (declared_types depth D L ts (Suc n)) ty = Inr ns
        \<and> (\<forall>S. (\<Union>x\<in>set ns. app (snd x) S) = {s'. \<exists>s\<in>S. declared_loc rd wr lab loc ts (Suc n) ty s s'})"
    proof (cases "ts ! n")
      case (Leaf x)
      with ty its_contract.named_contract [OF leaf] its_contract.named_contract [OF con] show ?thesis
        by (auto simp: leaf_type_def less_Suc_eq)
    next
      case (Comp c vo)
      with Suc.prems [of n] have "declaration_ok depth (declared_types depth D L ts n) n (Comp c vo :: 'lf type_def)" by simp
      from composite_contract(3) [OF con this] Comp ty its_contract.named_contract [OF con] show ?thesis
        by (auto simp: composite_type_def Let_def less_Suc_eq)
    qed
  qed
qed

section \<open>Petri nets at the leaves\<close>

text \<open>A path of an SDD assigns to its variables paths of SDDs or of DDDs.\<close>

datatype path = Ddd ddd_path | Sdd "int \<Rightarrow> path"

fun sub_path :: "path \<Rightarrow> int \<Rightarrow> path" where
  "sub_path (Sdd f) i = f i"
| "sub_path (Ddd d) i = Ddd d"

fun put_path :: "path \<Rightarrow> int \<Rightarrow> path \<Rightarrow> path" where
  "put_path (Sdd f) i d = Sdd (f(i := d))"
| "put_path (Ddd m) i d = Ddd m"

text \<open>\<open>localApply\<close> on both kinds of labels.\<close>

definition path_local :: "(path \<Rightarrow> path set) \<Rightarrow> int \<Rightarrow> path \<Rightarrow> path set" where
  "path_local h i s = put_path s i ` h (sub_path s i)"

definition marking_local :: "(ddd_path \<Rightarrow> ddd_path set) \<Rightarrow> path \<Rightarrow> path set" where
  "marking_local h s = (case sub_path s DEFAULT_VAR of Ddd m \<Rightarrow> (\<lambda>m. put_path s DEFAULT_VAR (Ddd m)) ` h m | Sdd _ \<Rightarrow> {})"

interpretation path_levels: sdd_levels lin_ops lin path_local sub_path put_path
  by unfold_locales (auto simp: lin_def path_local_def)

text \<open>The steps of a net on its marking.\<close>

definition net_fires :: "varorder \<Rightarrow> PTransition \<Rightarrow> path \<Rightarrow> path \<Rightarrow> bool" where
  "net_fires vo t s s' \<longleftrightarrow> (\<exists>m m'. sub_path s DEFAULT_VAR = Ddd m \<and> t_enabled vo t m
     \<and> m' \<in> arcs_effects (\<lambda>m. m) (\<lambda>m v k. m(v := k)) vo (t_arcs t) m \<and> s' = put_path s DEFAULT_VAR (Ddd m'))"

definition net_lab :: "PNet \<times> varorder \<Rightarrow> string \<Rightarrow> path \<Rightarrow> path \<Rightarrow> bool" where
  "net_lab nv l s s' \<longleftrightarrow> (\<exists>t\<in>set (n_trans (fst nv)). t_label t = l \<and> net_fires (snd nv) t s s')"

definition net_loc :: "PNet \<times> varorder \<Rightarrow> path \<Rightarrow> path \<Rightarrow> bool" where
  "net_loc nv s s' \<longleftrightarrow> (\<exists>t\<in>set (n_trans (fst nv)). t_vis t = PRIVATE \<and> net_fires (snd nv) t s s')"

abbreviation net_type :: "'n node_ops \<Rightarrow> ('n \<Rightarrow> 'sn) \<Rightarrow> (PNet \<times> varorder, path \<Rightarrow> path set, 'sn) its_type" where
  "net_type N wrap \<equiv> PNet_type lin_ops (ddd_getHom lin_prim) lin_ops marking_local N wrap"

lemma app_net_transition:
  "lin (PNet_getTransitionHom lin_ops (ddd_getHom lin_prim) marking_local vo t) S = {s'. \<exists>s\<in>S. net_fires vo t s s'}"
proof -
  have "getFullHom lin_ops (ddd_getHom lin_prim) vo t m
      = (if t_enabled vo t m then arcs_effects (\<lambda>m. m) (\<lambda>m v k. m(v := k)) vo (t_arcs t) m else {})" for m
    using lin_library.ddd.app_full [of vo t "{m}"]
    by (cases "t_enabled vo t m") (simp_all add: lin_def fun_upd_def [abs_def] cong: conj_cong)
  then have "s' \<in> PNet_getTransitionHom lin_ops (ddd_getHom lin_prim) marking_local vo t s \<longleftrightarrow> net_fires vo t s s'" for s s'
    by (cases "sub_path s DEFAULT_VAR")
       (auto simp: PNet_getTransitionHom_def marking_local_def net_fires_def split: if_splits)
  then show ?thesis by (auto simp: lin_def)
qed

lemma net_succs:
  assumes "l \<in> t_label ` set (n_trans n)"
  shows "\<exists>h. PNet_getSuccs lin_ops (PNet_getTransitionHom lin_ops (ddd_getHom lin_prim) marking_local vo) n [l] = Inr h
    \<and> (\<forall>S. lin h S = {s'. \<exists>s\<in>S. net_lab (n, vo) l s s'})"
proof -
  let ?f = "PNet_getTransitionHom lin_ops (ddd_getHom lin_prim) marking_local vo"
  from assms obtain h where h: "label_action lin_ops ?f l (n_trans n) None = Some h"
    using lin_algebra.app_label_action [of ?f l "n_trans n" None "label_action lin_ops ?f l (n_trans n) None"]
    by (cases "label_action lin_ops ?f l (n_trans n) None") auto
  with lin_algebra.app_label_action [of ?f l "n_trans n" None "Some h"]
  have app: "lin h S = (\<Union>t\<in>{t \<in> set (n_trans n). t_label t = l}. lin (?f t) S)" for S by simp
  have "lin (Hcomp lin_ops h (Hid lin_ops)) S = {s'. \<exists>s\<in>S. net_lab (n, vo) l s s'}" for S
    unfolding lin_algebra.app_comp lin_algebra.app_id app app_net_transition net_lab_def by auto
  with h show ?thesis by (simp add: PNet_getSuccs_def)
qed

lemma net_locals:
  "lin (getLocals lin_ops (PNet_getTransitionHom lin_ops (ddd_getHom lin_prim) marking_local vo) (Hid lin_ops) n) S
    = {s'. \<exists>s\<in>S. net_loc (n, vo) s s'}"
proof -
  let ?f = "PNet_getTransitionHom lin_ops (ddd_getHom lin_prim) marking_local vo"
  let ?ts = "filter (\<lambda>t. t_vis t = PRIVATE) (n_trans n)"
  have one: "lin (if \<not> Hselector lin_ops h then Hcomp lin_ops (Hid lin_ops) h else h) S = lin h S" for h S
    by (simp add: lin_algebra.app_comp lin_algebra.app_id)
  have "lin (getLocals lin_ops ?f (Hid lin_ops) n) S = (\<Union>t\<in>set ?ts. lin (?f t) S)"
  proof (cases "?ts = []")
    case True
    then show ?thesis by (simp add: getLocals_def lin_algebra.app_null del: set_filter)
  next
    case False
    then have "getLocals lin_ops ?f (Hid lin_ops) n
        = Hadd lin_ops (map (\<lambda>t. if \<not> Hselector lin_ops (?f t) then Hcomp lin_ops (Hid lin_ops) (?f t) else ?f t) ?ts)"
      by (simp add: getLocals_def Let_def)
    then show ?thesis by (simp only: lin_algebra.app_add set_map image_image one)
  qed
  also have "\<dots> = {s'. \<exists>s\<in>S. net_loc (n, vo) s s'}" unfolding app_net_transition net_loc_def by auto
  finally show ?thesis .
qed

lemma net_named:
  "(\<Union>x\<in>set (getNamedLocals lin_ops (PNet_getTransitionHom lin_ops (ddd_getHom lin_prim) marking_local vo) (Hid lin_ops) n).
      lin (snd x) S) = {s'. \<exists>s\<in>S. net_loc (n, vo) s s'}"
proof -
  let ?f = "PNet_getTransitionHom lin_ops (ddd_getHom lin_prim) marking_local vo"
  have one: "lin (if \<not> Hselector lin_ops h then Hcomp lin_ops (Hid lin_ops) h else h) S = lin h S" for h S
    by (simp add: lin_algebra.app_comp lin_algebra.app_id)
  have "(\<Union>x\<in>set (getNamedLocals lin_ops ?f (Hid lin_ops) n). lin (snd x) S)
      = (\<Union>t\<in>{t \<in> set (n_trans n). t_vis t = PRIVATE}. lin (?f t) S)"
    by (simp only: getNamedLocals_def Let_def set_map set_filter image_image snd_conv one)
  then show ?thesis unfolding app_net_transition net_loc_def by auto
qed

interpretation nets: its_contract lin_ops lin path_local sub_path put_path "net_type N wrap" net_lab net_loc UNIV
proof (rule its_contract_intro [OF path_levels.sdd_levels_axioms])
  fix nv :: "PNet \<times> varorder" and l
  assume "l \<in> set (ty_transLabels (net_type N wrap) nv)"
  then show "\<exists>h. ty_getSuccs (net_type N wrap) nv [l] = Inr h \<and> (\<forall>S. lin h S = {s'. \<exists>s\<in>S. net_lab nv l s s'})"
    using net_succs [of l "fst nv" "snd nv"]
    by (cases nv) (auto simp: PNet_type_def getTransLabels_def)
next
  fix nv :: "PNet \<times> varorder"
  show "\<exists>h. ty_getLocals (net_type N wrap) nv = Inr h \<and> (\<forall>S. lin h S = {s'. \<exists>s\<in>S. net_loc nv s s'})"
    by (cases nv) (simp add: PNet_type_def net_locals)
next
  fix nv :: "PNet \<times> varorder"
  show "\<exists>ns. ty_getNamedLocals (net_type N wrap) nv = Inr ns
      \<and> (\<forall>S. (\<Union>x\<in>set ns. lin (snd x) S) = {s'. \<exists>s\<in>S. net_loc nv s s'})"
    by (cases nv) (simp add: PNet_type_def net_named)
qed

end
