(* ===== verification/Its_Model.thy ===== *)
theory Its_Model imports Its_Hierarchy begin

text \<open>
  The model (\<open>its/ITSModel.cpp\<close>): the declared types, the main instance and its initial state, the
  transition relation and its reverse, reachable states, and the search of witness paths. A \<open>State\<close> is
  a set of states; \<open>*\<close>, \<open>+\<close> and \<open>-\<close> on \<open>State\<close>s are intersection, union and difference, \<open>State::null\<close>
  is the empty set.
\<close>

section \<open>What is called on other classes\<close>

text \<open>\<open>fixpoint\<close>, \<open>invert\<close> and the operator \<open>*\<close> between a transition and a set of states.\<close>

record ('h, 'st) rel_ops =
  rel_hom :: "'h hom_ops"
  rel_app :: "'h \<Rightarrow> 'st set \<Rightarrow> 'st set"
  rel_fixpoint :: "'h \<Rightarrow> 'h"
  rel_invert :: "'h \<Rightarrow> 'st set \<Rightarrow> 'h"
  rel_inter :: "'h \<Rightarrow> 'st set \<Rightarrow> 'h"

text \<open>The calls on the elements \<open>'ty\<close> of \<open>m_types\<close>; a \<open>pType\<close> is a position of this vector.\<close>

record ('ty, 'h, 'st) type_calls =
  tc_getName :: "'ty \<Rightarrow> string"
  tc_getInitStates :: "'ty \<Rightarrow> labels"
  tc_getVarOrder :: "'ty \<Rightarrow> varorder"
  tc_setVarOrder :: "'ty \<Rightarrow> labels \<Rightarrow> ('ty \<times> bool) res"
  tc_type :: "'ty list \<Rightarrow> (nat, 'h, 'st set) its_type"

section \<open>Types and instances\<close>

record ('ty, 'h, 'st) ITSModel =
  m_types :: "'ty list"
  m_model :: "(string \<times> nat) option"
  m_reached :: "'st set"
  m_predRel :: 'h
  m_initName :: string

definition ITSModel_of :: "'h hom_ops \<Rightarrow> ('ty, 'h, 'st) ITSModel" where
  "ITSModel_of H = \<lparr>m_types = [], m_model = None, m_reached = {}, m_predRel = Hnull H, m_initName = ''''\<rparr>"

fun find_type :: "('ty \<Rightarrow> string) \<Rightarrow> 'ty list \<Rightarrow> string \<Rightarrow> nat \<Rightarrow> nat option" where
  "find_type name [] tname i = None"
| "find_type name (t # ts) tname i = (if name t = tname then Some i else find_type name ts tname (Suc i))"

definition findType :: "('ty, 'h, 'st) type_calls \<Rightarrow> string \<Rightarrow> ('ty, 'h, 'st) ITSModel \<Rightarrow> nat option" where
  "findType C tname m = find_type (tc_getName C) (m_types m) tname 0"

definition addType :: "('ty, 'h, 'st) type_calls \<Rightarrow> 'ty \<Rightarrow> ('ty, 'h, 'st) ITSModel \<Rightarrow> ('ty, 'h, 'st) ITSModel \<times> bool" where
  "addType C type m =
     (case findType C (tc_getName C type) m of
        Some _ \<Rightarrow> (m, False)
      | None \<Rightarrow> (m\<lparr>m_types := m_types m @ [type]\<rparr>, True))"

definition setInstance ::
  "('ty, 'h, 'st) type_calls \<Rightarrow> string \<Rightarrow> string \<Rightarrow> ('ty, 'h, 'st) ITSModel \<Rightarrow> ('ty, 'h, 'st) ITSModel \<times> bool" where
  "setInstance C type name m =
     (case findType C type m of
        None \<Rightarrow> (m, False)
      | Some ptype \<Rightarrow> (m\<lparr>m_model := Some (name, ptype)\<rparr>, True))"

definition main_type :: "('ty, 'h, 'st) ITSModel \<Rightarrow> nat res" where
  "main_type m = (case m_model m of None \<Rightarrow> Inl (Undefined ''null instance'') | Some (_, p) \<Rightarrow> Inr p)"

definition getInitialState :: "('ty, 'h, 'st) type_calls \<Rightarrow> ('ty, 'h, 'st) ITSModel \<Rightarrow> 'st set res" where
  "getInitialState C m =
     rbind (main_type m) (\<lambda>p. ty_getState (tc_type C (m_types m)) p (m_initName m))"

definition setInstanceState ::
  "('ty, 'h, 'st) type_calls \<Rightarrow> string \<Rightarrow> ('ty, 'h, 'st) ITSModel \<Rightarrow> ('ty, 'h, 'st) ITSModel \<times> bool" where
  "setInstanceState C stateName m =
     (case m_model m of
        None \<Rightarrow> (m, False)
      | Some (_, p) \<Rightarrow>
          if stateName \<in> set (tc_getInitStates C (m_types m ! p)) then (m\<lparr>m_initName := stateName\<rparr>, True)
          else (m, False))"

definition updateVarOrder ::
  "('ty, 'h, 'st) type_calls \<Rightarrow> string \<Rightarrow> labels \<Rightarrow> ('ty, 'h, 'st) ITSModel \<Rightarrow> (('ty, 'h, 'st) ITSModel \<times> bool) res" where
  "updateVarOrder C type order m =
     (case findType C type m of
        None \<Rightarrow> Inr (m, False)
      | Some p \<Rightarrow>
          rbind (tc_setVarOrder C (m_types m ! p) order) (\<lambda>(t, ok).
            Inr (m\<lparr>m_types := (m_types m)[p := t]\<rparr>, ok)))"

section \<open>The transition relation\<close>

definition getElapse ::
  "('ty, 'h, 'st) type_calls \<Rightarrow> 'h hom_ops \<Rightarrow> ('ty, 'h, 'st) ITSModel \<Rightarrow> 'h res" where
  "getElapse C H m =
     rbind (main_type m) (\<lambda>p.
       if ''elapse'' \<in> set (ty_transLabels (tc_type C (m_types m)) p)
       then ty_getSuccs (tc_type C (m_types m)) p [''elapse''] else Inr (Hid H))"

definition getNextRel ::
  "('ty, 'h, 'st) type_calls \<Rightarrow> 'h hom_ops \<Rightarrow> ('ty, 'h, 'st) ITSModel \<Rightarrow> 'h res" where
  "getNextRel C H m =
     rbind (main_type m) (\<lambda>p.
     rbind (ty_getLocals (tc_type C (m_types m)) p) (\<lambda>trans.
     rbind (getElapse C H m) (\<lambda>elapse.
       Inr (if elapse \<noteq> Hid H then Hor H trans elapse else trans))))"

definition ITSModel_getNamedLocals ::
  "('ty, 'h, 'st) type_calls \<Rightarrow> 'h hom_ops \<Rightarrow> ('ty, 'h, 'st) ITSModel \<Rightarrow> (string \<times> 'h) list res" where
  "ITSModel_getNamedLocals C H m =
     rbind (main_type m) (\<lambda>p.
     rbind (ty_getNamedLocals (tc_type C (m_types m)) p) (\<lambda>namedTrs.
     rbind (getElapse C H m) (\<lambda>elapse.
       Inr (if elapse \<noteq> Hid H then (''elapse'', elapse) # namedTrs else namedTrs))))"

definition computeReachable ::
  "('ty, 'h, 'st) type_calls \<Rightarrow> ('h, 'st) rel_ops \<Rightarrow> ('ty, 'h, 'st) ITSModel \<Rightarrow>
     (('ty, 'h, 'st) ITSModel \<times> 'st set) res" where
  "computeReachable C R m =
     (if m_reached m = {} then
        rbind (getInitialState C m) (\<lambda>M0.
        rbind (getNextRel C (rel_hom R) m) (\<lambda>trans.
          let transrel = rel_fixpoint R (Hor (rel_hom R) trans (Hid (rel_hom R)));
              r = rel_app R transrel M0
          in Inr (m\<lparr>m_reached := r\<rparr>, r)))
      else Inr (m, m_reached m))"

text \<open>The transitions whose reverse stays inside \<open>reach\<close>, and those that must be kept there.\<close>

fun classify ::
  "('h, 'st) rel_ops \<Rightarrow> 'st set \<Rightarrow> (string \<times> 'h) list \<Rightarrow> 'h list \<Rightarrow> 'h list \<Rightarrow> 'h list \<times> 'h list" where
  "classify R reach [] toadd toprotect = (toadd, toprotect)"
| "classify R reach ((_, h) # ts) toadd toprotect =
     (if rel_app R h reach \<noteq> {} then
        let preds = rel_app R (rel_invert R h reach) reach; falsepreds = preds - reach
        in if falsepreds \<noteq> {} then classify R reach ts toadd (toprotect @ [h])
           else classify R reach ts (toadd @ [h]) toprotect
      else classify R reach ts toadd toprotect)"

definition guarded_reverse :: "('h, 'st) rel_ops \<Rightarrow> 'st set \<Rightarrow> 'h \<Rightarrow> (string \<times> 'h) list \<Rightarrow> 'h" where
  "guarded_reverse R reach rel namedTrs =
     (let H = rel_hom R; (toadd, toprotect) = classify R reach namedTrs [] []
      in if toadd \<noteq> [] then
           Hor H (rel_invert R (Hadd H toadd) reach) (rel_inter R (rel_invert R (Hadd H toprotect) reach) reach)
         else rel_inter R rel reach)"

text \<open>The reverse of \<open>nextRel\<close> is taken as it is when it stays inside \<open>reach\<close>.\<close>

definition reverse_relation ::
  "('h, 'st) rel_ops \<Rightarrow> 'st set \<Rightarrow> 'h \<Rightarrow> (string \<times> 'h) list res \<Rightarrow> 'h res" where
  "reverse_relation R reach nextRel getNamed =
     (let rel = rel_invert R nextRel reach; border = rel_app R rel reach - reach
      in if border = {} then Inr rel
         else rbind getNamed (\<lambda>namedTrs. Inr (guarded_reverse R reach rel namedTrs)))"

definition getPredRel ::
  "('ty, 'h, 'st) type_calls \<Rightarrow> ('h, 'st) rel_ops \<Rightarrow> 'st set \<Rightarrow> ('ty, 'h, 'st) ITSModel \<Rightarrow>
     (('ty, 'h, 'st) ITSModel \<times> 'h) res" where
  "getPredRel C R reach_envelope m =
     (let H = rel_hom R
      in if m_predRel m = Hnull H \<or> reach_envelope \<noteq> {} then
           rbind (if reach_envelope = {} then computeReachable C R m else Inr (m, reach_envelope)) (\<lambda>(m1, reach).
           rbind (getNextRel C H m1) (\<lambda>nextRel.
             if nextRel = Hnull H then Inr (m1, Hnull H)
             else
               rbind (reverse_relation R reach nextRel (ITSModel_getNamedLocals C H m1)) (\<lambda>rel.
                 if reach_envelope \<noteq> {} then Inr (m1\<lparr>m_predRel := Hnull H\<rparr>, rel)
                 else Inr (m1\<lparr>m_predRel := rel\<rparr>, rel))))
         else Inr (m, m_predRel m))"

section \<open>Witness paths\<close>

text \<open>\<open>playPath\<close> prints what happens: a transition without the name, a transition that cannot be fired at
  step \<open>i\<close>, or the states reached.\<close>

datatype 'st play = UnknownTransition string | NotFirable nat string | Played "'st set"

fun play_loop :: "('h, 'st) rel_ops \<Rightarrow> (string \<times> 'h) list \<Rightarrow> labels \<Rightarrow> 'st set \<Rightarrow> nat \<Rightarrow> 'st play" where
  "play_loop R namedTrs [] cur i = Played cur"
| "play_loop R namedTrs (l # path) cur i =
     (case map_of namedTrs l of
        None \<Rightarrow> UnknownTransition l
      | Some h \<Rightarrow>
          let cur' = rel_app R h cur
          in if cur' = {} then NotFirable i l else play_loop R namedTrs path cur' (Suc i))"

definition playPath ::
  "('ty, 'h, 'st) type_calls \<Rightarrow> ('h, 'st) rel_ops \<Rightarrow> labels \<Rightarrow> ('ty, 'h, 'st) ITSModel \<Rightarrow> 'st play res" where
  "playPath C R path m =
     rbind (getInitialState C m) (\<lambda>init.
     rbind (ITSModel_getNamedLocals C (rel_hom R) m) (\<lambda>namedTrs. Inr (play_loop R namedTrs path init 0)))"

text \<open>A path: the names of its transitions, and sets of states along it.\<close>

type_synonym 'st path_t = "labels \<times> 'st set list"

text \<open>Backward layers from the goal until one meets \<open>init\<close>, the last found first; no answer inside when a
  layer is empty.\<close>

partial_function (option) back_layers ::
  "('h, 'st) rel_ops \<Rightarrow> 'h \<Rightarrow> 'st set \<Rightarrow> 'st set \<Rightarrow> 'st set \<Rightarrow> 'st set list \<Rightarrow> 'st set list option option" where
  "back_layers R revTrans init seen M3 revcomponents =
     (let M2 = rel_app R revTrans M3 - seen; seen' = seen \<union> M2
      in if M2 = {} then Some None
         else if init \<inter> M2 = {} then
           (if M3 = M2 then Some None else back_layers R revTrans init seen' M2 (M2 # revcomponents))
         else Some (Some ((M2 \<inter> init) # revcomponents)))"

text \<open>The first transition that leads from \<open>cur\<close> into \<open>next\<close>.\<close>

fun first_step :: "('h, 'st) rel_ops \<Rightarrow> (string \<times> 'h) list \<Rightarrow> 'st set \<Rightarrow> 'st set \<Rightarrow> (string \<times> 'st set) option" where
  "first_step R [] cur nxt = None"
| "first_step R ((name, h) # ts) cur nxt =
     (let Mi_next = rel_app R h cur \<inter> nxt
      in if Mi_next \<noteq> {} then Some (name, Mi_next) else first_step R ts cur nxt)"

fun forward_pass :: "('h, 'st) rel_ops \<Rightarrow> (string \<times> 'h) list \<Rightarrow> 'st set list \<Rightarrow> 'st path_t" where
  "forward_pass R ts (cur # nxt # cs) =
     (case first_step R ts cur nxt of
        Some (name, M) \<Rightarrow> let (w, cs') = forward_pass R ts (M # cs) in (name # w, cur # cs')
      | None \<Rightarrow> let (w, cs') = forward_pass R ts (nxt # cs) in (w, cur # cs'))"
| "forward_pass R ts cs = ([], cs)"

text \<open>On the reversed list: each set is restricted to the predecessors of the one after it.\<close>

fun backward_pass ::
  "('h, 'st) rel_ops \<Rightarrow> 'st set \<Rightarrow> (string \<times> 'h) list \<Rightarrow> 'st set list \<Rightarrow> labels \<Rightarrow> 'st set list res" where
  "backward_pass R reach ts (nxt # pred # cs) ls =
     (case ls of
        [] \<Rightarrow> Inl (Undefined ''dereference of witness.rend()'')
      | l # ls' \<Rightarrow>
          let revt = (case map_of ts l of Some h \<Rightarrow> rel_invert R h reach | None \<Rightarrow> Hid (rel_hom R))
          in if revt = Hid (rel_hom R) then Inl (Abort ''assert(false)'')
             else rbind (backward_pass R reach ts ((pred \<inter> rel_app R revt nxt) # cs) ls') (\<lambda>cs'. Inr (nxt # cs')))"
| "backward_pass R reach ts cs ls = Inr cs"

definition findPath ::
  "('ty, 'h, 'st) type_calls \<Rightarrow> ('h, 'st) rel_ops \<Rightarrow> bool \<Rightarrow> 'st set \<Rightarrow> 'st set \<Rightarrow> 'st set \<Rightarrow> bool \<Rightarrow>
     ('ty, 'h, 'st) ITSModel \<Rightarrow> (('ty, 'h, 'st) ITSModel \<times> 'st path_t) res option" where
  "findPath C R printStatesInTrace init toreach reach precise m =
     (if init \<inter> toreach \<noteq> {} then Some (Inr (m, [], [init \<inter> toreach, init \<inter> toreach]))
      else
        case getPredRel C R reach m of
          Inl e \<Rightarrow> Some (Inl e)
        | Inr (m', revTrans) \<Rightarrow>
            (case back_layers R revTrans init toreach toreach [toreach] of
               None \<Rightarrow> None
             | Some None \<Rightarrow> Some (Inr (m', [], [init, toreach]))
             | Some (Some revcomponents) \<Rightarrow>
                 Some (rbind (ITSModel_getNamedLocals C (rel_hom R) m') (\<lambda>namedTrs.
                   let (witness, comps') = forward_pass R namedTrs revcomponents
                   in if \<not> precise \<and> \<not> printStatesInTrace then Inr (m', witness, [hd comps', last comps'])
                      else
                        rbind (backward_pass R reach namedTrs (rev comps') (rev witness)) (\<lambda>back.
                          let comps'' = rev back
                          in Inr (m', if witness = [] then ([], [init, toreach])
                                      else if printStatesInTrace then (witness, comps'')
                                      else (witness, [hd comps'', last comps''])))))))"

end
