(* ===== verification/Its_Search.thy ===== *)
theory Its_Search imports Its_Model begin

text \<open>
  What the searches of the model compute: reachable states, the reverse transition relation, and shortest
  witness paths.
\<close>

section \<open>The library on relations\<close>

text \<open>
  \<open>fixpoint h\<close> applies \<open>h\<close> until nothing changes. \<open>invert h reach\<close> is the reverse of \<open>h\<close> on states of
  \<open>reach\<close>; it may also answer states outside of \<open>reach\<close>.
\<close>

locale relations = hom_algebra "rel_hom R" "rel_app R" for R :: "('h, 'st) rel_ops" +
  assumes app_fixpoint: "(\<And>T. T \<subseteq> rel_app R h T) \<Longrightarrow> (rel_app R h ^^ n) S = (rel_app R h ^^ Suc n) S
      \<Longrightarrow> rel_app R (rel_fixpoint R h) S = (rel_app R h ^^ n) S"
    and app_invert: "s \<in> reach \<Longrightarrow> s \<in> rel_app R (rel_invert R h reach) T \<longleftrightarrow> (\<exists>t\<in>T. t \<in> rel_app R h {s})"
    and app_invert_add: "rel_app R (rel_invert R (Hadd (rel_hom R) hs) reach) T = (\<Union>h\<in>set hs. rel_app R (rel_invert R h reach) T)"
    and app_inter: "rel_app R (rel_inter R h reach) T = rel_app R h T \<inter> reach"
begin

lemma app_mono: "S \<subseteq> T \<Longrightarrow> rel_app R h S \<subseteq> rel_app R h T"
  by (subst (1 2) app_linear) blast

lemma app_mem: "t \<in> rel_app R h S \<longleftrightarrow> (\<exists>s\<in>S. t \<in> rel_app R h {s})"
  by (subst app_linear) blast

end

text \<open>On the library of sets of states.\<close>

definition lin_rel :: "('st \<Rightarrow> 'st set, 'st) rel_ops" where
  "lin_rel =
     \<lparr>rel_hom = lin_ops, rel_app = lin, rel_fixpoint = (\<lambda>h s. \<Union>n. (lin h ^^ n) {s}),
      rel_invert = (\<lambda>h reach t. {s \<in> reach. t \<in> h s}), rel_inter = (\<lambda>h reach s. h s \<inter> reach)\<rparr>"

lemma lin_power: "(lin h ^^ n) S = (\<Union>s\<in>S. (lin h ^^ n) {s})"
proof (induction n)
  case (Suc n)
  have "(lin h ^^ Suc n) S = lin h (\<Union>s\<in>S. (lin h ^^ n) {s})" by (simp only: funpow.simps o_apply Suc [symmetric])
  also have "\<dots> = (\<Union>s\<in>S. lin h ((lin h ^^ n) {s}))" by (auto simp: lin_def)
  finally show ?case by simp
qed simp

lemma power_stable:
  fixes f :: "'a \<Rightarrow> 'a"
  assumes "(f ^^ n) S = (f ^^ Suc n) S"
  shows "(f ^^ (n + k)) S = (f ^^ n) S"
proof (induction k)
  case (Suc k)
  have "(f ^^ (n + Suc k)) S = f ((f ^^ (n + k)) S)" by simp
  also have "\<dots> = (f ^^ n) S" using assms by (simp add: Suc)
  finally show ?case .
qed simp

lemma power_grows:
  fixes f :: "'a set \<Rightarrow> 'a set"
  assumes "\<And>T. T \<subseteq> f T" "m \<le> n"
  shows "(f ^^ m) S \<subseteq> (f ^^ n) S"
  using assms(2)
proof (induction rule: dec_induct)
  case (step k)
  with assms(1) [of "(f ^^ k) S"] show ?case by auto
qed simp

interpretation lin_relations: relations "lin_rel :: ('st \<Rightarrow> 'st set, 'st) rel_ops"
proof -
  have eqs: "rel_hom lin_rel = lin_ops" "rel_app lin_rel = lin"
    "rel_fixpoint lin_rel = (\<lambda>h s. \<Union>n. (lin h ^^ n) {s})"
    "rel_invert lin_rel = (\<lambda>h reach t. {s \<in> reach. t \<in> h s})" "rel_inter lin_rel = (\<lambda>h reach s. h s \<inter> reach)"
    for lin_rel' :: "('st \<Rightarrow> 'st set, 'st) rel_ops"
    by (simp_all add: lin_rel_def)
  show "relations (lin_rel :: ('st \<Rightarrow> 'st set, 'st) rel_ops)"
    unfolding relations_def relations_axioms_def eqs
  proof (intro conjI allI impI lin_algebra.hom_algebra_axioms)
    fix h :: "'st \<Rightarrow> 'st set" and n S
    assume ext: "\<forall>T. T \<subseteq> lin h T" and stable: "(lin h ^^ n) S = (lin h ^^ Suc n) S"
    have "lin (\<lambda>s. \<Union>k. (lin h ^^ k) {s}) S = (\<Union>k. (lin h ^^ k) S)"
      by (subst lin_power) (auto simp: lin_def)
    also have "\<dots> = (lin h ^^ n) S"
    proof (intro equalityI UN_least)
      fix k
      show "(lin h ^^ k) S \<subseteq> (lin h ^^ n) S"
        using power_grows [of "lin h" k "n + k" S] power_stable [OF stable, of k] ext by simp
    qed blast
    finally show "lin (\<lambda>s. \<Union>n. (lin h ^^ n) {s}) S = (lin h ^^ n) S" .
  qed (auto simp: lin_def lin_ops_def)
qed

section \<open>Steps and runs\<close>

text \<open>States reached by the steps of a transition.\<close>

definition reachable :: "('h, 'st) rel_ops \<Rightarrow> 'h \<Rightarrow> 'st set \<Rightarrow> 'st set" where
  "reachable R h S = {s'. \<exists>s\<in>S. (\<lambda>a b. b \<in> rel_app R h {a})\<^sup>*\<^sup>* s s'}"

text \<open>A step by a transition with the name, and by the first of them.\<close>

definition named_step :: "('h, 'st) rel_ops \<Rightarrow> (string \<times> 'h) list \<Rightarrow> string \<Rightarrow> 'st \<Rightarrow> 'st \<Rightarrow> bool" where
  "named_step R ns l s s' \<longleftrightarrow> (\<exists>h. (l, h) \<in> set ns \<and> s' \<in> rel_app R h {s})"

definition first_named :: "('h, 'st) rel_ops \<Rightarrow> (string \<times> 'h) list \<Rightarrow> string \<Rightarrow> 'st \<Rightarrow> 'st \<Rightarrow> bool" where
  "first_named R ns l s s' \<longleftrightarrow> (\<exists>h. map_of ns l = Some h \<and> s' \<in> rel_app R h {s})"

text \<open>Every state of a set goes by the label to a state of the next.\<close>

fun precise_trace :: "('h, 'st) rel_ops \<Rightarrow> (string \<times> 'h) list \<Rightarrow> labels \<Rightarrow> 'st set list \<Rightarrow> bool" where
  "precise_trace R ns [] [c] \<longleftrightarrow> True"
| "precise_trace R ns (l # w) (c # d # cs) \<longleftrightarrow>
     (\<forall>s\<in>c. \<exists>s'\<in>d. named_step R ns l s s') \<and> precise_trace R ns w (d # cs)"
| "precise_trace R ns w cs \<longleftrightarrow> False"

lemma precise_run:
  "precise_trace R ns w cs \<Longrightarrow> s \<in> hd cs \<Longrightarrow> \<exists>t\<in>last cs. chain (named_step R ns) w s t"
proof (induction R ns w cs arbitrary: s rule: precise_trace.induct)
  case (2 R ns l w c d cs)
  then obtain s1 where "s1 \<in> d" "named_step R ns l s s1" by auto
  with 2 show ?case by fastforce
qed auto

text \<open>From the states of \<open>X\<close>, the named transitions together make the steps of the transition relation.\<close>

definition named_cover :: "('h, 'st) rel_ops \<Rightarrow> 'h \<Rightarrow> (string \<times> 'h) list \<Rightarrow> 'st set \<Rightarrow> bool" where
  "named_cover R nextRel ns X \<longleftrightarrow> (\<forall>s\<in>X. (\<Union>x\<in>set ns. rel_app R (snd x) {s}) = rel_app R nextRel {s})"

lemma named_cover_step:
  "named_cover R nextRel ns X \<Longrightarrow> s \<in> X \<Longrightarrow> t \<in> rel_app R nextRel {s} \<longleftrightarrow> (\<exists>x\<in>set ns. t \<in> rel_app R (snd x) {s})"
  unfolding named_cover_def by (drule bspec, assumption) blast

text \<open>
  The model, as the searches see it: its transition relation and its named transitions, which agree on \<open>reach\<close>.
  Types that keep the contract of \<open>Composite_Sound\<close> have it (\<open>contract_relation\<close>); GAL types with transient
  states or pauses do not, since their named transitions leave both out.
\<close>

definition model_relation ::
  "('h, 'st) rel_ops \<Rightarrow> ('ty, 'h, 'st) type_calls \<Rightarrow> ('ty, 'h, 'st) ITSModel \<Rightarrow> 'st set \<Rightarrow> 'h \<Rightarrow> (string \<times> 'h) list \<Rightarrow> bool" where
  "model_relation R C m reach nextRel ns \<longleftrightarrow>
     getNextRel C (rel_hom R) m = Inr nextRel \<and> ITSModel_getNamedLocals C (rel_hom R) m = Inr ns
     \<and> named_cover R nextRel ns reach"

text \<open>\<open>getPredRel\<close> looks at the named transitions only when the reverse of the relation leaves \<open>reach\<close>.\<close>

definition model_reversible ::
  "('h, 'st) rel_ops \<Rightarrow> ('ty, 'h, 'st) type_calls \<Rightarrow> ('ty, 'h, 'st) ITSModel \<Rightarrow> 'st set \<Rightarrow> 'h \<Rightarrow> bool" where
  "model_reversible R C m reach nextRel \<longleftrightarrow> getNextRel C (rel_hom R) m = Inr nextRel
     \<and> (rel_app R (rel_invert R nextRel reach) reach \<subseteq> reach \<or> (\<exists>ns. model_relation R C m reach nextRel ns))"

lemma relation_reversible: "model_relation R C m reach nextRel ns \<Longrightarrow> model_reversible R C m reach nextRel"
  by (auto simp: model_reversible_def model_relation_def)

lemma model_relation_subset: "model_relation R C m X nextRel ns \<Longrightarrow> Y \<subseteq> X \<Longrightarrow> model_relation R C m Y nextRel ns"
  by (auto simp: model_relation_def named_cover_def)

section \<open>Reachable states\<close>

context relations begin

abbreviation step :: "'h \<Rightarrow> 'st \<Rightarrow> 'st \<Rightarrow> bool" where
  "step h s s' \<equiv> s' \<in> rel_app R h {s}"

lemma fixpoint_reachable:
  assumes "finite (reachable R h S)"
  shows "rel_app R (rel_fixpoint R (Hor (rel_hom R) h (Hid (rel_hom R)))) S = reachable R h S"
proof -
  let ?f = "rel_app R (Hor (rel_hom R) h (Hid (rel_hom R)))"
  have f: "?f T = rel_app R h T \<union> T" for T by (simp add: app_or app_id)
  have sub: "(?f ^^ n) S \<subseteq> reachable R h S" for n
  proof (induction n)
    case 0
    show ?case by (auto simp: reachable_def)
  next
    case (Suc n)
    have "rel_app R h (reachable R h S) \<subseteq> reachable R h S"
      by (subst app_linear) (auto simp: reachable_def intro: rtranclp.rtrancl_into_rtrancl)
    with app_mono [OF Suc] Suc show ?case by (auto simp: f)
  qed
  have "\<exists>n. (?f ^^ n) S = (?f ^^ Suc n) S"
  proof (rule ccontr)
    assume neq: "\<nexists>n. (?f ^^ n) S = (?f ^^ Suc n) S"
    have "n \<le> card ((?f ^^ n) S)" for n
    proof (induction n)
      case (Suc n)
      have "(?f ^^ n) S \<subset> (?f ^^ Suc n) S" using neq by (auto simp: f)
      then have "card ((?f ^^ n) S) < card ((?f ^^ Suc n) S)"
        using finite_subset [OF sub assms] by (intro psubset_card_mono)
      with Suc show ?case by simp
    qed simp
    then have "Suc (card (reachable R h S)) \<le> card (reachable R h S)"
      using card_mono [OF assms sub] by (meson le_trans)
    then show False by simp
  qed
  then obtain n where n: "(?f ^^ n) S = (?f ^^ Suc n) S" ..
  have eq: "rel_app R (rel_fixpoint R (Hor (rel_hom R) h (Hid (rel_hom R)))) S = (?f ^^ n) S"
    by (rule app_fixpoint [OF _ n]) (auto simp: f)
  have "s' \<in> (?f ^^ n) S" if "(step h)\<^sup>*\<^sup>* s s'" "s \<in> S" for s s'
    using that
  proof (induction rule: rtranclp_induct)
    case base
    have "(?f ^^ 0) S \<subseteq> (?f ^^ n) S" by (rule power_grows) (auto simp: f)
    with base show ?case by auto
  next
    case (step s1 s2)
    then have "s1 \<in> (?f ^^ n) S" by simp
    with step(2) have "s2 \<in> rel_app R h ((?f ^^ n) S)" by (subst app_mem) blast
    then have "s2 \<in> (?f ^^ Suc n) S" by (simp add: f)
    then show ?case by (subst n)
  qed
  then have "reachable R h S \<subseteq> (?f ^^ n) S" by (intro subsetI) (auto simp only: reachable_def mem_Collect_eq)
  with sub [of n] show ?thesis unfolding eq by (rule equalityI)
qed

section \<open>The reverse relation\<close>

definition pre :: "'h \<Rightarrow> 'st set \<Rightarrow> 'st set \<Rightarrow> 'st set" where
  "pre h reach T = {s \<in> reach. \<exists>t\<in>T. step h s t}"

definition exact :: "'st set \<Rightarrow> 'h \<Rightarrow> bool" where
  "exact reach h \<longleftrightarrow> rel_app R (rel_invert R h reach) reach \<subseteq> reach"

lemma classify_eq:
  "classify R reach ts a p =
     (a @ map snd (filter (\<lambda>x. rel_app R (snd x) reach \<noteq> {} \<and> exact reach (snd x)) ts),
      p @ map snd (filter (\<lambda>x. rel_app R (snd x) reach \<noteq> {} \<and> \<not> exact reach (snd x)) ts))"
proof (induction ts arbitrary: a p)
  case (Cons x ts)
  then show ?case by (cases x) (auto simp: Let_def exact_def)
qed simp

lemma invert_in: "rel_app R (rel_invert R h reach) T \<inter> reach = pre h reach T"
  by (auto simp: pre_def app_invert)

lemma exact_invert:
  assumes "exact reach h" "T \<subseteq> reach"
  shows "rel_app R (rel_invert R h reach) T = pre h reach T"
  using invert_in [of h reach T] app_mono [OF assms(2), of "rel_invert R h reach"] assms(1)
  by (auto simp: exact_def)

text \<open>On sets inside \<open>reach\<close>, the reverse relation answers the predecessors in \<open>reach\<close>.\<close>

lemma guarded_reverse_pre:
  assumes cover: "named_cover R nextRel ns reach" and T: "T \<subseteq> reach"
  shows "rel_app R (guarded_reverse R reach (rel_invert R nextRel reach) ns) T = pre nextRel reach T"
proof -
  define live where "live = {h \<in> snd ` set ns. rel_app R h reach \<noteq> {}}"
  obtain a p where ap: "classify R reach ns [] [] = (a, p)" by fastforce
  have img: "snd ` {x \<in> set ns. rel_app R (snd x) reach \<noteq> {} \<and> Q (snd x)} = {h \<in> live. Q h}" for Q
    unfolding live_def by (auto simp del: Collect_empty_eq intro!: rev_image_eqI)
  have "a = map snd (filter (\<lambda>x. rel_app R (snd x) reach \<noteq> {} \<and> exact reach (snd x)) ns)"
    "p = map snd (filter (\<lambda>x. rel_app R (snd x) reach \<noteq> {} \<and> \<not> exact reach (snd x)) ns)"
    using ap by (simp_all add: classify_eq)
  then have sets: "set a = {h \<in> live. exact reach h}" "set p = {h \<in> live. \<not> exact reach h}"
    using img [of "exact reach"] img [of "\<lambda>h. \<not> exact reach h"] by (simp_all only: set_map set_filter)
  show ?thesis
  proof (cases "a = []")
    case True
    with ap show ?thesis by (simp add: guarded_reverse_def Let_def app_inter invert_in)
  next
    case False
    have "rel_app R (rel_invert R (Hadd (rel_hom R) a) reach) T = (\<Union>h\<in>{h \<in> live. exact reach h}. pre h reach T)"
      unfolding app_invert_add sets using exact_invert [OF _ T] by (intro SUP_cong) auto
    moreover have "rel_app R (rel_invert R (Hadd (rel_hom R) p) reach) T \<inter> reach
        = (\<Union>h\<in>{h \<in> live. \<not> exact reach h}. pre h reach T)"
      unfolding app_invert_add sets using invert_in by blast
    moreover have "(\<Union>h\<in>{h \<in> live. exact reach h}. pre h reach T) \<union> (\<Union>h\<in>{h \<in> live. \<not> exact reach h}. pre h reach T)
        = (\<Union>h\<in>live. pre h reach T)" by blast
    moreover have "(\<Union>h\<in>live. pre h reach T) = pre nextRel reach T"
    proof (intro equalityI subsetI)
      fix s assume "s \<in> pre nextRel reach T"
      then obtain t where t: "s \<in> reach" "t \<in> T" "t \<in> rel_app R nextRel {s}" by (auto simp: pre_def)
      then obtain x where x: "x \<in> set ns" "t \<in> rel_app R (snd x) {s}" using named_cover_step [OF cover] by blast
      then have "t \<in> rel_app R (snd x) reach" using t(1) app_mono [of "{s}" reach "snd x"] by auto
      then have "snd x \<in> live" using x(1) by (auto simp: live_def)
      then show "s \<in> (\<Union>h\<in>live. pre h reach T)" using t x(2) by (auto simp: pre_def)
    next
      fix s assume "s \<in> (\<Union>h\<in>live. pre h reach T)"
      then obtain x t where "x \<in> set ns" "s \<in> reach" "t \<in> T" "t \<in> rel_app R (snd x) {s}"
        by (auto simp: pre_def live_def)
      then show "s \<in> pre nextRel reach T" using named_cover_step [OF cover, of s t] by (auto simp: pre_def)
    qed
    ultimately show ?thesis using False ap by (simp add: guarded_reverse_def Let_def app_or app_inter)
  qed
qed

lemma reverse_relation_pre:
  assumes "exact reach nextRel \<or> (\<exists>ns. named = Inr ns \<and> named_cover R nextRel ns reach)" "T \<subseteq> reach"
    and "reverse_relation R reach nextRel named = Inr rel"
  shows "rel_app R rel T = pre nextRel reach T"
proof (cases "exact reach nextRel")
  case True
  then show ?thesis using assms(3) exact_invert [OF True assms(2)]
    by (auto simp: reverse_relation_def Let_def exact_def)
next
  case False
  then obtain ns where ns: "named = Inr ns" "named_cover R nextRel ns reach" using assms(1) by blast
  then show ?thesis using False assms(3) guarded_reverse_pre [OF ns(2) assms(2)]
    by (auto simp: reverse_relation_def Let_def exact_def)
qed

lemma reverse_relation_total:
  assumes "exact reach nextRel \<or> (\<exists>ns. named = Inr ns \<and> named_cover R nextRel ns reach)"
  obtains rel where "reverse_relation R reach nextRel named = Inr rel"
  using assms by (cases "exact reach nextRel") (auto simp: reverse_relation_def Let_def exact_def)

end

end
