(* ===== verification/Its_Witness.thy ===== *)
theory Its_Witness imports Its_Search begin

text \<open>
  The witness paths of \<open>findPath\<close>: the layers it builds backward from the goal hold the states at each
  distance, the forward pass picks a transition from layer to layer, and the backward pass keeps the
  states that lead to the goal by these transitions.
\<close>

section \<open>Layers\<close>

context relations begin

text \<open>The states of \<open>reach\<close> with a path of length \<open>k\<close> to the goal, of a length below \<open>k\<close>, and at distance \<open>k\<close>.\<close>

definition steps_to :: "'h \<Rightarrow> 'st set \<Rightarrow> 'st set \<Rightarrow> nat \<Rightarrow> 'st set" where
  "steps_to h reach T k = (pre h reach ^^ k) T"

definition near :: "'h \<Rightarrow> 'st set \<Rightarrow> 'st set \<Rightarrow> nat \<Rightarrow> 'st set" where
  "near h reach T k = (\<Union>j<k. steps_to h reach T j)"

definition layer :: "'h \<Rightarrow> 'st set \<Rightarrow> 'st set \<Rightarrow> nat \<Rightarrow> 'st set" where
  "layer h reach T k = steps_to h reach T k - near h reach T k"

lemma pre_mono: "S \<subseteq> T \<Longrightarrow> pre h reach S \<subseteq> pre h reach T"
  by (auto simp: pre_def)

lemma pre_Un: "pre h reach (S \<union> T) = pre h reach S \<union> pre h reach T"
  by (auto simp: pre_def)

lemma steps_to_simps [simp]:
  "steps_to h reach T 0 = T" "steps_to h reach T (Suc k) = pre h reach (steps_to h reach T k)"
  by (simp_all add: steps_to_def)

lemma near_Suc: "near h reach T (Suc k) = near h reach T k \<union> layer h reach T k"
  by (auto simp: near_def layer_def lessThan_Suc)

lemma near_0 [simp]: "near h reach T 0 = {}"
  by (simp add: near_def)

lemma pre_near: "pre h reach (near h reach T k) \<subseteq> near h reach T (Suc k)"
proof -
  have "pre h reach (near h reach T k) = (\<Union>j<k. steps_to h reach T (Suc j))" by (auto simp: near_def pre_def)
  then show ?thesis by (auto simp: near_def simp del: steps_to_simps)
qed

lemma layer_Suc: "pre h reach (layer h reach T k) - near h reach T (Suc k) = layer h reach T (Suc k)"
proof -
  have "steps_to h reach T k \<union> near h reach T k = layer h reach T k \<union> near h reach T k"
    by (auto simp: layer_def)
  then have "steps_to h reach T (Suc k) \<union> pre h reach (near h reach T k)
      = pre h reach (layer h reach T k) \<union> pre h reach (near h reach T k)"
    by (metis pre_Un steps_to_simps(2))
  then show ?thesis using pre_near [of h reach T k] by (auto simp: layer_def)
qed

lemma layer_subset: "T \<subseteq> reach \<Longrightarrow> layer h reach T k \<subseteq> reach"
  by (cases k) (auto simp: layer_def pre_def)

text \<open>When a layer is empty, no state is farther.\<close>

lemma layer_empty:
  assumes "layer h reach T (Suc k) = {}"
  shows "steps_to h reach T j \<subseteq> near h reach T (Suc k)"
proof (induction j)
  case 0
  show ?case by (auto simp: near_def)
next
  case (Suc j)
  then have "steps_to h reach T (Suc j) \<subseteq> near h reach T (Suc (Suc k))"
    using pre_mono [OF Suc] pre_near by fastforce
  with assms show ?case by (simp add: near_Suc [of h reach T "Suc k"])
qed

text \<open>The loop builds the layers up to the first that meets \<open>init\<close>.\<close>

lemma back_layers_finds:
  assumes rel: "\<And>T. T \<subseteq> reach \<Longrightarrow> rel_app R rev' T = pre h reach T" and goal: "goal \<subseteq> reach"
    and n: "init \<inter> steps_to h reach goal n \<noteq> {}" "\<And>j. j < n \<Longrightarrow> init \<inter> steps_to h reach goal j = {}"
    and "k < n"
  shows "back_layers R rev' init (near h reach goal (Suc k)) (layer h reach goal k) cs
    = Some (Some ((layer h reach goal n \<inter> init) # map (layer h reach goal) (rev [Suc k..<n]) @ cs))"
proof -
  let ?N = "near h reach goal" and ?L = "layer h reach goal"
  have M: "rel_app R rev' (?L k) - ?N (Suc k) = ?L (Suc k)" for k
    using rel [OF layer_subset [OF goal]] layer_Suc [of h reach goal k] by simp
  have one: "back_layers R rev' init (?N (Suc k)) (?L k) cs
      = (if ?L (Suc k) = {} then Some None
         else if init \<inter> ?L (Suc k) = {} then
           (if ?L k = ?L (Suc k) then Some None
            else back_layers R rev' init (?N (Suc (Suc k))) (?L (Suc k)) (?L (Suc k) # cs))
         else Some (Some ((?L (Suc k) \<inter> init) # cs)))" for k cs
    by (subst back_layers.simps) (simp only: Let_def M near_Suc [of h reach goal "Suc k"])
  show ?thesis
    using \<open>k < n\<close>
  proof (induction "n - Suc k" arbitrary: k cs)
    case (0 k)
    then have k: "n = Suc k" by simp
    have "init \<inter> ?N n = {}" using n(2) by (auto simp: near_def simp del: steps_to_simps)
    with n(1) have "init \<inter> ?L n \<noteq> {}" by (auto simp: layer_def simp del: steps_to_simps)
    then have "init \<inter> ?L (Suc k) \<noteq> {}" unfolding k .
    then have "?L (Suc k) \<noteq> {}" "init \<inter> ?L (Suc k) \<noteq> {}" by auto
    then show ?case by (simp add: one k)
  next
    case (Suc d k)
    then have k: "Suc k < n" by simp
    have "?L (Suc k) \<noteq> {}"
    proof
      assume "?L (Suc k) = {}"
      then have "steps_to h reach goal n \<subseteq> ?N (Suc k)" by (rule layer_empty)
      with n(1) obtain x j where "x \<in> init" "j < Suc k" "x \<in> steps_to h reach goal j"
        unfolding near_def by blast
      with n(2) [of j] k show False by auto
    qed
    moreover from this have "?L k \<noteq> ?L (Suc k)"
      using near_Suc [of h reach goal k] by (auto simp: layer_def [of h reach goal "Suc k"])
    moreover have "init \<inter> ?L (Suc k) = {}" using n(2) [OF k] by (auto simp: layer_def)
    moreover have "back_layers R rev' init (?N (Suc (Suc k))) (?L (Suc k)) (?L (Suc k) # cs)
        = Some (Some ((?L n \<inter> init) # map ?L (rev [Suc (Suc k)..<n]) @ ?L (Suc k) # cs))"
      using Suc.hyps(2) k by (intro Suc.hyps(1)) auto
    moreover have "[Suc k..<n] = Suc k # [Suc (Suc k)..<n]" using k by (simp add: upt_conv_Cons)
    ultimately show ?case by (simp add: one)
  qed
qed

section \<open>The forward pass\<close>

fun traced :: "(string \<times> 'h) list \<Rightarrow> labels \<Rightarrow> 'st set list \<Rightarrow> bool" where
  "traced ns [] [c] \<longleftrightarrow> True"
| "traced ns (l # w) (c # d # cs) \<longleftrightarrow>
     (\<exists>h. (l, h) \<in> set ns \<and> d \<noteq> {} \<and> d \<subseteq> rel_app R h c) \<and> traced ns w (d # cs)"
| "traced ns w cs \<longleftrightarrow> False"

lemma traced_run:
  "traced ns w cs \<Longrightarrow> t \<in> last cs \<Longrightarrow> \<exists>s\<in>hd cs. chain (named_step R ns) w s t"
proof (induction ns w cs arbitrary: t rule: traced.induct)
  case (2 ns l w c d cs)
  then obtain h where h: "(l, h) \<in> set ns" "d \<subseteq> rel_app R h c" by auto
  from 2 obtain s1 where s1: "s1 \<in> d" "chain (named_step R ns) w s1 t" by force
  then obtain s where "s \<in> c" "s1 \<in> rel_app R h {s}" using h(2) app_mem [of s1 h c] by blast
  with h(1) have "named_step R ns l s s1" by (auto simp: named_step_def)
  with s1(2) \<open>s \<in> c\<close> show ?case by auto
qed auto

lemma traced_length: "traced ns w cs \<Longrightarrow> length cs = Suc (length w)"
  by (induction ns w cs rule: traced.induct) auto

lemma first_step_Some:
  assumes "x \<in> set ts" "rel_app R (snd x) c \<inter> d \<noteq> {}"
  shows "\<exists>l h. (l, h) \<in> set ts \<and> rel_app R h c \<inter> d \<noteq> {} \<and> first_step R ts c d = Some (l, rel_app R h c \<inter> d)"
  using assms
proof (induction ts)
  case (Cons y ts)
  obtain l h where y: "y = (l, h)" by (cases y)
  show ?case
  proof (cases "rel_app R h c \<inter> d = {}")
    case True
    with Cons y show ?thesis by (auto simp: Let_def)
  next
    case False
    with y show ?thesis by (auto simp: Let_def)
  qed
qed simp

lemma layer_next:
  assumes cover: "named_cover R h ns reach" and s: "s \<in> layer h reach goal (Suc k)"
  shows "\<exists>x\<in>set ns. rel_app R (snd x) {s} \<inter> layer h reach goal k \<noteq> {}"
proof -
  from s obtain t where t: "s \<in> reach" "t \<in> steps_to h reach goal k" "t \<in> rel_app R h {s}"
    by (auto simp: layer_def pre_def)
  have "t \<notin> near h reach goal k"
  proof
    assume "t \<in> near h reach goal k"
    then have "s \<in> pre h reach (near h reach goal k)" using t by (auto simp: pre_def)
    with pre_near [of h reach goal k] s show False by (auto simp: layer_def)
  qed
  with t have "t \<in> layer h reach goal k" by (simp add: layer_def)
  moreover obtain x where "x \<in> set ns" "t \<in> rel_app R (snd x) {s}" using t(1,3) named_cover_step [OF cover] by blast
  ultimately show ?thesis by blast
qed

lemma forward_pass_traced:
  assumes cover: "named_cover R h ns reach"
    and "c \<noteq> {}" "c \<subseteq> layer h reach goal n"
    and "forward_pass R ns (c # map (layer h reach goal) (rev [0..<n])) = (w, cs)"
  shows "traced ns w cs \<and> hd cs = c \<and> length w = n \<and> last cs \<subseteq> goal \<and> last cs \<noteq> {}
    \<and> (\<forall>d\<in>set (tl cs). \<exists>k. d \<subseteq> layer h reach goal k)"
  using assms(2-)
proof (induction n arbitrary: c w cs)
  case 0
  then show ?case by (auto simp: layer_def)
next
  case (Suc n)
  let ?d = "layer h reach goal n"
  obtain s where s: "s \<in> c" "s \<in> layer h reach goal (Suc n)" using Suc.prems by blast
  then obtain x where "x \<in> set ns" "rel_app R (snd x) {s} \<inter> ?d \<noteq> {}" using layer_next [OF cover] by blast
  moreover have "rel_app R (snd x) {s} \<subseteq> rel_app R (snd x) c" for x using s(1) by (intro app_mono) simp
  ultimately have "rel_app R (snd x) c \<inter> ?d \<noteq> {}" by blast
  then obtain l g where g: "(l, g) \<in> set ns" "rel_app R g c \<inter> ?d \<noteq> {}"
    "first_step R ns c ?d = Some (l, rel_app R g c \<inter> ?d)"
    using first_step_Some [OF \<open>x \<in> set ns\<close>] by blast
  obtain w' cs' where w': "forward_pass R ns ((rel_app R g c \<inter> ?d) # map (layer h reach goal) (rev [0..<n])) = (w', cs')"
    by fastforce
  with Suc.prems(3) g(3) have eq: "w = l # w'" "cs = c # cs'" by simp_all
  have IH: "traced ns w' cs' \<and> hd cs' = rel_app R g c \<inter> ?d \<and> length w' = n \<and> last cs' \<subseteq> goal \<and> last cs' \<noteq> {}
      \<and> (\<forall>d\<in>set (tl cs'). \<exists>k. d \<subseteq> layer h reach goal k)"
    using g(2) w' by (intro Suc.IH) auto
  then have "cs' \<noteq> []" by (cases w') auto
  then obtain cs'' where "cs' = (rel_app R g c \<inter> ?d) # cs''" using IH by (cases cs') auto
  with IH eq g(1,2) show ?case by auto
qed

section \<open>The backward pass\<close>

lemma backward_pass_snoc:
  assumes "length xs = Suc (length ls)" "map_of ns l = Some h" "rel_invert R h reach \<noteq> Hid (rel_hom R)"
  shows "backward_pass R reach ns (xs @ [p]) (ls @ [l])
    = rbind (backward_pass R reach ns xs ls) (\<lambda>ys. Inr (ys @ [p \<inter> rel_app R (rel_invert R h reach) (last ys)]))"
  using assms(1)
proof (induction ls arbitrary: xs)
  case Nil
  then obtain x where "xs = [x]" by (cases xs) auto
  with assms(2,3) show ?case by simp
next
  case (Cons a ls)
  then obtain x y zs where xs: "xs = x # y # zs" by (auto simp: length_Suc_conv)
  define revt where "revt = (case map_of ns a of Some h \<Rightarrow> rel_invert R h reach | None \<Rightarrow> Hid (rel_hom R))"
  have "backward_pass R reach ns zs' ls \<noteq> Inr []" if "zs' \<noteq> []" for zs' ls
    using that by (induction R reach ns zs' ls rule: backward_pass.induct)
      (auto simp: Let_def rbind_def split: list.splits sum.splits if_splits)
  then have ne: "backward_pass R reach ns ((y \<inter> rel_app R revt x) # zs) ls = Inr ys \<Longrightarrow> ys \<noteq> []" for ys by blast
  have "backward_pass R reach ns (((y \<inter> rel_app R revt x) # zs) @ [p]) (ls @ [l])
      = rbind (backward_pass R reach ns ((y \<inter> rel_app R revt x) # zs) ls)
          (\<lambda>ys. Inr (ys @ [p \<inter> rel_app R (rel_invert R h reach) (last ys)]))"
    using Cons.prems xs by (intro Cons.IH) simp
  with ne show ?case
    by (cases "backward_pass R reach ns ((y \<inter> rel_app R revt x) # zs) ls")
       (auto simp: xs Let_def simp flip: revt_def)
qed

lemma backward_pass_precise:
  assumes distinct: "distinct (map fst ns)"
    and inv: "\<And>x. x \<in> set ns \<Longrightarrow> rel_invert R (snd x) reach \<noteq> Hid (rel_hom R)"
    and "traced ns w cs" "\<forall>c\<in>set cs. c \<subseteq> reach" "hd cs \<noteq> {}"
  shows "\<exists>ds. backward_pass R reach ns (rev cs) (rev w) = Inr (rev ds) \<and> precise_trace R ns w ds
    \<and> last ds = last cs \<and> hd ds \<subseteq> hd cs \<and> hd ds \<noteq> {} \<and> ds \<noteq> []"
  using assms
proof (induction ns w cs rule: traced.induct)
  case (1 ns c)
  then show ?case by (intro exI [of _ "[c]"]) simp
next
  case (2 ns l w c d cs)
  then obtain h where h: "(l, h) \<in> set ns" "d \<noteq> {}" "d \<subseteq> rel_app R h c" by auto
  have "\<exists>ds. backward_pass R reach ns (rev (d # cs)) (rev w) = Inr (rev ds) \<and> precise_trace R ns w ds
      \<and> last ds = last (d # cs) \<and> hd ds \<subseteq> hd (d # cs) \<and> hd ds \<noteq> {} \<and> ds \<noteq> []"
    using 2 h(2) by (intro 2(1)) auto
  then obtain e es where ds: "backward_pass R reach ns (rev (d # cs)) (rev w) = Inr (rev (e # es))"
    "precise_trace R ns w (e # es)" "last (e # es) = last (d # cs)" "e \<subseteq> d" "e \<noteq> {}"
    by (metis list.exhaust_sel list.sel(1))
  let ?c = "c \<inter> rel_app R (rel_invert R h reach) e"
  have len: "length (d # cs) = Suc (length w)" using 2(4) by (auto dest: traced_length)
  have "map_of ns l = Some h" using h(1) 2(2) by (simp add: map_of_is_SomeI)
  with len ds(1) 2(2) h(1) inv have "backward_pass R reach ns (rev (c # d # cs)) (rev (l # w)) = Inr (rev (?c # e # es))"
    using backward_pass_snoc [of "rev (d # cs)" "rev w" ns l h reach c] 2(3) by auto
  moreover have nxt: "\<forall>s\<in>?c. \<exists>s'\<in>e. named_step R ns l s s'"
  proof
    fix s assume s: "s \<in> ?c"
    then have "s \<in> reach" using 2(5) by auto
    with s obtain t where "t \<in> e" "t \<in> rel_app R h {s}" by (auto simp: app_invert)
    with h(1) show "\<exists>s'\<in>e. named_step R ns l s s'" by (auto simp: named_step_def)
  qed
  have c: "?c \<noteq> {}"
  proof -
    obtain t where "t \<in> e" using ds(5) by auto
    then obtain s where "s \<in> c" "t \<in> rel_app R h {s}" using ds(4) h(3) app_mem [of t h c] by blast
    moreover from this 2(5) have "s \<in> reach" by auto
    ultimately have "s \<in> ?c" using \<open>t \<in> e\<close> app_invert [of s reach h e] by blast
    then show ?thesis by blast
  qed
  moreover have "precise_trace R ns (l # w) (?c # e # es)" using nxt ds(2) by simp
  moreover have "last (?c # e # es) = last (c # d # cs)" "hd (?c # e # es) \<subseteq> hd (c # d # cs)" using ds(3) by auto
  ultimately show ?case by (intro exI [of _ "?c # e # es"] conjI) simp_all
qed auto

section \<open>Shortest paths\<close>

lemma named_same: "ITSModel_getNamedLocals C H (m\<lparr>m_predRel := x\<rparr>) = ITSModel_getNamedLocals C H m"
  by (simp add: ITSModel_getNamedLocals_def main_type_def getElapse_def cong: if_cong)

lemma named_step_iff:
  assumes "model_relation R C m reach nextRel ns" "s \<in> reach"
  shows "(\<exists>l. named_step R ns l s s') \<longleftrightarrow> step nextRel s s'"
proof -
  have "step nextRel s s' \<longleftrightarrow> (\<exists>x\<in>set ns. s' \<in> rel_app R (snd x) {s})"
    using assms named_cover_step by (fastforce simp: model_relation_def)
  then show ?thesis by (force simp: named_step_def)
qed

lemma getPredRel_pre:
  assumes "model_reversible R C m reach nextRel" "nextRel \<noteq> Hnull (rel_hom R)" "reach \<noteq> {}"
  shows "\<exists>rel. getPredRel C R reach m = Inr (m\<lparr>m_predRel := Hnull (rel_hom R)\<rparr>, rel)
    \<and> (\<forall>T\<subseteq>reach. rel_app R rel T = pre nextRel reach T)"
proof -
  let ?named = "ITSModel_getNamedLocals C (rel_hom R) m"
  have m: "getNextRel C (rel_hom R) m = Inr nextRel"
    "exact reach nextRel \<or> (\<exists>ns. ?named = Inr ns \<and> named_cover R nextRel ns reach)"
    using assms(1) by (auto simp: model_reversible_def model_relation_def exact_def)
  obtain rel where rel: "reverse_relation R reach nextRel ?named = Inr rel"
    by (rule reverse_relation_total [OF m(2)])
  with m(1) assms(2,3) have "getPredRel C R reach m = Inr (m\<lparr>m_predRel := Hnull (rel_hom R)\<rparr>, rel)"
    by (simp add: getPredRel_def Let_def)
  moreover have "rel_app R rel T = pre nextRel reach T" if "T \<subseteq> reach" for T
    by (rule reverse_relation_pre [OF m(2) that rel])
  ultimately show ?thesis by blast
qed

text \<open>Paths of named transitions and distances.\<close>

lemma run_steps_to:
  assumes "model_relation R C m reach nextRel ns" and closed: "\<And>s. s \<in> reach \<Longrightarrow> rel_app R nextRel {s} \<subseteq> reach"
    and "chain (named_step R ns) w s t" "s \<in> reach" "t \<in> goal"
  shows "s \<in> steps_to nextRel reach goal (length w)"
  using assms(3-)
proof (induction w arbitrary: s)
  case (Cons l w)
  then obtain s1 where s1: "named_step R ns l s s1" "chain (named_step R ns) w s1 t" by auto
  then have "step nextRel s s1" using named_step_iff [OF assms(1) Cons.prems(2)] by blast
  with closed Cons.prems(2) have "s1 \<in> reach" by blast
  with s1(2) Cons \<open>step nextRel s s1\<close> show ?case by (auto simp: pre_def)
qed simp

lemma reaches_steps_to:
  assumes closed: "\<And>s. s \<in> reach \<Longrightarrow> rel_app R h {s} \<subseteq> reach"
    and "(step h)\<^sup>*\<^sup>* s t" "s \<in> reach" "t \<in> goal"
  shows "\<exists>n. s \<in> steps_to h reach goal n"
  using assms(2-)
proof (induction rule: converse_rtranclp_induct)
  case base
  then show ?case by (intro exI [of _ 0]) simp
next
  case (step s s1)
  with closed have "s1 \<in> reach" by blast
  with step obtain n where "s1 \<in> steps_to h reach goal n" by auto
  with step.hyps(1) step.prems(1) have "s \<in> steps_to h reach goal (Suc n)" by (auto simp: pre_def)
  then show ?case ..
qed

text \<open>What a successful search has found.\<close>

definition found ::
  "('ty, 'h, 'st) type_calls \<Rightarrow> ('ty, 'h, 'st) ITSModel \<Rightarrow> (string \<times> 'h) list \<Rightarrow> 'st set \<Rightarrow> 'st set \<Rightarrow> 'st set \<Rightarrow>
     ('ty, 'h, 'st) ITSModel \<Rightarrow> 'h \<Rightarrow> 'st set list \<Rightarrow> labels \<Rightarrow> 'st set list \<Rightarrow> bool" where
  "found C m ns reach init goal m' rel layers w cs \<longleftrightarrow>
     getPredRel C R reach m = Inr (m', rel) \<and> ITSModel_getNamedLocals C (rel_hom R) m' = Inr ns
     \<and> back_layers R rel init goal goal [goal] = Some (Some layers) \<and> forward_pass R ns layers = (w, cs)
     \<and> traced ns w cs \<and> hd cs \<noteq> {} \<and> hd cs \<subseteq> init \<and> last cs \<subseteq> goal \<and> last cs \<noteq> {} \<and> (\<forall>c\<in>set cs. c \<subseteq> reach) \<and> w \<noteq> []
     \<and> (\<forall>w'. \<forall>s\<in>init. \<forall>t\<in>goal. chain (named_step R ns) w' s t \<longrightarrow> length w \<le> length w')"

text \<open>The layers a search from \<open>init\<close> finds, and the trace through them.\<close>

lemma findPath_trace:
  assumes m: "model_relation R C m reach nextRel ns"
    and sets: "init \<subseteq> reach" "goal \<subseteq> reach" and closed: "\<And>s. s \<in> reach \<Longrightarrow> rel_app R nextRel {s} \<subseteq> reach"
    and path: "s0 \<in> init" "t0 \<in> goal" "(step nextRel)\<^sup>*\<^sup>* s0 t0" and apart: "init \<inter> goal = {}"
  shows "\<exists>m' rel layers w cs. found C m ns reach init goal m' rel layers w cs"
proof -
  let ?P = "steps_to nextRel reach goal" and ?L = "layer nextRel reach goal"
  obtain k where "s0 \<in> ?P k" using reaches_steps_to [OF closed path(3) _ path(2)] path(1) sets(1) by blast
  then have ex: "init \<inter> ?P k \<noteq> {}" using path(1) by blast
  define n where "n = (LEAST n. init \<inter> ?P n \<noteq> {})"
  have n: "init \<inter> ?P n \<noteq> {}" unfolding n_def by (rule LeastI [of "\<lambda>n. init \<inter> ?P n \<noteq> {}", OF ex])
  have least: "init \<inter> ?P j = {}" if "j < n" for j using not_less_Least [OF that [unfolded n_def]] by simp
  have "0 < n" using n apart by (cases n) auto
  have live: "nextRel \<noteq> Hnull (rel_hom R)"
  proof
    assume "nextRel = Hnull (rel_hom R)"
    then have "pre nextRel reach T = {}" for T by (auto simp: pre_def app_null)
    with n \<open>0 < n\<close> show False by (cases n) auto
  qed
  have "reach \<noteq> {}" using path(1) sets(1) by blast
  from getPredRel_pre [OF relation_reversible [OF m] live this] obtain rel
    where rel: "getPredRel C R reach m = Inr (m\<lparr>m_predRel := Hnull (rel_hom R)\<rparr>, rel)"
    "\<And>T. T \<subseteq> reach \<Longrightarrow> rel_app R rel T = pre nextRel reach T" by auto
  let ?c = "?L n \<inter> init" and ?layers = "(?L n \<inter> init) # map ?L (rev [0..<n])"
  have near1: "near nextRel reach goal (Suc 0) = goal" "?L 0 = goal" by (auto simp: near_def layer_def)
  have "[0..<n] = 0 # [Suc 0..<n]" using \<open>0 < n\<close> by (simp add: upt_conv_Cons)
  then have found_layers: "back_layers R rel init goal goal [goal] = Some (Some ?layers)"
    using back_layers_finds [OF rel(2) sets(2) n least \<open>0 < n\<close>, of "[goal]"] near1 by simp
  obtain w cs where fw: "forward_pass R ns ?layers = (w, cs)" by fastforce
  have c: "?c \<noteq> {}"
  proof -
    obtain x where x: "x \<in> init" "x \<in> ?P n" using n by blast
    then have "x \<notin> near nextRel reach goal n" using least by (auto simp: near_def simp del: steps_to_simps)
    with x show ?thesis by (auto simp: layer_def simp del: steps_to_simps)
  qed
  have cover: "named_cover R nextRel ns reach"
    using m by (simp add: model_relation_def)
  have tr: "traced ns w cs \<and> hd cs = ?c \<and> length w = n \<and> last cs \<subseteq> goal \<and> last cs \<noteq> {}
      \<and> (\<forall>d\<in>set (tl cs). \<exists>k. d \<subseteq> ?L k)"
    by (rule forward_pass_traced [OF cover c _ fw]) simp
  have reach: "\<forall>c\<in>set cs. c \<subseteq> reach"
  proof
    fix c assume c: "c \<in> set cs"
    have "cs \<noteq> []" using tr traced_length by fastforce
    then have "c = ?c \<or> c \<in> set (tl cs)" using c tr by (cases cs) auto
    then show "c \<subseteq> reach" using tr layer_subset [OF sets(2)] sets(1) by blast
  qed
  have "length w \<le> length w'" if "s \<in> init" "t \<in> goal" "chain (named_step R ns) w' s t" for w' s t
  proof (rule ccontr)
    assume "\<not> length w \<le> length w'"
    then have "init \<inter> ?P (length w') = {}" using tr by (intro least) simp
    moreover have "s \<in> ?P (length w')" using run_steps_to [OF m closed that(3) _ that(2)] that(1) sets(1) by blast
    ultimately show False using that(1) by blast
  qed
  moreover have "ITSModel_getNamedLocals C (rel_hom R) (m\<lparr>m_predRel := Hnull (rel_hom R)\<rparr>) = Inr ns"
    using m by (simp add: named_same model_relation_def)
  moreover have "w \<noteq> []" using tr \<open>0 < n\<close> by auto
  ultimately have "found C m ns reach init goal (m\<lparr>m_predRel := Hnull (rel_hom R)\<rparr>) rel ?layers w cs"
    unfolding found_def using rel(1) fw found_layers tr reach c by auto
  then show ?thesis by blast
qed

text \<open>By default the answer is a shortest sequence of transitions from \<open>init\<close> to the goal.\<close>

lemma findPath_shortest:
  assumes "model_relation R C m reach nextRel ns" "init \<subseteq> reach" "goal \<subseteq> reach"
    and "\<And>s. s \<in> reach \<Longrightarrow> rel_app R nextRel {s} \<subseteq> reach"
    and path: "s0 \<in> init" "t0 \<in> goal" "(step nextRel)\<^sup>*\<^sup>* s0 t0"
  shows "\<exists>m' w states. findPath C R False init goal reach False m = Some (Inr (m', w, states))
    \<and> (\<exists>s\<in>init. \<exists>t\<in>goal. chain (named_step R ns) w s t)
    \<and> (\<forall>w'. \<forall>s\<in>init. \<forall>t\<in>goal. chain (named_step R ns) w' s t \<longrightarrow> length w \<le> length w')"
proof (cases "init \<inter> goal = {}")
  case False
  then obtain x where "x \<in> init" "x \<in> goal" by blast
  then have "\<exists>s\<in>init. \<exists>t\<in>goal. chain (named_step R ns) [] s t" by auto
  with False show ?thesis by (simp add: findPath_def)
next
  case True
  obtain m' rel layers w cs where "found C m ns reach init goal m' rel layers w cs"
    using findPath_trace [OF assms True] by blast
  then have f: "getPredRel C R reach m = Inr (m', rel)"
    "ITSModel_getNamedLocals C (rel_hom R) m' = Inr ns"
    "back_layers R rel init goal goal [goal] = Some (Some layers)" "forward_pass R ns layers = (w, cs)"
    and tr: "traced ns w cs" "hd cs \<noteq> {}" "hd cs \<subseteq> init" "last cs \<subseteq> goal" "last cs \<noteq> {}" "\<forall>c\<in>set cs. c \<subseteq> reach" "w \<noteq> []"
    and least: "\<forall>w'. \<forall>s\<in>init. \<forall>t\<in>goal. chain (named_step R ns) w' s t \<longrightarrow> length w \<le> length w'"
    by (simp_all add: found_def)
  from tr(4,5) obtain t where "t \<in> last cs" "t \<in> goal" by blast
  with traced_run [OF tr(1)] tr(3) have "\<exists>s\<in>init. \<exists>t\<in>goal. chain (named_step R ns) w s t" by blast
  moreover have "findPath C R False init goal reach False m = Some (Inr (m', w, [hd cs, last cs]))"
    using True f by (simp add: findPath_def)
  ultimately show ?thesis using least by blast
qed

text \<open>A precise path also gives the states along it; each leads to the goal by the transitions of the path.\<close>

lemma findPath_precise:
  assumes "model_relation R C m reach nextRel ns" "init \<subseteq> reach" "goal \<subseteq> reach"
    and "\<And>s. s \<in> reach \<Longrightarrow> rel_app R nextRel {s} \<subseteq> reach"
    and path: "s0 \<in> init" "t0 \<in> goal" "(step nextRel)\<^sup>*\<^sup>* s0 t0" and "init \<inter> goal = {}"
    and names: "distinct (map fst ns)"
    and inv: "\<And>x. x \<in> set ns \<Longrightarrow> rel_invert R (snd x) reach \<noteq> Hid (rel_hom R)"
  shows "\<exists>m' w states. findPath C R True init goal reach precise m = Some (Inr (m', w, states))
    \<and> hd states \<noteq> {} \<and> hd states \<subseteq> init \<and> last states \<subseteq> goal \<and> precise_trace R ns w states
    \<and> (\<forall>s\<in>hd states. \<exists>t\<in>goal. chain (named_step R ns) w s t)"
proof -
  obtain m' rel layers w cs where "found C m ns reach init goal m' rel layers w cs"
    using findPath_trace [OF assms(1-8)] by blast
  then have f: "getPredRel C R reach m = Inr (m', rel)"
    "ITSModel_getNamedLocals C (rel_hom R) m' = Inr ns"
    "back_layers R rel init goal goal [goal] = Some (Some layers)" "forward_pass R ns layers = (w, cs)"
    and tr: "traced ns w cs" "hd cs \<noteq> {}" "hd cs \<subseteq> init" "last cs \<subseteq> goal" "last cs \<noteq> {}" "\<forall>c\<in>set cs. c \<subseteq> reach" "w \<noteq> []"
    and least: "\<forall>w'. \<forall>s\<in>init. \<forall>t\<in>goal. chain (named_step R ns) w' s t \<longrightarrow> length w \<le> length w'"
    by (simp_all add: found_def)
  obtain ds where ds: "backward_pass R reach ns (rev cs) (rev w) = Inr (rev ds)" "precise_trace R ns w ds"
    "last ds = last cs" "hd ds \<subseteq> hd cs" "hd ds \<noteq> {}"
    using backward_pass_precise [OF names inv tr(1,6,2)] by blast
  have "findPath C R True init goal reach precise m = Some (Inr (m', w, ds))"
    using \<open>init \<inter> goal = {}\<close> f ds(1) tr(7) by (simp add: findPath_def)
  moreover have "\<forall>s\<in>hd ds. \<exists>t\<in>goal. chain (named_step R ns) w s t"
    using precise_run [OF ds(2)] ds(3) tr(4) by blast
  ultimately show ?thesis using ds tr by auto
qed

end

end
