(* ===== verification/Its_Orders.thy ===== *)
theory Its_Orders imports Its_Model begin

text \<open>
  Variable orders written to and read from a file: \<open>ITSModel::printVarOrder\<close> and \<open>loadOrder\<close>. A stream is
  the text that is left and the flag \<open>eof()\<close>.
\<close>

section \<open>Writing\<close>

abbreviation nl :: char where "nl \<equiv> CHR 0x0A"

definition VarOrder_print :: "varorder \<Rightarrow> string" where
  "VarOrder_print vo = concat (map (\<lambda>i. getLabel vo (int i) @ [nl]) [0..<vo_size vo])"

definition printVarOrder :: "('ty, 'h, 'st) type_calls \<Rightarrow> ('ty, 'h, 'st) ITSModel \<Rightarrow> string" where
  "printVarOrder C m =
     concat (map (\<lambda>t. ''#TYPE '' @ tc_getName C t @ [nl] @ VarOrder_print (tc_getVarOrder C t) @ ''#END'' @ [nl])
       (m_types m))"

section \<open>Reading\<close>

text \<open>The line, what is left, and whether the end was reached.\<close>

definition getline :: "string \<Rightarrow> string \<times> string \<times> bool" where
  "getline s =
     (case dropWhile (\<lambda>c. c \<noteq> nl) s of
        [] \<Rightarrow> (s, [], True)
      | _ # rest \<Rightarrow> (takeWhile (\<lambda>c. c \<noteq> nl) s, rest, False))"

definition is_space :: "char \<Rightarrow> bool" where
  "is_space c \<longleftrightarrow> c \<in> {CHR '' '', CHR 0x09, nl, CHR 0x0B, CHR 0x0C, CHR 0x0D}"

text \<open>\<open>il >> token\<close>: the word and what is left of the line.\<close>

definition read_word :: "string \<Rightarrow> string \<times> string" where
  "read_word s = (let r = dropWhile is_space s in (takeWhile (\<lambda>c. \<not> is_space c) r, dropWhile (\<lambda>c. \<not> is_space c) r))"

lemma getline_less: "getline s = (l, r, e) \<Longrightarrow> length r + (if e then 0 else 1) < length s + 1"
proof -
  assume a: "getline s = (l, r, e)"
  show ?thesis
  proof (cases "dropWhile (\<lambda>c. c \<noteq> nl) s")
    case (Cons c rest)
    have "length (c # rest) \<le> length s" unfolding Cons [symmetric] by (rule length_dropWhile_le)
    moreover have "getline s = (takeWhile (\<lambda>c. c \<noteq> nl) s, rest, False)" using Cons by (simp only: getline_def list.case)
    ultimately show ?thesis using a by simp
  next
    case Nil
    then have "getline s = (s, [], True)" by (simp only: getline_def list.case)
    with a show ?thesis by simp
  qed
qed

function read_order :: "string \<Rightarrow> bool \<Rightarrow> labels \<Rightarrow> labels \<times> string \<times> bool" where
  "read_order s eof order =
     (if eof then (order, s, eof)
      else
        let (line, rest, e) = getline s
        in if line = ''#END'' then (order, rest, e) else read_order rest e (order @ [line]))"
  by pat_completeness auto
termination
  by (relation "measure (\<lambda>(s, eof, _). length s + (if eof then 0 else 1))")
     (auto dest!: getline_less [OF sym])

declare read_order.simps [simp del]

lemma read_order_less: "read_order s eof order = (l, r, e) \<Longrightarrow> length r + (if e then 0 else 1) \<le> length s + (if eof then 0 else 1)"
proof (induction s eof order rule: read_order.induct)
  case (1 s eof order)
  show ?case
  proof (cases eof)
    case True
    with 1 show ?thesis by (simp add: read_order.simps)
  next
    case False
    obtain line rest e' where g: "getline s = (line, rest, e')" by (metis prod_cases3)
    show ?thesis
    proof (cases "line = ''#END''")
      case True
      with 1(2) False g getline_less [OF g] show ?thesis by (simp add: read_order.simps [of s])
    next
      case other: False
      with 1(2) False g have "read_order rest e' (order @ [line]) = (l, r, e)" by (simp add: read_order.simps [of s])
      with 1(1) [OF False g [symmetric] refl refl other] getline_less [OF g] False show ?thesis by simp
    qed
  qed
qed

function load_loop ::
  "('ty, 'h, 'st) type_calls \<Rightarrow> string \<Rightarrow> bool \<Rightarrow> ('ty, 'h, 'st) ITSModel \<Rightarrow> (('ty, 'h, 'st) ITSModel \<times> bool) res" where
  "load_loop C s eof m =
     (if eof then Inr (m, True)
      else
        let (line, rest, e) = getline s; (token, tail) = read_word line
        in if token = ''#TYPE'' then
             let type = fst (read_word tail); (order, rest', e') = read_order rest e []
             in (case updateVarOrder C type order m of
                   Inl err \<Rightarrow> Inl err
                 | Inr (m', ok) \<Rightarrow> if ok then load_loop C rest' e' m' else Inr (m', False))
           else if line = '''' then load_loop C rest e m
           else Inr (m, False))"
  by pat_completeness auto
termination
  by (relation "measure (\<lambda>(C, s, eof, _). length s + (if eof then 0 else 1))")
     (auto dest!: getline_less [OF sym] read_order_less [OF sym] split: if_splits)

declare load_loop.simps [simp del]

definition loadOrder ::
  "('ty, 'h, 'st) type_calls \<Rightarrow> string \<Rightarrow> ('ty, 'h, 'st) ITSModel \<Rightarrow> (('ty, 'h, 'st) ITSModel \<times> bool) res" where
  "loadOrder C text m =
     rbind (load_loop C text False m) (\<lambda>(m', ok).
       Inr (if ok then (fst (setInstanceState C (m_initName m') m'), True) else (m', False)))"

section \<open>What is written is read back\<close>

lemma getline_line:
  assumes "nl \<notin> set l"
  shows "getline (l @ nl # r) = (l, r, False)"
proof -
  have "takeWhile (\<lambda>c. c \<noteq> nl) (l @ nl # r) = l" "dropWhile (\<lambda>c. c \<noteq> nl) (l @ nl # r) = nl # r"
    using assms by (induction l) auto
  then show ?thesis by (simp add: getline_def)
qed

lemma read_order_labels:
  assumes "\<forall>l\<in>set ls. nl \<notin> set l \<and> l \<noteq> ''#END''"
  shows "read_order (concat (map (\<lambda>l. l @ [nl]) ls) @ ''#END'' @ nl # r) False order = (order @ ls, r, False)"
  using assms
proof (induction ls arbitrary: order)
  case Nil
  show ?case by (subst read_order.simps) (simp add: getline_line [of "''#END''", simplified])
next
  case (Cons l ls)
  have "getline (l @ nl # concat (map (\<lambda>l. l @ [nl]) ls) @ ''#END'' @ nl # r)
      = (l, concat (map (\<lambda>l. l @ [nl]) ls) @ ''#END'' @ nl # r, False)"
    using Cons.prems by (intro getline_line) simp
  with Cons show ?case by (subst read_order.simps) simp
qed

lemma read_word_word:
  assumes "\<forall>c\<in>set w. \<not> is_space c" "is_space sp" "w \<noteq> []"
  shows "read_word (w @ sp # r) = (w, sp # r)" "read_word w = (w, [])" "read_word (sp # w) = (w, [])"
proof -
  have "dropWhile is_space (w @ sp # r) = w @ sp # r" "dropWhile is_space w = w" "dropWhile is_space (sp # w) = w"
    using assms by (cases w; simp)+
  moreover have "takeWhile (\<lambda>c. \<not> is_space c) (w @ sp # r) = w" "dropWhile (\<lambda>c. \<not> is_space c) (w @ sp # r) = sp # r"
    "takeWhile (\<lambda>c. \<not> is_space c) w = w" "dropWhile (\<lambda>c. \<not> is_space c) w = []"
    using assms(1,2) by (induction w) auto
  ultimately show "read_word (w @ sp # r) = (w, sp # r)" "read_word w = (w, [])" "read_word (sp # w) = (w, [])"
    by (simp_all add: read_word_def)
qed

lemma VarOrder_print_labels:
  assumes "setFromCollection vs = Inr vo"
  shows "VarOrder_print vo = concat (map (\<lambda>l. l @ [nl]) vs)"
proof -
  have size: "vo_size vo = length vs" using order_of_ok(2) [OF assms] by (metis length_map vo_size_def)
  have "map (\<lambda>i. getLabel vo (int i) @ [nl]) [0..<length vs] = map (\<lambda>l. l @ [nl]) vs"
    using order_roundtrip(2) [OF assms] by (intro nth_equalityI) auto
  then show ?thesis by (simp add: VarOrder_print_def size)
qed

lemma find_type_first:
  assumes "distinct (map f ts)" "k < length ts"
  shows "find_type f ts (f (ts ! k)) i = Some (i + k)"
  using assms
proof (induction ts arbitrary: i k)
  case (Cons t ts)
  then show ?case
  proof (cases k)
    case (Suc j)
    then have "f (ts ! j) \<in> f ` set ts" using Cons.prems(2) by simp
    then have "f t \<noteq> f (ts ! j)" using Cons.prems(1) by auto
    with Suc Cons show ?thesis by simp
  qed simp
qed simp

text \<open>A type that can be written: its name is a word, its variables are lines, and it accepts its own order.\<close>

definition printable :: "('ty, 'h, 'st) type_calls \<Rightarrow> 'ty \<Rightarrow> bool" where
  "printable C t \<longleftrightarrow>
     tc_getName C t \<noteq> [] \<and> (\<forall>c\<in>set (tc_getName C t). \<not> is_space c)
     \<and> (\<exists>vs. setFromCollection vs = Inr (tc_getVarOrder C t) \<and> (\<forall>l\<in>set vs. nl \<notin> set l \<and> l \<noteq> ''#END'')
         \<and> tc_setVarOrder C t vs = Inr (t, True))"

lemma load_block:
  assumes "getline s = (line, rest, False)" "read_word line = (''#TYPE'', rst)" "read_word rst = (type, x)"
    and "read_order rest False [] = (order, rest', e')" "updateVarOrder C type order m = Inr (m', True)"
  shows "load_loop C s False m = load_loop C rest' e' m'"
  using assms by (subst load_loop.simps) simp

lemma load_blocks:
  assumes "distinct (map (tc_getName C) (m_types m))" "\<forall>t\<in>set (m_types m). printable C t"
    and "m_types m = ts @ us"
  shows "load_loop C (concat (map (\<lambda>t. ''#TYPE '' @ tc_getName C t @ [nl] @ VarOrder_print (tc_getVarOrder C t) @ ''#END'' @ [nl]) us))
    False m = Inr (m, True)"
  using assms(3)
proof (induction us arbitrary: ts)
  case Nil
  show ?case
    by (subst load_loop.simps, simp add: getline_def read_word_def, subst load_loop.simps, simp)
next
  case (Cons t us)
  let ?rest = "concat (map (\<lambda>t. ''#TYPE '' @ tc_getName C t @ [nl] @ VarOrder_print (tc_getVarOrder C t) @ ''#END'' @ [nl]) us)"
  let ?name = "tc_getName C t"
  have "t \<in> set (m_types m)" using Cons.prems by simp
  then obtain vs where name: "?name \<noteq> []" "\<forall>c\<in>set ?name. \<not> is_space c"
    and vs: "setFromCollection vs = Inr (tc_getVarOrder C t)" "\<forall>l\<in>set vs. nl \<notin> set l \<and> l \<noteq> ''#END''"
      "tc_setVarOrder C t vs = Inr (t, True)"
    using assms(2) by (auto simp: printable_def)
  have nonl: "nl \<notin> set (''#TYPE '' @ ?name)" using name(2) by (auto simp: is_space_def)
  have line: "getline ((''#TYPE '' @ ?name) @ nl # VarOrder_print (tc_getVarOrder C t) @ ''#END'' @ nl # ?rest)
      = (''#TYPE '' @ ?name, VarOrder_print (tc_getVarOrder C t) @ ''#END'' @ nl # ?rest, False)"
    by (rule getline_line [OF nonl])
  have token: "read_word (''#TYPE '' @ ?name) = (''#TYPE'', CHR '' '' # ?name)"
    using read_word_word(1) [of "''#TYPE''" "CHR '' ''" ?name] by (simp add: is_space_def)
  have type: "read_word (CHR '' '' # ?name) = (?name, [])"
    using read_word_word(3) [OF name(2) _ name(1)] by (simp add: is_space_def)
  have order: "read_order (VarOrder_print (tc_getVarOrder C t) @ ''#END'' @ nl # ?rest) False [] = (vs, ?rest, False)"
    using read_order_labels [OF vs(2), of ?rest "[]"] VarOrder_print_labels [OF vs(1)] by simp
  have pos: "m_types m ! length ts = t" using Cons.prems by simp
  then have "findType C ?name m = Some (length ts)"
    using find_type_first [OF assms(1), of "length ts" 0] Cons.prems by (simp add: findType_def)
  then have upd: "updateVarOrder C ?name vs m = Inr (m, True)"
    using vs(3) pos by (simp add: updateVarOrder_def list_update_same_conv Cons.prems)
  have "load_loop C ?rest False m = Inr (m, True)"
    using Cons.prems by (intro Cons.IH [of "ts @ [t]"]) simp
  moreover have "load_loop C ((''#TYPE '' @ ?name) @ nl # VarOrder_print (tc_getVarOrder C t) @ ''#END'' @ nl # ?rest) False m
      = load_loop C ?rest False m"
    by (rule load_block [OF line token type order upd])
  ultimately show ?case by simp
qed

end
