(* ===== verification/Its_Net_Model.thy ===== *)
theory Its_Net_Model imports Its_Witness Its_Orders begin

text \<open>
  The model over Petri nets and composites: its types answer by the contracts of \<open>Its_Hierarchy\<close>, so that
  the searches work on the steps of nets and synchronizations.
\<close>

section \<open>Reachable states and replayed paths\<close>

context relations begin

lemma computeReachable_eq:
  assumes "m_reached m = {}" "getInitialState C m = Inr M0" "getNextRel C (rel_hom R) m = Inr h" "finite (reachable R h M0)"
  shows "computeReachable C R m = Inr (m\<lparr>m_reached := reachable R h M0\<rparr>, reachable R h M0)"
  using assms fixpoint_reachable [OF assms(4)] by (simp add: computeReachable_def Let_def)

lemma play_loop_run:
  "cur \<noteq> {} \<Longrightarrow> play_loop R ns path cur i = Played S \<longleftrightarrow>
     S = {t. \<exists>s\<in>cur. chain (first_named R ns) path s t} \<and> S \<noteq> {}"
proof (induction path arbitrary: cur i)
  case (Cons l path)
  show ?case
  proof (cases "map_of ns l")
    case None
    then show ?thesis by (auto simp: first_named_def)
  next
    case (Some h)
    have mid: "(\<exists>s\<in>cur. \<exists>s1. first_named R ns l s s1 \<and> Q s1) \<longleftrightarrow> (\<exists>s1\<in>rel_app R h cur. Q s1)" for Q
      using app_mem [of _ h cur] Some unfolding first_named_def by (simp only: option.inject) blast
    have all: "{t. \<exists>s\<in>cur. chain (first_named R ns) (l # path) s t}
        = {t. \<exists>s\<in>rel_app R h cur. chain (first_named R ns) path s t}"
      by (simp only: chain.simps mid)
    show ?thesis
    proof (cases "rel_app R h cur = {}")
      case True
      then show ?thesis unfolding all by (simp add: Some Let_def)
    next
      case False
      then show ?thesis unfolding all using Cons.IH [OF False, of "Suc i"] by (simp add: Some Let_def)
    qed
  qed
qed auto

lemma named_first: "distinct (map fst ns) \<Longrightarrow> named_step R ns = first_named R ns"
  by (simp add: fun_eq_iff named_step_def first_named_def)

end

section \<open>The transition relation of the model\<close>

lemma contract_relation:
  assumes con: "its_contract (rel_hom R) (rel_app R) localApply rd wr (tc_type C (m_types m)) lab loc tys"
    and rel: "relations R" and p: "main_type m = Inr p" "p \<in> tys"
  shows "\<exists>nextRel ns. model_relation R C m UNIV nextRel ns
    \<and> (\<forall>s s'. s' \<in> rel_app R nextRel {s} \<longrightarrow> loc p s s' \<or> ''elapse'' \<in> set (ty_transLabels (tc_type C (m_types m)) p) \<and> lab p ''elapse'' s s')
    \<and> (\<forall>s s'. loc p s s' \<or> ''elapse'' \<in> set (ty_transLabels (tc_type C (m_types m)) p) \<and> lab p ''elapse'' s s' \<and> s \<noteq> s'
        \<longrightarrow> s' \<in> rel_app R nextRel {s})"
proof -
  let ?T = "tc_type C (m_types m)" and ?H = "rel_hom R"
  obtain t where t: "ty_getLocals ?T p = Inr t" "\<And>S. rel_app R t S = {s'. \<exists>s\<in>S. loc p s s'}"
    using its_contract.locals_contract [OF con p(2)] by auto
  obtain ns where ns: "ty_getNamedLocals ?T p = Inr ns"
    "\<And>S. (\<Union>x\<in>set ns. rel_app R (snd x) S) = {s'. \<exists>s\<in>S. loc p s s'}"
    using its_contract.named_contract [OF con p(2)] by auto
  have alg: "hom_algebra ?H (rel_app R)" using rel by (simp add: relations_def)
  show ?thesis
  proof (cases "''elapse'' \<in> set (ty_transLabels ?T p)")
    case False
    then have e: "getElapse C ?H m = Inr (Hid ?H)" by (simp add: getElapse_def p(1))
    then have "getNextRel C ?H m = Inr t" "ITSModel_getNamedLocals C ?H m = Inr ns"
      using t(1) ns(1) by (simp_all add: getNextRel_def ITSModel_getNamedLocals_def p(1))
    then have "model_relation R C m UNIV t ns"
      using t(2) ns(2) by (simp add: model_relation_def named_cover_def)
    with False t(2) show ?thesis by (intro exI [of _ t] exI [of _ ns]) simp
  next
    case True
    then obtain e where e: "ty_getSuccs ?T p [''elapse''] = Inr e"
      "\<And>S. rel_app R e S = {s'. \<exists>s\<in>S. lab p ''elapse'' s s'}"
      using its_contract.succs_contract [OF con p(2)] by blast
    have el: "getElapse C ?H m = Inr e" using True e(1) by (simp add: getElapse_def p(1))
    show ?thesis
    proof (cases "e = Hid ?H")
      case id: True
      then have "getNextRel C ?H m = Inr t" "ITSModel_getNamedLocals C ?H m = Inr ns"
        using t(1) ns(1) el by (simp_all add: getNextRel_def ITSModel_getNamedLocals_def p(1))
      then have "model_relation R C m UNIV t ns"
        using t(2) ns(2) by (simp add: model_relation_def named_cover_def)
      moreover have "s' = s" if "lab p ''elapse'' s s'" for s s'
        using e(2) [of "{s}"] that hom_algebra.app_id [OF alg, of "{s}"] id by auto
      ultimately show ?thesis using t(2) by (intro exI [of _ t] exI [of _ ns]) auto
    next
      case False
      have next_eq: "getNextRel C ?H m = Inr (Hor ?H t e)" "ITSModel_getNamedLocals C ?H m = Inr ((''elapse'', e) # ns)"
        using t(1) ns(1) el False by (simp_all add: getNextRel_def ITSModel_getNamedLocals_def p(1))
      have app: "rel_app R (Hor ?H t e) S = {s'. \<exists>s\<in>S. loc p s s'} \<union> {s'. \<exists>s\<in>S. lab p ''elapse'' s s'}" for S
        by (simp add: hom_algebra.app_or [OF alg] t(2) e(2))
      then have "model_relation R C m UNIV (Hor ?H t e) ((''elapse'', e) # ns)"
        using next_eq ns(2) e(2) by (auto simp: model_relation_def named_cover_def)
      with True app show ?thesis by (intro exI [of _ "Hor ?H t e"] exI [of _ "(''elapse'', e) # ns"]) auto
    qed
  qed
qed

section \<open>Declared types as types of the model\<close>

text \<open>The calls on the declared types of \<open>Its_Hierarchy\<close>, with nets at the leaves.\<close>

fun decl_name :: "(PNet \<times> varorder) type_def \<Rightarrow> string" where
  "decl_name (Leaf (n, vo)) = n_name n"
| "decl_name (Comp c vo) = c_name c"

fun decl_states :: "(PNet \<times> varorder) type_def \<Rightarrow> labels" where
  "decl_states (Leaf (n, vo)) = getInitStates n"
| "decl_states (Comp c vo) = CompositeType_getInitStates c"

fun decl_order :: "(PNet \<times> varorder) type_def \<Rightarrow> varorder" where
  "decl_order (Leaf (n, vo)) = vo"
| "decl_order (Comp c vo) = vo"

fun decl_setOrder :: "(PNet \<times> varorder) type_def \<Rightarrow> labels \<Rightarrow> ((PNet \<times> varorder) type_def \<times> bool) res" where
  "decl_setOrder (Leaf (n, vo)) vars = rbind (updateOrder vo vars) (\<lambda>(vo', ok). Inr (Leaf (n, vo'), ok))"
| "decl_setOrder (Comp c vo) vars = rbind (updateOrder vo vars) (\<lambda>(vo', ok). Inr (Comp c vo', ok))"

text \<open>Sets of paths for the nodes of the library.\<close>

definition path_ops :: "(path \<Rightarrow> path set, path set) sdd_ops" where
  "path_ops =
     \<lparr>sdd_hom = lin_ops, sdd_local = path_local,
      sdd_node = (\<lambda>i S M. {put_path s i d | s d. s \<in> M \<and> d \<in> S}),
      sdd_one = {Sdd (\<lambda>_. Ddd (\<lambda>_. 0))}, sdd_null = {}\<rparr>"

definition list_path :: "(int \<times> int) list \<Rightarrow> path set" where
  "list_path xs = {Sdd (\<lambda>_. Ddd (\<lambda>v. case map_of xs v of None \<Rightarrow> 0 | Some k \<Rightarrow> k))}"

definition decl_calls :: "nat \<Rightarrow> ((PNet \<times> varorder) type_def, path \<Rightarrow> path set, path) type_calls" where
  "decl_calls depth =
     \<lparr>tc_getName = decl_name, tc_getInitStates = decl_states, tc_getVarOrder = decl_order, tc_setVarOrder = decl_setOrder,
      tc_type = (\<lambda>ts. declared_types depth path_ops (net_type list_nodes list_path) ts (length ts))\<rparr>"

lemma decl_contract:
  assumes "\<And>k. k < length ts \<Longrightarrow>
      declaration_ok depth (declared_types depth path_ops (net_type list_nodes list_path) ts k) k (ts ! k)"
  shows "its_contract (rel_hom lin_rel) (rel_app lin_rel) path_local sub_path put_path (tc_type (decl_calls depth) ts)
    (declared_lab sub_path put_path net_lab ts (length ts))
    (declared_loc sub_path put_path net_lab net_loc ts (length ts)) {..<length ts}"
proof -
  have "its_contract (sdd_hom path_ops) lin (sdd_local path_ops) sub_path put_path (net_type list_nodes list_path) net_lab net_loc UNIV"
    by (simp add: path_ops_def nets.its_contract_axioms)
  from declared_contract [OF this assms] show ?thesis
    by (simp add: path_ops_def lin_rel_def decl_calls_def)
qed

lemma decl_printable:
  assumes "setFromCollection vs = Inr (decl_order t)" "decl_name t \<noteq> []" "\<forall>c\<in>set (decl_name t). \<not> is_space c"
    and "\<forall>l\<in>set vs. nl \<notin> set l \<and> l \<noteq> ''#END''"
  shows "printable (decl_calls depth) t"
proof -
  have "\<not> list_ex (\<lambda>v. getIndex (decl_order t) v = - 1) vs"
    using order_roundtrip(1) [OF assms(1)] by (fastforce simp: list_ex_iff in_set_conv_nth)
  then have "updateOrder (decl_order t) vs = Inr (decl_order t, True)" using assms(1) by (simp add: updateOrder_def)
  moreover have "decl_setOrder t vs = rbind (updateOrder (decl_order t) vs)
      (\<lambda>(vo', ok). Inr (case t of Leaf (n, _) \<Rightarrow> Leaf (n, vo') | Comp c _ \<Rightarrow> Comp c vo', ok))"
    by (cases t rule: decl_order.cases) simp_all
  moreover have "(case t of Leaf (n, _) \<Rightarrow> Leaf (n, decl_order t) | Comp c _ \<Rightarrow> Comp c (decl_order t)) = t"
    by (cases t rule: decl_order.cases) simp_all
  ultimately have "decl_setOrder t vs = Inr (t, True)" by simp
  with assms show ?thesis by (auto simp: printable_def decl_calls_def)
qed

end
