(* ===== verification/Its_Props.thy ===== *)
theory Its_Props imports Its_Net_Model Petri_Props begin

text \<open>
  The properties of composites, of the cache of types and of the model. A hypothesis \<open>its_contract \<dots>\<close> is
  the contract of the types at the leaves (\<open>Its_Hierarchy\<close>), \<open>relations R\<close> the documented behaviour of
  the library on transitions (\<open>Its_Search\<close>); the witnesses take Petri nets and the library on sets of
  states.
\<close>

section \<open>Composites\<close>

text \<open>C30 (invariant): every composite made by the building operations has unique names, and each part of
  its synchronizations is \<open>self\<close> or names an instance whose type offers the label.\<close>

theorem composite_invariant:
  assumes "built L lookup c"
  shows "composite_ok L c"
  by (rule built_ok [OF assms])

theorem composite_invariant_witness:
  "composite_ok (\<lambda>_. [''go'']) (fst (addSyncPart (\<lambda>_. [''go'']) ''s'' ''a'' ''go''
     (fst (addSynchronization ''s'' ''both'' (fst (addInstance (\<lambda>_. Some (0 :: nat)) ''a'' ''m'' (Composite_of ''c'')))))))"
  by (rule composite_invariant [of _ "\<lambda>_. Some 0"]) (intro built.intros)

section \<open>The hierarchy of types\<close>

text \<open>C31 (refinement): let the leaves keep the contract (their homomorphisms compute their steps), and let each
  composite be well formed over types declared before it, have a variable order of exactly its instances, and
  have no cycle of \<open>self\<close> parts: some rank of labels below the allowed depth of calls decreases from a
  synchronization to the labels of its \<open>self\<close> parts (with a cycle \<open>getSuccs\<close> recurses forever). Then every
  declared type answers to \<open>getSuccs\<close> of one of its labels, \<open>getLocals\<close> and \<open>getNamedLocals\<close> homomorphisms that
  compute its steps: the parts of a synchronization one after the other, each a step of an instance or of the
  composite itself, and local steps of the composite or of one of its instances.\<close>

theorem hierarchy_correct:
  assumes leaf: "its_contract (sdd_hom D) app (sdd_local D) rd wr L lab loc UNIV"
    and ok: "\<forall>k<n. declaration_ok depth (declared_types depth D L ts k) k (ts ! k)" and ty: "ty < n"
  shows "(\<forall>l\<in>set (ty_transLabels (declared_types depth D L ts n) ty).
      \<exists>h. ty_getSuccs (declared_types depth D L ts n) ty [l] = Inr h
        \<and> (\<forall>S. app h S = {s'. \<exists>s\<in>S. declared_lab rd wr lab ts n ty l s s'}))
    \<and> (\<exists>h. ty_getLocals (declared_types depth D L ts n) ty = Inr h
        \<and> (\<forall>S. app h S = {s'. \<exists>s\<in>S. declared_loc rd wr lab loc ts n ty s s'}))
    \<and> (\<exists>ns. ty_getNamedLocals (declared_types depth D L ts n) ty = Inr ns
        \<and> (\<forall>S. (\<Union>x\<in>set ns. app (snd x) S) = {s'. \<exists>s\<in>S. declared_loc rd wr lab loc ts n ty s s'}))"
proof -
  have con: "its_contract (sdd_hom D) app (sdd_local D) rd wr (declared_types depth D L ts n)
      (declared_lab rd wr lab ts n) (declared_loc rd wr lab loc ts n) {..<n}"
    by (rule declared_contract [OF leaf]) (use ok in simp)
  have "ty \<in> {..<n}" using ty by simp
  with its_contract.succs_contract [OF con this] its_contract.locals_contract [OF con this]
    its_contract.named_contract [OF con this] show ?thesis by simp
qed

text \<open>Two instances of the net that synchronize on \<open>go\<close>.\<close>

definition pair :: "nat Composite" where
  "pair = \<lparr>c_name = ''pair'', comps = [(''a'', 0), (''b'', 0)],
     syncs = [\<lparr>sy_name = ''s'', sy_label = ''both'', sy_parts = [(''a'', ''go''), (''b'', ''go'')]\<rparr>],
     cstates = [], exposed = []\<rparr>"

abbreviation "pair_vo \<equiv> [(''a'', 0::int), (''b'', 1)]"

definition pair_types :: "(PNet \<times> varorder) type_def list" where
  "pair_types = [Leaf (small_net, small_vo), Comp pair pair_vo]"

lemma pair_types_ok:
  "\<forall>k<2. declaration_ok 1 (declared_types 1 path_ops (net_type list_nodes list_path) pair_types k) k (pair_types ! k)"
proof -
  have "setFromCollection [''a'', ''b''] = Inr pair_vo" by (simp add: setFromCollection_eq)
  moreover have "getTransLabels small_net = [''go'']" by (simp add: getTransLabels_def small_net_def)
  ultimately have "declaration_ok 1 (declared_types 1 path_ops (net_type list_nodes list_path) pair_types 1) 1 (Comp pair pair_vo :: (PNet \<times> varorder) type_def)"
    by (auto simp: pair_def pair_types_def leaf_type_def PNet_type_def composite_ok_def part_ok_def self_ranked_def
        intro!: exI [of _ "[''a'', ''b'']"] exI [of _ "\<lambda>_. 0"])
  then show ?thesis by (simp add: pair_types_def All_less_Suc numeral_2_eq_2)
qed

theorem hierarchy_correct_witness:
  "\<exists>h. ty_getSuccs (declared_types 1 path_ops (net_type list_nodes list_path) pair_types 2) 1 [''both''] = Inr h
    \<and> lin h UNIV = {s'. \<exists>s. declared_lab sub_path put_path net_lab pair_types 2 1 ''both'' s s'}"
proof -
  have "its_contract (sdd_hom path_ops) lin (sdd_local path_ops) sub_path put_path (net_type list_nodes list_path) net_lab net_loc UNIV"
    by (simp add: path_ops_def nets.its_contract_axioms)
  from hierarchy_correct [OF this pair_types_ok, of 1]
  have "\<forall>l\<in>set (ty_transLabels (declared_types 1 path_ops (net_type list_nodes list_path) pair_types 2) 1).
      \<exists>h. ty_getSuccs (declared_types 1 path_ops (net_type list_nodes list_path) pair_types 2) 1 [l] = Inr h
        \<and> (\<forall>S. lin h S = {s'. \<exists>s\<in>S. declared_lab sub_path put_path net_lab pair_types 2 1 l s s'})" by simp
  moreover have "ty_transLabels (declared_types 1 path_ops (net_type list_nodes list_path) pair_types 2) 1 = [''both'']"
    by (simp add: pair_types_def numeral_2_eq_2 composite_type_def Let_def CompositeType_getTransLabels_def pair_def)
  ultimately show ?thesis by fastforce
qed

section \<open>The cache\<close>

text \<open>C32 (equivalence): while every cached value is what the type answers, \<open>TypeCacher\<close> answers what the
  type answers, to \<open>getSuccs\<close> for the sorted labels, and this stays so after each call.\<close>

theorem cache_transparent:
  assumes "cache_ok I unset c"
  shows "(TypeCacher_getSuccs I tau c = Inr (c1, r) \<longrightarrow>
        t_getSuccs I (sort tau) (concrete c) = Inr r \<and> cache_ok I unset c1 \<and> concrete c1 = concrete c)
    \<and> (TypeCacher_getState I l c = Inr (c2, n) \<longrightarrow>
        t_getState I l (concrete c) = Inr n \<and> cache_ok I unset c2 \<and> concrete c2 = concrete c)
    \<and> (TypeCacher_getLocals I unset c = Inr (c3, s) \<longrightarrow>
        t_getLocals I (concrete c) = Inr s \<and> cache_ok I unset c3 \<and> concrete c3 = concrete c)"
  by (intro conjI impI) (rule getSuccs_cached [OF assms] getState_cached [OF assms] getLocals_cached [OF assms], assumption)+

definition sample_type :: "(nat, nat, nat) type_impl" where
  "sample_type =
     \<lparr>t_getLocals = (\<lambda>c. Inr c), t_getSuccs = (\<lambda>tau c. Inr (length tau + c)), t_getState = (\<lambda>l c. Inr (length l)),
      t_setVarOrder = (\<lambda>vars c. Inr (Suc c, True))\<rparr>"

lemma sample_getSuccs:
  "TypeCacher_getSuccs sample_type [''b'', ''a''] (TypeCacher_of 0 5)
    = Inr (\<lparr>concrete = 5, state_cache = [], trans_keys = [[''a'', ''b'']], trans_vals = [7], locals_cache = 0\<rparr>, 7)"
  by code_simp

theorem cache_transparent_witness:
  "t_getSuccs sample_type (sort [''b'', ''a'']) (concrete (TypeCacher_of 0 5 :: (nat, nat, nat) cacher)) = Inr 7"
  using cache_transparent [OF cache_fresh, of sample_type "[''b'', ''a'']" 0 5 _ 7] sample_getSuccs by blast

text \<open>C33 (error): \<open>setVarOrder\<close> empties the values of the cache of \<open>getSuccs\<close> but not its keys: a request
  for labels that were cached before reads past the end of the values.\<close>

theorem stale_cache:
  assumes "TypeCacher_getSuccs I tau c = Inr (c', r)" "TypeCacher_setVarOrder I unset vars c' = Inr (c'', ok)"
  shows "TypeCacher_getSuccs I tau c'' = Inl (Undefined ''trans_vals[] out of range'')"
  by (rule stale_key [OF assms])

theorem stale_cache_witness:
  "TypeCacher_getSuccs sample_type [''b'', ''a'']
     \<lparr>concrete = 6, state_cache = [], trans_keys = [[''a'', ''b'']], trans_vals = [], locals_cache = 0\<rparr>
   = Inl (Undefined ''trans_vals[] out of range'')"
  by (rule stale_cache [OF sample_getSuccs, of 0 "[]" _ True]) (simp add: TypeCacher_setVarOrder_def sample_type_def)

section \<open>A model with one net\<close>

text \<open>The net of \<open>small_net\<close> with a private transition, its two markings, and the model that has it.\<close>

definition priv_net :: PNet where
  "priv_net = small_net\<lparr>n_trans := map (\<lambda>t. t\<lparr>t_vis := PRIVATE\<rparr>) (n_trans small_net)\<rparr>"

definition before :: path where
  "before = Sdd (\<lambda>_. Ddd ((\<lambda>_. 0)(0 := 1)))"

definition after :: path where
  "after = put_path before 0 (Ddd ((\<lambda>_. 0)(1 := 2)))"

definition net_model :: "((PNet \<times> varorder) type_def, path \<Rightarrow> path set, path) ITSModel" where
  "net_model =
     \<lparr>m_types = [Leaf (priv_net, small_vo)], m_model = Some (''i'', 0), m_reached = {}, m_predRel = Hnull lin_ops,
      m_initName = ''init''\<rparr>"

definition net_next :: "path \<Rightarrow> path set" where
  "net_next = getLocals lin_ops (PNet_getTransitionHom lin_ops (ddd_getHom lin_prim) marking_local small_vo) (Hid lin_ops) priv_net"

definition net_named :: "(string \<times> (path \<Rightarrow> path set)) list" where
  "net_named = getNamedLocals lin_ops (PNet_getTransitionHom lin_ops (ddd_getHom lin_prim) marking_local small_vo) (Hid lin_ops) priv_net"

lemma lin_rel_sel [simp]: "rel_hom lin_rel = lin_ops" "rel_app lin_rel = lin"
  by (simp_all add: lin_rel_def)

lemma priv_net_sel [simp]:
  "n_trans priv_net = map (\<lambda>t. t\<lparr>t_vis := PRIVATE\<rparr>) (n_trans small_net)"
  "n_places priv_net = [''p'', ''q'']" "n_markings priv_net = [(''init'', [(''p'', 1)])]"
  by (simp_all add: priv_net_def)

lemma net_calls:
  "getNextRel (decl_calls 1) lin_ops net_model = Inr net_next"
  "ITSModel_getNamedLocals (decl_calls 1) lin_ops net_model = Inr net_named"
  by (simp_all add: getNextRel_def ITSModel_getNamedLocals_def getElapse_def main_type_def net_model_def decl_calls_def
      leaf_type_def PNet_type_def net_next_def net_named_def getTransLabels_def small_net_def)

lemma before_after:
  "lin net_next {before} = {after}" "lin net_next {after} = {}"
proof -
  have [simp]: "(\<lambda>_. 0 :: int)(0 := 0) = ((\<lambda>_. 0) :: int \<Rightarrow> int)" by auto
  show "lin net_next {before} = {after}" "lin net_next {after} = {}"
    unfolding net_next_def net_locals
    by (auto simp: net_loc_def net_fires_def small_net_def t_enabled_def arc_enabled_def before_def after_def getIndex_def
        arc_effects_def)
qed

lemma before_neq_after: "before \<noteq> after"
proof
  assume "before = after"
  then have "sub_path before 0 = sub_path after 0" by simp
  then have "(\<lambda>_. 0)(0 := 1) = ((\<lambda>_. 0 :: int)(1 := 2) :: int \<Rightarrow> int)" by (simp add: before_def after_def)
  from fun_cong [OF this, of 0] show False by simp
qed

lemma net_relation: "model_relation lin_rel (decl_calls 1) net_model {before, after} net_next net_named"
  using net_calls by (simp add: model_relation_def named_cover_def net_next_def net_named_def net_locals net_named)

lemma net_named_steps: "(\<Union>x\<in>set net_named. lin (snd x) S) = lin net_next S"
  by (simp add: net_next_def net_named_def net_locals net_named)

lemma net_closed: "s \<in> {before, after} \<Longrightarrow> lin net_next {s} \<subseteq> {before, after}"
  using before_after by auto

lemma net_path: "(\<lambda>a b. b \<in> lin net_next {a})\<^sup>*\<^sup>* before after"
  using before_after(1) by (intro r_into_rtranclp) simp

lemma net_reachable: "reachable lin_rel net_next {before} = {before, after}"
proof -
  have "(\<lambda>a b. b \<in> lin net_next {a})\<^sup>*\<^sup>* before s \<Longrightarrow> s \<in> {before, after}" for s
    by (induction rule: rtranclp_induct) (use net_closed in auto)
  with net_path show ?thesis by (auto simp: reachable_def)
qed

lemma net_initial: "getInitialState (decl_calls 1) net_model = Inr {before}"
proof -
  have "(\<lambda>v. case map_of (getMarking list_nodes [(''p'', 1)] small_vo) v of None \<Rightarrow> 0 | Some k \<Rightarrow> k)
      = ((\<lambda>_. 0)(0 := 1) :: int \<Rightarrow> int)"
    by (auto simp: getMarking_def list_nodes_def vo_size_def upt_rec Marking_getMarking_def fun_eq_iff)
  then show ?thesis
    by (simp add: getInitialState_def main_type_def net_model_def decl_calls_def leaf_type_def PNet_type_def getState_def
        list_path_def before_def)
qed

section \<open>The transition relation and reachable states\<close>

text \<open>C34 (functional): on a model whose reachable states have not been computed yet, \<open>computeReachable\<close>
  answers the states reachable from the initial state by the steps of the model, when they are finitely
  many.\<close>

theorem computeReachable_correct:
  assumes "relations R" "m_reached m = {}" "getInitialState C m = Inr M0" "getNextRel C (rel_hom R) m = Inr h"
    and "finite (reachable R h M0)"
  shows "computeReachable C R m = Inr (m\<lparr>m_reached := reachable R h M0\<rparr>, reachable R h M0)"
  by (rule relations.computeReachable_eq [OF assms])

theorem computeReachable_correct_witness:
  "computeReachable (decl_calls 1) lin_rel net_model
    = Inr (net_model\<lparr>m_reached := {before, after}\<rparr>, {before, after})"
  using computeReachable_correct [OF lin_relations.relations_axioms _ net_initial, of net_next] net_calls(1)
  by (simp add: net_reachable) (simp add: net_model_def)

text \<open>Models whose types are nets and composites: the named transitions make the steps of the relation.\<close>

lemma declared_model_relation:
  assumes "\<And>k. k < length (m_types m) \<Longrightarrow> declaration_ok depth
      (declared_types depth path_ops (net_type list_nodes list_path) (m_types m) k) k (m_types m ! k)"
    and "m_model m = Some (name, p)" "p < length (m_types m)"
  shows "\<exists>nextRel ns. model_relation lin_rel (decl_calls depth) m UNIV nextRel ns"
proof -
  have "main_type m = Inr p" "p \<in> {..<length (m_types m)}" using assms(2,3) by (simp_all add: main_type_def)
  from contract_relation [OF decl_contract [OF assms(1)] lin_relations.relations_axioms this] show ?thesis by blast
qed

text \<open>C35 (functional): let \<open>reach\<close> be a nonempty set of states such that either the reverse of the transition
  relation (which is not null) stays inside \<open>reach\<close>, or the named local transitions, with \<open>elapse\<close>, make from
  every state of \<open>reach\<close> exactly the steps of the transition relation. Then \<open>getPredRel\<close> for \<open>reach\<close> answers a
  transition that computes the predecessors in \<open>reach\<close> of any set inside it. Nets and composites of nets always
  meet the second condition (\<open>declared_model_relation\<close>); a GAL type with transient states or pauses does not
  (\<open>Gal_Type_Props.named_locals_ignore_transient\<close>), and is only covered when the reverse stays inside \<open>reach\<close>.\<close>

theorem getPredRel_correct:
  assumes "relations R" "model_reversible R C m reach nextRel" "nextRel \<noteq> Hnull (rel_hom R)" "reach \<noteq> {}"
  shows "\<exists>rel. getPredRel C R reach m = Inr (m\<lparr>m_predRel := Hnull (rel_hom R)\<rparr>, rel)
    \<and> (\<forall>T\<subseteq>reach. rel_app R rel T = {s \<in> reach. \<exists>t\<in>T. t \<in> rel_app R nextRel {s}})"
  using relations.getPredRel_pre [OF assms] by (simp add: relations.pre_def [OF assms(1)])

lemma net_next_live: "net_next \<noteq> Hnull (rel_hom lin_rel)"
proof
  assume "net_next = Hnull (rel_hom lin_rel)"
  then have "lin net_next {before} = {}" using lin_algebra.app_null [of "{before}"] by simp
  with before_after(1) show False by simp
qed

theorem getPredRel_correct_witness:
  "\<exists>rel. getPredRel (decl_calls 1) lin_rel {before, after} net_model
      = Inr (net_model\<lparr>m_predRel := Hnull lin_ops\<rparr>, rel) \<and> lin rel {after} = {before}"
proof -
  have "{s \<in> {before, after}. \<exists>t\<in>{after}. t \<in> lin net_next {s}} = {before}"
    using before_after by auto
  then show ?thesis
    using getPredRel_correct [OF lin_relations.relations_axioms relation_reversible [OF net_relation] net_next_live]
    by auto
qed

section \<open>Witness paths\<close>

text \<open>C36 (liveness): let \<open>reach\<close> contain \<open>init\<close> and the goal and be closed under the transition relation, and let
  the named local transitions, with \<open>elapse\<close>, make from every state of \<open>reach\<close> exactly the steps of the relation
  (so for nets and composites of nets; not for GAL types with transient states or pauses, where \<open>findPath\<close> may
  answer an empty path). When the goal can be reached from \<open>init\<close>, the search of \<open>findPath\<close>, asked neither to be
  precise nor to print states, ends, and answers a sequence of named transitions that leads from a state of
  \<open>init\<close> to the goal; no such sequence is shorter.\<close>

theorem findPath_correct:
  assumes "relations R" "model_relation R C m reach nextRel ns" "init \<subseteq> reach" "goal \<subseteq> reach"
    and "\<And>s. s \<in> reach \<Longrightarrow> rel_app R nextRel {s} \<subseteq> reach"
    and "s0 \<in> init" "t0 \<in> goal" "(\<lambda>a b. b \<in> rel_app R nextRel {a})\<^sup>*\<^sup>* s0 t0"
  shows "\<exists>m' w states. findPath C R False init goal reach False m = Some (Inr (m', w, states))
    \<and> (\<exists>s\<in>init. \<exists>t\<in>goal. chain (named_step R ns) w s t)
    \<and> (\<forall>w'. \<forall>s\<in>init. \<forall>t\<in>goal. chain (named_step R ns) w' s t \<longrightarrow> length w \<le> length w')"
  by (rule relations.findPath_shortest [OF assms])

theorem findPath_correct_witness:
  "\<exists>m' w states. findPath (decl_calls 1) lin_rel False {before} {after} {before, after} False net_model
      = Some (Inr (m', w, states))
    \<and> (\<exists>s\<in>{before}. \<exists>t\<in>{after}. chain (named_step lin_rel net_named) w s t)
    \<and> (\<forall>w'. \<forall>s\<in>{before}. \<forall>t\<in>{after}. chain (named_step lin_rel net_named) w' s t \<longrightarrow> length w \<le> length w')"
  by (rule findPath_correct [OF lin_relations.relations_axioms net_relation, where ?s0.0 = before and ?t0.0 = after])
     (use net_closed net_path in auto)

text \<open>C37 (safety): let \<open>reach\<close> contain the disjoint sets \<open>init\<close> and goal and be closed under the transition
  relation, and let the named local transitions, with \<open>elapse\<close>, make from every state of \<open>reach\<close> exactly the steps
  of the relation (not so for GAL types with transient states or pauses); let their names be distinct and the
  reverse of none of them be the identity (\<open>findPath\<close> stops on \<open>assert(false)\<close> then). When the goal can be
  reached from \<open>init\<close> and states are to be printed, the path found comes with a set of states for each step: the
  first is a nonempty part of \<open>init\<close>, each of its states can fire the whole path, state by state through these
  sets, and ends in the goal.\<close>

theorem findPath_precise_correct:
  assumes "relations R" "model_relation R C m reach nextRel ns" "init \<subseteq> reach" "goal \<subseteq> reach"
    and "\<And>s. s \<in> reach \<Longrightarrow> rel_app R nextRel {s} \<subseteq> reach"
    and "s0 \<in> init" "t0 \<in> goal" "(\<lambda>a b. b \<in> rel_app R nextRel {a})\<^sup>*\<^sup>* s0 t0" "init \<inter> goal = {}"
    and "distinct (map fst ns)" "\<And>x. x \<in> set ns \<Longrightarrow> rel_invert R (snd x) reach \<noteq> Hid (rel_hom R)"
  shows "\<exists>m' w states. findPath C R True init goal reach precise m = Some (Inr (m', w, states))
    \<and> hd states \<noteq> {} \<and> hd states \<subseteq> init \<and> last states \<subseteq> goal \<and> precise_trace R ns w states
    \<and> (\<forall>s\<in>hd states. \<exists>t\<in>goal. chain (named_step R ns) w s t)"
  by (rule relations.findPath_precise [OF assms])

lemma net_named_one: "\<exists>h. net_named = [(''t'', h)] \<and> lin h {after} = {}"
proof -
  obtain h where h: "net_named = [(''t'', h)]" by (simp add: net_named_def getNamedLocals_def small_net_def Let_def)
  have "(\<Union>x\<in>set net_named. lin (snd x) {after}) = lin net_next {after}" by (rule net_named_steps)
  then have "lin h {after} = {}" unfolding h before_after(2) by simp
  with h show ?thesis by blast
qed

theorem findPath_precise_correct_witness:
  "\<exists>m' w states. findPath (decl_calls 1) lin_rel True {before} {after} {before, after} True net_model
      = Some (Inr (m', w, states)) \<and> hd states = {before}"
proof -
  obtain h where h: "net_named = [(''t'', h)]" "lin h {after} = {}" using net_named_one by blast
  have inv: "rel_invert lin_rel h {before, after} \<noteq> Hid (rel_hom lin_rel)"
  proof
    assume "rel_invert lin_rel h {before, after} = Hid (rel_hom lin_rel)"
    then have "after \<in> rel_invert lin_rel h {before, after} after" by (simp add: lin_ops_def)
    then have "after \<in> h after" by (simp add: lin_rel_def)
    with h(2) show False by (simp add: lin_def)
  qed
  have names: "distinct (map fst net_named)"
    "\<And>x. x \<in> set net_named \<Longrightarrow> rel_invert lin_rel (snd x) {before, after} \<noteq> Hid (rel_hom lin_rel)"
    unfolding h(1) using inv by simp_all
  have "\<exists>m' w states. findPath (decl_calls 1) lin_rel True {before} {after} {before, after} True net_model
        = Some (Inr (m', w, states))
      \<and> hd states \<noteq> {} \<and> hd states \<subseteq> {before} \<and> last states \<subseteq> {after} \<and> precise_trace lin_rel net_named w states
      \<and> (\<forall>s\<in>hd states. \<exists>t\<in>{after}. chain (named_step lin_rel net_named) w s t)"
    by (rule findPath_precise_correct [OF lin_relations.relations_axioms net_relation, where ?s0.0 = before and ?t0.0 = after])
       (use net_closed net_path before_neq_after names in auto)
  then show ?thesis by (metis subset_singletonD)
qed

text \<open>C38 (functional): \<open>playPath\<close> accepts a path exactly when some initial state can fire it, and then
  answers all states it leads to.\<close>

theorem playPath_correct:
  assumes "relations R" "getInitialState C m = Inr init" "init \<noteq> {}" "ITSModel_getNamedLocals C (rel_hom R) m = Inr ns"
  shows "playPath C R path m = Inr (Played S) \<longleftrightarrow>
    S = {t. \<exists>s\<in>init. chain (first_named R ns) path s t} \<and> S \<noteq> {}"
  using relations.play_loop_run [OF assms(1,3), of ns path 0 S] assms(2,4) by (simp add: playPath_def)

theorem playPath_correct_witness:
  "playPath (decl_calls 1) lin_rel [''t''] net_model = Inr (Played {after})"
proof -
  obtain h where h: "net_named = [(''t'', h)]" using net_named_one by blast
  have "(\<Union>x\<in>set net_named. lin (snd x) {before}) = lin net_next {before}" by (rule net_named_steps)
  then have "lin h {before} = {after}" unfolding h before_after(1) by simp
  then have "{after} = {t. \<exists>s\<in>{before}. chain (first_named lin_rel net_named) [''t''] s t} \<and> {after} \<noteq> ({} :: path set)"
    unfolding h by (auto simp: first_named_def)
  moreover have "ITSModel_getNamedLocals (decl_calls 1) (rel_hom lin_rel) net_model = Inr net_named"
    using net_calls(2) by simp
  ultimately show ?thesis
    using playPath_correct [OF lin_relations.relations_axioms net_initial, of net_named "[''t'']" "{after}"] by blast
qed

section \<open>Orders in files\<close>

text \<open>C39 (roundtrip): consider a model of nets and composites whose types have distinct names, each a nonempty
  single word, and variable orders made from a list of names, none of which contains a newline or is \<open>#END\<close>. The
  file \<open>printVarOrder\<close> writes for it is accepted by \<open>loadOrder\<close>, and reading it gives back the model as it was:
  types, orders, initial state and cached results.\<close>

theorem loadOrder_printVarOrder:
  assumes "distinct (map decl_name (m_types m))"
    and "\<forall>t\<in>set (m_types m). decl_name t \<noteq> [] \<and> (\<forall>c\<in>set (decl_name t). \<not> is_space c)"
    and "\<forall>t\<in>set (m_types m). \<exists>vs. setFromCollection vs = Inr (decl_order t) \<and> (\<forall>l\<in>set vs. nl \<notin> set l \<and> l \<noteq> ''#END'')"
  shows "loadOrder (decl_calls depth) (printVarOrder (decl_calls depth) m) m = Inr (m, True)"
proof -
  have "distinct (map (tc_getName (decl_calls depth)) (m_types m))" using assms(1) by (simp add: decl_calls_def)
  moreover have "\<forall>t\<in>set (m_types m). printable (decl_calls depth) t"
  proof
    fix t assume t: "t \<in> set (m_types m)"
    then obtain vs where "setFromCollection vs = Inr (decl_order t)" "\<forall>l\<in>set vs. nl \<notin> set l \<and> l \<noteq> ''#END''"
      using assms(3) by blast
    with t assms(2) show "printable (decl_calls depth) t" by (intro decl_printable [where vs = vs]) simp_all
  qed
  moreover have "fst (setInstanceState (decl_calls depth) (m_initName m) m) = m"
    by (simp add: setInstanceState_def split: option.split)
  ultimately show ?thesis
    using load_blocks [where C = "decl_calls depth" and m = m and ts = "[]" and us = "m_types m"] by (simp add: loadOrder_def printVarOrder_def)
qed

theorem loadOrder_printVarOrder_witness:
  "printVarOrder (decl_calls 1) net_model = ''#TYPE m'' @ [nl] @ ''p'' @ [nl] @ ''q'' @ [nl] @ ''#END'' @ [nl]
    \<and> loadOrder (decl_calls 1) (''#TYPE m'' @ [nl] @ ''p'' @ [nl] @ ''q'' @ [nl] @ ''#END'' @ [nl]) net_model
      = Inr (net_model, True)"
proof -
  have types: "m_types net_model = [Leaf (priv_net, small_vo)]" by (simp add: net_model_def)
  have name: "n_name priv_net = ''m''" by (simp add: priv_net_def small_net_def)
  have "printVarOrder (decl_calls 1) net_model = ''#TYPE m'' @ [nl] @ ''p'' @ [nl] @ ''q'' @ [nl] @ ''#END'' @ [nl]"
    by (simp add: printVarOrder_def types decl_calls_def name VarOrder_print_def vo_size_def upt_rec)
  moreover have "loadOrder (decl_calls 1) (printVarOrder (decl_calls 1) net_model) net_model = Inr (net_model, True)"
    by (rule loadOrder_printVarOrder) (auto simp: types name is_space_def sample_order intro!: exI [of _ "[''p'', ''q'']"])
  ultimately show ?thesis by simp
qed

end
