(* ===== verification/Gal_Invert.thy ===== *)
theory Gal_Invert imports Gal_Hom begin

text \<open>
  The inverse of an assignment (\<open>_InvertExpr\<close> in \<open>its/gal/ExprHom.cpp\<close>): the states of \<open>potall\<close> that the
  assignment leads into the argument.
\<close>

section \<open>x = f(x)\<close>

text \<open>\<open>invertExprValues\<close>: the pairs \<open>f(x) \<rightarrow> x\<close> as a diagram of two variables.\<close>

definition invert_value ::
  "('d, 'h) dd_lib \<Rightarrow> heap_order \<Rightarrow> pint \<Rightarrow> pint \<Rightarrow> int \<Rightarrow> 'd res" where
  "invert_value lib A expr var x =
     rbind (assert_int A \<lparr>pfirst = var, psecond = createConstant x\<rparr> expr) (\<lambda>e.
       if int_getType e \<noteq> INTCONST then Inl (Abort ''assert (e.getType() == CONST)'')
       else rbind (int_getValue e) (\<lambda>v. Inr (dd_node lib 1 v (dd_node lib 0 x (dd_one lib)))))"

definition invertExprValues ::
  "('d, 'h) dd_lib \<Rightarrow> heap_order \<Rightarrow> pint \<Rightarrow> pint \<Rightarrow> 'd \<Rightarrow> 'd res" where
  "invertExprValues lib A expr var pot =
     rbind (rmap (\<lambda>(x, c). invert_value lib A expr var x) (dd_arcs lib pot)) (\<lambda>toret. Inr (dd_add lib toret))"

section \<open>One edge\<close>

text \<open>\<open>y = {pot}\<close>: every value of the domain of \<open>vr\<close>, above \<open>child\<close>.\<close>

definition any_value :: "('d, 'h) dd_lib \<Rightarrow> 'd \<Rightarrow> int \<Rightarrow> 'd \<Rightarrow> 'd list" where
  "any_value lib potall vr child = map (\<lambda>(x, c). dd_node lib vr x child) (dd_arcs lib (computeDomain lib vr potall))"

text \<open>The first answer of a query that is \<open>vl\<close>.\<close>

fun first_equal :: "'d info \<Rightarrow> int \<Rightarrow> 'd option res" where
  "first_equal [] vl = Inr None"
| "first_equal ((k, d) # m) vl =
     rbind (IntExpression_getValue k) (\<lambda>x. if vl = x then Inr (Some d) else first_equal m vl)"

text \<open>The left-hand side is the current variable.\<close>

definition Invert_here ::
  "('d, 'h) dd_lib \<Rightarrow> heap_order \<Rightarrow> factory \<Rightarrow> GalOrder \<Rightarrow> 'd \<Rightarrow> (IntExpression \<Rightarrow> 'd \<Rightarrow> 'd info res) \<Rightarrow>
   (IntExpression \<Rightarrow> IntExpression \<Rightarrow> 'h res) \<Rightarrow> IntExpression \<Rightarrow> IntExpression \<Rightarrow> IntExpression \<Rightarrow>
   int \<Rightarrow> IntExpression \<Rightarrow> int \<times> 'd \<Rightarrow> 'd list res" where
  "Invert_here lib A f vo potall qry invert var v expr vr curv edge =
     (let (vl, child) = edge; assertion = edge_assertion A curv vl; here = (\<lambda>d. dd_node lib vr vl d)
      in if IntExpression_getType expr = INTCONST then
           rbind (IntExpression_getValue expr) (\<lambda>x. Inr (if vl = x then any_value lib potall vr child else []))
         else rbind (IntExpression_getSupport f expr) (\<lambda>expr_support.
         rbind (IntExpression_setAssertion A assertion expr) (\<lambda>e2.
         if IntExpression_getType e2 = INTCONST then
           rbind (invertExprValues lib A (getExpr expr) (getExpr curv) (computeDomain lib vr potall)) (\<lambda>table.
             Inr (case map_of (dd_arcs lib table) vl of
                    None \<Rightarrow> []
                  | Some son \<Rightarrow> map (\<lambda>(x, c). dd_node lib vr x child) (dd_arcs lib son)))
         else rbind (IntExpression_isSupport curv expr) (\<lambda>reads_itself.
         if \<not> reads_itself then
           rbind (qry expr child) (\<lambda>rhssolved.
           rbind (first_equal rhssolved vl) (\<lambda>hit.
             Inr (case hit of None \<Rightarrow> [] | Some d \<Rightarrow> any_value lib potall vr d)))
         else rbind (IntExpression_isSupport var expr) (\<lambda>reads_var.
         rbind (if reads_var then IntExpression_getSubExprExcept A var expr else Inr expr) (\<lambda>sub.
         if reads_var \<and> sub = expr then
           rbind (go_getIndex vo var) (\<lambda>i.
           rbind (rmap (\<lambda>(x, c).
             rbind (IntExpression_setAssertion A (edge_assertion A var x) expr) (\<lambda>e_tmp.
             rbind (qry e_tmp child) (\<lambda>rhssolved.
             rbind (rmap (\<lambda>(k, d). rbind (IntExpression_getValue k) (\<lambda>y.
               if vl = y then rbind (invert var k) (\<lambda>h. rbind (hom_app lib h (here d)) (\<lambda>r. Inr [r])) else Inr [])) rhssolved) (\<lambda>rs.
             Inr (concat rs))))) (dd_arcs lib (computeDomain lib i potall))) (\<lambda>rs.
           Inr (concat rs)))
         else
           rbind (qry sub child) (\<lambda>rhssolved.
             rmap (\<lambda>(k, d).
               rbind (IntExpression_setAssertion A (Assertion_of A sub k) expr) (\<lambda>e'.
               rbind (invert v e') (\<lambda>h. hom_app lib h (here d)))) rhssolved)))))))"

text \<open>It is not, or not known to be.\<close>

definition Invert_other ::
  "('d, 'h) dd_lib \<Rightarrow> heap_order \<Rightarrow> (IntExpression \<Rightarrow> 'd \<Rightarrow> 'd info res) \<Rightarrow>
   (IntExpression \<Rightarrow> IntExpression \<Rightarrow> 'h res) \<Rightarrow> IntExpression \<Rightarrow> IntExpression \<Rightarrow>
   int \<Rightarrow> IntExpression \<Rightarrow> int \<times> 'd \<Rightarrow> 'd list res" where
  "Invert_other lib A qry invert v expr vr curv edge =
     (let (vl, child) = edge; assertion = edge_assertion A curv vl; here = dd_node lib vr vl child
      in rbind (IntExpression_isSupport curv v) (\<lambda>nested.
         if nested then
           let sub_expr = IntExpression_getFirstSubExpr A v
           in rbind (qry sub_expr here) (\<lambda>rhssolved.
              rmap (\<lambda>(k, d). let ass_tmp = Assertion_of A sub_expr k in
                rbind (IntExpression_setAssertion A ass_tmp v) (\<lambda>v'.
                rbind (IntExpression_setAssertion A ass_tmp expr) (\<lambda>e'.
                rbind (invert v' e') (\<lambda>h. hom_app lib h d)))) rhssolved)
         else rbind (IntExpression_setAssertion A assertion expr) (\<lambda>e.
         rbind (IntExpression_isSupport curv e) (\<lambda>unresolved.
         if unresolved then
           rbind (IntExpression_isSupport v e) (\<lambda>reads.
           rbind (if reads then IntExpression_getSubExprExcept A v e else Inr e) (\<lambda>tosolve.
           rbind (qry tosolve here) (\<lambda>rhssolved.
             rmap (\<lambda>(k, d).
               rbind (IntExpression_setAssertion A (Assertion_of A tosolve k) e) (\<lambda>e'.
               rbind (invert v e') (\<lambda>h. hom_app lib h d))) rhssolved)))
         else rbind (invert v e) (\<lambda>h. rbind (hom_app lib h child) (\<lambda>c. Inr [dd_node lib vr vl c]))))))"

definition Invert_edge ::
  "('d, 'h) dd_lib \<Rightarrow> heap_order \<Rightarrow> factory \<Rightarrow> GalOrder \<Rightarrow> 'd \<Rightarrow> (IntExpression \<Rightarrow> 'd \<Rightarrow> 'd info res) \<Rightarrow>
   (IntExpression \<Rightarrow> IntExpression \<Rightarrow> 'h res) \<Rightarrow> IntExpression \<Rightarrow> IntExpression \<Rightarrow>
   int \<Rightarrow> IntExpression \<Rightarrow> int \<times> 'd \<Rightarrow> 'd list res" where
  "Invert_edge lib A f vo potall qry invert var expr vr curv edge =
     rbind (if IntExpression_getType var = ARRAY then IntExpression_isSupport curv var else Inr False) (\<lambda>var_support.
     rbind (if var_support then IntExpression_setAssertion A (edge_assertion A curv (fst edge)) var else Inr var) (\<lambda>v.
     if v = curv then Invert_here lib A f vo potall qry invert var v expr vr curv edge
     else Invert_other lib A qry invert v expr vr curv edge))"

definition Invert_eval ::
  "('d, 'h) dd_lib \<Rightarrow> heap_order \<Rightarrow> factory \<Rightarrow> GalOrder \<Rightarrow> 'd \<Rightarrow> (IntExpression \<Rightarrow> 'd \<Rightarrow> 'd info res) \<Rightarrow>
   (IntExpression \<Rightarrow> IntExpression \<Rightarrow> 'h res) \<Rightarrow> IntExpression \<Rightarrow> IntExpression \<Rightarrow> 'd \<Rightarrow> 'd res" where
  "Invert_eval lib A f vo potall qry invert var expr d =
     (if d = dd_null lib \<or> d = dd_one lib then Inr (dd_null lib)
      else if d = dd_top lib then Inr (dd_top lib)
      else let vr = dd_variable lib d
        in rbind (go_getVar vo vr) (\<lambda>curv.
           rbind (rmap (Invert_edge lib A f vo potall qry invert var expr vr curv) (dd_arcs lib d)) (\<lambda>res.
             Inr (dd_add lib (concat res)))))"

section \<open>invertExpr\<close>

text \<open>The test at its beginning: whether a cell is inside its array.\<close>

definition invert_address :: "factory \<Rightarrow> GalOrder \<Rightarrow> IntExpression \<Rightarrow> bool res" where
  "invert_address f vo var =
     (if IntExpression_getType var = CONSTARRAY then
        rbind (int_getVariable (getExpr var)) (\<lambda>x.
        rbind (getVar f (getEnv var ! nat x)) (\<lambda>name.
        rbind (IntExpression_getValue var) (isValidAddress vo name)))
      else Inr True)"

primrec invertExpr ::
  "('d, 'h) dd_lib \<Rightarrow> heap_order \<Rightarrow> factory \<Rightarrow> GalOrder \<Rightarrow> 'd \<Rightarrow> nat \<Rightarrow> IntExpression \<Rightarrow> IntExpression \<Rightarrow> 'h res" where
  "invertExpr lib A f vo potall 0 = (\<lambda>var val. no_fuel)"
| "invertExpr lib A f vo potall (Suc n) = (\<lambda>var val.
     rbind (invert_address f vo var) (\<lambda>valid.
     if \<not> valid \<or> IntExpression_getType var = INTNDEF \<or> IntExpression_getType val = INTNDEF then Inr (Hnull (hops lib))
     else if IntExpression_getType var \<notin> {VAR, ARRAY, CONSTARRAY}
     then Inl (Abort ''assert(var.getType() == VAR || var.getType() == ARRAY || var.getType() == CONSTARRAY)'')
     else Inr (hom_of lib (Assign_skip vo var val)
       (Invert_eval lib A f vo potall (query lib A vo n) (invertExpr lib A f vo potall n) var val))))"

text \<open>\<open>_Assign::invert\<close>; \<open>var + expr\<close> is \<open>createBinary (PLUS, var, expr)\<close>.\<close>

definition Assign_invert ::
  "('d, 'h) dd_lib \<Rightarrow> heap_order \<Rightarrow> factory \<Rightarrow> GalOrder \<Rightarrow> nat \<Rightarrow> bool \<Rightarrow> IntExpression \<Rightarrow> IntExpression \<Rightarrow> 'd \<Rightarrow> 'h res" where
  "Assign_invert lib A f vo n isIncrement var expr potall =
     (if isIncrement then rbind (createBinary A PLUS var expr) (invertExpr lib A f vo potall n var)
      else invertExpr lib A f vo potall n var expr)"

end
