(* ===== verification/Gal_Dve.thy ===== *)
theory Gal_Dve imports Gal_Type begin

text \<open>
  The type of a GAL system translated from DVE (\<open>GALDVEType\<close> of \<open>its/gal/GALType.hh\<close>, \<open>GALType.cpp\<close>): variable
  orders and predicates in the syntax of DVE. The processes of the DVE system are the parameter \<open>procs\<close>:
  their names, as the symbol table gives them, with the names of their states in order.
\<close>

type_synonym dve_processes = "(string \<times> string list) list"

section \<open>Variable orders\<close>

text \<open>The variable of a process becomes that of its state, or disappears if the process has one state only.\<close>

definition dve_label :: "dve_processes \<Rightarrow> string \<Rightarrow> labels" where
  "dve_label procs l =
     (case map_of procs l of
        None \<Rightarrow> [l]
      | Some states \<Rightarrow> if length states = 1 then [] else [l @ ''.state''])"

definition GALDVEType_setVarOrder :: "heuristic \<Rightarrow> dve_processes \<Rightarrow> labels \<Rightarrow> GALType \<Rightarrow> (GALType \<times> bool) res" where
  "GALDVEType_setVarOrder heur procs v t = GALType_setVarOrder heur (concat (map (dve_label procs) v)) t"

section \<open>Predicates\<close>

definition is_word :: "char \<Rightarrow> bool" where
  "is_word c \<longleftrightarrow> (let n = (of_char c :: nat) in 48 \<le> n \<and> n \<le> 57 \<or> 65 \<le> n \<and> n \<le> 90 \<or> 97 \<le> n \<and> n \<le> 122 \<or> n = 95)"

text \<open>The word that ends before the position, and the one that starts there.\<close>

definition word_before :: "string \<Rightarrow> nat \<Rightarrow> string" where
  "word_before s i = rev (takeWhile is_word (rev (take i s)))"

definition word_at :: "string \<Rightarrow> nat \<Rightarrow> string" where
  "word_at s i = takeWhile is_word (drop i s)"

text \<open>The position of the state in its process; \<open>-1\<close> if there is none, \<open>-2\<close> in a process with one state.\<close>

fun state_pos :: "string \<Rightarrow> string list \<Rightarrow> int \<Rightarrow> int" where
  "state_pos state [] k = - 1"
| "state_pos state (s # ss) k = (if s = state then k else state_pos state ss (k + 1))"

definition state_number :: "string \<Rightarrow> string list \<Rightarrow> int" where
  "state_number state states =
     (let k = state_pos state states 0 in if k \<noteq> - 1 \<and> length states = 1 then - 2 else k)"

fun nb_state :: "dve_processes \<Rightarrow> string \<Rightarrow> string \<Rightarrow> int" where
  "nb_state [] process state = - 1"
| "nb_state ((name, states) # procs) process state =
     (if name = process \<and> state_number state states \<noteq> - 1 then state_number state states
      else nb_state procs process state)"

text \<open>\<open>substr (0, size - n)\<close>: the difference wraps around when \<open>n\<close> is larger, and everything is kept.\<close>

definition drop_end :: "nat \<Rightarrow> string \<Rightarrow> string" where
  "drop_end n s = (if length s < n then s else take (length s - n) s)"

text \<open>The loop over the characters of the predicate; \<open>out\<close> is what has been written.\<close>

function dve2gal_loop :: "dve_processes \<Rightarrow> string \<Rightarrow> nat \<Rightarrow> string \<Rightarrow> string res" where
  "dve2gal_loop procs pred i out =
     (if length pred \<le> i then Inr out
      else if pred ! i = CHR ''.'' then
        let process = word_before pred i; state = word_at pred (i + 1); nb = nb_state procs process state
        in if nb = - 1 then dve2gal_loop procs pred (i + 1) (out @ ''.'')
           else if \<not> (nb < - 2 \<or> nb \<ge> 0) then Inl (Abort ''assert (nb_state < -2 || nb_state >= 0)'')
           else dve2gal_loop procs pred (i + 1 + length state)
             (drop_end (length process) out @ ''('' @ (if nb = - 2 then ''True'' else process @ ''.state == '' @ show_int nb) @ '')'')
      else dve2gal_loop procs pred (i + 1) (out @ [pred ! i]))"
  by pat_completeness auto
termination
  by (relation "measure (\<lambda>(procs, pred, i, out). length pred - i)") auto

definition predicate_dve2gal :: "dve_processes \<Rightarrow> string \<Rightarrow> string res" where
  "predicate_dve2gal procs pred = dve2gal_loop procs pred 0 ''''"

text \<open>\<open>getBPredicate\<close>; the parser is the parameter \<open>parse\<close>.\<close>

definition GALDVEType_getBPredicate ::
  "(string \<Rightarrow> GAL \<Rightarrow> BoolExpression res) \<Rightarrow> dve_processes \<Rightarrow> string \<Rightarrow> GAL \<Rightarrow> BoolExpression res" where
  "GALDVEType_getBPredicate parse procs pred gal = rbind (predicate_dve2gal procs pred) (\<lambda>new_pred. parse new_pred gal)"

section \<open>Translation of predicates\<close>

declare dve2gal_loop.simps [simp del]


lemma loop_end: "dve2gal_loop procs s (length s) out = Inr out"
  by (subst dve2gal_loop.simps) simp

lemma loop_unknown:
  assumes "\<And>process state. nb_state procs process state = - 1"
  shows "i \<le> length s \<Longrightarrow> dve2gal_loop procs s i out = Inr (out @ drop i s)"
proof (induction "length s - i" arbitrary: i out)
  case 0
  then show ?case using loop_end [of procs s out] by simp
next
  case (Suc n)
  then have i: "i < length s" by simp
  have "dve2gal_loop procs s i out = dve2gal_loop procs s (i + 1) (out @ [s ! i])"
    using i assms by (subst dve2gal_loop.simps) (simp add: Let_def)
  with Suc.hyps(1) [of "i + 1" "out @ [s ! i]"] Suc.hyps(2) i show ?case by (simp add: Cons_nth_drop_Suc)
qed




text \<open>A predicate without the name of a state is left as it is.\<close>

lemma dve2gal_unknown: "(\<And>P S. nb_state procs P S = - 1) \<Longrightarrow> predicate_dve2gal procs s = Inr s"
  using loop_unknown [of procs 0 s "[]"] by (simp add: predicate_dve2gal_def)




end
