(* ===== verification/Ctl_Formula.thy ===== *)
theory Ctl_Formula imports Its_Prelude begin

text \<open>
  CTL formulas (\<open>CTL/src/ctlp/ctlpUtil.c\<close>): the nodes of the parse tree, the tests and the rewritings on
  them. A node shared by two formulas, by a reference count or by the unique tables of the conversions to
  a DAG, is the same value; duplication is the identity.
\<close>

section \<open>Nodes\<close>

text \<open>
  One constructor for each \<open>Ctlp_FormulaType\<close>, with the children nodes of the type have. \<open>Ctlp_ID\<close> has the two
  strings \<open>left\<close> and \<open>right\<close> point to, \<open>Ctlp_Cmp\<close> its \<open>compareValue\<close>.
\<close>

datatype Ctlp_Formula =
  Ctlp_EX Ctlp_Formula | Ctlp_EG Ctlp_Formula | Ctlp_EF Ctlp_Formula | Ctlp_EU Ctlp_Formula Ctlp_Formula
| Ctlp_AX Ctlp_Formula | Ctlp_AG Ctlp_Formula | Ctlp_AF Ctlp_Formula | Ctlp_AU Ctlp_Formula Ctlp_Formula
| Ctlp_OR Ctlp_Formula Ctlp_Formula | Ctlp_AND Ctlp_Formula Ctlp_Formula | Ctlp_NOT Ctlp_Formula
| Ctlp_THEN Ctlp_Formula Ctlp_Formula | Ctlp_XOR Ctlp_Formula Ctlp_Formula | Ctlp_EQ Ctlp_Formula Ctlp_Formula
| Ctlp_ID string string | Ctlp_TRUE | Ctlp_FALSE
| Ctlp_FwdU Ctlp_Formula Ctlp_Formula | Ctlp_FwdG Ctlp_Formula Ctlp_Formula | Ctlp_EY Ctlp_Formula | Ctlp_EH Ctlp_Formula
| Ctlp_Init | Ctlp_Cmp Ctlp_Formula Ctlp_Formula int

text \<open>The macro \<open>fail\<close> and a failed \<open>assert\<close>.\<close>

definition unexpected_type :: "'a res" where
  "unexpected_type = Inl (Abort ''Unexpected type'')"

definition assert_false :: "'a res" where
  "assert_false = Inl (Abort ''assert(0)'')"

fun Ctlp_FormulaReadLeftChild :: "Ctlp_Formula \<Rightarrow> Ctlp_Formula option" where
  "Ctlp_FormulaReadLeftChild (Ctlp_EX f) = Some f"
| "Ctlp_FormulaReadLeftChild (Ctlp_EG f) = Some f"
| "Ctlp_FormulaReadLeftChild (Ctlp_EF f) = Some f"
| "Ctlp_FormulaReadLeftChild (Ctlp_EU f g) = Some f"
| "Ctlp_FormulaReadLeftChild (Ctlp_AX f) = Some f"
| "Ctlp_FormulaReadLeftChild (Ctlp_AG f) = Some f"
| "Ctlp_FormulaReadLeftChild (Ctlp_AF f) = Some f"
| "Ctlp_FormulaReadLeftChild (Ctlp_AU f g) = Some f"
| "Ctlp_FormulaReadLeftChild (Ctlp_OR f g) = Some f"
| "Ctlp_FormulaReadLeftChild (Ctlp_AND f g) = Some f"
| "Ctlp_FormulaReadLeftChild (Ctlp_NOT f) = Some f"
| "Ctlp_FormulaReadLeftChild (Ctlp_THEN f g) = Some f"
| "Ctlp_FormulaReadLeftChild (Ctlp_XOR f g) = Some f"
| "Ctlp_FormulaReadLeftChild (Ctlp_EQ f g) = Some f"
| "Ctlp_FormulaReadLeftChild (Ctlp_FwdU f g) = Some f"
| "Ctlp_FormulaReadLeftChild (Ctlp_FwdG f g) = Some f"
| "Ctlp_FormulaReadLeftChild (Ctlp_EY f) = Some f"
| "Ctlp_FormulaReadLeftChild (Ctlp_EH f) = Some f"
| "Ctlp_FormulaReadLeftChild (Ctlp_Cmp f g v) = Some f"
| "Ctlp_FormulaReadLeftChild (Ctlp_ID n v) = None"
| "Ctlp_FormulaReadLeftChild Ctlp_TRUE = None"
| "Ctlp_FormulaReadLeftChild Ctlp_FALSE = None"
| "Ctlp_FormulaReadLeftChild Ctlp_Init = None"

fun Ctlp_FormulaReadRightChild :: "Ctlp_Formula \<Rightarrow> Ctlp_Formula option" where
  "Ctlp_FormulaReadRightChild (Ctlp_EU f g) = Some g"
| "Ctlp_FormulaReadRightChild (Ctlp_AU f g) = Some g"
| "Ctlp_FormulaReadRightChild (Ctlp_OR f g) = Some g"
| "Ctlp_FormulaReadRightChild (Ctlp_AND f g) = Some g"
| "Ctlp_FormulaReadRightChild (Ctlp_THEN f g) = Some g"
| "Ctlp_FormulaReadRightChild (Ctlp_XOR f g) = Some g"
| "Ctlp_FormulaReadRightChild (Ctlp_EQ f g) = Some g"
| "Ctlp_FormulaReadRightChild (Ctlp_FwdU f g) = Some g"
| "Ctlp_FormulaReadRightChild (Ctlp_FwdG f g) = Some g"
| "Ctlp_FormulaReadRightChild (Ctlp_Cmp f g v) = Some g"
| "Ctlp_FormulaReadRightChild f = None"

section \<open>Printing\<close>

fun Ctlp_FormulaConvertToString :: "Ctlp_Formula \<Rightarrow> string res" where
  "Ctlp_FormulaConvertToString (Ctlp_ID n v) = Inr (n @ v)"
| "Ctlp_FormulaConvertToString (Ctlp_OR f g) = rbind (Ctlp_FormulaConvertToString f) (\<lambda>s1.
     rbind (Ctlp_FormulaConvertToString g) (\<lambda>s2. Inr (''('' @ s1 @ '' + '' @ s2 @ '')'')))"
| "Ctlp_FormulaConvertToString (Ctlp_AND f g) = rbind (Ctlp_FormulaConvertToString f) (\<lambda>s1.
     rbind (Ctlp_FormulaConvertToString g) (\<lambda>s2. Inr (''('' @ s1 @ '' * '' @ s2 @ '')'')))"
| "Ctlp_FormulaConvertToString (Ctlp_THEN f g) = rbind (Ctlp_FormulaConvertToString f) (\<lambda>s1.
     rbind (Ctlp_FormulaConvertToString g) (\<lambda>s2. Inr (''('' @ s1 @ '' -> '' @ s2 @ '')'')))"
| "Ctlp_FormulaConvertToString (Ctlp_XOR f g) = rbind (Ctlp_FormulaConvertToString f) (\<lambda>s1.
     rbind (Ctlp_FormulaConvertToString g) (\<lambda>s2. Inr (''('' @ s1 @ '' ^ '' @ s2 @ '')'')))"
| "Ctlp_FormulaConvertToString (Ctlp_EQ f g) = rbind (Ctlp_FormulaConvertToString f) (\<lambda>s1.
     rbind (Ctlp_FormulaConvertToString g) (\<lambda>s2. Inr (''('' @ s1 @ '' <-> '' @ s2 @ '')'')))"
| "Ctlp_FormulaConvertToString (Ctlp_NOT f) = rbind (Ctlp_FormulaConvertToString f) (\<lambda>s1. Inr (''!('' @ s1 @ '')''))"
| "Ctlp_FormulaConvertToString (Ctlp_EX f) = rbind (Ctlp_FormulaConvertToString f) (\<lambda>s1. Inr (''EX('' @ s1 @ '')''))"
| "Ctlp_FormulaConvertToString (Ctlp_EG f) = rbind (Ctlp_FormulaConvertToString f) (\<lambda>s1. Inr (''EG('' @ s1 @ '')''))"
| "Ctlp_FormulaConvertToString (Ctlp_EF f) = rbind (Ctlp_FormulaConvertToString f) (\<lambda>s1. Inr (''EF('' @ s1 @ '')''))"
| "Ctlp_FormulaConvertToString (Ctlp_EU f g) = rbind (Ctlp_FormulaConvertToString f) (\<lambda>s1.
     rbind (Ctlp_FormulaConvertToString g) (\<lambda>s2. Inr (''E('' @ s1 @ '' U '' @ s2 @ '')'')))"
| "Ctlp_FormulaConvertToString (Ctlp_AX f) = rbind (Ctlp_FormulaConvertToString f) (\<lambda>s1. Inr (''AX('' @ s1 @ '')''))"
| "Ctlp_FormulaConvertToString (Ctlp_AG f) = rbind (Ctlp_FormulaConvertToString f) (\<lambda>s1. Inr (''AG('' @ s1 @ '')''))"
| "Ctlp_FormulaConvertToString (Ctlp_AF f) = rbind (Ctlp_FormulaConvertToString f) (\<lambda>s1. Inr (''AF('' @ s1 @ '')''))"
| "Ctlp_FormulaConvertToString (Ctlp_AU f g) = rbind (Ctlp_FormulaConvertToString f) (\<lambda>s1.
     rbind (Ctlp_FormulaConvertToString g) (\<lambda>s2. Inr (''A('' @ s1 @ '' U '' @ s2 @ '')'')))"
| "Ctlp_FormulaConvertToString Ctlp_TRUE = Inr ''TRUE''"
| "Ctlp_FormulaConvertToString Ctlp_FALSE = Inr ''FALSE''"
| "Ctlp_FormulaConvertToString Ctlp_Init = Inr ''Init''"
| "Ctlp_FormulaConvertToString (Ctlp_Cmp f g v) = rbind (Ctlp_FormulaConvertToString f) (\<lambda>s1.
     rbind (Ctlp_FormulaConvertToString g) (\<lambda>s2. Inr (''['' @ s1 @ (if v = 0 then ''] = '' else ''] != '') @ s2)))"
| "Ctlp_FormulaConvertToString (Ctlp_FwdU f g) = rbind (Ctlp_FormulaConvertToString f) (\<lambda>s1.
     rbind (Ctlp_FormulaConvertToString g) (\<lambda>s2. Inr (''FwdU('' @ s1 @ '','' @ s2 @ '')'')))"
| "Ctlp_FormulaConvertToString (Ctlp_FwdG f g) = rbind (Ctlp_FormulaConvertToString f) (\<lambda>s1.
     rbind (Ctlp_FormulaConvertToString g) (\<lambda>s2. Inr (''FwdG('' @ s1 @ '','' @ s2 @ '')'')))"
| "Ctlp_FormulaConvertToString (Ctlp_EY f) = rbind (Ctlp_FormulaConvertToString f) (\<lambda>s1. Inr (''EY('' @ s1 @ '')''))"
| "Ctlp_FormulaConvertToString (Ctlp_EH f) = rbind (Ctlp_FormulaConvertToString f) (\<lambda>s1. unexpected_type)"

section \<open>Tests\<close>

fun Ctlp_FormulaTestIsQuantifierFree :: "Ctlp_Formula \<Rightarrow> bool" where
  "Ctlp_FormulaTestIsQuantifierFree (Ctlp_ID n v) = True"
| "Ctlp_FormulaTestIsQuantifierFree Ctlp_TRUE = True"
| "Ctlp_FormulaTestIsQuantifierFree Ctlp_FALSE = True"
| "Ctlp_FormulaTestIsQuantifierFree (Ctlp_OR f g) = (Ctlp_FormulaTestIsQuantifierFree f \<and> Ctlp_FormulaTestIsQuantifierFree g)"
| "Ctlp_FormulaTestIsQuantifierFree (Ctlp_AND f g) = (Ctlp_FormulaTestIsQuantifierFree f \<and> Ctlp_FormulaTestIsQuantifierFree g)"
| "Ctlp_FormulaTestIsQuantifierFree (Ctlp_NOT f) = Ctlp_FormulaTestIsQuantifierFree f"
| "Ctlp_FormulaTestIsQuantifierFree (Ctlp_THEN f g) = (Ctlp_FormulaTestIsQuantifierFree f \<and> Ctlp_FormulaTestIsQuantifierFree g)"
| "Ctlp_FormulaTestIsQuantifierFree (Ctlp_XOR f g) = (Ctlp_FormulaTestIsQuantifierFree f \<and> Ctlp_FormulaTestIsQuantifierFree g)"
| "Ctlp_FormulaTestIsQuantifierFree (Ctlp_EQ f g) = (Ctlp_FormulaTestIsQuantifierFree f \<and> Ctlp_FormulaTestIsQuantifierFree g)"
| "Ctlp_FormulaTestIsQuantifierFree f = False"

datatype Ctlp_FormulaClass = Ctlp_ECTL | Ctlp_ACTL | Ctlp_Mixed | Ctlp_QuantifierFree

definition CtlpResolveClass :: "Ctlp_FormulaClass \<Rightarrow> Ctlp_FormulaClass \<Rightarrow> Ctlp_FormulaClass" where
  "CtlpResolveClass c1 c2 =
     (if c1 = Ctlp_Mixed \<or> c2 = Ctlp_Mixed then Ctlp_Mixed
      else if c1 = Ctlp_QuantifierFree then c2
      else if c2 = Ctlp_QuantifierFree then c1
      else if c1 = c2 then c1
      else Ctlp_Mixed)"

fun CtlpNegateFormulaClass :: "Ctlp_FormulaClass \<Rightarrow> Ctlp_FormulaClass" where
  "CtlpNegateFormulaClass Ctlp_Mixed = Ctlp_Mixed"
| "CtlpNegateFormulaClass Ctlp_QuantifierFree = Ctlp_QuantifierFree"
| "CtlpNegateFormulaClass Ctlp_ECTL = Ctlp_ACTL"
| "CtlpNegateFormulaClass Ctlp_ACTL = Ctlp_ECTL"

text \<open>The classes of the children, resolved; \<open>g\<close> on the class of the left one.\<close>

definition class_of_two ::
  "(Ctlp_FormulaClass \<Rightarrow> Ctlp_FormulaClass) \<Rightarrow> Ctlp_FormulaClass res \<Rightarrow> Ctlp_FormulaClass res \<Rightarrow> Ctlp_FormulaClass res" where
  "class_of_two g l r = rbind l (\<lambda>c1. rbind r (\<lambda>c2. Inr (CtlpResolveClass (g c1) c2)))"

definition class_of_path :: "Ctlp_FormulaClass res \<Rightarrow> Ctlp_FormulaClass res \<Rightarrow> Ctlp_FormulaClass res" where
  "class_of_path l r = rbind (class_of_two id l r) (\<lambda>c. Inr (CtlpResolveClass Ctlp_ECTL c))"

definition class_of_xor :: "Ctlp_FormulaClass res \<Rightarrow> Ctlp_FormulaClass res \<Rightarrow> Ctlp_FormulaClass res" where
  "class_of_xor l r = rbind (class_of_two id l r) (\<lambda>c.
     Inr (if c = Ctlp_QuantifierFree then Ctlp_QuantifierFree else Ctlp_Mixed))"

fun Ctlp_CheckClassOfExistentialFormula :: "Ctlp_Formula \<Rightarrow> Ctlp_FormulaClass res" where
  "Ctlp_CheckClassOfExistentialFormula (Ctlp_EX f) = class_of_path (Ctlp_CheckClassOfExistentialFormula f) (Inr Ctlp_QuantifierFree)"
| "Ctlp_CheckClassOfExistentialFormula (Ctlp_EG f) = class_of_path (Ctlp_CheckClassOfExistentialFormula f) (Inr Ctlp_QuantifierFree)"
| "Ctlp_CheckClassOfExistentialFormula (Ctlp_EF f) = class_of_path (Ctlp_CheckClassOfExistentialFormula f) (Inr Ctlp_QuantifierFree)"
| "Ctlp_CheckClassOfExistentialFormula (Ctlp_EY f) = class_of_path (Ctlp_CheckClassOfExistentialFormula f) (Inr Ctlp_QuantifierFree)"
| "Ctlp_CheckClassOfExistentialFormula (Ctlp_EH f) = class_of_path (Ctlp_CheckClassOfExistentialFormula f) (Inr Ctlp_QuantifierFree)"
| "Ctlp_CheckClassOfExistentialFormula (Ctlp_EU f g) = class_of_path (Ctlp_CheckClassOfExistentialFormula f) (Ctlp_CheckClassOfExistentialFormula g)"
| "Ctlp_CheckClassOfExistentialFormula (Ctlp_FwdU f g) = class_of_path (Ctlp_CheckClassOfExistentialFormula f) (Ctlp_CheckClassOfExistentialFormula g)"
| "Ctlp_CheckClassOfExistentialFormula (Ctlp_FwdG f g) = class_of_path (Ctlp_CheckClassOfExistentialFormula f) (Ctlp_CheckClassOfExistentialFormula g)"
| "Ctlp_CheckClassOfExistentialFormula (Ctlp_AX f) = assert_false"
| "Ctlp_CheckClassOfExistentialFormula (Ctlp_AG f) = assert_false"
| "Ctlp_CheckClassOfExistentialFormula (Ctlp_AF f) = assert_false"
| "Ctlp_CheckClassOfExistentialFormula (Ctlp_AU f g) = assert_false"
| "Ctlp_CheckClassOfExistentialFormula (Ctlp_OR f g) = class_of_two id (Ctlp_CheckClassOfExistentialFormula f) (Ctlp_CheckClassOfExistentialFormula g)"
| "Ctlp_CheckClassOfExistentialFormula (Ctlp_AND f g) = class_of_two id (Ctlp_CheckClassOfExistentialFormula f) (Ctlp_CheckClassOfExistentialFormula g)"
| "Ctlp_CheckClassOfExistentialFormula (Ctlp_NOT f) = rbind (Ctlp_CheckClassOfExistentialFormula f) (\<lambda>c. Inr (CtlpNegateFormulaClass c))"
| "Ctlp_CheckClassOfExistentialFormula (Ctlp_THEN f g) =
     class_of_two CtlpNegateFormulaClass (Ctlp_CheckClassOfExistentialFormula f) (Ctlp_CheckClassOfExistentialFormula g)"
| "Ctlp_CheckClassOfExistentialFormula (Ctlp_XOR f g) = class_of_xor (Ctlp_CheckClassOfExistentialFormula f) (Ctlp_CheckClassOfExistentialFormula g)"
| "Ctlp_CheckClassOfExistentialFormula (Ctlp_EQ f g) = class_of_xor (Ctlp_CheckClassOfExistentialFormula f) (Ctlp_CheckClassOfExistentialFormula g)"
| "Ctlp_CheckClassOfExistentialFormula (Ctlp_ID n v) = Inr Ctlp_QuantifierFree"
| "Ctlp_CheckClassOfExistentialFormula Ctlp_TRUE = Inr Ctlp_QuantifierFree"
| "Ctlp_CheckClassOfExistentialFormula Ctlp_FALSE = Inr Ctlp_QuantifierFree"
| "Ctlp_CheckClassOfExistentialFormula Ctlp_Init = Inr Ctlp_QuantifierFree"
| "Ctlp_CheckClassOfExistentialFormula (Ctlp_Cmp f g v) = Inr Ctlp_Mixed"

text \<open>The loop over the array, which stops at the first \<open>Mixed\<close>.\<close>

fun class_loop :: "Ctlp_Formula list \<Rightarrow> Ctlp_FormulaClass \<Rightarrow> Ctlp_FormulaClass res" where
  "class_loop [] result = Inr result"
| "class_loop (f # fs) result = rbind (Ctlp_CheckClassOfExistentialFormula f) (\<lambda>formulaType.
     let result' = CtlpResolveClass result formulaType
     in if result' = Ctlp_Mixed then Inr result' else class_loop fs result')"

definition Ctlp_CheckClassOfExistentialFormulaArray :: "Ctlp_Formula list \<Rightarrow> Ctlp_FormulaClass res" where
  "Ctlp_CheckClassOfExistentialFormulaArray fs = class_loop fs Ctlp_QuantifierFree"

end
