(* ===== verification/Ctl_Convert.thy ===== *)
theory Ctl_Convert imports Ctl_Formula begin

text \<open>
  The rewritings of CTL formulas (\<open>CTL/src/ctlp/ctlpUtil.c\<close>) into formulas with existential operators, into
  few operators, and of negated or unfolded formulas.
\<close>

section \<open>Existential form\<close>

text \<open>The formulas put in the place of \<open>AX f\<close>, \<open>AG f\<close>, \<open>AF f\<close>, \<open>A[f U g]\<close>, \<open>EF f\<close>.\<close>

definition existential_EF :: "Ctlp_Formula \<Rightarrow> Ctlp_Formula" where
  "existential_EF f = Ctlp_EU Ctlp_TRUE f"

definition existential_AX :: "Ctlp_Formula \<Rightarrow> Ctlp_Formula" where
  "existential_AX f = Ctlp_NOT (Ctlp_EX (Ctlp_NOT f))"

definition existential_AG :: "Ctlp_Formula \<Rightarrow> Ctlp_Formula" where
  "existential_AG f = Ctlp_NOT (Ctlp_EU Ctlp_TRUE (Ctlp_NOT f))"

definition existential_AF :: "Ctlp_Formula \<Rightarrow> Ctlp_Formula" where
  "existential_AF f = Ctlp_NOT (Ctlp_EG (Ctlp_NOT f))"

definition existential_AU :: "Ctlp_Formula \<Rightarrow> Ctlp_Formula \<Rightarrow> Ctlp_Formula" where
  "existential_AU f g =
     Ctlp_NOT (Ctlp_OR (Ctlp_EU (Ctlp_NOT g) (Ctlp_AND (Ctlp_NOT f) (Ctlp_NOT g))) (Ctlp_EG (Ctlp_NOT g)))"

text \<open>The converted children in a new node.\<close>

definition node1 :: "('a \<Rightarrow> 'b) \<Rightarrow> 'a res \<Rightarrow> 'b res" where
  "node1 c l = rbind l (\<lambda>f. Inr (c f))"

definition node2 :: "('a \<Rightarrow> 'b \<Rightarrow> 'c) \<Rightarrow> 'a res \<Rightarrow> 'b res \<Rightarrow> 'c res" where
  "node2 c l r = rbind l (\<lambda>f. rbind r (\<lambda>g. Inr (c f g)))"

lemma node1_Inr [simp]: "node1 c l = Inr y \<longleftrightarrow> (\<exists>f. l = Inr f \<and> y = c f)"
  by (cases l) (auto simp: node1_def)

lemma node2_Inr [simp]: "node2 c l r = Inr y \<longleftrightarrow> (\<exists>f g. l = Inr f \<and> r = Inr g \<and> y = c f g)"
  by (cases l; cases r) (auto simp: node2_def)

fun Ctlp_FormulaConvertToExistentialForm :: "Ctlp_Formula \<Rightarrow> Ctlp_Formula res" where
  "Ctlp_FormulaConvertToExistentialForm (Ctlp_EF f) = node1 existential_EF (Ctlp_FormulaConvertToExistentialForm f)"
| "Ctlp_FormulaConvertToExistentialForm (Ctlp_AX f) = node1 existential_AX (Ctlp_FormulaConvertToExistentialForm f)"
| "Ctlp_FormulaConvertToExistentialForm (Ctlp_AG f) = node1 existential_AG (Ctlp_FormulaConvertToExistentialForm f)"
| "Ctlp_FormulaConvertToExistentialForm (Ctlp_AF f) = node1 existential_AF (Ctlp_FormulaConvertToExistentialForm f)"
| "Ctlp_FormulaConvertToExistentialForm (Ctlp_AU f g) =
     node2 (\<lambda>g' f'. existential_AU f' g') (Ctlp_FormulaConvertToExistentialForm g) (Ctlp_FormulaConvertToExistentialForm f)"
| "Ctlp_FormulaConvertToExistentialForm (Ctlp_ID n v) = Inr (Ctlp_ID n v)"
| "Ctlp_FormulaConvertToExistentialForm (Ctlp_THEN f g) =
     node2 Ctlp_THEN (Ctlp_FormulaConvertToExistentialForm f) (Ctlp_FormulaConvertToExistentialForm g)"
| "Ctlp_FormulaConvertToExistentialForm (Ctlp_EX f) = node1 Ctlp_EX (Ctlp_FormulaConvertToExistentialForm f)"
| "Ctlp_FormulaConvertToExistentialForm (Ctlp_EG f) = node1 Ctlp_EG (Ctlp_FormulaConvertToExistentialForm f)"
| "Ctlp_FormulaConvertToExistentialForm (Ctlp_EU f g) =
     node2 Ctlp_EU (Ctlp_FormulaConvertToExistentialForm f) (Ctlp_FormulaConvertToExistentialForm g)"
| "Ctlp_FormulaConvertToExistentialForm (Ctlp_OR f g) =
     node2 Ctlp_OR (Ctlp_FormulaConvertToExistentialForm f) (Ctlp_FormulaConvertToExistentialForm g)"
| "Ctlp_FormulaConvertToExistentialForm (Ctlp_AND f g) =
     node2 Ctlp_AND (Ctlp_FormulaConvertToExistentialForm f) (Ctlp_FormulaConvertToExistentialForm g)"
| "Ctlp_FormulaConvertToExistentialForm (Ctlp_NOT f) = node1 Ctlp_NOT (Ctlp_FormulaConvertToExistentialForm f)"
| "Ctlp_FormulaConvertToExistentialForm (Ctlp_XOR f g) =
     node2 Ctlp_XOR (Ctlp_FormulaConvertToExistentialForm f) (Ctlp_FormulaConvertToExistentialForm g)"
| "Ctlp_FormulaConvertToExistentialForm (Ctlp_EQ f g) =
     node2 Ctlp_EQ (Ctlp_FormulaConvertToExistentialForm f) (Ctlp_FormulaConvertToExistentialForm g)"
| "Ctlp_FormulaConvertToExistentialForm Ctlp_TRUE = Inr Ctlp_TRUE"
| "Ctlp_FormulaConvertToExistentialForm Ctlp_FALSE = Inr Ctlp_FALSE"
| "Ctlp_FormulaConvertToExistentialForm f = unexpected_type"

text \<open>The same rewriting on a DAG; the formula a node was converted to is found again in \<open>forward\<close>.\<close>

type_synonym dag_table = "Ctlp_Formula \<Rightarrow> Ctlp_Formula option"

definition dag1 ::
  "(Ctlp_Formula \<Rightarrow> Ctlp_Formula) \<Rightarrow> (dag_table \<Rightarrow> (Ctlp_Formula \<times> dag_table) res) \<Rightarrow> dag_table \<Rightarrow>
     (Ctlp_Formula \<times> dag_table) res" where
  "dag1 c l t = rbind (l t) (\<lambda>(f, t1). Inr (c f, t1))"

definition dag2 ::
  "(Ctlp_Formula \<Rightarrow> Ctlp_Formula \<Rightarrow> Ctlp_Formula) \<Rightarrow> (dag_table \<Rightarrow> (Ctlp_Formula \<times> dag_table) res) \<Rightarrow>
     (dag_table \<Rightarrow> (Ctlp_Formula \<times> dag_table) res) \<Rightarrow> dag_table \<Rightarrow> (Ctlp_Formula \<times> dag_table) res" where
  "dag2 c l r t = rbind (l t) (\<lambda>(f, t1). rbind (r t1) (\<lambda>(g, t2). Inr (c f g, t2)))"

text \<open>A node found in \<open>forward\<close>, or converted and remembered there.\<close>

definition dag_node ::
  "Ctlp_Formula \<Rightarrow> (dag_table \<Rightarrow> (Ctlp_Formula \<times> dag_table) res) \<Rightarrow> dag_table \<Rightarrow> (Ctlp_Formula \<times> dag_table) res" where
  "dag_node f convert t =
     (case t f of
        Some temp \<Rightarrow> Inr (temp, t)
      | None \<Rightarrow> rbind (convert t) (\<lambda>(new, t1). Inr (new, t1(f \<mapsto> new))))"

fun FormulaConvertToExistentialDAG :: "Ctlp_Formula \<Rightarrow> dag_table \<Rightarrow> (Ctlp_Formula \<times> dag_table) res" where
  "FormulaConvertToExistentialDAG (Ctlp_EF f) =
     dag_node (Ctlp_EF f) (dag1 existential_EF (FormulaConvertToExistentialDAG f))"
| "FormulaConvertToExistentialDAG (Ctlp_AX f) =
     dag_node (Ctlp_AX f) (dag1 existential_AX (FormulaConvertToExistentialDAG f))"
| "FormulaConvertToExistentialDAG (Ctlp_AG f) =
     dag_node (Ctlp_AG f) (dag1 existential_AG (FormulaConvertToExistentialDAG f))"
| "FormulaConvertToExistentialDAG (Ctlp_AF f) =
     dag_node (Ctlp_AF f) (dag1 existential_AF (FormulaConvertToExistentialDAG f))"
| "FormulaConvertToExistentialDAG (Ctlp_AU f g) =
     dag_node (Ctlp_AU f g)
       (dag2 (\<lambda>g' f'. existential_AU f' g') (FormulaConvertToExistentialDAG g) (FormulaConvertToExistentialDAG f))"
| "FormulaConvertToExistentialDAG (Ctlp_ID n v) = dag_node (Ctlp_ID n v) (\<lambda>t. Inr (Ctlp_ID n v, t))"
| "FormulaConvertToExistentialDAG (Ctlp_THEN f g) =
     dag_node (Ctlp_THEN f g) (dag2 Ctlp_THEN (FormulaConvertToExistentialDAG f) (FormulaConvertToExistentialDAG g))"
| "FormulaConvertToExistentialDAG (Ctlp_EX f) =
     dag_node (Ctlp_EX f) (dag1 Ctlp_EX (FormulaConvertToExistentialDAG f))"
| "FormulaConvertToExistentialDAG (Ctlp_EG f) =
     dag_node (Ctlp_EG f) (dag1 Ctlp_EG (FormulaConvertToExistentialDAG f))"
| "FormulaConvertToExistentialDAG (Ctlp_EU f g) =
     dag_node (Ctlp_EU f g) (dag2 Ctlp_EU (FormulaConvertToExistentialDAG f) (FormulaConvertToExistentialDAG g))"
| "FormulaConvertToExistentialDAG (Ctlp_OR f g) =
     dag_node (Ctlp_OR f g) (dag2 Ctlp_OR (FormulaConvertToExistentialDAG f) (FormulaConvertToExistentialDAG g))"
| "FormulaConvertToExistentialDAG (Ctlp_AND f g) =
     dag_node (Ctlp_AND f g) (dag2 Ctlp_AND (FormulaConvertToExistentialDAG f) (FormulaConvertToExistentialDAG g))"
| "FormulaConvertToExistentialDAG (Ctlp_NOT f) =
     dag_node (Ctlp_NOT f) (dag1 Ctlp_NOT (FormulaConvertToExistentialDAG f))"
| "FormulaConvertToExistentialDAG (Ctlp_XOR f g) =
     dag_node (Ctlp_XOR f g) (dag2 Ctlp_XOR (FormulaConvertToExistentialDAG f) (FormulaConvertToExistentialDAG g))"
| "FormulaConvertToExistentialDAG (Ctlp_EQ f g) =
     dag_node (Ctlp_EQ f g) (dag2 Ctlp_EQ (FormulaConvertToExistentialDAG f) (FormulaConvertToExistentialDAG g))"
| "FormulaConvertToExistentialDAG Ctlp_TRUE = dag_node Ctlp_TRUE (\<lambda>t. Inr (Ctlp_TRUE, t))"
| "FormulaConvertToExistentialDAG Ctlp_FALSE = dag_node Ctlp_FALSE (\<lambda>t. Inr (Ctlp_FALSE, t))"
| "FormulaConvertToExistentialDAG f = dag_node f (\<lambda>t. unexpected_type)"

fun dag_array :: "Ctlp_Formula list \<Rightarrow> dag_table \<Rightarrow> Ctlp_Formula list res" where
  "dag_array [] t = Inr []"
| "dag_array (f # fs) t =
     rbind (FormulaConvertToExistentialDAG f t) (\<lambda>(f', t'). rbind (dag_array fs t') (\<lambda>fs'. Inr (f' # fs')))"

definition Ctlp_FormulaDAGConvertToExistentialFormDAG :: "Ctlp_Formula list \<Rightarrow> Ctlp_Formula list res" where
  "Ctlp_FormulaDAGConvertToExistentialFormDAG fs = dag_array fs (\<lambda>_. None)"

text \<open>A converted node is what the conversion of the tree gives.\<close>

definition dag_ok :: "dag_table \<Rightarrow> bool" where
  "dag_ok t \<longleftrightarrow> (\<forall>f f'. t f = Some f' \<longrightarrow> Ctlp_FormulaConvertToExistentialForm f = Inr f')"

definition dag_agrees :: "Ctlp_Formula \<Rightarrow> (dag_table \<Rightarrow> (Ctlp_Formula \<times> dag_table) res) \<Rightarrow> bool" where
  "dag_agrees f convert \<longleftrightarrow> (\<forall>t. dag_ok t \<longrightarrow>
     (case Ctlp_FormulaConvertToExistentialForm f of
        Inl e \<Rightarrow> convert t = Inl e
      | Inr f' \<Rightarrow> \<exists>t'. convert t = Inr (f', t') \<and> dag_ok t'))"

lemma dag_agrees_node:
  assumes "\<And>t. dag_ok t \<Longrightarrow> case Ctlp_FormulaConvertToExistentialForm f of
      Inl e \<Rightarrow> convert t = Inl e | Inr f' \<Rightarrow> \<exists>t'. convert t = Inr (f', t') \<and> dag_ok t'"
  shows "dag_agrees f (dag_node f convert)"
  unfolding dag_agrees_def
proof (intro allI impI)
  fix t assume t: "dag_ok t"
  show "case Ctlp_FormulaConvertToExistentialForm f of
      Inl e \<Rightarrow> dag_node f convert t = Inl e | Inr f' \<Rightarrow> \<exists>t'. dag_node f convert t = Inr (f', t') \<and> dag_ok t'"
  proof (cases "t f")
    case None
    then show ?thesis using assms [OF t] by (auto simp: dag_node_def dag_ok_def split: sum.splits)
  next
    case (Some f')
    moreover from this t have "Ctlp_FormulaConvertToExistentialForm f = Inr f'" by (simp add: dag_ok_def)
    ultimately show ?thesis using t by (simp add: dag_node_def)
  qed
qed

lemma dag_agrees_Inl: "dag_agrees f c \<Longrightarrow> dag_ok t \<Longrightarrow> Ctlp_FormulaConvertToExistentialForm f = Inl e \<Longrightarrow> c t = Inl e"
  by (auto simp: dag_agrees_def)

lemma dag_agrees_Inr:
  "dag_agrees f c \<Longrightarrow> dag_ok t \<Longrightarrow> Ctlp_FormulaConvertToExistentialForm f = Inr f' \<Longrightarrow> \<exists>t'. c t = Inr (f', t') \<and> dag_ok t'"
  by (fastforce simp: dag_agrees_def)

lemma dag_agrees1:
  assumes f: "dag_agrees f cf"
    and h: "Ctlp_FormulaConvertToExistentialForm h = node1 c (Ctlp_FormulaConvertToExistentialForm f)"
  shows "dag_agrees h (dag_node h (dag1 c cf))"
proof (intro dag_agrees_node)
  fix t assume t: "dag_ok t"
  show "case Ctlp_FormulaConvertToExistentialForm h of
      Inl e \<Rightarrow> dag1 c cf t = Inl e | Inr f' \<Rightarrow> \<exists>t'. dag1 c cf t = Inr (f', t') \<and> dag_ok t'"
  proof (cases "Ctlp_FormulaConvertToExistentialForm f")
    case (Inl e)
    with dag_agrees_Inl [OF f t this] show ?thesis by (simp add: h dag1_def node1_def)
  next
    case (Inr f')
    with dag_agrees_Inr [OF f t this] show ?thesis by (auto simp: h dag1_def node1_def)
  qed
qed

lemma dag_agrees2:
  assumes f: "dag_agrees f cf" and g: "dag_agrees g cg"
    and h: "Ctlp_FormulaConvertToExistentialForm h
      = node2 c (Ctlp_FormulaConvertToExistentialForm f) (Ctlp_FormulaConvertToExistentialForm g)"
  shows "dag_agrees h (dag_node h (dag2 c cf cg))"
proof (intro dag_agrees_node)
  fix t assume t: "dag_ok t"
  show "case Ctlp_FormulaConvertToExistentialForm h of
      Inl e \<Rightarrow> dag2 c cf cg t = Inl e | Inr f' \<Rightarrow> \<exists>t'. dag2 c cf cg t = Inr (f', t') \<and> dag_ok t'"
  proof (cases "Ctlp_FormulaConvertToExistentialForm f")
    case (Inl e)
    with dag_agrees_Inl [OF f t this] show ?thesis by (simp add: h dag2_def node2_def)
  next
    case (Inr f')
    obtain t1 where t1: "cf t = Inr (f', t1)" "dag_ok t1" using dag_agrees_Inr [OF f t Inr] by blast
    show ?thesis
    proof (cases "Ctlp_FormulaConvertToExistentialForm g")
      case (Inl e)
      with dag_agrees_Inl [OF g t1(2) this] show ?thesis by (simp add: h dag2_def node2_def Inr t1(1))
    next
      case r: (Inr g')
      with dag_agrees_Inr [OF g t1(2) r] show ?thesis by (auto simp: h dag2_def node2_def Inr t1(1))
    qed
  qed
qed

lemma dag_convert: "dag_agrees f (FormulaConvertToExistentialDAG f)"
  by (induction f)
     (auto intro!: dag_agrees1 dag_agrees2 simp del: node1_Inr node2_Inr
      intro: dag_agrees_node simp: unexpected_type_def)

lemma dag_array_convert:
  "dag_ok t \<Longrightarrow> dag_array fs t = rmap Ctlp_FormulaConvertToExistentialForm fs"
proof (induction fs arbitrary: t)
  case (Cons f fs)
  show ?case
  proof (cases "Ctlp_FormulaConvertToExistentialForm f")
    case (Inl e)
    then show ?thesis using dag_convert [of f] Cons.prems by (simp add: dag_agrees_def)
  next
    case (Inr f')
    then obtain t1 where "FormulaConvertToExistentialDAG f t = Inr (f', t1)" "dag_ok t1"
      using dag_convert [of f] Cons.prems by (fastforce simp: dag_agrees_def)
    then show ?thesis using Cons.IH Inr by simp
  qed
qed simp

section \<open>Few operators\<close>

text \<open>Only \<open>NOT\<close>, \<open>AND\<close>, \<open>EX\<close>, \<open>EG\<close>, \<open>EU\<close> and leaves.\<close>

definition simple_AU :: "Ctlp_Formula \<Rightarrow> Ctlp_Formula \<Rightarrow> Ctlp_Formula" where
  "simple_AU f g =
     Ctlp_AND (Ctlp_NOT (Ctlp_EG (Ctlp_NOT g)))
       (Ctlp_NOT (Ctlp_EU (Ctlp_NOT g) (Ctlp_AND (Ctlp_NOT f) (Ctlp_NOT g))))"

definition simple_THEN :: "Ctlp_Formula \<Rightarrow> Ctlp_Formula \<Rightarrow> Ctlp_Formula" where
  "simple_THEN f g = Ctlp_NOT (Ctlp_AND f (Ctlp_NOT g))"

definition simple_OR :: "Ctlp_Formula \<Rightarrow> Ctlp_Formula \<Rightarrow> Ctlp_Formula" where
  "simple_OR f g = Ctlp_NOT (Ctlp_AND (Ctlp_NOT f) (Ctlp_NOT g))"

definition simple_XOR :: "Ctlp_Formula \<Rightarrow> Ctlp_Formula \<Rightarrow> Ctlp_Formula" where
  "simple_XOR f g = Ctlp_AND (Ctlp_NOT (Ctlp_AND f g)) (Ctlp_NOT (Ctlp_AND (Ctlp_NOT f) (Ctlp_NOT g)))"

definition simple_EQ :: "Ctlp_Formula \<Rightarrow> Ctlp_Formula \<Rightarrow> Ctlp_Formula" where
  "simple_EQ f g = Ctlp_AND (Ctlp_NOT (Ctlp_AND f (Ctlp_NOT g))) (Ctlp_NOT (Ctlp_AND (Ctlp_NOT f) g))"

fun Ctlp_FormulaConvertToSimpleExistentialForm :: "Ctlp_Formula \<Rightarrow> Ctlp_Formula res" where
  "Ctlp_FormulaConvertToSimpleExistentialForm (Ctlp_EF f) =
     node1 existential_EF (Ctlp_FormulaConvertToSimpleExistentialForm f)"
| "Ctlp_FormulaConvertToSimpleExistentialForm (Ctlp_AX f) =
     node1 existential_AX (Ctlp_FormulaConvertToSimpleExistentialForm f)"
| "Ctlp_FormulaConvertToSimpleExistentialForm (Ctlp_AG f) =
     node1 existential_AG (Ctlp_FormulaConvertToSimpleExistentialForm f)"
| "Ctlp_FormulaConvertToSimpleExistentialForm (Ctlp_AF f) =
     node1 existential_AF (Ctlp_FormulaConvertToSimpleExistentialForm f)"
| "Ctlp_FormulaConvertToSimpleExistentialForm (Ctlp_AU f g) =
     node2 (\<lambda>g' f'. simple_AU f' g') (Ctlp_FormulaConvertToSimpleExistentialForm g)
       (Ctlp_FormulaConvertToSimpleExistentialForm f)"
| "Ctlp_FormulaConvertToSimpleExistentialForm (Ctlp_ID n v) = Inr (Ctlp_ID n v)"
| "Ctlp_FormulaConvertToSimpleExistentialForm (Ctlp_THEN f g) =
     node2 simple_THEN (Ctlp_FormulaConvertToSimpleExistentialForm f) (Ctlp_FormulaConvertToSimpleExistentialForm g)"
| "Ctlp_FormulaConvertToSimpleExistentialForm (Ctlp_EX f) = node1 Ctlp_EX (Ctlp_FormulaConvertToSimpleExistentialForm f)"
| "Ctlp_FormulaConvertToSimpleExistentialForm (Ctlp_EG f) = node1 Ctlp_EG (Ctlp_FormulaConvertToSimpleExistentialForm f)"
| "Ctlp_FormulaConvertToSimpleExistentialForm (Ctlp_EU f g) =
     node2 Ctlp_EU (Ctlp_FormulaConvertToSimpleExistentialForm f) (Ctlp_FormulaConvertToSimpleExistentialForm g)"
| "Ctlp_FormulaConvertToSimpleExistentialForm (Ctlp_AND f g) =
     node2 Ctlp_AND (Ctlp_FormulaConvertToSimpleExistentialForm f) (Ctlp_FormulaConvertToSimpleExistentialForm g)"
| "Ctlp_FormulaConvertToSimpleExistentialForm (Ctlp_NOT f) =
     node1 Ctlp_NOT (Ctlp_FormulaConvertToSimpleExistentialForm f)"
| "Ctlp_FormulaConvertToSimpleExistentialForm Ctlp_TRUE = Inr Ctlp_TRUE"
| "Ctlp_FormulaConvertToSimpleExistentialForm Ctlp_FALSE = Inr Ctlp_FALSE"
| "Ctlp_FormulaConvertToSimpleExistentialForm (Ctlp_OR f g) =
     node2 simple_OR (Ctlp_FormulaConvertToSimpleExistentialForm f) (Ctlp_FormulaConvertToSimpleExistentialForm g)"
| "Ctlp_FormulaConvertToSimpleExistentialForm (Ctlp_XOR f g) =
     node2 simple_XOR (Ctlp_FormulaConvertToSimpleExistentialForm f) (Ctlp_FormulaConvertToSimpleExistentialForm g)"
| "Ctlp_FormulaConvertToSimpleExistentialForm (Ctlp_EQ f g) =
     node2 simple_EQ (Ctlp_FormulaConvertToSimpleExistentialForm f) (Ctlp_FormulaConvertToSimpleExistentialForm g)"
| "Ctlp_FormulaConvertToSimpleExistentialForm f = unexpected_type"

section \<open>Unfolding and negation\<close>

definition Ctlp_FormulaConverttoComplement :: "Ctlp_Formula \<Rightarrow> Ctlp_Formula" where
  "Ctlp_FormulaConverttoComplement f = Ctlp_NOT f"

definition Ctlp_FormulaConvertAFtoAU :: "Ctlp_Formula \<Rightarrow> Ctlp_Formula res" where
  "Ctlp_FormulaConvertAFtoAU f = (case f of Ctlp_AF g \<Rightarrow> Inr (Ctlp_AU Ctlp_TRUE g) | _ \<Rightarrow> assert_false)"

definition Ctlp_FormulaConvertEFtoOR :: "Ctlp_Formula \<Rightarrow> Ctlp_Formula res" where
  "Ctlp_FormulaConvertEFtoOR f = (case f of Ctlp_EF g \<Rightarrow> Inr (Ctlp_OR g (Ctlp_EX f)) | _ \<Rightarrow> assert_false)"

definition Ctlp_FormulaConvertEUtoOR :: "Ctlp_Formula \<Rightarrow> Ctlp_Formula res" where
  "Ctlp_FormulaConvertEUtoOR f =
     (case f of Ctlp_EU p q \<Rightarrow> Inr (Ctlp_OR q (Ctlp_AND p (Ctlp_EX f))) | _ \<Rightarrow> assert_false)"

definition Ctlp_FormulaConvertXORtoOR :: "Ctlp_Formula \<Rightarrow> Ctlp_Formula res" where
  "Ctlp_FormulaConvertXORtoOR f =
     (case f of
        Ctlp_XOR p q \<Rightarrow>
          Inr (Ctlp_OR (Ctlp_AND (Ctlp_FormulaConverttoComplement p) q)
                 (Ctlp_AND p (Ctlp_FormulaConverttoComplement q)))
      | _ \<Rightarrow> assert_false)"

definition Ctlp_FormulaConvertEQtoOR :: "Ctlp_Formula \<Rightarrow> Ctlp_Formula res" where
  "Ctlp_FormulaConvertEQtoOR f =
     (case f of
        Ctlp_EQ p q \<Rightarrow>
          Inr (Ctlp_OR (Ctlp_AND p q)
                 (Ctlp_AND (Ctlp_FormulaConverttoComplement p) (Ctlp_FormulaConverttoComplement q)))
      | _ \<Rightarrow> assert_false)"

fun Ctlp_FormulaPushNegation :: "Ctlp_Formula \<Rightarrow> Ctlp_Formula res" where
  "Ctlp_FormulaPushNegation (Ctlp_OR f g) =
     Inr (Ctlp_AND (Ctlp_FormulaConverttoComplement f) (Ctlp_FormulaConverttoComplement g))"
| "Ctlp_FormulaPushNegation (Ctlp_AND f g) =
     Inr (Ctlp_OR (Ctlp_FormulaConverttoComplement f) (Ctlp_FormulaConverttoComplement g))"
| "Ctlp_FormulaPushNegation (Ctlp_THEN f g) = Inr (Ctlp_AND f (Ctlp_FormulaConverttoComplement g))"
| "Ctlp_FormulaPushNegation (Ctlp_XOR f g) = Inr (Ctlp_EQ f g)"
| "Ctlp_FormulaPushNegation (Ctlp_EQ f g) = Inr (Ctlp_XOR f g)"
| "Ctlp_FormulaPushNegation (Ctlp_NOT f) = Inr f"
| "Ctlp_FormulaPushNegation (Ctlp_EX f) = Inr (Ctlp_AX (Ctlp_FormulaConverttoComplement f))"
| "Ctlp_FormulaPushNegation (Ctlp_EG f) = Inr (Ctlp_AF (Ctlp_FormulaConverttoComplement f))"
| "Ctlp_FormulaPushNegation (Ctlp_EF f) = Inr (Ctlp_AG (Ctlp_FormulaConverttoComplement f))"
| "Ctlp_FormulaPushNegation (Ctlp_EU f g) =
     Inr (Ctlp_AU (Ctlp_FormulaConverttoComplement g)
            (Ctlp_OR (Ctlp_NOT (Ctlp_OR f g)) (Ctlp_AG (Ctlp_FormulaConverttoComplement g))))"
| "Ctlp_FormulaPushNegation (Ctlp_AX f) = Inr (Ctlp_EX (Ctlp_FormulaConverttoComplement f))"
| "Ctlp_FormulaPushNegation (Ctlp_AG f) = Inr (Ctlp_EF (Ctlp_FormulaConverttoComplement f))"
| "Ctlp_FormulaPushNegation (Ctlp_AF f) = Inr (Ctlp_EG (Ctlp_FormulaConverttoComplement f))"
| "Ctlp_FormulaPushNegation (Ctlp_AU f g) =
     Inr (Ctlp_OR (Ctlp_EU (Ctlp_FormulaConverttoComplement g) (Ctlp_NOT (Ctlp_OR f g)))
            (Ctlp_EG (Ctlp_FormulaConverttoComplement g)))"
| "Ctlp_FormulaPushNegation Ctlp_TRUE = Inr Ctlp_FALSE"
| "Ctlp_FormulaPushNegation Ctlp_FALSE = Inr Ctlp_TRUE"
| "Ctlp_FormulaPushNegation Ctlp_Init = Inr Ctlp_Init"
| "Ctlp_FormulaPushNegation (Ctlp_Cmp f g v) = Inr (Ctlp_Cmp f g v)"
| "Ctlp_FormulaPushNegation (Ctlp_FwdU f g) = Inr (Ctlp_FwdU f g)"
| "Ctlp_FormulaPushNegation (Ctlp_FwdG f g) = Inr (Ctlp_FwdG f g)"
| "Ctlp_FormulaPushNegation (Ctlp_EY f) = Inr (Ctlp_EY f)"
| "Ctlp_FormulaPushNegation f = unexpected_type"

section \<open>Monotonic operators\<close>

text \<open>\<open>XOR\<close> and \<open>EQ\<close> are replaced, the children first. On a tree as it was read the assertion can only fail
  on a \<open>compareValue\<close>.\<close>

definition monotonic_EQ :: "Ctlp_Formula \<Rightarrow> Ctlp_Formula \<Rightarrow> Ctlp_Formula" where
  "monotonic_EQ f g = Ctlp_AND (Ctlp_THEN f g) (Ctlp_THEN g f)"

definition monotonic_XOR :: "Ctlp_Formula \<Rightarrow> Ctlp_Formula \<Rightarrow> Ctlp_Formula" where
  "monotonic_XOR f g = Ctlp_OR (Ctlp_AND f (Ctlp_NOT g)) (Ctlp_AND (Ctlp_NOT f) g)"

fun Ctlp_FormulaMakeMonotonic :: "Ctlp_Formula \<Rightarrow> Ctlp_Formula res" where
  "Ctlp_FormulaMakeMonotonic (Ctlp_ID n v) = Inr (Ctlp_ID n v)"
| "Ctlp_FormulaMakeMonotonic Ctlp_TRUE = Inr Ctlp_TRUE"
| "Ctlp_FormulaMakeMonotonic Ctlp_FALSE = Inr Ctlp_FALSE"
| "Ctlp_FormulaMakeMonotonic (Ctlp_EX f) = node1 Ctlp_EX (Ctlp_FormulaMakeMonotonic f)"
| "Ctlp_FormulaMakeMonotonic (Ctlp_EG f) = node1 Ctlp_EG (Ctlp_FormulaMakeMonotonic f)"
| "Ctlp_FormulaMakeMonotonic (Ctlp_EF f) = node1 Ctlp_EF (Ctlp_FormulaMakeMonotonic f)"
| "Ctlp_FormulaMakeMonotonic (Ctlp_EU f g) = node2 Ctlp_EU (Ctlp_FormulaMakeMonotonic f) (Ctlp_FormulaMakeMonotonic g)"
| "Ctlp_FormulaMakeMonotonic (Ctlp_AX f) = node1 Ctlp_AX (Ctlp_FormulaMakeMonotonic f)"
| "Ctlp_FormulaMakeMonotonic (Ctlp_AG f) = node1 Ctlp_AG (Ctlp_FormulaMakeMonotonic f)"
| "Ctlp_FormulaMakeMonotonic (Ctlp_AF f) = node1 Ctlp_AF (Ctlp_FormulaMakeMonotonic f)"
| "Ctlp_FormulaMakeMonotonic (Ctlp_AU f g) = node2 Ctlp_AU (Ctlp_FormulaMakeMonotonic f) (Ctlp_FormulaMakeMonotonic g)"
| "Ctlp_FormulaMakeMonotonic (Ctlp_OR f g) = node2 Ctlp_OR (Ctlp_FormulaMakeMonotonic f) (Ctlp_FormulaMakeMonotonic g)"
| "Ctlp_FormulaMakeMonotonic (Ctlp_AND f g) = node2 Ctlp_AND (Ctlp_FormulaMakeMonotonic f) (Ctlp_FormulaMakeMonotonic g)"
| "Ctlp_FormulaMakeMonotonic (Ctlp_NOT f) = node1 Ctlp_NOT (Ctlp_FormulaMakeMonotonic f)"
| "Ctlp_FormulaMakeMonotonic (Ctlp_THEN f g) = node2 Ctlp_THEN (Ctlp_FormulaMakeMonotonic f) (Ctlp_FormulaMakeMonotonic g)"
| "Ctlp_FormulaMakeMonotonic (Ctlp_EY f) = node1 Ctlp_EY (Ctlp_FormulaMakeMonotonic f)"
| "Ctlp_FormulaMakeMonotonic (Ctlp_EH f) = node1 Ctlp_EH (Ctlp_FormulaMakeMonotonic f)"
| "Ctlp_FormulaMakeMonotonic (Ctlp_EQ f g) = node2 monotonic_EQ (Ctlp_FormulaMakeMonotonic f) (Ctlp_FormulaMakeMonotonic g)"
| "Ctlp_FormulaMakeMonotonic (Ctlp_XOR f g) = node2 monotonic_XOR (Ctlp_FormulaMakeMonotonic f) (Ctlp_FormulaMakeMonotonic g)"
| "Ctlp_FormulaMakeMonotonic (Ctlp_Cmp f g v) =
     (if v \<noteq> 0 then assert_false
      else rbind (Ctlp_FormulaMakeMonotonic f) (\<lambda>_. rbind (Ctlp_FormulaMakeMonotonic g) (\<lambda>_. unexpected_type)))"
| "Ctlp_FormulaMakeMonotonic (Ctlp_FwdU f g) =
     rbind (Ctlp_FormulaMakeMonotonic f) (\<lambda>_. rbind (Ctlp_FormulaMakeMonotonic g) (\<lambda>_. unexpected_type))"
| "Ctlp_FormulaMakeMonotonic (Ctlp_FwdG f g) =
     rbind (Ctlp_FormulaMakeMonotonic f) (\<lambda>_. rbind (Ctlp_FormulaMakeMonotonic g) (\<lambda>_. unexpected_type))"
| "Ctlp_FormulaMakeMonotonic Ctlp_Init = unexpected_type"

definition Ctlp_FormulaArrayMakeMonotonic :: "Ctlp_Formula list \<Rightarrow> Ctlp_Formula list res" where
  "Ctlp_FormulaArrayMakeMonotonic fs = rmap Ctlp_FormulaMakeMonotonic fs"

section \<open>Construction\<close>

text \<open>\<open>a == b\<close> on bits: one of \<open>a = 1\<close> and \<open>b = 0\<close> holds, and not both.\<close>

definition Ctlp_FormulaCreateEquiv :: "string \<Rightarrow> string \<Rightarrow> Ctlp_Formula" where
  "Ctlp_FormulaCreateEquiv left right = Ctlp_XOR (Ctlp_ID left ''=1'') (Ctlp_ID right ''=0'')"

text \<open>\<open>formula * Init != FALSE\<close>.\<close>

definition Ctlp_ConvertToCmpFormula :: "Ctlp_Formula \<Rightarrow> Ctlp_Formula" where
  "Ctlp_ConvertToCmpFormula formula = Ctlp_Cmp (Ctlp_AND Ctlp_Init formula) Ctlp_FALSE 1"

end
