(* ===== verification/Ctl_Semantics.thy ===== *)
theory Ctl_Semantics imports Ctl_Convert begin

text \<open>
  The reference semantics of CTL formulas on a transition system, and what the rewritings keep of it. A
  run stays in a state that has no successor, so that runs are infinite.
\<close>

section \<open>Runs\<close>

text \<open>The states, the initial ones, the steps, the states where an atomic proposition holds, and
  \<open>State::one\<close>, the set that stands for a true comparison.\<close>

record 's kripke =
  k_states :: "'s set"
  k_init :: "'s set"
  k_step :: "'s \<Rightarrow> 's \<Rightarrow> bool"
  k_label :: "string \<Rightarrow> 's \<Rightarrow> bool"
  k_one :: "'s set"

definition dead :: "'s kripke \<Rightarrow> 's \<Rightarrow> bool" where
  "dead K s \<longleftrightarrow> (\<forall>t. \<not> k_step K s t)"

definition run_step :: "'s kripke \<Rightarrow> 's \<Rightarrow> 's \<Rightarrow> bool" where
  "run_step K s t \<longleftrightarrow> k_step K s t \<or> dead K s \<and> t = s"

definition run :: "'s kripke \<Rightarrow> 's \<Rightarrow> (nat \<Rightarrow> 's) \<Rightarrow> bool" where
  "run K s p \<longleftrightarrow> p 0 = s \<and> (\<forall>i. run_step K (p i) (p (Suc i)))"

text \<open>What holds of a run: \<open>until\<close> and \<open>always\<close>.\<close>

definition until :: "'s set \<Rightarrow> 's set \<Rightarrow> (nat \<Rightarrow> 's) \<Rightarrow> bool" where
  "until F G p \<longleftrightarrow> (\<exists>i. p i \<in> G \<and> (\<forall>j<i. p j \<in> F))"

definition always :: "'s set \<Rightarrow> (nat \<Rightarrow> 's) \<Rightarrow> bool" where
  "always F p \<longleftrightarrow> (\<forall>i. p i \<in> F)"

definition closed :: "'s kripke \<Rightarrow> bool" where
  "closed K \<longleftrightarrow> (\<forall>s\<in>k_states K. \<forall>t. k_step K s t \<longrightarrow> t \<in> k_states K) \<and> k_init K \<subseteq> k_states K"

lemma run_total: "\<exists>t. run_step K s t"
  by (auto simp: run_step_def dead_def)

lemma run_exists: "\<exists>p. run K s p"
proof -
  define p where "p = rec_nat s (\<lambda>_ x. SOME t. run_step K x t)"
  have "run K s p" unfolding run_def
    by (auto simp: p_def intro: someI_ex [OF run_total])
  then show ?thesis by blast
qed

lemma run_Cons: "run_step K s t \<Longrightarrow> run K t p \<Longrightarrow> run K s (case_nat s p)"
  by (auto simp: run_def split: nat.split)

lemma run_Suc: "run K s p \<Longrightarrow> run K (p 1) (\<lambda>i. p (Suc i))"
  by (simp add: run_def)

lemma run_in:
  assumes "closed K" "run K s p" "s \<in> k_states K"
  shows "p i \<in> k_states K"
proof (induction i)
  case (Suc i)
  have "run_step K (p i) (p (Suc i))" using assms(2) by (simp add: run_def)
  with Suc assms(1) show ?case by (auto simp: run_step_def closed_def)
qed (use assms in \<open>simp add: run_def\<close>)

lemma until_weak:
  "\<not> until F G p \<longleftrightarrow> always (- G) p \<or> until (- G) (- F \<inter> - G) p"
proof
  assume not: "\<not> until F G p"
  show "always (- G) p \<or> until (- G) (- F \<inter> - G) p"
  proof (cases "\<exists>i. p i \<in> G")
    case True
    define i where "i = (LEAST i. p i \<in> G)"
    have i: "p i \<in> G" using LeastI_ex [OF True] by (simp add: i_def)
    have before: "p j \<notin> G" if "j < i" for j using not_less_Least [of j "\<lambda>i. p i \<in> G"] that by (simp add: i_def)
    obtain j where "j < i" "p j \<notin> F" using not i by (auto simp: until_def)
    with before show ?thesis by (auto simp: until_def intro!: exI [of _ j])
  qed (auto simp: always_def)
next
  assume "always (- G) p \<or> until (- G) (- F \<inter> - G) p"
  then show "\<not> until F G p"
  proof
    assume "until (- G) (- F \<inter> - G) p"
    then obtain i where i: "p i \<notin> F" "p i \<notin> G" "\<forall>j<i. p j \<notin> G" by (auto simp: until_def)
    show ?thesis
    proof
      assume "until F G p"
      then obtain k where k: "p k \<in> G" "\<forall>j<k. p j \<in> F" by (auto simp: until_def)
      with i show False by (metis linorder_neqE_nat)
    qed
  qed (auto simp: always_def until_def)
qed

section \<open>States of a formula\<close>

text \<open>States reached from \<open>P\<close> along states of \<open>Q\<close>, the last one excepted.\<close>

definition forward_until :: "'s kripke \<Rightarrow> 's set \<Rightarrow> 's set \<Rightarrow> 's set" where
  "forward_until K P Q = {t. \<exists>s\<in>P. (\<lambda>a b. a \<in> Q \<and> k_step K a b)\<^sup>*\<^sup>* s t}"

text \<open>States of \<open>S\<close> with an infinite chain of predecessors in \<open>S\<close>, and dead states of \<open>S\<close>.\<close>

definition forward_global :: "'s kripke \<Rightarrow> 's set \<Rightarrow> 's set \<Rightarrow> 's set" where
  "forward_global K P Q =
     (let S = forward_until K P Q \<inter> Q
      in {t. \<exists>p. p 0 = t \<and> (\<forall>i. p i \<in> S) \<and> (\<forall>i::nat. k_step K (p (Suc i)) (p i))} \<union> {t \<in> S. dead K t})"

fun ctl_sem :: "'s kripke \<Rightarrow> Ctlp_Formula \<Rightarrow> 's set" where
  "ctl_sem K (Ctlp_EX f) = {s \<in> k_states K. \<exists>t. k_step K s t \<and> t \<in> ctl_sem K f}"
| "ctl_sem K (Ctlp_AX f) = {s \<in> k_states K. \<forall>t. k_step K s t \<longrightarrow> t \<in> ctl_sem K f}"
| "ctl_sem K (Ctlp_EG f) = {s \<in> k_states K. \<exists>p. run K s p \<and> always (ctl_sem K f) p}"
| "ctl_sem K (Ctlp_AG f) = {s \<in> k_states K. \<forall>p. run K s p \<longrightarrow> always (ctl_sem K f) p}"
| "ctl_sem K (Ctlp_EF f) = {s \<in> k_states K. \<exists>p. run K s p \<and> until UNIV (ctl_sem K f) p}"
| "ctl_sem K (Ctlp_AF f) = {s \<in> k_states K. \<forall>p. run K s p \<longrightarrow> until UNIV (ctl_sem K f) p}"
| "ctl_sem K (Ctlp_EU f g) = {s \<in> k_states K. \<exists>p. run K s p \<and> until (ctl_sem K f) (ctl_sem K g) p}"
| "ctl_sem K (Ctlp_AU f g) = {s \<in> k_states K. \<forall>p. run K s p \<longrightarrow> until (ctl_sem K f) (ctl_sem K g) p}"
| "ctl_sem K (Ctlp_OR f g) = ctl_sem K f \<union> ctl_sem K g"
| "ctl_sem K (Ctlp_AND f g) = ctl_sem K f \<inter> ctl_sem K g"
| "ctl_sem K (Ctlp_NOT f) = k_states K - ctl_sem K f"
| "ctl_sem K (Ctlp_THEN f g) = (k_states K - ctl_sem K f) \<union> ctl_sem K g"
| "ctl_sem K (Ctlp_XOR f g) = {s \<in> k_states K. (s \<in> ctl_sem K f) \<noteq> (s \<in> ctl_sem K g)}"
| "ctl_sem K (Ctlp_EQ f g) = {s \<in> k_states K. (s \<in> ctl_sem K f) = (s \<in> ctl_sem K g)}"
| "ctl_sem K (Ctlp_ID n v) = {s \<in> k_states K. k_label K (n @ v) s}"
| "ctl_sem K Ctlp_TRUE = k_states K"
| "ctl_sem K Ctlp_FALSE = {}"
| "ctl_sem K (Ctlp_FwdU f g) = forward_until K (ctl_sem K f) (ctl_sem K g)"
| "ctl_sem K (Ctlp_FwdG f g) = forward_global K (ctl_sem K f) (ctl_sem K g)"
| "ctl_sem K (Ctlp_EY f) = {t. \<exists>s\<in>ctl_sem K f. k_step K s t}"
| "ctl_sem K (Ctlp_EH f) = {t. \<exists>p. p 0 = t \<and> (\<forall>i. p i \<in> ctl_sem K f) \<and> (\<forall>i::nat. k_step K (p (Suc i)) (p i))}"
| "ctl_sem K Ctlp_Init = k_init K"
| "ctl_sem K (Ctlp_Cmp f g v) = (if (v = 0) = (ctl_sem K f = {}) then k_one K else {})"

text \<open>The formulas that denote sets of states, and those whose operators look forward, as they are read.\<close>

fun state_formula :: "Ctlp_Formula \<Rightarrow> bool" where
  "state_formula (Ctlp_Cmp f g v) = False"
| "state_formula (Ctlp_EX f) = state_formula f"
| "state_formula (Ctlp_AX f) = state_formula f"
| "state_formula (Ctlp_EG f) = state_formula f"
| "state_formula (Ctlp_AG f) = state_formula f"
| "state_formula (Ctlp_EF f) = state_formula f"
| "state_formula (Ctlp_AF f) = state_formula f"
| "state_formula (Ctlp_EU f g) = (state_formula f \<and> state_formula g)"
| "state_formula (Ctlp_AU f g) = (state_formula f \<and> state_formula g)"
| "state_formula (Ctlp_OR f g) = (state_formula f \<and> state_formula g)"
| "state_formula (Ctlp_AND f g) = (state_formula f \<and> state_formula g)"
| "state_formula (Ctlp_NOT f) = state_formula f"
| "state_formula (Ctlp_THEN f g) = (state_formula f \<and> state_formula g)"
| "state_formula (Ctlp_XOR f g) = (state_formula f \<and> state_formula g)"
| "state_formula (Ctlp_EQ f g) = (state_formula f \<and> state_formula g)"
| "state_formula (Ctlp_FwdU f g) = (state_formula f \<and> state_formula g)"
| "state_formula (Ctlp_FwdG f g) = (state_formula f \<and> state_formula g)"
| "state_formula (Ctlp_EY f) = state_formula f"
| "state_formula (Ctlp_EH f) = state_formula f"
| "state_formula f = True"

lemma forward_until_in:
  assumes "closed K" "P \<subseteq> k_states K"
  shows "forward_until K P Q \<subseteq> k_states K"
proof -
  have "t \<in> k_states K" if "(\<lambda>a b. a \<in> Q \<and> k_step K a b)\<^sup>*\<^sup>* s t" "s \<in> k_states K" for s t
    using that assms(1) by (induction rule: rtranclp_induct) (auto simp: closed_def)
  with assms(2) show ?thesis by (auto simp: forward_until_def)
qed

lemma ctl_sem_in:
  assumes "closed K" "state_formula f"
  shows "ctl_sem K f \<subseteq> k_states K"
  using assms(2)
proof (induction f)
  case (Ctlp_FwdU f g)
  then show ?case using forward_until_in [OF assms(1)] by simp
next
  case (Ctlp_FwdG f g)
  then have "forward_until K (ctl_sem K f) (ctl_sem K g) \<subseteq> k_states K" by (simp add: forward_until_in [OF assms(1)])
  moreover have "forward_global K P Q \<subseteq> forward_until K P Q" for P Q
    by (auto simp: forward_global_def Let_def)
  ultimately show ?case by (simp only: ctl_sem.simps) blast
next
  case (Ctlp_EY f)
  then have "ctl_sem K f \<subseteq> k_states K" by simp
  then show ?case using assms(1) unfolding closed_def ctl_sem.simps by blast
next
  case (Ctlp_EH f)
  then have "ctl_sem K f \<subseteq> k_states K" by simp
  then show ?case unfolding ctl_sem.simps by blast
next
  case Ctlp_Init
  then show ?case using assms(1) by (simp add: closed_def)
next
  case (Ctlp_Cmp f g v)
  then show ?case by simp
qed (simp_all, blast+)

section \<open>What the rewritings keep\<close>

text \<open>On runs through the states of the system, complements are complements among those states.\<close>

lemma run_sets:
  assumes "closed K" "s \<in> k_states K" "run K s p"
  shows "until (k_states K - F) G p \<longleftrightarrow> until (- F) G p" "until F (k_states K - G) p \<longleftrightarrow> until F (- G) p"
    "until F (k_states K \<inter> G) p \<longleftrightarrow> until F G p" "until (k_states K) G p \<longleftrightarrow> until UNIV G p"
    "always (k_states K - F) p \<longleftrightarrow> always (- F) p" "always (- k_states K \<union> F) p \<longleftrightarrow> always F p"
  using run_in [OF assms(1,3,2)] by (simp_all add: until_def always_def)

lemma runs_cong:
  assumes "\<And>s p. s \<in> k_states K \<Longrightarrow> run K s p \<Longrightarrow> P p \<longleftrightarrow> Q p"
  shows "{s \<in> k_states K. \<exists>p. run K s p \<and> P p} = {s \<in> k_states K. \<exists>p. run K s p \<and> Q p}"
  using assms by auto

lemma runs_dual:
  assumes "\<And>s p. s \<in> k_states K \<Longrightarrow> run K s p \<Longrightarrow> P p \<longleftrightarrow> \<not> Q p"
  shows "k_states K - {s \<in> k_states K. \<exists>p. run K s p \<and> P p} = {s \<in> k_states K. \<forall>p. run K s p \<longrightarrow> Q p}"
  using assms by auto

lemma until_UNIV: "until UNIV G p \<longleftrightarrow> \<not> always (- G) p"
  by (auto simp: until_def always_def)

lemma sem_EF: "closed K \<Longrightarrow> ctl_sem K (existential_EF f) = ctl_sem K (Ctlp_EF f)"
  unfolding existential_EF_def ctl_sem.simps by (rule runs_cong) (simp add: run_sets)

lemma sem_AX: "closed K \<Longrightarrow> ctl_sem K (existential_AX f) = ctl_sem K (Ctlp_AX f)"
  by (auto simp: existential_AX_def closed_def)

lemma sem_AG: "closed K \<Longrightarrow> ctl_sem K (existential_AG f) = ctl_sem K (Ctlp_AG f)"
  unfolding existential_AG_def ctl_sem.simps by (rule runs_dual) (simp add: run_sets until_UNIV)

lemma sem_AF: "closed K \<Longrightarrow> ctl_sem K (existential_AF f) = ctl_sem K (Ctlp_AF f)"
  unfolding existential_AF_def ctl_sem.simps by (rule runs_dual) (simp add: run_sets until_UNIV)

lemma weak_until:
  assumes "closed K" "s \<in> k_states K" "run K s p"
  shows "until (k_states K - G) ((k_states K - F) \<inter> (k_states K - G)) p \<or> always (k_states K - G) p \<longleftrightarrow> \<not> until F G p"
proof -
  have "(k_states K - F) \<inter> (k_states K - G) = k_states K \<inter> (- F \<inter> - G)" by blast
  then show ?thesis using run_sets [OF assms] by (auto simp: until_weak)
qed

lemma runs_or:
  "{s \<in> S. \<exists>p. run K s p \<and> P p} \<union> {s \<in> S. \<exists>p. run K s p \<and> Q p} = {s \<in> S. \<exists>p. run K s p \<and> (P p \<or> Q p)}"
  by blast

lemma sem_AU: "closed K \<Longrightarrow> ctl_sem K (existential_AU f g) = ctl_sem K (Ctlp_AU f g)"
  unfolding existential_AU_def ctl_sem.simps runs_or by (rule runs_dual) (simp add: weak_until)

lemma state_existential [simp]:
  "state_formula (existential_EF f) = state_formula f" "state_formula (existential_AX f) = state_formula f"
  "state_formula (existential_AG f) = state_formula f" "state_formula (existential_AF f) = state_formula f"
  "state_formula (existential_AU f g) = (state_formula f \<and> state_formula g)"
  by (auto simp: existential_EF_def existential_AX_def existential_AG_def existential_AF_def existential_AU_def)

lemma sem_cong:
  assumes "ctl_sem K f = ctl_sem K f'" "ctl_sem K g = ctl_sem K g'"
  shows "ctl_sem K (Ctlp_EF f) = ctl_sem K (Ctlp_EF f')" "ctl_sem K (Ctlp_AX f) = ctl_sem K (Ctlp_AX f')"
    "ctl_sem K (Ctlp_AG f) = ctl_sem K (Ctlp_AG f')" "ctl_sem K (Ctlp_AF f) = ctl_sem K (Ctlp_AF f')"
    "ctl_sem K (Ctlp_AU f g) = ctl_sem K (Ctlp_AU f' g')"
  using assms by simp_all

theorem existential_form_sem:
  assumes "closed K" "Ctlp_FormulaConvertToExistentialForm f = Inr f'"
  shows "ctl_sem K f' = ctl_sem K f"
  using assms(2)
proof (induction f arbitrary: f' rule: Ctlp_FormulaConvertToExistentialForm.induct)
qed (auto simp: sem_EF sem_AX sem_AG sem_AF sem_AU assms(1) unexpected_type_def)

text \<open>The form with few operators, and that without \<open>XOR\<close> and \<open>EQ\<close>.\<close>

lemma state_existential_form:
  "Ctlp_FormulaConvertToExistentialForm f = Inr f' \<Longrightarrow> state_formula f \<and> state_formula f'"
  by (induction f arbitrary: f' rule: Ctlp_FormulaConvertToExistentialForm.induct) (auto simp: unexpected_type_def)

theorem simple_form_sem:
  assumes "closed K" "Ctlp_FormulaConvertToSimpleExistentialForm f = Inr f'"
  shows "ctl_sem K f' = ctl_sem K f \<and> ctl_sem K f \<subseteq> k_states K"
  using assms(2)
proof (induction f arbitrary: f' rule: Ctlp_FormulaConvertToSimpleExistentialForm.induct)
  case (5 f g)
  then obtain f1 g1 where 1: "f' = simple_AU f1 g1" "ctl_sem K f1 = ctl_sem K f" "ctl_sem K g1 = ctl_sem K g" by auto
  have "ctl_sem K (simple_AU f1 g1) = ctl_sem K (existential_AU f1 g1)"
    unfolding simple_AU_def existential_AU_def ctl_sem.simps by blast
  with 1 sem_AU [OF assms(1)] show ?case by auto
qed (auto simp: sem_EF sem_AX sem_AG sem_AF assms(1) unexpected_type_def simple_THEN_def simple_OR_def
    simple_XOR_def simple_EQ_def)

theorem monotonic_form_sem:
  assumes "closed K" "Ctlp_FormulaMakeMonotonic f = Inr f'"
  shows "ctl_sem K f' = ctl_sem K f \<and> ctl_sem K f \<subseteq> k_states K"
  using assms(2)
proof (induction f arbitrary: f')
  case (Ctlp_EQ f g)
  then show ?case by (fastforce simp: monotonic_EQ_def)
next
  case (Ctlp_XOR f g)
  then show ?case by (fastforce simp: monotonic_XOR_def)
next
  case (Ctlp_EY f)
  then obtain f1 where "f' = Ctlp_EY f1" "ctl_sem K f1 = ctl_sem K f" "ctl_sem K f \<subseteq> k_states K" by auto
  then show ?case using assms(1) by (auto simp: closed_def)
next
  case (Ctlp_Cmp f g v)
  then show ?case by (auto simp: unexpected_type_def assert_false_def rbind_eq_Inr_iff split: if_splits)
qed (auto simp: unexpected_type_def rbind_eq_Inr_iff)

section \<open>Unfolding and negation\<close>

lemma run_Suc_step:
  assumes "run K s p"
  shows "k_step K s (p 1) \<or> dead K s \<and> p 1 = s"
  using assms by (auto simp: run_def run_step_def)

lemma until_Suc: "until F G p \<longleftrightarrow> p 0 \<in> G \<or> p 0 \<in> F \<and> until F G (\<lambda>i. p (Suc i))"
proof
  assume "until F G p"
  then obtain i where i: "p i \<in> G" "\<forall>j<i. p j \<in> F" by (auto simp: until_def)
  show "p 0 \<in> G \<or> p 0 \<in> F \<and> until F G (\<lambda>i. p (Suc i))"
  proof (cases i)
    case (Suc k)
    with i show ?thesis by (auto simp: until_def intro!: exI [of _ k])
  qed (use i in simp)
next
  assume "p 0 \<in> G \<or> p 0 \<in> F \<and> until F G (\<lambda>i. p (Suc i))"
  then show "until F G p"
  proof
    assume "p 0 \<in> F \<and> until F G (\<lambda>i. p (Suc i))"
    then obtain i where i: "p (Suc i) \<in> G" "\<forall>j<i. p (Suc j) \<in> F" "p 0 \<in> F" by (auto simp: until_def)
    then have "\<forall>j<Suc i. p j \<in> F" by (metis less_Suc_eq_0_disj)
    with i(1) show ?thesis by (auto simp: until_def)
  qed (auto simp: until_def)
qed

lemma EU_step:
  assumes "k_step K s t" "run K t p" "until F G p" "s \<in> F"
  shows "\<exists>q. run K s q \<and> until F G q"
proof -
  have "run K s (case_nat s p)" using assms(1,2) by (intro run_Cons) (auto simp: run_step_def)
  moreover have "until F G (case_nat s p)" using assms(3,4) by (subst until_Suc) simp
  ultimately show ?thesis by blast
qed

text \<open>A run that stays in a dead state satisfies an \<open>until\<close> only there.\<close>

lemma dead_run:
  assumes "dead K s" "run K s p"
  shows "p i = s"
proof (induction i)
  case 0
  then show ?case using assms by (simp add: run_def)
next
  case (Suc i)
  have "run_step K (p i) (p (Suc i))" using assms(2) by (simp add: run_def)
  with Suc assms(1) show ?case by (auto simp: run_step_def dead_def)
qed

lemma EU_unfold:
  assumes "closed K" "ctl_sem K g \<subseteq> k_states K"
  shows "ctl_sem K (Ctlp_EU f g) = ctl_sem K (Ctlp_OR g (Ctlp_AND f (Ctlp_EX (Ctlp_EU f g))))"
proof (intro equalityI subsetI)
  fix s assume "s \<in> ctl_sem K (Ctlp_EU f g)"
  then obtain p where p: "s \<in> k_states K" "run K s p" "until (ctl_sem K f) (ctl_sem K g) p" by auto
  have p0: "p 0 = s" using p(2) by (simp add: run_def)
  show "s \<in> ctl_sem K (Ctlp_OR g (Ctlp_AND f (Ctlp_EX (Ctlp_EU f g))))"
  proof (cases "s \<in> ctl_sem K g")
    case False
    then have f: "s \<in> ctl_sem K f" and u: "until (ctl_sem K f) (ctl_sem K g) (\<lambda>i. p (Suc i))"
      using p(3) p0 until_Suc by metis+
    have "\<not> dead K s"
    proof
      assume "dead K s"
      with dead_run [OF this p(2)] False u show False by (simp add: until_def)
    qed
    then have "k_step K s (p 1)" using run_Suc_step [OF p(2)] by simp
    moreover have "run K (p 1) (\<lambda>i. p (Suc i))" by (rule run_Suc [OF p(2)])
    moreover have "p 1 \<in> k_states K" using run_in [OF assms(1) p(2,1)] by simp
    ultimately show ?thesis using f u p(1) by auto
  qed simp
next
  fix s assume "s \<in> ctl_sem K (Ctlp_OR g (Ctlp_AND f (Ctlp_EX (Ctlp_EU f g))))"
  then consider "s \<in> ctl_sem K g" | t p where "s \<in> k_states K" "s \<in> ctl_sem K f" "k_step K s t" "run K t p"
    "until (ctl_sem K f) (ctl_sem K g) p" by auto
  then show "s \<in> ctl_sem K (Ctlp_EU f g)"
  proof cases
    case 1
    moreover obtain p where "run K s p" using run_exists by metis
    moreover have "until (ctl_sem K f) (ctl_sem K g) p" if "s \<in> ctl_sem K g" "run K s p" for p
      using that by (auto simp: until_def run_def intro!: exI [of _ 0])
    ultimately show ?thesis using assms(2) by auto
  next
    case 2
    then show ?thesis using EU_step [of K s t p] by auto
  qed
qed

lemma EF_as_EU:
  assumes "closed K"
  shows "ctl_sem K (Ctlp_EF f) = ctl_sem K (Ctlp_EU Ctlp_TRUE f)"
  using sem_EF [OF assms, of f] by (simp add: existential_EF_def)

theorem unfoldings_sem:
  assumes "closed K" "state_formula f"
  shows "Ctlp_FormulaConvertAFtoAU f = Inr f' \<Longrightarrow> ctl_sem K f' = ctl_sem K f"
    and "Ctlp_FormulaConvertEFtoOR f = Inr f' \<Longrightarrow> ctl_sem K f' = ctl_sem K f"
    and "Ctlp_FormulaConvertEUtoOR f = Inr f' \<Longrightarrow> ctl_sem K f' = ctl_sem K f"
    and "Ctlp_FormulaConvertXORtoOR f = Inr f' \<Longrightarrow> ctl_sem K f' = ctl_sem K f"
    and "Ctlp_FormulaConvertEQtoOR f = Inr f' \<Longrightarrow> ctl_sem K f' = ctl_sem K f"
proof -
  assume "Ctlp_FormulaConvertAFtoAU f = Inr f'"
  then obtain g where "f = Ctlp_AF g" "f' = Ctlp_AU Ctlp_TRUE g"
    by (auto simp: Ctlp_FormulaConvertAFtoAU_def assert_false_def split: Ctlp_Formula.splits)
  then show "ctl_sem K f' = ctl_sem K f" by (auto simp: run_sets [OF assms(1)])
next
  assume "Ctlp_FormulaConvertEFtoOR f = Inr f'"
  then obtain g where g: "f = Ctlp_EF g" "f' = Ctlp_OR g (Ctlp_EX f)"
    by (auto simp: Ctlp_FormulaConvertEFtoOR_def assert_false_def split: Ctlp_Formula.splits)
  have sub: "ctl_sem K g \<subseteq> k_states K" using ctl_sem_in [OF assms(1), of g] assms(2) g(1) by simp
  have "ctl_sem K (Ctlp_EX (Ctlp_EF g)) = ctl_sem K (Ctlp_EX (Ctlp_EU Ctlp_TRUE g))"
    by (subst (1 2) ctl_sem.simps(1)) (simp only: EF_as_EU [OF assms(1)])
  moreover have "ctl_sem K (Ctlp_EX h) \<subseteq> k_states K" for h by auto
  ultimately show "ctl_sem K f' = ctl_sem K f"
    using EU_unfold [OF assms(1) sub, of Ctlp_TRUE] EF_as_EU [OF assms(1), of g]
    unfolding g ctl_sem.simps(9,10,16) by blast
next
  assume "Ctlp_FormulaConvertEUtoOR f = Inr f'"
  then obtain p q where g: "f = Ctlp_EU p q" "f' = Ctlp_OR q (Ctlp_AND p (Ctlp_EX f))"
    by (auto simp: Ctlp_FormulaConvertEUtoOR_def assert_false_def split: Ctlp_Formula.splits)
  have sub: "ctl_sem K q \<subseteq> k_states K" using ctl_sem_in [OF assms(1), of q] assms(2) g(1) by simp
  show "ctl_sem K f' = ctl_sem K f" unfolding g by (rule EU_unfold [OF assms(1) sub, symmetric])
next
  assume "Ctlp_FormulaConvertXORtoOR f = Inr f'"
  then obtain p q where "f = Ctlp_XOR p q" "f' = Ctlp_OR (Ctlp_AND (Ctlp_NOT p) q) (Ctlp_AND p (Ctlp_NOT q))"
    by (auto simp: Ctlp_FormulaConvertXORtoOR_def Ctlp_FormulaConverttoComplement_def assert_false_def split: Ctlp_Formula.splits)
  then show "ctl_sem K f' = ctl_sem K f" using assms ctl_sem_in [OF assms(1), of p] ctl_sem_in [OF assms(1), of q] by auto
next
  assume "Ctlp_FormulaConvertEQtoOR f = Inr f'"
  then obtain p q where "f = Ctlp_EQ p q" "f' = Ctlp_OR (Ctlp_AND p q) (Ctlp_AND (Ctlp_NOT p) (Ctlp_NOT q))"
    by (auto simp: Ctlp_FormulaConvertEQtoOR_def Ctlp_FormulaConverttoComplement_def assert_false_def split: Ctlp_Formula.splits)
  then show "ctl_sem K f' = ctl_sem K f" using assms ctl_sem_in [OF assms(1), of p] ctl_sem_in [OF assms(1), of q] by auto
qed

text \<open>Formulas whose negation is pushed to a formula with the complement.\<close>

fun pushes :: "Ctlp_Formula \<Rightarrow> bool" where
  "pushes (Ctlp_EU f g) = False"
| "pushes Ctlp_Init = False"
| "pushes (Ctlp_FwdU f g) = False"
| "pushes (Ctlp_FwdG f g) = False"
| "pushes (Ctlp_EY f) = False"
| "pushes f = True"

lemma sem_negated_AU:
  assumes "closed K"
  shows "ctl_sem K (Ctlp_OR (Ctlp_EU (Ctlp_NOT g) (Ctlp_NOT (Ctlp_OR f g))) (Ctlp_EG (Ctlp_NOT g)))
    = k_states K - ctl_sem K (Ctlp_AU f g)"
proof -
  have "k_states K - (ctl_sem K f \<union> ctl_sem K g) = (k_states K - ctl_sem K f) \<inter> (k_states K - ctl_sem K g)" by blast
  then have "ctl_sem K (Ctlp_OR (Ctlp_EU (Ctlp_NOT g) (Ctlp_NOT (Ctlp_OR f g))) (Ctlp_EG (Ctlp_NOT g)))
      = ctl_sem K (Ctlp_OR (Ctlp_EU (Ctlp_NOT g) (Ctlp_AND (Ctlp_NOT f) (Ctlp_NOT g))) (Ctlp_EG (Ctlp_NOT g)))"
    by simp
  moreover have "k_states K - ctl_sem K (existential_AU f g)
      = k_states K \<inter> ctl_sem K (Ctlp_OR (Ctlp_EU (Ctlp_NOT g) (Ctlp_AND (Ctlp_NOT f) (Ctlp_NOT g))) (Ctlp_EG (Ctlp_NOT g)))"
    unfolding existential_AU_def by (subst ctl_sem.simps(11)) blast
  moreover have "ctl_sem K (Ctlp_OR (Ctlp_EU (Ctlp_NOT g) (Ctlp_AND (Ctlp_NOT f) (Ctlp_NOT g))) (Ctlp_EG (Ctlp_NOT g)))
      \<subseteq> k_states K" by auto
  ultimately show ?thesis using sem_AU [OF assms, of f g] by blast
qed

theorem push_negation_sem:
  assumes "closed K" "state_formula f" "pushes f" "Ctlp_FormulaPushNegation f = Inr f'"
  shows "ctl_sem K f' = k_states K - ctl_sem K f"
proof (cases f)
  case (Ctlp_EX g)
  then show ?thesis using assms by (auto simp: closed_def Ctlp_FormulaConverttoComplement_def)
next
  case (Ctlp_AX g)
  then show ?thesis using assms by (auto simp: closed_def Ctlp_FormulaConverttoComplement_def)
next
  case (Ctlp_EG g)
  then show ?thesis using assms
    by (auto simp: Ctlp_FormulaConverttoComplement_def run_sets until_UNIV)
next
  case (Ctlp_AG g)
  then show ?thesis using assms
    by (auto simp: Ctlp_FormulaConverttoComplement_def run_sets until_UNIV)
next
  case (Ctlp_EF g)
  then show ?thesis using assms
    by (auto simp: Ctlp_FormulaConverttoComplement_def run_sets until_UNIV)
next
  case (Ctlp_AF g)
  then show ?thesis using assms
    by (auto simp: Ctlp_FormulaConverttoComplement_def run_sets until_UNIV)
next
  case (Ctlp_AU g h)
  then show ?thesis using assms sem_negated_AU [OF assms(1), of h g]
    by (simp add: Ctlp_FormulaConverttoComplement_def)
next
  case (Ctlp_NOT g)
  then show ?thesis using assms ctl_sem_in [OF assms(1), of g] by auto
qed (use assms in \<open>auto simp: Ctlp_FormulaConverttoComplement_def unexpected_type_def\<close>)

text \<open>
  Not so for \<open>E[p U q]\<close>: in the system \<open>0 \<rightarrow> 0, 0 \<rightarrow> 1, 1 \<rightarrow> 2, 2 \<rightarrow> 2\<close> with \<open>p\<close> in \<open>0\<close> and \<open>q\<close> in \<open>2\<close>, it fails
  in \<open>0\<close>, and so does the formula put in the place of its negation, which asks that every run leaves \<open>0\<close>.
\<close>

definition loop_system :: "nat kripke" where
  "loop_system =
     \<lparr>k_states = {0, 1, 2}, k_init = {0}, k_step = (\<lambda>s t. (s, t) \<in> {(0, 0), (0, 1), (1, 2), (2, 2)}),
      k_label = (\<lambda>l s. l = ''p'' \<and> s = 0 \<or> l = ''q'' \<and> s = 2), k_one = {0}\<rparr>"

theorem push_negation_EU_wrong:
  assumes "f = Ctlp_EU (Ctlp_ID ''p'' '''') (Ctlp_ID ''q'' '''')"
  shows "\<exists>f'. Ctlp_FormulaPushNegation f = Inr f' \<and> 0 \<notin> ctl_sem loop_system f \<and> 0 \<notin> ctl_sem loop_system f'"
proof -
  let ?p = "Ctlp_ID ''p'' ''''" and ?q = "Ctlp_ID ''q'' ''''"
  let ?f' = "Ctlp_AU (Ctlp_NOT ?q) (Ctlp_OR (Ctlp_NOT (Ctlp_OR ?p ?q)) (Ctlp_AG (Ctlp_NOT ?q)))"
  have push: "Ctlp_FormulaPushNegation f = Inr ?f'"
    by (simp add: assms Ctlp_FormulaConverttoComplement_def)
  have sem: "ctl_sem loop_system ?p = {0}" "ctl_sem loop_system ?q = {2}"
    by (auto simp: loop_system_def)
  have "\<not> until {0} {2} p" if r: "run loop_system 0 p" for p
  proof
    assume "until {0} {2} p"
    then obtain i where i: "p i = 2" "\<forall>j<i. p j = 0" by (auto simp: until_def)
    then obtain k where "i = Suc k" using r by (cases i) (auto simp: run_def)
    with i r show False by (auto simp: run_def run_step_def loop_system_def dead_def dest!: spec [of _ k])
  qed
  then have "0 \<notin> ctl_sem loop_system f" unfolding assms ctl_sem.simps(7) sem by auto
  moreover have "0 \<notin> ctl_sem loop_system ?f'"
  proof -
    define loop where "loop = (\<lambda>_ :: nat. 0 :: nat)"
    have loop: "run loop_system 0 loop" by (simp add: loop_def run_def run_step_def loop_system_def)
    define out where "out = (\<lambda>i :: nat. if i = 0 then 0 else if i = 1 then 1 else (2 :: nat))"
    have "run loop_system 0 out" by (auto simp: out_def run_def run_step_def loop_system_def)
    moreover have "out 2 = 2" by (simp add: out_def)
    ultimately have "0 \<notin> ctl_sem loop_system (Ctlp_AG (Ctlp_NOT ?q))"
      unfolding ctl_sem.simps(4,11) sem always_def by blast
    then have "\<not> until X (ctl_sem loop_system (Ctlp_OR (Ctlp_NOT (Ctlp_OR ?p ?q)) (Ctlp_AG (Ctlp_NOT ?q)))) loop" for X
      unfolding ctl_sem.simps(9,11) sem by (auto simp: until_def loop_def)
    with loop show ?thesis unfolding ctl_sem.simps(8) by blast
  qed
  ultimately show ?thesis using push by blast
qed

end
