(* ===== verification/Ctl_Forward.thy ===== *)
theory Ctl_Forward imports Ctl_Semantics begin

text \<open>
  The conversion to forward form (\<open>CTL/src/ctlp/ctlpUtil.c\<close>): \<open>init * f\<close> is not empty is rewritten into
  tests that only compute successors. The code rewrites the tree in place, below a parent node
  \<open>AND r f\<close> whose left child is converted.
\<close>

section \<open>The choice of the comparison\<close>

fun exists_operator :: "Ctlp_Formula \<Rightarrow> bool" where
  "exists_operator (Ctlp_EX f) = True"
| "exists_operator (Ctlp_EU f g) = True"
| "exists_operator (Ctlp_EF f) = True"
| "exists_operator (Ctlp_EG f) = True"
| "exists_operator f = False"

text \<open>A negation that is not doubled reaches the \<open>default\<close> of the \<open>switch\<close> on its own type.\<close>

fun FormulaIsConvertible :: "Ctlp_Formula \<Rightarrow> int" where
  "FormulaIsConvertible (Ctlp_NOT (Ctlp_NOT h)) =
     (if Ctlp_FormulaTestIsQuantifierFree h then 1
      else if exists_operator h then 1 else FormulaIsConvertible h)"
| "FormulaIsConvertible (Ctlp_NOT g) =
     (if Ctlp_FormulaTestIsQuantifierFree g then 1 else if exists_operator g then 0 else 2)"
| "FormulaIsConvertible (Ctlp_AND f g) =
     (if Ctlp_FormulaTestIsQuantifierFree (Ctlp_AND f g) then 1
      else wrap32 (FormulaIsConvertible f * FormulaIsConvertible g))"
| "FormulaIsConvertible (Ctlp_OR f g) =
     (if Ctlp_FormulaTestIsQuantifierFree (Ctlp_OR f g) then 1
      else wrap32 (FormulaIsConvertible f * FormulaIsConvertible g))"
| "FormulaIsConvertible (Ctlp_THEN f g) =
     (if Ctlp_FormulaTestIsQuantifierFree (Ctlp_THEN f g) then 1
      else wrap32 (FormulaIsConvertible f mod 2 * FormulaIsConvertible g))"
| "FormulaIsConvertible f = (if Ctlp_FormulaTestIsQuantifierFree f \<or> exists_operator f then 1 else 2)"

definition convertible :: "Ctlp_Formula \<Rightarrow> bool" where
  "convertible f \<longleftrightarrow> FormulaIsConvertible f \<noteq> 0"

definition FormulaGetCompareValue :: "Ctlp_Formula \<Rightarrow> int" where
  "FormulaGetCompareValue f = (if convertible f then 1 else 0)"

section \<open>The cases of the conversion\<close>

text \<open>
  What becomes of the parent \<open>AND r f\<close>: it is left as it is, or replaced, with nothing more to convert; it
  becomes \<open>AND r' f'\<close> and the conversion goes on with \<open>f'\<close>; or it gets two children of this form. The
  last case stands for a run that ends with an error.
\<close>

datatype forward_goal =
  Stay Ctlp_Formula | Go Ctlp_Formula Ctlp_Formula
| Split Ctlp_Formula Ctlp_Formula Ctlp_Formula Ctlp_Formula | Stop cxx_error

abbreviation qf :: "Ctlp_Formula \<Rightarrow> bool" where "qf \<equiv> Ctlp_FormulaTestIsQuantifierFree"

text \<open>\<open>!(p -> q)\<close>, \<open>!(p + q)\<close>, \<open>!(p * q)\<close> under the parent with \<open>r\<close>.\<close>

definition forward_not_then :: "Ctlp_Formula \<Rightarrow> Ctlp_Formula \<Rightarrow> Ctlp_Formula \<Rightarrow> forward_goal" where
  "forward_not_then r p q =
     (if qf p \<and> qf q then Stay (Ctlp_AND r (Ctlp_NOT (Ctlp_THEN p q)))
      else if qf p \<or> \<not> qf p \<and> \<not> qf q \<and> \<not> convertible q then Go (Ctlp_AND r p) (Ctlp_NOT q)
      else Go (Ctlp_AND r (Ctlp_NOT q)) p)"

definition forward_not_or :: "Ctlp_Formula \<Rightarrow> Ctlp_Formula \<Rightarrow> Ctlp_Formula \<Rightarrow> forward_goal" where
  "forward_not_or r p q =
     (if qf p \<and> qf q then Stay (Ctlp_AND r (Ctlp_NOT (Ctlp_OR p q)))
      else
        let (f, g) = (if qf p then (p, q) else if qf q then (q, p) else if \<not> convertible q then (p, q) else (q, p))
        in Go (Ctlp_AND r (Ctlp_NOT f)) (Ctlp_NOT g))"

definition forward_not_and :: "Ctlp_Formula \<Rightarrow> Ctlp_Formula \<Rightarrow> Ctlp_Formula \<Rightarrow> forward_goal" where
  "forward_not_and r p q =
     (if qf p \<and> qf q then Stay (Ctlp_AND r (Ctlp_NOT (Ctlp_AND p q)))
      else Split r (Ctlp_NOT p) r (Ctlp_NOT q))"

text \<open>The two disjuncts of a parity: \<open>f\<close> with \<open>g\<close>, and their negations in one order or the other.\<close>

definition both_or_neither :: "Ctlp_Formula \<Rightarrow> Ctlp_Formula \<Rightarrow> Ctlp_Formula \<Rightarrow> bool \<Rightarrow> forward_goal" where
  "both_or_neither r f g same_order =
     (if same_order then Split (Ctlp_AND r f) g (Ctlp_AND r (Ctlp_NOT f)) (Ctlp_NOT g)
      else Split (Ctlp_AND r f) g (Ctlp_AND r (Ctlp_NOT g)) (Ctlp_NOT f))"

definition parity_order :: "Ctlp_Formula \<Rightarrow> Ctlp_Formula \<Rightarrow> Ctlp_Formula \<times> Ctlp_Formula \<times> bool" where
  "parity_order p q =
     (if qf p then (p, q, True) else if qf q then (q, p, True)
      else if convertible p \<and> \<not> convertible q then (q, p, False)
      else if \<not> convertible p \<and> convertible q then (p, q, False)
      else (p, q, True))"

definition forward_not_xor :: "Ctlp_Formula \<Rightarrow> Ctlp_Formula \<Rightarrow> Ctlp_Formula \<Rightarrow> forward_goal" where
  "forward_not_xor r p q =
     (if qf p \<and> qf q then Stay (Ctlp_AND r (Ctlp_NOT (Ctlp_XOR p q)))
      else let (f, g, same_order) = parity_order p q in both_or_neither r f g same_order)"

definition forward_not_eq :: "Ctlp_Formula \<Rightarrow> Ctlp_Formula \<Rightarrow> Ctlp_Formula \<Rightarrow> forward_goal" where
  "forward_not_eq r p q =
     (if qf p \<and> qf q then Stay (Ctlp_AND r (Ctlp_NOT (Ctlp_EQ p q)))
      else if \<not> qf p \<and> \<not> qf q \<and> convertible p \<and> convertible q then
        Split (Ctlp_AND r (Ctlp_NOT q)) p (Ctlp_AND r (Ctlp_NOT p)) q
      else if \<not> qf p \<and> \<not> qf q \<and> \<not> convertible p \<and> \<not> convertible q then
        Split (Ctlp_AND r p) (Ctlp_NOT q) (Ctlp_AND r q) (Ctlp_NOT p)
      else
        let (f, g) = (if qf p then (p, q) else if qf q then (q, p) else (p, q))
        in Split (Ctlp_AND r (Ctlp_NOT f)) g (Ctlp_AND r f) (Ctlp_NOT g))"

fun forward_not :: "Ctlp_Formula \<Rightarrow> Ctlp_Formula \<Rightarrow> forward_goal" where
  "forward_not r (Ctlp_NOT f) = Go r f"
| "forward_not r (Ctlp_THEN p q) = forward_not_then r p q"
| "forward_not r (Ctlp_OR p q) = forward_not_or r p q"
| "forward_not r (Ctlp_AND p q) = forward_not_and r p q"
| "forward_not r (Ctlp_XOR p q) = forward_not_xor r p q"
| "forward_not r (Ctlp_EQ p q) = forward_not_eq r p q"
| "forward_not r f = Stay (Ctlp_AND r (Ctlp_NOT f))"

definition forward_then :: "Ctlp_Formula \<Rightarrow> Ctlp_Formula \<Rightarrow> Ctlp_Formula \<Rightarrow> forward_goal" where
  "forward_then r p q =
     (if qf p \<and> qf q then Stay (Ctlp_AND r (Ctlp_THEN p q)) else Split r (Ctlp_NOT p) r q)"

definition forward_or :: "Ctlp_Formula \<Rightarrow> Ctlp_Formula \<Rightarrow> Ctlp_Formula \<Rightarrow> forward_goal" where
  "forward_or r p q = (if qf p \<and> qf q then Stay (Ctlp_AND r (Ctlp_OR p q)) else Split r p r q)"

definition forward_and :: "Ctlp_Formula \<Rightarrow> Ctlp_Formula \<Rightarrow> Ctlp_Formula \<Rightarrow> forward_goal" where
  "forward_and r p q =
     (if qf p \<and> qf q then Stay (Ctlp_AND r (Ctlp_AND p q))
      else let (f, g) = (if qf q then (q, p) else (p, q)) in Go (Ctlp_AND r f) g)"

text \<open>
  With two operands that have path quantifiers and are both convertible, or both not, the node of the left
  operand is overwritten by one that has itself below it, and its duplication does not end: the process
  overflows its stack.
\<close>

definition forward_xor :: "Ctlp_Formula \<Rightarrow> Ctlp_Formula \<Rightarrow> Ctlp_Formula \<Rightarrow> forward_goal" where
  "forward_xor r p q =
     (if qf p \<and> qf q then Stay (Ctlp_AND r (Ctlp_XOR p q))
      else if \<not> qf p \<and> \<not> qf q \<and> convertible p = convertible q then
        Stop (Undefined ''Ctlp_FormulaDup of a cyclic formula'')
      else
        let (f, g) = (if qf p then (p, q) else if qf q then (q, p) else (p, q))
        in Split (Ctlp_AND r f) (Ctlp_NOT g) (Ctlp_AND r (Ctlp_NOT f)) g)"

definition forward_eq :: "Ctlp_Formula \<Rightarrow> Ctlp_Formula \<Rightarrow> Ctlp_Formula \<Rightarrow> forward_goal" where
  "forward_eq r p q =
     (if qf p \<and> qf q then Stay (Ctlp_AND r (Ctlp_EQ p q))
      else let (f, g, same_order) = parity_order p q in both_or_neither r f g same_order)"

fun forward_step :: "Ctlp_Formula \<Rightarrow> Ctlp_Formula \<Rightarrow> forward_goal" where
  "forward_step r (Ctlp_EX f) = Go (Ctlp_EY r) f"
| "forward_step r (Ctlp_EF f) = Go (Ctlp_FwdU r Ctlp_TRUE) f"
| "forward_step r (Ctlp_EU q f) = Go (Ctlp_FwdU r q) f"
| "forward_step r (Ctlp_EG q) = Stay (Ctlp_FwdG r q)"
| "forward_step r (Ctlp_NOT f) = forward_not r f"
| "forward_step r (Ctlp_THEN p q) = forward_then r p q"
| "forward_step r (Ctlp_OR p q) = forward_or r p q"
| "forward_step r (Ctlp_AND p q) = forward_and r p q"
| "forward_step r (Ctlp_XOR p q) = forward_xor r p q"
| "forward_step r (Ctlp_EQ p q) = forward_eq r p q"
| "forward_step r (Ctlp_AX f) = Stop (Abort ''assert(0)'')"
| "forward_step r (Ctlp_AG f) = Stop (Abort ''assert(0)'')"
| "forward_step r (Ctlp_AF f) = Stop (Abort ''assert(0)'')"
| "forward_step r (Ctlp_AU f g) = Stop (Abort ''assert(0)'')"
| "forward_step r (Ctlp_ID n v) = Stay (Ctlp_AND r (Ctlp_ID n v))"
| "forward_step r Ctlp_TRUE = Stay (Ctlp_AND r Ctlp_TRUE)"
| "forward_step r Ctlp_FALSE = Stay (Ctlp_AND r Ctlp_FALSE)"
| "forward_step r f = Stop (Abort ''Unexpected type'')"

section \<open>The conversion\<close>

text \<open>A parent with \<open>top\<close> set, or one whose two children have it below; \<open>True\<close> when its type is \<open>OR\<close>.\<close>

datatype forward_tree = Top Ctlp_Formula | Both bool forward_tree forward_tree

fun nodes :: "Ctlp_Formula \<Rightarrow> nat" where
  "nodes (Ctlp_EX f) = Suc (nodes f)"
| "nodes (Ctlp_EF f) = Suc (nodes f)"
| "nodes (Ctlp_EG f) = Suc (nodes f)"
| "nodes (Ctlp_NOT f) = Suc (nodes f)"
| "nodes (Ctlp_EU f g) = Suc (nodes f + nodes g)"
| "nodes (Ctlp_THEN f g) = Suc (nodes f + nodes g)"
| "nodes (Ctlp_OR f g) = Suc (nodes f + nodes g)"
| "nodes (Ctlp_AND f g) = Suc (nodes f + nodes g)"
| "nodes (Ctlp_XOR f g) = Suc (nodes f + nodes g)"
| "nodes (Ctlp_EQ f g) = Suc (nodes f + nodes g)"
| "nodes f = 1"

lemma nodes_pos: "0 < nodes f"
  by (cases f) auto

lemmas forward_cases =
  forward_not_then_def forward_not_or_def forward_not_and_def forward_not_xor_def forward_not_eq_def
  forward_then_def forward_or_def forward_and_def forward_xor_def forward_eq_def parity_order_def both_or_neither_def

lemma forward_not_smaller:
  "forward_not r f = Go r1 f1 \<Longrightarrow> nodes f1 < Suc (nodes f)"
  "forward_not r f = Split r1 f1 r2 f2 \<Longrightarrow> nodes f1 < Suc (nodes f) \<and> nodes f2 < Suc (nodes f)"
  by (cases f; auto simp: forward_cases nodes_pos split: if_splits)+

lemma forward_smaller:
  "forward_step r f = Go r1 f1 \<Longrightarrow> nodes f1 < nodes f"
  "forward_step r f = Split r1 f1 r2 f2 \<Longrightarrow> nodes f1 < nodes f \<and> nodes f2 < nodes f"
  by (cases f; auto simp: forward_cases nodes_pos dest: forward_not_smaller split: if_splits)+

function FormulaConvertToForward :: "int \<Rightarrow> Ctlp_Formula \<Rightarrow> Ctlp_Formula \<Rightarrow> forward_tree res" where
  "FormulaConvertToForward compareValue r f =
     (case forward_step r f of
        Stay p \<Rightarrow> Inr (Top p)
      | Go r' f' \<Rightarrow> FormulaConvertToForward compareValue r' f'
      | Split r1 f1 r2 f2 \<Rightarrow>
          node2 (Both (compareValue \<noteq> 0)) (FormulaConvertToForward compareValue r1 f1)
            (FormulaConvertToForward compareValue r2 f2)
      | Stop e \<Rightarrow> Inl e)"
  by pat_completeness auto

termination
  by (relation "measure (\<lambda>(c, r, f). nodes f)") (auto dest: forward_smaller)

declare FormulaConvertToForward.simps [simp del]

fun FormulaInsertForwardCompareNodes :: "int \<Rightarrow> forward_tree \<Rightarrow> Ctlp_Formula" where
  "FormulaInsertForwardCompareNodes compareValue (Top p) = Ctlp_Cmp p Ctlp_FALSE compareValue"
| "FormulaInsertForwardCompareNodes compareValue (Both is_or a b) =
     (if is_or then Ctlp_OR else Ctlp_AND) (FormulaInsertForwardCompareNodes compareValue a)
       (FormulaInsertForwardCompareNodes compareValue b)"

definition forward_form :: "bool \<Rightarrow> Ctlp_Formula \<Rightarrow> Ctlp_Formula res" where
  "forward_form singleInitial formula =
     rbind (Ctlp_FormulaConvertToExistentialForm formula) (\<lambda>existentialFormula.
       let compareValue = (if singleInitial then FormulaGetCompareValue existentialFormula else 0);
           right = (if compareValue = 0 then Ctlp_NOT existentialFormula else existentialFormula)
       in rbind (FormulaConvertToForward compareValue Ctlp_Init right) (\<lambda>t.
            Inr (FormulaInsertForwardCompareNodes compareValue t)))"

definition Ctlp_FormulaArrayConvertToForward :: "Ctlp_Formula list \<Rightarrow> bool \<Rightarrow> Ctlp_Formula list res" where
  "Ctlp_FormulaArrayConvertToForward formulas singleInitial = rmap (forward_form singleInitial) formulas"

end
