(* ===== verification/Ctl_Checker.thy ===== *)
theory Ctl_Checker imports Ctl_Forward Its_Search begin

text \<open>
  The CTL model checker (\<open>CTL/src/mc/ctlCheck.cpp\<close>, \<open>CTL/bin/main.cpp\<close>): the states of a model that satisfy
  a formula. The maps \<open>hom_map\<close>, \<open>ctl_cache\<close> and \<open>ctl_statecache\<close> of the class are looked up but nothing is
  put in them, so that every look up misses; they are left out, as the messages are.
\<close>

section \<open>What is called on the library\<close>

text \<open>
  Besides the operations on transitions, \<open>*\<close> between two transitions and the \<open>fixpoint\<close> of what is made
  with it: \<open>'k\<close> are the homomorphisms that need not be linear. \<open>has_image\<close> answers a set that is empty when
  the image is; \<open>ct_one\<close> is \<open>State::one\<close>.
\<close>

record ('h, 'k, 'st) ctl_ops =
  ct_rel :: "('h, 'st) rel_ops"
  ct_hom :: "'h \<Rightarrow> 'k"
  ct_meet :: "'h \<Rightarrow> 'h \<Rightarrow> 'k"
  ct_fixpoint :: "'k \<Rightarrow> 'k"
  ct_app :: "'k \<Rightarrow> 'st set \<Rightarrow> 'st set"
  ct_has_image :: "'k \<Rightarrow> 'st set \<Rightarrow> 'st set"
  ct_one :: "'st set"

section \<open>The checker\<close>

record ('ty, 'h, 'st) CTLChecker =
  ck_model :: "('ty, 'h, 'st) ITSModel"
  ck_predRel :: 'h
  ck_isfairtime :: bool
  ck_scc :: bool
  ck_scc_computed :: bool
  ck_deadlocks :: "'st set"

definition CTLChecker_of :: "('h, 'k, 'st) ctl_ops \<Rightarrow> ('ty, 'h, 'st) ITSModel \<Rightarrow> ('ty, 'h, 'st) CTLChecker" where
  "CTLChecker_of K m =
     \<lparr>ck_model = m, ck_predRel = Hid (rel_hom (ct_rel K)), ck_isfairtime = False, ck_scc = False, ck_scc_computed = False,
      ck_deadlocks = ct_one K\<rparr>"

definition setFairTime :: "bool \<Rightarrow> ('ty, 'h, 'st) CTLChecker \<Rightarrow> ('ty, 'h, 'st) CTLChecker" where
  "setFairTime befairtime c = c\<lparr>ck_isfairtime := befairtime\<rparr>"

text \<open>Operations on the checker, one after the other.\<close>

type_synonym ('c, 'a) op = "'c \<Rightarrow> ('a \<times> 'c) res"

definition ret :: "'a \<Rightarrow> ('c, 'a) op" where
  "ret x c = Inr (x, c)"

definition bnd :: "('c, 'a) op \<Rightarrow> ('a \<Rightarrow> ('c, 'b) op) \<Rightarrow> ('c, 'b) op" where
  "bnd m f c = rbind (m c) (\<lambda>(x, c'). f x c')"

definition of_res :: "'a res \<Rightarrow> ('c, 'a) op" where
  "of_res r c = rbind r (\<lambda>x. Inr (x, c))"

definition on_model ::
  "(('ty, 'h, 'st) ITSModel \<Rightarrow> (('ty, 'h, 'st) ITSModel \<times> 'a) res) \<Rightarrow> (('ty, 'h, 'st) CTLChecker, 'a) op" where
  "on_model g c = rbind (g (ck_model c)) (\<lambda>(m, x). Inr (x, c\<lparr>ck_model := m\<rparr>))"

section \<open>Relations and states of the model\<close>

definition ITSModel_getPredicate :: "('ty, 'h, 'st) type_calls \<Rightarrow> string \<Rightarrow> ('ty, 'h, 'st) ITSModel \<Rightarrow> 'h res" where
  "ITSModel_getPredicate C predicate m =
     rbind (main_type m) (\<lambda>p. ty_getPredicate (tc_type C (m_types m)) p predicate)"

definition getSelectorAP ::
  "('ty, 'h, 'st) type_calls \<Rightarrow> string \<Rightarrow> string \<Rightarrow> ('ty, 'h, 'st) ITSModel \<Rightarrow> 'h res" where
  "getSelectorAP C apname val m = ITSModel_getPredicate C (apname @ val) m"

definition getAtomicPredicate :: "('ty, 'h, 'st) type_calls \<Rightarrow> string \<Rightarrow> ('ty, 'h, 'st) ITSModel \<Rightarrow> 'h res" where
  "getAtomicPredicate C ap m = ITSModel_getPredicate C ap m"

definition fair_next :: "('h, 'k, 'st) ctl_ops \<Rightarrow> ('ty, 'h, 'st) type_calls \<Rightarrow> ('ty, 'h, 'st) ITSModel \<Rightarrow> 'h res" where
  "fair_next K C m =
     (let R = ct_rel K; H = rel_hom R
      in rbind (main_type m) (\<lambda>p.
         rbind (ty_getLocals (tc_type C (m_types m)) p) (\<lambda>trans.
         rbind (getElapse C H m) (\<lambda>elapse.
           Inr (if elapse \<noteq> Hid H then Hcomp H (rel_fixpoint R (Hor H elapse (Hid H))) trans else trans)))))"

definition CTLChecker_getNextRel ::
  "('h, 'k, 'st) ctl_ops \<Rightarrow> ('ty, 'h, 'st) type_calls \<Rightarrow> (('ty, 'h, 'st) CTLChecker, 'h) op" where
  "CTLChecker_getNextRel K C c =
     of_res (if ck_isfairtime c then fair_next K C (ck_model c)
             else getNextRel C (rel_hom (ct_rel K)) (ck_model c)) c"

definition CTLChecker_getReachable ::
  "('h, 'k, 'st) ctl_ops \<Rightarrow> ('ty, 'h, 'st) type_calls \<Rightarrow> (('ty, 'h, 'st) CTLChecker, 'st set) op" where
  "CTLChecker_getReachable K C = on_model (computeReachable C (ct_rel K))"

definition CTLChecker_getInitialState ::
  "('h, 'k, 'st) ctl_ops \<Rightarrow> ('ty, 'h, 'st) type_calls \<Rightarrow> (('ty, 'h, 'st) CTLChecker, 'st set) op" where
  "CTLChecker_getInitialState K C c =
     (let R = ct_rel K; H = rel_hom R
      in if ck_isfairtime c then
           of_res (rbind (getElapse C H (ck_model c)) (\<lambda>elapse.
             rbind (Its_Model.getInitialState C (ck_model c)) (\<lambda>M0.
               Inr (rel_app R (rel_fixpoint R (Hor H elapse (Hid H))) M0)))) c
         else of_res (Its_Model.getInitialState C (ck_model c)) c)"

text \<open>The reverse of the fair relation, on the reachable states or on the envelope.\<close>

definition fair_pred ::
  "('h, 'k, 'st) ctl_ops \<Rightarrow> 'st set \<Rightarrow> 'h \<Rightarrow> (('ty, 'h, 'st) CTLChecker, 'h) op" where
  "fair_pred K reach nextRel c =
     (let R = ct_rel K
      in if nextRel = Hnull (rel_hom R) then Inr (nextRel, c)
         else
           let inv = rel_invert R nextRel reach;
               isExact = (rel_app R inv reach - reach = {});
               pred = (if isExact then inv else rel_inter R inv reach)
           in Inr (pred, c\<lparr>ck_predRel := pred\<rparr>))"

definition CTLChecker_getPredRel ::
  "('h, 'k, 'st) ctl_ops \<Rightarrow> ('ty, 'h, 'st) type_calls \<Rightarrow> 'st set \<Rightarrow> (('ty, 'h, 'st) CTLChecker, 'h) op" where
  "CTLChecker_getPredRel K C envelope c =
     (if ck_isfairtime c then
        if ck_predRel c = Hid (rel_hom (ct_rel K)) \<or> envelope \<noteq> {} then
          bnd (if envelope = {} then CTLChecker_getReachable K C else ret envelope) (\<lambda>reach.
          bnd (CTLChecker_getNextRel K C) (\<lambda>nextRel. fair_pred K reach nextRel)) c
        else ret (ck_predRel c) c
      else on_model (getPredRel C (ct_rel K) envelope) c)"

definition hasSCCs ::
  "('h, 'k, 'st) ctl_ops \<Rightarrow> ('ty, 'h, 'st) type_calls \<Rightarrow> (('ty, 'h, 'st) CTLChecker, bool) op" where
  "hasSCCs K C c =
     (if \<not> ck_scc_computed c then
        bnd (CTLChecker_getNextRel K C) (\<lambda>nextRel.
        bnd (CTLChecker_getReachable K C) (\<lambda>reach c'.
          let findscc = ct_fixpoint K (ct_meet K nextRel (Hid (rel_hom (ct_rel K))));
              sccs = (ct_has_image K findscc reach \<noteq> {})
          in Inr (sccs, c'\<lparr>ck_scc := sccs\<rparr>))) (c\<lparr>ck_scc_computed := True\<rparr>)
      else ret (ck_scc c) c)"

definition getReachableDeadlocks ::
  "('h, 'k, 'st) ctl_ops \<Rightarrow> ('ty, 'h, 'st) type_calls \<Rightarrow> (('ty, 'h, 'st) CTLChecker, 'st set) op" where
  "getReachableDeadlocks K C c =
     (let R = ct_rel K
      in if ck_deadlocks c = ct_one K then
           bnd (CTLChecker_getNextRel K C) (\<lambda>nextRel.
             if nextRel = Hnull (rel_hom R) then CTLChecker_getReachable K C
             else
               bnd (CTLChecker_getReachable K C) (\<lambda>reach c'.
                 let dead = reach - rel_app R (rel_invert R nextRel reach) reach
                 in Inr (dead, c'\<lparr>ck_deadlocks := dead\<rparr>))) c
         else ret (ck_deadlocks c) c)"

text \<open>States without a local transition that \<open>elapse\<close> leads to from such states, again and again.\<close>

definition getReachableTimelocks ::
  "('h, 'k, 'st) ctl_ops \<Rightarrow> ('ty, 'h, 'st) type_calls \<Rightarrow> (('ty, 'h, 'st) CTLChecker, 'st set) op" where
  "getReachableTimelocks K C c =
     (let R = ct_rel K; H = rel_hom R
      in bnd (of_res (getElapse C H (ck_model c))) (\<lambda>elapse.
           if elapse \<noteq> Hid H then
             bnd (CTLChecker_getReachable K C) (\<lambda>reach.
             bnd (of_res (rbind (main_type (ck_model c)) (ty_getLocals (tc_type C (m_types (ck_model c)))))) (\<lambda>trans.
               let inSCC = ct_app K (ct_fixpoint K (ct_meet K elapse (Hid H))) reach;
                   trDead = (if trans = Hnull H then reach else reach - rel_app R (rel_invert R trans reach) reach)
               in ret (inSCC \<inter> trDead)))
           else ret {}) c)"

section \<open>Formulas as homomorphisms\<close>

text \<open>\<open>None\<close> is the constant \<open>stop\<close>. A child that is \<open>stop\<close> ends the translation.\<close>

definition unknown_type :: "'a res" where
  "unknown_type = Inl (Abort ''Encountered unknown type of CTL formula'')"

definition with_child :: "'h option res \<Rightarrow> ('h \<Rightarrow> 'h option res) \<Rightarrow> 'h option res" where
  "with_child child k = rbind child (\<lambda>r. case r of None \<Rightarrow> Inr None | Some h \<Rightarrow> k h)"

definition with_children :: "'h option res \<Rightarrow> 'h option res \<Rightarrow> ('h \<Rightarrow> 'h \<Rightarrow> 'h option res) \<Rightarrow> 'h option res" where
  "with_children l r k = with_child l (\<lambda>a. with_child r (\<lambda>b. k a b))"

fun getHomomorphism ::
  "('h, 'k, 'st) ctl_ops \<Rightarrow> ('ty, 'h, 'st) type_calls \<Rightarrow> ('ty, 'h, 'st) ITSModel \<Rightarrow> Ctlp_Formula \<Rightarrow> 'h option res" where
  "getHomomorphism K C m (Ctlp_NOT (Ctlp_NOT f)) = getHomomorphism K C m f"
| "getHomomorphism K C m (Ctlp_NOT f) =
     with_child (getHomomorphism K C m f) (\<lambda>l. Inr (Some (Hnot (rel_hom (ct_rel K)) l)))"
| "getHomomorphism K C m (Ctlp_ID n v) = rbind (getSelectorAP C n v m) (\<lambda>h. Inr (Some h))"
| "getHomomorphism K C m Ctlp_TRUE = Inr (Some (Hid (rel_hom (ct_rel K))))"
| "getHomomorphism K C m Ctlp_FALSE = Inr (Some (Hnull (rel_hom (ct_rel K))))"
| "getHomomorphism K C m (Ctlp_AND f g) =
     with_children (getHomomorphism K C m f) (getHomomorphism K C m g) (\<lambda>l r. Inr (Some (Hcomp (rel_hom (ct_rel K)) l r)))"
| "getHomomorphism K C m (Ctlp_OR f g) =
     with_children (getHomomorphism K C m f) (getHomomorphism K C m g) (\<lambda>l r. Inr (Some (Hor (rel_hom (ct_rel K)) l r)))"
| "getHomomorphism K C m (Ctlp_THEN f g) =
     with_children (getHomomorphism K C m f) (getHomomorphism K C m g)
       (\<lambda>l r. Inr (Some (Hor (rel_hom (ct_rel K)) (Hnot (rel_hom (ct_rel K)) l) r)))"
| "getHomomorphism K C m (Ctlp_EQ f g) =
     with_children (getHomomorphism K C m f) (getHomomorphism K C m g) (\<lambda>l r. assert_false)"
| "getHomomorphism K C m (Ctlp_XOR f g) =
     with_children (getHomomorphism K C m f) (getHomomorphism K C m g) (\<lambda>l r. assert_false)"
| "getHomomorphism K C m (Ctlp_EX f) = with_child (getHomomorphism K C m f) (\<lambda>l. Inr None)"
| "getHomomorphism K C m (Ctlp_EU f g) =
     with_children (getHomomorphism K C m f) (getHomomorphism K C m g) (\<lambda>l r. Inr None)"
| "getHomomorphism K C m (Ctlp_EG f) = with_child (getHomomorphism K C m f) (\<lambda>l. Inr None)"
| "getHomomorphism K C m (Ctlp_Cmp f g v) =
     with_children (getHomomorphism K C m f) (getHomomorphism K C m g) (\<lambda>l r. Inr None)"
| "getHomomorphism K C m Ctlp_Init = Inr None"
| "getHomomorphism K C m (Ctlp_FwdU f g) =
     with_children (getHomomorphism K C m f) (getHomomorphism K C m g) (\<lambda>l r. Inr None)"
| "getHomomorphism K C m (Ctlp_FwdG f g) =
     with_children (getHomomorphism K C m f) (getHomomorphism K C m g) (\<lambda>l r. Inr None)"
| "getHomomorphism K C m (Ctlp_EY f) = with_child (getHomomorphism K C m f) (\<lambda>l. Inr None)"
| "getHomomorphism K C m (Ctlp_EF f) = with_child (getHomomorphism K C m f) (\<lambda>l. unknown_type)"
| "getHomomorphism K C m (Ctlp_AX f) = with_child (getHomomorphism K C m f) (\<lambda>l. unknown_type)"
| "getHomomorphism K C m (Ctlp_AG f) = with_child (getHomomorphism K C m f) (\<lambda>l. unknown_type)"
| "getHomomorphism K C m (Ctlp_AF f) = with_child (getHomomorphism K C m f) (\<lambda>l. unknown_type)"
| "getHomomorphism K C m (Ctlp_AU f g) =
     with_children (getHomomorphism K C m f) (getHomomorphism K C m g) (\<lambda>l r. unknown_type)"
| "getHomomorphism K C m (Ctlp_EH f) = with_child (getHomomorphism K C m f) (\<lambda>l. unknown_type)"

definition getHom_of ::
  "('h, 'k, 'st) ctl_ops \<Rightarrow> ('ty, 'h, 'st) type_calls \<Rightarrow> Ctlp_Formula \<Rightarrow> (('ty, 'h, 'st) CTLChecker, 'h option) op" where
  "getHom_of K C f c = of_res (getHomomorphism K C (ck_model c) f) c"

section \<open>Inexact computation\<close>

text \<open>
  When only emptiness matters, some operators answer from an image. \<open>None\<close> inside: the exact computation
  is done. \<open>lh\<close> and \<open>rh\<close> are the homomorphisms of the children, \<open>sl\<close> and \<open>sr\<close> the computations of their
  states.
\<close>

type_synonym ('ty, 'h, 'st) states = "(('ty, 'h, 'st) CTLChecker, 'st set) op"

definition image_in_reach ::
  "('h, 'k, 'st) ctl_ops \<Rightarrow> ('ty, 'h, 'st) type_calls \<Rightarrow> 'h \<Rightarrow> ('ty, 'h, 'st) states" where
  "image_in_reach K C h = bnd (CTLChecker_getReachable K C) (\<lambda>reach. ret (ct_has_image K (ct_hom K h) reach))"

definition inexact_and ::
  "('h, 'k, 'st) ctl_ops \<Rightarrow> ('ty, 'h, 'st) type_calls \<Rightarrow> 'h option \<Rightarrow> 'h option \<Rightarrow> (('ty, 'h, 'st) CTLChecker, 'st set option) op" where
  "inexact_and K C lh rh =
     (let empty = (\<lambda>oh. case oh of None \<Rightarrow> ret False | Some h \<Rightarrow> bnd (image_in_reach K C h) (\<lambda>img. ret (img = {})))
      in bnd (empty rh) (\<lambda>er.
           if er then ret (Some {})
           else bnd (empty lh) (\<lambda>el. if el then ret (Some {}) else ret None)))"

text \<open>The first of the answers that is not empty.\<close>

fun first_nonempty :: "('c, 'st set) op list \<Rightarrow> ('c, 'st set) op" where
  "first_nonempty [] = ret {}"
| "first_nonempty (x # xs) = bnd x (\<lambda>img. if img \<noteq> {} then ret img else first_nonempty xs)"

definition inexact_or ::
  "('h, 'k, 'st) ctl_ops \<Rightarrow> ('ty, 'h, 'st) type_calls \<Rightarrow> 'h option \<Rightarrow> 'h option \<Rightarrow>
     (bool \<Rightarrow> ('ty, 'h, 'st) states) \<Rightarrow> (bool \<Rightarrow> ('ty, 'h, 'st) states) \<Rightarrow> (('ty, 'h, 'st) CTLChecker, 'st set option) op" where
  "inexact_or K C lh rh sl sr =
     bnd (first_nonempty
       ((case lh of Some h \<Rightarrow> [image_in_reach K C h] | None \<Rightarrow> []) @ (case rh of Some h \<Rightarrow> [image_in_reach K C h] | None \<Rightarrow> [])
        @ (if lh = None then [sl False] else []) @ (if rh = None then [sr False] else [])))
       (\<lambda>img. ret (Some img))"

definition inexact_EX ::
  "('h, 'k, 'st) ctl_ops \<Rightarrow> ('ty, 'h, 'st) type_calls \<Rightarrow> 'h option \<Rightarrow> (bool \<Rightarrow> ('ty, 'h, 'st) states) \<Rightarrow>
     (('ty, 'h, 'st) CTLChecker, 'st set option) op" where
  "inexact_EX K C lh sl =
     (case lh of
        Some h \<Rightarrow>
          bnd (CTLChecker_getPredRel K C {}) (\<lambda>pred.
          bnd (image_in_reach K C (Hcomp (rel_hom (ct_rel K)) pred h)) (\<lambda>img. ret (Some img)))
      | None \<Rightarrow>
          bnd (sl True) (\<lambda>img.
          bnd (CTLChecker_getPredRel K C {}) (\<lambda>pred. ret (Some (ct_has_image K (ct_hom K pred) img)))))"

text \<open>A state of \<open>g\<close> satisfies \<open>E[f U g]\<close>.\<close>

definition inexact_EU ::
  "('h, 'k, 'st) ctl_ops \<Rightarrow> ('ty, 'h, 'st) type_calls \<Rightarrow> 'h option \<Rightarrow> (bool \<Rightarrow> ('ty, 'h, 'st) states) \<Rightarrow>
     (('ty, 'h, 'st) CTLChecker, 'st set option) op" where
  "inexact_EU K C rh sr =
     bnd (case rh of Some h \<Rightarrow> image_in_reach K C h | None \<Rightarrow> sr False) (\<lambda>img. ret (Some img))"

definition inexact_EG ::
  "('h, 'k, 'st) ctl_ops \<Rightarrow> ('ty, 'h, 'st) type_calls \<Rightarrow> 'h option \<Rightarrow> (bool \<Rightarrow> ('ty, 'h, 'st) states) \<Rightarrow>
     (('ty, 'h, 'st) CTLChecker, 'st set option) op" where
  "inexact_EG K C lh sl =
     bnd (case lh of Some h \<Rightarrow> bnd (image_in_reach K C h) (\<lambda>img. ret (img = {})) | None \<Rightarrow> ret False) (\<lambda>none.
       if none then ret (Some {})
       else
         bnd (sl True) (\<lambda>leftStates.
         bnd (getReachableDeadlocks K C) (\<lambda>dead.
           if dead \<inter> leftStates \<noteq> {} then ret (Some (dead \<inter> leftStates))
           else
             bnd (CTLChecker_getPredRel K C {}) (\<lambda>pred.
               ret (Some (ct_has_image K (ct_fixpoint K (ct_meet K pred (Hid (rel_hom (ct_rel K))))) leftStates))))))"

fun inexact ::
  "('h, 'k, 'st) ctl_ops \<Rightarrow> ('ty, 'h, 'st) type_calls \<Rightarrow> Ctlp_Formula \<Rightarrow> 'h option \<Rightarrow> 'h option \<Rightarrow>
     (bool \<Rightarrow> ('ty, 'h, 'st) states) \<Rightarrow> (bool \<Rightarrow> ('ty, 'h, 'st) states) \<Rightarrow> (('ty, 'h, 'st) CTLChecker, 'st set option) op" where
  "inexact K C Ctlp_TRUE lh rh sl sr = ret None"
| "inexact K C Ctlp_FALSE lh rh sl sr = ret None"
| "inexact K C (Ctlp_EQ f g) lh rh sl sr = ret None"
| "inexact K C (Ctlp_XOR f g) lh rh sl sr = ret None"
| "inexact K C (Ctlp_THEN f g) lh rh sl sr = ret None"
| "inexact K C Ctlp_Init lh rh sl sr = ret None"
| "inexact K C (Ctlp_Cmp f g v) lh rh sl sr = ret None"
| "inexact K C (Ctlp_ID n v) lh rh sl sr =
     bnd (\<lambda>c. of_res (getSelectorAP C n v (ck_model c)) c) (\<lambda>sel. bnd (image_in_reach K C sel) (\<lambda>img. ret (Some img)))"
| "inexact K C (Ctlp_NOT f) lh rh sl sr =
     (case lh of
        Some h \<Rightarrow> bnd (image_in_reach K C (Hnot (rel_hom (ct_rel K)) h)) (\<lambda>img. ret (Some img))
      | None \<Rightarrow> ret None)"
| "inexact K C (Ctlp_AND f g) lh rh sl sr = inexact_and K C lh rh"
| "inexact K C (Ctlp_OR f g) lh rh sl sr = inexact_or K C lh rh sl sr"
| "inexact K C (Ctlp_EX f) lh rh sl sr = inexact_EX K C lh sl"
| "inexact K C (Ctlp_EU f g) lh rh sl sr = inexact_EU K C rh sr"
| "inexact K C (Ctlp_EG f) lh rh sl sr = inexact_EG K C lh sl"
| "inexact K C (Ctlp_FwdG f g) lh rh sl sr = ret None"
| "inexact K C (Ctlp_FwdU f g) lh rh sl sr = ret None"
| "inexact K C (Ctlp_EY f) lh rh sl sr = ret None"
| "inexact K C f lh rh sl sr = of_res unknown_type"

section \<open>Exact computation\<close>

text \<open>A child: its homomorphism, \<open>id\<close> when all reachable states satisfy it, and its states.\<close>

definition child ::
  "('h, 'k, 'st) ctl_ops \<Rightarrow> ('ty, 'h, 'st) type_calls \<Rightarrow> Ctlp_Formula \<Rightarrow> (bool \<Rightarrow> ('ty, 'h, 'st) states) \<Rightarrow>
     (('ty, 'h, 'st) CTLChecker, 'h option \<times> 'st set) op" where
  "child K C f s =
     bnd (getHom_of K C f) (\<lambda>h.
     bnd (case h of
            None \<Rightarrow> s True
          | Some h \<Rightarrow> bnd (CTLChecker_getReachable K C) (\<lambda>reach. ret (rel_app (ct_rel K) h reach))) (\<lambda>S.
     bnd (CTLChecker_getReachable K C) (\<lambda>reach.
       ret (if S = reach then Some (Hid (rel_hom (ct_rel K))) else h, S))))"

text \<open>The homomorphism of a child, or the intersection with its states, after \<open>t\<close>.\<close>

definition restrict_after :: "('h, 'k, 'st) ctl_ops \<Rightarrow> 'h option \<Rightarrow> 'st set \<Rightarrow> 'h \<Rightarrow> 'h" where
  "restrict_after K h S t =
     (case h of None \<Rightarrow> rel_inter (ct_rel K) t S | Some h \<Rightarrow> Hcomp (rel_hom (ct_rel K)) h t)"

definition or_id_fixpoint :: "('h, 'k, 'st) ctl_ops \<Rightarrow> 'h \<Rightarrow> 'h" where
  "or_id_fixpoint K t = rel_fixpoint (ct_rel K) (Hor (rel_hom (ct_rel K)) t (Hid (rel_hom (ct_rel K))))"

definition exact_ID ::
  "('h, 'k, 'st) ctl_ops \<Rightarrow> ('ty, 'h, 'st) type_calls \<Rightarrow> string \<Rightarrow> string \<Rightarrow> ('ty, 'h, 'st) states" where
  "exact_ID K C n v =
     bnd (\<lambda>c. of_res (getSelectorAP C n v (ck_model c)) c) (\<lambda>sel.
     bnd (CTLChecker_getReachable K C) (\<lambda>reach. ret (rel_app (ct_rel K) sel reach)))"

definition exact_NOT ::
  "('h, 'k, 'st) ctl_ops \<Rightarrow> ('ty, 'h, 'st) type_calls \<Rightarrow> Ctlp_Formula \<Rightarrow> (bool \<Rightarrow> ('ty, 'h, 'st) states) \<Rightarrow> ('ty, 'h, 'st) states" where
  "exact_NOT K C f sl =
     bnd (child K C f sl) (\<lambda>(_, L). bnd (CTLChecker_getReachable K C) (\<lambda>reach. ret (reach - L)))"

definition exact_AND ::
  "('h, 'k, 'st) ctl_ops \<Rightarrow> ('ty, 'h, 'st) type_calls \<Rightarrow> Ctlp_Formula \<Rightarrow> Ctlp_Formula \<Rightarrow>
     (bool \<Rightarrow> ('ty, 'h, 'st) states) \<Rightarrow> (bool \<Rightarrow> ('ty, 'h, 'st) states) \<Rightarrow> ('ty, 'h, 'st) states" where
  "exact_AND K C f g sl sr =
     bnd (getHom_of K C g) (\<lambda>rh.
       case (rh, f) of
         (Some h, Ctlp_Init) \<Rightarrow> bnd (CTLChecker_getInitialState K C) (\<lambda>M0. ret (rel_app (ct_rel K) h M0))
       | _ \<Rightarrow>
           bnd (sr True) (\<lambda>Rr.
             if Rr = {} then ret {} else bnd (child K C f sl) (\<lambda>(_, L). ret (L \<inter> Rr))))"

definition exact_OR ::
  "('h, 'k, 'st) ctl_ops \<Rightarrow> ('ty, 'h, 'st) type_calls \<Rightarrow> Ctlp_Formula \<Rightarrow> Ctlp_Formula \<Rightarrow>
     (bool \<Rightarrow> ('ty, 'h, 'st) states) \<Rightarrow> (bool \<Rightarrow> ('ty, 'h, 'st) states) \<Rightarrow> ('ty, 'h, 'st) states" where
  "exact_OR K C f g sl sr = bnd (child K C f sl) (\<lambda>(_, L). bnd (child K C g sr) (\<lambda>(_, Rr). ret (L \<union> Rr)))"

definition exact_THEN ::
  "('h, 'k, 'st) ctl_ops \<Rightarrow> ('ty, 'h, 'st) type_calls \<Rightarrow> Ctlp_Formula \<Rightarrow> Ctlp_Formula \<Rightarrow>
     (bool \<Rightarrow> ('ty, 'h, 'st) states) \<Rightarrow> (bool \<Rightarrow> ('ty, 'h, 'st) states) \<Rightarrow> ('ty, 'h, 'st) states" where
  "exact_THEN K C f g sl sr =
     bnd (child K C f sl) (\<lambda>(_, L). bnd (child K C g sr) (\<lambda>(_, Rr).
     bnd (CTLChecker_getReachable K C) (\<lambda>reach. ret ((reach - L) \<union> Rr))))"

definition exact_EX ::
  "('h, 'k, 'st) ctl_ops \<Rightarrow> ('ty, 'h, 'st) type_calls \<Rightarrow> Ctlp_Formula \<Rightarrow> (bool \<Rightarrow> ('ty, 'h, 'st) states) \<Rightarrow> ('ty, 'h, 'st) states" where
  "exact_EX K C f sl =
     bnd (child K C f sl) (\<lambda>(_, L). bnd (CTLChecker_getPredRel K C {}) (\<lambda>pred. ret (rel_app (ct_rel K) pred L)))"

definition exact_EU ::
  "('h, 'k, 'st) ctl_ops \<Rightarrow> ('ty, 'h, 'st) type_calls \<Rightarrow> Ctlp_Formula \<Rightarrow> Ctlp_Formula \<Rightarrow>
     (bool \<Rightarrow> ('ty, 'h, 'st) states) \<Rightarrow> (bool \<Rightarrow> ('ty, 'h, 'st) states) \<Rightarrow> ('ty, 'h, 'st) states" where
  "exact_EU K C f g sl sr =
     bnd (child K C f sl) (\<lambda>(lh, L). bnd (child K C g sr) (\<lambda>(_, Rr).
     bnd (CTLChecker_getPredRel K C {}) (\<lambda>pred. ret (rel_app (ct_rel K) (or_id_fixpoint K (restrict_after K lh L pred)) Rr))))"

text \<open>States that reach a dead state of \<open>L\<close> inside \<open>L\<close>, and those that can stay in \<open>L\<close> forever. The second
  part is skipped when there are no cycles.\<close>

definition exact_EG ::
  "('h, 'k, 'st) ctl_ops \<Rightarrow> ('ty, 'h, 'st) type_calls \<Rightarrow> Ctlp_Formula \<Rightarrow> (bool \<Rightarrow> ('ty, 'h, 'st) states) \<Rightarrow> ('ty, 'h, 'st) states" where
  "exact_EG K C f sl =
     bnd (child K C f sl) (\<lambda>(lh, L).
     bnd (getReachableDeadlocks K C) (\<lambda>dead.
     bnd (CTLChecker_getPredRel K C {}) (\<lambda>pred.
     bnd (hasSCCs K C) (\<lambda>sccs.
       let deadg = rel_app (ct_rel K) (or_id_fixpoint K (restrict_after K lh L pred)) (dead \<inter> L);
           egfix = ct_fixpoint K (case lh of
               None \<Rightarrow> ct_meet K pred (Hid (rel_hom (ct_rel K)))
             | Some h \<Rightarrow> ct_hom K (Hcomp (rel_hom (ct_rel K)) h pred))
       in ret (if \<not> sccs then deadg
               else if ct_has_image K egfix L = {} then deadg
               else ct_app K egfix L \<union> deadg)))))"

definition exact_FwdU ::
  "('h, 'k, 'st) ctl_ops \<Rightarrow> ('ty, 'h, 'st) type_calls \<Rightarrow> Ctlp_Formula \<Rightarrow> Ctlp_Formula \<Rightarrow>
     (bool \<Rightarrow> ('ty, 'h, 'st) states) \<Rightarrow> (bool \<Rightarrow> ('ty, 'h, 'st) states) \<Rightarrow> ('ty, 'h, 'st) states" where
  "exact_FwdU K C f g sl sr =
     (let R = ct_rel K; H = rel_hom R
      in bnd (child K C f sl) (\<lambda>(lh, L). bnd (child K C g sr) (\<lambda>(rh, Rr).
           if f = Ctlp_Init \<and> g = Ctlp_TRUE then CTLChecker_getReachable K C
           else
             bnd (CTLChecker_getNextRel K C) (\<lambda>nextRel.
               case rh of
                 None \<Rightarrow>
                   bnd (CTLChecker_getReachable K C) (\<lambda>reach.
                     ret (rel_app R (or_id_fixpoint K
                       (if Rr = reach then nextRel else Hcomp H nextRel (rel_inter R (Hid H) Rr))) L))
               | Some h \<Rightarrow> ret (rel_app R (or_id_fixpoint K (Hcomp H nextRel h)) L)))))"

definition exact_FwdG ::
  "('h, 'k, 'st) ctl_ops \<Rightarrow> ('ty, 'h, 'st) type_calls \<Rightarrow> Ctlp_Formula \<Rightarrow> Ctlp_Formula \<Rightarrow>
     (bool \<Rightarrow> ('ty, 'h, 'st) states) \<Rightarrow> (bool \<Rightarrow> ('ty, 'h, 'st) states) \<Rightarrow> ('ty, 'h, 'st) states" where
  "exact_FwdG K C f g sl sr =
     (let R = ct_rel K; H = rel_hom R
      in bnd (child K C f sl) (\<lambda>(lh, L). bnd (child K C g sr) (\<lambda>(rh, Rr).
         bnd (getReachableDeadlocks K C) (\<lambda>dead0.
         bnd (hasSCCs K C) (\<lambda>sccs.
           let dead = (if sccs then dead0 else dead0 \<inter> Rr)
           in if \<not> sccs \<and> dead = {} then ret {}
              else
                bnd (CTLChecker_getReachable K C) (\<lambda>reach.
                bnd (CTLChecker_getNextRel K C) (\<lambda>nextRel.
                  let pq = (case (lh, rh) of (Some a, Some b) \<Rightarrow> rel_app R (Hcomp H a b) reach | _ \<Rightarrow> L \<inter> Rr);
                      reachpq = rel_app R (or_id_fixpoint K (restrict_after K rh Rr nextRel)) pq
                  in ret (if \<not> sccs then dead \<inter> reachpq
                          else ct_app K (ct_fixpoint K (ct_meet K nextRel (Hid H))) reachpq \<union> (dead \<inter> reachpq)))))))))"

definition exact_EY ::
  "('h, 'k, 'st) ctl_ops \<Rightarrow> ('ty, 'h, 'st) type_calls \<Rightarrow> Ctlp_Formula \<Rightarrow> (bool \<Rightarrow> ('ty, 'h, 'st) states) \<Rightarrow> ('ty, 'h, 'st) states" where
  "exact_EY K C f sl =
     bnd (child K C f sl) (\<lambda>(_, L). bnd (CTLChecker_getNextRel K C) (\<lambda>nextRel. ret (rel_app (ct_rel K) nextRel L)))"

definition exact_Cmp :: "('h, 'k, 'st) ctl_ops \<Rightarrow> int \<Rightarrow> (bool \<Rightarrow> ('ty, 'h, 'st) states) \<Rightarrow> ('ty, 'h, 'st) states" where
  "exact_Cmp K v sl =
     bnd (sl False) (\<lambda>L. ret (if v = 0 then (if L = {} then ct_one K else {}) else (if L = {} then {} else ct_one K)))"

text \<open>The children are computed before an operator that is not supported is met.\<close>

definition unsupported1 ::
  "('h, 'k, 'st) ctl_ops \<Rightarrow> ('ty, 'h, 'st) type_calls \<Rightarrow> Ctlp_Formula \<Rightarrow> (bool \<Rightarrow> ('ty, 'h, 'st) states) \<Rightarrow> ('ty, 'h, 'st) states" where
  "unsupported1 K C f sl = bnd (child K C f sl) (\<lambda>_. of_res unknown_type)"

definition unsupported2 ::
  "('h, 'k, 'st) ctl_ops \<Rightarrow> ('ty, 'h, 'st) type_calls \<Rightarrow> Ctlp_Formula \<Rightarrow> Ctlp_Formula \<Rightarrow>
     (bool \<Rightarrow> ('ty, 'h, 'st) states) \<Rightarrow> (bool \<Rightarrow> ('ty, 'h, 'st) states) \<Rightarrow> 'st set res \<Rightarrow> ('ty, 'h, 'st) states" where
  "unsupported2 K C f g sl sr failure = bnd (child K C f sl) (\<lambda>_. bnd (child K C g sr) (\<lambda>_. of_res failure))"

section \<open>The states of a formula\<close>

definition child_hom ::
  "('h, 'k, 'st) ctl_ops \<Rightarrow> ('ty, 'h, 'st) type_calls \<Rightarrow> Ctlp_Formula option \<Rightarrow> (('ty, 'h, 'st) CTLChecker, 'h option) op" where
  "child_hom K C f = (case f of None \<Rightarrow> ret (Some (Hid (rel_hom (ct_rel K)))) | Some f \<Rightarrow> getHom_of K C f)"

definition verifying ::
  "('h, 'k, 'st) ctl_ops \<Rightarrow> ('ty, 'h, 'st) type_calls \<Rightarrow> Ctlp_Formula \<Rightarrow> bool \<Rightarrow>
     (bool \<Rightarrow> ('ty, 'h, 'st) states) \<Rightarrow> (bool \<Rightarrow> ('ty, 'h, 'st) states) \<Rightarrow> ('ty, 'h, 'st) states \<Rightarrow> ('ty, 'h, 'st) states" where
  "verifying K C f need_exact sl sr exact =
     (if need_exact then exact
      else
        bnd (child_hom K C (Ctlp_FormulaReadLeftChild f)) (\<lambda>lh.
        bnd (child_hom K C (Ctlp_FormulaReadRightChild f)) (\<lambda>rh.
        bnd (inexact K C f lh rh sl sr) (\<lambda>answer. case answer of Some S \<Rightarrow> ret S | None \<Rightarrow> exact))))"

abbreviation (input) no_child :: "bool \<Rightarrow> ('ty, 'h, 'st) states" where "no_child \<equiv> \<lambda>_. ret {}"

fun getStateVerifying ::
  "('h, 'k, 'st) ctl_ops \<Rightarrow> ('ty, 'h, 'st) type_calls \<Rightarrow> Ctlp_Formula \<Rightarrow> bool \<Rightarrow> ('ty, 'h, 'st) states" where
  "getStateVerifying K C (Ctlp_NOT (Ctlp_NOT f)) e =
     verifying K C (Ctlp_NOT (Ctlp_NOT f)) e (getStateVerifying K C (Ctlp_NOT f)) no_child (getStateVerifying K C f e)"
| "getStateVerifying K C (Ctlp_NOT f) e =
     verifying K C (Ctlp_NOT f) e (getStateVerifying K C f) no_child (exact_NOT K C f (getStateVerifying K C f))"
| "getStateVerifying K C (Ctlp_ID n v) e = verifying K C (Ctlp_ID n v) e no_child no_child (exact_ID K C n v)"
| "getStateVerifying K C Ctlp_TRUE e = verifying K C Ctlp_TRUE e no_child no_child (CTLChecker_getReachable K C)"
| "getStateVerifying K C Ctlp_FALSE e = verifying K C Ctlp_FALSE e no_child no_child (ret {})"
| "getStateVerifying K C Ctlp_Init e = verifying K C Ctlp_Init e no_child no_child (CTLChecker_getInitialState K C)"
| "getStateVerifying K C (Ctlp_AND f g) e =
     verifying K C (Ctlp_AND f g) e (getStateVerifying K C f) (getStateVerifying K C g)
       (exact_AND K C f g (getStateVerifying K C f) (getStateVerifying K C g))"
| "getStateVerifying K C (Ctlp_OR f g) e =
     verifying K C (Ctlp_OR f g) e (getStateVerifying K C f) (getStateVerifying K C g)
       (exact_OR K C f g (getStateVerifying K C f) (getStateVerifying K C g))"
| "getStateVerifying K C (Ctlp_THEN f g) e =
     verifying K C (Ctlp_THEN f g) e (getStateVerifying K C f) (getStateVerifying K C g)
       (exact_THEN K C f g (getStateVerifying K C f) (getStateVerifying K C g))"
| "getStateVerifying K C (Ctlp_EX f) e =
     verifying K C (Ctlp_EX f) e (getStateVerifying K C f) no_child (exact_EX K C f (getStateVerifying K C f))"
| "getStateVerifying K C (Ctlp_EU f g) e =
     verifying K C (Ctlp_EU f g) e (getStateVerifying K C f) (getStateVerifying K C g)
       (exact_EU K C f g (getStateVerifying K C f) (getStateVerifying K C g))"
| "getStateVerifying K C (Ctlp_EG f) e =
     verifying K C (Ctlp_EG f) e (getStateVerifying K C f) no_child (exact_EG K C f (getStateVerifying K C f))"
| "getStateVerifying K C (Ctlp_FwdU f g) e =
     verifying K C (Ctlp_FwdU f g) e (getStateVerifying K C f) (getStateVerifying K C g)
       (exact_FwdU K C f g (getStateVerifying K C f) (getStateVerifying K C g))"
| "getStateVerifying K C (Ctlp_FwdG f g) e =
     verifying K C (Ctlp_FwdG f g) e (getStateVerifying K C f) (getStateVerifying K C g)
       (exact_FwdG K C f g (getStateVerifying K C f) (getStateVerifying K C g))"
| "getStateVerifying K C (Ctlp_EY f) e =
     verifying K C (Ctlp_EY f) e (getStateVerifying K C f) no_child (exact_EY K C f (getStateVerifying K C f))"
| "getStateVerifying K C (Ctlp_Cmp f g v) e =
     verifying K C (Ctlp_Cmp f g v) e (getStateVerifying K C f) (getStateVerifying K C g)
       (exact_Cmp K v (getStateVerifying K C f))"
| "getStateVerifying K C (Ctlp_EQ f g) e =
     verifying K C (Ctlp_EQ f g) e (getStateVerifying K C f) (getStateVerifying K C g)
       (unsupported2 K C f g (getStateVerifying K C f) (getStateVerifying K C g) assert_false)"
| "getStateVerifying K C (Ctlp_XOR f g) e =
     verifying K C (Ctlp_XOR f g) e (getStateVerifying K C f) (getStateVerifying K C g)
       (unsupported2 K C f g (getStateVerifying K C f) (getStateVerifying K C g) assert_false)"
| "getStateVerifying K C (Ctlp_AU f g) e =
     verifying K C (Ctlp_AU f g) e (getStateVerifying K C f) (getStateVerifying K C g)
       (unsupported2 K C f g (getStateVerifying K C f) (getStateVerifying K C g) unknown_type)"
| "getStateVerifying K C (Ctlp_EF f) e =
     verifying K C (Ctlp_EF f) e (getStateVerifying K C f) no_child (unsupported1 K C f (getStateVerifying K C f))"
| "getStateVerifying K C (Ctlp_AX f) e =
     verifying K C (Ctlp_AX f) e (getStateVerifying K C f) no_child (unsupported1 K C f (getStateVerifying K C f))"
| "getStateVerifying K C (Ctlp_AG f) e =
     verifying K C (Ctlp_AG f) e (getStateVerifying K C f) no_child (unsupported1 K C f (getStateVerifying K C f))"
| "getStateVerifying K C (Ctlp_AF f) e =
     verifying K C (Ctlp_AF f) e (getStateVerifying K C f) no_child (unsupported1 K C f (getStateVerifying K C f))"
| "getStateVerifying K C (Ctlp_EH f) e =
     verifying K C (Ctlp_EH f) e (getStateVerifying K C f) no_child (unsupported1 K C f (getStateVerifying K C f))"

section \<open>The verdicts of the tool\<close>

text \<open>
  The loop of \<open>main\<close> over the formulas of the file: whether the answer for the existential form, wrapped in
  a comparison, is \<open>State::one\<close>, and for the forward form. No witness is asked for.
\<close>

definition backward_verdict ::
  "('h, 'k, 'st) ctl_ops \<Rightarrow> ('ty, 'h, 'st) type_calls \<Rightarrow> Ctlp_Formula \<Rightarrow> (('ty, 'h, 'st) CTLChecker, bool) op" where
  "backward_verdict K C formula =
     bnd (getStateVerifying K C (Ctlp_ConvertToCmpFormula formula) False) (\<lambda>verif2. ret (verif2 = ct_one K))"

definition forward_verdict ::
  "('h, 'k, 'st) ctl_ops \<Rightarrow> ('ty, 'h, 'st) type_calls \<Rightarrow> Ctlp_Formula \<Rightarrow> (('ty, 'h, 'st) CTLChecker, bool) op" where
  "forward_verdict K C formula =
     bnd (getStateVerifying K C formula False) (\<lambda>verif3. ret (verif3 = ct_one K))"

definition verdict_if :: "('a \<Rightarrow> ('c, bool) op) \<Rightarrow> 'a option \<Rightarrow> ('c, bool option) op" where
  "verdict_if check f = (case f of None \<Rightarrow> ret None | Some f \<Rightarrow> bnd (check f) (\<lambda>v. ret (Some v)))"

fun formula_loop ::
  "('h, 'k, 'st) ctl_ops \<Rightarrow> ('ty, 'h, 'st) type_calls \<Rightarrow> (Ctlp_Formula option \<times> Ctlp_Formula option) list \<Rightarrow>
     (('ty, 'h, 'st) CTLChecker, (bool option \<times> bool option) list) op" where
  "formula_loop K C [] = ret []"
| "formula_loop K C ((bw, fw) # fs) =
     bnd (verdict_if (backward_verdict K C) bw) (\<lambda>vb.
     bnd (verdict_if (forward_verdict K C) fw) (\<lambda>vf.
     bnd (formula_loop K C fs) (\<lambda>vs. ret ((vb, vf) # vs))))"

definition check_formulas ::
  "('h, 'k, 'st) ctl_ops \<Rightarrow> ('ty, 'h, 'st) type_calls \<Rightarrow> bool \<Rightarrow> bool \<Rightarrow> Ctlp_Formula list \<Rightarrow>
     (('ty, 'h, 'st) CTLChecker, (bool option \<times> bool option) list) op" where
  "check_formulas K C dobwtranslation dofwtranslation formulas =
     bnd (CTLChecker_getReachable K C) (\<lambda>_.
     bnd (of_res (if dofwtranslation then Ctlp_FormulaArrayConvertToForward formulas True else Inr [])) (\<lambda>forwards.
     bnd (of_res (Ctlp_FormulaDAGConvertToExistentialFormDAG formulas)) (\<lambda>existentials.
       formula_loop K C
         (zip (map (\<lambda>f. if dobwtranslation then Some f else None) existentials)
           (if dofwtranslation then map Some forwards else map (\<lambda>_. None) existentials)))))"

end
