(* ===== verification/Ctl_Forward_Sound.thy ===== *)
theory Ctl_Forward_Sound imports Ctl_Forward begin

text \<open>
  The conversion to forward form keeps the verdict: whether some state of \<open>r\<close> satisfies \<open>f\<close> can be read on
  the states computed forward from \<open>r\<close>.
\<close>

section \<open>Chains in a finite system\<close>

lemma chain_exists:
  assumes "\<And>x. x \<in> X \<Longrightarrow> \<exists>y\<in>X. E x y" "x \<in> X"
  shows "\<exists>p. p (0 :: nat) = x \<and> (\<forall>i. p i \<in> X \<and> E (p i) (p (Suc i)))"
proof -
  define p where "p = rec_nat x (\<lambda>_ z. SOME y. y \<in> X \<and> E z y)"
  have some: "(SOME y. y \<in> X \<and> E z y) \<in> X \<and> E z (SOME y. y \<in> X \<and> E z y)" if "z \<in> X" for z
    using someI_ex [of "\<lambda>y. y \<in> X \<and> E z y"] assms(1) [OF that] by blast
  have "p i \<in> X" for i by (induction i) (use assms(2) some in \<open>auto simp: p_def\<close>)
  moreover have "E (p i) (p (Suc i))" for i using some [OF \<open>p i \<in> X\<close>] by (simp add: p_def)
  moreover have "p 0 = x" by (simp add: p_def)
  ultimately show ?thesis by blast
qed

lemma chain_repeats:
  assumes "finite S" "\<And>i :: nat. p i \<in> S"
  obtains i j where "i < j" "p i = p j"
proof -
  have "\<not> inj p"
    using assms finite_imageD [of p UNIV] finite_subset [of "range p" S] by (auto simp: inj_def)
  then obtain i j where "i \<noteq> j" "p i = p j" by (auto simp: inj_def)
  with that show ?thesis by (metis nat_neq_iff)
qed

text \<open>On a chain that comes back, each element between the two has the one after it, and the one before it.\<close>

lemma cycle_next:
  assumes "i < j" "p i = p j" "x \<in> p ` {i..<j}"
  shows "\<exists>k. i \<le> k \<and> k < j \<and> x = p k \<and> p (Suc k) \<in> p ` {i..<j}"
proof -
  obtain k where k: "i \<le> k" "k < j" "x = p k" using assms(3) by auto
  have "p (Suc k) \<in> p ` {i..<j}"
  proof (cases "Suc k = j")
    case True
    then have "p (Suc k) = p i" using assms(2) by simp
    with assms(1) show ?thesis by auto
  next
    case False
    with k show ?thesis by auto
  qed
  with k show ?thesis by blast
qed

lemma cycle_prev:
  assumes "i < j" "p i = p j" "x \<in> p ` {i..<j}"
  shows "\<exists>k. i \<le> k \<and> k < j \<and> x = p (Suc k)"
proof -
  obtain k where k: "i \<le> k" "k < j" "x = p k" using assms(3) by auto
  show ?thesis
  proof (cases "k = i")
    case True
    with k(3) assms(2) have "x = p (Suc (j - 1))" using assms(1) by simp
    with assms(1) show ?thesis by (intro exI [of _ "j - 1"]) auto
  next
    case False
    then have "x = p (Suc (k - 1))" using k by simp
    with k False show ?thesis by (intro exI [of _ "k - 1"]) auto
  qed
qed

section \<open>Forward and backward until\<close>

lemma until_forward:
  assumes "run K s p" "until Q G p"
  shows "\<exists>t\<in>G. (\<lambda>a b. a \<in> Q \<and> k_step K a b)\<^sup>*\<^sup>* s t"
proof -
  obtain i where i: "p i \<in> G" "\<forall>j<i. p j \<in> Q" using assms(2) by (auto simp: until_def)
  have "(\<lambda>a b. a \<in> Q \<and> k_step K a b)\<^sup>*\<^sup>* s (p j)" if "j \<le> i" for j
    using that
  proof (induction j)
    case 0
    then show ?case using assms(1) by (simp add: run_def)
  next
    case (Suc j)
    then have "p j \<in> Q" using i(2) by simp
    moreover have "run_step K (p j) (p (Suc j))" using assms(1) by (simp add: run_def)
    ultimately show ?case using Suc by (auto simp: run_step_def intro: rtranclp.rtrancl_into_rtrancl)
  qed
  with i(1) show ?thesis by blast
qed

lemma forward_EU:
  assumes "(\<lambda>a b. a \<in> Q \<and> k_step K a b)\<^sup>*\<^sup>* s t" "t \<in> G"
  shows "\<exists>p. run K s p \<and> until Q G p"
  using assms(1)
proof (induction rule: converse_rtranclp_induct)
  case base
  obtain p where "run K t p" using run_exists by metis
  moreover from this have "until Q G p" using assms(2) by (auto simp: until_def run_def intro!: exI [of _ 0])
  ultimately show ?case by blast
next
  case (step a b)
  then show ?case using EU_step [of K a b] by blast
qed

lemma forward_until_meets:
  "forward_until K P Q \<inter> G \<noteq> {} \<longleftrightarrow> (\<exists>s\<in>P. \<exists>p. run K s p \<and> until Q G p)"
proof
  assume "forward_until K P Q \<inter> G \<noteq> {}"
  then obtain s t where "s \<in> P" "(\<lambda>a b. a \<in> Q \<and> k_step K a b)\<^sup>*\<^sup>* s t" "t \<in> G" by (auto simp: forward_until_def)
  with forward_EU [OF this(2,3)] show "\<exists>s\<in>P. \<exists>p. run K s p \<and> until Q G p" by blast
next
  assume "\<exists>s\<in>P. \<exists>p. run K s p \<and> until Q G p"
  then obtain s p where "s \<in> P" "run K s p" "until Q G p" by blast
  with until_forward [OF this(2,3)] show "forward_until K P Q \<inter> G \<noteq> {}" by (auto simp: forward_until_def)
qed

section \<open>Forward and backward always\<close>

lemma always_run:
  assumes "\<And>x. x \<in> X \<Longrightarrow> \<exists>y\<in>X. run_step K x y" "X \<subseteq> Q" "x \<in> X"
  shows "\<exists>p. run K x p \<and> always Q p"
proof -
  obtain p where "p 0 = x" "\<forall>i. p i \<in> X \<and> run_step K (p i) (p (Suc i))"
    using chain_exists [of X "run_step K" x, OF assms(1,3)] by blast
  then have "run K x p \<and> always Q p" using assms(2) by (auto simp: run_def always_def)
  then show ?thesis by blast
qed

lemma always_back:
  assumes "(\<lambda>a b. a \<in> Q \<and> k_step K a b)\<^sup>*\<^sup>* s t" "\<exists>p. run K t p \<and> always Q p"
  shows "\<exists>p. run K s p \<and> always Q p"
  using assms(1)
proof (induction rule: converse_rtranclp_induct)
  case (step a b)
  then obtain p where p: "run K b p" "always Q p" by blast
  have "run K a (case_nat a p)" using step(1) p(1) by (intro run_Cons) (auto simp: run_step_def)
  moreover have "always Q (case_nat a p)" using step(1) p(2) by (auto simp: always_def split: nat.split)
  ultimately show ?case by blast
qed (rule assms(2))

lemma always_dead:
  assumes "dead K t" "t \<in> Q"
  shows "\<exists>p. run K t p \<and> always Q p"
  using assms by (intro always_run [of "{t}"]) (auto simp: run_step_def)

text \<open>A set of states each with a predecessor in it has a cycle, hence a run that stays in it.\<close>

lemma cycle_always:
  assumes "finite S" "\<And>i. p i \<in> S" "\<And>i :: nat. k_step K (p (Suc i)) (p i)"
  shows "\<exists>t\<in>S. \<exists>q. run K t q \<and> always S q"
proof -
  obtain i j where ij: "i < j" "p i = p j" using chain_repeats [OF assms(1), of p] assms(2) by blast
  let ?X = "p ` {i..<j}"
  have "\<exists>y\<in>?X. run_step K x y" if x: "x \<in> ?X" for x
  proof -
    obtain k where "i \<le> k" "k < j" "x = p (Suc k)" using cycle_prev [OF ij x] by blast
    then show ?thesis using assms(3) [of k] by (intro bexI [of _ "p k"]) (auto simp: run_step_def)
  qed
  moreover have "?X \<subseteq> S" using assms(2) by auto
  moreover have "p i \<in> ?X" using ij(1) by simp
  ultimately have "\<exists>q. run K (p i) q \<and> always S q" by (intro always_run [of ?X]) auto
  with assms(2) show ?thesis by blast
qed

text \<open>A run without dead states in a finite set meets a chain of predecessors.\<close>

lemma run_cycle:
  assumes "finite S" "\<And>i. p i \<in> S" "\<And>i :: nat. k_step K (p i) (p (Suc i))"
  shows "\<exists>t. \<exists>q. q 0 = t \<and> (\<forall>i. q i \<in> S) \<and> (\<forall>i :: nat. k_step K (q (Suc i)) (q i))"
proof -
  obtain i j where ij: "i < j" "p i = p j" using chain_repeats [OF assms(1), of p] assms(2) by blast
  let ?X = "p ` {i..<j}"
  have "\<exists>y\<in>?X. k_step K y x" if x: "x \<in> ?X" for x
  proof -
    obtain k where "i \<le> k" "k < j" "x = p (Suc k)" using cycle_prev [OF ij x] by blast
    then show ?thesis using assms(3) [of k] by (intro bexI [of _ "p k"]) auto
  qed
  moreover have "p i \<in> ?X" using ij(1) by simp
  ultimately obtain q where "q 0 = p i" "\<forall>k. q k \<in> ?X \<and> k_step K (q (Suc k)) (q k)"
    using chain_exists [of ?X "\<lambda>x y. k_step K y x" "p i"] by blast
  moreover have "?X \<subseteq> S" using assms(2) by auto
  ultimately show ?thesis by blast
qed

lemma forward_global_meets:
  assumes "finite (k_states K)" "closed K" "P \<subseteq> k_states K"
  shows "forward_global K P Q \<noteq> {} \<longleftrightarrow> (\<exists>s\<in>P. \<exists>p. run K s p \<and> always Q p)"
proof
  let ?S = "forward_until K P Q \<inter> Q"
  have fin: "finite ?S" using forward_until_in [OF assms(2,3)] assms(1) by (meson finite_Int finite_subset)
  { assume "forward_global K P Q \<noteq> {}"
    then consider p where "\<forall>i. p i \<in> ?S" "\<forall>i::nat. k_step K (p (Suc i)) (p i)" | t where "t \<in> ?S" "dead K t"
      by (auto simp: forward_global_def Let_def)
    then obtain t where t: "t \<in> ?S" "\<exists>q. run K t q \<and> always Q q"
    proof cases
      case 1
      then obtain t q where "t \<in> ?S" "run K t q" "always ?S q" using cycle_always [OF fin, of p] by blast
      moreover have "always ?S q \<Longrightarrow> always Q q" by (auto simp: always_def)
      ultimately show ?thesis using that by blast
    next
      case 2
      then show ?thesis using always_dead [of K t Q] that by blast
    qed
    then obtain s where "s \<in> P" "(\<lambda>a b. a \<in> Q \<and> k_step K a b)\<^sup>*\<^sup>* s t" by (auto simp: forward_until_def)
    with always_back [OF this(2) t(2)] show "\<exists>s\<in>P. \<exists>p. run K s p \<and> always Q p" by blast }
  assume "\<exists>s\<in>P. \<exists>p. run K s p \<and> always Q p"
  then obtain s p where p: "s \<in> P" "run K s p" "\<And>i. p i \<in> Q" by (auto simp: always_def)
  have in_S: "p i \<in> ?S" for i
  proof -
    have "(\<lambda>a b. a \<in> Q \<and> k_step K a b)\<^sup>*\<^sup>* s (p i)"
    proof (induction i)
      case 0
      then show ?case using p(2) by (simp add: run_def)
    next
      case (Suc i)
      moreover have "run_step K (p i) (p (Suc i))" using p(2) by (simp add: run_def)
      ultimately show ?case using p(3) by (auto simp: run_step_def intro: rtranclp.rtrancl_into_rtrancl)
    qed
    with p(1,3) show ?thesis by (auto simp: forward_until_def)
  qed
  show "forward_global K P Q \<noteq> {}"
  proof (cases "\<exists>i. dead K (p i)")
    case True
    then show ?thesis using in_S by (auto simp: forward_global_def Let_def)
  next
    case False
    then have "k_step K (p i) (p (Suc i))" for i using p(2) by (auto simp: run_def run_step_def)
    from run_cycle [of _ p, OF fin in_S this] show ?thesis by (auto simp: forward_global_def Let_def)
  qed
qed

section \<open>The cases of the conversion\<close>

text \<open>Some state of \<open>r\<close> satisfies \<open>f\<close>.\<close>

definition meets :: "'s kripke \<Rightarrow> Ctlp_Formula \<Rightarrow> Ctlp_Formula \<Rightarrow> bool" where
  "meets K r f \<longleftrightarrow> ctl_sem K r \<inter> ctl_sem K f \<noteq> {}"

text \<open>What a case answers for \<open>AND r f\<close>, and that it only builds formulas on states.\<close>

fun goal_meets :: "'s kripke \<Rightarrow> forward_goal \<Rightarrow> bool" where
  "goal_meets K (Stay p) \<longleftrightarrow> ctl_sem K p \<noteq> {}"
| "goal_meets K (Go r f) \<longleftrightarrow> meets K r f"
| "goal_meets K (Split r1 f1 r2 f2) \<longleftrightarrow> meets K r1 f1 \<or> meets K r2 f2"
| "goal_meets K (Stop e) \<longleftrightarrow> True"

fun goal_states :: "forward_goal \<Rightarrow> bool" where
  "goal_states (Stay p) \<longleftrightarrow> state_formula p"
| "goal_states (Go r f) \<longleftrightarrow> state_formula r \<and> state_formula f"
| "goal_states (Split r1 f1 r2 f2) \<longleftrightarrow> state_formula r1 \<and> state_formula f1 \<and> state_formula r2 \<and> state_formula f2"
| "goal_states (Stop e) \<longleftrightarrow> True"

lemma forward_step_states: "state_formula r \<Longrightarrow> state_formula f \<Longrightarrow> goal_states (forward_step r f)"
proof (cases f)
  case (Ctlp_NOT g)
  then show "state_formula r \<Longrightarrow> state_formula f \<Longrightarrow> ?thesis"
    by (cases g) (auto simp: forward_cases)
qed (auto simp: forward_cases)

lemma meets_boolean:
  assumes "closed K" "state_formula r" "state_formula p" "state_formula q"
  shows "meets K r (Ctlp_NOT (Ctlp_NOT p)) \<longleftrightarrow> meets K r p"
    "meets K r (Ctlp_NOT (Ctlp_THEN p q)) \<longleftrightarrow> meets K (Ctlp_AND r p) (Ctlp_NOT q)"
    "meets K r (Ctlp_NOT (Ctlp_OR p q)) \<longleftrightarrow> meets K (Ctlp_AND r (Ctlp_NOT p)) (Ctlp_NOT q)"
    "meets K r (Ctlp_NOT (Ctlp_AND p q)) \<longleftrightarrow> meets K r (Ctlp_NOT p) \<or> meets K r (Ctlp_NOT q)"
    "meets K r (Ctlp_THEN p q) \<longleftrightarrow> meets K r (Ctlp_NOT p) \<or> meets K r q"
    "meets K r (Ctlp_OR p q) \<longleftrightarrow> meets K r p \<or> meets K r q"
    "meets K r (Ctlp_AND p q) \<longleftrightarrow> meets K (Ctlp_AND r p) q"
    "meets K r (Ctlp_XOR p q) \<longleftrightarrow> meets K (Ctlp_AND r p) (Ctlp_NOT q) \<or> meets K (Ctlp_AND r (Ctlp_NOT p)) q"
    "meets K r (Ctlp_EQ p q) \<longleftrightarrow> meets K (Ctlp_AND r p) q \<or> meets K (Ctlp_AND r (Ctlp_NOT p)) (Ctlp_NOT q)"
    "meets K r (Ctlp_NOT (Ctlp_XOR p q)) \<longleftrightarrow> meets K (Ctlp_AND r p) q \<or> meets K (Ctlp_AND r (Ctlp_NOT p)) (Ctlp_NOT q)"
    "meets K r (Ctlp_NOT (Ctlp_EQ p q)) \<longleftrightarrow> meets K (Ctlp_AND r p) (Ctlp_NOT q) \<or> meets K (Ctlp_AND r (Ctlp_NOT p)) q"
    "meets K (Ctlp_AND r p) q \<longleftrightarrow> meets K (Ctlp_AND r q) p"
proof -
  have "ctl_sem K r \<subseteq> k_states K" "ctl_sem K p \<subseteq> k_states K" "ctl_sem K q \<subseteq> k_states K"
    using assms by (simp_all add: ctl_sem_in)
  then show "meets K r (Ctlp_NOT (Ctlp_NOT p)) \<longleftrightarrow> meets K r p"
    "meets K r (Ctlp_NOT (Ctlp_THEN p q)) \<longleftrightarrow> meets K (Ctlp_AND r p) (Ctlp_NOT q)"
    "meets K r (Ctlp_NOT (Ctlp_OR p q)) \<longleftrightarrow> meets K (Ctlp_AND r (Ctlp_NOT p)) (Ctlp_NOT q)"
    "meets K r (Ctlp_NOT (Ctlp_AND p q)) \<longleftrightarrow> meets K r (Ctlp_NOT p) \<or> meets K r (Ctlp_NOT q)"
    "meets K r (Ctlp_THEN p q) \<longleftrightarrow> meets K r (Ctlp_NOT p) \<or> meets K r q"
    "meets K r (Ctlp_OR p q) \<longleftrightarrow> meets K r p \<or> meets K r q"
    "meets K r (Ctlp_AND p q) \<longleftrightarrow> meets K (Ctlp_AND r p) q"
    "meets K r (Ctlp_XOR p q) \<longleftrightarrow> meets K (Ctlp_AND r p) (Ctlp_NOT q) \<or> meets K (Ctlp_AND r (Ctlp_NOT p)) q"
    "meets K r (Ctlp_EQ p q) \<longleftrightarrow> meets K (Ctlp_AND r p) q \<or> meets K (Ctlp_AND r (Ctlp_NOT p)) (Ctlp_NOT q)"
    "meets K r (Ctlp_NOT (Ctlp_XOR p q)) \<longleftrightarrow> meets K (Ctlp_AND r p) q \<or> meets K (Ctlp_AND r (Ctlp_NOT p)) (Ctlp_NOT q)"
    "meets K r (Ctlp_NOT (Ctlp_EQ p q)) \<longleftrightarrow> meets K (Ctlp_AND r p) (Ctlp_NOT q) \<or> meets K (Ctlp_AND r (Ctlp_NOT p)) q"
    "meets K (Ctlp_AND r p) q \<longleftrightarrow> meets K (Ctlp_AND r q) p"
    unfolding meets_def ctl_sem.simps by blast+
qed

lemma meets_paths:
  assumes "closed K" "finite (k_states K)" "state_formula r"
  shows "meets K r (Ctlp_EX f) \<longleftrightarrow> meets K (Ctlp_EY r) f"
    "meets K r (Ctlp_EF f) \<longleftrightarrow> meets K (Ctlp_FwdU r Ctlp_TRUE) f"
    "meets K r (Ctlp_EU q f) \<longleftrightarrow> meets K (Ctlp_FwdU r q) f"
    "meets K r (Ctlp_EG q) \<longleftrightarrow> ctl_sem K (Ctlp_FwdG r q) \<noteq> {}"
proof -
  have r: "ctl_sem K r \<subseteq> k_states K" using assms by (simp add: ctl_sem_in)
  then show "meets K r (Ctlp_EX f) \<longleftrightarrow> meets K (Ctlp_EY r) f"
    unfolding meets_def ctl_sem.simps by blast
  show EU: "meets K r (Ctlp_EU q f) \<longleftrightarrow> meets K (Ctlp_FwdU r q) f" for q
    unfolding meets_def ctl_sem.simps forward_until_meets using r by blast
  have "meets K r (Ctlp_EF f) \<longleftrightarrow> meets K r (Ctlp_EU Ctlp_TRUE f)"
    unfolding meets_def by (simp only: EF_as_EU [OF assms(1)])
  then show "meets K r (Ctlp_EF f) \<longleftrightarrow> meets K (Ctlp_FwdU r Ctlp_TRUE) f" by (simp only: EU)
  show "meets K r (Ctlp_EG q) \<longleftrightarrow> ctl_sem K (Ctlp_FwdG r q) \<noteq> {}"
    unfolding meets_def ctl_sem.simps forward_global_meets [OF assms(2,1) r] using r by blast
qed

lemma meets_stay: "ctl_sem K (Ctlp_AND r f) \<noteq> {} \<longleftrightarrow> meets K r f"
  by (simp add: meets_def)

lemma parity_order_cases:
  "parity_order p q = (f, g, same) \<Longrightarrow> (f, g) = (p, q) \<or> (f, g) = (q, p)"
  by (auto simp: parity_order_def split: if_splits)

lemma both_or_neither_meets:
  assumes "closed K" "state_formula r" "state_formula p" "state_formula q"
  shows "goal_meets K (let (f, g, same) = parity_order p q in both_or_neither r f g same) \<longleftrightarrow>
    meets K (Ctlp_AND r p) q \<or> meets K (Ctlp_AND r (Ctlp_NOT p)) (Ctlp_NOT q)"
proof -
  obtain f g same where fg: "parity_order p q = (f, g, same)" by (cases "parity_order p q")
  have "meets K (Ctlp_AND r (Ctlp_NOT p)) (Ctlp_NOT q) \<longleftrightarrow> meets K (Ctlp_AND r (Ctlp_NOT q)) (Ctlp_NOT p)"
    using meets_boolean(12) [OF assms(1,2), of "Ctlp_NOT p" "Ctlp_NOT q"] assms(3,4) by simp
  then show ?thesis using parity_order_cases [OF fg] meets_boolean(12) [OF assms]
    by (auto simp: fg both_or_neither_def)
qed

lemma forward_not_meets:
  assumes "closed K" "state_formula r" "state_formula f"
  shows "goal_meets K (forward_not r f) \<longleftrightarrow> meets K r (Ctlp_NOT f)"
proof (cases f)
  case (Ctlp_NOT g)
  then show ?thesis using assms meets_boolean(1) [of K r g g] by simp
next
  case (Ctlp_THEN p q)
  then have "state_formula p" "state_formula q" using assms(3) by simp_all
  note m = meets_boolean [OF assms(1,2) this]
  have "meets K (Ctlp_AND r (Ctlp_NOT q)) p \<longleftrightarrow> meets K (Ctlp_AND r p) (Ctlp_NOT q)"
    unfolding meets_def ctl_sem.simps by blast
  then show ?thesis using m by (simp add: Ctlp_THEN forward_not_then_def meets_stay del: ctl_sem.simps)
next
  case (Ctlp_OR p q)
  then have "state_formula p" "state_formula q" using assms(3) by simp_all
  note m = meets_boolean [OF assms(1,2) this]
  have "meets K (Ctlp_AND r (Ctlp_NOT q)) (Ctlp_NOT p) \<longleftrightarrow> meets K (Ctlp_AND r (Ctlp_NOT p)) (Ctlp_NOT q)"
    unfolding meets_def ctl_sem.simps by blast
  then show ?thesis using m by (simp add: Ctlp_OR forward_not_or_def meets_stay del: ctl_sem.simps)
next
  case (Ctlp_AND p q)
  then have "state_formula p" "state_formula q" using assms(3) by simp_all
  note m = meets_boolean [OF assms(1,2) this]
  then show ?thesis by (simp add: Ctlp_AND forward_not_and_def meets_stay del: ctl_sem.simps)
next
  case (Ctlp_XOR p q)
  then have s: "state_formula p" "state_formula q" using assms(3) by simp_all
  show ?thesis using both_or_neither_meets [OF assms(1,2) s] meets_boolean(10) [OF assms(1,2) s]
    by (simp add: Ctlp_XOR forward_not_xor_def meets_stay del: ctl_sem.simps)
next
  case (Ctlp_EQ p q)
  then have s: "state_formula p" "state_formula q" using assms(3) by simp_all
  have swap: "meets K (Ctlp_AND r (Ctlp_NOT p)) q \<longleftrightarrow> meets K (Ctlp_AND r q) (Ctlp_NOT p)"
    "meets K (Ctlp_AND r p) (Ctlp_NOT q) \<longleftrightarrow> meets K (Ctlp_AND r (Ctlp_NOT q)) p"
    unfolding meets_def ctl_sem.simps by blast+
  show ?thesis using meets_boolean(11) [OF assms(1,2) s] swap
    by (auto simp: Ctlp_EQ forward_not_eq_def meets_stay simp del: ctl_sem.simps)
qed (simp_all add: meets_stay del: ctl_sem.simps)

lemma forward_step_meets:
  assumes "closed K" "finite (k_states K)" "state_formula r" "state_formula f" "\<forall>e. forward_step r f \<noteq> Stop e"
  shows "goal_meets K (forward_step r f) \<longleftrightarrow> meets K r f"
proof (cases f)
  case (Ctlp_NOT g)
  then show ?thesis using assms forward_not_meets [OF assms(1,3), of g] by simp
next
  case (Ctlp_THEN p q)
  then have "state_formula p" "state_formula q" using assms(4) by simp_all
  from meets_boolean [OF assms(1,3) this] show ?thesis by (simp add: Ctlp_THEN forward_then_def meets_stay del: ctl_sem.simps)
next
  case (Ctlp_OR p q)
  then have "state_formula p" "state_formula q" using assms(4) by simp_all
  from meets_boolean [OF assms(1,3) this] show ?thesis by (simp add: Ctlp_OR forward_or_def meets_stay del: ctl_sem.simps)
next
  case (Ctlp_AND p q)
  then have "state_formula p" "state_formula q" using assms(4) by simp_all
  from meets_boolean(7,12) [OF assms(1,3) this] show ?thesis by (simp add: Ctlp_AND forward_and_def meets_stay del: ctl_sem.simps)
next
  case (Ctlp_XOR p q)
  then have s: "state_formula p" "state_formula q" using assms(4) by simp_all
  have swap: "meets K (Ctlp_AND r (Ctlp_NOT p)) q \<longleftrightarrow> meets K (Ctlp_AND r q) (Ctlp_NOT p)"
    "meets K (Ctlp_AND r p) (Ctlp_NOT q) \<longleftrightarrow> meets K (Ctlp_AND r (Ctlp_NOT q)) p"
    unfolding meets_def ctl_sem.simps by blast+
  show ?thesis using meets_boolean(8) [OF assms(1,3) s] swap assms(5)
    by (auto simp: Ctlp_XOR forward_xor_def meets_stay simp del: ctl_sem.simps)
next
  case (Ctlp_EQ p q)
  then have s: "state_formula p" "state_formula q" using assms(4) by simp_all
  show ?thesis using both_or_neither_meets [OF assms(1,3) s] meets_boolean(9) [OF assms(1,3) s]
    by (simp add: Ctlp_EQ forward_eq_def meets_stay del: ctl_sem.simps)
qed (use assms meets_paths [OF assms(1,2,3)] in \<open>simp_all add: meets_stay del: ctl_sem.simps\<close>)

section \<open>The verdict\<close>

text \<open>Each part at the top is compared with the empty set.\<close>

fun tree_holds :: "'s kripke \<Rightarrow> int \<Rightarrow> forward_tree \<Rightarrow> bool" where
  "tree_holds K v (Top p) \<longleftrightarrow> (v = 0) = (ctl_sem K p = {})"
| "tree_holds K v (Both is_or a b) \<longleftrightarrow>
     (if is_or then tree_holds K v a \<or> tree_holds K v b else tree_holds K v a \<and> tree_holds K v b)"

lemma convert_forward_holds:
  assumes "closed K" "finite (k_states K)" "state_formula r" "state_formula f" "FormulaConvertToForward v r f = Inr t"
  shows "tree_holds K v t \<longleftrightarrow> (v = 0) = (\<not> meets K r f)"
  using assms(3-5)
proof (induction v r f arbitrary: t rule: FormulaConvertToForward.induct)
  case (1 v r f)
  note conv = "1.prems"(3) [unfolded FormulaConvertToForward.simps [of v r f]]
  have "\<forall>e. forward_step r f \<noteq> Stop e" using conv by auto
  note m = forward_step_meets [OF assms(1,2) "1.prems"(1,2) this]
  have st: "goal_states (forward_step r f)" using forward_step_states "1.prems" by simp
  show ?case
  proof (cases "forward_step r f")
    case (Stay p)
    then show ?thesis using conv m by auto
  next
    case (Go r1 f1)
    then show ?thesis using conv m st "1.IH"(1) [OF Go] by simp
  next
    case (Split r1 f1 r2 f2)
    then obtain a b where ab: "FormulaConvertToForward v r1 f1 = Inr a" "FormulaConvertToForward v r2 f2 = Inr b"
      "t = Both (v \<noteq> 0) a b" using conv by auto
    then have "tree_holds K v a \<longleftrightarrow> (v = 0) = (\<not> meets K r1 f1)" "tree_holds K v b \<longleftrightarrow> (v = 0) = (\<not> meets K r2 f2)"
      using st Split "1.IH"(2,3) [OF Split] by simp_all
    then show ?thesis using m by (cases "v = 0") (auto simp: ab(3) Split)
  next
    case (Stop e)
    then show ?thesis using conv by simp
  qed
qed

lemma sem_insert:
  "k_one K \<noteq> {} \<Longrightarrow> ctl_sem K (FormulaInsertForwardCompareNodes v t) = (if tree_holds K v t then k_one K else {})"
  by (induction t) auto

section \<open>The formulas of the conversion\<close>

text \<open>The operators of the grammar, without \<open>XOR\<close> and \<open>EQ\<close>.\<close>

fun plain :: "Ctlp_Formula \<Rightarrow> bool" where
  "plain (Ctlp_EX f) = plain f"
| "plain (Ctlp_EG f) = plain f"
| "plain (Ctlp_EF f) = plain f"
| "plain (Ctlp_EU f g) = (plain f \<and> plain g)"
| "plain (Ctlp_AX f) = plain f"
| "plain (Ctlp_AG f) = plain f"
| "plain (Ctlp_AF f) = plain f"
| "plain (Ctlp_AU f g) = (plain f \<and> plain g)"
| "plain (Ctlp_OR f g) = (plain f \<and> plain g)"
| "plain (Ctlp_AND f g) = (plain f \<and> plain g)"
| "plain (Ctlp_NOT f) = plain f"
| "plain (Ctlp_THEN f g) = (plain f \<and> plain g)"
| "plain (Ctlp_ID n v) = True"
| "plain Ctlp_TRUE = True"
| "plain Ctlp_FALSE = True"
| "plain f = False"

text \<open>The operators the checker computes on states, and comparisons of such formulas.\<close>

fun checkable :: "Ctlp_Formula \<Rightarrow> bool" where
  "checkable (Ctlp_EX f) = checkable f"
| "checkable (Ctlp_EG f) = checkable f"
| "checkable (Ctlp_EU f g) = (checkable f \<and> checkable g)"
| "checkable (Ctlp_OR f g) = (checkable f \<and> checkable g)"
| "checkable (Ctlp_AND f g) = (checkable f \<and> checkable g)"
| "checkable (Ctlp_NOT f) = checkable f"
| "checkable (Ctlp_THEN f g) = (checkable f \<and> checkable g)"
| "checkable (Ctlp_ID n v) = True"
| "checkable Ctlp_TRUE = True"
| "checkable Ctlp_FALSE = True"
| "checkable (Ctlp_FwdU f g) = (checkable f \<and> checkable g)"
| "checkable (Ctlp_FwdG f g) = (checkable f \<and> checkable g)"
| "checkable (Ctlp_EY f) = checkable f"
| "checkable Ctlp_Init = True"
| "checkable f = False"

fun verdict_formula :: "Ctlp_Formula \<Rightarrow> bool" where
  "verdict_formula (Ctlp_Cmp f g v) = (checkable f \<and> g = Ctlp_FALSE)"
| "verdict_formula (Ctlp_AND f g) = (verdict_formula f \<and> verdict_formula g)"
| "verdict_formula (Ctlp_OR f g) = (verdict_formula f \<and> verdict_formula g)"
| "verdict_formula f = False"

lemma checkable_state: "checkable f \<Longrightarrow> state_formula f"
  by (induction f) auto

lemma existential_checkable:
  "plain f \<Longrightarrow> \<exists>f'. Ctlp_FormulaConvertToExistentialForm f = Inr f' \<and> plain f' \<and> checkable f'"
  by (induction f)
     (auto simp: existential_EF_def existential_AX_def existential_AG_def existential_AF_def existential_AU_def)

fun goal_checkable :: "forward_goal \<Rightarrow> bool" where
  "goal_checkable (Stay p) = checkable p"
| "goal_checkable (Go r f) = (checkable r \<and> plain f \<and> checkable f)"
| "goal_checkable (Split r1 f1 r2 f2) =
     (checkable r1 \<and> plain f1 \<and> checkable f1 \<and> checkable r2 \<and> plain f2 \<and> checkable f2)"
| "goal_checkable (Stop e) = False"

lemma forward_step_checkable:
  "checkable r \<Longrightarrow> plain f \<Longrightarrow> checkable f \<Longrightarrow> goal_checkable (forward_step r f)"
proof (cases f)
  case (Ctlp_NOT g)
  then show "checkable r \<Longrightarrow> plain f \<Longrightarrow> checkable f \<Longrightarrow> ?thesis"
    by (cases g) (auto simp: forward_cases)
qed (auto simp: forward_cases)

lemma convert_forward_total:
  "checkable r \<Longrightarrow> plain f \<Longrightarrow> checkable f \<Longrightarrow>
    \<exists>t. FormulaConvertToForward v r f = Inr t \<and> verdict_formula (FormulaInsertForwardCompareNodes v t)"
proof (induction v r f rule: FormulaConvertToForward.induct)
  case (1 v r f)
  note ok = forward_step_checkable [OF "1.prems"]
  show ?case
  proof (cases "forward_step r f")
    case (Stay p)
    then show ?thesis using ok by (simp add: FormulaConvertToForward.simps [of v r f])
  next
    case (Go r1 f1)
    then show ?thesis using ok "1.IH"(1) [OF Go] by (simp add: FormulaConvertToForward.simps [of v r f])
  next
    case (Split r1 f1 r2 f2)
    then show ?thesis using ok "1.IH"(2,3) [OF Split] by (auto simp: FormulaConvertToForward.simps [of v r f])
  qed (use ok in simp)
qed

lemma forward_form_total: "plain f \<Longrightarrow> \<exists>g. forward_form single f = Inr g \<and> verdict_formula g"
proof -
  assume "plain f"
  then obtain f' where f': "Ctlp_FormulaConvertToExistentialForm f = Inr f'" "plain f'" "checkable f'"
    using existential_checkable by blast
  define v right where "v = (if single then FormulaGetCompareValue f' else 0)" and "right = (if v = 0 then Ctlp_NOT f' else f')"
  have "plain right" "checkable right" using f'(2,3) by (simp_all add: right_def)
  then obtain t where "FormulaConvertToForward v Ctlp_Init right = Inr t"
    "verdict_formula (FormulaInsertForwardCompareNodes v t)"
    using convert_forward_total [of Ctlp_Init right v] by auto
  then show ?thesis by (simp add: forward_form_def f'(1) Let_def v_def right_def)
qed

section \<open>The verdict of a formula\<close>

text \<open>The comparison the forward form makes: for one initial state that it satisfies the formula; else the
  conversion may ask that some initial state satisfies it, or that all do.\<close>

definition asks_some :: "bool \<Rightarrow> Ctlp_Formula \<Rightarrow> bool" where
  "asks_some single f \<longleftrightarrow>
     single \<and> (case Ctlp_FormulaConvertToExistentialForm f of Inr f' \<Rightarrow> convertible f' | Inl _ \<Rightarrow> False)"

lemma forward_form_sem:
  assumes "closed K" "finite (k_states K)" "k_one K \<noteq> {}" "forward_form single f = Inr g"
  shows "ctl_sem K g = (if (if asks_some single f then k_init K \<inter> ctl_sem K f \<noteq> {} else k_init K \<subseteq> ctl_sem K f)
    then k_one K else {})"
proof -
  obtain f' where f': "Ctlp_FormulaConvertToExistentialForm f = Inr f'"
    using assms(4) by (auto simp: forward_form_def rbind_eq_Inr_iff)
  let ?v = "if single then FormulaGetCompareValue f' else 0"
  let ?right = "if ?v = 0 then Ctlp_NOT f' else f'"
  obtain t where t: "FormulaConvertToForward ?v Ctlp_Init ?right = Inr t" "g = FormulaInsertForwardCompareNodes ?v t"
    using assms(4) by (auto simp: forward_form_def f' Let_def rbind_eq_Inr_iff split: if_splits)
  have v: "?v \<noteq> 0 \<longleftrightarrow> asks_some single f" by (simp add: asks_some_def f' FormulaGetCompareValue_def)
  have state: "state_formula f'" using state_existential_form [OF f'] by simp
  have sem: "ctl_sem K f' = ctl_sem K f" by (rule existential_form_sem [OF assms(1) f'])
  have init: "k_init K \<subseteq> k_states K" using assms(1) by (simp add: closed_def)
  have "tree_holds K ?v t \<longleftrightarrow> (?v = 0) = (\<not> meets K Ctlp_Init ?right)"
    by (rule convert_forward_holds [OF assms(1,2) _ _ t(1)]) (use state in auto)
  then have "tree_holds K ?v t \<longleftrightarrow>
      (if asks_some single f then k_init K \<inter> ctl_sem K f \<noteq> {} else k_init K \<subseteq> ctl_sem K f)"
    using init v sem by (cases "?v = 0") (auto simp: meets_def)
  then show ?thesis by (simp add: t(2) sem_insert [OF assms(3)])
qed

end
