(* ===== verification/Ctl_Fixpoints.thy ===== *)
theory Ctl_Fixpoints imports Ctl_Checker Ctl_Forward_Sound "HOL-Library.While_Combinator" begin

text \<open>
  What the fixpoints of the CTL checker compute, from the documented behaviour of the library: sets of
  states reached along a set, and sets of states from which infinite chains start.
\<close>

section \<open>The library with the operator \<open>*\<close> on transitions\<close>

locale ctl_library = relations "ct_rel K" for K :: "('h, 'k, 'st) ctl_ops" +
  assumes app_hom: "ct_app K (ct_hom K h) S = rel_app (ct_rel K) h S"
    and app_meet: "ct_app K (ct_meet K f g) S = rel_app (ct_rel K) f S \<inter> rel_app (ct_rel K) g S"
    and app_gfix: "(ct_app K k ^^ n) S = (ct_app K k ^^ Suc n) S \<Longrightarrow> ct_app K (ct_fixpoint K k) S = (ct_app K k ^^ n) S"
    and has_image_iff: "ct_has_image K k S = {} \<longleftrightarrow> ct_app K k S = {}"
    and one_nonempty: "ct_one K \<noteq> {}"

text \<open>On sets of states: \<open>fixpoint\<close> applies a set transformer until nothing changes.\<close>

definition lin_ctl :: "'st set \<Rightarrow> ('st \<Rightarrow> 'st set, 'st set \<Rightarrow> 'st set, 'st) ctl_ops" where
  "lin_ctl one =
     \<lparr>ct_rel = lin_rel, ct_hom = lin, ct_meet = (\<lambda>f g S. lin f S \<inter> lin g S),
      ct_fixpoint = (\<lambda>k S. case while_option (\<lambda>T. k T \<noteq> T) k S of Some T \<Rightarrow> T | None \<Rightarrow> {}),
      ct_app = (\<lambda>k. k), ct_has_image = (\<lambda>k. k), ct_one = one\<rparr>"

lemma while_stable:
  assumes "(k ^^ n) S = (k ^^ Suc n) S"
  shows "(case while_option (\<lambda>T. k T \<noteq> T) k S of Some T \<Rightarrow> T | None \<Rightarrow> {}) = (k ^^ n) S"
proof -
  define j where "j = (LEAST j. k ((k ^^ j) S) = (k ^^ j) S)"
  have n: "k ((k ^^ n) S) = (k ^^ n) S" using assms by simp
  have j: "k ((k ^^ j) S) = (k ^^ j) S" and le: "j \<le> n"
    using LeastI [of "\<lambda>j. k ((k ^^ j) S) = (k ^^ j) S", OF n] Least_le [of "\<lambda>j. k ((k ^^ j) S) = (k ^^ j) S", OF n]
    by (simp_all add: j_def)
  have "while_option (\<lambda>T. k T \<noteq> T) k S = Some ((k ^^ j) S)"
    using n unfolding while_option_def j_def by auto
  moreover have "(k ^^ n) S = (k ^^ j) S"
    using power_stable [of j k S "n - j"] j le by simp
  ultimately show ?thesis by simp
qed

interpretation lin_ctl: ctl_library "lin_ctl {one}" for one :: 'st
proof -
  have sel: "ct_rel (lin_ctl {one}) = lin_rel" by (simp add: lin_ctl_def)
  show "ctl_library (lin_ctl {one})"
    unfolding ctl_library_def ctl_library_axioms_def sel
    by (intro conjI allI impI lin_relations.relations_axioms) (simp_all add: lin_ctl_def lin_rel_def while_stable del: funpow.simps)
qed

text \<open>The transition relation \<open>h\<close> between the states of \<open>S\<close>, and a transition that computes predecessors in them.\<close>

definition ctl_represents :: "('h, 'k, 'st) ctl_ops \<Rightarrow> 'h \<Rightarrow> 'st kripke \<Rightarrow> bool" where
  "ctl_represents K h S \<longleftrightarrow> closed S \<and> finite (k_states S)
     \<and> k_step S = (\<lambda>s t. t \<in> rel_app (ct_rel K) h {s}) \<and> k_one S = ct_one K"

definition ctl_is_pred :: "('h, 'k, 'st) ctl_ops \<Rightarrow> 'st kripke \<Rightarrow> 'h \<Rightarrow> bool" where
  "ctl_is_pred K S p \<longleftrightarrow> (\<forall>T\<subseteq>k_states S. rel_app (ct_rel K) p T = {s \<in> k_states S. \<exists>t\<in>T. k_step S s t})"

text \<open>States of \<open>X\<close> where an infinite chain inside \<open>X\<close> starts.\<close>

definition chains :: "('st \<Rightarrow> 'st \<Rightarrow> bool) \<Rightarrow> 'st set \<Rightarrow> 'st set" where
  "chains E X = {t. \<exists>p. p 0 = t \<and> (\<forall>i :: nat. p i \<in> X) \<and> (\<forall>i. E (p i) (p (Suc i)))}"

context ctl_library begin

abbreviation "R \<equiv> ct_rel K"
abbreviation "H \<equiv> rel_hom R"

section \<open>Decreasing iterations\<close>

lemma gfix_stable:
  assumes fin: "finite X" and mono: "\<And>S T. S \<subseteq> T \<Longrightarrow> T \<subseteq> X \<Longrightarrow> f S \<subseteq> f T" and sub: "f X \<subseteq> (X :: 'a set)"
  shows "\<exists>n. (f ^^ n) X = (f ^^ Suc n) X \<and> (f ^^ n) X \<subseteq> X \<and> (\<forall>Y\<subseteq>X. Y \<subseteq> f Y \<longrightarrow> Y \<subseteq> (f ^^ n) X)"
proof -
  have step: "(f ^^ Suc n) X \<subseteq> (f ^^ n) X \<and> (f ^^ n) X \<subseteq> X" for n
  proof (induction n)
    case (Suc n)
    then have "f ((f ^^ Suc n) X) \<subseteq> f ((f ^^ n) X)" by (intro mono) auto
    with Suc show ?case by auto
  qed (use sub in simp)
  have "\<exists>n. (f ^^ n) X = (f ^^ Suc n) X"
  proof (rule ccontr)
    assume neq: "\<nexists>n. (f ^^ n) X = (f ^^ Suc n) X"
    have "card ((f ^^ n) X) + n \<le> card X" for n
    proof (induction n)
      case (Suc n)
      have "(f ^^ Suc n) X \<subset> (f ^^ n) X" using neq step [of n] by blast
      then have "card ((f ^^ Suc n) X) < card ((f ^^ n) X)"
        using finite_subset [OF conjunct2 [OF step] fin] by (intro psubset_card_mono)
      with Suc show ?case by simp
    qed simp
    from this [of "Suc (card X)"] show False by simp
  qed
  then obtain n where n: "(f ^^ n) X = (f ^^ Suc n) X" ..
  have "Y \<subseteq> (f ^^ m) X" if "Y \<subseteq> X" "Y \<subseteq> f Y" for Y m
  proof (induction m)
    case (Suc m)
    then have "f Y \<subseteq> f ((f ^^ m) X)" using step [of m] by (intro mono) auto
    with that(2) show ?case by auto
  qed (use that in simp)
  with n step [of n] show ?thesis by blast
qed

lemma app_gfix_greatest:
  assumes "finite X" "\<forall>S T. S \<subseteq> T \<longrightarrow> T \<subseteq> X \<longrightarrow> ct_app K k S \<subseteq> ct_app K k T" "ct_app K k X \<subseteq> X"
  shows "ct_app K (ct_fixpoint K k) X \<subseteq> X" "ct_app K (ct_fixpoint K k) X = ct_app K k (ct_app K (ct_fixpoint K k) X)"
    "Y \<subseteq> X \<Longrightarrow> Y \<subseteq> ct_app K k Y \<Longrightarrow> Y \<subseteq> ct_app K (ct_fixpoint K k) X"
proof -
  obtain n where n: "(ct_app K k ^^ n) X = (ct_app K k ^^ Suc n) X" "(ct_app K k ^^ n) X \<subseteq> X"
    "\<forall>Y\<subseteq>X. Y \<subseteq> ct_app K k Y \<longrightarrow> Y \<subseteq> (ct_app K k ^^ n) X"
    using gfix_stable [of X "ct_app K k"] assms by blast
  then show "ct_app K (ct_fixpoint K k) X \<subseteq> X" "ct_app K (ct_fixpoint K k) X = ct_app K k (ct_app K (ct_fixpoint K k) X)"
    "Y \<subseteq> X \<Longrightarrow> Y \<subseteq> ct_app K k Y \<Longrightarrow> Y \<subseteq> ct_app K (ct_fixpoint K k) X"
    using app_gfix [OF n(1)] by auto
qed

lemma gfix_chains:
  assumes fin: "finite X"
    and app: "\<And>T. T \<subseteq> X \<Longrightarrow> ct_app K k T = {s \<in> X. \<exists>t\<in>T. E s t} \<inter> (if inside then T else X)"
  shows "ct_app K (ct_fixpoint K k) X = chains E X"
proof -
  let ?Z = "ct_app K (ct_fixpoint K k) X"
  have mono: "\<forall>S T. S \<subseteq> T \<longrightarrow> T \<subseteq> X \<longrightarrow> ct_app K k S \<subseteq> ct_app K k T"
  proof (intro allI impI)
    fix S T assume "S \<subseteq> T" "T \<subseteq> X"
    with app [of S] app [of T] show "ct_app K k S \<subseteq> ct_app K k T" by auto
  qed
  have "ct_app K k X \<subseteq> X" using app [OF subset_refl] by auto
  note Z = app_gfix_greatest [OF fin mono this]
  show ?thesis
  proof (intro equalityI subsetI)
    fix t assume t: "t \<in> ?Z"
    have "\<exists>y\<in>?Z. E x y" if "x \<in> ?Z" for x using Z(2) app [OF Z(1)] that by (auto split: if_splits)
    then obtain p where "p 0 = t" "\<forall>i. p i \<in> ?Z \<and> E (p i) (p (Suc i))"
      using chain_exists [of ?Z E t] t by blast
    with Z(1) show "t \<in> chains E X" by (auto simp: chains_def)
  next
    fix t assume "t \<in> chains E X"
    then obtain p where p: "p 0 = t" "\<And>i. p i \<in> X" "\<And>i. E (p i) (p (Suc i))" by (auto simp: chains_def)
    have sub: "range p \<subseteq> X" using p(2) by auto
    have "range p \<subseteq> ct_app K k (range p)" unfolding app [OF sub] using p by auto
    from Z(3) [OF sub this] p(1) show "t \<in> ?Z" by auto
  qed
qed

section \<open>The transition system of a relation\<close>

abbreviation "represents \<equiv> ctl_represents K"
abbreviation "is_pred \<equiv> ctl_is_pred K"

lemma representsD:
  assumes "represents h S"
  shows "closed S" "finite (k_states S)" "k_step S s t \<longleftrightarrow> t \<in> rel_app R h {s}" "k_one S = ct_one K"
  using assms by (simp_all add: ctl_represents_def)

lemma app_steps: "represents h S \<Longrightarrow> rel_app R h T = {t. \<exists>s\<in>T. k_step S s t}"
  by (subst app_linear) (auto simp: representsD(3))

lemma chains_next:
  assumes "represents h S" "X \<subseteq> k_states S"
  shows "ct_app K (ct_fixpoint K (ct_meet K h (Hid H))) X = chains (\<lambda>s t. k_step S t s) X"
  using finite_subset [OF assms(2) representsD(2) [OF assms(1)]]
  by (intro gfix_chains [where inside = True]) (auto simp: app_meet app_id app_steps [OF assms(1)])

lemma chains_pred:
  assumes "represents h S" "is_pred S p" "X \<subseteq> k_states S"
  shows "ct_app K (ct_fixpoint K (ct_meet K p (Hid H))) X = chains (k_step S) X"
  using finite_subset [OF assms(3) representsD(2) [OF assms(1)]] assms(2,3)
  by (intro gfix_chains [where inside = True]) (auto simp: app_meet app_id ctl_is_pred_def)

text \<open>There is a chain of steps in a set exactly when there is a chain of reversed steps.\<close>

lemma chains_back:
  assumes "finite X" "chains E X \<noteq> {}"
  shows "chains (\<lambda>s t. E t s) X \<noteq> {}"
proof -
  obtain p where p: "\<And>i :: nat. p i \<in> X" "\<And>i. E (p i) (p (Suc i))" using assms(2) by (auto simp: chains_def)
  from run_cycle [of X p "\<lparr>k_states = X, k_init = {}, k_step = E, k_label = \<lambda>_ _. False, k_one = {}\<rparr>", OF assms(1) p(1)] p(2)
  show ?thesis by (auto simp: chains_def)
qed

lemma chains_mono: "X \<subseteq> Y \<Longrightarrow> chains E X \<subseteq> chains E Y"
  by (auto simp: chains_def)

section \<open>Sets reached along a set\<close>

text \<open>Backward from \<open>X\<close> through \<open>F\<close>: \<open>t\<close> answers the predecessors in \<open>F\<close>.\<close>

lemma backward_reach:
  assumes rep: "represents h S" and sub: "X \<subseteq> k_states S" "F \<subseteq> k_states S"
    and t: "\<And>T. T \<subseteq> k_states S \<Longrightarrow> rel_app R t T = {s \<in> F. \<exists>x\<in>T. k_step S s x}"
  shows "rel_app R (or_id_fixpoint K t) X = {s. \<exists>x\<in>X. (\<lambda>a b. a \<in> F \<and> k_step S a b)\<^sup>*\<^sup>* s x}"
proof -
  let ?E = "\<lambda>a b. a \<in> F \<and> k_step S a b"
  have one: "b \<in> rel_app R t {a} \<longleftrightarrow> ?E b a" if "a \<in> k_states S" for a b using t [of "{a}"] that by auto
  have fwd: "?E\<^sup>*\<^sup>* s x \<and> s \<in> k_states S" if "(\<lambda>a b. b \<in> rel_app R t {a})\<^sup>*\<^sup>* x s" "x \<in> k_states S" for x s
    using that
  proof (induction rule: rtranclp_induct)
    case (step y z)
    then have "?E z y" using one by simp
    with step sub(2) show ?case by (auto intro: converse_rtranclp_into_rtranclp)
  qed simp
  have bwd: "(\<lambda>a b. b \<in> rel_app R t {a})\<^sup>*\<^sup>* x s \<and> s \<in> k_states S" if "?E\<^sup>*\<^sup>* s x" "x \<in> k_states S" for x s
    using that
  proof (induction rule: converse_rtranclp_induct)
    case (step y z)
    then have "y \<in> rel_app R t {z}" using one by simp
    with step sub(2) show ?case by (auto intro: rtranclp.rtrancl_into_rtrancl)
  qed simp
  have eq: "reachable R t X = {s. \<exists>x\<in>X. ?E\<^sup>*\<^sup>* s x}"
    unfolding reachable_def using fwd bwd sub(1) by blast
  have "reachable R t X \<subseteq> k_states S" unfolding reachable_def using fwd sub(1) by blast
  then have "finite (reachable R t X)" using representsD(2) [OF rep] by (rule finite_subset)
  from fixpoint_reachable [OF this] show ?thesis unfolding or_id_fixpoint_def eq .
qed

text \<open>Forward from \<open>P\<close>: \<open>t\<close> answers the successors of states of \<open>Q\<close>, or the successors that are in \<open>Q\<close>.\<close>

lemma forward_reach:
  assumes rep: "represents h S" and sub: "P \<subseteq> k_states S"
    and t: "\<And>T. T \<subseteq> k_states S \<Longrightarrow> rel_app R t T = {b. \<exists>a\<in>T. E a b}" and E: "\<And>a b. E a b \<Longrightarrow> k_step S a b"
  shows "rel_app R (or_id_fixpoint K t) P = {b. \<exists>a\<in>P. E\<^sup>*\<^sup>* a b}"
proof -
  have one: "b \<in> rel_app R t {a} \<longleftrightarrow> E a b" if "a \<in> k_states S" for a b using t [of "{a}"] that by auto
  have closed: "b \<in> k_states S" if "E a b" "a \<in> k_states S" for a b
    using representsD(1) [OF rep] E [OF that(1)] that(2) by (auto simp: closed_def)
  have 1: "E\<^sup>*\<^sup>* a b \<and> b \<in> k_states S" if "(\<lambda>a b. b \<in> rel_app R t {a})\<^sup>*\<^sup>* a b" "a \<in> k_states S" for a b
    using that by (induction rule: rtranclp_induct) (auto simp: one intro: closed rtranclp.rtrancl_into_rtrancl)
  have 2: "(\<lambda>a b. b \<in> rel_app R t {a})\<^sup>*\<^sup>* a b \<and> b \<in> k_states S" if "E\<^sup>*\<^sup>* a b" "a \<in> k_states S" for a b
    using that by (induction rule: rtranclp_induct) (auto simp: one intro: closed rtranclp.rtrancl_into_rtrancl)
  have eq: "reachable R t P = {b. \<exists>a\<in>P. E\<^sup>*\<^sup>* a b}" unfolding reachable_def using 1 2 sub by blast
  have "reachable R t P \<subseteq> k_states S" unfolding reachable_def using 1 sub by blast
  then have "finite (reachable R t P)" using representsD(2) [OF rep] by (rule finite_subset)
  from fixpoint_reachable [OF this] show ?thesis unfolding or_id_fixpoint_def eq .
qed

section \<open>The operators\<close>

lemma EU_backward:
  assumes "closed S" "G \<subseteq> k_states S" "F \<subseteq> k_states S"
  shows "{s. \<exists>x\<in>G. (\<lambda>a b. a \<in> F \<and> k_step S a b)\<^sup>*\<^sup>* s x} = {s \<in> k_states S. \<exists>p. run S s p \<and> until F G p}"
proof (intro equalityI subsetI)
  fix s assume "s \<in> {s. \<exists>x\<in>G. (\<lambda>a b. a \<in> F \<and> k_step S a b)\<^sup>*\<^sup>* s x}"
  then obtain x where x: "x \<in> G" "(\<lambda>a b. a \<in> F \<and> k_step S a b)\<^sup>*\<^sup>* s x" by blast
  from x(2) have "s \<in> k_states S" by (cases rule: converse_rtranclpE) (use x(1) assms(2,3) in auto)
  with forward_EU [OF x(2,1)] show "s \<in> {s \<in> k_states S. \<exists>p. run S s p \<and> until F G p}" by simp
next
  fix s assume "s \<in> {s \<in> k_states S. \<exists>p. run S s p \<and> until F G p}"
  then obtain p where "run S s p" "until F G p" by blast
  from until_forward [OF this] show "s \<in> {s. \<exists>x\<in>G. (\<lambda>a b. a \<in> F \<and> k_step S a b)\<^sup>*\<^sup>* s x}" by blast
qed

lemma EG_backward:
  assumes "closed S" "F \<subseteq> k_states S"
  shows "{s \<in> k_states S. \<exists>p. run S s p \<and> always F p}
    = chains (k_step S) F \<union> {s. \<exists>x\<in>{s \<in> k_states S. dead S s} \<inter> F. (\<lambda>a b. a \<in> F \<and> k_step S a b)\<^sup>*\<^sup>* s x}"
proof (intro equalityI subsetI)
  fix s assume "s \<in> {s \<in> k_states S. \<exists>p. run S s p \<and> always F p}"
  then obtain p where p: "run S s p" "\<And>i. p i \<in> F" by (auto simp: always_def)
  show "s \<in> chains (k_step S) F \<union> {s. \<exists>x\<in>{s \<in> k_states S. dead S s} \<inter> F. (\<lambda>a b. a \<in> F \<and> k_step S a b)\<^sup>*\<^sup>* s x}"
  proof (cases "\<exists>i. dead S (p i)")
    case True
    then obtain i where "dead S (p i)" by blast
    then have "until F ({s \<in> k_states S. dead S s} \<inter> F) p" using p(2) assms(2) by (auto simp: until_def intro!: exI [of _ i])
    from until_forward [OF p(1) this] show ?thesis by blast
  next
    case False
    then have "k_step S (p i) (p (Suc i))" for i using p(1) by (auto simp: run_def run_step_def)
    with p show ?thesis by (auto simp: chains_def run_def)
  qed
next
  fix s assume "s \<in> chains (k_step S) F \<union> {s. \<exists>x\<in>{s \<in> k_states S. dead S s} \<inter> F. (\<lambda>a b. a \<in> F \<and> k_step S a b)\<^sup>*\<^sup>* s x}"
  then show "s \<in> {s \<in> k_states S. \<exists>p. run S s p \<and> always F p}"
  proof
    assume "s \<in> chains (k_step S) F"
    then obtain p where p: "p 0 = s" "\<And>i. p i \<in> F" "\<And>i. k_step S (p i) (p (Suc i))" by (auto simp: chains_def)
    then have "run S s p" "always F p" by (auto simp: run_def run_step_def always_def)
    moreover have "s \<in> k_states S" using p(1) p(2) [of 0] assms(2) by auto
    ultimately show ?thesis by blast
  next
    assume "s \<in> {s. \<exists>x\<in>{s \<in> k_states S. dead S s} \<inter> F. (\<lambda>a b. a \<in> F \<and> k_step S a b)\<^sup>*\<^sup>* s x}"
    then obtain x where x: "dead S x" "x \<in> F" "(\<lambda>a b. a \<in> F \<and> k_step S a b)\<^sup>*\<^sup>* s x" by blast
    from x(3) have "s \<in> k_states S" by (cases rule: converse_rtranclpE) (use x(2) assms(2) in auto)
    with always_back [OF x(3) always_dead [OF x(1,2)]] show ?thesis by blast
  qed
qed

end

end
