(* ===== verification/Ctl_Sound.thy ===== *)
theory Ctl_Sound imports Ctl_Fixpoints Its_Net_Model begin

text \<open>
  The CTL checker answers the states of a formula: its operations, run one after the other on a checker whose
  caches hold right values, end without an error and keep the caches right.
\<close>

section \<open>Operations that keep an invariant\<close>

definition yields :: "('c \<Rightarrow> bool) \<Rightarrow> ('c, 'a) op \<Rightarrow> ('a \<Rightarrow> bool) \<Rightarrow> bool" where
  "yields I m Q \<longleftrightarrow> (\<forall>c. I c \<longrightarrow> (\<exists>x c'. m c = Inr (x, c') \<and> I c' \<and> Q x))"

lemma yieldsI: "(\<And>c. I c \<Longrightarrow> \<exists>x c'. m c = Inr (x, c') \<and> I c' \<and> Q x) \<Longrightarrow> yields I m Q"
  by (simp add: yields_def)

lemma yieldsD: "yields I m Q \<Longrightarrow> I c \<Longrightarrow> \<exists>x c'. m c = Inr (x, c') \<and> I c' \<and> Q x"
  by (simp add: yields_def)

lemma yields_ret: "Q x \<Longrightarrow> yields I (ret x) Q"
  by (simp add: yields_def ret_def)

lemma yields_bnd:
  assumes "yields I m P" "\<And>x. P x \<Longrightarrow> yields I (f x) Q"
  shows "yields I (bnd m f) Q"
proof (rule yieldsI)
  fix c assume "I c"
  with assms(1) obtain x c' where x: "m c = Inr (x, c')" "I c'" "P x" unfolding yields_def by blast
  with assms(2) [OF x(3)] obtain y c'' where "f x c' = Inr (y, c'')" "I c''" "Q y" unfolding yields_def by blast
  with x show "\<exists>x c'. bnd m f c = Inr (x, c') \<and> I c' \<and> Q x" by (simp add: bnd_def)
qed

lemma yields_weaken: "yields I m P \<Longrightarrow> (\<And>x. P x \<Longrightarrow> Q x) \<Longrightarrow> yields I m Q"
  unfolding yields_def by blast

lemma yields_of_res: "r = Inr x \<Longrightarrow> Q x \<Longrightarrow> yields I (of_res r) Q"
  by (simp add: yields_def of_res_def)

lemma yields_if: "(b \<Longrightarrow> yields I m Q) \<Longrightarrow> (\<not> b \<Longrightarrow> yields I n Q) \<Longrightarrow> yields I (if b then m else n) Q"
  by simp

section \<open>The model as it is seen\<close>

text \<open>
  \<open>m0\<close> is the model as it is given to the checker: \<open>hm\<close> its transition relation, \<open>h\<close> the one the checker
  uses, which differs with \<open>fair\<close>; \<open>S\<close> the transition system of \<open>h\<close> on the finitely many reachable states,
  which \<open>h\<close> is asked to reach too from the initial states of \<open>fair\<close>.
\<close>

definition ctl_views ::
  "('h, 'k, 'st) ctl_ops \<Rightarrow> ('ty, 'h, 'st) type_calls \<Rightarrow> ('ty, 'h, 'st) ITSModel \<Rightarrow> bool \<Rightarrow> 'h \<Rightarrow> 'h \<Rightarrow> 'st kripke \<Rightarrow> bool" where
  "ctl_views K C m0 fair hm h S \<longleftrightarrow> ctl_represents K h S
     \<and> (\<exists>M0. Its_Model.getInitialState C m0 = Inr M0 \<and> M0 \<noteq> {} \<and> getNextRel C (rel_hom (ct_rel K)) m0 = Inr hm
          \<and> k_states S = reachable (ct_rel K) hm M0 \<and> (\<not> fair \<longrightarrow> h = hm \<and> k_init S = M0)
          \<and> (fair \<longrightarrow> fair_next K C m0 = Inr h \<and> k_states S \<subseteq> forward_until S (k_init S) UNIV
              \<and> (\<exists>e. getElapse C (rel_hom (ct_rel K)) m0 = Inr e \<and> k_init S = rel_app (ct_rel K) (or_id_fixpoint K e) M0)))"

text \<open>What the operators that look backward need besides: without \<open>fair\<close>, \<open>getPredRel\<close> falls back on the named
  transitions of the model.\<close>

definition ctl_sees ::
  "('h, 'k, 'st) ctl_ops \<Rightarrow> ('ty, 'h, 'st) type_calls \<Rightarrow> ('ty, 'h, 'st) ITSModel \<Rightarrow> bool \<Rightarrow> 'h \<Rightarrow> 'h \<Rightarrow> 'st kripke \<Rightarrow> bool" where
  "ctl_sees K C m0 fair hm h S \<longleftrightarrow> ctl_views K C m0 fair hm h S
     \<and> (fair \<or> model_reversible (ct_rel K) C m0 (k_states S) h)"

text \<open>The predicates of a formula select the states where they hold.\<close>

fun ctl_labelled :: "('h, 'k, 'st) ctl_ops \<Rightarrow> ('ty, 'h, 'st) type_calls \<Rightarrow> ('ty, 'h, 'st) ITSModel \<Rightarrow> 'st kripke \<Rightarrow> Ctlp_Formula \<Rightarrow> bool" where
  "ctl_labelled K C m S (Ctlp_ID n v) \<longleftrightarrow>
     (\<exists>p. ITSModel_getPredicate C (n @ v) m = Inr p \<and> (\<forall>T. rel_app (ct_rel K) p T = {s \<in> T. k_label S (n @ v) s}))"
| "ctl_labelled K C m S (Ctlp_EX f) \<longleftrightarrow> ctl_labelled K C m S f"
| "ctl_labelled K C m S (Ctlp_EG f) \<longleftrightarrow> ctl_labelled K C m S f"
| "ctl_labelled K C m S (Ctlp_EF f) \<longleftrightarrow> ctl_labelled K C m S f"
| "ctl_labelled K C m S (Ctlp_EU f g) \<longleftrightarrow> ctl_labelled K C m S f \<and> ctl_labelled K C m S g"
| "ctl_labelled K C m S (Ctlp_AX f) \<longleftrightarrow> ctl_labelled K C m S f"
| "ctl_labelled K C m S (Ctlp_AG f) \<longleftrightarrow> ctl_labelled K C m S f"
| "ctl_labelled K C m S (Ctlp_AF f) \<longleftrightarrow> ctl_labelled K C m S f"
| "ctl_labelled K C m S (Ctlp_AU f g) \<longleftrightarrow> ctl_labelled K C m S f \<and> ctl_labelled K C m S g"
| "ctl_labelled K C m S (Ctlp_OR f g) \<longleftrightarrow> ctl_labelled K C m S f \<and> ctl_labelled K C m S g"
| "ctl_labelled K C m S (Ctlp_AND f g) \<longleftrightarrow> ctl_labelled K C m S f \<and> ctl_labelled K C m S g"
| "ctl_labelled K C m S (Ctlp_NOT f) \<longleftrightarrow> ctl_labelled K C m S f"
| "ctl_labelled K C m S (Ctlp_THEN f g) \<longleftrightarrow> ctl_labelled K C m S f \<and> ctl_labelled K C m S g"
| "ctl_labelled K C m S (Ctlp_FwdU f g) \<longleftrightarrow> ctl_labelled K C m S f \<and> ctl_labelled K C m S g"
| "ctl_labelled K C m S (Ctlp_FwdG f g) \<longleftrightarrow> ctl_labelled K C m S f \<and> ctl_labelled K C m S g"
| "ctl_labelled K C m S (Ctlp_EY f) \<longleftrightarrow> ctl_labelled K C m S f"
| "ctl_labelled K C m S (Ctlp_Cmp f g v) \<longleftrightarrow> ctl_labelled K C m S f \<and> ctl_labelled K C m S g"
| "ctl_labelled K C m S f \<longleftrightarrow> True"

text \<open>What the caches hold.\<close>

definition ctl_good ::
  "('h, 'k, 'st) ctl_ops \<Rightarrow> ('ty, 'h, 'st) type_calls \<Rightarrow> ('ty, 'h, 'st) ITSModel \<Rightarrow> bool \<Rightarrow> 'st kripke \<Rightarrow> ('ty, 'h, 'st) CTLChecker \<Rightarrow> bool" where
  "ctl_good K C m0 fair S c \<longleftrightarrow>
     (let m = ck_model c
      in m_types m = m_types m0 \<and> m_model m = m_model m0 \<and> m_initName m = m_initName m0
         \<and> (m_reached m = {} \<or> m_reached m = k_states S)
         \<and> (\<not> fair \<longrightarrow> m_predRel m = Hnull (rel_hom (ct_rel K)) \<or> ctl_is_pred K S (m_predRel m)))
     \<and> ck_isfairtime c = fair \<and> (ck_predRel c = Hid (rel_hom (ct_rel K)) \<or> ctl_is_pred K S (ck_predRel c))
     \<and> (ck_scc_computed c \<longrightarrow> (ck_scc c \<longleftrightarrow> chains (k_step S) (k_states S) \<noteq> {}))
     \<and> (ck_deadlocks c = ct_one K \<or> ck_deadlocks c = {s \<in> k_states S. dead S s})"

context ctl_library begin

abbreviation "views \<equiv> ctl_views K"
abbreviation "sees \<equiv> ctl_sees K"
abbreviation "labelled \<equiv> ctl_labelled K"
abbreviation "good \<equiv> ctl_good K"

lemma same_model:
  assumes "m_types m = m_types m0" "m_model m = m_model m0" "m_initName m = m_initName m0"
  shows "Its_Model.getInitialState C m = Its_Model.getInitialState C m0" "getNextRel C H m = getNextRel C H m0"
    "getElapse C H m = getElapse C H m0" "fair_next K C m = fair_next K C m0"
    "ITSModel_getNamedLocals C H m = ITSModel_getNamedLocals C H m0"
    "ITSModel_getPredicate C l m = ITSModel_getPredicate C l m0"
  unfolding Its_Model.getInitialState_def getNextRel_def getElapse_def fair_next_def main_type_def
      ITSModel_getNamedLocals_def ITSModel_getPredicate_def assms by (rule refl)+

lemma viewsD:
  assumes "views C m0 fair hm h S"
  shows "represents h S" "getNextRel C H m0 = Inr hm" "k_init S \<subseteq> k_states S" "k_states S \<noteq> {}"
  using assms by (auto simp: ctl_views_def ctl_represents_def closed_def reachable_def)

lemma good_model:
  assumes "good C m0 fair S c"
  shows "m_types (ck_model c) = m_types m0" "m_model (ck_model c) = m_model m0" "m_initName (ck_model c) = m_initName m0"
    "ck_isfairtime c = fair"
  using assms by (simp_all add: ctl_good_def Let_def)

lemma good_same:
  assumes "good C m0 fair S c"
  shows "Its_Model.getInitialState C (ck_model c) = Its_Model.getInitialState C m0"
    "getNextRel C H (ck_model c) = getNextRel C H m0" "getElapse C H (ck_model c) = getElapse C H m0"
    "fair_next K C (ck_model c) = fair_next K C m0"
    "ITSModel_getNamedLocals C H (ck_model c) = ITSModel_getNamedLocals C H m0"
    "ITSModel_getPredicate C l (ck_model c) = ITSModel_getPredicate C l m0"
  by (rule same_model [OF good_model(1-3) [OF assms]])+

section \<open>Relations and states\<close>

lemma views_next:
  assumes "views C m0 fair hm h S"
  shows "yields (good C m0 fair S) (CTLChecker_getNextRel K C) (\<lambda>x. x = h)"
proof (rule yieldsI)
  fix c assume c: "good C m0 fair S c"
  have "(if ck_isfairtime c then fair_next K C (ck_model c) else getNextRel C H (ck_model c)) = Inr h"
    using assms good_same [OF c] good_model [OF c] by (cases fair) (auto simp: ctl_views_def)
  then show "\<exists>x c'. CTLChecker_getNextRel K C c = Inr (x, c') \<and> good C m0 fair S c' \<and> x = h"
    using c by (simp add: CTLChecker_getNextRel_def of_res_def)
qed

lemma computeReachable_good:
  assumes "views C m0 fair hm h S" "good C m0 fair S c"
  shows "\<exists>m. computeReachable C R (ck_model c) = Inr (m, k_states S) \<and> good C m0 fair S (c\<lparr>ck_model := m\<rparr>)
    \<and> m_types m = m_types m0 \<and> m_model m = m_model m0 \<and> m_initName m = m_initName m0"
proof (cases "m_reached (ck_model c) = {}")
  case True
  obtain M0 where M0: "Its_Model.getInitialState C m0 = Inr M0" "k_states S = reachable R hm M0"
    using assms(1) by (auto simp: ctl_views_def)
  have "finite (reachable R hm M0)" using viewsD(1) [OF assms(1)] by (simp add: ctl_represents_def M0(2))
  from computeReachable_eq [OF True _ _ this, of C] M0 viewsD(2) [OF assms(1)] good_same [OF assms(2)]
  have "computeReachable C R (ck_model c) = Inr ((ck_model c)\<lparr>m_reached := k_states S\<rparr>, k_states S)" by simp
  then show ?thesis using assms(2) by (auto simp: ctl_good_def Let_def)
next
  case False
  then have "m_reached (ck_model c) = k_states S" using assms(2) by (simp add: ctl_good_def Let_def)
  then show ?thesis using False assms(2) good_model [OF assms(2)] by (auto simp: computeReachable_def ctl_good_def Let_def)
qed

lemma views_reach:
  assumes "views C m0 fair hm h S"
  shows "yields (good C m0 fair S) (CTLChecker_getReachable K C) (\<lambda>X. X = k_states S)"
proof (rule yieldsI)
  fix c assume c: "good C m0 fair S c"
  from computeReachable_good [OF assms c]
  show "\<exists>x c'. CTLChecker_getReachable K C c = Inr (x, c') \<and> good C m0 fair S c' \<and> x = k_states S"
    by (auto simp: CTLChecker_getReachable_def on_model_def)
qed

lemma views_init:
  assumes "views C m0 fair hm h S"
  shows "yields (good C m0 fair S) (CTLChecker_getInitialState K C) (\<lambda>X. X = k_init S)"
proof (rule yieldsI)
  fix c assume c: "good C m0 fair S c"
  have "CTLChecker_getInitialState K C c = Inr (k_init S, c)"
    using assms good_same [OF c] good_model [OF c]
    by (cases fair) (auto simp: ctl_views_def CTLChecker_getInitialState_def of_res_def or_id_fixpoint_def Let_def)
  with c show "\<exists>x c'. CTLChecker_getInitialState K C c = Inr (x, c') \<and> good C m0 fair S c' \<and> x = k_init S" by auto
qed

lemma pre_steps:
  assumes "represents h S"
  shows "pre h (k_states S) T = {s \<in> k_states S. \<exists>t\<in>T. k_step S s t}"
  by (auto simp: pre_def representsD(3) [OF assms])

lemma null_pred: "represents (Hnull H) S \<Longrightarrow> is_pred S (Hnull H)"
  using representsD(3) [of "Hnull H" S] by (simp add: ctl_is_pred_def app_null)

lemma sees_views: "sees C m0 fair hm h S \<Longrightarrow> views C m0 fair hm h S"
  by (simp add: ctl_sees_def)

lemmas seesD = viewsD [OF sees_views]

lemmas yields_next = views_next [OF sees_views]

lemmas yields_reach = views_reach [OF sees_views]

lemmas yields_init = views_init [OF sees_views]

lemma yields_pred:
  assumes "sees C m0 fair hm h S"
  shows "yields (good C m0 fair S) (CTLChecker_getPredRel K C {}) (is_pred S)"
proof (cases fair)
  case True
  have fp: "yields (good C m0 fair S) (fair_pred K (k_states S) h) (is_pred S)"
  proof (rule yieldsI)
    fix c assume c: "good C m0 fair S c"
    note rep = seesD(1) [OF assms]
    show "\<exists>x c'. fair_pred K (k_states S) h c = Inr (x, c') \<and> good C m0 fair S c' \<and> is_pred S x"
    proof (cases "h = Hnull H")
      case True
      then show ?thesis using c null_pred rep by (auto simp: fair_pred_def Let_def)
    next
      case False
      let ?inv = "rel_invert R h (k_states S)"
      have ex: "is_pred S ?inv" if "rel_app R ?inv (k_states S) - k_states S = {}"
        using exact_invert [of "k_states S" h] that pre_steps [OF rep] by (auto simp: ctl_is_pred_def exact_def)
      have "is_pred S (rel_inter R ?inv (k_states S))"
        using invert_in [of h "k_states S"] pre_steps [OF rep] by (auto simp: ctl_is_pred_def app_inter)
      with ex have "is_pred S (if rel_app R ?inv (k_states S) - k_states S = {} then ?inv else rel_inter R ?inv (k_states S))"
        by simp
      then show ?thesis using False c by (auto simp: fair_pred_def Let_def ctl_good_def)
    qed
  qed
  show ?thesis
  proof (rule yieldsI)
    fix c assume c: "good C m0 fair S c"
    let ?m = "bnd (CTLChecker_getReachable K C) (\<lambda>reach. bnd (CTLChecker_getNextRel K C) (fair_pred K reach))"
    have "yields (good C m0 fair S) ?m (is_pred S)"
      using fp by (intro yields_bnd [OF yields_reach [OF assms]] yields_bnd [OF yields_next [OF assms]]) simp_all
    from yieldsD [OF this c] show "\<exists>x c'. CTLChecker_getPredRel K C {} c = Inr (x, c') \<and> good C m0 fair S c' \<and> is_pred S x"
      using c True good_model(4) [OF c] by (auto simp: CTLChecker_getPredRel_def ret_def ctl_good_def)
  qed
next
  case False
  show ?thesis
  proof (rule yieldsI)
    fix c assume c: "good C m0 fair S c"
    have eq: "CTLChecker_getPredRel K C {} c = on_model (getPredRel C R {}) c"
      using False good_model(4) [OF c] by (simp add: CTLChecker_getPredRel_def)
    show "\<exists>x c'. CTLChecker_getPredRel K C {} c = Inr (x, c') \<and> good C m0 fair S c' \<and> is_pred S x"
    proof (cases "m_predRel (ck_model c) = Hnull H")
      case unknown: True
      note rep = seesD(1) [OF assms]
      obtain m where m: "computeReachable C R (ck_model c) = Inr (m, k_states S)" "good C m0 fair S (c\<lparr>ck_model := m\<rparr>)"
        "m_types m = m_types m0" "m_model m = m_model m0" "m_initName m = m_initName m0"
        using computeReachable_good [OF sees_views [OF assms] c] by blast
      note same = same_model [OF m(3-5)]
      let ?named = "ITSModel_getNamedLocals C H m"
      have nxt: "getNextRel C H m = Inr h"
        "exact (k_states S) h \<or> (\<exists>ns. ?named = Inr ns \<and> named_cover R h ns (k_states S))"
        using assms False same by (auto simp: ctl_sees_def model_reversible_def model_relation_def exact_def)
      show ?thesis
      proof (cases "h = Hnull H")
        case True
        then have "getPredRel C R {} (ck_model c) = Inr (m, Hnull H)"
          using unknown m(1) nxt(1) by (simp add: getPredRel_def Let_def)
        then show ?thesis using m(2) null_pred [of S] rep True by (simp add: eq on_model_def)
      next
        case live: False
        obtain rel where rel: "reverse_relation R (k_states S) h ?named = Inr rel"
          by (rule reverse_relation_total [OF nxt(2)])
        have "is_pred S rel"
          using reverse_relation_pre [OF nxt(2) _ rel] pre_steps [OF rep] by (auto simp: ctl_is_pred_def)
        moreover have "getPredRel C R {} (ck_model c) = Inr (m\<lparr>m_predRel := rel\<rparr>, rel)"
          using unknown m(1) nxt(1) live rel by (simp add: getPredRel_def Let_def)
        ultimately show ?thesis using m(2) by (simp add: eq on_model_def) (auto simp: ctl_good_def Let_def)
      qed
    next
      case known: False
      then show ?thesis using c False by (auto simp: eq on_model_def getPredRel_def Let_def ctl_good_def)
    qed
  qed
qed

text \<open>The states without successors, and whether the states have a cycle.\<close>

lemma views_dead:
  assumes "views C m0 fair hm h S"
  shows "yields (good C m0 fair S) (getReachableDeadlocks K C) (\<lambda>X. X = {s \<in> k_states S. dead S s})"
proof (rule yieldsI)
  fix c assume c: "good C m0 fair S c"
  note rep = viewsD(1) [OF assms]
  let ?dead = "{s \<in> k_states S. dead S s}"
  have compute: "k_states S - rel_app R (rel_invert R h (k_states S)) (k_states S) = ?dead"
  proof -
    have "rel_app R (rel_invert R h (k_states S)) (k_states S) \<inter> k_states S
        = {s \<in> k_states S. \<exists>t\<in>k_states S. k_step S s t}"
      by (simp only: invert_in pre_steps [OF rep])
    moreover have "(\<exists>t\<in>k_states S. k_step S s t) \<longleftrightarrow> \<not> dead S s" if "s \<in> k_states S" for s
      using representsD(1) [OF rep] that by (auto simp: dead_def closed_def)
    ultimately show ?thesis by blast
  qed
  let ?store = "\<lambda>reach c'. let dead = reach - rel_app R (rel_invert R h reach) reach in Inr (dead, c'\<lparr>ck_deadlocks := dead\<rparr>)"
  have store: "yields (good C m0 fair S) (?store (k_states S)) (\<lambda>X. X = ?dead)"
    unfolding Let_def compute by (rule yieldsI) (auto simp: ctl_good_def Let_def)
  have null: "k_states S = ?dead" if "h = Hnull H"
    using that representsD(3) [OF rep] by (auto simp: dead_def app_null)
  let ?m = "bnd (CTLChecker_getNextRel K C) (\<lambda>nextRel. if nextRel = Hnull H then CTLChecker_getReachable K C
      else bnd (CTLChecker_getReachable K C) (\<lambda>reach c'.
        let dead = reach - rel_app R (rel_invert R nextRel reach) reach in Inr (dead, c'\<lparr>ck_deadlocks := dead\<rparr>)))"
  have "yields (good C m0 fair S) ?m (\<lambda>X. X = ?dead)"
  proof (rule yields_bnd [OF views_next [OF assms]])
    fix x assume x: "x = h"
    show "yields (good C m0 fair S) (if x = Hnull H then CTLChecker_getReachable K C
      else bnd (CTLChecker_getReachable K C) (\<lambda>reach c'.
        let dead = reach - rel_app R (rel_invert R x reach) reach in Inr (dead, c'\<lparr>ck_deadlocks := dead\<rparr>))) (\<lambda>X. X = ?dead)"
    proof (cases "h = Hnull H")
      case True
      then show ?thesis using yields_weaken [OF views_reach [OF assms]] null by (simp add: x)
    next
      case False
      have "yields (good C m0 fair S) (bnd (CTLChecker_getReachable K C) ?store) (\<lambda>X. X = ?dead)"
        by (rule yields_bnd [OF views_reach [OF assms]]) (use store in simp)
      then show ?thesis using False by (simp add: x)
    qed
  qed
  note m = yieldsD [OF this c]
  show "\<exists>x c'. getReachableDeadlocks K C c = Inr (x, c') \<and> good C m0 fair S c' \<and> x = ?dead"
  proof (cases "ck_deadlocks c = ct_one K")
    case True
    then have "getReachableDeadlocks K C c = ?m c" by (simp add: getReachableDeadlocks_def Let_def)
    with m show ?thesis by (simp only:)
  next
    case False
    then have "getReachableDeadlocks K C c = Inr (?dead, c)"
      using c by (simp add: getReachableDeadlocks_def Let_def ret_def ctl_good_def)
    with c show ?thesis by simp
  qed
qed

lemma views_scc:
  assumes "views C m0 fair hm h S"
  shows "yields (good C m0 fair S) (hasSCCs K C) (\<lambda>b. b \<longleftrightarrow> chains (k_step S) (k_states S) \<noteq> {})"
proof (rule yieldsI)
  fix c assume c: "good C m0 fair S c"
  note rep = viewsD(1) [OF assms]
  show "\<exists>x c'. hasSCCs K C c = Inr (x, c') \<and> good C m0 fair S c' \<and> (x \<longleftrightarrow> chains (k_step S) (k_states S) \<noteq> {})"
  proof (cases "ck_scc_computed c")
    case True
    then show ?thesis using c by (auto simp: hasSCCs_def ret_def ctl_good_def)
  next
    case False
    have cyc: "ct_has_image K (ct_fixpoint K (ct_meet K h (Hid H))) (k_states S) \<noteq> {}
        \<longleftrightarrow> chains (k_step S) (k_states S) \<noteq> {}"
      unfolding has_image_iff chains_next [OF rep subset_refl]
      using chains_back [OF representsD(2) [OF rep], of "k_step S"]
        chains_back [OF representsD(2) [OF rep], of "\<lambda>s t. k_step S t s"] by blast
    let ?c = "c\<lparr>ck_scc_computed := True\<rparr>"
    have c1: "CTLChecker_getNextRel K C ?c = Inr (h, ?c)"
      using yieldsD [OF views_next [OF assms] c]
      by (cases "ck_isfairtime c") (auto simp: CTLChecker_getNextRel_def of_res_def rbind_eq_Inr_iff)
    obtain m where m: "CTLChecker_getReachable K C ?c = Inr (k_states S, ?c\<lparr>ck_model := m\<rparr>)" "good C m0 fair S (c\<lparr>ck_model := m\<rparr>)"
      using computeReachable_good [OF assms c] by (auto simp: CTLChecker_getReachable_def on_model_def)
    have "hasSCCs K C c = Inr (chains (k_step S) (k_states S) \<noteq> {},
        ?c\<lparr>ck_model := m, ck_scc := (chains (k_step S) (k_states S) \<noteq> {})\<rparr>)"
      using False c1 m(1) cyc by (simp add: hasSCCs_def bnd_def Let_def)
    moreover have "good C m0 fair S (?c\<lparr>ck_model := m, ck_scc := (chains (k_step S) (k_states S) \<noteq> {})\<rparr>)"
      using m(2) by (auto simp: ctl_good_def Let_def)
    ultimately show ?thesis by blast
  qed
qed

lemmas yields_dead = views_dead [OF sees_views]

lemmas yields_scc = views_scc [OF sees_views]

end

end
