(* ===== verification/Ctl_Verify.thy ===== *)
theory Ctl_Verify imports Ctl_Sound begin

text \<open>
  Each operator of \<open>getStateVerifying\<close> answers the states of the formula, from answers for its children that
  are exact, or that are empty exactly when the states of the child are.
\<close>

context ctl_library begin

section \<open>Homomorphisms\<close>

definition hom_ok :: "'st kripke \<Rightarrow> Ctlp_Formula \<Rightarrow> 'h \<Rightarrow> bool" where
  "hom_ok S f h \<longleftrightarrow> (\<forall>T. rel_app R h T \<subseteq> T) \<and> (\<forall>T\<subseteq>k_states S. rel_app R h T = T \<inter> ctl_sem S f)"

definition some_hom :: "'st kripke \<Rightarrow> Ctlp_Formula \<Rightarrow> 'h option \<Rightarrow> bool" where
  "some_hom S f oh \<longleftrightarrow> (\<forall>h. oh = Some h \<longrightarrow> hom_ok S f h)"

lemma hom_okD: "hom_ok S f h \<Longrightarrow> T \<subseteq> k_states S \<Longrightarrow> rel_app R h T = T \<inter> ctl_sem S f"
  by (simp add: hom_ok_def)

lemma hom_ok_not:
  assumes "hom_ok S f h"
  shows "hom_ok S (Ctlp_NOT f) (Hnot H h)"
proof -
  have "rel_app R (Hnot H h) T = T - rel_app R h T" for T
    by (rule app_not) (use assms in \<open>simp add: hom_ok_def\<close>)
  with assms show ?thesis by (auto simp: hom_ok_def)
qed

lemma hom_ok_and: "hom_ok S f h \<Longrightarrow> hom_ok S g k \<Longrightarrow> hom_ok S (Ctlp_AND f g) (Hcomp H h k)"
  unfolding hom_ok_def app_comp by (simp add: subset_trans le_infI1 Int_assoc) blast

lemma hom_ok_or: "hom_ok S f h \<Longrightarrow> hom_ok S g k \<Longrightarrow> hom_ok S (Ctlp_OR f g) (Hor H h k)"
  unfolding hom_ok_def app_or by auto

lemma hom_ok_then:
  assumes "hom_ok S f h" "hom_ok S g k"
  shows "hom_ok S (Ctlp_THEN f g) (Hor H (Hnot H h) k)"
  using hom_ok_or [OF hom_ok_not [OF assms(1)] assms(2)] by (simp add: hom_ok_def)

lemma hom_ok_id: "k_states S \<subseteq> ctl_sem S f \<Longrightarrow> hom_ok S f (Hid H)"
  unfolding hom_ok_def app_id by blast

lemma with_child_ok:
  assumes "\<exists>oh. r = Inr oh \<and> some_hom S f oh" "\<And>h. hom_ok S f h \<Longrightarrow> \<exists>oh. k h = Inr oh \<and> some_hom S g oh"
  shows "\<exists>oh. with_child r k = Inr oh \<and> some_hom S g oh"
  using assms by (auto simp: with_child_def some_hom_def split: option.split)

lemma with_children_ok:
  assumes "\<exists>oh. l = Inr oh \<and> some_hom S f oh" "\<exists>oh. r = Inr oh \<and> some_hom S g oh"
    and "\<And>a b. hom_ok S f a \<Longrightarrow> hom_ok S g b \<Longrightarrow> \<exists>oh. k a b = Inr oh \<and> some_hom S e oh"
  shows "\<exists>oh. with_children l r k = Inr oh \<and> some_hom S e oh"
  unfolding with_children_def using assms by (intro with_child_ok [of l S f] with_child_ok [of r S g]) auto

lemma with_children_op:
  assumes "\<exists>oh. l = Inr oh \<and> some_hom S f oh" "\<exists>oh. r = Inr oh \<and> some_hom S g oh"
    and "\<And>a b. hom_ok S f a \<Longrightarrow> hom_ok S g b \<Longrightarrow> hom_ok S e (k a b)"
  shows "\<exists>oh. with_children l r (\<lambda>a b. Inr (Some (k a b))) = Inr oh \<and> some_hom S e oh"
  by (rule with_children_ok [OF assms(1,2)]) (simp add: some_hom_def assms(3))

lemma some_hom_None: "some_hom S f None"
  by (simp add: some_hom_def)

lemma getHomomorphism_sound:
  assumes "closed S" "checkable f" "labelled C m S f"
  shows "\<exists>oh. getHomomorphism K C m f = Inr oh \<and> some_hom S f oh"
proof -
  let ?P = "\<lambda>f. checkable f \<and> labelled C m S f \<longrightarrow> (\<exists>oh. getHomomorphism K C m f = Inr oh \<and> some_hom S f oh)"
  have "?P f \<and> (\<forall>g. f = Ctlp_NOT g \<longrightarrow> ?P g)"
  proof (induction f)
    case (Ctlp_NOT f)
    have "?P (Ctlp_NOT f)"
    proof (intro impI)
      assume ok: "checkable (Ctlp_NOT f) \<and> labelled C m S (Ctlp_NOT f)"
      show "\<exists>oh. getHomomorphism K C m (Ctlp_NOT f) = Inr oh \<and> some_hom S (Ctlp_NOT f) oh"
      proof (cases "\<exists>g. f = Ctlp_NOT g")
        case True
        then obtain g where g: "f = Ctlp_NOT g" ..
        then have "ctl_sem S g \<subseteq> k_states S" using ok ctl_sem_in [OF assms(1) checkable_state] by simp
        then have "ctl_sem S (Ctlp_NOT f) = ctl_sem S g" by (auto simp: g)
        then show ?thesis using Ctlp_NOT g ok by (simp add: some_hom_def hom_ok_def)
      next
        case False
        then have eq: "getHomomorphism K C m (Ctlp_NOT f) = with_child (getHomomorphism K C m f) (\<lambda>l. Inr (Some (Hnot H l)))"
          by (cases f) auto
        have "\<exists>oh. getHomomorphism K C m f = Inr oh \<and> some_hom S f oh" using Ctlp_NOT ok by simp
        then show ?thesis unfolding eq by (rule with_child_ok) (simp add: some_hom_def hom_ok_not)
      qed
    qed
    with Ctlp_NOT show ?case by simp
  next
    case (Ctlp_ID n v)
    then show ?case
      by (fastforce simp: getSelectorAP_def some_hom_def hom_ok_def)
  next
    case (Ctlp_OR f g)
    then show ?case
      using with_children_op [of "getHomomorphism K C m f" S f "getHomomorphism K C m g" g "Ctlp_OR f g" "Hor H"]
        hom_ok_or [of S f _ g] by simp
  next
    case (Ctlp_AND f g)
    then show ?case
      using with_children_op [of "getHomomorphism K C m f" S f "getHomomorphism K C m g" g "Ctlp_AND f g" "Hcomp H"]
        hom_ok_and [of S f _ g] by simp
  next
    case (Ctlp_THEN f g)
    then show ?case
      using with_children_op [of "getHomomorphism K C m f" S f "getHomomorphism K C m g" g "Ctlp_THEN f g" "\<lambda>a b. Hor H (Hnot H a) b"]
        hom_ok_then [of S f _ g] by simp
  next
    case Ctlp_TRUE
    then show ?case by (simp add: some_hom_def hom_ok_id)
  next
    case Ctlp_FALSE
    then show ?case by (simp add: some_hom_def hom_ok_def app_null)
  next
    case (Ctlp_EX f)
    then show ?case by (auto intro!: with_child_ok [of _ S f] some_hom_None)
  next
    case (Ctlp_EG f)
    then show ?case by (auto intro!: with_child_ok [of _ S f] some_hom_None)
  next
    case (Ctlp_EY f)
    then show ?case by (auto intro!: with_child_ok [of _ S f] some_hom_None)
  next
    case (Ctlp_EU f g)
    then show ?case by (auto intro!: with_children_ok [of _ S f _ g] some_hom_None)
  next
    case (Ctlp_FwdU f g)
    then show ?case by (auto intro!: with_children_ok [of _ S f _ g] some_hom_None)
  next
    case (Ctlp_FwdG f g)
    then show ?case by (auto intro!: with_children_ok [of _ S f _ g] some_hom_None)
  qed (auto intro: some_hom_None)
  with assms(2,3) show ?thesis by blast
qed

section \<open>Children\<close>

abbreviation "keeps C m0 fair S \<equiv> yields (good C m0 fair S)"

text \<open>What is asked of an answer: the states, or as many as needed to know whether there are some.\<close>

definition answers :: "'st kripke \<Rightarrow> Ctlp_Formula \<Rightarrow> bool \<Rightarrow> 'st set \<Rightarrow> bool" where
  "answers S f e X \<longleftrightarrow> (if e then X = ctl_sem S f else X = {} \<longleftrightarrow> ctl_sem S f = {})"

lemma answers_exact: "X = ctl_sem S f \<Longrightarrow> answers S f e X"
  by (simp add: answers_def)

text \<open>A formula whose children are translated without an error, and what its homomorphism may be.\<close>

definition translated :: "('ty, 'h, 'st) type_calls \<Rightarrow> ('ty, 'h, 'st) ITSModel \<Rightarrow> 'st kripke \<Rightarrow> Ctlp_Formula \<Rightarrow> bool" where
  "translated C m0 S f \<longleftrightarrow> (\<exists>oh. getHomomorphism K C m0 f = Inr oh \<and> some_hom S f oh)"

lemma getHomomorphism_same:
  assumes "m_types m = m_types m0" "m_model m = m_model m0" "m_initName m = m_initName m0"
  shows "getHomomorphism K C m f = getHomomorphism K C m0 f \<and> (\<forall>g. f = Ctlp_NOT g \<longrightarrow> getHomomorphism K C m g = getHomomorphism K C m0 g)"
proof (induction f)
  case (Ctlp_NOT f)
  then show ?case by (cases f) auto
next
  case (Ctlp_ID n v)
  then show ?case by (simp add: getSelectorAP_def same_model [OF assms])
qed simp_all

lemma yields_hom:
  assumes "translated C m0 S f"
  shows "keeps C m0 fair S (getHom_of K C f) (some_hom S f)"
proof (rule yieldsI)
  fix c assume c: "good C m0 fair S c"
  have "getHomomorphism K C (ck_model c) f = getHomomorphism K C m0 f"
    using getHomomorphism_same [OF good_model(1-3) [OF c]] by blast
  with assms c show "\<exists>x c'. getHom_of K C f c = Inr (x, c') \<and> good C m0 fair S c' \<and> some_hom S f x"
    by (auto simp: translated_def getHom_of_def of_res_def)
qed

lemma yields_select:
  assumes "labelled C m0 S (Ctlp_ID n v)"
  shows "keeps C m0 fair S (\<lambda>c. of_res (getSelectorAP C n v (ck_model c)) c) (hom_ok S (Ctlp_ID n v))"
proof (rule yieldsI)
  fix c assume c: "good C m0 fair S c"
  obtain p where "ITSModel_getPredicate C (n @ v) m0 = Inr p" "\<forall>T. rel_app R p T = {s \<in> T. k_label S (n @ v) s}"
    using assms by auto
  with c good_same(6) [OF c, of "n @ v"]
  show "\<exists>x c'. of_res (getSelectorAP C n v (ck_model c)) c = Inr (x, c') \<and> good C m0 fair S c' \<and> hom_ok S (Ctlp_ID n v) x"
    by (auto simp: getSelectorAP_def of_res_def hom_ok_def)
qed

lemma child_sound:
  assumes sees: "sees C m0 fair hm h S" and tr: "translated C m0 S f"
    and s: "keeps C m0 fair S (s True) (answers S f True)" and sub: "ctl_sem S f \<subseteq> k_states S"
  shows "keeps C m0 fair S (child K C f s) (\<lambda>(oh, X). X = ctl_sem S f \<and> some_hom S f oh)"
  unfolding child_def
proof (rule yields_bnd [OF yields_hom [OF tr]], rule yields_bnd)
  fix oh assume oh: "some_hom S f oh"
  show "keeps C m0 fair S (case oh of None \<Rightarrow> s True
      | Some h \<Rightarrow> bnd (CTLChecker_getReachable K C) (\<lambda>reach. ret (rel_app R h reach))) (\<lambda>X. X = ctl_sem S f)"
  proof (cases oh)
    case None
    then show ?thesis using s by (simp add: answers_def [abs_def])
  next
    case (Some h)
    then have "rel_app R h (k_states S) = ctl_sem S f" using hom_okD [of S f h "k_states S"] oh sub by (auto simp: some_hom_def)
    with Some show ?thesis by (auto intro!: yields_bnd [OF yields_reach [OF sees]] yields_ret)
  qed
next
  fix oh X assume oh: "some_hom S f oh" and X: "X = ctl_sem S f"
  show "keeps C m0 fair S (bnd (CTLChecker_getReachable K C) (\<lambda>reach. ret (if X = reach then Some (Hid H) else oh, X)))
      (\<lambda>(oh, X). X = ctl_sem S f \<and> some_hom S f oh)"
  proof (rule yields_bnd [OF yields_reach [OF sees]])
    fix Y assume "Y = k_states S"
    with oh X show "keeps C m0 fair S (ret (if X = Y then Some (Hid H) else oh, X)) (\<lambda>(oh, X). X = ctl_sem S f \<and> some_hom S f oh)"
      by (intro yields_ret) (auto simp: some_hom_def intro: hom_ok_id)
  qed
qed

text \<open>A child computed by \<open>s\<close>, as the operators use it.\<close>

definition computes ::
  "('ty, 'h, 'st) type_calls \<Rightarrow> ('ty, 'h, 'st) ITSModel \<Rightarrow> bool \<Rightarrow> 'st kripke \<Rightarrow> Ctlp_Formula \<Rightarrow>
     (bool \<Rightarrow> ('ty, 'h, 'st) states) \<Rightarrow> bool" where
  "computes C m0 fair S f s \<longleftrightarrow>
     translated C m0 S f \<and> (\<forall>e. keeps C m0 fair S (s e) (answers S f e))"

lemma computesD:
  assumes "computes C m0 fair S f s"
  shows "translated C m0 S f" "keeps C m0 fair S (s e) (answers S f e)"
  using assms by (simp_all add: computes_def)

lemma yields_child:
  assumes "sees C m0 fair hm h S" "computes C m0 fair S f s" "ctl_sem S f \<subseteq> k_states S"
    and "\<And>oh. some_hom S f oh \<Longrightarrow> keeps C m0 fair S (k (oh, ctl_sem S f)) Q"
  shows "keeps C m0 fair S (bnd (child K C f s) k) Q"
proof (rule yields_bnd)
  show "keeps C m0 fair S (child K C f s) (\<lambda>(oh, X). X = ctl_sem S f \<and> some_hom S f oh)"
    by (rule child_sound) (use assms computesD in auto)
qed (use assms(4) in auto)

lemma yields_reachable:
  assumes "sees C m0 fair hm h S" "keeps C m0 fair S (k (k_states S)) Q"
  shows "keeps C m0 fair S (bnd (CTLChecker_getReachable K C) k) Q"
  by (rule yields_bnd [OF yields_reach [OF assms(1)]]) (use assms(2) in simp)

lemma yields_nextRel:
  assumes "sees C m0 fair hm h S" "keeps C m0 fair S (k h) Q"
  shows "keeps C m0 fair S (bnd (CTLChecker_getNextRel K C) k) Q"
  by (rule yields_bnd [OF yields_next [OF assms(1)]]) (use assms(2) in simp)

end

end
