(* ===== verification/Ctl_Operators.thy ===== *)
theory Ctl_Operators imports Ctl_Verify begin

text \<open>
  The exact computation of each operator of \<open>getStateVerifying\<close> delivers the states of the formula, when the
  computations of its children do.
\<close>

context ctl_library begin

abbreviation "delivers C m0 fair S m f \<equiv> keeps C m0 fair S m (\<lambda>X. X = ctl_sem S f)"

section \<open>Boolean operators\<close>

lemma exact_ID_sound:
  assumes "sees C m0 fair hm h S" "labelled C m0 S (Ctlp_ID n v)"
  shows "delivers C m0 fair S (exact_ID K C n v) (Ctlp_ID n v)"
  unfolding exact_ID_def
proof (rule yields_bnd [OF yields_select [OF assms(2)]], rule yields_reachable [OF assms(1)], rule yields_ret)
  fix sel assume "hom_ok S (Ctlp_ID n v) sel"
  from hom_okD [OF this subset_refl] show "rel_app R sel (k_states S) = ctl_sem S (Ctlp_ID n v)" by auto
qed

lemma exact_NOT_sound:
  assumes "sees C m0 fair hm h S" "computes C m0 fair S f sl" "ctl_sem S f \<subseteq> k_states S"
  shows "delivers C m0 fair S (exact_NOT K C f sl) (Ctlp_NOT f)"
  unfolding exact_NOT_def
  by (rule yields_child [OF assms]) (simp add: yields_reachable [OF assms(1)] yields_ret)

lemma exact_OR_sound:
  assumes s: "sees C m0 fair hm h S" and "computes C m0 fair S f sl" "ctl_sem S f \<subseteq> k_states S"
    and "computes C m0 fair S g sr" "ctl_sem S g \<subseteq> k_states S"
  shows "delivers C m0 fair S (exact_OR K C f g sl sr) (Ctlp_OR f g)"
  unfolding exact_OR_def
  by (rule yields_child [OF s assms(2,3)], simp, rule yields_child [OF s assms(4,5)]) (simp add: yields_ret)

lemma exact_THEN_sound:
  assumes s: "sees C m0 fair hm h S" and "computes C m0 fair S f sl" "ctl_sem S f \<subseteq> k_states S"
    and "computes C m0 fair S g sr" "ctl_sem S g \<subseteq> k_states S"
  shows "delivers C m0 fair S (exact_THEN K C f g sl sr) (Ctlp_THEN f g)"
  unfolding exact_THEN_def
  by (rule yields_child [OF s assms(2,3)], simp, rule yields_child [OF s assms(4,5)])
     (simp add: yields_reachable [OF s] yields_ret)

text \<open>A conjunction computes its right child first; with \<open>Init\<close> on the left it filters the initial states.\<close>

lemma exact_AND_sound:
  assumes s: "sees C m0 fair hm h S" and "computes C m0 fair S f sl" "ctl_sem S f \<subseteq> k_states S"
    and "computes C m0 fair S g sr" "ctl_sem S g \<subseteq> k_states S"
  shows "delivers C m0 fair S (exact_AND K C f g sl sr) (Ctlp_AND f g)"
  unfolding exact_AND_def
proof (rule yields_bnd [OF yields_hom [OF computesD(1) [OF assms(4)]]])
  fix rh assume rh: "some_hom S g rh"
  let ?other = "bnd (sr True) (\<lambda>Rr. if Rr = {} then ret {} else bnd (child K C f sl) (\<lambda>(_, L). ret (L \<inter> Rr)))"
  have other: "delivers C m0 fair S ?other (Ctlp_AND f g)"
  proof (rule yields_bnd [OF computesD(2) [OF assms(4), of True]])
    fix X assume "answers S g True X"
    then have X: "X = ctl_sem S g" by (simp add: answers_def)
    show "delivers C m0 fair S (if X = {} then ret {} else bnd (child K C f sl) (\<lambda>(_, L). ret (L \<inter> X))) (Ctlp_AND f g)"
      by (intro yields_if yields_ret yields_child [OF s assms(2,3)]) (simp_all add: X yields_ret)
  qed
  show "delivers C m0 fair S (case (rh, f) of
      (Some h, Ctlp_Init) \<Rightarrow> bnd (CTLChecker_getInitialState K C) (\<lambda>M0. ret (rel_app R h M0)) | _ \<Rightarrow> ?other) (Ctlp_AND f g)"
  proof (cases "\<exists>k. rh = Some k \<and> f = Ctlp_Init")
    case True
    then obtain k where k: "rh = Some k" "f = Ctlp_Init" by blast
    have "rel_app R k (k_init S) = ctl_sem S (Ctlp_AND f g)"
      using hom_okD [of S g k "k_init S"] rh k seesD(3) [OF s] by (simp add: some_hom_def)
    then show ?thesis by (simp add: k) (rule yields_bnd [OF yields_init [OF s]], simp add: yields_ret)
  next
    case False
    then have "(case (rh, f) of
      (Some h, Ctlp_Init) \<Rightarrow> bnd (CTLChecker_getInitialState K C) (\<lambda>M0. ret (rel_app R h M0)) | _ \<Rightarrow> ?other) = ?other"
      by (cases rh; cases f) auto
    then show ?thesis using other by simp
  qed
qed

section \<open>Paths that start in the state\<close>

lemma restrict_after_eq:
  assumes "some_hom S f oh" "rel_app R t T \<subseteq> k_states S"
  shows "rel_app R (restrict_after K oh (ctl_sem S f) t) T = rel_app R t T \<inter> ctl_sem S f"
  using assms by (cases oh) (simp_all add: restrict_after_def app_inter app_comp some_hom_def hom_ok_def)

lemma pred_in: "is_pred S p \<Longrightarrow> T \<subseteq> k_states S \<Longrightarrow> rel_app R p T \<subseteq> k_states S"
  by (auto simp: ctl_is_pred_def)

lemma restrict_pred:
  assumes "some_hom S f oh" "is_pred S p" "ctl_sem S f \<subseteq> k_states S" "T \<subseteq> k_states S"
  shows "rel_app R (restrict_after K oh (ctl_sem S f) p) T = {s \<in> ctl_sem S f. \<exists>x\<in>T. k_step S s x}"
  unfolding restrict_after_eq [OF assms(1) pred_in [OF assms(2,4)]]
  using assms(2,3,4) by (auto simp: ctl_is_pred_def)

lemma exact_EX_sound:
  assumes s: "sees C m0 fair hm h S" and "computes C m0 fair S f sl" "ctl_sem S f \<subseteq> k_states S"
  shows "delivers C m0 fair S (exact_EX K C f sl) (Ctlp_EX f)"
  unfolding exact_EX_def
proof (rule yields_child [OF assms], simp only: prod.case, rule yields_bnd [OF yields_pred [OF s]], rule yields_ret)
  fix p assume "is_pred S p"
  with assms(3) show "rel_app R p (ctl_sem S f) = ctl_sem S (Ctlp_EX f)" by (auto simp: ctl_is_pred_def)
qed

lemma reach_through:
  assumes rep: "represents h S" and "some_hom S f oh" "is_pred S p" "ctl_sem S f \<subseteq> k_states S" "X \<subseteq> k_states S"
  shows "rel_app R (or_id_fixpoint K (restrict_after K oh (ctl_sem S f) p)) X
    = {s. \<exists>x\<in>X. (\<lambda>a b. a \<in> ctl_sem S f \<and> k_step S a b)\<^sup>*\<^sup>* s x}"
  by (rule backward_reach [OF rep assms(5,4) restrict_pred [OF assms(2-4)]])

lemma exact_EU_sound:
  assumes s: "sees C m0 fair hm h S" and f: "computes C m0 fair S f sl" "ctl_sem S f \<subseteq> k_states S"
    and g: "computes C m0 fair S g sr" "ctl_sem S g \<subseteq> k_states S"
  shows "delivers C m0 fair S (exact_EU K C f g sl sr) (Ctlp_EU f g)"
  unfolding exact_EU_def
proof (rule yields_child [OF s f], simp only: prod.case, rule yields_child [OF s g], simp only: prod.case,
    rule yields_bnd [OF yields_pred [OF s]], rule yields_ret)
  fix oh p assume "some_hom S f oh" "is_pred S p"
  note rep = seesD(1) [OF s]
  show "rel_app R (or_id_fixpoint K (restrict_after K oh (ctl_sem S f) p)) (ctl_sem S g) = ctl_sem S (Ctlp_EU f g)"
    unfolding reach_through [OF rep \<open>some_hom S f oh\<close> \<open>is_pred S p\<close> f(2) g(2)] ctl_sem.simps
    by (rule EU_backward [OF representsD(1) [OF rep] g(2) f(2)])
qed

lemma no_chains:
  assumes "chains E (k_states S) = {}" "X \<subseteq> k_states S"
  shows "chains E X = {}"
  using chains_mono [OF assms(2), of E] assms(1) by simp

lemma EG_chains:
  assumes rep: "represents h S" and "some_hom S f oh" "is_pred S p" "ctl_sem S f \<subseteq> k_states S"
  shows "ct_app K (ct_fixpoint K (case oh of None \<Rightarrow> ct_meet K p (Hid H) | Some h \<Rightarrow> ct_hom K (Hcomp H h p))) (ctl_sem S f)
    = chains (k_step S) (ctl_sem S f)"
proof (cases oh)
  case None
  then show ?thesis using chains_pred [OF rep assms(3,4)] by simp
next
  case (Some k)
  have "rel_app R (restrict_after K oh (ctl_sem S f) p) T = {s \<in> ctl_sem S f. \<exists>t\<in>T. k_step S s t}"
    if "T \<subseteq> ctl_sem S f" for T using restrict_pred [OF assms(2-4), of T] that assms(4) by auto
  then have "ct_app K (ct_fixpoint K (ct_hom K (Hcomp H k p))) (ctl_sem S f) = chains (k_step S) (ctl_sem S f)"
    using finite_subset [OF assms(4) representsD(2) [OF rep]]
    by (intro gfix_chains [where inside = False]) (auto simp: app_hom Some restrict_after_def)
  with Some show ?thesis by simp
qed

lemma exact_EG_sound:
  assumes s: "sees C m0 fair hm h S" and f: "computes C m0 fair S f sl" "ctl_sem S f \<subseteq> k_states S"
  shows "delivers C m0 fair S (exact_EG K C f sl) (Ctlp_EG f)"
  unfolding exact_EG_def Let_def
proof (rule yields_child [OF s f], simp only: prod.case, rule yields_bnd [OF yields_dead [OF s]],
    rule yields_bnd [OF yields_pred [OF s]], rule yields_bnd [OF yields_scc [OF s]], rule yields_ret)
  fix oh D p b assume oh: "some_hom S f oh" and D: "D = {s \<in> k_states S. dead S s}" and p: "is_pred S p"
    and b: "b \<longleftrightarrow> chains (k_step S) (k_states S) \<noteq> {}"
  note rep = seesD(1) [OF s]
  let ?F = "ctl_sem S f"
  have sub: "D \<inter> ?F \<subseteq> k_states S" using f(2) by blast
  have "ctl_sem S (Ctlp_EG f) = chains (k_step S) ?F
      \<union> rel_app R (or_id_fixpoint K (restrict_after K oh ?F p)) (D \<inter> ?F)"
    unfolding reach_through [OF rep oh p f(2) sub] ctl_sem.simps unfolding D
    by (rule EG_backward [OF representsD(1) [OF rep] f(2)])
  then show "(if \<not> b then rel_app R (or_id_fixpoint K (restrict_after K oh ?F p)) (D \<inter> ?F)
      else if ct_has_image K (ct_fixpoint K (case oh of None \<Rightarrow> ct_meet K p (Hid H) | Some h \<Rightarrow> ct_hom K (Hcomp H h p))) ?F = {}
      then rel_app R (or_id_fixpoint K (restrict_after K oh ?F p)) (D \<inter> ?F)
      else ct_app K (ct_fixpoint K (case oh of None \<Rightarrow> ct_meet K p (Hid H) | Some h \<Rightarrow> ct_hom K (Hcomp H h p))) ?F
        \<union> rel_app R (or_id_fixpoint K (restrict_after K oh ?F p)) (D \<inter> ?F)) = ctl_sem S (Ctlp_EG f)"
    using no_chains [OF _ f(2), of "k_step S"] b unfolding has_image_iff EG_chains [OF rep oh p f(2)] by auto
qed

section \<open>Paths that lead to the state\<close>

lemma exact_EY_sound:
  assumes s: "sees C m0 fair hm h S" and "computes C m0 fair S f sl" "ctl_sem S f \<subseteq> k_states S"
  shows "delivers C m0 fair S (exact_EY K C f sl) (Ctlp_EY f)"
  unfolding exact_EY_def
  by (rule yields_child [OF assms], simp only: prod.case, rule yields_nextRel [OF s], rule yields_ret)
     (simp add: app_steps [OF seesD(1) [OF s]])

lemma forward_until_all:
  assumes "closed S" "P \<subseteq> k_states S"
  shows "forward_until S P (k_states S) = forward_until S P UNIV"
proof -
  have "(\<lambda>a b. a \<in> k_states S \<and> k_step S a b)\<^sup>*\<^sup>* s t \<and> t \<in> k_states S"
    if "(\<lambda>a b. a \<in> UNIV \<and> k_step S a b)\<^sup>*\<^sup>* s t" "s \<in> k_states S" for s t
    using that
  proof (induction rule: rtranclp_induct)
    case (step y z)
    then have "(\<lambda>a b. a \<in> k_states S \<and> k_step S a b)\<^sup>*\<^sup>* s y" "y \<in> k_states S" "k_step S y z" by simp_all
    with assms(1) show ?case by (auto simp: closed_def intro: rtranclp.rtrancl_into_rtrancl)
  qed simp
  moreover have "(\<lambda>a b. a \<in> UNIV \<and> k_step S a b)\<^sup>*\<^sup>* s t" if "(\<lambda>a b. a \<in> k_states S \<and> k_step S a b)\<^sup>*\<^sup>* s t" for s t
    using that by (induction rule: rtranclp_induct) (auto intro: rtranclp.rtrancl_into_rtrancl)
  ultimately have "forward_until S P (k_states S) \<subseteq> forward_until S P UNIV" "forward_until S P UNIV \<subseteq> forward_until S P (k_states S)"
    using assms(2) unfolding forward_until_def by blast+
  then show ?thesis by (rule equalityI)
qed

lemma init_reaches:
  assumes "sees C m0 fair hm h S"
  shows "forward_until S (k_init S) (k_states S) = k_states S"
proof -
  note rep = seesD(1) [OF assms]
  have "k_states S \<subseteq> forward_until S (k_init S) UNIV"
  proof (cases fair)
    case False
    then have "k_states S = reachable R h (k_init S)" using assms by (auto simp: ctl_sees_def ctl_views_def)
    then show ?thesis by (simp add: reachable_def forward_until_def representsD(3) [OF rep])
  qed (use assms in \<open>auto simp: ctl_sees_def ctl_views_def\<close>)
  then show ?thesis
    using forward_until_all [OF representsD(1) [OF rep] seesD(3) [OF assms]]
      forward_until_in [OF representsD(1) [OF rep] seesD(3) [OF assms]] by auto
qed

lemma forward_next:
  assumes "represents h S" "P \<subseteq> k_states S" "\<And>T. T \<subseteq> k_states S \<Longrightarrow> rel_app R t T = rel_app R h (T \<inter> Q)"
  shows "rel_app R (or_id_fixpoint K t) P = forward_until S P Q"
proof -
  have "rel_app R t T = {b. \<exists>a\<in>T. a \<in> Q \<and> k_step S a b}" if "T \<subseteq> k_states S" for T
    by (auto simp: assms(3) [OF that] app_steps [OF assms(1)])
  from forward_reach [OF assms(1,2) this] show ?thesis by (auto simp: forward_until_def)
qed

lemma exact_FwdU_sound:
  assumes s: "sees C m0 fair hm h S" and f: "computes C m0 fair S f sl" "ctl_sem S f \<subseteq> k_states S"
    and g: "computes C m0 fair S g sr" "ctl_sem S g \<subseteq> k_states S"
  shows "delivers C m0 fair S (exact_FwdU K C f g sl sr) (Ctlp_FwdU f g)"
  unfolding exact_FwdU_def Let_def
proof (rule yields_child [OF s f], simp only: prod.case, rule yields_child [OF s g], simp only: prod.case)
  fix rh assume rh: "some_hom S g rh"
  note rep = seesD(1) [OF s]
  let ?P = "ctl_sem S f" and ?Q = "ctl_sem S g"
  let ?t = "if ?Q = k_states S then h else Hcomp H h (rel_inter R (Hid H) ?Q)"
  have 1: "rel_app R (or_id_fixpoint K ?t) ?P = ctl_sem S (Ctlp_FwdU f g)"
    unfolding ctl_sem.simps
    by (rule forward_next [OF rep f(2)]) (auto simp: app_comp app_inter app_id Int_absorb2)
  have 2: "rel_app R (or_id_fixpoint K (Hcomp H h k)) ?P = ctl_sem S (Ctlp_FwdU f g)" if "rh = Some k" for k
    unfolding ctl_sem.simps
    by (rule forward_next [OF rep f(2)]) (use that rh in \<open>simp add: app_comp some_hom_def hom_ok_def\<close>)
  show "delivers C m0 fair S (if f = Ctlp_Init \<and> g = Ctlp_TRUE then CTLChecker_getReachable K C
      else bnd (CTLChecker_getNextRel K C) (\<lambda>nextRel. case rh of
        None \<Rightarrow> bnd (CTLChecker_getReachable K C) (\<lambda>reach. ret (rel_app R (or_id_fixpoint K
            (if ?Q = reach then nextRel else Hcomp H nextRel (rel_inter R (Hid H) ?Q))) ?P))
      | Some h \<Rightarrow> ret (rel_app R (or_id_fixpoint K (Hcomp H nextRel h)) ?P))) (Ctlp_FwdU f g)"
  proof (rule yields_if)
    show "delivers C m0 fair S (CTLChecker_getReachable K C) (Ctlp_FwdU f g)" if "f = Ctlp_Init \<and> g = Ctlp_TRUE"
      using yields_reach [OF s] init_reaches [OF s] that by simp
  qed (rule yields_nextRel [OF s], cases rh, auto intro!: yields_reachable [OF s] yields_ret simp: 1 2)
qed

text \<open>Successors that are in \<open>Q\<close>, from the states of \<open>P\<close> in \<open>Q\<close>.\<close>

lemma forward_inside: "{b. \<exists>a\<in>P \<inter> Q. (\<lambda>a b. k_step S a b \<and> b \<in> Q)\<^sup>*\<^sup>* a b} = forward_until S P Q \<inter> Q"
proof (intro equalityI subsetI)
  fix b assume "b \<in> {b. \<exists>a\<in>P \<inter> Q. (\<lambda>a b. k_step S a b \<and> b \<in> Q)\<^sup>*\<^sup>* a b}"
  then obtain a where a: "a \<in> P" "a \<in> Q" "(\<lambda>a b. k_step S a b \<and> b \<in> Q)\<^sup>*\<^sup>* a b" by blast
  from a(3,2) have "(\<lambda>a b. a \<in> Q \<and> k_step S a b)\<^sup>*\<^sup>* a b \<and> b \<in> Q"
    by (induction rule: rtranclp_induct) (auto intro: rtranclp.rtrancl_into_rtrancl)
  with a(1) show "b \<in> forward_until S P Q \<inter> Q" by (auto simp: forward_until_def)
next
  fix b assume "b \<in> forward_until S P Q \<inter> Q"
  then obtain a where a: "a \<in> P" "(\<lambda>a b. a \<in> Q \<and> k_step S a b)\<^sup>*\<^sup>* a b" "b \<in> Q" by (auto simp: forward_until_def)
  from a(2,3) have "a \<in> Q \<and> (\<lambda>a b. k_step S a b \<and> b \<in> Q)\<^sup>*\<^sup>* a b"
    by (induction rule: converse_rtranclp_induct) (auto intro: converse_rtranclp_into_rtranclp)
  with a(1) show "b \<in> {b. \<exists>a\<in>P \<inter> Q. (\<lambda>a b. k_step S a b \<and> b \<in> Q)\<^sup>*\<^sup>* a b}" by blast
qed

lemma reach_inside:
  assumes rep: "represents h S" and rh: "some_hom S g rh" and P: "P \<subseteq> k_states S"
  shows "rel_app R (or_id_fixpoint K (restrict_after K rh (ctl_sem S g) h)) (P \<inter> ctl_sem S g)
    = forward_until S P (ctl_sem S g) \<inter> ctl_sem S g"
proof -
  have "rel_app R (restrict_after K rh (ctl_sem S g) h) T = {b. \<exists>a\<in>T. k_step S a b \<and> b \<in> ctl_sem S g}"
    if "T \<subseteq> k_states S" for T
  proof -
    have "rel_app R h T \<subseteq> k_states S"
      using representsD(1) [OF rep] that unfolding app_steps [OF rep] closed_def by blast
    from restrict_after_eq [OF rh this] show ?thesis unfolding app_steps [OF rep] by blast
  qed
  moreover have "P \<inter> ctl_sem S g \<subseteq> k_states S" using P by blast
  ultimately show ?thesis
    unfolding forward_inside [symmetric] by (intro forward_reach [OF rep]) simp_all
qed

lemma FwdG_value:
  assumes s: "sees C m0 fair hm h S" and f: "ctl_sem S f \<subseteq> k_states S" and g: "ctl_sem S g \<subseteq> k_states S"
    and rh: "some_hom S g rh" and b: "b \<longleftrightarrow> chains (k_step S) (k_states S) \<noteq> {}"
    and D: "D = {s \<in> k_states S. dead S s}"
    and X: "X = rel_app R (or_id_fixpoint K (restrict_after K rh (ctl_sem S g) h)) (ctl_sem S f \<inter> ctl_sem S g)"
  shows "(if \<not> b then D \<inter> ctl_sem S g \<inter> X else ct_app K (ct_fixpoint K (ct_meet K h (Hid H))) X \<union> (D \<inter> X))
    = ctl_sem S (Ctlp_FwdG f g)" "\<not> b \<Longrightarrow> D \<inter> ctl_sem S g = {} \<Longrightarrow> ctl_sem S (Ctlp_FwdG f g) = {}"
proof -
  note rep = seesD(1) [OF s]
  have X': "X = forward_until S (ctl_sem S f) (ctl_sem S g) \<inter> ctl_sem S g"
    by (simp only: X reach_inside [OF rep rh f])
  have sub: "X \<subseteq> k_states S" using g X' by blast
  have sem: "ctl_sem S (Ctlp_FwdG f g) = chains (\<lambda>s t. k_step S t s) X \<union> (D \<inter> X)"
    using sub by (auto simp: forward_global_def Let_def X' [symmetric] D chains_def)
  have none: "chains (\<lambda>s t. k_step S t s) X = {}" if "\<not> b"
    using chains_back [OF representsD(2) [OF rep], of "\<lambda>s t. k_step S t s"] b that no_chains [OF _ sub] by blast
  show 1: "(if \<not> b then D \<inter> ctl_sem S g \<inter> X else ct_app K (ct_fixpoint K (ct_meet K h (Hid H))) X \<union> (D \<inter> X))
    = ctl_sem S (Ctlp_FwdG f g)"
    unfolding sem using none X' chains_next [OF rep sub] by auto
  show "ctl_sem S (Ctlp_FwdG f g) = {}" if "\<not> b" "D \<inter> ctl_sem S g = {}" using 1 that by auto
qed

lemma exact_FwdG_sound:
  assumes s: "sees C m0 fair hm h S" and f: "computes C m0 fair S f sl" "ctl_sem S f \<subseteq> k_states S"
    and g: "computes C m0 fair S g sr" "ctl_sem S g \<subseteq> k_states S"
  shows "delivers C m0 fair S (exact_FwdG K C f g sl sr) (Ctlp_FwdG f g)"
  unfolding exact_FwdG_def Let_def
proof (rule yields_child [OF s f], simp only: prod.case, rule yields_child [OF s g], simp only: prod.case,
    rule yields_bnd [OF yields_dead [OF s]], rule yields_bnd [OF yields_scc [OF s]],
    intro yields_if yields_reachable [OF s] yields_nextRel [OF s] yields_ret, goal_cases)
  case (1 lh rh D b)
  then show ?case using FwdG_value(2) [OF s f(2) g(2) 1(2) 1(4) 1(3) refl] by (auto split: if_splits)
next
  case (2 lh rh D b)
  have "(case (lh, rh) of (Some a, Some b) \<Rightarrow> rel_app R (Hcomp H a b) (k_states S) | _ \<Rightarrow> ctl_sem S f \<inter> ctl_sem S g)
      = ctl_sem S f \<inter> ctl_sem S g"
    using 2(1,2) f(2) g(2) by (cases lh; cases rh) (auto simp: app_comp some_hom_def hom_ok_def)
  then show ?case using FwdG_value(1) [OF s f(2) g(2) 2(2) 2(4) 2(3) refl] by (cases b) simp_all
qed

end

end
