(* ===== verification/Ctl_Answers.thy ===== *)
theory Ctl_Answers imports Ctl_Operators begin

text \<open>
  \<open>getStateVerifying\<close> on the formulas it supports, exact or not, and the verdicts of the tool.
\<close>

context ctl_library begin

section \<open>Answers from an image\<close>

definition partial_ok :: "'st kripke \<Rightarrow> Ctlp_Formula \<Rightarrow> 'st set option \<Rightarrow> bool" where
  "partial_ok S f a \<longleftrightarrow> (\<forall>X. a = Some X \<longrightarrow> (X = {} \<longleftrightarrow> ctl_sem S f = {}))"

lemma partial_ok_simps [simp]:
  "partial_ok S f None" "partial_ok S f (Some X) \<longleftrightarrow> (X = {} \<longleftrightarrow> ctl_sem S f = {})"
  by (simp_all add: partial_ok_def)

lemma yields_image:
  assumes "sees C m0 fair hm h S"
  shows "keeps C m0 fair S (image_in_reach K C k) (\<lambda>X. X = {} \<longleftrightarrow> rel_app R k (k_states S) = {})"
  unfolding image_in_reach_def
  by (rule yields_reachable [OF assms], rule yields_ret) (simp add: has_image_iff app_hom)

lemma yields_hom_image:
  assumes "sees C m0 fair hm h S" "hom_ok S f k" "ctl_sem S f \<subseteq> k_states S"
  shows "keeps C m0 fair S (image_in_reach K C k) (\<lambda>X. X = {} \<longleftrightarrow> ctl_sem S f = {})"
  using yields_image [OF assms(1), of k] hom_okD [OF assms(2) subset_refl] assms(3) by (simp add: Int_absorb1)

lemma yields_map:
  assumes "yields I m P" "\<And>x. P x \<Longrightarrow> Q (g x)"
  shows "yields I (bnd m (\<lambda>x. ret (g x))) Q"
  by (rule yields_bnd [OF assms(1)], rule yields_ret, rule assms(2))

lemma inexact_ID:
  assumes "sees C m0 fair hm h S" "labelled C m0 S (Ctlp_ID n v)"
  shows "keeps C m0 fair S (inexact K C (Ctlp_ID n v) lh rh sl sr) (partial_ok S (Ctlp_ID n v))"
  unfolding inexact.simps
proof (rule yields_bnd [OF yields_select [OF assms(2)]])
  fix x assume "hom_ok S (Ctlp_ID n v) x"
  then have "keeps C m0 fair S (image_in_reach K C x) (\<lambda>X. X = {} \<longleftrightarrow> ctl_sem S (Ctlp_ID n v) = {})"
    by (rule yields_hom_image [OF assms(1)]) auto
  then show "keeps C m0 fair S (bnd (image_in_reach K C x) (\<lambda>img. ret (Some img))) (partial_ok S (Ctlp_ID n v))"
    by (rule yields_map) simp
qed

lemma inexact_NOT:
  assumes "sees C m0 fair hm h S" "some_hom S f lh"
  shows "keeps C m0 fair S (inexact K C (Ctlp_NOT f) lh rh sl sr) (partial_ok S (Ctlp_NOT f))"
proof (cases lh)
  case (Some k)
  then have "hom_ok S (Ctlp_NOT f) (Hnot H k)" using assms(2) by (simp add: some_hom_def hom_ok_not)
  from yields_hom_image [OF assms(1) this]
  have "keeps C m0 fair S (image_in_reach K C (Hnot H k)) (\<lambda>X. X = {} \<longleftrightarrow> ctl_sem S (Ctlp_NOT f) = {})" by simp
  then have "keeps C m0 fair S (bnd (image_in_reach K C (Hnot H k)) (\<lambda>img. ret (Some img))) (partial_ok S (Ctlp_NOT f))"
    by (rule yields_map) simp
  with Some show ?thesis by simp
qed (simp add: yields_ret)

lemma yields_empty:
  assumes "sees C m0 fair hm h S" "some_hom S f oh" "ctl_sem S f \<subseteq> k_states S"
  shows "keeps C m0 fair S (case oh of None \<Rightarrow> ret False | Some k \<Rightarrow> bnd (image_in_reach K C k) (\<lambda>img. ret (img = {})))
    (\<lambda>b. b \<longrightarrow> ctl_sem S f = {})"
proof (cases oh)
  case (Some k)
  then have "hom_ok S f k" using assms(2) by (simp add: some_hom_def)
  from yields_hom_image [OF assms(1) this assms(3)] show ?thesis unfolding Some option.case by (rule yields_map) simp
qed (simp add: yields_ret)

lemma inexact_AND:
  assumes s: "sees C m0 fair hm h S" and "some_hom S f lh" "ctl_sem S f \<subseteq> k_states S" "some_hom S g rh" "ctl_sem S g \<subseteq> k_states S"
  shows "keeps C m0 fair S (inexact K C (Ctlp_AND f g) lh rh sl sr) (partial_ok S (Ctlp_AND f g))"
  unfolding inexact.simps inexact_and_def Let_def
  by (rule yields_bnd [OF yields_empty [OF s assms(4,5)]], rule yields_if, simp add: yields_ret,
      rule yields_bnd [OF yields_empty [OF s assms(2,3)]], rule yields_if)
     (simp_all add: yields_ret)

lemma yields_first:
  assumes "\<forall>(m, Q)\<in>set ms. keeps C m0 fair S m (\<lambda>X. X = {} \<longleftrightarrow> Q = {})"
  shows "keeps C m0 fair S (first_nonempty (map fst ms)) (\<lambda>X. X = {} \<longleftrightarrow> (\<forall>Q\<in>snd ` set ms. Q = {}))"
  using assms
proof (induction ms)
  case (Cons mq ms)
  obtain m Q where mq: "mq = (m, Q)" by (cases mq)
  have IH: "keeps C m0 fair S (first_nonempty (map fst ms)) (\<lambda>X. X = {} \<longleftrightarrow> (\<forall>Q\<in>snd ` set ms. Q = {}))" using Cons by simp
  have m: "keeps C m0 fair S m (\<lambda>X. X = {} \<longleftrightarrow> Q = {})" using Cons.prems mq by simp
  show ?case unfolding mq list.map fst_conv first_nonempty.simps
    by (rule yields_bnd [OF m], rule yields_if)
       (auto intro: yields_ret yields_weaken [OF IH] simp: mq)
qed (simp add: yields_ret)

lemma inexact_OR:
  assumes s: "sees C m0 fair hm h S" and f: "some_hom S f lh" "ctl_sem S f \<subseteq> k_states S" "computes C m0 fair S f sl"
    and g: "some_hom S g rh" "ctl_sem S g \<subseteq> k_states S" "computes C m0 fair S g sr"
  shows "keeps C m0 fair S (inexact K C (Ctlp_OR f g) lh rh sl sr) (partial_ok S (Ctlp_OR f g))"
proof -
  let ?F = "ctl_sem S f" and ?G = "ctl_sem S g"
  let ?ms = "(case lh of Some k \<Rightarrow> [(image_in_reach K C k, ?F)] | None \<Rightarrow> []) @ (case rh of Some k \<Rightarrow> [(image_in_reach K C k, ?G)] | None \<Rightarrow> [])
    @ (if lh = None then [(sl False, ?F)] else []) @ (if rh = None then [(sr False, ?G)] else [])"
  have "\<forall>(m, Q)\<in>set ?ms. keeps C m0 fair S m (\<lambda>X. X = {} \<longleftrightarrow> Q = {})"
    using f(1) g(1) computesD(2) [OF f(3), of False] computesD(2) [OF g(3), of False]
    by (auto simp: answers_def [abs_def] some_hom_def intro!: yields_hom_image [OF s _ f(2)] yields_hom_image [OF s _ g(2)] split: option.splits)
  from yields_first [OF this] have "keeps C m0 fair S (first_nonempty (map fst ?ms)) (\<lambda>X. X = {} \<longleftrightarrow> ctl_sem S (Ctlp_OR f g) = {})"
    by (rule yields_weaken) (cases lh; cases rh; simp; blast)
  then have "keeps C m0 fair S (bnd (first_nonempty (map fst ?ms)) (\<lambda>img. ret (Some img))) (partial_ok S (Ctlp_OR f g))"
    by (rule yields_map) simp
  moreover have "map fst ?ms = (case lh of Some k \<Rightarrow> [image_in_reach K C k] | None \<Rightarrow> []) @ (case rh of Some k \<Rightarrow> [image_in_reach K C k] | None \<Rightarrow> [])
    @ (if lh = None then [sl False] else []) @ (if rh = None then [sr False] else [])"
    by (auto split: option.split)
  ultimately show ?thesis by (simp add: inexact_or_def)
qed

lemma inexact_EX:
  assumes s: "sees C m0 fair hm h S" and f: "some_hom S f lh" "ctl_sem S f \<subseteq> k_states S" "computes C m0 fair S f sl"
  shows "keeps C m0 fair S (inexact K C (Ctlp_EX f) lh rh sl sr) (partial_ok S (Ctlp_EX f))"
proof -
  have pred: "rel_app R p (ctl_sem S f) = ctl_sem S (Ctlp_EX f)" if "is_pred S p" for p
    using that f(2) by (auto simp: ctl_is_pred_def)
  show ?thesis
  proof (cases lh)
    case None
    have "keeps C m0 fair S (bnd (sl True) (\<lambda>img. bnd (CTLChecker_getPredRel K C {})
        (\<lambda>pred. ret (Some (ct_has_image K (ct_hom K pred) img))))) (partial_ok S (Ctlp_EX f))"
      by (rule yields_bnd [OF computesD(2) [OF f(3), of True]], rule yields_bnd [OF yields_pred [OF s]], rule yields_ret)
         (simp add: answers_def has_image_iff app_hom pred del: ctl_sem.simps)
    with None show ?thesis by (simp add: inexact_EX_def)
  next
    case (Some k)
    have "keeps C m0 fair S (bnd (CTLChecker_getPredRel K C {}) (\<lambda>pred. bnd (image_in_reach K C (Hcomp H pred k)) (\<lambda>img. ret (Some img))))
        (partial_ok S (Ctlp_EX f))"
    proof (rule yields_bnd [OF yields_pred [OF s]], rule yields_map [OF yields_image [OF s]])
      fix p and X :: "'st set"
    assume p: "is_pred S p" and X: "X = {} \<longleftrightarrow> rel_app R (Hcomp H p k) (k_states S) = {}"
      have "rel_app R k (k_states S) = ctl_sem S f"
        using hom_okD [of S f k, OF _ subset_refl] f(1,2) Some by (auto simp: some_hom_def)
      with X show "partial_ok S (Ctlp_EX f) (Some X)" by (simp add: app_comp pred [OF p] del: ctl_sem.simps)
    qed
    with Some show ?thesis by (simp add: inexact_EX_def)
  qed
qed

lemma EU_empty: "closed S \<Longrightarrow> ctl_sem S g \<subseteq> k_states S \<Longrightarrow> ctl_sem S (Ctlp_EU f g) = {} \<longleftrightarrow> ctl_sem S g = {}"
  using run_exists [of S] by (auto simp: until_def run_def) (metis less_nat_zero_code subsetD)

lemma inexact_EU:
  assumes s: "sees C m0 fair hm h S" and g: "some_hom S g rh" "ctl_sem S g \<subseteq> k_states S" "computes C m0 fair S g sr"
  shows "keeps C m0 fair S (inexact K C (Ctlp_EU f g) lh rh sl sr) (partial_ok S (Ctlp_EU f g))"
proof -
  have "keeps C m0 fair S (case rh of Some k \<Rightarrow> image_in_reach K C k | None \<Rightarrow> sr False) (\<lambda>X. X = {} \<longleftrightarrow> ctl_sem S g = {})"
    using computesD(2) [OF g(3), of False] yields_hom_image [OF s _ g(2)] g(1)
    by (cases rh) (simp_all add: answers_def [abs_def] some_hom_def)
  then show ?thesis unfolding inexact.simps inexact_EU_def
    by (rule yields_map) (simp only: partial_ok_simps EU_empty [OF representsD(1) [OF seesD(1) [OF s]] g(2)])
qed

lemma EG_sem:
  assumes rep: "represents h S" and f: "ctl_sem S f \<subseteq> k_states S"
  shows "ctl_sem S (Ctlp_EG f) = chains (k_step S) (ctl_sem S f)
    \<union> {s. \<exists>x\<in>{s \<in> k_states S. dead S s} \<inter> ctl_sem S f. (\<lambda>a b. a \<in> ctl_sem S f \<and> k_step S a b)\<^sup>*\<^sup>* s x}"
  unfolding ctl_sem.simps by (rule EG_backward [OF representsD(1) [OF rep] f])

lemma inexact_EG:
  assumes s: "sees C m0 fair hm h S" and f: "some_hom S f lh" "ctl_sem S f \<subseteq> k_states S" "computes C m0 fair S f sl"
  shows "keeps C m0 fair S (inexact K C (Ctlp_EG f) lh rh sl sr) (partial_ok S (Ctlp_EG f))"
  unfolding inexact.simps inexact_EG_def
proof (rule yields_bnd [OF yields_empty [OF s f(1,2)]], rule yields_if, rule yields_ret, goal_cases)
  case (1 b)
  then show ?case by (simp add: always_def)
next
  case (2 b)
  show ?case
  proof (rule yields_bnd [OF computesD(2) [OF f(3), of True]], rule yields_bnd [OF yields_dead [OF s]],
      rule yields_if, rule yields_ret, goal_cases)
    case (1 L D)
    then have "D \<inter> L \<subseteq> ctl_sem S (Ctlp_EG f)"
      unfolding EG_sem [OF seesD(1) [OF s] f(2)] by (auto simp: answers_def)
    with 1 show ?case by auto
  next
    case (2 L D)
    then have L: "L = ctl_sem S f" "D \<inter> L = {}" "D = {s \<in> k_states S. dead S s}" by (simp_all add: answers_def)
    show ?case
    proof (rule yields_bnd [OF yields_pred [OF s]], rule yields_ret)
      fix p assume p: "is_pred S p"
      have "ctl_sem S (Ctlp_EG f) = chains (k_step S) L"
        unfolding EG_sem [OF seesD(1) [OF s] f(2)] using L by auto
      then show "partial_ok S (Ctlp_EG f) (Some (ct_has_image K (ct_fixpoint K (ct_meet K p (Hid H))) L))"
        using chains_pred [OF seesD(1) [OF s] p f(2)] by (simp add: has_image_iff L(1) del: ctl_sem.simps)
    qed
  qed
qed

end

end
