(* ===== verification/Ctl_Verdict.thy ===== *)
theory Ctl_Verdict imports Ctl_Answers begin

text \<open>
  The states of a formula, exact or as many as asked, and the verdicts the tool gives for a list of formulas.
\<close>

text \<open>What the two verdicts say of the initial states.\<close>

definition some_initial :: "'st kripke \<Rightarrow> Ctlp_Formula \<Rightarrow> bool" where
  "some_initial S f \<longleftrightarrow> k_init S \<inter> ctl_sem S f \<noteq> {}"

definition forward_initial :: "'st kripke \<Rightarrow> Ctlp_Formula \<Rightarrow> bool" where
  "forward_initial S f \<longleftrightarrow> (if asks_some True f then some_initial S f else k_init S \<subseteq> ctl_sem S f)"

definition verdicts :: "bool \<Rightarrow> bool \<Rightarrow> 'st kripke \<Rightarrow> Ctlp_Formula \<Rightarrow> bool option \<times> bool option" where
  "verdicts bw fw S f =
     (if bw then Some (some_initial S f) else None, if fw then Some (forward_initial S f) else None)"

lemma forward_list:
  assumes "\<forall>f\<in>set fs. plain f"
  shows "\<exists>gs. rmap (forward_form single) fs = Inr gs"
  using assms forward_form_total by (induction fs) (fastforce simp: rbind_eq_Inr_iff)+

lemma existential_list:
  assumes "\<forall>f\<in>set fs. plain f"
  shows "\<exists>es. rmap Ctlp_FormulaConvertToExistentialForm fs = Inr es"
  using assms existential_checkable by (induction fs) (fastforce simp: rbind_eq_Inr_iff)+

context ctl_library begin

section \<open>The states of a formula\<close>

lemma translatedI:
  assumes "sees C m0 fair hm h S" "checkable f" "labelled C m0 S f"
  shows "translated C m0 S f"
  unfolding translated_def by (rule getHomomorphism_sound [OF representsD(1) [OF seesD(1) [OF assms(1)]] assms(2,3)])

lemma sem_states: "sees C m0 fair hm h S \<Longrightarrow> checkable f \<Longrightarrow> ctl_sem S f \<subseteq> k_states S"
  by (rule ctl_sem_in [OF representsD(1) [OF seesD(1)] checkable_state])

definition kid :: "'st kripke \<Rightarrow> Ctlp_Formula option \<Rightarrow> 'h option \<Rightarrow> bool" where
  "kid S fo oh \<longleftrightarrow> (\<forall>f. fo = Some f \<longrightarrow> some_hom S f oh)"

lemma yields_kid:
  assumes "\<forall>f. fo = Some f \<longrightarrow> translated C m0 S f"
  shows "keeps C m0 fair S (child_hom K C fo) (kid S fo)"
proof (cases fo)
  case (Some f)
  with assms yields_hom [of C m0 S f fair] show ?thesis by (simp add: child_hom_def kid_def [abs_def])
qed (simp add: child_hom_def kid_def yields_ret)

lemma yields_verifying:
  assumes "\<forall>g. Ctlp_FormulaReadLeftChild f = Some g \<longrightarrow> translated C m0 S g"
    and "\<forall>g. Ctlp_FormulaReadRightChild f = Some g \<longrightarrow> translated C m0 S g"
    and whole: "keeps C m0 fair S whole (answers S f e)"
    and part: "\<And>lh rh. kid S (Ctlp_FormulaReadLeftChild f) lh \<Longrightarrow> kid S (Ctlp_FormulaReadRightChild f) rh \<Longrightarrow>
      keeps C m0 fair S (inexact K C f lh rh sl sr) (partial_ok S f)"
  shows "keeps C m0 fair S (verifying K C f e sl sr whole) (answers S f e)"
proof (cases e)
  case False
  have "keeps C m0 fair S (case a of Some X \<Rightarrow> ret X | None \<Rightarrow> whole) (answers S f e)" if "partial_ok S f a" for a
    using that whole False by (cases a) (simp_all add: yields_ret answers_def)
  then show ?thesis unfolding verifying_def if_not_P [OF False]
    by (intro yields_bnd [OF yields_kid [OF assms(1)]] yields_bnd [OF yields_kid [OF assms(2)]] yields_bnd [OF part])
qed (use whole in \<open>simp add: verifying_def\<close>)

lemma computesI:
  assumes "sees C m0 fair hm h S" "checkable f" "labelled C m0 S f"
    and "\<forall>g. Ctlp_FormulaReadLeftChild f = Some g \<longrightarrow> checkable g \<and> labelled C m0 S g"
    and "\<forall>g. Ctlp_FormulaReadRightChild f = Some g \<longrightarrow> checkable g \<and> labelled C m0 S g"
    and "\<And>e. getStateVerifying K C f e = verifying K C f e sl sr (whole e)"
    and "\<And>e. keeps C m0 fair S (whole e) (answers S f e)"
    and "\<And>lh rh. kid S (Ctlp_FormulaReadLeftChild f) lh \<Longrightarrow> kid S (Ctlp_FormulaReadRightChild f) rh \<Longrightarrow>
      keeps C m0 fair S (inexact K C f lh rh sl sr) (partial_ok S f)"
  shows "computes C m0 fair S f (getStateVerifying K C f)"
  unfolding computes_def assms(6)
  using assms(4,5) translatedI [OF assms(1)] assms(2,3)
  by (intro conjI allI yields_verifying assms(7,8)) auto

lemma delivers_answers: "delivers C m0 fair S m f \<Longrightarrow> keeps C m0 fair S m (answers S f e)"
  by (erule yields_weaken) (rule answers_exact)

lemma computes_op:
  assumes "sees C m0 fair hm h S" "checkable f" "labelled C m0 S f"
    and "\<forall>g. Ctlp_FormulaReadLeftChild f = Some g \<longrightarrow> checkable g \<and> labelled C m0 S g"
    and "\<forall>g. Ctlp_FormulaReadRightChild f = Some g \<longrightarrow> checkable g \<and> labelled C m0 S g"
    and "delivers C m0 fair S whole f"
    and "\<And>e. getStateVerifying K C f e = verifying K C f e sl sr whole"
    and "\<And>lh rh. kid S (Ctlp_FormulaReadLeftChild f) lh \<Longrightarrow> kid S (Ctlp_FormulaReadRightChild f) rh \<Longrightarrow>
      keeps C m0 fair S (inexact K C f lh rh sl sr) (partial_ok S f)"
  shows "computes C m0 fair S f (getStateVerifying K C f)"
  by (intro computesI [OF assms(1-5,7)] delivers_answers [OF assms(6)] assms(8))

lemma computes_leaf:
  assumes "sees C m0 fair hm h S" "checkable f" "labelled C m0 S f"
    and "Ctlp_FormulaReadLeftChild f = None" "Ctlp_FormulaReadRightChild f = None"
    and "\<And>e. getStateVerifying K C f e = verifying K C f e no_child no_child whole"
    and "delivers C m0 fair S whole f" "\<And>lh rh. keeps C m0 fair S (inexact K C f lh rh no_child no_child) (partial_ok S f)"
  shows "computes C m0 fair S f (getStateVerifying K C f)"
  using assms(4,5) by (intro computesI [OF assms(1-3) _ _ assms(6)] delivers_answers [OF assms(7)] assms(8)) simp_all

lemma getStateVerifying_NOT:
  "\<nexists>g. f = Ctlp_NOT g \<Longrightarrow> getStateVerifying K C (Ctlp_NOT f) e
    = verifying K C (Ctlp_NOT f) e (getStateVerifying K C f) no_child (exact_NOT K C f (getStateVerifying K C f))"
  by (cases f) auto

lemma getStateVerifying_computes:
  assumes s: "sees C m0 fair hm h S" and "checkable f" "labelled C m0 S f"
  shows "computes C m0 fair S f (getStateVerifying K C f)"
proof -
  let ?P = "\<lambda>f. checkable f \<and> labelled C m0 S f \<longrightarrow> computes C m0 fair S f (getStateVerifying K C f)"
  note sub = sem_states [OF s]
  note I = computesI [OF s]
  have leaf: "keeps C m0 fair S (ret None) (partial_ok S g)" for g by (rule yields_ret) simp
  have "?P f \<and> (\<forall>g. f = Ctlp_NOT g \<longrightarrow> ?P g)"
  proof (induction f)
    case (Ctlp_NOT f)
    have "?P (Ctlp_NOT f)"
    proof (cases "\<exists>g. f = Ctlp_NOT g")
      case True
      then obtain g where g: "f = Ctlp_NOT g" ..
      show ?thesis
      proof
        assume ok: "checkable (Ctlp_NOT f) \<and> labelled C m0 S (Ctlp_NOT f)"
        then have "checkable g" "labelled C m0 S g" by (simp_all add: g)
        then have "computes C m0 fair S g (getStateVerifying K C g)" using Ctlp_NOT g by blast
        note c = computesD(2) [OF this]
        have "ctl_sem S (Ctlp_NOT f) = ctl_sem S g" using sub [OF \<open>checkable g\<close>] by (auto simp: g)
        then have "answers S (Ctlp_NOT f) = answers S g" by (intro ext) (simp add: answers_def)
        with c show "computes C m0 fair S (Ctlp_NOT f) (getStateVerifying K C (Ctlp_NOT f))"
          using ok by (intro I [where whole = "getStateVerifying K C g" and sl = "getStateVerifying K C f" and sr = no_child])
            (auto simp: g kid_def intro: inexact_NOT [OF s] simp del: inexact.simps)
      qed
    next
      case False
      show ?thesis
      proof
        assume "checkable (Ctlp_NOT f) \<and> labelled C m0 S (Ctlp_NOT f)"
        then show "computes C m0 fair S (Ctlp_NOT f) (getStateVerifying K C (Ctlp_NOT f))"
          using Ctlp_NOT by (intro I [OF _ _ _ _ getStateVerifying_NOT [OF False]] delivers_answers exact_NOT_sound [OF s])
            (auto simp: kid_def sub intro: inexact_NOT [OF s] simp del: inexact.simps)
      qed
    qed
    with Ctlp_NOT show ?case by blast
  next
    case (Ctlp_ID n v)
    have "computes C m0 fair S (Ctlp_ID n v) (getStateVerifying K C (Ctlp_ID n v))" if l: "labelled C m0 S (Ctlp_ID n v)"
      using l by (intro computes_leaf [OF s _ _ _ _ _ exact_ID_sound [OF s l] inexact_ID [OF s l]])
        (simp_all del: ctl_labelled.simps)
    then show ?case by blast
  next
    case Ctlp_TRUE
    have "computes C m0 fair S Ctlp_TRUE (getStateVerifying K C Ctlp_TRUE)"
      using yields_reach [OF s] by (intro computes_leaf [OF s]) (simp_all add: leaf)
    then show ?case by blast
  next
    case Ctlp_FALSE
    have "computes C m0 fair S Ctlp_FALSE (getStateVerifying K C Ctlp_FALSE)"
      using yields_ret [of "\<lambda>X. X = {}" "{}"] by (intro computes_leaf [OF s]) (simp_all add: leaf)
    then show ?case by blast
  next
    case Ctlp_Init
    have "computes C m0 fair S Ctlp_Init (getStateVerifying K C Ctlp_Init)"
      using yields_init [OF s] by (intro computes_leaf [OF s]) (simp_all add: leaf)
    then show ?case by blast
  next
    case (Ctlp_AND f g)
    show ?case
    proof (intro conjI impI allI)
      assume "checkable (Ctlp_AND f g) \<and> labelled C m0 S (Ctlp_AND f g)"
      then have ok: "checkable f" "labelled C m0 S f" "computes C m0 fair S f (getStateVerifying K C f)" "checkable g" "labelled C m0 S g" "computes C m0 fair S g (getStateVerifying K C g)"
        using Ctlp_AND by simp_all
      note whole = exact_AND_sound [OF s ok(3) sub [OF ok(1)] ok(6) sub [OF ok(4)]]
      show "computes C m0 fair S (Ctlp_AND f g) (getStateVerifying K C (Ctlp_AND f g))"
        using ok by (intro computes_op [OF s _ _ _ _ whole]) (auto simp: kid_def intro!: inexact_AND [OF s] sub simp del: inexact.simps)
    qed simp
  next
    case (Ctlp_OR f g)
    show ?case
    proof (intro conjI impI allI)
      assume "checkable (Ctlp_OR f g) \<and> labelled C m0 S (Ctlp_OR f g)"
      then have ok: "checkable f" "labelled C m0 S f" "computes C m0 fair S f (getStateVerifying K C f)" "checkable g" "labelled C m0 S g" "computes C m0 fair S g (getStateVerifying K C g)"
        using Ctlp_OR by simp_all
      note whole = exact_OR_sound [OF s ok(3) sub [OF ok(1)] ok(6) sub [OF ok(4)]]
      show "computes C m0 fair S (Ctlp_OR f g) (getStateVerifying K C (Ctlp_OR f g))"
        using ok by (intro computes_op [OF s _ _ _ _ whole]) (auto simp: kid_def intro!: inexact_OR [OF s] sub simp del: inexact.simps)
    qed simp
  next
    case (Ctlp_THEN f g)
    show ?case
    proof (intro conjI impI allI)
      assume "checkable (Ctlp_THEN f g) \<and> labelled C m0 S (Ctlp_THEN f g)"
      then have ok: "checkable f" "labelled C m0 S f" "computes C m0 fair S f (getStateVerifying K C f)" "checkable g" "labelled C m0 S g" "computes C m0 fair S g (getStateVerifying K C g)"
        using Ctlp_THEN by simp_all
      note whole = exact_THEN_sound [OF s ok(3) sub [OF ok(1)] ok(6) sub [OF ok(4)]]
      show "computes C m0 fair S (Ctlp_THEN f g) (getStateVerifying K C (Ctlp_THEN f g))"
        using ok by (intro computes_op [OF s _ _ _ _ whole]) (auto simp: kid_def sub intro: leaf)
    qed simp
  next
    case (Ctlp_EX f)
    show ?case
    proof (intro conjI impI allI)
      assume "checkable (Ctlp_EX f) \<and> labelled C m0 S (Ctlp_EX f)"
      then have ok: "checkable f" "labelled C m0 S f" "computes C m0 fair S f (getStateVerifying K C f)"
        using Ctlp_EX by simp_all
      note whole = exact_EX_sound [OF s ok(3) sub [OF ok(1)]]
      show "computes C m0 fair S (Ctlp_EX f) (getStateVerifying K C (Ctlp_EX f))"
        using ok by (intro computes_op [OF s _ _ _ _ whole]) (auto simp: kid_def intro!: inexact_EX [OF s] sub simp del: inexact.simps)
    qed simp
  next
    case (Ctlp_EU f g)
    show ?case
    proof (intro conjI impI allI)
      assume "checkable (Ctlp_EU f g) \<and> labelled C m0 S (Ctlp_EU f g)"
      then have ok: "checkable f" "labelled C m0 S f" "computes C m0 fair S f (getStateVerifying K C f)" "checkable g" "labelled C m0 S g" "computes C m0 fair S g (getStateVerifying K C g)"
        using Ctlp_EU by simp_all
      note whole = exact_EU_sound [OF s ok(3) sub [OF ok(1)] ok(6) sub [OF ok(4)]]
      show "computes C m0 fair S (Ctlp_EU f g) (getStateVerifying K C (Ctlp_EU f g))"
        using ok by (intro computes_op [OF s _ _ _ _ whole]) (auto simp: kid_def intro!: inexact_EU [OF s] sub simp del: inexact.simps)
    qed simp
  next
    case (Ctlp_EG f)
    show ?case
    proof (intro conjI impI allI)
      assume "checkable (Ctlp_EG f) \<and> labelled C m0 S (Ctlp_EG f)"
      then have ok: "checkable f" "labelled C m0 S f" "computes C m0 fair S f (getStateVerifying K C f)"
        using Ctlp_EG by simp_all
      note whole = exact_EG_sound [OF s ok(3) sub [OF ok(1)]]
      show "computes C m0 fair S (Ctlp_EG f) (getStateVerifying K C (Ctlp_EG f))"
        using ok by (intro computes_op [OF s _ _ _ _ whole]) (auto simp: kid_def intro!: inexact_EG [OF s] sub simp del: inexact.simps)
    qed simp
  next
    case (Ctlp_FwdU f g)
    show ?case
    proof (intro conjI impI allI)
      assume "checkable (Ctlp_FwdU f g) \<and> labelled C m0 S (Ctlp_FwdU f g)"
      then have ok: "checkable f" "labelled C m0 S f" "computes C m0 fair S f (getStateVerifying K C f)" "checkable g" "labelled C m0 S g" "computes C m0 fair S g (getStateVerifying K C g)"
        using Ctlp_FwdU by simp_all
      note whole = exact_FwdU_sound [OF s ok(3) sub [OF ok(1)] ok(6) sub [OF ok(4)]]
      show "computes C m0 fair S (Ctlp_FwdU f g) (getStateVerifying K C (Ctlp_FwdU f g))"
        using ok by (intro computes_op [OF s _ _ _ _ whole]) (auto simp: kid_def sub intro: leaf)
    qed simp
  next
    case (Ctlp_FwdG f g)
    show ?case
    proof (intro conjI impI allI)
      assume "checkable (Ctlp_FwdG f g) \<and> labelled C m0 S (Ctlp_FwdG f g)"
      then have ok: "checkable f" "labelled C m0 S f" "computes C m0 fair S f (getStateVerifying K C f)" "checkable g" "labelled C m0 S g" "computes C m0 fair S g (getStateVerifying K C g)"
        using Ctlp_FwdG by simp_all
      note whole = exact_FwdG_sound [OF s ok(3) sub [OF ok(1)] ok(6) sub [OF ok(4)]]
      show "computes C m0 fair S (Ctlp_FwdG f g) (getStateVerifying K C (Ctlp_FwdG f g))"
        using ok by (intro computes_op [OF s _ _ _ _ whole]) (auto simp: kid_def sub intro: leaf)
    qed simp
  next
    case (Ctlp_EY f)
    show ?case
    proof (intro conjI impI allI)
      assume "checkable (Ctlp_EY f) \<and> labelled C m0 S (Ctlp_EY f)"
      then have ok: "checkable f" "labelled C m0 S f" "computes C m0 fair S f (getStateVerifying K C f)"
        using Ctlp_EY by simp_all
      note whole = exact_EY_sound [OF s ok(3) sub [OF ok(1)]]
      show "computes C m0 fair S (Ctlp_EY f) (getStateVerifying K C (Ctlp_EY f))"
        using ok by (intro computes_op [OF s _ _ _ _ whole]) (auto simp: kid_def sub intro: leaf)
    qed simp
  qed simp_all
  with assms(2,3) show ?thesis by blast
qed

theorem getStateVerifying_states:
  assumes "sees C m0 fair hm h S" "checkable f" "labelled C m0 S f" "good C m0 fair S c"
  shows "\<exists>X c'. getStateVerifying K C f e c = Inr (X, c') \<and> good C m0 fair S c' \<and> answers S f e X"
  by (rule yieldsD [OF computesD(2) [OF getStateVerifying_computes [OF assms(1-3)]] assms(4)])

section \<open>Verdicts\<close>

lemma verdict_no_hom:
  assumes "verdict_formula f" "labelled C m S f" "closed S"
  shows "getHomomorphism K C m f = Inr None"
  using assms(1,2)
proof (induction f)
  case (Ctlp_Cmp f g v)
  then have "checkable f" "labelled C m S f" "g = Ctlp_FALSE" by simp_all
  then show ?case using getHomomorphism_sound [OF assms(3), of f C m]
    by (auto simp: with_children_def with_child_def split: option.split)
qed (simp_all add: with_children_def with_child_def)

lemma yields_no_hom: "getHomomorphism K C m0 f = Inr None \<Longrightarrow> keeps C m0 fair S (getHom_of K C f) (\<lambda>oh. oh = None)"
proof (rule yieldsI)
  fix c assume none: "getHomomorphism K C m0 f = Inr None" and c: "good C m0 fair S c"
  have "getHomomorphism K C (ck_model c) f = getHomomorphism K C m0 f"
    using getHomomorphism_same [OF good_model(1-3) [OF c]] by blast
  with none c show "\<exists>x c'. getHom_of K C f c = Inr (x, c') \<and> good C m0 fair S c' \<and> x = None"
    by (simp add: getHom_of_def of_res_def)
qed

lemma verdict_child:
  assumes "sees C m0 fair hm h S" "getHomomorphism K C m0 f = Inr None" "delivers C m0 fair S (s True) f"
    and "\<And>oh. keeps C m0 fair S (k (oh, ctl_sem S f)) Q"
  shows "keeps C m0 fair S (bnd (child K C f s) k) Q"
proof (rule yields_bnd)
  show "keeps C m0 fair S (child K C f s) (\<lambda>x. snd x = ctl_sem S f)"
    unfolding child_def
    by (rule yields_bnd [OF yields_no_hom [OF assms(2)]], simp, rule yields_bnd [OF assms(3)],
        rule yields_reachable [OF assms(1)], rule yields_ret, simp)
  show "keeps C m0 fair S (k x) Q" if "snd x = ctl_sem S f" for x using assms(4) [of "fst x"] that by (cases x) simp
qed

lemma verdict_verifying:
  assumes "keeps C m0 fair S (child_hom K C (Ctlp_FormulaReadLeftChild f)) P"
    and "keeps C m0 fair S (child_hom K C (Ctlp_FormulaReadRightChild f)) Q"
    and "delivers C m0 fair S whole f"
    and "\<And>lh rh. P lh \<Longrightarrow> Q rh \<Longrightarrow> keeps C m0 fair S (inexact K C f lh rh sl sr) (\<lambda>a. \<forall>X. a = Some X \<longrightarrow> X = ctl_sem S f)"
  shows "delivers C m0 fair S (verifying K C f e sl sr whole) f"
proof (cases e)
  case False
  have "delivers C m0 fair S (case a of Some X \<Rightarrow> ret X | None \<Rightarrow> whole) f" if "\<forall>X. a = Some X \<longrightarrow> X = ctl_sem S f" for a
    using that assms(3) by (cases a) (simp_all add: yields_ret)
  then show ?thesis unfolding verifying_def if_not_P [OF False]
    by (intro yields_bnd [OF assms(1)] yields_bnd [OF assms(2)] yields_bnd [OF assms(4)])
qed (use assms(3) in \<open>simp add: verifying_def\<close>)

lemma verdict_value: "verdict_formula f \<Longrightarrow> ctl_sem S f = {} \<or> ctl_sem S f = k_one S"
  by (induction f) auto

lemma getStateVerifying_verdict:
  assumes s: "sees C m0 fair hm h S" and "verdict_formula f" "labelled C m0 S f"
  shows "delivers C m0 fair S (getStateVerifying K C f e) f"
  using assms(2,3)
proof (induction f arbitrary: e)
  case (Ctlp_Cmp f g v)
  then have f: "checkable f" "labelled C m0 S f" "g = Ctlp_FALSE" by simp_all
  note c = computesD(2) [OF getStateVerifying_computes [OF s f(1,2)], of False]
  have whole: "delivers C m0 fair S (exact_Cmp K v (getStateVerifying K C f)) (Ctlp_Cmp f g v)"
    unfolding exact_Cmp_def
    by (rule yields_bnd [OF c], rule yields_ret) (auto simp: answers_def representsD(4) [OF seesD(1) [OF s]])
  have "translated C m0 S f" "translated C m0 S g"
    using translatedI [OF s f(1,2)] translatedI [OF s, of Ctlp_FALSE] f(3) by simp_all
  then have kids: "keeps C m0 fair S (child_hom K C (Some f)) (some_hom S f)" "keeps C m0 fair S (child_hom K C (Some g)) (some_hom S g)"
    using yields_hom by (auto simp: child_hom_def)
  show ?case
    unfolding getStateVerifying.simps
    by (rule verdict_verifying [OF _ _ whole]) (use kids in \<open>simp_all add: yields_ret del: ctl_sem.simps\<close>)
next
  case (Ctlp_AND f g)
  then have none: "getHomomorphism K C m0 f = Inr None" "getHomomorphism K C m0 g = Inr None"
    using verdict_no_hom [OF _ _ representsD(1) [OF seesD(1) [OF s]]] by auto
  have IH: "delivers C m0 fair S (getStateVerifying K C f e) f" "delivers C m0 fair S (getStateVerifying K C g e) g" for e
    using Ctlp_AND by simp_all
  have "delivers C m0 fair S (exact_AND K C f g (getStateVerifying K C f) (getStateVerifying K C g)) (Ctlp_AND f g)"
    unfolding exact_AND_def
  proof (rule yields_bnd [OF yields_no_hom [OF none(2)]], simp, rule yields_bnd [OF IH(2)], rule yields_if, goal_cases)
    case (2 X)
    show ?case by (rule verdict_child [OF s none(1) IH(1)]) (simp add: 2 yields_ret)
  qed (simp add: yields_ret)
  then show ?case unfolding getStateVerifying.simps
    by (intro verdict_verifying [where P = "\<lambda>x. x = None" and Q = "\<lambda>x. x = None"])
       (auto simp: child_hom_def inexact_and_def bnd_def ret_def intro: yields_no_hom [OF none(1)] yields_no_hom [OF none(2)] yieldsI)
next
  case (Ctlp_OR f g)
  then have none: "getHomomorphism K C m0 f = Inr None" "getHomomorphism K C m0 g = Inr None"
    using verdict_no_hom [OF _ _ representsD(1) [OF seesD(1) [OF s]]] by auto
  have IH: "delivers C m0 fair S (getStateVerifying K C f e) f" "delivers C m0 fair S (getStateVerifying K C g e) g" for e
    using Ctlp_OR by simp_all
  have "delivers C m0 fair S (exact_OR K C f g (getStateVerifying K C f) (getStateVerifying K C g)) (Ctlp_OR f g)"
    unfolding exact_OR_def
    by (rule verdict_child [OF s none(1) IH(1)], simp, rule verdict_child [OF s none(2) IH(2)]) (simp add: yields_ret)
  moreover have "keeps C m0 fair S (inexact K C (Ctlp_OR f g) None None (getStateVerifying K C f) (getStateVerifying K C g))
      (\<lambda>a. \<forall>X. a = Some X \<longrightarrow> X = ctl_sem S (Ctlp_OR f g))"
  proof -
    have "ctl_sem S f = {} \<or> ctl_sem S f = ctl_sem S (Ctlp_OR f g)"
      using verdict_value [of f S] verdict_value [of g S] Ctlp_OR.prems by auto
    then have "delivers C m0 fair S (first_nonempty [getStateVerifying K C f False, getStateVerifying K C g False]) (Ctlp_OR f g)"
      unfolding first_nonempty.simps
      by (intro yields_bnd [OF IH(1)] yields_bnd [OF IH(2)] yields_if yields_ret) auto
    then have "keeps C m0 fair S (bnd (first_nonempty [getStateVerifying K C f False, getStateVerifying K C g False]) (\<lambda>img. ret (Some img)))
        (\<lambda>a. \<forall>X. a = Some X \<longrightarrow> X = ctl_sem S (Ctlp_OR f g))"
      by (rule yields_map) simp
    then show ?thesis by (simp add: inexact_or_def)
  qed
  ultimately show ?case unfolding getStateVerifying.simps
    by (intro verdict_verifying [where P = "\<lambda>x. x = None" and Q = "\<lambda>x. x = None"])
       (auto simp: child_hom_def intro: yields_no_hom [OF none(1)] yields_no_hom [OF none(2)])
qed simp_all

section \<open>The loop over the formulas\<close>

lemma existential_labelled:
  "plain f \<Longrightarrow> labelled C m S f \<Longrightarrow> \<exists>f'. Ctlp_FormulaConvertToExistentialForm f = Inr f' \<and> labelled C m S f'"
  by (induction f)
     (auto simp: existential_EF_def existential_AX_def existential_AG_def existential_AF_def existential_AU_def)

lemma labelled_existential:
  assumes "plain f" "labelled C m S f" "Ctlp_FormulaConvertToExistentialForm f = Inr f'"
  shows "labelled C m S f'"
  using existential_labelled [OF assms(1,2)] assms(3) by auto

fun goal_labelled :: "('ty, 'h, 'st) type_calls \<Rightarrow> ('ty, 'h, 'st) ITSModel \<Rightarrow> 'st kripke \<Rightarrow> forward_goal \<Rightarrow> bool" where
  "goal_labelled C m S (Stay p) \<longleftrightarrow> labelled C m S p"
| "goal_labelled C m S (Go r f) \<longleftrightarrow> labelled C m S r \<and> labelled C m S f"
| "goal_labelled C m S (Split r1 f1 r2 f2) \<longleftrightarrow>
     labelled C m S r1 \<and> labelled C m S f1 \<and> labelled C m S r2 \<and> labelled C m S f2"
| "goal_labelled C m S (Stop e) \<longleftrightarrow> True"

lemma forward_step_labelled:
  assumes "labelled C m S r" "plain f" "labelled C m S f"
  shows "goal_labelled C m S (forward_step r f)"
proof (cases f)
  case (Ctlp_NOT g)
  with assms show ?thesis by (cases g) (auto simp: forward_cases)
qed (use assms in \<open>auto simp: forward_cases\<close>)

lemma convert_forward_labelled:
  assumes "checkable r" "plain f" "checkable f" "labelled C m S r" "labelled C m S f" "FormulaConvertToForward v r f = Inr t"
  shows "labelled C m S (FormulaInsertForwardCompareNodes v t)"
  using assms
proof (induction v r f arbitrary: t rule: FormulaConvertToForward.induct)
  case (1 v r f)
  note conv = "1.prems"(6) [unfolded FormulaConvertToForward.simps [of v r f]]
  note ok = forward_step_checkable [OF "1.prems"(1-3)] forward_step_labelled [OF "1.prems"(4,2,5)]
  show ?case
  proof (cases "forward_step r f")
    case (Stay p)
    then show ?thesis using conv ok by auto
  next
    case (Go r1 f1)
    then show ?thesis using conv ok "1.IH"(1) [OF Go] by simp
  next
    case (Split r1 f1 r2 f2)
    then show ?thesis using conv ok "1.IH"(2,3) [OF Split] by auto
  qed (use conv in simp)
qed

lemma forward_form_labelled:
  assumes "plain f" "labelled C m S f" "forward_form single f = Inr g"
  shows "labelled C m S g"
proof -
  obtain f' where f': "Ctlp_FormulaConvertToExistentialForm f = Inr f'" "plain f'" "checkable f'"
    using existential_checkable [OF assms(1)] by blast
  have l: "labelled C m S f'" by (rule labelled_existential [OF assms(1,2) f'(1)])
  let ?v = "if single then FormulaGetCompareValue f' else 0"
  let ?right = "if ?v = 0 then Ctlp_NOT f' else f'"
  obtain t where t: "FormulaConvertToForward ?v Ctlp_Init ?right = Inr t" "g = FormulaInsertForwardCompareNodes ?v t"
    using assms(3) by (auto simp: forward_form_def f' Let_def rbind_eq_Inr_iff split: if_splits)
  show ?thesis unfolding t(2)
    by (rule convert_forward_labelled [OF _ _ _ _ _ t(1)]) (use f' l in auto)
qed

lemma yields_backward:
  assumes s: "sees C m0 fair hm h S" and f: "plain f" "labelled C m0 S f" "Ctlp_FormulaConvertToExistentialForm f = Inr f'"
  shows "keeps C m0 fair S (backward_verdict K C f') (\<lambda>v. v \<longleftrightarrow> some_initial S f)"
proof -
  obtain f2 where "Ctlp_FormulaConvertToExistentialForm f = Inr f2" "checkable f2"
    using existential_checkable [OF f(1)] by blast
  with f(3) have c: "checkable f'" by simp
  let ?g = "Ctlp_ConvertToCmpFormula f'"
  have g: "verdict_formula ?g" "labelled C m0 S ?g"
    using c labelled_existential [OF f] by (simp_all add: Ctlp_ConvertToCmpFormula_def)
  have "ctl_sem S ?g = (if some_initial S f then ct_one K else {})"
    using existential_form_sem [OF representsD(1) [OF seesD(1) [OF s]] f(3)] representsD(4) [OF seesD(1) [OF s]]
    by (auto simp: Ctlp_ConvertToCmpFormula_def some_initial_def)
  then show ?thesis unfolding backward_verdict_def
    using one_nonempty by (intro yields_map [OF getStateVerifying_verdict [OF s g]]) auto
qed

lemma yields_forward:
  assumes s: "sees C m0 fair hm h S" and f: "plain f" "labelled C m0 S f" "forward_form True f = Inr g"
  shows "keeps C m0 fair S (forward_verdict K C g) (\<lambda>v. v \<longleftrightarrow> forward_initial S f)"
proof -
  note rep = seesD(1) [OF s]
  obtain g2 where "forward_form True f = Inr g2" "verdict_formula g2" using forward_form_total [OF f(1)] by blast
  with f(3) have g: "verdict_formula g" "labelled C m0 S g" using forward_form_labelled [OF f] by simp_all
  have "ctl_sem S g = (if forward_initial S f then ct_one K else {})"
    using forward_form_sem [OF representsD(1,2) [OF rep] _ f(3)] representsD(4) [OF rep] one_nonempty
    by (auto simp: forward_initial_def some_initial_def)
  then show ?thesis unfolding forward_verdict_def
    using one_nonempty by (intro yields_map [OF getStateVerifying_verdict [OF s g]]) auto
qed

lemma yields_res: "r = Inr x \<Longrightarrow> yields I (of_res r) (\<lambda>y. y = x)"
  by (rule yields_of_res) simp_all

lemma formula_loop_yields:
  assumes s: "sees C m0 fair hm h S" and "\<forall>f\<in>set fs. plain f \<and> labelled C m0 S f"
    and "list_all2 (\<lambda>f b. \<exists>f'. Ctlp_FormulaConvertToExistentialForm f = Inr f' \<and> b = (if bw then Some f' else None)) fs bs"
    and "list_all2 (\<lambda>f w. if fw then \<exists>g. forward_form True f = Inr g \<and> w = Some g else w = None) fs ws"
  shows "keeps C m0 fair S (formula_loop K C (zip bs ws)) (\<lambda>vs. vs = map (verdicts bw fw S) fs)"
  using assms(2-4)
proof (induction fs arbitrary: bs ws)
  case (Cons f fs)
  obtain b bs' w ws' where bw: "bs = b # bs'" "ws = w # ws'" using Cons.prems(2,3) by (auto simp: list_all2_Cons1)
  have IH: "keeps C m0 fair S (formula_loop K C (zip bs' ws')) (\<lambda>vs. vs = map (verdicts bw fw S) fs)"
    using Cons bw by simp
  have f: "plain f" "labelled C m0 S f" using Cons.prems(1) by simp_all
  obtain f' where f': "Ctlp_FormulaConvertToExistentialForm f = Inr f'" "b = (if bw then Some f' else None)"
    using Cons.prems(2) bw by auto
  have b: "keeps C m0 fair S (verdict_if (backward_verdict K C) b) (\<lambda>v. v = fst (verdicts bw fw S f))"
    unfolding f'(2) verdict_if_def verdicts_def by (auto intro!: yields_map [OF yields_backward [OF s f f'(1)]] yields_ret)
  have w: "keeps C m0 fair S (verdict_if (forward_verdict K C) w) (\<lambda>v. v = snd (verdicts bw fw S f))"
    using Cons.prems(3) bw unfolding verdict_if_def verdicts_def
    by (auto intro!: yields_map [OF yields_forward [OF s f]] yields_ret split: if_splits)
  show ?case unfolding bw zip_Cons_Cons formula_loop.simps
    by (intro yields_bnd [OF b] yields_bnd [OF w] yields_bnd [OF IH] yields_ret) simp
qed (simp add: yields_ret)

theorem check_formulas_verdicts:
  assumes s: "sees C m0 fair hm h S" and fs: "\<forall>f\<in>set fs. plain f \<and> labelled C m0 S f" and c: "good C m0 fair S c"
  shows "\<exists>c'. check_formulas K C bw fw fs c = Inr (map (verdicts bw fw S) fs, c') \<and> good C m0 fair S c'"
proof -
  obtain es where es: "rmap Ctlp_FormulaConvertToExistentialForm fs = Inr es" using existential_list fs by blast
  obtain gs where gs: "rmap (forward_form True) fs = Inr gs" using forward_list fs by blast
  have all_es: "list_all2 (\<lambda>f e. Ctlp_FormulaConvertToExistentialForm f = Inr e) fs es"
    and all_gs: "list_all2 (\<lambda>f g. forward_form True f = Inr g) fs gs"
    using es gs by (simp_all add: rmap_eq_Inr_iff)
  have dag: "Ctlp_FormulaDAGConvertToExistentialFormDAG fs = Inr es"
    by (simp add: Ctlp_FormulaDAGConvertToExistentialFormDAG_def dag_array_convert dag_ok_def es)
  let ?bs = "map (\<lambda>f. if bw then Some f else None) es"
  let ?ws = "if fw then map Some gs else map (\<lambda>_. None) es"
  have bs: "list_all2 (\<lambda>f b. \<exists>f'. Ctlp_FormulaConvertToExistentialForm f = Inr f' \<and> b = (if bw then Some f' else None)) fs ?bs"
    using all_es by (auto simp: list_all2_conv_all_nth)
  have ws: "list_all2 (\<lambda>f w. if fw then \<exists>g. forward_form True f = Inr g \<and> w = Some g else w = None) fs ?ws"
    using all_es all_gs by (cases fw) (auto simp: list_all2_conv_all_nth)
  have "keeps C m0 fair S (check_formulas K C bw fw fs) (\<lambda>vs. vs = map (verdicts bw fw S) fs)"
    unfolding check_formulas_def
    by (rule yields_reachable [OF s],
        rule yields_bnd [OF yields_res [of _ "if fw then gs else []"]], simp add: Ctlp_FormulaArrayConvertToForward_def gs,
        rule yields_bnd [OF yields_res [OF dag]])
       (use formula_loop_yields [OF s fs bs ws] in \<open>cases fw; simp\<close>)
  from yieldsD [OF this c] show ?thesis by blast
qed

section \<open>Operators that are not supported\<close>

definition fails :: "('c \<Rightarrow> bool) \<Rightarrow> ('c, 'a) op \<Rightarrow> cxx_error \<Rightarrow> bool" where
  "fails I m e \<longleftrightarrow> (\<forall>c. I c \<longrightarrow> m c = Inl e)"

lemma fails_bnd: "yields I m P \<Longrightarrow> (\<And>x. P x \<Longrightarrow> fails I (f x) e) \<Longrightarrow> fails I (bnd m f) e"
  unfolding fails_def yields_def bnd_def by fastforce

lemma fails_of_res: "fails I (of_res (Inl e)) e"
  by (simp add: fails_def of_res_def)

lemma child_yields:
  assumes "sees C m0 fair hm h S" "checkable f" "labelled C m0 S f"
  shows "keeps C m0 fair S (child K C f (getStateVerifying K C f)) (\<lambda>_. True)"
proof -
  note c = getStateVerifying_computes [OF assms]
  have "keeps C m0 fair S (child K C f (getStateVerifying K C f)) (\<lambda>(oh, X). X = ctl_sem S f \<and> some_hom S f oh)"
    by (rule child_sound [OF assms(1) computesD(1) [OF c]]) (use computesD(2) [OF c] sem_states [OF assms(1,2)] in auto)
  then show ?thesis by (rule yields_weaken) simp
qed

lemma parity_fails:
  assumes s: "sees C m0 fair hm h S" and f: "checkable f" "labelled C m0 S f" and g: "checkable g" "labelled C m0 S g"
    and op: "F = Ctlp_XOR f g \<or> F = Ctlp_EQ f g"
  shows "fails (good C m0 fair S) (getStateVerifying K C F e) (Abort ''assert(0)'')"
proof -
  let ?whole = "unsupported2 K C f g (getStateVerifying K C f) (getStateVerifying K C g) assert_false"
  have whole: "fails (good C m0 fair S) ?whole (Abort ''assert(0)'')"
    unfolding unsupported2_def assert_false_def
    by (rule fails_bnd [OF child_yields [OF s f]], rule fails_bnd [OF child_yields [OF s g]], rule fails_of_res)
  have kids: "keeps C m0 fair S (child_hom K C (Some f)) (\<lambda>_. True)" "keeps C m0 fair S (child_hom K C (Some g)) (\<lambda>_. True)"
    using yields_weaken [OF yields_hom [OF translatedI [OF s f]]] yields_weaken [OF yields_hom [OF translatedI [OF s g]]]
    by (simp_all add: child_hom_def)
  have "fails (good C m0 fair S) (verifying K C F e (getStateVerifying K C f) (getStateVerifying K C g) ?whole) (Abort ''assert(0)'')"
  proof (cases e)
    case False
    have part: "keeps C m0 fair S (inexact K C F lh rh (getStateVerifying K C f) (getStateVerifying K C g)) (\<lambda>a. a = None)" for lh rh
      using op by (auto intro: yields_ret)
    have children: "Ctlp_FormulaReadLeftChild F = Some f" "Ctlp_FormulaReadRightChild F = Some g" using op by auto
    show ?thesis unfolding verifying_def if_not_P [OF False] children
      by (rule fails_bnd [OF kids(1)], rule fails_bnd [OF kids(2)], rule fails_bnd [OF part]) (simp add: whole)
  qed (simp add: verifying_def whole)
  then show ?thesis using op by auto
qed

section \<open>A fresh checker\<close>

lemma fresh_good:
  assumes "m_reached m = {}" "m_predRel m = Hnull H"
  shows "good C m fair S (setFairTime fair (CTLChecker_of K m))"
  using assms by (simp add: ctl_good_def setFairTime_def CTLChecker_of_def Let_def)

end

end
