(* ===== verification/Ctl_Props.thy ===== *)
theory Ctl_Props imports Ctl_Verdict Its_Props begin

text \<open>
  The properties of the CTL checker, and a run of it on the model of one net of \<open>Its_Props\<close>.
\<close>

section \<open>The transition system of the net\<close>

text \<open>Two states; the only step leads from \<open>before\<close> to \<open>after\<close>.\<close>

definition net_system :: "path kripke" where
  "net_system = \<lparr>k_states = {before, after}, k_init = {before}, k_step = (\<lambda>s t. t \<in> lin net_next {s}),
    
    k_label = (\<lambda>l s. l = ''q>=1'' \<and> (\<exists>m. sub_path s DEFAULT_VAR = Ddd m \<and> 1 \<le> m 1)), k_one = {before}\<rparr>"

abbreviation net_lib :: "(path \<Rightarrow> path set, path set \<Rightarrow> path set, path) ctl_ops" where
  "net_lib \<equiv> lin_ctl {before}"

lemma net_lib_sel [simp]: "ct_rel net_lib = lin_rel" "ct_one net_lib = {before}"
  by (simp_all add: lin_ctl_def)

lemma net_system_sel [simp]:
  "k_states net_system = {before, after}" "k_init net_system = {before}" "k_one net_system = {before}"
  "k_step net_system s t \<longleftrightarrow> t \<in> lin net_next {s}"
  by (simp_all add: net_system_def)

lemma net_closed_system: "closed net_system"
  using net_closed by (auto simp: closed_def)

lemma net_views: "ctl_views net_lib (decl_calls 1) net_model False net_next net_next net_system"
proof -
  have "ctl_represents net_lib net_next net_system"
    using net_closed_system by (simp add: ctl_represents_def net_system_def)
  then show ?thesis using net_initial net_calls net_reachable unfolding ctl_views_def by auto
qed

lemma net_reversible: "False \<or> model_reversible (ct_rel net_lib) (decl_calls 1) net_model (k_states net_system) net_next"
  using relation_reversible [OF net_relation] by simp

lemma net_fresh: "m_reached net_model = {}" "m_predRel net_model = Hnull (rel_hom (ct_rel net_lib))"
  by (simp_all add: net_model_def)

lemma net_dead: "dead net_system s \<longleftrightarrow> s \<noteq> before" if "s \<in> {before, after}"
  using that before_after before_neq_after by (auto simp: dead_def)

lemma net_predicate:
  "ITSModel_getPredicate (decl_calls 1) (''q>='' @ ''1'') net_model
    = Inr (marking_local (ddd_getHom lin_prim varGeqState 1 1))"
proof -
  have "written (Atom ''q'' varGeqState 1) = ''q>=1''" by code_simp
  moreover have "formula_ok small_vo (Atom ''q'' varGeqState 1)"
    by (simp add: plain_name_def is_comp_char_def int32_def INT_MIN_def INT_MAX_def)
  ultimately have "getPredicate lin_ops (getAPredicate f small_vo) ''q>=1''
      = Inr (hom_of lin_ops f small_vo (Atom ''q'' varGeqState 1))" for f
    using getPredicate_written [OF _ order_of_ok(1) [OF sample_order], of "Atom ''q'' varGeqState 1" lin_ops f] by simp
  then show ?thesis
    by (simp add: ITSModel_getPredicate_def main_type_def net_model_def decl_calls_def leaf_type_def PNet_type_def getIndex_def)
qed

lemma net_predicate_selects:
  "lin (marking_local (ddd_getHom lin_prim varGeqState 1 1)) T = {s \<in> T. \<exists>m. sub_path s DEFAULT_VAR = Ddd m \<and> 1 \<le> m 1}"
proof -
  have "marking_local (ddd_getHom lin_prim varGeqState 1 1) s
      = (if \<exists>m. sub_path s DEFAULT_VAR = Ddd m \<and> 1 \<le> m 1 then {s} else {})" for s
  proof (cases "sub_path s DEFAULT_VAR")
    case (Ddd m)
    moreover have "put_path s DEFAULT_VAR (sub_path s DEFAULT_VAR) = s" by (cases s) simp_all
    ultimately show ?thesis by (auto simp: marking_local_def ddd_getHom_def lin_prim_def)
  qed (simp add: marking_local_def)
  then show ?thesis by (auto simp: lin_def split: if_splits)
qed

lemma net_has_q: "k_label net_system ''q>=1'' s \<longleftrightarrow> s = after" if "s \<in> {before, after}"
  using that before_neq_after by (auto simp: net_system_def before_def after_def)

lemma net_labelled: "ctl_labelled net_lib (decl_calls 1) net_model net_system (Ctlp_ID ''q>='' ''1'')"
  using net_predicate net_predicate_selects by (simp add: net_system_def)

abbreviation "has_q \<equiv> Ctlp_ID ''q>='' ''1''"

lemma net_q: "ctl_sem net_system has_q = {after}"
  using net_has_q by auto

lemma net_reaches_q: "ctl_sem net_system (Ctlp_EU Ctlp_TRUE has_q) = {before, after}"
proof -
  have "\<exists>p. run net_system s p \<and> until (ctl_sem net_system Ctlp_TRUE) (ctl_sem net_system has_q) p"
    if "s \<in> {before, after}" for s
  proof (rule forward_EU [of _ _ _ after])
    show "(\<lambda>a b. a \<in> ctl_sem net_system Ctlp_TRUE \<and> k_step net_system a b)\<^sup>*\<^sup>* s after"
      using that before_after(1) by (auto intro: r_into_rtranclp)
  qed (simp add: net_q del: ctl_sem.simps)
  then show ?thesis unfolding ctl_sem.simps(7) by auto
qed

section \<open>The states of a formula\<close>

lemma seen_model:
  "ctl_views K C m fair hm h S \<Longrightarrow> fair \<or> model_reversible (ct_rel K) C m (k_states S) h \<Longrightarrow> ctl_sees K C m fair hm h S"
  by (simp add: ctl_sees_def)

text \<open>
  A hypothesis \<open>ctl_views \<dots> S\<close> says that \<open>S\<close> is the transition system of the model on its reachable states, which are
  finitely many, with the steps of the model or those of fair time; that there is an initial state; and that with
  fair time all reachable states are also reached by fair steps from the initial states. \<open>ctl_labelled\<close> says that
  the predicates of a formula select the states with the label. \<open>model_reversible\<close> is what \<open>getPredRel\<close> needs.
\<close>

text \<open>C8 (refinement): given a library that behaves as documented, consider a model with an initial state and
  finitely many reachable states, and a formula of the operators that are supported (those of the existential and
  of the forward form) whose predicates select the states with their label. With fair time, let the fair steps
  also reach all reachable states; else let the reverse of the transition relation stay inside the reachable
  states, or the named local transitions make exactly its steps from there (so for nets and composites of nets;
  GAL types with transient states or pauses are only covered by the first condition). Then \<open>getStateVerifying\<close>, on
  a checker with empty caches, ends without an error: asked to be exact, it answers the reachable states where
  the formula holds; else a set that is empty exactly when no reachable state satisfies the formula.\<close>

theorem getStateVerifying_correct:
  assumes "ctl_library K" "ctl_views K C m fair hm h S" "fair \<or> model_reversible (ct_rel K) C m (k_states S) h"
    and "checkable f" "ctl_labelled K C m S f" "m_reached m = {}" "m_predRel m = Hnull (rel_hom (ct_rel K))"
  shows "\<exists>X c. getStateVerifying K C f need_exact (setFairTime fair (CTLChecker_of K m)) = Inr (X, c)
    \<and> (if need_exact then X = ctl_sem S f else X = {} \<longleftrightarrow> ctl_sem S f = {})"
  using ctl_library.getStateVerifying_states [OF assms(1) seen_model [OF assms(2,3)] assms(4,5)
      ctl_library.fresh_good [OF assms(1,6,7)]]
  by (fastforce simp: ctl_library.answers_def [OF assms(1)])

theorem getStateVerifying_correct_witness:
  "\<exists>c. getStateVerifying net_lib (decl_calls 1) (Ctlp_EU Ctlp_TRUE has_q) True (setFairTime False (CTLChecker_of net_lib net_model))
     = Inr ({before, after}, c)"
proof -
  have "ctl_labelled net_lib (decl_calls 1) net_model net_system (Ctlp_EU Ctlp_TRUE has_q)" using net_labelled by simp
  from getStateVerifying_correct [OF lin_ctl.ctl_library_axioms net_views net_reversible _ this net_fresh, of True] show ?thesis
    unfolding if_True net_reaches_q by auto
qed

section \<open>Verdicts\<close>

text \<open>C9 (functional): given a library that behaves as documented, consider a model with an initial state and
  finitely many reachable states, and formulas of the grammar without \<open>XOR\<close> and \<open>EQ\<close> whose predicates select the
  states with their label. With fair time, let the fair steps also reach all reachable states; else let the
  reverse of the transition relation stay inside the reachable states, or the named local transitions make
  exactly its steps from there (so for nets and composites of nets; GAL types with transient states or pauses
  are only covered by the first condition). Then the loop of \<open>main\<close>, asked for both directions and started with
  empty caches, ends without an error, and answers for each formula whether some initial state satisfies it
  (backward), and, forward, the same or whether all of them do, as \<open>FormulaIsConvertible\<close> decides.\<close>

theorem check_formulas_correct:
  assumes "ctl_library K" "ctl_views K C m fair hm h S" "fair \<or> model_reversible (ct_rel K) C m (k_states S) h"
    and "\<forall>f\<in>set fs. plain f \<and> ctl_labelled K C m S f"
    and "m_reached m = {}" "m_predRel m = Hnull (rel_hom (ct_rel K))"
  shows "\<exists>c. check_formulas K C True True fs (setFairTime fair (CTLChecker_of K m)) = Inr (map (\<lambda>f.
      (Some (k_init S \<inter> ctl_sem S f \<noteq> {}),
       Some (if asks_some True f then k_init S \<inter> ctl_sem S f \<noteq> {} else k_init S \<subseteq> ctl_sem S f))) fs, c)"
  using ctl_library.check_formulas_verdicts [OF assms(1) seen_model [OF assms(2,3)] assms(4)
      ctl_library.fresh_good [OF assms(1,5,6)], of True True]
  by (auto simp: verdicts_def forward_initial_def some_initial_def cong: map_cong)

theorem check_formulas_correct_witness:
  "\<exists>c. check_formulas net_lib (decl_calls 1) True True [has_q, Ctlp_EX has_q]
     (setFairTime False (CTLChecker_of net_lib net_model)) = Inr ([(Some False, Some False), (Some True, Some True)], c)"
proof -
  have "ctl_sem net_system (Ctlp_EX has_q) = {before}"
    using net_q before_after before_neq_after by auto
  with check_formulas_correct [OF lin_ctl.ctl_library_axioms net_views net_reversible _ net_fresh, of "[has_q, Ctlp_EX has_q]"]
  show ?thesis using net_labelled net_q before_neq_after by (auto simp: Int_commute simp del: ctl_sem.simps)
qed

text \<open>On a model with one initial state the backward and the forward verdict of each formula
  agree, and say whether the initial state satisfies it.\<close>

theorem directions_agree:
  assumes "ctl_library K" "ctl_views K C m fair hm h S" "fair \<or> model_reversible (ct_rel K) C m (k_states S) h"
    and "\<forall>f\<in>set fs. plain f \<and> ctl_labelled K C m S f"
    and "m_reached m = {}" "m_predRel m = Hnull (rel_hom (ct_rel K))" "k_init S = {s0}"
  shows "\<exists>c. check_formulas K C True True fs (setFairTime fair (CTLChecker_of K m))
    = Inr (map (\<lambda>f. (Some (s0 \<in> ctl_sem S f), Some (s0 \<in> ctl_sem S f))) fs, c)"
proof -
  have one: "verdicts True True S f = (Some (s0 \<in> ctl_sem S f), Some (s0 \<in> ctl_sem S f))" for f
    by (simp add: verdicts_def forward_initial_def some_initial_def assms(7))
  show ?thesis
    using ctl_library.check_formulas_verdicts [OF assms(1) seen_model [OF assms(2,3)] assms(4)
        ctl_library.fresh_good [OF assms(1,5,6)], of True True]
    by (auto simp: one cong: map_cong)
qed

theorem directions_agree_witness:
  "\<exists>c. check_formulas net_lib (decl_calls 1) True True [Ctlp_NOT has_q]
     (setFairTime False (CTLChecker_of net_lib net_model)) = Inr ([(Some True, Some True)], c)"
proof -
  have "before \<in> ctl_sem net_system (Ctlp_NOT has_q)" using net_q before_neq_after by auto
  with directions_agree [OF lin_ctl.ctl_library_axioms net_views net_reversible _ net_fresh, of "[Ctlp_NOT has_q]" before]
  show ?thesis using net_labelled by (simp del: ctl_sem.simps)
qed

section \<open>Rewritings\<close>

text \<open>C10 (equivalence): the forward form of a formula of the grammar without \<open>XOR\<close> and \<open>EQ\<close> exists, and on any
  finite transition system it stands for \<open>State::one\<close> exactly when some initial state satisfies the formula,
  or when all do, as \<open>FormulaIsConvertible\<close> decides.\<close>

theorem forward_form_correct:
  assumes "closed S" "finite (k_states S)" "k_one S \<noteq> {}" "plain f"
  shows "\<exists>g. Ctlp_FormulaArrayConvertToForward [f] single = Inr [g] \<and> verdict_formula g
    \<and> ctl_sem S g = (if (if asks_some single f then k_init S \<inter> ctl_sem S f \<noteq> {} else k_init S \<subseteq> ctl_sem S f)
        then k_one S else {})"
proof -
  obtain g where g: "forward_form single f = Inr g" "verdict_formula g" using forward_form_total [OF assms(4)] by blast
  with forward_form_sem [OF assms(1-3) g(1)] show ?thesis by (simp add: Ctlp_FormulaArrayConvertToForward_def)
qed

theorem forward_form_correct_witness:
  "\<exists>g. Ctlp_FormulaArrayConvertToForward [Ctlp_EF has_q] True = Inr [g] \<and> ctl_sem net_system g = {before}"
proof -
  have "ctl_sem net_system (Ctlp_EF has_q) = {before, after}"
    using net_reaches_q EF_as_EU [OF net_closed_system, of has_q] by simp
  with forward_form_correct [OF net_closed_system, of "Ctlp_EF has_q" True] show ?thesis
    by (auto simp del: ctl_sem.simps)
qed

text \<open>C12 (equivalence): the conversion of a list of formulas that shares nodes, and keeps what it has converted,
  gives for each formula the existential form of the tree, whose states are those of the formula; it fails on
  none of the formulas of the grammar without \<open>XOR\<close> and \<open>EQ\<close>.\<close>

theorem existential_dag_correct:
  assumes "closed S" "\<forall>f\<in>set fs. plain f"
  shows "\<exists>es. Ctlp_FormulaDAGConvertToExistentialFormDAG fs = Inr es
    \<and> list_all2 (\<lambda>f e. Ctlp_FormulaConvertToExistentialForm f = Inr e \<and> checkable e \<and> ctl_sem S e = ctl_sem S f) fs es"
proof -
  obtain es where es: "rmap Ctlp_FormulaConvertToExistentialForm fs = Inr es" using existential_list [OF assms(2)] by blast
  then have "list_all2 (\<lambda>f e. Ctlp_FormulaConvertToExistentialForm f = Inr e) fs es" by (simp add: rmap_eq_Inr_iff)
  then have "list_all2 (\<lambda>f e. Ctlp_FormulaConvertToExistentialForm f = Inr e \<and> checkable e \<and> ctl_sem S e = ctl_sem S f) fs es"
  proof (rule list.rel_mono_strong)
    fix f e assume f: "f \<in> set fs" and e: "Ctlp_FormulaConvertToExistentialForm f = Inr e"
    have "checkable e" using existential_checkable [of f] assms(2) f e by auto
    with e existential_form_sem [OF assms(1) e]
    show "Ctlp_FormulaConvertToExistentialForm f = Inr e \<and> checkable e \<and> ctl_sem S e = ctl_sem S f" by simp
  qed
  then show ?thesis by (simp add: Ctlp_FormulaDAGConvertToExistentialFormDAG_def dag_array_convert dag_ok_def es)
qed

theorem existential_dag_correct_witness:
  "\<exists>e1 e2. Ctlp_FormulaDAGConvertToExistentialFormDAG [Ctlp_EF has_q, Ctlp_AG (Ctlp_EF has_q)] = Inr [e1, e2]
     \<and> ctl_sem net_system e1 = {before, after}"
proof -
  have "ctl_sem net_system (Ctlp_EF has_q) = {before, after}"
    using net_reaches_q EF_as_EU [OF net_closed_system, of has_q] by simp
  with existential_dag_correct [OF net_closed_system, of "[Ctlp_EF has_q, Ctlp_AG (Ctlp_EF has_q)]"] show ?thesis
    by (auto simp: list_all2_Cons1 simp del: ctl_sem.simps)
qed

text \<open>C14 (error): the checker computes both operands of an equivalence and of an exclusive or, and then always
  stops on \<open>assert(false)\<close>: \<open>a = b\<close> and \<open>a ^ b\<close> cannot be checked. Given are a library that behaves as
  documented, empty caches, a model with an initial state and finitely many reachable states, and operands of
  supported operators whose predicates select the states with their label; with fair time the fair steps also
  reach all reachable states, else the reverse of the transition relation stays inside them or the named local
  transitions make exactly its steps from there. So no other error comes first.\<close>

theorem parity_aborts:
  assumes "ctl_library K" "ctl_views K C m fair hm h S" "fair \<or> model_reversible (ct_rel K) C m (k_states S) h"
    and "checkable f" "ctl_labelled K C m S f" "checkable g" "ctl_labelled K C m S g" "m_reached m = {}" "m_predRel m = Hnull (rel_hom (ct_rel K))"
    and "F = Ctlp_XOR f g \<or> F = Ctlp_EQ f g"
  shows "getStateVerifying K C F need_exact (setFairTime fair (CTLChecker_of K m)) = Inl (Abort ''assert(0)'')"
  using ctl_library.parity_fails [OF assms(1) seen_model [OF assms(2,3)] assms(4-7,10), of need_exact]
    ctl_library.fresh_good [OF assms(1,8,9), of C fair S]
  by (simp add: ctl_library.fails_def [OF assms(1)])

theorem parity_aborts_witness:
  "getStateVerifying net_lib (decl_calls 1) (Ctlp_XOR has_q Ctlp_TRUE) False (setFairTime False (CTLChecker_of net_lib net_model))
     = Inl (Abort ''assert(0)'')"
  by (rule parity_aborts [OF lin_ctl.ctl_library_axioms net_views net_reversible _ net_labelled _ _ net_fresh, of Ctlp_TRUE]) simp_all

section \<open>Deadlocks\<close>

text \<open>C13 (functional): given a library that behaves as documented, on any model with an initial state and finitely
  many reachable states (with fair time, when the fair steps also reach all of them), started with empty caches,
  \<open>getReachableDeadlocks\<close> answers the reachable states without a successor, and \<open>hasSCCs\<close> whether there is an
  infinite path of reachable states. Both take the reverse of the whole relation or none at all, so that nothing
  is asked of the named transitions.\<close>

theorem getReachableDeadlocks_correct:
  assumes "ctl_library K" "ctl_views K C m fair hm h S"
    and "m_reached m = {}" "m_predRel m = Hnull (rel_hom (ct_rel K))"
  shows "(\<exists>c. getReachableDeadlocks K C (setFairTime fair (CTLChecker_of K m))
      = Inr ({s \<in> k_states S. \<forall>t. \<not> k_step S s t}, c))
    \<and> (\<exists>c. hasSCCs K C (setFairTime fair (CTLChecker_of K m))
      = Inr (\<exists>p. \<forall>i. p i \<in> k_states S \<and> k_step S (p i) (p (Suc i)), c))"
proof -
  note good = ctl_library.fresh_good [OF assms(1,3,4), of C fair S]
  have "chains (k_step S) (k_states S) \<noteq> {} \<longleftrightarrow> (\<exists>p. \<forall>i. p i \<in> k_states S \<and> k_step S (p i) (p (Suc i)))"
    by (auto simp: chains_def)
  then show ?thesis
    using yieldsD [OF ctl_library.views_dead [OF assms(1,2)] good] yieldsD [OF ctl_library.views_scc [OF assms(1,2)] good]
    by (auto simp: dead_def)
qed

theorem getReachableDeadlocks_correct_witness:
  "\<exists>c. getReachableDeadlocks net_lib (decl_calls 1) (setFairTime False (CTLChecker_of net_lib net_model)) = Inr ({after}, c)"
proof -
  have "{s \<in> k_states net_system. \<forall>t. \<not> k_step net_system s t} = {after}"
    using before_after before_neq_after by auto
  with getReachableDeadlocks_correct [OF lin_ctl.ctl_library_axioms net_views net_fresh] show ?thesis by simp
qed

end
