(* ===== verification/Spec2Isabelle.thy ===== *)
theory Spec2Isabelle imports Gal_Type_Props Petri_Props Its_Props Gal_Invert Gal_Dve Ctl_Props begin

text \<open>
  libITS manipulates \<^emph>\<open>Instantiable Transition Systems\<close>: components with a set of states, local
  transitions and labelled transitions, all represented symbolically by decision diagrams and by
  homomorphisms on them (the library libDDD). This development models the parts of \<open>src/its\<close> that
  decide what those symbolic objects mean, and the model checker of \<open>src/CTL\<close> on top of them.

  \<^bold>\<open>Prelude.\<close> \<open>Its_Prelude\<close>: the values of C++ the code uses (results that may be an exception, an
  abort or undefined behaviour; 32-bit \<open>int\<close>; \<open>std::string\<close> scanning and printing; ordered sets).

  \<^bold>\<open>Guarded Action Language expressions\<close> (\<open>src/its/gal\<close>).
  \<^item> \<open>Gal_Syntax\<close>: the node classes of \<open>PIntExpression.cpp\<close> and \<open>PBoolExpression.cpp\<close>, tagged
    constants, \<open>constEval\<close> of every operator.
  \<^item> \<open>Gal_Factory\<close>: the two factories. Hash-consing is the identity, since equal nodes are equal
    values; the order of shared nodes by address is the arbitrary parameter \<open>heap_order\<close>.
  \<^item> \<open>Gal_Support\<close>, \<open>Gal_Eval\<close>, \<open>Gal_Assert\<close>: the virtual methods, one definition per override and one
    recursive function per method that dispatches to them.
  \<^item> \<open>Gal_Semantics\<close>: the reference semantics (a value or none, for a valuation of the variables);
    \<open>Gal_Sound\<close>, \<open>Gal_Rewrite\<close>, \<open>Gal_Wf\<close>: evaluation, assertions and renaming of indexes respect it.
  \<^item> \<open>Gal_Env\<close> (\<open>Environment.hpp\<close>): sorted lists of global variables and the renamings between them.
  \<^item> \<open>Gal_IntExpr\<close>, \<open>Gal_IntSound\<close> (\<open>IntExpression.cpp\<close>): expressions with their environment.
  \<^item> \<open>Gal_Names\<close> (\<open>IntExpression.cpp\<close>, \<open>Variable.cpp\<close>): the tables of variable names.
  \<^item> \<open>Gal_Props\<close>: the properties of these parts.

  \<^bold>\<open>Symbolic evaluation of GAL\<close> (\<open>src/its/gal/ExprHom.cpp\<close>, \<open>GALOrder.hh\<close>). The decision diagrams and the
  application of homomorphisms are a parameter \<open>lib\<close> of every definition; the locales \<open>dd_nodes\<close>
  (\<open>Gal_Query\<close>), \<open>dd_homs\<close>, \<open>dd_selectors\<close> and \<open>dd_systems\<close> state, each extending the one before, what the code
  relies on: a node has a level and edges that partition the values, building a node and applying a homomorphism
  do what libDDD documents, and the negation of a selector made by the code is what its method \<open>negate\<close> answers.
  \<^item> \<open>Gal_Hom\<close>: \<open>query\<close>, \<open>queryEval\<close>, \<open>assignExpr\<close> and the phases of each homomorphism; \<open>Gal_Select\<close>: \<open>predicate\<close>
    with its visitor, \<open>syncAssignExpr\<close>; \<open>Gal_Invert\<close>: the inverse of an assignment. For \<open>syncAssignExpr\<close> and the
    inverse the definitions are given, without a theorem on the diagrams they compute.
  \<^item> \<open>Gal_Canon\<close>, \<open>Gal_Rename\<close>, \<open>Gal_Resolve\<close>, \<open>Gal_Compare\<close>: the form of the expressions that are evaluated,
    their reading over the global variables, and one resolution step, which makes them smaller.
  \<^item> \<open>Gal_Query\<close>, \<open>Gal_Query_Sound\<close>, \<open>Gal_Assign\<close>, \<open>Gal_Assign_Sound\<close>, \<open>Gal_Select_Sound\<close>: a query splits the
    paths of a diagram by the value of the expression, an assignment updates each path, a predicate keeps
    those on which it holds.
  \<^item> \<open>Gal_Diagram\<close>, \<open>Gal_Diagram_Select\<close>, \<open>Gal_Diagram_Type\<close>: diagrams as trees, an instance of the library on which
    the code runs; the locales are interpreted on it and the witnesses evaluate it.

  \<^bold>\<open>GAL systems\<close> (\<open>Statements.cpp\<close>, \<open>GAL.cpp\<close>, \<open>GALType.cpp\<close> of \<open>src/its/gal\<close>).
  \<^item> \<open>Gal_System\<close>: statements, guarded actions and the operations that build a system; \<open>Gal_System_Wf\<close>: they
    keep it well formed, so that every expression only mentions what is declared.
  \<^item> \<open>Gal_Type\<close>: the homomorphisms of statements, the labelled and local transitions, orders, states;
    \<open>Gal_Order\<close>: the order of the variables. \<open>Gal_Dve\<close>: the variant of the type for systems translated from DVE.
  \<^item> \<open>Gal_Steps\<close>: the semantics of statements on sets of states; \<open>Gal_Type_Sound\<close>: the homomorphisms compute it.
  \<^item> \<open>Gal_Type_Props\<close>: the properties of these two parts.

  \<^bold>\<open>Types and Petri nets\<close> (\<open>src/its\<close>, \<open>src/its/petri\<close>).
  \<^item> \<open>Hom_Interface\<close>: libDDD as locales. Its sources are a submodule that is not part of the repository;
    \<open>hom_algebra\<close> states the documented meaning of composition, union, \<open>ITE\<close>, negation of selectors,
    \<open>ddd_library\<close> that of the basic homomorphisms on variables and of \<open>localApply\<close>; both are
    interpreted on linear maps of sets of paths.
  \<^item> \<open>Var_Order\<close> (\<open>Ordering.cpp\<close>): variable orders.
  \<^item> \<open>Predicates\<close> (\<open>TypeBasics.cpp\<close>): the parser of predicates.
  \<^item> \<open>Petri_Net\<close> (\<open>PNet.cpp\<close>, \<open>TPNet.cpp\<close>, \<open>Arc.hh\<close>, \<open>Marking.hh\<close>, \<open>PTransition.cpp\<close>, \<open>TimeConstraint.hh\<close>):
    the nets and the operations that build them.
  \<^item> \<open>Petri_Semantics\<close> (\<open>TPNetSemantics.hpp\<close>, \<open>PNetType.hh\<close>, \<open>TPNetType.hh\<close>): their homomorphisms;
    \<open>Petri_Sound\<close>, \<open>Petri_Clocks\<close>, \<open>Petri_Timed\<close>: they implement the token game and the
    discrete-time semantics, given as a step relation.
  \<^item> \<open>Petri_Props\<close>: the properties of these parts.

  \<^bold>\<open>Composites and the model\<close> (\<open>src/its\<close>, \<open>src/its/composite\<close>).
  \<^item> \<open>Type_Basics\<close> (\<open>TypeBasics.cpp\<close>, \<open>TypeCacher.cpp\<close>): the order and default state of a type, and the cache
    in front of it; a cached value is what the type would answer.
  \<^item> \<open>Composite\<close> (\<open>Composite.cpp\<close>, \<open>TComposite.hh\<close>, \<open>CState.hh\<close>, \<open>Synchronization.hh\<close>): the data of composites
    and the operations that build them, with their invariant.
  \<^item> \<open>Composite_Type\<close> (\<open>CompositeType.cpp\<close>): the transitions of a composite, from those of its instances.
    \<open>Composite_Sound\<close>: the locale \<open>its_contract\<close> states what a type promises to the composites that use it
    (its homomorphisms compute its steps), and a composite keeps the contract when its instances do.
    \<open>Its_Hierarchy\<close>: hence all types of a list of declarations keep it, for leaves that do; it is interpreted
    on Petri nets.
  \<^item> \<open>Its_Model\<close> (\<open>ITSModel.cpp\<close>): declared types, main instance, transition relation, reachable states,
    reverse relation, witness paths. \<open>Its_Search\<close>: the locale \<open>relations\<close> states the documented behaviour of
    \<open>fixpoint\<close>, \<open>invert\<close> and \<open>*\<close>; the search for the states, and in \<open>Its_Witness\<close> for the paths, is proved over
    it: backward layers are the distances to the goal, so that the path found is a shortest one.
    \<open>Its_Net_Model\<close>: models with Petri nets as leaves.
  \<^item> \<open>Its_Orders\<close> (\<open>ITSModel.cpp\<close>, \<open>Ordering.cpp\<close>): files of variable orders.
  \<^item> \<open>Its_Props\<close>: the properties of these parts.

  \<^bold>\<open>CTL\<close> (\<open>src/CTL\<close>).
  \<^item> \<open>Ctl_Formula\<close>, \<open>Ctl_Convert\<close>, \<open>Ctl_Forward\<close> (\<open>ctlp/ctlpUtil.c\<close>): formulas, the tests on them, and the conversions
    to existential, simple, monotonic, compared and forward form. A formula shared by reference counts or by
    the unique table of a DAG is the same value.
  \<^item> \<open>Ctl_Semantics\<close>: the semantics of formulas over runs (a run stays in a state without a successor);
    the conversions keep it. \<open>Ctl_Forward_Sound\<close>: the forward form has the same verdict.
  \<^item> \<open>Ctl_Checker\<close> (\<open>mc/ctlCheck.cpp\<close>, \<open>bin/main.cpp\<close>): \<open>getStateVerifying\<close> and the operations it uses, with the
    state the class keeps (the relations it builds on demand) and the aborts of the code as errors; deadlocks,
    timelocks and the loop of the tool over the formulas.
  \<^item> \<open>Ctl_Fixpoints\<close>: the locale \<open>ctl_library\<close> states the behaviour of the library operations on which the
    checker relies; it is interpreted on linear maps. \<open>Ctl_Sound\<close> (operations that keep the caches right),
    \<open>Ctl_Verify\<close>, \<open>Ctl_Operators\<close>, \<open>Ctl_Answers\<close>: every operator answers the states of its formula, and an inexact
    answer is empty only when the exact one is. \<open>Ctl_Verdict\<close>: the verdicts of the tool.
  \<^item> \<open>Ctl_Props\<close>: the properties, and a run of the checker on the model of a net.

  \<^bold>\<open>Bounds and fuel.\<close> Recursions are on the data or have a termination proof, with these exceptions.
  \<open>CompositeType::getSuccs\<close> calls itself on the parts named \<open>self\<close>: \<open>depth\<close> bounds the nested calls, and any
  bound above the longest chain of such calls is enough (hypothesis \<open>declaration_ok\<close>, which asks for a rank
  that decreases along \<open>self\<close> parts). The search of \<open>findPath\<close> may run forever: it is a
  \<open>partial_function\<close>, and it is proved to end when the goal can be reached. The recursions of \<open>query\<close> and
  \<open>assignExpr\<close> go down a diagram and into expressions built on the way; their fuel is a number of nested calls,
  and \<open>query_fuel\<close> and \<open>assign_fuel\<close>, computed from the number of variables and the size of the expression,
  are proved to be enough; a negation in a guard costs one unit more. The nested calls of a GAL system have a
  bound as those of composites.

  \<^bold>\<open>Integers.\<close> The values of GAL expressions keep the 32 bits of C++ \<open>int\<close>, and those of tagged constants their 31.
  A value that an assignment of GAL writes must fit into \<open>DDD::val_t\<close> (\<open>val_cast\<close>), whose width is not in the
  sources. The markings and clocks of nets are unbounded integers: the properties of nets hold for runs whose
  values fit into \<open>val_t\<close>. Indexes of variables are unbounded too.

  \<^bold>\<open>Limits of the properties.\<close> The text before each property lists its conditions. The main ones:
  \<^item> GAL systems: no synchronous assignments (\<open>sync_order_wrong\<close>), no left-hand side whose index reads the array that is
    written (\<open>own_index_aborts\<close>), no Boolean used as an integer.
  \<^item> Nets: the token game is that of ordinary nets (\<open>twice_goes_negative\<close>, \<open>zero_output_blocks\<close>). The
    invariants of time Petri nets are over \<open>hom_reach\<close>, the states to which the homomorphisms built by the code
    (\<open>TPNet_homs\<close>) lead in any order; the bounds of clocks hold for all nets.
  \<^item> The reverse relation, witness paths and CTL: the named transitions of a model are its transition relation
    cut into pieces (\<open>model_relation\<close>) for nets and composites of nets, but not for GAL types with transient states or
    pauses (\<open>named_locals_ignore_transient\<close>). The reverse relation and CTL need it only when the reverse of the
    relation leaves the reachable states (\<open>model_reversible\<close>), and not at all with fair time; deadlocks never.

  \<^bold>\<open>Not modelled.\<close>
  \<^item> Readers and writers of models (XML, JSON, CAMI, RdPE, prod, Coloane, GAL to C, SMT) and printing: input and
    output. Hashing, comparison of addresses, reference counts: a shared node is the value it stands for.
  \<^item> The DVE, ETF and AIGER code (vendored from DiVinE, LTSmin and AIGER, mostly generated parsers) and its
    adapters; the CTL parser, which is generated; Spot, which the code of \<open>src/LTL\<close> adapts.
  \<^item> In the CTL checker, explanations and witnesses (\<open>explain\<close>, \<open>buildWitness\<close>), which print; in \<open>ctlpUtil.c\<close> the
    formulas built from vectors of a text and the states kept in the nodes, which the checker does not use.
  \<^item> Observation of states and \<open>getVarRange\<close>, which visit the nodes of libDDD through its own visitor classes;
    the heuristics for variable orders, whose result is only a permutation; option parsing and the tools.
\<close>

end
